(* ===== verification/Prelude.thy ===== *)
theory Prelude
  imports Main "HOL-Library.Word"
begin

text \<open>
  Shared vocabulary of the development: the lemma collections the component theories
  feed, and the numbers denoted by lists of bits (least significant bit first), which is
  how every bit-vector operation of the program represents an operand.
\<close>

named_theorems gate_simps \<open>what a Boolean gate evaluates to\<close>
named_theorems ok_intros \<open>well-formedness of the terms the builders return\<close>

section \<open>Numbers of bit lists\<close>

text \<open>\<open>bv xs\<close> is the unsigned value of the bits \<open>xs\<close>.\<close>

primrec bv :: "bool list \<Rightarrow> nat" where
  "bv [] = 0"
| "bv (b # bs) = of_bool b + 2 * bv bs"

lemma bv_append [simp]: "bv (xs @ ys) = bv xs + 2 ^ length xs * bv ys"
  by (induction xs) (auto simp: algebra_simps)

lemma bv_less [simp]: "bv xs < 2 ^ length xs"
proof (induction xs)
  case (Cons b xs)
  then show ?case by (cases b) auto
qed simp

lemma bv_le: "bv xs \<le> 2 ^ length xs - 1"
  using bv_less[of xs] by linarith

lemma bv_replicate_False [simp]: "bv (replicate n False) = 0"
  by (induction n) auto

lemma bv_replicate_True [simp]: "bv (replicate n True) = 2 ^ n - 1"
proof (induction n)
  case (Suc n)
  have "(1::nat) \<le> 2 ^ n" by simp
  then have "1 + 2 * (2 ^ n - 1) = 2 * 2 ^ n - (1::nat)" by linarith
  with Suc show ?case by simp
qed simp

text \<open>One bit in front of a number modulo a power of two.\<close>

lemma bit_mod: "(of_bool b + 2 * m) mod (2 * 2 ^ n) = of_bool b + 2 * (m mod (2 ^ n :: nat))"
  by (cases b) (auto simp: mod_mult2_eq mod_Suc div_mult2_eq)

lemma bit_div: "(of_bool b + 2 * m) div (2 * 2 ^ n) = m div (2 ^ n :: nat)"
  by (cases b) (auto simp: div_mult2_eq)

lemma bv_map_Not: "bv (map Not xs) + bv xs + 1 = 2 ^ length xs"
  by (induction xs) auto

lemma bv_inj: "length xs = length ys \<Longrightarrow> bv xs = bv ys \<longleftrightarrow> xs = ys"
proof (induction xs ys rule: list_induct2)
  case (Cons x xs y ys)
  have "bv (x # xs) = bv (y # ys) \<longleftrightarrow> x = y \<and> bv xs = bv ys"
    by (cases x; cases y) (auto; presburger)+
  with Cons show ?case by auto
qed simp

lemma bv_eq_0_iff: "bv xs = 0 \<longleftrightarrow> (\<forall>b \<in> set xs. \<not> b)"
  by (induction xs) auto

lemma bv_take: "bv (take n xs) = bv xs mod 2 ^ n"
proof (induction xs arbitrary: n)
  case (Cons b xs)
  show ?case
  proof (cases n)
    case (Suc m)
    with Cons show ?thesis by (simp add: bit_mod)
  qed simp
qed simp

lemma bv_drop: "bv (drop n xs) = bv xs div 2 ^ n"
proof (induction xs arbitrary: n)
  case (Cons b xs)
  show ?case
  proof (cases n)
    case (Suc m)
    with Cons show ?thesis by (simp add: bit_div)
  qed simp
qed simp

lemma bv_nth: "i < length xs \<Longrightarrow> xs ! i = odd (bv xs div 2 ^ i)"
proof (induction xs arbitrary: i)
  case (Cons b xs)
  show ?case
  proof (cases i)
    case 0
    then show ?thesis by (cases b) auto
  next
    case (Suc m)
    with Cons show ?thesis by (simp add: bit_div)
  qed
qed simp

text \<open>The bits of a number, and its signed (two's complement) reading.\<close>

fun nbits :: "nat \<Rightarrow> nat \<Rightarrow> bool list" where
  "nbits 0 n = []"
| "nbits (Suc k) n = odd n # nbits k (n div 2)"

lemma length_nbits [simp]: "length (nbits k n) = k"
  by (induction k n rule: nbits.induct) auto

lemma bv_nbits [simp]: "bv (nbits k n) = n mod 2 ^ k"
proof (induction k n rule: nbits.induct)
  case (2 k n)
  have "n mod (2 * 2 ^ k) = 2 * (n div 2 mod 2 ^ k) + n mod 2"
    by (simp add: mod_mult2_eq)
  with 2 show ?case by (simp add: odd_iff_mod_2_eq_one)
qed simp

definition sbv :: "bool list \<Rightarrow> int" where
  "sbv xs = (if xs \<noteq> [] \<and> last xs then int (bv xs) - 2 ^ length xs else int (bv xs))"

lemma sbv_cong: "xs \<noteq> [] \<Longrightarrow> (sbv xs - int (bv xs)) mod 2 ^ length xs = 0"
  by (simp add: sbv_def)

lemma bv_last: "xs \<noteq> [] \<Longrightarrow> last xs \<longleftrightarrow> 2 ^ (length xs - 1) \<le> bv xs"
proof (induction xs rule: rev_induct)
  case (snoc b xs)
  have "bv xs < 2 ^ length xs" by simp
  then show ?case by (cases b) (auto simp: not_le)
qed simp

end
