(* ===== verification/Heap.thy ===== *)
theory Heap
  imports Prelude "HOL-Library.Multiset" "HOL-Library.Monad_Syntax"
begin

text \<open>
  The binary heap of integers (src/sources/Z3/src/util/heap.h). \<open>m_values\<close> holds the heap from
  index 1 on (index 0 holds -1), \<open>m_value2indices\<close> the index of every value, 0 for the values that
  are not in the heap. The comparison, a template parameter that may read state outside the heap,
  is the argument \<open>lt\<close>. Values are the non-negative \<^verbatim>\<open>int\<close>s, indices are natural numbers.
  Debug checks and the displaying functions are left out.
\<close>

section \<open>State and helpers\<close>

record heap =
  m_values :: "int list"
  m_value2indices :: "nat list"

type_synonym less_than = "int \<Rightarrow> int \<Rightarrow> bool"

definition left :: "nat \<Rightarrow> nat" where "left i = 2 * i"

definition right :: "nat \<Rightarrow> nat" where "right i = 2 * i + 1"

definition parent :: "nat \<Rightarrow> nat" where "parent i = i div 2"

lemma parent_less [simp, termination_simp]: "0 < parent i \<Longrightarrow> parent i < i"
  by (simp add: parent_def)

definition index_of :: "heap \<Rightarrow> int \<Rightarrow> nat" where
  "index_of h v = m_value2indices h ! nat v"

definition set_value :: "nat \<Rightarrow> int \<Rightarrow> heap \<Rightarrow> heap" where
  "set_value i v h = h\<lparr>m_values := (m_values h)[i := v]\<rparr>"

definition set_index :: "int \<Rightarrow> nat \<Rightarrow> heap \<Rightarrow> heap" where
  "set_index v i h = h\<lparr>m_value2indices := (m_value2indices h)[nat v := i]\<rparr>"

definition pop_back :: "heap \<Rightarrow> heap" where
  "pop_back h = h\<lparr>m_values := butlast (m_values h)\<rparr>"

text \<open>Writing a value at an index and the index at the value.\<close>

definition place :: "nat \<Rightarrow> int \<Rightarrow> heap \<Rightarrow> heap" where
  "place i v h = set_index v i (set_value i v h)"

section \<open>Moving a value\<close>

text \<open>Both loops carry the value \<open>val\<close> that has to be placed and the hole \<open>idx\<close>.\<close>

fun move_up_loop :: "less_than \<Rightarrow> int \<Rightarrow> nat \<Rightarrow> heap \<Rightarrow> nat \<times> heap" where
  "move_up_loop lt val idx h =
     (let parent_idx = parent idx in
      if parent_idx = 0 \<or> \<not> lt val (m_values h ! parent_idx) then (idx, h)
      else move_up_loop lt val parent_idx (place idx (m_values h ! parent_idx) h))"

definition move_up :: "less_than \<Rightarrow> nat \<Rightarrow> heap \<Rightarrow> heap" where
  "move_up lt idx h =
     (let val = m_values h ! idx;
          (idx', h') = move_up_loop lt val idx h
      in place idx' val h')"

text \<open>From index 0 the loop would not end: not returning is \<^const>\<open>None\<close>.\<close>

partial_function (option) move_down_loop ::
  "less_than \<Rightarrow> int \<Rightarrow> nat \<Rightarrow> nat \<Rightarrow> heap \<Rightarrow> (nat \<times> heap) option" where
  "move_down_loop lt val sz idx h =
     (let left_idx = left idx in
      if left_idx \<ge> sz then Some (idx, h)
      else
        let right_idx = right idx;
            min_idx = (if right_idx < sz \<and> lt (m_values h ! right_idx) (m_values h ! left_idx)
                       then right_idx else left_idx);
            min_value = m_values h ! min_idx
        in if \<not> lt min_value val then Some (idx, h)
           else move_down_loop lt val sz min_idx (place idx min_value h))"

definition move_down :: "less_than \<Rightarrow> nat \<Rightarrow> heap \<Rightarrow> heap option" where
  "move_down lt idx h =
     (let val = m_values h ! idx; sz = length (m_values h)
      in do {
        (idx', h') \<leftarrow> move_down_loop lt val sz idx h;
        Some (place idx' val h')
      })"

section \<open>The operations\<close>

definition set_bounds :: "nat \<Rightarrow> heap \<Rightarrow> heap" where
  "set_bounds s h = h\<lparr>m_value2indices :=
     take s (m_value2indices h) @ replicate (s - length (m_value2indices h)) 0\<rparr>"

definition new_heap :: "nat \<Rightarrow> heap" where
  "new_heap s = set_bounds s \<lparr>m_values = [-1], m_value2indices = []\<rparr>"

definition heap_empty :: "heap \<Rightarrow> bool" where
  "heap_empty h = (length (m_values h) = 1)"

definition heap_contains :: "heap \<Rightarrow> int \<Rightarrow> bool" where
  "heap_contains h val = (val < int (length (m_value2indices h)) \<and> index_of h val \<noteq> 0)"

definition heap_reset :: "heap \<Rightarrow> heap" where
  "heap_reset h =
     (if heap_empty h then h
      else \<lparr>m_values = [-1], m_value2indices = replicate (length (m_value2indices h)) 0\<rparr>)"

definition reserve :: "nat \<Rightarrow> heap \<Rightarrow> heap" where
  "reserve s h = (if s > length (m_value2indices h) then set_bounds s h else h)"

definition min_value :: "heap \<Rightarrow> int" where
  "min_value h = m_values h ! 1"

definition erase_min :: "less_than \<Rightarrow> heap \<Rightarrow> (int \<times> heap) option" where
  "erase_min lt h =
     (let result = m_values h ! 1 in
      if length (m_values h) = 2 then Some (result, pop_back (set_index result 0 h))
      else
        let last_val = last (m_values h);
            h1 = pop_back (set_index result 0 (place 1 last_val h))
        in do {
          h2 \<leftarrow> move_down lt 1 h1;
          Some (result, h2)
        })"

definition erase :: "less_than \<Rightarrow> int \<Rightarrow> heap \<Rightarrow> heap option" where
  "erase lt val h =
     (let idx = index_of h val in
      if idx = length (m_values h) - 1 then Some (pop_back (set_index val 0 h))
      else
        let last_val = last (m_values h);
            h1 = pop_back (set_index val 0 (place idx last_val h));
            parent_idx = parent idx
        in if parent_idx \<noteq> 0 \<and> lt last_val (m_values h1 ! parent idx)
           then Some (move_up lt idx h1)
           else move_down lt idx h1)"

definition decreased :: "less_than \<Rightarrow> int \<Rightarrow> heap \<Rightarrow> heap" where
  "decreased lt val h = move_up lt (index_of h val) h"

definition increased :: "less_than \<Rightarrow> int \<Rightarrow> heap \<Rightarrow> heap option" where
  "increased lt val h = move_down lt (index_of h val) h"

definition heap_insert :: "less_than \<Rightarrow> int \<Rightarrow> heap \<Rightarrow> heap" where
  "heap_insert lt val h =
     (let idx = length (m_values h);
          h1 = set_index val idx h;
          h2 = h1\<lparr>m_values := m_values h1 @ [val]\<rparr>
      in move_up lt idx h2)"

text \<open>\<open>find_le\<close>: a stack of indices, pruned at the first value above \<open>val\<close>.\<close>

partial_function (option) find_le_loop ::
  "less_than \<Rightarrow> int \<Rightarrow> heap \<Rightarrow> nat list \<Rightarrow> int list \<Rightarrow> int list option" where
  "find_le_loop lt val h todo result =
     (if todo = [] then Some result
      else
        let index = last todo; todo' = butlast todo in
        if index < length (m_values h) \<and> \<not> lt val (m_values h ! index)
        then find_le_loop lt val h (todo' @ [left index, right index]) (result @ [m_values h ! index])
        else find_le_loop lt val h todo' result)"

definition find_le :: "less_than \<Rightarrow> int \<Rightarrow> heap \<Rightarrow> int list option" where
  "find_le lt val h = find_le_loop lt val h [1] []"

end
