(* ===== verification/Heap_Sound.thy ===== *)
theory Heap_Sound
  imports Heap
begin

text \<open>
  Correctness of the heap: the two vectors stay inverse to each other, every value stays above its
  parent in the order, the operations have the effect on the set of contained values that their
  names say, and the value at index 1 is a least one. The comparison is any strict weak order
  (locale \<open>weak_order\<close>).
\<close>

section \<open>The vectors are inverse to each other\<close>

definition consist :: "heap \<Rightarrow> bool" where
  "consist h \<longleftrightarrow> m_values h \<noteq> []
     \<and> (\<forall>i. 1 \<le> i \<and> i < length (m_values h) \<longrightarrow>
          0 \<le> m_values h ! i \<and> nat (m_values h ! i) < length (m_value2indices h) \<and> index_of h (m_values h ! i) = i)
     \<and> (\<forall>v < length (m_value2indices h). m_value2indices h ! v \<noteq> 0 \<longrightarrow>
          m_value2indices h ! v < length (m_values h) \<and> m_values h ! (m_value2indices h ! v) = int v)"

definition elems :: "heap \<Rightarrow> int set" where
  "elems h = {v. 0 \<le> v \<and> heap_contains h v}"

lemma place_fields [simp]:
  "m_values (place i v h) = (m_values h)[i := v]"
  "m_value2indices (place i v h) = (m_value2indices h)[nat v := i]"
  by (simp_all add: place_def set_index_def set_value_def)

lemma consist_value:
  assumes "consist h" "1 \<le> i" "i < length (m_values h)"
  shows "0 \<le> m_values h ! i" "nat (m_values h ! i) < length (m_value2indices h)"
    and "m_value2indices h ! nat (m_values h ! i) = i"
  using assms(1)[unfolded consist_def index_of_def, THEN conjunct2, THEN conjunct1, rule_format, OF conjI[OF assms(2,3)]]
  by (rule conjunct1, rule conjunct1[OF conjunct2], rule conjunct2[OF conjunct2])

lemma consist_index:
  assumes "consist h" "v < length (m_value2indices h)" "m_value2indices h ! v \<noteq> 0"
  shows "m_value2indices h ! v < length (m_values h)" "m_values h ! (m_value2indices h ! v) = int v"
  using assms(1)[unfolded consist_def, THEN conjunct2, THEN conjunct2, rule_format, OF assms(2,3)]
  by (rule conjunct1, rule conjunct2)

lemma consist_inj:
  assumes "consist h" "1 \<le> i" "i < length (m_values h)" "1 \<le> j" "j < length (m_values h)"
    and "m_values h ! i = m_values h ! j"
  shows "i = j"
  using consist_value(3)[OF assms(1-3)] consist_value(3)[OF assms(1,4,5)] assms(6) by metis

lemma elems_values:
  assumes "consist h"
  shows "elems h = {m_values h ! i | i. 1 \<le> i \<and> i < length (m_values h)}"
proof (intro set_eqI iffI)
  fix v assume "v \<in> elems h"
  then have v: "0 \<le> v" "nat v < length (m_value2indices h)" "m_value2indices h ! nat v \<noteq> 0"
    by (auto simp: elems_def heap_contains_def index_of_def)
  then show "v \<in> {m_values h ! i | i. 1 \<le> i \<and> i < length (m_values h)}"
    using consist_index[OF assms v(2,3)] by (auto intro!: exI[of _ "m_value2indices h ! nat v"])
next
  fix v assume "v \<in> {m_values h ! i | i. 1 \<le> i \<and> i < length (m_values h)}"
  then obtain i where i: "v = m_values h ! i" "1 \<le> i" "i < length (m_values h)" by blast
  then show "v \<in> elems h"
    using consist_value[OF assms i(2,3)] by (auto simp: elems_def heap_contains_def index_of_def)
qed

text \<open>Exchanging two values, with their indices.\<close>

definition swap :: "nat \<Rightarrow> nat \<Rightarrow> heap \<Rightarrow> heap" where
  "swap i j h = place j (m_values h ! i) (place i (m_values h ! j) h)"

lemma swap_consist:
  assumes h: "consist h" and i: "1 \<le> i" "i < length (m_values h)" and j: "1 \<le> j" "j < length (m_values h)" and "i \<noteq> j"
  shows "consist (swap i j h)"
    and "\<And>k. k < length (m_values h) \<Longrightarrow> m_values (swap i j h) ! k =
      (if k = i then m_values h ! j else if k = j then m_values h ! i else m_values h ! k)"
    and "length (m_values (swap i j h)) = length (m_values h)"
    and "length (m_value2indices (swap i j h)) = length (m_value2indices h)"
proof -
  let ?vi = "m_values h ! i" and ?vj = "m_values h ! j"
  note ci = consist_value[OF h i] and cj = consist_value[OF h j]
  have ne: "?vi \<noteq> ?vj" using consist_inj[OF h i j] assms(6) by blast
  then have ne': "nat ?vi \<noteq> nat ?vj" using ci(1) cj(1) by simp
  show vals: "m_values (swap i j h) ! k =
      (if k = i then ?vj else if k = j then ?vi else m_values h ! k)" if "k < length (m_values h)" for k
    using that assms(6) by (simp add: swap_def nth_list_update)
  show len: "length (m_values (swap i j h)) = length (m_values h)"
    "length (m_value2indices (swap i j h)) = length (m_value2indices h)" by (simp_all add: swap_def)
  have idx: "m_value2indices (swap i j h) ! v = (if v = nat ?vi then j else if v = nat ?vj then i else m_value2indices h ! v)"
    if "v < length (m_value2indices h)" for v
    using that by (simp add: swap_def nth_list_update)
  show "consist (swap i j h)"
    unfolding consist_def len
  proof (intro conjI allI impI)
    show "m_values (swap i j h) \<noteq> []" using h by (simp add: swap_def consist_def)
    fix k assume k: "1 \<le> k \<and> k < length (m_values h)"
    note ck = consist_value[OF h k[THEN conjunct1] k[THEN conjunct2]]
    have dist: "m_values h ! k = ?vi \<longleftrightarrow> k = i" "m_values h ! k = ?vj \<longleftrightarrow> k = j"
      using consist_inj[OF h _ _ i, of k] consist_inj[OF h _ _ j, of k] k by auto
    show "0 \<le> m_values (swap i j h) ! k" "nat (m_values (swap i j h) ! k) < length (m_value2indices h)"
      using vals[of k] k ck ci cj by auto
    have "nat (m_values h ! k) = nat ?vi \<longleftrightarrow> k = i" "nat (m_values h ! k) = nat ?vj \<longleftrightarrow> k = j"
      using dist ck(1) ci(1) cj(1) by (metis eq_nat_nat_iff)+
    then show "index_of (swap i j h) (m_values (swap i j h) ! k) = k"
      using vals[of k] k ck ci cj ne' by (auto simp: index_of_def idx)
  next
    fix v assume v: "v < length (m_value2indices h)" "m_value2indices (swap i j h) ! v \<noteq> 0"
    have "m_value2indices h ! v \<noteq> i \<and> m_value2indices h ! v \<noteq> j" if "v \<noteq> nat ?vi" "v \<noteq> nat ?vj" "m_value2indices h ! v \<noteq> 0"
      using consist_index(2)[OF h v(1) that(3)] that(1,2) by auto
    then show "m_value2indices (swap i j h) ! v < length (m_values h)"
      "m_values (swap i j h) ! (m_value2indices (swap i j h) ! v) = int v"
      using v idx[OF v(1)] consist_index[OF h v(1)] i j ci(1) cj(1) assms(6) vals
      by (auto split: if_splits)
  qed
qed

lemma swap_elems:
  assumes "consist h" "1 \<le> i" "i < length (m_values h)" "1 \<le> j" "j < length (m_values h)" "i \<noteq> j"
  shows "elems (swap i j h) = elems h"
proof -
  note s = swap_consist[OF assms]
  have "(\<exists>k. v = m_values (swap i j h) ! k \<and> 1 \<le> k \<and> k < length (m_values h))
      \<longleftrightarrow> (\<exists>k. v = m_values h ! k \<and> 1 \<le> k \<and> k < length (m_values h))" for v
  proof
    assume "\<exists>k. v = m_values (swap i j h) ! k \<and> 1 \<le> k \<and> k < length (m_values h)"
    then obtain k where "v = m_values (swap i j h) ! k" "1 \<le> k" "k < length (m_values h)" by blast
    then show "\<exists>k. v = m_values h ! k \<and> 1 \<le> k \<and> k < length (m_values h)"
      using s(2)[of k] assms(2-5) by (auto split: if_splits)
  next
    assume "\<exists>k. v = m_values h ! k \<and> 1 \<le> k \<and> k < length (m_values h)"
    then obtain k where k: "v = m_values h ! k" "1 \<le> k" "k < length (m_values h)" by blast
    let ?k = "if k = i then j else if k = j then i else k"
    have "v = m_values (swap i j h) ! ?k" using s(2)[of ?k] k assms(2-6) by auto
    then show "\<exists>k. v = m_values (swap i j h) ! k \<and> 1 \<le> k \<and> k < length (m_values h)"
      using k assms(2-5) by (intro exI[of _ ?k]) auto
  qed
  then show ?thesis unfolding elems_values[OF assms(1)] elems_values[OF s(1)] s(3) by auto
qed

text \<open>A step of the loops is an exchange of the held value with the one at the next index.\<close>

lemma place_step:
  assumes "consist (place i v h)" "1 \<le> i" "i < length (m_values h)" "1 \<le> j" "j < length (m_values h)" "i \<noteq> j"
  shows "place j v (place i (m_values h ! j) h) = swap i j (place i v h)"
proof -
  have l: "length (m_values (place i v h)) = length (m_values h)" by simp
  have vi: "m_values (place i v h) ! i = v" and vj: "m_values (place i v h) ! j = m_values h ! j"
    using assms by simp_all
  have "v \<noteq> m_values h ! j"
    using consist_inj[of "place i v h" i j] assms vi vj by auto
  moreover have "0 \<le> v" "0 \<le> m_values h ! j"
    using consist_value(1)[OF assms(1), of i] consist_value(1)[OF assms(1), of j] assms vi vj by simp_all
  ultimately have ne: "nat v \<noteq> nat (m_values h ! j)" by simp
  have "(m_value2indices h)[nat v := i, nat (m_values h ! j) := i, nat v := j]
      = (m_value2indices h)[nat (m_values h ! j) := i, nat v := j]"
    using ne by (metis list_update_overwrite list_update_swap)
  then show ?thesis
    unfolding swap_def vi vj by (simp add: place_def set_index_def set_value_def)
qed

section \<open>The heap order\<close>

definition edge_ok :: "less_than \<Rightarrow> (nat \<Rightarrow> int) \<Rightarrow> nat \<Rightarrow> bool" where
  "edge_ok lt f k \<longleftrightarrow> (parent k \<noteq> 0 \<longrightarrow> \<not> lt (f k) (f (parent k)))"

text \<open>Ordered except above \<open>i\<close>, and except below \<open>i\<close>; the values around \<open>i\<close> are ordered.\<close>

definition up_ok :: "less_than \<Rightarrow> nat \<Rightarrow> (nat \<Rightarrow> int) \<Rightarrow> nat \<Rightarrow> bool" where
  "up_ok lt n f i \<longleftrightarrow> (\<forall>k < n. k \<noteq> i \<longrightarrow> edge_ok lt f k)
     \<and> (\<forall>k < n. parent k = i \<longrightarrow> parent i \<noteq> 0 \<longrightarrow> \<not> lt (f k) (f (parent i)))"

definition down_ok :: "less_than \<Rightarrow> nat \<Rightarrow> (nat \<Rightarrow> int) \<Rightarrow> nat \<Rightarrow> bool" where
  "down_ok lt n f i \<longleftrightarrow> (\<forall>k < n. parent k \<noteq> i \<longrightarrow> edge_ok lt f k)
     \<and> (\<forall>k < n. parent k = i \<longrightarrow> parent i \<noteq> 0 \<longrightarrow> \<not> lt (f k) (f (parent i)))"

definition value_at :: "heap \<Rightarrow> nat \<Rightarrow> int" where
  "value_at h k = m_values h ! k"

definition heap_inv :: "less_than \<Rightarrow> heap \<Rightarrow> bool" where
  "heap_inv lt h \<longleftrightarrow> consist h \<and> (\<forall>k < length (m_values h). edge_ok lt (value_at h) k)"

definition flip :: "nat \<Rightarrow> nat \<Rightarrow> (nat \<Rightarrow> int) \<Rightarrow> nat \<Rightarrow> int" where
  "flip i j f = (\<lambda>k. if k = i then f j else if k = j then f i else f k)"

lemma edge_ok_cong: "(\<And>k. k < n \<Longrightarrow> f k = g k) \<Longrightarrow> k < n \<Longrightarrow> edge_ok lt f k = edge_ok lt g k"
  by (cases "parent k = 0") (auto simp: edge_ok_def dest: parent_less[THEN order.strict_trans])

lemma parent_lt: "k < n \<Longrightarrow> parent k < n"
  by (simp add: parent_def)

lemma up_ok_cong: "(\<And>k. k < n \<Longrightarrow> f k = g k) \<Longrightarrow> i < n \<Longrightarrow> up_ok lt n f i = up_ok lt n g i"
  using edge_ok_cong[of n f g] parent_lt[of i n] by (simp add: up_ok_def)

lemma down_ok_cong: "(\<And>k. k < n \<Longrightarrow> f k = g k) \<Longrightarrow> i < n \<Longrightarrow> down_ok lt n f i = down_ok lt n g i"
  using edge_ok_cong[of n f g] parent_lt[of i n] by (simp add: down_ok_def)

lemma value_at_swap:
  assumes "consist h" "1 \<le> i" "i < length (m_values h)" "1 \<le> j" "j < length (m_values h)" "i \<noteq> j" "k < length (m_values h)"
  shows "value_at (swap i j h) k = flip i j (value_at h) k"
  using swap_consist(2)[OF assms(1-7)] by (simp add: value_at_def flip_def)

locale weak_order =
  fixes lt :: less_than
  assumes asym: "lt a b \<Longrightarrow> \<not> lt b a" and neg_trans: "\<not> lt a b \<Longrightarrow> \<not> lt b c \<Longrightarrow> \<not> lt a c"
begin

lemma lt_irrefl: "\<not> lt a a"
  using asym by blast

lemma lt_trans: "lt a b \<Longrightarrow> lt b c \<Longrightarrow> lt a c"
  using asym neg_trans by blast

lemma up_step:
  assumes up: "up_ok lt n f i" and i: "1 \<le> i" "i < n" and p: "parent i \<noteq> 0" "lt (f i) (f (parent i))"
  shows "up_ok lt n (flip i (parent i) f) (parent i)"
proof -
  let ?p = "parent i" and ?g = "flip i (parent i) f"
  have pi: "?p < i" using p(1) by simp
  have edges: "edge_ok lt f k" if "k < n" "k \<noteq> i" for k using up that by (simp add: up_ok_def)
  have grand: "\<not> lt (f k) (f ?p)" if "k < n" "parent k = i" for k using up that p(1) by (simp add: up_ok_def)
  show ?thesis
    unfolding up_ok_def
  proof (intro conjI allI impI)
    fix k assume k: "k < n" "k \<noteq> ?p"
    consider "k = i" | "k \<noteq> i" "parent k = i" | "k \<noteq> i" "parent k = ?p" | "k \<noteq> i" "parent k \<noteq> i" "parent k \<noteq> ?p" by blast
    then show "edge_ok lt ?g k"
    proof cases
      case 1
      then show ?thesis using asym[OF p(2)] pi by (simp add: edge_ok_def flip_def)
    next
      case 2
      then show ?thesis using grand[OF k(1)] k(2) pi by (auto simp: edge_ok_def flip_def)
    next
      case 3
      then have "\<not> lt (f k) (f ?p)" using edges[OF k(1)] p(1) by (simp add: edge_ok_def)
      then have "\<not> lt (f k) (f i)" using lt_trans p(2) by blast
      then show ?thesis using 3 k(2) pi by (simp add: edge_ok_def flip_def)
    next
      case 4
      then show ?thesis using edges[OF k(1)] k(2) by (simp add: edge_ok_def flip_def)
    qed
  next
    fix k assume k: "k < n" "parent k = ?p" "parent ?p \<noteq> 0"
    have pp: "parent ?p < ?p" using k(3) by simp
    have e: "\<not> lt (f ?p) (f (parent ?p))" using edges[of ?p] pi i k(3) by (simp add: edge_ok_def)
    have kp: "k \<noteq> ?p" using k(2,3) parent_less[of k] by auto
    have "parent ?p \<noteq> i" using order.strict_trans[OF pp pi] by (rule less_imp_neq)
    then have gpp: "?g (parent ?p) = f (parent ?p)" using pp unfolding flip_def by (metis less_irrefl)
    show "\<not> lt (?g k) (?g (parent ?p))"
    proof (cases "k = i")
      case True
      have "?g k = f ?p" using True by (simp add: flip_def)
      then show ?thesis using e gpp by simp
    next
      case False
      then have "\<not> lt (f k) (f ?p)" using edges[OF k(1)] k(2) p(1) by (simp add: edge_ok_def)
      then have "\<not> lt (f k) (f (parent ?p))" using e neg_trans by blast
      moreover have "?g k = f k" using False kp by (simp add: flip_def)
      ultimately show ?thesis using gpp by simp
    qed
  qed
qed

lemma up_done:
  assumes "up_ok lt n f i" "parent i = 0 \<or> \<not> lt (f i) (f (parent i))" "k < n"
  shows "edge_ok lt f k"
  using assms by (cases "k = i") (auto simp: up_ok_def edge_ok_def)

text \<open>The child a value sinks to is the least one.\<close>

definition least_child :: "nat \<Rightarrow> (nat \<Rightarrow> int) \<Rightarrow> nat \<Rightarrow> nat" where
  "least_child n f i = (if right i < n \<and> lt (f (right i)) (f (left i)) then right i else left i)"

lemma parent_child: "parent k = i \<Longrightarrow> i \<noteq> 0 \<Longrightarrow> k = left i \<or> k = right i"
  by (auto simp: parent_def left_def right_def)

lemma least_child:
  assumes "left i < n" "i \<noteq> 0"
  shows "parent (least_child n f i) = i" "least_child n f i < n" "i < least_child n f i"
    and "\<And>k. k < n \<Longrightarrow> parent k = i \<Longrightarrow> \<not> lt (f k) (f (least_child n f i))"
proof -
  show "parent (least_child n f i) = i" "least_child n f i < n" "i < least_child n f i"
    using assms by (auto simp: least_child_def parent_def left_def right_def)
  fix k assume "k < n" "parent k = i"
  then show "\<not> lt (f k) (f (least_child n f i))"
    using parent_child[of k i] assms(2) asym lt_irrefl by (auto simp: least_child_def)
qed

lemma down_step:
  assumes down: "down_ok lt n f i" and i: "1 \<le> i" "left i < n" and m: "m = least_child n f i" "lt (f m) (f i)"
  shows "down_ok lt n (flip i m f) m"
proof -
  note c = least_child[OF i(2), where f = f, folded m(1)]
  have i0: "i \<noteq> 0" using i(1) by simp
  have c: "parent m = i" "m < n" "i < m" "\<And>k. k < n \<Longrightarrow> parent k = i \<Longrightarrow> \<not> lt (f k) (f m)"
    using c i0 by blast+
  have edges: "edge_ok lt f k" if "k < n" "parent k \<noteq> i" for k using down that by (simp add: down_ok_def)
  have grand: "parent i \<noteq> 0 \<Longrightarrow> \<not> lt (f m) (f (parent i))" using down c(1,2) by (simp add: down_ok_def)
  show ?thesis
    unfolding down_ok_def
  proof (intro conjI allI impI)
    fix k assume k: "k < n" "parent k \<noteq> m"
    consider "k = i" | "k = m" | "k \<noteq> m" "k \<noteq> i" "parent k = i" | "k \<noteq> m" "k \<noteq> i" "parent k \<noteq> i" by blast
    then show "edge_ok lt (flip i m f) k"
    proof cases
      case 1
      have "parent i < i" using i(1) by (simp add: parent_def)
      then have "parent i \<noteq> i" "parent i \<noteq> m" using c(3) by linarith+
      then show ?thesis using 1 grand c(3) by (simp add: edge_ok_def flip_def)
    next
      case 2
      then show ?thesis using asym[OF m(2)] c(1,3) i0 by (auto simp: edge_ok_def flip_def)
    next
      case 3
      then show ?thesis using c(4)[OF k(1)] by (auto simp: edge_ok_def flip_def)
    next
      case 4
      then show ?thesis using edges[OF k(1)] k(2) by (auto simp: edge_ok_def flip_def)
    qed
  next
    fix k assume k: "k < n" "parent k = m"
    have "m \<noteq> 0" using c(3) by simp
    then have km: "m < k" using k(2) parent_less[of k] by auto
    have "\<not> lt (f k) (f m)" using edges[OF k(1)] k(2) c(3) \<open>m \<noteq> 0\<close> by (simp add: edge_ok_def)
    then show "\<not> lt (flip i m f k) (flip i m f (parent m))" using c(1,3) km by (simp add: flip_def)
  qed
qed

lemma down_done:
  assumes "down_ok lt n f i" "1 \<le> i" "left i \<ge> n \<or> \<not> lt (f (least_child n f i)) (f i)" "k < n"
  shows "edge_ok lt f k"
proof (cases "parent k = i")
  case False
  then show ?thesis using assms by (simp add: down_ok_def)
next
  case True
  have "left i \<le> k" using True assms(2) parent_child[of k i] by (auto simp: left_def right_def)
  then have l: "left i < n" using assms(4) by simp
  have "\<not> lt (f k) (f (least_child n f i))" using least_child(4)[OF l _ assms(4) True] assms(2) by simp
  then show ?thesis using neg_trans assms(3) l True by (auto simp: edge_ok_def)
qed

section \<open>The loops\<close>

text \<open>The loop invariant: placing the held value at the hole gives a consistent heap.\<close>

lemma move_up_loop_correct:
  assumes "consist (place idx val h)" "1 \<le> idx" "idx < length (m_values h)"
    and "up_ok lt (length (m_values h)) (value_at (place idx val h)) idx"
    and "move_up_loop lt val idx h = (idx', h')"
  shows "heap_inv lt (place idx' val h') \<and> elems (place idx' val h') = elems (place idx val h)
    \<and> length (m_value2indices h') = length (m_value2indices h) \<and> length (m_values h') = length (m_values h)"
  using assms
proof (induction idx arbitrary: h rule: less_induct)
  case (less idx)
  let ?p = "parent idx" and ?P = "place idx val h" and ?n = "length (m_values h)"
  note prems = less.prems
  have val: "value_at ?P idx = val" using prems(3) by (simp add: value_at_def)
  have par: "?p \<noteq> 0 \<Longrightarrow> ?p < idx" by simp
  have at_p: "value_at ?P ?p = m_values h ! ?p" if "?p \<noteq> 0" using par[OF that] by (simp add: value_at_def)
  show ?case
  proof (cases "?p = 0 \<or> \<not> lt val (m_values h ! ?p)")
    case True
    then have r: "idx' = idx" "h' = h" using prems(5) by (auto split: if_splits)
    have "?p = 0 \<or> \<not> lt (value_at ?P idx) (value_at ?P ?p)" using True val at_p by auto
    then have "edge_ok lt (value_at ?P) k" if "k < ?n" for k using up_done[OF prems(4) _ that] by blast
    then show ?thesis using prems(1) by (simp add: r heap_inv_def)
  next
    case False
    let ?h = "place idx (m_values h ! ?p) h"
    have p: "?p \<noteq> 0" "1 \<le> ?p" "?p < idx" "?p < ?n" using False par prems(3) order.strict_trans[OF par prems(3)] by auto
    have step: "place ?p val ?h = swap idx ?p ?P"
      using place_step[OF prems(1-3) p(2,4)] p(3) by simp
    have sw: "1 \<le> idx" "idx < length (m_values ?P)" "1 \<le> ?p" "?p < length (m_values ?P)" "idx \<noteq> ?p"
      using prems(2,3) p(2,4) less_imp_neq[OF p(3), symmetric] by simp_all
    have "up_ok lt ?n (flip idx ?p (value_at ?P)) ?p"
      using up_step[OF prems(4,2,3) p(1)] False val at_p[OF p(1)] by simp
    then have up: "up_ok lt (length (m_values ?h)) (value_at (place ?p val ?h)) ?p"
      using up_ok_cong[of ?n "value_at (swap idx ?p ?P)" "flip idx ?p (value_at ?P)" ?p]
        value_at_swap[OF prems(1) sw] p(4) step by simp
    have "move_up_loop lt val ?p ?h = (idx', h')" using prems(5) False by (subst (asm) move_up_loop.simps) (simp add: Let_def)
    then have "heap_inv lt (place idx' val h') \<and> elems (place idx' val h') = elems (place ?p val ?h)
        \<and> length (m_value2indices h') = length (m_value2indices ?h) \<and> length (m_values h') = length (m_values ?h)"
      using less.IH[OF p(3), of ?h] swap_consist(1)[OF prems(1) sw] step p up by simp
    then show ?thesis using step swap_elems[OF prems(1) sw] by simp
  qed
qed

lemma place_same:
  assumes "consist h" "1 \<le> i" "i < length (m_values h)"
  shows "place i (m_values h ! i) h = h"
proof -
  have "(m_value2indices h)[nat (m_values h ! i) := i] = m_value2indices h"
    using consist_value(3)[OF assms] by (metis list_update_id)
  then show ?thesis by (simp add: place_def set_index_def set_value_def)
qed

lemma move_up_correct:
  assumes "consist h" "1 \<le> i" "i < length (m_values h)" "up_ok lt (length (m_values h)) (value_at h) i"
  shows "heap_inv lt (move_up lt i h) \<and> elems (move_up lt i h) = elems h
    \<and> length (m_value2indices (move_up lt i h)) = length (m_value2indices h)
    \<and> length (m_values (move_up lt i h)) = length (m_values h)"
proof -
  obtain i' h' where m: "move_up_loop lt (m_values h ! i) i h = (i', h')" by fastforce
  have "move_up lt i h = place i' (m_values h ! i) h'" by (simp add: move_up_def m del: move_up_loop.simps)
  then show ?thesis
    using move_up_loop_correct[of i "m_values h ! i" h i' h'] m assms place_same[OF assms(1-3)] by simp
qed

lemma move_down_loop_correct:
  assumes "consist (place idx val h)" "1 \<le> idx" "idx < length (m_values h)"
    and "down_ok lt (length (m_values h)) (value_at (place idx val h)) idx"
  shows "\<exists>idx' h'. move_down_loop lt val (length (m_values h)) idx h = Some (idx', h')
    \<and> heap_inv lt (place idx' val h') \<and> elems (place idx' val h') = elems (place idx val h)
    \<and> length (m_value2indices h') = length (m_value2indices h) \<and> length (m_values h') = length (m_values h)"
  using assms
proof (induction "length (m_values h) - idx" arbitrary: idx h rule: less_induct)
  case less
  let ?P = "place idx val h" and ?n = "length (m_values h)"
  let ?m = "least_child ?n (\<lambda>k. m_values h ! k) idx"
  note prems = less.prems
  have val: "value_at ?P idx = val" using prems(3) by (simp add: value_at_def)
  have i0: "idx \<noteq> 0" using prems(2) by simp
  have far: "right idx \<noteq> idx" "left idx \<noteq> idx" using prems(2) by (simp_all add: right_def left_def)
  have other: "value_at ?P k = m_values h ! k" if "k \<noteq> idx" for k using that by (simp add: value_at_def)
  have m: "least_child ?n (value_at ?P) idx = ?m" by (simp add: least_child_def other far)
  have m_other: "value_at ?P ?m = m_values h ! ?m" using far by (simp add: other least_child_def)
  have body: "move_down_loop lt val ?n idx h =
      (if left idx \<ge> ?n then Some (idx, h)
       else if \<not> lt (m_values h ! ?m) val then Some (idx, h)
       else move_down_loop lt val ?n ?m (place idx (m_values h ! ?m) h))"
    by (subst move_down_loop.simps) (simp add: Let_def least_child_def)
  show ?case
  proof (cases "left idx \<ge> ?n \<or> \<not> lt (m_values h ! ?m) val")
    case True
    then have "left idx \<ge> ?n \<or> \<not> lt (value_at ?P (least_child ?n (value_at ?P) idx)) (value_at ?P idx)"
      using m m_other val by simp
    then have "edge_ok lt (value_at ?P) k" if "k < ?n" for k
      using down_done[OF prems(4,2) _ that] by blast
    moreover have "move_down_loop lt val ?n idx h = Some (idx, h)" using True unfolding body by auto
    ultimately show ?thesis using prems(1) by (simp add: heap_inv_def)
  next
    case False
    then have l: "left idx < ?n" and lt: "lt (m_values h ! ?m) val" by auto
    note c = least_child(1-3)[OF l i0, of "\<lambda>k. m_values h ! k"]
    let ?h = "place idx (m_values h ! ?m) h"
    have sw: "1 \<le> idx" "idx < length (m_values ?P)" "1 \<le> ?m" "?m < length (m_values ?P)" "idx \<noteq> ?m"
      using prems(2,3) c by auto
    have step: "place ?m val ?h = swap idx ?m ?P"
      using place_step[OF prems(1-3) sw(3)] sw(4,5) by simp
    have "down_ok lt ?n (flip idx ?m (value_at ?P)) ?m"
      using down_step[OF prems(4,2) l m[symmetric]] lt val m_other by simp
    then have down: "down_ok lt ?n (value_at (place ?m val ?h)) ?m"
      using down_ok_cong[of ?n "value_at (swap idx ?m ?P)" "flip idx ?m (value_at ?P)" ?m]
        value_at_swap[OF prems(1) sw] c(2) step by simp
    have "\<exists>idx' h'. move_down_loop lt val (length (m_values ?h)) ?m ?h = Some (idx', h')
        \<and> heap_inv lt (place idx' val h') \<and> elems (place idx' val h') = elems (place ?m val ?h)
        \<and> length (m_value2indices h') = length (m_value2indices ?h) \<and> length (m_values h') = length (m_values ?h)"
    proof (rule less.hyps)
      show "length (m_values ?h) - ?m < ?n - idx" using c(2,3) by simp
      show "consist (place ?m val ?h)" using swap_consist(1)[OF prems(1) sw] step by simp
    qed (use sw down c(2) in simp_all)
    moreover have "move_down_loop lt val ?n idx h = move_down_loop lt val ?n ?m ?h"
      using l lt unfolding body by simp
    ultimately show ?thesis using step swap_elems[OF prems(1) sw] by simp
  qed
qed

lemma move_down_correct:
  assumes "consist h" "1 \<le> i" "i < length (m_values h)" "down_ok lt (length (m_values h)) (value_at h) i"
  shows "\<exists>h'. move_down lt i h = Some h' \<and> heap_inv lt h' \<and> elems h' = elems h
    \<and> length (m_value2indices h') = length (m_value2indices h) \<and> length (m_values h') = length (m_values h)"
  using move_down_loop_correct[of i "m_values h ! i" h] assms place_same[OF assms(1-3)]
  by (auto simp: move_down_def Let_def)

end

section \<open>Removing the last value\<close>

definition drop_last :: "heap \<Rightarrow> heap" where
  "drop_last h = pop_back (set_index (last (m_values h)) 0 h)"

lemma drop_last_fields [simp]:
  "m_values (drop_last h) = butlast (m_values h)"
  "m_value2indices (drop_last h) = (m_value2indices h)[nat (last (m_values h)) := 0]"
  by (simp_all add: drop_last_def pop_back_def set_index_def)

lemma drop_last_consist:
  assumes h: "consist h" and n: "2 \<le> length (m_values h)"
  shows "consist (drop_last h)" "elems (drop_last h) = elems h - {last (m_values h)}"
proof -
  let ?n = "length (m_values h)" and ?l = "last (m_values h)"
  have last: "?l = m_values h ! (?n - 1)" using n by (intro last_conv_nth) auto
  have l: "1 \<le> ?n - 1" "?n - 1 < ?n" using n by auto
  note cl = consist_value[OF h l, folded last]
  have idx: "m_value2indices (drop_last h) ! v = (if v = nat ?l then 0 else m_value2indices h ! v)"
    if "v < length (m_value2indices h)" for v using that by (simp add: nth_list_update)
  show "consist (drop_last h)"
    unfolding consist_def
  proof (intro conjI allI impI)
    show "m_values (drop_last h) \<noteq> []" using n by (cases "m_values h" rule: rev_cases) auto
    fix k assume k: "1 \<le> k \<and> k < length (m_values (drop_last h))"
    then have k': "1 \<le> k" "k < ?n" "m_values (drop_last h) ! k = m_values h ! k" by (auto simp: nth_butlast)
    note ck = consist_value[OF h k'(1,2)]
    have "m_values h ! k \<noteq> ?l" using consist_inj[OF h k'(1,2) l] k last by auto
    then have "nat (m_values h ! k) \<noteq> nat ?l" using ck(1) cl(1) by simp
    then show "0 \<le> m_values (drop_last h) ! k"
      "nat (m_values (drop_last h) ! k) < length (m_value2indices (drop_last h))"
      "index_of (drop_last h) (m_values (drop_last h) ! k) = k"
      using ck k'(3) by (simp_all add: index_of_def)
  next
    fix v assume v: "v < length (m_value2indices (drop_last h))" "m_value2indices (drop_last h) ! v \<noteq> 0"
    then have v': "v < length (m_value2indices h)" "v \<noteq> nat ?l" "m_value2indices h ! v \<noteq> 0"
      using idx[of v] by (auto split: if_splits)
    note c = consist_index[OF h v'(1,3)]
    have "m_value2indices h ! v \<noteq> ?n - 1" using c(2) last v'(2) by auto
    then show "m_value2indices (drop_last h) ! v < length (m_values (drop_last h))"
      "m_values (drop_last h) ! (m_value2indices (drop_last h) ! v) = int v"
      using idx[OF v'(1)] v'(2) c by (simp_all add: nth_butlast)
  qed
  have "nat v = nat ?l \<longleftrightarrow> v = ?l" if "0 \<le> v" for v using that cl(1) by (simp add: eq_nat_nat_iff)
  moreover have "nat v < length (m_value2indices h)" if "0 \<le> v" "v < int (length (m_value2indices h))" for v
    using that by (simp add: nat_less_iff)
  ultimately show "elems (drop_last h) = elems h - {?l}"
    using idx by (auto simp: elems_def heap_contains_def index_of_def split: if_splits)
qed

lemma drop_last_value: "k < length (m_values h) - 1 \<Longrightarrow> value_at (drop_last h) k = value_at h k"
  by (simp add: value_at_def nth_butlast)

text \<open>Removing an inner value moves the last one to its place.\<close>

definition remove_at :: "nat \<Rightarrow> heap \<Rightarrow> heap" where
  "remove_at i h = pop_back (set_index (m_values h ! i) 0 (place i (last (m_values h)) h))"

lemma remove_inner:
  assumes h: "consist h" and i: "1 \<le> i" "i < length (m_values h) - 1"
  shows "remove_at i h = drop_last (swap i (length (m_values h) - 1) h)"
    and "consist (remove_at i h)" "elems (remove_at i h) = elems h - {m_values h ! i}"
    and "length (m_values (remove_at i h)) = length (m_values h) - 1"
    and "length (m_value2indices (remove_at i h)) = length (m_value2indices h)"
    and "\<And>k. k < length (m_values h) - 1 \<Longrightarrow>
      value_at (remove_at i h) k = (if k = i then last (m_values h) else value_at h k)"
proof -
  let ?r = "remove_at i h" and ?d = "drop_last (swap i (length (m_values h) - 1) h)"
  let ?n = "length (m_values h)" and ?l = "last (m_values h)" and ?s = "swap i (length (m_values h) - 1) h"
  have last: "?l = m_values h ! (?n - 1)" using i by (intro last_conv_nth) auto
  have sw: "1 \<le> i" "i < ?n" "1 \<le> ?n - 1" "?n - 1 < ?n" "i \<noteq> ?n - 1" using i by auto
  note s = swap_consist[OF h sw]
  have ls: "last (m_values ?s) = m_values h ! i"
    using s(2)[of "?n - 1"] s(3) sw by (subst last_conv_nth) auto
  have "(m_value2indices h)[nat ?l := i, nat (m_values h ! i) := 0]
      = m_value2indices ?d" by (simp only: drop_last_fields ls) (simp add: swap_def last)
  moreover have "butlast ((m_values h)[i := ?l]) = m_values ?d"
    using sw(5) i by (simp add: swap_def last butlast_list_update)
  ultimately show eq: "?r = ?d"
    by (simp add: remove_at_def pop_back_def set_index_def place_def set_value_def drop_last_def)
  have two: "2 \<le> length (m_values ?s)" using s(3) i by simp
  show "consist ?r" "elems ?r = elems h - {m_values h ! i}"
    unfolding eq using drop_last_consist[OF s(1) two] swap_elems[OF h sw] ls by simp_all
  show "length (m_values ?r) = ?n - 1" "length (m_value2indices ?r) = length (m_value2indices h)"
    unfolding eq using s(3,4) by simp_all
  show "value_at ?r k = (if k = i then ?l else value_at h k)" if "k < ?n - 1" for k
    unfolding eq using that s(2)[of k] s(3) sw last by (subst drop_last_value) (auto simp: value_at_def)
qed

context weak_order
begin

text \<open>Everything but the edges around \<open>i\<close> stays ordered.\<close>

lemma remove_inner_order:
  assumes inv: "heap_inv lt h" and i: "1 \<le> i" "i < length (m_values h) - 1"
    and g: "\<And>k. k < length (m_values h) - 1 \<Longrightarrow> g k = (if k = i then w else value_at h k)"
  shows "parent i = 0 \<or> \<not> lt w (value_at h (parent i)) \<Longrightarrow> down_ok lt (length (m_values h) - 1) g i"
    and "parent i \<noteq> 0 \<Longrightarrow> lt w (value_at h (parent i)) \<Longrightarrow> up_ok lt (length (m_values h) - 1) g i"
proof -
  let ?n = "length (m_values h) - 1"
  have e: "edge_ok lt (value_at h) k" if "k < ?n" for k using inv that by (simp add: heap_inv_def)
  have gp: "g (parent k) = (if parent k = i then w else value_at h (parent k))" if "k < ?n" for k
    using g[of "parent k"] parent_lt[OF that] by simp
  have pi: "parent i \<noteq> i" using i(1) by (simp add: parent_def)
  have gpi: "parent i \<noteq> 0 \<Longrightarrow> g (parent i) = value_at h (parent i)" using gp[OF i(2)] pi by simp
  have grand: "\<not> lt (g k) (g (parent i))" if "k < ?n" "parent k = i" "parent i \<noteq> 0" for k
  proof -
    have "k \<noteq> i" using that(2) pi by blast
    then have "\<not> lt (g k) (value_at h i)" using e[OF that(1)] that(2) i(1) g[OF that(1)] by (simp add: edge_ok_def)
    moreover have "\<not> lt (value_at h i) (value_at h (parent i))" using e[OF i(2)] that(3) by (simp add: edge_ok_def)
    ultimately show ?thesis using neg_trans gpi[OF that(3)] by auto
  qed
  have other: "edge_ok lt g k" if "k < ?n" "k \<noteq> i" "parent k \<noteq> i" for k
    using e[OF that(1)] g[OF that(1)] gp[OF that(1)] that by (simp add: edge_ok_def)
  have top: "edge_ok lt g i" if "\<not> lt w (value_at h (parent i))" using that g[OF i(2)] gpi by (simp add: edge_ok_def)
  have sub: "edge_ok lt g k" if "k < ?n" "parent k = i" "parent i \<noteq> 0" "lt w (value_at h (parent i))" for k
  proof -
    have "\<not> lt (g k) (value_at h (parent i))" using grand[OF that(1-3)] gpi[OF that(3)] by simp
    then have "\<not> lt (g k) w" using lt_trans that(4) by blast
    then show ?thesis using g[OF i(2)] that(2) by (simp add: edge_ok_def)
  qed
  show "up_ok lt ?n g i" if "parent i \<noteq> 0" "lt w (value_at h (parent i))"
    using other sub[OF _ _ that] grand unfolding up_ok_def by blast
  show "down_ok lt ?n g i" if "parent i = 0 \<or> \<not> lt w (value_at h (parent i))"
    using that other top grand unfolding down_ok_def by (metis edge_ok_def)
qed

end

section \<open>Adding a value at the end\<close>

definition append_value :: "int \<Rightarrow> heap \<Rightarrow> heap" where
  "append_value v h = (let h1 = set_index v (length (m_values h)) h in h1\<lparr>m_values := m_values h1 @ [v]\<rparr>)"

lemma append_value_fields [simp]:
  "m_values (append_value v h) = m_values h @ [v]"
  "m_value2indices (append_value v h) = (m_value2indices h)[nat v := length (m_values h)]"
  by (simp_all add: append_value_def set_index_def Let_def)

lemma append_value_consist:
  assumes h: "consist h" and v: "0 \<le> v" "nat v < length (m_value2indices h)" "v \<notin> elems h"
  shows "consist (append_value v h)" "elems (append_value v h) = Set.insert v (elems h)"
proof -
  let ?n = "length (m_values h)"
  have zero: "m_value2indices h ! nat v = 0"
    using v by (auto simp: elems_def heap_contains_def index_of_def)
  have n: "0 < ?n" using h by (simp add: consist_def)
  have idx: "m_value2indices (append_value v h) ! w = (if w = nat v then ?n else m_value2indices h ! w)"
    if "w < length (m_value2indices h)" for w using that by (simp add: nth_list_update)
  show "consist (append_value v h)"
    unfolding consist_def
  proof (intro conjI allI impI)
    show "m_values (append_value v h) \<noteq> []" by simp
    fix k assume k: "1 \<le> k \<and> k < length (m_values (append_value v h))"
    have "0 \<le> m_values (append_value v h) ! k \<and> nat (m_values (append_value v h) ! k) < length (m_value2indices h)
        \<and> m_value2indices (append_value v h) ! nat (m_values (append_value v h) ! k) = k"
    proof (cases "k = ?n")
      case True
      then show ?thesis using v idx[OF v(2)] by simp
    next
      case False
      then have k': "1 \<le> k" "k < ?n" using k by auto
      note c = consist_value[OF h k']
      have "nat (m_values h ! k) \<noteq> nat v" using c(3) zero k'(1) by auto
      then show ?thesis using c idx[OF c(2)] k'(2) by (simp add: nth_append)
    qed
    then show "0 \<le> m_values (append_value v h) ! k"
      "nat (m_values (append_value v h) ! k) < length (m_value2indices (append_value v h))"
      "index_of (append_value v h) (m_values (append_value v h) ! k) = k" by (simp_all add: index_of_def)
  next
    fix w assume w: "w < length (m_value2indices (append_value v h))" "m_value2indices (append_value v h) ! w \<noteq> 0"
    then have w': "w < length (m_value2indices h)" by simp
    then show "m_value2indices (append_value v h) ! w < length (m_values (append_value v h))"
      "m_values (append_value v h) ! (m_value2indices (append_value v h) ! w) = int w"
      using idx[OF w'] consist_index[OF h w'] w(2) v(1) by (auto simp: nth_append split: if_splits)
  qed
  have "nat w = nat v \<longleftrightarrow> w = v" if "0 \<le> w" for w using that v(1) by (simp add: eq_nat_nat_iff)
  moreover have "nat w < length (m_value2indices h)" if "0 \<le> w" "w < int (length (m_value2indices h))" for w
    using that by (simp add: nat_less_iff)
  ultimately show "elems (append_value v h) = Set.insert v (elems h)"
    using idx n v by (auto simp: elems_def heap_contains_def index_of_def nat_less_iff split: if_splits)
qed

section \<open>The operations\<close>

lemma elems_index:
  assumes "consist h" "v \<in> elems h"
  shows "1 \<le> index_of h v" "index_of h v < length (m_values h)" "m_values h ! index_of h v = v"
proof -
  have v: "0 \<le> v" "nat v < length (m_value2indices h)" "m_value2indices h ! nat v \<noteq> 0"
    using assms(2) by (auto simp: elems_def heap_contains_def index_of_def nat_less_iff)
  then show "1 \<le> index_of h v" "index_of h v < length (m_values h)" "m_values h ! index_of h v = v"
    using consist_index[OF assms(1) v(2,3)] by (simp_all add: index_of_def)
qed

context weak_order
begin

text \<open>What an operation that yields \<open>h'\<close> from \<open>h\<close> guarantees: the invariant, the new contents
  and the same bounds.\<close>

definition yields :: "heap \<Rightarrow> heap \<Rightarrow> int set \<Rightarrow> bool" where
  "yields h h' S \<longleftrightarrow> heap_inv lt h' \<and> elems h' = S
     \<and> length (m_value2indices h') = length (m_value2indices h)"

lemma heap_insert_correct:
  assumes inv: "heap_inv lt h" and v: "0 \<le> v" "nat v < length (m_value2indices h)" "v \<notin> elems h"
  shows "yields h (heap_insert lt v h) (Set.insert v (elems h))"
proof -
  let ?n = "length (m_values h)" and ?h = "append_value v h"
  have h: "consist h" and e: "\<And>k. k < ?n \<Longrightarrow> edge_ok lt (value_at h) k" using inv by (simp_all add: heap_inv_def)
  have n: "1 \<le> ?n" using h by (cases "m_values h") (auto simp: consist_def)
  have val: "value_at ?h k = value_at h k" if "k < ?n" for k using that by (simp add: value_at_def nth_append)
  have "up_ok lt (Suc ?n) (value_at ?h) ?n"
    unfolding up_ok_def
  proof (intro conjI allI impI)
    fix k assume "k < Suc ?n" "k \<noteq> ?n"
    then have k: "k < ?n" by simp
    show "edge_ok lt (value_at ?h) k" using e[OF k] edge_ok_cong[of ?n "value_at ?h" "value_at h" k lt] val k by simp
  next
    fix k assume k: "k < Suc ?n" "parent k = ?n"
    have "parent k < k" by (rule parent_less) (use k(2) n in linarith)
    then show "\<not> lt (value_at ?h k) (value_at ?h (parent ?n))" using k by linarith
  qed
  then have "heap_inv lt (move_up lt ?n ?h) \<and> elems (move_up lt ?n ?h) = elems ?h
    \<and> length (m_value2indices (move_up lt ?n ?h)) = length (m_value2indices ?h)"
    using move_up_correct[of ?h ?n] append_value_consist[OF h v] n by simp
  moreover have "heap_insert lt v h = move_up lt ?n ?h"
    by (simp add: heap_insert_def append_value_def Let_def)
  ultimately show ?thesis using append_value_consist[OF h v] by (simp add: yields_def)
qed

lemma drop_last_inv:
  assumes "heap_inv lt h" "2 \<le> length (m_values h)"
  shows "yields h (drop_last h) (elems h - {last (m_values h)})"
proof -
  let ?n = "length (m_values h) - 1"
  have h: "consist h" and e: "\<And>k. k < ?n \<Longrightarrow> edge_ok lt (value_at h) k" using assms(1) by (simp_all add: heap_inv_def)
  have "edge_ok lt (value_at (drop_last h)) k" if "k < ?n" for k
    using e[OF that] edge_ok_cong[of ?n "value_at (drop_last h)" "value_at h" k lt] drop_last_value that by simp
  then show ?thesis using drop_last_consist[OF h assms(2)] by (simp add: yields_def heap_inv_def)
qed

lemma erase_correct:
  assumes inv: "heap_inv lt h" and v: "v \<in> elems h"
  shows "\<exists>h'. erase lt v h = Some h' \<and> yields h h' (elems h - {v})"
proof -
  let ?n = "length (m_values h)" and ?i = "index_of h v"
  have h: "consist h" using inv by (simp add: heap_inv_def)
  note i = elems_index[OF h v]
  show ?thesis
  proof (cases "?i = ?n - 1")
    case True
    have "last (m_values h) = v" using i True by (subst last_conv_nth) auto
    then show ?thesis using drop_last_inv[OF inv] i True by (simp add: erase_def drop_last_def)
  next
    case False
    then have i': "1 \<le> ?i" "?i < ?n - 1" using i by auto
    note r = remove_inner[OF h i'] and o = remove_inner_order[OF inv i' remove_inner(6)[OF h i']]
    let ?h = "remove_at ?i h" and ?l = "last (m_values h)"
    have l: "m_values ?h ! parent ?i = value_at h (parent ?i)" if "parent ?i \<noteq> 0"
    proof -
      have "parent ?i < ?i" by (rule parent_less) (use that in simp)
      then have "parent ?i \<noteq> ?i" by (rule less_imp_neq)
      then show ?thesis using r(6)[of "parent ?i"] parent_lt[OF i'(2)] by (simp add: value_at_def)
    qed
    have eq: "erase lt v h = (if parent ?i \<noteq> 0 \<and> lt ?l (m_values ?h ! parent ?i)
        then Some (move_up lt ?i ?h) else move_down lt ?i ?h)"
      using False i(3) by (simp add: erase_def remove_at_def Let_def)
    have len: "?i < length (m_values ?h)" using i' r(4) by simp
    show ?thesis
    proof (cases "parent ?i \<noteq> 0 \<and> lt ?l (m_values ?h ! parent ?i)")
      case True
      then have "up_ok lt (?n - 1) (value_at ?h) ?i" using o(2) l by simp
      then have "yields h (move_up lt ?i ?h) (elems h - {v})"
        unfolding yields_def using move_up_correct[OF r(2) i(1) len] r(3-5) i(3) by simp
      then show ?thesis using eq True by simp
    next
      case F: False
      then have "down_ok lt (?n - 1) (value_at ?h) ?i" using o(1) l by (cases "parent ?i = 0") simp_all
      then obtain h' where h': "move_down lt ?i ?h = Some h'" "heap_inv lt h'" "elems h' = elems ?h"
          "length (m_value2indices h') = length (m_value2indices ?h)"
        using move_down_correct[OF r(2) i(1) len] r(4) by auto
      have "erase lt v h = Some h'" unfolding eq if_not_P[OF F] by (rule h'(1))
      moreover have "yields h h' (elems h - {v})" unfolding yields_def using h'(2-4) r(3,5) i(3) by simp
      ultimately show ?thesis by blast
    qed
  qed
qed

lemma erase_min_is_erase:
  assumes "consist h" "2 \<le> length (m_values h)"
  shows "erase_min lt h = map_option (Pair (min_value h)) (erase lt (min_value h) h)"
proof -
  have i: "index_of h (m_values h ! 1) = 1"
    using consist_value(3)[OF assms(1), of 1] assms(2) by (simp add: index_of_def)
  show ?thesis
    using assms(2) i
    by (auto simp: erase_min_def erase_def min_value_def Let_def parent_def map_option_case split: Option.bind_splits option.splits)
qed

text \<open>No contained value is below the one at index 1.\<close>

lemma min_value_least:
  assumes inv: "heap_inv lt h" and "v \<in> elems h"
  shows "min_value h \<in> elems h" "\<not> lt v (min_value h)"
proof -
  have h: "consist h" using inv by (simp add: heap_inv_def)
  have "\<not> lt (m_values h ! i) (m_values h ! 1)" if "1 \<le> i" "i < length (m_values h)" for i
    using that
  proof (induction i rule: less_induct)
    case (less i)
    show ?case
    proof (cases "i = 1")
      case True
      then show ?thesis using lt_irrefl by simp
    next
      case False
      then have p: "parent i \<noteq> 0" "1 \<le> parent i" "parent i < i" using less.prems(1) by (auto simp: parent_def)
      then have "\<not> lt (m_values h ! parent i) (m_values h ! 1)"
        using less.IH[of "parent i"] less.prems(2) order.strict_trans[OF p(3) less.prems(2)] by simp
      moreover have "\<not> lt (m_values h ! i) (m_values h ! parent i)"
        using inv less.prems(2) p(1) by (simp add: heap_inv_def edge_ok_def value_at_def)
      ultimately show ?thesis using neg_trans by blast
    qed
  qed
  then show "\<not> lt v (min_value h)" using elems_index[OF h assms(2)] by (metis min_value_def)
  have "1 < length (m_values h)" using elems_index(1,2)[OF h assms(2)] by linarith
  then show "min_value h \<in> elems h" using elems_values[OF h] by (auto simp: min_value_def)
qed

lemma empty_iff: "consist h \<Longrightarrow> heap_empty h = (elems h = {})"
proof -
  assume h: "consist h"
  have n: "0 < length (m_values h)" using h by (simp add: consist_def)
  show ?thesis
  proof (cases "length (m_values h) = 1")
    case True
    then show ?thesis unfolding elems_values[OF h] heap_empty_def by auto
  next
    case False
    then have "1 < length (m_values h)" using n by linarith
    then have "m_values h ! 1 \<in> elems h" unfolding elems_values[OF h] by blast
    then show ?thesis using False by (auto simp: heap_empty_def)
  qed
qed

lemma erase_min_correct:
  assumes inv: "heap_inv lt h" and "\<not> heap_empty h"
  shows "\<exists>h'. erase_min lt h = Some (min_value h, h') \<and> min_value h \<in> elems h
    \<and> (\<forall>v \<in> elems h. \<not> lt v (min_value h)) \<and> yields h h' (elems h - {min_value h})"
proof -
  have h: "consist h" using inv by (simp add: heap_inv_def)
  obtain v where v: "v \<in> elems h" using empty_iff[OF h] assms(2) by blast
  have n: "2 \<le> length (m_values h)" using elems_index(1,2)[OF h v] by linarith
  show ?thesis
    using erase_correct[OF inv min_value_least(1)[OF inv v]] min_value_least[OF inv]
    by (auto simp: erase_min_is_erase[OF h n] min_value_least(1)[OF inv v])
qed

text \<open>\<open>decreased\<close> and \<open>increased\<close> are called after the order of one value has changed: \<open>old\<close> is
  the order before, and among the contained values only comparisons with \<open>v\<close> differ.\<close>

definition agree_on :: "less_than \<Rightarrow> int set \<Rightarrow> bool" where
  "agree_on old S \<longleftrightarrow> (\<forall>a \<in> S. \<forall>b \<in> S. lt a b = old a b)"

lemma value_in_elems: "consist h \<Longrightarrow> k \<noteq> 0 \<Longrightarrow> k < length (m_values h) \<Longrightarrow> value_at h k \<in> elems h"
  unfolding elems_values value_at_def by auto

lemma heap_inv_agree:
  assumes "heap_inv old h" "agree_on old (elems h)"
  shows "heap_inv lt h"
proof -
  have h: "consist h" and e: "\<And>k. k < length (m_values h) \<Longrightarrow> edge_ok old (value_at h) k"
    using assms(1) by (simp_all add: heap_inv_def)
  have "edge_ok lt (value_at h) k" if k: "k < length (m_values h)" for k
  proof (cases "parent k = 0")
    case False
    then have "k \<noteq> 0" by (auto simp: parent_def)
    then show ?thesis
      using e[OF k] value_in_elems[OF h _ k] value_in_elems[OF h False parent_lt[OF k]] assms(2)
      by (simp add: edge_ok_def agree_on_def)
  qed (simp add: edge_ok_def)
  with h show ?thesis by (simp add: heap_inv_def)
qed

lemma changed_edges:
  assumes inv: "heap_inv old h" and wo: "weak_order old" and agree: "agree_on old (elems h - {v})" and v: "v \<in> elems h"
  shows "\<And>k. k < length (m_values h) \<Longrightarrow> k \<noteq> index_of h v \<Longrightarrow> parent k \<noteq> index_of h v \<Longrightarrow> edge_ok lt (value_at h) k"
    and "\<And>k. k < length (m_values h) \<Longrightarrow> parent k = index_of h v \<Longrightarrow> parent (index_of h v) \<noteq> 0 \<Longrightarrow>
      \<not> lt (value_at h k) (value_at h (parent (index_of h v)))"
proof -
  let ?n = "length (m_values h)" and ?i = "index_of h v"
  have h: "consist h" and e: "\<And>k. k < ?n \<Longrightarrow> edge_ok old (value_at h) k" using inv by (simp_all add: heap_inv_def)
  note i = elems_index[OF h v]
  have ne: "value_at h k \<in> elems h - {v}" if "k < ?n" "k \<noteq> ?i" "k \<noteq> 0" for k
    using consist_inj[OF h _ that(1) i(1,2)] that i(3) value_in_elems[OF h that(3,1)] by (auto simp: value_at_def)
  show "edge_ok lt (value_at h) k" if "k < ?n" "k \<noteq> ?i" "parent k \<noteq> ?i" for k
    using e[OF that(1)] ne[OF that(1,2)] ne[OF parent_lt[OF that(1)] that(3)] agree
    by (cases "k = 0") (auto simp: edge_ok_def agree_on_def parent_def)
  fix k assume k: "k < ?n" "parent k = ?i" "parent ?i \<noteq> 0"
  have k0: "k \<noteq> 0" "k \<noteq> ?i" using k(2) i(1) by (auto simp: parent_def)
  have p: "parent ?i \<noteq> ?i" using i(1) by (auto simp: parent_def)
  have "\<not> old (value_at h k) (value_at h ?i)" using e[OF k(1)] k(2) i(1) by (simp add: edge_ok_def)
  moreover have "\<not> old (value_at h ?i) (value_at h (parent ?i))" using e[OF i(2)] k(3) by (simp add: edge_ok_def)
  ultimately have "\<not> old (value_at h k) (value_at h (parent ?i))" using weak_order.neg_trans[OF wo] by blast
  moreover have "value_at h k \<in> elems h - {v}" "value_at h (parent ?i) \<in> elems h - {v}"
    using ne[OF k(1)] k0 ne[OF parent_lt[OF i(2)] p k(3)] by blast+
  ultimately show "\<not> lt (value_at h k) (value_at h (parent ?i))" using agree by (simp add: agree_on_def)
qed

lemma decreased_correct:
  assumes inv: "heap_inv old h" and wo: "weak_order old" and agree: "agree_on old (elems h - {v})" and v: "v \<in> elems h"
    and less: "\<And>w. w \<in> elems h \<Longrightarrow> \<not> old w v \<Longrightarrow> \<not> lt w v"
  shows "yields h (decreased lt v h) (elems h)"
proof -
  let ?n = "length (m_values h)" and ?i = "index_of h v"
  have h: "consist h" and e: "\<And>k. k < ?n \<Longrightarrow> edge_ok old (value_at h) k" using inv by (simp_all add: heap_inv_def)
  note i = elems_index[OF h v] and ch = changed_edges[OF inv wo agree v]
  have "edge_ok lt (value_at h) k" if k: "k < ?n" "k \<noteq> ?i" for k
  proof (cases "parent k = ?i")
    case True
    then have "1 \<le> k" using i(1) by (cases k) (auto simp: parent_def)
    then have "value_at h k \<in> elems h" unfolding elems_values[OF h] value_at_def using k(1) by blast
    moreover have "\<not> old (value_at h k) v" using e[OF k(1)] True i by (simp add: edge_ok_def value_at_def)
    ultimately show ?thesis using less True i by (simp add: edge_ok_def value_at_def)
  qed (use ch(1) k in blast)
  then have "up_ok lt ?n (value_at h) ?i" using ch(2) by (auto simp: up_ok_def)
  then show ?thesis using move_up_correct[OF h i(1,2)] by (simp add: decreased_def yields_def)
qed

lemma increased_correct:
  assumes inv: "heap_inv old h" and wo: "weak_order old" and agree: "agree_on old (elems h - {v})" and v: "v \<in> elems h"
    and greater: "\<And>w. w \<in> elems h \<Longrightarrow> \<not> old v w \<Longrightarrow> \<not> lt v w"
  shows "\<exists>h'. increased lt v h = Some h' \<and> yields h h' (elems h)"
proof -
  let ?n = "length (m_values h)" and ?i = "index_of h v"
  have h: "consist h" and e: "\<And>k. k < ?n \<Longrightarrow> edge_ok old (value_at h) k" using inv by (simp_all add: heap_inv_def)
  note i = elems_index[OF h v] and ch = changed_edges[OF inv wo agree v]
  have "edge_ok lt (value_at h) k" if k: "k < ?n" "parent k \<noteq> ?i" for k
  proof (cases "k = ?i \<and> parent k \<noteq> 0")
    case True
    then have "value_at h (parent ?i) \<in> elems h"
      unfolding elems_values[OF h] value_at_def using parent_lt[OF i(2)] by auto
    moreover have "\<not> old v (value_at h (parent ?i))" using e[OF i(2)] True i(3) by (auto simp: edge_ok_def value_at_def)
    ultimately show ?thesis using greater True i(3) by (simp add: edge_ok_def value_at_def)
  next
    case False
    then show ?thesis using ch(1)[OF k(1) _ k(2)] by (cases "k = ?i") (auto simp: edge_ok_def)
  qed
  then have "down_ok lt ?n (value_at h) ?i" using ch(2) by (auto simp: down_ok_def)
  then show ?thesis using move_down_correct[OF h i(1,2)] by (auto simp: increased_def yields_def)
qed

lemma new_heap_correct: "heap_inv lt (new_heap s) \<and> elems (new_heap s) = {} \<and> length (m_value2indices (new_heap s)) = s"
  by (auto simp: heap_inv_def consist_def new_heap_def set_bounds_def elems_def heap_contains_def index_of_def
      edge_ok_def parent_def)

lemma heap_reset_correct: "heap_inv lt h \<Longrightarrow> yields h (heap_reset h) {}"
proof -
  assume inv: "heap_inv lt h"
  then have "consist h" by (simp add: heap_inv_def)
  then show ?thesis using inv empty_iff[of h]
    by (auto simp: heap_reset_def yields_def heap_inv_def consist_def elems_def heap_contains_def index_of_def
        edge_ok_def parent_def nat_less_iff)
qed

lemma reserve_correct:
  assumes "heap_inv lt h"
  shows "heap_inv lt (reserve s h) \<and> elems (reserve s h) = elems h
    \<and> length (m_value2indices (reserve s h)) = max s (length (m_value2indices h))"
proof (cases "length (m_value2indices h) < s")
  case True
  let ?h = "reserve s h" and ?k = "length (m_value2indices h)"
  have h: "consist h" using assms by (simp add: heap_inv_def)
  have vals: "m_values ?h = m_values h" by (simp add: reserve_def set_bounds_def)
  have len: "length (m_value2indices ?h) = s" using True by (simp add: reserve_def set_bounds_def)
  have idx: "m_value2indices ?h ! v = (if v < ?k then m_value2indices h ! v else 0)" if "v < s" for v
    using True that by (simp add: reserve_def set_bounds_def nth_append)
  have "consist ?h"
    unfolding consist_def vals len
  proof (intro conjI allI impI)
    fix k assume k: "1 \<le> k \<and> k < length (m_values h)"
    note c = consist_value[OF h k[THEN conjunct1] k[THEN conjunct2]]
    show "0 \<le> m_values h ! k" "nat (m_values h ! k) < s" using c True by simp_all
    show "index_of ?h (m_values h ! k) = k" using c idx[of "nat (m_values h ! k)"] True by (simp add: index_of_def)
  next
    fix v assume v: "v < s" "m_value2indices ?h ! v \<noteq> 0"
    then show "m_value2indices ?h ! v < length (m_values h)" "m_values h ! (m_value2indices ?h ! v) = int v"
      using idx[OF v(1)] consist_index[OF h] by (auto split: if_splits)
  qed (use h in \<open>simp add: consist_def\<close>)
  moreover have "value_at ?h = value_at h" by (simp add: fun_eq_iff value_at_def vals)
  moreover have "elems ?h = elems h"
    using idx True len by (auto simp: elems_def heap_contains_def index_of_def nat_less_iff split: if_splits)
  ultimately show ?thesis using assms True len by (simp add: heap_inv_def vals)
qed (use assms in \<open>simp add: reserve_def\<close>)

end

section \<open>Searching the values up to a bound\<close>

text \<open>The indices of a subtree.\<close>

function subtree :: "nat \<Rightarrow> nat \<Rightarrow> nat list" where
  "subtree n i = (if i = 0 \<or> n \<le> i then [] else i # subtree n (left i) @ subtree n (right i))"
  by auto

termination subtree
  by (relation "measure (\<lambda>(n, i). n - i)") (auto simp: left_def right_def)

declare subtree.simps [simp del]

lemma subtree_outside [simp]: "n \<le> i \<Longrightarrow> subtree n i = []"
  by (simp add: subtree.simps)

lemma subtree_node: "i \<noteq> 0 \<Longrightarrow> i < n \<Longrightarrow> subtree n i = i # subtree n (left i) @ subtree n (right i)"
  by (subst subtree.simps) simp

lemma subtree_self: "i \<noteq> 0 \<Longrightarrow> i < n \<Longrightarrow> i \<in> set (subtree n i)"
  by (simp add: subtree_node)

lemma subtreeD: "j \<in> set (subtree n i) \<Longrightarrow> i \<noteq> 0 \<and> i < n"
  by (subst (asm) subtree.simps) (simp split: if_splits)

lemma subtree_child: "j \<in> set (subtree n i) \<Longrightarrow> j \<noteq> 0 \<Longrightarrow> k < n \<Longrightarrow> parent k = j \<Longrightarrow> k \<in> set (subtree n i)"
proof (induction n i rule: subtree.induct)
  case (1 n i)
  have i: "i \<noteq> 0" "i < n" "subtree n i = i # subtree n (left i) @ subtree n (right i)"
    using subtreeD[OF 1(3)] subtree_node[of i n] by auto
  then consider "j = i" | "j \<in> set (subtree n (left i))" | "j \<in> set (subtree n (right i))" using 1(3) by auto
  then show ?case
  proof cases
    case 1
    then have k: "k = left i \<or> k = right i" using \<open>parent k = j\<close> \<open>j \<noteq> 0\<close> by (auto simp: parent_def left_def right_def)
    have "k \<in> set (subtree n k)" using \<open>parent k = j\<close> \<open>j \<noteq> 0\<close> by (intro subtree_self \<open>k < n\<close>) (auto simp: parent_def)
    then show ?thesis using k i(3) by auto
  next
    case 2
    then show ?thesis using 1(1) 1(4-6) i by auto
  next
    case 3
    then show ?thesis using 1(2) 1(4-6) i by auto
  qed
qed

lemma subtree_all: "1 \<le> j \<Longrightarrow> j < n \<Longrightarrow> j \<in> set (subtree n 1)"
proof (induction j rule: less_induct)
  case (less j)
  show ?case
  proof (cases "j = 1")
    case True
    then show ?thesis using less.prems(2) subtree_self[of 1 n] by simp
  next
    case False
    then have p: "1 \<le> parent j" "parent j < j" using less.prems by (auto simp: parent_def)
    then show ?thesis using subtree_child[OF less.IH[OF p(2,1)]] less.prems(2) order.strict_trans[OF p(2) less.prems(2)] by simp
  qed
qed

lemma subtree_range: "j \<in> set (subtree n i) \<Longrightarrow> 1 \<le> j \<and> j < n"
proof (induction n i rule: subtree.induct)
  case (1 n i)
  note i = subtreeD[OF 1(3)]
  then show ?case using subtree_node[of i n] 1 by auto
qed

lemma subtree_cases:
  assumes "j \<in> set (subtree n i)"
  obtains "j = i" | "j \<in> set (subtree n (left i))" | "j \<in> set (subtree n (right i))"
  using subtree_node[of i n] subtreeD[OF assms] assms by auto

context weak_order
begin

lemma subtree_above: "j \<in> set (subtree n i) \<Longrightarrow> \<forall>k < n. edge_ok lt f k \<Longrightarrow> \<not> lt (f j) (f i)"
proof (induction n i rule: subtree.induct)
  case (1 n i)
  note i = subtreeD[OF 1(3)]
  have child: "\<not> lt (f j) (f i)" if c: "c = left i \<or> c = right i" and j: "j \<in> set (subtree n c)" "\<not> lt (f j) (f c)" for c
  proof -
    have "parent c = i" using c by (auto simp: parent_def left_def right_def)
    then have "\<not> lt (f c) (f i)" using 1(4) subtreeD[OF j(1)] i by (auto simp: edge_ok_def)
    then show ?thesis using neg_trans j(2) by blast
  qed
  from 1(3) show ?case
  proof (cases rule: subtree_cases)
    case 1
    then show ?thesis using lt_irrefl by simp
  next
    case 2
    then show ?thesis using child[of "left i"] "1.IH"(1) 1(4) i by auto
  next
    case 3
    then show ?thesis using child[of "right i"] "1.IH"(2) 1(4) i by auto
  qed
qed

text \<open>The values at the indices of the subtrees on the stack that are not above \<open>val\<close>.\<close>

definition pending :: "int \<Rightarrow> heap \<Rightarrow> nat list \<Rightarrow> int set" where
  "pending val h todo = {value_at h j | j. (\<exists>i \<in> set todo. j \<in> set (subtree (length (m_values h)) i)) \<and> \<not> lt val (value_at h j)}"

lemma find_le_loop_correct:
  assumes inv: "heap_inv lt h"
  shows "\<forall>i \<in> set todo. i \<noteq> 0 \<Longrightarrow>
    \<exists>r. find_le_loop lt val h todo res = Some r \<and> set r = set res \<union> pending val h todo"
proof (induction "\<Sum>i\<leftarrow>todo. 2 * length (subtree (length (m_values h)) i) + 1" arbitrary: todo res rule: less_induct)
  case less
  let ?n = "length (m_values h)"
  have e: "\<forall>k < ?n. edge_ok lt (value_at h) k" using inv by (simp add: heap_inv_def)
  show ?case
  proof (cases todo rule: rev_cases)
    case Nil
    then show ?thesis by (subst find_le_loop.simps) (simp add: pending_def)
  next
    case (snoc rest i)
    have i0: "i \<noteq> 0" using less.prems snoc by simp
    show ?thesis
    proof (cases "i < ?n \<and> \<not> lt val (m_values h ! i)")
      case True
      let ?todo = "rest @ [left i, right i]" and ?res = "res @ [m_values h ! i]"
      have node: "subtree ?n i = i # subtree ?n (left i) @ subtree ?n (right i)"
        using True i0 by (simp add: subtree_node)
      have "\<exists>r. find_le_loop lt val h ?todo ?res = Some r \<and> set r = set ?res \<union> pending val h ?todo"
        using less.prems snoc i0 by (intro less.hyps) (auto simp: snoc node left_def right_def)
      moreover have "find_le_loop lt val h todo res = find_le_loop lt val h ?todo ?res"
        using True snoc by (subst find_le_loop.simps) (simp add: Let_def)
      moreover have "set ?res \<union> pending val h ?todo = set res \<union> pending val h todo"
        using True unfolding pending_def snoc by (auto simp: node value_at_def)
      ultimately show ?thesis by metis
    next
      case False
      have "\<exists>r. find_le_loop lt val h rest res = Some r \<and> set r = set res \<union> pending val h rest"
        using less.prems snoc by (intro less.hyps) auto
      moreover have "find_le_loop lt val h todo res = find_le_loop lt val h rest res"
        using False snoc by (subst find_le_loop.simps) (auto simp: Let_def)
      moreover have "lt val (value_at h j)" if "j \<in> set (subtree ?n i)" for j
        using subtree_above[OF that e] subtreeD[OF that] False neg_trans by (auto simp: value_at_def)
      then have "pending val h todo = pending val h rest"
        unfolding pending_def snoc by auto
      ultimately show ?thesis by metis
    qed
  qed
qed

theorem find_le_correct:
  assumes inv: "heap_inv lt h"
  shows "\<exists>r. find_le lt val h = Some r \<and> set r = {v \<in> elems h. \<not> lt val v}"
proof -
  have h: "consist h" using inv by (simp add: heap_inv_def)
  have "pending val h [1] = {v \<in> elems h. \<not> lt val v}"
  proof (intro set_eqI iffI)
    fix v assume "v \<in> pending val h [1]"
    then obtain j where j: "v = value_at h j" "j \<in> set (subtree (length (m_values h)) 1)" "\<not> lt val v"
      by (auto simp: pending_def)
    then show "v \<in> {v \<in> elems h. \<not> lt val v}"
      using subtree_range[OF j(2)] elems_values[OF h] by (auto simp: value_at_def)
  next
    fix v assume "v \<in> {v \<in> elems h. \<not> lt val v}"
    then show "v \<in> pending val h [1]"
      using subtree_all[of _ "length (m_values h)"] elems_values[OF h] by (auto simp: pending_def value_at_def)
  qed
  then show ?thesis using find_le_loop_correct[OF inv, of "[1]" val "[]"] by (simp add: find_le_def)
qed

end

end
