(* ===== verification/Sat_Var_Queue.thy ===== *)
theory Sat_Var_Queue
  imports Heap_Sound "HOL-Library.Word"
begin

text \<open>
  The priority queue of decision variables of the SAT solver (src/sources/Z3/src/sat/sat_var_queue.h)
  and the activities it is ordered by (\<^verbatim>\<open>inc_activity\<close>, \<^verbatim>\<open>decay_activity\<close> of sat_solver.h,
  \<^verbatim>\<open>rescale_activity\<close> of sat_solver.cpp). Activities are 32-bit words. The queue's heap compares
  activities through a reference to the solver's vector: here the vector is an argument.
\<close>

section \<open>The queue\<close>

type_synonym activity = "32 word list"

text \<open>\<^verbatim>\<open>var_queue::lt\<close>: the more active variable comes first.\<close>

definition activity_lt :: "activity \<Rightarrow> less_than" where
  "activity_lt act v1 v2 = (act ! nat v1 > act ! nat v2)"

definition new_var_queue :: heap where
  "new_var_queue = new_heap 128"

definition activity_increased_eh :: "activity \<Rightarrow> int \<Rightarrow> heap \<Rightarrow> heap" where
  "activity_increased_eh act v q =
     (if heap_contains q v then decreased (activity_lt act) v q else q)"

definition mk_var_eh :: "activity \<Rightarrow> int \<Rightarrow> heap \<Rightarrow> heap" where
  "mk_var_eh act v q = heap_insert (activity_lt act) v (reserve (nat (v + 1)) q)"

definition del_var_eh :: "activity \<Rightarrow> int \<Rightarrow> heap \<Rightarrow> heap option" where
  "del_var_eh act v q =
     (if heap_contains q v then erase (activity_lt act) v q else Some q)"

definition unassign_var_eh :: "activity \<Rightarrow> int \<Rightarrow> heap \<Rightarrow> heap" where
  "unassign_var_eh act v q =
     (if \<not> heap_contains q v then heap_insert (activity_lt act) v q else q)"

definition queue_reset :: "heap \<Rightarrow> heap" where
  "queue_reset q = heap_reset q"

definition queue_empty :: "heap \<Rightarrow> bool" where
  "queue_empty q = heap_empty q"

definition next_var :: "activity \<Rightarrow> heap \<Rightarrow> (int \<times> heap) option" where
  "next_var act q = erase_min (activity_lt act) q"

section \<open>The activities of the solver\<close>

record sat_activity =
  m_activity :: activity
  m_activity_inc :: "32 word"
  m_case_split_queue :: heap

definition rescale_activity :: "sat_activity \<Rightarrow> sat_activity" where
  "rescale_activity s =
     s\<lparr>m_activity := map (drop_bit 14) (m_activity s), m_activity_inc := drop_bit 14 (m_activity_inc s)\<rparr>"

definition inc_activity :: "int \<Rightarrow> sat_activity \<Rightarrow> sat_activity" where
  "inc_activity v s =
     (let act = m_activity s ! nat v + m_activity_inc s;
          acts = (m_activity s)[nat v := act];
          s1 = s\<lparr>m_activity := acts,
                 m_case_split_queue := activity_increased_eh acts v (m_case_split_queue s)\<rparr>
      in if act > push_bit 24 1 then rescale_activity s1 else s1)"

definition decay_activity :: "sat_activity \<Rightarrow> sat_activity" where
  "decay_activity s = s\<lparr>m_activity_inc := m_activity_inc s * 11 div 10\<rparr>"

section \<open>The order by activity is a strict weak order\<close>

lemma weak_order_activity: "weak_order (activity_lt act)"
  by unfold_locales (auto simp: activity_lt_def)

interpretation act: weak_order "activity_lt act"
  by (rule weak_order_activity)

definition queue_inv :: "activity \<Rightarrow> heap \<Rightarrow> bool" where
  "queue_inv act q \<longleftrightarrow> heap_inv (activity_lt act) q"

lemma contains_elems: "0 \<le> v \<Longrightarrow> heap_contains q v = (v \<in> elems q)"
  by (simp add: elems_def)

lemma new_var_queue_correct: "queue_inv act new_var_queue \<and> elems new_var_queue = {}"
  using act.new_heap_correct[of act 128] by (simp add: queue_inv_def new_var_queue_def)

text \<open>Raising the activity of a variable.\<close>

lemma activity_increased_correct:
  assumes inv: "queue_inv act q" and v: "0 \<le> v" and act': "act' = act[nat v := a]" "act ! nat v \<le> a"
  shows "queue_inv act' (activity_increased_eh act' v q) \<and> elems (activity_increased_eh act' v q) = elems q"
proof -
  have nat_eq: "nat w = nat v \<longleftrightarrow> w = v" if "w \<in> elems q" for w
    using v that by (auto simp: elems_def)
  have old: "act' ! nat w = act ! nat w" if "w \<in> elems q - {v}" for w
    using nat_eq[of w] that by (simp add: act'(1))
  have agree: "weak_order.agree_on (activity_lt act') (activity_lt act) (elems q - {v})"
    using old by (simp add: act.agree_on_def activity_lt_def)
  show ?thesis
  proof (cases "v \<in> elems q")
    case True
    have raised: "act' ! nat v \<ge> act ! nat v"
      using act' by (cases "nat v < length act") (simp_all add: list_update_beyond)
    have "\<not> activity_lt act' w v" if "w \<in> elems q" "\<not> activity_lt act w v" for w
      using that old[of w] raised by (cases "w = v") (auto simp: activity_lt_def not_less)
    then have "weak_order.yields (activity_lt act') q (decreased (activity_lt act') v q) (elems q)"
      using inv by (intro act.decreased_correct[OF _ weak_order_activity agree True]) (simp_all add: queue_inv_def)
    then show ?thesis
      using True v by (simp add: activity_increased_eh_def contains_elems act.yields_def queue_inv_def)
  next
    case False
    then have "elems q - {v} = elems q" by blast
    then show ?thesis
      using act.heap_inv_agree[where act = act' and old = "activity_lt act" and h = q] agree inv False v
      by (simp add: activity_increased_eh_def contains_elems queue_inv_def)
  qed
qed

section \<open>The handlers\<close>

lemma mk_var_eh_correct:
  assumes "queue_inv act q" "0 \<le> v" "v \<notin> elems q"
  shows "queue_inv act (mk_var_eh act v q) \<and> elems (mk_var_eh act v q) = Set.insert v (elems q)"
proof -
  have r: "heap_inv (activity_lt act) (reserve (nat (v + 1)) q)" "elems (reserve (nat (v + 1)) q) = elems q"
    "nat v < length (m_value2indices (reserve (nat (v + 1)) q))"
    using act.reserve_correct[where act = act and h = q and s = "nat (v + 1)"] assms(1,2) by (auto simp: queue_inv_def)
  then show ?thesis
    using act.heap_insert_correct[OF r(1) assms(2) r(3)] assms(3)
    by (simp add: mk_var_eh_def queue_inv_def act.yields_def)
qed

lemma del_var_eh_correct:
  assumes "queue_inv act q" "0 \<le> v"
  shows "\<exists>q'. del_var_eh act v q = Some q' \<and> queue_inv act q' \<and> elems q' = elems q - {v}"
  using act.erase_correct[where act = act and h = q and v = v] assms
  by (cases "v \<in> elems q") (auto simp: del_var_eh_def contains_elems queue_inv_def act.yields_def)

lemma unassign_var_eh_correct:
  assumes "queue_inv act q" "0 \<le> v" "nat v < length (m_value2indices q)"
  shows "queue_inv act (unassign_var_eh act v q) \<and> elems (unassign_var_eh act v q) = Set.insert v (elems q)"
  using act.heap_insert_correct[where act = act and h = q and v = v] assms
  by (cases "v \<in> elems q") (auto simp: unassign_var_eh_def contains_elems queue_inv_def act.yields_def)

lemma next_var_correct:
  assumes "queue_inv act q" "\<not> queue_empty q"
  shows "\<exists>v q'. next_var act q = Some (v, q') \<and> v \<in> elems q \<and> (\<forall>w \<in> elems q. act ! nat w \<le> act ! nat v)
    \<and> queue_inv act q' \<and> elems q' = elems q - {v}"
  using act.erase_min_correct[where act = act and h = q] assms
  by (auto simp: next_var_def queue_inv_def queue_empty_def act.yields_def activity_lt_def not_less)

section \<open>Raising and rescaling activities\<close>

definition sat_queue_inv :: "sat_activity \<Rightarrow> bool" where
  "sat_queue_inv s \<longleftrightarrow> queue_inv (m_activity s) (m_case_split_queue s)
     \<and> (\<forall>v \<in> elems (m_case_split_queue s). nat v < length (m_activity s))"

text \<open>Shifting every activity to the right keeps the order of the queue.\<close>

lemma drop_bit_mono: "(a :: 32 word) \<le> b \<Longrightarrow> drop_bit n a \<le> drop_bit n b"
  unfolding word_le_nat_alt unat_drop_bit_eq by (simp add: drop_bit_eq_div div_le_mono)

lemma rescale_queue_inv:
  assumes "sat_queue_inv s"
  shows "sat_queue_inv (rescale_activity s)"
proof -
  let ?act = "m_activity s" and ?q = "m_case_split_queue s"
  have h: "consist ?q" and e: "\<And>k. k < length (m_values ?q) \<Longrightarrow> edge_ok (activity_lt ?act) (value_at ?q) k"
    and bound: "\<And>v. v \<in> elems ?q \<Longrightarrow> nat v < length ?act"
    using assms by (auto simp: sat_queue_inv_def queue_inv_def heap_inv_def)
  have "edge_ok (activity_lt (map (drop_bit 14) ?act)) (value_at ?q) k" if k: "k < length (m_values ?q)" for k
  proof (cases "parent k = 0")
    case False
    then have "k \<noteq> 0" by (auto simp: parent_def)
    then have "value_at ?q k \<in> elems ?q" "value_at ?q (parent k) \<in> elems ?q"
      using act.value_in_elems[OF h _ k] act.value_in_elems[OF h False parent_lt[OF k]] by simp_all
    then show ?thesis using e[OF k] False bound drop_bit_mono
      by (simp add: edge_ok_def activity_lt_def not_less)
  qed (simp add: edge_ok_def)
  then show ?thesis using h bound
    by (simp add: sat_queue_inv_def queue_inv_def heap_inv_def rescale_activity_def)
qed

text \<open>Unless the 32-bit sum wraps, raising an activity keeps the queue in order.\<close>

theorem inc_activity_correct:
  assumes inv: "sat_queue_inv s" and v: "0 \<le> v" "nat v < length (m_activity s)"
    and "unat (m_activity s ! nat v) + unat (m_activity_inc s) < 2 ^ 32"
  shows "sat_queue_inv (inc_activity v s) \<and> elems (m_case_split_queue (inc_activity v s)) = elems (m_case_split_queue s)"
proof -
  let ?a = "m_activity s ! nat v + m_activity_inc s"
  let ?act = "(m_activity s)[nat v := ?a]"
  let ?s = "s\<lparr>m_activity := ?act, m_case_split_queue := activity_increased_eh ?act v (m_case_split_queue s)\<rparr>"
  have "m_activity s ! nat v \<le> ?a"
    using assms(4) by (simp add: word_le_nat_alt unat_word_ariths)
  then have "queue_inv ?act (m_case_split_queue ?s) \<and> elems (m_case_split_queue ?s) = elems (m_case_split_queue s)"
    using activity_increased_correct[of "m_activity s" "m_case_split_queue s" v ?act ?a] inv v(1)
    by (simp add: sat_queue_inv_def)
  then have s: "sat_queue_inv ?s" "elems (m_case_split_queue ?s) = elems (m_case_split_queue s)"
    using inv by (auto simp: sat_queue_inv_def)
  have "m_case_split_queue (rescale_activity ?s) = m_case_split_queue ?s" by (simp add: rescale_activity_def)
  then show ?thesis using s rescale_queue_inv[OF s(1)]
    unfolding inc_activity_def Let_def by (auto split: if_splits)
qed

end
