(* ===== verification/Sat_Types.thy ===== *)
theory Sat_Types
  imports Sat_Var_Queue
begin

text \<open>
  The data of the SAT solver (src/sources/Z3/src/sat): literals and lifted Booleans (sat_types.h,
  util/lbool.h), justifications (sat_justification.h), watch list elements (sat_watched.h), clauses
  (sat_clause.h), the configuration (sat_config.h) and the state of \<^verbatim>\<open>solver\<close> (sat_solver.h). The tagged
  pairs of words of the code are datatypes; a clause is referred to by its offset, here its position in
  the list of all clauses allocated.
\<close>

unbundle bit_operations_syntax

section \<open>Literals\<close>

text \<open>The literal of variable \<open>v\<close> is \<open>2 * v\<close>, its negation \<open>2 * v + 1\<close>.\<close>

type_synonym bool_var = nat
type_synonym literal = nat

definition mk_literal :: "bool_var \<Rightarrow> bool \<Rightarrow> literal" where
  "mk_literal v sign = push_bit 1 v + of_bool sign"

definition lit_var :: "literal \<Rightarrow> bool_var" where
  "lit_var l = drop_bit 1 l"

definition lit_sign :: "literal \<Rightarrow> bool" where
  "lit_sign l = (l AND 1 \<noteq> 0)"

definition neg_lit :: "literal \<Rightarrow> literal" where
  "neg_lit l = l XOR 1"

definition null_bool_var :: bool_var where
  "null_bool_var = 2147483647"

definition null_literal :: literal where
  "null_literal = mk_literal null_bool_var False"

lemma lit_simps: "lit_var l = l div 2" "lit_sign l = odd l" "neg_lit l = (if even l then l + 1 else l - 1)"
  "mk_literal v sg = 2 * v + of_bool sg"
proof -
  show "lit_var l = l div 2" by (simp add: lit_var_def drop_bit_eq_div)
  show "lit_sign l = odd l" by (simp add: lit_sign_def and_one_eq odd_iff_mod_2_eq_one)
  show "neg_lit l = (if even l then l + 1 else l - 1)" 
    by (simp add: neg_lit_def xor_Suc_0_eq)
  show "mk_literal v sg = 2 * v + of_bool sg" by (simp add: mk_literal_def push_bit_eq_mult)
qed

lemma neg_neg_lit [simp]: "neg_lit (neg_lit l) = l"
  by (auto simp: lit_simps)

lemma neg_lit_neq [simp]: "neg_lit l \<noteq> l" "l \<noteq> neg_lit l"
  by (auto simp: lit_simps elim!: oddE)

lemma neg_lit_inj [simp]: "neg_lit a = neg_lit b \<longleftrightarrow> a = b"
  by (metis neg_neg_lit)

lemma lit_var_neg [simp]: "lit_var (neg_lit l) = lit_var l"
  by (auto simp: lit_simps elim!: oddE)

lemma lit_sign_neg [simp]: "lit_sign (neg_lit l) = (\<not> lit_sign l)"
  by (auto simp: lit_simps)

lemma lit_var_eq: "lit_var a = lit_var b \<longleftrightarrow> a = b \<or> a = neg_lit b"
  by (auto simp: lit_simps elim!: evenE oddE)

lemma mk_literal_simps [simp]: "lit_var (mk_literal v sg) = v" "lit_sign (mk_literal v sg) = sg"
  "mk_literal (lit_var l) (lit_sign l) = l"
  by (auto simp: lit_simps)

section \<open>Lifted Booleans\<close>

datatype lbool = l_false | l_undef | l_true

primrec lbool_not :: "lbool \<Rightarrow> lbool" where
  "lbool_not l_false = l_true"
| "lbool_not l_undef = l_undef"
| "lbool_not l_true = l_false"

type_synonym model = "lbool list"

definition model_value :: "literal \<Rightarrow> model \<Rightarrow> lbool" where
  "model_value l m = (let r = m ! lit_var l in if lit_sign l then lbool_not r else r)"

section \<open>Justifications, watches and clauses\<close>

datatype justification =
    J_NONE
  | J_BINARY literal
  | J_TERNARY literal literal
  | J_CLAUSE nat
  | J_EXT nat

datatype watched =
    W_BINARY literal bool
  | W_TERNARY literal literal
  | W_CLAUSE literal nat
  | W_EXT nat

text \<open>The constructor for ternary clauses sorts the two literals.\<close>

definition mk_ternary_watch :: "literal \<Rightarrow> literal \<Rightarrow> watched" where
  "mk_ternary_watch l1 l2 = (if l1 > l2 then W_TERNARY l2 l1 else W_TERNARY l1 l2)"

text \<open>The constructor leaves \<^verbatim>\<open>m_glue\<close> unset; it is read in learned clauses only, for which it is set when they are made.\<close>

record clause =
  c_lits :: "literal list"
  c_learned :: bool
  c_removed :: bool
  c_used :: bool
  c_reinit_stack :: bool
  c_glue :: nat

definition new_clause :: "literal list \<Rightarrow> bool \<Rightarrow> clause" where
  "new_clause lits learned =
     \<lparr>c_lits = lits, c_learned = learned, c_removed = False, c_used = False, c_reinit_stack = False, c_glue = 0\<rparr>"

definition set_glue :: "nat \<Rightarrow> clause \<Rightarrow> clause" where
  "set_glue glue c = c\<lparr>c_glue := if glue > 255 then 255 else glue\<rparr>"

definition satisfied_by :: "clause \<Rightarrow> model \<Rightarrow> bool" where
  "satisfied_by c m = list_ex (\<lambda>l. if lit_sign l then m ! lit_var l = l_false else m ! lit_var l = l_true) (c_lits c)"

datatype clause_wrapper = CW_BINARY literal literal | CW_CLAUSE nat

section \<open>The solver\<close>

datatype phase = POS_PHASE | NEG_PHASE | PHASE_NOT_AVAILABLE

datatype phase_selection = PS_ALWAYS_TRUE | PS_ALWAYS_FALSE | PS_CACHING | PS_RANDOM

text \<open>The parameters used below; \<open>m_random_bound\<close> is the product of \<^verbatim>\<open>m_random_freq\<close> with the greatest
  random number, cast to an integer.\<close>

record sat_config =
  m_phase_selection :: phase_selection
  m_phase_caching_on :: nat
  m_phase_caching_off :: nat
  m_random_bound :: int
  m_max_conflicts :: nat
  m_minimize_lemmas :: bool
  m_dyn_sub_res :: bool

record sat_scope =
  m_trail_lim :: nat
  m_clauses_to_reinit_lim :: nat
  m_scope_inconsistent :: bool

text \<open>The state is split into the assignment with its trail, the clauses with their watches, the
  conflict with its analysis, and the heuristics.\<close>

record sat_assignment =
  m_assignment :: "lbool list"
  m_justification :: "justification list"
  m_level :: "nat list"
  m_trail :: "literal list"
  m_qhead :: nat
  m_scope_lvl :: nat
  m_scopes :: "sat_scope list"
  m_inconsistent :: bool
  m_conflict :: justification
  m_not_l :: literal

record sat_clauses =
  m_cls_allocator :: "clause list"
  m_clauses :: "nat list"
  m_learned :: "nat list"
  m_watches :: "watched list list"
  m_clauses_to_reinit :: "clause_wrapper list"

record sat_analysis =
  m_mark :: "bool list"
  m_lit_mark :: "bool list"
  m_lemma :: "literal list"
  m_unmark :: "bool_var list"
  m_lvl_set :: "32 word"

record sat_heuristics =
  m_phase :: "phase list"
  m_phase_cache_on :: bool
  m_phase_counter :: nat
  m_rand :: "32 word"
  m_conflicts :: nat
  m_conflicts_since_restart :: nat
  m_restart_threshold :: nat
  m_eliminated :: "bool list"

record solver =
  asg :: sat_assignment
  cdb :: sat_clauses
  ana :: sat_analysis
  heu :: sat_heuristics
  queue :: sat_activity
  m_config :: sat_config
  m_model :: model
  m_model_is_current :: bool

end
