(* ===== verification/Sat_Solver.thy ===== *)
theory Sat_Solver
  imports Sat_Types "HOL-Library.Monad_Syntax"
begin

text \<open>
  The CDCL procedure of the SAT solver (src/sources/Z3/src/sat/sat_solver.cpp): variables and clauses,
  watch lists, unit propagation, conflict analysis with minimisation of the learned clause, backtracking,
  decisions and the search loop, one definition per function of the class. The solver has no theory
  extension (\<^verbatim>\<open>m_ext\<close> is null), no assumptions and no parallel partner. \<open>None\<close> stands for a call through the
  null extension, a read outside the trail, a counter that would wrap, or a loop that does not end.
\<close>

definition uint_max :: nat where "uint_max = 4294967295"

section \<open>Basic\<close>

definition sat_num_vars :: "solver \<Rightarrow> nat" where
  "sat_num_vars s = length (m_level (asg s))"

definition lit_value :: "solver \<Rightarrow> literal \<Rightarrow> lbool" where
  "lit_value s l = m_assignment (asg s) ! l"

definition var_value :: "solver \<Rightarrow> bool_var \<Rightarrow> lbool" where
  "var_value s v = m_assignment (asg s) ! mk_literal v False"

definition lvl :: "solver \<Rightarrow> bool_var \<Rightarrow> nat" where
  "lvl s v = m_level (asg s) ! v"

definition lit_lvl :: "solver \<Rightarrow> literal \<Rightarrow> nat" where
  "lit_lvl s l = m_level (asg s) ! lit_var l"

definition scope_lvl :: "solver \<Rightarrow> nat" where
  "scope_lvl s = m_scope_lvl (asg s)"

definition inconsistent :: "solver \<Rightarrow> bool" where
  "inconsistent s = m_inconsistent (asg s)"

definition get_wlist :: "solver \<Rightarrow> literal \<Rightarrow> watched list" where
  "get_wlist s l = m_watches (cdb s) ! l"

definition set_wlist :: "literal \<Rightarrow> watched list \<Rightarrow> solver \<Rightarrow> solver" where
  "set_wlist l ws s = s\<lparr>cdb := (cdb s)\<lparr>m_watches := (m_watches (cdb s))[l := ws]\<rparr>\<rparr>"

definition push_watch :: "literal \<Rightarrow> watched \<Rightarrow> solver \<Rightarrow> solver" where
  "push_watch l w s = set_wlist l (get_wlist s l @ [w]) s"

definition get_clause :: "solver \<Rightarrow> nat \<Rightarrow> clause" where
  "get_clause s off = m_cls_allocator (cdb s) ! off"

definition set_clause :: "nat \<Rightarrow> clause \<Rightarrow> solver \<Rightarrow> solver" where
  "set_clause off c s = s\<lparr>cdb := (cdb s)\<lparr>m_cls_allocator := (m_cls_allocator (cdb s))[off := c]\<rparr>\<rparr>"

definition set_lits :: "nat \<Rightarrow> literal list \<Rightarrow> solver \<Rightarrow> solver" where
  "set_lits off lits s = set_clause off ((get_clause s off)\<lparr>c_lits := lits\<rparr>) s"

definition swap_lits :: "nat \<Rightarrow> nat \<Rightarrow> literal list \<Rightarrow> literal list" where
  "swap_lits i j ls = ls[i := ls ! j, j := ls ! i]"

definition set_conflict :: "justification \<Rightarrow> literal \<Rightarrow> solver \<Rightarrow> solver" where
  "set_conflict c not_l s =
     (if inconsistent s then s
      else s\<lparr>asg := (asg s)\<lparr>m_inconsistent := True, m_conflict := c, m_not_l := not_l\<rparr>\<rparr>)"

definition assign_core :: "literal \<Rightarrow> justification \<Rightarrow> solver \<Rightarrow> solver" where
  "assign_core l j s =
     (let a = asg s; v = lit_var l; j' = (if m_scope_lvl a = 0 then J_NONE else j)
      in s\<lparr>asg := a\<lparr>m_assignment := (m_assignment a)[l := l_true, neg_lit l := l_false],
                    m_level := (m_level a)[v := m_scope_lvl a],
                    m_justification := (m_justification a)[v := j'],
                    m_trail := m_trail a @ [l]\<rparr>,
            heu := (heu s)\<lparr>m_phase := (m_phase (heu s))[v := if lit_sign l then NEG_PHASE else POS_PHASE]\<rparr>\<rparr>)"

definition assign :: "literal \<Rightarrow> justification \<Rightarrow> solver \<Rightarrow> solver" where
  "assign l j s =
     (case lit_value s l of
        l_false \<Rightarrow> set_conflict j (neg_lit l) s
      | l_undef \<Rightarrow> assign_core l j s
      | l_true \<Rightarrow> s)"

section \<open>Variables and clauses\<close>

definition new_solver :: "sat_config \<Rightarrow> 32 word \<Rightarrow> solver" where
  "new_solver conf seed =
     \<lparr>asg = \<lparr>m_assignment = [], m_justification = [], m_level = [], m_trail = [], m_qhead = 0, m_scope_lvl = 0,
             m_scopes = [], m_inconsistent = False, m_conflict = J_NONE, m_not_l = null_literal\<rparr>,
      cdb = \<lparr>m_cls_allocator = [], m_clauses = [], m_learned = [], m_watches = [], m_clauses_to_reinit = []\<rparr>,
      ana = \<lparr>m_mark = [], m_lit_mark = [], m_lemma = [], m_unmark = [], m_lvl_set = 0\<rparr>,
      heu = \<lparr>m_phase = [], m_phase_cache_on = False, m_phase_counter = 0, m_rand = seed, m_conflicts = 0,
             m_conflicts_since_restart = 0, m_restart_threshold = 0, m_eliminated = []\<rparr>,
      queue = \<lparr>m_activity = [], m_activity_inc = 128, m_case_split_queue = new_var_queue\<rparr>,
      m_config = conf, m_model = [], m_model_is_current = False\<rparr>"

definition mk_bool_var :: "solver \<Rightarrow> bool_var \<times> solver" where
  "mk_bool_var s =
     (let v = sat_num_vars s; a = asg s; act = m_activity (queue s) @ [0]
      in (v, s\<lparr>asg := a\<lparr>m_assignment := m_assignment a @ [l_undef, l_undef],
                        m_justification := m_justification a @ [J_NONE],
                        m_level := m_level a @ [uint_max]\<rparr>,
               cdb := (cdb s)\<lparr>m_watches := m_watches (cdb s) @ [[], []]\<rparr>,
               ana := (ana s)\<lparr>m_mark := m_mark (ana s) @ [False], m_lit_mark := m_lit_mark (ana s) @ [False, False]\<rparr>,
               heu := (heu s)\<lparr>m_phase := m_phase (heu s) @ [PHASE_NOT_AVAILABLE],
                             m_eliminated := m_eliminated (heu s) @ [False]\<rparr>,
               queue := (queue s)\<lparr>m_activity := act, m_case_split_queue := mk_var_eh act (int v) (m_case_split_queue (queue s))\<rparr>,
               m_model_is_current := False\<rparr>))"

definition propagate_bin_clause :: "literal \<Rightarrow> literal \<Rightarrow> solver \<Rightarrow> bool \<times> solver" where
  "propagate_bin_clause l1 l2 s =
     (if lit_value s l2 = l_false then (True, assign l1 (J_BINARY l2) s)
      else if lit_value s l1 = l_false then (True, assign l2 (J_BINARY l1) s)
      else (False, s))"

definition push_reinit :: "clause_wrapper \<Rightarrow> solver \<Rightarrow> solver" where
  "push_reinit cw s = s\<lparr>cdb := (cdb s)\<lparr>m_clauses_to_reinit := m_clauses_to_reinit (cdb s) @ [cw]\<rparr>\<rparr>"

definition push_reinit_stack :: "nat \<Rightarrow> solver \<Rightarrow> solver" where
  "push_reinit_stack off s =
     (let s1 = push_reinit (CW_CLAUSE off) s in set_clause off ((get_clause s1 off)\<lparr>c_reinit_stack := True\<rparr>) s1)"

definition mk_bin_clause :: "literal \<Rightarrow> literal \<Rightarrow> bool \<Rightarrow> solver \<Rightarrow> solver" where
  "mk_bin_clause l1 l2 learned s =
     (let (p, s1) = propagate_bin_clause l1 l2 s
      in if p \<and> scope_lvl s1 = 0 then s1
         else let s2 = (if p \<and> \<not> learned then push_reinit (CW_BINARY l1 l2) s1 else s1)
              in push_watch (neg_lit l2) (W_BINARY l1 learned) (push_watch (neg_lit l1) (W_BINARY l2 learned) s2))"

definition attach_ter_clause :: "nat \<Rightarrow> solver \<Rightarrow> bool \<times> solver" where
  "attach_ter_clause off s =
     (let c = c_lits (get_clause s off); c0 = c ! 0; c1 = c ! 1; c2 = c ! 2;
          s1 = push_watch (neg_lit c2) (mk_ternary_watch c0 c1)
                (push_watch (neg_lit c1) (mk_ternary_watch c0 c2)
                (push_watch (neg_lit c0) (mk_ternary_watch c1 c2) s))
      in if scope_lvl s1 > 0 then
           if lit_value s1 c1 = l_false \<and> lit_value s1 c2 = l_false then (True, assign c0 (J_TERNARY c1 c2) s1)
           else if lit_value s1 c0 = l_false \<and> lit_value s1 c2 = l_false then (True, assign c1 (J_TERNARY c0 c2) s1)
           else if lit_value s1 c0 = l_false \<and> lit_value s1 c1 = l_false then (True, assign c2 (J_TERNARY c0 c1) s1)
           else (False, s1)
         else (False, s1))"

text \<open>The watch literal: the true one of least level, else the last unassigned one, else the false one of
  greatest level, from a position on.\<close>

definition watch_scan :: "solver \<Rightarrow> literal list \<Rightarrow> nat \<Rightarrow> nat \<times> nat \<times> nat \<Rightarrow> nat \<times> nat \<times> nat" where
  "watch_scan s c i = (\<lambda>(min_true, unknown, max_false).
     case lit_value s (c ! i) of
       l_false \<Rightarrow> (min_true, unknown,
          if max_false = uint_max \<or> lit_lvl s (c ! i) > lit_lvl s (c ! max_false) then i else max_false)
     | l_undef \<Rightarrow> (min_true, i, max_false)
     | l_true \<Rightarrow> (if min_true = uint_max \<or> lit_lvl s (c ! i) < lit_lvl s (c ! min_true) then i else min_true,
                  unknown, max_false))"

definition select_watch_lit :: "solver \<Rightarrow> literal list \<Rightarrow> nat \<Rightarrow> nat" where
  "select_watch_lit s c starting_at =
     (let (min_true, unknown, max_false) =
            fold (watch_scan s c) [starting_at..<length c] (uint_max, uint_max, uint_max)
      in if min_true \<noteq> uint_max then min_true else if unknown \<noteq> uint_max then unknown else max_false)"

definition select_learned_watch_lit :: "solver \<Rightarrow> literal list \<Rightarrow> nat" where
  "select_learned_watch_lit s c =
     fold (\<lambda>i max_false. if max_false = uint_max \<or> lit_lvl s (c ! i) > lit_lvl s (c ! max_false) then i else max_false)
       [1..<length c] uint_max"

definition choose_watches :: "solver \<Rightarrow> bool \<Rightarrow> literal list \<Rightarrow> literal list" where
  "choose_watches s learned c =
     (if learned then swap_lits 1 (select_learned_watch_lit s c) c
      else let c' = swap_lits 0 (select_watch_lit s c 0) c in swap_lits 1 (select_watch_lit s c' 1) c')"

definition attach_nary_clause :: "nat \<Rightarrow> solver \<Rightarrow> bool \<times> solver" where
  "attach_nary_clause off s =
     (let (reinit, s1) =
            (if scope_lvl s > 0 then
               let c = choose_watches s (c_learned (get_clause s off)) (c_lits (get_clause s off)); s' = set_lits off c s
               in if lit_value s' (c ! 0) = l_false then (True, assign (c ! 1) (J_CLAUSE off) s')
                  else if lit_value s' (c ! 1) = l_false then (True, assign (c ! 0) (J_CLAUSE off) s')
                  else (False, s')
             else (False, s));
          c = c_lits (get_clause s1 off); block_lit = c ! (length c div 2)
      in (reinit, push_watch (neg_lit (c ! 1)) (W_CLAUSE block_lit off)
                   (push_watch (neg_lit (c ! 0)) (W_CLAUSE block_lit off) s1)))"

definition attach_clause :: "nat \<Rightarrow> solver \<Rightarrow> bool \<times> solver" where
  "attach_clause off s =
     (if length (c_lits (get_clause s off)) = 3 then attach_ter_clause off s else attach_nary_clause off s)"

text \<open>Allocation, with the entry in the list of input or learned clauses.\<close>

definition alloc_clause :: "literal list \<Rightarrow> bool \<Rightarrow> solver \<Rightarrow> nat \<times> solver" where
  "alloc_clause lits learned s =
     (let off = length (m_cls_allocator (cdb s))
      in (off, s\<lparr>cdb := (cdb s)\<lparr>m_cls_allocator := m_cls_allocator (cdb s) @ [new_clause lits learned]\<rparr>\<rparr>))"

definition add_to_list :: "nat \<Rightarrow> bool \<Rightarrow> solver \<Rightarrow> solver" where
  "add_to_list off learned s =
     s\<lparr>cdb := (if learned then (cdb s)\<lparr>m_learned := m_learned (cdb s) @ [off]\<rparr>
              else (cdb s)\<lparr>m_clauses := m_clauses (cdb s) @ [off]\<rparr>)\<rparr>"

definition mk_ter_clause :: "literal list \<Rightarrow> bool \<Rightarrow> solver \<Rightarrow> nat \<times> solver" where
  "mk_ter_clause lits learned s =
     (let (off, s1) = alloc_clause lits learned s; (reinit, s2) = attach_ter_clause off s1
      in (off, add_to_list off learned (if reinit \<and> \<not> learned then push_reinit_stack off s2 else s2)))"

definition mk_nary_clause :: "literal list \<Rightarrow> bool \<Rightarrow> solver \<Rightarrow> nat \<times> solver" where
  "mk_nary_clause lits learned s =
     (let (off, s1) = alloc_clause lits learned s; (reinit, s2) = attach_nary_clause off s1
      in (off, add_to_list off learned (if reinit \<and> \<not> learned then push_reinit_stack off s2 else s2)))"

text \<open>Simplification of a sorted clause: \<open>None\<close> when it is true, else the literals that remain.\<close>

fun simplify_sorted :: "(literal \<Rightarrow> lbool) \<Rightarrow> literal \<Rightarrow> literal list \<Rightarrow> literal list option" where
  "simplify_sorted val prev [] = Some []"
| "simplify_sorted val prev (cur # lits) =
     (case val cur of
        l_false \<Rightarrow> simplify_sorted val prev lits
      | l_undef \<Rightarrow>
          if cur = neg_lit prev then None
          else if cur \<noteq> prev then map_option ((#) cur) (simplify_sorted val cur lits)
          else simplify_sorted val prev lits
      | l_true \<Rightarrow> None)"

definition simplify_clause :: "solver \<Rightarrow> literal list \<Rightarrow> literal list option" where
  "simplify_clause s lits =
     simplify_sorted (\<lambda>l. if scope_lvl s \<noteq> 0 \<and> lit_lvl s l > 0 then l_undef else lit_value s l) null_literal (sort lits)"

definition mk_simplified :: "literal list \<Rightarrow> bool \<Rightarrow> solver \<Rightarrow> nat option \<times> solver" where
  "mk_simplified lits learned s =
     (case lits of
        [] \<Rightarrow> (None, set_conflict J_NONE null_literal s)
      | [l] \<Rightarrow> (None, assign l J_NONE s)
      | [l1, l2] \<Rightarrow> (None, mk_bin_clause l1 l2 learned s)
      | [_, _, _] \<Rightarrow> (let (off, s') = mk_ter_clause lits learned s in (Some off, s'))
      | _ \<Rightarrow> (let (off, s') = mk_nary_clause lits learned s in (Some off, s')))"

definition mk_clause_core :: "literal list \<Rightarrow> bool \<Rightarrow> solver \<Rightarrow> nat option \<times> solver" where
  "mk_clause_core lits learned s =
     (if learned then mk_simplified lits learned s
      else case simplify_clause s lits of None \<Rightarrow> (None, s) | Some lits' \<Rightarrow> mk_simplified lits' learned s)"

text \<open>Without user scopes, whose literals would be added.\<close>

definition mk_clause :: "literal list \<Rightarrow> solver \<Rightarrow> solver" where
  "mk_clause lits s = snd (mk_clause_core lits False (s\<lparr>m_model_is_current := False\<rparr>))"

section \<open>Detaching\<close>

fun erase_clause_watch :: "watched list \<Rightarrow> nat \<Rightarrow> watched list" where
  "erase_clause_watch [] c = []"
| "erase_clause_watch (w # ws) c =
     (case w of W_CLAUSE _ off \<Rightarrow> if off = c then ws else w # erase_clause_watch ws c
      | _ \<Rightarrow> w # erase_clause_watch ws c)"

definition erase_watch :: "literal \<Rightarrow> watched \<Rightarrow> solver \<Rightarrow> solver" where
  "erase_watch l w s = set_wlist l (remove1 w (get_wlist s l)) s"

definition detach_bin_clause :: "literal \<Rightarrow> literal \<Rightarrow> bool \<Rightarrow> solver \<Rightarrow> solver" where
  "detach_bin_clause l1 l2 learned s =
     erase_watch (neg_lit l2) (W_BINARY l1 learned) (erase_watch (neg_lit l1) (W_BINARY l2 learned) s)"

definition detach_clause :: "nat \<Rightarrow> solver \<Rightarrow> solver" where
  "detach_clause off s =
     (let c = c_lits (get_clause s off)
      in if length c = 3 then
           erase_watch (neg_lit (c ! 2)) (mk_ternary_watch (c ! 0) (c ! 1))
             (erase_watch (neg_lit (c ! 1)) (mk_ternary_watch (c ! 0) (c ! 2))
             (erase_watch (neg_lit (c ! 0)) (mk_ternary_watch (c ! 1) (c ! 2)) s))
         else
           let s1 = set_wlist (neg_lit (c ! 0)) (erase_clause_watch (get_wlist s (neg_lit (c ! 0))) off) s
           in set_wlist (neg_lit (c ! 1)) (erase_clause_watch (get_wlist s1 (neg_lit (c ! 1))) off) s1)"

end
