(* ===== verification/Sat_Search.thy ===== *)
theory Sat_Search
  imports Sat_Solver
begin

text \<open>
  Unit propagation, conflict analysis, backtracking and search of the SAT solver
  (src/sources/Z3/src/sat/sat_solver.cpp, util/approx_set.h, the random generator of util/util.h).
  Garbage collection of learned clauses, \<^verbatim>\<open>cleanup\<close> and \<^verbatim>\<open>simplify_problem\<close> are not modelled. The lemma is
  the field \<open>m_lemma\<close>; the stack of the minimisation is an argument of its loop.
\<close>

section \<open>Unit propagation\<close>

definition num_diff_levels :: "solver \<Rightarrow> literal list \<Rightarrow> nat" where
  "num_diff_levels s lits = length (remdups (map (lit_lvl s) lits))"

definition mark_used :: "nat \<Rightarrow> solver \<Rightarrow> solver" where
  "mark_used off s = set_clause off ((get_clause s off)\<lparr>c_used := True\<rparr>) s"

definition update_glue :: "bool \<Rightarrow> nat \<Rightarrow> solver \<Rightarrow> solver" where
  "update_glue update off s =
     (let c = get_clause s off
      in if update \<and> c_learned c \<and> c_glue c > 2 then
           let glue = num_diff_levels s (c_lits c)
           in if glue + 1 < c_glue c then set_clause off (set_glue glue c) s else s
         else s)"

text \<open>The position of the first literal from the third on that is not false.\<close>

definition find_watch :: "solver \<Rightarrow> literal list \<Rightarrow> nat option" where
  "find_watch s c = List.find (\<lambda>i. lit_value s (c ! i) \<noteq> l_false) [2..<length c]"

text \<open>The loop on the watch list of \<open>l\<close>: \<open>kept\<close> are the elements kept so far. The list is written back
  when the loop ends.\<close>

fun propagate_wlist :: "bool \<Rightarrow> literal \<Rightarrow> watched list \<Rightarrow> watched list \<Rightarrow> solver \<Rightarrow> (bool \<times> solver) option" where
  "propagate_wlist update l kept [] s = Some (True, set_wlist l kept s)"
| "propagate_wlist update l kept (W_BINARY l1 learned # ws) s =
     (case lit_value s l1 of
        l_false \<Rightarrow> Some (False, set_conflict (J_BINARY (neg_lit l)) (neg_lit l1) (set_wlist l (kept @ W_BINARY l1 learned # ws) s))
      | l_undef \<Rightarrow> propagate_wlist update l (kept @ [W_BINARY l1 learned]) ws (assign_core l1 (J_BINARY (neg_lit l)) s)
      | l_true \<Rightarrow> propagate_wlist update l (kept @ [W_BINARY l1 learned]) ws s)"
| "propagate_wlist update l kept (W_TERNARY l1 l2 # ws) s =
     (let val1 = lit_value s l1; val2 = lit_value s l2
      in if val1 = l_false \<and> val2 = l_undef then
           propagate_wlist update l (kept @ [W_TERNARY l1 l2]) ws (assign_core l2 (J_TERNARY l1 (neg_lit l)) s)
         else if val1 = l_undef \<and> val2 = l_false then
           propagate_wlist update l (kept @ [W_TERNARY l1 l2]) ws (assign_core l1 (J_TERNARY l2 (neg_lit l)) s)
         else if val1 = l_false \<and> val2 = l_false then
           Some (False, set_conflict (J_TERNARY l1 (neg_lit l)) (neg_lit l2) (set_wlist l (kept @ W_TERNARY l1 l2 # ws) s))
         else propagate_wlist update l (kept @ [W_TERNARY l1 l2]) ws s)"
| "propagate_wlist update l kept (W_CLAUSE blocked off # ws) s =
     (if lit_value s blocked = l_true then propagate_wlist update l (kept @ [W_CLAUSE blocked off]) ws s
      else
        let not_l = neg_lit l;
            c0 = c_lits (get_clause s off);
            c = (if c0 ! 0 = not_l then swap_lits 0 1 c0 else c0);
            s1 = (if c0 ! 0 = not_l then set_lits off c s else s)
        in if c_removed (get_clause s1 off) \<or> c ! 1 \<noteq> not_l then
             propagate_wlist update l (kept @ [W_CLAUSE blocked off]) ws s1
           else if lit_value s1 (c ! 0) = l_true then
             propagate_wlist update l (kept @ [W_CLAUSE (c ! 0) off]) ws s1
           else case find_watch s1 c of
             Some i \<Rightarrow>
               let c' = c[1 := c ! i, i := not_l]
               in propagate_wlist update l kept ws (push_watch (neg_lit (c' ! 1)) (W_CLAUSE (c' ! 0) off) (set_lits off c' s1))
           | None \<Rightarrow>
               if lit_value s1 (c ! 0) = l_false then
                 Some (False, set_conflict (J_CLAUSE off) null_literal
                               (set_wlist l (kept @ W_CLAUSE blocked off # ws) (mark_used off s1)))
               else
                 propagate_wlist update l (kept @ [W_CLAUSE blocked off]) ws
                   (update_glue update off (assign_core (c ! 0) (J_CLAUSE off) (mark_used off s1))))"
| "propagate_wlist update l kept (W_EXT idx # ws) s = None"

partial_function (option) propagate_loop :: "bool \<Rightarrow> solver \<Rightarrow> (bool \<times> solver) option" where
  [code]: "propagate_loop update s =
     (if m_qhead (asg s) < length (m_trail (asg s)) then do {
        let l = m_trail (asg s) ! m_qhead (asg s);
        (ok, s') \<leftarrow> propagate_wlist update l [] (get_wlist s l) (s\<lparr>asg := (asg s)\<lparr>m_qhead := m_qhead (asg s) + 1\<rparr>\<rparr>);
        if ok then propagate_loop update s' else Some (False, s')
      }
      else Some (True, s))"

definition propagate :: "bool \<Rightarrow> solver \<Rightarrow> (bool \<times> solver) option" where
  "propagate update s = (if inconsistent s then Some (False, s) else propagate_loop update s)"

section \<open>Conflict analysis\<close>

definition is_marked :: "solver \<Rightarrow> bool_var \<Rightarrow> bool" where
  "is_marked s v = m_mark (ana s) ! v"

definition set_mark :: "bool_var \<Rightarrow> bool \<Rightarrow> solver \<Rightarrow> solver" where
  "set_mark v b s = s\<lparr>ana := (ana s)\<lparr>m_mark := (m_mark (ana s))[v := b]\<rparr>\<rparr>"

definition set_lemma :: "literal list \<Rightarrow> solver \<Rightarrow> solver" where
  "set_lemma ls s = s\<lparr>ana := (ana s)\<lparr>m_lemma := ls\<rparr>\<rparr>"

definition set_unmark :: "bool_var list \<Rightarrow> solver \<Rightarrow> solver" where
  "set_unmark vs s = s\<lparr>ana := (ana s)\<lparr>m_unmark := vs\<rparr>\<rparr>"

text \<open>\<^verbatim>\<open>process_antecedent\<close>; the conflict level is the current one, as there is no extension.\<close>

definition process_antecedent :: "literal \<Rightarrow> solver \<times> nat \<Rightarrow> solver \<times> nat" where
  "process_antecedent antecedent = (\<lambda>(s, num_marks).
     let v = lit_var antecedent; var_lvl = lvl s v
     in if \<not> is_marked s v \<and> var_lvl > 0 then
          let s1 = set_mark v True s; s2 = s1\<lparr>queue := inc_activity (int v) (queue s1)\<rparr>
          in if var_lvl = scope_lvl s then (s2, num_marks + 1)
             else (set_lemma (m_lemma (ana s2) @ [neg_lit antecedent]) s2, num_marks)
        else (s, num_marks))"

text \<open>The antecedents of a justification: the negated literals of the clause but the consequent.\<close>

definition js_antecedents :: "solver \<Rightarrow> literal \<Rightarrow> justification \<Rightarrow> literal list option" where
  "js_antecedents s consequent js =
     (case js of
        J_NONE \<Rightarrow> Some []
      | J_BINARY l \<Rightarrow> Some [neg_lit l]
      | J_TERNARY l1 l2 \<Rightarrow> Some [neg_lit l1, neg_lit l2]
      | J_CLAUSE off \<Rightarrow>
          let c = c_lits (get_clause s off)
          in Some (if consequent = null_literal then map neg_lit c
                   else if c ! 0 = consequent then map neg_lit (drop 1 c)
                   else neg_lit (c ! 0) # map neg_lit (drop 2 c))
      | J_EXT _ \<Rightarrow> None)"

text \<open>The search for a marked literal downwards in the trail.\<close>

fun find_marked :: "solver \<Rightarrow> nat \<Rightarrow> nat option" where
  "find_marked s idx =
     (if idx < length (m_trail (asg s)) then
        if is_marked s (lit_var (m_trail (asg s) ! idx)) then Some idx
        else if idx = 0 then None else find_marked s (idx - 1)
      else None)"

declare find_marked.simps [simp del]

partial_function (option) resolve_loop :: "literal \<Rightarrow> justification \<Rightarrow> nat \<Rightarrow> nat \<Rightarrow> solver \<Rightarrow> (literal \<times> solver) option" where
  [code]: "resolve_loop consequent js idx num_marks s = do {
     as \<leftarrow> js_antecedents s consequent js;
     let (s1, n1) = fold process_antecedent as (s, num_marks);
     idx1 \<leftarrow> find_marked s1 idx;
     let consequent1 = m_trail (asg s1) ! idx1;
     let js1 = m_justification (asg s1) ! lit_var consequent1;
     if n1 = 0 then None
     else let s2 = set_mark (lit_var consequent1) False s1
          in if n1 - 1 > 0 then resolve_loop consequent1 js1 (if idx1 = 0 then uint_max else idx1 - 1) (n1 - 1) s2
             else Some (consequent1, s2)
   }"

definition forget_phase_of_vars :: "nat \<Rightarrow> solver \<Rightarrow> solver" where
  "forget_phase_of_vars from_lvl s =
     (let head = (if from_lvl = 0 then 0 else m_trail_lim (m_scopes (asg s) ! (from_lvl - 1)))
      in s\<lparr>heu := (heu s)\<lparr>m_phase := fold (\<lambda>l ph. ph[lit_var l := PHASE_NOT_AVAILABLE]) (drop head (m_trail (asg s))) (m_phase (heu s))\<rparr>\<rparr>)"

definition updt_phase_counters :: "solver \<Rightarrow> solver" where
  "updt_phase_counters s =
     (let h = heu s; n = m_phase_counter h + 1; conf = m_config s
      in s\<lparr>heu := (if m_phase_cache_on h then
                     if n \<ge> m_phase_caching_on conf then h\<lparr>m_phase_counter := 0, m_phase_cache_on := False\<rparr> else h\<lparr>m_phase_counter := n\<rparr>
                   else
                     if n \<ge> m_phase_caching_off conf then h\<lparr>m_phase_counter := 0, m_phase_cache_on := True\<rparr> else h\<lparr>m_phase_counter := n\<rparr>)\<rparr>)"

section \<open>Minimisation of the lemma\<close>

text \<open>The set of levels is approximated by 32 bits.\<close>

definition lvl_set_bit :: "nat \<Rightarrow> 32 word" where
  "lvl_set_bit u = push_bit (u mod 32) 1"

definition lvl_set_insert :: "nat \<Rightarrow> 32 word \<Rightarrow> 32 word" where
  "lvl_set_insert u st = st OR lvl_set_bit u"

definition may_contain :: "32 word \<Rightarrow> nat \<Rightarrow> bool" where
  "may_contain st u = (st AND lvl_set_bit u \<noteq> 0)"

definition updt_lemma_lvl_set :: "solver \<Rightarrow> solver" where
  "updt_lemma_lvl_set s =
     s\<lparr>ana := (ana s)\<lparr>m_lvl_set := fold (\<lambda>l. lvl_set_insert (lit_lvl s l)) (m_lemma (ana s)) 0\<rparr>\<rparr>"

definition reset_unmark :: "nat \<Rightarrow> solver \<Rightarrow> solver" where
  "reset_unmark old_size s =
     set_unmark (take old_size (m_unmark (ana s))) (fold (\<lambda>v. set_mark v False) (drop old_size (m_unmark (ana s))) s)"

text \<open>Antecedents are processed until one fails; the stack grows by those to be looked at.\<close>

fun process_for_minimization :: "literal list \<Rightarrow> bool_var list \<Rightarrow> solver \<Rightarrow> bool \<times> bool_var list \<times> solver" where
  "process_for_minimization [] stack s = (True, stack, s)"
| "process_for_minimization (a # as) stack s =
     (let v = lit_var a; var_lvl = lvl s v
      in if \<not> is_marked s v \<and> var_lvl > 0 then
           if may_contain (m_lvl_set (ana s)) var_lvl then
             process_for_minimization as (v # stack) (set_unmark (m_unmark (ana s) @ [v]) (set_mark v True s))
           else (False, stack, s)
         else process_for_minimization as stack s)"

text \<open>The antecedents of the literal of a variable; for a clause, the first literal is compared by variable.\<close>

definition var_antecedents :: "solver \<Rightarrow> bool_var \<Rightarrow> literal list option" where
  "var_antecedents s v =
     (case m_justification (asg s) ! v of
        J_CLAUSE off \<Rightarrow>
          let c = c_lits (get_clause s off)
          in Some (if lit_var (c ! 0) = v then map neg_lit (drop 1 c) else neg_lit (c ! 0) # map neg_lit (drop 2 c))
      | js \<Rightarrow> js_antecedents s null_literal js)"

partial_function (option) implied_loop :: "nat \<Rightarrow> bool_var list \<Rightarrow> solver \<Rightarrow> (bool \<times> solver) option" where
  [code]: "implied_loop old_size stack s =
     (case stack of
        [] \<Rightarrow> Some (True, s)
      | v # stack1 \<Rightarrow>
          if m_justification (asg s) ! v = J_NONE \<and> lvl s v > 0 then Some (False, reset_unmark old_size s)
          else do {
            as \<leftarrow> var_antecedents s v;
            let (ok, stack2, s2) = process_for_minimization as stack1 s;
            if ok then implied_loop old_size stack2 s2 else Some (False, reset_unmark old_size s2)
          })"

definition implied_by_marked :: "literal \<Rightarrow> solver \<Rightarrow> (bool \<times> solver) option" where
  "implied_by_marked l s = implied_loop (length (m_unmark (ana s))) [lit_var l] s"

fun minimize_loop :: "literal list \<Rightarrow> literal list \<Rightarrow> solver \<Rightarrow> (literal list \<times> solver) option" where
  "minimize_loop kept [] s = Some (kept, s)"
| "minimize_loop kept (l # ls) s = do {
     (implied, s1) \<leftarrow> implied_by_marked l s;
     if implied then minimize_loop kept ls (set_unmark (m_unmark (ana s1) @ [lit_var l]) s1)
     else minimize_loop (kept @ [l]) ls s1
   }"

definition minimize_lemma :: "solver \<Rightarrow> solver option" where
  "minimize_lemma s = do {
     let s1 = updt_lemma_lvl_set s;
     (kept, s2) \<leftarrow> minimize_loop (take 1 (m_lemma (ana s1))) (drop 1 (m_lemma (ana s1))) s1;
     Some (set_lemma kept (reset_unmark 0 s2))
   }"

definition reset_lemma_var_marks :: "solver \<Rightarrow> solver" where
  "reset_lemma_var_marks s = fold (\<lambda>l. set_mark (lit_var l) False) (drop 1 (m_lemma (ana s))) s"

section \<open>Subsumption resolution with binary and ternary clauses\<close>

text \<open>The loop on the watch list of the negation of a lemma literal, on the vector of literal marks; it stops
  at the first clause. The cache of the probing module is empty.\<close>

fun dyn_sub_wlist :: "literal \<Rightarrow> watched list \<Rightarrow> bool list \<Rightarrow> bool list" where
  "dyn_sub_wlist l0 (W_BINARY l2 learned # ws) mk =
     dyn_sub_wlist l0 ws (if mk ! neg_lit l2 \<and> l0 \<noteq> neg_lit l2 then mk[neg_lit l2 := False] else mk)"
| "dyn_sub_wlist l0 (W_TERNARY l2 l3 # ws) mk =
     dyn_sub_wlist l0 ws
       (if mk ! l2 \<and> mk ! neg_lit l3 \<and> l0 \<noteq> neg_lit l3 then mk[neg_lit l3 := False]
        else if mk ! neg_lit l2 \<and> mk ! l3 \<and> l0 \<noteq> neg_lit l2 then mk[neg_lit l2 := False]
        else mk)"
| "dyn_sub_wlist l0 _ mk = mk"

definition dyn_sub_step :: "solver \<Rightarrow> literal \<Rightarrow> literal \<Rightarrow> bool list \<Rightarrow> bool list" where
  "dyn_sub_step s l0 l mk = (if mk ! l then dyn_sub_wlist l0 (get_wlist s (neg_lit l)) mk else mk)"

definition dyn_sub_res :: "solver \<Rightarrow> solver" where
  "dyn_sub_res s =
     (let lemma = m_lemma (ana s);
          mk = fold (\<lambda>l m. m[l := True]) lemma (m_lit_mark (ana s));
          mk1 = fold (dyn_sub_step s (hd lemma)) lemma mk;
          kept = filter (\<lambda>l. mk1 ! l) lemma;
          mk2 = fold (\<lambda>l m. m[l := False]) kept mk1
      in s\<lparr>ana := (ana s)\<lparr>m_lit_mark := mk2, m_lemma := kept\<rparr>\<rparr>)"

section \<open>Backtracking\<close>

definition sat_push :: "solver \<Rightarrow> solver" where
  "sat_push s =
     (let a = asg s;
          sc = \<lparr>m_trail_lim = length (m_trail a), m_clauses_to_reinit_lim = length (m_clauses_to_reinit (cdb s)),
                m_scope_inconsistent = m_inconsistent a\<rparr>
      in s\<lparr>asg := a\<lparr>m_scopes := m_scopes a @ [sc], m_scope_lvl := m_scope_lvl a + 1\<rparr>\<rparr>)"

definition unassign_lit :: "literal \<Rightarrow> solver \<Rightarrow> solver" where
  "unassign_lit l s =
     s\<lparr>asg := (asg s)\<lparr>m_assignment := (m_assignment (asg s))[l := l_undef, neg_lit l := l_undef]\<rparr>,
       queue := (queue s)\<lparr>m_case_split_queue :=
         unassign_var_eh (m_activity (queue s)) (int (lit_var l)) (m_case_split_queue (queue s))\<rparr>\<rparr>"

definition unassign_vars :: "nat \<Rightarrow> solver \<Rightarrow> solver" where
  "unassign_vars old_sz s =
     (let s1 = fold unassign_lit (rev (drop old_sz (m_trail (asg s)))) s
      in s1\<lparr>asg := (asg s1)\<lparr>m_trail := take old_sz (m_trail (asg s1)), m_qhead := old_sz\<rparr>\<rparr>)"

fun reinit_loop :: "clause_wrapper list \<Rightarrow> clause_wrapper list \<Rightarrow> solver \<Rightarrow> clause_wrapper list \<times> solver" where
  "reinit_loop kept [] s = (kept, s)"
| "reinit_loop kept (CW_BINARY l1 l2 # cws) s =
     (let (p, s1) = propagate_bin_clause l1 l2 s
      in reinit_loop (if p \<and> scope_lvl s1 > 0 then kept @ [CW_BINARY l1 l2] else kept) cws s1)"
| "reinit_loop kept (CW_CLAUSE off # cws) s =
     (let (reinit, s1) = attach_clause off (detach_clause off s)
      in if scope_lvl s1 > 0 \<and> reinit then reinit_loop (kept @ [CW_CLAUSE off]) cws s1
         else reinit_loop kept cws (set_clause off ((get_clause s1 off)\<lparr>c_reinit_stack := False\<rparr>) s1))"

definition reinit_clauses :: "nat \<Rightarrow> solver \<Rightarrow> solver" where
  "reinit_clauses old_sz s =
     (let cws = m_clauses_to_reinit (cdb s); (kept, s1) = reinit_loop (take old_sz cws) (drop old_sz cws) s
      in s1\<lparr>cdb := (cdb s1)\<lparr>m_clauses_to_reinit := kept\<rparr>\<rparr>)"

definition sat_pop :: "nat \<Rightarrow> solver \<Rightarrow> solver" where
  "sat_pop num_scopes s =
     (if num_scopes = 0 then s
      else
        let new_lvl = scope_lvl s - num_scopes; sc = m_scopes (asg s) ! new_lvl;
            s1 = unassign_vars (m_trail_lim sc) (s\<lparr>asg := (asg s)\<lparr>m_inconsistent := False\<rparr>\<rparr>);
            s2 = s1\<lparr>asg := (asg s1)\<lparr>m_scope_lvl := new_lvl, m_scopes := take new_lvl (m_scopes (asg s1))\<rparr>\<rparr>
        in reinit_clauses (m_clauses_to_reinit_lim sc) s2)"

section \<open>Learning\<close>

definition learn_lemma :: "solver \<Rightarrow> solver" where
  "learn_lemma s =
     (let lemma = m_lemma (ana s);
          new_scope_lvl = fold (\<lambda>l m. max m (lit_lvl s l)) (drop 1 lemma) 0;
          glue = num_diff_levels s lemma;
          s1 = sat_pop (scope_lvl s - new_scope_lvl) s;
          (cls, s2) = mk_clause_core (m_lemma (ana s1)) True s1;
          s3 = (case cls of None \<Rightarrow> s2 | Some off \<Rightarrow> set_clause off (set_glue glue (get_clause s2 off)) s2);
          s4 = s3\<lparr>queue := decay_activity (queue s3)\<rparr>
      in updt_phase_counters s4)"

definition resolve_conflict_core :: "solver \<Rightarrow> (bool \<times> solver) option" where
  "resolve_conflict_core s0 =
     (let s = s0\<lparr>heu := (heu s0)\<lparr>m_conflicts := m_conflicts (heu s0) + 1,
                                m_conflicts_since_restart := m_conflicts_since_restart (heu s0) + 1\<rparr>\<rparr>
      in if scope_lvl s = 0 then Some (False, s)
         else do {
           let s1 = set_lemma [null_literal] (forget_phase_of_vars (scope_lvl s) s);
           let not_l = m_not_l (asg s1);
           let (s2, n) = (if not_l \<noteq> null_literal then process_antecedent not_l (s1, 0) else (s1, 0));
           (consequent, s3) \<leftarrow> resolve_loop not_l (m_conflict (asg s2)) (length (m_trail (asg s2)) - 1) n s2;
           let s4 = set_lemma ((m_lemma (ana s3))[0 := neg_lit consequent]) s3;
           s5 \<leftarrow> (if m_minimize_lemmas (m_config s4) then do {
                    s' \<leftarrow> minimize_lemma s4;
                    let s'' = reset_lemma_var_marks s';
                    Some (if m_dyn_sub_res (m_config s'') then dyn_sub_res s'' else s'')
                  }
                  else Some (reset_lemma_var_marks s4));
           Some (True, learn_lemma s5)
         })"

partial_function (option) resolve_conflict :: "solver \<Rightarrow> (bool \<times> solver) option" where
  [code]: "resolve_conflict s = do {
     (r, s1) \<leftarrow> resolve_conflict_core s;
     if \<not> r then Some (False, s1)
     else if \<not> inconsistent s1 then Some (True, s1)
     else resolve_conflict s1
   }"

section \<open>Decisions and models\<close>

definition random_next :: "32 word \<Rightarrow> int \<times> 32 word" where
  "random_next d = (let d' = d * 214013 + 2531011 in (uint (drop_bit 16 d' AND 0x7fff), d'))"

definition take_random :: "solver \<Rightarrow> int \<times> solver" where
  "take_random s = (let (r, d) = random_next (m_rand (heu s)) in (r, s\<lparr>heu := (heu s)\<lparr>m_rand := d\<rparr>\<rparr>))"

text \<open>A variable may be decided when it is unassigned and was not eliminated.\<close>

definition can_decide :: "solver \<Rightarrow> bool_var \<Rightarrow> bool" where
  "can_decide s v = (var_value s v = l_undef \<and> \<not> m_eliminated (heu s) ! v)"

partial_function (option) next_from_queue :: "solver \<Rightarrow> (bool_var option \<times> solver) option" where
  [code]: "next_from_queue s =
     (if queue_empty (m_case_split_queue (queue s)) then Some (None, s)
      else do {
        (v, q) \<leftarrow> next_var (m_activity (queue s)) (m_case_split_queue (queue s));
        let s1 = s\<lparr>queue := (queue s)\<lparr>m_case_split_queue := q\<rparr>\<rparr>;
        if can_decide s1 (nat v) then Some (Some (nat v), s1) else next_from_queue s1
      })"

definition solver_next_var :: "solver \<Rightarrow> (bool_var option \<times> solver) option" where
  "solver_next_var s =
     (let (r, s1) = take_random s
      in if r < m_random_bound (m_config s1) then
           if sat_num_vars s1 = 0 then Some (None, s1)
           else let (r', s2) = take_random s1; v = nat r' mod sat_num_vars s2
                in if can_decide s2 v then Some (Some v, s2) else next_from_queue s2
         else next_from_queue s1)"

definition choose_phase :: "bool_var \<Rightarrow> solver \<Rightarrow> lbool \<times> solver" where
  "choose_phase v s =
     (case m_phase_selection (m_config s) of
        PS_ALWAYS_TRUE \<Rightarrow> (l_true, s)
      | PS_ALWAYS_FALSE \<Rightarrow> (l_false, s)
      | PS_CACHING \<Rightarrow>
          (if m_phase_cache_on (heu s) \<and> m_phase (heu s) ! v \<noteq> PHASE_NOT_AVAILABLE
           then if m_phase (heu s) ! v = POS_PHASE then l_true else l_false
           else l_false, s)
      | PS_RANDOM \<Rightarrow> (let (r, s1) = take_random s in (if r mod 2 = 0 then l_true else l_false, s1)))"

definition decide :: "solver \<Rightarrow> (bool \<times> solver) option" where
  "decide s = do {
     (v, s1) \<leftarrow> solver_next_var s;
     Some (case v of
       None \<Rightarrow> (False, s1)
     | Some v \<Rightarrow>
         let (ph, s2) = choose_phase v (sat_push s1)
         in (True, assign (mk_literal v (ph = l_false)) J_NONE s2))
   }"

definition mk_model :: "solver \<Rightarrow> solver" where
  "mk_model s =
     s\<lparr>m_model := map (\<lambda>v. if m_eliminated (heu s) ! v then l_undef else var_value s v) [0..<sat_num_vars s],
       m_model_is_current := True\<rparr>"

text \<open>The check of the model against the clauses and the binary watches.\<close>

definition check_model :: "solver \<Rightarrow> model \<Rightarrow> bool" where
  "check_model s m =
     (list_all (\<lambda>off. satisfied_by (get_clause s off) m) (m_clauses (cdb s))
      \<and> list_all (\<lambda>off. satisfied_by (get_clause s off) m) (m_learned (cdb s))
      \<and> list_all (\<lambda>i. model_value (neg_lit i) m = l_true
            \<or> list_all (\<lambda>w. case w of W_BINARY l2 _ \<Rightarrow> model_value l2 m = l_true | _ \<Rightarrow> True) (m_watches (cdb s) ! i))
          [0..<length (m_watches (cdb s))])"

section \<open>Search\<close>

definition sat_restart :: "nat \<Rightarrow> solver \<Rightarrow> solver" where
  "sat_restart threshold s =
     (let s1 = sat_pop (scope_lvl s) s
      in s1\<lparr>heu := (heu s1)\<lparr>m_conflicts_since_restart := 0, m_restart_threshold := threshold\<rparr>\<rparr>)"

text \<open>One round of propagation and conflict resolution: the answer (\<open>l_true\<close> to go on) and \<open>done\<close>.\<close>

definition propagate_and_backjump_step :: "solver \<Rightarrow> (lbool \<times> bool \<times> solver) option" where
  "propagate_and_backjump_step s = do {
     (_, s1) \<leftarrow> propagate True s;
     if \<not> inconsistent s1 then Some (l_true, True, s1)
     else do {
       (r, s2) \<leftarrow> resolve_conflict s1;
       Some (if \<not> r then (l_false, True, s2)
             else if m_conflicts (heu s2) > m_max_conflicts (m_config s2) then (l_undef, True, s2)
             else if m_conflicts_since_restart (heu s2) > m_restart_threshold (heu s2) then (l_undef, True, s2)
             else (l_true, False, s2))
     }
   }"

partial_function (option) bounded_search :: "solver \<Rightarrow> (lbool \<times> solver) option" where
  [code]: "bounded_search s = do {
     (r, fin, s1) \<leftarrow> propagate_and_backjump_step s;
     if r \<noteq> l_true then Some (r, s1)
     else if \<not> fin then bounded_search s1
     else do {
       (d, s2) \<leftarrow> decide s1;
       if d then bounded_search s2 else Some (l_true, mk_model s2)
     }
   }"

end
