(* ===== verification/Sat_Inv.thy ===== *)
theory Sat_Inv
  imports Sat_Search
begin

text \<open>
  The invariant of the SAT solver: what clauses follow from, the trail with its levels and reasons, and the
  watch lists. All parts are predicates of the assignment record, the literal lists of the clauses and the
  watch lists, so that changes of the other parts of the state do not concern them.
\<close>

section \<open>Entailment\<close>

definition lit_holds :: "(bool_var \<Rightarrow> bool) \<Rightarrow> literal \<Rightarrow> bool" where
  "lit_holds \<alpha> l = (\<alpha> (lit_var l) \<noteq> lit_sign l)"

definition models :: "(bool_var \<Rightarrow> bool) \<Rightarrow> literal list set \<Rightarrow> bool" where
  "models \<alpha> F \<longleftrightarrow> (\<forall>d \<in> F. \<exists>l \<in> set d. lit_holds \<alpha> l)"

text \<open>The clauses \<open>F\<close> have the clause with the literals \<open>C\<close> as a consequence.\<close>

definition entails :: "literal list set \<Rightarrow> literal set \<Rightarrow> bool" where
  "entails F C \<longleftrightarrow> (\<forall>\<alpha>. models \<alpha> F \<longrightarrow> (\<exists>l \<in> C. lit_holds \<alpha> l))"

lemma lit_holds_neg [simp]: "lit_holds \<alpha> (neg_lit l) = (\<not> lit_holds \<alpha> l)"
  by (simp add: lit_holds_def)

lemma entailsD: "entails F C \<Longrightarrow> models \<alpha> F \<Longrightarrow> \<exists>l \<in> C. lit_holds \<alpha> l"
  by (simp add: entails_def)

lemma entails_mono: "entails F C \<Longrightarrow> C \<subseteq> D \<Longrightarrow> entails F D"
  unfolding entails_def by blast

lemma entails_insert_clause: "entails F C \<Longrightarrow> entails (Set.insert d F) C"
  by (auto simp: entails_def models_def)

lemma entails_member: "d \<in> F \<Longrightarrow> set d \<subseteq> C \<Longrightarrow> entails F C"
  by (fastforce simp: entails_def models_def)

lemma entails_resolve: "entails F (Set.insert l C) \<Longrightarrow> entails F (Set.insert (neg_lit l) D) \<Longrightarrow> entails F (C \<union> D)"
  unfolding entails_def by (metis UnI1 UnI2 insert_iff lit_holds_neg)

lemma entails_cut:
  assumes "entails F (C \<union> D)" "\<And>l. l \<in> D \<Longrightarrow> entails F {neg_lit l}"
  shows "entails F C"
  unfolding entails_def
proof (intro allI impI)
  fix \<alpha> assume m: "models \<alpha> F"
  then have "\<not> lit_holds \<alpha> l" if "l \<in> D" for l using entailsD[OF assms(2)[OF that] m] by simp
  then show "\<exists>l \<in> C. lit_holds \<alpha> l" using entailsD[OF assms(1) m] by blast
qed

section \<open>The trail\<close>

text \<open>The level of the trail position \<open>i\<close>: the scopes opened at it or before.\<close>

definition level_at :: "sat_assignment \<Rightarrow> nat \<Rightarrow> nat" where
  "level_at a i = length (filter (\<lambda>sc. m_trail_lim sc \<le> i) (m_scopes a))"

definition trail_ok :: "nat \<Rightarrow> sat_assignment \<Rightarrow> bool" where
  "trail_ok n a \<longleftrightarrow>
     length (m_assignment a) = 2 * n \<and> length (m_justification a) = n \<and> length (m_level a) = n
     \<and> distinct (map lit_var (m_trail a)) \<and> (\<forall>l \<in> set (m_trail a). l < 2 * n)
     \<and> (\<forall>l < 2 * n. m_assignment a ! l =
          (if l \<in> set (m_trail a) then l_true else if neg_lit l \<in> set (m_trail a) then l_false else l_undef))
     \<and> m_qhead a \<le> length (m_trail a) \<and> length (m_scopes a) = m_scope_lvl a
     \<and> sorted (map m_trail_lim (m_scopes a)) \<and> (\<forall>sc \<in> set (m_scopes a). m_trail_lim sc \<le> m_qhead a)
     \<and> (\<forall>i < length (m_trail a). m_level a ! lit_var (m_trail a ! i) = level_at a i)"

text \<open>Why the literal at position \<open>i\<close> is true: at level 0 it follows from \<open>F\<close>; a decision opens its scope; a
  propagated literal follows from \<open>F\<close> and literals before it.\<close>

definition reason_ok :: "literal list set \<Rightarrow> literal list list \<Rightarrow> sat_assignment \<Rightarrow> nat \<Rightarrow> bool" where
  "reason_ok F ls a i \<longleftrightarrow>
     (let l = m_trail a ! i; T = set (take i (m_trail a)); j = m_justification a ! lit_var l
      in if level_at a i = 0 then j = J_NONE \<and> entails F {l}
         else case j of
           J_NONE \<Rightarrow> i = m_trail_lim (m_scopes a ! (level_at a i - 1))
         | J_BINARY x \<Rightarrow> neg_lit x \<in> T \<and> entails F {l, x}
         | J_TERNARY x y \<Rightarrow> neg_lit x \<in> T \<and> neg_lit y \<in> T \<and> entails F {l, x, y}
         | J_CLAUSE off \<Rightarrow> off < length ls \<and> (ls ! off ! 0 = l \<or> ls ! off ! 1 = l) \<and> (\<forall>x \<in> set (ls ! off) - {l}. neg_lit x \<in> T)
         | J_EXT _ \<Rightarrow> False)"

section \<open>Clauses and watches\<close>

definition clause_ok :: "literal list set \<Rightarrow> nat \<Rightarrow> literal list \<Rightarrow> bool" where
  "clause_ok F n c \<longleftrightarrow> 3 \<le> length c \<and> distinct (map lit_var c) \<and> (\<forall>l \<in> set c. l < 2 * n) \<and> entails F (set c)"

definition watch_ok :: "literal list set \<Rightarrow> nat \<Rightarrow> literal list list \<Rightarrow> literal \<Rightarrow> watched \<Rightarrow> bool" where
  "watch_ok F n ls l w \<longleftrightarrow>
     (case w of
        W_BINARY x _ \<Rightarrow> x < 2 * n \<and> lit_var x \<noteq> lit_var l \<and> entails F {neg_lit l, x}
      | W_TERNARY x y \<Rightarrow> x < 2 * n \<and> y < 2 * n \<and> distinct [lit_var x, lit_var y, lit_var l] \<and> entails F {neg_lit l, x, y}
      | W_CLAUSE b off \<Rightarrow> off < length ls \<and> 3 < length (ls ! off) \<and> b \<in> set (ls ! off)
          \<and> (ls ! off ! 0 = neg_lit l \<or> ls ! off ! 1 = neg_lit l)
      | W_EXT _ \<Rightarrow> False)"

fun watch_offs :: "watched list \<Rightarrow> nat list" where
  "watch_offs [] = []"
| "watch_offs (W_CLAUSE b off # ws) = off # watch_offs ws"
| "watch_offs (_ # ws) = watch_offs ws"

text \<open>A ternary clause is in the lists of all its literals, a longer one in those of its first two.\<close>

definition watched_in :: "literal list list \<Rightarrow> watched list list \<Rightarrow> nat \<Rightarrow> bool" where
  "watched_in ls W off \<longleftrightarrow>
     (let c = ls ! off
      in if length c = 3 then
           mk_ternary_watch (c ! 1) (c ! 2) \<in> set (W ! neg_lit (c ! 0))
           \<and> mk_ternary_watch (c ! 0) (c ! 2) \<in> set (W ! neg_lit (c ! 1))
           \<and> mk_ternary_watch (c ! 0) (c ! 1) \<in> set (W ! neg_lit (c ! 2))
         else off \<in> set (watch_offs (W ! neg_lit (c ! 0))) \<and> off \<in> set (watch_offs (W ! neg_lit (c ! 1))))"

definition base :: "literal list set \<Rightarrow> nat \<Rightarrow> sat_assignment \<Rightarrow> literal list list \<Rightarrow> watched list list \<Rightarrow> bool" where
  "base F n a ls W \<longleftrightarrow>
     n \<le> null_bool_var \<and> trail_ok n a \<and> (\<forall>i < length (m_trail a). reason_ok F ls a i)
     \<and> (\<forall>c \<in> set ls. clause_ok F n c) \<and> length W = 2 * n
     \<and> (\<forall>l < 2 * n. (\<forall>w \<in> set (W ! l). watch_ok F n ls l w) \<and> distinct (watch_offs (W ! l)))
     \<and> (\<forall>off < length ls. watched_in ls W off)"

section \<open>Completeness of propagation\<close>

text \<open>What the watch \<open>w\<close> in the list of a literal guarantees once the literal is processed, for the true
  literals \<open>T\<close> and those \<open>P\<close> that precede it.\<close>

definition sat_watch :: "literal list list \<Rightarrow> literal set \<Rightarrow> literal set \<Rightarrow> watched \<Rightarrow> bool" where
  "sat_watch ls T P w \<longleftrightarrow>
     (case w of
        W_BINARY x _ \<Rightarrow> x \<in> T
      | W_TERNARY x y \<Rightarrow> (neg_lit x \<in> P \<longrightarrow> y \<in> T) \<and> (neg_lit y \<in> P \<longrightarrow> x \<in> T)
      | W_CLAUSE _ off \<Rightarrow> (\<exists>x \<in> set (ls ! off). x \<in> T)
      | W_EXT _ \<Rightarrow> True)"

definition complete_upto :: "literal list list \<Rightarrow> watched list list \<Rightarrow> literal list \<Rightarrow> nat \<Rightarrow> literal set \<Rightarrow> bool" where
  "complete_upto ls W tr q T \<longleftrightarrow> (\<forall>p < q. \<forall>w \<in> set (W ! (tr ! p)). sat_watch ls T (set (take p tr)) w)"

definition scopes_complete :: "sat_assignment \<Rightarrow> literal list list \<Rightarrow> watched list list \<Rightarrow> bool" where
  "scopes_complete a ls W \<longleftrightarrow>
     (\<forall>sc \<in> set (m_scopes a). complete_upto ls W (m_trail a) (m_trail_lim sc) (set (take (m_trail_lim sc) (m_trail a))))"

definition head_complete :: "sat_assignment \<Rightarrow> literal list list \<Rightarrow> watched list list \<Rightarrow> bool" where
  "head_complete a ls W \<longleftrightarrow> complete_upto ls W (m_trail a) (m_qhead a) (set (m_trail a))"

lemma sat_watch_mono: "sat_watch ls T P w \<Longrightarrow> T \<subseteq> T' \<Longrightarrow> sat_watch ls T' P w"
  by (auto simp: sat_watch_def split: watched.splits)

section \<open>Values and levels\<close>

lemma trail_okD:
  assumes "trail_ok n a"
  shows "length (m_assignment a) = 2 * n" "length (m_justification a) = n" "length (m_level a) = n"
    "distinct (map lit_var (m_trail a))" "distinct (m_trail a)" "l \<in> set (m_trail a) \<Longrightarrow> l < 2 * n"
    "m_qhead a \<le> length (m_trail a)" "length (m_scopes a) = m_scope_lvl a" "sorted (map m_trail_lim (m_scopes a))"
    "sc \<in> set (m_scopes a) \<Longrightarrow> m_trail_lim sc \<le> m_qhead a"
    "i < length (m_trail a) \<Longrightarrow> m_level a ! lit_var (m_trail a ! i) = level_at a i"
  using assms by (auto simp: trail_ok_def distinct_map)

lemma neg_lit_less: "neg_lit l < 2 * n \<longleftrightarrow> l < 2 * n"
  by (auto simp: lit_simps elim!: evenE oddE)

lemma lit_var_less: "lit_var l < n \<longleftrightarrow> l < 2 * n"
  by (auto simp: lit_simps)

lemma not_null: "l < 2 * n \<Longrightarrow> n \<le> null_bool_var \<Longrightarrow> l \<noteq> null_literal"
  by (auto simp: null_literal_def lit_simps)

lemma trail_consistent:
  assumes "trail_ok n a" "l \<in> set (m_trail a)"
  shows "neg_lit l \<notin> set (m_trail a)"
proof
  assume n: "neg_lit l \<in> set (m_trail a)"
  have "inj_on lit_var (set (m_trail a))" using trail_okD(4)[OF assms(1)] by (simp add: distinct_map)
  from inj_onD[OF this _ n assms(2)] show False by simp
qed

lemma same_var:
  assumes "trail_ok n a" "x \<in> set (m_trail a)" "y \<in> set (m_trail a)" "lit_var x = lit_var y"
  shows "x = y"
  using trail_okD(4)[OF assms(1)] assms(2-4) by (auto simp: distinct_map dest: inj_onD)

lemma value_iff:
  assumes "trail_ok n a" "l < 2 * n"
  shows "m_assignment a ! l = l_true \<longleftrightarrow> l \<in> set (m_trail a)"
    "m_assignment a ! l = l_false \<longleftrightarrow> neg_lit l \<in> set (m_trail a)"
    "m_assignment a ! l = l_undef \<longleftrightarrow> l \<notin> set (m_trail a) \<and> neg_lit l \<notin> set (m_trail a)"
  using assms trail_consistent[OF assms(1)] by (auto simp: trail_ok_def)

lemma level_at_le: "level_at a i \<le> length (m_scopes a)"
  by (simp add: level_at_def)

lemma level_at_mono: "i \<le> j \<Longrightarrow> level_at a i \<le> level_at a j"
proof -
  assume "i \<le> j"
  then have "length (filter (\<lambda>sc. m_trail_lim sc \<le> i) scs) \<le> length (filter (\<lambda>sc. m_trail_lim sc \<le> j) scs)" for scs
    by (induction scs) auto
  then show ?thesis by (simp add: level_at_def)
qed

lemma filter_sorted_prefix:
  assumes "sorted (map f xs)"
  shows "filter (\<lambda>x. f x \<le> (i::nat)) xs = take (length (filter (\<lambda>x. f x \<le> i) xs)) xs"
  using assms
proof (induction xs)
  case (Cons x xs)
  show ?case
  proof (cases "f x \<le> i")
    case False
    then have "filter (\<lambda>x. f x \<le> i) xs = []" using Cons.prems by (auto simp: filter_empty_conv)
    then show ?thesis using False by simp
  qed (use Cons in simp)
qed simp

text \<open>A position is of level above \<open>k\<close> exactly when it is not before the limit of scope \<open>k\<close>.\<close>

lemma level_at_iff:
  assumes "sorted (map m_trail_lim (m_scopes a))" "k < length (m_scopes a)"
  shows "k < level_at a i \<longleftrightarrow> m_trail_lim (m_scopes a ! k) \<le> i"
proof -
  let ?f = "\<lambda>sc. m_trail_lim sc \<le> i"
  have f: "filter ?f (m_scopes a) = take (level_at a i) (m_scopes a)"
    unfolding level_at_def by (rule filter_sorted_prefix[OF assms(1)])
  show ?thesis
  proof
    assume k: "k < level_at a i"
    then have "m_scopes a ! k \<in> set (take (level_at a i) (m_scopes a))"
      using assms(2) by (metis in_set_conv_nth length_take min_less_iff_conj nth_take)
    then have "m_scopes a ! k \<in> set (filter ?f (m_scopes a))" by (simp only: f)
    then show "m_trail_lim (m_scopes a ! k) \<le> i" by simp
  next
    assume le: "m_trail_lim (m_scopes a ! k) \<le> i"
    have "m_trail_lim (m_scopes a ! j) \<le> i" if "j \<le> k" for j
      using le sorted_nth_mono[OF assms(1), of j k] that assms(2) by simp
    then have "{j. j \<le> k} \<subseteq> {j. j < length (m_scopes a) \<and> ?f (m_scopes a ! j)}" using assms(2) by auto
    then have "card {j. j \<le> k} \<le> level_at a i"
      unfolding level_at_def length_filter_conv_card by (intro card_mono) auto
    then show "k < level_at a i" by simp
  qed
qed

lemma level_zero_iff:
  assumes "trail_ok n a"
  shows "level_at a i = 0 \<longleftrightarrow> m_scopes a = [] \<or> i < m_trail_lim (m_scopes a ! 0)"
proof (cases "m_scopes a")
  case (Cons sc scs)
  then show ?thesis using level_at_iff[OF trail_okD(9)[OF assms], of 0 i] by auto
qed (simp add: level_at_def)

section \<open>Assigning a literal\<close>

definition assign_asg :: "literal \<Rightarrow> justification \<Rightarrow> sat_assignment \<Rightarrow> sat_assignment" where
  "assign_asg l j a =
     a\<lparr>m_assignment := (m_assignment a)[l := l_true, neg_lit l := l_false],
       m_level := (m_level a)[lit_var l := m_scope_lvl a],
       m_justification := (m_justification a)[lit_var l := if m_scope_lvl a = 0 then J_NONE else j],
       m_trail := m_trail a @ [l]\<rparr>"

lemma assign_asg_simps [simp]:
  "m_trail (assign_asg l j a) = m_trail a @ [l]" "m_scopes (assign_asg l j a) = m_scopes a"
  "m_scope_lvl (assign_asg l j a) = m_scope_lvl a" "m_qhead (assign_asg l j a) = m_qhead a"
  "m_inconsistent (assign_asg l j a) = m_inconsistent a" "m_conflict (assign_asg l j a) = m_conflict a"
  "m_not_l (assign_asg l j a) = m_not_l a" "level_at (assign_asg l j a) i = level_at a i"
  by (simp_all add: assign_asg_def level_at_def)

lemma level_at_end:
  assumes "trail_ok n a"
  shows "level_at a (length (m_trail a)) = m_scope_lvl a"
proof -
  have "filter (\<lambda>sc. m_trail_lim sc \<le> length (m_trail a)) (m_scopes a) = m_scopes a"
    using trail_okD(7,10)[OF assms] by (auto simp: filter_id_conv intro: order_trans)
  then show ?thesis using trail_okD(8)[OF assms] by (simp add: level_at_def)
qed

lemma assign_trail_ok:
  assumes "trail_ok n a" "l < 2 * n" "m_assignment a ! l = l_undef"
  shows "trail_ok n (assign_asg l j a)"
proof -
  have un: "l \<notin> set (m_trail a)" "neg_lit l \<notin> set (m_trail a)" using value_iff(3)[OF assms(1,2)] assms(3) by simp_all
  have nl: "neg_lit l < 2 * n" using assms(2) by (simp add: neg_lit_less)
  have v: "lit_var l \<notin> lit_var ` set (m_trail a)" using un by (auto simp: lit_var_eq)
  have asg: "m_assignment (assign_asg l j a) ! k =
      (if k \<in> set (m_trail a @ [l]) then l_true else if neg_lit k \<in> set (m_trail a @ [l]) then l_false else l_undef)"
    if k: "k < 2 * n" for k
  proof -
    consider "k = l" | "k = neg_lit l" | "k \<noteq> l" "k \<noteq> neg_lit l" "neg_lit k \<noteq> l" by fastforce
    then show ?thesis using un nl assms(1,2) k by cases (simp_all add: assign_asg_def trail_ok_def nth_list_update)
  qed
  have lev: "m_level (assign_asg l j a) ! lit_var ((m_trail a @ [l]) ! i) = level_at a i" if i: "i < length (m_trail a @ [l])" for i
  proof (cases "i = length (m_trail a)")
    case True
    then show ?thesis using level_at_end[OF assms(1)] assms(2) trail_okD(3)[OF assms(1)] by (simp add: assign_asg_def lit_var_less)
  next
    case False
    then have "lit_var (m_trail a ! i) \<noteq> lit_var l" using v i by (metis image_eqI length_append_singleton less_SucE nth_mem)
    then show ?thesis using False i trail_okD(11)[OF assms(1), of i] by (simp add: assign_asg_def nth_append)
  qed
  show ?thesis
    unfolding trail_ok_def assign_asg_simps
    using assms(1,2) v asg lev by (auto simp: trail_ok_def assign_asg_def)
qed

lemma reason_ok_cong:
  assumes "m_trail a' ! i = m_trail a ! i" "take i (m_trail a') = take i (m_trail a)" "level_at a' i = level_at a i"
    and "m_scopes a' ! (level_at a i - 1) = m_scopes a ! (level_at a i - 1)"
    and "m_justification a' ! lit_var (m_trail a ! i) = m_justification a ! lit_var (m_trail a ! i)"
  shows "reason_ok F ls a' i = reason_ok F ls a i"
  unfolding reason_ok_def assms(1-3) Let_def assms(5) assms(4) by (rule refl)

lemma assign_reason_ok:
  assumes "trail_ok n a" "l < 2 * n" "m_assignment a ! l = l_undef" "\<And>i. i < length (m_trail a) \<Longrightarrow> reason_ok F ls a i"
    and "reason_ok F ls (assign_asg l j a) (length (m_trail a))" "i < length (m_trail a @ [l])"
  shows "reason_ok F ls (assign_asg l j a) i"
proof (cases "i = length (m_trail a)")
  case False
  then have i: "i < length (m_trail a)" using assms(6) by simp
  have un: "l \<notin> set (m_trail a)" "neg_lit l \<notin> set (m_trail a)" using value_iff(3)[OF assms(1,2)] assms(3) by simp_all
  then have "lit_var l \<noteq> lit_var (m_trail a ! i)" using i by (metis lit_var_eq neg_neg_lit nth_mem)
  then have "m_justification (assign_asg l j a) ! lit_var (m_trail a ! i) = m_justification a ! lit_var (m_trail a ! i)"
    by (simp add: assign_asg_def)
  then have "reason_ok F ls (assign_asg l j a) i = reason_ok F ls a i"
    using i by (intro reason_ok_cong) (simp_all add: nth_append)
  then show ?thesis using assms(4)[OF i] by simp
qed (use assms(5) in simp)

text \<open>The reason of a propagated literal; at level 0 it is turned into a consequence of \<open>F\<close>.\<close>

definition implies_lit :: "literal list set \<Rightarrow> literal list list \<Rightarrow> literal set \<Rightarrow> literal \<Rightarrow> justification \<Rightarrow> bool" where
  "implies_lit F ls T l j \<longleftrightarrow>
     (case j of
        J_NONE \<Rightarrow> entails F {l}
      | J_BINARY x \<Rightarrow> neg_lit x \<in> T \<and> entails F {l, x}
      | J_TERNARY x y \<Rightarrow> neg_lit x \<in> T \<and> neg_lit y \<in> T \<and> entails F {l, x, y}
      | J_CLAUSE off \<Rightarrow> off < length ls \<and> (ls ! off ! 0 = l \<or> ls ! off ! 1 = l) \<and> (\<forall>x \<in> set (ls ! off) - {l}. neg_lit x \<in> T)
      | J_EXT _ \<Rightarrow> False)"

lemma level_zero_entailed:
  assumes "\<forall>i < length (m_trail a). reason_ok F ls a i" "i < length (m_trail a)" "level_at a i = 0"
  shows "entails F {m_trail a ! i}"
  using assms by (auto simp: reason_ok_def Let_def)

lemma implied_entailed:
  assumes "implies_lit F ls T l j" "\<forall>c \<in> set ls. clause_ok F n c" "\<And>x. x \<in> T \<Longrightarrow> entails F {x}"
  shows "entails F {l}"
proof (cases j)
  case J_NONE
  then show ?thesis using assms(1) by (simp add: implies_lit_def)
next
  case (J_BINARY x)
  then show ?thesis using assms(1) assms(3)[of "neg_lit x"] entails_cut[of F "{l}" "{x}"] by (simp add: implies_lit_def insert_commute)
next
  case (J_TERNARY x y)
  then have "entails F ({l} \<union> {x, y})" "entails F {neg_lit x}" "entails F {neg_lit y}"
    using assms(1,3) by (auto simp: implies_lit_def insert_commute)
  then show ?thesis by (elim entails_cut) auto
next
  case (J_CLAUSE off)
  then have "entails F (set (ls ! off))" using assms(1,2) by (auto simp: implies_lit_def clause_ok_def)
  then have "entails F ({l} \<union> (set (ls ! off) - {l}))" by (rule entails_mono) blast
  then show ?thesis by (rule entails_cut) (use assms(1,3) J_CLAUSE in \<open>auto simp: implies_lit_def\<close>)
next
  case (J_EXT x)
  then show ?thesis using assms(1) by (simp add: implies_lit_def)
qed

lemma assign_base:
  assumes "base F n a ls W" "l < 2 * n" "m_assignment a ! l = l_undef" "implies_lit F ls (set (m_trail a)) l j"
    and "j = J_NONE \<Longrightarrow> m_scope_lvl a = 0"
  shows "base F n (assign_asg l j a) ls W"
proof -
  have t: "trail_ok n a" and r: "\<forall>i < length (m_trail a). reason_ok F ls a i" and c: "\<forall>c \<in> set ls. clause_ok F n c"
    using assms(1) by (simp_all add: base_def)
  have lv: "level_at a (length (m_trail a)) = m_scope_lvl a" by (rule level_at_end[OF t])
  have len: "lit_var l < length (m_justification a)" using trail_okD(2)[OF t] assms(2) by (simp add: lit_var_less)
  have "reason_ok F ls (assign_asg l j a) (length (m_trail a))"
  proof (cases "m_scope_lvl a = 0")
    case True
    have z: "level_at a i = 0" for i using True level_at_le[of a i] trail_okD(8)[OF t] by simp
    have "entails F {x}" if "x \<in> set (m_trail a)" for x
      using that level_zero_entailed[OF r _ z] by (auto simp: in_set_conv_nth)
    from implied_entailed[OF assms(4) c this] show ?thesis
      using lv True len by (simp add: reason_ok_def Let_def) (simp add: assign_asg_def)
  next
    case False
    then have "j \<noteq> J_NONE" using assms(5) by blast
    then show ?thesis using False lv len assms(4)
      by (cases j) (simp_all add: reason_ok_def Let_def implies_lit_def, simp_all add: assign_asg_def)
  qed
  then have "\<forall>i < length (m_trail (assign_asg l j a)). reason_ok F ls (assign_asg l j a) i"
    using assign_reason_ok[OF t assms(2,3)] r by simp
  then show ?thesis using assms(1) assign_trail_ok[OF t assms(2,3)] by (simp add: base_def)
qed

end
