(* ===== verification/Sat_Watch.thy ===== *)
theory Sat_Watch
  imports Sat_Inv
begin

text \<open>
  The changes propagation makes to clauses and watch lists keep the invariant of the SAT solver: the swap of
  the watched literals of a clause, the move of a watch to another literal, a new blocked literal.
\<close>

section \<open>Watch lists\<close>

lemma watch_offs_append [simp]: "watch_offs (xs @ ys) = watch_offs xs @ watch_offs ys"
  by (induction xs rule: watch_offs.induct) auto

lemma watch_offs_iff: "off \<in> set (watch_offs ws) \<longleftrightarrow> (\<exists>b. W_CLAUSE b off \<in> set ws)"
  by (induction ws rule: watch_offs.induct) auto

lemma ternary_watch_cases: "mk_ternary_watch x y = W_TERNARY x y \<or> mk_ternary_watch x y = W_TERNARY y x"
  by (simp add: mk_ternary_watch_def)

lemma baseD:
  assumes "base F n a ls W"
  shows "n \<le> null_bool_var" "trail_ok n a" "i < length (m_trail a) \<Longrightarrow> reason_ok F ls a i"
    "c \<in> set ls \<Longrightarrow> clause_ok F n c" "length W = 2 * n" "l < 2 * n \<Longrightarrow> w \<in> set (W ! l) \<Longrightarrow> watch_ok F n ls l w"
    "l < 2 * n \<Longrightarrow> distinct (watch_offs (W ! l))" "off < length ls \<Longrightarrow> watched_in ls W off"
  using assms by (auto simp: base_def)

text \<open>A list with the same clauses and the same other elements may take the place of a watch list.\<close>

definition same_watches :: "watched list \<Rightarrow> watched list \<Rightarrow> bool" where
  "same_watches ws ws' \<longleftrightarrow> watch_offs ws' = watch_offs ws
     \<and> (\<forall>w. (\<forall>b off. w \<noteq> W_CLAUSE b off) \<longrightarrow> (w \<in> set ws' \<longleftrightarrow> w \<in> set ws))"

lemma watched_in_same:
  assumes "\<And>l. same_watches (W ! l) (W' ! l)"
  shows "watched_in ls W' off = watched_in ls W off"
proof -
  have "mk_ternary_watch x y \<in> set (W' ! l) \<longleftrightarrow> mk_ternary_watch x y \<in> set (W ! l)" for x y l
    using assms[of l] by (auto simp: same_watches_def mk_ternary_watch_def)
  moreover have "watch_offs (W' ! l) = watch_offs (W ! l)" for l using assms[of l] by (simp add: same_watches_def)
  ultimately show ?thesis by (simp add: watched_in_def)
qed

lemma base_same_watches:
  assumes "base F n a ls W" "length W' = length W" "\<And>l. same_watches (W ! l) (W' ! l)"
    and "\<And>l w. l < 2 * n \<Longrightarrow> w \<in> set (W' ! l) \<Longrightarrow> watch_ok F n ls l w"
  shows "base F n a ls W'"
  using assms(1,2,4) watched_in_same[of W W' ls, OF assms(3)] assms(3) by (simp add: base_def same_watches_def)

lemma same_watches_refl [simp]: "same_watches ws ws"
  by (simp add: same_watches_def)

section \<open>Permuting a clause\<close>

lemma swap_lits_props:
  assumes "i < length c" "j < length c"
  shows "set (swap_lits i j c) = set c" "length (swap_lits i j c) = length c"
    "distinct (map lit_var (swap_lits i j c)) = distinct (map lit_var c)"
proof -
  show "set (swap_lits i j c) = set c" "length (swap_lits i j c) = length c"
    unfolding swap_lits_def using set_swap[OF assms] by simp_all
  have "map lit_var (swap_lits i j c) = (map lit_var c)[i := map lit_var c ! j, j := map lit_var c ! i]"
    using assms by (simp add: swap_lits_def map_update)
  then show "distinct (map lit_var (swap_lits i j c)) = distinct (map lit_var c)"
    using distinct_swap[of i "map lit_var c" j] assms by simp
qed

lemma clause_ok_swap:
  assumes "clause_ok F n c" "i < length c" "j < length c"
  shows "clause_ok F n (swap_lits i j c)"
  using assms swap_lits_props[OF assms(2,3)] by (simp add: clause_ok_def)

lemma swap_lits_nth:
  "i < length c \<Longrightarrow> j < length c \<Longrightarrow> swap_lits i j c ! k = (if k = j then c ! i else if k = i then c ! j else c ! k)"
  by (auto simp: swap_lits_def nth_list_update)

text \<open>Exchanging the two watched literals.\<close>

lemma base_swap_first:
  assumes b: "base F n a ls W" and off: "off < length ls" "3 < length (ls ! off)"
  shows "base F n a (ls[off := swap_lits 0 1 (ls ! off)]) W"
proof -
  let ?c = "ls ! off" and ?ls = "ls[off := swap_lits 0 1 (ls ! off)]"
  have i: "0 < length ?c" "1 < length ?c" using off by auto
  note p = swap_lits_props[OF i] and nth = swap_lits_nth[OF i]
  have set: "set (?ls ! k) = set (ls ! k)" "length (?ls ! k) = length (ls ! k)" for k
    using p off(1) by (cases "k = off"; simp)+
  have two: "?ls ! k ! 0 = x \<or> ?ls ! k ! 1 = x \<longleftrightarrow> ls ! k ! 0 = x \<or> ls ! k ! 1 = x" for k x
    using nth off(1) by (cases "k = off") auto
  have r: "reason_ok F ?ls a k = reason_ok F ls a k" for k
    unfolding reason_ok_def Let_def set two by (simp split: justification.split)
  have w: "watch_ok F n ?ls l w = watch_ok F n ls l w" for l w
    unfolding watch_ok_def set two by (simp split: watched.split)
  have in_same: "watched_in ?ls W k = watched_in ls W k" for k
  proof (cases "k = off")
    case True
    have "length (swap_lits 0 1 ?c) \<noteq> 3" "length ?c \<noteq> 3" using p(2) off(2) by simp_all
    then show ?thesis using True off(1) nth[of 0] nth[of 1] by (simp add: watched_in_def Let_def conj_commute)
  qed (simp add: watched_in_def)
  have "clause_ok F n c'" if "c' \<in> set ?ls" for c'
    using set_update_subset_insert[of ls off] that clause_ok_swap[OF baseD(4)[OF b] i] baseD(4)[OF b] off(1) by fastforce
  then show ?thesis using b unfolding base_def length_list_update r w in_same by blast
qed

text \<open>Moving the second watch from the false literal \<open>neg_lit l\<close> to the literal at position \<open>i\<close>. The clause
  is not the reason of a literal, as its first literal is not true.\<close>

lemma base_move_watch:
  assumes b: "base F n a ls W" and off: "off < length ls" "3 < length (ls ! off)"
    and l: "l < 2 * n" "l \<in> set (m_trail a)" "ls ! off ! 1 = neg_lit l" "ls ! off ! 0 \<notin> set (m_trail a)"
    and i: "2 \<le> i" "i < length (ls ! off)" and ws: "W ! l = kept @ W_CLAUSE bl off # ws"
    and c': "c' = (ls ! off)[1 := ls ! off ! i, i := neg_lit l]" and x: "x = neg_lit (ls ! off ! i)"
  shows "base F n a (ls[off := c']) (W[l := kept @ ws, x := W ! x @ [W_CLAUSE (ls ! off ! 0) off]])"
    "x \<noteq> l" "x < 2 * n"
proof -
  let ?c = "ls ! off" and ?ls = "ls[off := c']" and ?W = "W[l := kept @ ws, x := W ! x @ [W_CLAUSE (ls ! off ! 0) off]]"
  have ok: "clause_ok F n ?c" using baseD(4)[OF b] off(1) by simp
  then have dv: "distinct (map lit_var ?c)" and lt: "\<And>y. y \<in> set ?c \<Longrightarrow> y < 2 * n" by (auto simp: clause_ok_def)
  have dc: "distinct ?c" using dv by (simp add: distinct_map)
  have sw: "c' = swap_lits 1 i ?c" using c' l(3) by (simp add: swap_lits_def)
  have i1: "1 < length ?c" "0 < length ?c" "i \<noteq> 0" "i \<noteq> 1" using off i by auto
  note p = swap_lits_props[OF i1(1) i(2), folded sw] and nth = swap_lits_nth[OF i1(1) i(2), folded sw]
  have n0: "c' ! 0 = ?c ! 0" and n1: "c' ! 1 = ?c ! i" using nth i(1) by auto
  have i0: "?c ! i \<noteq> ?c ! 0" "?c ! i \<noteq> ?c ! 1" "?c ! 0 \<noteq> ?c ! 1"
    using nth_eq_iff_index_eq[OF dc i(2) i1(2)] nth_eq_iff_index_eq[OF dc i(2) i1(1)] nth_eq_iff_index_eq[OF dc i1(2,1)] i1
    by simp_all
  show x_less: "x < 2 * n" using lt[of "?c ! i"] i(2) x by (simp add: neg_lit_less)
  show xl: "x \<noteq> l" using i0(2) l(3) x by auto
  have lW: "l < length W" "x < length W" using l(1) x_less baseD(5)[OF b] by simp_all
  have W: "?W ! k = (if k = x then W ! x @ [W_CLAUSE (?c ! 0) off] else if k = l then kept @ ws else W ! k)" for k
    using lW by (auto simp: nth_list_update)
  have once: "off \<notin> set (watch_offs (kept @ ws))" using baseD(7)[OF b l(1)] by (simp add: ws)
  have here: "k = l \<or> k = neg_lit (?c ! 0)" if "k < 2 * n" "W_CLAUSE b' off \<in> set (W ! k)" for k b'
    using baseD(6)[OF b that] l(3) by (auto simp: watch_ok_def)
  have set: "set (?ls ! k) = set (ls ! k)" "length (?ls ! k) = length (ls ! k)" for k
    using p off(1) by (cases "k = off"; simp)+
  have "reason_ok F ?ls a k" if k: "k < length (m_trail a)" for k
  proof -
    have "m_justification a ! lit_var (m_trail a ! k) \<noteq> J_CLAUSE off"
    proof
      assume j: "m_justification a ! lit_var (m_trail a ! k) = J_CLAUSE off"
      then have "?c ! 0 = m_trail a ! k \<or> ?c ! 1 = m_trail a ! k"
        using baseD(3)[OF b k] by (auto simp: reason_ok_def Let_def split: if_splits)
      moreover have "neg_lit l \<notin> set (m_trail a)" using trail_consistent[OF baseD(2)[OF b] l(2)] .
      ultimately show False using l(3,4) nth_mem[OF k] by auto
    qed
    then show ?thesis using baseD(3)[OF b k] by (auto simp: reason_ok_def Let_def split: justification.splits if_splits)
  qed
  moreover have "clause_ok F n d" if "d \<in> set ?ls" for d
    using set_update_subset_insert[of ls off] that clause_ok_swap[OF ok i1(1) i(2)] baseD(4)[OF b] sw by fastforce
  moreover have "watch_ok F n ?ls k w" if k: "k < 2 * n" and w: "w \<in> set (?W ! k)" for k w
  proof -
    have old: "w \<in> set (W ! k) \<or> k = x \<and> w = W_CLAUSE (?c ! 0) off" using w ws by (auto simp: W split: if_splits)
    show ?thesis
    proof (cases "\<exists>b'. w = W_CLAUSE b' off")
      case False
      then have "watch_ok F n ls k w" using old baseD(6)[OF b k] by blast
      then show ?thesis using False set by (auto simp: watch_ok_def split: watched.splits)
    next
      case True
      then obtain b' where b': "w = W_CLAUSE b' off" by blast
      have kx: "k = x \<or> k = neg_lit (?c ! 0)"
      proof (cases "k = x")
        case False
        then have "w \<in> set (W ! k)" using old by blast
        moreover have "k \<noteq> l" using once w b' False by (auto simp: W watch_offs_iff xl)
        ultimately show ?thesis using here[OF k] b' by blast
      qed simp
      have "b' \<in> set ?c"
      proof (cases "w \<in> set (W ! k)")
        case True
        then show ?thesis using baseD(6)[OF b k True] b' by (simp add: watch_ok_def)
      next
        case False
        then show ?thesis using old b' nth_mem[OF i1(2)] by auto
      qed
      then show ?thesis using b' kx off p n0 n1 x by (auto simp: watch_ok_def)
    qed
  qed
  moreover have "distinct (watch_offs (?W ! k))" if k: "k < 2 * n" for k
  proof -
    have "off \<notin> set (watch_offs (W ! x))"
      using here[OF x_less] xl i0(1) x by (auto simp: watch_offs_iff)
    moreover have "distinct (watch_offs (kept @ ws))" using baseD(7)[OF b l(1)] by (simp add: ws)
    ultimately show ?thesis using baseD(7)[OF b k] baseD(7)[OF b x_less] by (simp add: W)
  qed
  moreover have "watched_in ?ls ?W k" if k: "k < length ?ls" for k
  proof (cases "k = off")
    case True
    have len: "length c' \<noteq> 3" using p(2) off(2) by simp
    have "off \<in> set (watch_offs (W ! neg_lit (?c ! 0)))" using baseD(8)[OF b off(1)] off(2) by (simp add: watched_in_def Let_def)
    moreover have "neg_lit (?c ! 0) \<noteq> l" "neg_lit (?c ! 0) \<noteq> x" using i0 l(3) x by auto
    ultimately have "off \<in> set (watch_offs (?W ! neg_lit (?c ! 0)))" by (simp add: W)
    moreover have "off \<in> set (watch_offs (?W ! x))" by (simp add: W)
    ultimately have "off \<in> set (watch_offs (?W ! neg_lit (c' ! 0)))" "off \<in> set (watch_offs (?W ! neg_lit (c' ! 1)))"
      unfolding n0 n1 x[symmetric] by blast+
    then show ?thesis using True off(1) len by (simp add: watched_in_def Let_def)
  next
    case False
    have "mk_ternary_watch u v \<in> set (W ! q) \<Longrightarrow> mk_ternary_watch u v \<in> set (?W ! q)" for u v q
      using ws ternary_watch_cases[of u v] by (auto simp: W)
    moreover have "k \<in> set (watch_offs (W ! q)) \<Longrightarrow> k \<in> set (watch_offs (?W ! q))" for q
      using ws False by (auto simp: W)
    ultimately show ?thesis using baseD(8)[OF b, of k] k False by (simp add: watched_in_def Let_def split: if_splits)
  qed
  ultimately show "base F n a ?ls ?W" using b by (simp add: base_def)
qed

end
