(* ===== verification/Sat_Propagate.thy ===== *)
theory Sat_Propagate
  imports Sat_Watch
begin

text \<open>
  Unit propagation of the SAT solver is sound and complete: each literal is assigned for a valid reason, a
  conflict comes with a false clause, and without a conflict no clause is left unit or false. The loop on a
  watch list is verified with the list as it is to be written back.
\<close>

section \<open>Fields of the states\<close>

abbreviation tr :: "solver \<Rightarrow> literal list" where "tr s \<equiv> m_trail (asg s)"
abbreviation lits :: "solver \<Rightarrow> literal list list" where "lits s \<equiv> map c_lits (m_cls_allocator (cdb s))"
abbreviation removed :: "solver \<Rightarrow> bool list" where "removed s \<equiv> map c_removed (m_cls_allocator (cdb s))"
abbreviation wl :: "solver \<Rightarrow> watched list list" where "wl s \<equiv> m_watches (cdb s)"

lemma map_update_same: "f c = f (xs ! i) \<Longrightarrow> map f (xs[i := c]) = map f xs"
  by (metis list_update_id map_update)

lemma set_wlist_simps [simp]:
  "asg (set_wlist l ws s) = asg s" "lits (set_wlist l ws s) = lits s" "wl (set_wlist l ws s) = (wl s)[l := ws]"
  "m_cls_allocator (cdb (set_wlist l ws s)) = m_cls_allocator (cdb s)"
  by (simp_all add: set_wlist_def)

lemma push_watch_simps [simp]:
  "asg (push_watch l w s) = asg s" "m_cls_allocator (cdb (push_watch l w s)) = m_cls_allocator (cdb s)"
  "wl (push_watch l w s) = (wl s)[l := wl s ! l @ [w]]"
  by (simp_all add: push_watch_def get_wlist_def)

lemma set_lits_simps [simp]:
  "asg (set_lits off c s) = asg s" "wl (set_lits off c s) = wl s" "lits (set_lits off c s) = (lits s)[off := c]"
  by (simp_all add: set_lits_def set_clause_def map_update)

lemma mark_used_simps [simp]:
  "asg (mark_used off s) = asg s" "wl (mark_used off s) = wl s" "lits (mark_used off s) = lits s"
  by (simp_all add: mark_used_def set_clause_def get_clause_def map_update_same)

lemma update_glue_simps [simp]:
  "asg (update_glue u off s) = asg s" "wl (update_glue u off s) = wl s" "lits (update_glue u off s) = lits s"
  by (simp_all add: update_glue_def set_clause_def get_clause_def map_update_same set_glue_def Let_def)

lemma assign_core_simps [simp]:
  "asg (assign_core l j s) = assign_asg l j (asg s)" "cdb (assign_core l j s) = cdb s"
  by (simp_all add: assign_core_def assign_asg_def Let_def)

lemma set_conflict_simps [simp]:
  "cdb (set_conflict j nl s) = cdb s"
  "\<not> inconsistent s \<Longrightarrow> asg (set_conflict j nl s) = (asg s)\<lparr>m_inconsistent := True, m_conflict := j, m_not_l := nl\<rparr>"
  by (simp_all add: set_conflict_def)

lemma removed_simps [simp]:
  "removed (set_lits off c s) = removed s" "removed (mark_used off s) = removed s" "removed (update_glue u off s) = removed s"
  by (simp_all add: set_lits_def mark_used_def update_glue_def set_clause_def get_clause_def map_update_same set_glue_def Let_def)

text \<open>What the operations of propagation leave alone.\<close>

definition same_frame :: "solver \<Rightarrow> solver \<Rightarrow> bool" where
  "same_frame s s' \<longleftrightarrow> ana s' = ana s \<and> queue s' = queue s \<and> m_config s' = m_config s
     \<and> (heu s')\<lparr>m_phase := []\<rparr> = (heu s)\<lparr>m_phase := []\<rparr> \<and> length (m_phase (heu s')) = length (m_phase (heu s)) \<and> m_clauses (cdb s') = m_clauses (cdb s)
     \<and> m_learned (cdb s') = m_learned (cdb s) \<and> m_clauses_to_reinit (cdb s') = m_clauses_to_reinit (cdb s)"

lemma same_frame_refl [simp]: "same_frame s s"
  by (simp add: same_frame_def)

lemma same_frame_trans [trans]: "same_frame s s' \<Longrightarrow> same_frame s' s'' \<Longrightarrow> same_frame s s''"
  by (simp add: same_frame_def)

lemma same_frame_ops:
  "same_frame s (set_wlist l ws s)" "same_frame s (push_watch l w s)" "same_frame s (set_clause off c s)"
  "same_frame s (set_lits off ls s)" "same_frame s (mark_used off s)" "same_frame s (update_glue u off s)"
  "same_frame s (assign_core l j s)" "same_frame s (set_conflict j nl s)" "same_frame s (assign l j s)"
  "same_frame s (s\<lparr>asg := a\<rparr>)"
  by (simp_all add: same_frame_def set_wlist_def push_watch_def set_clause_def set_lits_def mark_used_def
      update_glue_def assign_core_def set_conflict_def assign_def Let_def split: lbool.split)

section \<open>The invariant of the loop on a watch list\<close>

definition wlist_inv :: "literal list set \<Rightarrow> nat \<Rightarrow> literal \<Rightarrow> watched list \<Rightarrow> watched list \<Rightarrow> solver \<Rightarrow> bool" where
  "wlist_inv F n l kept rest s \<longleftrightarrow>
     (let a = asg s; ls = lits s; W = (wl s)[l := kept @ rest]; q = m_qhead a - 1
      in base F n a ls W \<and> scopes_complete a ls W \<and> l < 2 * n \<and> 0 < m_qhead a \<and> m_trail a ! q = l
         \<and> (\<forall>sc \<in> set (m_scopes a). m_trail_lim sc \<le> q) \<and> complete_upto ls W (m_trail a) q (set (m_trail a))
         \<and> (\<forall>w \<in> set kept. sat_watch ls (set (m_trail a)) (set (take q (m_trail a))) w)
         \<and> \<not> m_inconsistent a \<and> True \<notin> set (removed s))"

lemma wlist_invD:
  assumes "wlist_inv F n l kept rest s"
  shows "base F n (asg s) (lits s) ((wl s)[l := kept @ rest])" "trail_ok n (asg s)"
    "scopes_complete (asg s) (lits s) ((wl s)[l := kept @ rest])" "l < 2 * n" "0 < m_qhead (asg s)"
    "tr s ! (m_qhead (asg s) - 1) = l" "sc \<in> set (m_scopes (asg s)) \<Longrightarrow> m_trail_lim sc \<le> m_qhead (asg s) - 1"
    "complete_upto (lits s) ((wl s)[l := kept @ rest]) (tr s) (m_qhead (asg s) - 1) (set (tr s))"
    "w \<in> set kept \<Longrightarrow> sat_watch (lits s) (set (tr s)) (set (take (m_qhead (asg s) - 1) (tr s))) w"
    "\<not> inconsistent s" "True \<notin> set (removed s)" "l \<in> set (tr s)" "l < length (wl s)"
    "m_qhead (asg s) - 1 < length (tr s)"
proof -
  show b: "base F n (asg s) (lits s) ((wl s)[l := kept @ rest])" and l: "l < 2 * n" and q: "0 < m_qhead (asg s)"
    and t: "tr s ! (m_qhead (asg s) - 1) = l"
    using assms by (simp_all add: wlist_inv_def Let_def)
  show tok: "trail_ok n (asg s)" by (rule baseD(2)[OF b])
  show len: "m_qhead (asg s) - 1 < length (tr s)" using q trail_okD(7)[OF tok] by linarith
  show "l \<in> set (tr s)" using nth_mem[OF len] t by simp
  show "l < length (wl s)" using baseD(5)[OF b] l by simp
qed (use assms in \<open>auto simp: wlist_inv_def Let_def inconsistent_def\<close>)

lemma wlist_inv_cong:
  assumes "asg s' = asg s" "lits s' = lits s" "wl s' = wl s" "removed s' = removed s"
  shows "wlist_inv F n l kept rest s' = wlist_inv F n l kept rest s"
  unfolding wlist_inv_def Let_def assms by (rule refl)

lemma complete_upto_append:
  assumes "q \<le> length t"
  shows "complete_upto ls W (t @ ys) q T = complete_upto ls W t q T"
  using assms by (auto simp: complete_upto_def nth_append)

lemma complete_upto_mono: "complete_upto ls W t q T \<Longrightarrow> T \<subseteq> T' \<Longrightarrow> complete_upto ls W t q T'"
  unfolding complete_upto_def by (blast intro: sat_watch_mono)

lemma scopes_complete_assign:
  assumes "trail_ok n a" "scopes_complete a ls W"
  shows "scopes_complete (assign_asg l j a) ls W"
proof -
  have "m_trail_lim sc \<le> length (m_trail a)" if "sc \<in> set (m_scopes a)" for sc
    using trail_okD(7,10)[OF assms(1)] that by (meson order_trans)
  then show ?thesis using assms(2) by (simp add: scopes_complete_def complete_upto_append)
qed

lemma sat_watch_cong: "(\<And>k. set (ls' ! k) = set (ls ! k)) \<Longrightarrow> sat_watch ls' T P w = sat_watch ls T P w"
  by (simp add: sat_watch_def split: watched.split)

text \<open>Watch lists of true literals that lose elements or keep them, with clauses permuted.\<close>

lemma complete_upto_change:
  assumes "complete_upto ls W t q T" "\<And>k. set (ls' ! k) = set (ls ! k)"
    and "\<And>p w. p < q \<Longrightarrow> w \<in> set (W' ! (t ! p)) \<Longrightarrow> w \<in> set (W ! (t ! p))"
  shows "complete_upto ls' W' t q T"
  using assms by (auto simp: complete_upto_def sat_watch_cong[OF assms(2)])

lemma scopes_complete_change:
  assumes "scopes_complete a ls W" "\<And>k. set (ls' ! k) = set (ls ! k)"
    and "\<And>sc p w. sc \<in> set (m_scopes a) \<Longrightarrow> p < m_trail_lim sc \<Longrightarrow> w \<in> set (W' ! (m_trail a ! p)) \<Longrightarrow> w \<in> set (W ! (m_trail a ! p))"
  shows "scopes_complete a ls' W'"
  using assms(1,3) complete_upto_change[OF _ assms(2)] by (auto simp: scopes_complete_def)

text \<open>Keeping an element.\<close>

lemma wlist_keep:
  assumes "wlist_inv F n l kept (w # ws) s"
    and "sat_watch (lits s) (set (tr s)) (set (take (m_qhead (asg s) - 1) (tr s))) w"
  shows "wlist_inv F n l (kept @ [w]) ws s"
  using assms by (simp add: wlist_inv_def Let_def)

text \<open>Assigning a literal.\<close>

lemma wlist_assign:
  assumes inv: "wlist_inv F n l kept rest s" and x: "x < 2 * n" "lit_value s x = l_undef"
    and j: "implies_lit F (lits s) (set (tr s)) x j" "j \<noteq> J_NONE"
  shows "wlist_inv F n l kept rest (assign_core x j s)"
proof -
  note d = wlist_invD[OF inv]
  let ?W = "(wl s)[l := kept @ rest]" and ?q = "m_qhead (asg s) - 1"
  have "base F n (assign_asg x j (asg s)) (lits s) ?W"
    by (rule assign_base[OF d(1) x(1)]) (use x(2) j in \<open>simp_all add: lit_value_def\<close>)
  moreover have "scopes_complete (assign_asg x j (asg s)) (lits s) ?W" by (rule scopes_complete_assign[OF d(2,3)])
  moreover have "complete_upto (lits s) ?W (tr s @ [x]) ?q (set (tr s @ [x]))"
    using complete_upto_mono[OF d(8)] d(14) by (simp add: complete_upto_append subset_insertI)
  moreover have "sat_watch (lits s) (set (tr s @ [x])) (set (take ?q (tr s @ [x]))) w" if "w \<in> set kept" for w
    using sat_watch_mono[OF d(9)[OF that], of "set (tr s @ [x])"] d(14) by auto
  ultimately show ?thesis using d(4-7,10,11,14) by (simp add: wlist_inv_def Let_def nth_append inconsistent_def)
qed

text \<open>The other literals of the trail are not affected by changes of the list of \<open>l\<close>.\<close>

lemma other_trail_lits:
  assumes "wlist_inv F n l kept rest s" "p < m_qhead (asg s) - 1"
  shows "tr s ! p \<noteq> l" "tr s ! p \<in> set (tr s)" "p < length (tr s)"
proof -
  note d = wlist_invD[OF assms(1)]
  show p: "p < length (tr s)" using assms(2) d(14) by linarith
  then show "tr s ! p \<in> set (tr s)" by simp
  show "tr s ! p \<noteq> l"
    using nth_eq_iff_index_eq[OF trail_okD(5)[OF d(2)] p d(14)] d(6) assms(2) by auto
qed

text \<open>Exchanging the first two literals of a clause.\<close>

lemma wlist_swap:
  assumes inv: "wlist_inv F n l kept rest s" and off: "off < length (lits s)" "3 < length (lits s ! off)"
  shows "wlist_inv F n l kept rest (set_lits off (swap_lits 0 1 (lits s ! off)) s)"
proof -
  note d = wlist_invD[OF inv]
  let ?ls = "(lits s)[off := swap_lits 0 1 (lits s ! off)]"
  have i: "0 < length (lits s ! off)" "1 < length (lits s ! off)" using off(2) by auto
  have set: "set (?ls ! k) = set (lits s ! k)" for k using swap_lits_props(1)[OF i] off(1) by (cases "k = off"; simp)
  have "base F n (asg s) ?ls ((wl s)[l := kept @ rest])" by (rule base_swap_first[OF d(1) off])
  moreover have "scopes_complete (asg s) ?ls ((wl s)[l := kept @ rest])"
    by (rule scopes_complete_change[OF d(3) set])
  moreover have "complete_upto ?ls ((wl s)[l := kept @ rest]) (tr s) (m_qhead (asg s) - 1) (set (tr s))"
    by (rule complete_upto_change[OF d(8) set])
  ultimately show ?thesis
    using d(4-7,9-11) unfolding wlist_inv_def Let_def set_lits_simps removed_simps sat_watch_cong[OF set] inconsistent_def by blast
qed

text \<open>A new blocked literal.\<close>

lemma wlist_block:
  assumes inv: "wlist_inv F n l kept (W_CLAUSE bl off # ws) s" and b': "b' \<in> set (lits s ! off)" "b' \<in> set (tr s)"
  shows "wlist_inv F n l (kept @ [W_CLAUSE b' off]) ws s"
proof -
  note d = wlist_invD[OF inv]
  let ?W = "(wl s)[l := kept @ W_CLAUSE bl off # ws]" and ?W' = "(wl s)[l := kept @ W_CLAUSE b' off # ws]"
  have W': "?W' ! k = (if k = l then kept @ W_CLAUSE b' off # ws else ?W ! k)" for k
    using d(13) by (cases "k = l") simp_all
  have Wl: "?W ! l = kept @ W_CLAUSE bl off # ws" using d(13) by simp
  have "base F n (asg s) (lits s) ?W'"
  proof (rule base_same_watches[OF d(1)])
    show "same_watches (?W ! k) (?W' ! k)" for k
      by (cases "k = l") (auto simp: W' Wl same_watches_def)
    fix k w assume k: "k < 2 * n" "w \<in> set (?W' ! k)"
    show "watch_ok F n (lits s) k w"
    proof (cases "w \<in> set (?W ! k)")
      case False
      then have "w = W_CLAUSE b' off" "k = l" using k(2) Wl by (auto simp: W' split: if_splits)
      moreover have "watch_ok F n (lits s) l (W_CLAUSE bl off)" using baseD(6)[OF d(1,4)] Wl by simp
      ultimately show ?thesis using b'(1) by (auto simp: watch_ok_def)
    qed (rule baseD(6)[OF d(1) k(1)])
  qed simp
  moreover have "scopes_complete (asg s) (lits s) ?W'"
  proof (rule scopes_complete_change[OF d(3)])
    fix sc p w assume sc: "sc \<in> set (m_scopes (asg s))" "p < m_trail_lim sc" "w \<in> set (?W' ! (tr s ! p))"
    have "tr s ! p \<noteq> l" by (rule other_trail_lits(1)[OF inv]) (use d(7)[OF sc(1)] sc(2) in linarith)
    then show "w \<in> set (?W ! (tr s ! p))" using sc(3) by (simp add: W')
  qed simp
  moreover have "complete_upto (lits s) ?W' (tr s) (m_qhead (asg s) - 1) (set (tr s))"
    by (rule complete_upto_change[OF d(8)]) (use other_trail_lits(1)[OF inv] W' in auto)
  moreover have "sat_watch (lits s) (set (tr s)) P (W_CLAUSE b' off)" for P using b' by (auto simp: sat_watch_def)
  ultimately show ?thesis using d(4-7,9-11) by (auto simp: wlist_inv_def Let_def inconsistent_def)
qed

text \<open>Moving the watch to another literal, which is not false.\<close>

lemma wlist_move:
  assumes inv: "wlist_inv F n l kept (W_CLAUSE bl off # ws) s" and off: "off < length (lits s)" "3 < length (lits s ! off)"
    and c: "lits s ! off ! 1 = neg_lit l" "lits s ! off ! 0 \<notin> set (tr s)"
    and i: "2 \<le> i" "i < length (lits s ! off)" "neg_lit (lits s ! off ! i) \<notin> set (tr s)"
    and c': "c' = (lits s ! off)[1 := lits s ! off ! i, i := neg_lit l]" and x: "x = neg_lit (lits s ! off ! i)"
  shows "wlist_inv F n l kept ws (push_watch x (W_CLAUSE (lits s ! off ! 0) off) (set_lits off c' s))"
    "x \<noteq> l"
proof -
  note d = wlist_invD[OF inv]
  let ?W = "(wl s)[l := kept @ W_CLAUSE bl off # ws]" and ?ls = "(lits s)[off := c']"
  let ?W' = "(wl s)[x := wl s ! x @ [W_CLAUSE (lits s ! off ! 0) off], l := kept @ ws]"
  have Wl: "?W ! l = kept @ W_CLAUSE bl off # ws" using d(13) by simp
  note m = base_move_watch[OF d(1) off d(4,12) c(1,2) i(1,2) Wl c' x]
  show xl: "x \<noteq> l" by (rule m(2))
  have eq: "?W[l := kept @ ws, x := ?W ! x @ [W_CLAUSE (lits s ! off ! 0) off]] = ?W'"
    using xl by (simp add: list_update_swap)
  have i1: "1 < length (lits s ! off)" using off(2) by simp
  have "set c' = set (lits s ! off)"
    using swap_lits_props(1)[OF i1 i(2)] c(1) c' by (simp add: swap_lits_def)
  then have set: "set (?ls ! k) = set (lits s ! k)" for k using off(1) by (cases "k = off"; simp)
  have W': "w \<in> set (?W ! k)" if "w \<in> set (?W' ! k)" "k \<in> set (tr s)" for k w
  proof -
    have "k \<noteq> x" using that(2) i(3) x by auto
    then show ?thesis using that(1) d(13) by (cases "k = l") (auto simp: nth_list_update)
  qed
  have "base F n (asg s) ?ls ?W'" using m(1) unfolding eq .
  moreover have "scopes_complete (asg s) ?ls ?W'"
  proof (rule scopes_complete_change[OF d(3) set])
    fix sc p w assume sc: "sc \<in> set (m_scopes (asg s))" "p < m_trail_lim sc" "w \<in> set (?W' ! (tr s ! p))"
    have "tr s ! p \<in> set (tr s)" by (rule other_trail_lits(2)[OF inv]) (use d(7)[OF sc(1)] sc(2) in linarith)
    with sc(3) show "w \<in> set (?W ! (tr s ! p))" by (rule W')
  qed
  moreover have "complete_upto ?ls ?W' (tr s) (m_qhead (asg s) - 1) (set (tr s))"
    by (rule complete_upto_change[OF d(8) set]) (use other_trail_lits(2)[OF inv] W' in blast)
  ultimately show "wlist_inv F n l kept ws (push_watch x (W_CLAUSE (lits s ! off ! 0) off) (set_lits off c' s))"
    using d(4-7,9-11) unfolding wlist_inv_def Let_def set_lits_simps push_watch_simps removed_simps
      sat_watch_cong[OF set] inconsistent_def by simp
qed

section \<open>What propagation guarantees\<close>

text \<open>A conflict: the literals that make a consequence of \<open>F\<close> false, one of them of the current level. At
  level 0 it means that \<open>F\<close> has no model.\<close>

definition conflict_ok :: "literal list set \<Rightarrow> solver \<Rightarrow> bool" where
  "conflict_ok F s \<longleftrightarrow>
     (if scope_lvl s = 0 then entails F {}
      else \<exists>as. js_antecedents s (m_not_l (asg s)) (m_conflict (asg s)) = Some as
       \<and> (let C = set as \<union> ({m_not_l (asg s)} - {null_literal})
          in C \<subseteq> set (tr s) \<and> entails F (neg_lit ` C)
             \<and> (\<exists>x \<in> C. x \<in> set (drop (m_trail_lim (last (m_scopes (asg s)))) (tr s)))))"

lemma root_literal:
  assumes "base F n a ls W" "m_scope_lvl a = 0" "x \<in> set (m_trail a)"
  shows "entails F {x}"
proof -
  have z: "level_at a j = 0" for j
    using level_at_le[of a j] trail_okD(8)[OF baseD(2)[OF assms(1)]] assms(2) by simp
  show ?thesis using assms(3) level_zero_entailed[of a F ls] baseD(3)[OF assms(1)] z by (auto simp: in_set_conv_nth)
qed

text \<open>What changes: the trail grows, clauses are permuted, binary watches stay.\<close>

definition progress :: "watched list list \<Rightarrow> solver \<Rightarrow> watched list list \<Rightarrow> solver \<Rightarrow> bool" where
  "progress W s W' s' \<longleftrightarrow> (\<exists>ys. tr s' = tr s @ ys) \<and> m_scopes (asg s') = m_scopes (asg s)
     \<and> m_scope_lvl (asg s') = m_scope_lvl (asg s) \<and> map set (lits s') = map set (lits s) \<and> same_frame s s'
     \<and> (\<forall>l y b. W_BINARY y b \<in> set (W ! l) \<longrightarrow> W_BINARY y b \<in> set (W' ! l)) \<and> m_qhead (asg s) \<le> m_qhead (asg s')
     \<and> length (m_level (asg s')) = length (m_level (asg s))"

lemma progress_refl: "progress W s W s"
  by (simp add: progress_def)

lemma progress_trans: "progress W s W' s' \<Longrightarrow> progress W' s' W'' s'' \<Longrightarrow> progress W s W'' s''"
  unfolding progress_def by (auto elim: same_frame_trans)

definition settled :: "literal list set \<Rightarrow> nat \<Rightarrow> solver \<Rightarrow> bool" where
  "settled F n s \<longleftrightarrow> base F n (asg s) (lits s) (wl s) \<and> scopes_complete (asg s) (lits s) (wl s)
     \<and> True \<notin> set (removed s)
     \<and> (if inconsistent s then conflict_ok F s else head_complete (asg s) (lits s) (wl s))"

lemma trail_limit_drop:
  assumes "\<forall>sc \<in> set scs. m_trail_lim sc \<le> q" "scs \<noteq> []" "q < length t"
  shows "t ! q \<in> set (drop (m_trail_lim (last scs)) t)"
proof -
  have "m_trail_lim (last scs) \<le> q" using assms(1,2) by simp
  then have "t ! q = drop (m_trail_lim (last scs)) t ! (q - m_trail_lim (last scs))" using assms(3) by simp
  then show ?thesis using assms(3) \<open>m_trail_lim (last scs) \<le> q\<close> by (metis length_drop diff_less_mono nth_mem)
qed

lemma conflict_fields:
  "level_at (a\<lparr>m_inconsistent := b, m_conflict := j, m_not_l := nl\<rparr>) i = level_at a i"
  "trail_ok n (a\<lparr>m_inconsistent := b, m_conflict := j, m_not_l := nl\<rparr>) = trail_ok n a"
  "reason_ok F ls (a\<lparr>m_inconsistent := b, m_conflict := j, m_not_l := nl\<rparr>) i = reason_ok F ls a i"
proof -
  show l: "level_at (a\<lparr>m_inconsistent := b, m_conflict := j, m_not_l := nl\<rparr>) i = level_at a i" for i
    by (simp add: level_at_def)
  show "trail_ok n (a\<lparr>m_inconsistent := b, m_conflict := j, m_not_l := nl\<rparr>) = trail_ok n a"
    unfolding trail_ok_def l by simp
  show "reason_ok F ls (a\<lparr>m_inconsistent := b, m_conflict := j, m_not_l := nl\<rparr>) i = reason_ok F ls a i"
    by (rule reason_ok_cong) (simp_all add: l)
qed

lemma base_conflict_fields:
  "base F n (a\<lparr>m_inconsistent := b, m_conflict := j, m_not_l := nl\<rparr>) ls W = base F n a ls W"
  "scopes_complete (a\<lparr>m_inconsistent := b, m_conflict := j, m_not_l := nl\<rparr>) ls W = scopes_complete a ls W"
  unfolding base_def scopes_complete_def conflict_fields by simp_all

text \<open>A conflict found in the loop.\<close>

lemma wlist_conflict:
  assumes inv: "wlist_inv F n l kept rest s" and rest: "s' = set_conflict j nl (set_wlist l (kept @ rest) s)"
    and as: "js_antecedents s' nl j = Some as" "C = set as \<union> ({nl} - {null_literal})"
    and C: "C \<subseteq> set (tr s)" "entails F (neg_lit ` C)" "l \<in> C"
  shows "settled F n s'" "inconsistent s'" "progress ((wl s)[l := kept @ rest]) s (wl s') s'"
proof -
  note d = wlist_invD[OF inv]
  have ni: "\<not> inconsistent (set_wlist l (kept @ rest) s)" using d(10) by (simp add: inconsistent_def)
  have a: "asg s' = (asg s)\<lparr>m_inconsistent := True, m_conflict := j, m_not_l := nl\<rparr>" using rest ni by simp
  have c: "wl s' = (wl s)[l := kept @ rest]" "lits s' = lits s" "removed s' = removed s" using rest by simp_all
  show inc: "inconsistent s'" using a by (simp add: inconsistent_def)
  have f: "m_not_l (asg s') = nl" "m_conflict (asg s') = j" "tr s' = tr s" using a by simp_all
  have "conflict_ok F s'"
  proof (cases "scope_lvl s' = 0")
    case True
    then have k: "m_scope_lvl (asg s) = 0" by (simp add: scope_lvl_def a)
    have "entails F ({} \<union> neg_lit ` C)" using C(2) by simp
    then have "entails F {}"
    proof (rule entails_cut)
      fix l assume "l \<in> neg_lit ` C"
      then show "entails F {neg_lit l}" using root_literal[OF d(1) k] C(1) by auto
    qed
    then show ?thesis using True by (simp add: conflict_ok_def)
  next
    case False
    then have "m_scopes (asg s) \<noteq> []" using trail_okD(8)[OF d(2)] a by (auto simp: scope_lvl_def)
    from trail_limit_drop[OF _ this d(14)] have "\<exists>x \<in> C. x \<in> set (drop (m_trail_lim (last (m_scopes (asg s')))) (tr s'))"
      using d(6,7) C(3) a by auto
    then show ?thesis using False as C(1,2) unfolding conflict_ok_def Let_def f by auto
  qed
  then show "settled F n s'" using d(1,3,11) inc unfolding settled_def a c base_conflict_fields by simp
  have "same_frame s s'" unfolding rest by (rule same_frame_trans[OF same_frame_ops(1,8)])
  then show "progress ((wl s)[l := kept @ rest]) s (wl s') s'" using a c by (simp add: progress_def)
qed

lemma wlist_done:
  assumes inv: "wlist_inv F n l kept [] s"
  shows "settled F n (set_wlist l kept s)" "\<not> inconsistent (set_wlist l kept s)"
proof -
  note d = wlist_invD[OF inv]
  let ?q = "m_qhead (asg s) - 1" and ?W = "(wl s)[l := kept]"
  show ni: "\<not> inconsistent (set_wlist l kept s)" using d(10) by (simp add: inconsistent_def)
  have "sat_watch (lits s) (set (tr s)) (set (take p (tr s))) w" if p: "p < m_qhead (asg s)" "w \<in> set (?W ! (tr s ! p))" for p w
  proof (cases "p = ?q")
    case True
    then show ?thesis using d(6,9,13) p(2) by simp
  next
    case False
    then have "p < ?q" using p(1) d(5) by linarith
    then show ?thesis using d(8) p(2) by (simp add: complete_upto_def)
  qed
  then show "settled F n (set_wlist l kept s)" using d(1,3,11) ni
    by (simp add: settled_def head_complete_def complete_upto_def)
qed

section \<open>The loop on a watch list\<close>

lemma progress_assign:
  "progress W s W (assign_core x j s)"
  using same_frame_ops(7)[of s x j] by (simp add: progress_def assign_asg_def)

lemma progress_same:
  assumes "asg s' = asg s" "map set (lits s') = map set (lits s)" "same_frame s s'"
    and "\<And>l y b. W_BINARY y b \<in> set (W ! l) \<Longrightarrow> W_BINARY y b \<in> set (W' ! l)"
  shows "progress W s W' s'"
  using assms by (simp add: progress_def)

text \<open>The postcondition of the loop from a state with the watch lists \<open>W\<close>.\<close>

definition wlist_post :: "literal list set \<Rightarrow> nat \<Rightarrow> watched list list \<Rightarrow> solver \<Rightarrow> (bool \<times> solver) option \<Rightarrow> bool" where
  "wlist_post F n W s r \<longleftrightarrow>
     (\<exists>ok s'. r = Some (ok, s') \<and> settled F n s' \<and> inconsistent s' = (\<not> ok) \<and> progress W s (wl s') s')"

lemma wlist_postI:
  "settled F n s' \<Longrightarrow> inconsistent s' = (\<not> ok) \<Longrightarrow> progress W s (wl s') s' \<Longrightarrow> wlist_post F n W s (Some (ok, s'))"
  by (auto simp: wlist_post_def)

lemma wlist_post_trans: "progress W s W' s' \<Longrightarrow> wlist_post F n W' s' r \<Longrightarrow> wlist_post F n W s r"
  unfolding wlist_post_def by (blast intro: progress_trans)

lemma find_watch_Some:
  assumes "find_watch s c = Some i"
  shows "2 \<le> i" "i < length c" "lit_value s (c ! i) \<noteq> l_false"
  using assms by (auto simp: find_watch_def find_Some_iff)

lemma find_watch_None:
  assumes "find_watch s c = None" "2 \<le> i" "i < length c"
  shows "lit_value s (c ! i) = l_false"
  using assms by (auto simp: find_watch_def find_None_iff)

lemma get_clause_lits [simp]: "off < length (m_cls_allocator (cdb s)) \<Longrightarrow> c_lits (get_clause s off) = lits s ! off"
  by (simp add: get_clause_def)

lemma clause_antecedents:
  assumes "off < length (m_cls_allocator (cdb s))"
  shows "js_antecedents s null_literal (J_CLAUSE off) = Some (map neg_lit (lits s ! off))"
  using assms by (simp add: js_antecedents_def Let_def)

lemma push_keeps: "w \<in> set (W ! k) \<Longrightarrow> w \<in> set (W[x := W ! x @ ys] ! k)"
  by (cases "k = x"; cases "x < length W"; simp add: list_update_beyond)

lemma drop_keeps: "w \<in> set (W[l := kept @ W_CLAUSE b off # ws] ! k) \<Longrightarrow> (\<And>b. w \<noteq> W_CLAUSE b off) \<Longrightarrow> w \<in> set (W[l := kept @ ws] ! k)"
  by (cases "k = l"; cases "l < length W"; auto simp: list_update_beyond)

text \<open>The element of a clause, once its false literal is in the second place.\<close>

lemma wlist_clause_step:
  assumes inv: "wlist_inv F n l kept (W_CLAUSE bl off # ws) s" and c: "c = lits s ! off" "c ! 1 = neg_lit l"
    and IH: "\<And>kept s. wlist_inv F n l kept ws s \<Longrightarrow> wlist_post F n ((wl s)[l := kept @ ws]) s (propagate_wlist u l kept ws s)"
  shows "wlist_post F n ((wl s)[l := kept @ W_CLAUSE bl off # ws]) s
    (if lit_value s (c ! 0) = l_true then propagate_wlist u l (kept @ [W_CLAUSE (c ! 0) off]) ws s
     else case find_watch s c of
       Some i \<Rightarrow> let c' = c[1 := c ! i, i := neg_lit l]
         in propagate_wlist u l kept ws (push_watch (neg_lit (c' ! 1)) (W_CLAUSE (c' ! 0) off) (set_lits off c' s))
     | None \<Rightarrow> if lit_value s (c ! 0) = l_false then
           Some (False, set_conflict (J_CLAUSE off) null_literal (set_wlist l (kept @ W_CLAUSE bl off # ws) (mark_used off s)))
         else propagate_wlist u l (kept @ [W_CLAUSE bl off]) ws
           (update_glue u off (assign_core (c ! 0) (J_CLAUSE off) (mark_used off s))))"
    (is "wlist_post F n ?W s ?r")
proof -
  note d = wlist_invD[OF inv]
  have Wl: "?W ! l = kept @ W_CLAUSE bl off # ws" using d(13) by simp
  have w: "watch_ok F n (lits s) l (W_CLAUSE bl off)" using baseD(6)[OF d(1,4)] Wl by simp
  have off: "off < length (lits s)" "3 < length c" using w unfolding watch_ok_def watched.case c(1) by blast+
  have ok: "clause_ok F n c" using baseD(4)[OF d(1)] off(1) by (auto simp: c(1))
  then have lt: "x < 2 * n" if "x \<in> set c" for x using that by (simp add: clause_ok_def)
  have i0: "c ! 0 \<in> set c" "c ! 1 \<in> set c" using off(2) by (auto intro: nth_mem)
  have val: "lit_value s x = l_true \<longleftrightarrow> x \<in> set (tr s)" "lit_value s x = l_false \<longleftrightarrow> neg_lit x \<in> set (tr s)" if "x \<in> set c" for x
    using value_iff[OF d(2) lt[OF that]] by (simp_all add: lit_value_def)
  show ?thesis
  proof (cases "lit_value s (c ! 0) = l_true")
    case True
    then have "c ! 0 \<in> set (tr s)" using val i0 by blast
    have "wlist_inv F n l (kept @ [W_CLAUSE (c ! 0) off]) ws s"
      by (rule wlist_block[OF inv]) (use i0 c(1) \<open>c ! 0 \<in> set (tr s)\<close> in auto)
    note p = IH[OF this]
    have "progress ?W s ((wl s)[l := (kept @ [W_CLAUSE (c ! 0) off]) @ ws]) s"
      by (rule progress_same) (use d(13) in \<open>auto simp: nth_list_update\<close>)
    from wlist_post_trans[OF this p] True show ?thesis by simp
  next
    case nt: False
    then have c0: "c ! 0 \<notin> set (tr s)" using val i0 by blast
    show ?thesis
    proof (cases "find_watch s c")
      case (Some i)
      note i = find_watch_Some[OF Some]
      have ci: "neg_lit (c ! i) \<notin> set (tr s)" using i(3) val(2)[OF nth_mem[OF i(2)]] by blast
      define c' where "c' = c[1 := c ! i, i := neg_lit l]"
      have n01: "c' ! 0 = c ! 0" "c' ! 1 = c ! i" using i(1,2) off(2) by (simp_all add: c'_def)
      let ?s = "push_watch (neg_lit (c ! i)) (W_CLAUSE (c ! 0) off) (set_lits off c' s)"
      note mv = wlist_move[OF inv off(1) off(2)[unfolded c(1)] c(2)[unfolded c(1)] c0[unfolded c(1)] i(1) i(2)[unfolded c(1)]
          ci[unfolded c(1)] c'_def[unfolded c(1)] refl, folded c(1)]
      have i1: "1 < length c" using off(2) by simp
      have "set c' = set c" using swap_lits_props(1)[OF i1 i(2)] c(2) by (simp add: swap_lits_def c'_def)
      then have upd: "set c' = map set (lits s) ! off" using off(1) by (simp add: c(1))
      have "map set (lits ?s) = (map set (lits s))[off := set c']" by (simp only: push_watch_simps set_lits_simps map_update)
      also have "\<dots> = map set (lits s)" unfolding upd by (rule list_update_id)
      finally have "map set (lits ?s) = map set (lits s)" .
      moreover have "same_frame s ?s" by (rule same_frame_trans[OF same_frame_ops(4,2)])
      moreover have "W_BINARY y b \<in> set ((wl ?s)[l := kept @ ws] ! k)" if "W_BINARY y b \<in> set (?W ! k)" for k y b
        using push_keeps[OF drop_keeps[OF that], of "neg_lit (c ! i)" "[W_CLAUSE (c ! 0) off]"] mv(2)
        by (simp add: list_update_swap)
      ultimately have "progress ?W s ((wl ?s)[l := kept @ ws]) ?s"
        by (intro progress_same) simp_all
      from wlist_post_trans[OF this IH[OF mv(1)]] show ?thesis
        using Some nt n01[unfolded c'_def] unfolding c'_def by (simp add: Let_def)
    next
      case None
      have rest: "neg_lit x \<in> set (tr s)" if "x \<in> set c" "x \<noteq> c ! 0" for x
      proof -
        obtain k where k: "k < length c" "x = c ! k" using \<open>x \<in> set c\<close> by (auto simp: in_set_conv_nth)
        show ?thesis
        proof (cases "k < 2")
          case True
          then have "k = 1" using k(2) that(2) by (cases "k = 0") auto
          then show ?thesis using k(2) c(2) d(12) by simp
        next
          case False
          then show ?thesis using find_watch_None[OF None] k val(2)[OF that(1)] by simp
        qed
      qed
      let ?s1 = "mark_used off s"
      have inv1: "wlist_inv F n l kept (W_CLAUSE bl off # ws) ?s1" using inv by (subst wlist_inv_cong) simp_all
      have pr1: "progress ?W s ((wl ?s1)[l := kept @ W_CLAUSE bl off # ws]) ?s1"
        by (rule progress_same) (simp_all add: same_frame_ops)
      show ?thesis
      proof (cases "lit_value s (c ! 0) = l_false")
        case True
        let ?s2 = "set_wlist l (kept @ W_CLAUSE bl off # ws) ?s1"
        let ?s' = "set_conflict (J_CLAUSE off) null_literal ?s2"
        have "lits ?s' ! off = c" unfolding c(1) by simp
        moreover have "off < length (m_cls_allocator (cdb ?s'))" using off(1) by (simp add: mark_used_def set_clause_def)
        ultimately have as: "js_antecedents ?s' null_literal (J_CLAUSE off) = Some (map neg_lit c)"
          using clause_antecedents[of off ?s'] by simp
        have C: "set (map neg_lit c) = set (map neg_lit c) \<union> ({null_literal} - {null_literal})" by simp
        have "set (map neg_lit c) \<subseteq> set (tr ?s1)" using rest True val(2)[OF i0(1)] by auto
        moreover have "entails F (neg_lit ` set (map neg_lit c))" using ok by (simp add: image_image clause_ok_def)
        moreover have "l \<in> set (map neg_lit c)" using i0(2) c(2) by (metis image_eqI list.set_map neg_neg_lit)
        ultimately have "settled F n ?s'" "inconsistent ?s'" "progress ((wl ?s1)[l := kept @ W_CLAUSE bl off # ws]) ?s1 (wl ?s') ?s'"
          using wlist_conflict[OF inv1 refl as C] by blast+
        then have "wlist_post F n ((wl ?s1)[l := kept @ W_CLAUSE bl off # ws]) ?s1 (Some (False, ?s'))"
          by (intro wlist_postI) simp_all
        from wlist_post_trans[OF pr1 this] show ?thesis using nt None True by simp
      next
        case False
        let ?s2 = "assign_core (c ! 0) (J_CLAUSE off) ?s1" let ?s3 = "update_glue u off ?s2"
        have und: "lit_value ?s1 (c ! 0) = l_undef"
          using nt False by (cases "lit_value s (c ! 0)") (simp_all add: lit_value_def)
        have "implies_lit F (lits ?s1) (set (tr ?s1)) (c ! 0) (J_CLAUSE off)"
          using off rest by (auto simp: implies_lit_def c(1))
        from wlist_assign[OF inv1 lt[OF i0(1)] und this]
        have "wlist_inv F n l kept (W_CLAUSE bl off # ws) ?s2" by simp
        moreover have "sat_watch (lits ?s2) (set (tr ?s2)) P (W_CLAUSE bl off)" for P
          using i0(1) off(1) by (auto simp: sat_watch_def c(1))
        ultimately have inv2: "wlist_inv F n l (kept @ [W_CLAUSE bl off]) ws ?s2" by (rule wlist_keep)
        then have inv3: "wlist_inv F n l (kept @ [W_CLAUSE bl off]) ws ?s3" by (subst wlist_inv_cong) simp_all
        have "progress ((wl ?s1)[l := kept @ W_CLAUSE bl off # ws]) ?s1 ((wl ?s3)[l := (kept @ [W_CLAUSE bl off]) @ ws]) ?s3"
          by (rule progress_trans[OF progress_assign progress_same]) (simp_all, rule same_frame_ops(6))
        from wlist_post_trans[OF pr1 wlist_post_trans[OF this IH[OF inv3]]] show ?thesis using nt None False by simp
      qed
    qed
  qed
qed


text \<open>The elements of binary and ternary clauses, after one of three cases for the literal to assign.\<close>

lemma wlist_assign_step:
  assumes inv: "wlist_inv F n l kept (w # ws) s" and x: "x < 2 * n" "lit_value s x = l_undef"
    and j: "implies_lit F (lits s) (set (tr s)) x j" "j \<noteq> J_NONE"
    and sat: "sat_watch (lits s) (set (tr s @ [x])) (set (take (m_qhead (asg s) - 1) (tr s))) w"
    and IH: "\<And>kept s. wlist_inv F n l kept ws s \<Longrightarrow> wlist_post F n ((wl s)[l := kept @ ws]) s (propagate_wlist u l kept ws s)"
  shows "wlist_post F n ((wl s)[l := kept @ w # ws]) s (propagate_wlist u l (kept @ [w]) ws (assign_core x j s))"
proof -
  note d = wlist_invD[OF inv]
  let ?s = "assign_core x j s"
  have "wlist_inv F n l (kept @ [w]) ws ?s"
    by (rule wlist_keep[OF wlist_assign[OF inv x j]]) (use sat d(14) in simp)
  from IH[OF this] have "wlist_post F n ((wl s)[l := kept @ w # ws]) ?s (propagate_wlist u l (kept @ [w]) ws ?s)" by simp
  then show ?thesis by (rule wlist_post_trans[OF progress_assign])
qed

lemma wlist_skip_step:
  assumes inv: "wlist_inv F n l kept (w # ws) s"
    and sat: "sat_watch (lits s) (set (tr s)) (set (take (m_qhead (asg s) - 1) (tr s))) w"
    and IH: "\<And>kept s. wlist_inv F n l kept ws s \<Longrightarrow> wlist_post F n ((wl s)[l := kept @ ws]) s (propagate_wlist u l kept ws s)"
  shows "wlist_post F n ((wl s)[l := kept @ w # ws]) s (propagate_wlist u l (kept @ [w]) ws s)"
  using IH[OF wlist_keep[OF inv sat]] by simp

lemma wlist_conflict_step:
  assumes inv: "wlist_inv F n l kept rest s" and rest: "s' = set_conflict j nl (set_wlist l (kept @ rest) s)"
    and as: "js_antecedents s' nl j = Some as"
    and C: "set as \<union> ({nl} - {null_literal}) \<subseteq> set (tr s)" "entails F (neg_lit ` (set as \<union> ({nl} - {null_literal})))"
      "l \<in> set as \<union> ({nl} - {null_literal})"
  shows "wlist_post F n ((wl s)[l := kept @ rest]) s (Some (False, s'))"
  using wlist_conflict[OF inv rest as refl C] by (intro wlist_postI) simp_all

lemma wlist_binary_step:
  assumes inv: "wlist_inv F n l kept (W_BINARY x b # ws) s"
    and IH: "\<And>kept s. wlist_inv F n l kept ws s \<Longrightarrow> wlist_post F n ((wl s)[l := kept @ ws]) s (propagate_wlist u l kept ws s)"
  shows "wlist_post F n ((wl s)[l := kept @ W_BINARY x b # ws]) s (propagate_wlist u l kept (W_BINARY x b # ws) s)"
proof -
  note d = wlist_invD[OF inv]
  have w: "watch_ok F n (lits s) l (W_BINARY x b)" using baseD(6)[OF d(1,4)] d(13) by simp
  then have x: "x < 2 * n" and e: "entails F {neg_lit l, x}" by (simp_all add: watch_ok_def)
  note val = value_iff[OF d(2) x, folded lit_value_def]
  note nn = not_null[OF _ baseD(1)[OF d(1)]]
  show ?thesis
  proof (cases "lit_value s x")
    case l_true
    then have "x \<in> set (tr s)" using val(1) by simp
    then have "sat_watch (lits s) (set (tr s)) P (W_BINARY x b)" for P by (simp add: sat_watch_def)
    from wlist_skip_step[OF inv this IH] l_true show ?thesis by simp
  next
    case l_undef
    have "implies_lit F (lits s) (set (tr s)) x (J_BINARY (neg_lit l))"
      using d(12) e by (simp add: implies_lit_def insert_commute)
    moreover have "sat_watch (lits s) (set (tr s @ [x])) P (W_BINARY x b)" for P by (simp add: sat_watch_def)
    ultimately show ?thesis using wlist_assign_step[OF inv x l_undef _ _ _ IH] l_undef by simp
  next
    case l_false
    then have nx: "neg_lit x \<in> set (tr s)" using val(2) by simp
    let ?s' = "set_conflict (J_BINARY (neg_lit l)) (neg_lit x) (set_wlist l (kept @ W_BINARY x b # ws) s)"
    have "js_antecedents ?s' (neg_lit x) (J_BINARY (neg_lit l)) = Some [l]" by (simp add: js_antecedents_def)
    moreover have "neg_lit x \<noteq> null_literal" using nn[of "neg_lit x"] x by (simp add: neg_lit_less)
    ultimately show ?thesis using wlist_conflict_step[OF inv refl, of "J_BINARY (neg_lit l)" "neg_lit x" "[l]"] nx e d(12) l_false
      by (simp add: insert_commute)
  qed
qed

lemma wlist_ternary_step:
  assumes inv: "wlist_inv F n l kept (W_TERNARY x y # ws) s"
    and IH: "\<And>kept s. wlist_inv F n l kept ws s \<Longrightarrow> wlist_post F n ((wl s)[l := kept @ ws]) s (propagate_wlist u l kept ws s)"
  shows "wlist_post F n ((wl s)[l := kept @ W_TERNARY x y # ws]) s (propagate_wlist u l kept (W_TERNARY x y # ws) s)"
proof -
  note d = wlist_invD[OF inv]
  let ?q = "m_qhead (asg s) - 1"
  have w: "watch_ok F n (lits s) l (W_TERNARY x y)" using baseD(6)[OF d(1,4)] d(13) by simp
  then have x: "x < 2 * n" and y: "y < 2 * n" and e: "entails F {neg_lit l, x, y}" and xy: "lit_var x \<noteq> lit_var y"
    by (simp_all add: watch_ok_def)
  note vx = value_iff[OF d(2) x, folded lit_value_def] and vy = value_iff[OF d(2) y, folded lit_value_def]
  note nn = not_null[OF _ baseD(1)[OF d(1)]]
  have P: "set (take ?q (tr s)) \<subseteq> set (tr s)" by (rule set_take_subset)
  consider (fu) "lit_value s x = l_false" "lit_value s y = l_undef" | (uf) "lit_value s x = l_undef" "lit_value s y = l_false"
    | (ff) "lit_value s x = l_false" "lit_value s y = l_false"
    | (ok) "lit_value s x = l_false \<longrightarrow> lit_value s y = l_true" "lit_value s y = l_false \<longrightarrow> lit_value s x = l_true"
    by (cases "lit_value s x"; cases "lit_value s y"; simp)
  then show ?thesis
  proof cases
    case fu
    have nx: "neg_lit x \<in> set (tr s)" using fu vx(2) by simp
    have "implies_lit F (lits s) (set (tr s)) y (J_TERNARY x (neg_lit l))"
      using nx d(12) e by (simp add: implies_lit_def insert_commute)
    moreover have "sat_watch (lits s) (set (tr s @ [y])) (set (take ?q (tr s))) (W_TERNARY x y)"
      using fu(2) vy P by (auto simp: sat_watch_def)
    ultimately show ?thesis using wlist_assign_step[OF inv y fu(2) _ _ _ IH] fu by (simp add: Let_def)
  next
    case uf
    have ny: "neg_lit y \<in> set (tr s)" using uf vy(2) by simp
    have "implies_lit F (lits s) (set (tr s)) x (J_TERNARY y (neg_lit l))"
      using ny d(12) e by (simp add: implies_lit_def insert_commute)
    moreover have "sat_watch (lits s) (set (tr s @ [x])) (set (take ?q (tr s))) (W_TERNARY x y)"
      using uf(1) vx P by (auto simp: sat_watch_def)
    ultimately show ?thesis using wlist_assign_step[OF inv x uf(1) _ _ _ IH] uf by (simp add: Let_def)
  next
    case ff
    then have n: "neg_lit x \<in> set (tr s)" "neg_lit y \<in> set (tr s)" using vx(2) vy(2) by simp_all
    let ?s' = "set_conflict (J_TERNARY x (neg_lit l)) (neg_lit y) (set_wlist l (kept @ W_TERNARY x y # ws) s)"
    have "js_antecedents ?s' (neg_lit y) (J_TERNARY x (neg_lit l)) = Some [neg_lit x, l]" by (simp add: js_antecedents_def)
    moreover have "neg_lit y \<noteq> null_literal" using nn[of "neg_lit y"] y by (simp add: neg_lit_less)
    ultimately show ?thesis using wlist_conflict_step[OF inv refl, of "J_TERNARY x (neg_lit l)" "neg_lit y" "[neg_lit x, l]"] n e d(12) ff
      by (simp add: insert_commute Let_def)
  next
    case ok
    have "sat_watch (lits s) (set (tr s)) (set (take ?q (tr s))) (W_TERNARY x y)"
      using ok vx vy P by (auto simp: sat_watch_def)
    from wlist_skip_step[OF inv this IH] ok show ?thesis
      by (cases "lit_value s x"; cases "lit_value s y"; simp add: Let_def)
  qed
qed


lemma removed_nth: "True \<notin> set (removed s) \<Longrightarrow> off < length (m_cls_allocator (cdb s)) \<Longrightarrow> \<not> c_removed (get_clause s off)"
  by (force simp: get_clause_def in_set_conv_nth)

lemma wlist_clause_full_step:
  assumes inv: "wlist_inv F n l kept (W_CLAUSE bl off # ws) s"
    and IH: "\<And>kept s. wlist_inv F n l kept ws s \<Longrightarrow> wlist_post F n ((wl s)[l := kept @ ws]) s (propagate_wlist u l kept ws s)"
  shows "wlist_post F n ((wl s)[l := kept @ W_CLAUSE bl off # ws]) s (propagate_wlist u l kept (W_CLAUSE bl off # ws) s)"
proof -
  note d = wlist_invD[OF inv]
  have w: "watch_ok F n (lits s) l (W_CLAUSE bl off)" using baseD(6)[OF d(1,4)] d(13) by simp
  have off: "off < length (lits s)" "3 < length (lits s ! off)" and bl: "bl \<in> set (lits s ! off)"
    and nl: "lits s ! off ! 0 = neg_lit l \<or> lits s ! off ! 1 = neg_lit l"
    using w unfolding watch_ok_def watched.case by blast+
  have gc: "c_lits (get_clause s off) = lits s ! off" using off(1) by (simp add: get_clause_def)
  have cok: "clause_ok F n (lits s ! off)" using baseD(4)[OF d(1) nth_mem[OF off(1)]] .
  have bl2: "bl < 2 * n" using cok bl by (simp add: clause_ok_def)
  show ?thesis
  proof (cases "lit_value s bl = l_true")
    case True
    then have "bl \<in> set (tr s)" using value_iff(1)[OF d(2) bl2] by (simp add: lit_value_def)
    then have "sat_watch (lits s) (set (tr s)) P (W_CLAUSE bl off)" for P
      unfolding sat_watch_def watched.case using bl by blast
    from wlist_skip_step[OF inv this IH] True show ?thesis by simp
  next
    case nbl: False
    show ?thesis
    proof (cases "lits s ! off ! 0 = neg_lit l")
      case False
      then have c1: "lits s ! off ! 1 = neg_lit l" using nl by blast
      have rem: "\<not> c_removed (get_clause s off)" using removed_nth[OF d(11)] off(1) by simp
      note st = wlist_clause_step[OF inv refl c1, of u, OF IH]
      have "propagate_wlist u l kept (W_CLAUSE bl off # ws) s =
        (if lit_value s (lits s ! off ! 0) = l_true then propagate_wlist u l (kept @ [W_CLAUSE (lits s ! off ! 0) off]) ws s
         else case find_watch s (lits s ! off) of
           Some i \<Rightarrow> let c' = (lits s ! off)[1 := lits s ! off ! i, i := neg_lit l]
             in propagate_wlist u l kept ws (push_watch (neg_lit (c' ! 1)) (W_CLAUSE (c' ! 0) off) (set_lits off c' s))
         | None \<Rightarrow> if lit_value s (lits s ! off ! 0) = l_false then
             Some (False, set_conflict (J_CLAUSE off) null_literal (set_wlist l (kept @ W_CLAUSE bl off # ws) (mark_used off s)))
           else propagate_wlist u l (kept @ [W_CLAUSE bl off]) ws
             (update_glue u off (assign_core (lits s ! off ! 0) (J_CLAUSE off) (mark_used off s))))"
        unfolding propagate_wlist.simps Let_def gc if_not_P[OF nbl] if_not_P[OF False] by (rule if_not_P) (use c1 rem in blast)
      with st show ?thesis by (rule ssubst[rotated])
    next
      case c0: True
      define c where "c = swap_lits 0 1 (lits s ! off)"
      define s1 where "s1 = set_lits off c s"
      have inv1: "wlist_inv F n l kept (W_CLAUSE bl off # ws) s1" unfolding s1_def c_def by (rule wlist_swap[OF inv off])
      note d1 = wlist_invD[OF inv1]
      have len: "0 < length (lits s ! off)" "1 < length (lits s ! off)" using off(2) by auto
      have c1: "c ! 1 = neg_lit l" using swap_lits_nth[OF len] c0 by (simp add: c_def)
      have ls1: "lits s1 = (lits s)[off := c]" unfolding s1_def by (rule set_lits_simps(3))
      have cl: "c = lits s1 ! off" using off(1) by (simp add: ls1)
      have off1: "off < length (m_cls_allocator (cdb s1))" using off(1) ls1 by (metis length_list_update length_map)
      have rem: "\<not> c_removed (get_clause s1 off)" by (rule removed_nth[OF d1(11) off1])
      note st = wlist_clause_step[OF inv1 cl c1, of u, OF IH]
      have eq: "propagate_wlist u l kept (W_CLAUSE bl off # ws) s =
        (if lit_value s1 (c ! 0) = l_true then propagate_wlist u l (kept @ [W_CLAUSE (c ! 0) off]) ws s1
         else case find_watch s1 c of
           Some i \<Rightarrow> let c' = c[1 := c ! i, i := neg_lit l]
             in propagate_wlist u l kept ws (push_watch (neg_lit (c' ! 1)) (W_CLAUSE (c' ! 0) off) (set_lits off c' s1))
         | None \<Rightarrow> if lit_value s1 (c ! 0) = l_false then
             Some (False, set_conflict (J_CLAUSE off) null_literal (set_wlist l (kept @ W_CLAUSE bl off # ws) (mark_used off s1)))
           else propagate_wlist u l (kept @ [W_CLAUSE bl off]) ws
             (update_glue u off (assign_core (c ! 0) (J_CLAUSE off) (mark_used off s1))))"
        unfolding propagate_wlist.simps Let_def gc if_not_P[OF nbl] if_P[OF c0] c_def[symmetric] s1_def[symmetric] by (rule if_not_P) (use c1 rem in blast)
      have set1: "set c = set (lits s ! off)" unfolding c_def by (rule swap_lits_props(1)[OF len])
      then have upd: "set c = map set (lits s) ! off" using off(1) by simp
      have "map set (lits s1) = (map set (lits s))[off := set c]" unfolding ls1 by (simp only: map_update)
      also have "\<dots> = map set (lits s)" unfolding upd by (rule list_update_id)
      finally have "progress ((wl s)[l := kept @ W_CLAUSE bl off # ws]) s ((wl s1)[l := kept @ W_CLAUSE bl off # ws]) s1"
        by (intro progress_same) (simp_all add: s1_def same_frame_ops(4))
      from wlist_post_trans[OF this st] show ?thesis unfolding eq .
    qed
  qed
qed

theorem propagate_wlist_correct:
  assumes "wlist_inv F n l kept rest s"
  shows "wlist_post F n ((wl s)[l := kept @ rest]) s (propagate_wlist u l kept rest s)"
  using assms
proof (induction rest arbitrary: kept s)
  case Nil
  have "progress ((wl s)[l := kept @ []]) s (wl (set_wlist l kept s)) (set_wlist l kept s)"
    by (rule progress_same) (simp_all add: same_frame_ops(1))
  then show ?case using wlist_done[OF Nil] by (auto intro!: wlist_postI)
next
  case (Cons w ws)
  show ?case
  proof (cases w)
    case (W_BINARY x b)
    show ?thesis unfolding W_BINARY by (rule wlist_binary_step[OF Cons.prems[unfolded W_BINARY] Cons.IH])
  next
    case (W_TERNARY x y)
    show ?thesis unfolding W_TERNARY by (rule wlist_ternary_step[OF Cons.prems[unfolded W_TERNARY] Cons.IH])
  next
    case (W_CLAUSE b off)
    show ?thesis unfolding W_CLAUSE by (rule wlist_clause_full_step[OF Cons.prems[unfolded W_CLAUSE] Cons.IH])
  next
    case (W_EXT i)
    note d = wlist_invD[OF Cons.prems]
    have "watch_ok F n (lits s) l w" using baseD(6)[OF d(1,4)] d(13) by simp
    then show ?thesis using W_EXT by (simp add: watch_ok_def)
  qed
qed


section \<open>Propagation\<close>

lemma qhead_fields:
  assumes "m_qhead a \<le> q" "q \<le> length (m_trail a)"
  shows "trail_ok n a \<Longrightarrow> trail_ok n (a\<lparr>m_qhead := q\<rparr>)" "base F n a ls W \<Longrightarrow> base F n (a\<lparr>m_qhead := q\<rparr>) ls W"
    "scopes_complete (a\<lparr>m_qhead := q\<rparr>) ls W = scopes_complete a ls W"
proof -
  have l: "level_at (a\<lparr>m_qhead := q\<rparr>) i = level_at a i" for i by (simp add: level_at_def)
  show t: "trail_ok n a \<Longrightarrow> trail_ok n (a\<lparr>m_qhead := q\<rparr>)" using assms by (auto simp: trail_ok_def l)
  have "reason_ok F ls (a\<lparr>m_qhead := q\<rparr>) i = reason_ok F ls a i" for i by (rule reason_ok_cong) (simp_all add: l)
  then show "base F n a ls W \<Longrightarrow> base F n (a\<lparr>m_qhead := q\<rparr>) ls W" using t by (simp add: base_def)
  show "scopes_complete (a\<lparr>m_qhead := q\<rparr>) ls W = scopes_complete a ls W" by (simp add: scopes_complete_def)
qed

lemma trail_length:
  assumes "trail_ok n a"
  shows "length (m_trail a) \<le> n"
proof -
  have "set (map lit_var (m_trail a)) \<subseteq> {..<n}" using trail_okD(6)[OF assms] by (auto simp: lit_var_less)
  then have "card (set (map lit_var (m_trail a))) \<le> n" using card_mono[of "{..<n}"] by fastforce
  then show ?thesis using distinct_card[OF trail_okD(4)[OF assms]] by simp
qed

lemma settledD:
  assumes "settled F n s"
  shows "base F n (asg s) (lits s) (wl s)" "trail_ok n (asg s)" "scopes_complete (asg s) (lits s) (wl s)"
    "True \<notin> set (removed s)" "inconsistent s \<Longrightarrow> conflict_ok F s" "\<not> inconsistent s \<Longrightarrow> head_complete (asg s) (lits s) (wl s)"
  using assms baseD(2) by (auto simp: settled_def)

text \<open>Taking the next literal of the trail.\<close>

lemma wlist_start:
  assumes s: "settled F n s" "\<not> inconsistent s" and q: "m_qhead (asg s) < length (tr s)"
    and l: "l = tr s ! m_qhead (asg s)" and s': "s' = s\<lparr>asg := (asg s)\<lparr>m_qhead := m_qhead (asg s) + 1\<rparr>\<rparr>"
  shows "wlist_inv F n l [] (get_wlist s l) s'" "progress (wl s) s (wl s) s'" "(wl s')[l := [] @ get_wlist s l] = wl s"
proof -
  note d = settledD[OF s(1)]
  have W: "(wl s)[l := wl s ! l] = wl s" by (rule list_update_id)
  then show "(wl s')[l := [] @ get_wlist s l] = wl s" by (simp add: s' get_wlist_def)
  have "l < 2 * n" using trail_okD(6)[OF d(2) nth_mem[OF q]] l by simp
  moreover have "base F n (asg s') (lits s') (wl s')" unfolding s' using qhead_fields(2)[OF _ _ d(1), of "m_qhead (asg s) + 1"] q by simp
  moreover have "scopes_complete (asg s') (lits s') (wl s')"
    unfolding s' using qhead_fields(3)[of "asg s" "m_qhead (asg s) + 1"] q d(3) by simp
  moreover have "complete_upto (lits s) (wl s) (tr s) (m_qhead (asg s)) (set (tr s))" using d(6)[OF s(2)] by (simp add: head_complete_def)
  ultimately show "wlist_inv F n l [] (get_wlist s l) s'"
    using d(4) s(2) l trail_okD(10)[OF d(2)] by (simp add: wlist_inv_def Let_def s' get_wlist_def inconsistent_def)
  show "progress (wl s) s (wl s) s'" using same_frame_ops(10) by (simp add: progress_def s')
qed

definition propagate_post :: "literal list set \<Rightarrow> nat \<Rightarrow> solver \<Rightarrow> (bool \<times> solver) option \<Rightarrow> bool" where
  "propagate_post F n s r \<longleftrightarrow>
     (\<exists>ok s'. r = Some (ok, s') \<and> settled F n s' \<and> inconsistent s' = (\<not> ok) \<and> progress (wl s) s (wl s') s'
        \<and> (ok \<longrightarrow> m_qhead (asg s') = length (tr s')))"

lemma propagate_postI:
  "settled F n s' \<Longrightarrow> inconsistent s' = (\<not> ok) \<Longrightarrow> progress (wl s) s (wl s') s' \<Longrightarrow> (ok \<Longrightarrow> m_qhead (asg s') = length (tr s'))
    \<Longrightarrow> propagate_post F n s (Some (ok, s'))"
  by (auto simp: propagate_post_def)

lemma propagate_loop_correct:
  assumes "settled F n s" "\<not> inconsistent s"
  shows "propagate_post F n s (propagate_loop u s)"
  using assms
proof (induction "n - m_qhead (asg s)" arbitrary: s rule: less_induct)
  case less
  note d = settledD[OF less.prems(1)]
  show ?case
  proof (cases "m_qhead (asg s) < length (tr s)")
    case False
    then have "m_qhead (asg s) = length (tr s)" using trail_okD(7)[OF d(2)] by simp
    then show ?thesis using less.prems False
      by (subst propagate_loop.simps) (auto intro!: propagate_postI progress_refl)
  next
    case True
    define l where "l = tr s ! m_qhead (asg s)"
    define s0 where "s0 = s\<lparr>asg := (asg s)\<lparr>m_qhead := m_qhead (asg s) + 1\<rparr>\<rparr>"
    note st = wlist_start[OF less.prems True l_def s0_def]
    from propagate_wlist_correct[OF st(1), of u] obtain ok s1 where
      r: "propagate_wlist u l [] (get_wlist s l) s0 = Some (ok, s1)" and s1: "settled F n s1" "inconsistent s1 = (\<not> ok)"
      and p: "progress (wl s) s0 (wl s1) s1"
      unfolding wlist_post_def st(3) by blast
    have p1: "progress (wl s) s (wl s1) s1" by (rule progress_trans[OF st(2) p])
    have eq: "propagate_loop u s = (if ok then propagate_loop u s1 else Some (False, s1))"
      using True r unfolding l_def s0_def by (subst propagate_loop.simps) simp
    show ?thesis
    proof (cases ok)
      case False
      then show ?thesis using eq s1 p1 by (auto simp: propagate_post_def)
    next
      case ok: True
      have "m_qhead (asg s0) \<le> m_qhead (asg s1)" using p by (simp add: progress_def)
      then have "n - m_qhead (asg s1) < n - m_qhead (asg s)" using True trail_length[OF d(2)] by (simp add: s0_def)
      then have "propagate_post F n s1 (propagate_loop u s1)" using less.hyps s1 ok by blast
      then show ?thesis using eq ok progress_trans[OF p1] unfolding propagate_post_def by fastforce
    qed
  qed
qed

theorem propagate_correct:
  assumes "settled F n s"
  shows "propagate_post F n s (propagate u s)"
proof (cases "inconsistent s")
  case True
  then show ?thesis using assms by (auto simp: propagate_def intro!: propagate_postI progress_refl)
next
  case False
  then show ?thesis using propagate_loop_correct[OF assms False] by (simp add: propagate_def)
qed

end
