(* ===== verification/Sat_Analyze.thy ===== *)
theory Sat_Analyze
  imports Sat_Propagate
begin

text \<open>
  Conflict analysis of the SAT solver: the activities stay within their bounds, and resolution of the
  conflict back to the first unique implication point ends with a lemma that the clauses entail and that
  is false but for its first literal below the conflict level.
\<close>

section \<open>Activities\<close>

text \<open>The queue holds variables, has room for all, and no sum of activities wraps.\<close>

definition act_ok :: "nat \<Rightarrow> sat_activity \<Rightarrow> bool" where
  "act_ok n q \<longleftrightarrow> sat_queue_inv q \<and> length (m_activity q) = n
     \<and> n \<le> length (m_value2indices (m_case_split_queue q))
     \<and> (\<forall>a \<in> set (m_activity q). unat a \<le> 16777216) \<and> unat (m_activity_inc q) \<le> 33554432"

lemma move_up_loop_length:
  "length (m_value2indices (snd (move_up_loop lt val i h))) = length (m_value2indices h)"
proof (induction lt val i h rule: move_up_loop.induct)
  case (1 lt val i h)
  show ?case
  proof (cases "parent i = 0 \<or> \<not> lt val (m_values h ! parent i)")
    case True
    then show ?thesis by (subst move_up_loop.simps) (simp add: Let_def)
  next
    case False
    then show ?thesis using 1 by (subst move_up_loop.simps) (simp add: Let_def)
  qed
qed

lemma decreased_length: "length (m_value2indices (decreased lt v h)) = length (m_value2indices h)"
  using move_up_loop_length[of lt "m_values h ! index_of h v" "index_of h v" h]
  by (auto simp: decreased_def move_up_def Let_def simp del: move_up_loop.simps split: prod.splits)

lemma activity_increased_length:
  "length (m_value2indices (activity_increased_eh act v q)) = length (m_value2indices q)"
  by (simp add: activity_increased_eh_def decreased_length)

lemma activity_limit: "(act > push_bit 24 (1 :: 32 word)) = (unat act > 16777216)"
proof -
  have eq: "push_bit 24 (1 :: 32 word) = 16777216" unfolding push_bit_eq_mult mult_1 by simp
  show ?thesis unfolding eq by (simp add: word_less_nat_alt)
qed

lemma inc_activity_ok:
  assumes q: "act_ok n q" and v: "v < n"
  shows "act_ok n (inc_activity (int v) q)" "unat (m_activity_inc (inc_activity (int v) q)) \<le> 16777216"
    "elems (m_case_split_queue (inc_activity (int v) q)) = elems (m_case_split_queue q)"
proof -
  let ?act = "m_activity q ! v + m_activity_inc q" and ?acts = "m_activity q"
  define q1 where "q1 = q\<lparr>m_activity := ?acts[v := ?act],
    m_case_split_queue := activity_increased_eh (?acts[v := ?act]) (int v) (m_case_split_queue q)\<rparr>"
  have len: "length ?acts = n" and inc: "unat (m_activity_inc q) \<le> 33554432" and a: "unat (?acts ! v) \<le> 16777216"
    using q v by (auto simp: act_ok_def)
  have sum: "unat ?act = unat (?acts ! v) + unat (m_activity_inc q)"
    using a inc by (simp add: unat_word_ariths)
  have eq: "inc_activity (int v) q = (if unat ?act > 16777216 then rescale_activity q1 else q1)"
    unfolding inc_activity_def Let_def activity_limit q1_def nat_int by (rule refl)
  have c: "sat_queue_inv (inc_activity (int v) q)"
    "elems (m_case_split_queue (inc_activity (int v) q)) = elems (m_case_split_queue q)"
    using inc_activity_correct[of q "int v"] q v len a inc by (simp_all add: act_ok_def)
  then show "elems (m_case_split_queue (inc_activity (int v) q)) = elems (m_case_split_queue q)" by blast
  have q1: "length (m_activity q1) = n" "m_activity_inc q1 = m_activity_inc q"
    "length (m_value2indices (m_case_split_queue q1)) = length (m_value2indices (m_case_split_queue q))"
    by (simp_all add: q1_def len activity_increased_length)
  have bound: "unat b \<le> 50331648" if "b \<in> set (m_activity q1)" for b
    using that q a inc sum set_update_subset_insert[of ?acts v ?act] by (fastforce simp: q1_def act_ok_def)
  have small: "unat b \<le> 16777216" if "b \<in> set (m_activity q1)" "unat ?act \<le> 16777216" for b
    using that q set_update_subset_insert[of ?acts v ?act] by (fastforce simp: q1_def act_ok_def)
  have dr: "unat (drop_bit 14 b) \<le> 16777216" if "unat b \<le> 50331648" for b :: "32 word"
    using that by (subst unat_drop_bit_eq) (simp add: drop_bit_eq_div)
  have "unat (drop_bit 14 (m_activity_inc q)) \<le> 33554432" using dr[of "m_activity_inc q"] inc by simp
  then show "act_ok n (inc_activity (int v) q)"
    using c(1) q q1 bound small dr inc unfolding act_ok_def eq
    by (auto simp: rescale_activity_def)
  show "unat (m_activity_inc (inc_activity (int v) q)) \<le> 16777216"
    using sum inc dr[of "m_activity_inc q"] unfolding eq by (auto simp: rescale_activity_def q1(2))
qed

lemma decay_activity_ok:
  assumes "act_ok n q" "unat (m_activity_inc q) \<le> 16777216"
  shows "act_ok n (decay_activity q)" "m_case_split_queue (decay_activity q) = m_case_split_queue q"
proof -
  have "unat (m_activity_inc q * 11) = unat (m_activity_inc q) * 11" using assms(2) by (simp add: unat_word_ariths)
  then have "unat (m_activity_inc q * 11 div 10) \<le> 33554432" using assms(2) by (simp add: unat_div)
  then show "act_ok n (decay_activity q)" using assms(1) by (auto simp: act_ok_def decay_activity_def sat_queue_inv_def)
  show "m_case_split_queue (decay_activity q) = m_case_split_queue q" by (simp add: decay_activity_def)
qed

section \<open>Marks\<close>

definition marked_lits :: "solver \<Rightarrow> literal set" where
  "marked_lits s = {x \<in> set (tr s). is_marked s (lit_var x)}"

definition high_lits :: "solver \<Rightarrow> literal set" where
  "high_lits s = {x \<in> marked_lits s. lit_lvl s x = scope_lvl s}"

definition low_lits :: "solver \<Rightarrow> literal set" where
  "low_lits s = {x \<in> marked_lits s. lit_lvl s x \<noteq> scope_lvl s}"

definition zero_lits :: "solver \<Rightarrow> literal set" where
  "zero_lits s = {x \<in> set (tr s). lit_lvl s x = 0}"

text \<open>The count is that of the marked literals of the conflict level; the lemma, but for its first literal,
  consists of the negations of the others.\<close>

definition marks_ok :: "nat \<Rightarrow> solver \<Rightarrow> nat \<Rightarrow> bool" where
  "marks_ok n s num \<longleftrightarrow>
     trail_ok n (asg s) \<and> length (m_mark (ana s)) = n
     \<and> (\<forall>v < n. is_marked s v \<longrightarrow> 0 < lvl s v \<and> (\<exists>x \<in> set (tr s). lit_var x = v))
     \<and> num = card (high_lits s) \<and> m_lemma (ana s) \<noteq> [] \<and> distinct (tl (m_lemma (ana s)))
     \<and> set (tl (m_lemma (ana s))) = neg_lit ` low_lits s
     \<and> act_ok n (queue s) \<and> (marked_lits s \<noteq> {} \<longrightarrow> unat (m_activity_inc (queue s)) \<le> 16777216)"

definition same_core :: "solver \<Rightarrow> solver \<Rightarrow> bool" where
  "same_core s s' \<longleftrightarrow> asg s' = asg s \<and> cdb s' = cdb s \<and> heu s' = heu s \<and> m_config s' = m_config s
     \<and> m_unmark (ana s') = m_unmark (ana s) \<and> m_lit_mark (ana s') = m_lit_mark (ana s)
     \<and> elems (m_case_split_queue (queue s')) = elems (m_case_split_queue (queue s))"

lemma same_core_refl [simp]: "same_core s s"
  by (simp add: same_core_def)

lemma same_core_trans [trans]: "same_core s s' \<Longrightarrow> same_core s' s'' \<Longrightarrow> same_core s s''"
  by (simp add: same_core_def)

lemma same_coreD:
  assumes "same_core s s'"
  shows "lit_lvl s' x = lit_lvl s x" "lvl s' v = lvl s v" "scope_lvl s' = scope_lvl s" "tr s' = tr s" "asg s' = asg s"
    "cdb s' = cdb s" "zero_lits s' = zero_lits s" "get_clause s' off = get_clause s off"
    "js_antecedents s' x j = js_antecedents s x j"
proof -
  show "lit_lvl s' x = lit_lvl s x" for x using assms by (simp add: same_core_def lit_lvl_def)
  then show "zero_lits s' = zero_lits s" using assms by (simp add: same_core_def zero_lits_def)
  show g: "get_clause s' off = get_clause s off" for off using assms by (simp add: same_core_def get_clause_def)
  show "js_antecedents s' x j = js_antecedents s x j" unfolding js_antecedents_def g ..
qed (use assms in \<open>simp_all add: same_core_def lvl_def scope_lvl_def\<close>)

lemma set_mark_simps [simp]:
  "asg (set_mark v b s) = asg s" "cdb (set_mark v b s) = cdb s" "queue (set_mark v b s) = queue s"
  "m_lemma (ana (set_mark v b s)) = m_lemma (ana s)" "m_unmark (ana (set_mark v b s)) = m_unmark (ana s)"
  "m_mark (ana (set_mark v b s)) = (m_mark (ana s))[v := b]" "heu (set_mark v b s) = heu s"
  "m_lit_mark (ana (set_mark v b s)) = m_lit_mark (ana s)" "m_lvl_set (ana (set_mark v b s)) = m_lvl_set (ana s)"
  "m_config (set_mark v b s) = m_config s" "same_core s (set_mark v b s)"
  by (simp_all add: set_mark_def same_core_def)

lemma set_lemma_simps [simp]:
  "asg (set_lemma ls s) = asg s" "cdb (set_lemma ls s) = cdb s" "queue (set_lemma ls s) = queue s"
  "m_lemma (ana (set_lemma ls s)) = ls" "m_unmark (ana (set_lemma ls s)) = m_unmark (ana s)"
  "m_mark (ana (set_lemma ls s)) = m_mark (ana s)" "heu (set_lemma ls s) = heu s"
  "m_lit_mark (ana (set_lemma ls s)) = m_lit_mark (ana s)" "m_config (set_lemma ls s) = m_config s" "same_core s (set_lemma ls s)"
  by (simp_all add: set_lemma_def same_core_def)

text \<open>Marking the variable of a true literal, with its activity raised, is the first part of \<^verbatim>\<open>process_antecedent\<close>.\<close>

lemma process_antecedent_eq:
  "process_antecedent x (s, num) =
     (if is_marked s (lit_var x) \<or> lit_lvl s x = 0 then (s, num)
      else let s2 = (set_mark (lit_var x) True s)\<lparr>queue := inc_activity (int (lit_var x)) (queue s)\<rparr>
        in if lit_lvl s x = scope_lvl s then (s2, num + 1)
           else (set_lemma (m_lemma (ana s) @ [neg_lit x]) s2, num))"
  by (simp add: process_antecedent_def Let_def lvl_def lit_lvl_def)

lemma process_antecedent_ok:
  assumes m: "marks_ok n s num" and x: "x \<in> set (tr s)" and p: "process_antecedent x (s, num) = (s', num')"
  shows "marks_ok n s' num'" "same_core s s'" "marked_lits s' = marked_lits s \<union> ({x} - zero_lits s)"
    "hd (m_lemma (ana s')) = hd (m_lemma (ana s))"
proof -
  let ?v = "lit_var x"
  have t: "trail_ok n (asg s)" and len: "length (m_mark (ana s)) = n" and ne: "m_lemma (ana s) \<noteq> []"
    and num: "num = card (high_lits s)" and act: "act_ok n (queue s)"
    using m by (simp_all add: marks_ok_def)
  have v: "?v < n" using trail_okD(6)[OF t x] by (simp add: lit_var_less)
  have "marks_ok n s' num' \<and> same_core s s' \<and> marked_lits s' = marked_lits s \<union> ({x} - zero_lits s)
    \<and> hd (m_lemma (ana s')) = hd (m_lemma (ana s))"
  proof (cases "is_marked s ?v \<or> lit_lvl s x = 0")
    case True
    then have "s' = s" "num' = num" using p by (simp_all add: process_antecedent_eq)
    moreover have "marked_lits s = marked_lits s \<union> ({x} - zero_lits s)"
      using True x by (auto simp: marked_lits_def zero_lits_def)
    ultimately show ?thesis using m by simp
  next
    case False
    define s2 where "s2 = (set_mark ?v True s)\<lparr>queue := inc_activity (int ?v) (queue s)\<rparr>"
    have core2: "same_core s s2" using inc_activity_ok(3)[OF act v] by (simp add: s2_def same_core_def)
    have s': "s' = (if lit_lvl s x = scope_lvl s then s2 else set_lemma (m_lemma (ana s) @ [neg_lit x]) s2)"
      "num' = (if lit_lvl s x = scope_lvl s then num + 1 else num)"
      using p False by (simp_all add: process_antecedent_eq Let_def s2_def split: if_splits)
    have "same_core s2 s'" using s'(1) by simp
    then have core: "same_core s s'" by (rule same_core_trans[OF core2])
    note e = same_coreD[OF core]
    have mk: "m_mark (ana s') = (m_mark (ana s))[?v := True]" using s'(1) by (simp add: s2_def)
    have mk': "is_marked s' w \<longleftrightarrow> is_marked s w \<or> w = ?v" for w
      using v len by (simp add: is_marked_def mk nth_list_update)
    have sv: "y = x" if "y \<in> set (tr s)" "lit_var y = ?v" for y using same_var[OF t that(1) x that(2)] .
    have ml: "marked_lits s' = Set.insert x (marked_lits s)" using x sv by (auto simp: marked_lits_def mk' e)
    have xn: "x \<notin> marked_lits s" using False by (simp add: marked_lits_def)
    have hl: "high_lits s' = (if lit_lvl s x = scope_lvl s then Set.insert x (high_lits s) else high_lits s)"
      "low_lits s' = (if lit_lvl s x = scope_lvl s then low_lits s else Set.insert x (low_lits s))"
      unfolding high_lits_def low_lits_def ml e by auto
    have fin: "finite (high_lits s)" unfolding high_lits_def marked_lits_def by simp
    have lem: "m_lemma (ana s') = (if lit_lvl s x = scope_lvl s then m_lemma (ana s) else m_lemma (ana s) @ [neg_lit x])"
      using s'(1) by (simp add: s2_def)
    have dist: "distinct (tl (m_lemma (ana s)))" and set: "set (tl (m_lemma (ana s))) = neg_lit ` low_lits s"
      and xl: "x \<notin> low_lits s" using m xn by (simp_all add: marks_ok_def low_lits_def)
    have "num' = card (high_lits s')" using num fin xn s'(2) by (simp add: hl) (simp add: high_lits_def)
    moreover have "distinct (tl (m_lemma (ana s')))" "set (tl (m_lemma (ana s'))) = neg_lit ` low_lits s'"
      "m_lemma (ana s') \<noteq> []" "hd (m_lemma (ana s')) = hd (m_lemma (ana s))"
      using dist set ne xl unfolding lem hl(2) by (auto simp: image_iff)
    moreover have "0 < lvl s' w \<and> (\<exists>y \<in> set (tr s'). lit_var y = w)" if "w < n" "is_marked s' w" for w
      using that m x False unfolding mk' e by (cases "w = ?v") (auto simp: marks_ok_def lvl_def lit_lvl_def)
    moreover have "queue s' = inc_activity (int ?v) (queue s)" using s'(1) by (simp add: s2_def)
    then have "act_ok n (queue s')" "unat (m_activity_inc (queue s')) \<le> 16777216"
      using inc_activity_ok(1,2)[OF act v] by simp_all
    moreover have "{x} - zero_lits s = {x}" using False by (auto simp: zero_lits_def)
    ultimately show ?thesis using t len core ml e(4,5) unfolding marks_ok_def by (simp add: mk)
  qed
  then show "marks_ok n s' num'" "same_core s s'" "marked_lits s' = marked_lits s \<union> ({x} - zero_lits s)"
    "hd (m_lemma (ana s')) = hd (m_lemma (ana s))" by blast+
qed

lemma process_antecedents_ok:
  assumes "marks_ok n s num" "set as \<subseteq> set (tr s)" "fold process_antecedent as (s, num) = (s', num')"
  shows "marks_ok n s' num' \<and> same_core s s' \<and> marked_lits s' = marked_lits s \<union> (set as - zero_lits s)
    \<and> hd (m_lemma (ana s')) = hd (m_lemma (ana s))"
  using assms
proof (induction as arbitrary: s num)
  case (Cons x xs)
  obtain s1 n1 where p: "process_antecedent x (s, num) = (s1, n1)" by fastforce
  have "x \<in> set (tr s)" using Cons.prems(2) by simp
  note ok = process_antecedent_ok[OF Cons.prems(1) this p]
  note e = same_coreD[OF ok(2)]
  have "marks_ok n s' num' \<and> same_core s1 s' \<and> marked_lits s' = marked_lits s1 \<union> (set xs - zero_lits s1)
    \<and> hd (m_lemma (ana s')) = hd (m_lemma (ana s1))"
    by (rule Cons.IH[OF ok(1)]) (use Cons.prems(2,3) e(4) p in auto)
  then show ?case using same_core_trans[OF ok(2)] ok(3,4) e(7) by auto
qed auto

section \<open>Levels along the trail\<close>

lemma lit_lvl_trail: "trail_ok n (asg s) \<Longrightarrow> i < length (tr s) \<Longrightarrow> lit_lvl s (tr s ! i) = level_at (asg s) i"
  by (simp add: lit_lvl_def trail_okD(11))

lemma level_le_scope: "trail_ok n a \<Longrightarrow> level_at a i \<le> m_scope_lvl a"
  using level_at_le[of a i] trail_okD(8) by simp

lemma high_iff:
  assumes t: "trail_ok n (asg s)" and k: "0 < scope_lvl s" and i: "i < length (tr s)"
  shows "lit_lvl s (tr s ! i) = scope_lvl s \<longleftrightarrow> m_trail_lim (last (m_scopes (asg s))) \<le> i"
proof -
  have len: "length (m_scopes (asg s)) = scope_lvl s" using trail_okD(8)[OF t] by (simp add: scope_lvl_def)
  then have l: "last (m_scopes (asg s)) = m_scopes (asg s) ! (scope_lvl s - 1)" using k by (subst last_conv_nth) auto
  have "level_at (asg s) i \<le> scope_lvl s" using level_at_le[of "asg s" i] len by simp
  then have "level_at (asg s) i = scope_lvl s \<longleftrightarrow> scope_lvl s - 1 < level_at (asg s) i" using k by linarith
  also have "\<dots> \<longleftrightarrow> m_trail_lim (m_scopes (asg s) ! (scope_lvl s - 1)) \<le> i"
    by (rule level_at_iff[OF trail_okD(9)[OF t]]) (use len k in simp)
  finally show ?thesis using l by (simp add: lit_lvl_trail[OF t i])
qed

text \<open>The antecedents of a propagated literal precede it and imply it.\<close>

lemma reason_antecedents:
  assumes b: "base F n (asg s) (lits s) (wl s)" and i: "i < length (tr s)" and k: "0 < level_at (asg s) i"
    and d: "m_justification (asg s) ! lit_var x \<noteq> J_NONE \<or> i \<noteq> m_trail_lim (m_scopes (asg s) ! (level_at (asg s) i - 1))"
    and x: "x = tr s ! i"
  shows "\<exists>as. js_antecedents s x (m_justification (asg s) ! lit_var x) = Some as
    \<and> set as \<subseteq> set (take i (tr s)) \<and> entails F (Set.insert x (neg_lit ` set as))"
proof -
  note t = baseD(2)[OF b]
  have r: "reason_ok F (lits s) (asg s) i" by (rule baseD(3)[OF b i])
  have nn: "x \<noteq> null_literal" using not_null[OF trail_okD(6)[OF t] baseD(1)[OF b]] i x by simp
  show ?thesis
  proof (cases "m_justification (asg s) ! lit_var x")
    case J_NONE
    then show ?thesis using r k d x by (simp add: reason_ok_def Let_def)
  next
    case (J_BINARY y)
    then show ?thesis using r k x by (simp add: reason_ok_def Let_def js_antecedents_def)
  next
    case (J_TERNARY y z)
    then show ?thesis using r k x by (simp add: reason_ok_def Let_def js_antecedents_def)
  next
    case (J_CLAUSE off)
    let ?c = "lits s ! off"
    have off: "off < length (lits s)" "?c ! 0 = x \<or> ?c ! 1 = x" and T: "\<forall>y \<in> set ?c - {x}. neg_lit y \<in> set (take i (tr s))"
      using r k J_CLAUSE x unfolding reason_ok_def Let_def by auto
    have gc: "c_lits (get_clause s off) = ?c" using off(1) by (simp add: get_clause_def)
    have ok: "clause_ok F n ?c" by (rule baseD(4)[OF b nth_mem[OF off(1)]])
    then have dc: "distinct ?c" and len: "3 \<le> length ?c" and e: "entails F (set ?c)"
      by (auto simp: clause_ok_def distinct_map)
    obtain c0 c1 cs where c: "?c = c0 # c1 # cs" using len by (metis Suc_le_length_iff numeral_3_eq_3)
    define as where "as = (if c0 = x then map neg_lit (c1 # cs) else neg_lit c0 # map neg_lit cs)"
    have "js_antecedents s x (J_CLAUSE off) = Some as"
      using nn by (simp add: js_antecedents_def gc c as_def)
    moreover have rest: "set as = neg_lit ` (set ?c - {x})" using dc off(2) by (auto simp: as_def c)
    moreover have "neg_lit ` neg_lit ` (set ?c - {x}) = set ?c - {x}" by (simp add: image_image)
    then have "entails F (Set.insert x (neg_lit ` set as))"
      unfolding rest by (simp, intro entails_mono[OF e]) blast
    ultimately show ?thesis using T J_CLAUSE by auto
  next
    case (J_EXT y)
    then show ?thesis using r k x by (simp add: reason_ok_def Let_def split: if_splits)
  qed
qed

section \<open>Resolution up to the first unique implication point\<close>

lemma find_marked_ok:
  assumes "idx < length (tr s)" "j \<le> idx" "is_marked s (lit_var (tr s ! j))"
  shows "\<exists>i \<le> idx. find_marked s idx = Some i \<and> is_marked s (lit_var (tr s ! i))
    \<and> (\<forall>j. i < j \<longrightarrow> j \<le> idx \<longrightarrow> \<not> is_marked s (lit_var (tr s ! j)))"
  using assms(1,2)
proof (induction idx)
  case 0
  then show ?case using assms(3) by (subst find_marked.simps) auto
next
  case (Suc idx)
  show ?case
  proof (cases "is_marked s (lit_var (tr s ! Suc idx))")
    case True
    then show ?thesis using Suc.prems by (subst find_marked.simps) auto
  next
    case False
    then have "j \<le> idx" using assms(3) Suc.prems(2) le_SucE by blast
    then obtain i where i: "i \<le> idx" "find_marked s idx = Some i" "is_marked s (lit_var (tr s ! i))"
      "\<forall>j. i < j \<longrightarrow> j \<le> idx \<longrightarrow> \<not> is_marked s (lit_var (tr s ! j))" using Suc by auto
    moreover have "find_marked s (Suc idx) = find_marked s idx" using False Suc.prems(1) by (subst find_marked.simps) simp
    ultimately show ?thesis using False by (intro exI[of _ i]) (auto elim: le_SucE)
  qed
qed

lemma unmark_ok:
  assumes m: "marks_ok n s num" and x: "x \<in> high_lits s" and s': "s' = set_mark (lit_var x) False s"
  shows "marks_ok n s' (num - 1)" "marked_lits s' = marked_lits s - {x}"
    "high_lits s' = high_lits s - {x}" "unat (m_activity_inc (queue s')) \<le> 16777216"
proof -
  have core: "same_core s s'" by (simp add: s')
  note e = same_coreD[OF core]
  have t: "trail_ok n (asg s)" and len: "length (m_mark (ana s)) = n" and inc: "unat (m_activity_inc (queue s)) \<le> 16777216"
    using m x by (auto simp: marks_ok_def high_lits_def)
  have xt: "x \<in> set (tr s)" and k: "lit_lvl s x = scope_lvl s" using x by (auto simp: high_lits_def marked_lits_def)
  have v: "lit_var x < n" using trail_okD(6)[OF t xt] by (simp add: lit_var_less)
  have mk: "is_marked s' w \<longleftrightarrow> is_marked s w \<and> w \<noteq> lit_var x" for w
    using v len by (simp add: is_marked_def s' nth_list_update)
  show ml: "marked_lits s' = marked_lits s - {x}"
    using same_var[OF t _ xt] by (auto simp: marked_lits_def mk e)
  show hl: "high_lits s' = high_lits s - {x}" by (auto simp: high_lits_def ml e)
  have ll: "low_lits s' = low_lits s" using k by (auto simp: low_lits_def ml e)
  show inc': "unat (m_activity_inc (queue s')) \<le> 16777216" using inc by (simp add: s')
  have "num - 1 = card (high_lits s')" using m x by (simp add: hl marks_ok_def)
  then show "marks_ok n s' (num - 1)" using m mk ll inc' len unfolding marks_ok_def by (auto simp: s' e lvl_def)
qed

text \<open>What is still to be resolved: the literals \<open>P\<close>, to be marked, and the marked ones.\<close>

definition resolving :: "literal list set \<Rightarrow> nat \<Rightarrow> solver \<Rightarrow> literal set \<Rightarrow> nat \<Rightarrow> bool" where
  "resolving F idx s P num \<longleftrightarrow>
     P \<subseteq> set (tr s) \<and> idx < length (tr s)
     \<and> (\<forall>j < length (tr s). tr s ! j \<in> high_lits s \<union> P \<longrightarrow> j \<le> idx)
     \<and> (\<exists>x \<in> high_lits s \<union> P. lit_lvl s x = scope_lvl s)
     \<and> entails F (neg_lit ` (P \<union> marked_lits s \<union> zero_lits s))"

text \<open>One round: the antecedents are marked, and the last marked literal is of the conflict level.\<close>

lemma resolve_round:
  assumes t: "trail_ok n (asg s)" and k: "0 < scope_lvl s" and m: "marks_ok n s num"
    and r: "resolving F idx s (set as) num" and f: "fold process_antecedent as (s, num) = (s1, n1)"
  shows "\<exists>i \<le> idx. find_marked s1 idx = Some i \<and> tr s ! i \<in> high_lits s1 \<and> marks_ok n s1 n1 \<and> same_core s s1 \<and> 0 < n1
    \<and> (\<forall>j < length (tr s). tr s ! j \<in> high_lits s1 \<longrightarrow> j \<le> i)
    \<and> entails F (neg_lit ` (marked_lits s1 \<union> zero_lits s)) \<and> hd (m_lemma (ana s1)) = hd (m_lemma (ana s))"
proof -
  have as: "set as \<subseteq> set (tr s)" and idx: "idx < length (tr s)"
    and le: "\<And>j. j < length (tr s) \<Longrightarrow> tr s ! j \<in> high_lits s \<union> set as \<Longrightarrow> j \<le> idx"
    and ex: "\<exists>x \<in> high_lits s \<union> set as. lit_lvl s x = scope_lvl s"
    and ent: "entails F (neg_lit ` (set as \<union> marked_lits s \<union> zero_lits s))"
    using r unfolding resolving_def by blast+
  have ok: "marks_ok n s1 n1" and core: "same_core s s1" and ml: "marked_lits s1 = marked_lits s \<union> (set as - zero_lits s)"
    and hd: "hd (m_lemma (ana s1)) = hd (m_lemma (ana s))"
    using process_antecedents_ok[OF m as f] by blast+
  note e = same_coreD[OF core]
  have hl: "high_lits s1 = high_lits s \<union> {x \<in> set as. lit_lvl s x = scope_lvl s}"
    using k by (auto simp: high_lits_def ml e zero_lits_def)
  have "high_lits s1 \<noteq> {}" using ex by (auto simp: hl)
  then obtain y where y: "y \<in> high_lits s1" by blast
  have "finite (high_lits s1)" unfolding high_lits_def marked_lits_def by simp
  then have n1: "0 < n1" using ok y by (auto simp: marks_ok_def card_gt_0_iff)
  have "y \<in> set (tr s)" using y e(4) by (auto simp: high_lits_def marked_lits_def)
  then obtain j where j: "j < length (tr s)" "y = tr s ! j" by (auto simp: in_set_conv_nth)
  have jle: "j \<le> idx" using le[OF j(1)] y j(2) hl by auto
  have mj: "is_marked s1 (lit_var (tr s1 ! j))" using y j(2) e(4) by (simp add: high_lits_def marked_lits_def)
  obtain i where i: "i \<le> idx" "find_marked s1 idx = Some i" "is_marked s1 (lit_var (tr s1 ! i))"
    and above: "\<forall>j. i < j \<longrightarrow> j \<le> idx \<longrightarrow> \<not> is_marked s1 (lit_var (tr s1 ! j))"
    using find_marked_ok[of idx s1 j] idx jle mj e(4) by auto
  have il: "i < length (tr s)" using i(1) idx by simp
  have ji: "j \<le> i" using above jle mj by (meson not_le_imp_less)
  have "lit_lvl s (tr s ! j) = scope_lvl s" using y j(2) by (simp add: high_lits_def e)
  then have "lit_lvl s (tr s ! i) = scope_lvl s" using high_iff[OF t k j(1)] high_iff[OF t k il] ji by simp
  then have hi: "tr s ! i \<in> high_lits s1" using i(3) il by (simp add: high_lits_def marked_lits_def e)
  have max: "j' \<le> i" if "j' < length (tr s)" "tr s ! j' \<in> high_lits s1" for j'
  proof -
    have "j' \<le> idx" using le[OF that(1)] that(2) hl by auto
    moreover have "is_marked s1 (lit_var (tr s1 ! j'))" using that(2) e(4) by (simp add: high_lits_def marked_lits_def)
    ultimately show ?thesis using above by (meson not_le_imp_less)
  qed
  have "entails F (neg_lit ` (marked_lits s1 \<union> zero_lits s))"
    by (rule entails_mono[OF ent]) (auto simp: ml)
  then show ?thesis using i(1,2) hi ok core n1 max hd by blast
qed

lemma resolve_loop_ok:
  assumes "base F n (asg s) (lits s) (wl s)" "0 < scope_lvl s" "marks_ok n s num"
    and "js_antecedents s consequent js = Some as" "resolving F idx s (set as) num"
  shows "\<exists>uip s'. resolve_loop consequent js idx num s = Some (uip, s') \<and> same_core s s' \<and> marks_ok n s' 0
    \<and> uip \<in> set (tr s) \<and> lit_lvl s uip = scope_lvl s \<and> entails F (neg_lit ` (Set.insert uip (marked_lits s' \<union> zero_lits s)))
    \<and> unat (m_activity_inc (queue s')) \<le> 16777216 \<and> hd (m_lemma (ana s')) = hd (m_lemma (ana s))"
  using assms
proof (induction idx arbitrary: consequent js num s as rule: less_induct)
  case (less idx)
  note b = less.prems(1) and k = less.prems(2) and as = less.prems(4)
  note t = baseD(2)[OF b]
  obtain s1 n1 where f: "fold process_antecedent as (s, num) = (s1, n1)" by fastforce
  from resolve_round[OF t k less.prems(3,5) f] obtain i where i: "i \<le> idx" "find_marked s1 idx = Some i"
    and hi: "tr s ! i \<in> high_lits s1" and m1: "marks_ok n s1 n1" and core: "same_core s s1" and n1: "0 < n1"
    and max: "\<forall>j < length (tr s). tr s ! j \<in> high_lits s1 \<longrightarrow> j \<le> i"
    and ent: "entails F (neg_lit ` (marked_lits s1 \<union> zero_lits s))"
    and hd1: "hd (m_lemma (ana s1)) = hd (m_lemma (ana s))"
    by blast
  note e = same_coreD[OF core]
  define c1 where "c1 = tr s ! i"
  define s2 where "s2 = set_mark (lit_var c1) False s1"
  note u = unmark_ok[OF m1 hi[folded c1_def] s2_def]
  have il: "i < length (tr s)" using i(1) less.prems(5) by (simp add: resolving_def)
  have c1: "c1 \<in> set (tr s)" "lit_lvl s c1 = scope_lvl s" using hi il e by (simp_all add: c1_def high_lits_def)
  have core2: "same_core s s2" by (rule same_core_trans[OF core]) (simp add: s2_def)
  note e2 = same_coreD[OF core2]
  have hd2: "hd (m_lemma (ana s2)) = hd (m_lemma (ana s))" using hd1 by (simp add: s2_def)
  have ins: "Set.insert c1 (marked_lits s2 \<union> zero_lits s) = marked_lits s1 \<union> zero_lits s"
    using u(2) hi by (auto simp: c1_def high_lits_def)
  let ?js = "m_justification (asg s) ! lit_var c1"
  have step: "resolve_loop consequent js idx num s =
    (if n1 - 1 > 0 then resolve_loop c1 ?js (if i = 0 then uint_max else i - 1) (n1 - 1) s2 else Some (c1, s2))"
    using n1 by (subst resolve_loop.simps) (simp add: as f i(2) e c1_def s2_def Let_def)
  show ?case
  proof (cases "n1 - 1 > 0")
    case False
    then have "n1 - 1 = 0" by simp
    then have "marks_ok n s2 0" using u(1) by simp
    moreover have "entails F (neg_lit ` (Set.insert c1 (marked_lits s2 \<union> zero_lits s)))" using ent by (simp only: ins)
    moreover have "resolve_loop consequent js idx num s = Some (c1, s2)" using step False by simp
    ultimately show ?thesis using core2 c1 u(4) hd2 by blast
  next
    case True
    have fin: "finite (high_lits s2)" unfolding high_lits_def marked_lits_def by simp
    have "card (high_lits s2) = n1 - 1" using u(1) by (simp add: marks_ok_def)
    then obtain y where y: "y \<in> high_lits s2" using True by (metis card.empty equals0I less_numeral_extra(3))
    have "y \<in> set (tr s)" using y e2 by (auto simp: high_lits_def marked_lits_def)
    then obtain j where j: "j < length (tr s)" "y = tr s ! j" by (auto simp: in_set_conv_nth)
    have below: "j' < i" if "j' < length (tr s)" "tr s ! j' \<in> high_lits s2" for j'
      using that max u(3) nth_eq_iff_index_eq[OF trail_okD(5)[OF t] that(1) il] by (auto simp: c1_def le_less)
    have ji: "j < i" using below j y by blast
    have lim: "m_trail_lim (last (m_scopes (asg s))) \<le> j"
      using high_iff[OF t k j(1)] y j(2) e2 by (simp add: high_lits_def)
    have lev: "level_at (asg s) i = scope_lvl s" using c1(2) lit_lvl_trail[OF t il] by (simp add: c1_def)
    have "m_scopes (asg s) ! (scope_lvl s - 1) = last (m_scopes (asg s))"
      using trail_okD(8)[OF t] k by (subst last_conv_nth) (auto simp: scope_lvl_def)
    then have "i \<noteq> m_trail_lim (m_scopes (asg s) ! (level_at (asg s) i - 1))" using lev lim ji by simp
    from reason_antecedents[OF b il _ disjI2[OF this] c1_def] obtain as1 where
      as1: "js_antecedents s c1 ?js = Some as1" "set as1 \<subseteq> set (take i (tr s))"
        "entails F (Set.insert c1 (neg_lit ` set as1))" using lev k by auto
    have as1t: "set as1 \<subseteq> set (tr s)" using as1(2) set_take_subset by fast
    have as1i: "j' < i" if "j' < length (tr s)" "tr s ! j' \<in> set as1" for j'
    proof -
      have "tr s ! j' \<in> set (take i (tr s))" using as1(2) that(2) by blast
      then obtain q where "q < i" "q < length (tr s)" "tr s ! q = tr s ! j'" by (force simp: in_set_conv_nth)
      then show ?thesis using nth_eq_iff_index_eq[OF trail_okD(5)[OF t]] that(1) by metis
    qed
    have "entails F (neg_lit ` set as1 \<union> neg_lit ` (marked_lits s2 \<union> zero_lits s))"
      by (rule entails_resolve[OF as1(3)]) (use ent ins in \<open>simp flip: image_insert\<close>)
    then have ent2: "entails F (neg_lit ` (set as1 \<union> marked_lits s2 \<union> zero_lits s2))" by (simp add: image_Un Un_assoc e2)
    have res: "resolving F (i - 1) s2 (set as1) (n1 - 1)"
      unfolding resolving_def e2
    proof (intro conjI allI impI)
      show "set as1 \<subseteq> set (tr s)" by (rule as1t)
      show "i - 1 < length (tr s)" using il by simp
      show "j' \<le> i - 1" if "j' < length (tr s)" "tr s ! j' \<in> high_lits s2 \<union> set as1" for j'
        using below[OF that(1)] as1i[OF that(1)] that(2) by auto
      show "\<exists>x \<in> high_lits s2 \<union> set as1. lit_lvl s x = scope_lvl s" using y by (auto simp: high_lits_def e2)
      show "entails F (neg_lit ` (set as1 \<union> marked_lits s2 \<union> zero_lits s))" using ent2 by (simp add: e2)
    qed
    have i0: "i \<noteq> 0" using ji by simp
    have base2: "base F n (asg s2) (lits s2) (wl s2)" using b by (simp add: e2)
    have "js_antecedents s2 c1 ?js = Some as1" using as1(1) by (simp add: e2)
    have lt: "i - 1 < idx" and k2: "0 < scope_lvl s2" using i(1) i0 k e2(3) by linarith+
    from less.IH[OF lt base2 k2 u(1) \<open>js_antecedents s2 c1 ?js = Some as1\<close> res] obtain uip s' where
      "resolve_loop c1 ?js (i - 1) (n1 - 1) s2 = Some (uip, s')" "same_core s2 s'" "marks_ok n s' 0"
      "uip \<in> set (tr s2)" "lit_lvl s2 uip = scope_lvl s2" "entails F (neg_lit ` (Set.insert uip (marked_lits s' \<union> zero_lits s2)))"
      "unat (m_activity_inc (queue s')) \<le> 16777216" "hd (m_lemma (ana s')) = hd (m_lemma (ana s2))"
      by blast
    then have "resolve_loop consequent js idx num s = Some (uip, s')" "same_core s s'" "marks_ok n s' 0"
      "uip \<in> set (tr s)" "lit_lvl s uip = scope_lvl s" "entails F (neg_lit ` (Set.insert uip (marked_lits s' \<union> zero_lits s)))"
      "unat (m_activity_inc (queue s')) \<le> 16777216" "hd (m_lemma (ana s')) = hd (m_lemma (ana s))"
      using step True i0 same_core_trans[OF core2] hd2 by (simp_all only: e2 if_True if_False)
    then show ?thesis by blast
  qed
qed

end
