(* ===== verification/Sat_Minimize.thy ===== *)
theory Sat_Minimize
  imports Sat_Analyze
begin

text \<open>
  The minimisation of the learned clause of the SAT solver keeps it a consequence of the clauses: the
  variables marked are, but for those of the clause, implied by other marked ones that precede them in the
  trail. Subsumption resolution keeps it a consequence too. Both leave no marks.
\<close>

section \<open>Marked variables and their reasons\<close>

definition mvars :: "solver \<Rightarrow> bool_var set" where
  "mvars s = {v. v < length (m_mark (ana s)) \<and> is_marked s v}"

text \<open>The literal of \<open>v\<close> follows from literals before it whose variables are in \<open>M\<close> or of level 0.\<close>

definition implied_from :: "literal list set \<Rightarrow> solver \<Rightarrow> bool_var set \<Rightarrow> bool_var \<Rightarrow> bool" where
  "implied_from F s M v \<longleftrightarrow>
     (\<exists>i < length (tr s). \<exists>as. lit_var (tr s ! i) = v \<and> set as \<subseteq> set (take i (tr s))
        \<and> entails F (Set.insert (tr s ! i) (neg_lit ` set as)) \<and> (\<forall>a \<in> set as. lit_lvl s a = 0 \<or> lit_var a \<in> M))"

lemma implied_from_mono: "implied_from F s M v \<Longrightarrow> M \<subseteq> M' \<Longrightarrow> implied_from F s M' v"
  unfolding implied_from_def by blast

text \<open>What the minimisation leaves alone.\<close>

definition same_min :: "solver \<Rightarrow> solver \<Rightarrow> bool" where
  "same_min s s' \<longleftrightarrow> asg s' = asg s \<and> cdb s' = cdb s \<and> heu s' = heu s \<and> m_config s' = m_config s \<and> queue s' = queue s
     \<and> m_lemma (ana s') = m_lemma (ana s) \<and> m_lit_mark (ana s') = m_lit_mark (ana s)
     \<and> length (m_mark (ana s')) = length (m_mark (ana s))"

lemma same_min_refl [simp]: "same_min s s"
  by (simp add: same_min_def)

lemma same_min_trans [trans]: "same_min s s' \<Longrightarrow> same_min s' s'' \<Longrightarrow> same_min s s''"
  by (simp add: same_min_def)

lemma same_minD:
  assumes "same_min s s'"
  shows "asg s' = asg s" "cdb s' = cdb s" "lit_lvl s' x = lit_lvl s x" "lvl s' v = lvl s v" "scope_lvl s' = scope_lvl s"
    "implied_from F s' M v = implied_from F s M v" "length (m_mark (ana s')) = length (m_mark (ana s))"
    "get_clause s' off = get_clause s off" "var_antecedents s' v = var_antecedents s v"
proof -
  show l: "lit_lvl s' x = lit_lvl s x" for x using assms by (simp add: same_min_def lit_lvl_def)
  have t: "tr s' = tr s" using assms by (simp add: same_min_def)
  show "implied_from F s' M v = implied_from F s M v" unfolding implied_from_def l t ..
  show g: "get_clause s' off = get_clause s off" for off using assms by (simp add: same_min_def get_clause_def)
  have j: "m_justification (asg s') = m_justification (asg s)" using assms by (simp add: same_min_def)
  show "var_antecedents s' v = var_antecedents s v" unfolding var_antecedents_def js_antecedents_def g j ..
qed (use assms in \<open>simp_all add: same_min_def lvl_def scope_lvl_def\<close>)

lemma set_unmark_simps [simp]:
  "m_mark (ana (set_unmark vs s)) = m_mark (ana s)" "m_unmark (ana (set_unmark vs s)) = vs"
  "m_lvl_set (ana (set_unmark vs s)) = m_lvl_set (ana s)" "same_min s (set_unmark vs s)" "mvars (set_unmark vs s) = mvars s"
  by (simp_all add: set_unmark_def same_min_def mvars_def is_marked_def)

lemma same_min_set_mark [simp]: "same_min s (set_mark v b s)"
  by (simp add: same_min_def)

lemma nth_upd: "x < length xs \<Longrightarrow> xs[v := b] ! x = (if x = v then b else xs ! x)"
  by (cases "x = v") auto

lemma mvars_set_mark:
  "mvars (set_mark v False s) = mvars s - {v}"
  "v < length (m_mark (ana s)) \<Longrightarrow> mvars (set_mark v True s) = Set.insert v (mvars s)"
  by (auto simp: mvars_def is_marked_def nth_upd split: if_splits)

lemma fold_unmark:
  "same_min s (fold (\<lambda>v. set_mark v False) vs s)" "mvars (fold (\<lambda>v. set_mark v False) vs s) = mvars s - set vs"
  "m_unmark (ana (fold (\<lambda>v. set_mark v False) vs s)) = m_unmark (ana s)"
proof (induction vs arbitrary: s)
  case (Cons v vs)
  { case 1 show ?case using same_min_trans[OF same_min_set_mark Cons(1)] by simp }
  { case 2 show ?case using Cons(2) by (auto simp: mvars_set_mark) }
  { case 3 show ?case using Cons(3) by simp }
qed simp_all

lemma reset_unmark_props:
  "same_min s (reset_unmark k s)" "mvars (reset_unmark k s) = mvars s - set (drop k (m_unmark (ana s)))"
  "m_unmark (ana (reset_unmark k s)) = take k (m_unmark (ana s))"
  unfolding reset_unmark_def using fold_unmark same_min_trans[OF fold_unmark(1) set_unmark_simps(4)] by simp_all

section \<open>The search for an implication\<close>

text \<open>Antecedents that are not marked are added.\<close>

lemma process_for_minimization_ok:
  assumes "process_for_minimization as S s = (ok, S', s')" "\<forall>a \<in> set as. lit_var a < length (m_mark (ana s))"
  shows "same_min s s' \<and> (\<exists>new. S' = rev new @ S \<and> m_unmark (ana s') = m_unmark (ana s) @ new
    \<and> mvars s' = mvars s \<union> set new \<and> distinct new \<and> set new \<inter> mvars s = {}
    \<and> set new \<subseteq> {lit_var a | a. a \<in> set as \<and> 0 < lit_lvl s a}
    \<and> (ok \<longrightarrow> (\<forall>a \<in> set as. lit_lvl s a = 0 \<or> lit_var a \<in> mvars s')))"
  using assms
proof (induction as arbitrary: S s)
  case (Cons a as)
  let ?v = "lit_var a"
  show ?case
  proof (cases "\<not> is_marked s ?v \<and> 0 < lvl s ?v")
    case False
    have r: "process_for_minimization as S s = (ok, S', s')"
      using Cons.prems(1)[unfolded process_for_minimization.simps Let_def if_not_P[OF False]] .
    have "lit_lvl s a = 0 \<or> ?v \<in> mvars s" using False Cons.prems(2) by (auto simp: mvars_def lit_lvl_def lvl_def)
    then show ?thesis using Cons.IH[OF r] Cons.prems(2) by (simp add: subset_iff) (metis Un_iff)
  next
    case new: True
    show ?thesis
    proof (cases "may_contain (m_lvl_set (ana s)) (lvl s ?v)")
      case False
      then show ?thesis using Cons.prems(1) new by (auto simp: Let_def intro: exI[of _ "[]"])
    next
      case True
      define s1 where "s1 = set_unmark (m_unmark (ana s) @ [?v]) (set_mark ?v True s)"
      have r: "process_for_minimization as (?v # S) s1 = (ok, S', s')"
        using Cons.prems(1) new True by (simp add: Let_def s1_def)
      have s1: "same_min s s1" unfolding s1_def by (rule same_min_trans[OF same_min_set_mark set_unmark_simps(4)])
      note e = same_minD[OF s1]
      have m1: "mvars s1 = Set.insert ?v (mvars s)" using Cons.prems(2) by (simp add: s1_def mvars_set_mark)
      have u1: "m_unmark (ana s1) = m_unmark (ana s) @ [?v]" by (simp add: s1_def)
      have "same_min s1 s' \<and> (\<exists>new. S' = rev new @ ?v # S \<and> m_unmark (ana s') = m_unmark (ana s1) @ new
        \<and> mvars s' = mvars s1 \<union> set new \<and> distinct new \<and> set new \<inter> mvars s1 = {}
        \<and> set new \<subseteq> {lit_var a | a. a \<in> set as \<and> 0 < lit_lvl s1 a}
        \<and> (ok \<longrightarrow> (\<forall>a \<in> set as. lit_lvl s1 a = 0 \<or> lit_var a \<in> mvars s')))"
        by (rule Cons.IH[OF r]) (use Cons.prems(2) e(7) in simp)
      then obtain new where f: "same_min s1 s'" "S' = rev new @ ?v # S" "m_unmark (ana s') = m_unmark (ana s1) @ new"
        "mvars s' = mvars s1 \<union> set new" "distinct new" "set new \<inter> mvars s1 = {}"
        "set new \<subseteq> {lit_var a | a. a \<in> set as \<and> 0 < lit_lvl s1 a}"
        "ok \<longrightarrow> (\<forall>a \<in> set as. lit_lvl s1 a = 0 \<or> lit_var a \<in> mvars s')" by blast
      have v: "?v \<notin> mvars s" "0 < lit_lvl s a" using new by (simp_all add: mvars_def lit_lvl_def lvl_def)
      have "set (?v # new) \<subseteq> {lit_var a' | a'. a' \<in> set (a # as) \<and> 0 < lit_lvl s a'}" using f(7) v e(3) by auto
      moreover have "distinct (?v # new)" "set (?v # new) \<inter> mvars s = {}" using f(5,6) v m1 by auto
      moreover have "ok \<longrightarrow> (\<forall>a' \<in> set (a # as). lit_lvl s a' = 0 \<or> lit_var a' \<in> mvars s')" using f(4,8) m1 e(3) by auto
      moreover have "mvars s' = mvars s \<union> set (?v # new)" using f(4) m1 by auto
      ultimately show ?thesis using same_min_trans[OF s1 f(1)] f(2,3) u1 by (intro conjI exI[of _ "?v # new"]) simp_all
    qed
  qed
qed (auto intro: exI[of _ "[]"])

lemma var_antecedents_ok:
  assumes b: "base F n (asg s) (lits s) (wl s)" and i: "i < length (tr s)" and k: "0 < level_at (asg s) i"
    and j: "m_justification (asg s) ! lit_var (tr s ! i) \<noteq> J_NONE"
  shows "\<exists>as. var_antecedents s (lit_var (tr s ! i)) = Some as
    \<and> set as \<subseteq> set (take i (tr s)) \<and> entails F (Set.insert (tr s ! i) (neg_lit ` set as))"
proof -
  let ?x = "tr s ! i" and ?j = "m_justification (asg s) ! lit_var (tr s ! i)"
  note t = baseD(2)[OF b]
  have nn: "?x \<noteq> null_literal" using not_null[OF trail_okD(6)[OF t nth_mem[OF i]] baseD(1)[OF b]] .
  have "var_antecedents s (lit_var ?x) = js_antecedents s ?x ?j"
  proof (cases ?j)
    case (J_CLAUSE off)
    let ?c = "lits s ! off"
    have off: "off < length (lits s)" "?c ! 0 = ?x \<or> ?c ! 1 = ?x"
      using baseD(3)[OF b i] k J_CLAUSE unfolding reason_ok_def Let_def by auto
    have gc: "c_lits (get_clause s off) = ?c" using off(1) by (simp add: get_clause_def)
    have "clause_ok F n ?c" by (rule baseD(4)[OF b nth_mem[OF off(1)]])
    then have dc: "distinct (map lit_var ?c)" and len: "3 \<le> length ?c" by (auto simp: clause_ok_def)
    obtain c0 c1 cs where c: "?c = c0 # c1 # cs" using len by (metis Suc_le_length_iff numeral_3_eq_3)
    have "lit_var c0 = lit_var ?x \<longleftrightarrow> c0 = ?x" using off(2) dc by (auto simp: c)
    then show ?thesis using nn by (simp add: var_antecedents_def js_antecedents_def J_CLAUSE gc c)
  qed (simp_all add: var_antecedents_def js_antecedents_def)
  then show ?thesis using reason_antecedents[OF b i k disjI1[OF j] refl] by simp
qed

lemma lit_lvl_before:
  assumes "trail_ok n (asg s)" "i < length (tr s)" "a \<in> set (take i (tr s))"
  shows "lit_lvl s a \<le> lit_lvl s (tr s ! i)"
proof -
  obtain j where j: "j < i" "j < length (tr s)" "a = tr s ! j" using assms(3) by (auto simp: in_set_conv_nth)
  then show ?thesis using lit_lvl_trail[OF assms(1)] assms(2) level_at_mono[of j i "asg s"] by simp
qed

text \<open>The variables of \<open>K\<close> belong to the clause, those of the stack \<open>S\<close> are still to be looked at.\<close>

definition min_state :: "literal list set \<Rightarrow> nat \<Rightarrow> solver \<Rightarrow> bool_var set \<Rightarrow> bool_var list \<Rightarrow> bool" where
  "min_state F n s K S \<longleftrightarrow>
     base F n (asg s) (lits s) (wl s) \<and> length (m_mark (ana s)) = n
     \<and> (\<forall>v \<in> mvars s. 0 < lvl s v \<and> lvl s v < scope_lvl s \<and> (\<exists>x \<in> set (tr s). lit_var x = v))
     \<and> set S \<subseteq> mvars s \<and> (\<forall>v \<in> mvars s. v \<in> K \<or> v \<in> set S \<or> implied_from F s (mvars s) v)"

definition implied_post :: "literal list set \<Rightarrow> nat \<Rightarrow> solver \<Rightarrow> bool_var set \<Rightarrow> bool_var list \<Rightarrow> bool_var set \<Rightarrow> (bool \<times> solver) option \<Rightarrow> bool" where
  "implied_post F n s K U0 M0 res \<longleftrightarrow>
     (\<exists>r s'. res = Some (r, s') \<and> same_min s s'
        \<and> (r \<longrightarrow> (\<exists>U1. m_unmark (ana s') = U0 @ U1 \<and> mvars s' = M0 \<union> set U1) \<and> min_state F n s' K [])
        \<and> (\<not> r \<longrightarrow> m_unmark (ana s') = U0 \<and> mvars s' = M0))"

lemma implied_loop_ok:
  assumes "min_state F n s K S" "m_unmark (ana s) = U0 @ U1" "mvars s = M0 \<union> set U1" "M0 \<inter> set U1 = {}"
  shows "implied_post F n s K U0 M0 (implied_loop (length U0) S s)"
  using assms
proof (induction "card ({..<n} - mvars s) + length S" arbitrary: S s U1 rule: less_induct)
  case less
  have b: "base F n (asg s) (lits s) (wl s)" and len: "length (m_mark (ana s)) = n"
    and mv: "\<And>v. v \<in> mvars s \<Longrightarrow> 0 < lvl s v \<and> lvl s v < scope_lvl s \<and> (\<exists>x \<in> set (tr s). lit_var x = v)"
    and S: "set S \<subseteq> mvars s" and cl: "\<And>v. v \<in> mvars s \<Longrightarrow> v \<in> K \<or> v \<in> set S \<or> implied_from F s (mvars s) v"
    using less.prems(1) by (auto simp: min_state_def)
  note t = baseD(2)[OF b]
  have reset: "implied_post F n s K U0 M0 (Some (False, reset_unmark (length U0) s'))"
    if "same_min s s'" "m_unmark (ana s') = U0 @ U" "mvars s' = M0 \<union> set U" "M0 \<inter> set U = {}" for s' U
    unfolding implied_post_def
    using same_min_trans[OF that(1) reset_unmark_props(1)] reset_unmark_props(2,3)[of "length U0" s'] that by auto
  show ?case
  proof (cases S)
    case Nil
    then show ?thesis using less.prems by (subst implied_loop.simps) (auto simp: implied_post_def)
  next
    case (Cons v S1)
    have v: "v \<in> mvars s" using S Cons by simp
    then obtain x where x: "x \<in> set (tr s)" "lit_var x = v" using mv by blast
    then obtain i where i: "i < length (tr s)" "x = tr s ! i" by (auto simp: in_set_conv_nth)
    have lx: "lit_lvl s x = lvl s v" using x by (simp add: lit_lvl_def lvl_def)
    have lev: "0 < level_at (asg s) i" using lit_lvl_trail[OF t i(1)] lx mv[OF v] i(2) by simp
    show ?thesis
    proof (cases "m_justification (asg s) ! v = J_NONE")
      case True
      then have "implied_loop (length U0) S s = Some (False, reset_unmark (length U0) s)"
        using mv[OF v] Cons by (subst implied_loop.simps) simp
      then show ?thesis using reset[OF same_min_refl less.prems(2-4)] by simp
    next
      case False
      then obtain as where as: "var_antecedents s v = Some as" "set as \<subseteq> set (take i (tr s))"
        "entails F (Set.insert x (neg_lit ` set as))"
        using var_antecedents_ok[OF b i(1) lev] x(2) i(2) by auto
      have ast: "set as \<subseteq> set (tr s)" using as(2) set_take_subset by fast
      then have asn: "\<forall>a \<in> set as. lit_var a < length (m_mark (ana s))"
        using trail_okD(6)[OF t] by (auto simp: len lit_var_less)
      obtain ok S2 s2 where p: "process_for_minimization as S1 s = (ok, S2, s2)" using prod_cases3 by blast
      from process_for_minimization_ok[OF p asn] obtain new where
        sm: "same_min s s2" and S2: "S2 = rev new @ S1" and u2: "m_unmark (ana s2) = m_unmark (ana s) @ new"
        and m2: "mvars s2 = mvars s \<union> set new" and new: "distinct new" "set new \<inter> mvars s = {}"
        and nas: "set new \<subseteq> {lit_var a | a. a \<in> set as \<and> 0 < lit_lvl s a}"
        and ok: "ok \<longrightarrow> (\<forall>a \<in> set as. lit_lvl s a = 0 \<or> lit_var a \<in> mvars s2)" by blast
      note e = same_minD[OF sm]
      have U: "m_unmark (ana s2) = U0 @ (U1 @ new)" "mvars s2 = M0 \<union> set (U1 @ new)" "M0 \<inter> set (U1 @ new) = {}"
        using u2 m2 new(2) less.prems(2-4) by auto
      have step: "implied_loop (length U0) S s =
        (if ok then implied_loop (length U0) S2 s2 else Some (False, reset_unmark (length U0) s2))"
        using False Cons as(1) p by (subst implied_loop.simps) simp
      show ?thesis
      proof (cases ok)
        case False
        then show ?thesis using step reset[OF sm U] by simp
      next
        case True
        have "implied_from F s (mvars s2) v"
          unfolding implied_from_def
          using i x as(2,3) ok True by blast
        then have imp: "w \<in> K \<or> w \<in> set S2 \<or> implied_from F s2 (mvars s2) w" if "w \<in> mvars s2" for w
        proof (cases "w \<in> set new")
          case False
          then have w: "w \<in> mvars s" using that m2 by blast
          show ?thesis using cl[OF w] S2 Cons \<open>implied_from F s (mvars s2) v\<close> implied_from_mono[of F s "mvars s" w "mvars s2"] m2 e(6) by auto
        qed (simp add: S2)
        have lv: "0 < lvl s w \<and> lvl s w < scope_lvl s \<and> (\<exists>y \<in> set (tr s). lit_var y = w)" if "w \<in> mvars s2" for w
        proof (cases "w \<in> set new")
          case True
          then obtain a where a: "a \<in> set as" "0 < lit_lvl s a" "w = lit_var a" using nas by auto
          have "lit_lvl s a \<le> lvl s v" using lit_lvl_before[OF t i(1)] as(2) a(1) lx i(2) by auto
          then show ?thesis using mv[OF v] a ast by (auto simp: lit_lvl_def lvl_def)
        qed (use that m2 mv in blast)
        have ms: "min_state F n s2 K S2"
          unfolding min_state_def using b len lv imp S Cons m2 S2 e by auto
        have "set new \<subseteq> {..<n}" using nas asn len by auto
        then have "card (({..<n} - mvars s) - set new) = card ({..<n} - mvars s) - card (set new)"
          using new(2) by (intro card_Diff_subset) auto
        moreover have "{..<n} - mvars s2 = ({..<n} - mvars s) - set new" using m2 by blast
        moreover have "card (set new) \<le> card ({..<n} - mvars s)" using \<open>set new \<subseteq> {..<n}\<close> new(2) by (intro card_mono) auto
        ultimately have "card ({..<n} - mvars s2) + length S2 < card ({..<n} - mvars s) + length S"
          using distinct_card[OF new(1)] S2 Cons by simp
        from less.hyps[OF this ms U] have "implied_post F n s2 K U0 M0 (implied_loop (length U0) S2 s2)" .
        then show ?thesis using step True same_min_trans[OF sm] unfolding implied_post_def by auto
      qed
    qed
  qed
qed

section \<open>The loop on the literals of the clause\<close>

lemma min_state_same:
  assumes "same_min s s'" "mvars s' = mvars s" "K \<subseteq> K'"
  shows "min_state F n s K S \<Longrightarrow> min_state F n s' K' S"
proof -
  note e = same_minD[OF assms(1)]
  assume "min_state F n s K S"
  then show ?thesis using assms(3) unfolding min_state_def assms(2) e by auto
qed

lemma minimize_loop_ok:
  assumes "min_state F n s (lit_var ` set (kept @ ls)) []" "\<forall>l \<in> set ls. lit_var l \<in> mvars s"
    and "mvars s \<subseteq> lit_var ` set (kept @ ls) \<union> set (m_unmark (ana s))"
  shows "\<exists>ls' s'. minimize_loop kept ls s = Some (kept @ ls', s') \<and> same_min s s'
    \<and> set ls' \<subseteq> set ls \<and> (distinct ls \<longrightarrow> distinct ls') \<and> min_state F n s' (lit_var ` set (kept @ ls')) []
    \<and> mvars s \<subseteq> mvars s' \<and> mvars s' \<subseteq> lit_var ` set (kept @ ls') \<union> set (m_unmark (ana s'))"
  using assms
proof (induction ls arbitrary: kept s)
  case (Cons l ls)
  let ?K = "lit_var ` set (kept @ l # ls)" and ?v = "lit_var l"
  have v: "?v \<in> mvars s" using Cons.prems(2) by simp
  have pre: "min_state F n s (?K - {?v}) [?v]" using Cons.prems(1) v unfolding min_state_def by auto
  have "implied_post F n s (?K - {?v}) (m_unmark (ana s)) (mvars s) (implied_by_marked l s)"
    unfolding implied_by_marked_def by (rule implied_loop_ok[OF pre, of _ "[]"]) simp_all
  then obtain r s1 where im: "implied_by_marked l s = Some (r, s1)" and sm: "same_min s s1"
    and yes: "r \<longrightarrow> (\<exists>U1. m_unmark (ana s1) = m_unmark (ana s) @ U1 \<and> mvars s1 = mvars s \<union> set U1)"
      "r \<longrightarrow> min_state F n s1 (?K - {?v}) []"
    and no: "\<not> r \<longrightarrow> m_unmark (ana s1) = m_unmark (ana s)" "\<not> r \<longrightarrow> mvars s1 = mvars s"
    unfolding implied_post_def by blast
  show ?case
  proof (cases r)
    case True
    define s2 where "s2 = set_unmark (m_unmark (ana s1) @ [?v]) s1"
    have sm2: "same_min s1 s2" and m2: "mvars s2 = mvars s1" by (simp_all add: s2_def)
    obtain U1 where U1: "m_unmark (ana s1) = m_unmark (ana s) @ U1" "mvars s1 = mvars s \<union> set U1" using yes True by blast
    have "min_state F n s1 (?K - {?v}) []" using yes(2) True by blast
    from min_state_same[OF sm2 m2 _ this] have "min_state F n s2 (lit_var ` set (kept @ ls)) []" by fastforce
    moreover have "mvars s2 \<subseteq> lit_var ` set (kept @ ls) \<union> set (m_unmark (ana s2))"
      using Cons.prems(3) U1 m2 by (auto simp: s2_def)
    ultimately obtain ls' s' where r: "minimize_loop kept ls s2 = Some (kept @ ls', s')" "same_min s2 s'" "set ls' \<subseteq> set ls"
      "distinct ls \<longrightarrow> distinct ls'" "min_state F n s' (lit_var ` set (kept @ ls')) []"
      "mvars s2 \<subseteq> mvars s'" "mvars s' \<subseteq> lit_var ` set (kept @ ls') \<union> set (m_unmark (ana s'))"
      using Cons.IH[of s2 kept] Cons.prems(2) U1(2) m2 by auto
    have "minimize_loop kept (l # ls) s = Some (kept @ ls', s')" using im True r(1) by (simp add: s2_def)
    moreover have "same_min s s'" using same_min_trans[OF sm same_min_trans[OF sm2 r(2)]] .
    moreover have "mvars s \<subseteq> mvars s'" using r(6) m2 U1(2) by blast
    ultimately show ?thesis using r(3-5,7) by (intro exI[of _ ls'] exI[of _ s']) auto
  next
    case False
    have m1: "mvars s1 = mvars s" and u1: "m_unmark (ana s1) = m_unmark (ana s)" using no False by simp_all
    have "min_state F n s1 (lit_var ` set ((kept @ [l]) @ ls)) []"
      by (rule min_state_same[OF sm m1 _ Cons.prems(1)]) simp
    moreover have "mvars s1 \<subseteq> lit_var ` set ((kept @ [l]) @ ls) \<union> set (m_unmark (ana s1))" using Cons.prems(3) m1 u1 by simp
    ultimately obtain ls' s' where r: "minimize_loop (kept @ [l]) ls s1 = Some ((kept @ [l]) @ ls', s')" "same_min s1 s'"
      "set ls' \<subseteq> set ls" "distinct ls \<longrightarrow> distinct ls'" "min_state F n s' (lit_var ` set ((kept @ [l]) @ ls')) []"
      "mvars s1 \<subseteq> mvars s'" "mvars s' \<subseteq> lit_var ` set ((kept @ [l]) @ ls') \<union> set (m_unmark (ana s'))"
      using Cons.IH[of s1 "kept @ [l]"] Cons.prems(2) m1 by auto
    have "minimize_loop kept (l # ls) s = Some (kept @ (l # ls'), s')" using im False r(1) by simp
    moreover have "same_min s s'" using same_min_trans[OF sm r(2)] .
    ultimately show ?thesis using r(3-7) m1 by (intro exI[of _ "l # ls'"] exI[of _ s']) auto
  qed
qed auto

section \<open>The minimised clause\<close>

text \<open>A clause whose literals are false makes the marked literals true, from the bottom of the trail upwards.\<close>

lemma closed_entails:
  assumes m: "min_state F n s (lit_var ` set ls) []" and hd: "neg_lit uip \<in> set ls" "uip \<in> set (tr s)"
    and fl: "\<forall>l \<in> set ls. neg_lit l \<in> set (tr s)"
    and ent: "entails F (neg_lit ` (Set.insert uip (L \<union> zero_lits s)))" and L: "L \<subseteq> set (tr s)" "lit_var ` L \<subseteq> mvars s"
  shows "entails F (set ls)"
  unfolding entails_def
proof (intro allI impI, rule ccontr)
  fix \<alpha> assume mod: "models \<alpha> F" and no: "\<not> (\<exists>l \<in> set ls. lit_holds \<alpha> l)"
  have b: "base F n (asg s) (lits s) (wl s)"
    and cl: "\<And>v. v \<in> mvars s \<Longrightarrow> v \<in> lit_var ` set ls \<or> implied_from F s (mvars s) v"
    using m by (auto simp: min_state_def)
  note t = baseD(2)[OF b]
  have inK: "lit_holds \<alpha> x" if "x \<in> set (tr s)" "lit_var x \<in> lit_var ` set ls" for x
  proof -
    from that(2) obtain l where l: "l \<in> set ls" "lit_var x = lit_var l" by blast
    then have "x = neg_lit l" using same_var[OF t \<open>x \<in> set (tr s)\<close>, of "neg_lit l"] fl by simp
    then show ?thesis using no l(1) by simp
  qed
  have zero: "lit_holds \<alpha> (tr s ! i)" if "i < length (tr s)" "lit_lvl s (tr s ! i) = 0" for i
    using level_zero_entailed[of "asg s" F "lits s" i] baseD(3)[OF b] that lit_lvl_trail[OF t that(1)] entailsD[OF _ mod] by fastforce
  have all: "lit_holds \<alpha> (tr s ! i)" if "i < length (tr s)" "lit_var (tr s ! i) \<in> mvars s" for i
    using that
  proof (induction i rule: less_induct)
    case (less i)
    show ?case
    proof (cases "lit_var (tr s ! i) \<in> lit_var ` set ls")
      case False
      then obtain i' as where i': "i' < length (tr s)" "lit_var (tr s ! i') = lit_var (tr s ! i)" "set as \<subseteq> set (take i' (tr s))"
        "entails F (Set.insert (tr s ! i') (neg_lit ` set as))" "\<forall>a \<in> set as. lit_lvl s a = 0 \<or> lit_var a \<in> mvars s"
        using cl[OF less.prems(2)] unfolding implied_from_def by blast
      have "i' = i" using same_var[OF t _ _ i'(2)] i'(1) less.prems(1) nth_eq_iff_index_eq[OF trail_okD(5)[OF t]] by simp
      have "lit_holds \<alpha> a" if a: "a \<in> set as" for a
      proof -
        obtain j where "j < i" "j < length (tr s)" "a = tr s ! j" using i'(3) a \<open>i' = i\<close> by (force simp: in_set_conv_nth)
        then show ?thesis using less.IH zero i'(5) a by blast
      qed
      then show ?thesis using entailsD[OF i'(4) mod] \<open>i' = i\<close> by auto
    qed (use inK less.prems(1) in simp)
  qed
  obtain x where x: "x \<in> Set.insert uip (L \<union> zero_lits s)" "\<not> lit_holds \<alpha> x" using entailsD[OF ent mod] by auto
  consider "x = uip" | "x \<in> L" | "x \<in> zero_lits s" using x(1) by blast
  then show False
  proof cases
    case 1
    then show ?thesis using no hd x(2) by auto
  next
    case 2
    then have "x \<in> set (tr s)" using L(1) by blast
    then obtain i where "i < length (tr s)" "x = tr s ! i" by (auto simp: in_set_conv_nth)
    then show ?thesis using all 2 L(2) x(2) by blast
  next
    case 3
    then obtain i where "i < length (tr s)" "x = tr s ! i" by (auto simp: zero_lits_def in_set_conv_nth)
    then show ?thesis using zero 3 x(2) by (auto simp: zero_lits_def)
  qed
qed

text \<open>A learned clause: asserting, below the conflict level but for its first literal, and a consequence.\<close>

definition learned_ok :: "literal list set \<Rightarrow> solver \<Rightarrow> literal list \<Rightarrow> bool" where
  "learned_ok F s lemma \<longleftrightarrow>
     (\<exists>uip ls. lemma = neg_lit uip # ls \<and> uip \<in> set (tr s) \<and> lit_lvl s uip = scope_lvl s \<and> distinct ls
        \<and> (\<forall>l \<in> set ls. neg_lit l \<in> set (tr s) \<and> 0 < lit_lvl s l \<and> lit_lvl s l < scope_lvl s)
        \<and> entails F (set lemma))"

definition same_analysis :: "solver \<Rightarrow> solver \<Rightarrow> bool" where
  "same_analysis s s' \<longleftrightarrow> same_core s s' \<and> queue s' = queue s \<and> length (m_mark (ana s')) = length (m_mark (ana s))"

lemma same_analysis_trans [trans]: "same_analysis s s' \<Longrightarrow> same_analysis s' s'' \<Longrightarrow> same_analysis s s''"
  unfolding same_analysis_def by (auto elim: same_core_trans)

lemma lit_lvl_neg [simp]: "lit_lvl s (neg_lit l) = lit_lvl s l"
  by (simp add: lit_lvl_def)

lemma marks_low:
  assumes b: "base F n (asg s) (lits s) (wl s)" and m: "marks_ok n s 0"
  shows "mvars s = lit_var ` low_lits s" "marked_lits s = low_lits s" "set (tl (m_lemma (ana s))) = neg_lit ` low_lits s"
    "x \<in> low_lits s \<Longrightarrow> x \<in> set (tr s) \<and> 0 < lit_lvl s x \<and> lit_lvl s x < scope_lvl s" "length (m_mark (ana s)) = n"
proof -
  note t = baseD(2)[OF b]
  show len: "length (m_mark (ana s)) = n" and "set (tl (m_lemma (ana s))) = neg_lit ` low_lits s" using m by (simp_all add: marks_ok_def)
  have "finite (high_lits s)" unfolding high_lits_def marked_lits_def by simp
  then have "high_lits s = {}" using m by (auto simp: marks_ok_def)
  then show ml: "marked_lits s = low_lits s" by (auto simp: high_lits_def low_lits_def)
  have mk: "0 < lvl s v \<and> (\<exists>x \<in> set (tr s). lit_var x = v)" if "v \<in> mvars s" for v
    using m that len by (auto simp: marks_ok_def mvars_def)
  have vn: "lit_var x < n" if "x \<in> set (tr s)" for x using trail_okD(6)[OF t that] by (simp add: lit_var_less)
  show "mvars s = lit_var ` low_lits s"
    unfolding ml[symmetric] using mk vn len by (auto simp: marked_lits_def mvars_def)
  assume x: "x \<in> low_lits s"
  then have xt: "x \<in> set (tr s)" and ne: "lit_lvl s x \<noteq> scope_lvl s" and xm: "is_marked s (lit_var x)"
    by (auto simp: low_lits_def marked_lits_def)
  obtain i where "i < length (tr s)" "x = tr s ! i" using xt by (auto simp: in_set_conv_nth)
  then have "lit_lvl s x \<le> scope_lvl s" using lit_lvl_trail[OF t] level_le_scope[OF t] by (simp add: scope_lvl_def)
  then show "x \<in> set (tr s) \<and> 0 < lit_lvl s x \<and> lit_lvl s x < scope_lvl s"
    using xt ne mk[of "lit_var x"] vn[OF xt] xm len by (auto simp: mvars_def lit_lvl_def lvl_def)
qed

lemma minimize_lemma_ok:
  assumes b: "base F n (asg s) (lits s) (wl s)" and m: "marks_ok n s 0" and u: "m_unmark (ana s) = []"
    and ls: "m_lemma (ana s) = neg_lit uip # ls" and uip: "uip \<in> set (tr s)" "lit_lvl s uip = scope_lvl s"
    and ent: "entails F (neg_lit ` (Set.insert uip (marked_lits s \<union> zero_lits s)))"
  shows "\<exists>s'. minimize_lemma s = Some s' \<and> same_analysis s s' \<and> learned_ok F s (m_lemma (ana s'))
    \<and> mvars s' \<subseteq> lit_var ` set (tl (m_lemma (ana s')))"
proof -
  define s1 where "s1 = updt_lemma_lvl_set s"
  have sm1: "same_min s s1" "mvars s1 = mvars s" "m_unmark (ana s1) = []" "m_lemma (ana s1) = neg_lit uip # ls"
    using u ls by (simp_all add: s1_def updt_lemma_lvl_set_def same_min_def mvars_def is_marked_def)
  note e1 = same_minD[OF sm1(1)]
  note lo = marks_low[OF b m]
  have lsL: "set ls = neg_lit ` low_lits s" using lo(3) ls by simp
  have dls: "distinct ls" using m ls by (simp add: marks_ok_def)
  have mvL: "mvars s = lit_var ` set ls" using lo(1) lsL by (auto simp: image_iff) 
  have lv: "neg_lit l \<in> set (tr s) \<and> 0 < lit_lvl s l \<and> lit_lvl s l < scope_lvl s" if "l \<in> set ls" for l
    using lo(4) that lsL by (auto simp: image_iff)
  have "\<forall>v \<in> mvars s. 0 < lvl s v \<and> lvl s v < scope_lvl s \<and> (\<exists>x \<in> set (tr s). lit_var x = v)"
    using lo(1,4) by (auto simp: lit_lvl_def lvl_def)
  then have "min_state F n s1 (lit_var ` set ([neg_lit uip] @ ls)) []"
    unfolding min_state_def sm1(2) e1 using b lo(5) mvL by auto
  moreover have "\<forall>l \<in> set ls. lit_var l \<in> mvars s1" using mvL sm1(2) by simp
  moreover have "mvars s1 \<subseteq> lit_var ` set ([neg_lit uip] @ ls) \<union> set (m_unmark (ana s1))" using mvL sm1(2) by auto
  ultimately obtain ls' s2 where r: "minimize_loop [neg_lit uip] ls s1 = Some ([neg_lit uip] @ ls', s2)" "same_min s1 s2"
    "set ls' \<subseteq> set ls" "distinct ls \<longrightarrow> distinct ls'" "min_state F n s2 (lit_var ` set ([neg_lit uip] @ ls')) []"
    "mvars s1 \<subseteq> mvars s2" "mvars s2 \<subseteq> lit_var ` set ([neg_lit uip] @ ls') \<union> set (m_unmark (ana s2))"
    using minimize_loop_ok[of F n s1 "[neg_lit uip]" ls] by blast
  have sm2: "same_min s s2" by (rule same_min_trans[OF sm1(1) r(2)])
  note e2 = same_minD[OF sm2]
  let ?ls = "neg_lit uip # ls'" let ?s' = "set_lemma ?ls (reset_unmark 0 s2)"
  have res: "minimize_lemma s = Some ?s'"
    using r(1) sm1(4) by (simp add: minimize_lemma_def s1_def[symmetric] Let_def)
  have sm3: "same_min s (reset_unmark 0 s2)" by (rule same_min_trans[OF sm2 reset_unmark_props(1)])
  have "same_analysis s ?s'"
    using sm3 u reset_unmark_props(3)[of 0 s2] by (simp add: same_analysis_def same_core_def same_min_def)
  moreover have "entails F (set ?ls)"
  proof (rule closed_entails)
    show "min_state F n s2 (lit_var ` set ?ls) []" using r(5) by simp
    show "neg_lit uip \<in> set ?ls" "uip \<in> set (tr s2)" using uip(1) e2(1) by simp_all
    show "\<forall>l \<in> set ?ls. neg_lit l \<in> set (tr s2)" using uip(1) e2(1) lv r(3) by auto
    have z: "zero_lits s2 = zero_lits s" by (simp add: zero_lits_def e2(1,3))
    show "entails F (neg_lit ` (Set.insert uip (low_lits s \<union> zero_lits s2)))" using ent unfolding lo(2) z .
    show "low_lits s \<subseteq> set (tr s2)" using lo(4) e2(1) by auto
    show "lit_var ` low_lits s \<subseteq> mvars s2" using r(6) sm1(2) lo(1) by auto
  qed
  then have "learned_ok F s ?ls" unfolding learned_ok_def using uip dls r(3,4) lv by blast
  moreover have "lit_var uip \<notin> mvars s2"
  proof
    assume "lit_var uip \<in> mvars s2"
    then have "lvl s2 (lit_var uip) < scope_lvl s2" using r(5) by (auto simp: min_state_def)
    then show False using uip(2) e2(4,5) by (simp add: lit_lvl_def lvl_def)
  qed
  moreover have "mvars ?s' = mvars s2 - set (m_unmark (ana s2))"
    using reset_unmark_props(2)[of 0 s2] by (simp add: mvars_def is_marked_def)
  ultimately show ?thesis using res r(7) by (intro exI[of _ ?s']) auto
qed

lemma reset_lemma_var_marks_ok:
  "same_analysis s (reset_lemma_var_marks s)" "m_lemma (ana (reset_lemma_var_marks s)) = m_lemma (ana s)"
  "mvars (reset_lemma_var_marks s) = mvars s - lit_var ` set (tl (m_lemma (ana s)))"
proof -
  have eq: "reset_lemma_var_marks s = fold (\<lambda>v. set_mark v False) (map lit_var (tl (m_lemma (ana s)))) s"
    by (simp add: reset_lemma_var_marks_def fold_map comp_def drop_Suc)
  note f = fold_unmark[where s = s and vs = "map lit_var (tl (m_lemma (ana s)))"]
  show "same_analysis s (reset_lemma_var_marks s)" "m_lemma (ana (reset_lemma_var_marks s)) = m_lemma (ana s)"
    using f(1,3) unfolding eq by (simp_all add: same_analysis_def same_core_def same_min_def)
  show "mvars (reset_lemma_var_marks s) = mvars s - lit_var ` set (tl (m_lemma (ana s)))" using f(2) unfolding eq by simp
qed

lemma mvars_empty: "mvars s = {} \<Longrightarrow> m_mark (ana s) = replicate (length (m_mark (ana s))) False"
  by (auto simp: mvars_def is_marked_def list_eq_iff_nth_eq)

section \<open>Subsumption resolution\<close>

definition lset :: "bool list \<Rightarrow> literal set" where
  "lset mk = {l. l < length mk \<and> mk ! l}"

lemma lset_update: "l < length mk \<Longrightarrow> lset (mk[l := b]) = (if b then Set.insert l (lset mk) else lset mk - {l})"
  by (auto simp: lset_def nth_upd split: if_splits)

lemma lset_clear: "lset (mk[l := False]) = lset mk - {l}"
  by (auto simp: lset_def nth_upd split: if_splits)

lemma fold_mark: "\<forall>l \<in> set ls. l < length mk \<Longrightarrow> lset (fold (\<lambda>l m. m[l := True]) ls mk) = lset mk \<union> set ls
    \<and> length (fold (\<lambda>l m. m[l := True]) ls mk) = length mk"
  by (induction ls arbitrary: mk) (auto simp: lset_update)

lemma fold_clear: "lset (fold (\<lambda>l m. m[l := False]) ls mk) = lset mk - set ls
    \<and> length (fold (\<lambda>l m. m[l := False]) ls mk) = length mk"
  by (induction ls arbitrary: mk) (auto simp: lset_clear)

text \<open>Removing a literal whose negation is in a consequence that is otherwise part of the clause.\<close>

lemma entails_strengthen:
  assumes "entails F C" "entails F (Set.insert (neg_lit l) D)" "D \<subseteq> C - {l}"
  shows "entails F (C - {l})"
proof -
  have "entails F (Set.insert l (C - {l}))" by (rule entails_mono[OF assms(1)]) blast
  from entails_resolve[OF this assms(2)] show ?thesis by (rule entails_mono) (use assms(3) in blast)
qed

definition sub_inv :: "literal list set \<Rightarrow> literal \<Rightarrow> bool list \<Rightarrow> bool list \<Rightarrow> bool" where
  "sub_inv F l0 mk mk' \<longleftrightarrow> length mk' = length mk \<and> lset mk' \<subseteq> lset mk \<and> l0 \<in> lset mk' \<and> entails F (lset mk')"

lemma sub_inv_clear:
  assumes "l0 \<in> lset mk" "l0 \<noteq> y" "entails F (lset mk)" "entails F (Set.insert (neg_lit y) D)" "D \<subseteq> lset mk - {y}"
  shows "sub_inv F l0 mk (mk[y := False])"
  using entails_strengthen[OF assms(3-5)] assms(1,2) by (simp add: sub_inv_def lset_clear)

lemma sub_inv_trans: "sub_inv F l0 mk mk' \<Longrightarrow> sub_inv F l0 mk' mk'' \<Longrightarrow> sub_inv F l0 mk mk''"
  by (auto simp: sub_inv_def)

lemma dyn_sub_wlist_ok:
  assumes "\<forall>w \<in> set ws. watch_ok F n cls (neg_lit l) w" "l0 \<in> lset mk" "l \<in> lset mk" "entails F (lset mk)" "2 * n \<le> length mk"
  shows "sub_inv F l0 mk (dyn_sub_wlist l0 ws mk)"
  using assms
proof (induction l0 ws mk rule: dyn_sub_wlist.induct)
  case (1 l0 x b ws mk)
  have w: "x < 2 * n" "lit_var x \<noteq> lit_var l" "entails F {l, x}" using 1(2) by (auto simp: watch_ok_def)
  let ?mk = "if mk ! neg_lit x \<and> l0 \<noteq> neg_lit x then mk[neg_lit x := False] else mk"
  have ne: "l \<noteq> neg_lit x" using w(2) by auto
  have s: "sub_inv F l0 mk ?mk"
  proof (cases "mk ! neg_lit x \<and> l0 \<noteq> neg_lit x")
    case True
    then show ?thesis using sub_inv_clear[of l0 mk "neg_lit x" F "{l}"] 1(3-5) w(3) ne by (simp add: insert_commute)
  next
    case False
    show ?thesis unfolding if_not_P[OF False] using 1(3,5) by (simp add: sub_inv_def)
  qed
  have "l \<in> lset ?mk" using 1(4) ne by (simp add: lset_clear)
  then have "sub_inv F l0 ?mk (dyn_sub_wlist l0 ws ?mk)"
    using s 1(2,6) by (intro 1(1)) (auto simp: sub_inv_def)
  then show ?case using sub_inv_trans[OF s] by simp
next
  case (2 l0 x y ws mk)
  have w: "x < 2 * n" "y < 2 * n" "distinct [lit_var x, lit_var y, lit_var l]" "entails F {l, x, y}"
    using 2(2) by (auto simp: watch_ok_def)
  let ?mk = "if mk ! x \<and> mk ! neg_lit y \<and> l0 \<noteq> neg_lit y then mk[neg_lit y := False]
    else if mk ! neg_lit x \<and> mk ! y \<and> l0 \<noteq> neg_lit x then mk[neg_lit x := False] else mk"
  have ne: "l \<noteq> neg_lit x" "l \<noteq> neg_lit y" "x \<noteq> neg_lit y" "y \<noteq> neg_lit x" using w(3) by auto
  have len: "x < length mk" "y < length mk" using w 2(6) by linarith+
  have s: "sub_inv F l0 mk ?mk"
  proof -
    consider (a) "mk ! x \<and> mk ! neg_lit y \<and> l0 \<noteq> neg_lit y"
      | (b) "\<not> (mk ! x \<and> mk ! neg_lit y \<and> l0 \<noteq> neg_lit y)" "mk ! neg_lit x \<and> mk ! y \<and> l0 \<noteq> neg_lit x"
      | (c) "\<not> (mk ! x \<and> mk ! neg_lit y \<and> l0 \<noteq> neg_lit y)" "\<not> (mk ! neg_lit x \<and> mk ! y \<and> l0 \<noteq> neg_lit x)" by blast
    then show ?thesis
    proof cases
      case a
      have "{l, x} \<subseteq> lset mk - {neg_lit y}" using a ne len 2(4) by (simp add: lset_def)
      then show ?thesis using sub_inv_clear[of l0 mk "neg_lit y" F "{l, x}"] 2(3,5) w(4) a by (simp add: insert_commute)
    next
      case b
      have "{l, y} \<subseteq> lset mk - {neg_lit x}" using b ne len 2(4) by (simp add: lset_def)
      then have "sub_inv F l0 mk (mk[neg_lit x := False])"
        using sub_inv_clear[of l0 mk "neg_lit x" F "{l, y}"] 2(3,5) w(4) b by (simp add: insert_commute)
      then show ?thesis unfolding if_not_P[OF b(1)] if_P[OF b(2)] .
    next
      case c
      show ?thesis unfolding if_not_P[OF c(1)] if_not_P[OF c(2)] using 2(3,5) by (simp add: sub_inv_def)
    qed
  qed
  have "l \<in> lset ?mk" using 2(4) ne by (simp add: lset_clear)
  then have "sub_inv F l0 ?mk (dyn_sub_wlist l0 ws ?mk)"
    using s 2(2,6) by (intro 2(1)) (auto simp: sub_inv_def)
  then show ?case using sub_inv_trans[OF s] by simp
qed (simp_all add: sub_inv_def)

lemma dyn_sub_steps_ok:
  assumes b: "base F n (asg s) (lits s) (wl s)" and "\<forall>l \<in> set ls. l < 2 * n" "l0 \<in> lset mk" "entails F (lset mk)" "length mk = 2 * n"
  shows "sub_inv F l0 mk (fold (dyn_sub_step s l0) ls mk)"
  using assms(2-)
proof (induction ls arbitrary: mk)
  case (Cons l ls)
  have l: "l < 2 * n" using Cons.prems(1) by simp
  have s: "sub_inv F l0 mk (dyn_sub_step s l0 l mk)"
  proof (cases "mk ! l")
    case True
    have "\<forall>w \<in> set (get_wlist s (neg_lit l)). watch_ok F n (lits s) (neg_lit l) w"
      using baseD(6)[OF b, of "neg_lit l"] l by (simp add: get_wlist_def neg_lit_less)
    then show ?thesis
      using dyn_sub_wlist_ok[of "get_wlist s (neg_lit l)" F n "lits s" l l0 mk] True Cons.prems l by (simp add: dyn_sub_step_def lset_def)
  next
    case False
    then show ?thesis using Cons.prems by (simp add: dyn_sub_step_def sub_inv_def)
  qed
  then have "sub_inv F l0 (dyn_sub_step s l0 l mk) (fold (dyn_sub_step s l0) ls (dyn_sub_step s l0 l mk))"
    using Cons.prems by (intro Cons.IH) (auto simp: sub_inv_def)
  then show ?case using sub_inv_trans[OF s] by simp
qed (simp add: sub_inv_def)

lemma dyn_sub_res_ok:
  assumes b: "base F n (asg s) (lits s) (wl s)" and l: "learned_ok F s (m_lemma (ana s))"
    and mk: "m_lit_mark (ana s) = replicate (2 * n) False"
  shows "same_analysis s (dyn_sub_res s)" "learned_ok F s (m_lemma (ana (dyn_sub_res s)))"
    "m_mark (ana (dyn_sub_res s)) = m_mark (ana s)"
proof -
  obtain uip ls where ls: "m_lemma (ana s) = neg_lit uip # ls" and uip: "uip \<in> set (tr s)" "lit_lvl s uip = scope_lvl s"
    and d: "distinct ls" and lv: "\<forall>l \<in> set ls. neg_lit l \<in> set (tr s) \<and> 0 < lit_lvl s l \<and> lit_lvl s l < scope_lvl s"
    and ent: "entails F (set (m_lemma (ana s)))" using l unfolding learned_ok_def by auto
  let ?cls = "m_lemma (ana s)" and ?l0 = "neg_lit uip"
  define mk0 where "mk0 = fold (\<lambda>l m. m[l := True]) ?cls (m_lit_mark (ana s))"
  define mk1 where "mk1 = fold (dyn_sub_step s ?l0) ?cls mk0"
  define kept where "kept = filter (\<lambda>l. mk1 ! l) ?cls"
  define mk2 where "mk2 = fold (\<lambda>l m. m[l := False]) kept mk1"
  have small: "\<forall>l \<in> set ?cls. l < 2 * n"
    using trail_okD(6)[OF baseD(2)[OF b]] uip lv ls neg_lit_less[of _ n] by auto
  have empty: "lset (replicate (2 * n) False) = {}" by (auto simp: lset_def)
  have m0: "lset mk0 = set ?cls" "length mk0 = 2 * n"
    using fold_mark[of ?cls "m_lit_mark (ana s)"] small mk empty unfolding mk0_def by simp_all
  have i1: "sub_inv F ?l0 mk0 mk1"
    unfolding mk1_def by (rule dyn_sub_steps_ok[OF b small]) (use m0 ent ls in auto)
  have len1: "length mk1 = 2 * n" using i1 m0 by (simp add: sub_inv_def)
  have kept: "set kept = lset mk1"
    using i1 m0 small len1 by (auto simp: kept_def sub_inv_def lset_def)
  have "mk1 ! ?l0" using i1 by (simp add: sub_inv_def lset_def)
  then have kl: "kept = ?l0 # filter (\<lambda>l. mk1 ! l) ls" by (simp add: kept_def ls)
  have "lset mk2 = {}" "length mk2 = 2 * n" using fold_clear[of kept mk1] kept len1 by (auto simp: mk2_def)
  then have mk2: "mk2 = m_lit_mark (ana s)" by (auto simp: mk lset_def list_eq_iff_nth_eq)
  have eq: "dyn_sub_res s = s\<lparr>ana := (ana s)\<lparr>m_lit_mark := mk2, m_lemma := kept\<rparr>\<rparr>"
    by (simp add: dyn_sub_res_def Let_def mk0_def mk1_def kept_def mk2_def ls)
  show "same_analysis s (dyn_sub_res s)" by (simp add: eq mk2 same_analysis_def same_core_def)
  show "m_mark (ana (dyn_sub_res s)) = m_mark (ana s)" by (simp add: eq)
  have "learned_ok F s kept"
    unfolding learned_ok_def using uip d lv kept i1 kl by (intro exI[of _ uip] exI[of _ "filter (\<lambda>l. mk1 ! l) ls"]) (auto simp: sub_inv_def)
  then show "learned_ok F s (m_lemma (ana (dyn_sub_res s)))" by (simp add: eq)
qed

end
