(* ===== verification/Sat_Analysis.thy ===== *)
theory Sat_Analysis
  imports Sat_Minimize
begin

text \<open>
  The analysis of a conflict of the SAT solver as a whole: from a conflict above level 0 it ends with an
  asserting clause, whatever the configuration, and with all marks removed.
\<close>

section \<open>The analysis as a whole\<close>

definition clean :: "nat \<Rightarrow> solver \<Rightarrow> bool" where
  "clean n s \<longleftrightarrow> m_mark (ana s) = replicate n False \<and> m_lit_mark (ana s) = replicate (2 * n) False \<and> m_unmark (ana s) = []"

definition analyze :: "solver \<Rightarrow> solver option" where
  "analyze s1 =
     (let not_l = m_not_l (asg s1); (s2, n) = (if not_l \<noteq> null_literal then process_antecedent not_l (s1, 0) else (s1, 0))
      in do {
        (consequent, s3) \<leftarrow> resolve_loop not_l (m_conflict (asg s2)) (length (m_trail (asg s2)) - 1) n s2;
        let s4 = set_lemma ((m_lemma (ana s3))[0 := neg_lit consequent]) s3;
        if m_minimize_lemmas (m_config s4) then do {
          s' \<leftarrow> minimize_lemma s4;
          let s'' = reset_lemma_var_marks s';
          Some (if m_dyn_sub_res (m_config s'') then dyn_sub_res s'' else s'')
        }
        else Some (reset_lemma_var_marks s4)
      })"

lemma resolve_conflict_core_eq:
  "resolve_conflict_core s0 =
     (let s = s0\<lparr>heu := (heu s0)\<lparr>m_conflicts := m_conflicts (heu s0) + 1,
                                m_conflicts_since_restart := m_conflicts_since_restart (heu s0) + 1\<rparr>\<rparr>
      in if scope_lvl s = 0 then Some (False, s)
         else map_option (\<lambda>s5. (True, learn_lemma s5)) (analyze (set_lemma [null_literal] (forget_phase_of_vars (scope_lvl s) s))))"
  unfolding resolve_conflict_core_def analyze_def Let_def
  by (auto simp: map_conv_bind_option split: prod.split intro!: arg_cong[where f = "Option.bind _"] ext)

text \<open>The first marks: that of the literal of the conflict, and those of its antecedents to come.\<close>

lemma analysis_start:
  assumes b: "base F n (asg s) (lits s) (wl s)" and k: "0 < scope_lvl s" and c: "conflict_ok F s"
    and cl: "clean n s" and act: "act_ok n (queue s)" and lem: "m_lemma (ana s) = [null_literal]"
    and p: "(if m_not_l (asg s) \<noteq> null_literal then process_antecedent (m_not_l (asg s)) (s, 0) else (s, 0)) = (s2, num)"
  shows "\<exists>as. marks_ok n s2 num \<and> same_core s s2 \<and> js_antecedents s2 (m_not_l (asg s)) (m_conflict (asg s)) = Some as
    \<and> resolving F (length (tr s) - 1) s2 (set as) num \<and> m_lemma (ana s2) \<noteq> []"
proof -
  note t = baseD(2)[OF b]
  let ?x = "m_not_l (asg s)"
  obtain as where as: "js_antecedents s ?x (m_conflict (asg s)) = Some as"
    and C: "set as \<union> ({?x} - {null_literal}) \<subseteq> set (tr s)" "entails F (neg_lit ` (set as \<union> ({?x} - {null_literal})))"
    and top: "\<exists>x \<in> set as \<union> ({?x} - {null_literal}). x \<in> set (drop (m_trail_lim (last (m_scopes (asg s)))) (tr s))"
    using c k unfolding conflict_ok_def Let_def by (auto split: if_splits)
  have none: "\<not> is_marked s v" if "v < n" for v using cl that by (simp add: clean_def is_marked_def)
  then have ml: "marked_lits s = {}" using trail_okD(6)[OF t] by (auto simp: marked_lits_def lit_var_less)
  have m0: "marks_ok n s 0"
    using none t cl act lem ml by (auto simp: marks_ok_def clean_def high_lits_def low_lits_def)
  define xs where "xs = (if ?x \<noteq> null_literal then [?x] else [])"
  have f: "fold process_antecedent xs (s, 0) = (s2, num)" using p by (simp add: xs_def split: if_splits)
  have xs: "set xs = {?x} - {null_literal}" by (auto simp: xs_def)
  have "set xs \<subseteq> set (tr s)" using C(1) xs by blast
  from process_antecedents_ok[OF m0 this f] have m2: "marks_ok n s2 num" and core: "same_core s s2"
    and ml2: "marked_lits s2 = marked_lits s \<union> (set xs - zero_lits s)" by blast+
  note e = same_coreD[OF core]
  obtain x where x: "x \<in> set as \<union> set xs" "x \<in> set (drop (m_trail_lim (last (m_scopes (asg s)))) (tr s))" using top xs by blast
  let ?lim = "m_trail_lim (last (m_scopes (asg s)))"
  from x(2) obtain i where i: "i < length (drop ?lim (tr s))" "x = drop ?lim (tr s) ! i" by (metis in_set_conv_nth)
  then have "?lim + i < length (tr s)" "x = tr s ! (?lim + i)" by simp_all
  then have xl: "lit_lvl s x = scope_lvl s" and ne: "tr s \<noteq> []" using high_iff[OF t k, of "?lim + i"] by auto
  have "x \<in> high_lits s2 \<union> set as"
    using x(1) xl k ml by (auto simp: high_lits_def ml2 e zero_lits_def)
  then have res: "resolving F (length (tr s) - 1) s2 (set as) num"
    unfolding resolving_def e using C(1) xs ne xl
    by (auto intro: entails_mono[OF C(2)] simp: ml ml2)
  have "m_lemma (ana s2) \<noteq> []" using m2 by (simp add: marks_ok_def)
  then show ?thesis using m2 core res as e(9) by auto
qed

lemma analyze_ok:
  assumes b: "base F n (asg s) (lits s) (wl s)" and k: "0 < scope_lvl s" and c: "conflict_ok F s"
    and cl: "clean n s" and act: "act_ok n (queue s)" and lem: "m_lemma (ana s) = [null_literal]"
  shows "\<exists>s'. analyze s = Some s' \<and> same_core s s' \<and> clean n s' \<and> act_ok n (queue s')
    \<and> unat (m_activity_inc (queue s')) \<le> 16777216 \<and> learned_ok F s (m_lemma (ana s'))"
proof -
  obtain s2 num where p: "(if m_not_l (asg s) \<noteq> null_literal then process_antecedent (m_not_l (asg s)) (s, 0) else (s, 0)) = (s2, num)"
    by fastforce
  from analysis_start[OF b k c cl act lem p] obtain as where m2: "marks_ok n s2 num" and core2: "same_core s s2"
    and as: "js_antecedents s2 (m_not_l (asg s)) (m_conflict (asg s)) = Some as"
    and res: "resolving F (length (tr s) - 1) s2 (set as) num" by blast
  note e2 = same_coreD[OF core2]
  have "base F n (asg s2) (lits s2) (wl s2)" "0 < scope_lvl s2" using b k e2 by simp_all
  from resolve_loop_ok[OF this m2 as res] obtain uip s3 where
    r: "resolve_loop (m_not_l (asg s)) (m_conflict (asg s)) (length (tr s) - 1) num s2 = Some (uip, s3)" and core23: "same_core s2 s3"
    and m3: "marks_ok n s3 0" and uip: "uip \<in> set (tr s2)" "lit_lvl s2 uip = scope_lvl s2"
    and ent: "entails F (neg_lit ` (Set.insert uip (marked_lits s3 \<union> zero_lits s2)))"
    and inc: "unat (m_activity_inc (queue s3)) \<le> 16777216" by blast
  define s4 where "s4 = set_lemma ((m_lemma (ana s3))[0 := neg_lit uip]) s3"
  have core: "same_core s s3" by (rule same_core_trans[OF core2 core23])
  have core4: "same_core s s4" by (rule same_core_trans[OF core]) (simp add: s4_def)
  note e4 = same_coreD[OF core4]
  have b4: "base F n (asg s4) (lits s4) (wl s4)" using b e4 by simp
  obtain ls where ls3: "m_lemma (ana s3) = hd (m_lemma (ana s3)) # ls" using m3 by (cases "m_lemma (ana s3)") (simp_all add: marks_ok_def)
  have l4: "m_lemma (ana s4) = neg_lit uip # ls" by (simp add: s4_def) (metis ls3 list_update_code(2))
  have q4: "queue s4 = queue s3" by (simp add: s4_def)
  have mk4: "marked_lits s4 = marked_lits s3" "high_lits s4 = high_lits s3" "low_lits s4 = low_lits s3"
    "is_marked s4 v = is_marked s3 v" "m_mark (ana s4) = m_mark (ana s3)" "lvl s4 v = lvl s3 v" for v
    by (simp_all add: s4_def marked_lits_def high_lits_def low_lits_def is_marked_def lit_lvl_def scope_lvl_def lvl_def)
  have "tl (m_lemma (ana s4)) = tl (m_lemma (ana s3))" using l4 ls3 by (metis list.sel(3))
  then have m4: "marks_ok n s4 0" using m3 l4 unfolding marks_ok_def mk4 q4 by (simp add: s4_def)
  have u4: "m_unmark (ana s4) = []" and lm4: "m_lit_mark (ana s4) = replicate (2 * n) False"
    using core4 cl by (simp_all add: same_core_def clean_def)
  have uip4: "uip \<in> set (tr s4)" "lit_lvl s4 uip = scope_lvl s4" using uip e2 e4 by simp_all
  have z4: "zero_lits s4 = zero_lits s2" using e4(7) e2(7) by simp
  have ent4: "entails F (neg_lit ` (Set.insert uip (marked_lits s4 \<union> zero_lits s4)))" using ent unfolding mk4(1) z4 .
  have eq: "analyze s = (if m_minimize_lemmas (m_config s4) then do {
          s' \<leftarrow> minimize_lemma s4;
          let s'' = reset_lemma_var_marks s';
          Some (if m_dyn_sub_res (m_config s'') then dyn_sub_res s'' else s'')
        }
        else Some (reset_lemma_var_marks s4))"
    unfolding analyze_def Let_def p using e2(4,5) r by (simp add: s4_def Let_def)
  have fin: "\<exists>s'. Some s1 = Some s' \<and> same_core s s' \<and> clean n s' \<and> act_ok n (queue s')
    \<and> unat (m_activity_inc (queue s')) \<le> 16777216 \<and> learned_ok F s (m_lemma (ana s'))"
    if a: "same_analysis s4 s1" and mv: "mvars s1 = {}" and lo: "learned_ok F s4 (m_lemma (ana s1))" for s1
  proof -
    have c: "same_core s s1" using same_core_trans[OF core4] a by (simp add: same_analysis_def)
    have "m_mark (ana s1) = replicate n False"
      using mvars_empty[OF mv] a marks_low(5)[OF b4 m4] by (simp add: same_analysis_def)
    then have "clean n s1" using c cl by (simp add: clean_def same_core_def)
    moreover have "queue s1 = queue s3" using a q4 by (simp add: same_analysis_def)
    moreover have "learned_ok F s (m_lemma (ana s1))" using lo unfolding learned_ok_def e4 .
    ultimately show ?thesis using c inc m3 by (simp add: marks_ok_def)
  qed
  show ?thesis
  proof (cases "m_minimize_lemmas (m_config s4)")
    case False
    note lo = marks_low[OF b4 m4]
    let ?s = "reset_lemma_var_marks s4"
    note rm = reset_lemma_var_marks_ok[of s4]
    have "mvars ?s = {}" using rm(3) lo(1,3) by (simp add: image_image)
    moreover have "learned_ok F s4 (m_lemma (ana ?s))"
    proof -
      have ls: "set ls = neg_lit ` low_lits s4" "distinct ls" using lo(3) l4 m4 by (simp_all add: marks_ok_def)
      have "entails F (neg_lit ` (Set.insert uip (low_lits s4)) \<union> neg_lit ` zero_lits s4)" using ent4 lo(2) by (simp add: image_Un)
      then have "entails F (neg_lit ` (Set.insert uip (low_lits s4)))"
      proof (rule entails_cut)
        fix l assume "l \<in> neg_lit ` zero_lits s4"
        then obtain i where "i < length (tr s4)" "neg_lit l = tr s4 ! i" "lit_lvl s4 (tr s4 ! i) = 0"
          by (auto simp: zero_lits_def in_set_conv_nth)
        then show "entails F {neg_lit l}"
          using level_zero_entailed[of "asg s4" F "lits s4" i] baseD(3)[OF b4] lit_lvl_trail[OF baseD(2)[OF b4]] by simp
      qed
      moreover have "neg_lit l \<in> set (tr s4) \<and> 0 < lit_lvl s4 l \<and> lit_lvl s4 l < scope_lvl s4" if "l \<in> set ls" for l
        using lo(4) that ls(1) by (auto simp: image_iff)
      ultimately show ?thesis
        unfolding learned_ok_def rm(2) using uip4 ls l4 by (intro exI[of _ uip] exI[of _ ls]) simp
    qed
    ultimately show ?thesis unfolding eq if_not_P[OF False] by (rule fin[OF rm(1)])
  next
    case True
    from minimize_lemma_ok[OF b4 m4 u4 l4 uip4 ent4] obtain s5 where s5: "minimize_lemma s4 = Some s5" "same_analysis s4 s5"
      "learned_ok F s4 (m_lemma (ana s5))" "mvars s5 \<subseteq> lit_var ` set (tl (m_lemma (ana s5)))" by blast
    let ?s = "reset_lemma_var_marks s5"
    note rm = reset_lemma_var_marks_ok[of s5]
    have a6: "same_analysis s4 ?s" by (rule same_analysis_trans[OF s5(2) rm(1)])
    have mv6: "mvars ?s = {}" using rm(3) s5(4) by auto
    have l6: "learned_ok F s4 (m_lemma (ana ?s))" using s5(3) rm(2) by simp
    show ?thesis
    proof (cases "m_dyn_sub_res (m_config ?s)")
      case False
      then show ?thesis using fin[OF a6 mv6 l6] True s5(1) by (simp add: eq Let_def)
    next
      case sub: True
      have core6: "same_core s4 ?s" using a6 by (simp add: same_analysis_def)
      note e6 = same_coreD[OF core6]
      have b6: "base F n (asg ?s) (lits ?s) (wl ?s)" using b4 e6 by simp
      have lo6: "learned_ok F ?s (m_lemma (ana ?s))" using l6 unfolding learned_ok_def e6 .
      have "m_lit_mark (ana ?s) = replicate (2 * n) False" using core6 lm4 by (simp add: same_core_def)
      note d = dyn_sub_res_ok[OF b6 lo6 this]
      have "mvars (dyn_sub_res ?s) = {}" using mv6 d(3) by (simp add: mvars_def is_marked_def)
      moreover have "learned_ok F s4 (m_lemma (ana (dyn_sub_res ?s)))" using d(2) unfolding learned_ok_def e6 .
      ultimately show ?thesis using fin[OF same_analysis_trans[OF a6 d(1)]] True sub s5(1) by (simp add: eq Let_def)
    qed
  qed
qed

end
