(* ===== verification/Sat_Backtrack.thy ===== *)
theory Sat_Backtrack
  imports Sat_Analysis
begin

text \<open>
  Backtracking of the SAT solver restores the assignment and the completeness of propagation at the time
  the scope was opened. The invariant of the solver between its steps, and what the steps that only add
  clauses and assignments keep of it.
\<close>

section \<open>Backtracking\<close>

lemma unassign_fold_asg:
  "asg (fold unassign_lit xs s) = (asg s)\<lparr>m_assignment := fold (\<lambda>l m. m[l := l_undef, neg_lit l := l_undef]) xs (m_assignment (asg s))\<rparr>"
  by (induction xs arbitrary: s) (simp_all add: unassign_lit_def)

lemma unassign_fold_rest:
  "cdb (fold unassign_lit xs s) = cdb s" "ana (fold unassign_lit xs s) = ana s" "heu (fold unassign_lit xs s) = heu s"
  "m_config (fold unassign_lit xs s) = m_config s" "m_activity_inc (queue (fold unassign_lit xs s)) = m_activity_inc (queue s)"
  by (induction xs arbitrary: s) (simp_all add: unassign_lit_def)

lemma unassign_values:
  assumes "k < length m"
  shows "fold (\<lambda>l m. m[l := l_undef, neg_lit l := l_undef]) xs m ! k = (if k \<in> set xs \<or> neg_lit k \<in> set xs then l_undef else m ! k)"
    "length (fold (\<lambda>l m. m[l := l_undef, neg_lit l := l_undef]) xs m) = length m"
  using assms by (induction xs arbitrary: m) (auto simp: nth_upd)

lemma unassign_length: "length (fold (\<lambda>l m. m[l := l_undef, neg_lit l := l_undef]) xs m) = length m"
  by (induction xs arbitrary: m) auto

lemma unassign_act_ok:
  assumes "act_ok n q" "v < n"
  shows "act_ok n (q\<lparr>m_case_split_queue := unassign_var_eh (m_activity q) (int v) (m_case_split_queue q)\<rparr>)"
    "elems (unassign_var_eh (m_activity q) (int v) (m_case_split_queue q)) = Set.insert (int v) (elems (m_case_split_queue q))"
proof -
  let ?q = "m_case_split_queue q" and ?act = "m_activity q"
  have inv: "queue_inv ?act ?q" and len: "v < length (m_value2indices ?q)" using assms by (simp_all add: act_ok_def sat_queue_inv_def)
  note c = unassign_var_eh_correct[OF inv, of "int v"]
  show e: "elems (unassign_var_eh ?act (int v) ?q) = Set.insert (int v) (elems ?q)" using c len by simp
  have "length (m_value2indices (unassign_var_eh ?act (int v) ?q)) = length (m_value2indices ?q)"
  proof (cases "int v \<in> elems ?q")
    case True
    then show ?thesis by (simp add: unassign_var_eh_def contains_elems)
  next
    case False
    then have "weak_order.yields (activity_lt ?act) ?q (heap_insert (activity_lt ?act) (int v) ?q) (Set.insert (int v) (elems ?q))"
      using inv len by (intro act.heap_insert_correct) (simp_all add: queue_inv_def)
    then show ?thesis using False by (simp add: unassign_var_eh_def contains_elems act.yields_def)
  qed
  then show "act_ok n (q\<lparr>m_case_split_queue := unassign_var_eh ?act (int v) ?q\<rparr>)"
    using assms c len e by (auto simp: act_ok_def sat_queue_inv_def)
qed

lemma unassign_fold_act_ok:
  assumes "act_ok n (queue s)" "\<forall>l \<in> set xs. lit_var l < n"
  shows "act_ok n (queue (fold unassign_lit xs s))
    \<and> elems (m_case_split_queue (queue (fold unassign_lit xs s))) = elems (m_case_split_queue (queue s)) \<union> int ` lit_var ` set xs"
  using assms
proof (induction xs arbitrary: s)
  case (Cons l xs)
  have "act_ok n (queue (unassign_lit l s))"
    "elems (m_case_split_queue (queue (unassign_lit l s))) = Set.insert (int (lit_var l)) (elems (m_case_split_queue (queue s)))"
    using unassign_act_ok[OF Cons.prems(1), of "lit_var l"] Cons.prems(2) by (simp_all add: unassign_lit_def)
  then show ?case using Cons.IH[of "unassign_lit l s"] Cons.prems(2) by auto
qed simp

text \<open>The assignment after backtracking to scope level \<open>k\<close>.\<close>

definition pop_asg :: "nat \<Rightarrow> sat_assignment \<Rightarrow> sat_assignment" where
  "pop_asg k a =
     (let q = m_trail_lim (m_scopes a ! k)
      in a\<lparr>m_inconsistent := False,
           m_assignment := fold (\<lambda>l m. m[l := l_undef, neg_lit l := l_undef]) (rev (drop q (m_trail a))) (m_assignment a),
           m_trail := take q (m_trail a), m_qhead := q, m_scope_lvl := k, m_scopes := take k (m_scopes a)\<rparr>)"

lemma pop_asg_simps [simp]:
  "m_trail (pop_asg k a) = take (m_trail_lim (m_scopes a ! k)) (m_trail a)" "m_qhead (pop_asg k a) = m_trail_lim (m_scopes a ! k)"
  "m_scope_lvl (pop_asg k a) = k" "m_scopes (pop_asg k a) = take k (m_scopes a)" "\<not> m_inconsistent (pop_asg k a)"
  "m_level (pop_asg k a) = m_level a" "m_justification (pop_asg k a) = m_justification a"
  by (simp_all add: pop_asg_def Let_def)

lemma pop_level_at:
  assumes t: "trail_ok n a" and k: "k < m_scope_lvl a" and i: "i < m_trail_lim (m_scopes a ! k)"
  shows "level_at (pop_asg k a) i = level_at a i" "level_at a i \<le> k"
proof -
  have len: "k < length (m_scopes a)" using trail_okD(8)[OF t] k by simp
  show le: "level_at a i \<le> k" using level_at_iff[OF trail_okD(9)[OF t] len, of i] i by simp
  have f: "filter (\<lambda>sc. m_trail_lim sc \<le> i) (m_scopes a) = take (level_at a i) (m_scopes a)"
    unfolding level_at_def by (rule filter_sorted_prefix[OF trail_okD(9)[OF t]])
  have "filter (\<lambda>sc. m_trail_lim sc \<le> i) (drop k (m_scopes a)) = []"
  proof (rule ccontr)
    assume "filter (\<lambda>sc. m_trail_lim sc \<le> i) (drop k (m_scopes a)) \<noteq> []"
    then obtain sc where "sc \<in> set (drop k (m_scopes a))" "m_trail_lim sc \<le> i" by (auto simp: filter_empty_conv)
    then obtain j where "j < length (m_scopes a) - k" "m_trail_lim (m_scopes a ! (k + j)) \<le> i" by (auto simp: in_set_conv_nth)
    moreover have "m_trail_lim (m_scopes a ! k) \<le> m_trail_lim (m_scopes a ! (k + j))"
      using sorted_nth_mono[OF trail_okD(9)[OF t], of k "k + j"] \<open>j < length (m_scopes a) - k\<close> by simp
    ultimately show False using i by simp
  qed
  moreover have "filter P (m_scopes a) = filter P (take k (m_scopes a)) @ filter P (drop k (m_scopes a))" for P
    by (metis append_take_drop_id filter_append)
  ultimately have "filter (\<lambda>sc. m_trail_lim sc \<le> i) (take k (m_scopes a)) = filter (\<lambda>sc. m_trail_lim sc \<le> i) (m_scopes a)" by simp
  then show "level_at (pop_asg k a) i = level_at a i" by (simp add: level_at_def)
qed

lemma pop_trail_ok:
  assumes t: "trail_ok n a" and k: "k < m_scope_lvl a"
  shows "trail_ok n (pop_asg k a)" "m_trail_lim (m_scopes a ! k) \<le> length (m_trail a)"
proof -
  let ?q = "m_trail_lim (m_scopes a ! k)"
  have len: "k < length (m_scopes a)" using trail_okD(8)[OF t] k by simp
  show q: "?q \<le> length (m_trail a)" using trail_okD(7,10)[OF t] nth_mem[OF len] by (meson order_trans)
  have lits: "l \<in> set (m_trail a)" if "l \<in> set (take ?q (m_trail a))" for l using that set_take_subset by fast
  have dist: "distinct (map lit_var (take ?q (m_trail a)))" using trail_okD(4)[OF t] by (simp flip: take_map)
  have td: "set (m_trail a) = set (take ?q (m_trail a)) \<union> set (drop ?q (m_trail a))" by (metis append_take_drop_id set_append)
  have dd: "lit_var x \<noteq> lit_var y" if "x \<in> set (take ?q (m_trail a))" "y \<in> set (drop ?q (m_trail a))" for x y
  proof -
    have "distinct (map lit_var (take ?q (m_trail a)) @ map lit_var (drop ?q (m_trail a)))"
      using trail_okD(4)[OF t] by (simp flip: map_append)
    then show ?thesis using that by auto
  qed
  have val: "m_assignment (pop_asg k a) ! l = (if l \<in> set (take ?q (m_trail a)) then l_true
      else if neg_lit l \<in> set (take ?q (m_trail a)) then l_false else l_undef)" if l: "l < 2 * n" for l
  proof -
    have old: "m_assignment a ! l = (if l \<in> set (m_trail a) then l_true else if neg_lit l \<in> set (m_trail a) then l_false else l_undef)"
      using t l by (simp add: trail_ok_def)
    have "l < length (m_assignment a)" using trail_okD(1)[OF t] l by simp
    then have new: "m_assignment (pop_asg k a) ! l =
        (if l \<in> set (drop ?q (m_trail a)) \<or> neg_lit l \<in> set (drop ?q (m_trail a)) then l_undef else m_assignment a ! l)"
      by (simp add: pop_asg_def Let_def unassign_values(1))
    have "l \<notin> set (take ?q (m_trail a))" "neg_lit l \<notin> set (take ?q (m_trail a))"
      if "l \<in> set (drop ?q (m_trail a)) \<or> neg_lit l \<in> set (drop ?q (m_trail a))"
      using that dd[of l l] dd[of l "neg_lit l"] dd[of "neg_lit l" l] dd[of "neg_lit l" "neg_lit l"] by auto
    then show ?thesis using td unfolding new old by auto
  qed
  have lim: "m_trail_lim sc \<le> ?q" if sc: "sc \<in> set (take k (m_scopes a))" for sc
  proof -
    obtain j where "j < k" "sc = m_scopes a ! j" using sc by (auto simp: in_set_conv_nth)
    then show ?thesis using sorted_nth_mono[OF trail_okD(9)[OF t], of j k] len by simp
  qed
  have srt: "sorted (map m_trail_lim (take k (m_scopes a)))" using trail_okD(9)[OF t] by (simp flip: take_map)
  have ml: "length (m_assignment (pop_asg k a)) = 2 * n"
    using trail_okD(1)[OF t] by (simp add: pop_asg_def Let_def unassign_length)
  show "trail_ok n (pop_asg k a)"
    unfolding trail_ok_def pop_asg_simps
    using dist lits trail_okD(6)[OF t] trail_okD(2,3)[OF t] val q len lim srt ml trail_okD(11)[OF t] pop_level_at(1)[OF t k] by auto
qed

lemma complete_upto_take:
  "q \<le> m \<Longrightarrow> complete_upto ls W (take m t) q T = complete_upto ls W t q T"
  by (simp add: complete_upto_def min_def)

lemma pop_base:
  assumes b: "base F n a ls W" and k: "k < m_scope_lvl a" and sc: "scopes_complete a ls W"
  shows "base F n (pop_asg k a) ls W" "scopes_complete (pop_asg k a) ls W" "head_complete (pop_asg k a) ls W"
proof -
  let ?q = "m_trail_lim (m_scopes a ! k)"
  note t = baseD(2)[OF b]
  note pt = pop_trail_ok[OF t k]
  have len: "k < length (m_scopes a)" using trail_okD(8)[OF t] k by simp
  have r: "reason_ok F ls (pop_asg k a) i" if i: "i < length (m_trail (pop_asg k a))" for i
  proof -
    have iq: "i < ?q" and il: "i < length (m_trail a)" using i by simp_all
    note lv = pop_level_at[OF t k iq]
    have old: "reason_ok F ls a i" by (rule baseD(3)[OF b il])
    show ?thesis
    proof (cases "level_at a i = 0")
      case True
      then show ?thesis using old lv iq by (simp add: reason_ok_def Let_def)
    next
      case False
      have "reason_ok F ls (pop_asg k a) i = reason_ok F ls a i"
        by (rule reason_ok_cong) (use iq lv False in \<open>simp_all add: min_def\<close>)
      then show ?thesis using old by simp
    qed
  qed
  then show "base F n (pop_asg k a) ls W" using b pt(1) by (simp add: base_def)
  have c: "complete_upto ls W (m_trail a) (m_trail_lim s) (set (take (m_trail_lim s) (m_trail a)))" if "s \<in> set (m_scopes a)" for s
    using sc that by (simp add: scopes_complete_def)
  show "scopes_complete (pop_asg k a) ls W"
    unfolding scopes_complete_def pop_asg_simps
  proof
    fix s assume s: "s \<in> set (take k (m_scopes a))"
    then have "m_trail_lim s \<le> ?q" using trail_okD(10)[OF pt(1)] by simp
    then show "complete_upto ls W (take ?q (m_trail a)) (m_trail_lim s) (set (take (m_trail_lim s) (take ?q (m_trail a))))"
      using c[of s] in_set_takeD[OF s] by (simp add: complete_upto_take min_def)
  qed
  show "head_complete (pop_asg k a) ls W"
    unfolding head_complete_def pop_asg_simps using c[OF nth_mem[OF len]] by (simp add: complete_upto_take)
qed

section \<open>The invariant of the solver between its steps\<close>

definition waiting :: "nat \<Rightarrow> solver \<Rightarrow> bool" where
  "waiting n s \<longleftrightarrow> (\<forall>v < n. v \<notin> lit_var ` set (tr s) \<longrightarrow> int v \<in> elems (m_case_split_queue (queue s)))"

text \<open>The parts that no clause depends on: marks, activities, the decision queue, the lists of clauses.\<close>

definition quiet :: "nat \<Rightarrow> solver \<Rightarrow> bool" where
  "quiet n s \<longleftrightarrow> clean n s \<and> act_ok n (queue s) \<and> waiting n s \<and> m_eliminated (heu s) = replicate n False
     \<and> m_clauses_to_reinit (cdb s) = [] \<and> (\<forall>sc \<in> set (m_scopes (asg s)). m_clauses_to_reinit_lim sc = 0)
     \<and> (\<forall>off \<in> set (m_clauses (cdb s)) \<union> set (m_learned (cdb s)). off < length (m_cls_allocator (cdb s)))"

definition root_true :: "solver \<Rightarrow> literal \<Rightarrow> bool" where
  "root_true s l \<longleftrightarrow> (\<exists>i < length (tr s). tr s ! i = l \<and> level_at (asg s) i = 0)"

text \<open>No clause of \<open>F\<close> is lost: it is a tautology, true at level 0, or has a clause of the solver as a part.\<close>

definition covers :: "solver \<Rightarrow> literal list \<Rightarrow> bool" where
  "covers s d \<longleftrightarrow> (\<exists>l \<in> set d. neg_lit l \<in> set d) \<or> (\<exists>l \<in> set d. root_true s l) \<or> (\<exists>c \<in> set (lits s). set c \<subseteq> set d)
     \<or> (\<exists>l1 \<in> set d. \<exists>l2 \<in> set d. \<exists>b. W_BINARY l2 b \<in> set (wl s ! neg_lit l1))"

definition covered :: "literal list set \<Rightarrow> solver \<Rightarrow> bool" where
  "covered F s \<longleftrightarrow> inconsistent s \<and> scope_lvl s = 0 \<or> (\<forall>d \<in> F. covers s d)"

definition sat_inv :: "literal list set \<Rightarrow> nat \<Rightarrow> solver \<Rightarrow> bool" where
  "sat_inv F n s \<longleftrightarrow> settled F n s \<and> quiet n s \<and> covered F s"

text \<open>Steps that only add.\<close>

definition grow :: "solver \<Rightarrow> solver \<Rightarrow> bool" where
  "grow s s' \<longleftrightarrow> ana s' = ana s \<and> queue s' = queue s \<and> m_config s' = m_config s
     \<and> (heu s')\<lparr>m_phase := []\<rparr> = (heu s)\<lparr>m_phase := []\<rparr> \<and> m_clauses_to_reinit (cdb s') = m_clauses_to_reinit (cdb s)
     \<and> length (m_cls_allocator (cdb s)) \<le> length (m_cls_allocator (cdb s'))
     \<and> set (m_clauses (cdb s')) \<union> set (m_learned (cdb s'))
         \<subseteq> set (m_clauses (cdb s)) \<union> set (m_learned (cdb s)) \<union> {..<length (m_cls_allocator (cdb s'))}
     \<and> (\<forall>c \<in> set (lits s). \<exists>c' \<in> set (lits s'). set c' = set c)
     \<and> (\<forall>l y b. W_BINARY y b \<in> set (wl s ! l) \<longrightarrow> W_BINARY y b \<in> set (wl s' ! l))
     \<and> m_scopes (asg s') = m_scopes (asg s) \<and> m_scope_lvl (asg s') = m_scope_lvl (asg s) \<and> (\<exists>ys. tr s' = tr s @ ys)"

lemma grow_refl [simp]: "grow s s"
  by (auto simp: grow_def)

lemma grow_trans [trans]:
  assumes "grow s s'" "grow s' s''"
  shows "grow s s''"
proof -
  have "\<exists>c' \<in> set (lits s''). set c' = set c" if "c \<in> set (lits s)" for c
    using assms that unfolding grow_def by metis
  moreover have "set (m_clauses (cdb s'')) \<union> set (m_learned (cdb s''))
      \<subseteq> set (m_clauses (cdb s)) \<union> set (m_learned (cdb s)) \<union> {..<length (m_cls_allocator (cdb s''))}"
    using assms unfolding grow_def by (fastforce simp: subset_iff)
  moreover have "\<exists>ys. tr s'' = tr s @ ys" using assms unfolding grow_def by fastforce
  ultimately show ?thesis using assms unfolding grow_def by simp
qed

lemma phase_fields:
  fixes h :: sat_heuristics
  assumes "h'\<lparr>m_phase := []\<rparr> = h\<lparr>m_phase := []\<rparr>"
  shows "m_eliminated h' = m_eliminated h" "m_conflicts h' = m_conflicts h"
    "m_conflicts_since_restart h' = m_conflicts_since_restart h" "m_restart_threshold h' = m_restart_threshold h"
  using assms by (cases h; cases h'; simp)+

lemma growD:
  assumes "grow s s'"
  shows "ana s' = ana s" "queue s' = queue s" "m_config s' = m_config s" "m_eliminated (heu s') = m_eliminated (heu s)"
    "m_clauses_to_reinit (cdb s') = m_clauses_to_reinit (cdb s)" "m_scopes (asg s') = m_scopes (asg s)"
    "scope_lvl s' = scope_lvl s" "\<exists>ys. tr s' = tr s @ ys" "set (tr s) \<subseteq> set (tr s')"
    "length (m_cls_allocator (cdb s)) \<le> length (m_cls_allocator (cdb s'))"
    "off \<in> set (m_clauses (cdb s')) \<union> set (m_learned (cdb s')) \<Longrightarrow>
       off \<in> set (m_clauses (cdb s)) \<union> set (m_learned (cdb s)) \<or> off < length (m_cls_allocator (cdb s'))"
    "c \<in> set (lits s) \<Longrightarrow> \<exists>c' \<in> set (lits s'). set c' = set c"
    "W_BINARY y b \<in> set (wl s ! l) \<Longrightarrow> W_BINARY y b \<in> set (wl s' ! l)"
    "m_conflicts (heu s') = m_conflicts (heu s)" "m_conflicts_since_restart (heu s') = m_conflicts_since_restart (heu s)"
    "m_restart_threshold (heu s') = m_restart_threshold (heu s)"
proof -
  have h: "(heu s')\<lparr>m_phase := []\<rparr> = (heu s)\<lparr>m_phase := []\<rparr>" using assms unfolding grow_def by blast
  show "m_eliminated (heu s') = m_eliminated (heu s)" "m_conflicts (heu s') = m_conflicts (heu s)"
    "m_conflicts_since_restart (heu s') = m_conflicts_since_restart (heu s)"
    "m_restart_threshold (heu s') = m_restart_threshold (heu s)" by (rule phase_fields[OF h])+
  show ex: "\<exists>ys. tr s' = tr s @ ys" using assms unfolding grow_def by blast
  then show "set (tr s) \<subseteq> set (tr s')" by auto
  show "off \<in> set (m_clauses (cdb s)) \<union> set (m_learned (cdb s)) \<or> off < length (m_cls_allocator (cdb s'))"
    if "off \<in> set (m_clauses (cdb s')) \<union> set (m_learned (cdb s'))"
    using that assms unfolding grow_def by blast
qed (use assms in \<open>unfold grow_def scope_lvl_def, blast+\<close>)

lemma grow_quiet:
  assumes g: "grow s s'" and q: "quiet n s"
  shows "quiet n s'"
proof -
  note d = growD[OF g]
  have off: "off < length (m_cls_allocator (cdb s'))" if "off \<in> set (m_clauses (cdb s')) \<union> set (m_learned (cdb s'))" for off
    using d(11)[OF that] d(10) q unfolding quiet_def by (meson order_less_le_trans)
  have "waiting n s" using q by (simp add: quiet_def)
  then have "waiting n s'" using d(2,9) unfolding waiting_def by (metis image_mono subsetD)
  then show ?thesis using off q unfolding quiet_def clean_def d(1-6) by blast
qed

lemma grow_covers:
  assumes g: "grow s s'" and c: "covers s d"
  shows "covers s' d"
proof -
  note gd = growD[OF g]
  have "root_true s' l" if l: "root_true s l" for l
  proof -
    obtain ys where "tr s' = tr s @ ys" using gd(8) by blast
    then show ?thesis using l gd(6) by (force simp: root_true_def level_at_def nth_append)
  qed
  then show ?thesis using c gd(12,13) unfolding covers_def by metis
qed

lemma grow_covered:
  assumes "grow s s'" "covered F s" "inconsistent s \<longrightarrow> inconsistent s'"
  shows "covered F s'"
  using assms grow_covers[OF assms(1)] growD(7)[OF assms(1)] unfolding covered_def by metis

lemma progress_grow:
  assumes "progress (wl s) s (wl s') s'" "quiet n s"
  shows "grow s s'"
proof -
  have l: "map set (lits s') = map set (lits s)" using assms(1) by (simp add: progress_def)
  have len: "length (m_cls_allocator (cdb s')) = length (m_cls_allocator (cdb s))" using arg_cong[OF l, of length] by simp
  have "set ` set (lits s') = set ` set (lits s)" using arg_cong[OF l, of set] by (simp only: set_map)
  then have "\<exists>c' \<in> set (lits s'). set c' = set c" if "c \<in> set (lits s)" for c using that by (metis image_iff)
  moreover have "m_clauses (cdb s') = m_clauses (cdb s)" "m_learned (cdb s') = m_learned (cdb s)"
    using assms(1) unfolding progress_def same_frame_def by blast+
  then have "set (m_clauses (cdb s')) \<union> set (m_learned (cdb s'))
      \<subseteq> set (m_clauses (cdb s)) \<union> set (m_learned (cdb s)) \<union> {..<length (m_cls_allocator (cdb s'))}" by simp
  moreover have "length (m_cls_allocator (cdb s)) \<le> length (m_cls_allocator (cdb s'))" using len by simp
  ultimately show ?thesis using assms(1) unfolding progress_def same_frame_def grow_def by blast
qed

end
