(* ===== verification/Sat_Vars.thy ===== *)
theory Sat_Vars
  imports Sat_Backtrack
begin

text \<open>
  The SAT solver as it is created, and new variables: the invariant holds at first and is kept.
\<close>

lemma new_solver_ok: "sat_inv {} 0 (new_solver conf seed)"
proof -
  have "settled {} 0 (new_solver conf seed)"
    by (simp add: settled_def new_solver_def base_def trail_ok_def null_bool_var_def scopes_complete_def head_complete_def
        complete_upto_def inconsistent_def)
  moreover have "quiet 0 (new_solver conf seed)"
    using new_var_queue_correct[of "[]"]
    by (simp add: quiet_def clean_def act_ok_def sat_queue_inv_def waiting_def new_solver_def)
  ultimately show ?thesis by (simp add: sat_inv_def covered_def)
qed

section \<open>A new variable\<close>

lemma more_vars:
  assumes b: "base F n a ls W" and n: "n < null_bool_var"
    and a': "m_assignment a' = m_assignment a @ [l_undef, l_undef]" "m_justification a' = m_justification a @ [J_NONE]"
      "m_level a' = m_level a @ [uint_max]" "m_trail a' = m_trail a" "m_qhead a' = m_qhead a" "m_scopes a' = m_scopes a"
      "m_scope_lvl a' = m_scope_lvl a"
  shows "base F (n + 1) a' ls (W @ [[], []])"
    "complete_upto ls (W @ [[], []]) (m_trail a') q T = complete_upto ls W (m_trail a) q T \<or> length (m_trail a) < q"
proof -
  note t = baseD(2)[OF b]
  have lv: "level_at a' i = level_at a i" for i by (simp add: level_at_def a')
  have lt: "l < 2 * n" "lit_var l < n" if "l \<in> set (m_trail a)" for l
    using trail_okD(6)[OF t that] by (simp_all add: lit_var_less)
  have lt': "l < 2 * (n + 1)" if "l \<in> set (m_trail a)" for l using lt(1)[OF that] by simp
  have val: "m_assignment a' ! l = (if l \<in> set (m_trail a) then l_true else if neg_lit l \<in> set (m_trail a) then l_false else l_undef)"
    if l: "l < 2 * (n + 1)" for l
  proof (cases "l < 2 * n")
    case True
    then show ?thesis using t trail_okD(1)[OF t] by (simp add: a' nth_append trail_ok_def)
  next
    case False
    then have no: "l \<notin> set (m_trail a)" "neg_lit l \<notin> set (m_trail a)" using lt(1) neg_lit_less[of l n] by blast+
    have "l = 2 * n \<or> l = 2 * n + 1" using False l by auto
    then show ?thesis using no trail_okD(1)[OF t] by (auto simp: a' nth_append)
  qed
  have lev: "m_level a' ! lit_var (m_trail a ! i) = level_at a i" if "i < length (m_trail a)" for i
    using trail_okD(11)[OF t that] lt(2)[OF nth_mem[OF that]] trail_okD(3)[OF t] by (simp add: a' nth_append)
  have t': "trail_ok (n + 1) a'"
    unfolding trail_ok_def a'(4-7) lv using trail_okD(1-5,7-10)[OF t] lt' val lev by (auto simp: a'(1-3))
  have r: "reason_ok F ls a' i" if i: "i < length (m_trail a)" for i
  proof -
    have "reason_ok F ls a' i = reason_ok F ls a i"
      by (rule reason_ok_cong) (use lt(2)[OF nth_mem[OF i]] trail_okD(2)[OF t] in \<open>simp_all add: a' lv nth_append\<close>)
    then show ?thesis using baseD(3)[OF b i] by simp
  qed
  have c: "clause_ok F (n + 1) c" if "c \<in> set ls" for c using baseD(4)[OF b that] by (auto simp: clause_ok_def)
  have len: "length W = 2 * n" by (rule baseD(5)[OF b])
  have Wn: "(W @ [[], []]) ! l = (if l < 2 * n then W ! l else [])" if "l < 2 * (n + 1)" for l
  proof (cases "l < 2 * n")
    case False
    then have "l = 2 * n \<or> l = 2 * n + 1" using that by auto
    then show ?thesis using len by (auto simp: nth_append)
  qed (simp add: len nth_append)
  have w: "watch_ok F (n + 1) ls l w" if "l < 2 * (n + 1)" "w \<in> set ((W @ [[], []]) ! l)" for l w
  proof -
    have "l < 2 * n" "w \<in> set (W ! l)" using that Wn[OF that(1)] by (auto split: if_splits)
    from baseD(6)[OF b this] show ?thesis by (auto simp: watch_ok_def split: watched.splits)
  qed
  have dw: "distinct (watch_offs ((W @ [[], []]) ! l))" if "l < 2 * (n + 1)" for l
    using Wn[OF that] baseD(7)[OF b, of l] by simp
  have wi: "watched_in ls (W @ [[], []]) off" if off: "off < length ls" for off
  proof -
    have c3: "clause_ok F n (ls ! off)" by (rule baseD(4)[OF b nth_mem[OF off]])
    have nl: "neg_lit (ls ! off ! i) < 2 * n" if "i < 3" for i
    proof -
      have "ls ! off ! i \<in> set (ls ! off)" using that c3 by (intro nth_mem) (simp add: clause_ok_def)
      then show ?thesis using c3 neg_lit_less[of "ls ! off ! i" n] by (simp add: clause_ok_def)
    qed
    have "(W @ [[], []]) ! neg_lit (ls ! off ! i) = W ! neg_lit (ls ! off ! i)" if "i < 3" for i
      using nl[OF that] len by (simp add: nth_append)
    then have w3: "(W @ [[], []]) ! neg_lit (ls ! off ! 0) = W ! neg_lit (ls ! off ! 0)"
      "(W @ [[], []]) ! neg_lit (ls ! off ! 1) = W ! neg_lit (ls ! off ! 1)"
      "(W @ [[], []]) ! neg_lit (ls ! off ! 2) = W ! neg_lit (ls ! off ! 2)" by (metis zero_less_numeral, metis one_less_numeral_iff semiring_norm(77), simp)
    show ?thesis using baseD(8)[OF b off] unfolding watched_in_def Let_def w3 .
  qed
  have n1: "n + 1 \<le> null_bool_var" using n by simp
  have lW: "length (W @ [[], []]) = 2 * (n + 1)" using len by simp
  show "base F (n + 1) a' ls (W @ [[], []])"
    unfolding base_def a'(4) using n1 t' r c lW w dw wi by blast
  show "complete_upto ls (W @ [[], []]) (m_trail a') q T = complete_upto ls W (m_trail a) q T \<or> length (m_trail a) < q"
  proof (cases "length (m_trail a) < q")
    case False
    have "(W @ [[], []]) ! (m_trail a ! p) = W ! (m_trail a ! p)" if "p < q" for p
      using lt(1)[OF nth_mem, of p] that False len by (simp add: nth_append)
    then show ?thesis by (simp add: complete_upto_def a')
  qed simp
qed

lemma queue_more_vars:
  assumes q: "act_ok n q"
  shows "act_ok (n + 1) (q\<lparr>m_activity := m_activity q @ [0],
      m_case_split_queue := mk_var_eh (m_activity q @ [0]) (int n) (m_case_split_queue q)\<rparr>)"
    "elems (mk_var_eh (m_activity q @ [0]) (int n) (m_case_split_queue q)) = Set.insert (int n) (elems (m_case_split_queue q))"
proof -
  let ?act = "m_activity q" and ?act' = "m_activity q @ [0 :: 32 word]" and ?h = "m_case_split_queue q"
  have inv: "queue_inv ?act ?h" and el: "\<And>v. v \<in> elems ?h \<Longrightarrow> nat v < n" and len: "length ?act = n"
    using q by (auto simp: act_ok_def sat_queue_inv_def)
  have "weak_order.agree_on (activity_lt ?act') (activity_lt ?act) (elems ?h)"
    using el len by (simp add: act.agree_on_def activity_lt_def nth_append)
  then have inv': "queue_inv ?act' ?h"
    using act.heap_inv_agree[where act = ?act' and old = "activity_lt ?act" and h = ?h] inv by (simp add: queue_inv_def)
  have new: "int n \<notin> elems ?h" using el[of "int n"] by auto
  note mk = mk_var_eh_correct[OF inv' _ new]
  then show e: "elems (mk_var_eh ?act' (int n) ?h) = Set.insert (int n) (elems ?h)" by simp
  have r: "heap_inv (activity_lt ?act') (reserve (nat (int n + 1)) ?h)" "elems (reserve (nat (int n + 1)) ?h) = elems ?h"
    "length (m_value2indices (reserve (nat (int n + 1)) ?h)) = max (nat (int n + 1)) (length (m_value2indices ?h))"
    using act.reserve_correct[where act = ?act' and h = ?h and s = "nat (int n + 1)"] inv' by (auto simp: queue_inv_def)
  have "weak_order.yields (activity_lt ?act') (reserve (nat (int n + 1)) ?h) (mk_var_eh ?act' (int n) ?h)
      (Set.insert (int n) (elems (reserve (nat (int n + 1)) ?h)))"
    unfolding mk_var_eh_def by (rule act.heap_insert_correct[OF r(1)]) (use r new in simp_all)
  then have "length (m_value2indices (mk_var_eh ?act' (int n) ?h)) = max (nat (int n + 1)) (length (m_value2indices ?h))"
    using r(3) by (simp add: act.yields_def)
  then have "n + 1 \<le> length (m_value2indices (mk_var_eh ?act' (int n) ?h))" by linarith
  moreover have "sat_queue_inv (q\<lparr>m_activity := ?act', m_case_split_queue := mk_var_eh ?act' (int n) ?h\<rparr>)"
    using mk el e len by (auto simp: sat_queue_inv_def less_Suc_eq)
  ultimately show "act_ok (n + 1) (q\<lparr>m_activity := ?act', m_case_split_queue := mk_var_eh ?act' (int n) ?h\<rparr>)"
    using q by (auto simp: act_ok_def)
qed

theorem mk_bool_var_ok:
  assumes inv: "sat_inv F n s" and n: "n < null_bool_var" and F: "\<forall>d \<in> F. \<forall>l \<in> set d. l < 2 * n"
    and mk: "mk_bool_var s = (v, s')"
  shows "sat_inv F (n + 1) s'" "v = n" "scope_lvl s' = scope_lvl s"
proof -
  have s: "settled F n s" and q: "quiet n s" and c: "covered F s" using inv by (simp_all add: sat_inv_def)
  note d = settledD[OF s]
  have num: "sat_num_vars s = n" using trail_okD(3)[OF d(2)] by (simp add: sat_num_vars_def)
  show "v = n" using mk num by (simp add: mk_bool_var_def Let_def)
  have a: "m_assignment (asg s') = m_assignment (asg s) @ [l_undef, l_undef]" "m_justification (asg s') = m_justification (asg s) @ [J_NONE]"
      "m_level (asg s') = m_level (asg s) @ [uint_max]" "tr s' = tr s" "m_qhead (asg s') = m_qhead (asg s)" "m_scopes (asg s') = m_scopes (asg s)"
      "m_scope_lvl (asg s') = m_scope_lvl (asg s)"
    and i: "m_inconsistent (asg s') = m_inconsistent (asg s)" "m_conflict (asg s') = m_conflict (asg s)" "m_not_l (asg s') = m_not_l (asg s)"
    and cd: "m_cls_allocator (cdb s') = m_cls_allocator (cdb s)" "wl s' = wl s @ [[], []]" "m_clauses (cdb s') = m_clauses (cdb s)"
      "m_learned (cdb s') = m_learned (cdb s)" "m_clauses_to_reinit (cdb s') = m_clauses_to_reinit (cdb s)"
    and an: "m_mark (ana s') = m_mark (ana s) @ [False]" "m_lit_mark (ana s') = m_lit_mark (ana s) @ [False, False]" "m_unmark (ana s') = m_unmark (ana s)"
    and el: "m_eliminated (heu s') = m_eliminated (heu s) @ [False]"
    and qu: "queue s' = (queue s)\<lparr>m_activity := m_activity (queue s) @ [0],
      m_case_split_queue := mk_var_eh (m_activity (queue s) @ [0]) (int n) (m_case_split_queue (queue s))\<rparr>"
    using mk num by (auto simp: mk_bool_var_def Let_def)
  show k: "scope_lvl s' = scope_lvl s" by (simp add: scope_lvl_def a)
  have inc: "inconsistent s' = inconsistent s" by (simp add: inconsistent_def i)
  note b = more_vars(1)[OF d(1) n a] and cu = more_vars(2)[OF d(1) n a]
  have cu': "complete_upto (lits s) (wl s @ [[], []]) (tr s) z T = complete_upto (lits s) (wl s) (tr s) z T" if "z \<le> length (tr s)" for z T
    using cu[of z T] that by (simp add: a)
  have lim: "m_trail_lim sc \<le> length (tr s)" if "sc \<in> set (m_scopes (asg s))" for sc
    using trail_okD(7,10)[OF d(2)] that by (meson order_trans)
  have "scopes_complete (asg s') (lits s') (wl s')" using d(3) cu' lim unfolding scopes_complete_def a cd by auto
  moreover have "head_complete (asg s') (lits s') (wl s')" if "\<not> inconsistent s'"
    using d(6) that inc cu'[OF trail_okD(7)[OF d(2)]] unfolding head_complete_def a cd by simp
  moreover have "conflict_ok F s'" if "inconsistent s'"
  proof -
    have g: "get_clause s' off = get_clause s off" for off by (simp add: get_clause_def cd)
    have "js_antecedents s' x j = js_antecedents s x j" for x j unfolding js_antecedents_def g ..
    then have "conflict_ok F s' = conflict_ok F s" unfolding conflict_ok_def a i k by simp
    then show ?thesis using d(5) that inc by simp
  qed
  ultimately have st: "settled F (n + 1) s'" using b d(4) unfolding settled_def cd by simp
  have act: "act_ok (n + 1) (queue s')"
    and elems: "elems (m_case_split_queue (queue s')) = Set.insert (int n) (elems (m_case_split_queue (queue s)))"
    unfolding qu using queue_more_vars[of n "queue s"] q by (simp_all add: quiet_def)
  have "waiting (n + 1) s'" using q unfolding waiting_def quiet_def elems a(4) by (auto simp: less_Suc_eq)
  moreover have "clean (n + 1) s'"
  proof -
    have "replicate (2 * n + 2) False = replicate (2 * n) False @ replicate 2 False" by (rule replicate_add)
    then have "replicate (2 * (n + 1)) False = replicate (2 * n) False @ [False, False]" by (simp add: numeral_2_eq_2)
    moreover have "replicate (n + 1) False = replicate n False @ [False]" by (simp add: replicate_append_same)
    ultimately show ?thesis using q unfolding clean_def quiet_def an by simp
  qed
  moreover have "m_eliminated (heu s') = replicate (n + 1) False" using q by (simp add: el quiet_def replicate_append_same)
  ultimately have "quiet (n + 1) s'" using act q unfolding quiet_def a cd by blast
  moreover have "covers s' D" if D: "D \<in> F" "covers s D" for D
  proof -
    have "root_true s' l" if "root_true s l" for l using that by (simp add: root_true_def a level_at_def)
    moreover have "wl s' ! neg_lit l = wl s ! neg_lit l" if "l \<in> set D" for l
      using F D(1) that neg_lit_less[of l n] baseD(5)[OF d(1)] by (simp add: cd nth_append)
    ultimately show ?thesis using D(2) unfolding covers_def cd by metis
  qed
  then have "covered F s'" using c inc k by (auto simp: covered_def)
  ultimately show "sat_inv F (n + 1) s'" using st by (simp add: sat_inv_def)
qed

end
