(* ===== verification/Sat_Attach.thy ===== *)
theory Sat_Attach
  imports Sat_Propagate
begin

text \<open>
  Adding watches and clauses keeps the invariant of the SAT solver: what each kind of clause adds to the
  watch lists, and when propagation stays complete.
\<close>

section \<open>More clauses and watches\<close>

lemma base_extend:
  assumes b: "base F n a ls W" and len: "length W' = length W"
    and W': "\<And>l. l < 2 * n \<Longrightarrow> W' ! l = W ! l @ new l"
    and ok: "\<And>c. c \<in> set cs \<Longrightarrow> clause_ok F n c"
    and w: "\<And>l w. l < 2 * n \<Longrightarrow> w \<in> set (new l) \<Longrightarrow> watch_ok F n (ls @ cs) l w"
    and d: "\<And>l. l < 2 * n \<Longrightarrow> distinct (watch_offs (new l)) \<and> (\<forall>off \<in> set (watch_offs (new l)). length ls \<le> off)"
    and wi: "\<And>off. length ls \<le> off \<Longrightarrow> off < length (ls @ cs) \<Longrightarrow> watched_in (ls @ cs) W' off"
  shows "base F n a (ls @ cs) W'"
proof -
  have old: "watch_ok F n (ls @ cs) l v" if "watch_ok F n ls l v" for l v
    using that by (auto simp: watch_ok_def nth_append split: watched.splits)
  have offs: "off < length ls" if "l < 2 * n" "off \<in> set (watch_offs (W ! l))" for l off
    using that baseD(6)[OF b that(1)] by (fastforce simp: watch_offs_iff watch_ok_def)
  have r: "reason_ok F (ls @ cs) a i" if "i < length (m_trail a)" for i
    using baseD(3)[OF b that] by (auto simp: reason_ok_def Let_def nth_append split: if_splits justification.splits)
  have cn: "clause_ok F n c" if "c \<in> set (ls @ cs)" for c using that ok baseD(4)[OF b] by auto
  have wo: "watch_ok F n (ls @ cs) l v" if "l < 2 * n" "v \<in> set (W' ! l)" for l v
    using that W'[OF that(1)] old[OF baseD(6)[OF b that(1)]] w[OF that(1)] by auto
  have dw: "distinct (watch_offs (W' ! l))" if "l < 2 * n" for l
    using W'[OF that] baseD(7)[OF b that] d[OF that] offs[OF that] by (fastforce simp: not_le)
  have wn: "watched_in (ls @ cs) W' off" if "off < length (ls @ cs)" for off
  proof (cases "off < length ls")
    case True
    have c: "clause_ok F n (ls ! off)" by (rule baseD(4)[OF b nth_mem[OF True]])
    then have "neg_lit (ls ! off ! i) < 2 * n" if "i < 3" for i
      using that nth_mem[of i "ls ! off"] by (auto simp: clause_ok_def neg_lit_less)
    note n = this[of 0] this[of 1] this[of 2]
    show ?thesis using baseD(8)[OF b True] n W' True by (auto simp: watched_in_def Let_def nth_append split: if_splits)
  next
    case False
    then show ?thesis using wi that by simp
  qed
  show ?thesis using b len r cn wo dw wn by (simp add: base_def)
qed

lemma complete_extend:
  assumes c: "complete_upto ls W t q T" and b: "base F n a ls W" and t: "q \<le> length t" "set t \<subseteq> {..<2 * n}"
    and W': "\<And>l. l < 2 * n \<Longrightarrow> W' ! l = W ! l @ new l"
    and w: "\<And>p w. p < q \<Longrightarrow> w \<in> set (new (t ! p)) \<Longrightarrow> sat_watch (ls @ cs) T (set (take p t)) w"
  shows "complete_upto (ls @ cs) W' t q T"
  unfolding complete_upto_def
proof (intro allI impI ballI)
  fix p v assume p: "p < q" "v \<in> set (W' ! (t ! p))"
  then have "t ! p \<in> set t" using t(1) by simp
  then have l: "t ! p < 2 * n" using t(2) by blast
  show "sat_watch (ls @ cs) T (set (take p t)) v"
  proof (cases "v \<in> set (new (t ! p))")
    case False
    then have v: "v \<in> set (W ! (t ! p))" using p(2) W'[OF l] by simp
    then have "sat_watch ls T (set (take p t)) v" using c p(1) by (simp add: complete_upto_def)
    then show ?thesis using baseD(6)[OF b l v]
      by (auto simp: sat_watch_def watch_ok_def nth_append split: watched.splits)
  qed (rule w[OF p(1)])
qed

text \<open>The watches of a binary, a ternary and a longer clause.\<close>

definition bin_watches :: "literal \<Rightarrow> literal \<Rightarrow> bool \<Rightarrow> literal \<Rightarrow> watched list" where
  "bin_watches l1 l2 learned k =
     (if k = neg_lit l1 then [W_BINARY l2 learned] else []) @ (if k = neg_lit l2 then [W_BINARY l1 learned] else [])"

definition ter_watches :: "literal list \<Rightarrow> literal \<Rightarrow> watched list" where
  "ter_watches c k =
     (if k = neg_lit (c ! 0) then [mk_ternary_watch (c ! 1) (c ! 2)] else [])
     @ (if k = neg_lit (c ! 1) then [mk_ternary_watch (c ! 0) (c ! 2)] else [])
     @ (if k = neg_lit (c ! 2) then [mk_ternary_watch (c ! 0) (c ! 1)] else [])"

definition nary_watches :: "literal list \<Rightarrow> nat \<Rightarrow> literal \<Rightarrow> watched list" where
  "nary_watches c off k =
     (let b = c ! (length c div 2)
      in (if k = neg_lit (c ! 0) then [W_CLAUSE b off] else []) @ (if k = neg_lit (c ! 1) then [W_CLAUSE b off] else []))"

definition clause_watches :: "literal list \<Rightarrow> nat \<Rightarrow> literal \<Rightarrow> watched list" where
  "clause_watches c off = (if length c = 3 then ter_watches c else nary_watches c off)"

lemma push_nth: "l < length W \<Longrightarrow> W[l := W ! l @ ws] ! k = W ! k @ (if k = l then ws else [])"
  by simp

lemma ternary_offs [simp]: "watch_offs [mk_ternary_watch x y] = []"
  by (simp add: mk_ternary_watch_def)

lemma ter_watches_offs: "watch_offs (ter_watches c k) = []"
  by (simp add: ter_watches_def)

lemma watch_ok_ternary:
  assumes "x < 2 * n" "y < 2 * n" "distinct [lit_var x, lit_var y, lit_var l]" "entails F {neg_lit l, x, y}"
  shows "watch_ok F n ls l (mk_ternary_watch x y)"
  using assms by (auto simp: mk_ternary_watch_def watch_ok_def insert_commute)

text \<open>The watches of a clause, added together with it, keep the invariant.\<close>

lemma base_add_clause:
  assumes b: "base F n a ls W" and c: "clause_ok F n c" and len: "length W' = length W"
    and W': "\<And>l. l < 2 * n \<Longrightarrow> W' ! l = W ! l @ clause_watches c (length ls) l"
  shows "base F n a (ls @ [c]) W'"
proof (rule base_extend[OF b len W'])
  have lc: "3 \<le> length c" and dv: "distinct (map lit_var c)" and lt: "\<And>l. l \<in> set c \<Longrightarrow> l < 2 * n" and e: "entails F (set c)"
    using c by (auto simp: clause_ok_def)
  obtain c0 c1 c2 cs where c3: "c = c0 # c1 # c2 # cs"
    using lc by (metis Suc_le_length_iff numeral_3_eq_3)
  have nth: "c ! 0 = c0" "c ! 1 = c1" "c ! 2 = c2" by (simp_all add: c3)
  have mid: "c ! (length c div 2) \<in> set c" using lc by (intro nth_mem) auto
  show "d \<in> set [c] \<Longrightarrow> clause_ok F n d" for d using c by simp
  show "watch_ok F n (ls @ [c]) l w" if l: "l < 2 * n" "w \<in> set (clause_watches c (length ls) l)" for l w
  proof (cases "length c = 3")
    case True
    then have cs: "cs = []" by (simp add: c3)
    have "entails F {c0, c1, c2}" using e by (simp add: c3 cs)
    then have e: "entails F {neg_lit (neg_lit c0), c1, c2}" "entails F {neg_lit (neg_lit c1), c0, c2}"
      "entails F {neg_lit (neg_lit c2), c0, c1}" by (simp_all add: insert_commute)
    have n: "c0 < 2 * n" "c1 < 2 * n" "c2 < 2 * n" using lt by (simp_all add: c3)
    have v: "distinct [lit_var c1, lit_var c2, lit_var (neg_lit c0)]" "distinct [lit_var c0, lit_var c2, lit_var (neg_lit c1)]"
      "distinct [lit_var c0, lit_var c1, lit_var (neg_lit c2)]" using dv by (auto simp: c3)
    consider "l = neg_lit c0 \<and> w = mk_ternary_watch c1 c2" | "l = neg_lit c1 \<and> w = mk_ternary_watch c0 c2"
      | "l = neg_lit c2 \<and> w = mk_ternary_watch c0 c1"
      using l(2) True unfolding clause_watches_def ter_watches_def nth by (auto split: if_splits)
    then show ?thesis
      using watch_ok_ternary[OF n(2,3) v(1) e(1)] watch_ok_ternary[OF n(1,3) v(2) e(2)] watch_ok_ternary[OF n(1,2) v(3) e(3)]
      by cases simp_all
  next
    case False
    then have "3 < length c" using lc by simp
    then show ?thesis using l mid False unfolding clause_watches_def nary_watches_def Let_def
      by (auto simp: watch_ok_def split: if_splits)
  qed
  show "distinct (watch_offs (clause_watches c (length ls) l)) \<and> (\<forall>off \<in> set (watch_offs (clause_watches c (length ls) l)). length ls \<le> off)" for l
  proof -
    have "c0 \<noteq> c1" using dv by (auto simp: c3)
    then show ?thesis by (auto simp: clause_watches_def ter_watches_offs nary_watches_def Let_def c3)
  qed
  show "watched_in (ls @ [c]) W' off" if "length ls \<le> off" "off < length (ls @ [c])" for off
  proof -
    have off: "off = length ls" using that by simp
    have n: "neg_lit c0 < 2 * n" "neg_lit c1 < 2 * n" "neg_lit c2 < 2 * n" using lt by (simp_all add: c3 neg_lit_less)
    show ?thesis using W'[OF n(1)] W'[OF n(2)] W'[OF n(3)] off
      by (simp add: watched_in_def Let_def clause_watches_def ter_watches_def nary_watches_def c3)
  qed
qed

lemma base_add_binary:
  assumes b: "base F n a ls W" and l: "l1 < 2 * n" "l2 < 2 * n" "lit_var l1 \<noteq> lit_var l2" "entails F {l1, l2}"
    and len: "length W' = length W" and W': "\<And>l. l < 2 * n \<Longrightarrow> W' ! l = W ! l @ bin_watches l1 l2 bl l"
  shows "base F n a ls W'"
proof -
  have "base F n a (ls @ []) W'"
    by (rule base_extend[OF b len W']) (use l in \<open>auto simp: bin_watches_def watch_ok_def insert_commute split: if_splits\<close>)
  then show ?thesis by simp
qed

end
