(* ===== verification/Sat_Learn.thy ===== *)
theory Sat_Learn
  imports Sat_Backtrack Sat_Attach
begin

text \<open>
  The learned clause of the SAT solver is attached after backtracking and asserts its first literal: the
  resolution of a conflict above level 0 ends in a consistent state with all invariants, and a conflict at
  level 0 means that the clauses have no model.
\<close>

section \<open>Backtracking as a step of the solver\<close>

lemma reinit_nil: "m_clauses_to_reinit (cdb s) = [] \<Longrightarrow> reinit_clauses z s = s"
proof -
  assume e: "m_clauses_to_reinit (cdb s) = []"
  then have "(cdb s)\<lparr>m_clauses_to_reinit := []\<rparr> = cdb s" by (cases "cdb s") simp
  then have "s\<lparr>cdb := (cdb s)\<lparr>m_clauses_to_reinit := []\<rparr>\<rparr> = s" by (cases s) simp
  then show ?thesis using e by (simp add: reinit_clauses_def Let_def)
qed

lemma unassign_vars_cdb: "cdb (unassign_vars z s) = cdb s"
  by (simp add: unassign_vars_def Let_def unassign_fold_rest)

lemma sat_pop_eq:
  assumes q: "m_clauses_to_reinit (cdb s) = []" and k: "k < scope_lvl s"
  shows "asg (sat_pop (scope_lvl s - k) s) = pop_asg k (asg s)" "cdb (sat_pop (scope_lvl s - k) s) = cdb s"
    "ana (sat_pop (scope_lvl s - k) s) = ana s" "heu (sat_pop (scope_lvl s - k) s) = heu s"
    "m_config (sat_pop (scope_lvl s - k) s) = m_config s"
    "queue (sat_pop (scope_lvl s - k) s) =
       queue (fold unassign_lit (rev (drop (m_trail_lim (m_scopes (asg s) ! k)) (tr s))) (s\<lparr>asg := (asg s)\<lparr>m_inconsistent := False\<rparr>\<rparr>))"
proof -
  let ?q = "m_trail_lim (m_scopes (asg s) ! k)"
  let ?s0 = "s\<lparr>asg := (asg s)\<lparr>m_inconsistent := False\<rparr>\<rparr>"
  let ?s1 = "unassign_vars ?q ?s0"
  let ?s2 = "?s1\<lparr>asg := (asg ?s1)\<lparr>m_scope_lvl := k, m_scopes := take k (m_scopes (asg ?s1))\<rparr>\<rparr>"
  let ?f = "fold unassign_lit (rev (drop ?q (tr s))) ?s0"
  have r: "reinit_clauses z ?s2 = ?s2" for z
    by (rule reinit_nil) (simp add: q unassign_vars_cdb)
  have eq: "sat_pop (scope_lvl s - k) s = ?s2" using k r by (simp add: sat_pop_def Let_def scope_lvl_def)
  show "asg (sat_pop (scope_lvl s - k) s) = pop_asg k (asg s)"
    unfolding eq by (simp add: unassign_vars_def unassign_fold_asg pop_asg_def Let_def)
  show "cdb (sat_pop (scope_lvl s - k) s) = cdb s" "ana (sat_pop (scope_lvl s - k) s) = ana s" "heu (sat_pop (scope_lvl s - k) s) = heu s"
    "m_config (sat_pop (scope_lvl s - k) s) = m_config s" "queue (sat_pop (scope_lvl s - k) s) = queue ?f"
    unfolding eq by (simp_all add: unassign_vars_def Let_def unassign_fold_rest)
qed

lemma sat_pop_ok:
  assumes s: "settled F n s" and q: "quiet n s" and c: "covered F s" and k: "k < scope_lvl s" and s': "s' = sat_pop (scope_lvl s - k) s"
  shows "sat_inv F n s'" "\<not> inconsistent s'" "m_qhead (asg s') = length (tr s')" "scope_lvl s' = k"
    "m_activity_inc (queue s') = m_activity_inc (queue s)"
proof -
  let ?q = "m_trail_lim (m_scopes (asg s) ! k)" and ?s0 = "s\<lparr>asg := (asg s)\<lparr>m_inconsistent := False\<rparr>\<rparr>"
  note d = settledD[OF s]
  have "m_clauses_to_reinit (cdb s) = []" using q by (simp add: quiet_def)
  note e = sat_pop_eq[OF this k, folded s']
  have k': "k < m_scope_lvl (asg s)" using k by (simp add: scope_lvl_def)
  note b = pop_base[OF d(1) k' d(3)] and t = pop_trail_ok[OF d(2) k']
  show ni: "\<not> inconsistent s'" by (simp add: inconsistent_def e)
  show "scope_lvl s' = k" by (simp add: scope_lvl_def e)
  show "m_qhead (asg s') = length (tr s')" using t(2) by (simp add: e)
  show "m_activity_inc (queue s') = m_activity_inc (queue s)" unfolding e(6) by (simp add: unassign_fold_rest)
  have lt: "\<forall>l \<in> set (rev (drop ?q (tr s))). lit_var l < n"
    using trail_okD(6)[OF d(2)] set_drop_subset by (fastforce simp: lit_var_less)
  have "act_ok n (queue ?s0)" using q by (simp add: quiet_def)
  from unassign_fold_act_ok[OF this lt] have act: "act_ok n (queue s')"
    and el: "elems (m_case_split_queue (queue s')) = elems (m_case_split_queue (queue s)) \<union> int ` lit_var ` set (drop ?q (tr s))"
    unfolding e(6) by simp_all
  have w: "waiting n s" using q by (simp add: quiet_def)
  have td: "set (tr s) = set (take ?q (tr s)) \<union> set (drop ?q (tr s))" by (metis append_take_drop_id set_append)
  have "waiting n s'" unfolding waiting_def e(1)
  proof (intro allI impI)
    fix v assume v: "v < n" "v \<notin> lit_var ` set (m_trail (pop_asg k (asg s)))"
    show "int v \<in> elems (m_case_split_queue (queue s'))"
    proof (cases "v \<in> lit_var ` set (tr s)")
      case True
      then have "v \<in> lit_var ` set (drop ?q (tr s))" using v(2) td by auto
      then show ?thesis unfolding el by blast
    next
      case False
      then show ?thesis using w v(1) unfolding el waiting_def by blast
    qed
  qed
  moreover have "m_clauses_to_reinit_lim sc = 0" if "sc \<in> set (m_scopes (asg s'))" for sc
    using that q unfolding quiet_def e(1) by (auto dest: in_set_takeD)
  ultimately have "quiet n s'" using q act unfolding quiet_def clean_def e(2-4) by blast
  moreover have "settled F n s'" using b d(4) ni unfolding settled_def e(1,2) by simp
  moreover have "covers s' D" if "covers s D" for D
  proof -
    have "root_true s' l" if l: "root_true s l" for l
    proof -
      obtain i where i: "i < length (tr s)" "tr s ! i = l" "level_at (asg s) i = 0" using l by (auto simp: root_true_def)
      have len: "k < length (m_scopes (asg s))" using trail_okD(8)[OF d(2)] k' by simp
      have "i < ?q" using level_at_iff[OF trail_okD(9)[OF d(2)] len, of i] i(3) by simp
      then show ?thesis using i pop_level_at(1)[OF d(2) k'] by (auto simp: root_true_def e)
    qed
    then show ?thesis using that unfolding covers_def e(2) by blast
  qed
  then have "covered F s'" using c k unfolding covered_def by simp
  ultimately show "sat_inv F n s'" by (simp add: sat_inv_def)
qed

section \<open>The state of the learned clause\<close>

text \<open>A literal of the current level is not before the limit of a scope.\<close>

lemma not_below:
  assumes t: "trail_ok n (asg s)" and k: "0 < scope_lvl s" and x: "x \<in> set (tr s)" "lit_lvl s x = scope_lvl s"
    and sc: "sc \<in> set (m_scopes (asg s))" and p: "p < m_trail_lim sc"
  shows "tr s ! p \<noteq> x"
proof
  assume px: "tr s ! p = x"
  have len: "length (m_scopes (asg s)) = scope_lvl s" using trail_okD(8)[OF t] by (simp add: scope_lvl_def)
  have pl: "p < length (tr s)" using p trail_okD(7,10)[OF t] sc by (meson order_less_le_trans order_trans)
  have "m_trail_lim (last (m_scopes (asg s))) \<le> p" using high_iff[OF t k pl] px x(2) by simp
  moreover obtain j where j: "j < length (m_scopes (asg s))" "sc = m_scopes (asg s) ! j" using sc by (auto simp: in_set_conv_nth)
  then have "m_trail_lim sc \<le> m_trail_lim (last (m_scopes (asg s)))"
    using sorted_nth_mono[OF trail_okD(9)[OF t], of j "scope_lvl s - 1"] len k by (subst last_conv_nth) auto
  ultimately show False using p by linarith
qed

text \<open>The state with the clause attached and its first literal assigned, from what it adds.\<close>

lemma attach_assign:
  assumes s: "settled F n s" "\<not> inconsistent s" and q: "m_qhead (asg s) \<le> length (tr s)"
    and x: "x < 2 * n" "lit_value s x = l_undef" and b: "base F n (asg s) (lits s @ cs) (wl s')"
    and j: "implies_lit F (lits s @ cs) (set (tr s)) x j" "j = J_NONE \<Longrightarrow> scope_lvl s = 0"
    and W': "\<And>l. l < 2 * n \<Longrightarrow> wl s' ! l = wl s ! l @ new l"
    and sc: "\<And>sc p w. sc \<in> set (m_scopes (asg s)) \<Longrightarrow> p < m_trail_lim sc \<Longrightarrow> w \<in> set (new (tr s ! p)) \<Longrightarrow>
      sat_watch (lits s @ cs) (set (take (m_trail_lim sc) (tr s))) (set (take p (tr s))) w"
    and hd: "\<And>p w. p < length (tr s) \<Longrightarrow> w \<in> set (new (tr s ! p)) \<Longrightarrow> sat_watch (lits s @ cs) (set (tr s @ [x])) (set (take p (tr s))) w"
    and s': "asg s' = assign_asg x j (asg s)" "lits s' = lits s @ cs" "True \<notin> set (removed s')"
  shows "settled F n s'" "\<not> inconsistent s'"
proof -
  note d = settledD[OF s(1)]
  note t = d(2)
  have tl: "set (tr s) \<subseteq> {..<2 * n}" using trail_okD(6)[OF t] by blast
  have b': "base F n (asg s') (lits s') (wl s')"
    unfolding s' by (rule assign_base[OF b x(1)]) (use x(2) j in \<open>simp_all add: lit_value_def scope_lvl_def\<close>)
  have "scopes_complete (asg s) (lits s @ cs) (wl s')"
    unfolding scopes_complete_def
  proof
    fix sp assume sp: "sp \<in> set (m_scopes (asg s))"
    have le: "m_trail_lim sp \<le> length (tr s)" using trail_okD(7,10)[OF t] sp by (meson order_trans)
    show "complete_upto (lits s @ cs) (wl s') (tr s) (m_trail_lim sp) (set (take (m_trail_lim sp) (tr s)))"
    proof (rule complete_extend[OF _ d(1) le tl W'])
      show "complete_upto (lits s) (wl s) (tr s) (m_trail_lim sp) (set (take (m_trail_lim sp) (tr s)))"
        using d(3) sp by (simp add: scopes_complete_def)
    qed (assumption, rule sc[OF sp])
  qed
  then have "scopes_complete (asg s') (lits s') (wl s')" unfolding s' by (rule scopes_complete_assign[OF t])
  moreover have "complete_upto (lits s @ cs) (wl s') (tr s) (m_qhead (asg s)) (set (tr s @ [x]))"
  proof (rule complete_extend[OF _ d(1) q tl W'])
    show "complete_upto (lits s) (wl s) (tr s) (m_qhead (asg s)) (set (tr s @ [x]))"
      by (rule complete_upto_mono[OF d(6)[OF s(2), unfolded head_complete_def]]) auto
    fix p w assume "p < m_qhead (asg s)" "w \<in> set (new (tr s ! p))"
    then show "sat_watch (lits s @ cs) (set (tr s @ [x])) (set (take p (tr s))) w" using hd q by simp
  qed
  then have "head_complete (asg s') (lits s') (wl s')"
    using complete_upto_append[OF q] unfolding head_complete_def s' by simp
  ultimately show "settled F n s'" using b' s'(3) s(2) unfolding settled_def by (simp add: inconsistent_def s'(1))
  show "\<not> inconsistent s'" using s(2) by (simp add: inconsistent_def s'(1))
qed

section \<open>Operations that add\<close>

definition alloc :: "literal list \<Rightarrow> bool \<Rightarrow> solver \<Rightarrow> solver" where
  "alloc c learned s = s\<lparr>cdb := (cdb s)\<lparr>m_cls_allocator := m_cls_allocator (cdb s) @ [new_clause c learned]\<rparr>\<rparr>"

lemma alloc_clause_eq: "alloc_clause c learned s = (length (m_cls_allocator (cdb s)), alloc c learned s)"
  by (simp add: alloc_clause_def alloc_def Let_def)

lemma alloc_simps [simp]:
  "asg (alloc c learned s) = asg s" "wl (alloc c learned s) = wl s" "lits (alloc c learned s) = lits s @ [c]"
  "removed (alloc c learned s) = removed s @ [False]"
  "m_cls_allocator (cdb (alloc c learned s)) = m_cls_allocator (cdb s) @ [new_clause c learned]"
  by (simp_all add: alloc_def new_clause_def)

lemma add_to_list_simps [simp]:
  "asg (add_to_list off learned s) = asg s" "wl (add_to_list off learned s) = wl s"
  "m_cls_allocator (cdb (add_to_list off learned s)) = m_cls_allocator (cdb s)"
  by (simp_all add: add_to_list_def)

lemma grow_push: "grow s (push_watch l w s)"
proof -
  have "W_BINARY y b \<in> set (wl (push_watch l w s) ! k)" if "W_BINARY y b \<in> set (wl s ! k)" for k y b
    using push_keeps[OF that, of l "[w]"] by simp
  then show ?thesis by (auto simp: grow_def push_watch_def set_wlist_def)
qed

lemma grow_assign_core: "grow s (assign_core x j s)"
  by (auto simp: grow_def assign_core_def Let_def)

lemma grow_alloc: "grow s (alloc c learned s)"
  by (auto simp: grow_def alloc_def)

lemma grow_add_to_list: "off < length (m_cls_allocator (cdb s)) \<Longrightarrow> grow s (add_to_list off learned s)"
  by (auto simp: grow_def add_to_list_def)

lemma grow_set_clause:
  assumes "off < length (m_cls_allocator (cdb s))" "set (c_lits c) = set (lits s ! off)"
  shows "grow s (set_clause off c s)"
proof -
  have l: "lits (set_clause off c s) = (lits s)[off := c_lits c]" by (simp add: set_clause_def map_update)
  have upd: "set (c_lits c) = map set (lits s) ! off" using assms by simp
  have "map set (lits (set_clause off c s)) = (map set (lits s))[off := set (c_lits c)]" unfolding l by (simp only: map_update)
  also have "\<dots> = map set (lits s)" unfolding upd by (rule list_update_id)
  finally have "set ` set (lits (set_clause off c s)) = set ` set (lits s)" by (metis set_map)
  then have "\<exists>c' \<in> set (lits (set_clause off c s)). set c' = set d" if "d \<in> set (lits s)" for d using that by (metis image_iff)
  then show ?thesis by (auto simp: grow_def set_clause_def)
qed

lemma grow_set_lits:
  assumes "off < length (m_cls_allocator (cdb s))" "set c = set (lits s ! off)"
  shows "grow s (set_lits off c s)"
  unfolding set_lits_def by (rule grow_set_clause[OF assms(1)]) (simp add: assms(2))

section \<open>Attaching the learned clause\<close>

definition asserting :: "literal list set \<Rightarrow> nat \<Rightarrow> solver \<Rightarrow> literal list \<Rightarrow> bool" where
  "asserting F n s c \<longleftrightarrow>
     settled F n s \<and> \<not> inconsistent s \<and> c \<noteq> [] \<and> hd c < 2 * n \<and> lit_value s (hd c) = l_undef \<and> distinct (map lit_var c)
     \<and> (\<forall>l \<in> set (tl c). neg_lit l \<in> set (tr s)) \<and> entails F (set c)
     \<and> (if tl c = [] then scope_lvl s = 0 else 0 < scope_lvl s \<and> (\<exists>l \<in> set (tl c). lit_lvl s l = scope_lvl s))"

definition asserted :: "literal list set \<Rightarrow> nat \<Rightarrow> solver \<Rightarrow> literal \<Rightarrow> nat option \<times> solver \<Rightarrow> bool" where
  "asserted F n s x r \<longleftrightarrow> settled F n (snd r) \<and> \<not> inconsistent (snd r) \<and> grow s (snd r) \<and> tr (snd r) = tr s @ [x]
     \<and> (\<forall>off. fst r = Some off \<longrightarrow> off < length (m_cls_allocator (cdb (snd r))))"

lemma assertingD:
  assumes "asserting F n s (x # ls)"
  shows "settled F n s" "\<not> inconsistent s" "x < 2 * n" "lit_value s x = l_undef" "entails F (set (x # ls))"
    "l \<in> set ls \<Longrightarrow> neg_lit l \<in> set (tr s) \<and> l < 2 * n \<and> lit_value s l = l_false" "distinct (map lit_var (x # ls))"
    "x \<notin> set (tr s)" "neg_lit x \<notin> set (tr s)" "m_qhead (asg s) \<le> length (tr s)"
    "ls \<noteq> [] \<Longrightarrow> 0 < scope_lvl s" "ls = [] \<Longrightarrow> scope_lvl s = 0"
    "ls \<noteq> [] \<Longrightarrow> \<exists>l \<in> set ls. lit_lvl s l = scope_lvl s" "length (wl s) = 2 * n"
proof -
  show s: "settled F n s" and ni: "\<not> inconsistent s" and x: "x < 2 * n" and v: "lit_value s x = l_undef"
    and "entails F (set (x # ls))" and "distinct (map lit_var (x # ls))"
    using assms by (simp_all add: asserting_def)
  note t = settledD(2)[OF s]
  show "x \<notin> set (tr s)" "neg_lit x \<notin> set (tr s)" using value_iff(3)[OF t x] v by (simp_all add: lit_value_def)
  show "m_qhead (asg s) \<le> length (tr s)" by (rule trail_okD(7)[OF t])
  show "length (wl s) = 2 * n" by (rule baseD(5)[OF settledD(1)[OF s]])
  show "neg_lit l \<in> set (tr s) \<and> l < 2 * n \<and> lit_value s l = l_false" if "l \<in> set ls"
  proof -
    have nl: "neg_lit l \<in> set (tr s)" using assms that by (simp add: asserting_def)
    then have "l < 2 * n" using trail_okD(6)[OF t nl] by (simp add: neg_lit_less)
    then show ?thesis using nl value_iff(2)[OF t] by (simp add: lit_value_def)
  qed
  show "ls \<noteq> [] \<Longrightarrow> 0 < scope_lvl s" "ls = [] \<Longrightarrow> scope_lvl s = 0" "ls \<noteq> [] \<Longrightarrow> \<exists>l \<in> set ls. lit_lvl s l = scope_lvl s"
    using assms by (simp_all add: asserting_def)
qed

lemma assert_unit:
  assumes a: "asserting F n s [x]"
  shows "asserted F n s x (mk_simplified [x] True s)"
proof -
  note d = assertingD[OF a]
  let ?s = "assign_core x J_NONE s"
  have r: "mk_simplified [x] True s = (None, ?s)" using d(4) by (simp add: mk_simplified_def assign_def)
  have l0: "scope_lvl s = 0" by (rule d(12)) simp
  have "settled F n ?s \<and> \<not> inconsistent ?s"
  proof -
    have b: "base F n (asg s) (lits s @ []) (wl ?s)" using settledD(1)[OF d(1)] by simp
    have j: "implies_lit F (lits s @ []) (set (tr s)) x J_NONE" using d(5) by (simp add: implies_lit_def)
    from attach_assign[OF d(1,2,10,3,4) b j, where new = "\<lambda>_. []"] show ?thesis
      using l0 settledD(4)[OF d(1)] by simp
  qed
  then show ?thesis using grow_assign_core[of s x J_NONE] unfolding asserted_def r by simp
qed

text \<open>The watches of the clause are in the lists of its negated literals.\<close>

lemma bin_watches_iff: "w \<in> set (bin_watches l1 l2 b k) \<longleftrightarrow>
    k = neg_lit l1 \<and> w = W_BINARY l2 b \<or> k = neg_lit l2 \<and> w = W_BINARY l1 b"
  by (auto simp: bin_watches_def)

lemma ter_watches_iff: "w \<in> set (ter_watches [x, y, z] k) \<longleftrightarrow>
    k = neg_lit x \<and> w = mk_ternary_watch y z \<or> k = neg_lit y \<and> w = mk_ternary_watch x z
      \<or> k = neg_lit z \<and> w = mk_ternary_watch x y"
  by (auto simp: ter_watches_def)

lemma nary_watches_iff: "w \<in> set (nary_watches c off k) \<longleftrightarrow>
    w = W_CLAUSE (c ! (length c div 2)) off \<and> (k = neg_lit (c ! 0) \<or> k = neg_lit (c ! 1))"
  by (auto simp: nary_watches_def Let_def)

lemma push_two:
  assumes "l1 < length (wl s)" "l2 < length (wl s)"
  shows "wl (push_watch l2 w2 (push_watch l1 w1 s)) ! k = wl s ! k @ ((if k = l1 then [w1] else []) @ (if k = l2 then [w2] else []))"
  using assms by (auto simp: nth_list_update)

lemma assert_binary:
  assumes a: "asserting F n s [x, y]"
  shows "asserted F n s x (mk_simplified [x, y] True s)"
proof -
  note d = assertingD[OF a]
  have y: "neg_lit y \<in> set (tr s)" "y < 2 * n" "lit_value s y = l_false" using d(6) by simp_all
  have k: "0 < scope_lvl s" and lv: "lit_lvl s (neg_lit y) = scope_lvl s" using d(11,13) by simp_all
  let ?s1 = "assign_core x (J_BINARY y) s"
  let ?s = "push_watch (neg_lit y) (W_BINARY x True) (push_watch (neg_lit x) (W_BINARY y True) ?s1)"
  have "scope_lvl ?s1 = scope_lvl s" by (simp add: scope_lvl_def)
  then have r: "mk_simplified [x, y] True s = (None, ?s)"
    using d(4) y(3) k by (simp add: mk_simplified_def mk_bin_clause_def propagate_bin_clause_def assign_def Let_def)
  have idx: "neg_lit x < length (wl ?s1)" "neg_lit y < length (wl ?s1)" using d(3,14) y(2) by (simp_all add: neg_lit_less)
  have W': "wl ?s ! l = wl s ! l @ bin_watches x y True l" for l
    unfolding push_two[OF idx] by (simp add: bin_watches_def)
  have len: "length (wl ?s) = length (wl s)" by simp
  have xy: "lit_var x \<noteq> lit_var y" using d(7) by simp
  have e: "entails F {x, y}" using d(5) by simp
  have "base F n (asg s) (lits s) (wl ?s)" by (rule base_add_binary[OF settledD(1)[OF d(1)] d(3) y(2) xy e len W'])
  then have b: "base F n (asg s) (lits s @ []) (wl ?s)" by simp
  have j: "implies_lit F (lits s @ []) (set (tr s)) x (J_BINARY y)" using y(1) e by (simp add: implies_lit_def)
  have sc: "sat_watch (lits s @ []) (set (take (m_trail_lim sc) (tr s))) (set (take p (tr s))) w"
    if p: "sc \<in> set (m_scopes (asg s))" "p < m_trail_lim sc" "w \<in> set (bin_watches x y True (tr s ! p))" for sc p w
  proof -
    have "tr s ! p \<noteq> neg_lit y" by (rule not_below[OF settledD(2)[OF d(1)] k y(1) lv p(1,2)])
    moreover have "p < length (tr s)" using p(1,2) trail_okD(7,10)[OF settledD(2)[OF d(1)]] by (meson order_less_le_trans order_trans)
    then have "tr s ! p \<noteq> neg_lit x" using d(9) by (metis nth_mem)
    ultimately show ?thesis using p(3) by (simp add: bin_watches_iff)
  qed
  have hd: "sat_watch (lits s @ []) (set (tr s @ [x])) (set (take p (tr s))) w"
    if "p < length (tr s)" "w \<in> set (bin_watches x y True (tr s ! p))" for p w
  proof -
    have "w = W_BINARY x True" using that d(9) by (metis bin_watches_iff nth_mem)
    then show ?thesis by (simp add: sat_watch_def)
  qed
  have "settled F n ?s" "\<not> inconsistent ?s"
    by (rule attach_assign[OF d(1,2,10,3,4) b j _ W' sc hd]; use settledD(4)[OF d(1)] in simp)+
  moreover have "grow s ?s" by (rule grow_trans[OF grow_trans[OF grow_assign_core grow_push] grow_push])
  ultimately show ?thesis unfolding asserted_def r by simp
qed

lemma settled_clause_ok:
  assumes "distinct (map lit_var c)" "\<forall>l \<in> set c. l < 2 * n" "entails F (set c)" "3 \<le> length c"
  shows "clause_ok F n c"
  using assms by (simp add: clause_ok_def)

lemma push_three:
  assumes "l1 < length (wl s)" "l2 < length (wl s)" "l3 < length (wl s)"
  shows "wl (push_watch l3 w3 (push_watch l2 w2 (push_watch l1 w1 s))) ! k =
    wl s ! k @ ((if k = l1 then [w1] else []) @ (if k = l2 then [w2] else []) @ (if k = l3 then [w3] else []))"
  using assms by (auto simp: nth_list_update)

definition ter_pushes :: "literal list \<Rightarrow> solver \<Rightarrow> solver" where
  "ter_pushes c s = push_watch (neg_lit (c ! 2)) (mk_ternary_watch (c ! 0) (c ! 1))
     (push_watch (neg_lit (c ! 1)) (mk_ternary_watch (c ! 0) (c ! 2))
     (push_watch (neg_lit (c ! 0)) (mk_ternary_watch (c ! 1) (c ! 2)) s))"

lemma ter_pushes_simps [simp]:
  "asg (ter_pushes c s) = asg s" "m_cls_allocator (cdb (ter_pushes c s)) = m_cls_allocator (cdb s)"
  "length (wl (ter_pushes c s)) = length (wl s)" "grow s (ter_pushes c s)"
proof -
  show "asg (ter_pushes c s) = asg s" "m_cls_allocator (cdb (ter_pushes c s)) = m_cls_allocator (cdb s)"
    "length (wl (ter_pushes c s)) = length (wl s)" by (simp_all add: ter_pushes_def)
  show "grow s (ter_pushes c s)"
    unfolding ter_pushes_def by (rule grow_trans[OF grow_trans[OF grow_push grow_push] grow_push])
qed

lemma ter_pushes_nth:
  assumes "length c = 3" "\<forall>l \<in> set c. l < 2 * n" "length (wl s) = 2 * n"
  shows "wl (ter_pushes c s) ! k = wl s ! k @ clause_watches c off k"
proof -
  have "c ! i < 2 * n" if "i < 3" for i using that assms(1,2) by simp
  then have "neg_lit (c ! 0) < length (wl s)" "neg_lit (c ! 1) < length (wl s)" "neg_lit (c ! 2) < length (wl s)"
    using assms(3) by (simp_all add: neg_lit_less)
  from push_three[OF this] show ?thesis
    unfolding ter_pushes_def by (simp add: clause_watches_def ter_watches_def assms(1))
qed

lemma lit_value_cong: "asg s' = asg s \<Longrightarrow> lit_value s' l = lit_value s l"
  by (simp add: lit_value_def)

lemma scope_lvl_cong: "asg s' = asg s \<Longrightarrow> scope_lvl s' = scope_lvl s"
  by (simp add: scope_lvl_def)

lemma in_scope:
  assumes "trail_ok n (asg s)" "sc \<in> set (m_scopes (asg s))" "p < m_trail_lim sc"
  shows "p < length (tr s)"
  using assms(2,3) trail_okD(7,10)[OF assms(1)] by (meson order_less_le_trans order_trans)

lemma assert_ternary:
  assumes a: "asserting F n s [x, y, z]"
  shows "asserted F n s x (mk_simplified [x, y, z] True s)"
proof -
  note d = assertingD[OF a]
  let ?c = "[x, y, z]" and ?off = "length (m_cls_allocator (cdb s))"
  have y: "neg_lit y \<in> set (tr s)" "y < 2 * n" "lit_value s y = l_false"
    and z: "neg_lit z \<in> set (tr s)" "z < 2 * n" "lit_value s z = l_false" using d(6) by simp_all
  have k: "0 < scope_lvl s" and lv: "lit_lvl s y = scope_lvl s \<or> lit_lvl s z = scope_lvl s" using d(11,13) by auto
  have lt: "\<forall>l \<in> set ?c. l < 2 * n" using d(3) y z by simp
  note t = settledD(2)[OF d(1)]
  define s1 where "s1 = ter_pushes ?c (alloc ?c True s)"
  define s2 where "s2 = assign_core x (J_TERNARY y z) s1"
  have a1: "asg s1 = asg s" by (simp add: s1_def)
  have gc: "c_lits (get_clause (alloc ?c True s) ?off) = ?c" by (simp add: get_clause_def new_clause_def)
  have "attach_ter_clause ?off (alloc ?c True s) = (True, s2)"
    using k y(3) z(3) d(4) unfolding attach_ter_clause_def Let_def gc
    by (simp add: s2_def s1_def ter_pushes_def assign_def lit_value_def scope_lvl_def)
  then have r: "mk_simplified ?c True s = (Some ?off, add_to_list ?off True s2)"
    by (simp add: mk_simplified_def mk_ter_clause_def alloc_clause_eq)
  let ?s = "add_to_list ?off True s2"
  have "length (wl (alloc ?c True s)) = 2 * n" using d(14) by simp
  from ter_pushes_nth[OF _ lt this] have W': "wl s1 ! l = wl s ! l @ clause_watches ?c ?off l" for l
    unfolding s1_def by simp
  then have W2: "wl ?s ! l = wl s ! l @ clause_watches ?c ?off l" for l by (simp add: s2_def)
  have ls: "lits ?s = lits s @ [?c]" by (simp add: s2_def s1_def new_clause_def)
  have rem: "removed ?s = removed s @ [False]" by (simp add: s2_def s1_def new_clause_def)
  have cok: "clause_ok F n ?c" by (rule settled_clause_ok[OF d(7) lt d(5)]) simp
  have "base F n (asg s) (lits s @ [?c]) (wl ?s)"
    by (rule base_add_clause[OF settledD(1)[OF d(1)] cok]) (use W2 in \<open>simp_all add: s2_def s1_def\<close>)
  note b = this
  have j: "implies_lit F (lits s @ [?c]) (set (tr s)) x (J_TERNARY y z)" using y(1) z(1) d(5) by (simp add: implies_lit_def)
  have cw: "clause_watches ?c ?off = ter_watches ?c" by (simp add: clause_watches_def)
  have sc: "sat_watch (lits s @ [?c]) (set (take (m_trail_lim sc) (tr s))) (set (take p (tr s))) w"
    if p: "sc \<in> set (m_scopes (asg s))" "p < m_trail_lim sc" "w \<in> set (clause_watches ?c ?off (tr s ! p))" for sc p w
  proof -
    have nb: "neg_lit u \<notin> set (take (m_trail_lim sc) (tr s))" if "neg_lit u \<in> set (tr s)" "lit_lvl s u = scope_lvl s" for u
      using not_below[OF t k, of "neg_lit u"] that p(1) by (auto simp: in_set_conv_nth)
    have sub: "set (take p (tr s)) \<subseteq> set (take (m_trail_lim sc) (tr s))" using p(2) by (intro set_take_subset_set_take) simp
    have pt: "tr s ! p \<in> set (take (m_trail_lim sc) (tr s))"
      using p(2) in_scope[OF t p(1,2)] by (auto simp: in_set_conv_nth)
    have px: "tr s ! p \<noteq> neg_lit x" using in_scope[OF t p(1,2)] d(9) by (metis nth_mem)
    have nx: "neg_lit x \<notin> set (take p (tr s))" using d(9) by (meson in_set_takeD)
    show ?thesis
      using p(3) px nx nb[OF y(1)] nb[OF z(1)] lv pt sub unfolding cw ter_watches_iff
      by (auto simp: sat_watch_def mk_ternary_watch_def)
  qed
  have hd: "sat_watch (lits s @ [?c]) (set (tr s @ [x])) (set (take p (tr s))) w"
    if p: "p < length (tr s)" "w \<in> set (clause_watches ?c ?off (tr s ! p))" for p w
  proof -
    have px: "tr s ! p \<noteq> neg_lit x" using p(1) d(9) by (metis nth_mem)
    have nx: "neg_lit x \<notin> set (take p (tr s))" using d(9) by (meson in_set_takeD)
    show ?thesis using p(2) px nx unfolding cw ter_watches_iff by (auto simp: sat_watch_def mk_ternary_watch_def)
  qed
  have "settled F n ?s" "\<not> inconsistent ?s"
    by (rule attach_assign[OF d(1,2,10,3,4) b j _ W2 sc hd _ ls];
        use settledD(4)[OF d(1)] rem in \<open>simp add: s2_def a1\<close>)+
  moreover have "grow s ?s"
  proof (rule grow_trans[OF _ grow_add_to_list])
    show "grow s s2" unfolding s2_def s1_def
      by (rule grow_trans[OF grow_trans[OF grow_alloc ter_pushes_simps(4)] grow_assign_core])
  qed (simp add: s2_def s1_def)
  moreover have "tr ?s = tr s @ [x]" by (simp add: s2_def a1)
  moreover have "?off < length (m_cls_allocator (cdb ?s))" by (simp add: s2_def s1_def)
  ultimately show ?thesis unfolding asserted_def r by simp
qed

text \<open>The second watch of a learned clause is a literal of the greatest level.\<close>

lemma watch_fold:
  assumes "\<forall>i \<in> set is. i \<noteq> uint_max"
    and "r = fold (\<lambda>i m. if m = uint_max \<or> lit_lvl s (c ! i) > lit_lvl s (c ! m) then i else m) is m0"
  shows "(r = m0 \<or> r \<in> set is) \<and> (\<forall>i \<in> set is. r \<noteq> uint_max \<and> lit_lvl s (c ! i) \<le> lit_lvl s (c ! r))
    \<and> (m0 \<noteq> uint_max \<longrightarrow> r \<noteq> uint_max \<and> lit_lvl s (c ! m0) \<le> lit_lvl s (c ! r))"
  using assms
proof (induction "is" arbitrary: m0)
  case (Cons i xs)
  let ?m = "if m0 = uint_max \<or> lit_lvl s (c ! i) > lit_lvl s (c ! m0) then i else m0"
  have "(r = ?m \<or> r \<in> set xs) \<and> (\<forall>i \<in> set xs. r \<noteq> uint_max \<and> lit_lvl s (c ! i) \<le> lit_lvl s (c ! r))
    \<and> (?m \<noteq> uint_max \<longrightarrow> r \<noteq> uint_max \<and> lit_lvl s (c ! ?m) \<le> lit_lvl s (c ! r))"
    by (rule Cons.IH) (use Cons.prems in simp_all)
  moreover have "i \<noteq> uint_max" using Cons.prems(1) by simp
  ultimately show ?case by (cases "m0 = uint_max \<or> lit_lvl s (c ! i) > lit_lvl s (c ! m0)") auto
qed simp

lemma select_learned_ok:
  assumes "2 \<le> length c" "length c \<le> uint_max"
  shows "1 \<le> select_learned_watch_lit s c" "select_learned_watch_lit s c < length c"
    "\<And>i. 1 \<le> i \<Longrightarrow> i < length c \<Longrightarrow> lit_lvl s (c ! i) \<le> lit_lvl s (c ! select_learned_watch_lit s c)"
proof -
  let ?r = "select_learned_watch_lit s c"
  have "\<forall>i \<in> set [1..<length c]. i \<noteq> uint_max" using assms(2) by auto
  from watch_fold[OF this select_learned_watch_lit_def] have f: "?r = uint_max \<or> ?r \<in> set [1..<length c]"
    "\<forall>i \<in> set [1..<length c]. ?r \<noteq> uint_max \<and> lit_lvl s (c ! i) \<le> lit_lvl s (c ! ?r)" by blast+
  have "1 \<in> set [1..<length c]" using assms(1) by simp
  then have "?r \<in> set [1..<length c]" using f by blast
  then show "1 \<le> ?r" "?r < length c" by simp_all
  show "lit_lvl s (c ! i) \<le> lit_lvl s (c ! ?r)" if "1 \<le> i" "i < length c" for i using f(2) that by simp
qed

lemma clause_length:
  assumes "distinct (map lit_var c)" "\<forall>l \<in> set c. l < 2 * n" "n \<le> null_bool_var"
  shows "length c \<le> uint_max"
proof -
  have "set (map lit_var c) \<subseteq> {..<n}" using assms(2) by (auto simp: lit_var_less)
  then have "card (set (map lit_var c)) \<le> n" using card_mono[of "{..<n}"] by fastforce
  then have "length c \<le> n" using distinct_card[OF assms(1)] by simp
  then show ?thesis using assms(3) by (simp add: null_bool_var_def uint_max_def)
qed

definition nary_pushes :: "literal list \<Rightarrow> nat \<Rightarrow> solver \<Rightarrow> solver" where
  "nary_pushes c off s = push_watch (neg_lit (c ! 1)) (W_CLAUSE (c ! (length c div 2)) off)
     (push_watch (neg_lit (c ! 0)) (W_CLAUSE (c ! (length c div 2)) off) s)"

lemma nary_pushes_simps [simp]:
  "asg (nary_pushes c off s) = asg s" "m_cls_allocator (cdb (nary_pushes c off s)) = m_cls_allocator (cdb s)"
  "length (wl (nary_pushes c off s)) = length (wl s)" "grow s (nary_pushes c off s)"
proof -
  show "asg (nary_pushes c off s) = asg s" "m_cls_allocator (cdb (nary_pushes c off s)) = m_cls_allocator (cdb s)"
    "length (wl (nary_pushes c off s)) = length (wl s)" by (simp_all add: nary_pushes_def)
  show "grow s (nary_pushes c off s)" unfolding nary_pushes_def by (rule grow_trans[OF grow_push grow_push])
qed

lemma nary_pushes_nth:
  assumes "3 < length c" "\<forall>l \<in> set c. l < 2 * n" "length (wl s) = 2 * n"
  shows "wl (nary_pushes c off s) ! k = wl s ! k @ clause_watches c off k"
proof -
  have "c ! i < 2 * n" if "i < 3" for i using that assms(1,2) by simp
  then have "neg_lit (c ! 0) < length (wl s)" "neg_lit (c ! 1) < length (wl s)" using assms(3) by (simp_all add: neg_lit_less)
  from push_two[OF this] show ?thesis
    using assms(1) unfolding nary_pushes_def by (simp add: clause_watches_def nary_watches_def Let_def)
qed

lemma set_lits_alloc:
  "lits (set_lits (length (m_cls_allocator (cdb s))) c' (alloc c learned s)) = lits s @ [c']"
  "removed (set_lits (length (m_cls_allocator (cdb s))) c' (alloc c learned s)) = removed s @ [False]"
  by (simp_all add: set_lits_def set_clause_def alloc_def get_clause_def new_clause_def map_update list_update_append)

lemma assert_nary:
  assumes a: "asserting F n s (x # ls)" and len: "3 \<le> length ls"
  shows "asserted F n s x (mk_simplified (x # ls) True s)"
proof -
  note d = assertingD[OF a]
  let ?c = "x # ls" and ?off = "length (m_cls_allocator (cdb s))"
  note t = settledD(2)[OF d(1)]
  have ne: "ls \<noteq> []" and l3: "3 < length ?c" using len by auto
  note k = d(11)[OF ne]
  have lt: "\<forall>l \<in> set ?c. l < 2 * n" using d(3,6) by simp
  have cl: "length ?c \<le> uint_max" by (rule clause_length[OF d(7) lt baseD(1)[OF settledD(1)[OF d(1)]]])
  define m where "m = select_learned_watch_lit (alloc ?c True s) ?c"
  have lv: "lit_lvl (alloc ?c True s) l = lit_lvl s l" for l by (simp add: lit_lvl_def)
  note sel = select_learned_ok[where c = ?c and s = "alloc ?c True s", OF _ cl, folded m_def]
  have m: "1 \<le> m" "m < length ?c" using sel(1,2) l3 by simp_all
  define c where "c = swap_lits 1 m ?c"
  have i1: "1 < length ?c" using l3 by linarith
  note sp = swap_lits_props[OF i1 m(2), folded c_def] and nth = swap_lits_nth[OF i1 m(2), folded c_def]
  have c0: "c ! 0 = x" and c1: "c ! 1 = ?c ! m" using nth m(1) by auto
  have mls: "?c ! m \<in> set ls" using m by (cases m) auto
  obtain l where l: "l \<in> set ls" "lit_lvl s l = scope_lvl s" using d(13)[OF ne] by blast
  from l(1) obtain j where "j < length ls" "l = ls ! j" by (auto simp: in_set_conv_nth)
  then have "1 \<le> Suc j \<and> Suc j < length ?c \<and> l = ?c ! Suc j" by simp
  then obtain i where i: "1 \<le> i" "i < length ?c" "l = ?c ! i" by blast
  have nl: "neg_lit (?c ! m) \<in> set (tr s)" "lit_value s (?c ! m) = l_false" using d(6)[OF mls] by simp_all
  have "lit_lvl s (?c ! m) \<le> scope_lvl s"
  proof -
    obtain q where "q < length (tr s)" "neg_lit (?c ! m) = tr s ! q" using nl(1) by (metis in_set_conv_nth)
    then have "lit_lvl s (neg_lit (?c ! m)) \<le> scope_lvl s" using lit_lvl_trail[OF t] level_le_scope[OF t] by (simp add: scope_lvl_def)
    then show ?thesis by simp
  qed
  then have lvm: "lit_lvl s (neg_lit (c ! 1)) = scope_lvl s" using sel(3)[OF _ i(1,2)] l3 l(2) i(3) c1 lv by simp
  have nc1: "neg_lit (c ! 1) \<in> set (tr s)" "lit_value s (c ! 1) = l_false" using nl c1 by simp_all
  define s0 where "s0 = set_lits ?off c (alloc ?c True s)"
  define s1 where "s1 = assign_core x (J_CLAUSE ?off) s0"
  define s2 where "s2 = nary_pushes c ?off s1"
  have gc: "c_learned (get_clause (alloc ?c True s) ?off)" "c_lits (get_clause (alloc ?c True s) ?off) = ?c"
    by (simp_all add: get_clause_def new_clause_def)
  have ch: "choose_watches (alloc ?c True s) True ?c = c" by (simp add: choose_watches_def c_def m_def)
  have v0: "lit_value s0 x = l_undef" "lit_value s0 (c ! 1) = l_false" using d(4) nc1(2) by (simp_all add: s0_def lit_value_def)
  have lits0: "lits s0 = lits s @ [c]" "removed s0 = removed s @ [False]" unfolding s0_def by (rule set_lits_alloc)+
  have lits1: "c_lits (get_clause s1 ?off) = c"
  proof -
    have "length (m_cls_allocator (cdb s1)) = length (lits s1)" by simp
    moreover have "lits s1 = lits s @ [c]" using lits0 by (simp add: s1_def)
    ultimately have "?off < length (m_cls_allocator (cdb s1))" "lits s1 ! ?off = c" by (simp, metis length_map nth_append_length)
    then show ?thesis by (simp add: get_clause_def)
  qed
  have sc0: "scope_lvl (alloc ?c True s) = scope_lvl s" by (simp add: scope_lvl_def)
  have "attach_nary_clause ?off (alloc ?c True s) = (True, s2)"
    unfolding attach_nary_clause_def Let_def gc(2) sc0 using gc(1) k v0 c0 ch
    by (simp add: assign_def lits1 flip: s0_def s1_def) (simp add: s2_def nary_pushes_def flip: s1_def)
  moreover have "\<exists>a b c' e ls'. ?c = a # b # c' # e # ls'" using len by (auto simp: Suc_le_length_iff numeral_3_eq_3)
  ultimately have r: "mk_simplified ?c True s = (Some ?off, add_to_list ?off True s2)"
    by (auto simp: mk_simplified_def mk_nary_clause_def alloc_clause_eq)
  let ?s = "add_to_list ?off True s2"
  have wl1: "wl s1 = wl s" by (simp add: s1_def s0_def)
  have ltc: "\<forall>l \<in> set c. l < 2 * n" and l3c: "3 < length c" using lt l3 sp by auto
  have W2: "wl ?s ! l = wl s ! l @ clause_watches c ?off l" for l
    using nary_pushes_nth[OF l3c ltc, of s1] wl1 d(14) by (simp add: s2_def)
  have ls: "lits ?s = lits s @ [c]" and rem: "removed ?s = removed s @ [False]"
    using lits0 by (simp_all add: s2_def s1_def)
  have "distinct (map lit_var c)" "entails F (set c)" using d(5,7) unfolding sp(1,3) by blast+
  then have cok: "clause_ok F n c" using ltc l3c by (intro settled_clause_ok) simp_all
  have lenW: "length (wl ?s) = length (wl s)" using wl1 by (simp add: s2_def)
  have offL: "?off = length (lits s)" by simp
  have b: "base F n (asg s) (lits s @ [c]) (wl ?s)"
    by (rule base_add_clause[OF settledD(1)[OF d(1)] cok lenW]) (use W2 in simp)
  have j: "implies_lit F (lits s @ [c]) (set (tr s)) x (J_CLAUSE ?off)"
    using d(6) c0 sp(1) by (auto simp: implies_lit_def nth_append)
  have cw: "clause_watches c ?off = nary_watches c ?off" using l3c by (simp add: clause_watches_def)
  have sc: "sat_watch (lits s @ [c]) (set (take (m_trail_lim sc) (tr s))) (set (take p (tr s))) w"
    if p: "sc \<in> set (m_scopes (asg s))" "p < m_trail_lim sc" "w \<in> set (clause_watches c ?off (tr s ! p))" for sc p w
  proof -
    have "tr s ! p \<noteq> neg_lit (c ! 1)" by (rule not_below[OF t k nc1(1) lvm p(1,2)])
    moreover have "tr s ! p \<noteq> neg_lit x" using in_scope[OF t p(1,2)] d(9) by (metis nth_mem)
    ultimately show ?thesis using p(3) c0 by (simp add: cw nary_watches_iff)
  qed
  have hd: "sat_watch (lits s @ [c]) (set (tr s @ [x])) (set (take p (tr s))) w"
    if p: "p < length (tr s)" "w \<in> set (clause_watches c ?off (tr s ! p))" for p w
  proof -
    have "x \<in> set c" using sp(1) by simp
    then show ?thesis using p(2) by (auto simp: cw nary_watches_iff sat_watch_def nth_append)
  qed
  have asg2: "asg ?s = assign_asg x (J_CLAUSE ?off) (asg s)" by (simp add: s2_def s1_def s0_def)
  have "settled F n ?s" "\<not> inconsistent ?s"
    by (rule attach_assign[OF d(1,2,10,3,4) b j _ W2 sc hd asg2 ls];
        use settledD(4)[OF d(1)] rem in simp)+
  moreover have g0: "grow s s0" unfolding s0_def
    by (rule grow_trans[OF grow_alloc grow_set_lits]) (use sp(1) in \<open>simp_all add: nth_append new_clause_def\<close>)
  then have "grow s s2" unfolding s2_def s1_def by (rule grow_trans[OF grow_trans[OF _ grow_assign_core] nary_pushes_simps(4)])
  moreover have offs: "?off < length (m_cls_allocator (cdb s2))"
  proof -
    have "length (lits s2) = Suc (length (lits s))" using lits0 by (simp add: s2_def s1_def)
    then show ?thesis by simp
  qed
  ultimately have "grow s ?s" using grow_trans[OF _ grow_add_to_list] by blast
  then show ?thesis using offs \<open>settled F n ?s\<close> \<open>\<not> inconsistent ?s\<close> asg2 unfolding asserted_def r by simp
qed

lemma assert_learned:
  assumes a: "asserting F n s (x # ls)"
  shows "asserted F n s x (mk_simplified (x # ls) True s)"
proof -
  consider "ls = []" | y where "ls = [y]" | y z where "ls = [y, z]" | "3 \<le> length ls"
    by (cases ls rule: remdups_adj.cases; simp; metis One_nat_def Suc_le_length_iff le0 numeral_3_eq_3 remdups_adj.cases)
  then show ?thesis
    using a assert_unit assert_binary assert_ternary assert_nary by cases blast+
qed

section \<open>Learning\<close>

lemma fold_max:
  "a \<le> fold (\<lambda>l m. max m (f l)) ls (a :: nat) \<and> (\<forall>l \<in> set ls. f l \<le> fold (\<lambda>l m. max m (f l)) ls a)
    \<and> (fold (\<lambda>l m. max m (f l)) ls a = a \<or> (\<exists>l \<in> set ls. f l = fold (\<lambda>l m. max m (f l)) ls a))"
proof (induction ls arbitrary: a)
  case (Cons l ls)
  show ?case using Cons[of "max a (f l)"] by (auto simp: max_def split: if_splits)
qed simp

text \<open>After backtracking to the greatest level of its other literals, the learned clause is asserting.\<close>

lemma learned_asserting:
  assumes s: "settled F n s" and q: "quiet n s" and c: "covered F s" and k: "0 < scope_lvl s"
    and l: "learned_ok F s (x # ls)" and new: "new = fold (\<lambda>l m. max m (lit_lvl s l)) ls 0"
    and s1: "s1 = sat_pop (scope_lvl s - new) s"
  shows "asserting F n s1 (x # ls)" "new < scope_lvl s"
proof -
  note d = settledD[OF s]
  note t = d(2)
  obtain uip where uip: "x = neg_lit uip" "uip \<in> set (tr s)" "lit_lvl s uip = scope_lvl s" and dl: "distinct ls"
    and lo: "\<And>l. l \<in> set ls \<Longrightarrow> neg_lit l \<in> set (tr s) \<and> 0 < lit_lvl s l \<and> lit_lvl s l < scope_lvl s"
    and ent: "entails F (set (x # ls))" using l unfolding learned_ok_def by auto
  have mx: "l \<in> set ls \<Longrightarrow> lit_lvl s l \<le> new" "new = 0 \<or> (\<exists>l \<in> set ls. lit_lvl s l = new)" for l
    using fold_max[of 0 "lit_lvl s" ls] unfolding new by blast+
  show nk: "new < scope_lvl s" using mx(2) lo k by auto
  note p = sat_pop_ok[OF s q c nk s1]
  have "m_clauses_to_reinit (cdb s) = []" using q by (simp add: quiet_def)
  note e = sat_pop_eq[OF this nk, folded s1]
  let ?q = "m_trail_lim (m_scopes (asg s) ! new)"
  have nk': "new < m_scope_lvl (asg s)" using nk by (simp add: scope_lvl_def)
  have len: "new < length (m_scopes (asg s))" using trail_okD(8)[OF t] nk' by simp
  have s1s: "settled F n s1" using p(1) by (simp add: sat_inv_def)
  have lv: "lit_lvl s1 l = lit_lvl s l" for l by (simp add: lit_lvl_def e)
  have before: "y \<in> set (tr s1) \<longleftrightarrow> lit_lvl s y \<le> new" if "y \<in> set (tr s)" for y
  proof -
    from that obtain i where i: "i < length (tr s)" "y = tr s ! i" by (auto simp: in_set_conv_nth)
    have "y \<in> set (tr s1) \<longleftrightarrow> i < ?q"
    proof
      assume "y \<in> set (tr s1)"
      then obtain j where "j < ?q" "j < length (tr s)" "y = tr s ! j" by (auto simp: e in_set_conv_nth)
      then show "i < ?q" using i nth_eq_iff_index_eq[OF trail_okD(5)[OF t]] by simp
    qed (use i in \<open>auto simp: e in_set_conv_nth\<close>)
    also have "\<dots> \<longleftrightarrow> level_at (asg s) i \<le> new" using level_at_iff[OF trail_okD(9)[OF t] len, of i] by auto
    finally show ?thesis using lit_lvl_trail[OF t i(1)] i(2) by simp
  qed
  have x: "x < 2 * n" using trail_okD(6)[OF t uip(2)] by (simp add: uip(1) neg_lit_less)
  have sub: "set (tr s1) \<subseteq> set (tr s)" by (simp add: e set_take_subset)
  have nu: "x \<notin> set (tr s)" using trail_consistent[OF t uip(2)] by (simp add: uip(1))
  have "x \<notin> set (tr s1)" "neg_lit x \<notin> set (tr s1)" using nu sub before[OF uip(2)] uip(1,3) nk by auto
  then have v: "lit_value s1 x = l_undef" using value_iff(3)[OF settledD(2)[OF s1s] x] by (simp add: lit_value_def)
  have "inj_on lit_var (set ls)"
  proof (rule inj_onI)
    fix a b assume ab: "a \<in> set ls" "b \<in> set ls" "lit_var a = lit_var b"
    then have "neg_lit a = neg_lit b" using same_var[OF t, of "neg_lit a" "neg_lit b"] lo by simp
    then show "a = b" by simp
  qed
  moreover have "lit_var x \<notin> lit_var ` set ls"
  proof
    assume "lit_var x \<in> lit_var ` set ls"
    then obtain y where "y \<in> set ls" "lit_var y = lit_var uip" by (auto simp: uip(1))
    then have "neg_lit y = uip" using same_var[OF t _ uip(2), of "neg_lit y"] lo by simp
    then show False using lo[OF \<open>y \<in> set ls\<close>] uip(3) lit_lvl_neg[of s y] by simp
  qed
  ultimately have dv: "distinct (map lit_var (x # ls))" using dl by (simp add: distinct_map)
  have tl: "neg_lit l \<in> set (tr s1)" if "l \<in> set ls" for l using before[of "neg_lit l"] lo[OF that] mx(1)[OF that] by simp
  have top: "if ls = [] then scope_lvl s1 = 0 else 0 < scope_lvl s1 \<and> (\<exists>l \<in> set ls. lit_lvl s1 l = scope_lvl s1)"
  proof (cases "ls = []")
    case True
    then show ?thesis using mx(2) p(4) by simp
  next
    case False
    then obtain l where "l \<in> set ls" by (cases ls) auto
    then have "0 < new" using lo mx(1) by fastforce
    then show ?thesis using False mx(2) p(4) lv by auto
  qed
  show "asserting F n s1 (x # ls)"
    unfolding asserting_def using s1s p(2) x v dv tl ent top by simp
qed

lemma settled_cong:
  assumes "asg s' = asg s" "lits s' = lits s" "wl s' = wl s" "removed s' = removed s" "settled F n s" "\<not> inconsistent s"
  shows "settled F n s'" "\<not> inconsistent s'"
proof -
  have i: "inconsistent s' = inconsistent s" by (simp add: inconsistent_def assms(1))
  show "\<not> inconsistent s'" using i assms(6) by simp
  show "settled F n s'" using assms(5,6) unfolding settled_def i assms(1-4) by simp
qed

lemma covered_cong:
  assumes "asg s' = asg s" "lits s' = lits s" "wl s' = wl s"
  shows "covered F s' = covered F s"
proof -
  have "covers s' d = covers s d" for d unfolding covers_def root_true_def assms ..
  then show ?thesis by (simp add: covered_def inconsistent_def scope_lvl_def assms(1))
qed

lemma settled_core:
  assumes "asg s' = asg s" "cdb s' = cdb s"
  shows "settled F n s' = settled F n s" "conflict_ok F s' = conflict_ok F s" "covered F s' = covered F s"
proof -
  have g: "get_clause s' off = get_clause s off" for off by (simp add: get_clause_def assms)
  have i: "inconsistent s' = inconsistent s" "scope_lvl s' = scope_lvl s" by (simp_all add: inconsistent_def scope_lvl_def assms(1))
  have "js_antecedents s' x j = js_antecedents s x j" for x j unfolding js_antecedents_def g ..
  then show c: "conflict_ok F s' = conflict_ok F s" unfolding conflict_ok_def assms i by presburger
  show "settled F n s' = settled F n s" unfolding settled_def assms i c ..
  show "covered F s' = covered F s" by (rule covered_cong) (simp_all add: assms)
qed

lemma quiet_core:
  assumes "asg s' = asg s" "cdb s' = cdb s" "clean n s'" "act_ok n (queue s')" "m_eliminated (heu s') = m_eliminated (heu s)"
    and "elems (m_case_split_queue (queue s')) = elems (m_case_split_queue (queue s))" "quiet n s"
  shows "quiet n s'"
proof -
  have "waiting n s'" using assms(1,6,7) by (simp add: quiet_def waiting_def)
  then show ?thesis using assms(3,4,7) unfolding quiet_def assms(1,2,5) by blast
qed

text \<open>The counters that bound the search.\<close>

definition same_counters :: "solver \<Rightarrow> solver \<Rightarrow> bool" where
  "same_counters s s' \<longleftrightarrow> m_config s' = m_config s \<and> m_conflicts (heu s') = m_conflicts (heu s)
     \<and> m_conflicts_since_restart (heu s') = m_conflicts_since_restart (heu s) \<and> m_restart_threshold (heu s') = m_restart_threshold (heu s)"

text \<open>A jump back: the trail is cut at the limit of an earlier scope, and a literal that was false is asserted.\<close>

definition backjump :: "solver \<Rightarrow> solver \<Rightarrow> bool" where
  "backjump s s' \<longleftrightarrow> scope_lvl s' < scope_lvl s \<and> m_scopes (asg s') = take (scope_lvl s') (m_scopes (asg s))
     \<and> (\<exists>x. tr s' = take (m_trail_lim (m_scopes (asg s) ! scope_lvl s')) (tr s) @ [x] \<and> neg_lit x \<in> set (tr s))"

lemma backjump_cong: "asg s1 = asg s \<Longrightarrow> backjump s1 s' = backjump s s'"
  by (simp add: backjump_def scope_lvl_def)

lemma learn_lemma_ok:
  assumes s: "settled F n s" and q: "quiet n s" and c: "covered F s" and k: "0 < scope_lvl s"
    and l: "learned_ok F s (m_lemma (ana s))" and inc: "unat (m_activity_inc (queue s)) \<le> 16777216"
  shows "sat_inv F n (learn_lemma s)" "\<not> inconsistent (learn_lemma s)" "same_counters s (learn_lemma s)"
    "backjump s (learn_lemma s)"
proof -
  obtain x ls where ls: "m_lemma (ana s) = x # ls" using l by (auto simp: learned_ok_def)
  define new where "new = fold (\<lambda>l m. max m (lit_lvl s l)) ls 0"
  define s1 where "s1 = sat_pop (scope_lvl s - new) s"
  note as = learned_asserting[OF s q c k l[unfolded ls] new_def s1_def]
  note p = sat_pop_ok[OF s q c as(2) s1_def]
  have "m_clauses_to_reinit (cdb s) = []" using q by (simp add: quiet_def)
  note e = sat_pop_eq[OF this as(2), folded s1_def]
  obtain cls s2 where r: "mk_simplified (x # ls) True s1 = (cls, s2)" by fastforce
  have ast: "settled F n s2" "\<not> inconsistent s2" "grow s1 s2" "tr s2 = tr s1 @ [x]"
    and off: "\<And>off. cls = Some off \<Longrightarrow> off < length (m_cls_allocator (cdb s2))"
    using assert_learned[OF as(1)] unfolding asserted_def r by simp_all
  define glue where "glue = num_diff_levels s (x # ls)"
  define s3 where "s3 = (case cls of None \<Rightarrow> s2 | Some off \<Rightarrow> set_clause off (set_glue glue (get_clause s2 off)) s2)"
  have g3: "grow s2 s3"
    unfolding s3_def using off by (auto split: option.split intro!: grow_set_clause simp: set_glue_def get_clause_def)
  have e3: "asg s3 = asg s2" "lits s3 = lits s2" "wl s3 = wl s2" "removed s3 = removed s2"
    unfolding s3_def by (auto split: option.split simp: set_clause_def set_glue_def get_clause_def map_update_same)
  have g: "grow s1 s3" by (rule grow_trans[OF ast(3) g3])
  note s3 = settled_cong[OF e3 ast(1,2)]
  have sat1: "settled F n s1" "quiet n s1" "covered F s1" using p(1) by (simp_all add: sat_inv_def)
  have q3: "quiet n s3" by (rule grow_quiet[OF g sat1(2)])
  have c3: "covered F s3" by (rule grow_covered[OF g sat1(3)]) (simp add: p(2))
  define s4 where "s4 = s3\<lparr>queue := decay_activity (queue s3)\<rparr>"
  have eq: "learn_lemma s = updt_phase_counters s4"
    unfolding learn_lemma_def Let_def ls s4_def s3_def glue_def
    by (simp add: mk_clause_core_def e(3) ls r flip: new_def s1_def)
  have f: "asg (learn_lemma s) = asg s3" "cdb (learn_lemma s) = cdb s3" "ana (learn_lemma s) = ana s3"
    "queue (learn_lemma s) = decay_activity (queue s3)" "m_eliminated (heu (learn_lemma s)) = m_eliminated (heu s3)"
    "m_config (learn_lemma s) = m_config s3" "m_conflicts (heu (learn_lemma s)) = m_conflicts (heu s3)"
    "m_conflicts_since_restart (heu (learn_lemma s)) = m_conflicts_since_restart (heu s3)"
    "m_restart_threshold (heu (learn_lemma s)) = m_restart_threshold (heu s3)"
    unfolding eq by (simp_all add: updt_phase_counters_def s4_def Let_def)
  have "unat (m_activity_inc (queue s3)) \<le> 16777216" using inc p(5) growD(2)[OF g] by simp
  then have dec: "act_ok n (decay_activity (queue s3))" "m_case_split_queue (decay_activity (queue s3)) = m_case_split_queue (queue s3)"
    using decay_activity_ok[of n "queue s3"] q3 by (simp_all add: quiet_def)
  have "clean n (learn_lemma s)" using q3 unfolding quiet_def clean_def f(3) by blast
  then have "quiet n (learn_lemma s)"
    by (rule quiet_core[OF f(1,2) _ _ f(5) _ q3]) (use dec in \<open>simp_all add: f(4)\<close>)
  then show "sat_inv F n (learn_lemma s)" using s3(1) c3 settled_core[OF f(1,2)] by (simp add: sat_inv_def)
  show "\<not> inconsistent (learn_lemma s)" using s3(2) by (simp add: inconsistent_def f(1))
  show "same_counters s (learn_lemma s)"
    unfolding same_counters_def f using growD(3,14-16)[OF g] e(4,5) by simp
  have "neg_lit x \<in> set (tr s)" using l[unfolded ls] by (auto simp: learned_ok_def)
  moreover have "scope_lvl (learn_lemma s) = new" "m_scopes (asg (learn_lemma s)) = take new (m_scopes (asg s))"
    using growD(6,7)[OF g] p(4) by (simp_all add: scope_lvl_def f(1) e(1))
  moreover have "tr (learn_lemma s) = take (m_trail_lim (m_scopes (asg s) ! new)) (tr s) @ [x]" by (simp add: f(1) e3(1) ast(4) e(1))
  ultimately show "backjump s (learn_lemma s)" using as(2) by (simp add: backjump_def)
qed

section \<open>Resolving a conflict\<close>

definition resolve_post :: "literal list set \<Rightarrow> nat \<Rightarrow> solver \<Rightarrow> (bool \<times> solver) option \<Rightarrow> bool" where
  "resolve_post F n s res \<longleftrightarrow>
     (\<exists>r s'. res = Some (r, s') \<and> sat_inv F n s' \<and> (if r then \<not> inconsistent s' else entails F {} \<and> inconsistent s' \<and> scope_lvl s' = 0)
        \<and> m_conflicts (heu s') = m_conflicts (heu s) + 1 \<and> m_config s' = m_config s
        \<and> m_conflicts_since_restart (heu s') = m_conflicts_since_restart (heu s) + 1 \<and> m_restart_threshold (heu s') = m_restart_threshold (heu s)
        \<and> (r \<longrightarrow> backjump s s'))"

lemma resolve_postI:
  assumes "sat_inv F n s'" "if r then \<not> inconsistent s' else entails F {} \<and> inconsistent s' \<and> scope_lvl s' = 0"
    and "m_conflicts (heu s') = m_conflicts (heu s) + 1" "m_config s' = m_config s"
    "m_conflicts_since_restart (heu s') = m_conflicts_since_restart (heu s) + 1" "m_restart_threshold (heu s') = m_restart_threshold (heu s)"
    "r \<Longrightarrow> backjump s s'"
  shows "resolve_post F n s (Some (r, s'))"
  using assms unfolding resolve_post_def by blast

lemma root_conflict:
  assumes "settled F n s" "inconsistent s" "scope_lvl s = 0"
  shows "entails F {}"
  using settledD(5)[OF assms(1,2)] assms(3) by (simp add: conflict_ok_def)

theorem resolve_conflict_core_ok:
  assumes inv: "sat_inv F n s" and i: "inconsistent s"
  shows "resolve_post F n s (resolve_conflict_core s)"
proof -
  have s: "settled F n s" and q: "quiet n s" and c: "covered F s" using inv by (simp_all add: sat_inv_def)
  note d = settledD[OF s]
  define s0 where "s0 = s\<lparr>heu := (heu s)\<lparr>m_conflicts := m_conflicts (heu s) + 1,
                                m_conflicts_since_restart := m_conflicts_since_restart (heu s) + 1\<rparr>\<rparr>"
  have eq: "resolve_conflict_core s = (if scope_lvl s0 = 0 then Some (False, s0)
      else map_option (\<lambda>s5. (True, learn_lemma s5)) (analyze (set_lemma [null_literal] (forget_phase_of_vars (scope_lvl s0) s0))))"
    using resolve_conflict_core_eq[of s] unfolding Let_def s0_def .
  have f0: "asg s0 = asg s" "cdb s0 = cdb s" "ana s0 = ana s" "queue s0 = queue s" "m_eliminated (heu s0) = m_eliminated (heu s)"
    "m_config s0 = m_config s" by (simp_all add: s0_def)
  have k0: "scope_lvl s0 = scope_lvl s" by (simp add: scope_lvl_def f0)
  have cl0: "clean n s0" using q unfolding quiet_def clean_def f0 by blast
  have q0: "quiet n s0" by (rule quiet_core[OF f0(1,2) cl0 _ f0(5) _ q]) (use q in \<open>simp_all add: f0 quiet_def\<close>)
  have inv0: "sat_inv F n s0" using q0 s c settled_core[OF f0(1,2)] by (simp add: sat_inv_def)
  show ?thesis
  proof (cases "scope_lvl s = 0")
    case True
    then have "resolve_conflict_core s = Some (False, s0)" unfolding eq by (simp add: k0)
    moreover have "inconsistent s0" using i by (simp add: inconsistent_def f0)
    moreover have "resolve_post F n s (Some (False, s0))"
      using inv0 \<open>inconsistent s0\<close> root_conflict[OF s i True] True k0 by (intro resolve_postI) (simp_all add: s0_def)
    ultimately show ?thesis by simp
  next
    case False
    define s1 where "s1 = set_lemma [null_literal] (forget_phase_of_vars (scope_lvl s0) s0)"
    have f1: "asg s1 = asg s0" "cdb s1 = cdb s0" "queue s1 = queue s0" "m_eliminated (heu s1) = m_eliminated (heu s0)"
      "m_config s1 = m_config s0" "m_conflicts (heu s1) = m_conflicts (heu s0)"
      "m_conflicts_since_restart (heu s1) = m_conflicts_since_restart (heu s0)" "m_restart_threshold (heu s1) = m_restart_threshold (heu s0)"
      "m_lemma (ana s1) = [null_literal]" by (simp_all add: s1_def forget_phase_of_vars_def Let_def)
    have cl1: "clean n s1" using cl0 by (simp add: clean_def s1_def forget_phase_of_vars_def Let_def set_lemma_def)
    have k1: "0 < scope_lvl s1" using False k0 by (simp add: scope_lvl_def f1)
    have q1: "quiet n s1" by (rule quiet_core[OF f1(1,2) cl1 _ f1(4) _ q0]) (use q0 in \<open>simp_all add: f1(3) quiet_def\<close>)
    have s1: "settled F n s1" "covered F s1" "conflict_ok F s1"
      using s c d(5)[OF i] settled_core[OF f0(1,2)] settled_core[OF f1(1,2)] by simp_all
    have "act_ok n (queue s1)" using q1 by (simp add: quiet_def)
    from analyze_ok[OF settledD(1)[OF s1(1)] k1 s1(3) cl1 this f1(9)] obtain s5 where
      a: "analyze s1 = Some s5" and core: "same_core s1 s5" and cl5: "clean n s5" and act5: "act_ok n (queue s5)"
      and inc5: "unat (m_activity_inc (queue s5)) \<le> 16777216" and l5: "learned_ok F s1 (m_lemma (ana s5))" by blast
    note e = same_coreD[OF core]
    have h5: "heu s5 = heu s1" "m_config s5 = m_config s1" "elems (m_case_split_queue (queue s5)) = elems (m_case_split_queue (queue s1))"
      using core by (simp_all add: same_core_def)
    have q5: "quiet n s5" by (rule quiet_core[OF e(5,6) cl5 act5 _ h5(3) q1]) (simp add: h5)
    have "learned_ok F s5 (m_lemma (ana s5))" using l5 unfolding learned_ok_def e .
    note L = learn_lemma_ok[OF _ q5 _ _ this inc5]
    have "resolve_conflict_core s = Some (True, learn_lemma s5)"
      unfolding eq s1_def[symmetric] a using False k0 by simp
    moreover have "sat_inv F n (learn_lemma s5)" "\<not> inconsistent (learn_lemma s5)" "same_counters s5 (learn_lemma s5)"
      and "backjump s5 (learn_lemma s5)"
      using L s1 settled_core[OF e(5,6)] k1 e(3) by simp_all
    moreover have "resolve_post F n s (Some (True, learn_lemma s5))"
      using \<open>sat_inv F n (learn_lemma s5)\<close> \<open>\<not> inconsistent (learn_lemma s5)\<close> \<open>same_counters s5 (learn_lemma s5)\<close>
        backjump_cong[of s5 s] \<open>backjump s5 (learn_lemma s5)\<close>
      by (intro resolve_postI) (simp_all add: same_counters_def h5 f1 e(5) f0(1), simp_all add: s0_def)
    ultimately show ?thesis by simp
  qed
qed

text \<open>The loop around it ends after the first round.\<close>

theorem resolve_conflict_ok:
  assumes "sat_inv F n s" "inconsistent s"
  shows "resolve_post F n s (resolve_conflict s)"
proof -
  obtain r s' where r: "resolve_conflict_core s = Some (r, s')" and p: "if r then \<not> inconsistent s' else entails F {} \<and> inconsistent s' \<and> scope_lvl s' = 0"
    using resolve_conflict_core_ok[OF assms] unfolding resolve_post_def by blast
  have "resolve_conflict s = resolve_conflict_core s"
    using r p by (subst resolve_conflict.simps) (cases r; simp)
  then show ?thesis using resolve_conflict_core_ok[OF assms] by simp
qed

end
