(* ===== verification/Sat_Clauses.thy ===== *)
theory Sat_Clauses
  imports Sat_Learn
begin

text \<open>
  Adding clauses to the SAT solver at level 0: the simplification of the clause, and the attachment of what
  remains, with the invariant and no clause lost.
\<close>

section \<open>Simplification of a clause\<close>

lemma simplify_sorted_ok:
  assumes "sorted ls" "\<forall>x \<in> set ls. x < 2 * n" "n \<le> null_bool_var" "prev = null_literal \<or> (\<forall>x \<in> set ls. prev \<le> x)"
  shows "case simplify_sorted val prev ls of
      None \<Rightarrow> (\<exists>x \<in> set ls. val x = l_true) \<or> (\<exists>x \<in> set ls. neg_lit x \<in> Set.insert prev (set ls))
    | Some r \<Rightarrow> set r \<subseteq> set ls \<and> (\<forall>x \<in> set r. val x = l_undef \<and> lit_var x \<noteq> lit_var prev) \<and> distinct (map lit_var r)
        \<and> (\<forall>x \<in> set ls. val x = l_false \<or> x = prev \<or> x \<in> set r)"
  using assms
proof (induction ls arbitrary: prev)
  case (Cons x ls)
  have x: "x < 2 * n" and srt: "sorted ls" "\<forall>y \<in> set ls. x \<le> y" and lt: "\<forall>y \<in> set ls. y < 2 * n"
    using Cons.prems by auto
  have nn: "x \<noteq> null_literal" "x \<noteq> neg_lit null_literal"
    using not_null[OF _ Cons.prems(3)] x neg_lit_less[of x n] by (metis neg_neg_lit)+
  have keep: "prev = null_literal \<or> (\<forall>y \<in> set ls. prev \<le> y)" using Cons.prems(4) by auto
  note IH = Cons.IH[OF srt(1) lt Cons.prems(3)]
  show ?case
  proof (cases "val x")
    case l_false
    then show ?thesis using IH[OF keep] by (auto split: option.splits)
  next
    case l_true
    then show ?thesis by simp
  next
    case l_undef
    show ?thesis
    proof (cases "x = neg_lit prev")
      case True
      then show ?thesis using l_undef by simp
    next
      case ne: False
      show ?thesis
      proof (cases "x = prev")
        case True
        then show ?thesis using l_undef ne IH[OF keep] by (auto split: option.splits)
      next
        case False
        have vx: "lit_var x \<noteq> lit_var prev" using ne False lit_var_eq[of x prev] by blast
        have vy: "lit_var y \<noteq> lit_var prev" if "y \<in> set ls" for y
        proof (cases "prev = null_literal")
          case True
          have "lit_var y < n" using lt that by (simp add: lit_var_less)
          then show ?thesis using True Cons.prems(3) by (simp add: null_literal_def)
        next
          case False
          then have "prev \<le> x" "x \<le> y" using Cons.prems(4) srt(2) that by auto
          then have "lit_var prev \<le> lit_var x" "lit_var x \<le> lit_var y" by (simp_all add: lit_simps div_le_mono)
          then show ?thesis using vx by linarith
        qed
        have "x = null_literal \<or> (\<forall>y \<in> set ls. x \<le> y)" using srt(2) by blast
        from IH[OF this] show ?thesis using l_undef ne False vx vy by (auto split: option.splits)
      qed
    qed
  qed
qed simp

text \<open>At level 0 a clause is dropped only if it is true or a tautology, and only false literals are removed.\<close>

lemma simplify_clause_ok:
  assumes s: "settled F n s" and k: "scope_lvl s = 0" and d: "\<forall>l \<in> set d. l < 2 * n" and e: "entails F (set d)"
  shows "case simplify_clause s d of
      None \<Rightarrow> (\<exists>l \<in> set d. root_true s l) \<or> (\<exists>l \<in> set d. neg_lit l \<in> set d)
    | Some r \<Rightarrow> set r \<subseteq> set d \<and> (\<forall>l \<in> set r. lit_value s l = l_undef) \<and> distinct (map lit_var r) \<and> entails F (set r)"
proof -
  note st = settledD[OF s]
  have nb: "n \<le> null_bool_var" by (rule baseD(1)[OF st(1)])
  have eq: "simplify_clause s d = simplify_sorted (lit_value s) null_literal (sort d)"
    using k by (simp add: simplify_clause_def)
  have k0: "m_scope_lvl (asg s) = 0" using k by (simp add: scope_lvl_def)
  have lv: "level_at (asg s) i = 0" for i using level_at_le[of "asg s" i] trail_okD(8)[OF st(2)] k0 by simp
  have val: "lit_value s l = l_true \<longleftrightarrow> l \<in> set (tr s)" "lit_value s l = l_false \<longleftrightarrow> neg_lit l \<in> set (tr s)" if "l \<in> set d" for l
    using value_iff[OF st(2), of l] d that by (simp_all add: lit_value_def)
  have "\<forall>x \<in> set (sort d). x < 2 * n" "sorted (sort d)" using d by simp_all
  note r = simplify_sorted_ok[OF this(2,1) nb, of null_literal "lit_value s", folded eq]
  show ?thesis
  proof (cases "simplify_clause s d")
    case None
    then have "(\<exists>x \<in> set d. lit_value s x = l_true) \<or> (\<exists>x \<in> set d. neg_lit x \<in> Set.insert null_literal (set d))" using r by simp
    moreover have "neg_lit x \<noteq> null_literal" if "x \<in> set d" for x
      using not_null[of "neg_lit x" n] d that nb neg_lit_less[of x n] by blast
    moreover have "root_true s x" if "x \<in> set d" "lit_value s x = l_true" for x
      using val(1)[OF that(1)] that(2) lv by (auto simp: root_true_def in_set_conv_nth)
    ultimately show ?thesis using None by auto
  next
    case (Some ls)
    then have ls: "set ls \<subseteq> set d" "\<forall>x \<in> set ls. lit_value s x = l_undef" "distinct (map lit_var ls)"
      and rest: "\<forall>x \<in> set d. lit_value s x = l_false \<or> x = null_literal \<or> x \<in> set ls" using r by auto
    have "x \<noteq> null_literal" if "x \<in> set d" for x using not_null[of x n] d that nb by blast
    then have cover: "set d \<subseteq> set ls \<union> {x \<in> set d. neg_lit x \<in> set (tr s)}" using rest val(2) by blast
    have "entails F (set ls)"
    proof (rule entails_cut[OF entails_mono[OF e cover]])
      fix l assume "l \<in> {x \<in> set d. neg_lit x \<in> set (tr s)}"
      then show "entails F {neg_lit l}" using root_literal[OF st(1) k0] by simp
    qed
    then show ?thesis using Some ls by simp
  qed
qed

section \<open>Adding what remains\<close>

lemma root_settled:
  assumes "m_scope_lvl (asg s) = 0" "base F n (asg s) (lits s) (wl s)" "True \<notin> set (removed s)"
    and "inconsistent s \<Longrightarrow> entails F {}" "\<not> inconsistent s \<Longrightarrow> head_complete (asg s) (lits s) (wl s)"
  shows "settled F n s"
proof -
  have "m_scopes (asg s) = []" using assms(1) trail_okD(8)[OF baseD(2)[OF assms(2)]] by simp
  then have "scopes_complete (asg s) (lits s) (wl s)" by (simp add: scopes_complete_def)
  then show ?thesis using assms by (simp add: settled_def conflict_ok_def scope_lvl_def)
qed

text \<open>New watches in the lists of unassigned literals do not concern the trail.\<close>

lemma root_attach:
  assumes s: "settled F n s" and k: "scope_lvl s = 0" and b: "base F n (asg s) (lits s @ cs) (wl s')"
    and W': "\<And>l. l < 2 * n \<Longrightarrow> wl s' ! l = wl s ! l @ new l" and new: "\<And>l. l \<in> set (tr s) \<Longrightarrow> new l = []"
    and s': "asg s' = asg s" "lits s' = lits s @ cs" "True \<notin> set (removed s')"
  shows "settled F n s'" "inconsistent s' = inconsistent s"
proof -
  note d = settledD[OF s]
  show i: "inconsistent s' = inconsistent s" by (simp add: inconsistent_def s')
  have k0: "m_scope_lvl (asg s') = 0" using k by (simp add: scope_lvl_def s')
  have tl: "set (tr s) \<subseteq> {..<2 * n}" using trail_okD(6)[OF d(2)] by blast
  have q: "m_qhead (asg s) \<le> length (tr s)" by (rule trail_okD(7)[OF d(2)])
  show "settled F n s'"
  proof (rule root_settled[OF k0])
    show "base F n (asg s') (lits s') (wl s')" using b by (simp only: s')
    show "True \<notin> set (removed s')" by (rule s'(3))
    show "entails F {}" if "inconsistent s'" using root_conflict[OF s _ k] that i by simp
    show "head_complete (asg s') (lits s') (wl s')" if "\<not> inconsistent s'"
      unfolding head_complete_def s'
    proof (rule complete_extend[OF _ d(1) q tl W'])
      show "complete_upto (lits s) (wl s) (tr s) (m_qhead (asg s)) (set (tr s))"
        using d(6) that i by (simp add: head_complete_def)
      fix p w assume "p < m_qhead (asg s)" "w \<in> set (new (tr s ! p))"
      then show "sat_watch (lits s @ cs) (set (tr s)) (set (take p (tr s))) w" using new[of "tr s ! p"] q by simp
    qed
  qed
qed

lemma settled_more:
  assumes "settled F n s" "scope_lvl s = 0"
  shows "settled (Set.insert d F) n s"
proof -
  note e = settledD[OF assms(1)]
  have m: "entails (Set.insert d F) C" if "entails F C" for C by (rule entails_insert_clause[OF that])
  have r: "reason_ok (Set.insert d F) ls a i" if "reason_ok F ls a i" for ls a i
    using that by (auto simp: reason_ok_def Let_def m split: justification.splits if_splits)
  have c: "clause_ok (Set.insert d F) n c" if "clause_ok F n c" for c using that m by (simp add: clause_ok_def)
  have w: "watch_ok (Set.insert d F) n ls l w" if "watch_ok F n ls l w" for ls l w
    using that m by (auto simp: watch_ok_def split: watched.splits)
  have "base (Set.insert d F) n (asg s) (lits s) (wl s)" using e(1) r c w unfolding base_def by blast
  moreover have "inconsistent s \<Longrightarrow> entails (Set.insert d F) {}" using root_conflict[OF assms(1) _ assms(2)] m by blast
  ultimately show ?thesis using e assms(2) by (intro root_settled) (simp_all add: scope_lvl_def)
qed

text \<open>The result of adding a clause whose literals are unassigned.\<close>

definition added :: "literal list set \<Rightarrow> nat \<Rightarrow> solver \<Rightarrow> literal list \<Rightarrow> solver \<Rightarrow> bool" where
  "added F n s r s' \<longleftrightarrow> settled F n s' \<and> grow s s' \<and> (inconsistent s \<longrightarrow> inconsistent s')
     \<and> (\<forall>d. set r \<subseteq> set d \<longrightarrow> covers s' d \<or> inconsistent s')"

definition addable :: "literal list set \<Rightarrow> nat \<Rightarrow> solver \<Rightarrow> literal list \<Rightarrow> bool" where
  "addable F n s r \<longleftrightarrow> settled F n s \<and> scope_lvl s = 0 \<and> (\<forall>l \<in> set r. l < 2 * n \<and> lit_value s l = l_undef)
     \<and> distinct (map lit_var r) \<and> entails F (set r)"

lemma addableD:
  assumes "addable F n s r"
  shows "settled F n s" "scope_lvl s = 0" "l \<in> set r \<Longrightarrow> l < 2 * n \<and> lit_value s l = l_undef" "distinct (map lit_var r)"
    "entails F (set r)" "l \<in> set r \<Longrightarrow> neg_lit l < 2 * n" "l \<in> set r \<Longrightarrow> l \<notin> set (tr s) \<and> neg_lit l \<notin> set (tr s)" "length (wl s) = 2 * n"
proof -
  show s: "settled F n s" and "scope_lvl s = 0" "distinct (map lit_var r)" "entails F (set r)"
    using assms by (simp_all add: addable_def)
  show v: "l < 2 * n \<and> lit_value s l = l_undef" if "l \<in> set r" for l using assms that by (simp add: addable_def)
  show "neg_lit l < 2 * n" if "l \<in> set r" using v[OF that] neg_lit_less[of l n] by blast
  show "l \<notin> set (tr s) \<and> neg_lit l \<notin> set (tr s)" if "l \<in> set r"
    using v[OF that] value_iff(3)[OF settledD(2)[OF s], of l] by (simp add: lit_value_def)
  show "length (wl s) = 2 * n" by (rule baseD(5)[OF settledD(1)[OF s]])
qed

lemma add_empty:
  assumes a: "addable F n s []"
  shows "added F n s [] (set_conflict J_NONE null_literal s)"
proof -
  note d = addableD[OF a]
  let ?s = "set_conflict J_NONE null_literal s"
  have e: "entails F {}" using d(5) by simp
  have i: "inconsistent ?s" by (simp add: set_conflict_def inconsistent_def)
  have "base F n (asg ?s) (lits ?s) (wl ?s)"
    using settledD(1)[OF d(1)] base_conflict_fields(1) by (simp add: set_conflict_def)
  moreover have "m_scope_lvl (asg ?s) = 0" using d(2) by (simp add: set_conflict_def scope_lvl_def)
  ultimately have "settled F n ?s" using settledD(4)[OF d(1)] e i by (intro root_settled) simp_all
  moreover have "grow s ?s" by (auto simp: grow_def set_conflict_def)
  ultimately show ?thesis using i by (simp add: added_def)
qed

lemma add_unit:
  assumes a: "addable F n s [x]"
  shows "added F n s [x] (assign x J_NONE s)"
proof -
  note d = addableD[OF a]
  note t = settledD(2)[OF d(1)]
  let ?s = "assign_core x J_NONE s"
  have x: "x < 2 * n" "lit_value s x = l_undef" using d(3) by simp_all
  have eq: "assign x J_NONE s = ?s" using x(2) by (simp add: assign_def)
  have k0: "m_scope_lvl (asg s) = 0" using d(2) by (simp add: scope_lvl_def)
  have i: "inconsistent ?s = inconsistent s" by (simp add: inconsistent_def)
  have "base F n (assign_asg x J_NONE (asg s)) (lits s) (wl s)"
    by (rule assign_base[OF settledD(1)[OF d(1)] x(1)]) (use x(2) d(5) k0 in \<open>simp_all add: lit_value_def implies_lit_def\<close>)
  then have b: "base F n (asg ?s) (lits ?s) (wl ?s)" by simp
  have "settled F n ?s"
  proof (rule root_settled[OF _ b])
    show "m_scope_lvl (asg ?s) = 0" using k0 by simp
    show "True \<notin> set (removed ?s)" using settledD(4)[OF d(1)] by simp
    show "entails F {}" if "inconsistent ?s" using root_conflict[OF d(1) _ d(2)] that i by simp
    show "head_complete (asg ?s) (lits ?s) (wl ?s)" if "\<not> inconsistent ?s"
    proof -
      have "head_complete (asg s) (lits s) (wl s)" using settledD(6)[OF d(1)] that i by simp
      then show ?thesis using complete_upto_append[OF trail_okD(7)[OF t]] complete_upto_mono[of _ _ _ _ "set (tr s)" "set (tr s @ [x])"]
        by (simp add: head_complete_def subset_insertI)
    qed
  qed
  moreover have "root_true ?s x"
    using level_at_le[of "asg s" "length (tr s)"] trail_okD(8)[OF t] k0
    unfolding root_true_def by (intro exI[of _ "length (tr s)"]) simp
  then have "covers ?s D" if "x \<in> set D" for D using that by (auto simp: covers_def)
  ultimately show ?thesis using grow_assign_core[of s x J_NONE] i unfolding eq added_def by simp
qed

lemma add_binary:
  assumes a: "addable F n s [x, y]"
  shows "added F n s [x, y] (mk_bin_clause x y False s)"
proof -
  note d = addableD[OF a]
  let ?s = "push_watch (neg_lit y) (W_BINARY x False) (push_watch (neg_lit x) (W_BINARY y False) s)"
  have v: "lit_value s x = l_undef" "lit_value s y = l_undef" "x < 2 * n" "y < 2 * n" using d(3) by simp_all
  have eq: "mk_bin_clause x y False s = ?s"
    using v(1,2) by (simp add: mk_bin_clause_def propagate_bin_clause_def)
  have idx: "neg_lit x < length (wl s)" "neg_lit y < length (wl s)" using d(6,8) by simp_all
  have W': "wl ?s ! l = wl s ! l @ bin_watches x y False l" for l
    unfolding push_two[OF idx] by (simp add: bin_watches_def)
  have len: "length (wl ?s) = length (wl s)" by simp
  have xy: "lit_var x \<noteq> lit_var y" "entails F {x, y}" using d(4,5) by simp_all
  have "base F n (asg s) (lits s) (wl ?s)" by (rule base_add_binary[OF settledD(1)[OF d(1)] v(3,4) xy len W'])
  then have b: "base F n (asg s) (lits s @ []) (wl ?s)" by simp
  have nt: "neg_lit x \<notin> set (tr s)" "neg_lit y \<notin> set (tr s)" using d(7) by simp_all
  have new: "bin_watches x y False l = []" if "l \<in> set (tr s)" for l
    using that nt by (auto simp: bin_watches_def)
  note r = root_attach[OF d(1,2) b W' new]
  have st: "settled F n ?s" "inconsistent ?s = inconsistent s" using r settledD(4)[OF d(1)] by simp_all
  have "W_BINARY y False \<in> set (wl ?s ! neg_lit x)" unfolding W' by (simp add: bin_watches_def)
  then have "covers ?s D" if "x \<in> set D" "y \<in> set D" for D using that unfolding covers_def by blast
  moreover have "grow s ?s" by (rule grow_trans[OF grow_push grow_push])
  ultimately show ?thesis using st unfolding eq added_def by simp
qed

text \<open>A clause of three or more literals is allocated and put into the watch lists.\<close>

lemma add_clause:
  assumes a: "addable F n s r" and len: "3 \<le> length r"
    and s': "asg s' = asg s" "lits s' = lits s @ [r]" "removed s' = removed s @ [False]" "length (wl s') = length (wl s)"
      "\<And>l. wl s' ! l = wl s ! l @ clause_watches r (length (m_cls_allocator (cdb s))) l" "grow s s'"
  shows "added F n s r s'"
proof -
  note d = addableD[OF a]
  have cok: "clause_ok F n r" using d len by (intro settled_clause_ok) simp_all
  have W: "wl s' ! l = wl s ! l @ clause_watches r (length (lits s)) l" for l using s'(5) by simp
  have b: "base F n (asg s) (lits s @ [r]) (wl s')" by (rule base_add_clause[OF settledD(1)[OF d(1)] cok s'(4) W])
  have new: "clause_watches r (length (lits s)) l = []" if l: "l \<in> set (tr s)" for l
  proof -
    have "neg_lit (r ! i) \<noteq> l" if "i < 3" for i using d(7)[of "r ! i"] that len l by auto
    from this[of 0] this[of 1] this[of 2] show ?thesis
      by (simp add: clause_watches_def ter_watches_def nary_watches_def Let_def eq_commute[of l])
  qed
  have rem: "True \<notin> set (removed s')" using settledD(4)[OF d(1)] by (simp add: s'(3))
  note ra = root_attach[OF d(1,2) b W new s'(1,2) rem]
  have "covers s' D" if "set r \<subseteq> set D" for D unfolding covers_def s'(2) using that by auto
  then show ?thesis using ra s'(6) unfolding added_def by simp
qed

lemma add_ternary:
  assumes a: "addable F n s r" and len: "length r = 3"
  shows "added F n s r (snd (mk_ter_clause r False s))"
proof -
  note d = addableD[OF a]
  let ?off = "length (m_cls_allocator (cdb s))"
  define s1 where "s1 = ter_pushes r (alloc r False s)"
  have gc: "c_lits (get_clause (alloc r False s) ?off) = r" by (simp add: get_clause_def new_clause_def)
  have "attach_ter_clause ?off (alloc r False s) = (False, s1)"
    using d(2) unfolding attach_ter_clause_def Let_def gc
    by (simp add: s1_def ter_pushes_def scope_lvl_def)
  then have eq: "snd (mk_ter_clause r False s) = add_to_list ?off False s1" by (simp add: mk_ter_clause_def alloc_clause_eq)
  have lt: "\<forall>l \<in> set r. l < 2 * n" using d(3) by blast
  have "length (wl (alloc r False s)) = 2 * n" using d(8) by simp
  note W = ter_pushes_nth[OF len lt this, of _ ?off]
  have g: "grow s (add_to_list ?off False s1)"
  proof (rule grow_trans[OF _ grow_add_to_list])
    show "grow s s1" unfolding s1_def by (rule grow_trans[OF grow_alloc ter_pushes_simps(4)])
  qed (simp add: s1_def)
  show ?thesis unfolding eq
    by (rule add_clause[OF a _ _ _ _ _ _ g]) (use len W in \<open>simp_all add: s1_def new_clause_def\<close>)
qed

lemma add_nary:
  assumes a: "addable F n s r" and len: "3 < length r"
  shows "added F n s r (snd (mk_nary_clause r False s))"
proof -
  note d = addableD[OF a]
  let ?off = "length (m_cls_allocator (cdb s))"
  define s1 where "s1 = nary_pushes r ?off (alloc r False s)"
  have gc: "c_lits (get_clause (alloc r False s) ?off) = r" by (simp add: get_clause_def new_clause_def)
  have "scope_lvl (alloc r False s) = 0" using d(2) by (simp add: scope_lvl_def)
  then have "attach_nary_clause ?off (alloc r False s) = (False, s1)"
    unfolding attach_nary_clause_def Let_def by (simp add: s1_def nary_pushes_def gc)
  then have eq: "snd (mk_nary_clause r False s) = add_to_list ?off False s1" by (simp add: mk_nary_clause_def alloc_clause_eq)
  have lt: "\<forall>l \<in> set r. l < 2 * n" using d(3) by blast
  have "length (wl (alloc r False s)) = 2 * n" using d(8) by simp
  note W = nary_pushes_nth[OF len lt this, of ?off]
  have g: "grow s (add_to_list ?off False s1)"
  proof (rule grow_trans[OF _ grow_add_to_list])
    show "grow s s1" unfolding s1_def by (rule grow_trans[OF grow_alloc nary_pushes_simps(4)])
  qed (simp add: s1_def)
  show ?thesis unfolding eq
    by (rule add_clause[OF a _ _ _ _ _ _ g]) (use len W in \<open>simp_all add: s1_def new_clause_def\<close>)
qed

lemma add_simplified:
  assumes a: "addable F n s r"
  shows "added F n s r (snd (mk_simplified r False s))"
proof -
  consider "r = []" | x where "r = [x]" | x y where "r = [x, y]" | x y z where "r = [x, y, z]" | x y z u v where "r = x # y # z # u # v"
    by (metis list.exhaust)
  then show ?thesis
  proof cases
    case 1
    then show ?thesis using add_empty a by (simp add: mk_simplified_def)
  next
    case (2 x)
    then show ?thesis using add_unit a by (simp add: mk_simplified_def)
  next
    case (3 x y)
    then show ?thesis using add_binary a by (simp add: mk_simplified_def)
  next
    case (4 x y z)
    then show ?thesis using add_ternary[OF a] by (auto simp: mk_simplified_def split: prod.splits)
  next
    case (5 x y z u v)
    then show ?thesis using add_nary[OF a] by (auto simp: mk_simplified_def split: prod.splits)
  qed
qed

section \<open>A new clause\<close>

theorem mk_clause_ok:
  assumes inv: "sat_inv F n s" and k: "scope_lvl s = 0" and d: "\<forall>l \<in> set d. l < 2 * n"
  shows "sat_inv (Set.insert d F) n (mk_clause d s)" "scope_lvl (mk_clause d s) = 0"
proof -
  let ?F = "Set.insert d F"
  define s0 where "s0 = s\<lparr>m_model_is_current := False\<rparr>"
  have f: "asg s0 = asg s" "cdb s0 = cdb s" "ana s0 = ana s" "queue s0 = queue s" "heu s0 = heu s" by (simp_all add: s0_def)
  have k0: "scope_lvl s0 = 0" using k by (simp add: scope_lvl_def f)
  have s0: "settled ?F n s0" using settled_more[of F n s d] inv k settled_core(1)[OF f(1,2)] by (simp add: sat_inv_def)
  have q0: "quiet n s0" using inv unfolding sat_inv_def quiet_def clean_def waiting_def f by blast
  have c0: "covered F s0" using inv settled_core(3)[OF f(1,2)] by (simp add: sat_inv_def)
  have e: "entails ?F (set d)" by (rule entails_member) auto
  have mk: "mk_clause d s = (case simplify_clause s0 d of None \<Rightarrow> s0 | Some r \<Rightarrow> snd (mk_simplified r False s0))"
    by (simp add: mk_clause_def mk_clause_core_def s0_def split: option.split)
  note simp_ok = simplify_clause_ok[OF s0 k0 d e]
  have fin: "sat_inv ?F n s' \<and> scope_lvl s' = 0"
    if "settled ?F n s'" "grow s0 s'" "inconsistent s0 \<longrightarrow> inconsistent s'" "covers s' d \<or> inconsistent s'" for s'
  proof -
    have "scope_lvl s' = 0" using growD(7)[OF that(2)] k0 by simp
    moreover have "covered ?F s'" using grow_covered[OF that(2) c0 that(3)] that(4) \<open>scope_lvl s' = 0\<close> by (auto simp: covered_def)
    ultimately show ?thesis using that(1) grow_quiet[OF that(2) q0] by (simp add: sat_inv_def)
  qed
  have "sat_inv ?F n (mk_clause d s) \<and> scope_lvl (mk_clause d s) = 0"
  proof (cases "simplify_clause s0 d")
    case None
    then have "covers s0 d" using simp_ok by (auto simp: covers_def)
    then show ?thesis using fin[OF s0 grow_refl] None by (simp add: mk)
  next
    case (Some r)
    then have r: "set r \<subseteq> set d" "\<forall>l \<in> set r. lit_value s0 l = l_undef" "distinct (map lit_var r)" "entails ?F (set r)"
      using simp_ok by simp_all
    then have "addable ?F n s0 r" using s0 k0 d by (auto simp: addable_def)
    from add_simplified[OF this] show ?thesis using r(1) Some fin by (simp add: mk added_def)
  qed
  then show "sat_inv ?F n (mk_clause d s)" "scope_lvl (mk_clause d s) = 0" by blast+
qed

end
