(* ===== verification/Sat_Decide.thy ===== *)
theory Sat_Decide
  imports Sat_Learn
begin

text \<open>
  Decisions of the SAT solver and its models: a decision opens a scope with an unassigned literal, and when
  there is none to decide, the assignment is a model of the clauses that passes \<^verbatim>\<open>check_model\<close>.
\<close>

section \<open>The next variable\<close>

definition random_only :: "solver \<Rightarrow> solver \<Rightarrow> bool" where
  "random_only s s' \<longleftrightarrow> asg s' = asg s \<and> cdb s' = cdb s \<and> ana s' = ana s \<and> m_config s' = m_config s
     \<and> m_eliminated (heu s') = m_eliminated (heu s) \<and> m_conflicts (heu s') = m_conflicts (heu s)
     \<and> m_conflicts_since_restart (heu s') = m_conflicts_since_restart (heu s) \<and> m_restart_threshold (heu s') = m_restart_threshold (heu s)"

lemma random_only_refl [simp]: "random_only s s"
  by (simp add: random_only_def)

lemma random_only_trans [trans]: "random_only s s' \<Longrightarrow> random_only s' s'' \<Longrightarrow> random_only s s''"
  by (simp add: random_only_def)

lemma take_random_only:
  assumes "take_random s = (r, s')"
  shows "random_only s s'" "queue s' = queue s"
  using assms by (auto simp: take_random_def random_next_def random_only_def Let_def)

lemma next_var_act_ok:
  assumes q: "act_ok n q" and ne: "\<not> queue_empty (m_case_split_queue q)"
  shows "\<exists>v h. next_var (m_activity q) (m_case_split_queue q) = Some (int v, h) \<and> v < n \<and> int v \<in> elems (m_case_split_queue q)
    \<and> elems h = elems (m_case_split_queue q) - {int v} \<and> act_ok n (q\<lparr>m_case_split_queue := h\<rparr>)"
proof -
  let ?q = "m_case_split_queue q" and ?act = "m_activity q"
  have inv: "queue_inv ?act ?q" and el: "\<And>v. v \<in> elems ?q \<Longrightarrow> nat v < n" using q by (auto simp: act_ok_def sat_queue_inv_def)
  obtain v h where nv: "next_var ?act ?q = Some (v, h)" "v \<in> elems ?q" "queue_inv ?act h" "elems h = elems ?q - {v}"
    using next_var_correct[OF inv ne] by blast
  have "\<exists>v h. erase_min (activity_lt ?act) ?q = Some (v, h) \<and> length (m_value2indices h) = length (m_value2indices ?q)"
    using act.erase_min_correct[where act = ?act and h = ?q] inv ne by (auto simp: queue_inv_def queue_empty_def act.yields_def)
  then have len: "length (m_value2indices h) = length (m_value2indices ?q)" using nv(1) by (simp add: next_var_def)
  have v: "v = int (nat v)" using nv(2) by (simp add: elems_def)
  have "act_ok n (q\<lparr>m_case_split_queue := h\<rparr>)" using q nv(3,4) len by (auto simp: act_ok_def sat_queue_inv_def)
  then show ?thesis using nv el[OF nv(2)] v by metis
qed

text \<open>Every unassigned variable but \<open>w\<close> waits in the queue.\<close>

definition waiting_but :: "nat \<Rightarrow> bool_var option \<Rightarrow> solver \<Rightarrow> bool" where
  "waiting_but n w s \<longleftrightarrow> (\<forall>v < n. v \<notin> lit_var ` set (tr s) \<longrightarrow> w \<noteq> Some v \<longrightarrow> int v \<in> elems (m_case_split_queue (queue s)))"

text \<open>The variable chosen, or none when all are assigned.\<close>

definition next_post :: "nat \<Rightarrow> solver \<Rightarrow> (bool_var option \<times> solver) option \<Rightarrow> bool" where
  "next_post n s res \<longleftrightarrow>
     (\<exists>w s'. res = Some (w, s') \<and> random_only s s' \<and> act_ok n (queue s') \<and> waiting_but n w s'
        \<and> (case w of None \<Rightarrow> (\<forall>v < n. v \<in> lit_var ` set (tr s)) | Some v \<Rightarrow> v < n \<and> v \<notin> lit_var ` set (tr s)))"

lemma var_value_iff:
  assumes "trail_ok n (asg s)" "v < n"
  shows "var_value s v = l_undef \<longleftrightarrow> v \<notin> lit_var ` set (tr s)"
proof -
  let ?l = "mk_literal v False"
  have l: "?l < 2 * n" using assms(2) by (simp add: lit_simps)
  have "v \<in> lit_var ` set (tr s) \<longleftrightarrow> ?l \<in> set (tr s) \<or> neg_lit ?l \<in> set (tr s)"
  proof
    assume "v \<in> lit_var ` set (tr s)"
    then obtain x where "x \<in> set (tr s)" "lit_var x = lit_var ?l" by auto
    then show "?l \<in> set (tr s) \<or> neg_lit ?l \<in> set (tr s)" using lit_var_eq[of x ?l] by auto
  next
    assume "?l \<in> set (tr s) \<or> neg_lit ?l \<in> set (tr s)"
    then show "v \<in> lit_var ` set (tr s)" using mk_literal_simps(1)[of v False] lit_var_neg[of ?l] by (metis image_eqI)
  qed
  then show ?thesis using value_iff(3)[OF assms(1) l] by (simp add: var_value_def)
qed

lemma next_from_queue_ok:
  assumes "trail_ok n (asg s)" "act_ok n (queue s)" "waiting_but n None s" "m_eliminated (heu s) = replicate n False"
  shows "next_post n s (next_from_queue s)"
  using assms
proof (induction "card (elems (m_case_split_queue (queue s)))" arbitrary: s rule: less_induct)
  case less
  let ?q = "m_case_split_queue (queue s)"
  show ?case
  proof (cases "queue_empty ?q")
    case True
    have "consist ?q" using less.prems(2) by (simp add: act_ok_def sat_queue_inv_def queue_inv_def heap_inv_def)
    then have "elems ?q = {}" using True act.empty_iff[of ?q] by (simp add: queue_empty_def)
    then have "\<forall>v < n. v \<in> lit_var ` set (tr s)" using less.prems(3) by (auto simp: waiting_but_def)
    then show ?thesis using True less.prems by (subst next_from_queue.simps) (auto simp: next_post_def)
  next
    case False
    from next_var_act_ok[OF less.prems(2) False] obtain v h where
      nv: "next_var (m_activity (queue s)) ?q = Some (int v, h)" "v < n" "int v \<in> elems ?q" "elems h = elems ?q - {int v}"
        "act_ok n ((queue s)\<lparr>m_case_split_queue := h\<rparr>)" by blast
    define s1 where "s1 = s\<lparr>queue := (queue s)\<lparr>m_case_split_queue := h\<rparr>\<rparr>"
    have ro: "random_only s s1" by (simp add: random_only_def s1_def)
    have e: "asg s1 = asg s" "heu s1 = heu s" by (simp_all add: s1_def)
    have act: "act_ok n (queue s1)" using nv(5) by (simp add: s1_def)
    have w: "waiting_but n (Some v) s1" using less.prems(3) by (auto simp: waiting_but_def s1_def nv(4))
    have cd: "can_decide s1 v \<longleftrightarrow> v \<notin> lit_var ` set (tr s)"
      using var_value_iff[of n s1 v] less.prems(1,4) nv(2) by (simp add: can_decide_def e)
    have eq: "next_from_queue s = (if can_decide s1 v then Some (Some v, s1) else next_from_queue s1)"
      using False nv(1) by (subst next_from_queue.simps) (simp add: s1_def Let_def)
    show ?thesis
    proof (cases "can_decide s1 v")
      case True
      then show ?thesis using eq ro act w nv(2) cd by (auto simp: next_post_def)
    next
      case False
      then have va: "v \<in> lit_var ` set (tr s)" using cd by simp
      then have w1: "waiting_but n None s1" using w by (auto simp: waiting_but_def e)
      have "finite (elems ?q)"
      proof (rule finite_subset)
        show "elems ?q \<subseteq> int ` {..<n}"
        proof
          fix x assume x: "x \<in> elems ?q"
          then have "nat x < n" "0 \<le> x" using less.prems(2) by (auto simp: act_ok_def sat_queue_inv_def elems_def)
          then show "x \<in> int ` {..<n}" by (metis imageI int_nat_eq lessThan_iff)
        qed
      qed simp
      then have "card (elems (m_case_split_queue (queue s1))) < card (elems ?q)"
        using card_Diff1_less[of "elems ?q" "int v"] nv(3) by (simp add: s1_def nv(4))
      from less.hyps[OF this] have "next_post n s1 (next_from_queue s1)" using less.prems(1,4) act w1 e by simp
      then show ?thesis using eq False random_only_trans[OF ro] unfolding next_post_def e by auto
    qed
  qed
qed

lemma next_post_trans:
  assumes "random_only s s1" "next_post n s1 r"
  shows "next_post n s r"
proof -
  have t: "tr s1 = tr s" using assms(1) by (simp add: random_only_def)
  show ?thesis using assms(2) random_only_trans[OF assms(1)] unfolding next_post_def t by blast
qed

lemma solver_next_var_ok:
  assumes s: "trail_ok n (asg s)" "act_ok n (queue s)" "waiting n s" "m_eliminated (heu s) = replicate n False"
  shows "next_post n s (solver_next_var s)"
proof -
  obtain r s1 where r1: "take_random s = (r, s1)" by fastforce
  note t1 = take_random_only[OF r1]
  obtain r' s2 where r2: "take_random s1 = (r', s2)" by fastforce
  note t2 = take_random_only[OF r2]
  have ro2: "random_only s s2" by (rule random_only_trans[OF t1(1) t2(1)])
  have q2: "queue s2 = queue s" using t1(2) t2(2) by simp
  have nq: "next_post n s (next_from_queue s')" if "random_only s s'" "queue s' = queue s" for s'
    by (rule next_post_trans[OF that(1) next_from_queue_ok])
      (use that s in \<open>simp_all add: random_only_def waiting_but_def waiting_def\<close>)
  have num: "sat_num_vars s1 = n" "sat_num_vars s2 = n"
    using t1(1) ro2 trail_okD(3)[OF s(1)] by (simp_all add: sat_num_vars_def random_only_def)
  show ?thesis
  proof (cases "r < m_random_bound (m_config s1)")
    case False
    then show ?thesis using r1 nq[OF t1] by (simp add: solver_next_var_def)
  next
    case True
    show ?thesis
    proof (cases "n = 0")
      case n0: True
      then have "solver_next_var s = Some (None, s1)" using r1 True num by (simp add: solver_next_var_def)
      then show ?thesis using n0 t1 s(2) by (auto simp: next_post_def waiting_but_def)
    next
      case False
      let ?v = "nat r' mod n"
      have v: "?v < n" using False by simp
      have eq: "solver_next_var s = (if can_decide s2 ?v then Some (Some ?v, s2) else next_from_queue s2)"
        using r1 r2 True False num by (simp add: solver_next_var_def Let_def)
      show ?thesis
      proof (cases "can_decide s2 ?v")
        case True
        have "asg s2 = asg s" using ro2 by (simp add: random_only_def)
        then have "?v \<notin> lit_var ` set (tr s)" using True var_value_iff[of n s2 ?v] s(1) v by (simp add: can_decide_def)
        moreover have "waiting_but n (Some ?v) s2" using s(3) q2 \<open>asg s2 = asg s\<close> by (simp add: waiting_but_def waiting_def)
        ultimately show ?thesis using eq True ro2 v s(2) q2 by (auto simp: next_post_def)
      qed (use eq nq[OF ro2 q2] in simp)
    qed
  qed
qed

section \<open>Deciding\<close>

text \<open>Opening a scope at the end of the trail.\<close>

lemma push_level_at:
  assumes "trail_ok n a" "i < length (m_trail a)" "a' = a\<lparr>m_scopes := m_scopes a @ [sc], m_scope_lvl := m_scope_lvl a + 1\<rparr>"
    and "m_trail_lim sc = length (m_trail a)"
  shows "level_at a' i = level_at a i"
  using assms by (simp add: level_at_def)

lemma decide_base:
  assumes b: "base F n a ls W" and q: "m_qhead a = length (m_trail a)" and l: "l < 2 * n" "m_assignment a ! l = l_undef"
    and a': "a' = a\<lparr>m_scopes := m_scopes a @ [sc], m_scope_lvl := m_scope_lvl a + 1\<rparr>" and sc: "m_trail_lim sc = length (m_trail a)"
  shows "base F n (assign_asg l J_NONE a') ls W" "trail_ok n a'"
proof -
  note t = baseD(2)[OF b]
  have lv: "level_at a' i = level_at a i" if "i < length (m_trail a)" for i by (rule push_level_at[OF t that a' sc])
  have f: "m_trail a' = m_trail a" "m_qhead a' = m_qhead a" "m_assignment a' = m_assignment a" "m_justification a' = m_justification a"
    "m_level a' = m_level a" "m_scopes a' = m_scopes a @ [sc]" "m_scope_lvl a' = m_scope_lvl a + 1" by (simp_all add: a')
  have srt: "sorted (map m_trail_lim (m_scopes a @ [sc]))"
    using trail_okD(9)[OF t] trail_okD(7,10)[OF t] sc by (auto simp: sorted_append intro: order_trans)
  show t': "trail_ok n a'"
    using t srt sc q lv unfolding trail_ok_def f by auto
  have r: "reason_ok F ls a' i" if i: "i < length (m_trail a)" for i
  proof (cases "level_at a i = 0")
    case True
    then show ?thesis using baseD(3)[OF b i] lv[OF i] by (simp add: reason_ok_def Let_def f)
  next
    case False
    have "level_at a i \<le> length (m_scopes a)" by (rule level_at_le)
    then have "reason_ok F ls a' i = reason_ok F ls a i"
      by (intro reason_ok_cong) (use lv[OF i] False in \<open>simp_all add: f nth_append\<close>)
    then show ?thesis using baseD(3)[OF b i] by simp
  qed
  have l': "m_assignment a' ! l = l_undef" using l(2) by (simp add: f)
  have lvl: "level_at a' (length (m_trail a)) = m_scope_lvl a + 1" using level_at_end[OF t'] by (simp add: f)
  have v: "lit_var l < length (m_justification a)" using l(1) trail_okD(2)[OF t] by (simp add: lit_var_less)
  have "m_scopes a' ! m_scope_lvl a = sc" using trail_okD(8)[OF t] by (simp add: f nth_append)
  then have "reason_ok F ls (assign_asg l J_NONE a') (length (m_trail a'))"
    using lvl v sc unfolding reason_ok_def Let_def assign_asg_simps f(1) lvl by (simp add: assign_asg_def f nth_append)
  then have "\<forall>i < length (m_trail (assign_asg l J_NONE a')). reason_ok F ls (assign_asg l J_NONE a') i"
    using assign_reason_ok[OF t' l(1) l'] r by (simp add: f)
  then show "base F n (assign_asg l J_NONE a') ls W" using b assign_trail_ok[OF t' l(1) l'] by (simp add: base_def)
qed

lemma choose_phase_random:
  assumes "choose_phase v s = (ph, s')"
  shows "random_only s s'" "queue s' = queue s"
proof -
  have "random_only s s' \<and> queue s' = queue s"
  proof (cases "m_phase_selection (m_config s)")
    case PS_RANDOM
    obtain r s1 where r: "take_random s = (r, s1)" by fastforce
    then show ?thesis using assms take_random_only[OF r] PS_RANDOM by (simp add: choose_phase_def)
  qed (use assms in \<open>simp_all add: choose_phase_def\<close>)
  then show "random_only s s'" "queue s' = queue s" by blast+
qed

text \<open>A scope is opened at the end of the trail, and an unassigned literal is its first entry.\<close>

definition opens_scope :: "nat \<Rightarrow> solver \<Rightarrow> solver \<Rightarrow> bool" where
  "opens_scope n s s' \<longleftrightarrow> scope_lvl s' = scope_lvl s + 1 \<and> cdb s' = cdb s
     \<and> (\<exists>l sc. l < 2 * n \<and> lit_value s l = l_undef \<and> tr s' = tr s @ [l]
          \<and> m_scopes (asg s') = m_scopes (asg s) @ [sc] \<and> m_trail_lim sc = length (tr s))"

definition decide_post :: "literal list set \<Rightarrow> nat \<Rightarrow> solver \<Rightarrow> (bool \<times> solver) option \<Rightarrow> bool" where
  "decide_post F n s res \<longleftrightarrow>
     (\<exists>r s'. res = Some (r, s') \<and> sat_inv F n s' \<and> \<not> inconsistent s' \<and> same_counters s s'
        \<and> (if r then length (tr s') = length (tr s) + 1 else asg s' = asg s \<and> (\<forall>v < n. v \<in> lit_var ` set (tr s')))
        \<and> (r \<longrightarrow> opens_scope n s s'))"

lemma decide_postI:
  "sat_inv F n s' \<Longrightarrow> \<not> inconsistent s' \<Longrightarrow> same_counters s s'
    \<Longrightarrow> (if r then length (tr s') = length (tr s) + 1 else asg s' = asg s \<and> (\<forall>v < n. v \<in> lit_var ` set (tr s')))
    \<Longrightarrow> (r \<Longrightarrow> opens_scope n s s') \<Longrightarrow> decide_post F n s (Some (r, s'))"
  unfolding decide_post_def by blast

theorem decide_ok:
  assumes inv: "sat_inv F n s" and ni: "\<not> inconsistent s" and qh: "m_qhead (asg s) = length (tr s)"
  shows "decide_post F n s (decide s)"
proof -
  have s: "settled F n s" and q: "quiet n s" and c: "covered F s" using inv by (simp_all add: sat_inv_def)
  note d = settledD[OF s]
  have "act_ok n (queue s)" "waiting n s" "m_eliminated (heu s) = replicate n False" using q by (simp_all add: quiet_def)
  from solver_next_var_ok[OF d(2) this] obtain w s1 where nv: "solver_next_var s = Some (w, s1)" and ro: "random_only s s1"
    and act: "act_ok n (queue s1)" and wait: "waiting_but n w s1"
    and w: "case w of None \<Rightarrow> (\<forall>v < n. v \<in> lit_var ` set (tr s)) | Some v \<Rightarrow> v < n \<and> v \<notin> lit_var ` set (tr s)"
    unfolding next_post_def by blast
  have e: "asg s1 = asg s" "cdb s1 = cdb s" "ana s1 = ana s" "m_config s1 = m_config s" "m_eliminated (heu s1) = m_eliminated (heu s)"
    and ctr: "same_counters s s1" using ro by (simp_all add: random_only_def same_counters_def)
  show ?thesis
  proof (cases w)
    case None
    have dec: "decide s = Some (False, s1)" using nv None by (simp add: decide_def)
    have "waiting n s1" using wait None by (simp add: waiting_but_def waiting_def)
    then have "quiet n s1" using q act unfolding quiet_def clean_def e by blast
    then have "sat_inv F n s1" using s c settled_core[OF e(1,2)] by (simp add: sat_inv_def)
    then show ?thesis unfolding dec using w None ctr ni by (intro decide_postI) (simp_all add: e inconsistent_def)
  next
    case (Some v)
    then have v: "v < n" "v \<notin> lit_var ` set (tr s)" using w by simp_all
    obtain ph s2 where cp: "choose_phase v (sat_push s1) = (ph, s2)" by fastforce
    note cr = choose_phase_random[OF cp]
    define l where "l = mk_literal v (ph = l_false)"
    define sc where "sc = \<lparr>m_trail_lim = length (tr s), m_clauses_to_reinit_lim = length (m_clauses_to_reinit (cdb s)),
                           m_scope_inconsistent = m_inconsistent (asg s)\<rparr>"
    have asg2: "asg s2 = (asg s)\<lparr>m_scopes := m_scopes (asg s) @ [sc], m_scope_lvl := m_scope_lvl (asg s) + 1\<rparr>"
      using cr(1) by (simp add: random_only_def sat_push_def Let_def sc_def e)
    have f2: "cdb s2 = cdb s" "ana s2 = ana s" "queue s2 = queue s1" "m_config s2 = m_config s" "m_eliminated (heu s2) = m_eliminated (heu s)"
      "same_counters s s2"
      using cr ctr by (simp_all add: random_only_def sat_push_def Let_def e same_counters_def)
    have l: "l < 2 * n" "lit_var l = v" using v(1) by (simp_all add: l_def lit_simps)
    then have un: "l \<notin> set (tr s)" "neg_lit l \<notin> set (tr s)" using v(2) by (metis image_eqI, metis image_eqI lit_var_neg)
    then have val: "m_assignment (asg s) ! l = l_undef" using value_iff(3)[OF d(2) l(1)] by simp
    then have "lit_value s2 l = l_undef" by (simp add: lit_value_def asg2)
    then have dec: "decide s = Some (True, assign_core l J_NONE s2)"
      using nv Some cp by (simp add: decide_def l_def assign_def)
    let ?s = "assign_core l J_NONE s2"
    have asg: "asg ?s = assign_asg l J_NONE (asg s2)" by simp
    have "m_trail_lim sc = length (tr s)" by (simp add: sc_def)
    note b = decide_base[OF d(1) qh l(1) val asg2 this]
    have tr2: "tr s2 = tr s" "m_scopes (asg s2) = m_scopes (asg s) @ [sc]" "m_qhead (asg s2) = length (tr s)" using qh by (simp_all add: asg2)
    have hc: "complete_upto (lits s) (wl s) (tr s) (length (tr s)) (set (tr s))" using d(6)[OF ni] qh by (simp add: head_complete_def)
    have "scopes_complete (asg s2) (lits s) (wl s)"
      using d(3) hc unfolding scopes_complete_def tr2 by (auto simp: sc_def)
    then have sco: "scopes_complete (asg ?s) (lits ?s) (wl ?s)" using scopes_complete_assign[OF b(2)] by (simp add: f2)
    have ni': "\<not> inconsistent ?s" using ni by (simp add: inconsistent_def asg2)
    have hco: "head_complete (asg ?s) (lits ?s) (wl ?s)"
      using complete_upto_append[of "length (tr s)" "tr s"] complete_upto_mono[OF hc, of "set (tr s @ [l])"]
      by (simp add: head_complete_def tr2 f2 subset_insertI)
    have "base F n (asg ?s) (lits ?s) (wl ?s)" using b(1) by (simp add: f2)
    then have st: "settled F n ?s" using sco hco ni' d(4) by (simp add: settled_def f2)
    have "waiting n ?s"
      using wait l(2) unfolding waiting_def waiting_but_def by (auto simp: Some tr2 f2 e assign_core_def Let_def asg2)
    moreover have "clean n ?s" using q by (simp add: quiet_def clean_def assign_core_def Let_def f2)
    moreover have "m_clauses_to_reinit_lim sc = 0" using q by (simp add: sc_def quiet_def)
    ultimately have "quiet n ?s" using q act unfolding quiet_def by (simp add: f2 tr2) (simp add: assign_core_def Let_def f2)
    moreover have "covers ?s D" if "covers s D" for D
    proof -
      have "root_true ?s x" if "root_true s x" for x
      proof -
        obtain i where i: "i < length (tr s)" "tr s ! i = x" "level_at (asg s) i = 0" using \<open>root_true s x\<close> by (auto simp: root_true_def)
        have "level_at (asg s2) i = 0" using push_level_at[OF d(2) i(1) asg2] i(3) by (simp add: sc_def)
        then show ?thesis using i(1,2) unfolding root_true_def by (intro exI[of _ i]) (simp add: tr2 nth_append)
      qed
      then show ?thesis using that unfolding covers_def by (auto simp: f2)
    qed
    then have "covered F ?s" using c ni by (auto simp: covered_def)
    ultimately have "sat_inv F n ?s" using st by (simp add: sat_inv_def)
    moreover have "same_counters s ?s" using f2(6) by (simp add: same_counters_def assign_core_def Let_def)
    moreover have "opens_scope n s ?s"
      unfolding opens_scope_def
    proof (intro conjI exI)
      show "m_trail_lim sc = length (tr s)" by (simp add: sc_def)
    qed (use l(1) val in \<open>simp_all add: lit_value_def scope_lvl_def asg2 f2\<close>)
    ultimately show ?thesis unfolding dec using ni' by (intro decide_postI) (simp_all add: tr2)
  qed
qed

end
