(* ===== verification/Sat_Sound.thy ===== *)
theory Sat_Sound
  imports Sat_Clauses Sat_Vars Sat_Decide
begin

text \<open>
  The search of the SAT solver is correct: from every state that is reached by adding variables and clauses,
  searching and restarting, the search returns; when it answers \<open>l_false\<close> the clauses added have no model,
  and when it answers \<open>l_true\<close> the model it stores is one and passes \<^verbatim>\<open>check_model\<close>.
\<close>

section \<open>Models\<close>

definition model_of :: "model \<Rightarrow> bool_var \<Rightarrow> bool" where
  "model_of m v = (m ! v = l_true)"

text \<open>When all variables are assigned and all literals of the trail are processed, every clause is true.\<close>

definition total :: "nat \<Rightarrow> solver \<Rightarrow> bool" where
  "total n s \<longleftrightarrow> (\<forall>v < n. v \<in> lit_var ` set (tr s))"

lemma total_lit:
  assumes "trail_ok n (asg s)" "total n s" "l < 2 * n"
  shows "neg_lit l \<in> set (tr s) \<longleftrightarrow> l \<notin> set (tr s)"
proof
  show "neg_lit l \<in> set (tr s) \<Longrightarrow> l \<notin> set (tr s)" using trail_consistent[OF assms(1)] by blast
  assume "l \<notin> set (tr s)"
  moreover have "lit_var l \<in> lit_var ` set (tr s)" using assms(2,3) by (simp add: total_def lit_var_less)
  then obtain x where "x \<in> set (tr s)" "lit_var l = lit_var x" by blast
  ultimately show "neg_lit l \<in> set (tr s)" using lit_var_eq[of l x] by auto
qed

lemma watch_holds:
  assumes s: "settled F n s" "\<not> inconsistent s" and q: "m_qhead (asg s) = length (tr s)"
    and l: "l \<in> set (tr s)" and w: "w \<in> set (wl s ! l)"
  shows "\<exists>p < length (tr s). tr s ! p = l \<and> sat_watch (lits s) (set (tr s)) (set (take p (tr s))) w"
proof -
  obtain p where "p < length (tr s)" "tr s ! p = l" using l by (auto simp: in_set_conv_nth)
  then show ?thesis using settledD(6)[OF s] q w unfolding head_complete_def complete_upto_def by auto
qed

text \<open>A clause that is neither true nor about to propagate.\<close>

definition clause_open :: "solver \<Rightarrow> literal list \<Rightarrow> bool" where
  "clause_open s c \<longleftrightarrow> (\<exists>l \<in> set c. lit_value s l = l_true)
     \<or> (\<exists>x \<in> set c. \<exists>y \<in> set c. x \<noteq> y \<and> lit_value s x = l_undef \<and> lit_value s y = l_undef)"

lemma clause_openI:
  assumes t: "trail_ok n (asg s)" and lt: "\<And>l. l \<in> set c \<Longrightarrow> l < 2 * n"
    and xy: "x \<in> set c" "y \<in> set c" "x \<noteq> y" "neg_lit x \<notin> set (tr s)" "neg_lit y \<notin> set (tr s)"
  shows "clause_open s c"
proof -
  have v: "lit_value s l = l_true \<or> lit_value s l = l_undef" if "l \<in> set c" "neg_lit l \<notin> set (tr s)" for l
    using value_iff[OF t lt[OF that(1)]] that(2) unfolding lit_value_def by blast
  show ?thesis using v[OF xy(1,4)] v[OF xy(2,5)] xy(1-3) unfolding clause_open_def by blast
qed

lemma propagated_open:
  assumes s: "settled F n s" "\<not> inconsistent s" and q: "m_qhead (asg s) = length (tr s)" and c: "c \<in> set (lits s)"
  shows "clause_open s c"
proof (cases "\<exists>l \<in> set c. l \<in> set (tr s)")
  case True
  note d = settledD[OF s(1)]
  obtain l where "l \<in> set c" "l \<in> set (tr s)" using True by blast
  then have "lit_value s l = l_true" using value_iff(1)[OF d(2) trail_okD(6)[OF d(2)], of l] by (simp add: lit_value_def)
  then show ?thesis using \<open>l \<in> set c\<close> by (auto simp: clause_open_def)
next
  case no: False
  note d = settledD[OF s(1)]
  have ok: "clause_ok F n c" by (rule baseD(4)[OF d(1) c])
  then have len: "3 \<le> length c" and lt: "\<And>l. l \<in> set c \<Longrightarrow> l < 2 * n" and dist: "distinct c"
    by (auto simp: clause_ok_def distinct_map)
  note openI = clause_openI[where c = c, OF d(2) lt]
  obtain off where off: "off < length (lits s)" "lits s ! off = c" using c by (metis in_set_conv_nth)
  have wi: "watched_in (lits s) (wl s) off" by (rule baseD(8)[OF d(1) off(1)])
  show ?thesis
  proof (cases "length c = 3")
    case False
    have "neg_lit x \<notin> set (tr s)" if "off \<in> set (watch_offs (wl s ! neg_lit x))" for x
    proof
      assume neg: "neg_lit x \<in> set (tr s)"
      from that obtain b where "W_CLAUSE b off \<in> set (wl s ! neg_lit x)" unfolding watch_offs_iff by blast
      from watch_holds[OF s q neg this] have "\<exists>x \<in> set (lits s ! off). x \<in> set (tr s)" by (auto simp: sat_watch_def)
      then show False using no unfolding off(2) by blast
    qed
    moreover have "off \<in> set (watch_offs (wl s ! neg_lit (c ! 0)))" "off \<in> set (watch_offs (wl s ! neg_lit (c ! 1)))"
      using wi False unfolding watched_in_def Let_def off(2) by simp_all
    ultimately have neg: "neg_lit (c ! 0) \<notin> set (tr s)" "neg_lit (c ! 1) \<notin> set (tr s)" by blast+
    have m: "c ! 0 \<in> set c" "c ! 1 \<in> set c" using len by (intro nth_mem; linarith)+
    have "0 < length c" "1 < length c" using len by linarith+
    then have "c ! 0 \<noteq> c ! 1" using nth_eq_iff_index_eq[OF dist, of 0 1] by simp
    then show ?thesis using openI[OF _ m _ neg] by blast
  next
    case True
    then obtain x y z where xyz: "c = [x, y, z]" by (auto simp: length_Suc_conv numeral_3_eq_3)
    have W: "mk_ternary_watch y z \<in> set (wl s ! neg_lit x)" "mk_ternary_watch x z \<in> set (wl s ! neg_lit y)"
      "mk_ternary_watch x y \<in> set (wl s ! neg_lit z)"
      using wi unfolding watched_in_def Let_def off(2) by (simp_all add: xyz)
    have out: "x \<notin> set (tr s)" "y \<notin> set (tr s)" "z \<notin> set (tr s)" using no by (simp_all add: xyz)
    have pair: "\<not> (neg_lit u \<in> set (tr s) \<and> neg_lit v \<in> set (tr s))"
      if u: "mk_ternary_watch v w \<in> set (wl s ! neg_lit u)" and v: "mk_ternary_watch u w' \<in> set (wl s ! neg_lit v)"
        and o: "u \<notin> set (tr s)" "v \<notin> set (tr s)" "w \<notin> set (tr s)" "w' \<notin> set (tr s)" and uv: "u \<noteq> v" for u v w w'
    proof
      assume a: "neg_lit u \<in> set (tr s) \<and> neg_lit v \<in> set (tr s)"
      have w2: "neg_lit p \<notin> P" if "sat_watch (lits s) (set (tr s)) P (mk_ternary_watch p r)" "p \<notin> set (tr s)" "r \<notin> set (tr s)"
        for p r P using that by (auto simp: sat_watch_def mk_ternary_watch_def split: if_splits)
      obtain pu where pu: "pu < length (tr s)" "tr s ! pu = neg_lit u" "neg_lit v \<notin> set (take pu (tr s))"
        using watch_holds[OF s q _ u] w2 o a by blast
      obtain pv where pv: "pv < length (tr s)" "tr s ! pv = neg_lit v" "neg_lit u \<notin> set (take pv (tr s))"
        using watch_holds[OF s q _ v] w2 o a by blast
      have before: "p \<le> r" if "p < length (tr s)" "r < length (tr s)" "tr s ! r \<notin> set (take p (tr s))" for p r
      proof (rule ccontr)
        assume "\<not> p \<le> r"
        then have "r < p" by simp
        then have "tr s ! r \<in> set (take p (tr s))" using that(1) by (auto simp: in_set_conv_nth)
        then show False using that(3) by blast
      qed
      have "pu \<le> pv" "pv \<le> pu" using before pu pv by simp_all
      then show False using pu(2) pv(2) uv by simp
    qed
    have sym: "mk_ternary_watch a b = mk_ternary_watch b a" for a b by (simp add: mk_ternary_watch_def)
    have ne: "x \<noteq> y" "x \<noteq> z" "y \<noteq> z" using dist by (simp_all add: xyz)
    have "\<not> (neg_lit x \<in> set (tr s) \<and> neg_lit y \<in> set (tr s))" "\<not> (neg_lit x \<in> set (tr s) \<and> neg_lit z \<in> set (tr s))"
      "\<not> (neg_lit y \<in> set (tr s) \<and> neg_lit z \<in> set (tr s))"
      using pair[of y z x z] pair[of z y x y] pair[of z x y x] W out ne sym by metis+
    moreover have "x \<in> set c" "y \<in> set c" "z \<in> set c" by (simp_all add: xyz)
    ultimately show ?thesis using openI[of x y] openI[of x z] openI[of y z] ne by blast
  qed
qed

lemma clause_true:
  assumes s: "settled F n s" "\<not> inconsistent s" and q: "m_qhead (asg s) = length (tr s)" and t: "total n s" and c: "c \<in> set (lits s)"
  shows "\<exists>l \<in> set c. l \<in> set (tr s)"
proof -
  note d = settledD[OF s(1)]
  have lt: "l < 2 * n" if "l \<in> set c" for l using baseD(4)[OF d(1) c] that by (simp add: clause_ok_def)
  have "lit_value s l \<noteq> l_undef" if "l \<in> set c" for l
    using value_iff(3)[OF d(2) lt[OF that]] total_lit[OF d(2) t lt[OF that]] unfolding lit_value_def by blast
  then obtain l where "l \<in> set c" "lit_value s l = l_true" using propagated_open[OF s q c] unfolding clause_open_def by blast
  then show ?thesis using value_iff(1)[OF d(2) lt] unfolding lit_value_def by blast
qed

lemma binary_true:
  assumes "settled F n s" "\<not> inconsistent s" "m_qhead (asg s) = length (tr s)" "l \<in> set (tr s)" "W_BINARY x b \<in> set (wl s ! l)"
  shows "x \<in> set (tr s)"
  using watch_holds[OF assms] by (auto simp: sat_watch_def)

lemma covered_true:
  assumes s: "settled F n s" "\<not> inconsistent s" and q: "m_qhead (asg s) = length (tr s)" and t: "total n s"
    and c: "covers s d" and lt: "\<forall>l \<in> set d. l < 2 * n"
  shows "\<exists>l \<in> set d. l \<in> set (tr s)"
proof -
  note d = settledD[OF s(1)]
  consider l where "l \<in> set d" "neg_lit l \<in> set d" | l where "l \<in> set d" "root_true s l" | e where "e \<in> set (lits s)" "set e \<subseteq> set d"
    | l1 l2 b where "l1 \<in> set d" "l2 \<in> set d" "W_BINARY l2 b \<in> set (wl s ! neg_lit l1)"
    using c unfolding covers_def by blast
  then show ?thesis
  proof cases
    case (1 l)
    then show ?thesis using total_lit[OF d(2) t, of l] lt by blast
  next
    case (2 l)
    then have "l \<in> set (tr s)" using nth_mem by (auto simp: root_true_def)
    then show ?thesis using 2 by blast
  next
    case (3 e)
    then show ?thesis using clause_true[OF s q t] by blast
  next
    case (4 l1 l2 b)
    then show ?thesis using total_lit[OF d(2) t, of l1] lt binary_true[OF s q, of "neg_lit l1" l2 b] by blast
  qed
qed

lemma model_holds:
  assumes t: "trail_ok n (asg s)" and e: "m_eliminated (heu s) = replicate n False" and l: "l < 2 * n" and tot: "total n s"
  shows "lit_holds (model_of (m_model (mk_model s))) l \<longleftrightarrow> l \<in> set (tr s)"
    "model_value l (m_model (mk_model s)) = l_true \<longleftrightarrow> l \<in> set (tr s)"
    "(if lit_sign l then m_model (mk_model s) ! lit_var l = l_false else m_model (mk_model s) ! lit_var l = l_true) \<longleftrightarrow> l \<in> set (tr s)"
proof -
  let ?p = "mk_literal (lit_var l) False"
  have v: "lit_var l < n" using l by (simp add: lit_var_less)
  have "sat_num_vars s = n" using trail_okD(3)[OF t] by (simp add: sat_num_vars_def)
  then have m: "m_model (mk_model s) ! lit_var l = var_value s (lit_var l)" using v e by (simp add: mk_model_def)
  have p: "?p < 2 * n" using v by (simp add: lit_simps)
  have val: "var_value s (lit_var l) = l_true \<longleftrightarrow> ?p \<in> set (tr s)" "var_value s (lit_var l) = l_false \<longleftrightarrow> ?p \<notin> set (tr s)"
    using value_iff(1,2)[OF t p] total_lit[OF t tot p] by (simp_all add: var_value_def)
  have sg: "l = (if lit_sign l then neg_lit ?p else ?p)" by (auto simp: lit_simps elim!: oddE)
  show a: "lit_holds (model_of (m_model (mk_model s))) l \<longleftrightarrow> l \<in> set (tr s)"
    using sg val total_lit[OF t tot p] by (auto simp: lit_holds_def model_of_def m split: if_splits)
  show "model_value l (m_model (mk_model s)) = l_true \<longleftrightarrow> l \<in> set (tr s)"
    using sg val total_lit[OF t tot p]
    by (cases "var_value s (lit_var l)") (auto simp: model_value_def m Let_def split: if_splits)
  show "(if lit_sign l then m_model (mk_model s) ! lit_var l = l_false else m_model (mk_model s) ! lit_var l = l_true) \<longleftrightarrow> l \<in> set (tr s)"
    using sg val total_lit[OF t tot p] by (auto simp: m split: if_splits)
qed

theorem mk_model_ok:
  assumes inv: "sat_inv F n s" and ni: "\<not> inconsistent s" and q: "m_qhead (asg s) = length (tr s)" and t: "total n s"
    and F: "\<forall>d \<in> F. \<forall>l \<in> set d. l < 2 * n"
  shows "models (model_of (m_model (mk_model s))) F" "check_model (mk_model s) (m_model (mk_model s))"
proof -
  have s: "settled F n s" and c: "covered F s" and e: "m_eliminated (heu s) = replicate n False" and qt: "quiet n s"
    using inv by (simp_all add: sat_inv_def quiet_def)
  note d = settledD[OF s]
  note m = model_holds[OF d(2) e _ t]
  show "models (model_of (m_model (mk_model s))) F"
    unfolding models_def
  proof
    fix D assume D: "D \<in> F"
    then have "covers s D" using c ni by (auto simp: covered_def)
    then show "\<exists>l \<in> set D. lit_holds (model_of (m_model (mk_model s))) l"
      using covered_true[OF s ni q t] m(1) F D by blast
  qed
  let ?m = "m_model (mk_model s)"
  have f: "cdb (mk_model s) = cdb s" by (simp add: mk_model_def)
  have g: "get_clause (mk_model s) off = get_clause s off" for off by (simp add: get_clause_def f)
  have cl: "satisfied_by (get_clause s off) ?m" if off: "off \<in> set (m_clauses (cdb s)) \<union> set (m_learned (cdb s))" for off
  proof -
    have o: "off < length (m_cls_allocator (cdb s))" using off qt by (auto simp: quiet_def)
    have "c_lits (get_clause s off) \<in> set (lits s)" using o by (simp add: get_clause_def)
    moreover obtain l where "l \<in> set (c_lits (get_clause s off))" "l \<in> set (tr s)" using clause_true[OF s ni q t calculation] by blast
    moreover have "l < 2 * n" using trail_okD(6)[OF d(2) \<open>l \<in> set (tr s)\<close>] .
    ultimately show ?thesis using m(3) unfolding satisfied_by_def list_ex_iff by blast
  qed
  have bin: "model_value (neg_lit i) ?m = l_true
      \<or> list_all (\<lambda>w. case w of W_BINARY l2 _ \<Rightarrow> model_value l2 ?m = l_true | _ \<Rightarrow> True) (wl s ! i)" if i: "i < length (wl s)" for i
  proof -
    have i2: "i < 2 * n" using i baseD(5)[OF d(1)] by simp
    show ?thesis
    proof (cases "i \<in> set (tr s)")
      case False
      then show ?thesis using total_lit[OF d(2) t i2] m(2)[of "neg_lit i"] neg_lit_less[of i n] i2 by blast
    next
      case True
      have "model_value x ?m = l_true" if "W_BINARY x b \<in> set (wl s ! i)" for x b
        using binary_true[OF s ni q True that] m(2)[of x] trail_okD(6)[OF d(2)] by blast
      then show ?thesis by (auto simp: list_all_iff split: watched.split)
    qed
  qed
  show "check_model (mk_model s) ?m"
    unfolding check_model_def g f using cl bin by (auto simp: list_all_iff)
qed

section \<open>The search\<close>

lemma sat_inv_propagate:
  assumes inv: "sat_inv F n s"
  shows "\<exists>ok s'. propagate u s = Some (ok, s') \<and> sat_inv F n s' \<and> inconsistent s' = (\<not> ok) \<and> same_counters s s'
    \<and> (ok \<longrightarrow> m_qhead (asg s') = length (tr s')) \<and> length (tr s) \<le> length (tr s')"
proof -
  have s: "settled F n s" and q: "quiet n s" and c: "covered F s" using inv by (simp_all add: sat_inv_def)
  from propagate_correct[OF s, of u] obtain ok s' where
    r: "propagate u s = Some (ok, s')" and s': "settled F n s'" "inconsistent s' = (\<not> ok)" and p: "progress (wl s) s (wl s') s'"
    and qh: "ok \<longrightarrow> m_qhead (asg s') = length (tr s')" unfolding propagate_post_def by blast
  note g = progress_grow[OF p q]
  have "inconsistent s \<longrightarrow> inconsistent s'"
  proof
    assume "inconsistent s"
    then have "propagate u s = Some (False, s)" by (simp add: propagate_def)
    then show "inconsistent s'" using r s'(2) by simp
  qed
  then have "sat_inv F n s'" using s'(1) grow_quiet[OF g q] grow_covered[OF g c] by (simp add: sat_inv_def)
  moreover have "same_counters s s'" using growD(3,14-16)[OF g] by (simp add: same_counters_def)
  moreover have "length (tr s) \<le> length (tr s')" using growD(8)[OF g] by auto
  ultimately show ?thesis using r s'(2) qh by blast
qed

lemma same_counters_trans: "same_counters s s' \<Longrightarrow> same_counters s' s'' \<Longrightarrow> same_counters s s''"
  by (simp add: same_counters_def)

text \<open>One round: without a conflict the state is ready for a decision; a conflict is counted.\<close>

definition gave_up :: "solver \<Rightarrow> bool" where
  "gave_up s \<longleftrightarrow> m_max_conflicts (m_config s) < m_conflicts (heu s) \<or> m_restart_threshold (heu s) < m_conflicts_since_restart (heu s)"

definition round_post :: "literal list set \<Rightarrow> nat \<Rightarrow> solver \<Rightarrow> (lbool \<times> bool \<times> solver) option \<Rightarrow> bool" where
  "round_post F n s res \<longleftrightarrow>
     (\<exists>r fin s'. res = Some (r, fin, s') \<and> sat_inv F n s' \<and> (r = l_false \<longrightarrow> entails F {}) \<and> (r = l_undef \<longrightarrow> gave_up s')
        \<and> (r = l_true \<longrightarrow> \<not> inconsistent s'
             \<and> (if fin then m_qhead (asg s') = length (tr s') \<and> same_counters s s' \<and> length (tr s) \<le> length (tr s')
                else m_restart_threshold (heu s') = m_restart_threshold (heu s)
                  \<and> m_conflicts_since_restart (heu s') = m_conflicts_since_restart (heu s) + 1
                  \<and> m_conflicts_since_restart (heu s') \<le> m_restart_threshold (heu s'))))"

lemma round_postI:
  assumes "sat_inv F n s'" "r = l_false \<longrightarrow> entails F {}" "r = l_undef \<longrightarrow> gave_up s'"
    and "r = l_true \<Longrightarrow> \<not> inconsistent s'
             \<and> (if fin then m_qhead (asg s') = length (tr s') \<and> same_counters s s' \<and> length (tr s) \<le> length (tr s')
                else m_restart_threshold (heu s') = m_restart_threshold (heu s)
                  \<and> m_conflicts_since_restart (heu s') = m_conflicts_since_restart (heu s) + 1
                  \<and> m_conflicts_since_restart (heu s') \<le> m_restart_threshold (heu s'))"
  shows "round_post F n s (Some (r, fin, s'))"
  using assms unfolding round_post_def by blast

lemma round_ok:
  assumes inv: "sat_inv F n s"
  shows "round_post F n s (propagate_and_backjump_step s)"
proof -
  from sat_inv_propagate[OF inv, of True] obtain ok s1 where p: "propagate True s = Some (ok, s1)" and inv1: "sat_inv F n s1"
    and ok: "inconsistent s1 = (\<not> ok)" and ctr: "same_counters s s1"
    and qh: "ok \<longrightarrow> m_qhead (asg s1) = length (tr s1)" "length (tr s) \<le> length (tr s1)" by blast
  show ?thesis
  proof (cases ok)
    case True
    then have "propagate_and_backjump_step s = Some (l_true, True, s1)" using p ok by (simp add: propagate_and_backjump_step_def)
    then show ?thesis using inv1 ok True ctr qh by (auto intro!: round_postI)
  next
    case False
    then have i: "inconsistent s1" using ok by simp
    from resolve_conflict_ok[OF inv1 i] obtain r s2 where rc: "resolve_conflict s1 = Some (r, s2)" and inv2: "sat_inv F n s2"
      and r: "if r then \<not> inconsistent s2 else entails F {} \<and> inconsistent s2 \<and> scope_lvl s2 = 0"
      and cnt: "m_conflicts_since_restart (heu s2) = m_conflicts_since_restart (heu s1) + 1"
        "m_restart_threshold (heu s2) = m_restart_threshold (heu s1)"
      unfolding resolve_post_def by blast
    have eq: "propagate_and_backjump_step s =
        Some (if \<not> r then (l_false, True, s2)
             else if m_conflicts (heu s2) > m_max_conflicts (m_config s2) then (l_undef, True, s2)
             else if m_conflicts_since_restart (heu s2) > m_restart_threshold (heu s2) then (l_undef, True, s2)
             else (l_true, False, s2))"
      using p i rc by (simp add: propagate_and_backjump_step_def)
    show ?thesis
    proof (cases r)
      case False
      then show ?thesis using eq inv2 r by (auto intro!: round_postI)
    next
      case True
      then show ?thesis using eq inv2 r cnt ctr by (auto intro!: round_postI simp: same_counters_def gave_up_def)
    qed
  qed
qed

definition search_post :: "literal list set \<Rightarrow> nat \<Rightarrow> (lbool \<times> solver) option \<Rightarrow> bool" where
  "search_post F n res \<longleftrightarrow>
     (\<exists>r s'. res = Some (r, s') \<and> sat_inv F n s' \<and> (r = l_false \<longrightarrow> entails F {}) \<and> (r = l_undef \<longrightarrow> gave_up s')
        \<and> (r = l_true \<longrightarrow> models (model_of (m_model s')) F \<and> check_model s' (m_model s')))"

lemma search_postI:
  "sat_inv F n s' \<Longrightarrow> (r = l_false \<Longrightarrow> entails F {}) \<Longrightarrow> (r = l_undef \<Longrightarrow> gave_up s') \<Longrightarrow> (r = l_true \<Longrightarrow> models (model_of (m_model s')) F \<and> check_model s' (m_model s'))
    \<Longrightarrow> search_post F n (Some (r, s'))"
  unfolding search_post_def by blast

text \<open>Every round either counts a conflict towards the restart or makes the trail longer.\<close>

definition search_measure :: "nat \<Rightarrow> solver \<Rightarrow> nat" where
  "search_measure n s = (m_restart_threshold (heu s) + 1 - m_conflicts_since_restart (heu s)) * (n + 1) + (n - length (tr s))"

theorem bounded_search_ok:
  assumes "sat_inv F n s" and F: "\<forall>d \<in> F. \<forall>l \<in> set d. l < 2 * n"
  shows "search_post F n (bounded_search s)"
  using assms(1)
proof (induction "search_measure n s" arbitrary: s rule: less_induct)
  case less
  from round_ok[OF less.prems] obtain r fin s1 where st: "propagate_and_backjump_step s = Some (r, fin, s1)" and inv1: "sat_inv F n s1"
    and f: "r = l_false \<longrightarrow> entails F {}" "r = l_undef \<longrightarrow> gave_up s1"
    and t: "r = l_true \<longrightarrow> \<not> inconsistent s1
             \<and> (if fin then m_qhead (asg s1) = length (tr s1) \<and> same_counters s s1 \<and> length (tr s) \<le> length (tr s1)
                else m_restart_threshold (heu s1) = m_restart_threshold (heu s)
                  \<and> m_conflicts_since_restart (heu s1) = m_conflicts_since_restart (heu s) + 1
                  \<and> m_conflicts_since_restart (heu s1) \<le> m_restart_threshold (heu s1))"
    unfolding round_post_def by blast
  show ?case
  proof (cases "r = l_true")
    case False
    then have "bounded_search s = Some (r, s1)" using st by (subst bounded_search.simps) simp
    then show ?thesis using inv1 f False by (auto intro!: search_postI)
  next
    case r: True
    then have ni: "\<not> inconsistent s1" using t by simp
    show ?thesis
    proof (cases fin)
      case False
      then have eq: "bounded_search s = bounded_search s1" using st r by (subst bounded_search.simps) simp
      define A where "A = m_restart_threshold (heu s) - m_conflicts_since_restart (heu s)"
      have "m_restart_threshold (heu s) + 1 - m_conflicts_since_restart (heu s) = A + 1"
        "m_restart_threshold (heu s1) + 1 - m_conflicts_since_restart (heu s1) = A"
        using t r False unfolding A_def by simp_all linarith
      then have "search_measure n s1 < search_measure n s" by (simp add: search_measure_def)
      from less.hyps[OF this inv1] show ?thesis using eq by simp
    next
      case True
      then have q: "m_qhead (asg s1) = length (tr s1)" and c1: "same_counters s s1" and len: "length (tr s) \<le> length (tr s1)"
        using t r by simp_all
      from decide_ok[OF inv1 ni q] obtain d s2 where dc: "decide s1 = Some (d, s2)" and inv2: "sat_inv F n s2" and ni2: "\<not> inconsistent s2"
        and c2: "same_counters s1 s2" and d: "if d then length (tr s2) = length (tr s1) + 1 else asg s2 = asg s1 \<and> (\<forall>v < n. v \<in> lit_var ` set (tr s2))"
        unfolding decide_post_def by blast
      have eq: "bounded_search s = (if d then bounded_search s2 else Some (l_true, mk_model s2))"
        using st r True dc by (subst bounded_search.simps) simp
      show ?thesis
      proof (cases d)
        case True
        have "trail_ok n (asg s2)" using inv2 settledD(2) by (auto simp: sat_inv_def)
        then have "length (tr s2) \<le> n" by (rule trail_length)
        then have "search_measure n s2 < search_measure n s"
          using d True len same_counters_trans[OF c1 c2] by (simp add: search_measure_def same_counters_def)
        from less.hyps[OF this inv2] show ?thesis using eq True by simp
      next
        case False
        then have "asg s2 = asg s1" "total n s2" using d unfolding total_def by metis+
        then have q2: "m_qhead (asg s2) = length (tr s2)" using q by simp
        note m = mk_model_ok[OF inv2 ni2 q2 \<open>total n s2\<close> F]
        have "sat_inv F n (mk_model s2)"
        proof -
          have f: "asg (mk_model s2) = asg s2" "cdb (mk_model s2) = cdb s2" "ana (mk_model s2) = ana s2" "queue (mk_model s2) = queue s2"
            "heu (mk_model s2) = heu s2" by (simp_all add: mk_model_def)
          have "quiet n (mk_model s2)" using inv2 unfolding sat_inv_def quiet_def clean_def waiting_def f by blast
          then show ?thesis using inv2 settled_core[OF f(1,2)] by (simp add: sat_inv_def)
        qed
        then show ?thesis using eq False m by (auto intro!: search_postI)
      qed
    qed
  qed
qed

lemma sat_restart_ok:
  assumes inv: "sat_inv F n s"
  shows "sat_inv F n (sat_restart th s)" "scope_lvl (sat_restart th s) = 0"
proof -
  have s: "settled F n s" and q: "quiet n s" and c: "covered F s" using inv by (simp_all add: sat_inv_def)
  define s1 where "s1 = sat_pop (scope_lvl s) s"
  have s1: "sat_inv F n s1 \<and> scope_lvl s1 = 0"
  proof (cases "scope_lvl s = 0")
    case True
    then show ?thesis using inv by (simp add: s1_def sat_pop_def)
  next
    case False
    then show ?thesis using sat_pop_ok(1,4)[OF s q c, of 0 s1] by (simp add: s1_def)
  qed
  have f: "asg (sat_restart th s) = asg s1" "cdb (sat_restart th s) = cdb s1" "ana (sat_restart th s) = ana s1"
    "queue (sat_restart th s) = queue s1" "m_eliminated (heu (sat_restart th s)) = m_eliminated (heu s1)"
    by (simp_all add: sat_restart_def Let_def s1_def)
  have "quiet n (sat_restart th s)" using s1 unfolding sat_inv_def quiet_def clean_def waiting_def f by blast
  then show "sat_inv F n (sat_restart th s)" using s1 settled_core[OF f(1,2)] by (simp add: sat_inv_def)
  show "scope_lvl (sat_restart th s) = 0" using s1 by (simp add: scope_lvl_def f)
qed

section \<open>The reachable states\<close>

text \<open>The solver with the clauses \<open>F\<close> over \<open>n\<close> variables after any sequence of its operations: clauses are
  added at level 0, decisions are made when propagation is done. A ternary justification leaves 29 bits for its
  second literal, so there are at most \<open>2 ^ 28\<close> variables.\<close>

definition max_vars :: nat where "max_vars = 268435456"

inductive sat_reach :: "literal list set \<Rightarrow> nat \<Rightarrow> solver \<Rightarrow> bool" where
  init: "sat_reach {} 0 (new_solver conf seed)"
| var: "sat_reach F n s \<Longrightarrow> n < max_vars \<Longrightarrow> mk_bool_var s = (v, s') \<Longrightarrow> sat_reach F (n + 1) s'"
| clause: "sat_reach F n s \<Longrightarrow> scope_lvl s = 0 \<Longrightarrow> \<forall>l \<in> set d. l < 2 * n \<Longrightarrow> sat_reach (Set.insert d F) n (mk_clause d s)"
| propagate: "sat_reach F n s \<Longrightarrow> propagate u s = Some (ok, s') \<Longrightarrow> sat_reach F n s'"
| resolve: "sat_reach F n s \<Longrightarrow> inconsistent s \<Longrightarrow> resolve_conflict s = Some (r, s') \<Longrightarrow> sat_reach F n s'"
| decide: "sat_reach F n s \<Longrightarrow> \<not> inconsistent s \<Longrightarrow> m_qhead (asg s) = length (m_trail (asg s)) \<Longrightarrow> decide s = Some (r, s') \<Longrightarrow> sat_reach F n s'"
| search: "sat_reach F n s \<Longrightarrow> bounded_search s = Some (r, s') \<Longrightarrow> sat_reach F n s'"
| restart: "sat_reach F n s \<Longrightarrow> sat_reach F n (sat_restart th s)"

theorem reach_inv: "sat_reach F n s \<Longrightarrow> sat_inv F n s \<and> (\<forall>d \<in> F. \<forall>l \<in> set d. l < 2 * n)"
proof (induction rule: sat_reach.induct)
  case (init conf seed)
  show ?case using new_solver_ok by simp
next
  case (var F n s v s')
  have "\<forall>d \<in> F. \<forall>l \<in> set d. l < 2 * (n + 1)" using var.IH by fastforce
  moreover have "n < null_bool_var" using var.hyps(2) by (simp add: max_vars_def null_bool_var_def)
  ultimately show ?case using mk_bool_var_ok(1)[OF _ _ _ var.hyps(3)] var.IH by blast
next
  case (clause F n s d)
  then show ?case using mk_clause_ok(1)[of F n s d] by blast
next
  case (propagate F n s u ok s')
  then show ?case using sat_inv_propagate[of F n s u] by auto
next
  case (resolve F n s r s')
  then show ?case using resolve_conflict_ok[of F n s] by (auto simp: resolve_post_def)
next
  case (decide F n s r s')
  then show ?case using decide_ok[of F n s] by (auto simp: decide_post_def)
next
  case (search F n s r s')
  then show ?case using bounded_search_ok[of F n s] by (auto simp: search_post_def)
next
  case (restart F n s th)
  then show ?case using sat_restart_ok(1)[of F n s th] by blast
qed

end
