(* ===== verification/Sat_Contracts.thy ===== *)
theory Sat_Contracts
  imports Sat_Sound
begin

text \<open>
  What the operations of the SAT solver promise to a caller, from the invariant: the consequences of the
  decisions, backtracking over a decision, and the clauses the solver
  holds as a representation of the clauses that were added.
\<close>

section \<open>The consequences of the decisions\<close>

definition decisions :: "solver \<Rightarrow> literal set" where
  "decisions s = {m_trail (asg s) ! m_trail_lim sc | sc. sc \<in> set (m_scopes (asg s)) \<and> m_trail_lim sc < length (m_trail (asg s))}"

lemma trail_holds:
  assumes b: "base F n (asg s) ls W" and m: "models \<alpha> F" and dec: "\<And>l. l \<in> decisions s \<Longrightarrow> lit_holds \<alpha> l"
    and i: "i < length (tr s)"
  shows "lit_holds \<alpha> (tr s ! i)"
  using i
proof (induction i rule: less_induct)
  case (less i)
  let ?l = "tr s ! i"
  have T: "lit_holds \<alpha> y" if "y \<in> set (take i (tr s))" for y
    using that less by (auto simp: in_set_conv_nth)
  have r: "reason_ok F ls (asg s) i" by (rule baseD(3)[OF b less.prems])
  show ?case
  proof (cases "level_at (asg s) i = 0")
    case True
    have "\<forall>i < length (tr s). reason_ok F ls (asg s) i" using baseD(3)[OF b] by blast
    from entailsD[OF level_zero_entailed[OF this less.prems True] m] show ?thesis by simp
  next
    case False
    show ?thesis
    proof (cases "m_justification (asg s) ! lit_var ?l")
      case J_NONE
      let ?sc = "m_scopes (asg s) ! (level_at (asg s) i - 1)"
      have "level_at (asg s) i - 1 < length (m_scopes (asg s))" using False level_at_le[of "asg s" i] by linarith
      then have "?sc \<in> set (m_scopes (asg s))" by (rule nth_mem)
      moreover have i: "i = m_trail_lim ?sc" using r False J_NONE by (simp add: reason_ok_def Let_def)
      then have "m_trail_lim ?sc < length (tr s)" using less.prems by simp
      ultimately have "tr s ! m_trail_lim ?sc \<in> decisions s" unfolding decisions_def by blast
      then show ?thesis using dec i by metis
    next
      case (J_BINARY x)
      then have "neg_lit x \<in> set (take i (tr s))" "entails F {?l, x}" using r False by (auto simp: reason_ok_def Let_def)
      then show ?thesis using T[of "neg_lit x"] entailsD[OF _ m, of "{?l, x}"] by auto
    next
      case (J_TERNARY x y)
      then have "neg_lit x \<in> set (take i (tr s))" "neg_lit y \<in> set (take i (tr s))" "entails F {?l, x, y}"
        using r False by (auto simp: reason_ok_def Let_def)
      then show ?thesis using T[of "neg_lit x"] T[of "neg_lit y"] entailsD[OF _ m, of "{?l, x, y}"] by auto
    next
      case (J_CLAUSE off)
      then have c: "off < length ls" "\<forall>x \<in> set (ls ! off) - {?l}. neg_lit x \<in> set (take i (tr s))"
        using r False by (auto simp: reason_ok_def Let_def)
      have "entails F (set (ls ! off))" using baseD(4)[OF b nth_mem[OF c(1)]] by (simp add: clause_ok_def)
      then obtain x where "x \<in> set (ls ! off)" "lit_holds \<alpha> x" using entailsD[OF _ m] by blast
      then show ?thesis using c(2) T[of "neg_lit x"] by (cases "x = ?l") auto
    next
      case (J_EXT x)
      then show ?thesis using r False by (simp add: reason_ok_def Let_def)
    qed
  qed
qed

text \<open>A model of the clauses in which the decisions hold agrees with the trail, and rules out a conflict.\<close>

lemma decisions_imply:
  assumes s: "settled F n s" and m: "models \<alpha> F" and dec: "\<And>l. l \<in> decisions s \<Longrightarrow> lit_holds \<alpha> l"
  shows "l \<in> set (tr s) \<Longrightarrow> lit_holds \<alpha> l" "\<not> inconsistent s"
proof -
  note d = settledD[OF s]
  have T: "lit_holds \<alpha> l" if "l \<in> set (tr s)" for l
    using trail_holds[OF d(1) m dec] that by (auto simp: in_set_conv_nth)
  show "l \<in> set (tr s) \<Longrightarrow> lit_holds \<alpha> l" by (rule T)
  show "\<not> inconsistent s"
  proof
    assume i: "inconsistent s"
    show False
    proof (cases "scope_lvl s = 0")
      case True
      then show False using entailsD[OF root_conflict[OF s i] m] by simp
    next
      case False
      then have "\<exists>C \<subseteq> set (tr s). entails F (neg_lit ` C)"
        using d(5)[OF i] unfolding conflict_ok_def Let_def if_not_P[OF False] by blast
      then obtain C where "C \<subseteq> set (tr s)" "entails F (neg_lit ` C)" by blast
      then show False using entailsD[OF _ m, of "neg_lit ` C"] T by auto
    qed
  qed
qed

section \<open>When a conflict is resolved\<close>

lemma resolve_conflict_lvl:
  assumes inv: "sat_inv F n s" and i: "inconsistent s" and r: "resolve_conflict s = Some (r, s')"
  shows "r = (0 < scope_lvl s)"
proof -
  from resolve_conflict_core_ok[OF inv i] obtain r1 s1 where core: "resolve_conflict_core s = Some (r1, s1)"
    and p: "if r1 then \<not> inconsistent s1 else entails F {} \<and> inconsistent s1 \<and> scope_lvl s1 = 0" "r1 \<longrightarrow> backjump s s1"
    unfolding resolve_post_def by blast
  have "resolve_conflict s = Some (r1, s1)"
    using core p(1) by (subst resolve_conflict.simps) (cases r1; simp)
  then have "r1 = r" using r by simp
  moreover have "r1 \<Longrightarrow> 0 < scope_lvl s" using p(2) by (simp add: backjump_def)
  moreover have "scope_lvl s = 0" if "\<not> r1"
    using core that unfolding resolve_conflict_core_def Let_def
    by (auto simp: scope_lvl_def split: if_splits option.splits prod.splits bind_splits)
  ultimately show ?thesis by (cases r1) auto
qed

section \<open>Backtracking over a decision\<close>

lemma same_trail_assignment:
  assumes "trail_ok n a" "trail_ok n a'" "m_trail a' = m_trail a"
  shows "m_assignment a' = m_assignment a"
  using assms by (intro nth_equalityI) (auto simp: trail_ok_def)

lemma pop_decision:
  assumes inv: "sat_inv F n s" and q: "m_qhead (asg s) = length (tr s)" and o: "opens_scope n s s1"
    and inv2: "sat_inv F n s2" and p: "progress (wl s1) s1 (wl s2) s2" and s3: "s3 = sat_pop 1 s2"
  shows "tr s3 = tr s" "m_assignment (asg s3) = m_assignment (asg s)" "m_scopes (asg s3) = m_scopes (asg s)"
    "scope_lvl s3 = scope_lvl s" "m_qhead (asg s3) = m_qhead (asg s)" "\<not> inconsistent s3" "map set (lits s3) = map set (lits s)"
    "sat_inv F n s3"
proof -
  have st: "settled F n s2" "quiet n s2" "covered F s2" "trail_ok n (asg s)"
    using inv inv2 settledD(2) by (auto simp: sat_inv_def)
  obtain l sc where lv1: "scope_lvl s1 = scope_lvl s + 1" and tr1: "tr s1 = tr s @ [l]" and sc1: "m_scopes (asg s1) = m_scopes (asg s) @ [sc]"
    and lim: "m_trail_lim sc = length (tr s)" and cdb1: "cdb s1 = cdb s" using o unfolding opens_scope_def by blast
  obtain ys where tr2: "tr s2 = tr s1 @ ys" and sc2: "m_scopes (asg s2) = m_scopes (asg s1)" and lits2: "map set (lits s2) = map set (lits s1)"
    and lv2: "scope_lvl s2 = scope_lvl s1" using p by (auto simp: progress_def scope_lvl_def)
  have k: "scope_lvl s < scope_lvl s2" using lv1 lv2 by simp
  have s3': "s3 = sat_pop (scope_lvl s2 - scope_lvl s) s2" using s3 lv1 lv2 by simp
  note ok = sat_pop_ok[OF st(1-3) k s3']
  have "m_clauses_to_reinit (cdb s2) = []" using st(2) by (simp add: quiet_def)
  note e = sat_pop_eq[OF this k, folded s3']
  have len: "length (m_scopes (asg s)) = scope_lvl s" using trail_okD(8)[OF st(4)] by (simp add: scope_lvl_def)
  have "m_scopes (asg s2) ! scope_lvl s = sc" using len by (simp add: sc2 sc1 nth_append)
  then show t: "tr s3 = tr s" by (simp add: e(1) tr2 tr1 lim)
  show "m_scopes (asg s3) = m_scopes (asg s)" using len by (simp add: e(1) sc2 sc1)
  show "scope_lvl s3 = scope_lvl s" "\<not> inconsistent s3" "sat_inv F n s3" using ok by simp_all
  show "m_qhead (asg s3) = m_qhead (asg s)" using ok(3) q t by simp
  have "lits s3 = lits s2" by (simp add: e(2))
  then show "map set (lits s3) = map set (lits s)" using lits2 by (simp add: cdb1)
  have "trail_ok n (asg s3)" using ok(1) settledD(2) by (auto simp: sat_inv_def)
  from same_trail_assignment[OF st(4) this t] show "m_assignment (asg s3) = m_assignment (asg s)" .
qed

section \<open>The clauses of the solver\<close>

text \<open>The clauses allocated, those of the binary watches, and the literals that are true at level 0.\<close>

definition solver_clauses :: "solver \<Rightarrow> literal list set" where
  "solver_clauses s = c_lits ` set (m_cls_allocator (cdb s))
     \<union> {[neg_lit l, x] | l x b. l < length (m_watches (cdb s)) \<and> W_BINARY x b \<in> set (m_watches (cdb s) ! l)}
     \<union> {[l] | l. root_true s l}"

lemma solver_clauses_refine:
  assumes inv: "sat_inv F n s" and lt: "\<forall>d \<in> F. \<forall>l \<in> set d. l < 2 * n" and ni: "\<not> (inconsistent s \<and> scope_lvl s = 0)"
  shows "models \<alpha> (solver_clauses s) \<longleftrightarrow> models \<alpha> F"
proof
  have s: "settled F n s" and c: "covered F s" using inv by (simp_all add: sat_inv_def)
  note d = settledD[OF s]
  have len: "length (wl s) = 2 * n" using baseD(5)[OF d(1)] .
  {
    assume m: "models \<alpha> F"
    have "\<exists>l \<in> set e. lit_holds \<alpha> l" if e: "e \<in> solver_clauses s" for e
    proof -
      consider "e \<in> set (lits s)" | l x b where "e = [neg_lit l, x]" "l < 2 * n" "W_BINARY x b \<in> set (wl s ! l)" | l where "e = [l]" "root_true s l"
        using e len unfolding solver_clauses_def by auto
      then have "entails F (set e)"
      proof cases
        case 1
        then show ?thesis using baseD(4)[OF d(1)] by (simp add: clause_ok_def)
      next
        case (2 l x b)
        then have "watch_ok F n (lits s) l (W_BINARY x b)" using d(1) by (auto simp: base_def)
        then show ?thesis using 2(1) by (simp add: watch_ok_def)
      next
        case (3 l)
        then obtain i where i: "i < length (tr s)" "tr s ! i = l" "level_at (asg s) i = 0" by (auto simp: root_true_def)
        have "\<forall>i < length (tr s). reason_ok F (lits s) (asg s) i" using baseD(3)[OF d(1)] by blast
        then show ?thesis using level_zero_entailed[OF _ i(1,3)] i(2) 3(1) by simp
      qed
      then show ?thesis using entailsD m by blast
    qed
    then show "models \<alpha> (solver_clauses s)" by (auto simp: models_def)
  next
    assume m: "models \<alpha> (solver_clauses s)"
    have "\<exists>l \<in> set e. lit_holds \<alpha> l" if e: "e \<in> F" for e
    proof -
      have "covers s e" using c ni e by (auto simp: covered_def)
      then consider l where "l \<in> set e" "neg_lit l \<in> set e" | l where "l \<in> set e" "root_true s l" | c where "c \<in> set (lits s)" "set c \<subseteq> set e"
        | l1 l2 b where "l1 \<in> set e" "l2 \<in> set e" "W_BINARY l2 b \<in> set (wl s ! neg_lit l1)"
        unfolding covers_def by blast
      then show ?thesis
      proof cases
        case (1 l)
        then show ?thesis using lit_holds_neg by blast
      next
        case (2 l)
        then have "[l] \<in> solver_clauses s" by (auto simp: solver_clauses_def)
        then show ?thesis using m 2(1) by (fastforce simp: models_def)
      next
        case (3 c)
        then have "c \<in> solver_clauses s" by (auto simp: solver_clauses_def)
        then show ?thesis using m 3(2) by (fastforce simp: models_def)
      next
        case (4 l1 l2 b)
        then have "neg_lit l1 < length (wl s)" using lt e len by (simp add: neg_lit_less)
        then have "[neg_lit (neg_lit l1), l2] \<in> solver_clauses s" unfolding solver_clauses_def using 4(3) by blast
        then have "[l1, l2] \<in> solver_clauses s" by simp
        then show ?thesis using m 4(1,2) by (fastforce simp: models_def)
      qed
    qed
    then show "models \<alpha> F" by (auto simp: models_def)
  }
qed

end
