(* ===== verification/Sat_Examples.thy ===== *)
theory Sat_Examples
  imports Sat_Contracts
begin

text \<open>
  Concrete states of the SAT solver over two variables: with one satisfiable clause, with the empty clause, and with
  the four clauses that make every decision fail.
\<close>

section \<open>Adding a binary clause\<close>

definition sample_config :: sat_config where
  "sample_config = \<lparr>m_phase_selection = PS_CACHING, m_phase_caching_on = 400, m_phase_caching_off = 100, m_random_bound = 327,
     m_max_conflicts = uint_max, m_minimize_lemmas = True, m_dyn_sub_res = True\<rparr>"

definition two_variables :: solver where
  "two_variables = snd (mk_bool_var (snd (mk_bool_var (new_solver sample_config 0))))"

lemma two_variables_asg: "inconsistent two_variables = False" "m_trail (asg two_variables) = []" "m_qhead (asg two_variables) = 0"
  "scope_lvl two_variables = 0" "m_assignment (asg two_variables) = [l_undef, l_undef, l_undef, l_undef]"
  "wl two_variables = [[], [], [], []]"
  by (simp_all add: two_variables_def scope_lvl_def inconsistent_def mk_bool_var_def new_solver_def Let_def)

lemma two_variables_reach: "sat_reach {} 2 two_variables"
proof -
  have n: "0 < max_vars" "0 + 1 < max_vars" by (simp_all add: max_vars_def)
  note r1 = sat_reach.var[OF sat_reach.init n(1) prod.collapse[symmetric]]
  have "sat_reach {} (0 + 1 + 1) two_variables"
    unfolding two_variables_def by (rule sat_reach.var[OF r1 n(2) prod.collapse[symmetric]])
  then show ?thesis by (simp add: numeral_2_eq_2)
qed

text \<open>At level 0, with nothing assigned, a clause of two variables only adds its two watches.\<close>

lemma mk_clause_two:
  assumes "scope_lvl s = 0" "lit_value s a = l_undef" "lit_value s b = l_undef" "a < b" "b \<noteq> neg_lit a" "a \<noteq> neg_lit null_literal" "a \<noteq> null_literal"
  shows "asg (mk_clause [a, b] s) = asg s"
    "wl (mk_clause [a, b] s) = (wl s)[neg_lit a := wl s ! neg_lit a @ [W_BINARY b False],
       neg_lit b := (wl s)[neg_lit a := wl s ! neg_lit a @ [W_BINARY b False]] ! neg_lit b @ [W_BINARY a False]]"
proof -
  let ?s = "s\<lparr>m_model_is_current := False\<rparr>"
  have v: "lit_value ?s a = l_undef" "lit_value ?s b = l_undef" "scope_lvl ?s = 0" using assms by (simp_all add: lit_value_def scope_lvl_def)
  have "simplify_clause ?s [a, b] = Some [a, b]"
    using v assms(4-7) by (simp add: simplify_clause_def)
  then have e: "mk_clause [a, b] s = push_watch (neg_lit b) (W_BINARY a False) (push_watch (neg_lit a) (W_BINARY b False) ?s)"
    using v by (simp add: mk_clause_def mk_clause_core_def mk_simplified_def mk_bin_clause_def propagate_bin_clause_def)
  show "asg (mk_clause [a, b] s) = asg s" by (simp add: e)
  show "wl (mk_clause [a, b] s) = (wl s)[neg_lit a := wl s ! neg_lit a @ [W_BINARY b False],
       neg_lit b := (wl s)[neg_lit a := wl s ! neg_lit a @ [W_BINARY b False]] ! neg_lit b @ [W_BINARY a False]]"
    by (simp add: e)
qed

lemma two_literals:
  assumes "asg s = asg two_variables" "a < b" "b < 4" "b \<noteq> neg_lit a"
  shows "asg (mk_clause [a, b] s) = asg two_variables"
    "wl (mk_clause [a, b] s) = (wl s)[neg_lit a := wl s ! neg_lit a @ [W_BINARY b False],
       neg_lit b := (wl s)[neg_lit a := wl s ! neg_lit a @ [W_BINARY b False]] ! neg_lit b @ [W_BINARY a False]]"
proof -
  have "scope_lvl s = 0" using assms(1) two_variables_asg(4) by (simp add: scope_lvl_def)
  moreover have "lit_value s x = l_undef" if "x < 4" for x
  proof -
    consider "x = 0" | "x = 1" | "x = 2" | "x = 3" using \<open>x < 4\<close> by linarith
    then show ?thesis by cases (simp_all add: lit_value_def assms(1) two_variables_asg)
  qed
  then have "lit_value s a = l_undef" "lit_value s b = l_undef" using assms(2,3) by simp_all
  moreover have "a \<noteq> neg_lit null_literal" "a \<noteq> null_literal"
    using assms(2,3) by (simp_all add: lit_simps null_literal_def null_bool_var_def)
  ultimately have "asg (mk_clause [a, b] s) = asg s \<and> wl (mk_clause [a, b] s) = (wl s)[neg_lit a := wl s ! neg_lit a @ [W_BINARY b False],
       neg_lit b := (wl s)[neg_lit a := wl s ! neg_lit a @ [W_BINARY b False]] ! neg_lit b @ [W_BINARY a False]]"
    using mk_clause_two[of s a b] assms(2,4) by blast
  then show "asg (mk_clause [a, b] s) = asg two_variables"
    "wl (mk_clause [a, b] s) = (wl s)[neg_lit a := wl s ! neg_lit a @ [W_BINARY b False],
       neg_lit b := (wl s)[neg_lit a := wl s ! neg_lit a @ [W_BINARY b False]] ! neg_lit b @ [W_BINARY a False]]"
    using assms(1) by simp_all
qed

section \<open>One clause\<close>

text \<open>The clause of the first variable and the negation of the second.\<close>

definition sample_solver :: solver where
  "sample_solver = mk_clause [0, 3] two_variables"

lemma sample_solver_asg: "asg sample_solver = asg two_variables"
  unfolding sample_solver_def by (rule two_literals(1)) (simp_all add: lit_simps)

lemma sample_solver_state: "\<not> inconsistent sample_solver" "m_trail (asg sample_solver) = []" "m_qhead (asg sample_solver) = 0"
  "scope_lvl sample_solver = 0"
  using two_variables_asg sample_solver_asg by (simp_all add: inconsistent_def scope_lvl_def)

lemma sample_solver_reach: "sat_reach {[0, 3]} 2 sample_solver"
  using sat_reach.clause[OF two_variables_reach two_variables_asg(4), of "[0, 3]"] by (simp add: sample_solver_def)

section \<open>Four clauses\<close>

definition clash_solver :: solver where
  "clash_solver = mk_clause [1, 3] (mk_clause [1, 2] (mk_clause [0, 3] (mk_clause [0, 2] two_variables)))"

abbreviation four_clauses :: "literal list set" where
  "four_clauses \<equiv> {[1, 3], [1, 2], [0, 3], [0, 2]}"

lemma clash_asg:
  "asg (mk_clause [0, 2] two_variables) = asg two_variables"
  "asg (mk_clause [0, 3] (mk_clause [0, 2] two_variables)) = asg two_variables"
  "asg (mk_clause [1, 2] (mk_clause [0, 3] (mk_clause [0, 2] two_variables))) = asg two_variables"
  "asg clash_solver = asg two_variables"
proof -
  note n = lit_simps(3)
  show 1: "asg (mk_clause [0, 2] two_variables) = asg two_variables" by (rule two_literals(1)) (simp_all add: n)
  show 2: "asg (mk_clause [0, 3] (mk_clause [0, 2] two_variables)) = asg two_variables" by (rule two_literals(1)[OF 1]) (simp_all add: n)
  show 3: "asg (mk_clause [1, 2] (mk_clause [0, 3] (mk_clause [0, 2] two_variables))) = asg two_variables"
    by (rule two_literals(1)[OF 2]) (simp_all add: n)
  show "asg clash_solver = asg two_variables" unfolding clash_solver_def by (rule two_literals(1)[OF 3]) (simp_all add: n)
qed

lemma clash_watches: "wl clash_solver ! 0 = [W_BINARY 2 False, W_BINARY 3 False]" "wl clash_solver ! 1 = [W_BINARY 2 False, W_BINARY 3 False]"
  "wl clash_solver ! 2 = [W_BINARY 0 False, W_BINARY 1 False]" "wl clash_solver ! 3 = [W_BINARY 0 False, W_BINARY 1 False]"
  unfolding clash_solver_def
  by (simp_all add: two_literals(2) clash_asg[simplified] two_variables_asg lit_simps(3))

lemma clash_solver_state: "\<not> inconsistent clash_solver" "m_trail (asg clash_solver) = []" "m_qhead (asg clash_solver) = 0"
  "scope_lvl clash_solver = 0"
  using two_variables_asg clash_asg(4) by (simp_all add: inconsistent_def scope_lvl_def)

lemma clash_solver_reach: "sat_reach four_clauses 2 clash_solver"
proof -
  have lv: "scope_lvl (mk_clause [0, 2] two_variables) = 0" "scope_lvl (mk_clause [0, 3] (mk_clause [0, 2] two_variables)) = 0"
    "scope_lvl (mk_clause [1, 2] (mk_clause [0, 3] (mk_clause [0, 2] two_variables))) = 0"
    using clash_asg(1-3) two_variables_asg(4) unfolding scope_lvl_def by simp_all
  note r1 = sat_reach.clause[OF two_variables_reach two_variables_asg(4), of "[0, 2]"]
  note r2 = sat_reach.clause[OF r1 lv(1), of "[0, 3]"]
  note r3 = sat_reach.clause[OF r2 lv(2), of "[1, 2]"]
  note r4 = sat_reach.clause[OF r3 lv(3), of "[1, 3]"]
  show ?thesis unfolding clash_solver_def by (rule r4) simp_all
qed

lemma clash_decides: "\<exists>s1. decide clash_solver = Some (True, s1)"
proof -
  have "sat_inv four_clauses 2 clash_solver" using reach_inv[OF clash_solver_reach] by blast
  from decide_ok[OF this clash_solver_state(1)] clash_solver_state(2,3) obtain r s1 where r: "decide clash_solver = Some (r, s1)"
    and p: "if r then length (tr s1) = length (tr clash_solver) + 1
            else asg s1 = asg clash_solver \<and> (\<forall>v < 2. v \<in> lit_var ` set (tr s1))"
    unfolding decide_post_def by fastforce
  have r
  proof (rule ccontr)
    assume "\<not> r"
    from p[unfolded if_not_P[OF this]] have a: "asg s1 = asg clash_solver" and all: "\<forall>v < 2. v \<in> lit_var ` set (tr s1)" by blast+
    have "0 \<in> lit_var ` set (tr s1)" using all[rule_format, of 0] by simp
    then have "0 \<in> lit_var ` set (tr clash_solver)" by (simp only: a)
    then show False using clash_solver_state(2) by simp
  qed
  then show ?thesis using r by simp
qed

lemma clash_conflict: "\<exists>s. sat_reach four_clauses 2 s \<and> inconsistent s \<and> scope_lvl s = 1"
proof -
  have inv: "sat_inv four_clauses 2 clash_solver" using reach_inv[OF clash_solver_reach] by blast
  have q: "m_qhead (asg clash_solver) = length (tr clash_solver)" using clash_solver_state by simp
  obtain s1 where dc: "decide clash_solver = Some (True, s1)" using clash_decides by blast
  have r1: "sat_reach four_clauses 2 s1" using sat_reach.decide[OF clash_solver_reach clash_solver_state(1) q dc] .
  from decide_ok[OF inv clash_solver_state(1) q] dc have inv1: "sat_inv four_clauses 2 s1" and o: "opens_scope 2 clash_solver s1"
    by (auto simp: decide_post_def)
  from o obtain l where l: "l < 4" "l \<in> set (tr s1)" and s1: "cdb s1 = cdb clash_solver" "scope_lvl s1 = 1"
    using clash_solver_state(4) by (auto simp: opens_scope_def)
  have st1: "settled four_clauses 2 s1" using inv1 by (simp add: sat_inv_def)
  from propagate_correct[OF st1, of True] obtain ok s2 where p: "propagate True s1 = Some (ok, s2)" and st2: "settled four_clauses 2 s2"
    and ok: "inconsistent s2 = (\<not> ok)" "ok \<longrightarrow> m_qhead (asg s2) = length (tr s2)" and pr: "progress (wl s1) s1 (wl s2) s2"
    unfolding propagate_post_def by blast
  have l2: "l \<in> set (tr s2)" and lv: "scope_lvl s2 = 1" using pr l(2) s1(2) by (auto simp: progress_def scope_lvl_def)
  have kept: "W_BINARY y b \<in> set (wl s2 ! l)" if "W_BINARY y b \<in> set (wl clash_solver ! l)" for y b
    using pr that s1(1) by (simp add: progress_def)
  have "inconsistent s2"
  proof (rule ccontr)
    assume ni: "\<not> inconsistent s2"
    have t: "y \<in> set (tr s2)" if "W_BINARY y b \<in> set (wl clash_solver ! l)" for y b
      using binary_true[OF st2 ni _ l2 kept[OF that]] ok ni by simp
    have c: "neg_lit y \<notin> set (tr s2)" if "y \<in> set (tr s2)" for y using trail_consistent[OF settledD(2)[OF st2] that] .
    consider "l = 0" | "l = 1" | "l = 2" | "l = 3" using l(1) by linarith
    then have "(2 \<in> set (tr s2) \<and> 3 \<in> set (tr s2)) \<or> (0 \<in> set (tr s2) \<and> 1 \<in> set (tr s2))"
    proof cases
      case 1
      then show ?thesis using t[of 2 False] t[of 3 False] clash_watches(1) by simp
    next
      case 2
      then show ?thesis using t[of 2 False] t[of 3 False] clash_watches(2) by simp
    next
      case 3
      then show ?thesis using t[of 0 False] t[of 1 False] clash_watches(3) by simp
    next
      case 4
      then show ?thesis using t[of 0 False] t[of 1 False] clash_watches(4) by simp
    qed
    then show False using c[of 2] c[of 0] by (auto simp: lit_simps(3))
  qed
  then show ?thesis using sat_reach.propagate[OF r1 p] lv by blast
qed

section \<open>The empty clause\<close>

definition failed_solver :: solver where
  "failed_solver = mk_clause [] two_variables"

lemma failed_solver_state: "inconsistent failed_solver" "scope_lvl failed_solver = 0"
  using two_variables_asg(4) by (simp_all add: failed_solver_def mk_clause_def mk_clause_core_def simplify_clause_def
      mk_simplified_def set_conflict_def inconsistent_def scope_lvl_def)

lemma failed_solver_reach: "sat_reach {[]} 2 failed_solver"
  using sat_reach.clause[OF two_variables_reach two_variables_asg(4), of "[]"] by (simp add: failed_solver_def)

end
