(* ===== verification/Ast.thy ===== *)
theory Ast
  imports Prelude
begin

text \<open>
  The terms the rewriters and the bit-blaster build (src/sources/Z3/src/ast/ast.h, ast.cpp):
  the part of the basic family that \<^verbatim>\<open>ast_manager\<close> recognises and constructs, over
  opaque atoms, constants and values of other families. Terms are hash-consed in the program,
  so its pointer comparisons are equality of terms here. The theory gives the recognisers the
  rewriter asks, the sort discipline \<^verbatim>\<open>mk_app\<close> enforces, and the
  meaning of a term in an interpretation.
\<close>

section \<open>Terms\<close>

datatype sort = BoolSort | OtherSort nat

text \<open>
  \<open>EAtom\<close> is any Boolean term of another family (or an uninterpreted Boolean constant),
  \<open>EConst s n\<close> any term of the non-Boolean sort \<open>s\<close> that is not an if-then-else or a value,
  \<open>EValue s n\<close> a value of that sort. \<open>EXor3\<close> and \<open>ECarry\<close> are the gates \<^verbatim>\<open>OP_XOR3\<close> and
  \<^verbatim>\<open>OP_CARRY\<close> of the bit-vector family. \<^verbatim>\<open>OP_IFF\<close> is \<open>EEq\<close> on Boolean arguments
  (\<^verbatim>\<open>get_eq_op\<close>).
\<close>

datatype expr =
    ETrue
  | EFalse
  | EAtom nat
  | EConst nat nat
  | EValue nat nat
  | ENot expr
  | EAnd "expr list"
  | EOr "expr list"
  | EEq expr expr
  | EIte expr expr expr
  | EDistinct "expr list"
  | EXor3 expr expr expr
  | ECarry expr expr expr

fun get_sort :: "expr \<Rightarrow> sort" where
  "get_sort (EConst s n) = OtherSort s"
| "get_sort (EValue s n) = OtherSort s"
| "get_sort (EIte c t e) = get_sort t"
| "get_sort _ = BoolSort"

definition is_bool :: "expr \<Rightarrow> bool" where
  "is_bool n \<longleftrightarrow> get_sort n = BoolSort"

lemma is_bool_simps [simp]:
  "is_bool ETrue" "is_bool EFalse" "is_bool (EAtom n)" "\<not> is_bool (EConst s n)"
  "\<not> is_bool (EValue s n)" "is_bool (ENot a)" "is_bool (EAnd xs)" "is_bool (EOr xs)"
  "is_bool (EEq a b)" "is_bool (EIte c t e) = is_bool t" "is_bool (EDistinct xs)"
  "is_bool (EXor3 a b c)" "is_bool (ECarry a b c)"
  by (simp_all add: is_bool_def)

section \<open>Recognisers of the manager\<close>

definition is_value :: "expr \<Rightarrow> bool" where
  "is_value e = (case e of ETrue \<Rightarrow> True | EFalse \<Rightarrow> True | EValue s n \<Rightarrow> True | _ \<Rightarrow> False)"

text \<open>
  The manager asks the plugin of a term's family whether it is a unique value, and the plugin of
  the first of two terms (of the second, if the first has none) whether they are equal or distinct.
  The plugins of the other families are a parameter, consulted on non-Boolean terms: on Boolean
  ones no plugin answers more than the default of \<^verbatim>\<open>decl_plugin\<close>, which is identity. For the
  basic family the answers are those of \<^verbatim>\<open>basic_decl_plugin\<close>, whose values are true and false.
\<close>

record plugins =
  plugin_unique_value :: "expr \<Rightarrow> bool"
  plugin_are_equal :: "expr \<Rightarrow> expr \<Rightarrow> bool"
  plugin_are_distinct :: "expr \<Rightarrow> expr \<Rightarrow> bool"

fun is_foreign :: "expr \<Rightarrow> bool" where
  "is_foreign (EConst s n) = True"
| "is_foreign (EValue s n) = True"
| "is_foreign _ = False"

definition is_basic_value :: "expr \<Rightarrow> bool" where
  "is_basic_value e \<longleftrightarrow> e = ETrue \<or> e = EFalse"

definition is_unique_value :: "plugins \<Rightarrow> expr \<Rightarrow> bool" where
  "is_unique_value m e \<longleftrightarrow> is_basic_value e \<or> is_foreign e \<and> plugin_unique_value m e"

definition are_equal :: "plugins \<Rightarrow> expr \<Rightarrow> expr \<Rightarrow> bool" where
  "are_equal m a b \<longleftrightarrow> a = b \<or> is_foreign a \<and> plugin_are_equal m a b"

definition are_distinct :: "plugins \<Rightarrow> expr \<Rightarrow> expr \<Rightarrow> bool" where
  "are_distinct m a b \<longleftrightarrow>
     (if is_foreign a then plugin_are_distinct m a b else a \<noteq> b \<and> is_basic_value a \<and> is_basic_value b)"

text \<open>The answers of \<^verbatim>\<open>model_value_decl_plugin\<close>, whose values are all unique; whether values are equal or
  distinct is left to the default answers of \<^verbatim>\<open>decl_plugin\<close>.\<close>

definition default_plugins :: plugins where
  "default_plugins = \<lparr>plugin_unique_value = is_value, plugin_are_equal = (=),
     plugin_are_distinct = (\<lambda>a b. a \<noteq> b \<and> is_value a \<and> is_value b)\<rparr>"

fun is_complement_core :: "expr \<Rightarrow> expr \<Rightarrow> bool" where
  "is_complement_core ETrue n2 = (n2 = EFalse)"
| "is_complement_core (ENot a) n2 = (a = n2)"
| "is_complement_core _ n2 = False"

definition is_complement :: "expr \<Rightarrow> expr \<Rightarrow> bool" where
  "is_complement n1 n2 \<longleftrightarrow> is_complement_core n1 n2 \<or> is_complement_core n2 n1"

fun is_not :: "expr \<Rightarrow> bool" where
  "is_not (ENot a) = True"
| "is_not _ = False"

fun is_and :: "expr \<Rightarrow> bool" where
  "is_and (EAnd xs) = True"
| "is_and _ = False"

fun is_or :: "expr \<Rightarrow> bool" where
  "is_or (EOr xs) = True"
| "is_or _ = False"

section \<open>Well-sorted terms\<close>

fun ws :: "expr \<Rightarrow> bool" where
  "ws (ENot a) = (ws a \<and> is_bool a)"
| "ws (EAnd xs) = (\<forall>x \<in> set xs. ws x \<and> is_bool x)"
| "ws (EOr xs) = (\<forall>x \<in> set xs. ws x \<and> is_bool x)"
| "ws (EEq a b) = (ws a \<and> ws b \<and> get_sort a = get_sort b)"
| "ws (EIte c t e) = (ws c \<and> is_bool c \<and> ws t \<and> ws e \<and> get_sort t = get_sort e)"
| "ws (EDistinct xs) = ((\<forall>x \<in> set xs. ws x) \<and> (\<forall>x \<in> set xs. get_sort x = get_sort (hd xs)))"
| "ws (EXor3 a b c) = (ws a \<and> is_bool a \<and> ws b \<and> is_bool b \<and> ws c \<and> is_bool c)"
| "ws (ECarry a b c) = (ws a \<and> is_bool a \<and> ws b \<and> is_bool b \<and> ws c \<and> is_bool c)"
| "ws _ = True"

text \<open>The terms a Boolean builder is called with.\<close>

definition fml :: "expr \<Rightarrow> bool" where
  "fml e \<longleftrightarrow> ws e \<and> is_bool e"

lemma fml_simps [simp]:
  "fml ETrue" "fml EFalse" "fml (EAtom n)" "fml (ENot a) = fml a"
  "fml (EAnd xs) = (\<forall>x \<in> set xs. fml x)" "fml (EOr xs) = (\<forall>x \<in> set xs. fml x)"
  "fml (EEq a b) = (ws a \<and> ws b \<and> get_sort a = get_sort b)"
  "fml (EIte c t e) = (fml c \<and> fml t \<and> fml e)"
  "fml (EXor3 a b c) = (fml a \<and> fml b \<and> fml c)"
  "fml (ECarry a b c) = (fml a \<and> fml b \<and> fml c)"
  by (auto simp: fml_def is_bool_def)

lemma fml_ws: "fml e \<Longrightarrow> ws e"
  by (simp add: fml_def)

lemma fml_sort: "fml e \<Longrightarrow> get_sort e = BoolSort"
  by (simp add: fml_def is_bool_def)

lemma ws_is_bool_fml: "ws e \<Longrightarrow> is_bool e \<Longrightarrow> fml e"
  by (simp add: fml_def)

section \<open>Meaning\<close>

datatype val = VBool bool | VElem nat nat

record interp =
  atom_val :: "nat \<Rightarrow> bool"
  const_val :: "nat \<Rightarrow> nat \<Rightarrow> nat"
  value_val :: "nat \<Rightarrow> nat \<Rightarrow> nat"

definition tb :: "val \<Rightarrow> bool" where
  "tb v = (case v of VBool b \<Rightarrow> b | VElem _ _ \<Rightarrow> False)"

lemma tb_VBool [simp]: "tb (VBool b) = b"
  by (simp add: tb_def)

fun eval :: "interp \<Rightarrow> expr \<Rightarrow> val" where
  "eval I ETrue = VBool True"
| "eval I EFalse = VBool False"
| "eval I (EAtom n) = VBool (atom_val I n)"
| "eval I (EConst s n) = VElem s (const_val I s n)"
| "eval I (EValue s n) = VElem s (value_val I s n)"
| "eval I (ENot a) = VBool (\<not> tb (eval I a))"
| "eval I (EAnd xs) = VBool (\<forall>x \<in> set xs. tb (eval I x))"
| "eval I (EOr xs) = VBool (\<exists>x \<in> set xs. tb (eval I x))"
| "eval I (EEq a b) = VBool (eval I a = eval I b)"
| "eval I (EIte c t e) = (if tb (eval I c) then eval I t else eval I e)"
| "eval I (EDistinct xs) = VBool (distinct (map (eval I) xs))"
| "eval I (EXor3 a b c) = VBool ((tb (eval I a) \<noteq> tb (eval I b)) \<noteq> tb (eval I c))"
| "eval I (ECarry a b c) = VBool ((tb (eval I a) \<and> tb (eval I b)) \<or> (tb (eval I a) \<and> tb (eval I c))
      \<or> (tb (eval I b) \<and> tb (eval I c)))"

text \<open>Truth of a formula.\<close>

definition holds :: "interp \<Rightarrow> expr \<Rightarrow> bool" where
  "holds I e = tb (eval I e)"

lemma eval_bool: "ws e \<Longrightarrow> is_bool e \<Longrightarrow> eval I e = VBool (holds I e)"
  by (induction e) (auto simp: holds_def is_bool_def)

lemma eval_fml: "fml e \<Longrightarrow> eval I e = VBool (holds I e)"
  by (simp add: fml_def eval_bool)

lemma holds_simps [simp]:
  "holds I ETrue" "\<not> holds I EFalse" "holds I (EAtom n) = atom_val I n"
  "holds I (ENot a) = (\<not> holds I a)"
  "holds I (EAnd xs) = (\<forall>x \<in> set xs. holds I x)"
  "holds I (EOr xs) = (\<exists>x \<in> set xs. holds I x)"
  "holds I (EEq a b) = (eval I a = eval I b)"
  "holds I (EIte c t e) = (if holds I c then holds I t else holds I e)"
  "holds I (EDistinct xs) = distinct (map (eval I) xs)"
  "holds I (EXor3 a b c) = ((holds I a \<noteq> holds I b) \<noteq> holds I c)"
  "holds I (ECarry a b c) =
     ((holds I a \<and> holds I b) \<or> (holds I a \<and> holds I c) \<or> (holds I b \<and> holds I c))"
  by (auto simp: holds_def)

lemma eval_ite: "eval I (EIte c t e) = (if holds I c then eval I t else eval I e)"
  by (simp add: holds_def)

declare eval.simps(10) [simp del]
declare eval_ite [simp]

lemma eval_eq_fml: "fml a \<Longrightarrow> fml b \<Longrightarrow> eval I a = eval I b \<longleftrightarrow> holds I a = holds I b"
  by (simp add: eval_fml)

text \<open>A term's value has the term's sort.\<close>

fun val_sort :: "val \<Rightarrow> sort" where
  "val_sort (VBool b) = BoolSort"
| "val_sort (VElem s n) = OtherSort s"

lemma val_sort_eval: "ws e \<Longrightarrow> val_sort (eval I e) = get_sort e"
  by (induction e) (auto simp: is_bool_def)

section \<open>What the plugins promise\<close>

text \<open>The contract of ast/ast.h, for an interpretation of the theories: answers are right, and distinct
  unique values differ.\<close>

definition obeys :: "plugins \<Rightarrow> interp \<Rightarrow> bool" where
  "obeys m I \<longleftrightarrow>
     (\<forall>a b. is_foreign a \<and> ws b \<and> get_sort a = get_sort b \<longrightarrow>
        (plugin_are_equal m a b \<longrightarrow> eval I a = eval I b) \<and> (plugin_are_distinct m a b \<longrightarrow> eval I a \<noteq> eval I b)
        \<and> (a \<noteq> b \<and> is_foreign b \<and> plugin_unique_value m a \<and> plugin_unique_value m b \<longrightarrow> eval I a \<noteq> eval I b))"

text \<open>The rewriter compares values by identity, also those that are not unique: it relies on
  each element having one value only.\<close>

definition canonical :: "interp \<Rightarrow> bool" where
  "canonical I \<longleftrightarrow> (\<forall>s m n. value_val I s m = value_val I s n \<longrightarrow> m = n)"

definition faithful :: "plugins \<Rightarrow> interp \<Rightarrow> bool" where
  "faithful m I \<longleftrightarrow> obeys m I \<and> canonical I"

lemma value_eq_iff:
  "is_value a \<Longrightarrow> is_value b \<Longrightarrow> get_sort a = BoolSort \<or> canonical I \<Longrightarrow> eval I a = eval I b \<longleftrightarrow> a = b"
  by (auto simp: is_value_def canonical_def split: expr.splits)

lemma obeys_default: "canonical I \<Longrightarrow> obeys default_plugins I"
  using value_eq_iff[of _ _ I] by (auto simp: obeys_def default_plugins_def)

lemma is_value_cases:
  assumes "is_value v"
  obtains "v = ETrue" | "v = EFalse" | s n where "v = EValue s n"
  using assms by (auto simp: is_value_def split: expr.splits)

lemma is_value_ws [simp]: "is_value v \<Longrightarrow> ws v"
  by (auto elim: is_value_cases)

lemma foreign_not_bool: "is_foreign a \<Longrightarrow> get_sort a \<noteq> BoolSort"
  by (cases a) auto

lemma are_equal_refl [simp]: "are_equal m a a"
  by (simp add: are_equal_def)

lemma are_equal_bool: "get_sort a = BoolSort \<Longrightarrow> are_equal m a b \<longleftrightarrow> a = b"
  using foreign_not_bool by (auto simp: are_equal_def)

lemma are_equal_eval:
  "are_equal m a b \<Longrightarrow> ws b \<Longrightarrow> get_sort a = get_sort b \<Longrightarrow> get_sort a = BoolSort \<or> obeys m I \<Longrightarrow> eval I a = eval I b"
  using foreign_not_bool by (auto simp: are_equal_def obeys_def)

lemma are_distinct_eval:
  "are_distinct m a b \<Longrightarrow> ws b \<Longrightarrow> get_sort a = get_sort b \<Longrightarrow> get_sort a = BoolSort \<or> obeys m I \<Longrightarrow> eval I a \<noteq> eval I b"
  using foreign_not_bool[of a] by (auto simp: are_distinct_def obeys_def is_basic_value_def split: if_splits)

lemma unique_values_eval:
  assumes "is_unique_value m a" "is_unique_value m b" "a \<noteq> b" "ws b" "get_sort a = get_sort b" "obeys m I"
  shows "eval I a \<noteq> eval I b"
  using assms foreign_not_bool[of a] foreign_not_bool[of b] by (auto simp: is_unique_value_def is_basic_value_def obeys_def)

lemma complement_core_holds: "is_complement_core a b \<Longrightarrow> holds I a \<longleftrightarrow> \<not> holds I b"
  by (cases a) auto

lemma complement_holds: "is_complement a b \<Longrightarrow> holds I a \<longleftrightarrow> \<not> holds I b"
  unfolding is_complement_def using complement_core_holds by blast

lemma is_notE: "is_not e \<Longrightarrow> (\<And>a. e = ENot a \<Longrightarrow> P) \<Longrightarrow> P"
  by (cases e) auto

lemma is_orE: "is_or e \<Longrightarrow> (\<And>xs. e = EOr xs \<Longrightarrow> P) \<Longrightarrow> P"
  by (cases e) auto

lemma is_andE: "is_and e \<Longrightarrow> (\<And>xs. e = EAnd xs \<Longrightarrow> P) \<Longrightarrow> P"
  by (cases e) auto

end
