(* ===== verification/Bool_Rewriter.thy ===== *)
theory Bool_Rewriter
  imports Ast
begin

text \<open>
  The Boolean rewriter (src/sources/Z3/src/ast/rewriter/bool_rewriter.cpp and .h): the
  depth-one simplifications of the connectives of the basic family. The definitions follow
  the functions of the class in their order; a call that can run the local context
  simplifier returns the rewriter with its updated cost counter. The theorems about them
  are in \<open>Bool_Rewriter_Sound\<close>.
\<close>

section \<open>The rewriter's state\<close>

record bool_rewriter =
  m_flat :: bool
  m_local_ctx :: bool
  m_elim_and :: bool
  m_blast_distinct :: bool
  m_blast_distinct_threshold :: "32 word"
  m_ite_extra_rules :: bool
  m_local_ctx_limit :: "32 word"
  m_local_ctx_cost :: "32 word"
  m_manager :: plugins

text \<open>The defaults of \<^verbatim>\<open>bool_rewriter_params\<close>, as a rewriter constructed without parameters has
  them (\<^verbatim>\<open>UINT_MAX\<close> is \<open>- 1\<close>).\<close>

definition default_rewriter :: bool_rewriter where
  "default_rewriter = \<lparr>m_flat = True, m_local_ctx = False, m_elim_and = False,
     m_blast_distinct = False, m_blast_distinct_threshold = - 1, m_ite_extra_rules = False,
     m_local_ctx_limit = - 1, m_local_ctx_cost = 0, m_manager = default_plugins\<rparr>"

definition reset_local_ctx_cost :: "bool_rewriter \<Rightarrow> bool_rewriter" where
  "reset_local_ctx_cost rw = rw\<lparr>m_local_ctx_cost := 0\<rparr>"

text \<open>The status of a core function, with the term it stored in \<^verbatim>\<open>result\<close>.\<close>

datatype br_status = BR_FAILED | BR_DONE expr | BR_REWRITE1 expr | BR_REWRITE2 expr | BR_REWRITE3 expr

primrec br_result :: "br_status \<Rightarrow> expr \<Rightarrow> expr" where
  "br_result BR_FAILED d = d"
| "br_result (BR_DONE r) d = r"
| "br_result (BR_REWRITE1 r) d = r"
| "br_result (BR_REWRITE2 r) d = r"
| "br_result (BR_REWRITE3 r) d = r"

section \<open>Negation and equality\<close>

fun is_ite :: "expr \<Rightarrow> bool" where
  "is_ite (EIte c t e) = True"
| "is_ite _ = False"

fun arg0 :: "expr \<Rightarrow> expr" where
  "arg0 (ENot a) = a"
| "arg0 e = e"

text \<open>An if-then-else both of whose leaves are values.\<close>

fun ite_of_values :: "expr \<Rightarrow> bool" where
  "ite_of_values (EIte c t e) = (is_value t \<and> is_value e)"
| "ite_of_values _ = False"

text \<open>The fold of \<^verbatim>\<open>(iff (iff a b) (iff (not a) b))\<close>.\<close>

fun iff_complement :: "expr \<Rightarrow> expr \<Rightarrow> bool" where
  "iff_complement (EEq la lb) (EEq ra rb) =
     (is_bool la \<and> is_bool ra \<and>
      ((la = ra \<and> (rb = ENot lb \<or> lb = ENot rb)) \<or> (lb = rb \<and> (ra = ENot la \<or> la = ENot ra))))"
| "iff_complement _ _ = False"

text \<open>
  \<^verbatim>\<open>mk_not_core\<close> calls \<^verbatim>\<open>mk_not\<close> and \<^verbatim>\<open>mk_eq\<close>, and \<^verbatim>\<open>mk_eq_core\<close> calls \<^verbatim>\<open>mk_not\<close>, so they are
  defined together; \<open>br_result s d\<close> is the wrapper's "if the core failed, build the node".
\<close>

function mk_not_core :: "bool_rewriter \<Rightarrow> expr \<Rightarrow> br_status"
  and mk_eq_core :: "bool_rewriter \<Rightarrow> expr \<Rightarrow> expr \<Rightarrow> br_status"
  and try_ite_value :: "bool_rewriter \<Rightarrow> expr \<Rightarrow> expr \<Rightarrow> br_status" where
  "mk_not_core rw t =
     (case t of
        ENot a \<Rightarrow> BR_DONE a
      | ETrue \<Rightarrow> BR_DONE EFalse
      | EFalse \<Rightarrow> BR_DONE ETrue
      | EEq a b \<Rightarrow>
          (if is_bool a then
             let tmp = br_result (mk_not_core rw a) (ENot a)
             in BR_DONE (br_result (mk_eq_core rw tmp b) (EEq tmp b))
           else BR_FAILED)
      | _ \<Rightarrow> BR_FAILED)"
| "mk_eq_core rw lhs rhs =
     (if are_equal (m_manager rw) lhs rhs then BR_DONE ETrue
      else if are_distinct (m_manager rw) lhs rhs then BR_DONE EFalse
      else
        let r = (if is_ite lhs \<and> is_value rhs then try_ite_value rw lhs rhs
                 else if is_ite rhs \<and> is_value lhs then try_ite_value rw rhs lhs
                 else BR_FAILED)
        in if r \<noteq> BR_FAILED then r
        else if is_bool lhs then
          let unfolded = is_not lhs \<and> is_not rhs;
              l = (if unfolded then arg0 lhs else lhs);
              r = (if unfolded then arg0 rhs else rhs)
          in if l = ETrue then BR_DONE r
             else if l = EFalse then BR_DONE (br_result (mk_not_core rw r) (ENot r))
             else if r = ETrue then BR_DONE l
             else if r = EFalse then BR_DONE (br_result (mk_not_core rw l) (ENot l))
             else if is_complement l r then BR_DONE EFalse
             else if unfolded then BR_DONE (EEq l r)
             else if iff_complement l r then BR_DONE EFalse
             else BR_FAILED
        else BR_FAILED)"
| "try_ite_value rw ite v =
     (case ite of
        EIte cond t e \<Rightarrow>
          (if is_value t \<and> is_value e then
             BR_DONE (if t \<noteq> v \<and> e \<noteq> v then EFalse
                      else if t = v \<and> e = v then ETrue
                      else if t = v then cond
                      else br_result (mk_not_core rw cond) (ENot cond))
           else if m_ite_extra_rules rw \<and> is_value t then
             BR_REWRITE2 (if v = t then EOr [cond, EEq v e]
                          else EAnd [br_result (mk_not_core rw cond) (ENot cond), EEq v e])
           else if m_ite_extra_rules rw \<and> is_value e then
             BR_REWRITE2 (if v = e then EOr [br_result (mk_not_core rw cond) (ENot cond), EEq v t]
                          else EAnd [cond, EEq v t])
           else if ite_of_values t then
             BR_REWRITE2 (EIte cond (br_result (try_ite_value rw t v) (EEq t v)) (EEq e v))
           else if ite_of_values e then
             BR_REWRITE2 (EIte cond (EEq t v) (br_result (try_ite_value rw e v) (EEq e v)))
           else BR_FAILED)
      | _ \<Rightarrow> BR_FAILED)"
  by pat_completeness auto

text \<open>
  Termination. \<open>mk_not_core\<close> passes the negation of the left side on to \<open>mk_eq_core\<close>, so the
  measure needs a bound on the size of what \<open>mk_not_core\<close> returns, proved on the domain of the
  functions first. The weight of an if-then-else is large enough to also serve the
  termination of the local context simplifier below.
\<close>

fun wt :: "expr \<Rightarrow> nat" where
  "wt (ENot a) = 1 + wt a"
| "wt (EAnd xs) = 1 + sum_list (map wt xs)"
| "wt (EOr xs) = 1 + sum_list (map wt xs)"
| "wt (EEq a b) = 1 + wt a + wt b"
| "wt (EIte c t e) = 4 + wt c + wt t + wt e"
| "wt (EDistinct xs) = 1 + sum_list (map wt xs)"
| "wt (EXor3 a b c) = 1 + wt a + wt b + wt c"
| "wt (ECarry a b c) = 1 + wt a + wt b + wt c"
| "wt _ = 1"

lemma wt_pos [simp]: "0 < wt e"
  by (cases e) auto

lemma wt_ge1: "1 \<le> wt e"
  using wt_pos[of e] by linarith

lemma wt_value [simp]: "is_value v \<Longrightarrow> wt v = 1"
  by (auto elim: is_value_cases)

lemma wt_arg0: "wt (arg0 e) \<le> wt e"
  by (cases e) auto


lemma wt_notnot: "is_not l \<Longrightarrow> is_not r \<Longrightarrow> wt (arg0 l) + 1 \<le> wt l \<and> wt (arg0 r) + 1 \<le> wt r"
  by (auto elim!: is_notE)

lemma wt_eq_cases:
  assumes "wt l' \<le> wt l" "wt r' \<le> wt r"
    and "b \<Longrightarrow> c2 \<Longrightarrow> wt nr \<le> wt r' + 1"
    and "b \<Longrightarrow> \<not> c1 \<Longrightarrow> \<not> c2 \<Longrightarrow> \<not> c3 \<Longrightarrow> c4 \<Longrightarrow> wt nl \<le> wt l' + 1"
  shows "wt (br_result
      (if b then
         (if c1 then BR_DONE r' else if c2 then BR_DONE nr else if c3 then BR_DONE l'
          else if c4 then BR_DONE nl else if c5 then BR_DONE EFalse
          else if c6 then BR_DONE (EEq l' r') else if c7 then BR_DONE EFalse else BR_FAILED)
       else BR_FAILED) (EEq l r)) \<le> wt l + wt r + 1"
  using assms by auto

lemma rewriter_size_dom:
  "mk_not_core_mk_eq_core_try_ite_value_dom (Inl (rw, t)) \<Longrightarrow>
     wt (br_result (mk_not_core rw t) (ENot t)) \<le> wt t + 1"
  "mk_not_core_mk_eq_core_try_ite_value_dom (Inr (Inl (rw, l, r))) \<Longrightarrow>
     wt (br_result (mk_eq_core rw l r) (EEq l r)) \<le> wt l + wt r + 1"
  "mk_not_core_mk_eq_core_try_ite_value_dom (Inr (Inr (rw, ite, v))) \<Longrightarrow>
     is_value v \<Longrightarrow>
     wt (br_result (try_ite_value rw ite v) (EEq ite v)) \<le> wt ite + wt v + 1
     \<and> (ite_of_values ite \<longrightarrow> wt (br_result (try_ite_value rw ite v) (EEq ite v)) + 4 \<le> wt ite)"
proof (induction rule: mk_not_core_mk_eq_core_try_ite_value.pinduct)
  case (1 rw t)
  show ?case
  proof (cases t)
    case (EEq a b)
    show ?thesis
    proof (cases "is_bool a")
      case True
      have "wt (br_result (mk_not_core rw a) (ENot a)) \<le> wt a + 1"
        using 1(2) EEq True by blast
      moreover have "wt (br_result (mk_eq_core rw (br_result (mk_not_core rw a) (ENot a)) b)
          (EEq (br_result (mk_not_core rw a) (ENot a)) b))
          \<le> wt (br_result (mk_not_core rw a) (ENot a)) + wt b + 1"
        using 1(3) EEq True by blast
      ultimately show ?thesis
        using EEq True 1(1) by (simp add: mk_not_core.psimps Let_def)
    qed (use EEq 1(1) in \<open>simp add: mk_not_core.psimps\<close>)
  qed (use 1(1) in \<open>simp_all add: mk_not_core.psimps\<close>)
next
  case (2 rw l r)
  note dom = 2(1)
  let ?r = "if is_ite l \<and> is_value r then try_ite_value rw l r
            else if is_ite r \<and> is_value l then try_ite_value rw r l else BR_FAILED"
  let ?u = "is_not l \<and> is_not r"
  let ?l = "if ?u then arg0 l else l"
  let ?rr = "if ?u then arg0 r else r"
  show ?case
  proof (cases "are_equal (m_manager rw) l r \<or> are_distinct (m_manager rw) l r")
    case True
    then show ?thesis using dom by (auto simp: mk_eq_core.psimps)
  next
    case basic: False
    show ?thesis
    proof (cases "?r = BR_FAILED")
      case False
      have "wt (br_result ?r (EEq l r)) \<le> wt l + wt r + 1"
      proof (cases "is_ite l \<and> is_value r")
        case True
        then have "wt (br_result (try_ite_value rw l r) (EEq l r)) \<le> wt l + wt r + 1"
          using 2(2) basic by blast
        with True show ?thesis by simp
      next
        case nl: False
        then have r: "is_ite r" "is_value l" using False by (auto split: if_splits)
        then have "wt (br_result (try_ite_value rw r l) (EEq r l)) \<le> wt r + wt l + 1"
          using 2(3) basic nl by blast
        then show ?thesis using nl r False by (cases "try_ite_value rw r l") auto
      qed
      with False basic dom show ?thesis by (simp add: mk_eq_core.psimps Let_def)
    next
      case failed: True
      have ll: "wt ?l \<le> wt l" "wt ?rr \<le> wt r" by (auto simp: wt_arg0)
      have nr: "wt (br_result (mk_not_core rw ?rr) (ENot ?rr)) \<le> wt ?rr + 1"
        if "is_bool l" "?l = EFalse" 
        using 2(4)[OF _ _ refl] basic failed that by auto
      have nl: "wt (br_result (mk_not_core rw ?l) (ENot ?l)) \<le> wt ?l + 1"
        if "is_bool l" "?l \<noteq> ETrue" "?l \<noteq> EFalse" "?rr \<noteq> ETrue" "?rr = EFalse" 
        using 2(5)[OF _ _ refl] basic failed that by auto
      have eq: "mk_eq_core rw l r =
        (if is_bool l then
           (if ?l = ETrue then BR_DONE ?rr
            else if ?l = EFalse then BR_DONE (br_result (mk_not_core rw ?rr) (ENot ?rr))
            else if ?rr = ETrue then BR_DONE ?l
            else if ?rr = EFalse then BR_DONE (br_result (mk_not_core rw ?l) (ENot ?l))
            else if is_complement ?l ?rr then BR_DONE EFalse
            else if ?u then BR_DONE (EEq ?l ?rr)
            else if iff_complement ?l ?rr then BR_DONE EFalse else BR_FAILED)
         else BR_FAILED)"
        using basic failed dom by (simp add: mk_eq_core.psimps Let_def)
      show ?thesis
        unfolding eq by (rule wt_eq_cases [OF ll nr nl])
    qed
  qed
next
  case (3 rw ite v)
  note dom = 3(1)
  show ?case
  proof (cases ite)
    case (EIte c t e)
    note g = wt_ge1[of c] wt_ge1[of t] wt_ge1[of e]
    have nc: "wt (br_result (mk_not_core rw c) (ENot c)) \<le> wt c + 1"
      if "(is_value t \<and> is_value e \<and> \<not> (t \<noteq> v \<and> e \<noteq> v) \<and> \<not> (t = v \<and> e = v) \<and> t \<noteq> v)
        \<or> (\<not> (is_value t \<and> is_value e) \<and> m_ite_extra_rules rw \<and> is_value t \<and> v \<noteq> t)
        \<or> (\<not> (is_value t \<and> is_value e) \<and> m_ite_extra_rules rw \<and> \<not> is_value t \<and> is_value e \<and> v = e)"
      using that 3(2,3,4) EIte by auto
    have it: "wt (br_result (try_ite_value rw t v) (EEq t v)) + 4 \<le> wt t"
      if "\<not> (is_value t \<and> is_value e)" "\<not> (m_ite_extra_rules rw \<and> is_value t)"
        "\<not> (m_ite_extra_rules rw \<and> is_value e)" "ite_of_values t"
      using that 3(5,7) EIte by auto
    have ie: "wt (br_result (try_ite_value rw e v) (EEq e v)) + 4 \<le> wt e"
      if "\<not> (is_value t \<and> is_value e)" "\<not> (m_ite_extra_rules rw \<and> is_value t)"
        "\<not> (m_ite_extra_rules rw \<and> is_value e)" "\<not> ite_of_values t" "ite_of_values e"
      using that 3(6,7) EIte by auto
    show ?thesis
      using dom nc it ie g 3(7) EIte
      by (auto simp: try_ite_value.psimps)
  qed (use dom in \<open>simp_all add: try_ite_value.psimps\<close>)
qed

lemma rewriter_total: "All mk_not_core_mk_eq_core_try_ite_value_dom"
proof (relation "measure (\<lambda>x. case x of Inl (rw, t) \<Rightarrow> 2 * wt t + 2
    | Inr (Inl (rw, l, r)) \<Rightarrow> 2 * (wt l + wt r) + 1
    | Inr (Inr (rw, ite, v)) \<Rightarrow> 2 * (wt ite + wt v))", goal_cases)
  case 1
  show ?case by simp
next
  case (3 rw t a b tmp)
  then show ?case
    using rewriter_size_dom(1)[of rw a] by simp
qed (auto dest: wt_notnot intro: wt_pos)

termination mk_not_core
  by (rule rewriter_total)

declare mk_not_core.simps [simp del] mk_eq_core.simps [simp del] try_ite_value.simps [simp del]

definition mk_not :: "bool_rewriter \<Rightarrow> expr \<Rightarrow> expr" where
  "mk_not rw t = br_result (mk_not_core rw t) (ENot t)"

definition mk_eq :: "bool_rewriter \<Rightarrow> expr \<Rightarrow> expr \<Rightarrow> expr" where
  "mk_eq rw lhs rhs = br_result (mk_eq_core rw lhs rhs) (EEq lhs rhs)"

definition mk_iff :: "bool_rewriter \<Rightarrow> expr \<Rightarrow> expr \<Rightarrow> expr" where
  "mk_iff rw lhs rhs = mk_eq rw lhs rhs"

definition mk_xor :: "bool_rewriter \<Rightarrow> expr \<Rightarrow> expr \<Rightarrow> expr" where
  "mk_xor rw lhs rhs = (let tmp = mk_not rw lhs in mk_eq rw tmp rhs)"

lemma wt_mk_not: "wt (mk_not rw t) \<le> wt t + 1"
  using rewriter_size_dom(1)[OF rewriter_total [rule_format]] by (simp add: mk_not_def)

lemma wt_mk_eq: "wt (mk_eq rw l r) \<le> wt l + wt r + 1"
  using rewriter_size_dom(2)[OF rewriter_total [rule_format]] by (simp add: mk_eq_def)

section \<open>Conjunction\<close>

text \<open>The loop of \<^verbatim>\<open>mk_nflat_and_core\<close>; \<open>None\<close> is its early return of false.\<close>

fun nflat_and_loop ::
  "expr list \<Rightarrow> expr set \<Rightarrow> expr set \<Rightarrow> bool \<Rightarrow> expr list \<Rightarrow> (bool \<times> expr list) option" where
  "nflat_and_loop [] neg pos s buffer = Some (s, buffer)"
| "nflat_and_loop (arg # args) neg pos s buffer =
     (if arg = ETrue then nflat_and_loop args neg pos True buffer
      else if arg = EFalse then None
      else if is_not arg then
        (if arg0 arg \<in> neg then nflat_and_loop args neg pos True buffer
         else if arg0 arg \<in> pos then None
         else nflat_and_loop args (insert (arg0 arg) neg) pos s (buffer @ [arg]))
      else
        (if arg \<in> pos then nflat_and_loop args neg pos True buffer
         else if arg \<in> neg then None
         else nflat_and_loop args neg (insert arg pos) s (buffer @ [arg])))"

definition mk_nflat_and_core :: "expr list \<Rightarrow> br_status" where
  "mk_nflat_and_core args =
     (case nflat_and_loop args {} {} False [] of
        None \<Rightarrow> BR_DONE EFalse
      | Some (s, buffer) \<Rightarrow>
          (case buffer of
             [] \<Rightarrow> BR_DONE ETrue
           | [x] \<Rightarrow> BR_DONE x
           | _ \<Rightarrow> if s then BR_DONE (EAnd buffer) else BR_FAILED))"

primrec flatten_and :: "expr list \<Rightarrow> expr list" where
  "flatten_and [] = []"
| "flatten_and (arg # args) =
     (case arg of EAnd xs \<Rightarrow> xs | _ \<Rightarrow> [arg]) @ flatten_and args"

definition mk_flat_and_core :: "expr list \<Rightarrow> br_status" where
  "mk_flat_and_core args =
     (if list_ex is_and args then
        let flat_args = flatten_and args
        in BR_DONE (br_result (mk_nflat_and_core flat_args) (EAnd flat_args))
      else mk_nflat_and_core args)"

section \<open>Local context simplification of disjunctions\<close>

definition add_cost :: "nat \<Rightarrow> bool_rewriter \<Rightarrow> bool_rewriter" where
  "add_cost n rw = rw\<lparr>m_local_ctx_cost := m_local_ctx_cost rw + of_nat n\<rparr>"

fun mk_or_app :: "expr list \<Rightarrow> expr" where
  "mk_or_app [] = EFalse"
| "mk_or_app [x] = x"
| "mk_or_app xs = EOr xs"

fun nested_not_or_loop ::
  "expr list \<Rightarrow> expr set \<Rightarrow> expr set \<Rightarrow> bool \<Rightarrow> expr list \<Rightarrow> (bool \<times> expr list) option" where
  "nested_not_or_loop [] neg pos simp new_args = Some (simp, new_args)"
| "nested_not_or_loop (arg # args) neg pos simp new_args =
     (if arg \<in> neg then None
      else if arg \<in> pos then nested_not_or_loop args neg pos True new_args
      else if is_not arg \<and> arg0 arg \<in> neg then nested_not_or_loop args neg pos True new_args
      else if is_not arg \<and> arg0 arg \<in> pos then None
      else nested_not_or_loop args neg pos simp (new_args @ [arg]))"

text \<open>\<^verbatim>\<open>simp_nested_not_or\<close> simplifies \<open>ENot (EOr args)\<close>; \<open>None\<close> is its result false.\<close>

definition simp_nested_not_or ::
  "bool_rewriter \<Rightarrow> expr list \<Rightarrow> expr set \<Rightarrow> expr set \<Rightarrow> expr option \<times> bool_rewriter" where
  "simp_nested_not_or rw args neg pos =
     (let rw' = add_cost (length args) rw
      in case nested_not_or_loop args neg pos False [] of
           None \<Rightarrow> (Some EFalse, rw')
         | Some (simp, new_args) \<Rightarrow>
             (if simp then
                (Some (case new_args of
                         [] \<Rightarrow> ETrue
                       | [x] \<Rightarrow> mk_not rw x
                       | _ \<Rightarrow> ENot (EOr new_args)), rw')
              else (None, rw')))"

text \<open>The simplified argument, and whether \<^verbatim>\<open>modified\<close> was set.\<close>

definition simp_arg :: "expr \<Rightarrow> expr set \<Rightarrow> expr set \<Rightarrow> expr \<times> bool" where
  "simp_arg arg neg pos =
     (if is_not arg then
        (if arg0 arg \<in> neg then (EFalse, True)
         else if arg0 arg \<in> pos then (ETrue, True)
         else (arg, False))
      else
        (if arg \<in> neg then (ETrue, True)
         else if arg \<in> pos then (EFalse, True)
         else (arg, False)))"

definition mk_nested_ite :: "bool_rewriter \<Rightarrow> expr \<Rightarrow> expr \<Rightarrow> expr \<Rightarrow> expr" where
  "mk_nested_ite rw c t e =
     (if c = ETrue then t
      else if c = EFalse then e
      else if t = e then t
      else if is_bool t \<and> t = ETrue then (if e = EFalse then c else EOr [c, e])
      else if is_bool t \<and> t = EFalse then
        (if e = ETrue then mk_not rw c else ENot (EOr [c, mk_not rw e]))
      else if is_bool t \<and> e = ETrue then EOr [mk_not rw c, t]
      else if is_bool t \<and> (e = EFalse \<or> c = e) then ENot (EOr [mk_not rw c, mk_not rw t])
      else if is_bool t \<and> c = t then EOr [c, e]
      else if is_bool t \<and> is_complement_core t e then mk_eq rw c t
      else if is_bool t \<and> is_complement_core e t then mk_eq rw c t
      else EIte c t e)"

definition simp_nested_eq_ite ::
  "bool_rewriter \<Rightarrow> expr \<Rightarrow> expr set \<Rightarrow> expr set \<Rightarrow> expr option \<times> bool_rewriter" where
  "simp_nested_eq_ite rw t0 neg pos =
     (let rw' = add_cost 3 rw;
          t = (if is_not t0 then arg0 t0 else t0);
          finish = (\<lambda>r. if is_not t0 then mk_not rw r else r)
      in (case t of
            EEq l r \<Rightarrow>
              let (new_lhs, m1) = simp_arg l neg pos; (new_rhs, m2) = simp_arg r neg pos
              in (if m1 \<or> m2 then Some (finish (mk_eq rw new_lhs new_rhs)) else None, rw')
          | EIte c x y \<Rightarrow>
              let (new_c, m1) = simp_arg c neg pos; (new_t, m2) = simp_arg x neg pos;
                  (new_e, m3) = simp_arg y neg pos
              in (if m1 \<or> m2 \<or> m3 then Some (finish (mk_nested_ite rw new_c new_t new_e)) else None, rw')
          | _ \<Rightarrow> (None, rw')))"

text \<open>
  The locals of \<^verbatim>\<open>local_ctx_simp\<close> that a pass over the arguments updates.
\<close>

record lctx =
  lc_new :: "expr list"
  lc_neg :: "expr set"
  lc_pos :: "expr set"
  lc_modified :: bool
  lc_simp :: bool
  lc_rw :: bool_rewriter

definition push_new_arg :: "expr \<Rightarrow> lctx \<Rightarrow> lctx" where
  "push_new_arg arg st =
     (if is_not arg then
        (if arg0 arg \<in> lc_neg st then st
         else st\<lparr>lc_neg := insert (arg0 arg) (lc_neg st), lc_new := lc_new st @ [arg]\<rparr>)
      else
        (if arg \<in> lc_pos st then st
         else st\<lparr>lc_pos := insert arg (lc_pos st), lc_new := lc_new st @ [arg]\<rparr>))"

definition lc_simplified :: "lctx \<Rightarrow> expr \<Rightarrow> expr option \<times> bool_rewriter \<Rightarrow> expr \<times> lctx" where
  "lc_simplified st arg r =
     (case r of
        (None, rw') \<Rightarrow> (arg, st\<lparr>lc_rw := rw'\<rparr>)
      | (Some new_arg, rw') \<Rightarrow> (new_arg, st\<lparr>lc_modified := True, lc_simp := True, lc_rw := rw'\<rparr>))"

text \<open>\<^verbatim>\<open>PROCESS_ARG\<close>: \<open>Inl\<close> is the early return of true with its result.\<close>

definition process_nested_not :: "lctx \<Rightarrow> expr \<Rightarrow> expr \<times> lctx" where
  "process_nested_not st arg =
     (case arg of
        ENot (EOr xs) \<Rightarrow>
          lc_simplified st arg (simp_nested_not_or (lc_rw st) xs (lc_neg st) (lc_pos st))
      | _ \<Rightarrow> (arg, st))"

definition process_eq_ite :: "lctx \<Rightarrow> expr \<Rightarrow> expr \<times> lctx" where
  "process_eq_ite st arg =
     lc_simplified st arg (simp_nested_eq_ite (lc_rw st) arg (lc_neg st) (lc_pos st))"

definition process_arg :: "lctx \<Rightarrow> expr \<Rightarrow> (expr \<times> bool_rewriter) + lctx" where
  "process_arg st0 a =
     (let (arg1, st1) = process_nested_not st0 a;
          (arg, st) = process_eq_ite st1 arg1
      in if arg = EFalse then Inr st
         else if arg = ETrue then Inl (arg, lc_rw st)
         else (case arg of
                 EOr xs \<Rightarrow>
                   if m_flat (lc_rw st) then Inr (fold push_new_arg xs st)
                   else Inr (push_new_arg arg st)
               | _ \<Rightarrow> Inr (push_new_arg arg st)))"

fun process_args :: "lctx \<Rightarrow> expr list \<Rightarrow> (expr \<times> bool_rewriter) + lctx" where
  "process_args st [] = Inr st"
| "process_args st (arg # args) =
     (case process_arg st arg of Inl r \<Rightarrow> Inl r | Inr st' \<Rightarrow> process_args st' args)"

definition pass_start :: "bool \<Rightarrow> bool \<Rightarrow> bool_rewriter \<Rightarrow> nat \<Rightarrow> lctx" where
  "pass_start modified simp rw num_args =
     \<lparr>lc_new = [], lc_neg = {}, lc_pos = {}, lc_modified = modified, lc_simp = simp,
      lc_rw = add_cost (2 * num_args) rw\<rparr>"

text \<open>
  The loop of \<^verbatim>\<open>local_ctx_simp\<close>: a forward pass and a backward pass, repeated while one of
  them modified an argument. Each round spends one unit of fuel; \<open>None\<close> is running out of it.
  The weight of the arguments bounds the number of rounds
  (\<open>Local_Ctx_Term.local_ctx_loop_terminates\<close>).
\<close>

abbreviation wts :: "expr list \<Rightarrow> nat" where
  "wts xs \<equiv> sum_list (map wt xs)"

fun local_ctx_loop ::
  "nat \<Rightarrow> bool_rewriter \<Rightarrow> bool \<Rightarrow> expr list \<Rightarrow> (expr option \<times> bool_rewriter) option" where
  "local_ctx_loop 0 rw simp args = None"
| "local_ctx_loop (Suc n) rw simp args =
     (case process_args (pass_start False simp rw (length args)) args of
        Inl (r, rw') \<Rightarrow> Some (Some r, rw')
      | Inr st1 \<Rightarrow>
          let args1 = lc_new st1
          in (case process_args
                (pass_start (lc_modified st1) (lc_simp st1) (lc_rw st1) (length args1)) (rev args1) of
                Inl (r, rw') \<Rightarrow> Some (Some r, rw')
              | Inr st2 \<Rightarrow>
                  if lc_modified st2
                  then local_ctx_loop n (lc_rw st2) (lc_simp st2) (rev (lc_new st2))
                  else if lc_simp st2 then Some (Some (mk_or_app args1), lc_rw st2)
                  else Some (None, lc_rw st2)))"

definition local_ctx_simp :: "bool_rewriter \<Rightarrow> expr list \<Rightarrow> expr option \<times> bool_rewriter" where
  "local_ctx_simp rw args =
     (case local_ctx_loop (Suc (wts args)) rw False args of
        Some r \<Rightarrow> r | None \<Rightarrow> (None, rw))"

section \<open>Disjunction\<close>

fun nflat_or_loop ::
  "expr list \<Rightarrow> expr set \<Rightarrow> expr set \<Rightarrow> bool \<Rightarrow> expr list \<Rightarrow> (bool \<times> expr list) option" where
  "nflat_or_loop [] neg pos s buffer = Some (s, buffer)"
| "nflat_or_loop (arg # args) neg pos s buffer =
     (if arg = ETrue then None
      else if arg = EFalse then nflat_or_loop args neg pos True buffer
      else if is_not arg then
        (if arg0 arg \<in> neg then nflat_or_loop args neg pos True buffer
         else if arg0 arg \<in> pos then None
         else nflat_or_loop args (insert (arg0 arg) neg) pos s (buffer @ [arg]))
      else
        (if arg \<in> pos then nflat_or_loop args neg pos True buffer
         else if arg \<in> neg then None
         else nflat_or_loop args neg (insert arg pos) s (buffer @ [arg])))"

definition mk_nflat_or_core :: "bool_rewriter \<Rightarrow> expr list \<Rightarrow> br_status \<times> bool_rewriter" where
  "mk_nflat_or_core rw args =
     (case nflat_or_loop args {} {} False [] of
        None \<Rightarrow> (BR_DONE ETrue, rw)
      | Some (s, buffer) \<Rightarrow>
          (case buffer of
             [] \<Rightarrow> (BR_DONE EFalse, rw)
           | [x] \<Rightarrow> (BR_DONE x, rw)
           | _ \<Rightarrow>
               let (r, rw') = (if m_local_ctx rw \<and> m_local_ctx_cost rw \<le> m_local_ctx_limit rw
                               then local_ctx_simp rw buffer else (None, rw))
               in (case r of
                     Some e \<Rightarrow> (BR_DONE e, rw')
                   | None \<Rightarrow> (if s then BR_DONE (EOr buffer) else BR_FAILED, rw'))))"

primrec flatten_or :: "expr list \<Rightarrow> expr list" where
  "flatten_or [] = []"
| "flatten_or (arg # args) =
     (case arg of EOr xs \<Rightarrow> xs | _ \<Rightarrow> [arg]) @ flatten_or args"

definition mk_flat_or_core :: "bool_rewriter \<Rightarrow> expr list \<Rightarrow> br_status \<times> bool_rewriter" where
  "mk_flat_or_core rw args =
     (if list_ex is_or args then
        let flat_args = flatten_or args;
            (r, rw') = mk_nflat_or_core rw flat_args
        in (BR_DONE (br_result r (EOr flat_args)), rw')
      else mk_nflat_or_core rw args)"

definition mk_or_core :: "bool_rewriter \<Rightarrow> expr list \<Rightarrow> br_status \<times> bool_rewriter" where
  "mk_or_core rw args = (if m_flat rw then mk_flat_or_core rw args else mk_nflat_or_core rw args)"

definition mk_or :: "bool_rewriter \<Rightarrow> expr list \<Rightarrow> expr \<times> bool_rewriter" where
  "mk_or rw args = (let (r, rw') = mk_or_core rw args in (br_result r (EOr args), rw'))"

definition mk_and_as_or :: "bool_rewriter \<Rightarrow> expr list \<Rightarrow> expr \<times> bool_rewriter" where
  "mk_and_as_or rw args =
     (let new_args = map (mk_not rw) args;
          (tmp, rw') = mk_or rw new_args
      in (mk_not rw' tmp, rw'))"

definition mk_and_core :: "bool_rewriter \<Rightarrow> expr list \<Rightarrow> br_status \<times> bool_rewriter" where
  "mk_and_core rw args =
     (if m_elim_and rw then let (r, rw') = mk_and_as_or rw args in (BR_DONE r, rw')
      else if m_flat rw then (mk_flat_and_core args, rw)
      else (mk_nflat_and_core args, rw))"

definition mk_and :: "bool_rewriter \<Rightarrow> expr list \<Rightarrow> expr \<times> bool_rewriter" where
  "mk_and rw args = (let (r, rw') = mk_and_core rw args in (br_result r (EAnd args), rw'))"

definition mk_implies :: "bool_rewriter \<Rightarrow> expr \<Rightarrow> expr \<Rightarrow> expr \<times> bool_rewriter" where
  "mk_implies rw lhs rhs = (let tmp = mk_not rw lhs in mk_or rw [tmp, rhs])"

definition mk_nand :: "bool_rewriter \<Rightarrow> expr list \<Rightarrow> expr \<times> bool_rewriter" where
  "mk_nand rw args = (let (tmp, rw') = mk_and rw args in (mk_not rw' tmp, rw'))"

definition mk_nor :: "bool_rewriter \<Rightarrow> expr list \<Rightarrow> expr \<times> bool_rewriter" where
  "mk_nor rw args = (let (tmp, rw') = mk_or rw args in (mk_not rw' tmp, rw'))"

section \<open>Distinct\<close>

fun has_duplicate :: "expr list \<Rightarrow> expr set \<Rightarrow> bool" where
  "has_duplicate [] visited = False"
| "has_duplicate (arg # args) visited =
     (if arg \<in> visited then True else has_duplicate args (insert arg visited))"

primrec diseqs :: "expr list \<Rightarrow> expr list" where
  "diseqs [] = []"
| "diseqs (a # as) = map (\<lambda>b. ENot (EEq a b)) as @ diseqs as"

definition mk_distinct_core :: "bool_rewriter \<Rightarrow> expr list \<Rightarrow> br_status" where
  "mk_distinct_core rw args =
     (case args of
        [] \<Rightarrow> BR_DONE ETrue
      | [x] \<Rightarrow> BR_DONE ETrue
      | [x, y] \<Rightarrow> BR_REWRITE2 (ENot (EEq x y))
      | a # _ \<Rightarrow>
          (if has_duplicate args {} then BR_DONE EFalse
           else if list_all (is_unique_value (m_manager rw)) args then BR_DONE ETrue
           else if is_bool a then BR_DONE EFalse
           else if m_blast_distinct rw \<and> of_nat (length args) < m_blast_distinct_threshold rw
             then BR_REWRITE3 (EAnd (diseqs args))
           else BR_FAILED))"

definition mk_distinct :: "bool_rewriter \<Rightarrow> expr list \<Rightarrow> expr" where
  "mk_distinct rw args = br_result (mk_distinct_core rw args) (EDistinct args)"

section \<open>If-then-else\<close>

text \<open>The first three rules of \<^verbatim>\<open>mk_ite_core\<close>: the normalised arguments and whether one applied.\<close>

definition ite_normalize :: "expr \<Rightarrow> expr \<Rightarrow> expr \<Rightarrow> expr \<times> expr \<times> expr \<times> bool" where
  "ite_normalize c0 t0 e0 =
     (let (c, t1, e1, s1) = (if is_not c0 then (arg0 c0, e0, t0, True) else (c0, t0, e0, False));
          (t, s2) = (case t1 of EIte c' x y \<Rightarrow> if c' = c then (x, True) else (t1, s1) | _ \<Rightarrow> (t1, s1));
          (e, s) = (case e1 of EIte c' x y \<Rightarrow> if c' = c then (y, True) else (e1, s2) | _ \<Rightarrow> (e1, s2))
      in (c, t, e, s))"

text \<open>The rules of \<^verbatim>\<open>mk_ite_core\<close> for Boolean branches; \<open>None\<close> when none applies.\<close>

definition ite_bool_rules ::
  "bool_rewriter \<Rightarrow> expr \<Rightarrow> expr \<Rightarrow> expr \<Rightarrow> (expr \<times> bool_rewriter) option" where
  "ite_bool_rules rw c t e =
     (if t = ETrue then
        (if e = EFalse then Some (c, rw) else Some (mk_or rw [c, e]))
      else if t = EFalse then
        (if e = ETrue then Some (mk_not rw c, rw) else Some (mk_and rw [mk_not rw c, e]))
      else if e = ETrue then Some (mk_or rw [mk_not rw c, t])
      else if e = EFalse then Some (mk_and rw [c, t])
      else if c = e then Some (mk_and rw [c, t])
      else if c = t then Some (mk_or rw [c, e])
      else if is_complement_core t e then Some (mk_eq rw c t, rw)
      else if is_complement_core e t then Some (mk_eq rw c t, rw)
      else None)"

text \<open>The extra rules (\<^verbatim>\<open>m_ite_extra_rules\<close>) for nested if-then-elses.\<close>

definition ite_extra_then ::
  "bool_rewriter \<Rightarrow> expr \<Rightarrow> expr \<Rightarrow> expr \<Rightarrow> (expr \<times> bool_rewriter) option" where
  "ite_extra_then rw c t e =
     (case t of
        EIte c2 t1 t2 \<Rightarrow>
          (if e = t1 then
             let (new_c, rw') = mk_and rw [c, mk_not rw c2] in Some (EIte new_c t2 e, rw')
           else if e = t2 then
             let (new_c, rw') = mk_and rw [c, c2] in Some (EIte new_c t1 e, rw')
           else (case e of
                   EIte c3 u1 u2 \<Rightarrow>
                     (if t1 = u1 \<and> t2 = u2 then
                        let (and1, rw1) = mk_and rw [c, c2];
                            notc = mk_not rw1 c;
                            (and2, rw2) = mk_and rw1 [notc, c3];
                            (new_c, rw3) = mk_or rw2 [and1, and2]
                        in Some (EIte new_c t1 t2, rw3)
                      else if t1 = u2 \<and> t2 = u1 then
                        let (and1, rw1) = mk_and rw [c, c2];
                            notc = mk_not rw1 c;
                            notc3 = mk_not rw1 c3;
                            (and2, rw2) = mk_and rw1 [notc, notc3];
                            (new_c, rw3) = mk_or rw2 [and1, and2]
                        in Some (EIte new_c t1 t2, rw3)
                      else None)
                 | _ \<Rightarrow> None))
      | _ \<Rightarrow> None)"

definition ite_extra_else ::
  "bool_rewriter \<Rightarrow> expr \<Rightarrow> expr \<Rightarrow> expr \<Rightarrow> (expr \<times> bool_rewriter) option" where
  "ite_extra_else rw c t e =
     (case e of
        EIte c2 u1 u2 \<Rightarrow>
          (if t = u1 then
             let (new_c, rw') = mk_or rw [c, c2] in Some (EIte new_c t u2, rw')
           else if t = u2 then
             let (new_c, rw') = mk_or rw [c, mk_not rw c2] in Some (EIte new_c t u1, rw')
           else None)
      | _ \<Rightarrow> None)"

definition mk_ite_core :: "bool_rewriter \<Rightarrow> expr \<Rightarrow> expr \<Rightarrow> expr \<Rightarrow> br_status \<times> bool_rewriter" where
  "mk_ite_core rw c0 t0 e0 =
     (let (c, t, e, s) = ite_normalize c0 t0 e0
      in if c = ETrue then (BR_DONE t, rw)
         else if c = EFalse then (BR_DONE e, rw)
         else if t = e then (BR_DONE t, rw)
         else
           (case (if is_bool t then ite_bool_rules rw c t e else None) of
              Some (r, rw') \<Rightarrow> (BR_DONE r, rw')
            | None \<Rightarrow>
                (case (if m_ite_extra_rules rw then ite_extra_then rw c t e else None) of
                   Some (r, rw') \<Rightarrow> (BR_REWRITE1 r, rw')
                 | None \<Rightarrow>
                     (case (if m_ite_extra_rules rw then ite_extra_else rw c t e else None) of
                        Some (r, rw') \<Rightarrow> (BR_REWRITE1 r, rw')
                      | None \<Rightarrow> (if s then BR_DONE (EIte c t e) else BR_FAILED, rw)))))"

definition mk_ite :: "bool_rewriter \<Rightarrow> expr \<Rightarrow> expr \<Rightarrow> expr \<Rightarrow> expr \<times> bool_rewriter" where
  "mk_ite rw c t e = (let (r, rw') = mk_ite_core rw c t e in (br_result r (EIte c t e), rw'))"

section \<open>Dispatch\<close>

datatype basic_op_kind =
  OP_TRUE | OP_FALSE | OP_EQ | OP_DISTINCT | OP_ITE | OP_AND | OP_OR | OP_IFF | OP_XOR | OP_NOT | OP_IMPLIES

text \<open>The operator's arity is asserted by the code; a call with other arguments fails here.\<close>

definition mk_app_core ::
  "bool_rewriter \<Rightarrow> basic_op_kind \<Rightarrow> expr list \<Rightarrow> br_status \<times> bool_rewriter" where
  "mk_app_core rw f args =
     (case (f, args) of
        (OP_EQ, [a, b]) \<Rightarrow> (mk_eq_core rw a b, rw)
      | (OP_IFF, [a, b]) \<Rightarrow> (mk_eq_core rw a b, rw)
      | (OP_DISTINCT, _) \<Rightarrow> (mk_distinct_core rw args, rw)
      | (OP_AND, _) \<Rightarrow> mk_and_core rw args
      | (OP_OR, _) \<Rightarrow> mk_or_core rw args
      | (OP_NOT, [a]) \<Rightarrow> (mk_not_core rw a, rw)
      | (OP_ITE, [c, t, e]) \<Rightarrow> mk_ite_core rw c t e
      | (OP_IMPLIES, [a, b]) \<Rightarrow> let (r, rw') = mk_implies rw a b in (BR_DONE r, rw')
      | (OP_XOR, []) \<Rightarrow> (BR_FAILED, rw)
      | (OP_XOR, [a]) \<Rightarrow> (BR_DONE a, rw)
      | (OP_XOR, [a, b]) \<Rightarrow> (BR_DONE (mk_xor rw a b), rw)
      | _ \<Rightarrow> (BR_FAILED, rw))"

end
