(* ===== verification/Bool_Rewriter_Sound.thy ===== *)
theory Bool_Rewriter_Sound
  imports Bool_Rewriter
begin

text \<open>
  The rewriter preserves meaning: every builder of \<open>Bool_Rewriter\<close> returns a well-sorted
  formula with the value of the connective it is asked for, whatever the rewriter's
  parameters are. The negation and equality rules come first (they are mutually recursive),
  then conjunction and disjunction, the local context simplifier with its termination,
  if-then-else, distinct and the dispatch function.
\<close>

section \<open>Negation and equality\<close>

definition negates :: "expr \<Rightarrow> expr \<Rightarrow> bool" where
  "negates r t \<longleftrightarrow> fml r \<and> (\<forall>I. holds I r = (\<not> holds I t))"

text \<open>Terms of another sort are equated in the interpretations that are faithful to the plugins.\<close>

definition equates :: "plugins \<Rightarrow> expr \<Rightarrow> expr \<Rightarrow> expr \<Rightarrow> bool" where
  "equates m r a b \<longleftrightarrow> fml r \<and> (\<forall>I. get_sort a = BoolSort \<or> faithful m I \<longrightarrow> holds I r = (eval I a = eval I b))"

lemma equates_node: "ws a \<Longrightarrow> ws b \<Longrightarrow> get_sort a = get_sort b \<Longrightarrow> equates m (EEq a b) a b"
  by (simp add: equates_def)

lemma equates_sym: "equates m r a b \<Longrightarrow> get_sort a = get_sort b \<Longrightarrow> equates m r b a"
  unfolding equates_def by metis

lemma equates_negate: "negates r a \<Longrightarrow> fml a \<Longrightarrow> equates m r a EFalse" "negates r a \<Longrightarrow> fml a \<Longrightarrow> equates m r EFalse a"
  by (auto simp: negates_def equates_def eval_fml)

lemma equates_unfold_not:
  "equates m r a b \<Longrightarrow> fml a \<Longrightarrow> fml b \<Longrightarrow> equates m r (ENot a) (ENot b)"
  by (simp add: equates_def eval_fml fml_sort)

lemma eq_cases_equates:
  assumes l: "fml l" and r: "fml r"
    and nr: "l = EFalse \<Longrightarrow> negates nr r"
    and nl: "l \<noteq> ETrue \<Longrightarrow> l \<noteq> EFalse \<Longrightarrow> r \<noteq> ETrue \<Longrightarrow> r = EFalse \<Longrightarrow> negates nl l"
  shows "equates m (br_result
      (if l = ETrue then BR_DONE r else if l = EFalse then BR_DONE nr else if r = ETrue then BR_DONE l
       else if r = EFalse then BR_DONE nl else if is_complement l r then BR_DONE EFalse
       else if u then BR_DONE (EEq l r) else if iff_complement l r then BR_DONE EFalse else BR_FAILED) (EEq l r)) l r"
proof -
  have iff: "equates m EFalse l r" if "iff_complement l r"
    using that l r by (cases "(l, r)" rule: iff_complement.cases)
     (auto simp: equates_def eval_fml fml_def ws_is_bool_fml[THEN eval_fml] is_bool_def)
  have cmp: "equates m EFalse l r" if "is_complement l r"
    using that l r complement_holds by (auto simp: equates_def eval_fml)
  have "equates m r l r" if "l = ETrue" using that r by (auto simp: equates_def eval_fml)
  moreover have "equates m l l r" if "r = ETrue" using that l by (auto simp: equates_def eval_fml)
  moreover have "equates m nr l r" if "l = EFalse"
    using that nr r equates_negate(2) by blast
  moreover have "equates m nl l r" if "l \<noteq> ETrue" "l \<noteq> EFalse" "r \<noteq> ETrue" "r = EFalse"
    using that nl l equates_negate(1) by blast
  moreover have "equates m (EEq l r) l r" 
    using l r by (intro equates_node) (auto simp: fml_def is_bool_def)
  ultimately show ?thesis using iff cmp by simp
qed

lemma try_ite_base:
  assumes "ws (EIte c t e)" "is_value t" "is_value e" "is_value v" "get_sort v = get_sort t"
    and "t = v \<or> e = v \<Longrightarrow> \<not> (t = v \<and> e = v) \<Longrightarrow> t \<noteq> v \<Longrightarrow> negates nc c"
  shows "equates m (if t \<noteq> v \<and> e \<noteq> v then EFalse else if t = v \<and> e = v then ETrue
                   else if t = v then c else nc) (EIte c t e) v"
proof -
  have "eval I (EIte c t e) = eval I v \<longleftrightarrow> (if holds I c then t = v else e = v)"
    if "get_sort (EIte c t e) = BoolSort \<or> faithful m I" for I
    using that assms(1-5) value_eq_iff[of t v I] value_eq_iff[of e v I] by (auto simp: faithful_def)
  then show ?thesis
    using assms(1) assms(6) unfolding equates_def negates_def by (cases "t = v"; cases "e = v") (simp_all add: fml_def)
qed


lemma try_ite_then:
  assumes c: "fml c" and e: "ws e" "get_sort v = get_sort e" and v: "is_value t" "is_value v" "get_sort v = get_sort t"
    and nc: "v \<noteq> t \<Longrightarrow> negates nc c"
  shows "equates m (if v = t then EOr [c, EEq v e] else EAnd [nc, EEq v e]) (EIte c t e) v"
proof (cases "v = t")
  case False
  then have "eval I t \<noteq> eval I v" if "get_sort t = BoolSort \<or> faithful m I" for I
    using that v value_eq_iff[of t v I] by (auto simp: faithful_def)
  with False nc c e v show ?thesis
    by (simp add: equates_def negates_def) metis
next
  case True
  with c e v show ?thesis by (simp add: equates_def) metis
qed

lemma try_ite_else:
  assumes c: "fml c" and t: "ws t" "get_sort v = get_sort t" and v: "is_value e" "is_value v" "get_sort v = get_sort e"
    and nc: "v = e \<Longrightarrow> negates nc c"
  shows "equates m (if v = e then EOr [nc, EEq v t] else EAnd [c, EEq v t]) (EIte c t e) v"
proof (cases "v = e")
  case False
  then have "eval I e \<noteq> eval I v" if "get_sort e = BoolSort \<or> faithful m I" for I
    using that v value_eq_iff[of e v I] by (auto simp: faithful_def)
  with False c t v show ?thesis by (simp add: equates_def) metis
next
  case True
  with nc c t v show ?thesis by (simp add: equates_def negates_def) metis
qed

lemma mk_eq_core_same: "mk_eq_core rw l l = BR_DONE ETrue"
  by (subst mk_eq_core.simps) simp

lemma mk_eq_core_plugins:
  assumes "are_equal (m_manager rw) l r \<or> are_distinct (m_manager rw) l r" "ws l" "ws r" "get_sort l = get_sort r"
  shows "equates (m_manager rw) (br_result (mk_eq_core rw l r) (EEq l r)) l r"
  using assms are_equal_eval[of "m_manager rw" l r] are_distinct_eval[of "m_manager rw" l r]
  by (auto simp: mk_eq_core.simps[of rw l r] equates_def faithful_def)

theorem rewriter_sound:
  "fml t \<Longrightarrow> negates (br_result (mk_not_core rw t) (ENot t)) t"
  "ws l \<Longrightarrow> ws r \<Longrightarrow> get_sort l = get_sort r \<Longrightarrow>
     equates (m_manager rw) (br_result (mk_eq_core rw l r) (EEq l r)) l r"
  "ws ite \<Longrightarrow> is_value v \<Longrightarrow> get_sort ite = get_sort v \<Longrightarrow>
     equates (m_manager rw) (br_result (try_ite_value rw ite v) (EEq ite v)) ite v"
proof (induction rw t and rw l r and rw ite v
    rule: mk_not_core_mk_eq_core_try_ite_value.induct)
  case (1 rw t)
  show ?case
  proof (cases t)
    case (EEq a b)
    let ?tmp = "br_result (mk_not_core rw a) (ENot a)"
    show ?thesis
    proof (cases "is_bool a")
      case True
      have fa: "fml a" and fb: "fml b"
        using EEq True 1(3) by (auto simp: fml_def is_bool_def)
      have tmp: "negates ?tmp a" using 1(1) EEq True fa by blast
      then have "ws ?tmp" "get_sort ?tmp = get_sort b"
        using fb by (auto simp: negates_def fml_ws fml_sort)
      then have "equates (m_manager rw) (br_result (mk_eq_core rw ?tmp b) (EEq ?tmp b)) ?tmp b"
        using 1(2) EEq True fb fml_ws by blast
      then have "negates (br_result (mk_eq_core rw ?tmp b) (EEq ?tmp b)) t"
        using tmp fa fb by (auto simp: negates_def equates_def eval_fml EEq fml_sort)
      then show ?thesis
        using EEq True by (simp add: mk_not_core.simps Let_def)
    next
      case False
      then show ?thesis using EEq 1(3) by (simp add: mk_not_core.simps negates_def)
    qed
  qed (use 1(3) in \<open>auto simp: mk_not_core.simps negates_def\<close>)
next
  case (2 rw l r)
  let ?r = "if is_ite l \<and> is_value r then try_ite_value rw l r
            else if is_ite r \<and> is_value l then try_ite_value rw r l else BR_FAILED"
  let ?u = "is_not l \<and> is_not r"
  let ?l = "if ?u then arg0 l else l"
  let ?rr = "if ?u then arg0 r else r"
  show ?case
  proof (cases "are_equal (m_manager rw) l r \<or> are_distinct (m_manager rw) l r")
    case True
    then show ?thesis using mk_eq_core_plugins 2(5-7) by blast
  next
    case basic: False
    show ?thesis
    proof (cases "?r = BR_FAILED")
      case False
      have "equates (m_manager rw) (br_result ?r (EEq l r)) l r"
      proof (cases "is_ite l \<and> is_value r")
        case True
        then show ?thesis using 2(1) 2(5-7) basic by simp
      next
        case nl: False
        then have r: "is_ite r" "is_value l" using False by (auto split: if_splits)
        then have "equates (m_manager rw) (br_result (try_ite_value rw r l) (EEq r l)) r l"
          using 2(2)[OF _ _ nl] basic 2(5-7) by simp
        then have "equates (m_manager rw) (br_result (try_ite_value rw r l) (EEq r l)) l r"
          by (rule equates_sym) (simp add: 2(7))
        then show ?thesis using nl r False by (cases "try_ite_value rw r l") auto
      qed
      with False basic show ?thesis by (simp add: mk_eq_core.simps Let_def)
    next
      case failed: True
      show ?thesis
      proof (cases "is_bool l")
        case True
        have f: "fml l" "fml r" using True 2(5-7) by (auto simp: fml_def is_bool_def)
        then have ff: "fml ?l" "fml ?rr" by (auto elim!: is_notE)
        have nr: "negates (br_result (mk_not_core rw ?rr) (ENot ?rr)) ?rr" if "?l = EFalse"
          using 2(3)[OF _ _ refl] basic failed that True ff by auto
        have nl: "negates (br_result (mk_not_core rw ?l) (ENot ?l)) ?l"
          if "?l \<noteq> ETrue" "?l \<noteq> EFalse" "?rr \<noteq> ETrue" "?rr = EFalse"
          using 2(4)[OF _ _ refl] basic failed that True ff by auto
        have eq: "mk_eq_core rw l r =
           (if ?l = ETrue then BR_DONE ?rr
            else if ?l = EFalse then BR_DONE (br_result (mk_not_core rw ?rr) (ENot ?rr))
            else if ?rr = ETrue then BR_DONE ?l
            else if ?rr = EFalse then BR_DONE (br_result (mk_not_core rw ?l) (ENot ?l))
            else if is_complement ?l ?rr then BR_DONE EFalse
            else if ?u then BR_DONE (EEq ?l ?rr)
            else if iff_complement ?l ?rr then BR_DONE EFalse else BR_FAILED)"
          using basic failed True by (simp add: mk_eq_core.simps Let_def)
        have e: "equates (m_manager rw) (br_result (mk_eq_core rw l r) (EEq ?l ?rr)) ?l ?rr"
          unfolding eq by (rule eq_cases_equates [OF ff nr nl])
        show ?thesis
        proof (cases ?u)
          case u: True
          then have "mk_eq_core rw l r \<noteq> BR_FAILED" unfolding eq by auto
          then have "br_result (mk_eq_core rw l r) (EEq l r) = br_result (mk_eq_core rw l r) (EEq ?l ?rr)"
            by (cases "mk_eq_core rw l r") auto
          with e u f show ?thesis
            using equates_unfold_not by (auto elim!: is_notE)
        next
          case False
          with e show ?thesis by simp
        qed
      next
        case False
        with basic failed 2(5-7) show ?thesis
          by (simp add: mk_eq_core.simps Let_def equates_node)
      qed
    qed
  qed
next
  case (3 rw ite v)
  show ?case
  proof (cases ite)
    case (EIte c t e)
    have ws: "fml c" "ws t" "ws e" "get_sort t = get_sort v" "get_sort e = get_sort v"
      using 3(6-8) EIte by (auto simp: fml_def)
    let ?nc = "br_result (mk_not_core rw c) (ENot c)"
    have v: "ws v" using 3(7) by simp
    have rest: "equates (m_manager rw) (EIte c r (EEq e v)) ite v" if "equates (m_manager rw) r t v" for r
      using that ws v 3(6) EIte by (auto simp: equates_def)
    have rest2: "equates (m_manager rw) (EIte c (EEq t v) r) ite v" if "equates (m_manager rw) r e v" for r
      using that ws v 3(6) EIte by (auto simp: equates_def)
    consider (vals) "is_value t \<and> is_value e"
      | (vt) "\<not> (is_value t \<and> is_value e)" "m_ite_extra_rules rw \<and> is_value t"
      | (ve) "\<not> (is_value t \<and> is_value e)" "\<not> (m_ite_extra_rules rw \<and> is_value t)"
          "m_ite_extra_rules rw \<and> is_value e"
      | (it) "\<not> (is_value t \<and> is_value e)" "\<not> (m_ite_extra_rules rw \<and> is_value t)"
          "\<not> (m_ite_extra_rules rw \<and> is_value e)" "ite_of_values t"
      | (ie) "\<not> (is_value t \<and> is_value e)" "\<not> (m_ite_extra_rules rw \<and> is_value t)"
          "\<not> (m_ite_extra_rules rw \<and> is_value e)" "\<not> ite_of_values t" "ite_of_values e"
      | (none) "\<not> (is_value t \<and> is_value e)" "\<not> (m_ite_extra_rules rw \<and> is_value t)"
          "\<not> (m_ite_extra_rules rw \<and> is_value e)" "\<not> ite_of_values t" "\<not> ite_of_values e"
      by blast
    then show ?thesis
    proof cases
      case vals
      have "negates ?nc c" if "t = v \<or> e = v" "\<not> (t = v \<and> e = v)" "t \<noteq> v"
        using 3(1) EIte vals that ws by auto
      then have "equates (m_manager rw) (if t \<noteq> v \<and> e \<noteq> v then EFalse else if t = v \<and> e = v then ETrue
                   else if t = v then c else ?nc) (EIte c t e) v"
        using vals 3(6,7) EIte ws(4) by (intro try_ite_base) auto
      with vals show ?thesis by (simp add: try_ite_value.simps EIte)
    next
      case vt
      have "negates ?nc c" if "v \<noteq> t" using 3(2)[OF EIte vt that ws(1)] .
      then have "equates (m_manager rw) (if v = t then EOr [c, EEq v e] else EAnd [?nc, EEq v e]) (EIte c t e) v"
        by (rule try_ite_then[OF ws(1,3) ws(5)[symmetric] conjunct2[OF vt(2)] 3(7) ws(4)[symmetric]])
      with vt show ?thesis by (simp add: try_ite_value.simps EIte)
    next
      case ve
      have "negates ?nc c" if "v = e" using 3(3)[OF EIte ve that ws(1)] .
      then have "equates (m_manager rw) (if v = e then EOr [?nc, EEq v t] else EAnd [c, EEq v t]) (EIte c t e) v"
        by (rule try_ite_else[OF ws(1,2) ws(4)[symmetric] conjunct2[OF ve(3)] 3(7) ws(5)[symmetric]])
      with ve show ?thesis by (simp add: try_ite_value.simps EIte)
    next
      case it
      have "equates (m_manager rw) (br_result (try_ite_value rw t v) (EEq t v)) t v"
        using 3(4)[OF EIte it ws(2) 3(7) ws(4)] .
      moreover have "try_ite_value rw ite v =
          BR_REWRITE2 (EIte c (br_result (try_ite_value rw t v) (EEq t v)) (EEq e v))"
        using it by (subst try_ite_value.simps) (auto simp: EIte)
      ultimately show ?thesis using rest by simp
    next
      case ie
      have "equates (m_manager rw) (br_result (try_ite_value rw e v) (EEq e v)) e v"
        using 3(5)[OF EIte ie ws(3) 3(7) ws(5)] .
      moreover have "try_ite_value rw ite v =
          BR_REWRITE2 (EIte c (EEq t v) (br_result (try_ite_value rw e v) (EEq e v)))"
        using ie by (subst try_ite_value.simps) (auto simp: EIte)
      ultimately show ?thesis using rest2 by simp
    next
      case none
      then have "try_ite_value rw ite v = BR_FAILED"
        by (subst try_ite_value.simps) (auto simp: EIte)
      then show ?thesis using equates_node[OF 3(6) v 3(8)] by simp
    qed
  qed (use equates_node[OF 3(6) is_value_ws[OF 3(7)] 3(8)] in \<open>simp_all add: try_ite_value.simps\<close>)
qed

lemma fml_mk_not [simp, ok_intros]: "fml t \<Longrightarrow> fml (mk_not rw t)"
  and holds_mk_not [simp, gate_simps]: "fml t \<Longrightarrow> holds I (mk_not rw t) = (\<not> holds I t)"
  using rewriter_sound(1) by (auto simp: negates_def mk_not_def)

lemma equates_mk_eq:
  "ws l \<Longrightarrow> ws r \<Longrightarrow> get_sort l = get_sort r \<Longrightarrow> equates (m_manager rw) (mk_eq rw l r) l r"
  using rewriter_sound(2) by (simp add: mk_eq_def)

lemma fml_mk_eq [simp, ok_intros]: "fml l \<Longrightarrow> fml r \<Longrightarrow> fml (mk_eq rw l r)"
  and holds_mk_eq [simp, gate_simps]:
    "fml l \<Longrightarrow> fml r \<Longrightarrow> holds I (mk_eq rw l r) = (holds I l = holds I r)"
  using equates_mk_eq[of l r rw] by (auto simp: equates_def fml_ws fml_sort eval_fml)

lemma fml_mk_iff [simp, ok_intros]: "fml l \<Longrightarrow> fml r \<Longrightarrow> fml (mk_iff rw l r)"
  and holds_mk_iff [simp, gate_simps]:
    "fml l \<Longrightarrow> fml r \<Longrightarrow> holds I (mk_iff rw l r) = (holds I l = holds I r)"
  by (simp_all add: mk_iff_def)

lemma fml_mk_xor [simp, ok_intros]: "fml l \<Longrightarrow> fml r \<Longrightarrow> fml (mk_xor rw l r)"
  and holds_mk_xor [simp, gate_simps]:
    "fml l \<Longrightarrow> fml r \<Longrightarrow> holds I (mk_xor rw l r) = (holds I l \<noteq> holds I r)"
  by (auto simp: mk_xor_def Let_def)

section \<open>Conjunction\<close>

text \<open>The marks of a pass over a list of arguments: the atoms of the negations and the other
  arguments the buffer holds.\<close>

definition marks_ok :: "expr list \<Rightarrow> expr set \<Rightarrow> expr set \<Rightarrow> bool" where
  "marks_ok buffer neg pos \<longleftrightarrow> (\<forall>a \<in> neg. ENot a \<in> set buffer) \<and> pos \<subseteq> set buffer"

lemma marks_ok_Nil [simp]: "marks_ok [] {} {}"
  by (simp add: marks_ok_def)

lemma marks_ok_neg: "marks_ok b neg pos \<Longrightarrow> marks_ok (b @ [ENot a]) (insert a neg) pos"
  and marks_ok_pos: "marks_ok b neg pos \<Longrightarrow> marks_ok (b @ [x]) neg (insert x pos)"
  by (auto simp: marks_ok_def)

definition conj_ok :: "interp \<Rightarrow> expr list \<Rightarrow> (bool \<times> expr list) option \<Rightarrow> bool" where
  "conj_ok I xs r = (case r of
      None \<Rightarrow> \<not> (\<forall>x \<in> set xs. holds I x)
    | Some (s, b) \<Rightarrow> set b \<subseteq> set xs \<and> ((\<forall>x \<in> set b. holds I x) \<longleftrightarrow> (\<forall>x \<in> set xs. holds I x)))"

lemma conj_ok_drop:
  assumes "\<And>x. x \<in> set ys \<Longrightarrow> x \<in> set xs"
    and "(\<forall>x \<in> set ys. holds I x) \<Longrightarrow> (\<forall>x \<in> set xs. holds I x)"
    and "conj_ok I ys r"
  shows "conj_ok I xs r"
  using assms by (cases r) (auto simp: conj_ok_def)

lemma nflat_and_loop_sound:
  "marks_ok buffer neg pos \<Longrightarrow> conj_ok I (buffer @ args) (nflat_and_loop args neg pos s buffer)"
proof (induction args neg pos s buffer rule: nflat_and_loop.induct)
  case (2 arg args neg pos s buffer)
  note ok = "2.prems" and IH = "2.IH"
  have neg: "ENot a \<in> set buffer" if "a \<in> neg" for a
    using that ok by (auto simp: marks_ok_def)
  have pos: "a \<in> set buffer" if "a \<in> pos" for a
    using that ok by (auto simp: marks_ok_def)
  have skip: "conj_ok I (buffer @ arg # args) r"
    if "conj_ok I (buffer @ args) r" "arg = ETrue \<or> arg \<in> set buffer" for r
    by (rule conj_ok_drop[OF _ _ that(1)]) (use that(2) in auto)
  have none: "conj_ok I (buffer @ arg # args) None" if "x \<in> set buffer" "holds I x = (\<not> holds I arg)" for x
    using that bexI[of _ x] by (auto simp: conj_ok_def)
  show ?case
  proof (cases "is_not arg")
    case True
    then obtain a where a: "arg = ENot a" by (auto elim: is_notE)
    consider "a \<in> neg" | "a \<notin> neg" "a \<in> pos" | "a \<notin> neg" "a \<notin> pos" by blast
    then show ?thesis
    proof cases
      case 1
      then show ?thesis using skip[of "nflat_and_loop args neg pos True buffer"] IH(2) ok a neg by simp
    next
      case 2
      then show ?thesis using none[OF pos] a by simp
    next
      case 3
      then have "conj_ok I ((buffer @ [arg]) @ args) (nflat_and_loop args (insert a neg) pos s (buffer @ [arg]))"
        using IH(3) a marks_ok_neg[OF ok] by auto
      with 3 a show ?thesis by simp
    qed
  next
    case False
    consider "arg = ETrue" | "arg = EFalse" | "arg \<noteq> ETrue" "arg \<noteq> EFalse" "arg \<in> pos"
      | "arg \<noteq> ETrue" "arg \<noteq> EFalse" "arg \<notin> pos" "arg \<in> neg"
      | "arg \<noteq> ETrue" "arg \<noteq> EFalse" "arg \<notin> pos" "arg \<notin> neg" by blast
    then show ?thesis
    proof cases
      case 1
      then show ?thesis using skip[of "nflat_and_loop args neg pos True buffer"] IH(1) ok by simp
    next
      case 2
      then show ?thesis by (auto simp: conj_ok_def)
    next
      case 3
      then show ?thesis using skip[of "nflat_and_loop args neg pos True buffer"] IH(4) ok False pos by simp
    next
      case 4
      then show ?thesis using none[OF neg] False by simp
    next
      case 5
      then have "conj_ok I ((buffer @ [arg]) @ args) (nflat_and_loop args neg (insert arg pos) s (buffer @ [arg]))"
        using IH(5) False marks_ok_pos[OF ok] by auto
      with 5 False show ?thesis by simp
    qed
  qed
qed (simp add: conj_ok_def)

lemma mk_nflat_and_core_sound:
  assumes "\<forall>x \<in> set args. fml x"
  shows "fml (br_result (mk_nflat_and_core args) (EAnd args))"
    and "holds I (br_result (mk_nflat_and_core args) (EAnd args)) = (\<forall>x \<in> set args. holds I x)"
proof -
  have *: "conj_ok J args (nflat_and_loop args {} {} False [])" for J
    using nflat_and_loop_sound[of "[]" "{}" "{}" J args False] by simp
  show "fml (br_result (mk_nflat_and_core args) (EAnd args))"
    using assms *[of I]
    by (auto simp: mk_nflat_and_core_def conj_ok_def split: option.splits list.splits)
  show "holds I (br_result (mk_nflat_and_core args) (EAnd args)) = (\<forall>x \<in> set args. holds I x)"
    using *[of I]
    by (auto simp: mk_nflat_and_core_def conj_ok_def split: option.splits list.splits)
qed

lemma flatten_and_all:
  "(\<forall>x \<in> set (flatten_and args). fml x) = (\<forall>x \<in> set args. fml x)"
  "(\<forall>x \<in> set (flatten_and args). holds I x) = (\<forall>x \<in> set args. holds I x)"
  by (induction args) (auto split: expr.split)

lemma mk_flat_and_core_sound:
  assumes "\<forall>x \<in> set args. fml x"
  shows "fml (br_result (mk_flat_and_core args) (EAnd args))"
    and "holds I (br_result (mk_flat_and_core args) (EAnd args)) = (\<forall>x \<in> set args. holds I x)"
  using mk_nflat_and_core_sound[of args] mk_nflat_and_core_sound[of "flatten_and args"] assms
  unfolding flatten_and_all by (auto simp: mk_flat_and_core_def Let_def)

end
