(* ===== verification/Local_Ctx.thy ===== *)
theory Local_Ctx
  imports Bool_Rewriter_Sound
begin

text \<open>
  Disjunction and the local context simplifier of the Boolean rewriter: soundness of
  \<^verbatim>\<open>mk_or_core\<close> whatever the parameters, and termination of the rounds of
  \<^verbatim>\<open>local_ctx_simp\<close>.
\<close>

section \<open>The disjunction of a pass\<close>

definition ex_holds :: "interp \<Rightarrow> expr list \<Rightarrow> bool" where
  "ex_holds I xs = (\<exists>x \<in> set xs. holds I x)"

lemma ex_holds_simps [simp]:
  "\<not> ex_holds I []" "ex_holds I (x # xs) = (holds I x \<or> ex_holds I xs)"
  "ex_holds I (xs @ ys) = (ex_holds I xs \<or> ex_holds I ys)"
  "ex_holds I (rev xs) = ex_holds I xs"
  by (auto simp: ex_holds_def)

lemma ex_holds_mem: "x \<in> set xs \<Longrightarrow> holds I x \<Longrightarrow> ex_holds I xs"
  by (auto simp: ex_holds_def)

lemma holds_EOr: "holds I (EOr xs) = ex_holds I xs"
  by (simp add: ex_holds_def)

declare holds_simps(6) [simp del]
declare holds_EOr [simp]

lemma mk_or_app_sound:
  "\<forall>x \<in> set xs. fml x \<Longrightarrow> fml (mk_or_app xs)" "holds I (mk_or_app xs) = ex_holds I xs"
  by (cases xs rule: mk_or_app.cases; simp)+

text \<open>When no argument of the pass holds yet, the marks give the literals their values.\<close>

lemma marks_neg: "marks_ok new neg pos \<Longrightarrow> a \<in> neg \<Longrightarrow> \<not> ex_holds I new \<Longrightarrow> holds I a"
  and marks_pos: "marks_ok new neg pos \<Longrightarrow> a \<in> pos \<Longrightarrow> \<not> ex_holds I new \<Longrightarrow> \<not> holds I a"
  by (force simp: marks_ok_def ex_holds_def)+

definition disj_ok :: "interp \<Rightarrow> expr list \<Rightarrow> (bool \<times> expr list) option \<Rightarrow> bool" where
  "disj_ok I xs r = (case r of
      None \<Rightarrow> ex_holds I xs
    | Some (s, b) \<Rightarrow> ex_holds I b = ex_holds I xs)"

lemma disj_ok_skip:
  "disj_ok I (xs @ ys) r \<Longrightarrow> (holds I x \<Longrightarrow> ex_holds I (xs @ ys)) \<Longrightarrow> disj_ok I (xs @ x # ys) r"
  by (cases r) (auto simp: disj_ok_def)

lemma disj_ok_None: "ex_holds I xs \<Longrightarrow> disj_ok I xs None"
  by (simp add: disj_ok_def)

section \<open>Nested negated disjunctions\<close>

lemma nested_not_or_loop_subset:
  "nested_not_or_loop args neg pos simp buf = Some (s, b) \<Longrightarrow> set b \<subseteq> set (buf @ args)"
  by (induction args neg pos simp buf rule: nested_not_or_loop.induct) (auto split: if_splits)

lemma nested_not_or_loop_sound:
  "marks_ok new neg pos \<Longrightarrow> \<not> ex_holds I new \<Longrightarrow>
     disj_ok I (buf @ args) (nested_not_or_loop args neg pos simp buf)"
proof (induction args neg pos simp buf rule: nested_not_or_loop.induct)
  case (2 arg args neg pos simp buf)
  have neg: "holds I a" if "a \<in> neg" for a
    using marks_neg[OF "2.prems"(1) that "2.prems"(2)] .
  have pos: "\<not> holds I a" if "a \<in> pos" for a
    using marks_pos[OF "2.prems"(1) that "2.prems"(2)] .
  have skip: "disj_ok I (buf @ arg # args) r" if "disj_ok I (buf @ args) r" "\<not> holds I arg" for r
    using that by (intro disj_ok_skip) auto
  have none: "disj_ok I (buf @ arg # args) None" if "holds I arg"
    using that by (intro disj_ok_None) simp
  have lit: "holds I arg = (\<not> holds I (arg0 arg))" if "is_not arg"
    using that by (auto elim: is_notE)
  consider "arg \<in> neg \<or> arg \<notin> pos \<and> is_not arg \<and> arg0 arg \<notin> neg \<and> arg0 arg \<in> pos"
    | "arg \<notin> neg" "arg \<in> pos"
    | "arg \<notin> neg" "arg \<notin> pos" "is_not arg \<and> arg0 arg \<in> neg"
    | "arg \<notin> neg" "arg \<notin> pos" "\<not> (is_not arg \<and> arg0 arg \<in> neg)"
      "\<not> (is_not arg \<and> arg0 arg \<in> pos)" by blast
  then show ?case
  proof cases
    case c: 1
    then have "holds I arg" using neg pos lit by blast
    then show ?thesis using c none by auto
  next
    case c: 2
    then show ?thesis using skip "2.IH"(1) "2.prems" pos by simp
  next
    case c: 3
    then show ?thesis using skip "2.IH"(2) "2.prems" neg lit by simp
  next
    case c: 4
    then show ?thesis using "2.IH"(3) "2.prems" by auto
  qed
qed (simp add: disj_ok_def)

lemma simp_nested_not_or_fml:
  "\<forall>x \<in> set args. fml x \<Longrightarrow> fst (simp_nested_not_or rw args neg pos) = Some r \<Longrightarrow> fml r"
  using nested_not_or_loop_subset[of args neg pos False "[]"]
  by (auto simp: simp_nested_not_or_def Let_def subset_iff split: option.splits if_splits list.splits)

lemma simp_nested_not_or_sound:
  assumes "marks_ok new neg pos" "\<not> ex_holds I new" "\<forall>x \<in> set args. fml x"
    and "fst (simp_nested_not_or rw args neg pos) = Some r"
  shows "holds I r = (\<not> ex_holds I args)"
  using nested_not_or_loop_sound[OF assms(1,2), of "[]" args False] assms(3,4)
    nested_not_or_loop_subset[of args neg pos False "[]"]
  by (auto simp: simp_nested_not_or_def Let_def disj_ok_def split: option.splits if_splits list.splits)

section \<open>Nested equalities and if-then-elses\<close>

lemma marks_fml:
  "marks_ok new neg pos \<Longrightarrow> \<forall>x \<in> set new. fml x \<Longrightarrow> a \<in> neg \<Longrightarrow> fml a"
  "marks_ok new neg pos \<Longrightarrow> \<forall>x \<in> set new. fml x \<Longrightarrow> a \<in> pos \<Longrightarrow> fml a"
  by (force simp: marks_ok_def)+

lemma simp_arg_ws:
  assumes "marks_ok new neg pos" "\<forall>x \<in> set new. fml x" "ws a"
  shows "ws (fst (simp_arg a neg pos)) \<and> get_sort (fst (simp_arg a neg pos)) = get_sort a"
  using assms marks_fml[OF assms(1,2), THEN fml_sort]
  by (auto simp: simp_arg_def elim!: is_notE)

lemma simp_arg_modified:
  assumes "marks_ok new neg pos" "\<forall>x \<in> set new. fml x" "ws a" "snd (simp_arg a neg pos)"
  shows "get_sort a = BoolSort"
  using assms(3,4) marks_fml[OF assms(1,2), THEN fml_sort]
  by (auto simp: simp_arg_def elim!: is_notE split: if_splits)

lemma simp_arg_fml:
  assumes "marks_ok new neg pos" "\<forall>x \<in> set new. fml x" "fml a"
  shows "fml (fst (simp_arg a neg pos))"
  using assms(3) by (auto simp: simp_arg_def)

lemma simp_arg_eval:
  assumes "marks_ok new neg pos" "\<forall>x \<in> set new. fml x" "ws a" "\<not> ex_holds I new"
  shows "eval I (fst (simp_arg a neg pos)) = eval I a"
proof -
  have neg: "eval I b = VBool True" if "b \<in> neg" for b
    using that marks_neg[OF assms(1) _ assms(4)] marks_fml(1)[OF assms(1,2)] eval_fml by auto
  have pos: "eval I b = VBool False" if "b \<in> pos" for b
    using that marks_pos[OF assms(1) _ assms(4)] marks_fml(2)[OF assms(1,2)] eval_fml by auto
  show ?thesis
  proof (cases "is_not a")
    case True
    then obtain b where b: "a = ENot b" by (auto elim: is_notE)
    then show ?thesis using neg[of b] pos[of b] by (simp add: simp_arg_def)
  next
    case False
    then show ?thesis using neg[of a] pos[of a] by (simp add: simp_arg_def)
  qed
qed

lemma fml_mk_nested_ite: "fml c \<Longrightarrow> fml t \<Longrightarrow> fml e \<Longrightarrow> fml (mk_nested_ite rw c t e)"
  by (simp add: mk_nested_ite_def)

lemma holds_mk_nested_ite:
  assumes "fml c" "fml t" "fml e"
  shows "holds I (mk_nested_ite rw c t e) = (if holds I c then holds I t else holds I e)"
  using assms complement_core_holds[of t e I] complement_core_holds[of e t I]
  by (simp add: mk_nested_ite_def)

lemma simp_nested_eq_ite_cases:
  assumes "fst (simp_nested_eq_ite rw t neg pos) = Some r"
  obtains l l' x where "t = EEq l l' \<and> x = r \<or> t = ENot (EEq l l') \<and> r = mk_not rw x"
      "x = mk_eq rw (fst (simp_arg l neg pos)) (fst (simp_arg l' neg pos))"
      "snd (simp_arg l neg pos) \<or> snd (simp_arg l' neg pos)"
    | c a b x where "t = EIte c a b \<and> x = r \<or> t = ENot (EIte c a b) \<and> r = mk_not rw x"
      "x = mk_nested_ite rw (fst (simp_arg c neg pos)) (fst (simp_arg a neg pos)) (fst (simp_arg b neg pos))"
  using assms unfolding simp_nested_eq_ite_def Let_def
  by (cases t; force split: expr.splits prod.splits if_splits)

lemma simp_nested_eq_ite_sound:
  assumes m: "marks_ok new neg pos" "\<forall>x \<in> set new. fml x" and t: "fml t"
    and r: "fst (simp_nested_eq_ite rw t neg pos) = Some r"
  shows "fml r \<and> (\<not> ex_holds I new \<longrightarrow> holds I r = holds I t)"
  using r
proof (cases rule: simp_nested_eq_ite_cases)
  case (1 l l' x)
  have w: "ws l" "ws l'" and s: "get_sort l = get_sort l'" using 1(1) t by auto
  have b: "get_sort l = BoolSort" using simp_arg_modified[OF m w(1)] simp_arg_modified[OF m w(2)] 1(3) s by auto
  have "equates (m_manager rw) x (fst (simp_arg l neg pos)) (fst (simp_arg l' neg pos))"
    unfolding 1(2)
    using simp_arg_ws[OF m w(1)] simp_arg_ws[OF m w(2)] s by (intro equates_mk_eq) simp_all
  then have "fml x" "\<not> ex_holds I new \<longrightarrow> holds I x = (eval I l = eval I l')"
    using simp_arg_eval[OF m w(1)] simp_arg_eval[OF m w(2)] simp_arg_ws[OF m w(1)] b by (auto simp: equates_def)
  with 1(1) show ?thesis by auto
next
  case (2 c a b x)
  have w: "fml c" "fml a" "fml b" using 2(1) t by auto
  note f = simp_arg_fml[OF m w(1)] simp_arg_fml[OF m w(2)] simp_arg_fml[OF m w(3)]
  have "fml x" unfolding 2(2) by (rule fml_mk_nested_ite[OF f])
  moreover have "holds I (fst (simp_arg y neg pos)) = holds I y" if "fml y" "\<not> ex_holds I new" for y
    using simp_arg_eval[OF m fml_ws[OF that(1)] that(2)] by (simp add: holds_def)
  then have "\<not> ex_holds I new \<longrightarrow> holds I x = (if holds I c then holds I a else holds I b)"
    unfolding 2(2) holds_mk_nested_ite[OF f] using w by simp
  ultimately show ?thesis using 2(1) by auto
qed

section \<open>A pass over the arguments\<close>

definition lctx_ok :: "lctx \<Rightarrow> bool" where
  "lctx_ok st \<longleftrightarrow> marks_ok (lc_new st) (lc_neg st) (lc_pos st) \<and> (\<forall>x \<in> set (lc_new st). fml x)"

definition step_ok :: "lctx \<Rightarrow> expr \<Rightarrow> expr \<times> lctx \<Rightarrow> bool" where
  "step_ok st arg r = (case r of (arg', st') \<Rightarrow>
     lc_new st' = lc_new st \<and> lc_neg st' = lc_neg st \<and> lc_pos st' = lc_pos st \<and> fml arg'
     \<and> (\<forall>I. \<not> ex_holds I (lc_new st) \<longrightarrow> holds I arg' = holds I arg))"

lemma lc_simplified_ok:
  assumes "fml arg"
    and "\<And>r'. fst r = Some r' \<Longrightarrow> fml r'"
    and "\<And>r' I. fst r = Some r' \<Longrightarrow> \<not> ex_holds I (lc_new st) \<Longrightarrow> holds I r' = holds I arg"
  shows "step_ok st arg (lc_simplified st arg r)"
  using assms by (auto simp: step_ok_def lc_simplified_def split: prod.splits option.splits)

lemma process_nested_not_ok:
  assumes "lctx_ok st" "fml arg"
  shows "step_ok st arg (process_nested_not st arg)"
proof (cases "\<exists>xs. arg = ENot (EOr xs)")
  case True
  then obtain xs where a: "arg = ENot (EOr xs)" by blast
  then have f: "\<forall>x \<in> set xs. fml x" using assms by simp
  have m: "marks_ok (lc_new st) (lc_neg st) (lc_pos st)" using assms by (simp add: lctx_ok_def)
  have "step_ok st arg (lc_simplified st arg
          (simp_nested_not_or (lc_rw st) xs (lc_neg st) (lc_pos st)))"
    using simp_nested_not_or_fml[OF f] simp_nested_not_or_sound[OF m _ f] a assms(2)
    by (intro lc_simplified_ok) auto
  then show ?thesis by (simp add: process_nested_not_def a)
next
  case False
  then have "process_nested_not st arg = (arg, st)"
    by (auto simp: process_nested_not_def split: expr.splits)
  then show ?thesis using assms by (simp add: step_ok_def)
qed

lemma process_eq_ite_ok:
  assumes "lctx_ok st" "fml arg"
  shows "step_ok st arg (process_eq_ite st arg)"
  using simp_nested_eq_ite_sound[of "lc_new st"] assms
  unfolding process_eq_ite_def lctx_ok_def by (intro lc_simplified_ok) blast+

lemma push_new_arg_ok:
  assumes "lctx_ok st" "fml arg"
  shows "lctx_ok (push_new_arg arg st)"
    and "ex_holds I (lc_new (push_new_arg arg st)) = (ex_holds I (lc_new st) \<or> holds I arg)"
  using assms marks_ok_neg marks_ok_pos
  by (auto simp: push_new_arg_def lctx_ok_def marks_ok_def elim!: is_notE intro: ex_holds_mem)

lemma push_all_ok:
  assumes "lctx_ok st" "\<forall>x \<in> set xs. fml x"
  shows "lctx_ok (fold push_new_arg xs st)"
    and "ex_holds I (lc_new (fold push_new_arg xs st)) = (ex_holds I (lc_new st) \<or> ex_holds I xs)"
  using assms by (induction xs arbitrary: st) (simp_all add: push_new_arg_ok)

text \<open>The outcome of a pass: true, or arguments with the same disjunction.\<close>

definition pass_ok :: "lctx \<Rightarrow> expr list \<Rightarrow> (expr \<times> bool_rewriter) + lctx \<Rightarrow> bool" where
  "pass_ok st xs r = (case r of
      Inl (e, rw) \<Rightarrow> e = ETrue \<and> (\<forall>I. ex_holds I (lc_new st @ xs))
    | Inr st' \<Rightarrow> lctx_ok st' \<and> (\<forall>I. ex_holds I (lc_new st') = ex_holds I (lc_new st @ xs)))"

lemma process_arg_ok:
  assumes "lctx_ok st0" "fml a"
  shows "pass_ok st0 [a] (process_arg st0 a)"
proof -
  obtain arg1 st1 where 1: "process_nested_not st0 a = (arg1, st1)" by fastforce
  obtain arg st where 2: "process_eq_ite st1 arg1 = (arg, st)" by fastforce
  have s1: "step_ok st0 a (arg1, st1)" using process_nested_not_ok[OF assms] 1 by simp
  then have "lctx_ok st1" "fml arg1" using assms(1) by (auto simp: step_ok_def lctx_ok_def)
  then have s2: "step_ok st1 arg1 (arg, st)" using process_eq_ite_ok[of st1 arg1] 2 by simp
  have st: "lctx_ok st" "fml arg" "lc_new st = lc_new st0"
    and eq: "ex_holds I (lc_new st0) \<or> holds I arg = holds I a" for I
    using s1 s2 assms(1) by (auto simp: step_ok_def lctx_ok_def)
  have push: "pass_ok st0 [a] (Inr (push_new_arg arg st))"
    using push_new_arg_ok[OF st(1,2)] eq st(3) by (auto simp: pass_ok_def)
  have flat: "pass_ok st0 [a] (Inr (fold push_new_arg xs st))" if "arg = EOr xs" for xs
    using push_all_ok[OF st(1), of xs] st(2,3) eq that by (auto simp: pass_ok_def)
  have "pass_ok st0 [a] (Inr st)" if "arg = EFalse"
    using eq that st by (auto simp: pass_ok_def)
  moreover have "pass_ok st0 [a] (Inl (arg, lc_rw st))" if "arg = ETrue"
    using eq that by (auto simp: pass_ok_def)
  ultimately show ?thesis
    using push flat 1 2 by (auto simp: process_arg_def split: expr.split)
qed

lemma process_args_ok:
  "lctx_ok st \<Longrightarrow> \<forall>x \<in> set args. fml x \<Longrightarrow> pass_ok st args (process_args st args)"
proof (induction args arbitrary: st)
  case (Cons a args)
  have a: "pass_ok st [a] (process_arg st a)" using Cons.prems process_arg_ok by simp
  show ?case
  proof (cases "process_arg st a")
    case (Inl r)
    then show ?thesis using a by (cases r) (auto simp: pass_ok_def)
  next
    case (Inr st')
    then have "lctx_ok st'" using a by (simp add: pass_ok_def)
    then have "pass_ok st' args (process_args st' args)" using Cons by simp
    then show ?thesis using a Inr by (auto simp: pass_ok_def split: sum.splits)
  qed
qed (simp add: pass_ok_def)

lemma pass_start_ok [simp]: "lctx_ok (pass_start m s rw n)" "lc_new (pass_start m s rw n) = []"
  by (simp_all add: pass_start_def lctx_ok_def)

lemma local_ctx_loop_sound:
  "local_ctx_loop n rw simp args = Some (Some r, rw') \<Longrightarrow> \<forall>x \<in> set args. fml x \<Longrightarrow>
     fml r \<and> (\<forall>I. holds I r = ex_holds I args)"
proof (induction n arbitrary: rw simp args)
  case (Suc n)
  let ?p1 = "process_args (pass_start False simp rw (length args)) args"
  have 1: "pass_ok (pass_start False simp rw (length args)) args ?p1"
    using Suc.prems by (intro process_args_ok) auto
  show ?case
  proof (cases ?p1)
    case (Inl r1)
    then show ?thesis using Suc.prems 1 by (cases r1) (auto simp: pass_ok_def)
  next
    case (Inr st1)
    then have st1: "lctx_ok st1" "ex_holds I (lc_new st1) = ex_holds I args" for I
      using 1 by (auto simp: pass_ok_def)
    let ?s2 = "pass_start (lc_modified st1) (lc_simp st1) (lc_rw st1) (length (lc_new st1))"
    have f1: "\<forall>x \<in> set (lc_new st1). fml x" using st1 by (simp add: lctx_ok_def)
    then have 2: "pass_ok ?s2 (rev (lc_new st1)) (process_args ?s2 (rev (lc_new st1)))"
      by (intro process_args_ok) auto
    show ?thesis
    proof (cases "process_args ?s2 (rev (lc_new st1))")
      case (Inl r1)
      then show ?thesis using Suc.prems Inr 2 st1 by (cases r1) (auto simp: pass_ok_def)
    next
      case i2: (Inr st2)
      then have st2: "\<forall>x \<in> set (lc_new st2). fml x" "ex_holds I (lc_new st2) = ex_holds I args" for I
        using 2 st1 by (auto simp: pass_ok_def lctx_ok_def)
      then show ?thesis
        using Suc.prems Suc.IH[of "lc_rw st2" "lc_simp st2" "rev (lc_new st2)"] Inr i2
          mk_or_app_sound f1 st1(2) by (auto split: if_splits)
    qed
  qed
qed simp


declare local_ctx_loop.simps(2) [simp del]

section \<open>Soundness of disjunction\<close>

lemma local_ctx_simp_sound:
  assumes "local_ctx_simp rw args = (Some r, rw')" "\<forall>x \<in> set args. fml x"
  shows "fml r" "holds I r = ex_holds I args"
  using assms local_ctx_loop_sound[of _ rw False args r rw']
  by (auto simp: local_ctx_simp_def split: option.splits)

lemma nflat_or_loop_subset:
  "nflat_or_loop args neg pos s buf = Some (s', b) \<Longrightarrow> set b \<subseteq> set (buf @ args)"
  by (induction args neg pos s buf rule: nflat_or_loop.induct) (auto split: if_splits)

lemma nflat_or_loop_sound:
  "marks_ok buf neg pos \<Longrightarrow> disj_ok I (buf @ args) (nflat_or_loop args neg pos s buf)"
proof (induction args neg pos s buf rule: nflat_or_loop.induct)
  case (2 arg args neg pos s buf)
  note ok = "2.prems" and IH = "2.IH"
  have neg: "ENot a \<in> set buf" if "a \<in> neg" for a using that ok by (auto simp: marks_ok_def)
  have pos: "a \<in> set buf" if "a \<in> pos" for a using that ok by (auto simp: marks_ok_def)
  have skip: "disj_ok I (buf @ arg # args) r"
    if "disj_ok I (buf @ args) r" "arg = EFalse \<or> arg \<in> set buf" for r
    using that by (intro disj_ok_skip) (auto simp: ex_holds_def)
  have none: "disj_ok I (buf @ arg # args) None" if "x \<in> set buf" "holds I x = (\<not> holds I arg)" for x
    using that by (intro disj_ok_None) (auto simp: ex_holds_def)
  show ?case
  proof (cases "is_not arg")
    case True
    then obtain a where a: "arg = ENot a" by (auto elim: is_notE)
    consider "a \<in> neg" | "a \<notin> neg" "a \<in> pos" | "a \<notin> neg" "a \<notin> pos" by blast
    then show ?thesis
    proof cases
      case 1
      then show ?thesis using skip[of "nflat_or_loop args neg pos True buf"] IH(2) ok a neg by simp
    next
      case 2
      then show ?thesis using none[OF pos] a by simp
    next
      case 3
      then have "disj_ok I ((buf @ [arg]) @ args) (nflat_or_loop args (insert a neg) pos s (buf @ [arg]))"
        using IH(3) a marks_ok_neg[OF ok] by auto
      with 3 a show ?thesis by simp
    qed
  next
    case False
    consider "arg = ETrue" | "arg = EFalse" | "arg \<noteq> ETrue" "arg \<noteq> EFalse" "arg \<in> pos"
      | "arg \<noteq> ETrue" "arg \<noteq> EFalse" "arg \<notin> pos" "arg \<in> neg"
      | "arg \<noteq> ETrue" "arg \<noteq> EFalse" "arg \<notin> pos" "arg \<notin> neg" by blast
    then show ?thesis
    proof cases
      case 1
      then show ?thesis by (simp add: disj_ok_None)
    next
      case 2
      then show ?thesis using skip[of "nflat_or_loop args neg pos True buf"] IH(1) ok by simp
    next
      case 3
      then show ?thesis using skip[of "nflat_or_loop args neg pos True buf"] IH(4) ok False pos by simp
    next
      case 4
      then show ?thesis using none[OF neg] False by simp
    next
      case 5
      then have "disj_ok I ((buf @ [arg]) @ args) (nflat_or_loop args neg (insert arg pos) s (buf @ [arg]))"
        using IH(5) False marks_ok_pos[OF ok] by auto
      with 5 False show ?thesis by simp
    qed
  qed
qed (simp add: disj_ok_def)

lemma or_buffer_sound:
  assumes "\<forall>x \<in> set buffer. fml x"
    and "(case buffer of
             [] \<Rightarrow> (BR_DONE EFalse, rw)
           | [x] \<Rightarrow> (BR_DONE x, rw)
           | _ \<Rightarrow>
               let (r, rw') = (if b then local_ctx_simp rw buffer else (None, rw))
               in (case r of
                     Some e \<Rightarrow> (BR_DONE e, rw')
                   | None \<Rightarrow> (if s then BR_DONE (EOr buffer) else BR_FAILED, rw'))) = (st, rw2)"
    and "fml d" and "\<not> s \<Longrightarrow> \<forall>I. holds I d = ex_holds I buffer"
  shows "fml (br_result st d) \<and> holds I (br_result st d) = ex_holds I buffer"
proof (cases buffer rule: mk_or_app.cases)
  case 3
  then show ?thesis
    using assms local_ctx_simp_sound[OF _ assms(1)]
    by (auto split: prod.splits option.splits if_splits)
qed (use assms in auto)

lemma mk_nflat_or_core_sound:
  assumes "\<forall>x \<in> set args. fml x" "mk_nflat_or_core rw args = (st, rw')"
  shows "fml (br_result st (EOr args)) \<and> holds I (br_result st (EOr args)) = ex_holds I args"
proof -
  have d: "disj_ok J args (nflat_or_loop args {} {} False [])" for J
    using nflat_or_loop_sound[of "[]" "{}" "{}" J args False] by simp
  show ?thesis
  proof (cases "nflat_or_loop args {} {} False []")
    case None
    then show ?thesis using d[of I] assms(2) by (auto simp: mk_nflat_or_core_def disj_ok_def)
  next
    case (Some sb)
    then obtain s buffer where sb: "nflat_or_loop args {} {} False [] = Some (s, buffer)"
      by (cases sb) auto
    have eq: "ex_holds J buffer = ex_holds J args" for J
      using d[of J] sb by (simp add: disj_ok_def)
    have f: "\<forall>x \<in> set buffer. fml x" using nflat_or_loop_subset[OF sb] assms(1) by auto
    show ?thesis
      using or_buffer_sound[OF f, where d = "EOr args" and I = I] assms sb eq
      by (simp add: mk_nflat_or_core_def)
  qed
qed

lemma flatten_or_sound:
  "(\<forall>x \<in> set (flatten_or args). fml x) = (\<forall>x \<in> set args. fml x)"
  "ex_holds I (flatten_or args) = ex_holds I args"
  by (induction args) (auto split: expr.split)

lemma mk_or_core_sound:
  assumes "\<forall>x \<in> set args. fml x" "mk_or_core rw args = (st, rw')"
  shows "fml (br_result st (EOr args)) \<and> holds I (br_result st (EOr args)) = ex_holds I args"
  using assms mk_nflat_or_core_sound[of args rw] mk_nflat_or_core_sound[of "flatten_or args" rw]
  unfolding flatten_or_sound
  by (auto simp: mk_or_core_def mk_flat_or_core_def Let_def split: if_splits prod.splits)

lemma fml_mk_or [simp, ok_intros]: "\<forall>x \<in> set args. fml x \<Longrightarrow> fml (fst (mk_or rw args))"
  and holds_mk_or [simp, gate_simps]:
    "\<forall>x \<in> set args. fml x \<Longrightarrow> holds I (fst (mk_or rw args)) = (\<exists>x \<in> set args. holds I x)"
  using mk_or_core_sound[of args rw _ _ I]
  by (auto simp: mk_or_def ex_holds_def split: prod.splits)

lemma mk_and_as_or_sound:
  assumes "\<forall>x \<in> set args. fml x"
  shows "fml (fst (mk_and_as_or rw args))"
    and "holds I (fst (mk_and_as_or rw args)) = (\<forall>x \<in> set args. holds I x)"
proof -
  have f: "\<forall>x \<in> set (map (mk_not rw) args). fml x" using assms by auto
  show "fml (fst (mk_and_as_or rw args))"
    using fml_mk_or[OF f] by (auto simp: mk_and_as_or_def split_def Let_def)
  show "holds I (fst (mk_and_as_or rw args)) = (\<forall>x \<in> set args. holds I x)"
    using fml_mk_or[OF f] holds_mk_or[OF f, of I] assms
    by (auto simp: mk_and_as_or_def split_def Let_def)
qed

lemma mk_and_core_sound:
  assumes "\<forall>x \<in> set args. fml x"
  shows "fml (br_result (fst (mk_and_core rw args)) (EAnd args))"
    and "holds I (br_result (fst (mk_and_core rw args)) (EAnd args)) = (\<forall>x \<in> set args. holds I x)"
  using mk_and_as_or_sound[OF assms] mk_flat_and_core_sound[OF assms] mk_nflat_and_core_sound[OF assms]
  by (simp_all add: mk_and_core_def split_def Let_def)

lemma fml_mk_and [simp, ok_intros]: "\<forall>x \<in> set args. fml x \<Longrightarrow> fml (fst (mk_and rw args))"
  and holds_mk_and [simp, gate_simps]:
    "\<forall>x \<in> set args. fml x \<Longrightarrow> holds I (fst (mk_and rw args)) = (\<forall>x \<in> set args. holds I x)"
  using mk_and_core_sound[of args]
  by (simp_all add: mk_and_def split_def Let_def)

lemma fml_mk_implies [simp, ok_intros]: "fml a \<Longrightarrow> fml b \<Longrightarrow> fml (fst (mk_implies rw a b))"
  and holds_mk_implies [simp, gate_simps]:
    "fml a \<Longrightarrow> fml b \<Longrightarrow> holds I (fst (mk_implies rw a b)) = (holds I a \<longrightarrow> holds I b)"
  by (auto simp: mk_implies_def Let_def)

lemma fml_mk_nand [simp, ok_intros]: "\<forall>x \<in> set args. fml x \<Longrightarrow> fml (fst (mk_nand rw args))"
  and holds_mk_nand [simp, gate_simps]:
    "\<forall>x \<in> set args. fml x \<Longrightarrow> holds I (fst (mk_nand rw args)) = (\<not> (\<forall>x \<in> set args. holds I x))"
  by (auto simp: mk_nand_def Let_def split_def)

lemma fml_mk_nor [simp, ok_intros]: "\<forall>x \<in> set args. fml x \<Longrightarrow> fml (fst (mk_nor rw args))"
  and holds_mk_nor [simp, gate_simps]:
    "\<forall>x \<in> set args. fml x \<Longrightarrow> holds I (fst (mk_nor rw args)) = (\<not> (\<exists>x \<in> set args. holds I x))"
  by (auto simp: mk_nor_def Let_def split_def)

end
