(* ===== verification/Local_Ctx_Term.thy ===== *)
theory Local_Ctx_Term
  imports Local_Ctx
begin

text \<open>
  Termination of \<^verbatim>\<open>local_ctx_simp\<close>: a pass over the arguments never increases their
  weight, and decreases it whenever it sets \<^verbatim>\<open>modified\<close>; so the loop needs at most as
  many rounds as its arguments weigh.
\<close>

section \<open>A replaced argument is lighter\<close>

lemma wts_ge: "x \<in> set xs \<Longrightarrow> wt x \<le> wts xs"
  by (rule member_le_sum_list) auto

lemma nested_not_or_loop_wt:
  "nested_not_or_loop args neg pos simp buf = Some (s, b) \<Longrightarrow>
     wts b \<le> wts buf + wts args \<and> (s \<longrightarrow> simp \<or> wts b < wts buf + wts args)"
proof (induction args neg pos simp buf rule: nested_not_or_loop.induct)
  case (2 arg args neg pos simp buf)
  have "wts b < wts buf + wts (arg # args)" if "wts b \<le> wts buf + wts args"
    using that wt_pos[of arg] by (simp del: wt_pos)
  then show ?case using "2.prems" "2.IH" by (simp add: add.assoc split: if_splits)
qed simp

lemma simp_nested_not_or_wt:
  assumes "fst (simp_nested_not_or rw args neg pos) = Some r"
  shows "wt r < wt (ENot (EOr args))"
proof (cases "nested_not_or_loop args neg pos False []")
  case None
  then show ?thesis using assms by (auto simp: simp_nested_not_or_def Let_def)
next
  case (Some sb)
  then obtain s b where sb: "nested_not_or_loop args neg pos False [] = Some (s, b)"
    by (cases sb) auto
  then have s: s "wts b < wts args"
    using assms nested_not_or_loop_wt[OF sb]
    by (auto simp: simp_nested_not_or_def Let_def split: if_splits)
  then show ?thesis
    using assms sb wt_mk_not[of rw "hd b"]
    by (auto simp: simp_nested_not_or_def Let_def split: list.splits)
qed

lemma wt_try_ite:
  assumes "is_value v" "try_ite_value rw ite v \<noteq> BR_FAILED"
  shows "wt (br_result (try_ite_value rw ite v) d) \<le> wt ite"
proof (cases ite)
  case (EIte c t e)
  note size = rewriter_size_dom(3)[OF rewriter_total [rule_format] assms(1), of rw]
  have c: "wt (br_result (mk_not_core rw c) (ENot c)) \<le> wt c + 1"
    using wt_mk_not[of rw c] by (simp add: mk_not_def)
  show ?thesis
    using assms c size[of t] size[of e] wt_ge1[of t] wt_ge1[of e]
    by (auto simp: EIte try_ite_value.simps[of rw "EIte c t e"] split: if_splits)
qed (use assms in \<open>simp_all add: try_ite_value.simps\<close>)

lemma wt_mk_eq_const:
  assumes "c = ETrue \<or> c = EFalse" "fml a"
  shows "wt (mk_eq rw c a) \<le> wt a + 1" "wt (mk_eq rw a c) \<le> wt a + 1"
proof -
  have v: "is_value c" "\<not> is_ite c" "is_bool c" "\<not> is_not c"
    using assms(1) by (auto simp: is_value_def)
  have n: "wt (br_result (mk_not_core rw a) (ENot a)) \<le> wt a + 1"
      "wt (br_result (mk_not_core rw c) (ENot c)) \<le> 2"
    using wt_mk_not[of rw a] wt_mk_not[of rw c] assms(1) by (auto simp: mk_not_def)
  have b: "is_bool a" using assms(2) by (simp add: fml_def)
  have i: "wt (br_result (try_ite_value rw a c) d) \<le> wt a + 1"
    if "try_ite_value rw a c \<noteq> BR_FAILED" for d
    using wt_try_ite[OF v(1) that, of d] by simp
  show "wt (mk_eq rw c a) \<le> wt a + 1"
    using v n i wt_ge1[of a] assms(1)
    by (auto simp: mk_eq_def mk_eq_core.simps[of rw c a] Let_def are_equal_bool)
  show "wt (mk_eq rw a c) \<le> wt a + 1"
    using v n i b wt_ge1[of a] assms(1)
    by (auto simp: mk_eq_def mk_eq_core.simps[of rw a c] Let_def are_equal_bool)
qed


lemma wt_mk_nested_ite:
  assumes "fml c" "fml t" "fml e"
    and "c \<in> {ETrue, EFalse} \<or> t \<in> {ETrue, EFalse} \<or> e \<in> {ETrue, EFalse}"
  shows "wt (mk_nested_ite rw c t e) \<le> 3 + wt c + wt t + wt e"
  using assms wt_mk_not[of rw c] wt_mk_not[of rw t] wt_mk_not[of rw e] wt_mk_eq[of rw c t]
  by (auto simp: mk_nested_ite_def fml_def)

text \<open>What \<^verbatim>\<open>simp_arg\<close> does to a weight.\<close>

lemma simp_arg_cases:
  "simp_arg a neg pos = (a, False) \<or> fst (simp_arg a neg pos) \<in> {ETrue, EFalse} \<and> snd (simp_arg a neg pos)"
  by (auto simp: simp_arg_def)

lemma simp_arg_wt: "wt (fst (simp_arg a neg pos)) \<le> wt a"
  using simp_arg_cases[of a neg pos] wt_ge1[of a] by auto

lemma simp_eq_wt:
  assumes m: "marks_ok new neg pos" "\<forall>x \<in> set new. fml x"
    and t: "ws l" "ws r" "get_sort l = get_sort r"
    and mod: "snd (simp_arg l neg pos) \<or> snd (simp_arg r neg pos)"
  shows "wt (mk_eq rw (fst (simp_arg l neg pos)) (fst (simp_arg r neg pos))) < wt (EEq l r)"
proof -
  let ?l = "fst (simp_arg l neg pos)" and ?r = "fst (simp_arg r neg pos)"
  have l: "ws ?l" "get_sort ?l = get_sort l" and r: "ws ?r" "get_sort ?r = get_sort r"
    using simp_arg_ws[OF m t(1)] simp_arg_ws[OF m t(2)] by auto
  have const: "fml x" if "x \<in> {ETrue, EFalse}" for x using that by auto
  consider "?l \<in> {ETrue, EFalse}" | "?r \<in> {ETrue, EFalse}"
    using mod simp_arg_cases[of l neg pos] simp_arg_cases[of r neg pos] by auto
  then show ?thesis
  proof cases
    case 1
    have "get_sort ?r = BoolSort" using fml_sort[OF const[OF 1]] l(2) r(2) t(3) by simp
    then have "fml ?r" using r(1) by (simp add: fml_def is_bool_def)
    then have "wt (mk_eq rw ?l ?r) \<le> wt ?r + 1" using 1 by (intro wt_mk_eq_const(1)) auto
    then show ?thesis using simp_arg_wt[of r neg pos] wt_ge1[of l] by simp
  next
    case 2
    have "get_sort ?l = BoolSort" using fml_sort[OF const[OF 2]] l(2) r(2) t(3) by simp
    then have "fml ?l" using l(1) by (simp add: fml_def is_bool_def)
    then have "wt (mk_eq rw ?l ?r) \<le> wt ?l + 1" using 2 by (intro wt_mk_eq_const(2)) auto
    then show ?thesis using simp_arg_wt[of l neg pos] wt_ge1[of r] by simp
  qed
qed

lemma simp_ite_wt:
  assumes "fml c" "fml t" "fml e"
    and "snd (simp_arg c neg pos) \<or> snd (simp_arg t neg pos) \<or> snd (simp_arg e neg pos)"
  shows "wt (mk_nested_ite rw (fst (simp_arg c neg pos)) (fst (simp_arg t neg pos))
           (fst (simp_arg e neg pos))) < wt (EIte c t e)"
proof -
  have f: "fml (fst (simp_arg x neg pos))" if "fml x" for x
    using that by (auto simp: simp_arg_def)
  have "wt (mk_nested_ite rw (fst (simp_arg c neg pos)) (fst (simp_arg t neg pos))
           (fst (simp_arg e neg pos)))
     \<le> 3 + wt (fst (simp_arg c neg pos)) + wt (fst (simp_arg t neg pos)) + wt (fst (simp_arg e neg pos))"
    using assms simp_arg_cases[of c neg pos] simp_arg_cases[of t neg pos] simp_arg_cases[of e neg pos]
    by (intro wt_mk_nested_ite f) auto
  then show ?thesis
    using simp_arg_wt[of c neg pos] simp_arg_wt[of t neg pos] simp_arg_wt[of e neg pos] by simp
qed

lemma simp_nested_eq_ite_wt:
  assumes m: "marks_ok new neg pos" "\<forall>x \<in> set new. fml x" and t: "fml t"
    and r: "fst (simp_nested_eq_ite rw t neg pos) = Some r"
  shows "wt r < wt t"
proof -
  define t' where "t' = (if is_not t then arg0 t else t)"
  have t': "fml t'" "wt t' + (if is_not t then 1 else 0) = wt t"
    using t by (auto simp: t'_def elim!: is_notE)
  obtain x where x: "r = (if is_not t then mk_not rw x else x)" "wt x < wt t'"
  proof (cases t')
    case (EEq a b)
    let ?x = "mk_eq rw (fst (simp_arg a neg pos)) (fst (simp_arg b neg pos))"
    have "snd (simp_arg a neg pos) \<or> snd (simp_arg b neg pos)"
      and "r = (if is_not t then mk_not rw ?x else ?x)"
      using r EEq unfolding simp_nested_eq_ite_def Let_def t'_def[symmetric]
      by (auto split: prod.splits if_splits)
    moreover have "ws a" "ws b" "get_sort a = get_sort b" using t'(1) EEq by auto
    ultimately show ?thesis using that simp_eq_wt[OF m] EEq by auto
  next
    case (EIte c a b)
    let ?x = "mk_nested_ite rw (fst (simp_arg c neg pos)) (fst (simp_arg a neg pos)) (fst (simp_arg b neg pos))"
    have "snd (simp_arg c neg pos) \<or> snd (simp_arg a neg pos) \<or> snd (simp_arg b neg pos)"
      and "r = (if is_not t then mk_not rw ?x else ?x)"
      using r EIte unfolding simp_nested_eq_ite_def Let_def t'_def[symmetric]
      by (auto split: prod.splits if_splits)
    moreover have "fml c" "fml a" "fml b" using t'(1) EIte by auto
    ultimately show ?thesis using that simp_ite_wt EIte by auto
  qed (use r in \<open>auto simp: simp_nested_eq_ite_def Let_def t'_def[symmetric] split: if_splits\<close>)
  then show ?thesis using t'(2) wt_mk_not[of rw x] by (auto split: if_splits)
qed

section \<open>The weight of a pass\<close>

text \<open>A pass does not increase the weight, and decreases it when it sets \<^verbatim>\<open>modified\<close>.\<close>

definition lighter :: "lctx \<Rightarrow> nat \<Rightarrow> lctx \<Rightarrow> nat \<Rightarrow> bool" where
  "lighter st n st' n' \<longleftrightarrow> (let w = wts (lc_new st) + n; w' = wts (lc_new st') + n' in
     w' \<le> w \<and> (lc_modified st' \<longrightarrow> lc_modified st \<or> w' < w))"

lemma lighter_trans: "lighter a i b j \<Longrightarrow> lighter b j c k \<Longrightarrow> lighter a i c k"
  by (auto simp: lighter_def Let_def)

lemma lighter_frame: "lighter a i b j \<Longrightarrow> lighter a (i + n) b (j + n)"
  by (auto simp: lighter_def Let_def)

lemma lc_simplified_lighter:
  assumes "\<And>r'. fst r = Some r' \<Longrightarrow> wt r' < wt arg"
  shows "lighter st (wt arg) (snd (lc_simplified st arg r)) (wt (fst (lc_simplified st arg r)))"
  using assms by (auto simp: lighter_def lc_simplified_def Let_def split: prod.splits option.splits)

lemma push_new_arg_lighter: "lighter st (wt arg) (push_new_arg arg st) 0"
  by (auto simp: lighter_def push_new_arg_def Let_def)

lemma push_all_lighter: "lighter st (wts xs) (fold push_new_arg xs st) 0"
proof (induction xs arbitrary: st)
  case (Cons x xs)
  have "lighter st (wt x + wts xs) (push_new_arg x st) (0 + wts xs)"
    by (rule lighter_frame[OF push_new_arg_lighter])
  then show ?case using Cons lighter_trans by simp
qed (simp add: lighter_def)

lemma process_nested_not_lighter:
  "lighter st (wt arg) (snd (process_nested_not st arg)) (wt (fst (process_nested_not st arg)))"
  using lc_simplified_lighter[OF simp_nested_not_or_wt]
  by (auto simp: process_nested_not_def lighter_def split: expr.splits)

lemma process_arg_lighter:
  assumes "lctx_ok st0" "fml a" "process_arg st0 a = Inr st'"
  shows "lighter st0 (wt a) st' 0"
proof -
  obtain arg1 st1 where 1: "process_nested_not st0 a = (arg1, st1)" by fastforce
  obtain arg st where 2: "process_eq_ite st1 arg1 = (arg, st)" by fastforce
  have "step_ok st0 a (arg1, st1)" using process_nested_not_ok[OF assms(1,2)] 1 by simp
  then have ok: "marks_ok (lc_new st1) (lc_neg st1) (lc_pos st1)" "\<forall>x \<in> set (lc_new st1). fml x" "fml arg1"
    using assms(1) by (auto simp: step_ok_def lctx_ok_def)
  have "lighter st0 (wt a) st1 (wt arg1)" using process_nested_not_lighter[of st0 a] 1 by simp
  moreover have "lighter st1 (wt arg1) st (wt arg)"
    using lc_simplified_lighter[of "simp_nested_eq_ite (lc_rw st1) arg1 (lc_neg st1) (lc_pos st1)"
        arg1 st1] simp_nested_eq_ite_wt[OF ok] 2
    by (simp add: process_eq_ite_def)
  ultimately have l: "lighter st0 (wt a) st (wt arg)" by (rule lighter_trans)
  have "lighter st (wt arg) st' 0"
  proof -
    consider "arg = EFalse" "st' = st" | xs where "arg = EOr xs" "st' = fold push_new_arg xs st"
      | "st' = push_new_arg arg st"
      using assms(3) 1 2 by (auto simp: process_arg_def split: if_splits expr.splits)
    then show ?thesis
    proof cases
      case 2
      then show ?thesis using push_all_lighter[of st xs] by (auto simp: lighter_def Let_def)
    next
      case 3
      then show ?thesis using push_new_arg_lighter by simp
    qed (simp add: lighter_def)
  qed
  with l show ?thesis by (rule lighter_trans)
qed

lemma process_args_lighter:
  "lctx_ok st \<Longrightarrow> \<forall>x \<in> set args. fml x \<Longrightarrow> process_args st args = Inr st' \<Longrightarrow>
     lighter st (wts args) st' 0"
proof (induction args arbitrary: st)
  case (Cons a args)
  obtain st1 where 1: "process_arg st a = Inr st1" "process_args st1 args = Inr st'"
    using Cons.prems(3) by (auto split: sum.splits)
  have "pass_ok st [a] (process_arg st a)" using Cons.prems by (intro process_arg_ok) auto
  then have "lctx_ok st1" using 1 by (simp add: pass_ok_def)
  then have "lighter st1 (wts args) st' 0" using Cons 1 by simp
  moreover have "lighter st (wt a + wts args) st1 (0 + wts args)"
    using Cons.prems 1 by (intro lighter_frame process_arg_lighter) auto
  ultimately show ?case using lighter_trans by simp
qed (simp add: lighter_def)

section \<open>Termination\<close>

lemma local_ctx_loop_terminates:
  "\<forall>x \<in> set args. fml x \<Longrightarrow> wts args < n \<Longrightarrow> local_ctx_loop n rw simp args \<noteq> None"
proof (induction n arbitrary: rw simp args)
  case (Suc n)
  let ?s1 = "pass_start False simp rw (length args)"
  show ?case
  proof (cases "process_args ?s1 args")
    case (Inr st1)
    have l1: "lighter ?s1 (wts args) st1 0"
      using process_args_lighter[OF pass_start_ok(1) Suc.prems(1) Inr] .
    have ok1: "\<forall>x \<in> set (rev (lc_new st1)). fml x"
      using process_args_ok[OF pass_start_ok(1) Suc.prems(1), of False simp rw "length args"] Inr
      by (auto simp: pass_ok_def lctx_ok_def)
    let ?s2 = "pass_start (lc_modified st1) (lc_simp st1) (lc_rw st1) (length (lc_new st1))"
    show ?thesis
    proof (cases "process_args ?s2 (rev (lc_new st1))")
      case i2: (Inr st2)
      have l2: "lighter ?s2 (wts (rev (lc_new st1))) st2 0"
        using process_args_lighter[OF pass_start_ok(1) ok1 i2] .
      have ok2: "\<forall>x \<in> set (rev (lc_new st2)). fml x"
        using process_args_ok[OF pass_start_ok(1) ok1, of "lc_modified st1" "lc_simp st1" "lc_rw st1" "length (lc_new st1)"] i2
        by (simp add: pass_ok_def lctx_ok_def)
      have w: "wts (rev xs) = wts xs" for xs by (simp add: rev_map[symmetric])
      have "wts (rev (lc_new st2)) < n" if "lc_modified st2"
        using that l1 l2 Suc.prems(2) unfolding lighter_def w by (auto simp: Let_def pass_start_def)
      then show ?thesis
        using Suc.IH[OF ok2] Inr i2 by (auto simp: local_ctx_loop.simps(2))
    qed (auto simp: local_ctx_loop.simps(2) Inr split: prod.splits)
  qed (auto simp: local_ctx_loop.simps(2) split: prod.splits)
qed simp

end
