(* ===== verification/Bool_Rewriter_Ite.thy ===== *)
theory Bool_Rewriter_Ite
  imports Local_Ctx_Term
begin

text \<open>
  The remaining builders of the Boolean rewriter: if-then-else, distinct and the dispatch
  function, and the fact that a rewriter without the local context rules keeps its state.
\<close>

section \<open>If-then-else\<close>

definition ites :: "expr \<Rightarrow> expr \<Rightarrow> expr \<Rightarrow> expr \<Rightarrow> bool" where
  "ites r c t e \<longleftrightarrow> ws r \<and> get_sort r = get_sort t
     \<and> (\<forall>I. eval I r = (if holds I c then eval I t else eval I e))"

definition ite_args :: "expr \<Rightarrow> expr \<Rightarrow> expr \<Rightarrow> bool" where
  "ite_args c t e \<longleftrightarrow> fml c \<and> ws t \<and> ws e \<and> get_sort t = get_sort e"

lemma ites_node: "ite_args c t e \<Longrightarrow> ites (EIte c t e) c t e"
  by (auto simp: ites_def ite_args_def fml_def)

lemma ites_fml:
  "fml r \<Longrightarrow> fml t \<Longrightarrow> fml e \<Longrightarrow> (\<And>I. holds I r = (if holds I c then holds I t else holds I e)) \<Longrightarrow>
     ites r c t e"
  by (simp add: ites_def eval_fml fml_ws fml_sort)

lemma ites_trans:
  assumes "ites r c' t' e'" "get_sort t' = get_sort t"
    and "\<And>I. (if holds I c' then eval I t' else eval I e') = (if holds I c then eval I t else eval I e)"
  shows "ites r c t e"
  using assms by (simp add: ites_def)

text \<open>Each normalisation rule keeps the arguments well formed and their meaning.\<close>

definition same_ite :: "expr \<times> expr \<times> expr \<Rightarrow> expr \<times> expr \<times> expr \<Rightarrow> bool" where
  "same_ite x y = (case x of (c', t', e') \<Rightarrow> case y of (c, t, e) \<Rightarrow>
     (ite_args c t e \<longrightarrow> ite_args c' t' e' \<and> get_sort t' = get_sort t
       \<and> (\<forall>I. (if holds I c' then eval I t' else eval I e') = (if holds I c then eval I t else eval I e))))"

lemma same_ite_trans: "same_ite x y \<Longrightarrow> same_ite y z \<Longrightarrow> same_ite x z"
  unfolding same_ite_def by (cases x; cases y; cases z) force

lemma same_ite_neg: "same_ite (c, e, t) (ENot c, t, e)"
  and same_ite_then: "same_ite (c, x, e) (c, EIte c x y, e)"
  and same_ite_else: "same_ite (c, t, y) (c, t, EIte c x y)"
  and same_ite_refl: "same_ite (c, t, e) (c, t, e)"
  by (auto simp: same_ite_def ite_args_def fml_def)

lemma ite_normalize_same:
  assumes "ite_normalize c0 t0 e0 = (c, t, e, s)"
  shows "same_ite (c, t, e) (c0, t0, e0)"
proof -
  define x1 where "x1 = (if is_not c0 then (arg0 c0, e0, t0, True) else (c0, t0, e0, False))"
  obtain c1 t1 e1 s1 where 1: "x1 = (c1, t1, e1, s1)" by (cases x1)
  have same1: "same_ite (c1, t1, e1) (c0, t0, e0)"
    using 1 same_ite_neg same_ite_refl by (auto simp: x1_def split: if_splits elim!: is_notE)
  define x2 where "x2 = (case t1 of EIte c' x y \<Rightarrow> if c' = c1 then (x, True) else (t1, s1) | _ \<Rightarrow> (t1, s1))"
  obtain t2 s2 where 2: "x2 = (t2, s2)" by (cases x2)
  have same2: "same_ite (c1, t2, e1) (c1, t1, e1)"
    using 2 same_ite_then same_ite_refl by (auto simp: x2_def split: expr.splits if_splits)
  have "(c, t) = (c1, t2)" and e: "e = fst (case e1 of EIte c' x y \<Rightarrow> if c' = c1 then (y, True) else (e1, s2) | _ \<Rightarrow> (e1, s2))"
    using assms 1 2 unfolding ite_normalize_def x1_def[symmetric]
    by (auto simp: Let_def x2_def[symmetric] split: prod.splits)
  moreover have "same_ite (c1, t2, e) (c1, t2, e1)"
    unfolding e using same_ite_else same_ite_refl by (auto split: expr.splits)
  ultimately show ?thesis using same1 same2 same_ite_trans by blast
qed

lemma fst_pair: "mk_and rw xs = (a, rw') \<Longrightarrow> a = fst (mk_and rw xs)"
  "mk_or rw xs = (a, rw') \<Longrightarrow> a = fst (mk_or rw xs)"
  by simp_all

lemma ite_bool_rules_sound:
  assumes "fml c" "fml t" "fml e" "ite_bool_rules rw c t e = Some (r, rw')"
  shows "ites r c t e"
proof (rule ites_fml)
  have r: "r \<in> {c, fst (mk_or rw [c, e]), mk_not rw c, fst (mk_and rw [mk_not rw c, e]),
      fst (mk_or rw [mk_not rw c, t]), fst (mk_and rw [c, t]), mk_eq rw c t}"
    using assms(4) by (auto simp: ite_bool_rules_def split: if_splits dest!: fst_pair)
  then show "fml r" using assms(1-3) by auto
  show "holds I r = (if holds I c then holds I t else holds I e)" for I
    using assms complement_core_holds[of t e I] complement_core_holds[of e t I]
    by (auto simp: ite_bool_rules_def split: if_splits dest!: fst_pair)
qed (use assms in auto)


text \<open>The extra rules restructure nested if-then-elses; what they return are nodes whose condition
  is built from the conditions.\<close>

lemma ites_EIte:
  assumes "fml nc" "ws a" "ws b" "get_sort a = get_sort b" "get_sort a = get_sort t"
    and "\<And>I. (if holds I nc then eval I a else eval I b) = (if holds I c then eval I t else eval I e)"
  shows "ites (EIte nc a b) c t e"
  using assms by (simp add: ites_def fml_def)

lemma ite_extra_then_sound:
  assumes "ite_args c t e" "ite_extra_then rw c t e = Some (r, rw')"
  shows "ites r c t e"
proof -
  obtain c2 t1 t2 where t: "t = EIte c2 t1 t2"
    using assms(2) by (cases t) (auto simp: ite_extra_then_def)
  obtain s where f: "fml c" "fml c2" "ws t1" "ws t2" "ws e" "get_sort t1 = s" "get_sort t2 = s" "get_sort e = s"
    using assms(1) by (auto simp: ite_args_def t fml_def)
  note rule = assms(2)[unfolded ite_extra_then_def t, simplified]
  consider (a) "e = t1" | (b) "e \<noteq> t1" "e = t2"
    | (c) c3 u1 u2 where "e \<noteq> t1" "e \<noteq> t2" "e = EIte c3 u1 u2" "t1 = u1 \<and> t2 = u2"
    | (d) c3 u1 u2 where "e \<noteq> t1" "e \<noteq> t2" "e = EIte c3 u1 u2" "\<not> (t1 = u1 \<and> t2 = u2)" "t1 = u2 \<and> t2 = u1"
    using rule by (auto split: if_splits expr.splits)
  then show ?thesis
  proof cases
    case a
    then show ?thesis using rule f
      by (auto simp: t split: prod.splits dest!: fst_pair intro!: ites_EIte)
  next
    case b
    then show ?thesis using rule f
      by (auto simp: t split: prod.splits dest!: fst_pair intro!: ites_EIte)
  next
    case (c c3 u1 u2)
    then have "fml c3" using f by (auto simp: fml_def)
    with c show ?thesis using rule f
      by (auto simp: t Let_def split: prod.splits dest!: fst_pair intro!: ites_EIte)
  next
    case (d c3 u1 u2)
    then have "fml c3" using f by (auto simp: fml_def)
    with d show ?thesis using rule f
      by (auto simp: t Let_def split: prod.splits dest!: fst_pair intro!: ites_EIte)
  qed
qed

lemma ite_extra_else_sound:
  assumes "ite_args c t e" "ite_extra_else rw c t e = Some (r, rw')"
  shows "ites r c t e"
proof -
  obtain c2 u1 u2 where e: "e = EIte c2 u1 u2"
    using assms(2) by (cases e) (auto simp: ite_extra_else_def)
  obtain s where "fml c" "fml c2" "ws u1" "ws u2" "ws t" "get_sort u1 = s" "get_sort u2 = s" "get_sort t = s"
    using assms(1) by (auto simp: ite_args_def e fml_def)
  then show ?thesis
    using assms(2)
    by (auto simp: ite_extra_else_def e split: prod.splits if_splits dest!: fst_pair intro!: ites_EIte)
qed

lemma mk_ite_core_sound:
  assumes args: "ite_args c0 t0 e0" and core: "mk_ite_core rw c0 t0 e0 = (st, rw')"
  shows "ites (br_result st (EIte c0 t0 e0)) c0 t0 e0"
proof (cases "st = BR_FAILED")
  case True
  then show ?thesis using ites_node[OF args] by simp
next
  case False
  obtain c t e s where n: "ite_normalize c0 t0 e0 = (c, t, e, s)" by (metis prod_cases4)
  have same: "ite_args c t e" "get_sort t = get_sort t0"
    "(if holds I c then eval I t else eval I e) = (if holds I c0 then eval I t0 else eval I e0)" for I
    using ite_normalize_same[OF n] args by (auto simp: same_ite_def)
  have "ites (br_result st d) c t e" for d
  proof -
    have ws: "ws t" "ws e" "get_sort e = get_sort t" and bool: "fml c" "is_bool t \<Longrightarrow> fml t \<and> fml e"
      using same(1) by (auto simp: ite_args_def fml_def is_bool_def)
    consider (T) "c = ETrue" "st = BR_DONE t" | (F) "c = EFalse" "st = BR_DONE e" | (E) "t = e" "st = BR_DONE t"
      | (B) r where "is_bool t" "ite_bool_rules rw c t e = Some (r, rw')" "st = BR_DONE r"
      | (X) r where "ite_extra_then rw c t e = Some (r, rw')" "st = BR_REWRITE1 r"
      | (Y) r where "ite_extra_else rw c t e = Some (r, rw')" "st = BR_REWRITE1 r"
      | (N) "st = BR_DONE (EIte c t e)"
      using core False n by (auto simp: mk_ite_core_def split: if_splits option.splits prod.splits)
    then show ?thesis
    proof cases
      case (B r)
      then show ?thesis using ite_bool_rules_sound bool by simp
    next
      case (X r)
      then show ?thesis using ite_extra_then_sound[OF same(1)] by simp
    next
      case (Y r)
      then show ?thesis using ite_extra_else_sound[OF same(1)] by simp
    next
      case N
      then show ?thesis using ites_node[OF same(1)] by simp
    qed (use ws in \<open>auto simp: ites_def\<close>)
  qed
  then show ?thesis using ites_trans same(2,3) by blast
qed

lemma mk_ite_sound: "ite_args c t e \<Longrightarrow> ites (fst (mk_ite rw c t e)) c t e"
  using mk_ite_core_sound[of c t e rw] by (auto simp: mk_ite_def split: prod.splits)

lemma fml_mk_ite [simp, ok_intros]: "fml c \<Longrightarrow> fml t \<Longrightarrow> fml e \<Longrightarrow> fml (fst (mk_ite rw c t e))"
  and holds_mk_ite [simp, gate_simps]: "fml c \<Longrightarrow> fml t \<Longrightarrow> fml e \<Longrightarrow>
    holds I (fst (mk_ite rw c t e)) = (if holds I c then holds I t else holds I e)"
  using mk_ite_sound[of c t e rw]
  by (auto simp: ites_def ite_args_def fml_def is_bool_def holds_def)

section \<open>Distinct\<close>

lemma has_duplicate_iff: "has_duplicate xs v \<longleftrightarrow> \<not> distinct xs \<or> set xs \<inter> v \<noteq> {}"
  by (induction xs v rule: has_duplicate.induct) auto

lemma diseqs_holds:
  "(\<forall>x \<in> set (diseqs xs). holds I x) \<longleftrightarrow> distinct (map (eval I) xs)"
  by (induction xs) (force simp: ball_Un)+

lemma diseqs_fml:
  "\<forall>x \<in> set xs. ws x \<and> get_sort x = s \<Longrightarrow> \<forall>x \<in> set (diseqs xs). fml x"
  by (induction xs) auto

lemma values_distinct:
  "list_all (is_unique_value m) xs \<Longrightarrow> distinct xs \<Longrightarrow> \<forall>x \<in> set xs. ws x \<and> get_sort x = s \<Longrightarrow> obeys m I
    \<Longrightarrow> distinct (map (eval I) xs)"
  by (induction xs) (auto simp: list_all_iff dest: unique_values_eval)

text \<open>Three Boolean terms cannot have pairwise distinct values.\<close>

lemma bools_not_distinct:
  "fml a \<Longrightarrow> fml b \<Longrightarrow> fml c \<Longrightarrow> \<not> distinct (map (eval I) (a # b # c # xs))"
  by (auto simp: eval_fml)

lemma mk_distinct_core_sound:
  assumes "ws (EDistinct args)"
  shows "fml (mk_distinct rw args)"
    and "obeys (m_manager rw) I \<Longrightarrow> holds I (mk_distinct rw args) = distinct (map (eval I) args)"
proof -
  have w: "\<forall>x \<in> set args. ws x \<and> get_sort x = get_sort (hd args)" using assms by auto
  have node: "fml (EDistinct args)" using assms by (simp add: fml_def)
  have "fml (mk_distinct rw args) \<and> (\<forall>I. obeys (m_manager rw) I \<longrightarrow> holds I (mk_distinct rw args) = distinct (map (eval I) args))"
  proof -
    consider "length args \<le> 1" | x y where "args = [x, y]" | a b c xs where "args = a # b # c # xs"
      by (metis One_nat_def Suc_le_mono list.size length_Cons neq_Nil_conv le0)
    then show ?thesis
    proof cases
      case 1
      then have "mk_distinct rw args = ETrue"
        by (cases args) (auto simp: mk_distinct_def mk_distinct_core_def)
      then show ?thesis using 1 by (cases args) auto
    next
      case (2 x y)
      then show ?thesis using w by (auto simp: mk_distinct_def mk_distinct_core_def)
    next
      case (3 a b c xs)
      have b: "\<not> distinct (map (eval I) args)" if "is_bool a" for I
        using w that bools_not_distinct[of a b c I xs] by (auto simp: 3 fml_def is_bool_def)
      have v: "distinct (map (eval I) args)" if "\<not> has_duplicate args {}" "list_all (is_unique_value (m_manager rw)) args" "obeys (m_manager rw) I" for I
        using that(1) values_distinct[OF that(2) _ w that(3)] by (simp add: has_duplicate_iff)
      have d: "\<not> distinct (map (eval I) args)" if "has_duplicate args {}" for I
        using that by (auto simp: has_duplicate_iff distinct_map)
      have core: "mk_distinct_core rw args =
          (if has_duplicate args {} then BR_DONE EFalse
           else if list_all (is_unique_value (m_manager rw)) args then BR_DONE ETrue
           else if is_bool a then BR_DONE EFalse
           else if m_blast_distinct rw \<and> of_nat (length args) < m_blast_distinct_threshold rw
             then BR_REWRITE3 (EAnd (diseqs args))
           else BR_FAILED)"
        by (simp add: mk_distinct_core_def 3)
      show ?thesis
        using b v d node diseqs_fml[OF w] diseqs_holds[of args]
        unfolding mk_distinct_def core by (auto simp del: distinct.simps)
    qed
  qed
  then show "fml (mk_distinct rw args)"
    and "obeys (m_manager rw) I \<Longrightarrow> holds I (mk_distinct rw args) = distinct (map (eval I) args)" by auto
qed


section \<open>Dispatch\<close>

text \<open>What an application of a basic operator means, and which applications are well sorted.\<close>

fun op_eval :: "interp \<Rightarrow> basic_op_kind \<Rightarrow> expr list \<Rightarrow> val" where
  "op_eval I OP_TRUE args = VBool True"
| "op_eval I OP_FALSE args = VBool False"
| "op_eval I OP_EQ args = VBool (eval I (args ! 0) = eval I (args ! 1))"
| "op_eval I OP_IFF args = VBool (eval I (args ! 0) = eval I (args ! 1))"
| "op_eval I OP_DISTINCT args = VBool (distinct (map (eval I) args))"
| "op_eval I OP_ITE args =
     (if holds I (args ! 0) then eval I (args ! 1) else eval I (args ! 2))"
| "op_eval I OP_AND args = VBool (\<forall>x \<in> set args. holds I x)"
| "op_eval I OP_OR args = VBool (\<exists>x \<in> set args. holds I x)"
| "op_eval I OP_XOR args = VBool (odd (length (filter (holds I) args)))"
| "op_eval I OP_NOT args = VBool (\<not> holds I (args ! 0))"
| "op_eval I OP_IMPLIES args = VBool (holds I (args ! 0) \<longrightarrow> holds I (args ! 1))"

fun op_ok :: "basic_op_kind \<Rightarrow> expr list \<Rightarrow> bool" where
  "op_ok OP_EQ args = (length args = 2 \<and> ws (args ! 0) \<and> ws (args ! 1) \<and> get_sort (args ! 0) = get_sort (args ! 1))"
| "op_ok OP_IFF args = (length args = 2 \<and> fml (args ! 0) \<and> fml (args ! 1))"
| "op_ok OP_DISTINCT args = ws (EDistinct args)"
| "op_ok OP_ITE args = (length args = 3 \<and> ite_args (args ! 0) (args ! 1) (args ! 2))"
| "op_ok OP_NOT args = (length args = 1 \<and> fml (args ! 0))"
| "op_ok OP_IMPLIES args = (length args = 2 \<and> fml (args ! 0) \<and> fml (args ! 1))"
| "op_ok f args = (\<forall>x \<in> set args. fml x)"

lemma equates_core: "equates m (mk_eq rw a b) a b \<Longrightarrow> mk_eq_core rw a b \<noteq> BR_FAILED \<Longrightarrow>
    equates m (br_result (mk_eq_core rw a b) d) a b"
  by (cases "mk_eq_core rw a b") (auto simp: mk_eq_def)

lemma br_result_any: "st \<noteq> BR_FAILED \<Longrightarrow> br_result st d = br_result st d'"
  by (cases st) auto

lemma fml_result_eval: "fml r \<Longrightarrow> holds I r = b \<Longrightarrow> ws r \<and> eval I r = VBool b"
  by (simp add: eval_fml fml_ws)

text \<open>Each case of the dispatch, by the operator's core function. Only the operators that compare
  terms of any sort depend on the plugins.\<close>

definition admits :: "plugins \<Rightarrow> basic_op_kind \<Rightarrow> interp \<Rightarrow> bool" where
  "admits m f I \<longleftrightarrow> (f = OP_EQ \<longrightarrow> faithful m I) \<and> (f = OP_DISTINCT \<longrightarrow> obeys m I)"

definition app_ok :: "plugins \<Rightarrow> basic_op_kind \<Rightarrow> expr list \<Rightarrow> br_status \<Rightarrow> bool" where
  "app_ok m f args st \<longleftrightarrow>
     (st \<noteq> BR_FAILED \<longrightarrow> ws (br_result st ETrue)
        \<and> (\<forall>I. admits m f I \<longrightarrow> eval I (br_result st ETrue) = op_eval I f args))"

lemma app_okI:
  assumes "st \<noteq> BR_FAILED \<Longrightarrow> fml (br_result st d)"
    and "\<And>I. st \<noteq> BR_FAILED \<Longrightarrow> admits m f I \<Longrightarrow> VBool (holds I (br_result st d)) = op_eval I f args"
  shows "app_ok m f args st"
  using assms br_result_any[of st ETrue d] by (auto simp: app_ok_def eval_fml fml_ws)

lemma length_2E: "length xs = 2 \<Longrightarrow> (\<And>a b. xs = [a, b] \<Longrightarrow> P) \<Longrightarrow> P"
  by (auto simp: numeral_2_eq_2 length_Suc_conv)

lemma length_3E: "length xs = 3 \<Longrightarrow> (\<And>a b c. xs = [a, b, c] \<Longrightarrow> P) \<Longrightarrow> P"
  by (auto simp: numeral_3_eq_3 length_Suc_conv)

lemma app_eq:
  assumes "ws a" "ws b" "get_sort a = get_sort b"
  shows "app_ok (m_manager rw) OP_EQ [a, b] (mk_eq_core rw a b)"
    and "get_sort a = BoolSort \<Longrightarrow> app_ok (m_manager rw) OP_IFF [a, b] (mk_eq_core rw a b)"
  using equates_mk_eq[OF assms, of rw]
  by (auto intro!: app_okI[where d = "EEq a b"] simp: mk_eq_def equates_def admits_def)

lemma app_ite:
  assumes "ite_args c t e"
  shows "app_ok m OP_ITE [c, t, e] (fst (mk_ite_core rw c t e))"
proof -
  obtain st rw' where m: "mk_ite_core rw c t e = (st, rw')" by fastforce
  then show ?thesis
    using mk_ite_core_sound[OF assms m] br_result_any[of st ETrue "EIte c t e"]
    by (auto simp: app_ok_def ites_def)
qed

lemma app_or:
  assumes "\<forall>x \<in> set args. fml x"
  shows "app_ok m OP_OR args (fst (mk_or_core rw args))"
  using mk_or_core_sound[OF assms, of rw "fst (mk_or_core rw args)" "snd (mk_or_core rw args)"]
  by (intro app_okI[where d = "EOr args"]) (auto simp: ex_holds_def)

lemma app_and: "\<forall>x \<in> set args. fml x \<Longrightarrow> app_ok m OP_AND args (fst (mk_and_core rw args))"
  using mk_and_core_sound[of args] by (intro app_okI[where d = "EAnd args"]) auto

lemma app_distinct: "ws (EDistinct args) \<Longrightarrow> app_ok (m_manager rw) OP_DISTINCT args (mk_distinct_core rw args)"
  using mk_distinct_core_sound[of args]
  by (intro app_okI[where d = "EDistinct args"]) (auto simp: mk_distinct_def admits_def)

lemma app_not: "fml a \<Longrightarrow> app_ok m OP_NOT [a] (mk_not_core rw a)"
  using fml_mk_not[of a rw] holds_mk_not[of a _ rw]
  by (intro app_okI[where d = "ENot a"]) (auto simp: mk_not_def)

lemma mk_app_core_sound: "op_ok f args \<Longrightarrow> app_ok (m_manager rw) f args (fst (mk_app_core rw f args))"
proof (cases f)
  case OP_EQ
  assume "op_ok f args"
  then show ?thesis using OP_EQ app_eq(1) by (auto simp: mk_app_core_def elim!: length_2E)
next
  case OP_IFF
  assume "op_ok f args"
  then obtain a b where "args = [a, b]" "fml a" "fml b" using OP_IFF by (auto elim!: length_2E)
  then show ?thesis using OP_IFF app_eq(2)[of a b rw] by (auto simp: mk_app_core_def fml_ws fml_sort)
next
  case OP_ITE
  assume "op_ok f args"
  then show ?thesis using OP_ITE app_ite by (auto simp: mk_app_core_def elim!: length_3E)
next
  case OP_NOT
  assume "op_ok f args"
  then show ?thesis using OP_NOT app_not by (auto simp: mk_app_core_def length_Suc_conv)
next
  case OP_IMPLIES
  assume "op_ok f args"
  then show ?thesis using OP_IMPLIES
    by (auto simp: mk_app_core_def split_def Let_def elim!: length_2E intro!: app_okI[where d = ETrue])
next
  case OP_XOR
  assume "op_ok f args"
  then show ?thesis using OP_XOR
    by (auto simp: mk_app_core_def split: list.splits intro!: app_okI[where d = ETrue])
next
  case OP_DISTINCT
  assume "op_ok f args"
  then show ?thesis using OP_DISTINCT app_distinct by (simp add: mk_app_core_def)
next
  case OP_AND
  assume "op_ok f args"
  then show ?thesis using OP_AND app_and by (simp add: mk_app_core_def)
next
  case OP_OR
  assume "op_ok f args"
  then show ?thesis using OP_OR app_or by (simp add: mk_app_core_def)
qed (auto simp: mk_app_core_def app_ok_def)

text \<open>Without the assumption on values the equality rule is wrong: it compares the values of an
  if-then-else by identity, so that two values of the same element count as different.\<close>

lemma mk_eq_misses_equal_values:
  assumes "i \<noteq> j" "k \<noteq> j" "holds I c" "value_val I s i = value_val I s j"
  shows "mk_eq rw (EIte c (EValue s i) (EValue s k)) (EValue s j) = EFalse"
    and "eval I (EIte c (EValue s i) (EValue s k)) = eval I (EValue s j)"
  using assms
  by (simp_all add: mk_eq_def mk_eq_core.simps try_ite_value.simps are_equal_def are_distinct_def is_value_def is_basic_value_def)

section \<open>Without the local context rules the rewriter keeps its state\<close>

lemma snd_mk_or [simp]: "\<not> m_local_ctx rw \<Longrightarrow> snd (mk_or rw args) = rw"
  by (auto simp: mk_or_def mk_or_core_def mk_flat_or_core_def mk_nflat_or_core_def Let_def
      split: prod.splits option.splits list.splits if_splits)

lemma snd_mk_and [simp]: "\<not> m_local_ctx rw \<Longrightarrow> snd (mk_and rw args) = rw"
  using snd_mk_or[of rw "map (mk_not rw) args"]
  by (auto simp: mk_and_def mk_and_core_def mk_and_as_or_def Let_def simp del: snd_mk_or split: prod.splits)

lemma ite_rules_state:
  assumes "\<not> m_local_ctx rw"
  shows "ite_bool_rules rw c t e = Some (r, rw') \<Longrightarrow> rw' = rw"
    and "ite_extra_then rw c t e = Some (r, rw') \<Longrightarrow> rw' = rw"
    and "ite_extra_else rw c t e = Some (r, rw') \<Longrightarrow> rw' = rw"
proof -
  have or: "snd (mk_or rw args) = rw" and "and": "snd (mk_and rw args) = rw" for args
    using assms by simp_all
  show "ite_bool_rules rw c t e = Some (r, rw') \<Longrightarrow> rw' = rw"
    using or "and" by (auto simp: ite_bool_rules_def split: if_splits dest: arg_cong[of _ _ snd])
  show "ite_extra_then rw c t e = Some (r, rw') \<Longrightarrow> rw' = rw"
    using assms by (auto simp: ite_extra_then_def split_def Let_def split: expr.splits if_splits)
  show "ite_extra_else rw c t e = Some (r, rw') \<Longrightarrow> rw' = rw"
    using assms by (auto simp: ite_extra_else_def split_def Let_def split: expr.splits if_splits)
qed

lemma snd_mk_ite [simp]: "\<not> m_local_ctx rw \<Longrightarrow> snd (mk_ite rw c t e) = rw"
  using ite_rules_state[of rw]
  by (auto simp: mk_ite_def mk_ite_core_def split: prod.splits option.splits if_splits)

end
