(* ===== verification/Bit_Blaster_Cfg.thy ===== *)
theory Bit_Blaster_Cfg
  imports Bool_Rewriter_Ite
begin

text \<open>
  The bit-blaster (src/sources/Z3/src/ast/rewriter/bit_blaster) is a template over a class
  \<^verbatim>\<open>Cfg\<close> of gate constructors. This theory models that parameter as a record of functions, its two
  instances (\<^verbatim>\<open>bit_blaster_cfg\<close> of bit_blaster.cpp and \<^verbatim>\<open>blaster_cfg\<close> of
  bit_blaster_rewriter.cpp), and states what the template relies on as the locale
  \<open>gates\<close>, which both instances interpret.
\<close>

section \<open>The gate constructors a configuration provides\<close>

record cfg =
  c_xor :: "expr \<Rightarrow> expr \<Rightarrow> expr"
  c_xor3 :: "expr \<Rightarrow> expr \<Rightarrow> expr \<Rightarrow> expr"
  c_carry :: "expr \<Rightarrow> expr \<Rightarrow> expr \<Rightarrow> expr"
  c_iff :: "expr \<Rightarrow> expr \<Rightarrow> expr"
  c_and :: "expr list \<Rightarrow> expr"
  c_or :: "expr list \<Rightarrow> expr"
  c_not :: "expr \<Rightarrow> expr"
  c_ite :: "expr \<Rightarrow> expr \<Rightarrow> expr \<Rightarrow> expr"
  c_nand :: "expr \<Rightarrow> expr \<Rightarrow> expr"
  c_nor :: "expr \<Rightarrow> expr \<Rightarrow> expr"

text \<open>The template adds the choice of the multiplier.\<close>

record bit_blaster_tpl = cfg +
  m_use_wtm :: bool
  m_use_bcm :: bool

text \<open>Its constructor; \<^verbatim>\<open>m_max_memory\<close>, which only \<^verbatim>\<open>checkpoint()\<close> reads, is left out.\<close>

definition new_tpl :: "cfg \<Rightarrow> bool \<Rightarrow> bool \<Rightarrow> bit_blaster_tpl" where
  "new_tpl C use_wtm use_bcm = cfg.extend C \<lparr>m_use_wtm = use_wtm, m_use_bcm = use_bcm\<rparr>"

section \<open>The configuration of bit_blaster\<close>

record bit_blaster_params =
  m_bb_ext_gates :: bool

text \<open>\<^verbatim>\<open>sort_args\<close> orders three gate inputs by their AST ids (\<^verbatim>\<open>ast_lt_proc\<close>); the ids are the
  parameter \<open>ast_id\<close>, injective in the program because terms are hash-consed.\<close>

definition sort_args :: "(expr \<Rightarrow> nat) \<Rightarrow> expr \<Rightarrow> expr \<Rightarrow> expr \<Rightarrow> expr \<times> expr \<times> expr" where
  "sort_args ast_id l1 l2 l3 =
     (case sort_key ast_id [l1, l2, l3] of [a, b, c] \<Rightarrow> (a, b, c) | _ \<Rightarrow> (l1, l2, l3))"

definition mk_xor3_sorted :: "bit_blaster_params \<Rightarrow> bool_rewriter \<Rightarrow> expr \<Rightarrow> expr \<Rightarrow> expr \<Rightarrow> expr" where
  "mk_xor3_sorted p rw l1 l2 l3 =
     (if m_bb_ext_gates p then
        (if l1 = l2 then l3
         else if l1 = l3 then l2
         else if l2 = l3 then l1
         else if is_complement l1 l2 then mk_not rw l3
         else if is_complement l1 l3 then mk_not rw l2
         else if is_complement l2 l3 then mk_not rw l1
         else if l1 = ETrue then mk_iff rw l2 l3
         else if l1 = EFalse then mk_xor rw l2 l3
         else if l2 = ETrue then mk_iff rw l1 l3
         else if l2 = EFalse then mk_xor rw l1 l3
         else if l3 = ETrue then mk_iff rw l1 l2
         else if l3 = EFalse then mk_xor rw l1 l2
         else EXor3 l1 l2 l3)
      else
        let t = mk_xor rw l1 l2 in mk_xor rw t l3)"

definition mk_xor3 ::
  "(expr \<Rightarrow> nat) \<Rightarrow> bit_blaster_params \<Rightarrow> bool_rewriter \<Rightarrow> expr \<Rightarrow> expr \<Rightarrow> expr \<Rightarrow> expr" where
  "mk_xor3 ast_id p rw a b c =
     (let (l1, l2, l3) = sort_args ast_id a b c in mk_xor3_sorted p rw l1 l2 l3)"

text \<open>The rewriter of \<^verbatim>\<open>bit_blaster\<close> has the default parameters, so \<open>mk_and\<close> and \<open>mk_or\<close> leave it as
  it is (\<open>snd_mk_and\<close>, \<open>snd_mk_or\<close>) and only the term they return is used.\<close>

definition mk_carry_sorted :: "bit_blaster_params \<Rightarrow> bool_rewriter \<Rightarrow> expr \<Rightarrow> expr \<Rightarrow> expr \<Rightarrow> expr" where
  "mk_carry_sorted p rw l1 l2 l3 =
     (if m_bb_ext_gates p then
        (if (l1 = EFalse \<and> l2 = EFalse) \<or> (l1 = EFalse \<and> l3 = EFalse) \<or> (l2 = EFalse \<and> l3 = EFalse)
           then EFalse
         else if (l1 = ETrue \<and> l2 = ETrue) \<or> (l1 = ETrue \<and> l3 = ETrue) \<or> (l2 = ETrue \<and> l3 = ETrue)
           then ETrue
         else if l1 = l2 \<and> l1 = l3 then l1
         else if l1 = EFalse then fst (mk_and rw [l2, l3])
         else if l2 = EFalse then fst (mk_and rw [l1, l3])
         else if l3 = EFalse then fst (mk_and rw [l1, l2])
         else if l1 = ETrue then fst (mk_or rw [l2, l3])
         else if l2 = ETrue then fst (mk_or rw [l1, l3])
         else if l3 = ETrue then fst (mk_or rw [l1, l2])
         else if is_complement l1 l2 then l3
         else if is_complement l1 l3 then l2
         else if is_complement l2 l3 then l1
         else ECarry l1 l2 l3)
      else
        let t1 = fst (mk_and rw [l1, l2]);
            t2 = fst (mk_and rw [l1, l3]);
            t3 = fst (mk_and rw [l2, l3])
        in fst (mk_or rw [t1, t2, t3]))"

definition mk_carry ::
  "(expr \<Rightarrow> nat) \<Rightarrow> bit_blaster_params \<Rightarrow> bool_rewriter \<Rightarrow> expr \<Rightarrow> expr \<Rightarrow> expr \<Rightarrow> expr" where
  "mk_carry ast_id p rw a b c =
     (let (l1, l2, l3) = sort_args ast_id a b c in mk_carry_sorted p rw l1 l2 l3)"

definition bit_blaster_cfg :: "(expr \<Rightarrow> nat) \<Rightarrow> bit_blaster_params \<Rightarrow> bool_rewriter \<Rightarrow> cfg" where
  "bit_blaster_cfg ast_id p rw =
     \<lparr>c_xor = mk_xor rw, c_xor3 = mk_xor3 ast_id p rw, c_carry = mk_carry ast_id p rw,
      c_iff = mk_iff rw, c_and = (\<lambda>xs. fst (mk_and rw xs)), c_or = (\<lambda>xs. fst (mk_or rw xs)),
      c_not = mk_not rw, c_ite = (\<lambda>c t e. fst (mk_ite rw c t e)),
      c_nand = (\<lambda>a b. fst (mk_nand rw [a, b])), c_nor = (\<lambda>a b. fst (mk_nor rw [a, b]))\<rparr>"

text \<open>\<^verbatim>\<open>bit_blaster\<close>: the template over that configuration, with a default rewriter.\<close>

definition bit_blaster :: "(expr \<Rightarrow> nat) \<Rightarrow> bit_blaster_params \<Rightarrow> bit_blaster_tpl" where
  "bit_blaster ast_id p = new_tpl (bit_blaster_cfg ast_id p default_rewriter) False False"

section \<open>The configuration of the bit-blaster rewriter\<close>

definition blaster_xor3 :: "bool_rewriter \<Rightarrow> expr \<Rightarrow> expr \<Rightarrow> expr \<Rightarrow> expr" where
  "blaster_xor3 rw a b c = (let tmp = mk_xor rw b c in mk_xor rw a tmp)"

definition blaster_carry :: "bool_rewriter \<Rightarrow> expr \<Rightarrow> expr \<Rightarrow> expr \<Rightarrow> expr" where
  "blaster_carry rw a b c =
     (let t1 = fst (mk_and rw [a, b]);
          t2 = fst (mk_and rw [a, c]);
          t3 = fst (mk_and rw [b, c])
      in fst (mk_or rw [t1, t2, t3]))"

definition blaster_cfg :: "bool_rewriter \<Rightarrow> cfg" where
  "blaster_cfg rw =
     \<lparr>c_xor = mk_xor rw, c_xor3 = blaster_xor3 rw, c_carry = blaster_carry rw,
      c_iff = mk_iff rw, c_and = (\<lambda>xs. fst (mk_and rw xs)), c_or = (\<lambda>xs. fst (mk_or rw xs)),
      c_not = mk_not rw, c_ite = (\<lambda>c t e. fst (mk_ite rw c t e)),
      c_nand = (\<lambda>a b. fst (mk_nand rw [a, b])), c_nor = (\<lambda>a b. fst (mk_nor rw [a, b]))\<rparr>"

text \<open>\<^verbatim>\<open>blaster\<close> sets \<^verbatim>\<open>flat\<close> to false and \<^verbatim>\<open>elim_and\<close> to true.\<close>

definition blaster :: bit_blaster_tpl where
  "blaster =
     new_tpl (blaster_cfg (default_rewriter\<lparr>m_flat := False, m_elim_and := True\<rparr>)) False False"

section \<open>What the template relies on\<close>

locale gates =
  fixes C :: "'a cfg_scheme"
  assumes xor_ok: "fml a \<Longrightarrow> fml b \<Longrightarrow> fml (c_xor C a b) \<and> (\<forall>I. holds I (c_xor C a b) = (holds I a \<noteq> holds I b))"
    and xor3_ok: "fml a \<Longrightarrow> fml b \<Longrightarrow> fml c \<Longrightarrow> fml (c_xor3 C a b c)
      \<and> (\<forall>I. holds I (c_xor3 C a b c) = ((holds I a \<noteq> holds I b) \<noteq> holds I c))"
    and carry_ok: "fml a \<Longrightarrow> fml b \<Longrightarrow> fml c \<Longrightarrow> fml (c_carry C a b c)
      \<and> (\<forall>I. holds I (c_carry C a b c) =
            (holds I a \<and> holds I b \<or> holds I a \<and> holds I c \<or> holds I b \<and> holds I c))"
    and iff_ok: "fml a \<Longrightarrow> fml b \<Longrightarrow> fml (c_iff C a b) \<and> (\<forall>I. holds I (c_iff C a b) = (holds I a = holds I b))"
    and and_ok: "\<forall>x \<in> set xs. fml x \<Longrightarrow> fml (c_and C xs) \<and> (\<forall>I. holds I (c_and C xs) = (\<forall>x \<in> set xs. holds I x))"
    and or_ok: "\<forall>x \<in> set xs. fml x \<Longrightarrow> fml (c_or C xs) \<and> (\<forall>I. holds I (c_or C xs) = (\<exists>x \<in> set xs. holds I x))"
    and not_ok: "fml a \<Longrightarrow> fml (c_not C a) \<and> (\<forall>I. holds I (c_not C a) = (\<not> holds I a))"
    and ite_ok: "fml c \<Longrightarrow> fml t \<Longrightarrow> fml e \<Longrightarrow> fml (c_ite C c t e)
      \<and> (\<forall>I. holds I (c_ite C c t e) = (if holds I c then holds I t else holds I e))"
    and nand_ok: "fml a \<Longrightarrow> fml b \<Longrightarrow> fml (c_nand C a b) \<and> (\<forall>I. holds I (c_nand C a b) = (\<not> (holds I a \<and> holds I b)))"
    and nor_ok: "fml a \<Longrightarrow> fml b \<Longrightarrow> fml (c_nor C a b) \<and> (\<forall>I. holds I (c_nor C a b) = (\<not> (holds I a \<or> holds I b)))"
begin

lemma fml_gates [simp]:
  "fml a \<Longrightarrow> fml b \<Longrightarrow> fml (c_xor C a b)"
  "fml a \<Longrightarrow> fml b \<Longrightarrow> fml c \<Longrightarrow> fml (c_xor3 C a b c)"
  "fml a \<Longrightarrow> fml b \<Longrightarrow> fml c \<Longrightarrow> fml (c_carry C a b c)"
  "fml a \<Longrightarrow> fml b \<Longrightarrow> fml (c_iff C a b)"
  "\<forall>x \<in> set xs. fml x \<Longrightarrow> fml (c_and C xs)"
  "\<forall>x \<in> set xs. fml x \<Longrightarrow> fml (c_or C xs)"
  "fml a \<Longrightarrow> fml (c_not C a)"
  "fml a \<Longrightarrow> fml b \<Longrightarrow> fml c \<Longrightarrow> fml (c_ite C a b c)"
  "fml a \<Longrightarrow> fml b \<Longrightarrow> fml (c_nand C a b)"
  "fml a \<Longrightarrow> fml b \<Longrightarrow> fml (c_nor C a b)"
  by (simp_all add: xor_ok xor3_ok carry_ok iff_ok and_ok or_ok not_ok ite_ok nand_ok nor_ok)

lemma holds_gates [simp]:
  "fml a \<Longrightarrow> fml b \<Longrightarrow> holds I (c_xor C a b) = (holds I a \<noteq> holds I b)"
  "fml a \<Longrightarrow> fml b \<Longrightarrow> fml c \<Longrightarrow> holds I (c_xor3 C a b c) = ((holds I a \<noteq> holds I b) \<noteq> holds I c)"
  "fml a \<Longrightarrow> fml b \<Longrightarrow> fml c \<Longrightarrow> holds I (c_carry C a b c) =
     (holds I a \<and> holds I b \<or> holds I a \<and> holds I c \<or> holds I b \<and> holds I c)"
  "fml a \<Longrightarrow> fml b \<Longrightarrow> holds I (c_iff C a b) = (holds I a = holds I b)"
  "\<forall>x \<in> set xs. fml x \<Longrightarrow> holds I (c_and C xs) = (\<forall>x \<in> set xs. holds I x)"
  "\<forall>x \<in> set xs. fml x \<Longrightarrow> holds I (c_or C xs) = (\<exists>x \<in> set xs. holds I x)"
  "fml a \<Longrightarrow> holds I (c_not C a) = (\<not> holds I a)"
  "fml a \<Longrightarrow> fml b \<Longrightarrow> fml c \<Longrightarrow> holds I (c_ite C a b c) = (if holds I a then holds I b else holds I c)"
  "fml a \<Longrightarrow> fml b \<Longrightarrow> holds I (c_nand C a b) = (\<not> (holds I a \<and> holds I b))"
  "fml a \<Longrightarrow> fml b \<Longrightarrow> holds I (c_nor C a b) = (\<not> (holds I a \<or> holds I b))"
  by (simp_all add: xor_ok xor3_ok carry_ok iff_ok and_ok or_ok not_ok ite_ok nand_ok nor_ok)

end

section \<open>Both configurations provide the gates\<close>

lemma sort_args_perm:
  assumes "sort_args f a b c = (x, y, z)"
  shows "(x, y, z) \<in> {(a, b, c), (a, c, b), (b, a, c), (b, c, a), (c, a, b), (c, b, a)}"
  using assms by (auto simp: sort_args_def split: if_splits)

lemma mk_xor3_sorted_ok:
  assumes "fml a" "fml b" "fml c"
  shows "fml (mk_xor3_sorted p rw a b c)"
    and "holds I (mk_xor3_sorted p rw a b c) = ((holds I a \<noteq> holds I b) \<noteq> holds I c)"
  using assms complement_holds[of a b I] complement_holds[of a c I] complement_holds[of b c I]
  by (auto simp: mk_xor3_sorted_def Let_def)

lemma mk_carry_sorted_ok:
  assumes "fml a" "fml b" "fml c"
  shows "fml (mk_carry_sorted p rw a b c)"
    and "holds I (mk_carry_sorted p rw a b c) =
      (holds I a \<and> holds I b \<or> holds I a \<and> holds I c \<or> holds I b \<and> holds I c)"
  using assms complement_holds[of a b I] complement_holds[of a c I] complement_holds[of b c I]
  by (auto simp: mk_carry_sorted_def Let_def)

lemma mk_xor3_ok:
  assumes "fml a" "fml b" "fml c"
  shows "fml (mk_xor3 f p rw a b c)"
    and "holds I (mk_xor3 f p rw a b c) = ((holds I a \<noteq> holds I b) \<noteq> holds I c)"
proof -
  obtain x y z where s: "sort_args f a b c = (x, y, z)" by (metis prod_cases3)
  have "fml x" "fml y" "fml z" using sort_args_perm[OF s] assms by auto
  then show "fml (mk_xor3 f p rw a b c)"
    and "holds I (mk_xor3 f p rw a b c) = ((holds I a \<noteq> holds I b) \<noteq> holds I c)"
    using sort_args_perm[OF s] by (auto simp: mk_xor3_def s mk_xor3_sorted_ok)
qed

lemma mk_carry_ok:
  assumes "fml a" "fml b" "fml c"
  shows "fml (mk_carry f p rw a b c)"
    and "holds I (mk_carry f p rw a b c) =
      (holds I a \<and> holds I b \<or> holds I a \<and> holds I c \<or> holds I b \<and> holds I c)"
proof -
  obtain x y z where s: "sort_args f a b c = (x, y, z)" by (metis prod_cases3)
  have "fml x" "fml y" "fml z" using sort_args_perm[OF s] assms by auto
  then show "fml (mk_carry f p rw a b c)"
    and "holds I (mk_carry f p rw a b c) =
      (holds I a \<and> holds I b \<or> holds I a \<and> holds I c \<or> holds I b \<and> holds I c)"
    using sort_args_perm[OF s] by (auto simp: mk_carry_def s mk_carry_sorted_ok)
qed

interpretation bb: gates "bit_blaster_cfg ast_id p rw"
  by unfold_locales (auto simp: bit_blaster_cfg_def mk_xor3_ok mk_carry_ok)

interpretation blaster_rw: gates "blaster_cfg rw"
  by unfold_locales (auto simp: blaster_cfg_def blaster_xor3_def blaster_carry_def Let_def)

text \<open>The laws do not depend on the fields the template adds.\<close>

lemma gates_new_tpl: "gates C \<Longrightarrow> gates (new_tpl C w b)"
  by (simp add: gates_def cfg.defs new_tpl_def)

interpretation bb_tpl: gates "new_tpl (bit_blaster_cfg ast_id p rw) w b"
  by (intro gates_new_tpl bb.gates_axioms)

interpretation blaster_tpl: gates "new_tpl (blaster_cfg rw) w b"
  by (intro gates_new_tpl blaster_rw.gates_axioms)

text \<open>The two bit-blasters of the program, with any parameters of their rewriters: the one of the
  bit-vector theory solver (\<^verbatim>\<open>bit_blaster\<close>) and the one of the rewriter
  (\<^verbatim>\<open>blaster\<close>).\<close>

inductive blaster_instance :: "bit_blaster_tpl \<Rightarrow> bool" where
  bit_blaster: "blaster_instance (new_tpl (bit_blaster_cfg ast_id p rw) w b)"
| blaster: "blaster_instance (new_tpl (blaster_cfg rw) w b)"

lemma blaster_instances [simp, intro]: "blaster_instance blaster" "blaster_instance (bit_blaster ast_id p)"
  by (simp_all add: blaster_def bit_blaster_def blaster_instance.intros)

end
