(* ===== verification/Bit_Blaster_Arith.thy ===== *)
theory Bit_Blaster_Arith
  imports Bit_Blaster_Cfg
begin

text \<open>
  The template bit_blaster_tpl_def.h, first part: numerals, adders, negation, subtraction,
  multiplexers, comparisons, the bitwise operations, extensions and rotations. A bit-vector is
  a list of formulas, least significant bit first; \<^verbatim>\<open>sz\<close> is its length. A circuit is correct when the
  number its output bits denote in an interpretation is the operation's result on the numbers
  its input bits denote.
\<close>

section \<open>Bit-vectors of formulas\<close>

abbreviation fmls :: "expr list \<Rightarrow> bool" where
  "fmls xs \<equiv> \<forall>x \<in> set xs. fml x"

abbreviation uval :: "interp \<Rightarrow> expr list \<Rightarrow> nat" where
  "uval I xs \<equiv> bv (map (holds I) xs)"

abbreviation sval :: "interp \<Rightarrow> expr list \<Rightarrow> int" where
  "sval I xs \<equiv> sbv (map (holds I) xs)"

lemma uval_less [simp]: "uval I xs < 2 ^ length xs"
  using bv_less[of "map (holds I) xs"] by (simp del: bv_less)

section \<open>Numerals\<close>

definition is_bool_const :: "expr \<Rightarrow> bool" where
  "is_bool_const e \<longleftrightarrow> e = ETrue \<or> e = EFalse"

definition is_numeral :: "expr list \<Rightarrow> bool" where
  "is_numeral bits = list_all is_bool_const bits"

text \<open>The overload that also stores the number: \<open>None\<close> is its result false.\<close>

fun to_numeral :: "nat \<Rightarrow> nat \<Rightarrow> expr list \<Rightarrow> nat option" where
  "to_numeral i r [] = Some r"
| "to_numeral i r (b # bits) =
     (if b = ETrue then to_numeral (Suc i) (r + 2 ^ i) bits
      else if b \<noteq> EFalse then None
      else to_numeral (Suc i) r bits)"

definition numeral_of :: "expr list \<Rightarrow> nat option" where
  "numeral_of bits = to_numeral 0 0 bits"

definition is_minus_one :: "expr list \<Rightarrow> bool" where
  "is_minus_one bits = list_all (\<lambda>b. b = ETrue) bits"

fun num2bits :: "nat \<Rightarrow> nat \<Rightarrow> expr list" where
  "num2bits v 0 = []"
| "num2bits v (Suc n) = (if v mod 2 = 0 then EFalse else ETrue) # num2bits (v div 2) n"

lemma to_numeral_sound: "to_numeral i r bits = Some v \<Longrightarrow> v = r + 2 ^ i * uval I bits"
  by (induction i r bits rule: to_numeral.induct) (auto split: if_splits)

lemma numeral_of_sound: "numeral_of bits = Some v \<Longrightarrow> uval I bits = v"
  using to_numeral_sound[of 0 0 bits v I] by (simp add: numeral_of_def)

lemma to_numeral_const: "(\<exists>v. to_numeral i r bits = Some v) \<longleftrightarrow> is_numeral bits"
  by (induction i r bits rule: to_numeral.induct) (auto simp: is_numeral_def is_bool_const_def)

lemma numeral_of_const: "(\<exists>v. numeral_of bits = Some v) \<longleftrightarrow> is_numeral bits"
  by (simp add: numeral_of_def to_numeral_const)

lemma is_minus_one_uval: "is_minus_one bits \<Longrightarrow> uval I bits + 1 = 2 ^ length bits"
  by (induction bits) (auto simp: is_minus_one_def)

lemma fml_num2bits [simp]: "fmls (num2bits v n)"
  by (induction v n rule: num2bits.induct) auto

lemma length_num2bits [simp]: "length (num2bits v n) = n"
  by (induction v n rule: num2bits.induct) auto

lemma uval_num2bits [simp]: "uval I (num2bits v n) = v mod 2 ^ n"
proof (induction v n rule: num2bits.induct)
  case (2 v n)
  have "v mod (2 * 2 ^ n) = 2 * (v div 2 mod 2 ^ n) + v mod 2"
    by (simp add: mod_mult2_eq)
  with 2 show ?case by (auto simp: mod_2_eq_odd)
qed simp

text \<open>Reading back the bits of a number.\<close>

lemma numeral_of_num2bits: "v < 2 ^ n \<Longrightarrow> numeral_of (num2bits v n) = Some v"
proof -
  assume v: "v < 2 ^ n"
  have "is_numeral (num2bits v n)"
    by (induction v n rule: num2bits.induct) (auto simp: is_numeral_def is_bool_const_def)
  then obtain w where w: "numeral_of (num2bits v n) = Some w" using numeral_of_const by blast
  have "w = v mod 2 ^ n" using numeral_of_sound[OF w, of I for I] by simp
  with v w show ?thesis by simp
qed

section \<open>Adders\<close>

definition mk_half_adder :: "'a cfg_scheme \<Rightarrow> expr \<Rightarrow> expr \<Rightarrow> expr \<times> expr" where
  "mk_half_adder C a b = (c_xor C a b, c_and C [a, b])"

definition mk_full_adder :: "'a cfg_scheme \<Rightarrow> expr \<Rightarrow> expr \<Rightarrow> expr \<Rightarrow> expr \<times> expr" where
  "mk_full_adder C a b cin = (c_xor3 C a b cin, c_carry C a b cin)"

text \<open>The loops carry \<^verbatim>\<open>cin\<close>; the last bit needs no carry out.\<close>

fun mk_neg_loop :: "'a cfg_scheme \<Rightarrow> expr \<Rightarrow> expr list \<Rightarrow> expr list" where
  "mk_neg_loop C cin [] = []"
| "mk_neg_loop C cin [a] = [c_xor C (c_not C a) cin]"
| "mk_neg_loop C cin (a # as) =
     (let (out, cout) = mk_half_adder C (c_not C a) cin in out # mk_neg_loop C cout as)"

definition mk_neg :: "'a cfg_scheme \<Rightarrow> expr list \<Rightarrow> expr list" where
  "mk_neg C a_bits = mk_neg_loop C ETrue a_bits"

fun mk_adder_loop :: "'a cfg_scheme \<Rightarrow> expr \<Rightarrow> expr list \<Rightarrow> expr list \<Rightarrow> expr list" where
  "mk_adder_loop C cin [a] (b # bs) = [c_xor3 C a b cin]"
| "mk_adder_loop C cin (a # as) (b # bs) =
     (let (out, cout) = mk_full_adder C a b cin in out # mk_adder_loop C cout as bs)"
| "mk_adder_loop C cin _ _ = []"

definition mk_adder :: "'a cfg_scheme \<Rightarrow> expr list \<Rightarrow> expr list \<Rightarrow> expr list" where
  "mk_adder C a_bits b_bits = mk_adder_loop C EFalse a_bits b_bits"

fun mk_subtracter_loop ::
  "'a cfg_scheme \<Rightarrow> expr \<Rightarrow> expr list \<Rightarrow> expr list \<Rightarrow> expr list \<times> expr" where
  "mk_subtracter_loop C cin (a # as) (b # bs) =
     (let (out, cout) = mk_full_adder C a (c_not C b) cin;
          (outs, c) = mk_subtracter_loop C cout as bs
      in (out # outs, c))"
| "mk_subtracter_loop C cin _ _ = ([], cin)"

definition mk_subtracter :: "'a cfg_scheme \<Rightarrow> expr list \<Rightarrow> expr list \<Rightarrow> expr list \<times> expr" where
  "mk_subtracter C a_bits b_bits = mk_subtracter_loop C ETrue a_bits b_bits"

definition mk_multiplexer ::
  "'a cfg_scheme \<Rightarrow> expr \<Rightarrow> expr list \<Rightarrow> expr list \<Rightarrow> expr list" where
  "mk_multiplexer C c t_bits e_bits = map2 (c_ite C c) t_bits e_bits"

definition mk_abs :: "'a cfg_scheme \<Rightarrow> expr list \<Rightarrow> expr list" where
  "mk_abs C a_bits =
     (let a_msb = last a_bits
      in if a_msb = EFalse then a_bits
         else if a_msb = ETrue then mk_neg C a_bits
         else mk_multiplexer C a_msb (mk_neg C a_bits) a_bits)"

lemma length_mk_neg_loop [simp]: "length (mk_neg_loop C cin as) = length as"
  by (induction C cin as rule: mk_neg_loop.induct) (auto simp: mk_half_adder_def)

lemma length_mk_neg [simp]: "length (mk_neg C as) = length as"
  by (simp add: mk_neg_def)

lemma length_mk_adder_loop: "length as \<le> length bs \<Longrightarrow> length (mk_adder_loop C cin as bs) = length as"
  by (induction C cin as bs rule: mk_adder_loop.induct) (auto simp: mk_full_adder_def)

lemma length_mk_adder [simp]: "length as \<le> length bs \<Longrightarrow> length (mk_adder C as bs) = length as"
  by (simp add: mk_adder_def length_mk_adder_loop)

lemma length_mk_subtracter_loop:
  "length as = length bs \<Longrightarrow> length (fst (mk_subtracter_loop C cin as bs)) = length as"
  by (induction C cin as bs rule: mk_subtracter_loop.induct)
    (auto simp: mk_full_adder_def split_def Let_def)

lemma length_mk_subtracter [simp]:
  "length as = length bs \<Longrightarrow> length (fst (mk_subtracter C as bs)) = length as"
  by (simp add: mk_subtracter_def length_mk_subtracter_loop)

lemma length_mk_multiplexer [simp]:
  "length (mk_multiplexer C c ts es) = min (length ts) (length es)"
  by (simp add: mk_multiplexer_def)

lemma length_mk_abs [simp]: "length (mk_abs C as) = length as"
  by (simp add: mk_abs_def Let_def)

text \<open>Arithmetic of one full adder.\<close>

lemma full_adder_value:
  "of_bool ((a \<noteq> b) \<noteq> c) + 2 * of_bool (a \<and> b \<or> a \<and> c \<or> b \<and> c)
     = (of_bool a + of_bool b + of_bool c :: nat)"
  by (cases a; cases b; cases c) auto

lemma half_adder_value:
  "of_bool (a \<noteq> b) + 2 * of_bool (a \<and> b) = (of_bool a + of_bool b :: nat)"
  by (cases a; cases b) auto

text \<open>The number of a bit list and its signed reading.\<close>

lemma sbv_snoc: "sbv (xs @ [b]) = int (bv xs) - of_bool b * 2 ^ length xs"
  by (simp add: sbv_def)

lemma sbv_mod: "sbv xs mod 2 ^ length xs = int (bv xs)"
proof -
  have "int (bv xs) < 2 ^ length xs" using bv_less[of xs] by (metis of_nat_less_iff of_nat_numeral of_nat_power)
  then show ?thesis by (simp add: sbv_def)
qed

lemma sval_mod: "sval I xs mod 2 ^ length xs = int (uval I xs)"
  using sbv_mod[of "map (holds I) xs"] by simp

text \<open>Numbers modulo a power of two: the step of a ripple-carry loop.\<close>

lemma ripple_step:
  assumes "of_bool s + 2 * of_bool c = (k :: nat)"
  shows "of_bool s + 2 * ((m + of_bool c) mod 2 ^ n) = (k + 2 * m) mod 2 ^ Suc n"
proof -
  have "k + 2 * m = of_bool s + 2 * (m + of_bool c)" using assms by (simp add: algebra_simps)
  then show ?thesis by (simp only: power_Suc bit_mod)
qed

context gates
begin

lemma mk_neg_loop_correct:
  "fmls as \<Longrightarrow> fml cin \<Longrightarrow> fmls (mk_neg_loop C cin as)
     \<and> uval I (mk_neg_loop C cin as) = (bv (map Not (map (holds I) as)) + of_bool (holds I cin)) mod 2 ^ length as"
proof (induction as arbitrary: cin rule: induct_list012)
  case (2 a)
  then show ?case by (cases "holds I a"; cases "holds I cin") auto
next
  case (3 a b as)
  let ?c = "c_and C [c_not C a, cin]"
  have c: "fml ?c" "holds I ?c = ((\<not> holds I a) \<and> holds I cin)" using "3.prems" by auto
  note IH = "3.IH"(2)[of ?c]
  have loop: "mk_neg_loop C cin (a # b # as) = c_xor C (c_not C a) cin # mk_neg_loop C ?c (b # as)"
    by (simp add: mk_half_adder_def)
  have f: "fml a" "fml cin" "fmls (b # as)" using "3.prems" by auto
  let ?m = "bv (map Not (map (holds I) (b # as)))"
  have "uval I (mk_neg_loop C ?c (b # as)) = (?m + of_bool (holds I ?c)) mod 2 ^ length (b # as)"
    and ok: "fmls (mk_neg_loop C ?c (b # as))" using IH f c(1) by blast+
  then have "uval I (mk_neg_loop C cin (a # b # as)) = of_bool ((\<not> holds I a) \<noteq> holds I cin)
      + 2 * ((?m + of_bool ((\<not> holds I a) \<and> holds I cin)) mod 2 ^ length (b # as))"
    unfolding loop using f c by simp
  also have "\<dots> = (of_bool (\<not> holds I a) + of_bool (holds I cin) + 2 * ?m) mod 2 ^ Suc (length (b # as))"
    by (rule ripple_step[OF half_adder_value])
  also have "of_bool (\<not> holds I a) + of_bool (holds I cin) + 2 * ?m
      = bv (map Not (map (holds I) (a # b # as))) + of_bool (holds I cin)" by simp
  finally show ?case using ok f unfolding loop by simp
qed auto

lemma mk_neg_correct:
  assumes "fmls as"
  shows "fmls (mk_neg C as)" and "uval I (mk_neg C as) = (2 ^ length as - uval I as) mod 2 ^ length as"
proof -
  have "2 ^ length as - uval I as = bv (map Not (map (holds I) as)) + 1"
    using bv_map_Not[of "map (holds I) as"] by (simp del: map_map)
  then show "fmls (mk_neg C as)" "uval I (mk_neg C as) = (2 ^ length as - uval I as) mod 2 ^ length as"
    using mk_neg_loop_correct[OF assms, of ETrue I] by (simp_all add: mk_neg_def del: map_map)
qed

lemma mk_adder_loop_correct:
  "fmls as \<Longrightarrow> fmls bs \<Longrightarrow> fml cin \<Longrightarrow> length as \<le> length bs \<Longrightarrow> fmls (mk_adder_loop C cin as bs)
     \<and> uval I (mk_adder_loop C cin as bs) = (uval I as + uval I bs + of_bool (holds I cin)) mod 2 ^ length as"
proof (induction as arbitrary: bs cin)
  case (Cons a as)
  obtain b bs' where bs: "bs = b # bs'" using Cons.prems(4) by (cases bs) auto
  have fa: "of_bool ((holds I a \<noteq> holds I b) \<noteq> holds I cin)
        + 2 * of_bool (holds I a \<and> holds I b \<or> holds I a \<and> holds I cin \<or> holds I b \<and> holds I cin)
      = (of_bool (holds I a) + of_bool (holds I b) + of_bool (holds I cin) :: nat)"
    by (rule full_adder_value)
  let ?c = "c_carry C a b cin"
  have IH: "fmls (mk_adder_loop C ?c as bs')"
    "uval I (mk_adder_loop C ?c as bs') = (uval I as + uval I bs' + of_bool (holds I ?c)) mod 2 ^ length as"
    using Cons.IH[of bs' ?c] Cons.prems bs by auto
  show ?case
  proof (cases as)
    case Nil
    then show ?thesis using Cons.prems bs by (cases "holds I a"; cases "holds I b"; cases "holds I cin") auto
  next
    case (Cons a' as')
    then have "mk_adder_loop C cin (a # as) bs = c_xor3 C a b cin # mk_adder_loop C ?c as bs'"
      by (simp add: bs mk_full_adder_def)
    then show ?thesis
      using IH Cons.prems bs ripple_step[OF fa, of "uval I as + uval I bs'" "length as"]
      by (simp add: algebra_simps)
  qed
qed simp

lemma mk_adder_correct:
  assumes "fmls as" "fmls bs" "length as \<le> length bs"
  shows "fmls (mk_adder C as bs)" and "uval I (mk_adder C as bs) = (uval I as + uval I bs) mod 2 ^ length as"
  using mk_adder_loop_correct[OF assms(1,2) _ assms(3), of EFalse I] by (auto simp: mk_adder_def)

lemma mk_subtracter_loop_correct:
  "fmls as \<Longrightarrow> fmls bs \<Longrightarrow> fml cin \<Longrightarrow> length as = length bs \<Longrightarrow>
     mk_subtracter_loop C cin as bs = (outs, cout) \<Longrightarrow>
     fmls outs \<and> fml cout
     \<and> uval I outs + 2 ^ length as * of_bool (holds I cout) + uval I bs + 1
        = uval I as + 2 ^ length as + of_bool (holds I cin)"
proof (induction as arbitrary: bs cin outs cout)
  case (Cons a as)
  obtain b bs' where bs: "bs = b # bs'" using Cons.prems(4) by (cases bs) auto
  let ?c = "c_carry C a (c_not C b) cin"
  obtain outs' where o: "mk_subtracter_loop C ?c as bs' = (outs', cout)" "outs = c_xor3 C a (c_not C b) cin # outs'"
    using Cons.prems(5) by (auto simp: bs mk_full_adder_def Let_def split: prod.splits)
  have IH: "fmls outs' \<and> fml cout
     \<and> uval I outs' + 2 ^ length as * of_bool (holds I cout) + uval I bs' + 1
        = uval I as + 2 ^ length as + of_bool (holds I ?c)"
    using Cons.IH[OF _ _ _ _ o(1)] Cons.prems bs by auto
  have fa: "of_bool ((holds I a \<noteq> (\<not> holds I b)) \<noteq> holds I cin)
        + 2 * of_bool (holds I a \<and> \<not> holds I b \<or> holds I a \<and> holds I cin \<or> \<not> holds I b \<and> holds I cin)
      = (of_bool (holds I a) + of_bool (\<not> holds I b) + of_bool (holds I cin) :: nat)"
    by (rule full_adder_value)
  have f: "fml a" "fml b" "fml cin" using Cons.prems bs by auto
  have n: "of_bool (\<not> holds I b) + of_bool (holds I b) = (1::nat)" by simp
  have "uval I outs = of_bool ((holds I a \<noteq> (\<not> holds I b)) \<noteq> holds I cin) + 2 * uval I outs'"
    using f o(2) by simp
  moreover have "holds I ?c = (holds I a \<and> \<not> holds I b \<or> holds I a \<and> holds I cin \<or> \<not> holds I b \<and> holds I cin)"
    using f by simp
  ultimately have "uval I outs + 2 ^ length (a # as) * of_bool (holds I cout) + uval I bs + 1
      = uval I (a # as) + 2 ^ length (a # as) + of_bool (holds I cin)"
    using IH fa n unfolding bs by (simp add: algebra_simps)
  then show ?case using IH f o(2) by simp
qed simp

lemma mk_subtracter_correct:
  assumes "fmls as" "fmls bs" "length as = length bs"
  shows "fmls (fst (mk_subtracter C as bs))" "fml (snd (mk_subtracter C as bs))"
    and "holds I (snd (mk_subtracter C as bs)) \<longleftrightarrow> uval I bs \<le> uval I as"
    and "uval I (fst (mk_subtracter C as bs)) =
      (if uval I bs \<le> uval I as then uval I as - uval I bs else uval I as + 2 ^ length as - uval I bs)"
proof -
  obtain outs cout where s: "mk_subtracter C as bs = (outs, cout)" by fastforce
  have ok: "fmls outs" "fml cout"
    and v: "uval I outs + 2 ^ length as * of_bool (holds I cout) + uval I bs = uval I as + 2 ^ length as"
    using mk_subtracter_loop_correct[OF assms(1,2) _ assms(3), of ETrue outs cout I] s
    by (auto simp: mk_subtracter_def)
  show "fmls (fst (mk_subtracter C as bs))" "fml (snd (mk_subtracter C as bs))" using ok s by auto
  have len: "length outs = length as" using length_mk_subtracter[OF assms(3), of C] s by simp
  have b: "uval I outs < 2 ^ length as" "uval I bs < 2 ^ length as"
    using uval_less[of I outs] uval_less[of I bs] len assms(3) by auto
  show "holds I (snd (mk_subtracter C as bs)) \<longleftrightarrow> uval I bs \<le> uval I as"
    using v b s by (cases "holds I cout") auto
  then show "uval I (fst (mk_subtracter C as bs)) =
      (if uval I bs \<le> uval I as then uval I as - uval I bs else uval I as + 2 ^ length as - uval I bs)"
    using v b s by (cases "holds I cout") auto
qed

lemma mk_multiplexer_bits:
  assumes "fml c" "fmls ts" "fmls es" "length ts = length es"
  shows "fmls (mk_multiplexer C c ts es)"
    and "map (holds I) (mk_multiplexer C c ts es) = map (holds I) (if holds I c then ts else es)"
  using assms(4,2,3) assms(1)
  by (induction ts es rule: list_induct2) (auto simp: mk_multiplexer_def)

lemma mk_multiplexer_uval:
  assumes "fml c" "fmls ts" "fmls es" "length ts = length es"
  shows "uval I (mk_multiplexer C c ts es) = (if holds I c then uval I ts else uval I es)"
  using mk_multiplexer_bits(2)[OF assms, of I] by simp

lemma mk_abs_correct:
  assumes "fmls as" "as \<noteq> []"
  shows "fmls (mk_abs C as)" and "int (uval I (mk_abs C as)) = \<bar>sval I as\<bar>"
proof -
  have m: "fml (last as)" using assms by simp
  note neg = mk_neg_correct[OF assms(1)]
  have mux: "fmls (mk_multiplexer C (last as) (mk_neg C as) as)"
    "uval I (mk_multiplexer C (last as) (mk_neg C as) as) = (if holds I (last as) then uval I (mk_neg C as) else uval I as)"
    using mk_multiplexer_bits(1)[OF m neg(1) assms(1)] mk_multiplexer_uval[OF m neg(1) assms(1)] by auto
  show "fmls (mk_abs C as)" using assms neg(1) mux(1) by (auto simp: mk_abs_def Let_def)
  have v: "uval I (mk_abs C as) = (if holds I (last as) then uval I (mk_neg C as) else uval I as)"
    using mux(2) by (auto simp: mk_abs_def Let_def)
  show "int (uval I (mk_abs C as)) = \<bar>sval I as\<bar>"
  proof (cases "holds I (last as)")
    case True
    have b: "2 ^ (length as - 1) \<le> uval I as" "uval I as < 2 ^ length as"
      using True assms(2) bv_last[of "map (holds I) as"] by (auto simp: last_map)
    have "(0::nat) < 2 ^ (length as - 1)" by simp
    then have "0 < uval I as" using b(1) by linarith
    then have "uval I (mk_abs C as) = 2 ^ length as - uval I as" using v True neg(2) by simp
    moreover have "sval I as = int (uval I as) - 2 ^ length as"
      using True assms(2) by (simp add: sbv_def last_map)
    moreover have "int (2 ^ length as - uval I as) = 2 ^ length as - int (uval I as)"
      using b(2) by (subst of_nat_diff) (simp_all only: less_imp_le of_nat_power of_nat_numeral)
    ultimately show ?thesis by linarith
  next
    case False
    then have "sval I as = int (uval I as)" using assms(2) by (simp add: sbv_def last_map)
    then show ?thesis using v False by simp
  qed
qed

end

section \<open>Bitwise operations\<close>

definition mk_not_bits :: "'a cfg_scheme \<Rightarrow> expr list \<Rightarrow> expr list" where
  "mk_not_bits C a_bits = map (c_not C) a_bits"

text \<open>The macro \<^verbatim>\<open>MK_BINARY\<close> and its instances.\<close>

definition mk_binary :: "(expr \<Rightarrow> expr \<Rightarrow> expr) \<Rightarrow> expr list \<Rightarrow> expr list \<Rightarrow> expr list" where
  "mk_binary f a_bits b_bits = map2 f a_bits b_bits"

definition mk_and_bits :: "'a cfg_scheme \<Rightarrow> expr list \<Rightarrow> expr list \<Rightarrow> expr list" where
  "mk_and_bits C = mk_binary (\<lambda>a b. c_and C [a, b])"

definition mk_or_bits :: "'a cfg_scheme \<Rightarrow> expr list \<Rightarrow> expr list \<Rightarrow> expr list" where
  "mk_or_bits C = mk_binary (\<lambda>a b. c_or C [a, b])"

definition mk_xor_bits :: "'a cfg_scheme \<Rightarrow> expr list \<Rightarrow> expr list \<Rightarrow> expr list" where
  "mk_xor_bits C = mk_binary (c_xor C)"

definition mk_xnor_bits :: "'a cfg_scheme \<Rightarrow> expr list \<Rightarrow> expr list \<Rightarrow> expr list" where
  "mk_xnor_bits C = mk_binary (c_iff C)"

definition mk_nand_bits :: "'a cfg_scheme \<Rightarrow> expr list \<Rightarrow> expr list \<Rightarrow> expr list" where
  "mk_nand_bits C = mk_binary (c_nand C)"

definition mk_nor_bits :: "'a cfg_scheme \<Rightarrow> expr list \<Rightarrow> expr list \<Rightarrow> expr list" where
  "mk_nor_bits C = mk_binary (c_nor C)"

definition mk_redand :: "'a cfg_scheme \<Rightarrow> expr list \<Rightarrow> expr list" where
  "mk_redand C a_bits = [c_and C a_bits]"

definition mk_redor :: "'a cfg_scheme \<Rightarrow> expr list \<Rightarrow> expr list" where
  "mk_redor C a_bits = [c_or C a_bits]"

section \<open>Comparisons\<close>

definition mk_eq_bits :: "'a cfg_scheme \<Rightarrow> expr list \<Rightarrow> expr list \<Rightarrow> expr" where
  "mk_eq_bits C a_bits b_bits = c_and C (map2 (c_iff C) a_bits b_bits)"

definition mk_comp :: "'a cfg_scheme \<Rightarrow> expr list \<Rightarrow> expr list \<Rightarrow> expr list" where
  "mk_comp C a_bits b_bits = [mk_eq_bits C a_bits b_bits]"

fun mk_is_eq_bits :: "'a cfg_scheme \<Rightarrow> expr list \<Rightarrow> nat \<Rightarrow> expr list" where
  "mk_is_eq_bits C [] n = []"
| "mk_is_eq_bits C (a # as) n = (if n mod 2 = 0 then c_not C a else a) # mk_is_eq_bits C as (n div 2)"

definition mk_is_eq :: "'a cfg_scheme \<Rightarrow> expr list \<Rightarrow> nat \<Rightarrow> expr" where
  "mk_is_eq C a_bits n = c_and C (mk_is_eq_bits C a_bits n)"

definition mk_eqs :: "'a cfg_scheme \<Rightarrow> expr list \<Rightarrow> expr list" where
  "mk_eqs C a_bits = map (mk_is_eq C a_bits) [0..<length a_bits]"

text \<open>One step of the loop of \<^verbatim>\<open>mk_le\<close>: \<open>p\<close> is \<^verbatim>\<open>not_a\<close> and \<open>q\<close> the bit of b, or the other way round
  for the sign.\<close>

definition le_step :: "'a cfg_scheme \<Rightarrow> expr \<Rightarrow> expr \<Rightarrow> expr \<Rightarrow> expr" where
  "le_step C p q out =
     (let i1 = c_and C [p, q]; i2 = c_and C [p, out]; i3 = c_and C [q, out]
      in c_or C [i1, i2, i3])"

fun le_loop :: "'a cfg_scheme \<Rightarrow> expr \<Rightarrow> expr list \<Rightarrow> expr list \<Rightarrow> expr" where
  "le_loop C out (a # as) (b # bs) = le_loop C (le_step C (c_not C a) b out) as bs"
| "le_loop C out _ _ = out"

definition mk_ule :: "'a cfg_scheme \<Rightarrow> expr list \<Rightarrow> expr list \<Rightarrow> expr" where
  "mk_ule C a_bits b_bits =
     le_loop C (c_or C [c_not C (hd a_bits), hd b_bits]) (tl a_bits) (tl b_bits)"

text \<open>The signed comparison runs the loop up to the bit before the sign (\<^verbatim>\<open>sz - 1\<close>).\<close>

definition mk_sle :: "'a cfg_scheme \<Rightarrow> expr list \<Rightarrow> expr list \<Rightarrow> expr" where
  "mk_sle C a_bits b_bits =
     (let out = le_loop C (c_or C [c_not C (hd a_bits), hd b_bits])
                  (butlast (tl a_bits)) (butlast (tl b_bits))
      in le_step C (c_not C (last b_bits)) (last a_bits) out)"

section \<open>Extensions and rotations\<close>

definition mk_sign_extend :: "expr list \<Rightarrow> nat \<Rightarrow> expr list" where
  "mk_sign_extend a_bits n = a_bits @ replicate n (last a_bits)"

text \<open>\<^verbatim>\<open>mk_zero_extend\<close> is also called on a prefix of its argument, so the size is explicit.\<close>

definition mk_zero_extend :: "nat \<Rightarrow> expr list \<Rightarrow> nat \<Rightarrow> expr list" where
  "mk_zero_extend sz a_bits n = take sz a_bits @ replicate n EFalse"

definition mk_rotate_left :: "expr list \<Rightarrow> nat \<Rightarrow> expr list" where
  "mk_rotate_left a_bits n0 =
     (let sz = length a_bits; n = n0 mod sz
      in map ((!) a_bits) [sz - n..<sz] @ map ((!) a_bits) [0..<sz - n])"

definition mk_rotate_right :: "expr list \<Rightarrow> nat \<Rightarrow> expr list" where
  "mk_rotate_right a_bits n0 =
     (let sz = length a_bits; n = n0 mod sz in mk_rotate_left a_bits (sz - n))"

text \<open>What they denote.\<close>

lemma le_bits:
  assumes "m < 2 ^ i" "n < 2 ^ i"
  shows "m + 2 ^ i * of_bool a \<le> n + 2 ^ i * of_bool b
    \<longleftrightarrow> (\<not> a \<and> b) \<or> (\<not> a \<and> m \<le> n) \<or> (b \<and> m \<le> (n :: nat))"
  using assms by (cases a; cases b) auto

lemma map_nth_upt: "j \<le> length xs \<Longrightarrow> map ((!) xs) [i..<j] = drop i (take j xs)"
  by (intro nth_equalityI) auto

lemma mk_rotate_left_rotate: "mk_rotate_left as n = rotate (length as - n mod length as) as"
proof (cases "as = []")
  case False
  let ?sz = "length as"
  have n: "n mod ?sz < ?sz" using False by simp
  have "mk_rotate_left as n = drop (?sz - n mod ?sz) as @ take (?sz - n mod ?sz) as"
    by (simp add: mk_rotate_left_def Let_def map_nth_upt)
  also have "\<dots> = rotate (?sz - n mod ?sz) as"
  proof (cases "n mod ?sz = 0")
    case True
    then show ?thesis by (simp add: rotate_drop_take)
  next
    case False
    then show ?thesis using n by (simp add: rotate_drop_take)
  qed
  finally show ?thesis .
qed (simp add: mk_rotate_left_def)

lemma mk_rotate_right_rotate: "mk_rotate_right as n = rotate n as"
proof (cases "as = []")
  case False
  let ?sz = "length as"
  have n: "n mod ?sz < ?sz" using False by simp
  show ?thesis
  proof (cases "n mod ?sz = 0")
    case True
    then have "mk_rotate_right as n = rotate ?sz as"
      by (simp add: mk_rotate_right_def mk_rotate_left_rotate)
    also have "\<dots> = rotate n as" using True by (metis mod_self rotate_conv_mod)
    finally show ?thesis .
  next
    case False
    then have "mk_rotate_right as n = rotate (n mod ?sz) as"
      using n by (simp add: mk_rotate_right_def mk_rotate_left_rotate)
    then show ?thesis by (metis rotate_conv_mod)
  qed
qed (simp add: mk_rotate_right_def mk_rotate_left_def)

lemma length_rotations [simp]:
  "length (mk_rotate_left as n) = length as" "length (mk_rotate_right as n) = length as"
  by (simp_all add: mk_rotate_left_rotate mk_rotate_right_rotate)

lemma set_rotations [simp]:
  "set (mk_rotate_left as n) = set as" "set (mk_rotate_right as n) = set as"
  by (simp_all add: mk_rotate_left_rotate mk_rotate_right_rotate)

lemma rotate_right_left: "mk_rotate_right (mk_rotate_left as n) n = as"
proof (cases "as = []")
  case False
  have n: "n mod length as < length as" using False by simp
  have "mk_rotate_right (mk_rotate_left as n) n = rotate (n + (length as - n mod length as)) as"
    by (simp add: mk_rotate_right_rotate mk_rotate_left_rotate rotate_rotate)
  also have "\<dots> = rotate ((n + (length as - n mod length as)) mod length as) as"
    by (rule rotate_conv_mod)
  also have "(n + (length as - n mod length as)) mod length as = 0"
    using n by (metis add_diff_inverse_nat less_imp_le mod_add_left_eq mod_self not_less)
  finally show ?thesis by simp
qed (simp add: mk_rotate_right_def mk_rotate_left_def)

lemma mk_rotate_left_uval:
  "uval I (mk_rotate_left as n) =
     (let k = n mod length as
      in uval I as div 2 ^ (length as - k) + 2 ^ k * (uval I as mod 2 ^ (length as - k)))"
proof (cases "as = []")
  case False
  let ?k = "n mod length as"
  have k: "?k < length as" using False by simp
  have "mk_rotate_left as n = drop (length as - ?k) as @ take (length as - ?k) as"
    by (simp add: mk_rotate_left_def Let_def map_nth_upt)
  then show ?thesis
    using k by (simp add: Let_def drop_map[symmetric] take_map[symmetric] bv_drop bv_take)
qed (simp add: mk_rotate_left_def)

lemma mk_zero_extend_uval: "uval I (mk_zero_extend sz as n) = uval I as mod 2 ^ sz"
  by (simp add: mk_zero_extend_def take_map[symmetric] bv_take)

lemma mk_sign_extend_sval:
  assumes "as \<noteq> []"
  shows "sval I (mk_sign_extend as n) = sval I as"
proof -
  have two: "(2::int) ^ length as * (2 ^ n - 1) = 2 ^ (length as + n) - 2 ^ length as"
    by (simp add: algebra_simps power_add)
  show ?thesis
    using assms two by (cases "n = 0")
      (auto simp: mk_sign_extend_def sbv_def last_map of_nat_diff)
qed

context gates
begin

lemma mk_not_bits_correct:
  "fmls as \<Longrightarrow> fmls (mk_not_bits C as) \<and> map (holds I) (mk_not_bits C as) = map Not (map (holds I) as)"
  by (auto simp: mk_not_bits_def)

lemma fmls_map2:
  "(\<And>a b. fml a \<Longrightarrow> fml b \<Longrightarrow> fml (f a b)) \<Longrightarrow> fmls as \<Longrightarrow> fmls bs \<Longrightarrow> fmls (map2 f as bs)"
  by (auto; meson set_zip_leftD set_zip_rightD)

lemma mk_binary_correct:
  assumes "\<And>a b. fml a \<Longrightarrow> fml b \<Longrightarrow> fml (f a b) \<and> (\<forall>I. holds I (f a b) = g (holds I a) (holds I b))"
    and "fmls as" "fmls bs"
  shows "fmls (mk_binary f as bs)"
    and "map (holds I) (mk_binary f as bs) = map2 g (map (holds I) as) (map (holds I) bs)"
proof -
  show "fmls (mk_binary f as bs)"
    unfolding mk_binary_def using assms by (intro fmls_map2) auto
  show "map (holds I) (mk_binary f as bs) = map2 g (map (holds I) as) (map (holds I) bs)"
    using assms(2,3)
  proof (induction as arbitrary: bs)
    case (Cons a as)
    then show ?case using assms(1) by (cases bs) (auto simp: mk_binary_def)
  qed (simp add: mk_binary_def)
qed

lemma mk_eq_bits_correct:
  assumes "fmls as" "fmls bs" "length as = length bs"
  shows "fml (mk_eq_bits C as bs)" and "holds I (mk_eq_bits C as bs) \<longleftrightarrow> uval I as = uval I bs"
proof -
  have *: "fmls (map2 (c_iff C) as bs)" using assms by (intro fmls_map2) auto
  then show "fml (mk_eq_bits C as bs)" by (simp add: mk_eq_bits_def)
  have "holds I (mk_eq_bits C as bs) \<longleftrightarrow> (\<forall>x \<in> set (map2 (c_iff C) as bs). holds I x)"
    using * by (simp add: mk_eq_bits_def)
  also have "\<dots> \<longleftrightarrow> map (holds I) as = map (holds I) bs"
    using assms(3,1,2) by (induction as bs rule: list_induct2) auto
  finally show "holds I (mk_eq_bits C as bs) \<longleftrightarrow> uval I as = uval I bs"
    using assms(3) by (simp add: bv_inj)
qed

lemma mk_is_eq_correct:
  assumes "fmls as"
  shows "fml (mk_is_eq C as n)" and "holds I (mk_is_eq C as n) \<longleftrightarrow> uval I as = n mod 2 ^ length as"
proof -
  have f: "fmls (mk_is_eq_bits C as n)"
    using assms by (induction as arbitrary: n) auto
  then show "fml (mk_is_eq C as n)" by (simp add: mk_is_eq_def)
  have "(\<forall>x \<in> set (mk_is_eq_bits C as n). holds I x) \<longleftrightarrow> uval I as = n mod 2 ^ length as"
    using assms
  proof (induction as arbitrary: n)
    case (Cons a as)
    have "n mod (2 * 2 ^ length as) = 2 * (n div 2 mod 2 ^ length as) + n mod 2"
      by (simp add: mod_mult2_eq)
    with Cons show ?case
      by (auto simp: mod_2_eq_odd Suc_double_not_eq_double double_not_eq_Suc_double)
  qed simp
  with f show "holds I (mk_is_eq C as n) \<longleftrightarrow> uval I as = n mod 2 ^ length as"
    by (simp add: mk_is_eq_def)
qed

lemma le_step_correct:
  "fml p \<Longrightarrow> fml q \<Longrightarrow> fml out \<Longrightarrow> fml (le_step C p q out)
     \<and> holds I (le_step C p q out) =
        ((holds I p \<and> holds I q) \<or> (holds I p \<and> holds I out) \<or> (holds I q \<and> holds I out))"
  by (auto simp: le_step_def Let_def)

lemma le_loop_correct:
  "length as = length bs \<Longrightarrow> fmls as \<Longrightarrow> fmls bs \<Longrightarrow> fml out \<Longrightarrow> holds I out = (m \<le> n) \<Longrightarrow>
     m < 2 ^ i \<Longrightarrow> n < 2 ^ i \<Longrightarrow>
     fml (le_loop C out as bs)
     \<and> holds I (le_loop C out as bs) = (m + 2 ^ i * uval I as \<le> n + 2 ^ i * uval I bs)"
proof (induction as bs arbitrary: out m n i rule: list_induct2)
  case (Cons a as b bs)
  let ?out = "le_step C (c_not C a) b out"
  let ?m = "m + 2 ^ i * of_bool (holds I a)" and ?n = "n + 2 ^ i * of_bool (holds I b)"
  have f: "fml a" "fml b" "fml out" "fmls as" "fmls bs" using Cons.prems by auto
  have o: "fml ?out" "holds I ?out = (?m \<le> ?n)"
    using le_step_correct[of "c_not C a" b out I] f Cons.prems(4)
    unfolding le_bits[OF Cons.prems(5,6)] by auto
  have "?m < 2 ^ Suc i" "?n < 2 ^ Suc i" using Cons.prems(5,6) by (auto simp: of_bool_def)
  from Cons.IH[OF f(4,5) o this] show ?case by (simp add: algebra_simps)
qed simp

lemma le_first:
  "fml a \<Longrightarrow> fml b \<Longrightarrow> fml (c_or C [c_not C a, b])
     \<and> holds I (c_or C [c_not C a, b]) = (of_bool (holds I a) \<le> (of_bool (holds I b) :: nat))"
  by auto

lemma mk_ule_correct:
  assumes "fmls as" "fmls bs" "length as = length bs" "as \<noteq> []"
  shows "fml (mk_ule C as bs)" and "holds I (mk_ule C as bs) \<longleftrightarrow> uval I as \<le> uval I bs"
proof -
  obtain a as' b bs' where s: "as = a # as'" "bs = b # bs'"
    using assms(3,4) by (cases as; cases bs) auto
  have "fml a" "fml b" using assms s by auto
  note first = le_first[OF this, of I]
  have "fml (mk_ule C as bs) \<and> holds I (mk_ule C as bs) = (of_bool (holds I a) + 2 ^ 1 * uval I as'
      \<le> of_bool (holds I b) + 2 ^ 1 * uval I bs')"
    unfolding mk_ule_def s list.sel using assms s first by (intro le_loop_correct) auto
  then show "fml (mk_ule C as bs)" "holds I (mk_ule C as bs) \<longleftrightarrow> uval I as \<le> uval I bs"
    by (auto simp: s)
qed

lemma sle_int:
  "0 \<le> m \<Longrightarrow> m < P \<Longrightarrow> 0 \<le> n \<Longrightarrow> n < P \<Longrightarrow> m - of_bool a * P \<le> n - of_bool b * P
    \<longleftrightarrow> (\<not> b \<and> a) \<or> (\<not> b \<and> m \<le> n) \<or> (a \<and> m \<le> (n :: int))"
  by (cases a; cases b) auto

lemma sle_bits:
  assumes "m < 2 ^ i" "n < 2 ^ i"
  shows "int m - of_bool a * 2 ^ i \<le> int n - of_bool b * 2 ^ i
    \<longleftrightarrow> (\<not> b \<and> a) \<or> (\<not> b \<and> m \<le> n) \<or> (a \<and> m \<le> (n :: nat))"
proof -
  have *: "int m < 2 ^ i" "int n < 2 ^ i" using assms by (metis of_nat_less_iff of_nat_numeral of_nat_power)+
  show ?thesis using sle_int[OF _ *(1) _ *(2)] by simp
qed

lemma mk_sle_correct:
  assumes "fmls as" "fmls bs" "length as = length bs" "as \<noteq> []"
  shows "fml (mk_sle C as bs)" and "holds I (mk_sle C as bs) \<longleftrightarrow> sval I as \<le> sval I bs"
proof -
  obtain xs a ys b where s: "as = xs @ [a]" "bs = ys @ [b]"
    using assms(3,4) by (metis append_butlast_last_id length_0_conv)
  have len: "length xs = length ys" using assms(3) s by simp
  have f: "fml a" "fml b" "fmls xs" "fmls ys" using assms s by auto
  define out where "out = le_loop C (c_or C [c_not C (hd as), hd bs]) (butlast (tl as)) (butlast (tl bs))"
  have sle: "mk_sle C as bs = le_step C (c_not C b) a out"
    by (simp add: mk_sle_def out_def s Let_def)
  have "fml (mk_sle C as bs) \<and> holds I (mk_sle C as bs) =
      (int (uval I xs) - of_bool (holds I a) * 2 ^ length xs
        \<le> int (uval I ys) - of_bool (holds I b) * 2 ^ length xs)"
  proof (cases xs)
    case Nil
    then have o: "out = c_or C [c_not C a, b]" using s len by (simp add: out_def)
    show ?thesis using le_first[OF f(1,2), of I] le_step_correct[of "c_not C b" a out I] f Nil len
      unfolding sle o by auto
  next
    case (Cons x xs')
    then obtain y ys' where y: "ys = y # ys'" using len by (cases ys) auto
    have fx: "fml x" "fml y" "fmls xs'" "fmls ys'" using f Cons y by auto
    have "fml out \<and> holds I out = (of_bool (holds I x) + 2 ^ 1 * uval I xs'
        \<le> of_bool (holds I y) + 2 ^ 1 * uval I ys')"
      unfolding out_def using fx len le_first[OF fx(1,2), of I]
      by (simp only: s Cons y list.sel append_Cons butlast_snoc) (intro le_loop_correct; simp)
    then have o: "fml out" "holds I out = (uval I xs \<le> uval I ys)" by (auto simp: Cons y)
    have "uval I xs < 2 ^ length xs" "uval I ys < 2 ^ length xs"
      using uval_less[of I xs] uval_less[of I ys] len by simp_all
    from sle_bits[OF this] show ?thesis
      using le_step_correct[of "c_not C b" a out I] f o unfolding sle by auto
  qed
  then show "holds I (mk_sle C as bs) \<longleftrightarrow> sval I as \<le> sval I bs" 
    "fml (mk_sle C as bs)"
    by (auto simp: s sbv_snoc len)
qed

end

end
