(* ===== verification/Bit_Blaster_Mul.thy ===== *)
theory Bit_Blaster_Mul
  imports Bit_Blaster_Arith
begin

text \<open>
  The multipliers of the bit-blaster: the array multiplier, the Wallace tree, the case split
  and the Booth encoding for constants, and their composition \<^verbatim>\<open>mk_multiplier\<close>.
\<close>

section \<open>Multiplication by a constant\<close>

text \<open>\<^verbatim>\<open>mk_const_case_multiplier\<close> enumerates the values of the unknown bits when there are few
  of them; its size computations are on 32-bit unsigned integers.\<close>

fun case_size_loop :: "32 word \<Rightarrow> 32 word \<Rightarrow> expr list \<Rightarrow> expr list \<Rightarrow> 32 word" where
  "case_size_loop case_size circuit_size (a # as) (b # bs) =
     (if case_size < circuit_size then
        let s1 = (if is_bool_const a then case_size else case_size * 2);
            s2 = (if is_bool_const b then s1 else s1 * 2)
        in case_size_loop s2 circuit_size as bs
      else case_size)"
| "case_size_loop case_size circuit_size _ _ = case_size"

function skip_const :: "nat \<Rightarrow> expr list \<Rightarrow> nat" where
  "skip_const i bits =
     (if i < length bits \<and> is_bool_const (bits ! i) then skip_const (Suc i) bits else i)"
  by pat_completeness auto
termination by (relation "measure (\<lambda>(i, bits). length bits - i)") auto

declare skip_const.simps [simp del]

lemma skip_const_ge: "i \<le> skip_const i bits"
  by (induction i bits rule: skip_const.induct) (subst skip_const.simps, auto)

lemma skip_const_le: "i \<le> length bits \<Longrightarrow> skip_const i bits \<le> length bits"
  by (induction i bits rule: skip_const.induct) (subst skip_const.simps, auto)

lemma skip_const_const:
  "\<forall>k < i. is_bool_const (bits ! k) \<Longrightarrow> \<forall>k < skip_const i bits. is_bool_const (bits ! k)"
proof (induction i bits rule: skip_const.induct)
  case (1 i bits)
  show ?case using 1 by (subst skip_const.simps) (auto simp: less_Suc_eq)
qed

text \<open>The recursion over the unknown bits, those of \<^verbatim>\<open>a\<close> first. The numerals of the base case exist
  by the time it is reached (\<^verbatim>\<open>VERIFY\<close>).\<close>

function const_case_multiplier :: "bool \<Rightarrow> nat \<Rightarrow> expr list \<Rightarrow> expr list \<Rightarrow> expr list" where
  "const_case_multiplier is_a0 i0 a_bits b_bits =
     (let sz = length a_bits;
          i1 = (if is_a0 then skip_const i0 a_bits else i0);
          (is_a, i2) = (if is_a0 \<and> i1 = sz then (False, 0) else (is_a0, i1));
          i = (if \<not> is_a then skip_const i2 b_bits else i2)
      in if i < sz then
           let x = (if is_a then a_bits ! i else b_bits ! i);
               out1 = (if is_a then const_case_multiplier is_a (i + 1) (a_bits[i := ETrue]) b_bits
                       else const_case_multiplier is_a (i + 1) a_bits (b_bits[i := ETrue]));
               out2 = (if is_a then const_case_multiplier is_a (i + 1) (a_bits[i := EFalse]) b_bits
                       else const_case_multiplier is_a (i + 1) a_bits (b_bits[i := EFalse]))
           in map2 (EIte x) out1 out2
         else (case (numeral_of a_bits, numeral_of b_bits) of
                 (Some n_a, Some n_b) \<Rightarrow> num2bits (n_a * n_b) sz
               | _ \<Rightarrow> []))"
  by pat_completeness auto

lemma const_case_measure:
  assumes "i1 = (if is_a0 then skip_const i0 as else i0)"
    and "(is_a, i2) = (if is_a0 \<and> i1 = length as then (False, 0) else (is_a0, i1))"
    and "i = (if \<not> is_a then skip_const i2 bs else i2)" and "i < length as"
  shows "(if is_a then length as else 0) + (length as - (i + 1)) < (if is_a0 then length as else 0) + (length as - i0)"
  using assms skip_const_ge[of i0 as] skip_const_ge[of i2 bs] skip_const_ge[of i0 bs]
  by (auto split: if_splits)

termination const_case_multiplier
proof (relation "measure (\<lambda>(is_a, i, as, bs). (if is_a then length as else 0) + (length as - i))", goal_cases)
  case 1
  show ?case by simp
next
  case (2 is_a0 i0 as bs sz i1 p is_a i2 i x)
  then show ?case using const_case_measure[of i1 is_a0 i0 as is_a i2 i bs] by simp
next
  case (3 is_a0 i0 as bs sz i1 p is_a i2 i x)
  then show ?case using const_case_measure[of i1 is_a0 i0 as is_a i2 i bs] by simp
next
  case (4 is_a0 i0 as bs sz i1 p is_a i2 i x out1)
  then show ?case using const_case_measure[of i1 is_a0 i0 as is_a i2 i bs] by simp
next
  case (5 is_a0 i0 as bs sz i1 p is_a i2 i x out1)
  then show ?case using const_case_measure[of i1 is_a0 i0 as is_a i2 i bs] by simp
qed

declare const_case_multiplier.simps [simp del]

text \<open>The entry point; the flag is its return value, which is false on both paths.\<close>

definition mk_const_case_multiplier :: "expr list \<Rightarrow> expr list \<Rightarrow> bool \<times> expr list" where
  "mk_const_case_multiplier a_bits b_bits =
     (let sz = of_nat (length a_bits) :: 32 word;
          circuit_size = sz * sz * 5;
          case_size = case_size_loop 1 circuit_size a_bits b_bits
      in if circuit_size \<le> case_size then (False, [])
         else (False, const_case_multiplier True 0 a_bits b_bits))"

text \<open>The Booth encoding: \<open>out\<close> is the part of the result from the current bit on (\<^verbatim>\<open>out_bits + i\<close>).\<close>

fun booth_loop ::
  "'a cfg_scheme \<Rightarrow> bool \<Rightarrow> expr list \<Rightarrow> expr list \<Rightarrow> expr list \<Rightarrow> expr list \<Rightarrow> expr list" where
  "booth_loop C lst [] b_bits minus_b_bits out = []"
| "booth_loop C lst (a # as) b_bits minus_b_bits out =
     (let now = (a = ETrue);
          tmp = (if now \<and> \<not> lst then mk_adder C out minus_b_bits
                 else if \<not> now \<and> lst then mk_adder C out b_bits
                 else out)
      in hd tmp # booth_loop C now as b_bits minus_b_bits (tl tmp))"

definition mk_const_multiplier ::
  "'a bit_blaster_tpl_scheme \<Rightarrow> expr list \<Rightarrow> expr list \<Rightarrow> expr list option" where
  "mk_const_multiplier C a_bits b_bits =
     (if numeral_of a_bits = None then None
      else
        let (ok, out_bits) = mk_const_case_multiplier a_bits b_bits
        in if ok then Some out_bits
           else if \<not> m_use_bcm C then None
           else
             let minus_b_bits = mk_neg C b_bits;
                 sz = length a_bits
             in Some (booth_loop C False a_bits b_bits minus_b_bits (replicate sz EFalse)))"

section \<open>The array multiplier\<close>

text \<open>The full adders of column \<open>i\<close>, for the rows \<open>js\<close>.\<close>

fun column_loop ::
  "'a cfg_scheme \<Rightarrow> expr list \<Rightarrow> expr list \<Rightarrow> nat \<Rightarrow> expr list \<Rightarrow> nat list \<Rightarrow> expr \<Rightarrow> expr list
    \<Rightarrow> expr \<times> expr list" where
  "column_loop C as bs i cins [] out couts = (out, couts)"
| "column_loop C as bs i cins (j # js) out couts =
     (let prev_out = out;
          i3 = c_and C [as ! j, bs ! (i - j)];
          (out', cout) = mk_full_adder C i3 prev_out (cins ! (j - 2))
      in column_loop C as bs i cins js out' (couts @ [cout]))"

fun last_column_loop ::
  "'a cfg_scheme \<Rightarrow> expr list \<Rightarrow> expr list \<Rightarrow> nat \<Rightarrow> expr list \<Rightarrow> nat list \<Rightarrow> expr \<Rightarrow> expr" where
  "last_column_loop C as bs i cins [] out = out"
| "last_column_loop C as bs i cins (j # js) out =
     (let i3 = c_and C [as ! j, bs ! (i - j)]
      in last_column_loop C as bs i cins js (c_xor3 C i3 out (cins ! (j - 2))))"

fun array_loop ::
  "'a cfg_scheme \<Rightarrow> expr list \<Rightarrow> expr list \<Rightarrow> nat list \<Rightarrow> expr list \<Rightarrow> expr list" where
  "array_loop C as bs [] cins = []"
| "array_loop C as bs (i # is) cins =
     (let i1 = c_and C [as ! 0, bs ! i];
          i2 = c_and C [as ! 1, bs ! (i - 1)]
      in if i < length as - 1 then
           let (out0, cout) = mk_half_adder C i1 i2;
               (out, couts) = column_loop C as bs i cins [2..<Suc i] out0 [cout]
           in out # array_loop C as bs is couts
         else
           let out = last_column_loop C as bs i cins [2..<Suc i] (c_xor C i1 i2)
           in out # array_loop C as bs is cins)"

definition mk_array_multiplier :: "'a cfg_scheme \<Rightarrow> expr list \<Rightarrow> expr list \<Rightarrow> expr list" where
  "mk_array_multiplier C as bs =
     c_and C [as ! 0, bs ! 0] # array_loop C as bs [1..<length as] []"

section \<open>The Wallace tree multiplier\<close>

definition mk_carry_save_adder ::
  "'a cfg_scheme \<Rightarrow> expr list \<Rightarrow> expr list \<Rightarrow> expr list \<Rightarrow> expr list \<times> expr list" where
  "mk_carry_save_adder C a_bits b_bits c_bits =
     (map2 (\<lambda>a (b, c). c_xor3 C a b c) a_bits (zip b_bits c_bits),
      map2 (\<lambda>a (b, c). c_carry C a b c) a_bits (zip b_bits c_bits))"

definition partial_product :: "'a cfg_scheme \<Rightarrow> expr list \<Rightarrow> expr list \<Rightarrow> nat \<Rightarrow> expr list" where
  "partial_product C as bs i =
     replicate i EFalse @ map (\<lambda>j. c_and C [as ! j, bs ! i]) [0..<length as - i]"

text \<open>One round: every group of three numbers becomes a sum and a carry, shifted by one.\<close>

fun wallace_round :: "'a cfg_scheme \<Rightarrow> expr list list \<Rightarrow> expr list list" where
  "wallace_round C (p1 # p2 # p3 # pps) =
     (let (sum_bits, carries) = mk_carry_save_adder C p1 p2 p3
      in sum_bits # butlast (EFalse # carries) # wallace_round C pps)"
| "wallace_round C pps = pps"

lemma wallace_round_le: "length (wallace_round C pps) \<le> length pps"
  by (induction C pps rule: wallace_round.induct)
    (auto simp: split_def Let_def mk_carry_save_adder_def intro: le_SucI)

lemma wallace_round_less: "2 < length pps \<Longrightarrow> length (wallace_round C pps) < length pps"
  by (cases "(C, pps)" rule: wallace_round.cases)
    (auto simp: split_def Let_def mk_carry_save_adder_def le_imp_less_Suc wallace_round_le)

text \<open>The loop runs while \<^verbatim>\<open>pps.size() != 2\<close>; it starts with at least two numbers.\<close>

function wallace_loop :: "'a cfg_scheme \<Rightarrow> expr list list \<Rightarrow> expr list list" where
  "wallace_loop C pps = (if length pps \<le> 2 then pps else wallace_loop C (wallace_round C pps))"
  by pat_completeness auto
termination
  by (relation "measure (\<lambda>(C, pps). length pps)") (auto intro: wallace_round_less)

declare wallace_loop.simps [simp del]

definition mk_wallace_multiplier :: "'a cfg_scheme \<Rightarrow> expr list \<Rightarrow> expr list \<Rightarrow> expr list" where
  "mk_wallace_multiplier C as bs =
     (let sz = length as
      in if sz = 1 then [c_and C [as ! 0, bs ! 0]]
         else
           let pps = wallace_loop C (map (partial_product C as bs) [0..<sz])
           in mk_adder C (pps ! 0) (pps ! 1))"

section \<open>The multiplier\<close>

text \<open>\<^verbatim>\<open>n_b\<close> is the number the first operand denotes; the constant product is only reached after the
  operands were swapped, when it is the value of \<^verbatim>\<open>b_bits\<close>.\<close>

definition mk_multiplier :: "'a bit_blaster_tpl_scheme \<Rightarrow> expr list \<Rightarrow> expr list \<Rightarrow> expr list" where
  "mk_multiplier C a0 b0 =
     (let n_b = numeral_of a0;
          (as, bs) = (if n_b \<noteq> None then (b0, a0) else (a0, b0))
      in if is_minus_one bs then mk_neg C as
         else case (numeral_of as, n_b) of
             (Some n_a, Some n) \<Rightarrow> num2bits (n_a * n) (length as)
           | _ \<Rightarrow>
               (case mk_const_multiplier C as bs of
                  Some out \<Rightarrow> out
                | None \<Rightarrow>
                    (case mk_const_multiplier C bs as of
                       Some out \<Rightarrow> out
                     | None \<Rightarrow>
                         if \<not> m_use_wtm C then mk_array_multiplier C as bs
                         else mk_wallace_multiplier C as bs)))"

end
