(* ===== verification/Bit_Blaster_Mul_Sound.thy ===== *)
theory Bit_Blaster_Mul_Sound
  imports Bit_Blaster_Mul
begin

text \<open>
  Every multiplier of \<open>Bit_Blaster_Mul\<close> computes the product modulo two to the size.
\<close>

section \<open>The case split\<close>

lemma numeral_of_all_const: "\<forall>k < length bits. is_bool_const (bits ! k) \<Longrightarrow> \<exists>v. numeral_of bits = Some v"
  by (simp add: numeral_of_const is_numeral_def list_all_length)

lemma uval_update: "uval I (as[i := x]) = uval I (if holds I x then as[i := ETrue] else as[i := EFalse])"
  by (simp add: map_update)

lemma uval_ite_bits:
  assumes "length xs = length ys" "fml x" "fmls xs" "fmls ys"
  shows "fmls (map2 (EIte x) xs ys)" "uval I (map2 (EIte x) xs ys) = (if holds I x then uval I xs else uval I ys)"
  using assms by (induction xs ys rule: list_induct2) auto

lemma uval_select:
  "i < length as \<Longrightarrow> (if holds I (as ! i) then uval I (as[i := ETrue]) else uval I (as[i := EFalse])) = uval I as"
  using uval_update[of I as i "as ! i"] by simp

text \<open>The bits known when the recursion is at index \<open>i\<close> of one operand.\<close>

definition known_bits :: "bool \<Rightarrow> nat \<Rightarrow> expr list \<Rightarrow> expr list \<Rightarrow> bool" where
  "known_bits is_a i as bs \<longleftrightarrow>
     (if is_a then \<forall>k < i. is_bool_const (as ! k)
      else (\<forall>k < length as. is_bool_const (as ! k)) \<and> (\<forall>k < i. is_bool_const (bs ! k)))"

lemma known_bits_set:
  assumes "known_bits is_a i as bs" "i < length as" "length as = length bs" "is_bool_const v"
  shows "is_a \<Longrightarrow> known_bits is_a (i + 1) (as[i := v]) bs"
    and "\<not> is_a \<Longrightarrow> known_bits is_a (i + 1) as (bs[i := v])"
  using assms by (auto simp: known_bits_def nth_list_update less_Suc_eq)

definition is_product :: "interp \<Rightarrow> nat \<Rightarrow> expr list \<Rightarrow> expr list \<Rightarrow> expr list \<Rightarrow> bool" where
  "is_product I n out as bs \<longleftrightarrow> length out = n \<and> fmls out \<and> uval I out = uval I as * uval I bs mod 2 ^ n"

lemma is_product_ite:
  assumes "is_product I n out1 as1 bs1" "is_product I n out2 as2 bs2" "fml x"
    and "(if holds I x then uval I as1 * uval I bs1 else uval I as2 * uval I bs2) = uval I as * uval I bs"
  shows "is_product I n (map2 (EIte x) out1 out2) as bs"
  using assms uval_ite_bits[of out1 out2 x] by (auto simp: is_product_def split: if_splits)

lemma fmls_update: "fmls xs \<Longrightarrow> fml v \<Longrightarrow> fmls (xs[i := v])"
  by (rule ballI) (drule subsetD[OF set_update_subset_insert], auto)

lemma const_case_multiplier_correct:
  assumes "length as = length bs" "fmls as" "fmls bs" "i0 \<le> length as" "known_bits is_a0 i0 as bs"
  shows "is_product I (length as) (const_case_multiplier is_a0 i0 as bs) as bs"
  using assms
proof (induction "(if is_a0 then length as else 0) + (length as - i0)" arbitrary: is_a0 i0 as bs rule: less_induct)
  case less
  let ?sz = "length as"
  define i1 where "i1 = (if is_a0 then skip_const i0 as else i0)"
  obtain is_a i2 where p: "(is_a, i2) = (if is_a0 \<and> i1 = ?sz then (False, 0) else (is_a0, i1))"
    by (cases "if is_a0 \<and> i1 = ?sz then (False, 0 :: nat) else (is_a0, i1)") auto
  define i where "i = (if \<not> is_a then skip_const i2 bs else i2)"
  have i1: "i1 \<le> ?sz" "known_bits is_a0 i1 as bs"
    using less.prems skip_const_le[of i0 as] skip_const_const[of i0 as]
    by (auto simp: i1_def known_bits_def)
  then have i2: "i2 \<le> ?sz" "known_bits is_a i2 as bs"
    using p by (auto simp: known_bits_def split: if_splits)
  then have i: "i \<le> ?sz" "known_bits is_a i as bs"
    using less.prems(1) skip_const_le[of i2 bs] skip_const_const[of i2 bs]
    by (auto simp: i_def known_bits_def)
  define x where "x = (if is_a then as ! i else bs ! i)"
  define out where "out v = (if is_a then const_case_multiplier is_a (i + 1) (as[i := v]) bs
      else const_case_multiplier is_a (i + 1) as (bs[i := v]))" for v
  have eq: "const_case_multiplier is_a0 i0 as bs =
      (if i < ?sz then map2 (EIte x) (out ETrue) (out EFalse)
       else (case (numeral_of as, numeral_of bs) of
                 (Some n_a, Some n_b) \<Rightarrow> num2bits (n_a * n_b) ?sz | _ \<Rightarrow> []))"
    using i_def by (subst const_case_multiplier.simps, cases is_a)
       (simp_all add: Let_def i1_def[symmetric] p[symmetric] x_def out_def)
  show ?case
  proof (cases "i < ?sz")
    case True
    have m: "(if is_a then ?sz else 0) + (?sz - (i + 1)) < (if is_a0 then ?sz else 0) + (?sz - i0)"
      using const_case_measure[OF i1_def p i_def True] .
    have fx: "fml x" using True less.prems(1-3) by (simp add: x_def)
    have out: "is_product I ?sz (out v) (if is_a then as[i := v] else as) (if is_a then bs else bs[i := v])"
      if v: "is_bool_const v" for v
    proof -
      have "fml v" using v by (auto simp: is_bool_const_def)
      show ?thesis
      proof (cases is_a)
        case True
        have k: "known_bits is_a (i + 1) (as[i := v]) bs"
          using known_bits_set(1)[OF i(2) \<open>i < ?sz\<close> less.prems(1) v True] .
        have "is_product I (length (as[i := v])) (const_case_multiplier is_a (i + 1) (as[i := v]) bs) (as[i := v]) bs"
          by (rule less.hyps) (use m True k less.prems(1,3) \<open>i < ?sz\<close> fmls_update[OF less.prems(2) \<open>fml v\<close>] in simp_all)
        then show ?thesis using True by (simp add: out_def)
      next
        case False
        have k: "known_bits is_a (i + 1) as (bs[i := v])"
          using known_bits_set(2)[OF i(2) \<open>i < ?sz\<close> less.prems(1) v False] .
        have "is_product I (length as) (const_case_multiplier is_a (i + 1) as (bs[i := v])) as (bs[i := v])"
          by (rule less.hyps) (use m False k less.prems(1,2) \<open>i < ?sz\<close> fmls_update[OF less.prems(3) \<open>fml v\<close>] in simp_all)
        then show ?thesis using False by (simp add: out_def)
      qed
    qed
    have "is_product I ?sz (map2 (EIte x) (out ETrue) (out EFalse)) as bs"
      using uval_select[of i as I] uval_select[of i bs I] True less.prems(1)
      by (intro is_product_ite[OF out out fx]) (auto simp: x_def is_bool_const_def split: if_splits)
    then show ?thesis using eq True by simp
  next
    case False
    then have "\<not> is_a" using p i(1) by (auto simp: i_def split: if_splits)
    then have "\<forall>k < length as. is_bool_const (as ! k)" "\<forall>k < length bs. is_bool_const (bs ! k)"
      using i False less.prems(1) by (auto simp: known_bits_def)
    then obtain n_a n_b where n: "numeral_of as = Some n_a" "numeral_of bs = Some n_b"
      using numeral_of_all_const by blast
    then show ?thesis using eq False numeral_of_sound[OF n(1), of I] numeral_of_sound[OF n(2), of I]
      by (simp add: is_product_def)
  qed
qed

lemma mk_const_case_multiplier_false: "fst (mk_const_case_multiplier as bs) = False"
  by (simp add: mk_const_case_multiplier_def Let_def)

section \<open>The Booth encoding\<close>

text \<open>\<open>n\<close> bits of \<open>as\<close> remain, after a bit \<open>lst\<close>; the result is congruent to \<open>out + b * (as + lst)\<close>.\<close>

definition dvd_diff2 :: "nat \<Rightarrow> int \<Rightarrow> int \<Rightarrow> bool" where
  "dvd_diff2 n x y \<longleftrightarrow> 2 ^ n dvd x - y"

lemma dvd_diff2_refl: "dvd_diff2 n x x"
  by (simp add: dvd_diff2_def)

lemma dvd_diff2_trans: "dvd_diff2 n x y \<Longrightarrow> dvd_diff2 n y z \<Longrightarrow> dvd_diff2 n x z"
  unfolding dvd_diff2_def using dvd_add[of "2 ^ n" "x - y" "y - z"] by simp

lemma dvd_diff2_add: "dvd_diff2 n x y \<Longrightarrow> dvd_diff2 n u v \<Longrightarrow> dvd_diff2 n (x + u) (y + v)"
  unfolding dvd_diff2_def using dvd_add[of "2 ^ n" "x - y" "u - v"] by (simp add: algebra_simps)

lemma dvd_diff2_double: "dvd_diff2 n x y \<Longrightarrow> dvd_diff2 (Suc n) (2 * x) (2 * y)"
  unfolding dvd_diff2_def power_Suc right_diff_distrib[symmetric] by (intro mult_dvd_mono dvd_refl)

lemma dvd_diff2_mono: "dvd_diff2 n x y \<Longrightarrow> m \<le> n \<Longrightarrow> dvd_diff2 m x y"
  unfolding dvd_diff2_def by (meson dvd_trans le_imp_power_dvd)

lemma dvd_diff2_mod: "dvd_diff2 n (int (k mod 2 ^ n)) (int k)"
  unfolding dvd_diff2_def by (simp add: of_nat_mod mod_eq_dvd_iff[symmetric])

lemma dvd_diff2_eq: "dvd_diff2 n (int x) (int y) \<Longrightarrow> x < 2 ^ n \<Longrightarrow> x = y mod 2 ^ n"
proof -
  assume "dvd_diff2 n (int x) (int y)" and x: "x < 2 ^ n"
  then have "int x mod 2 ^ n = int y mod 2 ^ n" by (simp only: dvd_diff2_def mod_eq_dvd_iff)
  then have "int (x mod 2 ^ n) = int (y mod 2 ^ n)" by (simp add: of_nat_mod)
  with x show ?thesis by simp
qed

context gates
begin

lemma adder_cong:
  assumes "fmls as" "fmls bs" "length as \<le> length bs"
  shows "dvd_diff2 (length as) (int (uval I (mk_adder C as bs))) (int (uval I as) + int (uval I bs))"
  unfolding mk_adder_correct(2)[OF assms] using dvd_diff2_mod[of "length as" "uval I as + uval I bs"] by simp

lemma neg_cong: "fmls bs \<Longrightarrow> dvd_diff2 (length bs) (int (uval I (mk_neg C bs))) (- int (uval I bs))"
proof -
  assume b: "fmls bs"
  have "uval I bs \<le> 2 ^ length bs" using uval_less[of I bs] by (rule less_imp_le)
  then have "int (2 ^ length bs - uval I bs) = 2 ^ length bs - int (uval I bs)"
    by (subst of_nat_diff) auto
  moreover have "dvd_diff2 (length bs) (2 ^ length bs - int (uval I bs)) (- int (uval I bs))"
    by (simp add: dvd_diff2_def)
  ultimately show ?thesis
    using dvd_diff2_trans[OF dvd_diff2_mod[of "length bs" "2 ^ length bs - uval I bs"]]
    unfolding mk_neg_correct(2)[OF b] by simp
qed

lemma booth_loop_correct:
  assumes "fmls bs" "fmls mbs" "length mbs = length bs"
    and mb: "dvd_diff2 (length bs) (int (uval I mbs)) (- int (uval I bs))"
  shows "is_numeral as \<Longrightarrow> fmls out \<Longrightarrow> length out = length as \<Longrightarrow> length as \<le> length bs \<Longrightarrow>
     length (booth_loop C lst as bs mbs out) = length as \<and> fmls (booth_loop C lst as bs mbs out)
     \<and> dvd_diff2 (length as) (int (uval I (booth_loop C lst as bs mbs out)))
         (int (uval I out) + int (uval I bs) * (int (uval I as) + of_bool lst))"
proof (induction as arbitrary: lst out)
  case (Cons a as)
  let ?n = "Suc (length as)" and ?B = "int (uval I bs)"
  define now where "now = (a = ETrue)"
  have a: "holds I a = now" using Cons.prems(1) by (auto simp: now_def is_numeral_def is_bool_const_def)
  define tmp where "tmp = (if now \<and> \<not> lst then mk_adder C out mbs
      else if \<not> now \<and> lst then mk_adder C out bs else out)"
  have len: "length out = ?n" "?n \<le> length bs" using Cons.prems by auto
  have tmp: "fmls tmp" "length tmp = ?n"
    and cong: "dvd_diff2 ?n (int (uval I tmp)) (int (uval I out) + (of_bool lst - of_bool now) * ?B)"
  proof -
    have le: "length out \<le> length mbs" "length out \<le> length bs" using len assms(3) by auto
    note add = adder_cong[OF Cons.prems(2) assms(2) le(1), of I] adder_cong[OF Cons.prems(2) assms(1) le(2), of I]
    have "dvd_diff2 ?n (int (uval I out) + int (uval I mbs)) (int (uval I out) + - ?B)"
      using dvd_diff2_add[OF dvd_diff2_refl dvd_diff2_mono[OF mb len(2)]] .
    from dvd_diff2_trans[OF add(1)[unfolded len(1)] this]
    have "dvd_diff2 ?n (int (uval I (mk_adder C out mbs))) (int (uval I out) + - ?B)" .
    then show "dvd_diff2 ?n (int (uval I tmp)) (int (uval I out) + (of_bool lst - of_bool now) * ?B)"
      using add(2) len(1) by (cases now; cases lst) (simp_all add: tmp_def dvd_diff2_refl)
    show "fmls tmp" "length tmp = ?n"
      using mk_adder_correct(1)[OF Cons.prems(2) assms(2) le(1)] mk_adder_correct(1)[OF Cons.prems(2) assms(1) le(2)]
        Cons.prems(2) le len by (simp_all add: tmp_def)
  qed
  obtain t ts where t: "tmp = t # ts" using tmp(2) by (cases tmp) auto
  let ?r = "booth_loop C now as bs mbs ts"
  have IH: "length ?r = length as \<and> fmls ?r \<and> dvd_diff2 (length as) (int (uval I ?r))
      (int (uval I ts) + ?B * (int (uval I as) + of_bool now))"
    using Cons.IH[of ts now] Cons.prems(1,4) tmp unfolding t by (simp add: is_numeral_def)
  have loop: "booth_loop C lst (a # as) bs mbs out = t # ?r"
    using t by (simp add: Let_def now_def[symmetric] tmp_def[symmetric])
  have s1: "dvd_diff2 ?n (of_bool (holds I t) + 2 * int (uval I ?r))
      (of_bool (holds I t) + 2 * (int (uval I ts) + ?B * (int (uval I as) + of_bool now)))"
    using IH by (intro dvd_diff2_add dvd_diff2_refl dvd_diff2_double) auto
  have s2: "of_bool (holds I t) + 2 * (int (uval I ts) + ?B * (int (uval I as) + of_bool now))
      = int (uval I tmp) + ?B * (2 * int (uval I as) + 2 * of_bool now)"
    by (simp add: t algebra_simps)
  have s3: "dvd_diff2 ?n (int (uval I tmp) + ?B * (2 * int (uval I as) + 2 * of_bool now))
      (int (uval I out) + (of_bool lst - of_bool now) * ?B + ?B * (2 * int (uval I as) + 2 * of_bool now))"
    by (rule dvd_diff2_add[OF cong dvd_diff2_refl])
  have s4: "int (uval I out) + (of_bool lst - of_bool now) * ?B + ?B * (2 * int (uval I as) + 2 * of_bool now)
      = int (uval I out) + ?B * (int (uval I (a # as)) + of_bool lst)"
    using a by (simp add: algebra_simps)
  have "dvd_diff2 ?n (of_bool (holds I t) + 2 * int (uval I ?r))
      (int (uval I out) + ?B * (int (uval I (a # as)) + of_bool lst))"
    using dvd_diff2_trans[OF s1[unfolded s2] s3] unfolding s4 .
  then show ?case unfolding loop using IH tmp(1) t by simp
qed (simp add: dvd_diff2_def)

end

section \<open>Products as sums\<close>

lemma bv_sum: "bv xs = (\<Sum>i<length xs. of_bool (xs ! i) * 2 ^ i)"
proof (induction xs)
  case (Cons b xs)
  have "(\<Sum>i<length (b # xs). of_bool ((b # xs) ! i) * 2 ^ i)
      = of_bool b + (\<Sum>i<length xs. of_bool (xs ! i) * (2 * 2 ^ i) :: nat)"
    by (simp only: list.size sum.lessThan_Suc_shift add_0_right add_Suc_right nth_Cons_0 nth_Cons_Suc
        power_Suc power_0 mult_1_right)
  also have "\<dots> = of_bool b + 2 * (\<Sum>i<length xs. of_bool (xs ! i) * 2 ^ i)"
    by (simp only: sum_distrib_left mult.left_commute[of 2])
  finally show ?case unfolding bv.simps Cons by (rule sym)
qed simp

lemma mult_mod_shift: "i \<le> n \<Longrightarrow> 2 ^ i * (x mod 2 ^ (n - i)) mod 2 ^ n = 2 ^ i * x mod (2 ^ n :: nat)"
  by (metis le_add_diff_inverse mod_mod_trivial mult_mod_right power_add)

lemma sum_mod_cong:
  "finite S \<Longrightarrow> (\<And>i. i \<in> S \<Longrightarrow> f i mod m = g i mod (m :: nat)) \<Longrightarrow> sum f S mod m = sum g S mod m"
  by (metis (mono_tags, lifting) mod_sum_eq sum.cong)

text \<open>The rows of a product: row \<open>i\<close> is the first factor, shifted, if bit \<open>i\<close> of the second is set.\<close>

lemma product_rows:
  "(\<Sum>i<length ys. 2 ^ i * (of_bool (ys ! i) * (bv xs mod 2 ^ (length ys - i)))) mod 2 ^ length ys
     = bv xs * bv ys mod 2 ^ length ys"
proof -
  have "2 ^ i * (of_bool (ys ! i) * (bv xs mod 2 ^ (length ys - i))) mod 2 ^ length ys
      = bv xs * (of_bool (ys ! i) * 2 ^ i) mod 2 ^ length ys" if "i < length ys" for i
    using that mult_mod_shift[of i "length ys" "bv xs"] by (cases "ys ! i") (simp_all add: mult.commute)
  then have "(\<Sum>i<length ys. 2 ^ i * (of_bool (ys ! i) * (bv xs mod 2 ^ (length ys - i)))) mod 2 ^ length ys
      = (\<Sum>i<length ys. bv xs * (of_bool (ys ! i) * 2 ^ i)) mod 2 ^ length ys"
    by (intro sum_mod_cong) auto
  then show ?thesis by (simp only: bv_sum[of ys] sum_distrib_left)
qed

text \<open>The columns of a product: column \<open>k\<close> counts the pairs of set bits whose positions add up to \<open>k\<close>.\<close>

definition column :: "bool list \<Rightarrow> bool list \<Rightarrow> nat \<Rightarrow> nat" where
  "column xs ys k = (\<Sum>j\<le>k. of_bool (xs ! j \<and> ys ! (k - j)))"

lemma product_columns:
  assumes "length xs = n" "length ys = n"
  shows "(\<Sum>k<n. 2 ^ k * column xs ys k) mod 2 ^ n = bv xs * bv ys mod 2 ^ n"
proof -
  let ?f = "\<lambda>j i. 2 ^ (j + i) * of_bool (xs ! j \<and> ys ! i) :: nat"
  have "(\<Sum>k<n. 2 ^ k * column xs ys k) = (\<Sum>k<n. \<Sum>j\<le>k. ?f j (k - j))"
    unfolding column_def sum_distrib_left by (intro sum.cong refl) simp
  also have "\<dots> = (\<Sum>(j, i)\<in>{(j, i). j + i < n}. ?f j i)"
    by (rule sum.triangle_reindex[symmetric])
  also have "\<dots> = (\<Sum>(i, j)\<in>{(i, j). i + j < n}. ?f j i)"
    by (rule sum.reindex_bij_witness[of _ "\<lambda>(i, j). (j, i)" "\<lambda>(i, j). (j, i)"]) auto
  also have "{(i, j). i + j < n} = Sigma {..<n} (\<lambda>i. {..<n - i})" by auto
  also have "(\<Sum>(i, j)\<in>Sigma {..<n} (\<lambda>i. {..<n - i}). ?f j i) = (\<Sum>i<n. \<Sum>j<n - i. ?f j i)"
    by (rule sum.Sigma[symmetric]) auto
  also have "\<dots> = (\<Sum>i<n. 2 ^ i * (of_bool (ys ! i) * (bv xs mod 2 ^ (n - i))))"
  proof (rule sum.cong[OF refl])
    fix i assume "i \<in> {..<n}"
    have "bv xs mod 2 ^ (n - i) = (\<Sum>j<n - i. of_bool (xs ! j) * 2 ^ j)"
      unfolding bv_take[symmetric] bv_sum[of "take (n - i) xs"] using assms(1) by (intro sum.cong) auto
    then show "(\<Sum>j<n - i. ?f j i) = 2 ^ i * (of_bool (ys ! i) * (bv xs mod 2 ^ (n - i)))"
      by (simp add: sum_distrib_left power_add of_bool_conj algebra_simps)
  qed
  finally show ?thesis using product_rows[of ys xs] assms(2) by simp
qed

section \<open>The array multiplier\<close>

definition cnt :: "interp \<Rightarrow> expr list \<Rightarrow> nat" where
  "cnt I xs = sum_list (map (\<lambda>x. of_bool (holds I x)) xs)"

lemma cnt_simps [simp]: "cnt I [] = 0" "cnt I (x # xs) = of_bool (holds I x) + cnt I xs"
  "cnt I (xs @ ys) = cnt I xs + cnt I ys"
  by (simp_all add: cnt_def)

text \<open>What a column receives from its rows \<open>js\<close> and the carries of the previous column.\<close>

definition row_bits :: "interp \<Rightarrow> expr list \<Rightarrow> expr list \<Rightarrow> nat \<Rightarrow> expr list \<Rightarrow> nat list \<Rightarrow> nat" where
  "row_bits I as bs i cins js =
     sum_list (map (\<lambda>j. of_bool (holds I (as ! j) \<and> holds I (bs ! (i - j))) + of_bool (holds I (cins ! (j - 2)))) js)"

definition rows_ok :: "expr list \<Rightarrow> expr list \<Rightarrow> nat \<Rightarrow> expr list \<Rightarrow> nat list \<Rightarrow> bool" where
  "rows_ok as bs i cins js \<longleftrightarrow> (\<forall>j \<in> set js. fml (as ! j) \<and> fml (bs ! (i - j)) \<and> fml (cins ! (j - 2)))"

text \<open>The Horner form of a sum over columns.\<close>

primrec horner2 :: "(nat \<Rightarrow> nat) \<Rightarrow> nat list \<Rightarrow> nat" where
  "horner2 f [] = 0"
| "horner2 f (i # is) = f i + 2 * horner2 f is"

lemma horner_step: "x + 2 * c = k + s \<Longrightarrow> x + 2 * (c + h) = s + (k + 2 * (h :: nat))"
  by simp

lemma horner2_upt: "horner2 f [i..<n] = (\<Sum>k = i..<n. 2 ^ (k - i) * f k)"
proof (induction "n - i" arbitrary: i)
  case (Suc d)
  then have i: "i < n" "d = n - Suc i" by auto
  have "horner2 f [i..<n] = f i + 2 * (\<Sum>k = Suc i..<n. 2 ^ (k - Suc i) * f k)"
    using Suc(1)[OF i(2)] i(1) by (simp add: upt_conv_Cons)
  also have "2 * (\<Sum>k = Suc i..<n. 2 ^ (k - Suc i) * f k) = (\<Sum>k = Suc i..<n. 2 ^ (k - i) * f k)"
    unfolding sum_distrib_left by (rule sum.cong) (auto simp: Suc_diff_Suc[symmetric] simp flip: power_Suc)
  finally show ?case using i(1) by (simp add: sum.atLeast_Suc_lessThan)
qed simp

context gates
begin

lemma column_loop_correct:
  assumes "rows_ok as bs i cins js" "fml out" "fmls couts"
  shows "fml (fst (column_loop C as bs i cins js out couts)) \<and> fmls (snd (column_loop C as bs i cins js out couts))
     \<and> length (snd (column_loop C as bs i cins js out couts)) = length couts + length js
     \<and> of_bool (holds I (fst (column_loop C as bs i cins js out couts)))
         + 2 * cnt I (snd (column_loop C as bs i cins js out couts))
       = of_bool (holds I out) + 2 * cnt I couts + row_bits I as bs i cins js"
  using assms
proof (induction js arbitrary: out couts)
  case (Cons j js)
  let ?i3 = "c_and C [as ! j, bs ! (i - j)]" and ?c = "cins ! (j - 2)"
  let ?out = "c_xor3 C ?i3 out ?c" and ?cout = "c_carry C ?i3 out ?c"
  have f: "fml ?i3" "fml ?c" "fml out" "fml ?out" "fml ?cout" "fmls (couts @ [?cout])"
    "rows_ok as bs i cins js" using Cons.prems by (auto simp: rows_ok_def)
  have fa: "of_bool (holds I ?out) + 2 * of_bool (holds I ?cout)
      = (of_bool (holds I ?i3) + of_bool (holds I out) + of_bool (holds I ?c) :: nat)"
    unfolding holds_gates(2,3)[OF f(1,3,2)] by (rule full_adder_value)
  have i3: "holds I ?i3 = (holds I (as ! j) \<and> holds I (bs ! (i - j)))"
    using Cons.prems(1) by (auto simp: rows_ok_def)
  note IH = Cons.IH[OF f(7,4,6)]
  have loop: "column_loop C as bs i cins (j # js) out couts = column_loop C as bs i cins js ?out (couts @ [?cout])"
    by (simp add: mk_full_adder_def Let_def)
  have row: "row_bits I as bs i cins (j # js)
      = of_bool (holds I ?i3) + of_bool (holds I ?c) + row_bits I as bs i cins js"
    unfolding i3 by (simp add: row_bits_def)
  show ?case
    unfolding loop row using IH fa by (simp del: holds_gates)
qed (simp add: row_bits_def)

lemma last_column_loop_correct:
  assumes "rows_ok as bs i cins js" "fml out"
  shows "fml (last_column_loop C as bs i cins js out)
     \<and> of_bool (holds I (last_column_loop C as bs i cins js out)) = (of_bool (holds I out) + row_bits I as bs i cins js) mod 2"
  using assms
proof (induction js arbitrary: out)
  case (Cons j js)
  let ?i3 = "c_and C [as ! j, bs ! (i - j)]" and ?c = "cins ! (j - 2)"
  let ?out = "c_xor3 C ?i3 out ?c"
  have f: "fml ?i3" "fml ?c" "fml ?out" "rows_ok as bs i cins js" 
    using Cons.prems by (auto simp: rows_ok_def)
  have i3: "holds I ?i3 = (holds I (as ! j) \<and> holds I (bs ! (i - j)))"
    using Cons.prems(1) by (auto simp: rows_ok_def)
  have "holds I ?out = ((holds I ?i3 \<noteq> holds I out) \<noteq> holds I ?c)"
    using f(1,2) Cons.prems(2) by simp
  then have "(of_bool (holds I ?out) + m) mod 2
     = (of_bool (holds I out) + (of_bool (holds I ?i3) + of_bool (holds I ?c) + m)) mod 2" for m :: nat
    by (cases "holds I ?i3"; cases "holds I out"; cases "holds I ?c") (simp_all add: mod_Suc)
  then show ?case using Cons.IH[OF f(4,3)] unfolding i3 by (simp add: row_bits_def add.assoc)
qed (simp add: row_bits_def)

text \<open>The sum a column receives.\<close>

lemma column_split:
  assumes "0 < i" "length cins = i - 1" "i < length as" "i < length bs"
  shows "of_bool (holds I (as ! 0) \<and> holds I (bs ! i)) + of_bool (holds I (as ! 1) \<and> holds I (bs ! (i - 1)))
      + row_bits I as bs i cins [2..<Suc i]
     = column (map (holds I) as) (map (holds I) bs) i + cnt I cins"
proof -
  let ?f = "\<lambda>j. of_bool (holds I (as ! j) \<and> holds I (bs ! (i - j))) :: nat"
  have "column (map (holds I) as) (map (holds I) bs) i = sum_list (map ?f [0..<Suc i])"
    using assms(3,4) unfolding column_def interv_sum_list_conv_sum_set_nat
    by (intro sum.cong) auto
  also have "[0..<Suc i] = 0 # 1 # [2..<Suc i]"
    using assms(1) by (simp add: upt_conv_Cons numeral_2_eq_2)
  finally have c: "column (map (holds I) as) (map (holds I) bs) i = ?f 0 + ?f 1 + sum_list (map ?f [2..<Suc i])"
    by simp
  have "map (\<lambda>j. cins ! (j - 2)) [2..<Suc i] = cins"
    using assms(1,2) by (intro nth_equalityI) (auto simp del: upt_Suc)
  then have "cnt I cins = sum_list (map (\<lambda>j. of_bool (holds I (cins ! (j - 2)))) [2..<Suc i])"
    unfolding cnt_def by (metis (no_types, lifting) map_eq_conv map_map comp_apply)
  then show ?thesis
    unfolding c row_bits_def sum_list_addf by simp
qed

lemma rows_ok_upt:
  assumes "fmls as" "fmls bs" "fmls cins" "length cins = i - 1" "i < length as" "i < length bs"
  shows "rows_ok as bs i cins [2..<Suc i]"
  using assms by (auto simp: rows_ok_def)

lemma array_loop_correct:
  assumes "fmls as" "fmls bs" "length as = n" "length bs = n"
  shows "0 < i \<Longrightarrow> i \<le> n \<Longrightarrow> fmls cins \<Longrightarrow> length cins = i - 1 \<Longrightarrow>
     length (array_loop C as bs [i..<n] cins) = n - i \<and> fmls (array_loop C as bs [i..<n] cins)
     \<and> (i < n \<longrightarrow> uval I (array_loop C as bs [i..<n] cins)
         = (cnt I cins + horner2 (column (map (holds I) as) (map (holds I) bs)) [i..<n]) mod 2 ^ (n - i))"
proof (induction "n - i" arbitrary: i cins)
  case (Suc d)
  let ?col = "column (map (holds I) as) (map (holds I) bs)"
  have i: "i < n" using Suc.hyps(2) by simp
  let ?i1 = "c_and C [as ! 0, bs ! i]" and ?i2 = "c_and C [as ! 1, bs ! (i - 1)]"
  have idx: "0 < length as" "1 < length as" "i < length bs" "i - 1 < length bs"
    using i Suc.prems(1) assms(3,4) by auto
  then have mem: "fml (as ! 0)" "fml (as ! 1)" "fml (bs ! i)" "fml (bs ! (i - 1))"
    using assms(1,2) nth_mem by blast+
  then have f: "fml ?i1" "fml ?i2" by auto
  have h: "holds I ?i1 = (holds I (as ! 0) \<and> holds I (bs ! i))"
    "holds I ?i2 = (holds I (as ! 1) \<and> holds I (bs ! (i - 1)))" using mem by auto
  have rows: "rows_ok as bs i cins [2..<Suc i]"
    using rows_ok_upt[OF assms(1,2) Suc.prems(3,4)] i assms(3,4) by simp
  have split: "of_bool (holds I ?i1) + of_bool (holds I ?i2) + row_bits I as bs i cins [2..<Suc i]
      = ?col i + cnt I cins"
    unfolding h using column_split[OF Suc.prems(1,4)] i assms(3,4) by simp
  have upt: "[i..<n] = i # [Suc i..<n]" using i by (simp add: upt_conv_Cons)
  show ?case
  proof (cases "i < n - 1")
    case True
    define o0 where "o0 = c_xor C ?i1 ?i2"
    define c0 where "c0 = c_and C [?i1, ?i2]"
    define r where "r = column_loop C as bs i cins [2..<Suc i] o0 [c0]"
    have o0: "fml o0" "fml c0" "fmls [c0]" using f by (simp_all add: o0_def c0_def)
    have ha: "of_bool (holds I o0) + 2 * cnt I [c0] = of_bool (holds I ?i1) + (of_bool (holds I ?i2) :: nat)"
      using f half_adder_value[of "holds I ?i1" "holds I ?i2"] by (simp add: o0_def c0_def)
    note cl = column_loop_correct[OF rows o0(1) o0(3), of I, folded r_def]
    have r: "fml (fst r)" "fmls (snd r)" using cl by blast+
    have "length (snd r) = length [c0] + length [2..<Suc i]" using cl by blast
    then have len: "length (snd r) = Suc i - 1" using Suc.prems(1) by (simp del: upt_Suc)
    have "of_bool (holds I (fst r)) + 2 * cnt I (snd r)
        = of_bool (holds I o0) + 2 * cnt I [c0] + row_bits I as bs i cins [2..<Suc i]" using cl by blast
    then have val: "of_bool (holds I (fst r)) + 2 * cnt I (snd r) = ?col i + cnt I cins"
      unfolding ha split .
    have loop: "array_loop C as bs [i..<n] cins = fst r # array_loop C as bs [Suc i..<n] (snd r)"
      unfolding upt using True assms(3) by (simp add: mk_half_adder_def r_def o0_def c0_def Let_def split_def)
    have IH: "length (array_loop C as bs [Suc i..<n] (snd r)) = n - Suc i
        \<and> fmls (array_loop C as bs [Suc i..<n] (snd r))
        \<and> uval I (array_loop C as bs [Suc i..<n] (snd r)) = (cnt I (snd r) + horner2 ?col [Suc i..<n]) mod 2 ^ (n - Suc i)"
      using Suc.hyps(1)[of "Suc i" "snd r"] Suc.hyps(2) True r len by auto
    have "uval I (array_loop C as bs [i..<n] cins)
        = of_bool (holds I (fst r)) + 2 * ((cnt I (snd r) + horner2 ?col [Suc i..<n]) mod 2 ^ (n - Suc i))"
      unfolding loop using IH by simp
    also have "\<dots> = (of_bool (holds I (fst r)) + 2 * (cnt I (snd r) + horner2 ?col [Suc i..<n])) mod 2 ^ (n - i)"
      using i by (simp add: bit_mod[symmetric] Suc_diff_Suc[symmetric])
    also have "of_bool (holds I (fst r)) + 2 * (cnt I (snd r) + horner2 ?col [Suc i..<n])
        = cnt I cins + horner2 ?col [i..<n]"
      unfolding upt horner2.simps by (rule horner_step[OF val])
    finally show ?thesis using IH r i unfolding loop by auto
  next
    case False
    then have n: "n = Suc i" using i by simp
    define out where "out = last_column_loop C as bs i cins [2..<Suc i] (c_xor C ?i1 ?i2)"
    have out: "fml out" "of_bool (holds I out) = (of_bool (holds I (c_xor C ?i1 ?i2)) + row_bits I as bs i cins [2..<Suc i]) mod (2 :: nat)"
      unfolding out_def
      using last_column_loop_correct[OF rows fml_gates(1)[OF f], of I] by blast+
    have "(of_bool (holds I (c_xor C ?i1 ?i2)) + m) mod 2
        = (of_bool (holds I ?i1) + of_bool (holds I ?i2) + m) mod (2 :: nat)" for m
      using f by (cases "holds I ?i1"; cases "holds I ?i2") (simp_all add: mod_Suc)
    then have val: "of_bool (holds I out) = (cnt I cins + ?col i) mod 2"
      using out(2) split by (simp add: add.commute)
    have "array_loop C as bs [i..<n] cins = [out]"
      using assms(3) n by (simp add: out_def Let_def)
    then show ?thesis using out(1) val n by simp
  qed
qed simp

lemma mk_array_multiplier_correct:
  assumes "fmls as" "fmls bs" "length as = length bs" "as \<noteq> []"
  shows "is_product I (length as) (mk_array_multiplier C as bs) as bs"
proof -
  let ?n = "length as" and ?col = "column (map (holds I) as) (map (holds I) bs)"
  let ?rest = "array_loop C as bs [1..<?n] []"
  have n: "0 < ?n" using assms(4) by simp
  have mem: "fml (as ! 0)" "fml (bs ! 0)" using n assms(1-3) nth_mem by metis+
  have rest: "length ?rest = ?n - 1" "fmls ?rest"
    and v: "1 < ?n \<Longrightarrow> uval I ?rest = horner2 ?col [1..<?n] mod 2 ^ (?n - 1)"
    using array_loop_correct[OF assms(1,2) refl assms(3)[symmetric], of 1 "[]" I] n by auto
  have col0: "?col 0 = of_bool (holds I (as ! 0) \<and> holds I (bs ! 0))"
    using n assms(3) by (simp add: column_def)
  have v': "uval I ?rest = horner2 ?col [1..<?n] mod 2 ^ (?n - 1)"
  proof (cases "1 < ?n")
    case False
    then have "?n = 1" using n by linarith
    then show ?thesis using rest(1) by simp
  qed (rule v)
  have "uval I (mk_array_multiplier C as bs) = ?col 0 + 2 * (horner2 ?col [1..<?n] mod 2 ^ (?n - 1))"
    unfolding mk_array_multiplier_def using v' mem col0 by simp
  also have "\<dots> = (?col 0 + 2 * horner2 ?col [1..<?n]) mod 2 ^ ?n"
    unfolding col0 using bit_mod[of _ "horner2 ?col [1..<?n]" "?n - 1"] n
    by (metis One_nat_def Suc_pred power_Suc)
  also have "?col 0 + 2 * horner2 ?col [1..<?n] = horner2 ?col [0..<?n]"
    using n by (simp add: upt_conv_Cons)
  also have "\<dots> = (\<Sum>k<?n. 2 ^ k * ?col k)"
    unfolding horner2_upt by (simp add: lessThan_atLeast0)
  also have "\<dots> mod 2 ^ ?n = uval I as * uval I bs mod 2 ^ ?n"
    using product_columns[of "map (holds I) as" ?n "map (holds I) bs"] assms(3) by simp
  finally show ?thesis
    using rest mem n unfolding is_product_def mk_array_multiplier_def by auto
qed

end

section \<open>The Wallace tree multiplier\<close>

definition pps_ok :: "nat \<Rightarrow> expr list list \<Rightarrow> bool" where
  "pps_ok n pps \<longleftrightarrow> (\<forall>p \<in> set pps. fmls p \<and> length p = n)"

definition uvals :: "interp \<Rightarrow> expr list list \<Rightarrow> nat" where
  "uvals I pps = sum_list (map (uval I) pps)"

lemma add_mod3:
  assumes "h mod m = r mod m"
  shows "(a + (b mod m + h)) mod m = (a + b + r) mod (m :: nat)"
proof -
  have "(b mod m + h) mod m = (b + r) mod m" by (intro mod_add_cong assms) simp
  then have "(a + (b mod m + h)) mod m = (a + (b + r)) mod m" by (rule mod_add_cong[OF refl])
  then show ?thesis by (simp add: add.assoc)
qed

lemma butlast_shift:
  "uval I (butlast (EFalse # cs)) = 2 * uval I cs mod 2 ^ length cs"
proof -
  have "map (holds I) (butlast (EFalse # cs)) = take (length cs) (False # map (holds I) cs)"
    by (simp add: butlast_conv_take take_map[symmetric] del: butlast.simps)
  then show ?thesis by (simp add: bv_take del: butlast.simps)
qed

context gates
begin

lemma mk_carry_save_adder_correct:
  assumes "length as = length bs" "length bs = length cs" "fmls as" "fmls bs" "fmls cs"
    "mk_carry_save_adder C as bs cs = (sm, carry)"
  shows "length sm = length as \<and> length carry = length as \<and> fmls sm \<and> fmls carry
    \<and> uval I sm + 2 * uval I carry = uval I as + uval I bs + uval I cs"
  using assms
proof (induction as bs cs arbitrary: sm carry rule: list_induct3)
  case (Cons a as b bs c cs)
  obtain s' c' where r: "mk_carry_save_adder C as bs cs = (s', c')" by fastforce
  have f: "fml a" "fml b" "fml c" using Cons.prems by auto
  have eq: "sm = c_xor3 C a b c # s'" "carry = c_carry C a b c # c'"
    using Cons.prems(4) r by (auto simp: mk_carry_save_adder_def)
  have IH: "length s' = length as \<and> length c' = length as \<and> fmls s' \<and> fmls c'
    \<and> uval I s' + 2 * uval I c' = uval I as + uval I bs + uval I cs"
    using Cons.IH[OF _ _ _ r] Cons.prems(1-3) by auto
  have "of_bool (holds I (c_xor3 C a b c)) + 2 * of_bool (holds I (c_carry C a b c))
      = of_bool (holds I a) + of_bool (holds I b) + (of_bool (holds I c) :: nat)"
    unfolding holds_gates(2,3)[OF f] by (rule full_adder_value)
  then show ?case using IH f unfolding eq by (simp del: holds_gates)
qed (simp add: mk_carry_save_adder_def)

lemma wallace_round_correct:
  "pps_ok n pps \<Longrightarrow> pps_ok n (wallace_round C pps) \<and> uvals I (wallace_round C pps) mod 2 ^ n = uvals I pps mod 2 ^ n
     \<and> (2 \<le> length pps \<longrightarrow> 2 \<le> length (wallace_round C pps))"
proof (induction "length pps" arbitrary: pps rule: less_induct)
  case less
  show ?case
  proof (cases "(C, pps)" rule: wallace_round.cases)
    case (1 C' p1 p2 p3 rest)
    then have pps: "pps = p1 # p2 # p3 # rest" by simp
    have p: "fmls p1" "fmls p2" "fmls p3" "length p1 = n" "length p2 = n" "length p3 = n" and rest: "pps_ok n rest"
      using less.prems unfolding pps by (auto simp: pps_ok_def)
    obtain s c where r: "mk_carry_save_adder C p1 p2 p3 = (s, c)" by fastforce
    have csa: "length s = n \<and> length c = n \<and> fmls s \<and> fmls c \<and> uval I s + 2 * uval I c = uval I p1 + uval I p2 + uval I p3"
      using mk_carry_save_adder_correct[OF _ _ p(1-3) r, of I] p(4-6) by simp
    let ?c = "butlast (EFalse # c)"
    have "set ?c \<subseteq> set (EFalse # c)" by (rule subsetI) (rule in_set_butlastD)
    then have c: "fmls ?c" "length ?c = n" "uval I ?c = 2 * uval I c mod 2 ^ n"
      using csa butlast_shift[of I c] by (auto simp del: butlast.simps)
    have wr: "wallace_round C pps = s # ?c # wallace_round C rest"
      unfolding pps using r by simp
    have IH: "pps_ok n (wallace_round C rest)" "uvals I (wallace_round C rest) mod 2 ^ n = uvals I rest mod 2 ^ n"
      using less.hyps[OF _ rest] unfolding pps by auto
    have "uvals I (wallace_round C pps) mod 2 ^ n = (uval I s + 2 * uval I c + uvals I rest) mod 2 ^ n"
      unfolding wr uvals_def list.map sum_list.Cons c(3) by (rule add_mod3[OF IH(2)[unfolded uvals_def]])
    also have "uval I s + 2 * uval I c + uvals I rest = uvals I pps"
      unfolding pps using csa by (simp add: uvals_def)
    finally show ?thesis using IH(1) c csa unfolding wr pps_ok_def by auto
  qed (use less.prems in simp_all)
qed

lemma wallace_loop_correct:
  "pps_ok n pps \<Longrightarrow> 2 \<le> length pps \<Longrightarrow> pps_ok n (wallace_loop C pps) \<and> length (wallace_loop C pps) = 2
     \<and> uvals I (wallace_loop C pps) mod 2 ^ n = uvals I pps mod 2 ^ n"
proof (induction "length pps" arbitrary: pps rule: less_induct)
  case less
  show ?case
  proof (cases "length pps \<le> 2")
    case True
    then show ?thesis using less.prems by (subst wallace_loop.simps, subst wallace_loop.simps, subst wallace_loop.simps) simp
  next
    case False
    let ?r = "wallace_round C pps"
    have "length ?r < length pps" using False by (intro wallace_round_less) simp
    moreover have "pps_ok n ?r" "2 \<le> length ?r" "uvals I ?r mod 2 ^ n = uvals I pps mod 2 ^ n"
      using wallace_round_correct[OF less.prems(1), of I] less.prems(2) by auto
    moreover have "wallace_loop C pps = wallace_loop C ?r"
      using False by (subst wallace_loop.simps) simp
    ultimately show ?thesis using less.hyps by simp
  qed
qed

lemma partial_product_correct:
  assumes "fmls as" "fmls bs" "length as = length bs" "i < length as"
  shows "fmls (partial_product C as bs i) \<and> length (partial_product C as bs i) = length as
    \<and> uval I (partial_product C as bs i)
      = 2 ^ i * (of_bool (holds I (bs ! i)) * (uval I as mod 2 ^ (length as - i)))"
proof -
  have b: "fml (bs ! i)" using assms by simp
  have a: "fml (as ! j)" if "j < length as" for j using that assms(1) by simp
  have "map (holds I) (map (\<lambda>j. c_and C [as ! j, bs ! i]) [0..<length as - i])
      = map (\<lambda>x. x \<and> holds I (bs ! i)) (take (length as - i) (map (holds I) as))"
    by (intro nth_equalityI) (use a b in auto)
  also have "bv \<dots> = of_bool (holds I (bs ! i)) * bv (take (length as - i) (map (holds I) as))"
  proof (cases "holds I (bs ! i)")
    case False
    then show ?thesis using bv_eq_0_iff by auto
  qed simp
  finally have "uval I (map (\<lambda>j. c_and C [as ! j, bs ! i]) [0..<length as - i])
      = of_bool (holds I (bs ! i)) * (uval I as mod 2 ^ (length as - i))"
    by (simp only: bv_take)
  moreover have "map (holds I) (replicate i EFalse) = replicate i False" by simp
  ultimately have "uval I (partial_product C as bs i)
      = 2 ^ i * (of_bool (holds I (bs ! i)) * (uval I as mod 2 ^ (length as - i)))"
    by (simp only: partial_product_def map_append bv_append bv_replicate_False length_replicate add_0)
  then show ?thesis using a b assms(4) by (auto simp: partial_product_def)
qed

lemma mk_wallace_multiplier_correct:
  assumes "fmls as" "fmls bs" "length as = length bs" "as \<noteq> []"
  shows "is_product I (length as) (mk_wallace_multiplier C as bs) as bs"
proof (cases "length as = 1")
  case True
  then obtain a b where "as = [a]" "bs = [b]" using assms(3) by (auto simp: length_Suc_conv)
  then show ?thesis using assms by (auto simp: is_product_def mk_wallace_multiplier_def)
next
  case False
  let ?n = "length as"
  let ?pps = "map (partial_product C as bs) [0..<?n]"
  have n: "2 \<le> ?n" using False assms(4) by (cases as) (auto simp: Suc_le_eq)
  have pp: "i < ?n \<Longrightarrow> fmls (partial_product C as bs i) \<and> length (partial_product C as bs i) = ?n
    \<and> uval I (partial_product C as bs i)
      = 2 ^ i * (of_bool (holds I (bs ! i)) * (uval I as mod 2 ^ (?n - i)))" for i
    using partial_product_correct[OF assms(1-3)] .
  have ok: "pps_ok ?n ?pps" using pp by (auto simp: pps_ok_def)
  have "uvals I ?pps = (\<Sum>i<?n. uval I (partial_product C as bs i))"
    by (simp add: uvals_def comp_def interv_sum_list_conv_sum_set_nat lessThan_atLeast0)
  also have "\<dots> = (\<Sum>i<?n. 2 ^ i * (of_bool (map (holds I) bs ! i) * (uval I as mod 2 ^ (?n - i))))"
    using pp assms(3) by (intro sum.cong) auto
  also have "\<dots> mod 2 ^ ?n = uval I as * uval I bs mod 2 ^ ?n"
    using product_rows[of "map (holds I) bs" "map (holds I) as"] assms(3) by simp
  finally have total: "uvals I ?pps mod 2 ^ ?n = uval I as * uval I bs mod 2 ^ ?n" .
  have loop: "pps_ok ?n (wallace_loop C ?pps)" "length (wallace_loop C ?pps) = 2"
    "uvals I (wallace_loop C ?pps) mod 2 ^ ?n = uvals I ?pps mod 2 ^ ?n"
    using wallace_loop_correct[OF ok, of I] n by simp_all
  obtain p q where w: "wallace_loop C ?pps = [p, q]" using loop(2) by (rule length_2E)
  have pq: "fmls p" "fmls q" "length p = ?n" "length q = ?n" using loop(1) unfolding w by (simp_all add: pps_ok_def)
  have v: "(uval I p + uval I q) mod 2 ^ ?n = uvals I ?pps mod 2 ^ ?n"
    using loop(3) unfolding w by (simp add: uvals_def)
  have "mk_wallace_multiplier C as bs = mk_adder C p q"
    using False by (simp add: mk_wallace_multiplier_def Let_def w)
  then show ?thesis
    using mk_adder_correct(1)[OF pq(1,2)] mk_adder_correct(2)[OF pq(1,2), of I] pq(3,4) v total
    by (simp add: is_product_def)
qed

end

section \<open>The multiplier of the template\<close>

locale blaster_gates = gates T for T :: "'a bit_blaster_tpl_scheme"
begin

lemma mk_const_multiplier_correct:
  assumes "fmls as" "fmls bs" "length as = length bs" "mk_const_multiplier T as bs = Some out"
  shows "is_product I (length as) out as bs"
proof -
  have num: "is_numeral as" and out: "out = booth_loop T False as bs (mk_neg T bs) (replicate (length as) EFalse)"
    using assms(4) mk_const_case_multiplier_false[of as bs]
    by (auto simp: mk_const_multiplier_def Let_def numeral_of_const[symmetric] split: if_splits prod.splits)
  note booth = booth_loop_correct[OF assms(2) mk_neg_correct(1)[OF assms(2)] length_mk_neg neg_cong[OF assms(2), of I] num,
      of "replicate (length as) EFalse" False]
  have o: "length out = length as" "fmls out"
    and c: "dvd_diff2 (length as) (int (uval I out)) (int (uval I bs * uval I as))"
    using booth assms(3) unfolding out by auto
  have "uval I out < 2 ^ length as" using uval_less[of I out] o(1) by simp
  with dvd_diff2_eq[OF c] o show ?thesis by (simp add: is_product_def mult.commute)
qed

lemma is_product_sym: "is_product I n out as bs \<Longrightarrow> is_product I n out bs as"
  by (simp add: is_product_def mult.commute)

theorem mk_multiplier_correct:
  assumes "fmls as" "fmls bs" "length as = length bs" "as \<noteq> []"
  shows "is_product I (length as) (mk_multiplier T as bs) as bs"
proof -
  let ?n = "length as"
  define as' where "as' = (if numeral_of as \<noteq> None then bs else as)"
  define bs' where "bs' = (if numeral_of as \<noteq> None then as else bs)"
  have f: "fmls as'" "fmls bs'" "length as' = length bs'" "length as' = ?n" "as' \<noteq> []"
    using assms by (auto simp: as'_def bs'_def)
  have prod: "uval I as' * uval I bs' = uval I as * uval I bs" by (simp add: as'_def bs'_def)
  have eq: "mk_multiplier T as bs =
     (if is_minus_one bs' then mk_neg T as'
         else case (numeral_of as', numeral_of as) of
             (Some n_a, Some n) \<Rightarrow> num2bits (n_a * n) ?n
           | _ \<Rightarrow>
               (case mk_const_multiplier T as' bs' of
                  Some out \<Rightarrow> out
                | None \<Rightarrow>
                    (case mk_const_multiplier T bs' as' of
                       Some out \<Rightarrow> out
                     | None \<Rightarrow>
                         if \<not> m_use_wtm T then mk_array_multiplier T as' bs'
                         else mk_wallace_multiplier T as' bs')))"
    using f(4) by (auto simp: mk_multiplier_def Let_def as'_def bs'_def split: option.splits)
  have "is_product I ?n (mk_multiplier T as bs) as' bs'"
  proof -
    have neg: "is_product I ?n (mk_neg T as') as' bs'" if "is_minus_one bs'"
    proof -
      have "uval I bs' + 1 = 2 ^ ?n" using is_minus_one_uval[OF that, of I] f by simp
      then have m: "uval I as' * uval I bs' + uval I as' = uval I as' * 2 ^ ?n"
        by (metis add_mult_distrib2 mult.right_neutral)
      have le: "uval I as' < 2 ^ ?n" using uval_less[of I as'] f(4) by simp
      have "(2 ^ ?n - uval I as') mod 2 ^ ?n = uval I as' * uval I bs' mod 2 ^ ?n"
      proof (cases "uval I as'")
        case (Suc k)
        then have "uval I as' * uval I bs' = k * 2 ^ ?n + (2 ^ ?n - uval I as')"
          using m le by (simp add: algebra_simps)
        then show ?thesis by (simp add: mod_mult_self3)
      qed simp
      then show ?thesis using mk_neg_correct(1)[OF f(1)] mk_neg_correct(2)[OF f(1), of I] f(4) by (simp add: is_product_def)
    qed
    have num: "is_product I ?n (num2bits (n_a * n) ?n) as' bs'"
      if "numeral_of as' = Some n_a" "numeral_of as = Some n" for n_a n
    proof -
      have "uval I as' = n_a" "uval I bs' = n"
        using numeral_of_sound[OF that(1), of I] numeral_of_sound[OF that(2), of I] that(2) by (simp_all add: bs'_def)
      then show ?thesis by (simp add: is_product_def)
    qed
    have c1: "is_product I ?n out as' bs'" if "mk_const_multiplier T as' bs' = Some out" for out
      using mk_const_multiplier_correct[OF f(1-3) that] f(4) by simp
    have c2: "is_product I ?n out as' bs'" if "mk_const_multiplier T bs' as' = Some out" for out
      using is_product_sym[OF mk_const_multiplier_correct[OF f(2,1) f(3)[symmetric] that]] f(3,4) by simp
    have "is_product I ?n (mk_array_multiplier T as' bs') as' bs'"
      "is_product I ?n (mk_wallace_multiplier T as' bs') as' bs'"
      using mk_array_multiplier_correct[OF f(1-3,5)] mk_wallace_multiplier_correct[OF f(1-3,5)] f(4) by simp_all
    then show ?thesis using neg num c1 c2 unfolding eq by (auto split: option.splits)
  qed
  then show ?thesis by (simp add: is_product_def prod)
qed

end

interpretation bb_mul: blaster_gates "new_tpl (bit_blaster_cfg ast_id p rw) w b"
  by unfold_locales

interpretation blaster_mul: blaster_gates "new_tpl (blaster_cfg rw) w b"
  by unfold_locales

end
