(* ===== verification/Bit_Blaster_Div.thy ===== *)
theory Bit_Blaster_Div
  imports Bit_Blaster_Mul_Sound
begin

text \<open>
  Division and remainder: the restoring divider \<^verbatim>\<open>mk_udiv_urem\<close> and the signed operations built
  from it. Division by zero is as the standard has it: all ones for the quotient, the dividend
  for the remainder.
\<close>

section \<open>The divider\<close>

text \<open>\<open>p\<close> is the residual; round \<open>i\<close> decides bit \<open>sz - i - 1\<close> of the quotient and shifts the next bit of
  the dividend in, except in the last round. \<^verbatim>\<open>q_bits\<close> starts with \<open>sz\<close> entries, all of them set by
  the end.\<close>

fun udiv_loop ::
  "'a cfg_scheme \<Rightarrow> expr list \<Rightarrow> expr list \<Rightarrow> nat list \<Rightarrow> expr list \<Rightarrow> expr list
    \<Rightarrow> expr list \<times> expr list" where
  "udiv_loop C a_bits b_bits [] p q_bits = (q_bits, p)"
| "udiv_loop C a_bits b_bits (i # is) p q_bits =
     (let sz = length a_bits;
          (t, q) = mk_subtracter C p b_bits;
          p' = (if i < sz - 1
                then a_bits ! (sz - i - 2) # map2 (c_ite C q) (butlast t) (butlast p)
                else map2 (c_ite C q) t p)
      in udiv_loop C a_bits b_bits is p' (q_bits[sz - i - 1 := q]))"

definition mk_udiv_urem :: "'a cfg_scheme \<Rightarrow> expr list \<Rightarrow> expr list \<Rightarrow> expr list \<times> expr list" where
  "mk_udiv_urem C a_bits b_bits =
     (let sz = length a_bits;
          p = last a_bits # replicate (sz - 1) EFalse
      in udiv_loop C a_bits b_bits [0..<sz] p (replicate sz EFalse))"

definition mk_udiv :: "'a cfg_scheme \<Rightarrow> expr list \<Rightarrow> expr list \<Rightarrow> expr list" where
  "mk_udiv C a_bits b_bits = fst (mk_udiv_urem C a_bits b_bits)"

definition mk_urem :: "'a cfg_scheme \<Rightarrow> expr list \<Rightarrow> expr list \<Rightarrow> expr list" where
  "mk_urem C a_bits b_bits = snd (mk_udiv_urem C a_bits b_bits)"

section \<open>Signed division\<close>

definition mk_sdiv :: "'a cfg_scheme \<Rightarrow> expr list \<Rightarrow> expr list \<Rightarrow> expr list" where
  "mk_sdiv C a_bits b_bits =
     (let a_msb = last a_bits; b_msb = last b_bits
      in if a_msb = EFalse \<and> b_msb = EFalse then mk_udiv C a_bits b_bits
         else if a_msb = EFalse \<and> b_msb = ETrue then
           let neg_b_bits = mk_neg C b_bits in mk_neg C (mk_udiv C a_bits neg_b_bits)
         else if a_msb = ETrue \<and> b_msb = EFalse then
           let neg_a_bits = mk_neg C a_bits in mk_neg C (mk_udiv C neg_a_bits b_bits)
         else if a_msb = ETrue \<and> b_msb = ETrue then
           let neg_a_bits = mk_neg C a_bits; neg_b_bits = mk_neg C b_bits
           in mk_udiv C neg_a_bits neg_b_bits
         else
           let abs_a_bits = mk_abs C a_bits;
               abs_b_bits = mk_abs C b_bits;
               udiv_bits = mk_udiv C abs_a_bits abs_b_bits;
               neg_udiv_bits = mk_neg C udiv_bits;
               c = c_iff C a_msb b_msb
           in mk_multiplexer C c udiv_bits neg_udiv_bits)"

text \<open>\<^verbatim>\<open>is_power_of_two\<close> of a numeral, with the exponent.\<close>

fun power_of_two :: "nat \<Rightarrow> nat option" where
  "power_of_two n =
     (if n = 0 then None else if n = 1 then Some 0
      else if even n then map_option Suc (power_of_two (n div 2)) else None)"

declare power_of_two.simps [simp del]

definition mk_srem :: "'a cfg_scheme \<Rightarrow> expr list \<Rightarrow> expr list \<Rightarrow> expr list" where
  "mk_srem C a_bits b_bits =
     (let a_msb = last a_bits; b_msb = last b_bits
      in if a_msb = EFalse \<and> b_msb = EFalse then mk_urem C a_bits b_bits
         else if a_msb = EFalse \<and> b_msb = ETrue then
           let neg_b_bits = mk_neg C b_bits in mk_urem C a_bits neg_b_bits
         else if a_msb = ETrue \<and> b_msb = EFalse then
           let neg_a_bits = mk_neg C a_bits in mk_neg C (mk_urem C neg_a_bits b_bits)
         else if a_msb = ETrue \<and> b_msb = ETrue then
           let neg_a_bits = mk_neg C a_bits; neg_b_bits = mk_neg C b_bits
           in mk_neg C (mk_urem C neg_a_bits neg_b_bits)
         else
           let abs_a_bits = mk_abs C a_bits;
               abs_b_bits = mk_abs C b_bits;
               urem_bits =
                 (case Option.bind (numeral_of abs_b_bits) power_of_two of
                    Some shift \<Rightarrow> mk_zero_extend shift abs_a_bits (length a_bits - shift)
                  | None \<Rightarrow> mk_urem C abs_a_bits abs_b_bits);
               neg_urem_bits = mk_neg C urem_bits
           in mk_multiplexer C a_msb neg_urem_bits urem_bits)"

definition mk_smod :: "'a cfg_scheme \<Rightarrow> expr list \<Rightarrow> expr list \<Rightarrow> expr list" where
  "mk_smod C a_bits b_bits =
     (let a_msb = last a_bits;
          b_msb = last b_bits;
          abs_a_bits = mk_abs C a_bits;
          abs_b_bits = mk_abs C b_bits;
          u_bits = mk_urem C abs_a_bits abs_b_bits;
          neg_u_bits = mk_neg C u_bits;
          neg_u_add_b = mk_adder C neg_u_bits b_bits;
          u_add_b = mk_adder C u_bits b_bits;
          zero = num2bits 0 (length a_bits);
          u_eq_0 = mk_eq_bits C u_bits zero;
          ite1 = mk_multiplexer C b_msb neg_u_bits neg_u_add_b;
          ite2 = mk_multiplexer C b_msb u_add_b u_bits;
          body = mk_multiplexer C a_msb ite1 ite2
      in mk_multiplexer C u_eq_0 u_bits body)"

section \<open>Correctness of the divider\<close>

lemma drop_update: "k < length xs \<Longrightarrow> drop k (xs[k := x]) = x # drop (Suc k) xs"
  by (metis Cons_nth_drop_Suc drop_update_cancel length_list_update lessI nth_list_update_eq)

text \<open>The state before round \<open>i\<close>: the quotient \<open>Q\<close> and remainder \<open>R\<close> of the first \<open>i\<close> bits of the dividend.\<close>

definition div_state :: "nat \<Rightarrow> nat \<Rightarrow> nat \<Rightarrow> nat \<Rightarrow> nat \<Rightarrow> bool" where
  "div_state A B i Q R \<longleftrightarrow> A = Q * B + R \<and> (0 < B \<longrightarrow> R < B) \<and> (B = 0 \<longrightarrow> Q = 2 ^ i - 1)"

lemma div_state_step:
  assumes "div_state A B i Q R" and "P = of_bool b + 2 * R"
  shows "div_state (of_bool b + 2 * A) B (Suc i) (of_bool (B \<le> P) + 2 * Q) (if B \<le> P then P - B else P)"
proof (cases "B = 0")
  case True
  have "(1::nat) \<le> 2 ^ i" by simp
  then have "1 + 2 * (2 ^ i - 1) = 2 * 2 ^ i - (1::nat)" by linarith
  then show ?thesis using assms True by (simp add: div_state_def)
next
  case False
  then show ?thesis using assms by (auto simp: div_state_def algebra_simps)
qed

lemma div_state_final:
  "div_state A B n Q R \<Longrightarrow> Q = (if B = 0 then 2 ^ n - 1 else A div B) \<and> R = A mod B"
  by (auto simp: div_state_def)

lemma div_state_le: "div_state A B i Q R \<Longrightarrow> R \<le> A"
  by (auto simp: div_state_def)

text \<open>The bits of a number from the top.\<close>

lemma div_top_bit:
  "i < length xs \<Longrightarrow> bv xs div 2 ^ (length xs - Suc i)
     = of_bool (xs ! (length xs - Suc i)) + 2 * (bv xs div 2 ^ (length xs - i))"
proof -
  assume i: "i < length xs"
  let ?k = "length xs - Suc i"
  have "drop ?k xs = xs ! ?k # drop (Suc ?k) xs" using i by (simp add: Cons_nth_drop_Suc)
  moreover have "Suc ?k = length xs - i" using i by simp
  ultimately have "bv (drop ?k xs) = of_bool (xs ! ?k) + 2 * bv (drop (length xs - i) xs)" by simp
  then show ?thesis by (simp only: bv_drop)
qed

context gates
begin

lemma ite_list_correct:
  assumes "fml q" "fmls ts" "fmls ps" "length ts = length ps"
  shows "fmls (map2 (c_ite C q) ts ps)"
    "uval I (map2 (c_ite C q) ts ps) = (if holds I q then uval I ts else uval I ps)"
  using mk_multiplexer_bits(1)[OF assms] mk_multiplexer_uval[OF assms] by (simp_all add: mk_multiplexer_def)

lemma udiv_loop_correct:
  assumes "fmls as" "fmls bs" "length as = n" "length bs = n"
  shows "i < n \<Longrightarrow> fmls p \<Longrightarrow> length p = n \<Longrightarrow> fmls qs \<Longrightarrow> length qs = n \<Longrightarrow>
     div_state (uval I as div 2 ^ (n - i)) (uval I bs) i (uval I (drop (n - i) qs)) R \<Longrightarrow>
     uval I p = of_bool (holds I (as ! (n - Suc i))) + 2 * R \<Longrightarrow>
     udiv_loop C as bs [i..<n] p qs = (q', r') \<Longrightarrow>
     fmls q' \<and> length q' = n \<and> fmls r' \<and> length r' = n
     \<and> div_state (uval I as) (uval I bs) n (uval I q') (uval I r')"
proof (induction "n - i" arbitrary: i p qs R)
  case (Suc d)
  let ?B = "uval I bs" and ?A = "\<lambda>i. uval I as div 2 ^ (n - i)"
  obtain t q where s: "mk_subtracter C p bs = (t, q)" by fastforce
  have lp: "length p = length bs" using Suc.prems(3) assms(4) by simp
  note sub = mk_subtracter_correct[OF Suc.prems(2) assms(2) lp, unfolded s fst_conv snd_conv]
  have lt: "length t = n" using length_mk_subtracter[OF lp, of C] s lp assms(4) by simp
  let ?qs = "qs[n - Suc i := q]"
  let ?R = "if ?B \<le> uval I p then uval I p - ?B else uval I p"
  have pick: "(if holds I q then uval I t else uval I p) = ?R" using sub(3,4)[of I] by simp
  have A: "?A (Suc i) = of_bool (holds I (as ! (n - Suc i))) + 2 * ?A i"
    using div_top_bit[of i "map (holds I) as"] Suc.prems(1) assms(3) by simp
  have drop: "uval I (drop (n - Suc i) ?qs) = of_bool (holds I q) + 2 * uval I (drop (n - i) qs)"
  proof -
    have "drop (n - Suc i) ?qs = q # drop (n - i) qs"
      using drop_update[of "n - Suc i" qs q] Suc.prems(1,5) by (simp add: Suc_diff_Suc)
    then show ?thesis by simp
  qed
  have st: "div_state (?A (Suc i)) ?B (Suc i) (uval I (drop (n - Suc i) ?qs)) ?R"
    using div_state_step[OF Suc.prems(6,7)] sub(3)[of I] unfolding A drop by simp
  have qs: "fmls ?qs" "length ?qs = n"
    using fmls_update[OF Suc.prems(4) sub(2)] Suc.prems(5) by simp_all
  show ?case
  proof (cases "i < n - 1")
    case True
    define p' where "p' = as ! (n - i - 2) # map2 (c_ite C q) (butlast t) (butlast p)"
    have mem: "fml (as ! (n - i - 2))" using True assms(1,3) by simp
    have bl: "fmls (butlast t)" "fmls (butlast p)" "length (butlast t) = length (butlast p)"
      using sub(1) Suc.prems(2,3) lt by (auto dest: in_set_butlastD)
    note it = ite_list_correct[OF sub(2) bl]
    have p': "fmls p'" "length p' = n" using it(1) mem True lt Suc.prems(3) by (auto simp: p'_def)
    have "uval I (butlast xs) = uval I xs mod 2 ^ (n - 1)" if "length xs = n" for xs
      using that bv_take[of "n - 1" "map (holds I) xs"] by (simp add: butlast_conv_take take_map)
    then have "uval I (map2 (c_ite C q) (butlast t) (butlast p)) = ?R mod 2 ^ (n - 1)"
      using it(2)[of I] pick lt Suc.prems(3) by (auto split: if_splits)
    moreover have "?R < 2 ^ (n - 1)"
    proof -
      have "?R \<le> ?A (Suc i)" by (rule div_state_le[OF st])
      also have "?A (Suc i) < 2 ^ Suc i"
        using uval_less[of I as] assms(3) Suc.prems(1)
        by (metis Suc_leI less_mult_imp_div_less le_add_diff_inverse power_add)
      also have "(2::nat) ^ Suc i \<le> 2 ^ (n - 1)" using True by (intro power_increasing) auto
      finally show ?thesis .
    qed
    ultimately have v: "uval I p' = of_bool (holds I (as ! (n - Suc (Suc i)))) + 2 * ?R"
      by (simp add: p'_def numeral_2_eq_2)
    have "udiv_loop C as bs [i..<n] p qs = udiv_loop C as bs [Suc i..<n] p' ?qs"
      using True s assms(3) Suc.prems(1)
      by (simp add: upt_conv_Cons[of i n] p'_def Let_def)
    then have u: "udiv_loop C as bs [Suc i..<n] p' ?qs = (q', r')" using Suc.prems(8) by simp
    show ?thesis
      by (rule Suc.hyps(1)[OF _ _ p' qs st v u]) (use Suc.hyps(2) True in auto)
  next
    case False
    then have i: "Suc i = n" using Suc.prems(1) by simp
    have lt': "length t = length p" using lt Suc.prems(3) by simp
    note it = ite_list_correct[OF sub(2,1) Suc.prems(2) lt']
    have "udiv_loop C as bs [i..<n] p qs = (?qs, map2 (c_ite C q) t p)"
      using False s assms(3) i by (simp add: upt_conv_Cons Let_def)
    then have r: "q' = ?qs" "r' = map2 (c_ite C q) t p" using Suc.prems(8) by auto
    have "uval I r' = ?R" unfolding r it(2) pick ..
    then show ?thesis using st qs it(1) lt lt' i unfolding r by simp
  qed
qed simp

lemma mk_udiv_urem_correct:
  assumes "fmls as" "fmls bs" "length as = length bs" "as \<noteq> []"
  shows "fmls (mk_udiv C as bs)" "length (mk_udiv C as bs) = length as"
    "uval I (mk_udiv C as bs) = (if uval I bs = 0 then 2 ^ length as - 1 else uval I as div uval I bs)"
    "fmls (mk_urem C as bs)" "length (mk_urem C as bs) = length as"
    "uval I (mk_urem C as bs) = uval I as mod uval I bs"
proof -
  let ?n = "length as"
  let ?p = "last as # replicate (?n - 1) EFalse"
  have n: "0 < ?n" using assms(4) by simp
  obtain q r where u: "udiv_loop C as bs [0..<?n] ?p (replicate ?n EFalse) = (q, r)" by fastforce
  have p: "fmls ?p" "length ?p = ?n" using assms(1,4) n by auto
  have st: "div_state (uval I as div 2 ^ (?n - 0)) (uval I bs) 0 (uval I (drop (?n - 0) (replicate ?n EFalse))) 0"
    by (simp add: div_state_def)
  have v: "uval I ?p = of_bool (holds I (as ! (?n - Suc 0))) + 2 * 0"
    using assms(4) by (simp add: last_conv_nth map_replicate)
  have ok: "fmls q \<and> length q = ?n \<and> fmls r \<and> length r = ?n
     \<and> div_state (uval I as) (uval I bs) ?n (uval I q) (uval I r)"
    by (rule udiv_loop_correct[OF assms(1,2) refl assms(3)[symmetric] n p _ _ st v u]) simp_all
  then have fin: "uval I q = (if uval I bs = 0 then 2 ^ ?n - 1 else uval I as div uval I bs)"
    "uval I r = uval I as mod uval I bs" using div_state_final by blast+
  have "mk_udiv C as bs = q" "mk_urem C as bs = r"
    using u by (simp_all add: mk_udiv_def mk_urem_def mk_udiv_urem_def Let_def)
  then show "fmls (mk_udiv C as bs)" "length (mk_udiv C as bs) = length as"
    "uval I (mk_udiv C as bs) = (if uval I bs = 0 then 2 ^ length as - 1 else uval I as div uval I bs)"
    "fmls (mk_urem C as bs)" "length (mk_urem C as bs) = length as"
    "uval I (mk_urem C as bs) = uval I as mod uval I bs"
    using ok fin by simp_all
qed

end

section \<open>Correctness of the signed operations\<close>

text \<open>The operations of the standard on integers. Division truncates; the remainder has the sign of the
  dividend, the modulus (\<open>mod\<close> on integers) the sign of the divisor.\<close>

definition sdiv_spec :: "int \<Rightarrow> int \<Rightarrow> int" where
  "sdiv_spec a b = (if b = 0 then (if a < 0 then 1 else - 1) else sgn a * sgn b * (\<bar>a\<bar> div \<bar>b\<bar>))"

definition srem_spec :: "int \<Rightarrow> int \<Rightarrow> int" where
  "srem_spec a b = sgn a * (\<bar>a\<bar> mod \<bar>b\<bar>)"

lemma sval_neg_iff: "as \<noteq> [] \<Longrightarrow> sval I as < 0 \<longleftrightarrow> holds I (last as)"
proof -
  assume as: "as \<noteq> []"
  have "int (uval I as) < 2 ^ length as"
    using uval_less[of I as] by (metis of_nat_less_iff of_nat_numeral of_nat_power)
  with as show ?thesis by (auto simp: sbv_def last_map)
qed

text \<open>\<open>xs\<close> holds the absolute value of \<open>as\<close>.\<close>

definition is_abs :: "interp \<Rightarrow> expr list \<Rightarrow> expr list \<Rightarrow> bool" where
  "is_abs I xs as \<longleftrightarrow> fmls xs \<and> length xs = length as \<and> int (uval I xs) = \<bar>sval I as\<bar>"

text \<open>A number given as a value and a sign, in two's complement.\<close>

definition signed_bits :: "nat \<Rightarrow> bool \<Rightarrow> nat \<Rightarrow> nat" where
  "signed_bits n neg u = (if neg then (2 ^ n - u) mod 2 ^ n else u)"

lemma int_neg_mod: "u \<le> 2 ^ n \<Longrightarrow> int ((2 ^ n - u) mod 2 ^ n) = - int u mod 2 ^ n"
proof -
  assume "u \<le> 2 ^ n"
  then have "int (2 ^ n - u) = 2 ^ n - int u" by (simp add: of_nat_diff)
  then have "int ((2 ^ n - u) mod 2 ^ n) = (2 ^ n - int u) mod 2 ^ n" by (simp add: of_nat_mod)
  also have "\<dots> = - int u mod 2 ^ n" by (metis add.commute mod_add_self1 uminus_add_conv_diff)
  finally show ?thesis .
qed

lemma signed_bits_int:
  assumes "u < 2 ^ n"
  shows "int (signed_bits n neg u) = (if neg then - int u else int u) mod 2 ^ n"
proof -
  have "int u < 2 ^ n" using assms by (metis of_nat_less_iff of_nat_numeral of_nat_power)
  then show ?thesis using int_neg_mod[of u n] assms by (simp add: signed_bits_def)
qed

lemma sdiv_spec_bits:
  assumes n: "0 < n" and A: "int A = \<bar>a\<bar>" and B: "int B = \<bar>b\<bar>" and "A < 2 ^ n"
  shows "int (signed_bits n ((a < 0) \<noteq> (b < 0)) (if B = 0 then 2 ^ n - 1 else A div B)) = sdiv_spec a b mod 2 ^ n"
proof -
  have lt: "(if B = 0 then 2 ^ n - 1 else A div B) < 2 ^ n"
    using assms(4) by (auto intro: le_less_trans[OF div_le_dividend])
  show ?thesis
  proof (cases "b = 0")
    case True
    have "(1::int) < 2 ^ n" using n by simp
    have "(1 - 2 ^ n) mod 2 ^ n = (1 :: int)"
      using n minus_mod_self2[of "1 :: int" "2 ^ n"] by simp
    then have m1: "(- (2 ^ n - 1)) mod 2 ^ n = (1 :: int)" by (simp only: minus_diff_eq)
    have m2: "(2 ^ n - 1) mod 2 ^ n = (- 1 :: int) mod 2 ^ n"
      using mod_add_self2[of "- 1 :: int" "2 ^ n"] by (simp only: add.commute[of "- 1"] add_uminus_conv_diff)
    have B0: "B = 0" using True B by simp
    have i: "int (2 ^ n - 1) = 2 ^ n - 1" by (simp add: of_nat_diff)
    show ?thesis
      using signed_bits_int[OF lt, of "(a < 0) \<noteq> (b < 0)"] m1 m2 \<open>1 < 2 ^ n\<close>
      unfolding B0 True sdiv_spec_def by (simp only: i simp_thms if_True split: if_splits) auto
  next
    case False
    then have "B \<noteq> 0" using B by auto
    then have "int (if B = 0 then 2 ^ n - 1 else A div B) = \<bar>a\<bar> div \<bar>b\<bar>" using A B by (simp add: zdiv_int)
    then show ?thesis using signed_bits_int[OF lt, of "(a < 0) \<noteq> (b < 0)"] False
      by (cases "a = 0") (auto simp: sdiv_spec_def sgn_if)
  qed
qed

lemma srem_spec_bits:
  assumes A: "int A = \<bar>a\<bar>" and B: "int B = \<bar>b\<bar>" and "A < 2 ^ n"
  shows "int (signed_bits n (a < 0) (A mod B)) = srem_spec a b mod 2 ^ n"
proof -
  have "A mod B < 2 ^ n" using assms(3) mod_less_eq_dividend[of A B] by (rule le_less_trans[rotated])
  from signed_bits_int[OF this] show ?thesis
    using A B by (cases "a = 0") (auto simp: srem_spec_def sgn_if zmod_int)
qed

lemma power_of_two_sound: "power_of_two n = Some s \<Longrightarrow> n = 2 ^ s"
proof (induction n arbitrary: s rule: power_of_two.induct)
  case (1 n)
  show ?case
    using 1 by (subst (asm) power_of_two.simps) (auto split: if_splits elim!: evenE)
qed

text \<open>The modulus by cases on the signs; the case of a zero remainder comes first.\<close>

lemma smod_cases:
  fixes a b :: int
  defines "u \<equiv> \<bar>a\<bar> mod \<bar>b\<bar>"
  shows "a mod b = (if u = 0 then 0 else if a < 0 then (if b < 0 then - u else b - u)
      else (if b < 0 then u + b else u))"
proof -
  have u0: "u = 0 \<longleftrightarrow> b dvd a" by (simp add: u_def dvd_eq_mod_eq_0[symmetric])
  show ?thesis
  proof (cases "b dvd a")
    case True
    then show ?thesis using u0 by simp
  next
    case False
    then have n0: "u \<noteq> 0" "\<bar>b\<bar> dvd a \<longleftrightarrow> False" using u0 by auto
    consider "0 \<le> a" "0 \<le> b" | "0 \<le> a" "b < 0" | "a < 0" "0 \<le> b" | "a < 0" "b < 0" by linarith
    then show ?thesis
    proof cases
      case 2
      have "a mod b = - ((- a) mod (- b))" by (simp only: mod_minus_minus minus_minus)
      moreover have "(- a) mod (- b) = - b - a mod (- b)"
        using False zmod_zminus1_eq_if[of a "- b"] by (simp add: mod_eq_0_iff_dvd)
      ultimately show ?thesis using 2 n0 by (simp add: u_def)
    next
      case 3
      have "(- a) mod b \<noteq> 0" using False by (metis dvd_eq_mod_eq_0 dvd_minus_iff)
      then have "a mod b = b - (- a) mod b"
        using zmod_zminus1_eq_if[of "- a" b] by (simp only: minus_minus if_False)
      then show ?thesis using 3 n0 by (simp add: u_def)
    next
      case 4
      have "a mod b = - ((- a) mod (- b))" by (simp only: mod_minus_minus minus_minus)
      then show ?thesis using 4 n0 by (simp add: u_def)
    qed (use n0 in \<open>auto simp: u_def\<close>)
  qed
qed

context gates
begin

lemma abs_is_abs: "fmls as \<Longrightarrow> as \<noteq> [] \<Longrightarrow> is_abs I (mk_abs C as) as"
  using mk_abs_correct by (simp add: is_abs_def)

lemma pos_is_abs: "fmls as \<Longrightarrow> as \<noteq> [] \<Longrightarrow> last as = EFalse \<Longrightarrow> is_abs I as as"
  using mk_abs_correct(2)[of as I] by (simp add: is_abs_def mk_abs_def)

lemma neg_is_abs: "fmls as \<Longrightarrow> as \<noteq> [] \<Longrightarrow> last as = ETrue \<Longrightarrow> is_abs I (mk_neg C as) as"
  using mk_abs_correct(2)[of as I] mk_neg_correct(1)[of as] by (simp add: is_abs_def mk_abs_def)

lemma neg_signed_bits: "fmls xs \<Longrightarrow> uval I (mk_neg C xs) = signed_bits (length xs) True (uval I xs)"
  by (simp add: mk_neg_correct signed_bits_def)

lemma udiv_abs:
  assumes "is_abs I xs as" "is_abs I ys bs" "length as = length bs" "as \<noteq> []"
  defines "A \<equiv> nat \<bar>sval I as\<bar>" and "B \<equiv> nat \<bar>sval I bs\<bar>"
  shows "fmls (mk_udiv C xs ys) \<and> length (mk_udiv C xs ys) = length as
      \<and> uval I (mk_udiv C xs ys) = (if B = 0 then 2 ^ length as - 1 else A div B)"
    and "fmls (mk_urem C xs ys) \<and> length (mk_urem C xs ys) = length as \<and> uval I (mk_urem C xs ys) = A mod B"
proof -
  have x: "fmls xs" "length xs = length as" "uval I xs = A" and y: "fmls ys" "length ys = length as" "uval I ys = B"
    using assms by (auto simp: is_abs_def)
  then have "length xs = length ys" "xs \<noteq> []" using assms(4) by auto
  note ud = mk_udiv_urem_correct[OF x(1) y(1) this]
  show "fmls (mk_udiv C xs ys) \<and> length (mk_udiv C xs ys) = length as
      \<and> uval I (mk_udiv C xs ys) = (if B = 0 then 2 ^ length as - 1 else A div B)"
    using ud(1,2) ud(3)[of I] x y by simp
  show "fmls (mk_urem C xs ys) \<and> length (mk_urem C xs ys) = length as \<and> uval I (mk_urem C xs ys) = A mod B"
    using ud(4,5) ud(6)[of I] x y by simp
qed

text \<open>A list of formulas with a given value, and what negation and selection do to it.\<close>

definition denotes :: "interp \<Rightarrow> expr list \<Rightarrow> nat \<Rightarrow> nat \<Rightarrow> bool" where
  "denotes I xs n v \<longleftrightarrow> fmls xs \<and> length xs = n \<and> uval I xs = v"

lemma denotes_neg: "denotes I xs n v \<Longrightarrow> denotes I (mk_neg C xs) n (signed_bits n True v)"
  using mk_neg_correct(1)[of xs] neg_signed_bits[of xs I] by (auto simp: denotes_def)

lemma denotes_mux:
  "fml c \<Longrightarrow> denotes I xs n v \<Longrightarrow> denotes I ys n w \<Longrightarrow>
     denotes I (mk_multiplexer C c xs ys) n (if holds I c then v else w)"
  using mk_multiplexer_bits(1)[of c xs ys] mk_multiplexer_uval[of c xs ys I] by (simp add: denotes_def)

lemma denotes_adder:
  "denotes I xs n v \<Longrightarrow> denotes I ys n w \<Longrightarrow> denotes I (mk_adder C xs ys) n ((v + w) mod 2 ^ n)"
  using mk_adder_correct(1)[of xs ys] mk_adder_correct(2)[of xs ys I] by (auto simp: denotes_def)

lemma signed_bits_False [simp]: "signed_bits n False v = v"
  by (simp add: signed_bits_def)

lemma mk_sdiv_denotes:
  fixes I
  assumes f: "fmls as" "fmls bs" and len: "length as = length bs" and ne: "as \<noteq> []"
  defines "A \<equiv> nat \<bar>sval I as\<bar>" and "B \<equiv> nat \<bar>sval I bs\<bar>"
  shows "denotes I (mk_sdiv C as bs) (length as) (signed_bits (length as)
      (holds I (last as) \<noteq> holds I (last bs)) (if B = 0 then 2 ^ length as - 1 else A div B))"
proof -
  have nb: "bs \<noteq> []" using ne len by auto
  have msb: "fml (last as)" "fml (last bs)" using f ne nb by auto
  note a = pos_is_abs[OF f(1) ne] neg_is_abs[OF f(1) ne] abs_is_abs[OF f(1) ne]
  note b = pos_is_abs[OF f(2) nb] neg_is_abs[OF f(2) nb] abs_is_abs[OF f(2) nb]
  have ud: "denotes I (mk_udiv C xs ys) (length as) (if B = 0 then 2 ^ length as - 1 else A div B)"
    if "is_abs I xs as" "is_abs I ys bs" for xs ys
    using udiv_abs(1)[OF that len ne] by (simp add: denotes_def A_def B_def)
  have last: "denotes I (mk_multiplexer C (c_iff C (last as) (last bs)) (mk_udiv C (mk_abs C as) (mk_abs C bs))
        (mk_neg C (mk_udiv C (mk_abs C as) (mk_abs C bs)))) (length as)
      (signed_bits (length as) (holds I (last as) \<noteq> holds I (last bs))
         (if B = 0 then 2 ^ length as - 1 else A div B))"
    using denotes_mux[OF fml_gates(4)[OF msb] ud[OF a(3) b(3)] denotes_neg[OF ud[OF a(3) b(3)]]] msb
    by (auto split: if_splits)
  consider "last as = EFalse" "last bs = EFalse" | "last as = EFalse" "last bs = ETrue"
    | "last as = ETrue" "last bs = EFalse" | "last as = ETrue" "last bs = ETrue"
    | "\<not> (last as \<in> {EFalse, ETrue} \<and> last bs \<in> {EFalse, ETrue})" by blast
  then show ?thesis
  proof cases
    case 1
    then show ?thesis using ud[OF a(1) b(1)] by (simp add: mk_sdiv_def Let_def)
  next
    case 2
    then show ?thesis using denotes_neg[OF ud[OF a(1) b(2)]] by (simp add: mk_sdiv_def Let_def)
  next
    case 3
    then show ?thesis using denotes_neg[OF ud[OF a(2) b(1)]] by (simp add: mk_sdiv_def Let_def)
  next
    case 4
    then show ?thesis using ud[OF a(2) b(2)] by (simp add: mk_sdiv_def Let_def)
  next
    case 5
    then have "mk_sdiv C as bs = mk_multiplexer C (c_iff C (last as) (last bs)) (mk_udiv C (mk_abs C as) (mk_abs C bs))
        (mk_neg C (mk_udiv C (mk_abs C as) (mk_abs C bs)))"
      by (auto simp: mk_sdiv_def Let_def)
    then show ?thesis using last by (simp only:)
  qed
qed

lemma is_abs_nat: "is_abs I xs as \<Longrightarrow> nat \<bar>sval I as\<bar> = uval I xs"
  by (metis is_abs_def nat_int)

lemma abs_sval_less: "as \<noteq> [] \<Longrightarrow> fmls as \<Longrightarrow> nat \<bar>sval I as\<bar> < 2 ^ length as"
  using is_abs_nat[OF abs_is_abs[of as I]] uval_less[of I "mk_abs C as"] by simp

theorem mk_sdiv_correct:
  assumes "fmls as" "fmls bs" "length as = length bs" "as \<noteq> []"
  shows "fmls (mk_sdiv C as bs) \<and> length (mk_sdiv C as bs) = length as
    \<and> int (uval I (mk_sdiv C as bs)) = sdiv_spec (sval I as) (sval I bs) mod 2 ^ length as"
proof -
  have nb: "bs \<noteq> []" using assms(3,4) by auto
  have "0 < length as" using assms(4) by simp
  from sdiv_spec_bits[OF this _ _ abs_sval_less[OF assms(4,1)], of I "sval I as" "nat \<bar>sval I bs\<bar>" "sval I bs"]
  show ?thesis
    using mk_sdiv_denotes[OF assms, of I] sval_neg_iff[OF assms(4), of I] sval_neg_iff[OF nb, of I]
    by (simp add: denotes_def)
qed

lemma mk_srem_denotes:
  fixes I
  assumes f: "fmls as" "fmls bs" and len: "length as = length bs" and ne: "as \<noteq> []"
  defines "A \<equiv> nat \<bar>sval I as\<bar>" and "B \<equiv> nat \<bar>sval I bs\<bar>"
  shows "denotes I (mk_srem C as bs) (length as) (signed_bits (length as) (holds I (last as)) (A mod B))"
proof -
  have nb: "bs \<noteq> []" using ne len by auto
  have msb: "fml (last as)" using f ne by auto
  note a = pos_is_abs[OF f(1) ne] neg_is_abs[OF f(1) ne] abs_is_abs[OF f(1) ne]
  note b = pos_is_abs[OF f(2) nb] neg_is_abs[OF f(2) nb] abs_is_abs[OF f(2) nb]
  have ur: "denotes I (mk_urem C xs ys) (length as) (A mod B)" if "is_abs I xs as" "is_abs I ys bs" for xs ys
    using udiv_abs(2)[OF that len ne] by (simp add: denotes_def A_def B_def)
  define u where "u = (case Option.bind (numeral_of (mk_abs C bs)) power_of_two of
      Some shift \<Rightarrow> mk_zero_extend shift (mk_abs C as) (length as - shift)
    | None \<Rightarrow> mk_urem C (mk_abs C as) (mk_abs C bs))"
  have u: "denotes I u (length as) (A mod B)"
  proof (cases "Option.bind (numeral_of (mk_abs C bs)) power_of_two")
    case None
    then show ?thesis using ur[OF a(3) b(3)] by (simp add: u_def)
  next
    case (Some s)
    then obtain n where n: "numeral_of (mk_abs C bs) = Some n" "power_of_two n = Some s" by (auto simp: bind_eq_Some_conv)
    have B: "B = 2 ^ s"
      using numeral_of_sound[OF n(1), of I] power_of_two_sound[OF n(2)] is_abs_nat[OF b(3), of I] by (simp add: B_def)
    have "B < 2 ^ length as" using abs_sval_less[OF nb f(2), of I] len by (simp add: B_def)
    then have "s < length as" unfolding B by simp
    then show ?thesis
      using Some a(3) is_abs_nat[OF a(3), of I] mk_zero_extend_uval[of I s "mk_abs C as" "length as - s"]
      by (auto simp: u_def denotes_def is_abs_def A_def B mk_zero_extend_def dest: in_set_takeD)
  qed
  consider "last as = EFalse" "last bs = EFalse" | "last as = EFalse" "last bs = ETrue"
    | "last as = ETrue" "last bs = EFalse" | "last as = ETrue" "last bs = ETrue"
    | "\<not> (last as \<in> {EFalse, ETrue} \<and> last bs \<in> {EFalse, ETrue})" by blast
  then show ?thesis
  proof cases
    case 1
    then show ?thesis using ur[OF a(1) b(1)] by (simp add: mk_srem_def Let_def)
  next
    case 2
    then show ?thesis using ur[OF a(1) b(2)] by (simp add: mk_srem_def Let_def)
  next
    case 3
    then show ?thesis using denotes_neg[OF ur[OF a(2) b(1)]] by (simp add: mk_srem_def Let_def)
  next
    case 4
    then show ?thesis using denotes_neg[OF ur[OF a(2) b(2)]] by (simp add: mk_srem_def Let_def)
  next
    case 5
    then have "mk_srem C as bs = mk_multiplexer C (last as) (mk_neg C u) u"
      by (auto simp: mk_srem_def Let_def u_def)
    then show ?thesis using denotes_mux[OF msb denotes_neg[OF u] u] by (auto split: if_splits)
  qed
qed

theorem mk_srem_correct:
  assumes "fmls as" "fmls bs" "length as = length bs" "as \<noteq> []"
  shows "fmls (mk_srem C as bs) \<and> length (mk_srem C as bs) = length as
    \<and> int (uval I (mk_srem C as bs)) = srem_spec (sval I as) (sval I bs) mod 2 ^ length as"
  using srem_spec_bits[OF _ _ abs_sval_less[OF assms(4,1)], of I "sval I as" "nat \<bar>sval I bs\<bar>" "sval I bs"]
    mk_srem_denotes[OF assms, of I] sval_neg_iff[OF assms(4), of I]
  by (simp add: denotes_def)

theorem mk_smod_correct:
  assumes f: "fmls as" "fmls bs" and len: "length as = length bs" and ne: "as \<noteq> []"
  shows "fmls (mk_smod C as bs) \<and> length (mk_smod C as bs) = length as
    \<and> int (uval I (mk_smod C as bs)) = (sval I as mod sval I bs) mod 2 ^ length as"
proof -
  let ?n = "length as"
  have nb: "bs \<noteq> []" using ne len by auto
  have msb: "fml (last as)" "fml (last bs)" using f ne nb by auto
  define u where "u = nat \<bar>sval I as\<bar> mod nat \<bar>sval I bs\<bar>"
  define us where "us = mk_urem C (mk_abs C as) (mk_abs C bs)"
  have u: "denotes I us ?n u"
    using udiv_abs(2)[OF abs_is_abs[OF f(1) ne] abs_is_abs[OF f(2) nb] len ne]
    by (simp add: denotes_def us_def u_def)
  have b: "denotes I bs ?n (uval I bs)" using f len by (simp add: denotes_def)
  have ult: "u < 2 ^ ?n" using u uval_less[of I us] by (simp add: denotes_def)
  let ?neg = "signed_bits ?n True u"
  note n = denotes_neg[OF u]
  define ite1 where "ite1 = mk_multiplexer C (last bs) (mk_neg C us) (mk_adder C (mk_neg C us) bs)"
  define ite2 where "ite2 = mk_multiplexer C (last bs) (mk_adder C us bs) us"
  define zero where "zero = mk_eq_bits C us (num2bits 0 ?n)"
  have lenu: "fmls us" "length us = length (num2bits 0 ?n)" using u by (auto simp: denotes_def)
  have z: "fml zero" "holds I zero \<longleftrightarrow> u = 0"
    using mk_eq_bits_correct(1)[OF lenu(1) fml_num2bits lenu(2)] mk_eq_bits_correct(2)[OF lenu(1) fml_num2bits lenu(2), of I] u
    by (simp_all add: zero_def denotes_def)
  note i1 = denotes_mux[OF msb(2) n denotes_adder[OF n b], folded ite1_def]
  note i2 = denotes_mux[OF msb(2) denotes_adder[OF u b] u, folded ite2_def]
  note out = denotes_mux[OF z(1) u denotes_mux[OF msb(1) i1 i2]]
  have eq: "mk_smod C as bs = mk_multiplexer C zero us (mk_multiplexer C (last as) ite1 ite2)"
    by (simp add: mk_smod_def Let_def us_def ite1_def ite2_def zero_def)
  have neg: "int ?neg = - int u mod 2 ^ ?n" using signed_bits_int[OF ult, of True] by simp
  have sb: "int (uval I bs) = sval I bs mod 2 ^ ?n" using sval_mod[of I bs] len by simp
  have uu: "int u = \<bar>sval I as\<bar> mod \<bar>sval I bs\<bar>" by (simp add: u_def zmod_int)
  have u': "int u = int u mod 2 ^ ?n" using ult
    by (metis mod_less of_nat_mod of_nat_numeral of_nat_power)
  have "int (if u = 0 then u else if holds I (last as) then (if holds I (last bs) then ?neg else (?neg + uval I bs) mod 2 ^ ?n)
      else if holds I (last bs) then (u + uval I bs) mod 2 ^ ?n else u) = (sval I as mod sval I bs) mod 2 ^ ?n"
    unfolding smod_cases[of "sval I as" "sval I bs"] uu[symmetric] sval_neg_iff[OF ne] sval_neg_iff[OF nb]
    using u' neg sb by (auto simp: of_nat_mod mod_simps)
  then show ?thesis using out z(2) unfolding eq denotes_def by (auto split: if_splits)
qed

end

end
