(* ===== verification/Bit_Blaster_Shift.thy ===== *)
theory Bit_Blaster_Shift
  imports Bit_Blaster_Div
begin

text \<open>
  The shifts of the bit-blaster (a barrel shifter, or a fixed shift when the amount is a
  numeral) and the rotations by a bit-vector.
\<close>

section \<open>Shifts\<close>

text \<open>
  The three shifts share a loop: stage \<open>i\<close> moves the word by \<open>2 ^ i\<close> if bit \<open>i\<close> of the amount is set,
  until \<open>2 ^ i\<close> reaches the size; \<open>src shift j out\<close> is the bit that moves to position \<open>j\<close>. The bits of
  the amount left over say that it is too large, and then the result is \<open>fill\<close> everywhere.
\<close>

fun barrel_loop ::
  "'a cfg_scheme \<Rightarrow> (nat \<Rightarrow> nat \<Rightarrow> expr list \<Rightarrow> expr) \<Rightarrow> nat \<Rightarrow> nat \<Rightarrow> expr list \<Rightarrow> expr list
    \<Rightarrow> expr list \<times> expr list" where
  "barrel_loop C src sz i [] out_bits = (out_bits, [])"
| "barrel_loop C src sz i (b # bs) out_bits =
     (let shift_i = 2 ^ i
      in if sz \<le> shift_i then (out_bits, b # bs)
         else
           let new_out_bits = map (\<lambda>j. c_ite C b (src shift_i j out_bits) (out_bits ! j)) [0..<sz]
           in barrel_loop C src sz (Suc i) bs new_out_bits)"

definition barrel ::
  "'a cfg_scheme \<Rightarrow> (nat \<Rightarrow> nat \<Rightarrow> expr list \<Rightarrow> expr) \<Rightarrow> expr \<Rightarrow> expr list \<Rightarrow> expr list \<Rightarrow> expr list" where
  "barrel C src fill a_bits b_bits =
     (let (out_bits, rest) = barrel_loop C src (length a_bits) 0 b_bits a_bits;
          is_large = foldl (\<lambda>acc b. c_or C [acc, b]) EFalse rest
      in map (\<lambda>b. c_ite C is_large fill b) out_bits)"

definition mk_shl :: "'a cfg_scheme \<Rightarrow> expr list \<Rightarrow> expr list \<Rightarrow> expr list" where
  "mk_shl C a_bits b_bits =
     (let sz = length a_bits
      in case numeral_of b_bits of
           Some k \<Rightarrow>
             let n = (if sz < k then sz else k)
             in replicate n EFalse @ take (sz - n) a_bits
         | None \<Rightarrow>
             barrel C (\<lambda>shift j out. if shift \<le> j then out ! (j - shift) else EFalse) EFalse a_bits b_bits)"

definition mk_lshr :: "'a cfg_scheme \<Rightarrow> expr list \<Rightarrow> expr list \<Rightarrow> expr list" where
  "mk_lshr C a_bits b_bits =
     (let sz = length a_bits
      in case numeral_of b_bits of
           Some k \<Rightarrow>
             let n = (if sz < k then sz else k)
             in drop n a_bits @ replicate n EFalse
         | None \<Rightarrow>
             barrel C (\<lambda>shift j out. if shift + j < sz then out ! (j + shift) else EFalse) EFalse a_bits b_bits)"

definition mk_ashr :: "'a cfg_scheme \<Rightarrow> expr list \<Rightarrow> expr list \<Rightarrow> expr list" where
  "mk_ashr C a_bits b_bits =
     (let sz = length a_bits; msb = last a_bits
      in case numeral_of b_bits of
           Some k \<Rightarrow>
             let n = (if sz < k then sz else k)
             in drop n a_bits @ replicate n msb
         | None \<Rightarrow>
             barrel C (\<lambda>shift j out. if shift + j < sz then out ! (j + shift) else msb) msb a_bits b_bits)"

section \<open>Rotations by a bit-vector\<close>

text \<open>\<^verbatim>\<open>k.is_unsigned()\<close>: the numeral fits the 32 bits of an unsigned integer.\<close>

definition is_unsigned :: "nat \<Rightarrow> bool" where
  "is_unsigned k \<longleftrightarrow> k < 2 ^ 32"

definition mk_ext_rotate_left_right ::
  "bool \<Rightarrow> 'a cfg_scheme \<Rightarrow> expr list \<Rightarrow> expr list \<Rightarrow> expr list" where
  "mk_ext_rotate_left_right left C a_bits b_bits =
     (let sz = length a_bits;
          general =
            (let sz_bits = num2bits sz sz;
                 masked_b_bits = mk_urem C b_bits sz_bits;
                 eqs = mk_eqs C masked_b_bits
             in map (\<lambda>i. foldl (\<lambda>out j.
                     c_ite C (eqs ! j) (a_bits ! ((if left then sz + i - j else i + j) mod sz)) out)
                   (a_bits ! i) [1..<sz]) [0..<sz])
      in case numeral_of b_bits of
           Some k \<Rightarrow>
             if is_unsigned k then
               (if left then mk_rotate_left a_bits k else mk_rotate_right a_bits k)
             else general
         | None \<Rightarrow> general)"

definition mk_ext_rotate_left :: "'a cfg_scheme \<Rightarrow> expr list \<Rightarrow> expr list \<Rightarrow> expr list" where
  "mk_ext_rotate_left C a_bits b_bits = mk_ext_rotate_left_right True C a_bits b_bits"

definition mk_ext_rotate_right :: "'a cfg_scheme \<Rightarrow> expr list \<Rightarrow> expr list \<Rightarrow> expr list" where
  "mk_ext_rotate_right C a_bits b_bits = mk_ext_rotate_left_right False C a_bits b_bits"

section \<open>Shifting lists of truth values\<close>

text \<open>A family of shifts: shifting by \<open>s\<close> then by \<open>t\<close> is shifting by \<open>s + t\<close>, and a shift by at least the
  length leaves the fill bit.\<close>

definition lbits :: "nat \<Rightarrow> bool list \<Rightarrow> bool list" where
  "lbits s xs = map (\<lambda>j. s \<le> j \<and> xs ! (j - s)) [0..<length xs]"

definition rbits :: "bool \<Rightarrow> nat \<Rightarrow> bool list \<Rightarrow> bool list" where
  "rbits fill s xs = map (\<lambda>j. if s + j < length xs then xs ! (j + s) else fill) [0..<length xs]"

lemma length_shift_bits [simp]: "length (lbits s xs) = length xs" "length (rbits f s xs) = length xs"
  by (simp_all add: lbits_def rbits_def)

lemma lbits_0 [simp]: "lbits 0 xs = xs" and rbits_0 [simp]: "rbits f 0 xs = xs"
  by (auto simp: lbits_def rbits_def intro: nth_equalityI)

lemma lbits_lbits: "lbits s (lbits t xs) = lbits (s + t) xs"
  by (intro nth_equalityI) (auto simp: lbits_def add.commute)

lemma rbits_rbits: "rbits f s (rbits f t xs) = rbits f (s + t) xs"
  by (intro nth_equalityI) (auto simp: rbits_def add_ac)

lemma lbits_large: "length xs \<le> s \<Longrightarrow> lbits s xs = replicate (length xs) False"
  and rbits_large: "length xs \<le> s \<Longrightarrow> rbits f s xs = replicate (length xs) f"
  by (auto simp: lbits_def rbits_def map_replicate_const intro!: nth_equalityI)

lemma lbits_append: "s \<le> length xs \<Longrightarrow> lbits s xs = replicate s False @ take (length xs - s) xs"
  by (intro nth_equalityI) (auto simp: lbits_def nth_append)

lemma rbits_append: "s \<le> length xs \<Longrightarrow> rbits f s xs = drop s xs @ replicate s f"
  by (intro nth_equalityI) (auto simp: rbits_def nth_append add.commute)

lemma bv_lbits: "bv (lbits s xs) = bv xs * 2 ^ s mod 2 ^ length xs"
proof (cases "s \<le> length xs")
  case True
  then have "bv (lbits s xs) = 2 ^ s * (bv xs mod 2 ^ (length xs - s))"
    by (simp add: lbits_append bv_take)
  also have "\<dots> = 2 ^ s * bv xs mod 2 ^ length xs"
    using True by (simp add: mult_mod_right flip: power_add)
  finally show ?thesis by (simp add: mult.commute)
next
  case False
  then have "(2::nat) ^ length xs dvd 2 ^ s" by (simp add: le_imp_power_dvd)
  then show ?thesis using False by (simp add: lbits_large)
qed

lemma bv_rbits: "bv (rbits False s xs) = bv xs div 2 ^ s"
proof (cases "s \<le> length xs")
  case True
  then show ?thesis by (simp add: rbits_append bv_drop)
next
  case False
  then have "bv xs < 2 ^ s" using bv_less[of xs] by (meson less_le_trans nat_le_linear one_le_numeral power_increasing)
  then show ?thesis using False by (simp add: rbits_large)
qed

lemma sbv_rbits:
  assumes xs: "xs \<noteq> []"
  shows "sbv (rbits (last xs) s xs) = sbv xs div 2 ^ s"
proof (cases "s \<le> length xs")
  case True
  define k where "k = length xs - s"
  have len: "length xs = k + s" using True by (simp add: k_def)
  have v: "int (bv (drop s xs)) = int (bv xs) div 2 ^ s" by (simp add: bv_drop zdiv_int)
  have bits: "rbits (last xs) s xs = drop s xs @ replicate s (last xs)" using True by (rule rbits_append)
  show ?thesis
  proof (cases "last xs")
    case l: True
    have last: "last (drop s xs @ replicate s (last xs))"
      using l xs True by (cases "s = 0") auto
    have one: "int (2 ^ s - 1) = 2 ^ s - 1" by (simp add: of_nat_diff)
    have "sbv (rbits (last xs) s xs) = int (bv xs) div 2 ^ s + 2 ^ k * (2 ^ s - 1) - 2 ^ length xs"
      using l last xs v one True length_greater_0_conv[of xs] unfolding bits sbv_def
      by (auto simp: k_def)
    also have "\<dots> = int (bv xs) div 2 ^ s - 2 ^ k" by (simp add: len power_add algebra_simps)
    also have "\<dots> = (int (bv xs) - 2 ^ k * 2 ^ s) div 2 ^ s"
      using div_mult_self1[of "2 ^ s :: int" "int (bv xs)" "- (2 ^ k)"] by simp
    finally show ?thesis using l xs by (simp add: sbv_def len power_add)
  next
    case l: False
    have "sbv (rbits (last xs) s xs) = int (bv xs) div 2 ^ s"
      using l xs v unfolding bits sbv_def by (cases "s = 0") auto
    then show ?thesis using l xs by (simp add: sbv_def)
  qed
next
  case False
  then have r: "rbits (last xs) s xs = replicate (length xs) (last xs)" by (simp add: rbits_large)
  have b: "int (bv xs) < 2 ^ length xs"
    using bv_less[of xs] by (metis of_nat_less_iff of_nat_numeral of_nat_power)
  have p: "(2::int) ^ length xs \<le> 2 ^ s" using False by (intro power_increasing) auto
  show ?thesis
  proof (cases "last xs")
    case True
    have "(int (bv xs) - 2 ^ length xs) div 2 ^ s = - 1"
      using b p by (intro int_div_pos_eq[where r = "int (bv xs) - 2 ^ length xs + 2 ^ s"]) linarith+
    moreover have "int (2 ^ length xs - 1) = 2 ^ length xs - 1" by (simp add: of_nat_diff)
    ultimately show ?thesis unfolding r sbv_def using True xs by simp
  next
    case l: False
    have "int (bv xs) div 2 ^ s = 0" using b p by (intro div_pos_pos_trivial) linarith+
    then show ?thesis unfolding r sbv_def using l xs by simp
  qed
qed

section \<open>Correctness of the shifts\<close>

text \<open>What the barrel shifter needs of a shift: \<open>sh\<close> on truth values, \<open>src\<close> on formulas.\<close>

definition shifter :: "interp \<Rightarrow> (nat \<Rightarrow> nat \<Rightarrow> expr list \<Rightarrow> expr) \<Rightarrow> bool \<Rightarrow> nat \<Rightarrow> (nat \<Rightarrow> bool list \<Rightarrow> bool list) \<Rightarrow> bool" where
  "shifter I src fill sz sh \<longleftrightarrow>
     (\<forall>xs. length xs = sz \<longrightarrow> sh 0 xs = xs \<and> (\<forall>s. length (sh s xs) = sz)
        \<and> (\<forall>s t. sh s (sh t xs) = sh (s + t) xs) \<and> (\<forall>s \<ge> sz. sh s xs = replicate sz fill))
     \<and> (\<forall>out s j. fmls out \<longrightarrow> length out = sz \<longrightarrow> j < sz \<longrightarrow>
          fml (src s j out) \<and> holds I (src s j out) = sh s (map (holds I) out) ! j)"

context gates
begin

lemma barrel_stage:
  fixes s :: nat
  assumes sh: "shifter I src fill sz sh" and out: "fmls out" "length out = sz" and b: "fml b"
  defines "new \<equiv> map (\<lambda>j. c_ite C b (src s j out) (out ! j)) [0..<sz]"
  shows "fmls new \<and> length new = sz
    \<and> map (holds I) new = sh (if holds I b then s else 0) (map (holds I) out)"
proof -
  have src: "fml (src s j out)" "holds I (src s j out) = sh s (map (holds I) out) ! j" if "j < sz" for j
    using sh out that by (auto simp: shifter_def)
  have mem: "fml (out ! j)" if "j < sz" for j using out that by simp
  have sh0: "sh 0 (map (holds I) out) = map (holds I) out" "length (sh s (map (holds I) out)) = sz"
    using sh out(2) by (auto simp: shifter_def)
  have "map (holds I) new = sh (if holds I b then s else 0) (map (holds I) out)"
    by (intro nth_equalityI) (use src mem b sh0 out(2) in \<open>auto simp: new_def\<close>)
  then show ?thesis using src(1) mem b by (auto simp: new_def)
qed

lemma barrel_loop_correct:
  assumes sh: "shifter I src fill sz sh"
  shows "fmls bs \<Longrightarrow> fmls out \<Longrightarrow> length out = sz \<Longrightarrow> barrel_loop C src sz i bs out = (out', rest) \<Longrightarrow>
     \<exists>pre. bs = pre @ rest \<and> fmls out' \<and> length out' = sz
       \<and> map (holds I) out' = sh (2 ^ i * uval I pre) (map (holds I) out)
       \<and> (rest \<noteq> [] \<longrightarrow> sz \<le> 2 ^ (i + length pre))"
proof (induction bs arbitrary: i out)
  case Nil
  then have "out' = out" "rest = []" by auto
  then show ?case using Nil sh by (auto simp: shifter_def)
next
  case (Cons b bs)
  show ?case
  proof (cases "sz \<le> 2 ^ i")
    case True
    then have "out' = out" "rest = b # bs" using Cons.prems(4) by (auto simp: Let_def)
    then show ?thesis using Cons.prems True sh by (intro exI[of _ "[]"]) (auto simp: shifter_def)
  next
    case False
    define new where "new = map (\<lambda>j. c_ite C b (src (2 ^ i) j out) (out ! j)) [0..<sz]"
    have b: "fml b" using Cons.prems(1) by simp
    have new: "fmls new \<and> length new = sz \<and> map (holds I) new = sh (if holds I b then 2 ^ i else 0) (map (holds I) out)"
      unfolding new_def by (rule barrel_stage[OF sh Cons.prems(2,3) b])
    have "barrel_loop C src sz (Suc i) bs new = (out', rest)"
      using Cons.prems(4) False by (simp add: Let_def new_def)
    then obtain pre where pre: "bs = pre @ rest" "fmls out'" "length out' = sz"
      "map (holds I) out' = sh (2 ^ Suc i * uval I pre) (map (holds I) new)"
      "rest \<noteq> [] \<longrightarrow> sz \<le> 2 ^ (Suc i + length pre)"
      using Cons.IH[of new "Suc i"] new Cons.prems(1) by auto
    have "map (holds I) out' = sh (2 ^ i * uval I (b # pre)) (map (holds I) out)"
    proof -
      have "sh (2 ^ Suc i * uval I pre) (sh (if holds I b then 2 ^ i else 0) (map (holds I) out))
          = sh (2 ^ Suc i * uval I pre + (if holds I b then 2 ^ i else 0)) (map (holds I) out)"
        using sh Cons.prems(3) unfolding shifter_def by (metis length_map)
      moreover have "2 ^ Suc i * uval I pre + (if holds I b then 2 ^ i else 0) = 2 ^ i * uval I (b # pre)"
        by (simp add: algebra_simps)
      ultimately show ?thesis using pre(4) new by simp
    qed
    then show ?thesis using pre by (intro exI[of _ "b # pre"]) simp
  qed
qed

lemma or_fold:
  "fmls bs \<Longrightarrow> fml acc \<Longrightarrow> fml (foldl (\<lambda>acc b. c_or C [acc, b]) acc bs)
     \<and> holds I (foldl (\<lambda>acc b. c_or C [acc, b]) acc bs) = (holds I acc \<or> (\<exists>b \<in> set bs. holds I b))"
  by (induction bs arbitrary: acc) auto

lemma barrel_correct:
  assumes sh: "shifter I src (holds I fill) (length as) sh" and f: "fmls as" "fmls bs" "fml fill"
  shows "fmls (barrel C src fill as bs) \<and> map (holds I) (barrel C src fill as bs) = sh (uval I bs) (map (holds I) as)"
proof -
  obtain out rest where l: "barrel_loop C src (length as) 0 bs as = (out, rest)" by fastforce
  obtain pre where pre: "bs = pre @ rest" "fmls out" "length out = length as"
    "map (holds I) out = sh (uval I pre) (map (holds I) as)" "rest \<noteq> [] \<longrightarrow> length as \<le> 2 ^ length pre"
    using barrel_loop_correct[OF sh f(2,1) refl l] by auto
  let ?large = "foldl (\<lambda>acc b. c_or C [acc, b]) EFalse rest"
  have rest: "fmls rest" using f(2) pre(1) by simp
  have lg: "fml ?large" "holds I ?large = (\<exists>b \<in> set rest. holds I b)"
    using or_fold[OF rest, of EFalse I] by auto
  have eq: "barrel C src fill as bs = map (\<lambda>b. c_ite C ?large fill b) out"
    by (simp add: barrel_def l)
  have b: "uval I bs = uval I pre + 2 ^ length pre * uval I rest" by (simp add: pre(1))
  have "map (holds I) (map (\<lambda>b. c_ite C ?large fill b) out) = sh (uval I bs) (map (holds I) as)"
  proof (cases "holds I ?large")
    case True
    then have "rest \<noteq> []" "uval I rest \<noteq> 0" using lg(2) bv_eq_0_iff[of "map (holds I) rest"] by auto
    then have "length as \<le> uval I bs"
      using pre(5) b by (metis One_nat_def Suc_leI gr0I le_trans mult_le_mono2 nat_mult_1_right trans_le_add2)
    then have "sh (uval I bs) (map (holds I) as) = replicate (length as) (holds I fill)"
      using sh unfolding shifter_def by simp
    moreover have "map (holds I) (map (\<lambda>b. c_ite C ?large fill b) out) = replicate (length out) (holds I fill)"
      using True lg(1) f(3) pre(2) by (intro nth_equalityI) auto
    ultimately show ?thesis using pre(3) by simp
  next
    case False
    then have "uval I rest = 0" using lg(2) bv_eq_0_iff[of "map (holds I) rest"] by auto
    then have "uval I bs = uval I pre" using b by simp
    moreover have "map (holds I) (map (\<lambda>b. c_ite C ?large fill b) out) = map (holds I) out"
      using False lg(1) f(3) pre(2) by auto
    ultimately show ?thesis using pre(4) by simp
  qed
  then show ?thesis using lg(1) f(3) pre(2) unfolding eq by auto
qed

lemma mk_shl_correct:
  assumes "fmls as" "fmls bs" "length as = length bs"
  shows "fmls (mk_shl C as bs) \<and> length (mk_shl C as bs) = length as
    \<and> uval I (mk_shl C as bs) = uval I as * 2 ^ uval I bs mod 2 ^ length as"
proof -
  let ?src = "\<lambda>shift j out. if shift \<le> j then out ! (j - shift) else EFalse"
  have "fmls (mk_shl C as bs) \<and> map (holds I) (mk_shl C as bs) = lbits (uval I bs) (map (holds I) as)"
  proof (cases "numeral_of bs")
    case None
    have "shifter I ?src (holds I EFalse) (length as) lbits"
      by (auto simp: shifter_def lbits_lbits lbits_large) (auto simp: lbits_def)
    from barrel_correct[OF this assms(1,2)] show ?thesis using None by (simp add: mk_shl_def)
  next
    case (Some k)
    let ?n = "if length as < k then length as else k"
    have "lbits k (map (holds I) as) = lbits ?n (map (holds I) as)" by (simp add: lbits_large)
    also have "\<dots> = replicate ?n False @ take (length as - ?n) (map (holds I) as)"
      using lbits_append[of ?n "map (holds I) as"] by auto
    finally show ?thesis
      using Some numeral_of_sound[OF Some, of I] assms(1)
      by (auto simp: mk_shl_def Let_def take_map dest: in_set_takeD)
  qed
  then show ?thesis using bv_lbits[of "uval I bs" "map (holds I) as"] by (metis length_map length_shift_bits(1))
qed

lemma right_shifter:
  assumes "fml m"
  shows "shifter I (\<lambda>shift j out. if shift + j < n then out ! (j + shift) else m) (holds I m) n (rbits (holds I m))"
  using assms by (auto simp: shifter_def rbits_rbits rbits_large) (auto simp: rbits_def)

lemma right_numeral:
  fixes k :: nat and as :: "expr list" and m :: expr
  defines "n \<equiv> if length as < k then length as else k"
  shows "map (holds I) (drop n as @ replicate n m) = rbits (holds I m) k (map (holds I) as)"
proof -
  have "rbits (holds I m) k (map (holds I) as) = rbits (holds I m) n (map (holds I) as)"
    by (simp add: rbits_large n_def)
  also have "\<dots> = drop n (map (holds I) as) @ replicate n (holds I m)"
    using rbits_append[of n "map (holds I) as"] by (simp add: n_def)
  finally show ?thesis by (simp add: drop_map)
qed

lemma mk_lshr_correct:
  assumes "fmls as" "fmls bs" "length as = length bs"
  shows "fmls (mk_lshr C as bs) \<and> length (mk_lshr C as bs) = length as
    \<and> uval I (mk_lshr C as bs) = uval I as div 2 ^ uval I bs"
proof -
  have "fmls (mk_lshr C as bs) \<and> map (holds I) (mk_lshr C as bs) = rbits False (uval I bs) (map (holds I) as)"
  proof (cases "numeral_of bs")
    case None
    then show ?thesis
      using barrel_correct[OF right_shifter[of EFalse] assms(1,2)] by (simp add: mk_lshr_def)
  next
    case (Some k)
    then show ?thesis
      using numeral_of_sound[OF Some, of I] assms(1) right_numeral[where m = EFalse and as = as and k = k and I = I]
      by (auto simp: mk_lshr_def Let_def dest: in_set_dropD)
  qed
  then show ?thesis using bv_rbits[of "uval I bs" "map (holds I) as"] by (metis length_map length_shift_bits(2))
qed

lemma mk_ashr_correct:
  assumes "fmls as" "fmls bs" "length as = length bs" "as \<noteq> []"
  shows "fmls (mk_ashr C as bs) \<and> length (mk_ashr C as bs) = length as
    \<and> sval I (mk_ashr C as bs) = sval I as div 2 ^ uval I bs"
proof -
  have m: "fml (last as)" using assms(1,4) by simp
  have "fmls (mk_ashr C as bs)
      \<and> map (holds I) (mk_ashr C as bs) = rbits (holds I (last as)) (uval I bs) (map (holds I) as)"
  proof (cases "numeral_of bs")
    case None
    then show ?thesis
      using barrel_correct[OF right_shifter[OF m] assms(1,2) m] by (simp add: mk_ashr_def Let_def)
  next
    case (Some k)
    then show ?thesis
      using numeral_of_sound[OF Some, of I] assms(1) m right_numeral[where m = "last as" and as = as and k = k and I = I]
      by (auto simp: mk_ashr_def Let_def dest: in_set_dropD)
  qed
  moreover have "sbv (rbits (holds I (last as)) (uval I bs) (map (holds I) as)) = sval I as div 2 ^ uval I bs"
    using sbv_rbits[of "map (holds I) as" "uval I bs"] assms(4) by (simp add: last_map)
  ultimately show ?thesis by (metis length_map length_shift_bits(2))
qed

section \<open>Correctness of the rotations\<close>

lemma rotate_chain:
  "fml out \<Longrightarrow> (\<And>j. j \<in> set js \<Longrightarrow> fml (eqs ! j) \<and> fml (f j) \<and> holds I (eqs ! j) = (v = j)) \<Longrightarrow>
     fml (foldl (\<lambda>out j. c_ite C (eqs ! j) (f j) out) out js)
     \<and> holds I (foldl (\<lambda>out j. c_ite C (eqs ! j) (f j) out) out js) = holds I (if v \<in> set js then f v else out)"
  by (induction js rule: rev_induct) auto

lemma mk_ext_rotate_correct:
  assumes "fmls as" "fmls bs" "length as = length bs" "as \<noteq> []"
  shows "fmls (mk_ext_rotate_left_right left C as bs)
    \<and> map (holds I) (mk_ext_rotate_left_right left C as bs)
      = map (holds I) (if left then mk_rotate_left as (uval I bs) else mk_rotate_right as (uval I bs))"
proof -
  let ?sz = "length as"
  let ?m = "mk_urem C bs (num2bits ?sz ?sz)"
  let ?eqs = "mk_eqs C ?m"
  let ?f = "\<lambda>i j. as ! ((if left then ?sz + i - j else i + j) mod ?sz)"
  let ?out = "\<lambda>i. foldl (\<lambda>out j. c_ite C (?eqs ! j) (?f i j) out) (as ! i) [1..<?sz]"
  define v where "v = uval I bs mod ?sz"
  have sz: "0 < ?sz" "?sz < 2 ^ ?sz" using assms(4) by auto
  have nb: "bs \<noteq> []" using assms(3,4) by auto
  have ln: "length bs = length (num2bits ?sz ?sz)" using assms(3) by simp
  have m: "fmls ?m" "length ?m = ?sz" "uval I ?m = v"
    using mk_udiv_urem_correct(4,5)[OF assms(2) fml_num2bits ln nb]
      mk_udiv_urem_correct(6)[OF assms(2) fml_num2bits ln nb, of I] assms(3) sz(2) by (simp_all add: v_def)
  have eqs: "fml (?eqs ! j)" "holds I (?eqs ! j) = (v = j)" if "j < ?sz" for j
    using mk_is_eq_correct(1)[OF m(1), of j] mk_is_eq_correct(2)[OF m(1), of I j] m that sz by (auto simp: mk_eqs_def)
  have out: "fml (?out i) \<and> holds I (?out i) = holds I (?f i v)" if i: "i < ?sz" for i
  proof -
    have "fml (?f i j)" for j using assms(1) sz(1) by simp
    then have c: "fml (?out i) \<and> holds I (?out i) = holds I (if v \<in> set [1..<?sz] then ?f i v else as ! i)"
      using eqs assms(1) i by (intro rotate_chain) auto
    have "v < ?sz" using sz(1) by (simp add: v_def)
    then have "(if v \<in> set [1..<?sz] then ?f i v else as ! i) = ?f i v" using i by (cases "v = 0") auto
    with c show ?thesis by simp
  qed
  let ?rot = "if left then mk_rotate_left as (uval I bs) else mk_rotate_right as (uval I bs)"
  have general: "fmls (map ?out [0..<?sz]) \<and> map (holds I) (map ?out [0..<?sz]) = map (holds I) ?rot"
  proof -
    have "holds I (?f i v) = holds I (?rot ! i)" if i: "i < ?sz" for i
    proof -
      have "?rot ! i = ?f i v"
        using i sz(1) by (auto simp: mk_rotate_left_rotate mk_rotate_right_rotate nth_rotate v_def
            mod_add_left_eq mod_add_right_eq add.commute)
      then show ?thesis by simp
    qed
    then have "map (holds I) (map ?out [0..<?sz]) = map (holds I) ?rot"
      using out by (intro nth_equalityI) auto
    then show ?thesis using out by auto
  qed
  show ?thesis
  proof (cases "numeral_of bs")
    case None
    then show ?thesis using general by (simp add: mk_ext_rotate_left_right_def Let_def)
  next
    case (Some k)
    then have "mk_ext_rotate_left_right left C as bs
        = (if is_unsigned k then (if left then mk_rotate_left as k else mk_rotate_right as k) else map ?out [0..<?sz])"
      by (simp only: mk_ext_rotate_left_right_def Let_def option.case)
    then show ?thesis using general numeral_of_sound[OF Some, of I] assms(1)
      by (cases "is_unsigned k") simp_all
  qed
qed

end

end
