(* ===== verification/Bit_Blaster_Ovf.thy ===== *)
theory Bit_Blaster_Ovf
  imports Bit_Blaster_Mul_Sound Bit_Blaster_Div
begin

text \<open>
  Overflow predicates of multiplication (\<^verbatim>\<open>mk_umul_no_overflow\<close>,
  \<^verbatim>\<open>mk_smul_no_overflow_core\<close>): a product with one more bit, together with a test
  on the positions of the leading bits that tells whether even that product may have wrapped.
\<close>

section \<open>The circuits\<close>

fun umul_ovf_loop :: "'a cfg_scheme \<Rightarrow> expr list \<Rightarrow> expr list \<Rightarrow> nat list \<Rightarrow> expr \<Rightarrow> expr \<Rightarrow> expr" where
  "umul_ovf_loop C a_bits b_bits [] ovf v = v"
| "umul_ovf_loop C a_bits b_bits (i # is) ovf v =
     (let ovf' = c_or C [ovf, a_bits ! (length a_bits - i)];
          tmp = c_and C [ovf', b_bits ! i]
      in umul_ovf_loop C a_bits b_bits is ovf' (c_or C [tmp, v]))"

definition mk_umul_no_overflow :: "'a bit_blaster_tpl_scheme \<Rightarrow> expr list \<Rightarrow> expr list \<Rightarrow> expr" where
  "mk_umul_no_overflow C a_bits b_bits =
     (let sz = length a_bits;
          mult_cout = mk_multiplier C (a_bits @ [EFalse]) (b_bits @ [EFalse]);
          overflow1 = mult_cout ! sz;
          overflow2 = umul_ovf_loop C a_bits b_bits [1..<sz] EFalse EFalse;
          overflow = c_or C [overflow1, overflow2]
      in c_not C overflow)"

fun smul_ovf_loop :: "'a cfg_scheme \<Rightarrow> expr list \<Rightarrow> expr list \<Rightarrow> nat list \<Rightarrow> expr \<Rightarrow> expr \<Rightarrow> expr" where
  "smul_ovf_loop C a_bits b_bits [] a_acc v = v"
| "smul_ovf_loop C a_bits b_bits (i # is) a_acc v =
     (let sz = length a_bits;
          b = c_xor C (b_bits ! (sz - 1)) (b_bits ! i);
          a = c_xor C (a_bits ! (sz - 1)) (a_bits ! (sz - 1 - i));
          a_acc' = c_or C [a, a_acc];
          tmp = c_and C [a_acc', b]
      in smul_ovf_loop C a_bits b_bits is a_acc' (c_or C [tmp, v]))"

definition mk_smul_no_overflow_core ::
  "'a bit_blaster_tpl_scheme \<Rightarrow> expr list \<Rightarrow> expr list \<Rightarrow> bool \<Rightarrow> expr" where
  "mk_smul_no_overflow_core C a_bits b_bits is_overflow =
     (let sz = length a_bits;
          msb_a = a_bits ! (sz - 1); msb_b = b_bits ! (sz - 1);
          mult_cout = mk_multiplier C (a_bits @ [msb_a]) (b_bits @ [msb_b]);
          overflow1 = c_xor C (mult_cout ! sz) (mult_cout ! (sz - 1));
          overflow2 = smul_ovf_loop C a_bits b_bits [1..<sz - 1] EFalse EFalse;
          overflow = c_or C [overflow1, overflow2];
          sign = (if is_overflow then c_iff C msb_a msb_b else c_xor C msb_a msb_b);
          overflow' = c_and C [sign, overflow]
      in c_not C overflow')"

definition mk_smul_no_overflow :: "'a bit_blaster_tpl_scheme \<Rightarrow> expr list \<Rightarrow> expr list \<Rightarrow> expr" where
  "mk_smul_no_overflow C a_bits b_bits = mk_smul_no_overflow_core C a_bits b_bits True"

definition mk_smul_no_underflow :: "'a bit_blaster_tpl_scheme \<Rightarrow> expr list \<Rightarrow> expr list \<Rightarrow> expr" where
  "mk_smul_no_underflow C a_bits b_bits = mk_smul_no_overflow_core C a_bits b_bits False"

section \<open>Leading bits and products\<close>

lemma bit_le_bv: "p < length xs \<Longrightarrow> xs ! p \<Longrightarrow> 2 ^ p \<le> bv xs"
proof -
  assume p: "p < length xs" "xs ! p"
  then have "odd (bv xs div 2 ^ p)" using bv_nth by blast
  then have "1 \<le> bv xs div 2 ^ p" by (cases "bv xs div 2 ^ p") auto
  then show ?thesis by (simp add: less_eq_div_iff_mult_less_eq)
qed

lemma leading_bit: "bv xs = 0 \<or> (\<exists>p < length xs. xs ! p \<and> bv xs < 2 ^ (p + 1))"
proof (induction xs rule: rev_induct)
  case (snoc x xs)
  show ?case
  proof (cases x)
    case True
    have "bv (xs @ [x]) < 2 ^ (length xs + 1)" using bv_less[of "xs @ [x]"] by simp
    with True show ?thesis by (intro disjI2 exI[of _ "length xs"]) auto
  next
    case False
    with snoc show ?thesis by (auto simp: nth_append)
  qed
qed simp

text \<open>No two set bits reach position \<open>m\<close> together.\<close>

definition bits_below :: "nat \<Rightarrow> bool list \<Rightarrow> bool list \<Rightarrow> bool" where
  "bits_below m xs ys \<longleftrightarrow> (\<forall>p < length xs. \<forall>q < length ys. xs ! p \<longrightarrow> ys ! q \<longrightarrow> p + q < m)"

lemma not_bits_below:
  assumes "\<not> bits_below m xs ys"
  obtains p q where "2 ^ p \<le> bv xs" "2 ^ q \<le> bv ys" "m \<le> p + q"
  using assms bit_le_bv by (auto simp: bits_below_def not_less)

lemma bits_belowE:
  assumes "bits_below m xs ys"
  obtains "bv xs = 0" | "bv ys = 0" | p q where "bv xs < 2 ^ (p + 1)" "bv ys < 2 ^ (q + 1)" "p + q < m"
  using leading_bit[of xs] leading_bit[of ys] assms that unfolding bits_below_def by metis

lemma umul_overflow_iff:
  assumes "length xs = n" "length ys = n" "0 < n"
  shows "(2 ^ n \<le> bv xs * bv ys mod 2 ^ (n + 1) \<or> \<not> bits_below n xs ys) \<longleftrightarrow> 2 ^ n \<le> bv xs * bv ys"
proof (cases "bits_below n xs ys")
  case True
  then have "bv xs * bv ys < 2 ^ (n + 1)"
  proof (cases rule: bits_belowE)
    case (3 p q)
    then have "bv xs * bv ys < 2 ^ (p + 1) * 2 ^ (q + 1)" by (intro mult_strict_mono) auto
    also have "\<dots> = 2 ^ (p + q + 2)" by (simp flip: power_add)
    also have "\<dots> \<le> 2 ^ (n + 1)" using 3 by (intro power_increasing) auto
    finally show ?thesis .
  qed simp_all
  with True show ?thesis by simp
next
  case False
  then obtain p q where pq: "2 ^ p \<le> bv xs" "2 ^ q \<le> bv ys" "n \<le> p + q" by (rule not_bits_below)
  have "2 ^ n \<le> (2 :: nat) ^ (p + q)" using pq(3) by (intro power_increasing) auto
  also have "\<dots> \<le> bv xs * bv ys" using pq by (simp add: power_add mult_le_mono)
  finally show ?thesis using False by simp
qed

text \<open>The bits of a signed number, complemented when it is negative.\<close>

definition mag :: "bool list \<Rightarrow> bool list" where
  "mag xs = map (\<lambda>x. last xs \<noteq> x) (butlast xs)"

lemma mag_value: "xs \<noteq> [] \<Longrightarrow> int (bv (mag xs)) = (if sbv xs < 0 then - sbv xs - 1 else sbv xs)"
proof -
  assume "xs \<noteq> []"
  then obtain ys s where xs: "xs = ys @ [s]" by (metis append_butlast_last_id)
  have lt: "int (bv ys) < 2 ^ length ys"
    using bv_less[of ys] by (metis of_nat_less_iff of_nat_numeral of_nat_power)
  show ?thesis
  proof (cases s)
    case True
    have "int (bv (map Not ys)) + int (bv ys) + 1 = 2 ^ length ys"
      using bv_map_Not[of ys] by (metis of_nat_1 of_nat_add of_nat_numeral of_nat_power)
    with True lt show ?thesis by (simp add: xs mag_def sbv_snoc)
  next
    case False
    then show ?thesis using lt by (simp add: xs mag_def sbv_snoc)
  qed
qed

lemma length_mag [simp]: "length (mag xs) = length xs - 1"
  by (simp add: mag_def)

lemma abs_mag: "xs \<noteq> [] \<Longrightarrow> \<bar>sbv xs\<bar> = int (bv (mag xs)) + of_bool (sbv xs < 0)"
  using mag_value[of xs] by auto

lemma mag_le_abs: "xs \<noteq> [] \<Longrightarrow> int (bv (mag xs)) \<le> \<bar>sbv xs\<bar>"
  using abs_mag[of xs] by simp

lemma Suc_le_power: "a < 2 ^ k \<Longrightarrow> int a + 1 \<le> 2 ^ k"
proof -
  assume "a < 2 ^ k"
  then have "int (a + 1) \<le> 2 ^ k" by (simp only: of_nat_le_numeral_power_cancel_iff)
  then show ?thesis by simp
qed

text \<open>If the leading bits are below, the exact product has at most one bit more.\<close>

lemma smul_small:
  assumes "length xs = n" "length ys = n" "0 < n" "bits_below (n - 1) (mag xs) (mag ys)"
  shows "\<bar>sbv xs * sbv ys\<bar> \<le> 2 ^ n"
proof -
  have ne: "xs \<noteq> []" "ys \<noteq> []" using assms by auto
  note ax = abs_mag[OF ne(1)] and ay = abs_mag[OF ne(2)]
  have bound: "\<bar>sbv zs\<bar> \<le> 2 ^ (n - 1)" if "zs \<noteq> []" "length zs = n" for zs
  proof -
    have "int (bv (mag zs)) + 1 \<le> 2 ^ (n - 1)" using bv_less[of "mag zs"] that by (intro Suc_le_power) simp
    moreover have "of_bool (sbv zs < 0) \<le> (1 :: int)" by simp
    ultimately show ?thesis using abs_mag[OF that(1)] by linarith
  qed
  have half: "(2 :: int) ^ (n - 1) \<le> 2 ^ n" by (intro power_increasing) auto
  from assms(4) show ?thesis
  proof (cases rule: bits_belowE)
    case 1
    then have "\<bar>sbv xs\<bar> \<le> 1" using ax by auto
    then have "\<bar>sbv xs\<bar> * \<bar>sbv ys\<bar> \<le> 1 * 2 ^ (n - 1)" using bound[OF ne(2) assms(2)] by (intro mult_mono) auto
    with half show ?thesis unfolding abs_mult by linarith
  next
    case 2
    then have "\<bar>sbv ys\<bar> \<le> 1" using ay by auto
    then have "\<bar>sbv xs\<bar> * \<bar>sbv ys\<bar> \<le> 2 ^ (n - 1) * 1" using bound[OF ne(1) assms(1)] by (intro mult_mono) auto
    with half show ?thesis unfolding abs_mult by linarith
  next
    case (3 p q)
    have "\<bar>sbv zs\<bar> \<le> 2 ^ (r + 1)" if "zs \<noteq> []" "bv (mag zs) < 2 ^ (r + 1)" for zs r
    proof -
      have "int (bv (mag zs)) + 1 \<le> 2 ^ (r + 1)"
        using that(2) by (rule Suc_le_power)
      moreover have "of_bool (sbv zs < 0) \<le> (1 :: int)" by simp
      ultimately show ?thesis using abs_mag[OF that(1)] by linarith
    qed
    then have "\<bar>sbv xs\<bar> * \<bar>sbv ys\<bar> \<le> 2 ^ (p + 1) * 2 ^ (q + 1)" using 3 ne by (intro mult_mono) auto
    also have "\<dots> = 2 ^ (p + q + 2)" by (simp flip: power_add)
    also have "\<dots> \<le> 2 ^ n" using 3 by (intro power_increasing) auto
    finally show ?thesis by (simp add: abs_mult)
  qed
qed


text \<open>Where they are not below, the product is out of range.\<close>

lemma smul_large:
  assumes "length xs = n" "length ys = n" "0 < n" "\<not> bits_below (n - 1) (mag xs) (mag ys)"
  shows "sbv xs * sbv ys < - (2 ^ (n - 1)) \<or> 2 ^ (n - 1) \<le> sbv xs * sbv ys"
proof -
  have ne: "xs \<noteq> []" "ys \<noteq> []" using assms by auto
  obtain p q where pq: "2 ^ p \<le> bv (mag xs)" "2 ^ q \<le> bv (mag ys)" "n - 1 \<le> p + q"
    using assms(4) by (rule not_bits_below)
  then have i: "2 ^ p \<le> int (bv (mag xs))" "2 ^ q \<le> int (bv (mag ys))"
    by simp_all
  have pw: "(2 :: int) ^ (n - 1) \<le> 2 ^ p * 2 ^ q"
    using pq(3) by (simp add: power_increasing flip: power_add)
  have pos: "(0 :: int) < 2 ^ p" "(0 :: int) < 2 ^ q" by simp_all
  consider (same) "sbv xs < 0 \<longleftrightarrow> sbv ys < 0" | (neg) "sbv xs < 0" "0 \<le> sbv ys" | (pos) "0 \<le> sbv xs" "sbv ys < 0"
    by linarith
  then show ?thesis
  proof cases
    case same
    have "2 ^ p * 2 ^ q \<le> \<bar>sbv xs\<bar> * \<bar>sbv ys\<bar>"
      using order_trans[OF i(1) mag_le_abs[OF ne(1)]] order_trans[OF i(2) mag_le_abs[OF ne(2)]]
      by (intro mult_mono) simp_all
    moreover have "\<bar>sbv xs\<bar> * \<bar>sbv ys\<bar> = sbv xs * sbv ys"
      using same by (auto simp: abs_if)
    ultimately show ?thesis using pw by linarith
  next
    case neg
    then have "2 ^ p + 1 \<le> - sbv xs" "2 ^ q \<le> sbv ys" using abs_mag[OF ne(1)] abs_mag[OF ne(2)] i by auto
    then have "(2 ^ p + 1) * 2 ^ q \<le> (- sbv xs) * sbv ys" using neg by (intro mult_mono) auto
    then have "2 ^ p * 2 ^ q + 2 ^ q \<le> - (sbv xs * sbv ys)" by (simp add: distrib_right)
    then show ?thesis using pw pos(2) by linarith
  next
    case pos
    then have "2 ^ p \<le> sbv xs" "2 ^ q + 1 \<le> - sbv ys" using abs_mag[OF ne(1)] abs_mag[OF ne(2)] i by auto
    then have "2 ^ p * (2 ^ q + 1) \<le> sbv xs * (- sbv ys)" using pos by (intro mult_mono) auto
    then have "2 ^ p * 2 ^ q + 2 ^ p \<le> - (sbv xs * sbv ys)" by (simp add: distrib_left)
    then show ?thesis using pw \<open>(0 :: int) < 2 ^ p\<close> by linarith
  qed
qed

text \<open>The two top bits of the \<open>n + 1\<close>-bit product.\<close>

lemma top_bits:
  assumes "length zs = Suc n" "0 < n"
  shows "zs ! n = (2 ^ n \<le> bv zs)" and "zs ! (n - 1) = (2 ^ (n - 1) \<le> bv zs mod 2 ^ n)"
proof -
  obtain m where m: "n = Suc m" using assms(2) by (cases n) auto
  have "take (Suc (Suc m)) zs = take m zs @ [zs ! m, zs ! Suc m]"
    using assms(1) m by (simp add: take_Suc_conv_app_nth del: take_all take_all_iff)
  moreover have "take (Suc (Suc m)) zs = zs" using assms(1) m by simp
  ultimately have "zs = take m zs @ [zs ! m, zs ! Suc m]" by simp
  then obtain ws a b where zs: "zs = ws @ [a, b]" and l: "length ws = m"
    using assms(1) m by (metis length_take min.absorb2 le_SucI order_refl)
  have n: "n = Suc (length ws)" using l m by simp
  have lt: "bv ws < 2 ^ length ws" by simp
  show "zs ! n = (2 ^ n \<le> bv zs)" using lt by (cases a; cases b) (auto simp: zs n nth_append simp del: bv_less)
  have "take n zs = ws @ [a]" by (simp add: zs n)
  then show "zs ! (n - 1) = (2 ^ (n - 1) \<le> bv zs mod 2 ^ n)"
    unfolding bv_take[symmetric] using lt by (cases a) (auto simp: zs n nth_append simp del: bv_less)
qed

lemma smul_overflow_iff:
  assumes len: "length xs = n" "length ys = n" "0 < n"
    and zs: "length zs = Suc n" "int (bv zs) = sbv xs * sbv ys mod 2 ^ (n + 1)"
  shows "(zs ! n \<noteq> zs ! (n - 1) \<or> \<not> bits_below (n - 1) (mag xs) (mag ys))
    \<longleftrightarrow> sbv xs * sbv ys < - (2 ^ (n - 1)) \<or> 2 ^ (n - 1) \<le> sbv xs * sbv ys"
    (is "?diff \<or> ?large \<longleftrightarrow> ?out")
proof -
  define P where "P = sbv xs * sbv ys"
  define h where "h = (2 :: int) ^ (n - 1)"
  have h: "0 < h" "(2 :: int) ^ n = 2 * h" "(2 :: int) ^ (n + 1) = 4 * h"
    using assms(3) by (cases n; simp add: h_def)+
  have z: "int (bv zs) = P mod (4 * h)" using zs(2) h(3) by (simp add: P_def)
  have b1: "zs ! n \<longleftrightarrow> 2 * h \<le> int (bv zs)"
    unfolding h(2)[symmetric] top_bits(1)[OF zs(1) len(3)] by simp
  have b0: "zs ! (n - 1) \<longleftrightarrow> h \<le> int (bv zs) mod (2 * h)"
  proof -
    have "zs ! (n - 1) \<longleftrightarrow> h \<le> int (bv zs mod 2 ^ n)" unfolding h_def top_bits(2)[OF zs(1) len(3)] by simp
    then show ?thesis by (simp only: of_nat_mod of_nat_power of_nat_numeral h(2))
  qed
  have range: "?diff \<longleftrightarrow> h \<le> P mod (4 * h) \<and> P mod (4 * h) < 3 * h"
  proof -
    define m where "m = P mod (4 * h)"
    have m: "0 \<le> m" "m < 4 * h" using h(1) by (simp_all add: m_def)
    show ?thesis
    proof (cases "m < 2 * h")
      case True
      then have "m mod (2 * h) = m" using m by simp
      then show ?thesis using True b1 b0 h(1) unfolding z m_def[symmetric] by auto
    next
      case False
      have "m mod (2 * h) = (m - 2 * h) mod (2 * h)" by simp
      also have "\<dots> = m - 2 * h" using False m by (intro mod_pos_pos_trivial) auto
      finally show ?thesis using False b1 b0 h(1) unfolding z m_def[symmetric] by auto
    qed
  qed
  show ?thesis
  proof (cases ?large)
    case True
    then show ?thesis using smul_large[OF len] by simp
  next
    case False
    then have "\<bar>P\<bar> \<le> 2 * h" using smul_small[OF len] h(2) by (simp add: P_def)
    then have "?diff \<longleftrightarrow> P < - h \<or> h \<le> P"
      unfolding range
    proof (cases "0 \<le> P")
      case True
      then have "P mod (4 * h) = P" using \<open>\<bar>P\<bar> \<le> 2 * h\<close> h(1) by simp
      then show "h \<le> P mod (4 * h) \<and> P mod (4 * h) < 3 * h \<longleftrightarrow> P < - h \<or> h \<le> P"
        using True \<open>\<bar>P\<bar> \<le> 2 * h\<close> h(1) by auto
    next
      case F: False
      have "P mod (4 * h) = (P + 4 * h) mod (4 * h)" by simp
      also have "\<dots> = P + 4 * h" using F \<open>\<bar>P\<bar> \<le> 2 * h\<close> h(1) by (intro mod_pos_pos_trivial) auto
      finally show "h \<le> P mod (4 * h) \<and> P mod (4 * h) < 3 * h \<longleftrightarrow> P < - h \<or> h \<le> P"
        using F \<open>\<bar>P\<bar> \<le> 2 * h\<close> h(1) by auto
    qed
    with False show ?thesis by (simp add: P_def h_def)
  qed
qed


lemma sign_overflow:
  assumes "same \<Longrightarrow> 0 \<le> P" "\<not> same \<Longrightarrow> P \<le> (0 :: int)" "0 < h"
  shows "\<not> (same = ovf \<and> (P < - h \<or> h \<le> P)) \<longleftrightarrow> (if ovf then P < h else - h \<le> P)"
  using assms by (cases same; cases ovf) auto

section \<open>The circuits decide overflow\<close>

text \<open>Both loops, on truth values: \<open>acc\<close> collects the bits of the first operand from the top.\<close>

fun ovf_loop :: "(nat \<Rightarrow> bool) \<Rightarrow> (nat \<Rightarrow> bool) \<Rightarrow> nat list \<Rightarrow> bool \<Rightarrow> bool \<Rightarrow> bool" where
  "ovf_loop f g [] acc v = v"
| "ovf_loop f g (i # is) acc v = ovf_loop f g is (acc \<or> f i) ((acc \<or> f i) \<and> g i \<or> v)"

lemma ovf_loop_iff:
  "ovf_loop f g [m..<n] acc v \<longleftrightarrow> v \<or> (\<exists>i. m \<le> i \<and> i < n \<and> g i \<and> (acc \<or> (\<exists>k. m \<le> k \<and> k \<le> i \<and> f k)))"
proof (induction "n - m" arbitrary: m acc v)
  case 0
  then show ?case by auto
next
  case (Suc d)
  then have m: "m < n" "d = n - Suc m" by auto
  have "ovf_loop f g [m..<n] acc v = ovf_loop f g [Suc m..<n] (acc \<or> f m) ((acc \<or> f m) \<and> g m \<or> v)"
    using m(1) by (simp add: upt_conv_Cons)
  also have "\<dots> \<longleftrightarrow> (acc \<or> f m) \<and> g m \<or> v
      \<or> (\<exists>i. Suc m \<le> i \<and> i < n \<and> g i \<and> (acc \<or> f m \<or> (\<exists>k. Suc m \<le> k \<and> k \<le> i \<and> f k)))"
    unfolding Suc.hyps(1)[OF m(2)] by blast
  also have "\<dots> \<longleftrightarrow> v \<or> (\<exists>i. m \<le> i \<and> i < n \<and> g i \<and> (acc \<or> (\<exists>k. m \<le> k \<and> k \<le> i \<and> f k)))"
    (is "?l \<longleftrightarrow> ?r")
  proof
    assume ?l
    then show ?r using m(1) by (auto dest: Suc_leD)
  next
    assume ?r
    then consider v | i where "m \<le> i" "i < n" "g i" "acc" | i k where "m \<le> i" "i < n" "g i" "m \<le> k" "k \<le> i" "f k"
      by blast
    then show ?l
    proof cases
      case (2 i)
      then show ?thesis by (cases "i = m") auto
    next
      case (3 i k)
      show ?thesis
      proof (cases "i = m")
        case True
        with 3 show ?thesis by auto
      next
        case False
        with 3 have "Suc m \<le> i" by simp
        with 3 show ?thesis by (cases "k = m") auto
      qed
    qed simp
  qed
  finally show ?case .
qed

text \<open>Reading the positions from the top turns the loop into \<open>bits_below\<close>.\<close>

lemma ovf_loop_bits_below:
  assumes "length xs = m" "length ys = m"
    and "\<And>k. 1 \<le> k \<Longrightarrow> k \<le> m \<Longrightarrow> f k = xs ! (m - k)" and "\<And>i. i < m \<Longrightarrow> g i = ys ! i"
  shows "ovf_loop f g [1..<m] False False \<longleftrightarrow> \<not> bits_below m xs ys"
proof -
  have "ovf_loop f g [1..<m] False False \<longleftrightarrow> (\<exists>i k. 1 \<le> k \<and> k \<le> i \<and> i < m \<and> xs ! (m - k) \<and> ys ! i)"
  proof
    assume "ovf_loop f g [1..<m] False False"
    then obtain i k where *: "i < m" "g i" "1 \<le> k" "k \<le> i" "f k" unfolding ovf_loop_iff by blast
    then have "xs ! (m - k)" using assms(3)[of k] by simp
    with * show "\<exists>i k. 1 \<le> k \<and> k \<le> i \<and> i < m \<and> xs ! (m - k) \<and> ys ! i" using assms(4) by blast
  next
    assume "\<exists>i k. 1 \<le> k \<and> k \<le> i \<and> i < m \<and> xs ! (m - k) \<and> ys ! i"
    then obtain i k where *: "1 \<le> k" "k \<le> i" "i < m" "xs ! (m - k)" "ys ! i" by blast
    then have "f k" using assms(3)[of k] by simp
    moreover have "1 \<le> i" using * by simp
    ultimately show "ovf_loop f g [1..<m] False False" unfolding ovf_loop_iff using * assms(4) by blast
  qed
  also have "\<dots> \<longleftrightarrow> (\<exists>p q. p < m \<and> q < m \<and> m \<le> p + q \<and> xs ! p \<and> ys ! q)"
  proof
    assume "\<exists>i k. 1 \<le> k \<and> k \<le> i \<and> i < m \<and> xs ! (m - k) \<and> ys ! i"
    then obtain i k where *: "1 \<le> k" "k \<le> i" "i < m" "xs ! (m - k)" "ys ! i" by blast
    then have "m - k < m" "m \<le> m - k + i" by linarith+
    with * show "\<exists>p q. p < m \<and> q < m \<and> m \<le> p + q \<and> xs ! p \<and> ys ! q" by blast
  next
    assume "\<exists>p q. p < m \<and> q < m \<and> m \<le> p + q \<and> xs ! p \<and> ys ! q"
    then obtain p q where *: "p < m" "q < m" "m \<le> p + q" "xs ! p" "ys ! q" by blast
    then have "1 \<le> m - p" "m - p \<le> q" "m - (m - p) = p" by linarith+
    with * show "\<exists>i k. 1 \<le> k \<and> k \<le> i \<and> i < m \<and> xs ! (m - k) \<and> ys ! i" by metis
  qed
  finally show ?thesis using assms(1,2) by (auto simp: bits_below_def not_less)
qed

context gates
begin

lemma umul_ovf_loop_holds:
  assumes "fmls as" "fmls bs" "length bs = length as"
  shows "fml ovf \<Longrightarrow> fml v \<Longrightarrow> \<forall>i \<in> set is. 1 \<le> i \<and> i < length as \<Longrightarrow>
    fml (umul_ovf_loop C as bs is ovf v) \<and> holds I (umul_ovf_loop C as bs is ovf v)
      = ovf_loop (\<lambda>i. holds I (as ! (length as - i))) (\<lambda>i. holds I (bs ! i)) is (holds I ovf) (holds I v)"
proof (induction "is" arbitrary: ovf v)
  case (Cons i "is")
  have "length as - i < length as" "i < length bs" using Cons.prems(3) assms(3) by auto
  then have "fml (as ! (length as - i))" "fml (bs ! i)" using assms(1,2) by (simp_all only: nth_mem)
  then show ?case using Cons.IH Cons.prems by (simp add: Let_def)
qed simp

lemma smul_ovf_loop_holds:
  assumes "fmls as" "fmls bs" "length bs = length as"
  shows "fml acc \<Longrightarrow> fml v \<Longrightarrow> \<forall>i \<in> set is. i < length as - 1 \<Longrightarrow>
    fml (smul_ovf_loop C as bs is acc v) \<and> holds I (smul_ovf_loop C as bs is acc v)
      = ovf_loop (\<lambda>i. holds I (as ! (length as - 1)) \<noteq> holds I (as ! (length as - 1 - i)))
          (\<lambda>i. holds I (bs ! (length as - 1)) \<noteq> holds I (bs ! i)) is (holds I acc) (holds I v)"
proof (induction "is" arbitrary: acc v)
  case (Cons i "is")
  have i: "i < length as - 1" using Cons.prems(3) by simp
  then have "fml (as ! (length as - 1))" "fml (as ! (length as - 1 - i))" "fml (bs ! (length as - 1))" "fml (bs ! i)"
    using assms by simp_all
  then show ?case using Cons.IH Cons.prems by (simp add: Let_def disj_commute)
qed simp

end

context blaster_gates
begin

theorem mk_umul_no_overflow_correct:
  assumes "fmls as" "fmls bs" "length as = length bs" "as \<noteq> []"
  shows "fml (mk_umul_no_overflow T as bs)
    \<and> (holds I (mk_umul_no_overflow T as bs) \<longleftrightarrow> uval I as * uval I bs < 2 ^ length as)"
proof -
  let ?n = "length as"
  define out where "out = mk_multiplier T (as @ [EFalse]) (bs @ [EFalse])"
  have "is_product I (?n + 1) out (as @ [EFalse]) (bs @ [EFalse])"
    unfolding out_def using mk_multiplier_correct[of "as @ [EFalse]" "bs @ [EFalse]" I] assms by simp
  then have out: "length out = Suc ?n" "fmls out" "uval I out = uval I as * uval I bs mod 2 ^ (?n + 1)"
    by (simp_all add: is_product_def)
  have n: "0 < ?n" using assms(4) by simp
  have top: "holds I (out ! ?n) = (2 ^ ?n \<le> uval I as * uval I bs mod 2 ^ (?n + 1))"
    using top_bits(1)[of "map (holds I) out" ?n] out n by simp
  have f: "fml (out ! ?n)" using out by simp
  define ov where "ov = umul_ovf_loop T as bs [1..<?n] EFalse EFalse"
  have "fml ov \<and> holds I ov = ovf_loop (\<lambda>i. holds I (as ! (?n - i))) (\<lambda>i. holds I (bs ! i)) [1..<?n] False False"
    unfolding ov_def using umul_ovf_loop_holds[of as bs EFalse EFalse "[1..<?n]" I] assms by simp
  moreover have "ovf_loop (\<lambda>i. holds I (as ! (?n - i))) (\<lambda>i. holds I (bs ! i)) [1..<?n] False False
      \<longleftrightarrow> \<not> bits_below ?n (map (holds I) as) (map (holds I) bs)"
    using assms(3,4) by (intro ovf_loop_bits_below) simp_all
  ultimately have ov: "fml ov" "holds I ov = (\<not> bits_below ?n (map (holds I) as) (map (holds I) bs))"
    by simp_all
  have eq: "mk_umul_no_overflow T as bs = c_not T (c_or T [out ! ?n, ov])"
    by (simp add: mk_umul_no_overflow_def Let_def out_def ov_def)
  show ?thesis
    using umul_overflow_iff[of "map (holds I) as" ?n "map (holds I) bs"] assms(3)[symmetric] n f ov(1)
    by (auto simp: eq ov(2) top)
qed

lemma last_nth: "as \<noteq> [] \<Longrightarrow> as ! (length as - 1) = last as"
  by (simp add: last_conv_nth)

lemma mag_nth: "k < length as - 1 \<Longrightarrow> mag (map (holds I) as) ! k = (holds I (last as) \<noteq> holds I (as ! k))"
  by (subgoal_tac "as \<noteq> []") (auto simp: mag_def nth_butlast last_map)

theorem mk_smul_no_overflow_core_correct:
  assumes "fmls as" "fmls bs" "length as = length bs" "as \<noteq> []"
  shows "fml (mk_smul_no_overflow_core T as bs ovf)
    \<and> (holds I (mk_smul_no_overflow_core T as bs ovf)
        \<longleftrightarrow> (if ovf then sval I as * sval I bs < 2 ^ (length as - 1)
             else - (2 ^ (length as - 1)) \<le> sval I as * sval I bs))"
proof -
  let ?n = "length as" and ?xs = "map (holds I) as" and ?ys = "map (holds I) bs"
  have ne: "bs \<noteq> []" and n: "0 < ?n" using assms(3,4) by auto
  have fl: "fml (last as)" "fml (last bs)" using assms ne by simp_all
  define out where "out = mk_multiplier T (as @ [last as]) (bs @ [last bs])"
  have "is_product I (?n + 1) out (as @ [last as]) (bs @ [last bs])"
    unfolding out_def using mk_multiplier_correct[of "as @ [last as]" "bs @ [last bs]" I] assms fl by simp
  then have out: "length out = Suc ?n" "fmls out"
      "uval I out = uval I (as @ [last as]) * uval I (bs @ [last bs]) mod 2 ^ (?n + 1)"
    unfolding is_product_def by auto
  have ext: "sval I (cs @ [last cs]) = sval I cs" if "cs \<noteq> []" for cs
    using mk_sign_extend_sval[OF that, of I 1] by (simp add: mk_sign_extend_def)
  have m: "int (uval I (cs @ [last cs])) mod 2 ^ (?n + 1) = sval I cs mod 2 ^ (?n + 1)"
    if "cs \<noteq> []" "length cs = ?n" for cs
    by (metis ext[OF that(1)] that(2) sval_mod mod_mod_trivial length_append_singleton Suc_eq_plus1)
  have zs: "int (bv (map (holds I) out)) = sbv ?xs * sbv ?ys mod 2 ^ (?n + 1)"
  proof -
    have "int (uval I out) = int (uval I (as @ [last as])) * int (uval I (bs @ [last bs])) mod 2 ^ (?n + 1)"
      by (simp only: out(3) of_nat_mod of_nat_mult of_nat_power of_nat_numeral)
    also have "\<dots> = sbv ?xs * sbv ?ys mod 2 ^ (?n + 1)"
      using m[OF assms(4) refl] m[OF ne assms(3)[symmetric]] by (rule mod_mult_cong)
    finally show ?thesis .
  qed
  have top: "holds I (out ! ?n) = map (holds I) out ! ?n" "holds I (out ! (?n - 1)) = map (holds I) out ! (?n - 1)"
    using out(1) by simp_all
  have f: "fml (out ! ?n)" "fml (out ! (?n - 1))" using out(1,2) by simp_all
  define ov where "ov = smul_ovf_loop T as bs [1..<?n - 1] EFalse EFalse"
  let ?f = "\<lambda>i. holds I (as ! (?n - 1)) \<noteq> holds I (as ! (?n - 1 - i))"
  let ?g = "\<lambda>i. holds I (bs ! (?n - 1)) \<noteq> holds I (bs ! i)"
  have "fml ov \<and> holds I ov = ovf_loop ?f ?g [1..<?n - 1] False False"
    unfolding ov_def using smul_ovf_loop_holds[of as bs EFalse EFalse "[1..<?n - 1]" I] assms by simp
  moreover have "ovf_loop ?f ?g [1..<?n - 1] False False \<longleftrightarrow> \<not> bits_below (?n - 1) (mag ?xs) (mag ?ys)"
  proof (rule ovf_loop_bits_below)
    show "?f k = mag ?xs ! (?n - 1 - k)" if "1 \<le> k" "k \<le> ?n - 1" for k
      using that assms(4) last_nth[of as] by (subst mag_nth) simp_all
    show "?g i = mag ?ys ! i" if "i < ?n - 1" for i
      using that assms(3) ne last_nth[of bs] by (subst mag_nth) simp_all
  qed (simp_all add: assms(3))
  ultimately have ov: "fml ov" "holds I ov = (\<not> bits_below (?n - 1) (mag ?xs) (mag ?ys))"
    by simp_all
  have "holds I (out ! ?n) \<noteq> holds I (out ! (?n - 1)) \<or> holds I ov
      \<longleftrightarrow> sval I as * sval I bs < - (2 ^ (?n - 1)) \<or> 2 ^ (?n - 1) \<le> sval I as * sval I bs" (is "?l \<longleftrightarrow> ?r")
    unfolding top ov(2) by (rule smul_overflow_iff[OF _ _ n _ zs]) (simp_all add: assms(3) out(1))
  moreover have eq: "mk_smul_no_overflow_core T as bs ovf =
      c_not T (c_and T [if ovf then c_iff T (last as) (last bs) else c_xor T (last as) (last bs),
        c_or T [c_xor T (out ! ?n) (out ! (?n - 1)), ov]])"
    using last_nth[OF assms(4)] last_nth[OF ne] assms(3)
    by (simp add: mk_smul_no_overflow_core_def Let_def out_def ov_def)
  ultimately have res: "fml (mk_smul_no_overflow_core T as bs ovf) \<and> (holds I (mk_smul_no_overflow_core T as bs ovf)
      \<longleftrightarrow> \<not> ((holds I (last as) = holds I (last bs)) = ovf \<and> ?r))"
    using f ov(1) fl by (cases ovf) simp_all
  have pos: "0 \<le> sval I as * sval I bs" if "holds I (last as) = holds I (last bs)"
    using that sval_neg_iff[OF assms(4), of I] sval_neg_iff[OF ne, of I]
    by (cases "sval I as < 0") (simp_all add: mult_nonpos_nonpos not_less)
  have neg: "sval I as * sval I bs \<le> 0" if "holds I (last as) \<noteq> holds I (last bs)"
    using that sval_neg_iff[OF assms(4), of I] sval_neg_iff[OF ne, of I]
    by (cases "sval I as < 0") (simp_all add: mult_nonpos_nonneg mult_nonneg_nonpos not_less)
  have h: "(0 :: int) < 2 ^ (?n - 1)" by simp
  show ?thesis
    using res sign_overflow[where same = "holds I (last as) = holds I (last bs)" and ovf = ovf, OF pos neg h]
    by simp
qed

end

end
