(* ===== verification/Mpn.thy ===== *)
theory Mpn
  imports Prelude "HOL-Library.Word"
begin

text \<open>
  Multi-precision naturals (src/sources/Z3/src/util/mpn.cpp): little-endian arrays of 32-bit
  digits with explicit sizes. This theory models comparison, addition, subtraction and
  multiplication on digit lists, at the code's widths (digits of 32 bits, intermediate results of
  64), and relates them to arithmetic on the natural numbers the arrays denote. Output arrays
  are returned; an output array may be the first input, which the code reads before it writes.
\<close>

section \<open>Digits\<close>

type_synonym mpn_digit = "32 word"
type_synonym mpn_double_digit = "64 word"

fun nval :: "mpn_digit list \<Rightarrow> nat" where
  "nval [] = 0"
| "nval (d # ds) = unat d + 2 ^ 32 * nval ds"

text \<open>A digit beyond the end of an array reads as zero (\<^verbatim>\<open>(j < lnga) ? a[j] : zero\<close>).\<close>

definition digit :: "mpn_digit list \<Rightarrow> nat \<Rightarrow> mpn_digit" where
  "digit a j = (if j < length a then a ! j else 0)"

lemma nval_append [simp]: "nval (xs @ ys) = nval xs + 2 ^ (32 * length xs) * nval ys"
  by (induction xs) (simp_all add: algebra_simps power_add)

lemma unat_digit: "unat (d :: mpn_digit) < 2 ^ 32"
  using unsigned_less[of d] by simp

lemma nval_less: "nval xs < 2 ^ (32 * length xs)"
proof (induction xs)
  case (Cons d xs)
  have "nval (d # xs) < 2 ^ 32 * (nval xs + 1)" using unat_digit[of d] by simp
  also have "\<dots> \<le> 2 ^ 32 * 2 ^ (32 * length xs)" using Cons.IH by (intro mult_left_mono) auto
  finally show ?case by (simp add: power_add)
qed simp

lemma nval_replicate_0 [simp]: "nval (replicate n 0) = 0"
  by (induction n) simp_all

lemma nval_digits: "length a \<le> n \<Longrightarrow> nval (map (digit a) [0..<n]) = nval a"
proof -
  assume n: "length a \<le> n"
  have "map (digit a) [0..<n] = a @ replicate (n - length a) 0"
    using n by (intro nth_equalityI) (auto simp: digit_def nth_append)
  then show ?thesis by simp
qed

lemma nval_snoc_digits:
  assumes "\<forall>i \<ge> n. digit a i = 0"
  shows "nval (map (digit a) [0..<n]) = nval a"
proof (cases "length a \<le> n")
  case False
  have "map (digit a) [0..<length a] = map (digit a) [0..<n] @ replicate (length a - n) 0"
    using False assms by (intro nth_equalityI) (auto simp: nth_append not_less)
  then show ?thesis using nval_digits[of a "length a"] by simp
qed (simp add: nval_digits)

lemma nval_inj: "length a = length b \<Longrightarrow> nval a = nval b \<Longrightarrow> a = b"
proof (induction a b rule: list_induct2)
  case (Cons x xs y ys)
  have "nval (x # xs) mod 2 ^ 32 = nval (y # ys) mod 2 ^ 32" using Cons.prems by simp
  then have "unat x = unat y" using unat_digit[of x] unat_digit[of y] by simp
  with Cons show ?case by (simp add: word_unat_eq_iff)
qed simp

section \<open>Carries\<close>

lemma unat_add_carry:
  fixes u v :: "'a :: len word"
  shows "unat (u + v) + 2 ^ LENGTH('a) * of_bool (u + v < u) = unat u + unat v"
proof (cases "unat u + unat v < 2 ^ LENGTH('a)")
  case True
  then show ?thesis by (simp add: unat_word_ariths word_less_nat_alt)
next
  case False
  have lt: "unat u < 2 ^ LENGTH('a)" "unat v < 2 ^ LENGTH('a)" by simp_all
  have "unat (u + v) = (unat u + unat v - 2 ^ LENGTH('a)) mod 2 ^ LENGTH('a)"
    using False by (simp add: unat_word_ariths le_mod_geq)
  also have "\<dots> = unat u + unat v - 2 ^ LENGTH('a)" by (rule mod_less) (use lt in linarith)
  finally have "unat (u + v) = unat u + unat v - 2 ^ LENGTH('a)" .
  moreover from this have "unat (u + v) < unat u" using False lt by linarith
  then have "u + v < u" by (simp add: word_less_nat_alt)
  ultimately show ?thesis using False by simp
qed

lemma unat_sub_borrow:
  fixes u v :: "'a :: len word"
  shows "unat (u - v) + unat v = unat u + 2 ^ LENGTH('a) * of_bool (u < u - v)"
proof -
  have "u < u - v \<longleftrightarrow> (u - v) + v < u - v" by simp
  then show ?thesis using unat_add_carry[of "u - v" v] by simp
qed

section \<open>Comparison\<close>

fun compare_loop :: "nat \<Rightarrow> mpn_digit list \<Rightarrow> mpn_digit list \<Rightarrow> int" where
  "compare_loop 0 a b = 0"
| "compare_loop (Suc j) a b =
     (let u_j = digit a j; v_j = digit b j
      in if u_j > v_j then 1 else if u_j < v_j then - 1 else compare_loop j a b)"

definition mpn_compare :: "mpn_digit list \<Rightarrow> mpn_digit list \<Rightarrow> int" where
  "mpn_compare a b = compare_loop (max (length a) (length b)) a b"

section \<open>Addition and subtraction\<close>

fun add_loop :: "mpn_digit list \<Rightarrow> mpn_digit list \<Rightarrow> nat list \<Rightarrow> mpn_digit \<Rightarrow> mpn_digit list \<times> mpn_digit" where
  "add_loop a b [] k = ([], k)"
| "add_loop a b (j # js) k =
     (let u_j = digit a j; v_j = digit b j;
          r = u_j + v_j; c1 = r < u_j;
          c_j = r + k; c2 = c_j < r;
          (cs, k') = add_loop a b js (of_bool (c1 \<or> c2))
      in (c_j # cs, k'))"

fun trim_size :: "nat \<Rightarrow> mpn_digit list \<Rightarrow> nat" where
  "trim_size os c = (if os > 1 \<and> c ! (os - 1) = 0 then trim_size (os - 1) c else os)"

declare trim_size.simps [simp del]

text \<open>The result array and \<^verbatim>\<open>*plngc\<close>, its size without leading zeros.\<close>

definition mpn_add :: "mpn_digit list \<Rightarrow> mpn_digit list \<Rightarrow> mpn_digit list \<times> nat" where
  "mpn_add a b =
     (let len = max (length a) (length b);
          (cs, k) = add_loop a b [0..<len] 0;
          c = cs @ [k]
      in (c, trim_size (len + 1) c))"

fun sub_loop :: "mpn_digit list \<Rightarrow> mpn_digit list \<Rightarrow> nat list \<Rightarrow> mpn_digit \<Rightarrow> mpn_digit list \<times> mpn_digit" where
  "sub_loop a b [] k = ([], k)"
| "sub_loop a b (j # js) k =
     (let u_j = digit a j; v_j = digit b j;
          r = u_j - v_j; c1 = r > u_j;
          c_j = r - k; c2 = c_j > r;
          (cs, k') = sub_loop a b js (of_bool (c1 \<or> c2))
      in (c_j # cs, k'))"

text \<open>The result array and \<^verbatim>\<open>*pborrow\<close>.\<close>

definition mpn_sub :: "mpn_digit list \<Rightarrow> mpn_digit list \<Rightarrow> mpn_digit list \<times> mpn_digit" where
  "mpn_sub a b = sub_loop a b [0..<max (length a) (length b)] 0"

section \<open>Multiplication\<close>

fun mul_inner ::
  "mpn_digit list \<Rightarrow> mpn_digit \<Rightarrow> nat \<Rightarrow> nat list \<Rightarrow> mpn_digit list \<Rightarrow> mpn_digit \<Rightarrow> mpn_digit list \<times> mpn_digit" where
  "mul_inner a v_j j [] c k = (c, k)"
| "mul_inner a v_j j (i # is) c k =
     (let t = ucast (a ! i) * ucast v_j + ucast (c ! (i + j)) + ucast k :: mpn_double_digit
      in mul_inner a v_j j is (c[i + j := ucast (drop_bit 32 (push_bit 32 t))]) (ucast (drop_bit 32 t)))"

fun mul_loop :: "mpn_digit list \<Rightarrow> mpn_digit list \<Rightarrow> nat list \<Rightarrow> mpn_digit list \<Rightarrow> mpn_digit list" where
  "mul_loop a b [] c = c"
| "mul_loop a b (j # js) c =
     (let v_j = b ! j
      in if v_j = 0 then mul_loop a b js (c[j + length a := 0])
         else
           let (c', k) = mul_inner a v_j j [0..<length a] c 0
           in mul_loop a b js (c'[j + length a := k]))"

text \<open>\<open>c\<close> is the caller's array, of \<^verbatim>\<open>lnga + lngb\<close> digits; only its first \<^verbatim>\<open>lnga\<close> are cleared.\<close>

definition mpn_mul :: "mpn_digit list \<Rightarrow> mpn_digit list \<Rightarrow> mpn_digit list \<Rightarrow> mpn_digit list" where
  "mpn_mul a b c =
     mul_loop a b [0..<length b] (replicate (length a) 0 @ drop (length a) c)"

section \<open>Comparison is comparison of the numbers\<close>

lemma nval_digits_Suc:
  "nval (map (digit a) [0..<Suc j]) = nval (map (digit a) [0..<j]) + 2 ^ (32 * j) * unat (digit a j)"
  by simp

lemma nval_digits_less: "nval (map (digit a) [0..<j]) < 2 ^ (32 * j)"
  using nval_less[of "map (digit a) [0..<j]"] by simp

lemma top_digit_less:
  assumes "x < 2 ^ n" "u < (v :: nat)"
  shows "x + 2 ^ n * u < y + 2 ^ n * v"
proof -
  have "x + 2 ^ n * u < 2 ^ n * (u + 1)" using assms(1) by simp
  also have "\<dots> \<le> 2 ^ n * v" using assms(2) by (intro mult_left_mono) auto
  finally show ?thesis by simp
qed

lemma sgn_int_diff: "x < y \<Longrightarrow> sgn (int x - int y) = - 1" "y < x \<Longrightarrow> sgn (int x - int y) = 1"
  by simp_all

lemma compare_loop_sgn:
  "compare_loop n a b = sgn (int (nval (map (digit a) [0..<n])) - int (nval (map (digit b) [0..<n])))"
proof (induction n)
  case (Suc j)
  consider "digit a j > digit b j" | "digit a j < digit b j" | "digit a j = digit b j" by fastforce
  then show ?case
  proof cases
    case 1
    then have "nval (map (digit b) [0..<Suc j]) < nval (map (digit a) [0..<Suc j])"
      unfolding nval_digits_Suc by (intro top_digit_less nval_digits_less) (simp add: word_less_nat_alt)
    with 1 show ?thesis by (simp add: Let_def sgn_int_diff del: upt_Suc)
  next
    case 2
    then have "nval (map (digit a) [0..<Suc j]) < nval (map (digit b) [0..<Suc j])"
      unfolding nval_digits_Suc by (intro top_digit_less nval_digits_less) (simp add: word_less_nat_alt)
    with 2 show ?thesis by (simp add: Let_def sgn_int_diff less_not_sym del: upt_Suc)
  next
    case 3
    with Suc show ?thesis unfolding nval_digits_Suc by simp
  qed
qed simp

lemma mpn_compare_correct: "mpn_compare a b = sgn (int (nval a) - int (nval b))"
  by (simp add: mpn_compare_def compare_loop_sgn nval_digits)

section \<open>Addition, subtraction and multiplication\<close>

lemma length_add_loop: "length (fst (add_loop a b js k)) = length js"
  by (induction a b js k rule: add_loop.induct) (simp_all add: Let_def split_def)

lemma length_sub_loop: "length (fst (sub_loop a b js k)) = length js"
  by (induction a b js k rule: sub_loop.induct) (simp_all add: Let_def split_def)

text \<open>One digit with a carry (borrow) of at most one; at most one of the two tests is true.\<close>

lemma add_digit:
  fixes u v k :: mpn_digit
  assumes "unat k \<le> 1"
  shows "unat (u + v + k) + 2 ^ 32 * unat (of_bool (u + v < u \<or> u + v + k < u + v) :: mpn_digit)
    = unat u + unat v + unat k"
  using unat_add_carry[of u v] unat_add_carry[of "u + v" k] unat_digit[of u] unat_digit[of v] assms
  by (cases "u + v < u"; cases "u + v + k < u + v") simp_all

lemma sub_digit:
  fixes u v k :: mpn_digit
  assumes "unat k \<le> 1"
  shows "unat (u - v - k) + unat v + unat k
    = unat u + 2 ^ 32 * unat (of_bool (u < u - v \<or> u - v < u - v - k) :: mpn_digit)"
  using unat_sub_borrow[of u v] unat_sub_borrow[of "u - v" k] unat_digit[of u] unat_digit[of v]
    unat_digit[of "u - v - k"] assms
  by (cases "u < u - v"; cases "u - v < u - v - k") simp_all

lemma unat_of_bool_le: "unat (of_bool b :: mpn_digit) \<le> 1"
  by simp

lemma add_loop_correct:
  "unat k \<le> 1 \<Longrightarrow> add_loop a b js k = (cs, k') \<Longrightarrow>
     unat k' \<le> 1 \<and> nval cs + 2 ^ (32 * length js) * unat k'
       = nval (map (digit a) js) + nval (map (digit b) js) + unat k"
proof (induction js arbitrary: k cs)
  case (Cons j js)
  let ?u = "digit a j" and ?v = "digit b j"
  let ?k = "of_bool (?u + ?v < ?u \<or> ?u + ?v + k < ?u + ?v) :: mpn_digit"
  obtain cs' where r: "add_loop a b js ?k = (cs', k')" "cs = (?u + ?v + k) # cs'"
    using Cons.prems(2) by (auto simp: Let_def split: prod.splits)
  from Cons.IH[OF unat_of_bool_le r(1)] add_digit[OF Cons.prems(1), of ?u ?v]
  show ?case by (simp add: r(2) power_add algebra_simps)
qed simp

lemma sub_loop_correct:
  "unat k \<le> 1 \<Longrightarrow> sub_loop a b js k = (cs, k') \<Longrightarrow>
     unat k' \<le> 1 \<and> nval cs + nval (map (digit b) js) + unat k
       = nval (map (digit a) js) + 2 ^ (32 * length js) * unat k'"
proof (induction js arbitrary: k cs)
  case (Cons j js)
  let ?u = "digit a j" and ?v = "digit b j"
  let ?k = "of_bool (?u < ?u - ?v \<or> ?u - ?v < ?u - ?v - k) :: mpn_digit"
  obtain cs' where r: "sub_loop a b js ?k = (cs', k')" "cs = (?u - ?v - k) # cs'"
    using Cons.prems(2) by (auto simp: Let_def split: prod.splits)
  from Cons.IH[OF unat_of_bool_le r(1)] sub_digit[OF Cons.prems(1), of ?u ?v]
  show ?case by (simp add: r(2) power_add algebra_simps)
qed simp

lemma trim_size_correct:
  assumes "0 < os" "os \<le> length c"
  shows "0 < trim_size os c \<and> trim_size os c \<le> os \<and> nval (take (trim_size os c) c) = nval (take os c)
    \<and> (trim_size os c = 1 \<or> c ! (trim_size os c - 1) \<noteq> 0)"
  using assms
proof (induction os c rule: trim_size.induct)
  case (1 os c)
  show ?case
  proof (cases "os > 1 \<and> c ! (os - 1) = 0")
    case True
    then have "os - 1 < length c" and os: "Suc (os - 1) = os" using 1(3) by linarith+
    then have "take os c = take (os - 1) c @ [0]"
      using True take_Suc_conv_app_nth[of "os - 1" c] unfolding os by simp
    then have "nval (take os c) = nval (take (os - 1) c)" by simp
    moreover have "trim_size os c = trim_size (os - 1) c" using True by (simp add: trim_size.simps[of os c])
    moreover have "0 < os - 1" "os - 1 \<le> length c" using True 1(3) by linarith+
    ultimately show ?thesis using 1(1)[OF True] by auto
  next
    case False
    with 1(2) show ?thesis by (auto simp: trim_size.simps[of os c])
  qed
qed

lemma mpn_add_correct:
  assumes "mpn_add a b = (c, os)"
  shows "length c = max (length a) (length b) + 1 \<and> nval c = nval a + nval b
    \<and> 0 < os \<and> os \<le> length c \<and> nval (take os c) = nval a + nval b \<and> (os = 1 \<or> c ! (os - 1) \<noteq> 0)"
proof -
  define len where "len = max (length a) (length b)"
  have le: "length a \<le> len" "length b \<le> len" by (simp_all add: len_def)
  obtain cs k where l: "add_loop a b [0..<len] 0 = (cs, k)" by fastforce
  then have c: "c = cs @ [k]" "os = trim_size (len + 1) c"
    using assms by (auto simp: mpn_add_def Let_def len_def)
  have n: "length cs = len" using length_add_loop[of a b "[0..<len]" 0] l by simp
  then have "nval c = nval a + nval b"
    using add_loop_correct[OF _ l] by (simp add: c nval_digits[OF le(1)] nval_digits[OF le(2)])
  moreover have "take (len + 1) c = c" using c n by simp
  ultimately show ?thesis
    using trim_size_correct[of "len + 1" c] c n by (simp add: len_def)
qed

lemma mpn_sub_correct:
  assumes "mpn_sub a b = (c, k)"
  shows "length c = max (length a) (length b) \<and> unat k \<le> 1
    \<and> nval c + nval b = nval a + 2 ^ (32 * max (length a) (length b)) * unat k"
proof -
  let ?len = "max (length a) (length b)"
  have l: "sub_loop a b [0..<?len] 0 = (c, k)" using assms by (simp add: mpn_sub_def)
  then have "length c = ?len" using length_sub_loop[of a b "[0..<?len]" 0] by simp
  then show ?thesis using sub_loop_correct[OF _ l] by (simp add: nval_digits)
qed

lemma unat_ucast_double [simp]: "unat (ucast (u :: mpn_digit) :: mpn_double_digit) = unat u"
  using unat_digit[of u] by (simp add: unsigned_ucast_eq take_bit_nat_eq_self)

lemma unat_ucast_digit: "unat (ucast (t :: mpn_double_digit) :: mpn_digit) = unat t mod 2 ^ 32"
  by (simp add: unsigned_ucast_eq take_bit_eq_mod)

lemma low_digit: "ucast (drop_bit 32 (push_bit 32 t)) = (ucast (t :: mpn_double_digit) :: mpn_digit)"
  by (rule bit_word_eqI) (auto simp: bit_simps)

lemma unat_high_digit: "unat (ucast (drop_bit 32 (t :: mpn_double_digit)) :: mpn_digit) = unat t div 2 ^ 32"
proof -
  have "unat t < 2 ^ 64" using unsigned_less[of t] by simp
  then have "unat t div 2 ^ 32 < 2 ^ 32" by (simp add: less_mult_imp_div_less)
  then show ?thesis by (simp add: unat_ucast_digit unat_drop_bit_eq drop_bit_eq_div unat_div)
qed

lemma double_digit_sum:
  fixes u v c k :: mpn_digit
  shows "unat (ucast u * ucast v + ucast c + ucast k :: mpn_double_digit) = unat u * unat v + unat c + unat k"
proof -
  have "unat u * unat v \<le> (2 ^ 32 - 1) * (2 ^ 32 - 1)"
    using unat_digit[of u] unat_digit[of v] by (intro mult_le_mono) auto
  then have "unat u * unat v + unat c + unat k < 2 ^ 64"
    using unat_digit[of c] unat_digit[of k] by simp
  moreover from this have "unat u * unat v + unat c < 2 ^ 64" "unat u * unat v < 2 ^ 64" by linarith+
  ultimately show ?thesis by (simp add: unat_word_ariths)
qed

text \<open>The inner loop: row \<open>v_j\<close> is added to the digits of \<open>c\<close> from position \<open>j\<close>, the carry is returned.\<close>

lemma mul_inner_correct:
  "distinct is \<Longrightarrow> \<forall>i \<in> set is. i + j < length c \<Longrightarrow> mul_inner a v j is c k = (c', k') \<Longrightarrow>
     length c' = length c \<and> (\<forall>m. m \<notin> (\<lambda>i. i + j) ` set is \<longrightarrow> c' ! m = c ! m)
     \<and> nval (map (\<lambda>i. c' ! (i + j)) is) + 2 ^ (32 * length is) * unat k'
        = nval (map (\<lambda>i. c ! (i + j)) is) + unat v * nval (map ((!) a) is) + unat k"
proof (induction "is" arbitrary: c k)
  case (Cons i "is")
  define t where "t = (ucast (a ! i) * ucast v + ucast (c ! (i + j)) + ucast k :: mpn_double_digit)"
  define d where "d = (ucast t :: mpn_digit)"
  define e where "e = (ucast (drop_bit 32 t) :: mpn_digit)"
  have "unat d = unat t mod 2 ^ 32" unfolding d_def by (rule unat_ucast_digit)
  moreover have "unat e = unat t div 2 ^ 32" unfolding e_def by (rule unat_high_digit)
  ultimately have "unat d + 2 ^ 32 * unat e = unat t" by (simp only: mod_mult_div_eq)
  then have de: "unat d + 2 ^ 32 * unat e = unat (a ! i) * unat v + unat (c ! (i + j)) + unat k"
    using double_digit_sum[of "a ! i" v "c ! (i + j)" k, folded t_def] by simp
  have rec: "mul_inner a v j is (c[i + j := d]) e = (c', k')"
    using Cons.prems(3) by (simp add: Let_def low_digit t_def[symmetric] d_def e_def)
  note ih = Cons.IH[OF _ _ rec]
  have "i + j \<notin> (\<lambda>i. i + j) ` set is" using Cons.prems(1) by auto
  then have "c' ! (i + j) = c[i + j := d] ! (i + j)" using ih Cons.prems(1,2) by simp
  then have out: "c' ! (i + j) = d" using Cons.prems(2) by simp
  have same: "map (\<lambda>x. c[i + j := d] ! (x + j)) is = map (\<lambda>x. c ! (x + j)) is"
  proof (intro map_cong refl)
    fix x assume "x \<in> set is"
    then have "x \<noteq> i" using Cons.prems(1) by auto
    then show "c[i + j := d] ! (x + j) = c ! (x + j)" by (intro nth_list_update_neq) simp
  qed
  have "nval (map (\<lambda>i. c' ! (i + j)) is) + 2 ^ (32 * length is) * unat k'
      = nval (map (\<lambda>i. c ! (i + j)) is) + unat v * nval (map ((!) a) is) + unat e"
    using ih Cons.prems(1,2) same by simp
  from arg_cong[OF this, of "\<lambda>x. 2 ^ 32 * x"] de
  have "nval (map (\<lambda>i. c' ! (i + j)) (i # is)) + 2 ^ (32 * length (i # is)) * unat k'
      = nval (map (\<lambda>i. c ! (i + j)) (i # is)) + unat v * nval (map ((!) a) (i # is)) + unat k"
    by (simp add: out power_add algebra_simps)
  moreover have "length c' = length c \<and> (\<forall>m. m \<notin> (\<lambda>i. i + j) ` set (i # is) \<longrightarrow> c' ! m = c ! m)"
    using ih Cons.prems(1,2) by auto
  ultimately show ?case by blast
qed simp

lemma take_window:
  assumes "m + n \<le> length c"
  shows "take (m + n) c = take m c @ map (\<lambda>i. c ! (i + m)) [0..<n]"
  using assms by (intro nth_equalityI) (auto simp: nth_append add.commute)

text \<open>One round of the outer loop: the low digits of \<open>c\<close> hold the product with one digit more.\<close>

lemma mul_round:
  assumes len: "length c = length a + length b" and m: "m < length b"
    and acc: "nval (take (m + length a) c) = nval a * nval (take m b)"
    and c': "c' = (let v = b ! m in if v = 0 then c[m + length a := 0]
      else let (c1, k) = mul_inner a v m [0..<length a] c 0 in c1[m + length a := k])"
  shows "length c' = length c \<and> nval (take (Suc m + length a) c') = nval a * nval (take (Suc m) b)"
proof -
  let ?v = "b ! m"
  have b: "nval (take (Suc m) b) = nval (take m b) + 2 ^ (32 * m) * unat ?v"
    using m by (simp add: take_Suc_conv_app_nth)
  have top: "take (Suc (m + length a)) (xs[m + length a := x]) = take (m + length a) xs @ [x]"
    if "length xs = length c" for xs and x :: mpn_digit
    using that len m by (subst take_Suc_conv_app_nth) auto
  show ?thesis
  proof (cases "?v = 0")
    case True
    then show ?thesis using acc b top[of c 0] by (simp add: c')
  next
    case False
    obtain c1 k where r: "mul_inner a ?v m [0..<length a] c 0 = (c1, k)" by fastforce
    have "\<forall>i \<in> set [0..<length a]. i + m < length c" using len m by auto
    note inner = mul_inner_correct[OF distinct_upt this r]
    have l1: "length c1 = length c" using inner by simp
    have low: "take m c1 = take m c"
      using inner by (intro nth_equalityI) auto
    have win: "take (m + length a) xs = take m xs @ map (\<lambda>i. xs ! (i + m)) [0..<length a]"
      if "length xs = length c" for xs using that len m by (intro take_window) simp
    have "nval (take (Suc m + length a) c')
        = nval (take m c) + 2 ^ (32 * m) * (nval (map (\<lambda>i. c1 ! (i + m)) [0..<length a]) + 2 ^ (32 * length a) * unat k)"
      using l1 low False len m by (simp add: c' r top win power_add algebra_simps)
    also have "\<dots> = nval (take (m + length a) c) + 2 ^ (32 * m) * (unat ?v * nval a)"
      using inner len m by (simp add: win map_nth algebra_simps)
    finally show ?thesis using acc b l1 False by (simp add: c' r algebra_simps)
  qed
qed

lemma mul_loop_correct:
  "length c = length a + length b \<Longrightarrow> m \<le> length b \<Longrightarrow> nval (take (m + length a) c) = nval a * nval (take m b) \<Longrightarrow>
     length (mul_loop a b [m..<length b] c) = length c \<and> nval (mul_loop a b [m..<length b] c) = nval a * nval b"
proof (induction "length b - m" arbitrary: m c)
  case 0
  then show ?case by simp
next
  case (Suc n)
  then have m: "m < length b" by simp
  define c' where "c' = (let v = b ! m in if v = 0 then c[m + length a := 0]
      else let (c1, k) = mul_inner a v m [0..<length a] c 0 in c1[m + length a := k])"
  have "mul_loop a b [m..<length b] c = mul_loop a b [Suc m..<length b] c'"
    using m by (simp add: upt_conv_Cons c'_def Let_def split_def)
  with mul_round[OF Suc.prems(1) m Suc.prems(3) c'_def] Suc.hyps(1)[of "Suc m" c'] Suc.hyps(2) Suc.prems(1) m
  show ?case by simp
qed

lemma mpn_mul_correct:
  assumes "length c = length a + length b"
  shows "length (mpn_mul a b c) = length a + length b \<and> nval (mpn_mul a b c) = nval a * nval b"
  unfolding mpn_mul_def
  using mul_loop_correct[of "replicate (length a) 0 @ drop (length a) c" a b 0] assms by simp

end
