(* ===== verification/Mpn_Div.thy ===== *)
theory Mpn_Div
  imports Mpn
begin

text \<open>
  Division of multi-precision naturals (\<^verbatim>\<open>mpn_manager::div\<close> and its helpers): Knuth's
  Algorithm D on 32-bit digits, with normalisation by a left shift, the estimate of a quotient
  digit by 64-bit arithmetic and its correction, and the add-back step. The buffers of the manager
  are arguments: the results do not depend on what they held.
\<close>

unbundle bit_operations_syntax

section \<open>Normalisation\<close>

definition MASK_FIRST :: mpn_digit where
  "MASK_FIRST = NOT (drop_bit 1 (- 1))"

definition first_bits :: "nat \<Rightarrow> mpn_digit \<Rightarrow> mpn_digit" where
  "first_bits n x = drop_bit (32 - n) x"

definition last_bits :: "nat \<Rightarrow> mpn_digit \<Rightarrow> mpn_digit" where
  "last_bits n x = drop_bit (32 - n) (push_bit (32 - n) x)"

text \<open>The loop has no bound: for a zero digit it does not end (shifts by the width and more, which
  C leaves undefined, give zero here).\<close>

partial_function (option) norm_shift :: "mpn_digit \<Rightarrow> nat \<Rightarrow> nat option" where
  [code]: "norm_shift x d = (if push_bit d x AND MASK_FIRST = 0 then norm_shift x (Suc d) else Some d)"

definition resize :: "nat \<Rightarrow> mpn_digit list \<Rightarrow> mpn_digit list" where
  "resize n buf = take n (buf @ replicate n 0)"

text \<open>Digit \<open>i\<close> is \<^verbatim>\<open>(a[i] << d) | FIRST_BITS(d, a[i-1])\<close>; \<open>prev\<close> is the digit before the list.\<close>

fun shl_digits :: "nat \<Rightarrow> mpn_digit \<Rightarrow> mpn_digit list \<Rightarrow> mpn_digit list" where
  "shl_digits d prev [] = []"
| "shl_digits d prev (x # xs) = (push_bit d x OR first_bits d prev) # shl_digits d x xs"

definition div_normalize ::
  "mpn_digit list \<Rightarrow> mpn_digit list \<Rightarrow> mpn_digit list \<Rightarrow> mpn_digit list
    \<Rightarrow> (nat \<times> mpn_digit list \<times> mpn_digit list) option" where
  "div_normalize numer denom n_numer n_denom =
     map_option
       (\<lambda>d. if d = 0 then (0, numer @ [0], denom)
            else if numer \<noteq> [] then
              (d, shl_digits d 0 numer @ [first_bits d (last numer)], shl_digits d 0 denom)
            else (0, resize (length numer + 1) n_numer, resize (length denom) n_denom))
       (if denom = [] then Some 0 else norm_shift (last denom) 0)"

fun shr_digits :: "nat \<Rightarrow> mpn_digit list \<Rightarrow> mpn_digit list" where
  "shr_digits d [] = []"
| "shr_digits d [x] = [drop_bit d x]"
| "shr_digits d (x # y # ys) =
     (drop_bit d x OR push_bit (32 - d) (last_bits d y)) # shr_digits d (y # ys)"

definition div_unnormalize :: "mpn_digit list \<Rightarrow> mpn_digit list \<Rightarrow> nat \<Rightarrow> mpn_digit list" where
  "div_unnormalize numer denom d =
     (if d = 0 then take (length denom) numer else shr_digits d (take (length denom) numer))"

section \<open>Division by one digit\<close>

text \<open>Two digits as a double digit.\<close>

definition double_digit :: "mpn_digit \<Rightarrow> mpn_digit \<Rightarrow> mpn_double_digit" where
  "double_digit hi lo = push_bit 32 (ucast hi) OR ucast lo"

fun div_1_loop ::
  "nat \<Rightarrow> mpn_digit list \<Rightarrow> mpn_digit \<Rightarrow> mpn_digit list \<Rightarrow> mpn_digit list \<times> mpn_digit list" where
  "div_1_loop 0 numer denom quot = (numer, quot)"
| "div_1_loop (Suc j) numer denom quot =
     (let temp = double_digit (numer ! Suc j) (numer ! j);
          q_hat = temp div ucast denom;
          ms = temp - q_hat * ucast denom;
          borrow = ms > temp;
          numer1 = numer[j := ucast ms, Suc j := ucast (drop_bit 32 ms)];
          quot1 = quot[j := ucast q_hat];
          (numer2, quot2) = (if borrow
             then (numer1[Suc j := numer1 ! j + denom], quot1[j := quot1 ! j - 1])
             else (numer1, quot1))
      in div_1_loop j numer2 denom quot2)"

definition div_1 :: "mpn_digit list \<Rightarrow> mpn_digit \<Rightarrow> mpn_digit list \<Rightarrow> mpn_digit list \<times> mpn_digit list" where
  "div_1 numer denom quot = div_1_loop (length numer - 1) numer denom quot"

section \<open>Algorithm D\<close>

definition BASE :: mpn_double_digit where
  "BASE = push_bit 32 1"

text \<open>The loop at the label \<^verbatim>\<open>recheck\<close>.\<close>

function recheck ::
  "mpn_digit \<Rightarrow> mpn_digit \<Rightarrow> mpn_digit \<Rightarrow> mpn_double_digit \<Rightarrow> mpn_double_digit \<Rightarrow> mpn_double_digit" where
  "recheck d1 d2 u q_hat r_hat =
     (if q_hat \<ge> BASE \<or> q_hat * ucast d2 > push_bit 32 r_hat + ucast u then
        let q_hat' = q_hat - 1; r_hat' = r_hat + ucast d1
        in if r_hat' < BASE then recheck d1 d2 u q_hat' r_hat' else q_hat'
      else q_hat)"
  by pat_completeness auto
termination
proof (relation "measure (\<lambda>(d1, d2, u, q, r). unat q)")
  fix d1 d2 u :: mpn_digit and q_hat r_hat q' r' :: mpn_double_digit
  assume "q_hat \<ge> BASE \<or> q_hat * ucast d2 > push_bit 32 r_hat + ucast u" and q': "q' = q_hat - 1"
  then have "q_hat \<noteq> 0" by (auto simp: BASE_def)
  then show "((d1, d2, u, q', r'), (d1, d2, u, q_hat, r_hat)) \<in> measure (\<lambda>(d1, d2, u, q, r). unat q)"
    using q' unat_gt_0[of q_hat] by (simp add: unat_minus_one)
qed simp

declare recheck.simps [simp del]

text \<open>The digit of the quotient estimated from the two top digits, and corrected.\<close>

definition estimate :: "mpn_digit list \<Rightarrow> mpn_digit list \<Rightarrow> mpn_double_digit" where
  "estimate denom w =
     (let n = length denom;
          temp = double_digit (w ! n) (w ! (n - 1));
          q_hat = temp div ucast (denom ! (n - 1));
          r_hat = temp mod ucast (denom ! (n - 1))
      in recheck (denom ! (n - 1)) (denom ! (n - 2)) (w ! (n - 2)) q_hat r_hat)"

text \<open>One iteration: the digit of the quotient and what replaces the window of \<open>n + 1\<close> digits of
  the numerator; \<open>ms\<close> is the scratch buffer.\<close>

definition div_step ::
  "mpn_digit list \<Rightarrow> mpn_digit list \<Rightarrow> mpn_digit list \<Rightarrow> mpn_digit \<times> mpn_digit list \<times> mpn_digit list" where
  "div_step denom window ms =
     (let n = length denom;
          q_hat = estimate denom window;
          q_hat_small = ucast q_hat;
          ms' = mpn_mul [q_hat_small] denom ms;
          (window', borrow) = mpn_sub window ms'
      in if borrow \<noteq> 0 then
           let ab = fst (mpn_add denom window') in (q_hat_small - 1, take (n + 1) ab, ms')
         else (q_hat_small, window', ms'))"

fun div_n_loop ::
  "nat \<Rightarrow> mpn_digit list \<Rightarrow> mpn_digit list \<Rightarrow> mpn_digit list \<Rightarrow> mpn_digit list
    \<Rightarrow> mpn_digit list \<times> mpn_digit list" where
  "div_n_loop 0 numer denom quot ms = (numer, quot)"
| "div_n_loop (Suc j) numer denom quot ms =
     (let n = length denom;
          (q, window, ms') = div_step denom (take (n + 1) (drop j numer)) ms
      in div_n_loop j (take j numer @ window @ drop (j + n + 1) numer) denom (quot[j := q]) ms')"

definition div_n ::
  "mpn_digit list \<Rightarrow> mpn_digit list \<Rightarrow> mpn_digit list \<Rightarrow> mpn_digit list
    \<Rightarrow> mpn_digit list \<times> mpn_digit list" where
  "div_n numer denom quot ms =
     div_n_loop (length numer - length denom) numer denom quot (resize (length denom + 1) ms)"

section \<open>Division\<close>

datatype mpn_error = OutOfBounds | Unreachable | Assertion | NoReturn

lemma unat_Suc_below:
  assumes "i < (bound :: 64 word)"
  shows "unat (i + 1) = unat i + 1"
proof -
  have "unat i + 1 \<le> unat bound" "unat bound < 2 ^ 64" using assms unsigned_less[of bound] by (simp_all add: word_less_nat_alt)
  then have "unat i + 1 < 2 ^ 64" by linarith
  then show ?thesis by (simp add: unat_word_ariths)
qed

text \<open>The first loop, whose bound \<^verbatim>\<open>lnum-lden+1\<close> is a 64-bit \<^verbatim>\<open>size_t\<close>: it wraps around for a
  denominator longer by two digits or more. \<open>None\<close> is a write past the end of \<open>quot\<close>.\<close>

function zero_quot :: "64 word \<Rightarrow> 64 word \<Rightarrow> mpn_digit list \<Rightarrow> mpn_digit list option" where
  "zero_quot i bound quot =
     (if i < bound then
        if unat i < length quot then zero_quot (i + 1) bound (quot[unat i := 0]) else None
      else Some quot)"
  by pat_completeness auto
termination
proof (relation "measure (\<lambda>(i, bound, quot). unat bound - unat i)", simp)
  fix i bound :: "64 word" and quot :: "mpn_digit list"
  assume lt: "i < bound"
  then have "unat (i + 1) = unat i + 1" by (rule unat_Suc_below)
  then show "((i + 1, bound, quot[unat i := 0]), (i, bound, quot)) \<in> measure (\<lambda>(i, bound, quot). unat bound - unat i)"
    using lt by (simp add: word_less_nat_alt)
qed

declare zero_quot.simps [simp del]

text \<open>\<open>u\<close>, \<open>v\<close> and \<open>ms\<close> are buffers of the manager.\<close>

definition mpn_div ::
  "mpn_digit list \<Rightarrow> mpn_digit list \<Rightarrow> mpn_digit list \<Rightarrow> mpn_digit list \<Rightarrow> mpn_digit list \<Rightarrow> mpn_digit list
    \<Rightarrow> mpn_error + bool \<times> mpn_digit list \<times> mpn_digit list" where
  "mpn_div numer denom quot u v ms =
     (let lnum = length numer; lden = length denom
      in if lnum < lden then
           (case zero_quot 0 (of_nat lnum - of_nat lden + 1) quot of
              None \<Rightarrow> Inl OutOfBounds
            | Some quot' \<Rightarrow> Inr (False, quot', map (digit numer) [0..<lden]))
         else if list_all (\<lambda>d. d = 0) denom then Inl Unreachable
         else if denom ! (lden - 1) = 0 then Inl Assertion
         else if lnum = 1 \<and> lden = 1 then
           Inr (False, quot[0 := numer ! 0 div denom ! 0], [numer ! 0 mod denom ! 0])
         else if lnum = lden \<and> numer ! (lnum - 1) < denom ! (lden - 1) then
           Inr (False, quot[0 := 0], map (digit numer) [0..<lden])
         else
           case div_normalize numer denom u v of
             None \<Rightarrow> Inl NoReturn
           | Some (d, u', v') \<Rightarrow>
               let (numer', quot') = (if lden = 1 then div_1 u' (v' ! 0) quot else div_n u' v' quot ms)
               in Inr (True, quot', div_unnormalize numer' v' d))"

end
