(* ===== verification/Mpn_Div_Sound.thy ===== *)
theory Mpn_Div_Sound
  imports Mpn_Div
begin

text \<open>
  Division of multi-precision naturals returns the quotient and the remainder: the shift of
  the normalisation and its inverse as multiplication and division by \<open>2 ^ d\<close>, the bounds of
  Knuth's estimate on natural numbers, their transfer to the 64-bit loop, and the invariant of the
  digit loop.
\<close>

unbundle bit_operations_syntax

section \<open>Shifts of digits\<close>

lemma or_disjoint: "(\<And>n. \<not> (bit x n \<and> bit y n)) \<Longrightarrow> x OR y = x + (y :: 'a :: len word)"
  by (subst disjunctive_add) auto

lemma unat_push_bit_digit: "unat (push_bit d x :: mpn_digit) = unat x * 2 ^ d mod 2 ^ 32"
  unfolding unsigned_push_bit_eq by (simp add: take_bit_eq_mod push_bit_eq_mult)

lemma unat_drop_bit_digit: "unat (drop_bit d x :: mpn_digit) = unat x div 2 ^ d"
  unfolding unat_drop_bit_eq by (simp add: drop_bit_eq_div)

lemma unat_first_bits: "unat (first_bits d x) = unat x div 2 ^ (32 - d)"
  by (simp add: first_bits_def unat_drop_bit_digit)

lemma bit_digit_bound: "bit (x :: mpn_digit) n \<Longrightarrow> n < 32"
  using bit_imp_le_length[of x n] by simp

lemma shl_digit:
  assumes "d < 32"
  shows "unat (push_bit d x OR first_bits d p) = unat x * 2 ^ d mod 2 ^ 32 + unat p div 2 ^ (32 - d)"
proof -
  have "push_bit d x OR first_bits d p = push_bit d x + first_bits d p"
    by (rule or_disjoint) (auto simp: first_bits_def bit_simps dest: bit_digit_bound)
  moreover have "unat (push_bit d x + first_bits d p) = unat (push_bit d x) + unat (first_bits d p)"
  proof -
    have "unat x * 2 ^ d mod 2 ^ 32 = 2 ^ d * (unat x mod 2 ^ (32 - d))"
      using assms by (simp add: mult.commute mult_mod_right flip: power_add)
    moreover have "unat p div 2 ^ (32 - d) < 2 ^ d"
      using unat_digit[of p] assms by (simp add: less_mult_imp_div_less flip: power_add)
    moreover have "2 ^ d * (unat x mod 2 ^ (32 - d)) + 2 ^ d \<le> (2 :: nat) ^ 32"
    proof -
      have "2 ^ d * (unat x mod 2 ^ (32 - d) + 1) \<le> 2 ^ d * (2 ^ (32 - d) :: nat)"
        by (intro mult_left_mono) (simp_all add: Suc_leI)
      then show ?thesis using assms by (simp flip: power_add)
    qed
    ultimately have "unat (push_bit d x) + unat (first_bits d p) < 2 ^ 32"
      unfolding unat_push_bit_digit unat_first_bits by linarith
    then show ?thesis by (simp add: unat_word_ariths)
  qed
  ultimately show ?thesis by (simp add: unat_push_bit_digit unat_first_bits)
qed

lemma shl_digits_correct:
  assumes "0 < d" "d < 32"
  shows "nval (shl_digits d p xs) + 2 ^ (32 * length xs) * (unat (last (p # xs)) div 2 ^ (32 - d))
    = 2 ^ d * nval xs + unat p div 2 ^ (32 - d)"
proof (induction xs arbitrary: p)
  case (Cons x xs)
  have "unat x * 2 ^ d mod 2 ^ 32 + 2 ^ 32 * (unat x div 2 ^ (32 - d)) = unat x * 2 ^ d"
  proof -
    have "unat x div 2 ^ (32 - d) = unat x * 2 ^ d div (2 ^ (32 - d) * 2 ^ d)" by simp
    also have "2 ^ (32 - d) * 2 ^ d = (2 ^ 32 :: nat)" using assms by (simp flip: power_add)
    finally show ?thesis by simp
  qed
  moreover have "last (p # x # xs) = last (x # xs)" by simp
  ultimately show ?case
    using Cons.IH[of x] shl_digit[OF assms(2), of x p]
    by (simp add: power_add algebra_simps del: last.simps)
qed (simp add: last.simps)

lemma length_shl_digits [simp]: "length (shl_digits d p xs) = length xs"
  by (induction xs arbitrary: p) simp_all


lemma mod_shift: "e \<le> k \<Longrightarrow> x * 2 ^ e mod 2 ^ k = 2 ^ e * (x mod 2 ^ (k - e) :: nat)"
  by (simp add: mult.commute mult_mod_right flip: power_add)

lemma last_bits_eq: "d \<le> 32 \<Longrightarrow> unat (last_bits d x) = unat x mod 2 ^ d"
proof -
  assume d: "d \<le> 32"
  have "unat (last_bits d x) = unat x * 2 ^ (32 - d) mod 2 ^ 32 div 2 ^ (32 - d)"
    by (simp add: last_bits_def unat_drop_bit_digit unat_push_bit_digit)
  also have "unat x * 2 ^ (32 - d) mod 2 ^ 32 = 2 ^ (32 - d) * (unat x mod 2 ^ d)"
    using mod_shift[of "32 - d" 32 "unat x"] d by simp
  finally show ?thesis by simp
qed

lemma shr_digit:
  assumes "0 < d" "d < 32"
  shows "unat (drop_bit d x OR push_bit (32 - d) (last_bits d y)) = unat x div 2 ^ d + 2 ^ (32 - d) * (unat y mod 2 ^ d)"
proof -
  have two: "2 ^ (32 - d) * 2 ^ d = (2 ^ 32 :: nat)" using assms by (simp flip: power_add)
  have "2 ^ (32 - d) * (unat y mod 2 ^ d + 1) \<le> 2 ^ (32 - d) * (2 ^ d :: nat)"
    by (intro mult_left_mono) (simp_all add: Suc_leI)
  then have y: "2 ^ (32 - d) * (unat y mod 2 ^ d) + 2 ^ (32 - d) \<le> 2 ^ 32" using two by simp
  moreover have "0 < (2 ^ (32 - d) :: nat)" by simp
  ultimately have "2 ^ (32 - d) * (unat y mod 2 ^ d) < 2 ^ 32" by linarith
  then have push: "unat (push_bit (32 - d) (last_bits d y)) = 2 ^ (32 - d) * (unat y mod 2 ^ d)"
    using assms by (simp add: unat_push_bit_digit last_bits_eq mult.commute)
  have x: "unat x div 2 ^ d < 2 ^ (32 - d)"
    using unat_digit[of x] two by (simp add: less_mult_imp_div_less)
  have "drop_bit d x OR push_bit (32 - d) (last_bits d y) = drop_bit d x + push_bit (32 - d) (last_bits d y)"
    by (rule or_disjoint) (auto simp: bit_simps dest: bit_digit_bound)
  then show ?thesis using push x y by (simp add: unat_word_ariths unat_drop_bit_digit)
qed

lemma div_digits:
  assumes "d \<le> k"
  shows "(x + 2 ^ k * y) div 2 ^ d = x div 2 ^ d + 2 ^ (k - d) * (y :: nat)"
proof -
  have "(2 :: nat) ^ k = 2 ^ d * 2 ^ (k - d)" using assms by (simp flip: power_add)
  then have e: "x + 2 ^ k * y = x + 2 ^ d * (2 ^ (k - d) * y)" by (simp only: mult.assoc)
  show ?thesis unfolding e by simp
qed

lemma mod_digits: "d \<le> k \<Longrightarrow> (x + 2 ^ k * y) mod 2 ^ d = x mod (2 ^ d :: nat)"
proof -
  assume "d \<le> k"
  then have "(2 :: nat) ^ k = 2 ^ d * 2 ^ (k - d)" by (simp flip: power_add)
  then show ?thesis by (simp add: mult.assoc)
qed

lemma scaled_div_mod:
  fixes a b w :: nat
  assumes "a * b = w"
  shows "a * (r mod b) + w * (r div b) = a * r"
proof -
  have "a * (r mod b) + w * (r div b) = a * (r mod b + b * (r div b))"
    unfolding assms[symmetric] by (simp only: distrib_left mult.assoc)
  then show ?thesis by (simp only: mod_mult_div_eq)
qed

lemma shr_digits_correct:
  assumes "0 < d" "d < 32"
  shows "length (shr_digits d xs) = length xs \<and> nval (shr_digits d xs) = nval xs div 2 ^ d"
proof (induction xs rule: induct_list012)
  case (3 x y ys)
  let ?r = "nval (y # ys)"
  have m: "?r mod 2 ^ d = unat y mod 2 ^ d" using mod_digits[of d 32 "unat y" "nval ys"] assms by simp
  have s: "2 ^ (32 - d) * (?r mod 2 ^ d) + 2 ^ 32 * (?r div 2 ^ d) = 2 ^ (32 - d) * ?r"
    by (rule scaled_div_mod) (use assms in \<open>simp flip: power_add\<close>)
  have "unat x div 2 ^ d + 2 ^ (32 - d) * (unat y mod 2 ^ d) + 2 ^ 32 * (?r div 2 ^ d)
      = (unat x + 2 ^ 32 * ?r) div 2 ^ d"
    using assms by (simp only: div_digits[OF less_imp_le[OF assms(2)]] s[symmetric] m add.assoc)
  then show ?case using 3 shr_digit[OF assms, of x y] by (simp only: shr_digits.simps list.size nval.simps)
qed (simp_all add: unat_drop_bit_digit)


section \<open>Normalisation\<close>

lemma MASK_FIRST_eq: "MASK_FIRST = 2 ^ 31"
  by (simp add: MASK_FIRST_def mask_eq_exp_minus_1)

lemma top_bit_unat: "bit (x :: mpn_digit) 31 \<longleftrightarrow> 2 ^ 31 \<le> unat x"
proof -
  have "bit x 31 \<longleftrightarrow> bit (unat x) 31" by (simp add: bit_unsigned_iff)
  also have "\<dots> \<longleftrightarrow> odd (unat x div 2 ^ 31)" by (rule bit_iff_odd)
  also have "\<dots> \<longleftrightarrow> 2 ^ 31 \<le> unat x"
  proof (cases "2 ^ 31 \<le> unat x")
    case True
    then have "unat x div 2 ^ 31 = 1" using unat_digit[of x] by (intro div_nat_eqI) simp_all
    with True show ?thesis by simp
  qed simp
  finally show ?thesis .
qed

lemma norm_shift_correct:
  assumes "d \<le> 32" "2 ^ d * unat x < 2 ^ 32" "x \<noteq> 0"
  obtains e where "norm_shift x d = Some e" "e < 32" "2 ^ e * unat x < 2 ^ 32" "2 ^ 31 \<le> 2 ^ e * unat x"
  using assms
proof (induction "32 - d" arbitrary: d thesis rule: less_induct)
  case (less d)
  have top: "push_bit d x AND MASK_FIRST = 0 \<longleftrightarrow> 2 ^ d * unat x < 2 ^ 31"
  proof -
    have u: "unat (push_bit d x) = 2 ^ d * unat x" using less.prems(3) by (simp add: unat_push_bit_digit mult.commute)
    have "push_bit d x AND MASK_FIRST = 0 \<longleftrightarrow> \<not> bit (push_bit d x) 31"
      unfolding MASK_FIRST_eq by (rule and_exp_eq_0_iff_not_bit)
    also have "bit (push_bit d x) 31 \<longleftrightarrow> 2 ^ 31 \<le> 2 ^ d * unat x"
      using top_bit_unat[of "push_bit d x"] u by simp
    finally show ?thesis by linarith
  qed
  have pos: "0 < unat x" using less.prems(4) by (simp add: unat_gt_0)
  have d: "d < 32"
  proof (rule ccontr)
    assume "\<not> d < 32"
    then have "2 ^ 32 * unat x < 2 ^ 32" using less.prems(2,3) by simp
    then show False using pos by simp
  qed
  show ?case
  proof (cases "push_bit d x AND MASK_FIRST = 0")
    case True
    then have "2 ^ d * unat x < 2 ^ 31" using top by simp
    then have "2 ^ Suc d * unat x < 2 ^ 32" by (simp add: mult.commute)
    note suc = this
    show ?thesis
    proof (rule less.hyps[of "Suc d"])
      show "thesis" if "norm_shift x (Suc d) = Some e" "e < 32" "2 ^ e * unat x < 2 ^ 32" "2 ^ 31 \<le> 2 ^ e * unat x" for e
        using that True by (intro less.prems(1)[of e]) (simp_all add: norm_shift.simps[of x d])
    qed (use d less.prems(4) suc in simp_all)
  next
    case False
    then show ?thesis using d less.prems(3) top
      by (intro less.prems(1)[of d]) (simp_all add: norm_shift.simps[of x d] not_less mult.commute)
  qed
qed

text \<open>For a zero digit the loop does not end.\<close>

lemma norm_shift_zero: "norm_shift 0 d = None"
proof -
  have "x \<noteq> 0" if "norm_shift x d = Some e" for x d e
    by (rule norm_shift.raw_induct[where xa = "(x, d)" and P = "\<lambda>x d e. x \<noteq> 0", simplified prod.case, OF _ that])
      (auto split: if_splits)
  then show ?thesis by (cases "norm_shift 0 d") auto
qed

lemma zero_quot_short: "length quot < unat bound \<Longrightarrow> unat i \<le> length quot \<Longrightarrow> zero_quot i bound quot = None"
proof (induction i bound quot rule: zero_quot.induct)
  case (1 i bound quot)
  have lt: "i < bound" using 1(2,3) by (simp add: word_less_nat_alt)
  show ?case
  proof (cases "unat i < length quot")
    case True
    then show ?thesis using 1 lt unat_Suc_below[OF lt] by (simp add: zero_quot.simps[of i])
  qed (simp add: zero_quot.simps lt)
qed


lemma nval_last:
  assumes "xs \<noteq> []"
  shows "nval xs = nval (butlast xs) + 2 ^ (32 * (length xs - 1)) * unat (last xs)"
proof -
  have "xs = butlast xs @ [last xs]" using assms by simp
  then have "nval xs = nval (butlast xs @ [last xs])" by (rule arg_cong)
  then show ?thesis by simp
qed

text \<open>What the division loops need of the normalised operands.\<close>

definition normalised :: "nat \<Rightarrow> mpn_digit list \<Rightarrow> mpn_digit list \<Rightarrow> mpn_digit list \<Rightarrow> mpn_digit list \<Rightarrow> bool" where
  "normalised d numer denom n_numer n_denom \<longleftrightarrow>
     d < 32 \<and> length n_numer = length numer + 1 \<and> length n_denom = length denom
     \<and> nval n_numer = 2 ^ d * nval numer \<and> nval n_denom = 2 ^ d * nval denom
     \<and> unat (last n_numer) < 2 ^ d \<and> 2 ^ 31 \<le> unat (last n_denom)"

lemma shl_digits_Nil [simp]: "shl_digits d p xs = [] \<longleftrightarrow> xs = []"
  by (cases xs) simp_all

lemma shl_digits_top:
  assumes "0 < d" "d < 32" "xs \<noteq> []" "2 ^ d * unat (last xs) < 2 ^ 32"
  shows "nval (shl_digits d 0 xs) = 2 ^ d * nval xs" and "2 ^ d * unat (last xs) \<le> unat (last (shl_digits d 0 xs))"
proof -
  have "unat (last xs) < 2 ^ (32 - d)"
  proof -
    have "2 ^ d * unat (last xs) < 2 ^ d * 2 ^ (32 - d)" using assms(2,4) by (simp flip: power_add)
    then show ?thesis by simp
  qed
  then have "unat (last (0 # xs)) div 2 ^ (32 - d) = 0" using assms(3) by simp
  then show "nval (shl_digits d 0 xs) = 2 ^ d * nval xs"
    using shl_digits_correct[OF assms(1,2), of 0 xs] by simp
  obtain ys x where xs: "xs = ys @ [x]" using assms(3) by (metis append_butlast_last_id)
  have snoc: "last (shl_digits d p (ys @ [x])) = push_bit d x OR first_bits d (last (p # ys))" for p
    by (induction ys arbitrary: p) auto
  show "2 ^ d * unat (last xs) \<le> unat (last (shl_digits d 0 xs))"
    using assms(4) shl_digit[OF assms(2), of x] by (simp add: xs snoc mult.commute del: last.simps)
qed

lemma div_normalize_correct:
  assumes "denom \<noteq> []" "last denom \<noteq> 0" "numer \<noteq> []" "div_normalize numer denom u v = Some (d, n_numer, n_denom)"
  shows "normalised d numer denom n_numer n_denom"
proof -
  obtain s where ns: "norm_shift (last denom) 0 = Some s" and s: "s < 32" "2 ^ s * unat (last denom) < 2 ^ 32" "2 ^ 31 \<le> 2 ^ s * unat (last denom)"
    using norm_shift_correct[of 0 "last denom"] assms(2) unat_digit[of "last denom"] by auto
  show ?thesis
  proof (cases "s = 0")
    case True
    then show ?thesis using assms s by (auto simp: normalised_def div_normalize_def ns)
  next
    case False
    have *: "d = s" "n_numer = shl_digits s 0 numer @ [first_bits s (last numer)]" "n_denom = shl_digits s 0 denom"
      using assms False by (auto simp: div_normalize_def ns)
    have "nval n_numer = 2 ^ s * nval numer"
      using shl_digits_correct[of s 0 numer] False s(1) assms(3) by (simp add: * unat_first_bits)
    moreover have "unat (first_bits s (last numer)) < 2 ^ s"
      using unat_digit[of "last numer"] s(1) by (simp add: unat_first_bits less_mult_imp_div_less flip: power_add)
    ultimately show ?thesis
      using shl_digits_top[of s denom] s False assms(1) by (auto simp: normalised_def *)
  qed
qed


lemma div_normalize_returns:
  assumes "denom \<noteq> []" "last denom \<noteq> 0"
  obtains d n_numer n_denom where "div_normalize numer denom u v = Some (d, n_numer, n_denom)"
proof -
  obtain s where "norm_shift (last denom) 0 = Some s"
    using norm_shift_correct[of 0 "last denom"] assms(2) unat_digit[of "last denom"] by auto
  then have "div_normalize numer denom u v \<noteq> None" using assms(1) by (simp add: div_normalize_def)
  then show ?thesis using that by (cases "div_normalize numer denom u v") auto
qed

lemma div_unnormalize_correct:
  assumes "d < 32" "length denom \<le> length numer"
  shows "length (div_unnormalize numer denom d) = length denom
    \<and> nval (div_unnormalize numer denom d) = nval (take (length denom) numer) div 2 ^ d"
  using shr_digits_correct[of d "take (length denom) numer"] assms
  by (simp add: div_unnormalize_def)

section \<open>Division by one digit\<close>

lemma unat_double_digit: "unat (double_digit hi lo) = 2 ^ 32 * unat hi + unat lo"
proof -
  have "double_digit hi lo = push_bit 32 (ucast hi) + ucast lo"
    unfolding double_digit_def
    by (rule or_disjoint) (auto simp: bit_simps dest: bit_digit_bound)
  moreover have "unat (push_bit 32 (ucast hi :: mpn_double_digit)) = 2 ^ 32 * unat hi"
    unfolding unsigned_push_bit_eq using unat_digit[of hi]
    by (simp add: push_bit_eq_mult take_bit_nat_eq_self)
  ultimately show ?thesis
    using unat_digit[of hi] unat_digit[of lo] by (simp add: unat_word_ariths)
qed

lemma nval_take_Suc: "j < length xs \<Longrightarrow> nval (take (Suc j) xs) = nval (take j xs) + 2 ^ (32 * j) * unat (xs ! j)"
  by (simp add: take_Suc_conv_app_nth)

lemma nval_drop: "j < length xs \<Longrightarrow> nval (drop j xs) = unat (xs ! j) + 2 ^ 32 * nval (drop (Suc j) xs)"
  by (simp add: Cons_nth_drop_Suc[symmetric])

text \<open>The digit at \<open>j\<close> is the remainder of what is above; the quotient so far is in the top of \<open>quot\<close>.\<close>

lemma div_1_loop_correct:
  assumes "0 < unat denom"
  shows "j < length numer \<Longrightarrow> j \<le> length quot \<Longrightarrow> unat (numer ! j) < unat denom \<Longrightarrow>
    div_1_loop j numer denom quot = (numer', quot') \<Longrightarrow>
      length numer' = length numer \<and> length quot' = length quot \<and> unat (numer' ! 0) < unat denom
      \<and> unat (numer' ! 0) + unat denom * nval quot'
          = nval (take (Suc j) numer) + 2 ^ (32 * j) * unat denom * nval (drop j quot)"
proof (induction j arbitrary: numer quot)
  case 0
  then show ?case using nval_take_Suc[of 0 numer] by simp
next
  case (Suc j)
  let ?N = "2 ^ 32 * unat (numer ! Suc j) + unat (numer ! j)"
  let ?temp = "double_digit (numer ! Suc j) (numer ! j)"
  let ?q = "?temp div ucast denom"
  let ?ms = "?temp - ?q * ucast denom"
  have q: "unat ?q = ?N div unat denom"
    by (simp add: unat_div unat_double_digit)
  have "?N < 2 ^ 32 * unat denom"
    using top_digit_less[OF unat_digit[of "numer ! j"] Suc.prems(3), of 0] by simp
  then have ql: "?N div unat denom < 2 ^ 32" using assms by (simp add: less_mult_imp_div_less)
  have ms_eq: "?ms = ?temp mod ucast denom" by (simp add: minus_div_mult_eq_mod)
  have ms: "unat ?ms = ?N mod unat denom" unfolding ms_eq by (simp add: unat_mod unat_double_digit)
  have nb: "\<not> ?ms > ?temp"
    using ms by (simp add: word_less_nat_alt unat_double_digit not_less mod_less_eq_dividend)
  have msl: "?N mod unat denom < 2 ^ 32"
    using assms unat_digit[of denom] by (meson less_trans mod_less_divisor)
  define r where "r = (ucast ?ms :: mpn_digit)"
  have r: "unat r = ?N mod unat denom"
    unfolding r_def unat_ucast_digit ms by (rule mod_less[OF msl])
  define qd where "qd = (ucast ?q :: mpn_digit)"
  have qd: "unat qd = ?N div unat denom"
    unfolding qd_def unat_ucast_digit q by (rule mod_less[OF ql])
  have rec: "div_1_loop j (numer[j := r, Suc j := ucast (drop_bit 32 ?ms)]) denom (quot[j := qd]) = (numer', quot')"
    using Suc.prems(4) nb by (simp add: Let_def r_def qd_def)
  let ?n1 = "numer[j := r, Suc j := ucast (drop_bit 32 ?ms)]" and ?q1 = "quot[j := qd]"
  have j: "j < length ?n1" "j \<le> length ?q1" "unat (?n1 ! j) < unat denom"
    using Suc.prems(1,2) r assms by simp_all
  have nv: "nval (take (Suc j) ?n1) = nval (take j numer) + 2 ^ (32 * j) * (?N mod unat denom)"
    using Suc.prems(1) r by (simp add: nval_take_Suc)
  have dv: "nval (drop j ?q1) = ?N div unat denom + 2 ^ 32 * nval (drop (Suc j) quot)"
    using Suc.prems(2) qd by (simp add: nval_drop)
  have tk: "nval (take (Suc (Suc j)) numer) = nval (take j numer) + 2 ^ (32 * j) * ?N"
    using Suc.prems(1) by (simp add: nval_take_Suc power_add algebra_simps)
  have "nval (take (Suc j) ?n1) + 2 ^ (32 * j) * unat denom * nval (drop j ?q1)
      = nval (take j numer) + 2 ^ (32 * j) * (?N mod unat denom + unat denom * (?N div unat denom))
        + 2 ^ (32 * j) * 2 ^ 32 * unat denom * nval (drop (Suc j) quot)"
    unfolding nv dv by (simp only: distrib_left mult.assoc mult.left_commute add.assoc)
  also have "\<dots> = nval (take (Suc (Suc j)) numer) + 2 ^ (32 * Suc j) * unat denom * nval (drop (Suc j) quot)"
    unfolding tk mod_mult_div_eq by (simp add: power_add algebra_simps)
  finally show ?case using Suc.IH[OF j rec] by simp
qed

lemma div_mod_unique: "r < d \<Longrightarrow> r + d * q = n \<Longrightarrow> q = n div d \<and> r = n mod (d :: nat)"
  by auto

lemma div_1_correct:
  assumes "numer \<noteq> []" "unat (last numer) < unat denom" "length quot = length numer - 1"
    and "div_1 numer denom quot = (numer', quot')"
  shows "length numer' = length numer \<and> length quot' = length quot
    \<and> nval quot' = nval numer div unat denom \<and> unat (numer' ! 0) = nval numer mod unat denom"
proof -
  have pos: "0 < unat denom" using assms(2) by linarith
  have "unat (numer' ! 0) < unat denom \<and> unat (numer' ! 0) + unat denom * nval quot' = nval numer
      \<and> length numer' = length numer \<and> length quot' = length quot"
    using div_1_loop_correct[OF pos, of "length numer - 1" numer quot numer' quot'] assms
    by (simp add: div_1_def last_conv_nth)
  then show ?thesis using div_mod_unique[of "unat (numer' ! 0)" "unat denom" "nval quot'" "nval numer"] by simp
qed


section \<open>Knuth's estimate\<close>

text \<open>
  The numerator's window is \<open>U = u2 * B * P + u3 * P + ul\<close> (its two top digits are \<open>u2\<close>), the
  denominator \<open>V = v1 * B * P + v2 * P + vl\<close>. An estimate \<open>q\<close> with \<open>r = u2 - q * v1\<close> is too
  large when the test of the loop succeeds; when it fails, or when \<open>r\<close> has reached \<open>B\<close>, it is at
  most one too large.
\<close>

definition window :: "nat \<Rightarrow> nat \<Rightarrow> nat \<Rightarrow> nat \<Rightarrow> nat \<Rightarrow> nat" where
  "window B P x2 x1 xl = x2 * B * P + x1 * P + xl"

lemma estimate_initial:
  assumes "ul < P" "u3 < B" "0 < v1"
  shows "window B P u2 u3 ul div window B P v1 v2 vl \<le> u2 div v1"
proof -
  let ?V = "window B P v1 v2 vl" and ?U = "window B P u2 u3 ul"
  let ?q = "?U div ?V"
  have "u3 * P + ul < (u3 + 1) * P" using assms(1) by simp
  also have "\<dots> \<le> B * P" using assms(2) by (intro mult_right_mono) auto
  finally have U: "?U < (u2 + 1) * (B * P)" by (simp add: window_def algebra_simps)
  have "?q * v1 * (B * P) \<le> ?q * ?V" by (simp add: window_def algebra_simps)
  also have "\<dots> \<le> ?U" by simp
  also note U
  finally have "?q * v1 < u2 + 1" by (simp only: mult_less_cancel2)
  then show ?thesis using assms(3) by (simp add: less_eq_div_iff_mult_less_eq)
qed

lemma estimate_too_large:
  assumes "ul < P" "q * v1 + r = u2" "r * B + u3 < q * v2"
  shows "window B P u2 u3 ul div window B P v1 v2 vl < q"
proof -
  let ?V = "window B P v1 v2 vl" and ?U = "window B P u2 u3 ul"
  have "(r * B + u3) * P + ul < (r * B + u3 + 1) * P" using assms(1) by simp
  also have "\<dots> \<le> q * v2 * P" using assms(3) by (intro mult_right_mono) auto
  finally have "?U < q * v1 * B * P + q * v2 * P"
    unfolding window_def assms(2)[symmetric] by (simp add: algebra_simps)
  also have "\<dots> \<le> q * ?V" by (simp add: window_def algebra_simps)
  finally show ?thesis by (simp add: div_less_iff_less_mult mult.commute less_mult_imp_div_less)
qed

lemma estimate_close:
  assumes "vl < P" "q < B" "0 < v1" "q * v1 + r = u2" "q * v2 \<le> r * B + u3"
  shows "q * window B P v1 v2 vl < window B P u2 u3 ul + window B P v1 v2 vl"
proof -
  have "q * vl < B * P"
  proof (cases "q = 0")
    case False
    then have "q * vl < q * P" using assms(1) by simp
    also have "\<dots> \<le> B * P" using assms(2) by (intro mult_right_mono) auto
    finally show ?thesis .
  qed (use assms in auto)
  also have "\<dots> \<le> v1 * (B * P)" using assms(3) by simp
  finally have vl: "q * vl < v1 * B * P" by (simp add: mult.assoc)
  have "q * v2 * P \<le> (r * B + u3) * P" using assms(5) by (intro mult_right_mono) auto
  then show ?thesis using vl
    unfolding window_def assms(4)[symmetric] by (simp add: algebra_simps)
qed

lemma estimate_big:
  assumes "v2 < B" "vl < P" "u3 < B" "ul < P" "0 < v1" "q * v1 + r = u2" "B \<le> r"
    and "window B P u2 u3 ul < B * window B P v1 v2 vl"
  shows "q < B" and "q * window B P v1 v2 vl \<le> window B P u2 u3 ul"
proof -
  have "v2 * P + vl < (v2 + 1) * P" using assms(2) by simp
  also have "\<dots> \<le> B * P" using assms(1) by (intro mult_right_mono) auto
  finally have low: "v2 * P + vl < B * P" .
  then have V: "window B P v1 v2 vl < (v1 + 1) * (B * P)" by (simp add: window_def algebra_simps)
  have "0 < B" using assms(1) by simp
  with V have V': "B * window B P v1 v2 vl < B * ((v1 + 1) * (B * P))" by simp
  have "u2 * (B * P) \<le> window B P u2 u3 ul" by (simp add: window_def algebra_simps)
  also note assms(8)
  also note V'
  finally have "u2 * (B * P) < B * (v1 + 1) * (B * P)" by (simp only: mult.assoc)
  then have "u2 < B * (v1 + 1)" by (simp only: mult_less_cancel2)
  then have "u2 < B * v1 + B" by simp
  then have "q * v1 < B * v1" using assms(6,7) by linarith
  then show q: "q < B" by (simp only: mult_less_cancel2)
  have "q * (v2 * P + vl) \<le> B * (B * P)" using q low by (intro mult_le_mono) auto
  also have "\<dots> \<le> r * (B * P)" using assms(7) by simp
  finally show "q * window B P v1 v2 vl \<le> window B P u2 u3 ul"
    unfolding window_def assms(6)[symmetric] by (simp add: algebra_simps)
qed


section \<open>The estimate in 64 bits\<close>

lemma unat_BASE: "unat BASE = 2 ^ 32"
  by (simp add: BASE_def)

lemma not_BASE: "\<not> q \<ge> BASE \<longleftrightarrow> unat q < 2 ^ 32"
  using unat_BASE by (simp add: word_le_nat_alt not_le)

lemma unat_double_mult:
  assumes "unat q < 2 ^ 32"
  shows "unat (q * ucast (d :: mpn_digit) :: mpn_double_digit) = unat q * unat d"
proof -
  have "unat q * unat d \<le> (2 ^ 32 - 1) * (2 ^ 32 - 1)"
    using assms unat_digit[of d] by (intro mult_le_mono) auto
  then show ?thesis by (simp add: unat_word_ariths)
qed

lemma unat_double_shift:
  assumes "unat r < 2 ^ 32"
  shows "unat (push_bit 32 r + ucast (u :: mpn_digit) :: mpn_double_digit) = unat r * 2 ^ 32 + unat u"
proof -
  have "unat (push_bit 32 r) = unat r * 2 ^ 32"
    unfolding unsigned_push_bit_eq using assms by (simp add: push_bit_eq_mult take_bit_nat_eq_self)
  then show ?thesis using assms unat_digit[of u] by (simp add: unat_word_ariths)
qed

lemma recheck_test:
  fixes d2 u :: mpn_digit
  assumes "unat r < 2 ^ 32"
  shows "(q \<ge> BASE \<or> q * ucast d2 > push_bit 32 r + ucast u)
    \<longleftrightarrow> 2 ^ 32 \<le> unat q \<or> unat r * 2 ^ 32 + unat u < unat q * unat d2"
  using not_BASE[of q] unat_double_mult[of q d2] unat_double_shift[OF assms, of u]
  by (cases "unat q < 2 ^ 32") (auto simp: word_less_nat_alt not_less)

text \<open>The window of numerator and denominator the estimate is about.\<close>

lemma recheck_correct:
  fixes d1 d2 u :: mpn_digit
  defines "V P vl \<equiv> window (2 ^ 32) P (unat d1) (unat d2) vl"
  assumes "0 < unat d1" "vl < P" "ul < P"
    and U: "window (2 ^ 32) P u2 (unat u) ul < 2 ^ 32 * V P vl"
  shows "unat q * unat d1 + unat r = u2 \<Longrightarrow> unat r < 2 ^ 32 \<Longrightarrow>
      window (2 ^ 32) P u2 (unat u) ul div V P vl \<le> unat q \<Longrightarrow>
    unat (recheck d1 d2 u q r) < 2 ^ 32
      \<and> window (2 ^ 32) P u2 (unat u) ul div V P vl \<le> unat (recheck d1 d2 u q r)
      \<and> unat (recheck d1 d2 u q r) * V P vl < window (2 ^ 32) P u2 (unat u) ul + V P vl"
proof (induction "unat q" arbitrary: q r rule: less_induct)
  case less
  let ?U = "window (2 ^ 32) P u2 (unat u) ul"
  let ?test = "2 ^ 32 \<le> unat q \<or> unat r * 2 ^ 32 + unat u < unat q * unat d2"
  note test = recheck_test[OF less.prems(2), where q = q and u = u and ?d2.0 = d2]
  show ?case
  proof (cases ?test)
    case False
    then have "recheck d1 d2 u q r = q" using test by (simp add: recheck.simps[of d1 d2 u q r])
    moreover have "unat q * V P vl < ?U + V P vl" unfolding V_def
      using False assms(2,3) less.prems(1) by (intro estimate_close) auto
    ultimately show ?thesis using False less.prems(3) by simp
  next
    case True
    have Vpos: "0 < V P vl" using U by (cases "V P vl") auto
    have "?U div V P vl < 2 ^ 32" using U by (simp add: less_mult_imp_div_less)
    then have lt: "?U div V P vl < unat q"
      using True estimate_too_large[of ul P "unat q" "unat d1" "unat r" u2 "2 ^ 32" "unat u" "unat d2" vl]
        assms(4) less.prems(1) unfolding V_def by linarith
    then have "q \<noteq> 0" by auto
    then have q1: "unat (q - 1) = unat q - 1" by (simp add: unat_minus_one)
    have r1: "unat (r + ucast d1) = unat r + unat d1"
      using less.prems(2) unat_digit[of d1] by (simp add: unat_word_ariths)
    have inv: "unat (q - 1) * unat d1 + unat (r + ucast d1) = u2"
      using less.prems(1) lt unfolding q1 r1 by (cases "unat q") auto
    have ge: "?U div V P vl \<le> unat (q - 1)" using lt q1 by simp
    show ?thesis
    proof (cases "unat (r + ucast d1) < 2 ^ 32")
      case True
      then have "recheck d1 d2 u q r = recheck d1 d2 u (q - 1) (r + ucast d1)"
        using \<open>?test\<close> test not_BASE[of "r + ucast d1"] by (simp add: recheck.simps[of d1 d2 u q r] Let_def not_le)
      then show ?thesis using less.hyps[OF _ inv True ge] q1 lt by simp
    next
      case False
      then have "recheck d1 d2 u q r = q - 1"
        using \<open>?test\<close> test not_BASE[of "r + ucast d1"] by (simp add: recheck.simps[of d1 d2 u q r] Let_def not_le)
      moreover have "unat (q - 1) < 2 ^ 32 \<and> unat (q - 1) * V P vl \<le> ?U"
        using estimate_big[OF unat_digit assms(3) unat_digit assms(4,2) inv _ U[unfolded V_def]] False
        unfolding V_def by simp
      ultimately show ?thesis using ge Vpos by simp
    qed
  qed
qed


section \<open>One iteration\<close>

lemma nval_take_all: "length xs = n \<Longrightarrow> nval (take n xs) = nval xs"
  by simp

lemma nval_top2:
  assumes "length xs = Suc (Suc k)"
  shows "nval xs = window (2 ^ 32) (2 ^ (32 * k)) (unat (xs ! Suc k)) (unat (xs ! k)) (nval (take k xs))"
proof -
  have "nval (take (Suc (Suc k)) xs)
      = nval (take k xs) + 2 ^ (32 * k) * unat (xs ! k) + 2 ^ (32 * Suc k) * unat (xs ! Suc k)"
    using assms by (simp only: nval_take_Suc)
  then show ?thesis using assms by (simp add: window_def power_add algebra_simps)
qed

lemma nval_top3:
  assumes "length xs = Suc (Suc (Suc k))"
  shows "nval xs = window (2 ^ 32) (2 ^ (32 * k))
    (2 ^ 32 * unat (xs ! Suc (Suc k)) + unat (xs ! Suc k)) (unat (xs ! k)) (nval (take k xs))"
proof -
  have "nval (take (Suc (Suc (Suc k))) xs)
      = nval (take k xs) + 2 ^ (32 * k) * unat (xs ! k) + 2 ^ (32 * Suc k) * unat (xs ! Suc k)
        + 2 ^ (32 * Suc (Suc k)) * unat (xs ! Suc (Suc k))"
    using assms by (simp only: nval_take_Suc)
  then show ?thesis using assms by (simp add: window_def power_add algebra_simps)
qed

lemma nval_take_less: "nval (take k xs) < 2 ^ (32 * k)"
proof -
  have "nval (take k xs) < 2 ^ (32 * length (take k xs))" by (rule nval_less)
  also have "\<dots> \<le> 2 ^ (32 * k)" by (intro power_increasing) auto
  finally show ?thesis .
qed

lemma nval_take_mod: "nval (take n xs) = nval xs mod 2 ^ (32 * n)"
proof (cases "n \<le> length xs")
  case True
  have "nval (take n xs @ drop n xs) = nval (take n xs) + 2 ^ (32 * n) * nval (drop n xs)"
    using True by (simp only: nval_append) simp
  then have "nval xs mod 2 ^ (32 * n) = nval (take n xs) mod 2 ^ (32 * n)" by simp
  then show ?thesis using nval_take_less[of n xs] by simp
next
  case False
  then have "nval xs < 2 ^ (32 * n)" using nval_take_less[of n xs] by simp
  with False show ?thesis by simp
qed

lemma estimate_correct:
  assumes "length denom = Suc (Suc k)" "0 < unat (denom ! Suc k)" "length w = Suc (Suc (Suc k))"
    and U: "nval w < 2 ^ 32 * nval denom"
  shows "unat (estimate denom w) < 2 ^ 32 \<and> nval w div nval denom \<le> unat (estimate denom w)
    \<and> unat (estimate denom w) * nval denom < nval w + nval denom"
proof -
  let ?temp = "double_digit (w ! Suc (Suc k)) (w ! Suc k)" and ?d = "denom ! Suc k"
  have vl: "nval (take k denom) < 2 ^ (32 * k)" and ul: "nval (take k w) < 2 ^ (32 * k)"
    by (rule nval_take_less)+
  have q: "unat (?temp div ucast ?d) = unat ?temp div unat ?d"
    and r: "unat (?temp mod ucast ?d) = unat ?temp mod unat ?d"
    by (simp_all add: unat_div unat_mod)
  have "unat ?temp mod unat ?d < 2 ^ 32"
    using assms(2) unat_digit[of ?d] by (meson less_trans mod_less_divisor)
  note core = recheck_correct[OF assms(2) vl ul, where ?u2.0 = "unat ?temp" and u = "w ! k" and ?d2.0 = "denom ! k"
      and q = "?temp div ucast ?d" and r = "?temp mod ucast ?d", unfolded q r]
  have w: "nval w = window (2 ^ 32) (2 ^ (32 * k)) (unat ?temp) (unat (w ! k)) (nval (take k w))"
    by (simp only: nval_top3[OF assms(3)] unat_double_digit)
  note d = nval_top2[OF assms(1)]
  have "estimate denom w = recheck ?d (denom ! k) (w ! k) (?temp div ucast ?d) (?temp mod ucast ?d)"
    by (simp add: estimate_def Let_def assms(1))
  then show ?thesis
    using core[folded w d] U \<open>unat ?temp mod unat ?d < 2 ^ 32\<close>
      estimate_initial[OF ul unat_digit assms(2), of "unat ?temp" "w ! k" "unat (denom ! k)" "nval (take k denom)",
        folded w d]
    by simp
qed

lemma div_step_correct:
  assumes len: "length denom = Suc (Suc k)" "length w = Suc (Suc (Suc k))" "length ms = Suc (Suc (Suc k))"
    and top: "0 < unat (denom ! Suc k)" and U: "nval w < 2 ^ 32 * nval denom"
    and step: "div_step denom w ms = (q, w', ms')"
  shows "unat q = nval w div nval denom \<and> nval w' = nval w mod nval denom
    \<and> length w' = length w \<and> length ms' = length ms"
proof -
  let ?U = "nval w" and ?V = "nval denom" and ?B = "2 ^ (32 * Suc (Suc (Suc k))) :: nat"
  define e where "e = estimate denom w"
  note est = estimate_correct[OF len(1) top len(2) U, folded e_def]
  define qs where "qs = (ucast e :: mpn_digit)"
  have qs: "unat qs = unat e" unfolding qs_def unat_ucast_digit using est by (intro mod_less) simp
  obtain c k' where sub: "mpn_sub w (mpn_mul [qs] denom ms) = (c, k')" by fastforce
  have mul: "length (mpn_mul [qs] denom ms) = length w" "nval (mpn_mul [qs] denom ms) = unat e * ?V"
    using mpn_mul_correct[of ms "[qs]" denom] len qs by auto
  have c: "length c = length w" "unat k' \<le> 1" "nval c + unat e * ?V = ?U + ?B * unat k'"
    using mpn_sub_correct[OF sub] mul len(2) by simp_all
  have res: "(q, w', ms') = (if k' \<noteq> 0 then (qs - 1, take (length denom + 1) (fst (mpn_add denom c)), mpn_mul [qs] denom ms)
      else (qs, c, mpn_mul [qs] denom ms))"
    unfolding step[symmetric] div_step_def by (simp add: Let_def sub e_def[symmetric] qs_def[symmetric])
  have V: "0 < ?V" using U by (cases ?V) auto
  have UB: "?U < ?B" using nval_less[of w] len(2) by simp
  have "?V < 2 ^ (32 * Suc (Suc k))" using nval_less[of denom] len(1) by simp
  also have "\<dots> \<le> ?B" by (intro power_increasing) auto
  finally have VB: "?V < ?B" .
  show ?thesis
  proof (cases "k' = 0")
    case True
    then have "unat e * ?V \<le> ?U" "nval c = ?U - unat e * ?V" using c(3) by auto
    moreover from this(1) have "unat e \<le> ?U div ?V" using V by (simp add: less_eq_div_iff_mult_less_eq)
    ultimately have e: "unat e = ?U div ?V" using est by simp
    then have "nval c = ?U mod ?V" using \<open>nval c = ?U - unat e * ?V\<close> by (simp only: minus_div_mult_eq_mod)
    moreover note e
    ultimately show ?thesis using True res qs c(1) mul len by simp
  next
    case False
    then have k1: "unat k' = 1" using c(2) unat_gt_0[of k'] by linarith
    have "nval c < ?B" using nval_less[of c] c(1) len(2) by simp
    then have gt: "?U < unat e * ?V" using c(3) k1 by simp
    have "?U div ?V < unat e" using gt V by (simp add: div_less_iff_less_mult mult.commute)
    moreover have "unat e * ?V < (?U div ?V + 2) * ?V"
    proof -
      have "?U < (?U div ?V + 1) * ?V" using V by (simp add: dividend_less_div_times)
      then show ?thesis using est by simp
    qed
    then have "unat e < ?U div ?V + 2" by (simp only: mult_less_cancel2)
    ultimately have e: "unat e = ?U div ?V + 1" by linarith
    obtain ab os where add: "mpn_add denom c = (ab, os)" by fastforce
    have "nval ab = ?V + nval c" using mpn_add_correct[OF add] by simp
    also have "\<dots> = ?U mod ?V + ?B"
    proof -
      have "unat e * ?V = ?V * (?U div ?V) + ?V" unfolding e by (simp add: algebra_simps)
      then show ?thesis using c(3) mult_div_mod_eq[of ?V ?U] unfolding k1 mult_1_right by linarith
    qed
    finally have "nval ab mod ?B = ?U mod ?V"
      using V VB by (simp add: mod_less less_trans[OF mod_less_divisor])
    then have "nval (take (length denom + 1) ab) = ?U mod ?V"
      using len(1) nval_take_mod[of "length denom + 1" ab] by simp
    moreover have "unat (qs - 1) = ?U div ?V"
    proof -
      have "qs \<noteq> 0" using qs e by auto
      then show ?thesis using qs e by (simp add: unat_minus_one)
    qed
    ultimately show ?thesis
      using False res mpn_add_correct[OF add] add len c(1) mul by simp
  qed
qed


section \<open>The digit loop\<close>

text \<open>
  Before the iteration for \<open>j - 1\<close> the digits of \<open>numer\<close> below \<open>j + n\<close> are what is left to divide,
  the window from \<open>j\<close> is below the denominator, and \<open>quot\<close> holds the quotient from \<open>j\<close> on.
\<close>

lemma div_n_loop_correct:
  assumes len: "length denom = Suc (Suc k)" and top: "0 < unat (denom ! Suc k)"
  shows "j + length denom \<le> length numer \<Longrightarrow> j \<le> length quot \<Longrightarrow> length ms = length denom + 1 \<Longrightarrow>
    nval (take (length denom) (drop j numer)) < nval denom \<Longrightarrow>
    div_n_loop j numer denom quot ms = (numer', quot') \<Longrightarrow>
      length numer' = length numer \<and> length quot' = length quot
      \<and> nval (take (length denom) numer') < nval denom
      \<and> nval (take (length denom) numer') + nval denom * nval quot'
          = nval (take (j + length denom) numer) + 2 ^ (32 * j) * nval denom * nval (drop j quot)"
proof (induction j arbitrary: numer quot ms)
  case (Suc j)
  let ?n = "length denom" and ?V = "nval denom"
  define w where "w = take (?n + 1) (drop j numer)"
  obtain q w' ms' where st: "div_step denom w ms = (q, w', ms')" by (metis prod_cases3)
  have j: "j < length numer" using Suc.prems(1) by simp
  have lw: "length w = Suc (Suc (Suc k))" using Suc.prems(1) len by (simp add: w_def)
  have "w = numer ! j # take ?n (drop (Suc j) numer)"
    using j by (simp add: w_def Cons_nth_drop_Suc[symmetric])
  then have "nval w = unat (numer ! j) + 2 ^ 32 * nval (take ?n (drop (Suc j) numer))" by simp
  then have U: "nval w < 2 ^ 32 * ?V"
    using top_digit_less[OF unat_digit[of "numer ! j"] Suc.prems(4), of 0] by simp
  have lms: "length ms = Suc (Suc (Suc k))" using Suc.prems(3) len by simp
  note step = div_step_correct[OF len lw lms top U st]
  define n1 where "n1 = take j numer @ w' @ drop (j + ?n + 1) numer"
  have V: "0 < ?V" using U by (cases ?V) auto
  have l1: "length n1 = length numer" using Suc.prems(1) step lw len by (simp add: n1_def)
  have ljw: "length (take j numer) = j" using j by simp
  have win: "take ?n (drop j n1) = take ?n w'" using ljw step lw len by (simp add: n1_def)
  have w'V: "nval w' < ?V" using step V by simp
  have w'n: "nval (take ?n w') = nval w'"
  proof -
    have "nval w' < 2 ^ (32 * ?n)" using w'V nval_less[of denom] by linarith
    then show ?thesis by (simp add: nval_take_mod)
  qed
  have rec: "div_n_loop j n1 denom (quot[j := q]) ms' = (numer', quot')"
    using Suc.prems(5) unfolding div_n_loop.simps Let_def w_def[symmetric] st n1_def by simp
  have IH: "length numer' = length n1 \<and> length quot' = length (quot[j := q])
      \<and> nval (take ?n numer') < ?V
      \<and> nval (take ?n numer') + ?V * nval quot'
          = nval (take (j + ?n) n1) + 2 ^ (32 * j) * ?V * nval (drop j (quot[j := q]))"
  proof (rule Suc.IH[OF _ _ _ _ rec])
    show "j + ?n \<le> length n1" "j \<le> length (quot[j := q])" using Suc.prems(1,2) l1 by simp_all
    show "length ms' = ?n + 1" using step lms len by simp
    show "nval (take ?n (drop j n1)) < ?V" using win w'n w'V by simp
  qed
  have a: "nval (take (j + ?n) n1) = nval (take j numer) + 2 ^ (32 * j) * nval w'"
  proof -
    have "take (j + ?n) n1 = take j numer @ take ?n w'" using ljw step lw len by (simp add: n1_def)
    then show ?thesis using ljw w'n by simp
  qed
  have b: "nval (drop j (quot[j := q])) = unat q + 2 ^ 32 * nval (drop (Suc j) quot)"
    using Suc.prems(2) by (simp add: nval_drop)
  have c: "nval (take (Suc j + ?n) numer) = nval (take j numer) + 2 ^ (32 * j) * nval w"
  proof -
    have "take (j + (?n + 1)) numer = take j numer @ w" unfolding w_def by (rule take_add)
    then show ?thesis using ljw by simp
  qed
  have "nval w' + ?V * unat q = nval w" using step mod_mult_div_eq[of "nval w" ?V] by simp
  then have "nval (take (j + ?n) n1) + 2 ^ (32 * j) * ?V * nval (drop j (quot[j := q]))
      = nval (take (Suc j + ?n) numer) + 2 ^ (32 * Suc j) * ?V * nval (drop (Suc j) quot)"
    unfolding a b c by (simp add: power_add algebra_simps flip: \<open>nval w' + ?V * unat q = nval w\<close>)
  with IH l1 show ?case by simp
qed simp

lemma div_n_correct:
  assumes "length denom = Suc (Suc k)" "0 < unat (last denom)" "length denom \<le> length numer"
    and "nval (drop (length numer - length denom) numer) < nval denom"
    and "length quot = length numer - length denom" "div_n numer denom quot ms = (numer', quot')"
  shows "length numer' = length numer \<and> length quot' = length quot
    \<and> nval quot' = nval numer div nval denom \<and> nval (take (length denom) numer') = nval numer mod nval denom"
proof -
  let ?m = "length numer - length denom"
  have top: "0 < unat (denom ! Suc k)" using assms(1,2) by (cases denom rule: rev_cases) (auto simp: nth_append)
  have "length (resize (length denom + 1) ms) = length denom + 1" by (simp add: resize_def)
  then have "length numer' = length numer \<and> length quot' = length quot
      \<and> nval (take (length denom) numer') < nval denom
      \<and> nval (take (length denom) numer') + nval denom * nval quot' = nval numer"
    using div_n_loop_correct[OF assms(1) top, of ?m numer quot "resize (length denom + 1) ms" numer' quot'] assms
    by (simp add: div_n_def)
  then show ?thesis
    using div_mod_unique[of "nval (take (length denom) numer')" "nval denom" "nval quot'" "nval numer"] by simp
qed


section \<open>Division\<close>

lemma normalised_top:
  assumes "normalised d numer denom n_numer n_denom" "numer \<noteq> []" "denom \<noteq> []" "length denom \<le> length numer"
  shows "nval (drop (length n_numer - length n_denom) n_numer) < nval n_denom"
proof -
  let ?xs = "drop (length n_numer - length n_denom) n_numer"
  have nz: "n_denom \<noteq> []" using assms(1,3) by (auto simp: normalised_def)
  have ln: "length n_numer = length numer + 1" "length n_denom = length denom"
    using assms(1) by (simp_all add: normalised_def)
  have pos: "0 < length denom" using assms(3) by simp
  have len: "length ?xs = length n_denom" using ln assms(4) by simp
  have ne: "?xs \<noteq> []" using len nz by auto
  have "last ?xs = last n_numer" by (rule last_drop) (use ln pos in linarith)
  note l = len ne this
  have "unat (last n_numer) < 2 ^ 31"
  proof -
    have "(2 :: nat) ^ d \<le> 2 ^ 31" using assms(1) by (intro power_increasing) (auto simp: normalised_def)
    then show ?thesis using assms(1) unfolding normalised_def by linarith
  qed
  also have "\<dots> \<le> unat (last n_denom)" using assms(1) by (simp add: normalised_def)
  finally have "unat (last ?xs) < unat (last n_denom)" using l by simp
  then have "nval (butlast ?xs) + 2 ^ (32 * (length n_denom - 1)) * unat (last ?xs)
      < nval (butlast n_denom) + 2 ^ (32 * (length n_denom - 1)) * unat (last n_denom)"
    using nval_less[of "butlast ?xs"] l(1) by (intro top_digit_less) simp
  then show ?thesis using nval_last[OF nz] nval_last[OF l(2)] l(1) by simp
qed

lemma nval_single: "length xs = 1 \<Longrightarrow> nval xs = unat (xs ! 0)"
  by (cases xs) auto

lemma nval_last_less:
  assumes "length xs = length ys" "xs \<noteq> []" "last xs < last ys"
  shows "nval xs < nval ys"
proof -
  have "ys \<noteq> []" using assms(1,2) by auto
  have "nval (butlast xs) + 2 ^ (32 * (length ys - 1)) * unat (last xs)
      < nval (butlast ys) + 2 ^ (32 * (length ys - 1)) * unat (last ys)"
    using nval_less[of "butlast xs"] assms by (intro top_digit_less) (auto simp: word_less_nat_alt)
  then show ?thesis using nval_last[OF assms(2)] nval_last[OF \<open>ys \<noteq> []\<close>] assms(1) by simp
qed

lemma mpn_div_main:
  assumes ne: "denom \<noteq> []" "last denom \<noteq> 0" and len: "length denom \<le> length numer"
    and quot: "length quot = length numer - length denom + 1"
    and norm: "div_normalize numer denom u v = Some (d, u', v')"
    and core: "(numer', quot') = (if length denom = 1 then div_1 u' (v' ! 0) quot else div_n u' v' quot ms)"
  shows "length quot' = length quot \<and> nval quot' = nval numer div nval denom
    \<and> length (div_unnormalize numer' v' d) = length denom
    \<and> nval (div_unnormalize numer' v' d) = nval numer mod nval denom"
proof -
  have nn: "numer \<noteq> []" using ne len by auto
  note n = div_normalize_correct[OF ne nn norm]
  then have l: "length u' = length numer + 1" "length v' = length denom" "d < 32"
    "nval u' = 2 ^ d * nval numer" "nval v' = 2 ^ d * nval denom" "2 ^ 31 \<le> unat (last v')"
    by (auto simp: normalised_def)
  note tops = normalised_top[OF n nn ne(1) len]
  have main: "length numer' = length u' \<and> length quot' = length quot \<and> nval quot' = nval u' div nval v'
      \<and> nval (take (length v') numer') = nval u' mod nval v'"
  proof (cases "length denom = 1")
    case True
    then have v1: "nval v' = unat (v' ! 0)" using l by (simp add: nval_single)
    have "unat (last u') < unat (v' ! 0)"
    proof -
      have "drop (length u' - 1) u' = [last u']" using l(1) by (cases u' rule: rev_cases) auto
      then show ?thesis using tops True l v1 by simp
    qed
    moreover have "u' \<noteq> []" using l(1) by auto
    ultimately have d1: "length numer' = length u' \<and> length quot' = length quot
        \<and> nval quot' = nval u' div nval v' \<and> unat (numer' ! 0) = nval u' mod nval v'"
      using div_1_correct[of u' "v' ! 0" quot numer' quot'] core True quot l(1) v1 nn length_greater_0_conv[of numer] by simp
    have "nval (take 1 numer') = unat (numer' ! 0)"
      using d1 l(1) by (intro nval_single[THEN trans]) (auto simp: nth_take)
    with d1 True l show ?thesis by simp
  next
    case False
    moreover have "0 < length denom" using ne(1) by simp
    ultimately have "2 \<le> length v'" using l(2) by linarith
    then obtain k where k: "length v' = Suc (Suc k)" using le_Suc_ex[of 2 "length v'"] by auto
    have "0 < unat (last v')" using l(6) by (meson less_le_trans zero_less_numeral zero_less_power)
    then show ?thesis
      using div_n_correct[OF k _ _ tops, of quot ms numer' quot'] core False quot l len by simp
  qed
  have q: "nval u' div nval v' = nval numer div nval denom" unfolding l(4,5) by simp
  have r: "nval u' mod nval v' = 2 ^ d * (nval numer mod nval denom)"
    unfolding l(4,5) by (rule mult_mod_right[symmetric])
  have "length v' \<le> length numer'" using main l len by simp
  note un = div_unnormalize_correct[OF l(3) this]
  show ?thesis using un main q r l by simp
qed

theorem mpn_div_correct:
  assumes "denom \<noteq> []" "last denom \<noteq> 0" "length denom \<le> length numer"
    and quot: "length quot = length numer - length denom + 1"
  obtains res quot' rem where "mpn_div numer denom quot u v ms = Inr (res, quot', rem)"
    "length quot' = length quot" "length rem = length denom"
    "nval quot' = nval numer div nval denom" "nval rem = nval numer mod nval denom"
proof -
  let ?lnum = "length numer" and ?lden = "length denom"
  have nz: "\<not> list_all (\<lambda>d. d = 0) denom" using assms(1,2) last_in_set by (auto simp: list_all_iff)
  have nn: "numer \<noteq> []" using assms by auto
  have top: "denom ! (length denom - Suc 0) \<noteq> 0" using assms(1,2) by (simp add: last_conv_nth)
  consider (one) "?lnum = 1" "?lden = 1"
    | (small) "\<not> (?lnum = 1 \<and> ?lden = 1)" "?lnum = ?lden" "last numer < last denom"
    | (main) "\<not> (?lnum = 1 \<and> ?lden = 1)" "\<not> (?lnum = ?lden \<and> last numer < last denom)" by blast
  then show ?thesis
  proof cases
    case one
    then have q: "quot[0 := numer ! 0 div denom ! 0] = [numer ! 0 div denom ! 0]"
      using quot by (cases quot) auto
    show ?thesis
      using one nz q quot top
      by (intro that[of False "[numer ! 0 div denom ! 0]" "[numer ! 0 mod denom ! 0]"])
        (simp_all add: mpn_div_def nval_single unat_div unat_mod)
  next
    case small
    have lt: "nval numer < nval denom" using nval_last_less[OF small(2) nn small(3)] .
    have q: "quot[0 := 0] = [0]" using quot small by (cases quot) auto
    have "mpn_div numer denom quot u v ms = Inr (False, quot[0 := 0], map (digit numer) [0..<?lden])"
      using small nz nn assms(1) top by (auto simp: mpn_div_def Let_def last_conv_nth)
    then show ?thesis using lt q quot small nval_digits[of numer ?lden]
      by (intro that[of False "quot[0 := 0]" "map (digit numer) [0..<?lden]"]) simp_all
  next
    case main
    obtain d u' v' where norm: "div_normalize numer denom u v = Some (d, u', v')" by (rule div_normalize_returns[OF assms(1,2)])
    obtain numer' quot' where core: "(numer', quot') = (if ?lden = 1 then div_1 u' (v' ! 0) quot else div_n u' v' quot ms)"
      by (metis surj_pair)
    have "mpn_div numer denom quot u v ms = Inr (True, quot', div_unnormalize numer' v' d)"
      using main nz assms(1,3) nn core[symmetric] top
      by (auto simp: mpn_div_def Let_def norm last_conv_nth)
    then show ?thesis using mpn_div_main[OF assms(1-3) quot norm core] that by blast
  qed
qed

text \<open>When division fails.\<close>

lemma mpn_div_fails:
  assumes "length numer < 2 ^ 63" "length denom < 2 ^ 63" "length quot < 2 ^ 63"
  shows "mpn_div numer denom quot u v ms = Inl OutOfBounds \<longleftrightarrow> length numer + 1 < length denom"
    "mpn_div numer denom quot u v ms = Inl Unreachable \<longleftrightarrow> length denom \<le> length numer \<and> (\<forall>d \<in> set denom. d = 0)"
    "mpn_div numer denom quot u v ms = Inl Assertion \<longleftrightarrow>
       length denom \<le> length numer \<and> \<not> (\<forall>d \<in> set denom. d = 0) \<and> last denom = 0"
    "mpn_div numer denom quot u v ms \<noteq> Inl NoReturn"
proof -
  let ?lnum = "length numer" and ?lden = "length denom"
  let ?bound = "of_nat ?lnum - of_nat ?lden + 1 :: 64 word"
  have long: "zero_quot 0 ?bound quot = None" if "?lnum + 1 < ?lden"
  proof -
    have b: "?bound = of_nat (2 ^ 64 - (?lden - (?lnum + 1)))"
      using that assms(2) by (simp add: of_nat_diff)
    have "unat ?bound = 2 ^ 64 - (?lden - (?lnum + 1))"
      unfolding b unsigned_of_nat using that assms(2) by (simp add: take_bit_nat_eq_self)
    moreover have "length quot < 2 ^ 64 - (?lden - (?lnum + 1))" using assms(2,3) by (simp add: less_diff_conv)
    ultimately have "length quot < unat ?bound" by simp
    then show ?thesis by (rule zero_quot_short) simp
  qed
  have short: "zero_quot 0 ?bound quot = (if ?lnum + 1 < ?lden then None else Some quot)" if "?lnum < ?lden"
  proof (cases "?lnum + 1 < ?lden")
    case False
    then have "?bound = 0" using that by (simp add: not_less le_Suc_eq)
    then show ?thesis using False by (simp add: zero_quot.simps)
  qed (simp add: long)
  have norm: "\<exists>r. div_normalize numer denom u v = Some r" if "last denom \<noteq> 0" "denom \<noteq> []"
    using div_normalize_returns[OF that(2,1), of numer u v] by blast
  let ?all = "\<forall>d \<in> set denom. d = 0" and ?div = "mpn_div numer denom quot u v ms"
  have "(?div = Inl OutOfBounds \<longleftrightarrow> ?lnum + 1 < ?lden) \<and> (?div = Inl Unreachable \<longleftrightarrow> ?lden \<le> ?lnum \<and> ?all)
    \<and> (?div = Inl Assertion \<longleftrightarrow> ?lden \<le> ?lnum \<and> \<not> ?all \<and> last denom = 0) \<and> ?div \<noteq> Inl NoReturn"
  proof (cases "?lnum < ?lden")
    case True
    then show ?thesis by (simp add: mpn_div_def Let_def short del: One_nat_def)
  next
    case long: False
    show ?thesis
    proof (cases ?all)
      case True
      then show ?thesis using long by (simp add: mpn_div_def Let_def list_all_iff)
    next
      case False
      then have ne: "denom \<noteq> []" by auto
      then have "denom ! (?lden - 1) = last denom" by (simp add: last_conv_nth)
      then show ?thesis
        using long False ne norm by (auto simp: mpn_div_def Let_def list_all_iff split: prod.splits)
    qed
  qed
  then show "?div = Inl OutOfBounds \<longleftrightarrow> ?lnum + 1 < ?lden" "?div = Inl Unreachable \<longleftrightarrow> ?lden \<le> ?lnum \<and> ?all"
    "?div = Inl Assertion \<longleftrightarrow> ?lden \<le> ?lnum \<and> \<not> ?all \<and> last denom = 0" "?div \<noteq> Inl NoReturn" by blast+
qed

end
