(* ===== verification/Mpn_String.thy ===== *)
theory Mpn_String
  imports Mpn_Div_Sound "HOL-Library.Char_ord"
begin

text \<open>
  Conversion of multi-precision naturals to decimal (\<^verbatim>\<open>mpn_manager::to_string\<close>): repeated
  division by ten, digits stored from the least significant one, and the swaps that reverse them.
  A single digit goes through the C library's \<^verbatim>\<open>"%u"\<close>, whose result is \<open>decimal\<close>.
  The buffer is assumed large enough; the code does not check its size.
\<close>

section \<open>Decimal numerals\<close>

definition digit_char :: "nat \<Rightarrow> char" where
  "digit_char n = char_of (48 + n)"

fun decimal :: "nat \<Rightarrow> string" where
  "decimal n = (if n < 10 then [digit_char n] else decimal (n div 10) @ [digit_char (n mod 10)])"

declare decimal.simps [simp del]

section \<open>The loop\<close>

definition pop_zeros :: "mpn_digit list \<Rightarrow> mpn_digit list" where
  "pop_zeros xs = rev (dropWhile (\<lambda>d. d = 0) (rev xs))"

text \<open>One division by ten: the remainder and the quotient, in place of the dividend.\<close>

definition div_ten :: "mpn_digit list \<Rightarrow> (mpn_digit \<times> mpn_digit list) option" where
  "div_ten temp =
     map_option
       (\<lambda>(d, t_numer, t_denom).
          let (t_numer', temp') = div_1 t_numer (t_denom ! 0) temp;
              rem = div_unnormalize t_numer' t_denom d
          in (rem ! 0, temp'))
       (div_normalize temp [10] (replicate (length temp + 1) 0) [0])"

lemma div_ten_correct:
  assumes "temp \<noteq> []"
  obtains rem temp' where "div_ten temp = Some (rem, temp')" "unat rem = nval temp mod 10" "nval temp' = nval temp div 10"
    "length temp' = length temp"
proof -
  obtain d tn td where norm: "div_normalize temp [10] (replicate (length temp + 1) 0) [0] = Some (d, tn, td)"
    by (rule div_normalize_returns[of "[10]" temp]) simp_all
  obtain tn' temp' where d1: "(tn', temp') = div_1 tn (td ! 0) temp" by (metis surj_pair)
  have "unat (10 :: mpn_digit) = 10" by simp
  then have ten: "nval [10] = 10" by simp
  have len: "length [10 :: mpn_digit] \<le> length temp" using assms by (cases temp) auto
  then have l: "length temp = length temp - length [10 :: mpn_digit] + 1" by simp
  have core: "(tn', temp') = (if length [10 :: mpn_digit] = 1 then div_1 tn (td ! 0) temp else div_n tn td temp [])"
    using d1 by simp
  note main = mpn_div_main[OF _ _ len l norm core, unfolded ten]
  have "div_ten temp = Some (div_unnormalize tn' td d ! 0, temp')"
    using norm d1[symmetric] by (simp add: div_ten_def)
  moreover have "unat (div_unnormalize tn' td d ! 0) = nval (div_unnormalize tn' td d)"
    using main by (intro nval_single[symmetric]) simp
  ultimately show ?thesis using main that by simp
qed

lemma nval_pop_zeros: "nval (pop_zeros xs) = nval xs"
proof (induction xs rule: rev_induct)
  case (snoc x xs)
  then show ?case by (cases "x = 0") (simp_all add: pop_zeros_def)
qed (simp add: pop_zeros_def)

lemma length_pop_zeros: "length (pop_zeros xs) \<le> length xs"
  by (simp add: pop_zeros_def) (metis length_dropWhile_le length_rev)

lemma pop_zeros_Nil: "nval xs = 0 \<Longrightarrow> pop_zeros xs = []"
proof -
  assume z: "nval xs = 0"
  then have "\<forall>x \<in> set xs. x = 0" by (induction xs) (auto simp: unat_eq_0)
  then show ?thesis by (simp add: pop_zeros_def dropWhile_eq_Nil_conv)
qed

function to_string_loop :: "mpn_digit list \<Rightarrow> string \<Rightarrow> string option" where
  "to_string_loop temp buf =
     (if temp \<noteq> [] \<and> (1 < length temp \<or> temp ! 0 \<noteq> 0) then
        case div_ten temp of
          None \<Rightarrow> None
        | Some (rem, temp') \<Rightarrow> to_string_loop (pop_zeros temp') (buf @ [char_of (48 + unat rem)])
      else Some buf)"
  by pat_completeness auto
termination
proof (relation "measure (\<lambda>(temp, buf). nval temp + length temp)", simp)
  fix temp temp' :: "mpn_digit list" and rem :: mpn_digit and buf :: string and p
  assume c: "temp \<noteq> [] \<and> (1 < length temp \<or> temp ! 0 \<noteq> 0)" and p: "div_ten temp = Some p" "(rem, temp') = p"
  then have d: "nval temp' = nval temp div 10" "length temp' = length temp"
    using div_ten_correct[of temp] by (metis option.inject prod.inject)+
  show "((pop_zeros temp', buf @ [char_of (48 + unat rem)]), (temp, buf)) \<in> measure (\<lambda>(temp, buf). nval temp + length temp)"
  proof (cases "nval temp = 0")
    case True
    then have "pop_zeros temp' = []" using d by (intro pop_zeros_Nil) simp
    then show ?thesis using c by simp
  next
    case False
    then have "nval temp div 10 < nval temp" by simp
    then show ?thesis using d length_pop_zeros[of temp'] by (simp add: nval_pop_zeros)
  qed
qed

declare to_string_loop.simps [simp del]

text \<open>The swaps of \<open>buf[i]\<close> and \<open>buf[j - i]\<close>, where \<open>j\<close> is the last index.\<close>

definition swap_ends :: "nat \<Rightarrow> nat \<Rightarrow> string \<Rightarrow> string" where
  "swap_ends j i buf = buf[i := buf ! (j - i), j - i := buf ! i]"

text \<open>For an empty array \<^verbatim>\<open>j--\<close> wraps around and the swaps leave the buffer.\<close>

definition mpn_to_string :: "mpn_digit list \<Rightarrow> mpn_error + string" where
  "mpn_to_string a =
     (if length a = 1 then Inr (decimal (unat (a ! 0)))
      else
        case to_string_loop a [] of
          None \<Rightarrow> Inl NoReturn
        | Some buf \<Rightarrow>
            if buf = [] then Inl OutOfBounds
            else
              let j = length buf - 1; mid = j div 2 + (if j mod 2 \<noteq> 0 then 1 else 0)
              in Inr (fold (swap_ends j) [0..<mid] buf))"

section \<open>The result is the decimal numeral of the number\<close>

fun lsd_digits :: "nat \<Rightarrow> string" where
  "lsd_digits n = (if n < 10 then [digit_char n] else digit_char (n mod 10) # lsd_digits (n div 10))"

declare lsd_digits.simps [simp del]

lemma rev_lsd_digits: "rev (lsd_digits n) = decimal n"
  by (induction n rule: lsd_digits.induct) (subst lsd_digits.simps, subst decimal.simps, simp)

lemma to_string_loop_correct:
  "temp \<noteq> [] \<Longrightarrow> 1 < length temp \<or> temp ! 0 \<noteq> 0 \<Longrightarrow> to_string_loop temp buf = Some (buf @ lsd_digits (nval temp))"
proof (induction temp buf rule: to_string_loop.induct)
  case (1 temp buf)
  obtain rem temp' where d: "div_ten temp = Some (rem, temp')"
    and c: "unat rem = nval temp mod 10" "nval temp' = nval temp div 10"
    using div_ten_correct[OF 1(2)] by blast
  have r: "to_string_loop temp buf = to_string_loop (pop_zeros temp') (buf @ [digit_char (nval temp mod 10)])"
    using 1(2,3) d c by (simp add: to_string_loop.simps[of temp buf] digit_char_def)
  show ?case
  proof (cases "nval temp < 10")
    case True
    then have "pop_zeros temp' = []" using c by (intro pop_zeros_Nil) simp
    then show ?thesis using r True by (simp add: to_string_loop.simps[of "[]"] lsd_digits.simps[of "nval temp"])
  next
    case False
    let ?t = "pop_zeros temp'"
    have nz: "nval ?t \<noteq> 0" using c False by (simp add: nval_pop_zeros)
    then have ne: "?t \<noteq> []" by auto
    have "1 < length ?t \<or> ?t ! 0 \<noteq> 0"
    proof (cases "length ?t = 1")
      case True
      then show ?thesis using nz nval_single[OF True] by (metis unat_0)
    qed (use ne in \<open>cases ?t; auto\<close>)
    then have "to_string_loop ?t (buf @ [digit_char (nval temp mod 10)])
        = Some ((buf @ [digit_char (nval temp mod 10)]) @ lsd_digits (nval ?t))"
      using 1(1)[OF conjI[OF 1(2,3)] d refl ne] c by (simp add: digit_char_def)
    then show ?thesis using r False c by (simp add: nval_pop_zeros lsd_digits.simps[of "nval temp"])
  qed
qed

lemma fold_swap_ends:
  assumes "length buf = Suc j"
  shows "2 * m \<le> Suc j \<Longrightarrow> length (fold (swap_ends j) [0..<m] buf) = Suc j
    \<and> (\<forall>i < Suc j. fold (swap_ends j) [0..<m] buf ! i = (if i < m \<or> j - m < i then buf ! (j - i) else buf ! i))"
proof (induction m)
  case (Suc m)
  then have "2 * m \<le> Suc j" by simp
  note IH = Suc.IH[OF this]
  show ?case using IH Suc.prems by (auto simp: swap_ends_def nth_list_update)
qed (use assms in auto)

lemma fold_swap_ends_rev:
  assumes "buf \<noteq> []"
  defines "j \<equiv> length buf - 1"
  shows "fold (swap_ends j) [0..<j div 2 + (if j mod 2 \<noteq> 0 then 1 else 0)] buf = rev buf"
proof -
  define m where "m = j div 2 + (if j mod 2 \<noteq> 0 then 1 else 0)"
  have l: "length buf = Suc j" using assms by (cases buf) auto
  have m: "2 * m \<le> Suc j" "j \<le> 2 * m" unfolding m_def by presburger+
  note s = fold_swap_ends[OF l m(1)]
  show ?thesis unfolding m_def[symmetric]
  proof (rule nth_equalityI)
    show "length (fold (swap_ends j) [0..<m] buf) = length (rev buf)" using s l by simp
    fix i assume "i < length (fold (swap_ends j) [0..<m] buf)"
    then have i: "i < Suc j" using s by simp
    show "fold (swap_ends j) [0..<m] buf ! i = rev buf ! i"
    proof (cases "i < m \<or> j - m < i")
      case False
      then have "m \<le> i" "i \<le> j - m" by simp_all
      then have "j - i = i" using m i by linarith
      then show ?thesis using s i l False by (simp add: rev_nth)
    qed (use s i l in \<open>simp add: rev_nth\<close>)
  qed
qed

theorem mpn_to_string_correct:
  assumes "a \<noteq> []"
  shows "mpn_to_string a = Inr (decimal (nval a))"
proof (cases "length a = 1")
  case True
  then show ?thesis by (simp add: mpn_to_string_def nval_single)
next
  case False
  then have "1 < length a" using assms by (cases a) auto
  then have b: "to_string_loop a [] = Some (lsd_digits (nval a))" using to_string_loop_correct[OF assms, of "[]"] by simp
  have ne: "lsd_digits (nval a) \<noteq> []" by (subst lsd_digits.simps) simp
  show ?thesis using False ne fold_swap_ends_rev[OF ne] by (simp add: mpn_to_string_def Let_def b rev_lsd_digits)
qed

lemma mpn_to_string_empty: "mpn_to_string [] = Inl OutOfBounds"
  by (simp add: mpn_to_string_def to_string_loop.simps)

end
