(* ===== verification/Union_Find.thy ===== *)
theory Union_Find
  imports Prelude "HOL-Library.Monad_Syntax"
begin

text \<open>
  Union-find (src/sources/Z3/src/util/union_find.h): the three vectors that \<^verbatim>\<open>union_find\<close>
  and \<^verbatim>\<open>basic_union_find\<close> share, their operations, and their invariant. \<open>m_find\<close> holds parent
  pointers without path compression, \<open>m_next\<close> links every class into a cycle, \<open>m_size\<close> holds at
  every root the size of its class. Reads outside a vector are the value \<open>None\<close>; so is a \<open>find\<close>
  that never returns. \<^verbatim>\<open>unsigned\<close> values are natural numbers: by the invariant every value stored
  is at most the number of variables, which the 32-bit size of the vectors bounds.
\<close>

section \<open>The vectors and the operations\<close>

record uf_tables =
  m_find :: "nat list"
  m_size :: "nat list"
  m_next :: "nat list"

definition num_vars :: "'a uf_tables_scheme \<Rightarrow> nat" where
  "num_vars s = length (m_find s)"

partial_function (option) find_loop :: "nat list \<Rightarrow> nat \<Rightarrow> nat option" where
  "find_loop fs v =
     (if v < length fs then
        (let new_v = fs ! v in if new_v = v then Some v else find_loop fs new_v)
      else None)"

definition uf_find :: "'a uf_tables_scheme \<Rightarrow> nat \<Rightarrow> nat option" where
  "uf_find s v = find_loop (m_find s) v"

definition uf_size :: "'a uf_tables_scheme \<Rightarrow> nat \<Rightarrow> nat option" where
  "uf_size s v = do {
     r \<leftarrow> uf_find s v;
     Some (m_size s ! r)
   }"

definition is_root :: "'a uf_tables_scheme \<Rightarrow> nat \<Rightarrow> bool" where
  "is_root s v = (m_find s ! v = v)"

text \<open>A new variable is a class of its own.\<close>

definition push_var :: "'a uf_tables_scheme \<Rightarrow> 'a uf_tables_scheme" where
  "push_var s =
     (let r = length (m_find s)
      in s\<lparr>m_find := m_find s @ [r], m_size := m_size s @ [1], m_next := m_next s @ [r]\<rparr>)"

definition swap_next :: "nat \<Rightarrow> nat \<Rightarrow> nat list \<Rightarrow> nat list" where
  "swap_next r1 r2 ns = ns[r1 := ns ! r2, r2 := ns ! r1]"

text \<open>The assignments of \<^verbatim>\<open>merge\<close>, which makes \<open>r2\<close> the parent of \<open>r1\<close>, and of
  \<^verbatim>\<open>unmerge\<close>, which takes them back.\<close>

definition link_roots :: "nat \<Rightarrow> nat \<Rightarrow> 'a uf_tables_scheme \<Rightarrow> 'a uf_tables_scheme" where
  "link_roots r1 r2 s =
     s\<lparr>m_find := (m_find s)[r1 := r2],
       m_size := (m_size s)[r2 := m_size s ! r2 + m_size s ! r1],
       m_next := swap_next r1 r2 (m_next s)\<rparr>"

definition unmerge :: "nat \<Rightarrow> 'a uf_tables_scheme \<Rightarrow> 'a uf_tables_scheme option" where
  "unmerge r1 s =
     (if r1 < length (m_find s) \<and> m_find s ! r1 < length (m_find s) then
        let r2 = m_find s ! r1
        in Some (s\<lparr>m_size := (m_size s)[r2 := m_size s ! r2 - m_size s ! r1],
                   m_find := (m_find s)[r1 := r1],
                   m_next := swap_next r1 r2 (m_next s)\<rparr>)
      else None)"

text \<open>The smaller class is linked below the larger one.\<close>

definition order_roots :: "'a uf_tables_scheme \<Rightarrow> nat \<Rightarrow> nat \<Rightarrow> nat \<times> nat" where
  "order_roots s r1 r2 = (if m_size s ! r1 > m_size s ! r2 then (r2, r1) else (r1, r2))"

text \<open>\<^verbatim>\<open>dissolve\<close>: a do-while loop whose condition compares \<open>w\<close> with the unchanged \<open>v\<close>.\<close>

partial_function (option) dissolve :: "nat \<Rightarrow> 'a uf_tables_scheme \<Rightarrow> 'a uf_tables_scheme option" where
  "dissolve v s =
     (if v < length (m_next s) then
        let w = m_next s ! v;
            s' = s\<lparr>m_size := (m_size s)[v := 1], m_find := (m_find s)[v := v], m_next := (m_next s)[v := v]\<rparr>
        in if w \<noteq> v then dissolve v s' else Some s'
      else None)"

section \<open>Finding the root\<close>

lemma find_loop_self [simp]: "r < length fs \<Longrightarrow> fs ! r = r \<Longrightarrow> find_loop fs r = Some r"
  by (simp add: find_loop.simps)

lemma find_loop_parent: "v < length fs \<Longrightarrow> find_loop fs (fs ! v) = find_loop fs v"
  by (cases "fs ! v = v") (simp_all add: find_loop.simps[of fs v])

text \<open>Induction along the parent pointers that a search follows.\<close>

lemma find_loop_path [consumes 1, case_names root step]:
  assumes "find_loop fs v = Some r"
    and "\<And>v. v < length fs \<Longrightarrow> fs ! v = v \<Longrightarrow> P v v"
    and "\<And>v r. v < length fs \<Longrightarrow> fs ! v \<noteq> v \<Longrightarrow> P (fs ! v) r \<Longrightarrow> P v r"
  shows "P v r"
proof -
  have "fs' = fs \<longrightarrow> P v r" if "find_loop fs' v = Some r" for fs'
  proof (rule find_loop.raw_induct[where P = "\<lambda>fs' v r. fs' = fs \<longrightarrow> P v r", OF _ that], intro impI)
    fix rec fs' v r
    assume IH: "\<And>fs' v r. rec fs' v = Some r \<Longrightarrow> fs' = fs \<longrightarrow> P v r"
      and body: "(if v < length fs' then let new_v = fs' ! v in if new_v = v then Some v else rec fs' new_v
        else None) = Some r" and "fs' = fs"
    from body \<open>fs' = fs\<close> have v: "v < length fs" by (simp split: if_splits)
    show "P v r"
    proof (cases "fs ! v = v")
      case True
      with body \<open>fs' = fs\<close> v have "r = v" by (simp add: Let_def)
      with assms(2)[OF v True] show ?thesis by simp
    next
      case False
      with body \<open>fs' = fs\<close> v have "rec fs (fs ! v) = Some r" by (simp add: Let_def)
      with IH have "P (fs ! v) r" by blast
      then show ?thesis by (rule assms(3)[OF v False])
    qed
  qed
  with assms(1) show ?thesis by blast
qed

lemma find_loop_root:
  assumes "find_loop fs v = Some r"
  shows "v < length fs" "r < length fs" "fs ! r = r"
  using assms by (induction rule: find_loop_path) auto

lemma find_loop_link:
  assumes "find_loop fs v = Some r"
    and "r1 < length fs" "fs ! r1 = r1" "r2 < length fs" "fs ! r2 = r2" "r1 \<noteq> r2"
  shows "find_loop (fs[r1 := r2]) v = Some (if r = r1 then r2 else r)"
  using assms(1)
proof (induction rule: find_loop_path)
  case (root v)
  show ?case
  proof (cases "v = r1")
    case True
    then show ?thesis using find_loop_parent[of r1 "fs[r1 := r2]"] assms(2,4-6) by simp
  qed (use root in simp)
next
  case (step v r)
  then have "fs[r1 := r2] ! v = fs ! v" using assms(3) by (cases "v = r1") auto
  then show ?case using find_loop_parent[of v "fs[r1 := r2]"] step by simp
qed

lemma find_loop_append: "find_loop fs v = Some r \<Longrightarrow> find_loop (fs @ gs) v = Some r"
proof (induction rule: find_loop_path)
  case (step v r)
  then show ?case using find_loop_parent[of v "fs @ gs"] by (simp add: nth_append)
qed (simp add: nth_append)

section \<open>Cycles of a permutation\<close>

definition reaches :: "(nat \<Rightarrow> nat) \<Rightarrow> nat \<Rightarrow> nat \<Rightarrow> bool" where
  "reaches f = (\<lambda>x y. y = f x)\<^sup>*\<^sup>*"

lemma reaches_refl [simp, intro]: "reaches f x x"
  by (simp add: reaches_def)

lemma reaches_step [intro]: "reaches f x y \<Longrightarrow> reaches f x (f y)"
  unfolding reaches_def by (rule rtranclp.rtrancl_into_rtrancl) auto

lemma reaches_trans [trans]: "reaches f x y \<Longrightarrow> reaches f y z \<Longrightarrow> reaches f x z"
  unfolding reaches_def by (rule rtranclp_trans)

lemma reaches_induct [consumes 1, case_names refl step]:
  assumes "reaches f x y" "P x" "\<And>y. reaches f x y \<Longrightarrow> P y \<Longrightarrow> P (f y)"
  shows "P y"
  using assms(1) unfolding reaches_def
  by (induction rule: rtranclp_induct) (use assms(2,3) in \<open>auto simp: reaches_def\<close>)

lemma reaches_funpow: "reaches f x y \<longleftrightarrow> (\<exists>k. y = (f ^^ k) x)"
proof
  assume "reaches f x y"
  then show "\<exists>k. y = (f ^^ k) x"
  proof (induction rule: reaches_induct)
    case refl
    then show ?case by (auto intro: exI[of _ 0])
  next
    case (step y)
    then obtain k where "y = (f ^^ k) x" by blast
    then have "f y = (f ^^ Suc k) x" by simp
    then show ?case by blast
  qed
next
  assume "\<exists>k. y = (f ^^ k) x"
  then obtain k where "y = (f ^^ k) x" by blast
  moreover have "reaches f x ((f ^^ k) x)" by (induction k) auto
  ultimately show "reaches f x y" by simp
qed

text \<open>A permutation of the numbers below \<open>n\<close>.\<close>

definition perm_below :: "nat \<Rightarrow> (nat \<Rightarrow> nat) \<Rightarrow> bool" where
  "perm_below n f \<longleftrightarrow> inj f \<and> (\<forall>v < n. f v < n) \<and> (\<forall>v. n \<le> v \<longrightarrow> f v = v)"

lemma reaches_below: "perm_below n f \<Longrightarrow> reaches f x y \<Longrightarrow> x < n \<Longrightarrow> y < n"
  by (rotate_tac, induction rule: reaches_induct) (auto simp: perm_below_def)

lemma reaches_above: "perm_below n f \<Longrightarrow> reaches f x y \<Longrightarrow> n \<le> x \<Longrightarrow> y = x"
  by (rotate_tac, induction rule: reaches_induct) (auto simp: perm_below_def)

lemma reaches_sym:
  assumes f: "perm_below n f" and r: "reaches f x y"
  shows "reaches f y x"
proof -
  have "z < max n (Suc x)" if "reaches f x z" for z
    using reaches_below[OF f that] reaches_above[OF f that] by (cases "x < n") auto
  then have "{z. \<exists>k. z = (f ^^ k) x} \<subseteq> {..<max n (Suc x)}"
    unfolding reaches_funpow by blast
  then have "finite {z. \<exists>k. z = (f ^^ k) x}" by (rule finite_subset) simp
  then obtain m where m: "0 < m" "(f ^^ m) x = x"
    using funpow_inj_finite[of f x] f by (auto simp: perm_below_def)
  obtain k where k: "y = (f ^^ k) x" using r by (auto simp: reaches_funpow)
  have "(f ^^ (m * k)) x = x" for k
    by (induction k) (simp_all add: funpow_add m(2))
  then have "x = (f ^^ (m * k - k + k)) x" using m(1) by (simp add: mult_le_mono1 le_add_diff_inverse2)
  also have "\<dots> = (f ^^ (m * k - k)) y" by (simp add: funpow_add k)
  finally show ?thesis by (auto simp: reaches_funpow)
qed

text \<open>Exchanging the successors of two elements of different cycles joins the cycles.\<close>

definition exchange :: "(nat \<Rightarrow> nat) \<Rightarrow> nat \<Rightarrow> nat \<Rightarrow> nat \<Rightarrow> nat" where
  "exchange f a b = f(a := f b, b := f a)"

lemma perm_exchange:
  assumes "perm_below n f" "a < n" "b < n"
  shows "perm_below n (exchange f a b)"
proof -
  define sw where "sw x = (if x = a then b else if x = b then a else x)" for x
  have "inj sw" by (rule inj_on_inverseI[of _ sw]) (auto simp: sw_def)
  moreover have "exchange f a b = f \<circ> sw" by (auto simp: exchange_def sw_def)
  ultimately have "inj (exchange f a b)" using assms(1) by (simp add: perm_below_def inj_compose)
  with assms show ?thesis by (auto simp: perm_below_def exchange_def)
qed

lemma reaches_exchange_keeps:
  assumes "perm_below n f" "reaches f x a" "\<not> reaches f a b"
  shows "reaches (exchange f a b) x a"
  using assms(2) unfolding reaches_def
proof (induction rule: converse_rtranclp_induct)
  case (step x z)
  show ?case
  proof (cases "x = a")
    case False
    have "reaches f x a" using step by (auto simp: reaches_def intro: converse_rtranclp_into_rtranclp)
    then have "x \<noteq> b" using reaches_sym[OF assms(1)] assms(3) by blast
    with False have "z = exchange f a b x" using step(1) by (simp add: exchange_def)
    with step(3) show ?thesis by (auto intro: converse_rtranclp_into_rtranclp)
  qed simp
qed simp

lemma exchange_commute: "exchange f a b = exchange f b a"
  by (auto simp: exchange_def fun_upd_twist)

lemma reaches_exchange:
  assumes f: "perm_below n f" and ab: "a < n" "b < n" and sep: "\<not> reaches f a b"
  shows "reaches (exchange f a b) x y \<longleftrightarrow>
    reaches f x y \<or> (reaches f a x \<or> reaches f b x) \<and> (reaches f a y \<or> reaches f b y)"
    (is "?l \<longleftrightarrow> ?r")
proof -
  note sym = reaches_sym[OF f]
  note symg = reaches_sym[OF perm_exchange[OF f ab]]
  have a: "reaches (exchange f a b) z a" if "reaches f a z" for z
    by (rule reaches_exchange_keeps[OF f sym[OF that] sep])
  have sep': "\<not> reaches f b a" using sep sym by blast
  have b: "reaches (exchange f a b) z b" if "reaches f b z" for z
    using reaches_exchange_keeps[OF f sym[OF that] sep'] by (simp add: exchange_commute)
  have "reaches (exchange f a b) (f b) b" by (rule b) auto
  moreover have "reaches (exchange f a b) a (f b)"
    using reaches_step[OF reaches_refl, of "exchange f a b" a] by (auto simp: exchange_def split: if_splits)
  ultimately have join: "reaches (exchange f a b) a b" by (rule reaches_trans[rotated])
  have all: "reaches (exchange f a b) z a" if "reaches f a z \<or> reaches f b z" for z
    using that a b symg[OF join] by (blast intro: reaches_trans)
  show ?thesis
  proof
    assume ?l
    then show ?r
    proof (induction rule: reaches_induct)
      case (step y)
      have ends: "reaches f a (f a)" "reaches f b (f b)" by auto
      consider "y = a" | "y = b" "a \<noteq> b" | "y \<noteq> a" "y \<noteq> b" by blast
      then show ?case
      proof cases
        case 1
        then have "exchange f a b y = f b" by (simp add: exchange_def)
        moreover have "reaches f a x \<or> reaches f b x" using 1 step(2) sym by blast
        ultimately show ?thesis using ends(2) by simp
      next
        case 2
        then have "exchange f a b y = f a" by (simp add: exchange_def)
        moreover have "reaches f a x \<or> reaches f b x" using 2 step(2) sym by blast
        ultimately show ?thesis using ends(1) by simp
      next
        case 3
        then have "exchange f a b y = f y" by (simp add: exchange_def)
        with step(2) show ?thesis by (auto intro: reaches_step)
      qed
    qed simp
  next
    assume ?r
    then consider "(reaches f a x \<or> reaches f b x) \<and> (reaches f a y \<or> reaches f b y)"
      | "reaches f x y" "\<not> (reaches f a x \<or> reaches f b x)"
      using reaches_trans[of f] by blast
    then show ?l
    proof cases
      case 1
      then show ?thesis using all symg reaches_trans by blast
    next
      case 2
      from 2(1) show ?thesis
      proof (induction rule: reaches_induct)
        case (step y)
        have "y \<noteq> a" "y \<noteq> b" using step(1) 2(2) sym by blast+
        then have "exchange f a b y = f y" by (simp add: exchange_def)
        with step(2) show ?case using reaches_step by metis
      qed simp
    qed
  qed
qed

section \<open>The invariant\<close>

definition uf_next :: "'a uf_tables_scheme \<Rightarrow> nat \<Rightarrow> nat" where
  "uf_next s v = (if v < length (m_next s) then m_next s ! v else v)"

definition uf_inv :: "'a uf_tables_scheme \<Rightarrow> bool" where
  "uf_inv s \<longleftrightarrow> length (m_size s) = num_vars s \<and> length (m_next s) = num_vars s
     \<and> (\<forall>v < num_vars s. uf_find s v \<noteq> None)
     \<and> perm_below (num_vars s) (uf_next s)
     \<and> (\<forall>v < num_vars s. \<forall>w < num_vars s. reaches (uf_next s) v w \<longleftrightarrow> uf_find s v = uf_find s w)
     \<and> (\<forall>r < num_vars s. is_root s r \<longrightarrow> m_size s ! r = card {w. w < num_vars s \<and> uf_find s w = Some r})"

lemma uf_invD:
  assumes "uf_inv s"
  shows "length (m_size s) = num_vars s" "length (m_next s) = num_vars s"
    and "v < num_vars s \<Longrightarrow> \<exists>r. uf_find s v = Some r"
    and "perm_below (num_vars s) (uf_next s)"
    and "v < num_vars s \<Longrightarrow> w < num_vars s \<Longrightarrow> reaches (uf_next s) v w \<longleftrightarrow> uf_find s v = uf_find s w"
    and "r < num_vars s \<Longrightarrow> is_root s r \<Longrightarrow> m_size s ! r = card {w. w < num_vars s \<and> uf_find s w = Some r}"
  using assms by (auto simp: uf_inv_def)

lemma uf_find_root:
  assumes "uf_find s v = Some r"
  shows "v < num_vars s" "r < num_vars s" "is_root s r" "uf_find s r = Some r"
  using find_loop_root[of "m_find s" v r] assms
  by (auto simp: uf_find_def num_vars_def is_root_def)

lemma root_find: "r < num_vars s \<Longrightarrow> is_root s r \<Longrightarrow> uf_find s r = Some r"
  by (simp add: uf_find_def is_root_def num_vars_def)

lemma uf_next_next: "uf_inv s \<Longrightarrow> v < num_vars s \<Longrightarrow> uf_next s v = m_next s ! v"
  by (simp add: uf_next_def uf_invD(2))

section \<open>Adding a variable\<close>

lemma push_var_tables [simp]:
  "m_find (push_var s) = m_find s @ [num_vars s]"
  "m_size (push_var s) = m_size s @ [1]"
  "m_next (push_var s) = m_next s @ [num_vars s]"
  by (simp_all add: push_var_def num_vars_def Let_def)

lemma num_vars_push [simp]: "num_vars (push_var s) = Suc (num_vars s)"
  by (simp add: num_vars_def)

lemma find_push:
  assumes "uf_inv s"
  shows "uf_find (push_var s) v = (if v = num_vars s then Some v else uf_find s v)"
proof -
  consider "v < num_vars s" | "v = num_vars s" | "num_vars s < v" by linarith
  then show ?thesis
  proof cases
    case 1
    then obtain r where "uf_find s v = Some r" using uf_invD(3)[OF assms] by blast
    with 1 show ?thesis by (simp add: uf_find_def find_loop_append)
  next
    case 2
    then show ?thesis by (simp add: uf_find_def num_vars_def)
  next
    case 3
    then show ?thesis
      by (simp add: uf_find_def num_vars_def find_loop.simps[of _ v])
  qed
qed

lemma next_push: "uf_inv s \<Longrightarrow> uf_next (push_var s) = uf_next s"
  by (rule ext) (auto simp: uf_next_def nth_append uf_invD(2) num_vars_def)

lemma uf_inv_push:
  assumes "uf_inv s"
  shows "uf_inv (push_var s)"
proof -
  let ?n = "num_vars s"
  note d = uf_invD[OF assms]
  have out: "reaches (uf_next s) ?n w \<longleftrightarrow> w = ?n" for w
    using reaches_above[OF d(4), of ?n w] by auto
  have out': "reaches (uf_next s) w ?n \<longleftrightarrow> w = ?n" for w
    using out reaches_sym[OF d(4)] by blast
  have never: "uf_find s w \<noteq> Some ?n" for w using uf_find_root(2)[of s w ?n] by auto
  have "perm_below (Suc ?n) (uf_next s)"
    using d(4) by (auto simp: perm_below_def less_Suc_eq)
  moreover have "reaches (uf_next s) v w \<longleftrightarrow> uf_find (push_var s) v = uf_find (push_var s) w"
    if "v < Suc ?n" "w < Suc ?n" for v w
    using that d(5)[of v w] out out' never
    by (cases "v = ?n"; cases "w = ?n") (auto simp: find_push[OF assms] dest: sym)
  moreover have "m_size (push_var s) ! r = card {w. w < Suc ?n \<and> uf_find (push_var s) w = Some r}"
    if "r < Suc ?n" "is_root (push_var s) r" for r
  proof (cases "r = ?n")
    case True
    have "{w. w < Suc ?n \<and> uf_find (push_var s) w = Some r} = {?n}"
      using True never by (auto simp: find_push[OF assms])
    then show ?thesis using True d(1) by (simp add: nth_append)
  next
    case False
    with that have r: "r < ?n" "is_root s r" by (auto simp: is_root_def num_vars_def nth_append)
    have "{w. w < Suc ?n \<and> uf_find (push_var s) w = Some r} = {w. w < ?n \<and> uf_find s w = Some r}"
      using False by (auto simp: find_push[OF assms] dest: uf_find_root(1))
    then show ?thesis using d(6)[OF r] r d(1) by (simp add: nth_append)
  qed
  ultimately show ?thesis
    using d(1-3) unfolding uf_inv_def num_vars_push next_push[OF assms]
    by (auto simp: find_push[OF assms] less_Suc_eq)
qed

section \<open>Linking two roots\<close>

lemma link_tables [simp]:
  "m_find (link_roots r1 r2 s) = (m_find s)[r1 := r2]"
  "m_size (link_roots r1 r2 s) = (m_size s)[r2 := m_size s ! r2 + m_size s ! r1]"
  "m_next (link_roots r1 r2 s) = swap_next r1 r2 (m_next s)"
  "num_vars (link_roots r1 r2 s) = num_vars s"
  by (simp_all add: link_roots_def num_vars_def)

text \<open>What both \<^verbatim>\<open>merge\<close> functions know when they link.\<close>

definition distinct_roots :: "'a uf_tables_scheme \<Rightarrow> nat \<Rightarrow> nat \<Rightarrow> bool" where
  "distinct_roots s r1 r2 \<longleftrightarrow> r1 < num_vars s \<and> r2 < num_vars s \<and> is_root s r1 \<and> is_root s r2 \<and> r1 \<noteq> r2"

lemma distinct_roots_order:
  "distinct_roots s r1 r2 \<Longrightarrow> order_roots s r1 r2 = (q1, q2) \<Longrightarrow> distinct_roots s q1 q2"
  by (auto simp: distinct_roots_def order_roots_def split: if_splits)

lemma find_link:
  assumes "distinct_roots s r1 r2"
  shows "uf_find (link_roots r1 r2 s) v
    = map_option (\<lambda>r. if r = r1 then r2 else r) (uf_find s v)"
proof (cases "uf_find s v")
  case (Some r)
  then show ?thesis using find_loop_link[of "m_find s" v r r1 r2] assms
    by (auto simp: uf_find_def distinct_roots_def is_root_def num_vars_def)
next
  case None
  have "uf_find (link_roots r1 r2 s) v = None"
  proof (rule ccontr)
    assume "uf_find (link_roots r1 r2 s) v \<noteq> None"
    then obtain r where "find_loop ((m_find s)[r1 := r2]) v = Some r" by (auto simp: uf_find_def)
    then have "find_loop (m_find s) v \<noteq> None"
    proof (induction rule: find_loop_path)
      case (root v)
      then show ?case using assms
        by (cases "v = r1") (auto simp: distinct_roots_def num_vars_def is_root_def)
    next
      case (step v r)
      then show ?case using assms find_loop_parent[of v "m_find s"]
        by (cases "v = r1") (auto simp: distinct_roots_def num_vars_def is_root_def)
    qed
    with None show False by (simp add: uf_find_def)
  qed
  with None show ?thesis by simp
qed

lemma next_link:
  assumes "uf_inv s" "distinct_roots s r1 r2"
  shows "uf_next (link_roots r1 r2 s) = exchange (uf_next s) r1 r2"
  using assms uf_invD(2)[OF assms(1)]
  by (auto simp: fun_eq_iff uf_next_def exchange_def swap_next_def distinct_roots_def nth_list_update)

lemma uf_inv_link:
  assumes inv: "uf_inv s" and dr: "distinct_roots s r1 r2"
  shows "uf_inv (link_roots r1 r2 s)"
proof -
  let ?n = "num_vars s" and ?s = "link_roots r1 r2 s"
  note d = uf_invD[OF inv]
  have r: "r1 < ?n" "r2 < ?n" "uf_find s r1 = Some r1" "uf_find s r2 = Some r2" "r1 \<noteq> r2"
    using dr root_find by (auto simp: distinct_roots_def)
  have sep: "\<not> reaches (uf_next s) r1 r2" using d(5)[OF r(1,2)] r by simp
  have perm: "perm_below ?n (uf_next ?s)"
    unfolding next_link[OF inv dr] by (rule perm_exchange[OF d(4) r(1,2)])
  have cycles: "reaches (uf_next ?s) v w \<longleftrightarrow> uf_find ?s v = uf_find ?s w" if "v < ?n" "w < ?n" for v w
  proof -
    obtain x y where "uf_find s v = Some x" "uf_find s w = Some y" using d(3) \<open>v < ?n\<close> \<open>w < ?n\<close> by blast
    then show ?thesis
      unfolding next_link[OF inv dr] reaches_exchange[OF d(4) r(1,2) sep]
      using d(5)[OF that] d(5)[OF r(1) that(1)] d(5)[OF r(1) that(2)] d(5)[OF r(2) that(1)] d(5)[OF r(2) that(2)] r
      by (auto simp: find_link[OF dr])
  qed
  have sizes: "m_size ?s ! q = card {w. w < ?n \<and> uf_find ?s w = Some q}" if "q < ?n" "is_root ?s q" for q
  proof -
    have q: "q \<noteq> r1" "is_root s q" using that r dr
      by (auto simp: is_root_def distinct_roots_def num_vars_def nth_list_update split: if_splits)
    let ?C = "\<lambda>r. {w. w < ?n \<and> uf_find s w = Some r}"
    have "{w. w < ?n \<and> uf_find ?s w = Some q} = (if q = r2 then ?C r2 \<union> ?C r1 else ?C q)"
      using q(1) by (auto simp: find_link[OF dr] split: if_splits)
    moreover have "card (?C r2 \<union> ?C r1) = card (?C r2) + card (?C r1)"
      by (rule card_Un_disjoint) (use r(5) in auto)
    moreover have "m_size s ! r1 = card (?C r1)" "m_size s ! r2 = card (?C r2)"
      using d(6) dr by (simp_all add: distinct_roots_def)
    moreover have "m_size ?s ! q = (if q = r2 then m_size s ! r2 + m_size s ! r1 else m_size s ! q)"
      using that(1) d(1) by (simp add: nth_list_update)
    ultimately show ?thesis using d(6)[OF that(1) q(2)] by (cases "q = r2") simp_all
  qed
  show ?thesis
    using d(1-3) perm cycles sizes
    by (simp add: uf_inv_def find_link[OF dr] swap_next_def)
qed

end
