(* ===== verification/Union_Find_Merge.thy ===== *)
theory Union_Find_Merge
  imports Union_Find
begin

text \<open>
  The equivalence relation a union-find structure represents, the interface \<open>merger\<close> of its
  clients, and \<^verbatim>\<open>basic_union_find\<close> (union_find.h), which grows its vectors on demand and has no
  backtracking.
\<close>

section \<open>The relation and its closure\<close>

text \<open>The representative of a variable; a number beyond the vectors stands for itself.\<close>

definition rep :: "'a uf_tables_scheme \<Rightarrow> nat \<Rightarrow> nat option" where
  "rep s v = (if num_vars s \<le> v then Some v else uf_find s v)"

definition same_class :: "'a uf_tables_scheme \<Rightarrow> (nat \<times> nat) set" where
  "same_class s = {(x, y). rep s x = rep s y}"

definition join :: "(nat \<times> nat) set \<Rightarrow> nat \<Rightarrow> nat \<Rightarrow> (nat \<times> nat) set" where
  "join R a b = R \<union> {(x, y). ((a, x) \<in> R \<or> (b, x) \<in> R) \<and> ((a, y) \<in> R \<or> (b, y) \<in> R)}"

definition eq_closure :: "(nat \<times> nat) set \<Rightarrow> (nat \<times> nat) set" where
  "eq_closure R = (R \<union> R\<inverse>)\<^sup>*"

lemma equiv_same_class: "equiv UNIV (same_class s)"
  by (auto simp: same_class_def equiv_def refl_on_def sym_def trans_def)

lemma eq_closure_equiv: "equiv UNIV (eq_closure R)"
  unfolding eq_closure_def
  by (auto simp: equiv_def refl_on_def trans_rtrancl intro!: sym_rtrancl) (auto simp: sym_def)

lemma eq_closure_base: "R \<subseteq> eq_closure R"
  by (auto simp: eq_closure_def)

lemma eq_closure_least:
  assumes "R \<subseteq> S" "equiv UNIV S"
  shows "eq_closure R \<subseteq> S"
proof -
  have "R \<union> R\<inverse> \<subseteq> S" using assms by (auto simp: equiv_def sym_def)
  then have "(R \<union> R\<inverse>)\<^sup>* \<subseteq> S\<^sup>*" by (rule rtrancl_mono)
  moreover have "S\<^sup>* = S"
  proof -
    have "S\<^sup>* = S\<^sup>=" using assms(2) by (metis equivE rtrancl_trancl_reflcl trancl_id)
    then show ?thesis using assms(2) by (auto simp: equiv_def refl_on_def)
  qed
  ultimately show ?thesis by (simp add: eq_closure_def)
qed

lemma eq_closure_absorb: "eq_closure (eq_closure X \<union> Y) = eq_closure (X \<union> Y)"
proof
  have "eq_closure X \<subseteq> eq_closure (X \<union> Y)"
    using eq_closure_base[of "X \<union> Y"] by (intro eq_closure_least eq_closure_equiv) blast
  then show "eq_closure (eq_closure X \<union> Y) \<subseteq> eq_closure (X \<union> Y)"
    using eq_closure_base[of "X \<union> Y"] by (intro eq_closure_least eq_closure_equiv) blast
  show "eq_closure (X \<union> Y) \<subseteq> eq_closure (eq_closure X \<union> Y)"
    using eq_closure_base[of "eq_closure X \<union> Y"] eq_closure_base[of X]
    by (intro eq_closure_least eq_closure_equiv) blast
qed

lemma eq_closure_id: "equiv UNIV R \<Longrightarrow> eq_closure R = R"
  using eq_closure_least[of R R] eq_closure_base[of R] by blast

lemma equiv_symD: "equiv UNIV R \<Longrightarrow> (x, y) \<in> R \<Longrightarrow> (y, x) \<in> R"
  by (auto simp: equiv_def sym_def)

lemma equiv_transD: "equiv UNIV R \<Longrightarrow> (x, y) \<in> R \<Longrightarrow> (y, z) \<in> R \<Longrightarrow> (x, z) \<in> R"
  by (auto simp: equiv_def trans_def)

lemma equiv_reflD: "equiv UNIV R \<Longrightarrow> (x, x) \<in> R"
  by (auto simp: equiv_def refl_on_def)

lemma equiv_join:
  assumes R: "equiv UNIV R"
  shows "equiv UNIV (join R a b)"
proof (rule equivI)
  show "refl (join R a b)" using equiv_reflD[OF R] by (auto simp: refl_on_def join_def)
  show "sym (join R a b)" using equiv_symD[OF R] by (auto simp: sym_def join_def)
  show "trans (join R a b)"
  proof (rule transI)
    fix x y z assume "(x, y) \<in> join R a b" "(y, z) \<in> join R a b"
    then show "(x, z) \<in> join R a b"
      using equiv_symD[OF R] equiv_transD[OF R] unfolding join_def by blast
  qed
qed simp_all

lemma join_closure:
  assumes "equiv UNIV R"
  shows "join R a b = eq_closure (insert (a, b) R)"
proof
  let ?E = "eq_closure (insert (a, b) R)"
  note E = eq_closure_equiv[of "insert (a, b) R"]
  have sub: "R \<subseteq> ?E" "(a, b) \<in> ?E" using eq_closure_base[of "insert (a, b) R"] by auto
  have "(a, x) \<in> ?E" if "(a, x) \<in> R \<or> (b, x) \<in> R" for x
    using that sub equiv_transD[OF E sub(2)] by blast
  then show "join R a b \<subseteq> ?E"
    using sub(1) equiv_symD[OF E] equiv_transD[OF E] unfolding join_def by blast
  show "?E \<subseteq> join R a b"
    using equiv_reflD[OF assms] by (intro eq_closure_least equiv_join[OF assms]) (auto simp: join_def)
qed

text \<open>Joining related representatives is joining the elements.\<close>

lemma join_cong:
  assumes "equiv UNIV R" "(a, a') \<in> R" "(b, b') \<in> R"
  shows "join R a' b' = join R a b"
  using assms(2,3) equiv_symD[OF assms(1)] equiv_transD[OF assms(1)]
  unfolding join_def by blast

lemma join_commute: "join R a b = join R b a"
  by (auto simp: join_def)

lemma join_related: "equiv UNIV R \<Longrightarrow> (a, b) \<in> R \<Longrightarrow> join R a b = R"
  using eq_closure_id[of R] join_closure[of R a b] by (simp add: insert_absorb)

section \<open>The interface of a client that merges\<close>

fun merge_all :: "('s \<Rightarrow> nat \<Rightarrow> nat \<Rightarrow> 's option) \<Rightarrow> 's \<Rightarrow> (nat \<times> nat) list \<Rightarrow> 's option" where
  "merge_all mg s [] = Some s"
| "merge_all mg s ((a, b) # ps) = do {
     s' \<leftarrow> mg s a b;
     merge_all mg s' ps
   }"

locale merger =
  fixes inv :: "'s \<Rightarrow> bool" and valid :: "'s \<Rightarrow> nat \<Rightarrow> bool"
    and rel :: "'s \<Rightarrow> (nat \<times> nat) set" and mg :: "'s \<Rightarrow> nat \<Rightarrow> nat \<Rightarrow> 's option"
  assumes rel_equiv: "inv s \<Longrightarrow> equiv UNIV (rel s)"
    and mg_ok: "inv s \<Longrightarrow> valid s a \<Longrightarrow> valid s b \<Longrightarrow>
      \<exists>s'. mg s a b = Some s' \<and> inv s' \<and> (\<forall>v. valid s v \<longrightarrow> valid s' v) \<and> rel s' = join (rel s) a b"
begin

lemma merge_all_closure:
  assumes "inv s" "\<forall>(a, b) \<in> set ps. valid s a \<and> valid s b"
  shows "\<exists>s'. merge_all mg s ps = Some s' \<and> inv s' \<and> (\<forall>v. valid s v \<longrightarrow> valid s' v)
    \<and> rel s' = eq_closure (rel s \<union> set ps)"
  using assms
proof (induction ps arbitrary: s)
  case Nil
  then show ?case using eq_closure_id[OF rel_equiv[OF Nil(1)]] by simp
next
  case (Cons p ps)
  obtain a b where p: "p = (a, b)" by (cases p)
  then obtain s' where s': "mg s a b = Some s'" "inv s'" "\<forall>v. valid s v \<longrightarrow> valid s' v"
      "rel s' = join (rel s) a b"
    using mg_ok[OF Cons.prems(1), of a b] Cons.prems(2) by auto
  then have "\<forall>(a, b) \<in> set ps. valid s' a \<and> valid s' b" using Cons.prems(2) by fastforce
  with Cons.IH[OF s'(2)] obtain s'' where s'': "merge_all mg s' ps = Some s''" "inv s''"
      "\<forall>v. valid s' v \<longrightarrow> valid s'' v" "rel s'' = eq_closure (rel s' \<union> set ps)" by blast
  have "rel s'' = eq_closure (insert (a, b) (rel s) \<union> set ps)"
    unfolding s''(4) s'(4) join_closure[OF rel_equiv[OF Cons.prems(1)]] eq_closure_absorb ..
  then show ?case using s' s'' p by simp
qed

end

section \<open>basic_union_find\<close>

definition basic_find :: "'a uf_tables_scheme \<Rightarrow> nat \<Rightarrow> nat option" where
  "basic_find s v = (if num_vars s \<le> v then Some v else find_loop (m_find s) v)"

definition basic_next :: "'a uf_tables_scheme \<Rightarrow> nat \<Rightarrow> nat" where
  "basic_next s v = (if num_vars s \<le> v then v else m_next s ! v)"

definition basic_is_root :: "'a uf_tables_scheme \<Rightarrow> nat \<Rightarrow> bool" where
  "basic_is_root s v = (num_vars s \<le> v \<or> m_find s ! v = v)"

definition basic_mk_var :: "uf_tables \<Rightarrow> nat \<times> uf_tables" where
  "basic_mk_var s = (num_vars s, push_var s)"

function ensure_size :: "nat \<Rightarrow> uf_tables \<Rightarrow> uf_tables" where
  "ensure_size v s = (if num_vars s \<le> v then ensure_size v (snd (basic_mk_var s)) else s)"
  by auto

termination ensure_size
  by (relation "measure (\<lambda>(v, s). Suc v - num_vars s)") (auto simp: basic_mk_var_def)

declare ensure_size.simps [simp del]

definition basic_merge :: "uf_tables \<Rightarrow> nat \<Rightarrow> nat \<Rightarrow> uf_tables option" where
  "basic_merge s v1 v2 = do {
     r1 \<leftarrow> basic_find s v1;
     r2 \<leftarrow> basic_find s v2;
     if r1 = r2 then Some s
     else
       let s' = ensure_size v2 (ensure_size v1 s);
           (q1, q2) = order_roots s' r1 r2
       in Some (link_roots q1 q2 s')
   }"

definition basic_reset :: "uf_tables" where
  "basic_reset = \<lparr>m_find = [], m_size = [], m_next = []\<rparr>"

lemma basic_find_rep: "basic_find s v = rep s v"
  by (simp add: basic_find_def rep_def uf_find_def)

lemma rep_push: "uf_inv s \<Longrightarrow> rep (push_var s) v = rep s v"
  by (auto simp: rep_def find_push)

lemma rep_Some: "uf_inv s \<Longrightarrow> \<exists>r. rep s v = Some r"
  using uf_invD(3)[of s v] by (auto simp: rep_def)

lemma rep_root:
  assumes "rep s v = Some r"
  shows "rep s r = Some r" "v < num_vars s \<Longrightarrow> r < num_vars s" "r < num_vars s \<Longrightarrow> is_root s r"
  using assms uf_find_root[of s v r] by (auto simp: rep_def split: if_splits)

lemma rep_link:
  assumes "distinct_roots s r1 r2"
  shows "rep (link_roots r1 r2 s) v = map_option (\<lambda>r. if r = r1 then r2 else r) (rep s v)"
  using assms by (auto simp: rep_def find_link distinct_roots_def)

lemma same_class_link:
  assumes "uf_inv s" "distinct_roots s r1 r2"
  shows "same_class (link_roots r1 r2 s) = join (same_class s) r1 r2"
proof -
  have r: "rep s r1 = Some r1" "rep s r2 = Some r2"
    using assms(2) root_find by (auto simp: distinct_roots_def rep_def)
  have "(x, y) \<in> same_class (link_roots r1 r2 s) \<longleftrightarrow> (x, y) \<in> join (same_class s) r1 r2" for x y
  proof -
    obtain u v where "rep s x = Some u" "rep s y = Some v" using rep_Some[OF assms(1)] by metis
    then show ?thesis using r by (auto simp: same_class_def join_def rep_link[OF assms(2)])
  qed
  then show ?thesis by auto
qed

lemma ensure_size_ok:
  "uf_inv s \<Longrightarrow> uf_inv (ensure_size v s) \<and> v < num_vars (ensure_size v s)
    \<and> num_vars s \<le> num_vars (ensure_size v s) \<and> (\<forall>w. rep (ensure_size v s) w = rep s w)"
proof (induction v s rule: ensure_size.induct)
  case (1 v s)
  show ?case
  proof (cases "num_vars s \<le> v")
    case True
    then have "ensure_size v s = ensure_size v (push_var s)"
      by (subst ensure_size.simps) (simp add: basic_mk_var_def)
    moreover note 1(1)[OF True, unfolded basic_mk_var_def snd_conv, OF uf_inv_push[OF 1(2)]]
    ultimately show ?thesis using rep_push[OF 1(2)] by simp
  next
    case False
    then show ?thesis using 1(2) by (simp add: ensure_size.simps)
  qed
qed

text \<open>Linking the representatives of two elements that are not yet in one class.\<close>

lemma link_classes:
  assumes inv: "uf_inv s" and v: "v1 < num_vars s" "v2 < num_vars s"
    and r: "rep s v1 = Some r1" "rep s v2 = Some r2" "r1 \<noteq> r2" and q: "order_roots s r1 r2 = (q1, q2)"
  shows "distinct_roots s q1 q2" "same_class (link_roots q1 q2 s) = join (same_class s) v1 v2"
proof -
  have "distinct_roots s r1 r2"
    using rep_root[OF r(1)] rep_root[OF r(2)] v r(3) by (simp add: distinct_roots_def)
  then show dq: "distinct_roots s q1 q2" by (rule distinct_roots_order) (rule q)
  have "same_class (link_roots q1 q2 s) = join (same_class s) r1 r2"
    using same_class_link[OF inv dq] q by (auto simp: order_roots_def join_commute split: if_splits)
  also have "\<dots> = join (same_class s) v1 v2"
    by (rule join_cong[OF equiv_same_class])
      (use rep_root(1)[OF r(1)] rep_root(1)[OF r(2)] r in \<open>auto simp: same_class_def\<close>)
  finally show "same_class (link_roots q1 q2 s) = join (same_class s) v1 v2" .
qed

lemma basic_merge_correct:
  assumes inv: "uf_inv s"
  shows "\<exists>s'. basic_merge s v1 v2 = Some s' \<and> uf_inv s' \<and> same_class s' = join (same_class s) v1 v2"
proof -
  obtain r1 r2 where r: "rep s v1 = Some r1" "rep s v2 = Some r2" using rep_Some[OF inv] by metis
  show ?thesis
  proof (cases "r1 = r2")
    case True
    then show ?thesis using inv r join_related[OF equiv_same_class, of v1 v2 s]
      by (simp add: basic_merge_def basic_find_rep same_class_def)
  next
    case False
    define t where "t = ensure_size v2 (ensure_size v1 s)"
    note e1 = ensure_size_ok[OF inv, of v1]
    note e2 = ensure_size_ok[OF e1[THEN conjunct1], of v2]
    have t: "uf_inv t" "v1 < num_vars t" "v2 < num_vars t" "\<And>w. rep t w = rep s w"
      using e1 e2 by (auto simp: t_def)
    obtain q1 q2 where q: "order_roots t r1 r2 = (q1, q2)" by fastforce
    note l = link_classes[OF t(1-3) _ _ False q, unfolded t(4), OF r]
    have "same_class t = same_class s" by (simp add: same_class_def t(4))
    with l uf_inv_link[OF t(1) l(1)] show ?thesis
      using False r q by (simp add: basic_merge_def basic_find_rep Let_def flip: t_def)
  qed
qed

lemma uf_inv_reset: "uf_inv basic_reset" and same_class_reset: "same_class basic_reset = Id"
  by (auto simp: uf_inv_def basic_reset_def num_vars_def perm_below_def uf_next_def inj_def
      same_class_def rep_def)

interpretation basic_uf: merger uf_inv "\<lambda>s v. True" same_class basic_merge
  by unfold_locales (use basic_merge_correct equiv_same_class in auto)

end
