(* ===== verification/Union_Find_Trail.thy ===== *)
theory Union_Find_Trail
  imports Union_Find_Merge
begin

text \<open>
  \<^verbatim>\<open>union_find\<close> with its default context (union_find.h) and the \<^verbatim>\<open>trail_stack\<close> that undoes
  its updates (trail.h): scopes are sizes of the trail, and popping one runs the undo functions
  of the trail objects above it, newest first. The event handlers of the default context do
  nothing; regions and allocation are left out.
\<close>

section \<open>State and operations\<close>

datatype uf_trail = MkVarTrail | MergeTrail nat

record union_find = uf_tables +
  m_trail_stack :: "uf_trail list"
  m_scopes :: "nat list"

definition new_union_find :: union_find where
  "new_union_find = \<lparr>m_find = [], m_size = [], m_next = [], m_trail_stack = [], m_scopes = []\<rparr>"

definition push_trail :: "uf_trail \<Rightarrow> union_find \<Rightarrow> union_find" where
  "push_trail t s = s\<lparr>m_trail_stack := m_trail_stack s @ [t]\<rparr>"

definition mk_var :: "union_find \<Rightarrow> nat \<times> union_find" where
  "mk_var s = (let r = num_vars s in (r, push_trail MkVarTrail (push_var s)))"

definition merge :: "union_find \<Rightarrow> nat \<Rightarrow> nat \<Rightarrow> union_find option" where
  "merge s v1 v2 = do {
     r1 \<leftarrow> uf_find s v1;
     r2 \<leftarrow> uf_find s v2;
     if r1 = r2 then Some s
     else
       let (r1, r2) = order_roots s r1 r2
       in Some (push_trail (MergeTrail r1) (link_roots r1 r2 s))
   }"

definition undo_mk_var :: "union_find \<Rightarrow> union_find" where
  "undo_mk_var s = s\<lparr>m_find := butlast (m_find s), m_size := butlast (m_size s), m_next := butlast (m_next s)\<rparr>"

fun undo :: "uf_trail \<Rightarrow> union_find \<Rightarrow> union_find option" where
  "undo MkVarTrail s = Some (undo_mk_var s)"
| "undo (MergeTrail r1) s = unmerge r1 s"

text \<open>The loop of \<^verbatim>\<open>undo_trail_stack\<close> runs from the end of the trail down to \<open>old_size\<close>.\<close>

fun undo_loop :: "uf_trail list \<Rightarrow> union_find \<Rightarrow> union_find option" where
  "undo_loop [] s = Some s"
| "undo_loop (t # ts) s = do {
     s' \<leftarrow> undo t s;
     undo_loop ts s'
   }"

definition undo_trail_stack :: "nat \<Rightarrow> union_find \<Rightarrow> union_find option" where
  "undo_trail_stack old_size s =
     (if old_size \<le> length (m_trail_stack s) then do {
        s' \<leftarrow> undo_loop (rev (drop old_size (m_trail_stack s))) s;
        Some (s'\<lparr>m_trail_stack := take old_size (m_trail_stack s')\<rparr>)
      } else None)"

definition push_scope :: "union_find \<Rightarrow> union_find" where
  "push_scope s = s\<lparr>m_scopes := m_scopes s @ [length (m_trail_stack s)]\<rparr>"

definition pop_scope :: "nat \<Rightarrow> union_find \<Rightarrow> union_find option" where
  "pop_scope num_scopes s =
     (if num_scopes = 0 then Some s
      else
        let lvl = length (m_scopes s) in
        if num_scopes \<le> lvl then
          let new_lvl = lvl - num_scopes;
              old_size = m_scopes s ! new_lvl
          in do {
            s' \<leftarrow> undo_trail_stack old_size s;
            Some (s'\<lparr>m_scopes := take new_lvl (m_scopes s')\<rparr>)
          }
        else None)"

definition reset_trail :: "union_find \<Rightarrow> union_find option" where
  "reset_trail s = do {
     s' \<leftarrow> pop_scope (length (m_scopes s)) s;
     undo_trail_stack 0 s'
   }"

text \<open>The steps a client can take: reads have no effect, \<open>merge\<close> is called on variables, and at
  most the open scopes are popped.\<close>

inductive uf_step :: "union_find \<Rightarrow> union_find \<Rightarrow> bool" where
  step_mk_var: "mk_var s = (r, s') \<Longrightarrow> uf_step s s'"
| step_merge: "v1 < num_vars s \<Longrightarrow> v2 < num_vars s \<Longrightarrow> merge s v1 v2 = Some s' \<Longrightarrow> uf_step s s'"
| step_push: "uf_step s (push_scope s)"
| step_pop: "n \<le> length (m_scopes s) \<Longrightarrow> pop_scope n s = Some s' \<Longrightarrow> uf_step s s'"

inductive_cases uf_stepE: "uf_step s s'"

inductive uf_reachable :: "union_find \<Rightarrow> bool" where
  reach_new: "uf_reachable new_union_find"
| reach_step: "uf_reachable s \<Longrightarrow> uf_step s s' \<Longrightarrow> uf_reachable s'"

section \<open>Undoing a step\<close>

lemma reads_cong:
  assumes "m_find s = m_find t" "m_size s = m_size t" "m_next s = m_next t"
  shows "uf_find s = uf_find t" "uf_next s = uf_next t" "num_vars s = num_vars t" "is_root s = is_root t"
    "rep s = rep t"
  using assms by (auto simp: fun_eq_iff uf_find_def uf_next_def num_vars_def is_root_def rep_def)

lemma uf_inv_fields [simp]:
  "uf_inv (s\<lparr>m_trail_stack := x\<rparr>) = uf_inv s" "uf_inv (s\<lparr>m_scopes := y\<rparr>) = uf_inv s"
  using reads_cong[of "s\<lparr>m_trail_stack := x\<rparr>" s] reads_cong[of "s\<lparr>m_scopes := y\<rparr>" s]
  by (simp_all add: uf_inv_def)

lemma same_class_fields [simp]:
  "same_class (s\<lparr>m_trail_stack := x\<rparr>) = same_class s" "same_class (s\<lparr>m_scopes := y\<rparr>) = same_class s"
  using reads_cong[of "s\<lparr>m_trail_stack := x\<rparr>" s] reads_cong[of "s\<lparr>m_scopes := y\<rparr>" s]
  by (simp_all add: same_class_def)

lemma num_vars_fields [simp]:
  "num_vars (s\<lparr>m_trail_stack := x\<rparr>) = num_vars s" "num_vars (s\<lparr>m_scopes := y\<rparr>) = num_vars s"
  by (simp_all add: num_vars_def)

lemma swap_next_twice: "a < length ns \<Longrightarrow> b < length ns \<Longrightarrow> swap_next a b (swap_next a b ns) = ns"
  by (intro nth_equalityI) (auto simp: swap_next_def nth_list_update)

text \<open>\<^verbatim>\<open>unmerge\<close> gives back exactly the vectors before the link.\<close>

lemma unmerge_link:
  fixes s :: "'a uf_tables_scheme"
  assumes "uf_inv s" "distinct_roots s r1 r2"
  shows "unmerge r1 (link_roots r1 r2 s) = Some s"
proof -
  note d = uf_invD(1,2)[OF assms(1)]
  have r: "r1 < length (m_find s)" "r2 < length (m_find s)" "m_find s ! r1 = r1" "r1 \<noteq> r2"
    using assms(2) by (auto simp: distinct_roots_def num_vars_def is_root_def)
  have "swap_next r1 r2 (swap_next r1 r2 (m_next s)) = m_next s"
    using r d by (intro swap_next_twice) (simp_all add: num_vars_def)
  moreover have "(m_find s)[r1 := r2, r1 := r1] = m_find s" using r by (metis list_update_id list_update_overwrite)
  moreover have "(m_size s)[r2 := m_size s ! r2 + m_size s ! r1, r2 := m_size s ! r2] = m_size s" by simp
  ultimately show ?thesis
    using r d by (simp add: unmerge_def link_roots_def num_vars_def)
qed

lemma undo_mk_var_push: "undo_mk_var (push_var s) = s"
  by (simp add: undo_mk_var_def push_var_def Let_def)

text \<open>The undo functions neither read nor write the trail and the scopes.\<close>

lemma undo_fields:
  "undo t (s\<lparr>m_trail_stack := x\<rparr>) = map_option (\<lambda>s. s\<lparr>m_trail_stack := x\<rparr>) (undo t s)"
  "undo t (s\<lparr>m_scopes := y\<rparr>) = map_option (\<lambda>s. s\<lparr>m_scopes := y\<rparr>) (undo t s)"
  by (cases t; simp add: undo_mk_var_def unmerge_def Let_def)+

lemma undo_loop_fields:
  "undo_loop ts (s\<lparr>m_trail_stack := x\<rparr>) = map_option (\<lambda>s. s\<lparr>m_trail_stack := x\<rparr>) (undo_loop ts s)"
  "undo_loop ts (s\<lparr>m_scopes := y\<rparr>) = map_option (\<lambda>s. s\<lparr>m_scopes := y\<rparr>) (undo_loop ts s)"
  by (induction ts arbitrary: s) (auto simp: undo_fields split: Option.bind_splits)

lemma undo_loop_trail: "undo_loop ts s = Some s' \<Longrightarrow> m_trail_stack s' = m_trail_stack s \<and> m_scopes s' = m_scopes s"
proof -
  assume "undo_loop ts s = Some s'"
  moreover have "undo_loop ts s = undo_loop ts (s\<lparr>m_trail_stack := m_trail_stack s\<rparr>)"
    "undo_loop ts s = undo_loop ts (s\<lparr>m_scopes := m_scopes s\<rparr>)" by simp_all
  ultimately have "s' = s'\<lparr>m_trail_stack := m_trail_stack s\<rparr>" "s' = s'\<lparr>m_scopes := m_scopes s\<rparr>"
    unfolding undo_loop_fields by auto
  then show ?thesis by (metis union_find.select_convs union_find.surjective union_find.update_convs)
qed

section \<open>Histories\<close>

lemma undo_to_now [simp]: "undo_trail_stack (length (m_trail_stack s)) s = Some s"
  by (simp add: undo_trail_stack_def)

lemma undo_to_scopes:
  "undo_trail_stack k (s\<lparr>m_scopes := y\<rparr>) = map_option (\<lambda>s. s\<lparr>m_scopes := y\<rparr>) (undo_trail_stack k s)"
  by (auto simp: undo_trail_stack_def undo_loop_fields split: Option.bind_splits)

lemma undo_to_trail:
  assumes "undo_trail_stack k s = Some s'"
  shows "m_trail_stack s' = take k (m_trail_stack s)" "m_scopes s' = m_scopes s" "k \<le> length (m_trail_stack s)"
  using assms undo_loop_trail by (auto simp: undo_trail_stack_def split: if_splits Option.bind_splits)

lemma undo_loop_append: "undo_loop (ts @ us) s = Option.bind (undo_loop ts s) (undo_loop us)"
  by (induction ts arbitrary: s) (auto split: Option.bind_splits)

lemma undo_to_undo_to:
  assumes s': "undo_trail_stack m s = Some s'" and k: "k \<le> m"
  shows "undo_trail_stack k s' = undo_trail_stack k s"
proof -
  let ?tr = "m_trail_stack s"
  note t = undo_to_trail[OF s']
  obtain u where u: "undo_loop (rev (drop m ?tr)) s = Some u" "s' = u\<lparr>m_trail_stack := take m ?tr\<rparr>"
    using s' undo_loop_trail by (auto simp: undo_trail_stack_def split: if_splits Option.bind_splits)
  have "drop k ?tr = drop k (take m ?tr) @ drop m ?tr"
    using k t(3) by (metis append_take_drop_id drop_append length_take min.absorb2 diff_is_0_eq drop0)
  then have "undo_loop (rev (drop k ?tr)) s = undo_loop (rev (drop k (take m ?tr))) u"
    by (simp add: undo_loop_append u(1))
  moreover have "m_trail_stack u = ?tr" using undo_loop_trail[OF u(1)] by simp
  ultimately show ?thesis
    using k t(3) undo_loop_trail
    by (auto simp: undo_trail_stack_def u(2) undo_loop_fields min_def split: Option.bind_splits)
qed

text \<open>Undoing the newest trail object of a state that an operation has pushed.\<close>

lemma undo_to_push_trail:
  assumes "undo t s' = Some s" "m_trail_stack s' = m_trail_stack s" "k \<le> length (m_trail_stack s)"
  shows "undo_trail_stack k (push_trail t s') = undo_trail_stack k s"
proof -
  have "undo_loop (rev (drop k (m_trail_stack s @ [t]))) (push_trail t s') =
    map_option (\<lambda>s'. s'\<lparr>m_trail_stack := m_trail_stack s @ [t]\<rparr>) (undo_loop (rev (drop k (m_trail_stack s))) s)"
    using assms by (simp add: push_trail_def undo_fields undo_loop_fields)
  then show ?thesis using assms undo_loop_trail
    by (auto simp: undo_trail_stack_def push_trail_def split: Option.bind_splits)
qed

lemma undo_to_mk_var:
  assumes "mk_var s = (r, s')" "k \<le> length (m_trail_stack s)"
  shows "undo_trail_stack k s' = undo_trail_stack k s"
proof -
  have "m_trail_stack (push_var s) = m_trail_stack s" by (simp add: push_var_def Let_def)
  then show ?thesis
    using assms undo_to_push_trail[of MkVarTrail "push_var s" s k] undo_mk_var_push[of s]
    by (auto simp: mk_var_def Let_def)
qed

text \<open>A merge either does nothing or pushes a link.\<close>

lemma merge_cases:
  assumes "uf_inv s" "v1 < num_vars s" "v2 < num_vars s"
  obtains "(v1, v2) \<in> same_class s" "merge s v1 v2 = Some s"
  | q1 q2 where "(v1, v2) \<notin> same_class s" "distinct_roots s q1 q2"
      "merge s v1 v2 = Some (push_trail (MergeTrail q1) (link_roots q1 q2 s))"
      "same_class (link_roots q1 q2 s) = join (same_class s) v1 v2"
proof -
  obtain r1 r2 where r: "uf_find s v1 = Some r1" "uf_find s v2 = Some r2"
    using uf_invD(3)[OF assms(1)] assms(2,3) by blast
  then have rep: "rep s v1 = Some r1" "rep s v2 = Some r2" using assms(2,3) by (simp_all add: rep_def)
  show thesis
  proof (cases "r1 = r2")
    case True
    then show thesis using that(1) r rep by (simp add: merge_def same_class_def)
  next
    case False
    obtain q1 q2 where q: "order_roots s r1 r2 = (q1, q2)" by fastforce
    note l = link_classes[OF assms rep False q]
    show thesis by (rule that(2)[OF _ l(1) _ l(2)]) (use r rep False q in \<open>simp_all add: merge_def same_class_def\<close>)
  qed
qed

lemma link_trail [simp]: "m_trail_stack (link_roots a b s) = m_trail_stack s" "m_scopes (link_roots a b s) = m_scopes s"
  by (simp_all add: link_roots_def)

lemma push_var_trail [simp]: "m_trail_stack (push_var s) = m_trail_stack s" "m_scopes (push_var s) = m_scopes s"
  by (simp_all add: push_var_def Let_def)

lemma undo_to_merge:
  assumes "uf_inv s" "v1 < num_vars s" "v2 < num_vars s" "merge s v1 v2 = Some s'" "k \<le> length (m_trail_stack s)"
  shows "undo_trail_stack k s' = undo_trail_stack k s"
  using assms(1-3)
proof (cases rule: merge_cases)
  case (2 q1 q2)
  then show ?thesis
    using assms(4,5) undo_to_push_trail[of "MergeTrail q1" "link_roots q1 q2 s" s k] unmerge_link[OF assms(1) 2(2)]
    by simp
qed (use assms(4) in simp)

section \<open>The invariant of reachable states\<close>

text \<open>States built by variables and merges, with any scopes: every shorter history is built too.\<close>

inductive built :: "union_find \<Rightarrow> bool" where
  built_new: "built new_union_find"
| built_mk_var: "built s \<Longrightarrow> mk_var s = (r, s') \<Longrightarrow> built s'"
| built_merge: "built s \<Longrightarrow> v1 < num_vars s \<Longrightarrow> v2 < num_vars s \<Longrightarrow> merge s v1 v2 = Some s' \<Longrightarrow> built s'"
| built_scopes: "built s \<Longrightarrow> built (s\<lparr>m_scopes := y\<rparr>)"

lemma same_class_push: "uf_inv s \<Longrightarrow> same_class (push_var s) = same_class s"
  by (simp add: same_class_def rep_push)

lemma mk_var_result:
  "mk_var s = (r, s') \<Longrightarrow> uf_inv s \<Longrightarrow> uf_inv s' \<and> m_trail_stack s' = m_trail_stack s @ [MkVarTrail]
    \<and> m_scopes s' = m_scopes s \<and> num_vars s' = Suc (num_vars s) \<and> r = num_vars s \<and> same_class s' = same_class s"
  by (drule sym) (simp add: mk_var_def push_trail_def Let_def uf_inv_push same_class_push)

lemma merge_result:
  assumes "uf_inv s" "v1 < num_vars s" "v2 < num_vars s"
  shows "\<exists>s'. merge s v1 v2 = Some s' \<and> uf_inv s' \<and> num_vars s' = num_vars s \<and> m_scopes s' = m_scopes s
    \<and> (s' = s \<or> (\<exists>t. m_trail_stack s' = m_trail_stack s @ [t])) \<and> same_class s' = join (same_class s) v1 v2"
  using assms
proof (cases rule: merge_cases)
  case 1
  then show ?thesis using assms(1) join_related[OF equiv_same_class] by auto
next
  case (2 q1 q2)
  then show ?thesis using uf_inv_link[OF assms(1) 2(2)] by (auto simp: push_trail_def)
qed

lemma built_inv: "built s \<Longrightarrow> uf_inv s"
proof (induction rule: built.induct)
  case built_new
  show ?case using uf_inv_reset by (simp add: uf_inv_def new_union_find_def basic_reset_def num_vars_def
        uf_find_def uf_next_def[abs_def])
next
  case (built_merge s v1 v2 s')
  then show ?case using merge_result[OF built_merge.IH, of v1 v2] by auto
qed (use mk_var_result in auto)

lemma built_undo: "built s \<Longrightarrow> k \<le> length (m_trail_stack s) \<Longrightarrow> \<exists>s'. undo_trail_stack k s = Some s' \<and> built s'"
proof (induction rule: built.induct)
  case built_new
  then show ?case using built.built_new undo_to_now[of new_union_find] by (simp add: new_union_find_def)
next
  case (built_mk_var s r s')
  note res = mk_var_result[OF built_mk_var(2) built_inv[OF built_mk_var(1)]]
  show ?case
  proof (cases "k \<le> length (m_trail_stack s)")
    case True
    then show ?thesis using built_mk_var.IH undo_to_mk_var[OF built_mk_var(2)] by simp
  next
    case False
    then have "k = length (m_trail_stack s')" using built_mk_var.prems res by simp
    then show ?thesis using built.built_mk_var[OF built_mk_var(1,2)] by simp
  qed
next
  case (built_merge s v1 v2 s')
  note inv = built_inv[OF built_merge(1)]
  note res = merge_result[OF inv built_merge(2,3)]
  show ?case
  proof (cases "k \<le> length (m_trail_stack s)")
    case True
    then show ?thesis using built_merge.IH undo_to_merge[OF inv built_merge(2-4)] by simp
  next
    case False
    then have "k = length (m_trail_stack s')" using built_merge res by auto
    then show ?thesis using built.built_merge[OF built_merge(1-4)] by simp
  qed
next
  case (built_scopes s y)
  then show ?case using built.built_scopes by (auto simp: undo_to_scopes)
qed

definition scopes_ok :: "union_find \<Rightarrow> bool" where
  "scopes_ok s \<longleftrightarrow> sorted (m_scopes s) \<and> (\<forall>k \<in> set (m_scopes s). k \<le> length (m_trail_stack s))"

text \<open>Popping scopes of a built state succeeds.\<close>

lemma pop_scope_result:
  assumes "built s" "scopes_ok s" "0 < n" "n \<le> length (m_scopes s)"
  obtains s' where "pop_scope n s = Some (s'\<lparr>m_scopes := take (length (m_scopes s) - n) (m_scopes s)\<rparr>)"
    "undo_trail_stack (m_scopes s ! (length (m_scopes s) - n)) s = Some s'" "built s'"
proof -
  let ?k = "m_scopes s ! (length (m_scopes s) - n)"
  have "?k \<in> set (m_scopes s)" using assms by simp
  then have "?k \<le> length (m_trail_stack s)" using assms(2) by (simp add: scopes_ok_def)
  then obtain s' where s': "undo_trail_stack ?k s = Some s'" "built s'" using built_undo[OF assms(1)] by blast
  show thesis by (rule that[OF _ s']) (use s' undo_to_trail[OF s'(1)] assms in \<open>simp add: pop_scope_def Let_def\<close>)
qed

lemma scopes_ok_pop:
  assumes "scopes_ok s" "l < length (m_scopes s)" "undo_trail_stack (m_scopes s ! l) s = Some s'"
  shows "scopes_ok (s'\<lparr>m_scopes := take l (m_scopes s)\<rparr>)"
proof -
  note t = undo_to_trail[OF assms(3)]
  have "k \<le> m_scopes s ! l" if k: "k \<in> set (take l (m_scopes s))" for k
  proof -
    obtain i where "i < l" "k = m_scopes s ! i" using k assms(2) by (auto simp: in_set_conv_nth)
    then show ?thesis using assms(1,2) by (simp add: scopes_ok_def sorted_nth_mono)
  qed
  then show ?thesis using assms(1) t by (auto simp: scopes_ok_def sorted_wrt_take)
qed

lemma step_keeps:
  assumes "uf_step s s'" "built s" "scopes_ok s"
  shows "built s' \<and> scopes_ok s'"
  using assms(1)
proof cases
  case (step_mk_var r)
  then show ?thesis using mk_var_result[OF step_mk_var built_inv[OF assms(2)]] assms(3) built_mk_var[OF assms(2)]
    by (auto simp: scopes_ok_def intro: le_SucI)
next
  case (step_merge v1 v2)
  moreover have "scopes_ok s'"
    using merge_result[OF built_inv[OF assms(2)] step_merge(1,2)] step_merge(3) assms(3)
    by (auto simp: scopes_ok_def intro: le_SucI)
  ultimately show ?thesis using built_merge[OF assms(2)] by blast
next
  case step_push
  then show ?thesis using assms(2,3)
    by (auto simp: push_scope_def scopes_ok_def sorted_append intro: built_scopes)
next
  case (step_pop n)
  show ?thesis
  proof (cases "n = 0")
    case False
    obtain t where t: "pop_scope n s = Some (t\<lparr>m_scopes := take (length (m_scopes s) - n) (m_scopes s)\<rparr>)"
      "undo_trail_stack (m_scopes s ! (length (m_scopes s) - n)) s = Some t" "built t"
      using pop_scope_result[OF assms(2,3) _ step_pop(1)] False by blast
    then show ?thesis
      using step_pop False scopes_ok_pop[OF assms(3) _ t(2)] built_scopes[OF t(3)] by simp
  qed (use step_pop assms in \<open>simp add: pop_scope_def\<close>)
qed

lemma reachable_built: "uf_reachable s \<Longrightarrow> built s \<and> scopes_ok s"
proof (induction rule: uf_reachable.induct)
  case reach_new
  show ?case using built_new by (simp add: scopes_ok_def new_union_find_def)
next
  case (reach_step s s')
  then show ?case using step_keeps by blast
qed

section \<open>Popping scopes restores the state\<close>

text \<open>A run from \<open>s\<close> inside the scope at level \<open>l\<close>: no state of it has that scope popped.\<close>

inductive runs_above :: "nat \<Rightarrow> union_find \<Rightarrow> union_find \<Rightarrow> bool" for l where
  runs_refl: "runs_above l s s"
| runs_step: "runs_above l s s' \<Longrightarrow> uf_step s' s'' \<Longrightarrow> l < length (m_scopes s'') \<Longrightarrow> runs_above l s s''"

text \<open>What holds inside a scope opened in \<open>s0\<close>: undoing the trail down to it gives \<open>s0\<close>.\<close>

definition in_scope_of :: "union_find \<Rightarrow> union_find \<Rightarrow> bool" where
  "in_scope_of s0 s \<longleftrightarrow> built s \<and> scopes_ok s
     \<and> length (m_scopes s0) < length (m_scopes s)
     \<and> take (Suc (length (m_scopes s0))) (m_scopes s) = m_scopes s0 @ [length (m_trail_stack s0)]
     \<and> undo_trail_stack (length (m_trail_stack s0)) s = Some (s0\<lparr>m_scopes := m_scopes s\<rparr>)"

lemma in_scope_same_scopes:
  assumes "in_scope_of s0 s" "uf_step s s'" "m_scopes s' = m_scopes s"
    and "undo_trail_stack (length (m_trail_stack s0)) s' = undo_trail_stack (length (m_trail_stack s0)) s"
  shows "in_scope_of s0 s'"
  using assms step_keeps[OF assms(2)] by (simp add: in_scope_of_def)

lemma in_scope_pop:
  assumes "in_scope_of s0 s" "uf_step s s'" "0 < n" "n \<le> length (m_scopes s)" "pop_scope n s = Some s'"
    and "length (m_scopes s0) < length (m_scopes s')"
  shows "in_scope_of s0 s'"
proof -
  let ?l = "length (m_scopes s0)" and ?k = "length (m_trail_stack s0)" and ?m = "length (m_scopes s) - n"
  have b: "built s" "scopes_ok s" using assms(1) by (simp_all add: in_scope_of_def)
  obtain t where t: "s' = t\<lparr>m_scopes := take ?m (m_scopes s)\<rparr>" "undo_trail_stack (m_scopes s ! ?m) s = Some t"
    using pop_scope_result[OF b assms(3,4)] assms(5) by (metis option.inject)
  have m: "Suc ?l \<le> ?m" using assms(6) t(1) by simp
  have "m_scopes s ! ?l = take (Suc ?l) (m_scopes s) ! ?l" by simp
  also have "\<dots> = ?k" using assms(1) by (simp add: in_scope_of_def nth_append)
  finally have "m_scopes s ! ?l = ?k" .
  moreover have "m_scopes s ! ?l \<le> m_scopes s ! ?m"
    using b(2) m assms(3,4) by (intro sorted_nth_mono) (auto simp: scopes_ok_def)
  ultimately have "undo_trail_stack ?k t = undo_trail_stack ?k s"
    using undo_to_undo_to[OF t(2)] by simp
  then have "undo_trail_stack ?k s' = Some (s0\<lparr>m_scopes := m_scopes s'\<rparr>)"
    using assms(1) by (simp add: t(1) undo_to_scopes in_scope_of_def)
  moreover have "take (Suc ?l) (m_scopes s') = take (Suc ?l) (m_scopes s)"
    using m by (simp add: t(1) min_def)
  ultimately show ?thesis
    using assms(1,6) step_keeps[OF assms(2) b] by (simp add: in_scope_of_def)
qed

lemma in_scope_step:
  assumes "in_scope_of s0 s" "uf_step s s'" "length (m_scopes s0) < length (m_scopes s')"
  shows "in_scope_of s0 s'"
proof -
  let ?k = "length (m_trail_stack s0)"
  have b: "built s" "scopes_ok s" and u: "undo_trail_stack ?k s = Some (s0\<lparr>m_scopes := m_scopes s\<rparr>)"
    using assms(1) by (simp_all add: in_scope_of_def)
  note inv = built_inv[OF b(1)] and k = undo_to_trail(3)[OF u]
  from assms(2) show ?thesis
  proof cases
    case (step_mk_var r)
    then show ?thesis
      using in_scope_same_scopes[OF assms(1,2)] mk_var_result[OF step_mk_var inv] undo_to_mk_var[OF step_mk_var k]
      by simp
  next
    case (step_merge v1 v2)
    have "m_scopes s' = m_scopes s" using merge_result[OF inv step_merge(1,2)] step_merge(3) by auto
    then show ?thesis
      using in_scope_same_scopes[OF assms(1,2)] undo_to_merge[OF inv step_merge k] by simp
  next
    case step_push
    then show ?thesis
      using assms(1) step_keeps[OF assms(2) b]
      by (auto simp: in_scope_of_def push_scope_def undo_to_scopes)
  next
    case (step_pop n)
    then show ?thesis
      using in_scope_pop[OF assms(1,2) _ step_pop assms(3)] assms(1) by (cases "n = 0") (auto simp: pop_scope_def)
  qed
qed

lemma in_scope_run:
  assumes "uf_reachable s0" "runs_above (length (m_scopes s0)) (push_scope s0) s"
  shows "in_scope_of s0 s"
  using assms(2)
proof (induction "push_scope s0" s rule: runs_above.induct)
  case runs_refl
  note b = reachable_built[OF assms(1)]
  have "built (push_scope s0) \<and> scopes_ok (push_scope s0)"
    using step_keeps[OF step_push] b by blast
  then show ?case by (simp add: in_scope_of_def push_scope_def undo_to_scopes)
next
  case (runs_step s s')
  then show ?case using in_scope_step by blast
qed

theorem pop_scope_restores:
  assumes "uf_reachable s0" "runs_above (length (m_scopes s0)) (push_scope s0) s"
  shows "pop_scope (length (m_scopes s) - length (m_scopes s0)) s = Some s0"
proof -
  let ?l = "length (m_scopes s0)"
  have in_s: "in_scope_of s0 s" by (rule in_scope_run[OF assms])
  have l: "?l < length (m_scopes s)"
    and tk: "take (Suc ?l) (m_scopes s) = m_scopes s0 @ [length (m_trail_stack s0)]"
    and u: "undo_trail_stack (length (m_trail_stack s0)) s = Some (s0\<lparr>m_scopes := m_scopes s\<rparr>)"
    using in_s by (simp_all add: in_scope_of_def)
  have "m_scopes s ! ?l = (m_scopes s0 @ [length (m_trail_stack s0)]) ! ?l"
    using l by (simp flip: tk)
  moreover have "take ?l (m_scopes s) = take ?l (take (Suc ?l) (m_scopes s))" by (simp add: min_def)
  ultimately have "m_scopes s ! ?l = length (m_trail_stack s0)" "take ?l (m_scopes s) = m_scopes s0"
    unfolding tk by simp_all
  then show ?thesis using l u by (simp add: pop_scope_def Let_def)
qed

section \<open>The interface\<close>

interpretation uf: merger "\<lambda>s. uf_inv s" "\<lambda>s v. v < num_vars s" same_class merge
  by unfold_locales (use merge_result equiv_same_class in fastforce)+

section \<open>Dissolving a class\<close>

text \<open>The loop of \<^verbatim>\<open>dissolve\<close> returns, but it only ever detaches the variable it is given.\<close>

lemma dissolve_result:
  assumes "uf_inv s" "v < num_vars s"
  shows "dissolve v s =
    Some (s\<lparr>m_size := (m_size s)[v := 1], m_find := (m_find s)[v := v], m_next := (m_next s)[v := v]\<rparr>)"
proof -
  let ?s = "s\<lparr>m_size := (m_size s)[v := 1], m_find := (m_find s)[v := v], m_next := (m_next s)[v := v]\<rparr>"
  have v: "v < length (m_next s)" using assms uf_invD(2)[OF assms(1)] by simp
  have "dissolve v ?s = Some ?s" using v by (subst dissolve.simps) simp
  then show ?thesis using v by (subst dissolve.simps) (simp add: Let_def)
qed

end
