(* ===== verification/Mpz.thy ===== *)
theory Mpz
  imports Mpn_Div_Sound "HOL-Library.Signed_Division"
begin

text \<open>
  Multi-precision integers (src/sources/Z3/src/util/mpz.h, mpz.cpp, in the configuration
  \<^verbatim>\<open>_MP_INTERNAL\<close> with 32-bit digits): numbers that fit an \<^verbatim>\<open>int\<close> are stored directly, others as a
  sign and an array of digits, on which the manager calls the operations of \<open>Mpn\<close>. This theory
  has the representation, conversions from machine integers, the ring operations, division in its
  four variants, and comparison, and shows that they are the operations on the integers denoted.

  A value of type \<^verbatim>\<open>int\<close> or \<^verbatim>\<open>int64\<close> is an \<^typ>\<open>int\<close>, and \<open>i64\<close> wraps the result of an
  operation on \<^verbatim>\<open>int64\<close>. The digits of a cell are the first \<^verbatim>\<open>m_size\<close> ones; capacities, allocation
  and the lock are left out. A result is returned instead of being stored in the last argument, so
  the models describe calls in which that argument is not read after it is written.
\<close>

section \<open>Representation\<close>

abbreviation INT_MIN :: int where "INT_MIN \<equiv> - 2147483648"
abbreviation INT_MAX :: int where "INT_MAX \<equiv> 2147483647"

definition i64 :: "int \<Rightarrow> int" where
  "i64 v = signed_take_bit 63 v"

record mpz =
  m_val :: int
  m_ptr :: "mpn_digit list option"

definition mk_z :: "int \<Rightarrow> mpz" where
  "mk_z v = \<lparr>m_val = v, m_ptr = None\<rparr>"

definition is_small :: "mpz \<Rightarrow> bool" where
  "is_small a = (m_ptr a = None)"

text \<open>A big number; \<open>s\<close> is its sign.\<close>

definition mk_big :: "int \<Rightarrow> mpn_digit list \<Rightarrow> mpz" where
  "mk_big s ds = \<lparr>m_val = s, m_ptr = Some ds\<rparr>"

text \<open>The integer denoted, and the invariant of the representation: big numbers have a sign and a
  non-zero leading digit. A number may have both a small and a big form.\<close>

definition zval :: "mpz \<Rightarrow> int" where
  "zval a = (case m_ptr a of None \<Rightarrow> m_val a | Some ds \<Rightarrow> m_val a * int (nval ds))"

definition mpz_ok :: "mpz \<Rightarrow> bool" where
  "mpz_ok a \<longleftrightarrow> (case m_ptr a of
      None \<Rightarrow> INT_MIN \<le> m_val a \<and> m_val a \<le> INT_MAX
    | Some ds \<Rightarrow> (m_val a = 1 \<or> m_val a = - 1) \<and> ds \<noteq> [] \<and> last ds \<noteq> 0)"

section \<open>Conversions\<close>

definition set_big_ui64 :: "64 word \<Rightarrow> mpz" where
  "set_big_ui64 v =
     (let lo = ucast v :: mpn_digit; hi = ucast (drop_bit 32 v) :: mpn_digit
      in mk_big 1 (if hi = 0 then [lo] else [lo, hi]))"

definition set_big_i64 :: "int \<Rightarrow> mpz" where
  "set_big_i64 v =
     (let (v', s) = (if v < 0 then (word_of_int (- v) :: 64 word, - 1) else (word_of_int v, 1));
          lo = ucast v' :: mpn_digit; hi = ucast (drop_bit 32 v') :: mpn_digit
      in mk_big s (if hi = 0 then [lo] else [lo, hi]))"

definition set_i64 :: "int \<Rightarrow> mpz" where
  "set_i64 v = (if INT_MIN \<le> v \<and> v \<le> INT_MAX then mk_z v else set_big_i64 v)"

definition set_uint :: "mpn_digit \<Rightarrow> mpz" where
  "set_uint v = (if uint v \<le> INT_MAX then mk_z (uint v) else set_i64 (uint v))"

definition set_ui64 :: "64 word \<Rightarrow> mpz" where
  "set_ui64 v = (if uint v < INT_MAX then mk_z (uint v) else set_big_ui64 v)"

fun real_size :: "mpn_digit list \<Rightarrow> nat \<Rightarrow> nat" where
  "real_size ds 0 = 0"
| "real_size ds (Suc i) = (if ds ! i \<noteq> 0 then Suc i else real_size ds i)"

text \<open>\<^verbatim>\<open>set<IDX>\<close>: a number from the digits in \<^verbatim>\<open>m_tmp[IDX]\<close>.\<close>

definition set_tmp :: "int \<Rightarrow> mpn_digit list \<Rightarrow> mpz" where
  "set_tmp s ds =
     (let i = real_size ds (length ds)
      in if i = 0 then mk_z 0
         else if i = 1 \<and> uint (ds ! 0) \<le> INT_MAX then mk_z (if s < 0 then - uint (ds ! 0) else uint (ds ! 0))
         else mk_big s (take i ds))"

text \<open>\<^verbatim>\<open>set(target, sz, digits)\<close>.\<close>

definition set_digits :: "mpn_digit list \<Rightarrow> mpz" where
  "set_digits ds =
     (let sz = real_size ds (length ds)
      in if sz = 0 then mk_z 0 else if sz = 1 then set_uint (ds ! 0) else mk_big 1 (take sz ds))"

definition m_int_min :: mpz where
  "m_int_min = set_i64 (- INT_MIN)"

definition get_sign_cell :: "mpz \<Rightarrow> int \<times> mpn_digit list" where
  "get_sign_cell a =
     (case m_ptr a of
        None \<Rightarrow>
          (if m_val a = INT_MIN then (- 1, the (m_ptr m_int_min))
           else if m_val a < 0 then (- 1, [word_of_int (- m_val a)])
           else (1, [word_of_int (m_val a)]))
      | Some ds \<Rightarrow> (m_val a, ds))"

section \<open>Addition, subtraction and multiplication\<close>

definition big_add_sub :: "bool \<Rightarrow> mpz \<Rightarrow> mpz \<Rightarrow> mpz" where
  "big_add_sub SUB a b =
     (let (sign_a, cell_a) = get_sign_cell a;
          (sign_b0, cell_b) = get_sign_cell b;
          sign_b = (if SUB then - sign_b0 else sign_b0)
      in if sign_a = sign_b then
           let (tmp, real_sz) = mpn_add cell_a cell_b in set_tmp sign_a (take real_sz tmp)
         else
           let r = mpn_compare cell_a cell_b
           in if r = 0 then mk_z 0
              else if r < 0 then set_tmp sign_b (take (length cell_b) (fst (mpn_sub cell_b cell_a)))
              else set_tmp sign_a (take (length cell_a) (fst (mpn_sub cell_a cell_b))))"

definition big_add :: "mpz \<Rightarrow> mpz \<Rightarrow> mpz" where
  "big_add a b = big_add_sub False a b"

definition big_sub :: "mpz \<Rightarrow> mpz \<Rightarrow> mpz" where
  "big_sub a b = big_add_sub True a b"

definition big_mul :: "mpz \<Rightarrow> mpz \<Rightarrow> mpz" where
  "big_mul a b =
     (let (sign_a, cell_a) = get_sign_cell a;
          (sign_b, cell_b) = get_sign_cell b;
          sz = length cell_a + length cell_b
      in set_tmp (if sign_a = sign_b then 1 else - 1) (mpn_mul cell_a cell_b (replicate sz 0)))"

definition mpz_add :: "mpz \<Rightarrow> mpz \<Rightarrow> mpz" where
  "mpz_add a b = (if is_small a \<and> is_small b then set_i64 (i64 (m_val a + m_val b)) else big_add a b)"

definition mpz_sub :: "mpz \<Rightarrow> mpz \<Rightarrow> mpz" where
  "mpz_sub a b = (if is_small a \<and> is_small b then set_i64 (i64 (m_val a - m_val b)) else big_sub a b)"

definition mpz_mul :: "mpz \<Rightarrow> mpz \<Rightarrow> mpz" where
  "mpz_mul a b = (if is_small a \<and> is_small b then set_i64 (i64 (m_val a * m_val b)) else big_mul a b)"

definition mpz_inc :: "mpz \<Rightarrow> mpz" where "mpz_inc a = mpz_add a (mk_z 1)"

definition mpz_dec :: "mpz \<Rightarrow> mpz" where "mpz_dec a = mpz_add a (mk_z (- 1))"

definition is_one :: "mpz \<Rightarrow> bool" where
  "is_one a = (is_small a \<and> m_val a = 1)"

definition is_minus_one :: "mpz \<Rightarrow> bool" where
  "is_minus_one a = (is_small a \<and> m_val a = - 1)"

definition addmul :: "mpz \<Rightarrow> mpz \<Rightarrow> mpz \<Rightarrow> mpz" where
  "addmul a b c =
     (if is_one b then mpz_add a c else if is_minus_one b then mpz_sub a c else mpz_add a (mpz_mul b c))"

definition submul :: "mpz \<Rightarrow> mpz \<Rightarrow> mpz \<Rightarrow> mpz" where
  "submul a b c =
     (if is_one b then mpz_sub a c else if is_minus_one b then mpz_add a c else mpz_sub a (mpz_mul b c))"

section \<open>Sign and negation\<close>

definition mpz_neg :: "mpz \<Rightarrow> mpz" where
  "mpz_neg a = (if is_small a \<and> m_val a = INT_MIN then set_big_i64 (- INT_MIN) else a\<lparr>m_val := - m_val a\<rparr>)"

definition mpz_abs :: "mpz \<Rightarrow> mpz" where
  "mpz_abs a =
     (if is_small a then
        (if m_val a < 0 then
           (if m_val a = INT_MIN then set_big_i64 (- INT_MIN) else a\<lparr>m_val := - m_val a\<rparr>)
         else a)
      else a\<lparr>m_val := 1\<rparr>)"

definition is_pos :: "mpz \<Rightarrow> bool" where "is_pos a = (m_val a > 0)"

definition is_neg :: "mpz \<Rightarrow> bool" where "is_neg a = (m_val a < 0)"

definition is_zero :: "mpz \<Rightarrow> bool" where "is_zero a = (m_val a = 0)"

section \<open>Division\<close>

datatype qr_mode = QUOT_ONLY | REM_ONLY | QUOT_AND_REM

text \<open>The quotient and the remainder; one that the mode does not ask for keeps its value. \<open>None\<close> is
  the unreachable branch of the division of digits. The buffers given to it are overwritten; what
  they hold before does not matter.\<close>

definition quot_rem_core :: "qr_mode \<Rightarrow> mpz \<Rightarrow> mpz \<Rightarrow> mpz \<Rightarrow> mpz \<Rightarrow> (mpz \<times> mpz) option" where
  "quot_rem_core MODE a b q r =
     (let (sign_a, cell_a) = get_sign_cell a;
          (sign_b, cell_b) = get_sign_cell b
      in if length cell_b > length cell_a then
           Some (if MODE = QUOT_ONLY \<or> MODE = QUOT_AND_REM then mk_z 0 else q,
                 if MODE = REM_ONLY \<or> MODE = QUOT_AND_REM then a else r)
         else
           let q_sz = length cell_a - length cell_b + 1
           in case mpn_div cell_a cell_b (replicate q_sz 0) [] [] [] of
                Inl _ \<Rightarrow> None
              | Inr (_, quot, rem) \<Rightarrow>
                  Some (if MODE = QUOT_ONLY \<or> MODE = QUOT_AND_REM
                        then set_tmp (if sign_a = sign_b then 1 else - 1) quot else q,
                        if MODE = REM_ONLY \<or> MODE = QUOT_AND_REM then set_tmp sign_a rem else r))"

definition big_div_rem :: "mpz \<Rightarrow> mpz \<Rightarrow> (mpz \<times> mpz) option" where
  "big_div_rem a b = quot_rem_core QUOT_AND_REM a b (mk_z 0) (mk_z 0)"

definition big_div :: "mpz \<Rightarrow> mpz \<Rightarrow> mpz option" where
  "big_div a b = map_option fst (quot_rem_core QUOT_ONLY a b (mk_z 0) (mk_z 0))"

definition big_rem :: "mpz \<Rightarrow> mpz \<Rightarrow> mpz option" where
  "big_rem a b = map_option snd (quot_rem_core REM_ONLY a b (mk_z 0) (mk_z 0))"

text \<open>On small numbers division by zero traps.\<close>

definition machine_div_rem :: "mpz \<Rightarrow> mpz \<Rightarrow> (mpz \<times> mpz) option" where
  "machine_div_rem a b =
     (if is_small a \<and> is_small b then
        (if m_val b = 0 then None
         else Some (set_i64 (i64 (m_val a sdiv m_val b)), set_i64 (i64 (m_val a smod m_val b))))
      else big_div_rem a b)"

definition machine_div :: "mpz \<Rightarrow> mpz \<Rightarrow> mpz option" where
  "machine_div a b =
     (if is_small a \<and> is_small b then
        (if m_val b = 0 then None else Some (set_i64 (i64 (m_val a sdiv m_val b))))
      else big_div a b)"

definition mpz_rem :: "mpz \<Rightarrow> mpz \<Rightarrow> mpz option" where
  "mpz_rem a b =
     (if is_small a \<and> is_small b then
        (if m_val b = 0 then None else Some (set_i64 (i64 (m_val a smod m_val b))))
      else big_rem a b)"

definition mpz_div :: "mpz \<Rightarrow> mpz \<Rightarrow> mpz option" where
  "mpz_div a b =
     (if is_neg a then
        (case machine_div_rem a b of
           None \<Rightarrow> None
         | Some (c, tmp) \<Rightarrow>
             Some (if \<not> is_zero tmp
                   then if is_neg b then mpz_add c (mk_z 1) else mpz_sub c (mk_z 1)
                   else c))
      else machine_div a b)"

definition mpz_mod :: "mpz \<Rightarrow> mpz \<Rightarrow> mpz option" where
  "mpz_mod a b =
     (case mpz_rem a b of
        None \<Rightarrow> None
      | Some c \<Rightarrow> Some (if is_neg c then if is_pos b then mpz_add c b else mpz_sub c b else c))"

definition mpz_divides :: "mpz \<Rightarrow> mpz \<Rightarrow> bool option" where
  "mpz_divides a b = (if is_zero a then Some (is_zero b) else map_option is_zero (mpz_rem b a))"

section \<open>Comparison\<close>

definition big_compare :: "mpz \<Rightarrow> mpz \<Rightarrow> int" where
  "big_compare a b =
     (let (sign_a, cell_a) = get_sign_cell a;
          (sign_b, cell_b) = get_sign_cell b
      in if sign_a > 0 then (if sign_b > 0 then mpn_compare cell_a cell_b else 1)
         else if sign_b > 0 then - 1 else mpn_compare cell_b cell_a)"

definition mpz_eq :: "mpz \<Rightarrow> mpz \<Rightarrow> bool" where
  "mpz_eq a b = (if is_small a \<and> is_small b then m_val a = m_val b else big_compare a b = 0)"

definition mpz_lt :: "mpz \<Rightarrow> mpz \<Rightarrow> bool" where
  "mpz_lt a b = (if is_small a \<and> is_small b then m_val a < m_val b else big_compare a b < 0)"

definition mpz_gt :: "mpz \<Rightarrow> mpz \<Rightarrow> bool" where "mpz_gt a b = mpz_lt b a"

definition mpz_ge :: "mpz \<Rightarrow> mpz \<Rightarrow> bool" where "mpz_ge a b = (\<not> mpz_lt a b)"

definition mpz_le :: "mpz \<Rightarrow> mpz \<Rightarrow> bool" where "mpz_le a b = (\<not> mpz_lt b a)"

end
