(* ===== verification/Mpz_Sound.thy ===== *)
theory Mpz_Sound
  imports Mpz
begin

text \<open>
  The operations of \<open>Mpz\<close> are those of the integers: each keeps the invariant \<open>mpz_ok\<close> and its
  result denotes the sum, difference, product, quotient or remainder of the integers its arguments
  denote, and the comparisons are those of the integers.
\<close>

named_theorems mpz_simps \<open>validity and value of the results of the operations\<close>

section \<open>Machine integers\<close>

lemma i64_id: "- (2 ^ 63) \<le> v \<Longrightarrow> v < 2 ^ 63 \<Longrightarrow> i64 v = v"
  by (simp add: i64_def signed_take_bit_int_eq_self)

lemma zval_mk_z [simp]: "zval (mk_z v) = v" "m_val (mk_z v) = v" "m_ptr (mk_z v) = None" "is_small (mk_z v)"
  by (simp_all add: zval_def mk_z_def is_small_def)

lemma zval_mk_big [simp]: "zval (mk_big s ds) = s * int (nval ds)" "m_val (mk_big s ds) = s"
  "m_ptr (mk_big s ds) = Some ds" "\<not> is_small (mk_big s ds)"
  by (simp_all add: zval_def mk_big_def is_small_def)

lemma mpz_ok_mk_z [simp]: "mpz_ok (mk_z v) \<longleftrightarrow> INT_MIN \<le> v \<and> v \<le> INT_MAX"
  by (simp add: mpz_ok_def)

lemma mpz_ok_mk_big [simp]: "mpz_ok (mk_big s ds) \<longleftrightarrow> (s = 1 \<or> s = - 1) \<and> ds \<noteq> [] \<and> last ds \<noteq> 0"
  by (simp add: mpz_ok_def)

text \<open>A number is given by a small or a big form.\<close>

lemma mpz_cases:
  obtains v where "a = mk_z v" | s ds where "a = mk_big s ds"
  by (cases a; cases "m_ptr a") (auto simp: mk_z_def mk_big_def)

lemma zval_pos: "ds \<noteq> [] \<Longrightarrow> last ds \<noteq> 0 \<Longrightarrow> 0 < nval ds"
  using nval_last[of ds] unat_eq_zero[of "last ds"] by (cases "nval ds") auto

lemma int_unat: "int (unat v) = uint (v :: 'a::len word)"
  by simp

lemma word_digits:
  fixes v :: "64 word"
  assumes "v \<noteq> 0"
  defines "lo \<equiv> ucast v :: mpn_digit" and "hi \<equiv> ucast (drop_bit 32 v) :: mpn_digit"
  shows "nval (if hi = 0 then [lo] else [lo, hi]) = unat v" "last (if hi = 0 then [lo] else [lo, hi]) \<noteq> 0"
proof -
  have lo: "unat lo = unat v mod 2 ^ 32" by (simp only: lo_def unat_ucast_digit)
  have hi: "unat hi = unat v div 2 ^ 32" by (simp only: hi_def unat_high_digit)
  have sum: "unat lo + 2 ^ 32 * unat hi = unat v" unfolding lo hi by (rule mod_mult_div_eq)
  then show "nval (if hi = 0 then [lo] else [lo, hi]) = unat v" by (cases "hi = 0") simp_all
  have "lo \<noteq> 0" if "hi = 0"
  proof
    assume "lo = 0"
    then have "unat v = 0" using sum that by simp
    then show False using assms(1) by (simp only: unat_eq_zero)
  qed
  then show "last (if hi = 0 then [lo] else [lo, hi]) \<noteq> 0" by (cases "hi = 0") simp_all
qed

lemma set_big_ui64_correct: "v \<noteq> 0 \<Longrightarrow> mpz_ok (set_big_ui64 v) \<and> zval (set_big_ui64 v) = uint v"
  using word_digits[of v] by (simp only: set_big_ui64_def Let_def mpz_ok_mk_big zval_mk_big int_unat) auto

lemma set_big_i64_correct:
  assumes "- (2 ^ 63) \<le> v" "v < 2 ^ 63" "v \<noteq> 0"
  shows "mpz_ok (set_big_i64 v) \<and> zval (set_big_i64 v) = v"
proof -
  define w where "w = (word_of_int \<bar>v\<bar> :: 64 word)"
  have "uint w = \<bar>v\<bar>" unfolding w_def using assms by (subst uint_word_of_int_eq) (simp add: take_bit_int_eq_self)
  then have w: "int (unat w) = \<bar>v\<bar>" "w \<noteq> 0" using assms(3) by (simp only: int_unat, auto)
  define ds where "ds = (if (ucast (drop_bit 32 w) :: mpn_digit) = 0 then [ucast w :: mpn_digit] else [ucast w, ucast (drop_bit 32 w)])"
  have ds: "nval ds = unat w" "last ds \<noteq> 0" "ds \<noteq> []"
    unfolding ds_def by (rule word_digits[OF w(2)])+ (cases "(ucast (drop_bit 32 w) :: mpn_digit) = 0"; simp)
  have "set_big_i64 v = mk_big (if v < 0 then - 1 else 1) ds"
    by (simp only: set_big_i64_def ds_def w_def Let_def abs_if split: if_split) auto
  then show ?thesis using ds w(1) assms(3) by (simp only: mpz_ok_mk_big zval_mk_big ds(1) w(1)) auto
qed

lemma set_i64_correct [mpz_simps]:
  "- (2 ^ 63) \<le> v \<Longrightarrow> v < 2 ^ 63 \<Longrightarrow> mpz_ok (set_i64 v) \<and> zval (set_i64 v) = v"
  using set_big_i64_correct[of v] by (auto simp: set_i64_def)

lemma set_i64_wrapped:
  "- (2 ^ 63) \<le> v \<Longrightarrow> v < 2 ^ 63 \<Longrightarrow> mpz_ok (set_i64 (i64 v)) \<and> zval (set_i64 (i64 v)) = v"
  using set_i64_correct[of v] i64_id[of v] by simp

lemma uint_digit: "0 \<le> uint (d :: mpn_digit)" "uint (d :: mpn_digit) < 2 ^ 32"
  using unsigned_less[of d] by simp_all

lemma set_uint_correct [mpz_simps]: "mpz_ok (set_uint v) \<and> zval (set_uint v) = uint v"
proof -
  have "INT_MIN \<le> uint v" "- (2 ^ 63) \<le> uint v" by (rule order_trans[OF _ unsigned_greater_eq], simp)+
  moreover have "uint v < 2 ^ 63" using uint_digit(2)[of v] by simp
  ultimately show ?thesis using set_i64_correct[of "uint v"] by (simp add: set_uint_def)
qed

lemma set_ui64_correct [mpz_simps]: "mpz_ok (set_ui64 v) \<and> zval (set_ui64 v) = uint v"
proof (cases "uint v < INT_MAX")
  case True
  moreover have "INT_MIN \<le> uint v" by (rule order_trans[OF _ unsigned_greater_eq]) simp
  ultimately show ?thesis by (simp add: set_ui64_def)
next
  case False
  then have "v \<noteq> 0" by auto
  with False set_big_ui64_correct[of v] show ?thesis by (simp add: set_ui64_def)
qed

section \<open>Results from digits\<close>

lemma real_size_le: "real_size ds n \<le> n"
  by (induction n) auto

lemma real_size_take: "n \<le> length ds \<Longrightarrow> nval (take (real_size ds n) ds) = nval (take n ds)"
  by (induction n) (auto simp: nval_take_Suc)

lemma real_size_last: "0 < real_size ds n \<Longrightarrow> ds ! (real_size ds n - 1) \<noteq> 0"
  by (induction n) (auto split: if_splits)

lemma real_size_digits:
  assumes "i = real_size ds (length ds)"
  shows "nval (take i ds) = nval ds" "0 < i \<Longrightarrow> take i ds \<noteq> [] \<and> last (take i ds) \<noteq> 0"
proof -
  show "nval (take i ds) = nval ds" using real_size_take[of "length ds" ds] assms by simp
  show "take i ds \<noteq> [] \<and> last (take i ds) \<noteq> 0" if "0 < i"
  proof
    have le: "i \<le> length ds" using real_size_le[of ds "length ds"] assms by simp
    then show ne: "take i ds \<noteq> []" using that by auto
    have "last (take i ds) = ds ! (i - 1)" using that le ne by (simp add: last_conv_nth)
    then show "last (take i ds) \<noteq> 0" using real_size_last[of ds "length ds"] that assms by simp
  qed
qed

lemma real_size_one:
  assumes "real_size ds (length ds) = 1"
  shows "int (nval ds) = uint (ds ! 0)"
proof -
  obtain d ds' where "ds = d # ds'" using real_size_le[of ds "length ds"] assms by (cases ds) auto
  then show ?thesis using real_size_digits(1)[of 1 ds] assms by simp
qed

lemma set_tmp_correct [mpz_simps]:
  assumes "s = 1 \<or> s = - 1"
  shows "mpz_ok (set_tmp s ds) \<and> zval (set_tmp s ds) = s * int (nval ds)"
proof -
  define i where "i = real_size ds (length ds)"
  note d = real_size_digits[OF i_def]
  show ?thesis
  proof (cases "i = 1 \<and> uint (ds ! 0) \<le> INT_MAX")
    case True
    then have "int (nval ds) = uint (ds ! 0)" using real_size_one[of ds] i_def by simp
    moreover have "set_tmp s ds = mk_z (if s < 0 then - uint (ds ! 0) else uint (ds ! 0))"
      using True by (simp add: set_tmp_def Let_def flip: i_def)
    moreover have "0 \<le> uint (ds ! 0)" by (rule uint_digit)
    ultimately show ?thesis using True assms by auto
  next
    case False
    then show ?thesis using d assms by (cases "i = 0") (auto simp: set_tmp_def Let_def simp flip: i_def)
  qed
qed

lemma set_digits_correct [mpz_simps]: "mpz_ok (set_digits ds) \<and> zval (set_digits ds) = int (nval ds)"
proof -
  define i where "i = real_size ds (length ds)"
  note d = real_size_digits[OF i_def]
  show ?thesis
  proof (cases "i = 1")
    case True
    then have "int (nval ds) = uint (ds ! 0)" using real_size_one[of ds] i_def by simp
    then show ?thesis using True set_uint_correct[of "ds ! 0"]
      by (simp add: set_digits_def Let_def flip: i_def)
  next
    case False
    then show ?thesis using d by (cases "i = 0") (auto simp: set_digits_def Let_def simp flip: i_def)
  qed
qed

text \<open>The sign and the digits of a number; zero has the positive sign and the digit zero.\<close>

lemma get_sign_cell_correct:
  assumes "mpz_ok a" "get_sign_cell a = (s, ds)"
  shows "s = 1 \<or> s = - 1" "ds \<noteq> []" "zval a = s * int (nval ds)" "zval a = 0 \<longrightarrow> s = 1 \<and> ds = [0]"
    "zval a \<noteq> 0 \<longrightarrow> last ds \<noteq> 0"
proof -
  have "(s = 1 \<or> s = - 1) \<and> ds \<noteq> [] \<and> zval a = s * int (nval ds) \<and> (zval a = 0 \<longrightarrow> s = 1 \<and> ds = [0])
    \<and> (zval a \<noteq> 0 \<longrightarrow> last ds \<noteq> 0)"
  proof (cases a rule: mpz_cases)
    case (1 v)
    then have v: "INT_MIN \<le> v" "v \<le> INT_MAX" using assms(1) by auto
    have w: "nval [word_of_int x] = nat x" "(word_of_int x :: mpn_digit) = 0 \<longleftrightarrow> x = 0" if "0 \<le> x" "x < 2 ^ 32" for x
    proof -
      have u: "unat (word_of_int x :: mpn_digit) = nat x"
        using that by (simp add: unat_eq_nat_uint uint_word_of_int_eq take_bit_int_eq_self)
      then show "nval [word_of_int x] = nat x" by simp
      show "(word_of_int x :: mpn_digit) = 0 \<longleftrightarrow> x = 0" using u that(1) by (metis nat_0_iff unat_eq_zero order_antisym)
    qed
    consider "v = INT_MIN" | "INT_MIN < v" "v < 0" | "0 \<le> v" using v by linarith
    then show ?thesis
    proof cases
      case 1
      have "m_ptr m_int_min = Some [2147483648]"
        by (simp add: m_int_min_def set_i64_def set_big_i64_def Let_def mk_big_def)
      then show ?thesis using 1 \<open>a = mk_z v\<close> assms(2) by (auto simp: get_sign_cell_def)
    next
      case 2
      have "get_sign_cell a = (- 1, [word_of_int (- v)])" using 2 \<open>a = mk_z v\<close> by (simp add: get_sign_cell_def)
      moreover have "nval [word_of_int (- v)] = nat (- v)" "(word_of_int (- v) :: mpn_digit) \<noteq> 0"
        using w[of "- v"] 2 by simp_all
      ultimately show ?thesis using 2 \<open>a = mk_z v\<close> assms(2) by (auto simp del: nval.simps)
    next
      case 3
      have "s = 1" "ds = [word_of_int v]" using 3 \<open>a = mk_z v\<close> assms(2) by (simp_all add: get_sign_cell_def)
      moreover have "nval [word_of_int v] = nat v" "(word_of_int v :: mpn_digit) \<noteq> 0 \<or> v = 0"
        using w[of v] 3 v by simp_all
      ultimately show ?thesis using 3 \<open>a = mk_z v\<close> by (cases "v = 0") (simp_all del: nval.simps)
    qed
  next
    case (2 s' ds')
    then show ?thesis using assms zval_pos[of ds'] by (auto simp: get_sign_cell_def)
  qed
  then show "s = 1 \<or> s = - 1" "ds \<noteq> []" "zval a = s * int (nval ds)" "zval a = 0 \<longrightarrow> s = 1 \<and> ds = [0]"
    "zval a \<noteq> 0 \<longrightarrow> last ds \<noteq> 0" by blast+
qed

section \<open>Ring operations\<close>

lemma small_bounds: "mpz_ok a \<Longrightarrow> is_small a \<Longrightarrow> INT_MIN \<le> m_val a \<and> m_val a \<le> INT_MAX \<and> zval a = m_val a"
  by (cases a rule: mpz_cases) auto

text \<open>The difference of a number and a smaller one: no borrow, and no digit beyond the first.\<close>

lemma mpn_sub_smaller:
  assumes "nval b < nval a"
  shows "nval (take (length a) (fst (mpn_sub a b))) = nval a - nval b"
proof -
  obtain c k where s: "mpn_sub a b = (c, k)" by fastforce
  note c = mpn_sub_correct[OF s]
  have "nval c < 2 ^ (32 * length c)" by (rule nval_less)
  then have "unat k = 0" using c assms by (cases "unat k = 0") (auto simp: le_Suc_eq)
  then have v: "nval c = nval a - nval b" using c by auto
  then have "nval c < 2 ^ (32 * length a)" using nval_less[of a] by linarith
  then show ?thesis using v s by (simp add: nval_take_mod)
qed

lemma signed_cases: "s = 1 \<or> s = - 1 \<Longrightarrow> t = 1 \<or> t = - (1::int) \<Longrightarrow> s = t \<or> s = - t"
  by auto

lemma big_add_sub_correct:
  assumes "mpz_ok a" "mpz_ok b"
  shows "mpz_ok (big_add_sub SUB a b) \<and> zval (big_add_sub SUB a b) = (if SUB then zval a - zval b else zval a + zval b)"
proof -
  obtain sa da sb db where g: "get_sign_cell a = (sa, da)" "get_sign_cell b = (sb, db)" by fastforce
  note ca = get_sign_cell_correct[OF assms(1) g(1)] and cb = get_sign_cell_correct[OF assms(2) g(2)]
  define s where "s = (if SUB then - sb else sb)"
  have s: "s = 1 \<or> s = - 1" using cb(1) by (auto simp: s_def)
  have sum: "(if SUB then zval a - zval b else zval a + zval b) = sa * int (nval da) + s * int (nval db)"
    using ca(3) cb(3) by (simp add: s_def)
  show ?thesis
  proof (cases "sa = s")
    case True
    obtain tmp sz where t: "mpn_add da db = (tmp, sz)" by fastforce
    have "big_add_sub SUB a b = set_tmp s (take sz tmp)"
      using True t by (simp add: big_add_sub_def g Let_def flip: s_def)
    moreover have "nval (take sz tmp) = nval da + nval db" using mpn_add_correct[OF t] by simp
    ultimately show ?thesis using set_tmp_correct[OF s, of "take sz tmp"] sum True by (simp add: algebra_simps)
  next
    case False
    then have opp: "sa = - s" using signed_cases[OF ca(1) s] by simp
    have r: "mpn_compare da db = sgn (int (nval da) - int (nval db))" by (rule mpn_compare_correct)
    consider "nval da = nval db" | "nval da < nval db" | "nval db < nval da" by linarith
    then show ?thesis
    proof cases
      case 1
      then show ?thesis using False r sum opp by (simp add: big_add_sub_def g Let_def flip: s_def)
    next
      case 2
      then have "big_add_sub SUB a b = set_tmp s (take (length db) (fst (mpn_sub db da)))"
        using False r by (simp add: big_add_sub_def g Let_def flip: s_def)
      then show ?thesis using set_tmp_correct[OF s] mpn_sub_smaller[OF 2] 2 sum opp by (simp add: algebra_simps)
    next
      case 3
      then have "big_add_sub SUB a b = set_tmp sa (take (length da) (fst (mpn_sub da db)))"
        using False r by (simp add: big_add_sub_def g Let_def flip: s_def)
      then show ?thesis using set_tmp_correct[OF ca(1)] mpn_sub_smaller[OF 3] 3 sum opp by (simp add: algebra_simps)
    qed
  qed
qed

lemma big_mul_correct:
  assumes "mpz_ok a" "mpz_ok b"
  shows "mpz_ok (big_mul a b) \<and> zval (big_mul a b) = zval a * zval b"
proof -
  obtain sa da sb db where g: "get_sign_cell a = (sa, da)" "get_sign_cell b = (sb, db)" by fastforce
  note ca = get_sign_cell_correct[OF assms(1) g(1)] and cb = get_sign_cell_correct[OF assms(2) g(2)]
  have "(if sa = sb then 1 else - 1) = sa * sb" using ca(1) cb(1) by auto
  then have "big_mul a b = set_tmp (sa * sb) (mpn_mul da db (replicate (length da + length db) 0))"
    by (simp add: big_mul_def g)
  moreover have "sa * sb = 1 \<or> sa * sb = - 1" using ca(1) cb(1) by auto
  ultimately show ?thesis
    using set_tmp_correct mpn_mul_correct[of "replicate (length da + length db) 0" da db] ca(3) cb(3) by simp
qed

lemma mpz_add_correct [mpz_simps]:
  "mpz_ok a \<Longrightarrow> mpz_ok b \<Longrightarrow> mpz_ok (mpz_add a b) \<and> zval (mpz_add a b) = zval a + zval b"
  using small_bounds[of a] small_bounds[of b] set_i64_wrapped[of "m_val a + m_val b"] big_add_sub_correct[of a b False]
  by (cases "is_small a \<and> is_small b") (auto simp: mpz_add_def big_add_def)

lemma mpz_sub_correct [mpz_simps]:
  "mpz_ok a \<Longrightarrow> mpz_ok b \<Longrightarrow> mpz_ok (mpz_sub a b) \<and> zval (mpz_sub a b) = zval a - zval b"
  using small_bounds[of a] small_bounds[of b] set_i64_wrapped[of "m_val a - m_val b"] big_add_sub_correct[of a b True]
  by (cases "is_small a \<and> is_small b") (auto simp: mpz_sub_def big_sub_def)

lemma small_product:
  assumes "INT_MIN \<le> x" "x \<le> INT_MAX" "INT_MIN \<le> y" "y \<le> INT_MAX"
  shows "- (2 ^ 63) \<le> x * y" "x * y < 2 ^ 63"
proof -
  have "\<bar>x * y\<bar> \<le> 2 ^ 31 * 2 ^ 31" unfolding abs_mult by (rule mult_mono) (use assms in auto)
  then show "- (2 ^ 63) \<le> x * y" "x * y < 2 ^ 63" by simp_all
qed

lemma mpz_mul_correct [mpz_simps]:
  "mpz_ok a \<Longrightarrow> mpz_ok b \<Longrightarrow> mpz_ok (mpz_mul a b) \<and> zval (mpz_mul a b) = zval a * zval b"
  using small_bounds[of a] small_bounds[of b] small_product[of "m_val a" "m_val b"]
    set_i64_wrapped[of "m_val a * m_val b"] big_mul_correct[of a b]
  by (cases "is_small a \<and> is_small b") (simp_all add: mpz_mul_def)

lemma mpz_inc_dec_correct [mpz_simps]:
  "mpz_ok a \<Longrightarrow> mpz_ok (mpz_inc a) \<and> zval (mpz_inc a) = zval a + 1"
  "mpz_ok a \<Longrightarrow> mpz_ok (mpz_dec a) \<and> zval (mpz_dec a) = zval a - 1"
  using mpz_add_correct[of a] by (simp_all add: mpz_inc_def mpz_dec_def)

lemma is_one_zval: "mpz_ok a \<Longrightarrow> is_one a \<Longrightarrow> zval a = 1" "mpz_ok a \<Longrightarrow> is_minus_one a \<Longrightarrow> zval a = - 1"
  by (cases a rule: mpz_cases; simp add: is_one_def is_minus_one_def)+

lemma addmul_correct [mpz_simps]:
  assumes "mpz_ok a" "mpz_ok b" "mpz_ok c"
  shows "mpz_ok (addmul a b c) \<and> zval (addmul a b c) = zval a + zval b * zval c"
  using mpz_add_correct[of a c] mpz_sub_correct[of a c] mpz_mul_correct[of b c] mpz_add_correct[of a "mpz_mul b c"]
    is_one_zval[of b] assms by (simp add: addmul_def)

lemma submul_correct [mpz_simps]:
  assumes "mpz_ok a" "mpz_ok b" "mpz_ok c"
  shows "mpz_ok (submul a b c) \<and> zval (submul a b c) = zval a - zval b * zval c"
  using mpz_add_correct[of a c] mpz_sub_correct[of a c] mpz_mul_correct[of b c] mpz_sub_correct[of a "mpz_mul b c"]
    is_one_zval[of b] assms by (simp add: submul_def)

section \<open>Sign, negation and comparison\<close>

lemma sign_tests [mpz_simps]:
  "mpz_ok a \<Longrightarrow> is_pos a \<longleftrightarrow> 0 < zval a" "mpz_ok a \<Longrightarrow> is_neg a \<longleftrightarrow> zval a < 0" "mpz_ok a \<Longrightarrow> is_zero a \<longleftrightarrow> zval a = 0"
proof -
  assume ok: "mpz_ok a"
  have "(is_pos a \<longleftrightarrow> 0 < zval a) \<and> (is_neg a \<longleftrightarrow> zval a < 0) \<and> (is_zero a \<longleftrightarrow> zval a = 0)"
  proof (cases a rule: mpz_cases)
    case (2 s ds)
    then have "0 < nval ds" "s = 1 \<or> s = - 1" using ok zval_pos[of ds] by auto
    then show ?thesis using 2 by (auto simp: is_pos_def is_neg_def is_zero_def)
  qed (simp add: is_pos_def is_neg_def is_zero_def)
  then show "is_pos a \<longleftrightarrow> 0 < zval a" "is_neg a \<longleftrightarrow> zval a < 0" "is_zero a \<longleftrightarrow> zval a = 0" by blast+
qed

lemma mpz_neg_correct [mpz_simps]: "mpz_ok a \<Longrightarrow> mpz_ok (mpz_neg a) \<and> zval (mpz_neg a) = - zval a"
proof (cases a rule: mpz_cases)
  case (1 v)
  then show "mpz_ok a \<Longrightarrow> ?thesis" using set_big_i64_correct[of "- INT_MIN"]
    by (cases "v = INT_MIN") (auto simp: mpz_neg_def mpz_ok_def zval_def mk_z_def is_small_def)
qed (auto simp: mpz_neg_def mpz_ok_def zval_def mk_big_def is_small_def)

lemma mpz_abs_correct [mpz_simps]: "mpz_ok a \<Longrightarrow> mpz_ok (mpz_abs a) \<and> zval (mpz_abs a) = \<bar>zval a\<bar>"
proof (cases a rule: mpz_cases)
  case (1 v)
  then show "mpz_ok a \<Longrightarrow> ?thesis" using set_big_i64_correct[of "- INT_MIN"]
    by (cases "v = INT_MIN") (auto simp: mpz_abs_def mpz_ok_def zval_def mk_z_def is_small_def)
qed (auto simp: mpz_abs_def mpz_ok_def zval_def mk_big_def is_small_def abs_mult)

lemma big_compare_correct:
  assumes "mpz_ok a" "mpz_ok b"
  shows "big_compare a b = 0 \<longleftrightarrow> zval a = zval b" "big_compare a b < 0 \<longleftrightarrow> zval a < zval b"
proof -
  obtain sa da sb db where g: "get_sign_cell a = (sa, da)" "get_sign_cell b = (sb, db)" by fastforce
  note ca = get_sign_cell_correct[OF assms(1) g(1)] and cb = get_sign_cell_correct[OF assms(2) g(2)]
  have z: "0 < nval ds" if "mpz_ok x" "get_sign_cell x = (- 1, ds)" for x ds
  proof (rule gr0I)
    assume "nval ds = 0"
    then have "zval x = 0" using get_sign_cell_correct(3)[OF that] by simp
    then show False using get_sign_cell_correct(4)[OF that] by simp
  qed
  have "(big_compare a b = 0 \<longleftrightarrow> zval a = zval b) \<and> (big_compare a b < 0 \<longleftrightarrow> zval a < zval b)"
    using ca(1) cb(1)
  proof (elim disjE)
    assume "sa = 1" "sb = - 1"
    then show ?thesis using z[OF assms(2), of db] g(2) by (simp add: ca(3) cb(3) big_compare_def g)
  next
    assume "sa = - 1" "sb = 1"
    then show ?thesis using z[OF assms(1), of da] g(1) by (simp add: ca(3) cb(3) big_compare_def g)
  qed (simp_all add: ca(3) cb(3) big_compare_def g mpn_compare_correct sgn_if)
  then show "big_compare a b = 0 \<longleftrightarrow> zval a = zval b" "big_compare a b < 0 \<longleftrightarrow> zval a < zval b" by blast+
qed

lemma mpz_compare_correct [mpz_simps]:
  assumes "mpz_ok a" "mpz_ok b"
  shows "mpz_eq a b \<longleftrightarrow> zval a = zval b" "mpz_lt a b \<longleftrightarrow> zval a < zval b" "mpz_gt a b \<longleftrightarrow> zval b < zval a"
    "mpz_ge a b \<longleftrightarrow> zval b \<le> zval a" "mpz_le a b \<longleftrightarrow> zval a \<le> zval b"
proof -
  have lt: "mpz_lt x y \<longleftrightarrow> zval x < zval y" if "mpz_ok x" "mpz_ok y" for x y
    using small_bounds[OF that(1)] small_bounds[OF that(2)] big_compare_correct(2)[OF that]
    by (cases "is_small x \<and> is_small y") (simp_all add: mpz_lt_def)
  show "mpz_eq a b \<longleftrightarrow> zval a = zval b"
    using small_bounds[OF assms(1)] small_bounds[OF assms(2)] big_compare_correct(1)[OF assms]
    by (cases "is_small a \<and> is_small b") (simp_all add: mpz_eq_def)
  show "mpz_lt a b \<longleftrightarrow> zval a < zval b" "mpz_gt a b \<longleftrightarrow> zval b < zval a"
    "mpz_ge a b \<longleftrightarrow> zval b \<le> zval a" "mpz_le a b \<longleftrightarrow> zval a \<le> zval b"
    using lt assms by (simp_all add: mpz_gt_def mpz_ge_def mpz_le_def not_less)
qed

section \<open>Division\<close>

lemma nval_longer:
  assumes "length xs < length ys" "last ys \<noteq> 0"
  shows "nval xs < nval ys"
proof -
  have ne: "ys \<noteq> []" using assms(1) by auto
  have "nval xs < 2 ^ (32 * length xs)" by (rule nval_less)
  also have "\<dots> \<le> 2 ^ (32 * (length ys - 1))" using assms(1) by (intro power_increasing) auto
  also have "\<dots> \<le> 2 ^ (32 * (length ys - 1)) * unat (last ys)" using assms(2) by (simp add: Suc_leI unat_gt_0)
  also have "\<dots> \<le> nval ys" using nval_last[OF ne] by simp
  finally show ?thesis .
qed

text \<open>The contents of the buffers do not matter: the digits of the results are determined.\<close>

lemma mpn_div_buffers:
  assumes "denom \<noteq> []" "last denom \<noteq> 0" "length denom \<le> length numer"
    and "length quot = length numer - length denom + 1" "length quot' = length quot"
    and "mpn_div numer denom quot u v ms = Inr (x, q, r)" "mpn_div numer denom quot' u' v' ms' = Inr (x', q', r')"
  shows "q = q' \<and> r = r'"
proof -
  obtain x1 q1 r1 where 1: "mpn_div numer denom quot u v ms = Inr (x1, q1, r1)" "length q1 = length quot"
      "length r1 = length denom" "nval q1 = nval numer div nval denom" "nval r1 = nval numer mod nval denom"
    using mpn_div_correct[OF assms(1-4), of u v ms] by metis
  obtain x2 q2 r2 where 2: "mpn_div numer denom quot' u' v' ms' = Inr (x2, q2, r2)" "length q2 = length quot'"
      "length r2 = length denom" "nval q2 = nval numer div nval denom" "nval r2 = nval numer mod nval denom"
    using mpn_div_correct[OF assms(1-3), of quot' u' v' ms'] assms(4,5) by metis
  have "q1 = q2" "r1 = r2" using 1 2 assms(5) by (simp_all add: nval_inj)
  with 1(1) 2(1) assms(6,7) show ?thesis by simp
qed

lemma signed_division:
  assumes "s = 1 \<or> s = - 1" "t = 1 \<or> t = - (1::int)"
  shows "(s * int x) sdiv (t * int y) = s * t * int (x div y)" "(s * int x) smod (t * int y) = s * int (x mod y)"
proof -
  have abs: "\<bar>s * int x\<bar> = int x" "\<bar>t * int y\<bar> = int y" using assms by (auto simp: abs_mult)
  have sgn: "x = 0 \<or> sgn (s * int x) = s" "y = 0 \<or> sgn (t * int y) = t" using assms by (auto simp: sgn_mult)
  show "(s * int x) sdiv (t * int y) = s * t * int (x div y)"
    unfolding signed_divide_int_def abs using sgn by (cases "x = 0"; cases "y = 0") (simp_all add: zdiv_int)
  show "(s * int x) smod (t * int y) = s * int (x mod y)"
    unfolding signed_modulo_int_def abs using sgn by (cases "x = 0") (simp_all add: zmod_int)
qed

lemma quot_rem_core_correct:
  assumes "mpz_ok a" "mpz_ok b" "mpz_ok q" "mpz_ok r" "zval b \<noteq> 0"
  shows "\<exists>q' r'. quot_rem_core m a b q r = Some (q', r') \<and> mpz_ok q' \<and> mpz_ok r'
    \<and> (m \<noteq> REM_ONLY \<longrightarrow> zval q' = zval a sdiv zval b) \<and> (m \<noteq> QUOT_ONLY \<longrightarrow> zval r' = zval a smod zval b)"
proof -
  obtain sa da sb db where g: "get_sign_cell a = (sa, da)" "get_sign_cell b = (sb, db)" by fastforce
  note ca = get_sign_cell_correct[OF assms(1) g(1)] and cb = get_sign_cell_correct[OF assms(2) g(2)]
  have top: "last db \<noteq> 0" using cb(5) assms(5) by simp
  have dm: "zval a sdiv zval b = sa * sb * int (nval da div nval db)" "zval a smod zval b = sa * int (nval da mod nval db)"
    unfolding ca(3) cb(3) using ca(1) cb(1) by (rule signed_division)+
  show ?thesis
  proof (cases "length db > length da")
    case True
    have "nval da < nval db" by (rule nval_longer[OF True top])
    then show ?thesis using True assms dm ca(3) by (cases m) (simp_all add: quot_rem_core_def g)
  next
    case False
    then have "length da - length db + 1 = length (replicate (length da - length db + 1) (0::mpn_digit))" by simp
    from mpn_div_correct[OF cb(2) top _ this[symmetric], of "[]" "[]" "[]"] False
    obtain x quot rem where d: "mpn_div da db (replicate (length da - length db + 1) 0) [] [] [] = Inr (x, quot, rem)"
        "nval quot = nval da div nval db" "nval rem = nval da mod nval db"
      by (metis not_less)
    have s: "(if sa = sb then 1 else - 1) = sa * sb" "sa * sb = 1 \<or> sa * sb = - 1" using ca(1) cb(1) by auto
    show ?thesis using False assms d(1) dm set_tmp_correct[OF s(2), of quot] set_tmp_correct[OF ca(1), of rem]
      by (cases m) (simp_all add: quot_rem_core_def g s(1) d(2,3))
  qed
qed

lemma sdiv_bounds: "\<bar>x sdiv y\<bar> \<le> \<bar>x :: int\<bar>" "\<bar>x smod y\<bar> \<le> \<bar>x :: int\<bar>"
proof -
  have n: "int (nat \<bar>x\<bar>) = \<bar>x\<bar>" "int (nat \<bar>y\<bar>) = \<bar>y\<bar>" by simp_all
  have "int (nat \<bar>x\<bar> div nat \<bar>y\<bar>) \<le> int (nat \<bar>x\<bar>)" "int (nat \<bar>x\<bar> mod nat \<bar>y\<bar>) \<le> int (nat \<bar>x\<bar>)"
    unfolding of_nat_le_iff by (simp_all only: div_le_dividend mod_less_eq_dividend)
  then have le: "\<bar>x\<bar> div \<bar>y\<bar> \<le> \<bar>x\<bar>" "\<bar>x\<bar> mod \<bar>y\<bar> \<le> \<bar>x\<bar>" by (simp_all only: zdiv_int zmod_int n)
  have pos: "0 \<le> \<bar>x\<bar> div \<bar>y\<bar>" "0 \<le> \<bar>x\<bar> mod \<bar>y\<bar>"
    by (metis n of_nat_0_le_iff zdiv_int) (metis n of_nat_0_le_iff zmod_int)
  have s: "\<bar>sgn x * k\<bar> \<le> k" "\<bar>sgn x * sgn y * k\<bar> \<le> k" if "0 \<le> k" for k
    using that by (cases "x = 0"; cases "y = 0"; simp add: abs_mult)+
  show "\<bar>x sdiv y\<bar> \<le> \<bar>x\<bar>" "\<bar>x smod y\<bar> \<le> \<bar>x\<bar>"
    unfolding signed_divide_int_def signed_modulo_int_def using s(2)[OF pos(1)] s(1)[OF pos(2)] le by linarith+
qed

lemma small_division:
  assumes "mpz_ok a" "is_small a"
  shows "mpz_ok (set_i64 (i64 (m_val a sdiv y))) \<and> zval (set_i64 (i64 (m_val a sdiv y))) = zval a sdiv y"
    "mpz_ok (set_i64 (i64 (m_val a smod y))) \<and> zval (set_i64 (i64 (m_val a smod y))) = zval a smod y"
proof -
  have b: "\<bar>m_val a\<bar> \<le> 2 ^ 31" "zval a = m_val a" using small_bounds[OF assms] by auto
  show "mpz_ok (set_i64 (i64 (m_val a sdiv y))) \<and> zval (set_i64 (i64 (m_val a sdiv y))) = zval a sdiv y"
    using set_i64_wrapped[of "m_val a sdiv y"] sdiv_bounds(1)[of "m_val a" y] b by auto
  show "mpz_ok (set_i64 (i64 (m_val a smod y))) \<and> zval (set_i64 (i64 (m_val a smod y))) = zval a smod y"
    using set_i64_wrapped[of "m_val a smod y"] sdiv_bounds(2)[of "m_val a" y] b by auto
qed

lemma machine_div_rem_correct:
  assumes "mpz_ok a" "mpz_ok b" "zval b \<noteq> 0"
  shows "\<exists>q r. machine_div_rem a b = Some (q, r) \<and> mpz_ok q \<and> mpz_ok r \<and> zval q = zval a sdiv zval b \<and> zval r = zval a smod zval b"
proof (cases "is_small a \<and> is_small b")
  case True
  then show ?thesis using small_bounds[OF assms(2)] small_division[OF assms(1)] assms(3) by (simp add: machine_div_rem_def)
next
  case False
  then show ?thesis
    using quot_rem_core_correct[of a b "mk_z 0" "mk_z 0" QUOT_AND_REM] assms by (auto simp: machine_div_rem_def big_div_rem_def)
qed

lemma machine_div_correct:
  assumes "mpz_ok a" "mpz_ok b" "zval b \<noteq> 0"
  shows "\<exists>q. machine_div a b = Some q \<and> mpz_ok q \<and> zval q = zval a sdiv zval b"
proof (cases "is_small a \<and> is_small b")
  case True
  then show ?thesis using small_bounds[OF assms(2)] small_division[OF assms(1)] assms(3) by (simp add: machine_div_def)
next
  case False
  then show ?thesis
    using quot_rem_core_correct[of a b "mk_z 0" "mk_z 0" QUOT_ONLY] assms by (auto simp: machine_div_def big_div_def)
qed

lemma mpz_rem_correct:
  assumes "mpz_ok a" "mpz_ok b" "zval b \<noteq> 0"
  shows "\<exists>r. mpz_rem a b = Some r \<and> mpz_ok r \<and> zval r = zval a smod zval b"
proof (cases "is_small a \<and> is_small b")
  case True
  then show ?thesis using small_bounds[OF assms(2)] small_division[OF assms(1)] assms(3) by (simp add: mpz_rem_def)
next
  case False
  then show ?thesis
    using quot_rem_core_correct[of a b "mk_z 0" "mk_z 0" REM_ONLY] assms by (auto simp: mpz_rem_def big_rem_def)
qed

text \<open>The remainder that is not negative, from the truncated one.\<close>

lemma smod_nonneg: "0 \<le> a \<Longrightarrow> a smod b = a mod \<bar>b :: int\<bar>"
  by (cases "a = 0") (simp_all add: signed_modulo_int_def)

lemma smod_neg:
  assumes "a < 0" "(b :: int) \<noteq> 0"
  shows "a smod b \<le> 0" "a mod \<bar>b\<bar> = (if a smod b = 0 then 0 else a smod b + \<bar>b\<bar>)"
proof -
  have m: "a smod b = - (- a mod \<bar>b\<bar>)" using assms by (simp add: signed_modulo_int_def)
  have "0 \<le> - a mod \<bar>b\<bar>" using assms by (intro pos_mod_sign) simp
  then show "a smod b \<le> 0" unfolding m by linarith
  show "a mod \<bar>b\<bar> = (if a smod b = 0 then 0 else a smod b + \<bar>b\<bar>)"
    unfolding m using zmod_zminus1_eq_if[of "- a" "\<bar>b\<bar>"] by simp
qed

lemma mpz_mod_correct:
  assumes "mpz_ok a" "mpz_ok b" "zval b \<noteq> 0"
  shows "\<exists>r. mpz_mod a b = Some r \<and> mpz_ok r \<and> zval r = zval a mod \<bar>zval b\<bar>"
proof -
  obtain c where c: "mpz_rem a b = Some c" "mpz_ok c" "zval c = zval a smod zval b" using mpz_rem_correct[OF assms] by blast
  have mod: "mpz_mod a b = Some (if zval c < 0 then if 0 < zval b then mpz_add c b else mpz_sub c b else c)"
    using c(1) sign_tests[OF c(2)] sign_tests[OF assms(2)] by (simp add: mpz_mod_def)
  show ?thesis
  proof (cases "zval c < 0")
    case True
    then have a: "zval a < 0" using c(3) smod_nonneg[of "zval a" "zval b"] assms(3) pos_mod_sign[of "\<bar>zval b\<bar>" "zval a"] by linarith
    have "zval a mod \<bar>zval b\<bar> = zval c + \<bar>zval b\<bar>" using smod_neg(2)[OF a assms(3)] True c(3) by simp
    then show ?thesis using True mod mpz_add_correct[OF c(2) assms(2)] mpz_sub_correct[OF c(2) assms(2)]
      by (cases "0 < zval b") simp_all
  next
    case False
    then have "zval a mod \<bar>zval b\<bar> = zval c"
      using smod_nonneg[of "zval a" "zval b"] smod_neg[of "zval a" "zval b"] assms(3) c(3) by (cases "0 \<le> zval a") auto
    then show ?thesis using False mod c(2) by simp
  qed
qed

lemma mpz_div_correct:
  assumes "mpz_ok a" "mpz_ok b" "zval b \<noteq> 0"
  shows "\<exists>q. mpz_div a b = Some q \<and> mpz_ok q \<and> zval b * zval q + zval a mod \<bar>zval b\<bar> = zval a"
proof (cases "zval a < 0")
  case True
  obtain c r where c: "machine_div_rem a b = Some (c, r)" "mpz_ok c" "mpz_ok r"
      "zval c = zval a sdiv zval b" "zval r = zval a smod zval b"
    using machine_div_rem_correct[OF assms] by blast
  note m = smod_neg[OF True assms(3)]
  have sum: "zval b * zval c + zval r = zval a" unfolding c(4,5) by (rule mult_sdiv_smod_eq)
  have "mpz_div a b = Some (if zval r \<noteq> 0 then if zval b < 0 then mpz_add c (mk_z 1) else mpz_sub c (mk_z 1) else c)"
    using True c(1) sign_tests[OF assms(1)] sign_tests[OF assms(2)] sign_tests[OF c(3)] by (simp add: mpz_div_def)
  moreover have "mpz_ok (mpz_add c (mk_z 1)) \<and> zval (mpz_add c (mk_z 1)) = zval c + 1"
    "mpz_ok (mpz_sub c (mk_z 1)) \<and> zval (mpz_sub c (mk_z 1)) = zval c - 1"
    using mpz_add_correct[OF c(2), of "mk_z 1"] mpz_sub_correct[OF c(2), of "mk_z 1"] by simp_all
  ultimately show ?thesis using sum m(2) c(2) by (simp add: distrib_left right_diff_distrib flip: c(5))
next
  case False
  obtain c where c: "machine_div a b = Some c" "mpz_ok c" "zval c = zval a sdiv zval b"
    using machine_div_correct[OF assms] by blast
  have "zval a mod \<bar>zval b\<bar> = zval a smod zval b" using False smod_nonneg[of "zval a" "zval b"] by simp
  then show ?thesis using False c sign_tests[OF assms(1)] mult_sdiv_smod_eq[of "zval b" "zval a"] by (simp add: mpz_div_def)
qed

text \<open>Division by zero fails in every variant.\<close>

lemma division_by_zero:
  assumes "mpz_ok a" "mpz_ok b" "zval b = 0"
  shows "machine_div_rem a b = None" "machine_div a b = None" "mpz_rem a b = None" "mpz_div a b = None" "mpz_mod a b = None"
proof -
  obtain sa da where g: "get_sign_cell a = (sa, da)" by fastforce
  note ca = get_sign_cell_correct[OF assms(1) g]
  obtain sb db where gb: "get_sign_cell b = (sb, db)" by fastforce
  have db: "db = [0]" using get_sign_cell_correct(4)[OF assms(2) gb] assms(3) by simp
  have "quot_rem_core m a b q r = None" for m q r
    using ca(2) by (cases da) (auto simp: quot_rem_core_def g gb db mpn_div_def)
  then show *: "machine_div_rem a b = None" "machine_div a b = None" "mpz_rem a b = None"
    using small_bounds[OF assms(2)] assms(3)
    by (auto simp: machine_div_rem_def machine_div_def mpz_rem_def big_div_rem_def big_div_def big_rem_def)
  then show "mpz_div a b = None" "mpz_mod a b = None" by (simp_all add: mpz_div_def mpz_mod_def)
qed

lemma mpz_divides_correct:
  assumes "mpz_ok a" "mpz_ok b"
  shows "mpz_divides a b = Some (zval a dvd zval b)"
proof (cases "zval a = 0")
  case True
  then show ?thesis using assms by (simp add: mpz_divides_def sign_tests)
next
  case False
  obtain r where r: "mpz_rem b a = Some r" "mpz_ok r" "zval r = zval b smod zval a" using mpz_rem_correct[OF assms(2,1) False] by blast
  have "zval b smod zval a = 0 \<longleftrightarrow> zval a dvd zval b"
    by (simp add: signed_modulo_int_def sgn_eq_0_iff mod_eq_0_iff_dvd) auto
  then show ?thesis using False assms r by (simp add: mpz_divides_def sign_tests)
qed

end
