(* ===== verification/Mpz_Normal.thy ===== *)
theory Mpz_Normal
  imports Mpz_Sound
begin

text \<open>
  The normal form of multi-precision integers: a number is big only when it has to be. It is stronger
  than the invariant of the representation; the operations of the manager return numbers in normal form, with the
  exception of the conversion from \<^verbatim>\<open>uint64\<close> at \<^verbatim>\<open>INT_MAX\<close>.
\<close>

section \<open>Normal form\<close>

definition mpz_normal :: "mpz \<Rightarrow> bool" where
  "mpz_normal a \<longleftrightarrow> mpz_ok a \<and> (\<not> is_small a \<longrightarrow> INT_MAX < \<bar>zval a\<bar>)"

lemma mpz_normal_ok [simp]: "mpz_normal a \<Longrightarrow> mpz_ok a"
  by (simp add: mpz_normal_def)

lemma mpz_normal_mk_z [simp]: "mpz_normal (mk_z v) \<longleftrightarrow> INT_MIN \<le> v \<and> v \<le> INT_MAX"
  by (simp add: mpz_normal_def)

lemma is_small_mk_big [simp]: "\<not> is_small (mk_big s ds)"
  by (simp add: is_small_def mk_big_def)

lemma normal_set_i64:
  assumes "- (2 ^ 63) \<le> v" "v < 2 ^ 63"
  shows "mpz_normal (set_i64 v)"
proof (cases "INT_MIN \<le> v \<and> v \<le> INT_MAX")
  case True
  then show ?thesis by (simp add: set_i64_def)
next
  case False
  then have "INT_MAX < \<bar>v\<bar>" by linarith
  then show ?thesis using set_i64_correct[OF assms] by (simp add: mpz_normal_def)
qed

lemma normal_set_uint: "mpz_normal (set_uint v)"
proof -
  have lo: "- (2 ^ 63) \<le> uint v" "INT_MIN \<le> uint v" by (rule order_trans[OF _ unsigned_greater_eq], simp)+
  have hi: "uint v < 2 ^ 63" by (rule less_trans[OF uint_digit(2)]) simp
  show ?thesis
  proof (cases "uint v \<le> INT_MAX")
    case True
    then show ?thesis using lo(2) by (simp only: set_uint_def if_True mpz_normal_mk_z)
  next
    case False
    then show ?thesis using normal_set_i64[OF lo(1) hi] by (simp only: set_uint_def if_False)
  qed
qed

lemma normal_set_tmp:
  assumes "s = 1 \<or> s = - 1"
  shows "mpz_normal (set_tmp s ds)"
proof -
  define i where "i = real_size ds (length ds)"
  note d = real_size_digits[OF i_def]
  have "INT_MAX < int (nval ds)" if "i \<noteq> 0" "\<not> (i = 1 \<and> uint (ds ! 0) \<le> INT_MAX)"
  proof (cases "i = 1")
    case True
    then show ?thesis using that(2) real_size_one[of ds] i_def by simp
  next
    case False
    then have i: "2 \<le> i" using that(1) by simp
    have le: "i \<le> length ds" using real_size_le[of ds "length ds"] i_def by simp
    have ne: "take i ds \<noteq> []" "last (take i ds) \<noteq> 0" using d(2) i by simp_all
    have "nval [of_nat (2 ^ 31) :: mpn_digit] < nval (take i ds)"
      by (rule nval_longer) (use i le ne in simp_all)
    then show ?thesis unfolding d(1) by (simp add: unat_of_nat)
  qed
  then show ?thesis using set_tmp_correct[OF assms, of ds] assms
    by (cases "i = 0"; cases "i = 1 \<and> uint (ds ! 0) \<le> INT_MAX")
       (auto simp: mpz_normal_def set_tmp_def Let_def abs_mult simp flip: i_def)
qed

lemma normal_abs:
  assumes "mpz_normal a"
  shows "mpz_normal (mpz_abs a)"
proof -
  note ok = mpz_abs_correct[OF mpz_normal_ok[OF assms]]
  have "INT_MAX < \<bar>zval a\<bar>" if "\<not> is_small (mpz_abs a)"
  proof (cases "is_small a")
    case True
    have "m_val a = INT_MIN"
    proof (rule ccontr)
      assume "m_val a \<noteq> INT_MIN"
      then have "is_small (mpz_abs a)" using True by (simp add: mpz_abs_def is_small_def)
      with that show False by simp
    qed
    then show ?thesis using small_bounds[of a] True assms by simp
  qed (use assms in \<open>simp add: mpz_normal_def\<close>)
  then show ?thesis using ok by (simp add: mpz_normal_def)
qed

lemma normal_wrapped: "- (2 ^ 63) \<le> v \<Longrightarrow> v < 2 ^ 63 \<Longrightarrow> mpz_normal (set_i64 (i64 v))"
  using normal_set_i64[of v] i64_id[of v] by simp

lemma normal_big_add_sub:
  assumes "mpz_ok a" "mpz_ok b"
  shows "mpz_normal (big_add_sub SUB a b)"
proof -
  obtain sa da sb db where g: "get_sign_cell a = (sa, da)" "get_sign_cell b = (sb, db)" by fastforce
  note ca = get_sign_cell_correct[OF assms(1) g(1)] and cb = get_sign_cell_correct[OF assms(2) g(2)]
  have s: "(if SUB then - sb else sb) = 1 \<or> (if SUB then - sb else sb) = - 1" using cb(1) by auto
  obtain tmp sz where t: "mpn_add da db = (tmp, sz)" by fastforce
  show ?thesis using normal_set_tmp[OF ca(1)] normal_set_tmp[OF s]
    by (cases SUB) (simp_all only: big_add_sub_def g t Let_def case_prod_conv if_True if_False split: if_split, simp_all)
qed

lemma normal_big_mul:
  assumes "mpz_ok a" "mpz_ok b"
  shows "mpz_normal (big_mul a b)"
proof -
  obtain sa da sb db where g: "get_sign_cell a = (sa, da)" "get_sign_cell b = (sb, db)" by fastforce
  show ?thesis unfolding big_mul_def g Let_def case_prod_conv by (intro normal_set_tmp) simp
qed

text \<open>The operations of the manager return numbers in normal form.\<close>

lemma normal_add: "mpz_ok a \<Longrightarrow> mpz_ok b \<Longrightarrow> mpz_normal (mpz_add a b)"
  using small_bounds[of a] small_bounds[of b] normal_wrapped[of "m_val a + m_val b"] normal_big_add_sub[of a b False]
  by (cases "is_small a \<and> is_small b") (auto simp: mpz_add_def big_add_def)

lemma normal_sub: "mpz_ok a \<Longrightarrow> mpz_ok b \<Longrightarrow> mpz_normal (mpz_sub a b)"
  using small_bounds[of a] small_bounds[of b] normal_wrapped[of "m_val a - m_val b"] normal_big_add_sub[of a b True]
  by (cases "is_small a \<and> is_small b") (auto simp: mpz_sub_def big_sub_def)

lemma normal_mul: "mpz_ok a \<Longrightarrow> mpz_ok b \<Longrightarrow> mpz_normal (mpz_mul a b)"
  using small_bounds[of a] small_bounds[of b] small_product[of "m_val a" "m_val b"]
    normal_wrapped[of "m_val a * m_val b"] normal_big_mul[of a b]
  by (cases "is_small a \<and> is_small b") (simp_all add: mpz_mul_def)

lemma normal_addmul: "mpz_ok a \<Longrightarrow> mpz_ok b \<Longrightarrow> mpz_ok c \<Longrightarrow> mpz_normal (addmul a b c)"
  using mpz_mul_correct[of b c] by (auto simp: addmul_def normal_add normal_sub)

lemma normal_rem:
  assumes "mpz_normal a" "mpz_ok b" "mpz_rem a b = Some r"
  shows "mpz_normal r"
proof (cases "is_small a \<and> is_small b")
  case True
  then have "r = set_i64 (i64 (m_val a smod m_val b))" using assms(3) by (simp add: mpz_rem_def split: if_splits)
  then show ?thesis using normal_wrapped[of "m_val a smod m_val b"] sdiv_bounds(2)[of "m_val a" "m_val b"] small_bounds[of a] True assms(1)
    by auto
next
  case False
  then have r: "big_rem a b = Some r" using assms(3) by (simp only: mpz_rem_def if_False)
  obtain sa da sb db where g: "get_sign_cell a = (sa, da)" "get_sign_cell b = (sb, db)" by fastforce
  note ca = get_sign_cell_correct[OF mpz_normal_ok[OF assms(1)] g(1)]
  show ?thesis using r assms(1) normal_set_tmp[OF ca(1)]
    by (auto simp: big_rem_def quot_rem_core_def g split: if_splits sum.splits)
qed


lemma normal_neg:
  assumes "mpz_normal a"
  shows "mpz_normal (mpz_neg a)"
proof -
  note ok = mpz_neg_correct[OF mpz_normal_ok[OF assms]]
  have "INT_MAX < \<bar>zval a\<bar>" if "\<not> is_small (mpz_neg a)"
  proof (cases "is_small a")
    case True
    have "m_val a = INT_MIN"
    proof (rule ccontr)
      assume "m_val a \<noteq> INT_MIN"
      then have "is_small (mpz_neg a)" using True by (simp add: mpz_neg_def is_small_def)
      with that show False by simp
    qed
    then show ?thesis using small_bounds[of a] True assms by simp
  qed (use assms in \<open>simp add: mpz_normal_def\<close>)
  then show ?thesis using ok by (simp add: mpz_normal_def)
qed

lemma normal_quot:
  assumes "mpz_ok a" "mpz_ok b" "mpz_normal q" "mpz_normal r" "mpz_normal a" "quot_rem_core m a b q r = Some (q', r')"
  shows "mpz_normal q' \<and> mpz_normal r'"
proof -
  obtain sa da sb db where g: "get_sign_cell a = (sa, da)" "get_sign_cell b = (sb, db)" by fastforce
  note ca = get_sign_cell_correct[OF assms(1) g(1)]
  have sg: "(if sa = sb then 1 else - 1) = (1 :: int) \<or> (if sa = sb then 1 else - 1) = (- 1 :: int)" by simp
  note st = normal_set_tmp[OF sg] normal_set_tmp[OF ca(1)]
  show ?thesis
  proof (cases "length db > length da")
    case True
    then have "q' = (if m = QUOT_ONLY \<or> m = QUOT_AND_REM then mk_z 0 else q)" "r' = (if m = REM_ONLY \<or> m = QUOT_AND_REM then a else r)"
      using assms(6) by (simp_all add: quot_rem_core_def g)
    then show ?thesis using assms(3-5) by simp
  next
    case False
    then obtain x quot rem where "mpn_div da db (replicate (length da - length db + 1) 0) [] [] [] = Inr (x, quot, rem)"
        "q' = (if m = QUOT_ONLY \<or> m = QUOT_AND_REM then set_tmp (if sa = sb then 1 else - 1) quot else q)"
        "r' = (if m = REM_ONLY \<or> m = QUOT_AND_REM then set_tmp sa rem else r)"
      using assms(6) by (cases "mpn_div da db (replicate (length da - length db + 1) 0) [] [] []") (auto simp: quot_rem_core_def g)
    then show ?thesis using assms(3,4) st(1)[of quot] st(2)[of rem] by (simp only: if_split) blast
  qed
qed

lemma normal_small_division:
  assumes "mpz_normal a" "is_small a"
  shows "mpz_normal (set_i64 (i64 (m_val a sdiv y)))" "mpz_normal (set_i64 (i64 (m_val a smod y)))"
proof -
  have b: "\<bar>m_val a\<bar> \<le> 2 ^ 31" using small_bounds[OF mpz_normal_ok[OF assms(1)] assms(2)] by auto
  have "\<bar>m_val a sdiv y\<bar> \<le> 2 ^ 31" "\<bar>m_val a smod y\<bar> \<le> 2 ^ 31" by (rule order_trans[OF sdiv_bounds(1) b], rule order_trans[OF sdiv_bounds(2) b])
  then show "mpz_normal (set_i64 (i64 (m_val a sdiv y)))" "mpz_normal (set_i64 (i64 (m_val a smod y)))"
    by (intro normal_wrapped; simp)+
qed

lemma normal_machine_div_rem:
  assumes "mpz_normal a" "mpz_ok b" "machine_div_rem a b = Some (q, r)"
  shows "mpz_normal q \<and> mpz_normal r"
proof (cases "is_small a \<and> is_small b")
  case True
  then have "q = set_i64 (i64 (m_val a sdiv m_val b))" "r = set_i64 (i64 (m_val a smod m_val b))"
    using assms(3) by (simp_all add: machine_div_rem_def split: if_splits)
  then show ?thesis using normal_small_division[OF assms(1) conjunct1[OF True]] by simp
next
  case False
  then have "big_div_rem a b = Some (q, r)" using assms(3) by (simp only: machine_div_rem_def if_False)
  then have e: "quot_rem_core QUOT_AND_REM a b (mk_z 0) (mk_z 0) = Some (q, r)" by (simp only: big_div_rem_def)
  show ?thesis by (rule normal_quot[OF mpz_normal_ok[OF assms(1)] assms(2) _ _ assms(1) e]) simp_all
qed

lemma normal_machine_div:
  assumes "mpz_normal a" "mpz_ok b" "machine_div a b = Some q"
  shows "mpz_normal q"
proof (cases "is_small a \<and> is_small b")
  case True
  then have "q = set_i64 (i64 (m_val a sdiv m_val b))" using assms(3) by (simp add: machine_div_def split: if_splits)
  then show ?thesis using normal_small_division[OF assms(1) conjunct1[OF True]] by simp
next
  case False
  then have "big_div a b = Some q" using assms(3) by (simp only: machine_div_def if_False)
  then obtain r where e: "quot_rem_core QUOT_ONLY a b (mk_z 0) (mk_z 0) = Some (q, r)" by (auto simp: big_div_def)
  have "mpz_normal q \<and> mpz_normal r" by (rule normal_quot[OF mpz_normal_ok[OF assms(1)] assms(2) _ _ assms(1) e]) simp_all
  then show ?thesis by simp
qed

lemma normal_div:
  assumes "mpz_normal a" "mpz_ok b" "mpz_div a b = Some q"
  shows "mpz_normal q"
proof (cases "is_neg a")
  case True
  then obtain c t where c: "machine_div_rem a b = Some (c, t)"
      "q = (if \<not> is_zero t then if is_neg b then mpz_add c (mk_z 1) else mpz_sub c (mk_z 1) else c)"
    using assms(3) by (auto simp: mpz_div_def split: option.splits)
  have "mpz_normal c" using normal_machine_div_rem[OF assms(1,2) c(1)] by simp
  then show ?thesis using c(2) normal_add[of c "mk_z 1"] normal_sub[of c "mk_z 1"] by simp
qed (use assms(3) normal_machine_div[OF assms(1,2)] in \<open>simp add: mpz_div_def\<close>)

lemma normal_mod:
  assumes "mpz_normal a" "mpz_ok b" "mpz_mod a b = Some r"
  shows "mpz_normal r"
proof -
  obtain c where c: "mpz_rem a b = Some c" "r = (if is_neg c then if is_pos b then mpz_add c b else mpz_sub c b else c)"
    using assms(3) by (auto simp: mpz_mod_def split: option.splits)
  then show ?thesis using normal_rem[OF assms(1,2) c(1)] normal_add[of c b] normal_sub[of c b] assms(2) by simp
qed

text \<open>On numbers in normal form the tests for one look at the value.\<close>

lemma normal_small:
  assumes "mpz_normal a" "INT_MIN < zval a" "zval a \<le> INT_MAX"
  shows "is_small a \<and> m_val a = zval a"
proof -
  have "is_small a" using assms by (auto simp: mpz_normal_def)
  then show ?thesis using small_bounds[OF mpz_normal_ok[OF assms(1)]] by auto
qed

lemma is_one_normal:
  assumes "mpz_normal a"
  shows "is_one a \<longleftrightarrow> zval a = 1" "is_minus_one a \<longleftrightarrow> zval a = - 1"
proof -
  show "is_one a \<longleftrightarrow> zval a = 1"
  proof
    assume "zval a = 1"
    then show "is_one a" using normal_small[OF assms] by (simp add: is_one_def)
  qed (rule is_one_zval(1)[OF mpz_normal_ok[OF assms]])
  show "is_minus_one a \<longleftrightarrow> zval a = - 1"
  proof
    assume "zval a = - 1"
    then show "is_minus_one a" using normal_small[OF assms] by (simp add: is_minus_one_def)
  qed (rule is_one_zval(2)[OF mpz_normal_ok[OF assms]])
qed

lemma nval_unique:
  assumes "nval a = nval b" "a \<noteq> []" "b \<noteq> []" "last a \<noteq> 0" "last b \<noteq> 0"
  shows "a = b"
proof (rule nval_inj)
  show "length a = length b"
    using nval_longer[of a b] nval_longer[of b a] assms by (metis less_irrefl linorder_neqE_nat)
qed (rule assms(1))

text \<open>A value has one normal form, \<^verbatim>\<open>INT_MIN\<close> excepted.\<close>

lemma normal_unique:
  assumes "mpz_normal a" "mpz_normal b" "zval a = zval b" "zval a \<noteq> INT_MIN"
  shows "a = b"
proof (cases a rule: mpz_cases)
  case (1 v)
  then have v: "INT_MIN < zval b" "zval b \<le> INT_MAX" "zval b = v" using assms by simp_all
  with normal_small[OF assms(2) v(1,2)] 1 show ?thesis by (cases b rule: mpz_cases) simp_all
next
  case a: (2 s ds)
  then have big: "\<not> (INT_MIN < zval b \<and> zval b \<le> INT_MAX)"
    using assms(1,3,4) by (auto simp: mpz_normal_def)
  show ?thesis
  proof (cases b rule: mpz_cases)
    case (1 v)
    then show ?thesis using assms big by auto
  next
    case (2 s' ds')
    have d: "ds \<noteq> []" "last ds \<noteq> 0" "s = 1 \<or> s = - 1" "ds' \<noteq> []" "last ds' \<noteq> 0" "s' = 1 \<or> s' = - 1"
      using assms(1,2) a 2 mpz_normal_ok by (force dest: mpz_normal_ok)+
    have z: "s * int (nval ds) = s' * int (nval ds')" using assms(3) a 2 by simp
    have "0 < nval ds" "0 < nval ds'" using zval_pos d by blast+
    then have "s = s' \<and> nval ds = nval ds'" using z d(3,6) by auto
    then show ?thesis using nval_unique[OF _ d(1,4,2,5)] a 2 by simp
  qed
qed

end
