(* ===== verification/Mpz_Bits.thy ===== *)
theory Mpz_Bits
  imports Mpz_Sound
begin

text \<open>
  Multi-precision integers as machine words and as bit strings (mpz.cpp, util.cpp): tests and
  conversions to 64 and 32 bits, parity and digits, the position of the leading bit and of the last
  set bit, powers of two, and multiplication and truncated division by \<open>2 ^ k\<close> by shifting digits.
\<close>

unbundle bit_operations_syntax

section \<open>Conversions to machine integers\<close>

definition is_uint64 :: "mpz \<Rightarrow> bool" where
  "is_uint64 a = (if m_val a < 0 then False else case m_ptr a of None \<Rightarrow> True | Some ds \<Rightarrow> length ds \<le> 2)"

definition is_abs_uint64 :: "mpz \<Rightarrow> bool" where
  "is_abs_uint64 a = (case m_ptr a of None \<Rightarrow> True | Some ds \<Rightarrow> length ds \<le> 2)"

definition big_abs_to_uint64 :: "mpn_digit list \<Rightarrow> 64 word" where
  "big_abs_to_uint64 ds = (if length ds = 1 then ucast (ds ! 0) else push_bit 32 (ucast (ds ! 1)) OR ucast (ds ! 0))"

definition msb64 :: "64 word" where
  "msb64 = push_bit 63 1"

definition is_int64 :: "mpz \<Rightarrow> bool" where
  "is_int64 a =
     (case m_ptr a of
        None \<Rightarrow> True
      | Some ds \<Rightarrow>
          if \<not> is_abs_uint64 a then False
          else
            let num = big_abs_to_uint64 ds;
                msb_val = msb64 AND num
            in if m_val a \<ge> 0 then msb_val = 0 else msb_val = 0 \<or> msb_val = num)"

definition get_uint64 :: "mpz \<Rightarrow> 64 word" where
  "get_uint64 a = (case m_ptr a of None \<Rightarrow> word_of_int (m_val a) | Some ds \<Rightarrow> big_abs_to_uint64 ds)"

definition get_int64 :: "mpz \<Rightarrow> int" where
  "get_int64 a =
     (case m_ptr a of
        None \<Rightarrow> m_val a
      | Some ds \<Rightarrow>
          let num = big_abs_to_uint64 ds
          in if m_val a < 0
             then if num \<noteq> 0 \<and> push_bit 1 num = 0 then - (2 ^ 63) else - sint num
             else sint num)"

text \<open>The tests for 32 bits are strict: they leave out the largest \<^verbatim>\<open>unsigned\<close> and both ends of
  \<^verbatim>\<open>int\<close>.\<close>

definition is_uint :: "mpz \<Rightarrow> bool" where
  "is_uint a = (is_uint64 a \<and> get_uint64 a < 4294967295)"

definition get_uint :: "mpz \<Rightarrow> mpn_digit" where
  "get_uint a = ucast (get_uint64 a)"

definition is_int :: "mpz \<Rightarrow> bool" where
  "is_int a = (is_int64 a \<and> INT_MIN < get_int64 a \<and> get_int64 a < INT_MAX)"

definition get_int :: "mpz \<Rightarrow> int" where
  "get_int a = signed_take_bit 31 (get_int64 a)"

definition is_even :: "mpz \<Rightarrow> bool" where
  "is_even a = (case m_ptr a of None \<Rightarrow> m_val a AND 1 = 0 | Some ds \<Rightarrow> 1 AND ds ! 0 = 0)"

definition is_odd :: "mpz \<Rightarrow> bool" where
  "is_odd a = (\<not> is_even a)"

definition decompose :: "mpz \<Rightarrow> bool \<times> mpn_digit list" where
  "decompose a =
     (case m_ptr a of
        None \<Rightarrow> (if m_val a < 0 then (True, [word_of_int (- m_val a)]) else (False, [word_of_int (m_val a)]))
      | Some ds \<Rightarrow> (m_val a < 0, ds))"

section \<open>Positions of bits\<close>

definition log2_step :: "mpn_digit \<Rightarrow> nat \<Rightarrow> mpn_digit \<times> nat \<Rightarrow> mpn_digit \<times> nat" where
  "log2_step m k = (\<lambda>(v, r). if v AND m \<noteq> 0 then (drop_bit k v, r OR k) else (v, r))"

text \<open>\<^verbatim>\<open>log2\<close> of util.cpp; the last round does not need the shifted value.\<close>

definition word_log2 :: "mpn_digit \<Rightarrow> nat" where
  "word_log2 v =
     snd (log2_step 0x2 1 (log2_step 0xC 2 (log2_step 0xF0 4 (log2_step 0xFF00 8 (log2_step 0xFFFF0000 16 (v, 0))))))"

definition mpz_log2 :: "mpz \<Rightarrow> nat" where
  "mpz_log2 a =
     (if \<not> is_pos a then 0
      else case m_ptr a of
             None \<Rightarrow> word_log2 (word_of_int (m_val a))
           | Some ds \<Rightarrow> (length ds - 1) * 32 + word_log2 (ds ! (length ds - 1)))"

definition mlog2 :: "mpz \<Rightarrow> nat" where
  "mlog2 a =
     (if \<not> is_neg a then 0
      else case m_ptr a of
             None \<Rightarrow> word_log2 (word_of_int (- m_val a))
           | Some ds \<Rightarrow> (length ds - 1) * 32 + word_log2 (ds ! (length ds - 1)))"

definition bitsize :: "mpz \<Rightarrow> nat" where
  "bitsize a = (if \<not> is_neg a then mpz_log2 a + 1 else mlog2 a + 1)"

text \<open>\<^verbatim>\<open>COUNT_DIGIT_RIGHT_ZEROS\<close>, on a number that is not zero.\<close>

definition count_step :: "nat \<Rightarrow> int \<times> nat \<Rightarrow> int \<times> nat" where
  "count_step k = (\<lambda>(v, r). if v smod 2 ^ k = 0 then (v sdiv 2 ^ k, r + k) else (v, r))"

definition count_right_zeros :: "int \<Rightarrow> nat" where
  "count_right_zeros v = snd (count_step 1 (count_step 2 (count_step 4 (count_step 8 (count_step 16 (v, 0))))))"

fun multiple_loop :: "mpn_digit list \<Rightarrow> nat \<Rightarrow> nat" where
  "multiple_loop [] r = r"
| "multiple_loop (d # ds) r = (if d \<noteq> 0 then r + count_right_zeros (uint d) else multiple_loop ds (r + 32))"

definition power_of_two_multiple :: "mpz \<Rightarrow> nat" where
  "power_of_two_multiple a =
     (if is_zero a then 0
      else case m_ptr a of None \<Rightarrow> count_right_zeros (m_val a) | Some ds \<Rightarrow> multiple_loop ds 0)"

definition word_is_power_of_two :: "mpn_digit \<Rightarrow> bool" where
  "word_is_power_of_two v = (v AND (v - 1) = 0 \<and> v \<noteq> 0)"

text \<open>The exponent, or \<open>None\<close> when the number is not a power of two.\<close>

definition is_power_of_two :: "mpz \<Rightarrow> nat option" where
  "is_power_of_two a =
     (if \<not> is_pos a then None
      else case m_ptr a of
             None \<Rightarrow>
               (if word_is_power_of_two (word_of_int (m_val a)) then Some (word_log2 (word_of_int (m_val a))) else None)
           | Some ds \<Rightarrow>
               if list_ex (\<lambda>d. d \<noteq> 0) (take (length ds - 1) ds) then None
               else if word_is_power_of_two (ds ! (length ds - 1)) then Some (mpz_log2 a) else None)"

section \<open>Shifts\<close>

definition normalize :: "mpz \<Rightarrow> mpz" where
  "normalize a =
     (case m_ptr a of
        None \<Rightarrow> a
      | Some ds \<Rightarrow>
          let i = real_size ds (length ds)
          in if i = 0 then mk_z 0
             else if i = 1 \<and> uint (ds ! 0) \<le> INT_MAX then mk_z (if m_val a < 0 then - uint (ds ! 0) else uint (ds ! 0))
             else a\<lparr>m_ptr := Some (take i ds)\<rparr>)"

text \<open>\<^verbatim>\<open>ensure_capacity\<close> for more than one digit makes the number big.\<close>

definition ensure_capacity :: "mpz \<Rightarrow> nat \<Rightarrow> mpz" where
  "ensure_capacity a capacity =
     (if capacity \<le> 1 then a
      else case m_ptr a of
             None \<Rightarrow>
               (if m_val a = INT_MIN then mk_big (- 1) (the (m_ptr m_int_min))
                else if m_val a < 0 then mk_big (- 1) [word_of_int (- m_val a)]
                else mk_big 1 [word_of_int (m_val a)])
           | Some ds \<Rightarrow> a)"

fun shift_right_loop :: "nat \<Rightarrow> mpn_digit list \<Rightarrow> mpn_digit list" where
  "shift_right_loop bit_shift [] = []"
| "shift_right_loop bit_shift [d] = [drop_bit bit_shift d]"
| "shift_right_loop bit_shift (d # e # ds) =
     (drop_bit bit_shift d OR push_bit (32 - bit_shift) e) # shift_right_loop bit_shift (e # ds)"

text \<open>For small numbers and \<^verbatim>\<open>k = 31\<close> the divisor \<^verbatim>\<open>1 << k\<close> is the least \<^verbatim>\<open>int\<close>.\<close>

definition machine_div2k :: "mpz \<Rightarrow> nat \<Rightarrow> mpz" where
  "machine_div2k a k =
     (if k = 0 \<or> is_zero a then a
      else case m_ptr a of
             None \<Rightarrow>
               if k < 32 then let twok = signed_take_bit 31 (2 ^ k) in a\<lparr>m_val := m_val a sdiv twok\<rparr>
               else a\<lparr>m_val := 0\<rparr>
           | Some ds \<Rightarrow>
               let digit_shift = k div 32; bit_shift = k mod 32
               in if digit_shift \<ge> length ds then mk_z 0
                  else
                    let ds1 = drop digit_shift ds
                    in normalize (a\<lparr>m_ptr := Some (if bit_shift \<noteq> 0 then shift_right_loop bit_shift ds1 else ds1)\<rparr>))"

fun shift_left_loop :: "nat \<Rightarrow> mpn_digit \<Rightarrow> mpn_digit list \<Rightarrow> mpn_digit list" where
  "shift_left_loop bit_shift prev [] = []"
| "shift_left_loop bit_shift prev (d # ds) =
     (push_bit bit_shift d OR prev) # shift_left_loop bit_shift (drop_bit (32 - bit_shift) d) ds"

definition mul2k :: "mpz \<Rightarrow> nat \<Rightarrow> mpz" where
  "mul2k a k =
     (if k = 0 \<or> is_zero a then a
      else if is_small a \<and> k < 32 then set_i64 (i64 (m_val a * 2 ^ k))
      else
        let word_shift = k div 32; bit_shift = k mod 32;
            old_sz = (case m_ptr a of None \<Rightarrow> 1 | Some ds \<Rightarrow> length ds);
            new_sz = old_sz + word_shift + 1;
            a1 = ensure_capacity a new_sz;
            ds = the (m_ptr a1);
            ds1 = ds @ replicate (new_sz - length ds) 0;
            ds2 = replicate word_shift 0 @ take (new_sz - word_shift) ds1;
            ds3 = (if bit_shift > 0
                   then take word_shift ds2 @ shift_left_loop bit_shift 0 (drop word_shift ds2)
                   else ds2)
        in normalize (a1\<lparr>m_ptr := Some ds3\<rparr>))"

section \<open>Machine integers: correctness\<close>

lemma nval_two: "length ds \<le> 2 \<Longrightarrow> ds \<noteq> [] \<Longrightarrow> unat (big_abs_to_uint64 ds) = nval ds"
proof -
  assume l: "length ds \<le> 2" "ds \<noteq> []"
  then consider d where "ds = [d]" | d e where "ds = [d, e]"
    by (cases ds; cases "tl ds") auto
  then show ?thesis
  proof cases
    case 2
    have "big_abs_to_uint64 ds = double_digit e d" by (simp add: 2 big_abs_to_uint64_def double_digit_def)
    then show ?thesis using unat_double_digit[of e d] 2 by simp
  qed (simp add: big_abs_to_uint64_def)
qed

lemma nval_ge_top:
  assumes "ds \<noteq> []" "last ds \<noteq> 0"
  shows "2 ^ (32 * (length ds - 1)) \<le> nval ds"
proof -
  have "2 ^ (32 * (length ds - 1)) * 1 \<le> 2 ^ (32 * (length ds - 1)) * unat (last ds)"
    using assms(2) by (intro mult_left_mono) (simp_all add: Suc_leI unat_gt_0)
  then have "2 ^ (32 * (length ds - 1)) \<le> 2 ^ (32 * (length ds - 1)) * unat (last ds)" by (simp only: mult_1_right)
  then show ?thesis unfolding nval_last[OF assms(1)] by (rule trans_le_add2)
qed

lemma length_two_iff:
  assumes "ds \<noteq> []" "last ds \<noteq> 0"
  shows "length ds \<le> 2 \<longleftrightarrow> nval ds < 2 ^ 64"
proof
  assume "length ds \<le> 2"
  then have "(2::nat) ^ (32 * length ds) \<le> 2 ^ 64" by (intro power_increasing) auto
  then show "nval ds < 2 ^ 64" using nval_less[of ds] by (rule order.strict_trans2[rotated])
next
  assume l: "nval ds < 2 ^ 64"
  show "length ds \<le> 2"
  proof (rule ccontr)
    assume "\<not> length ds \<le> 2"
    then have "(2::nat) ^ 64 \<le> 2 ^ (32 * (length ds - 1))" by (intro power_increasing) auto
    with l nval_ge_top[OF assms] show False by linarith
  qed
qed

lemma bit_msb64: "bit msb64 n \<longleftrightarrow> n = 63"
  by (simp only: msb64_def bit_push_bit_iff bit_1_iff possible_bit_word) auto

lemma msb_cases: "msb64 AND w = (if bit w 63 then msb64 else 0)"
  by (rule bit_eqI) (auto simp: bit_and_iff bit_msb64)

lemma unat_msb64: "unat msb64 = 2 ^ 63"
  by (simp add: msb64_def push_bit_eq_mult)

lemma bit_63_iff: "bit (w :: 64 word) 63 \<longleftrightarrow> 2 ^ 63 \<le> unat w"
proof -
  have "bit w 63 \<longleftrightarrow> bit (unat w) 63" by (simp add: bit_unsigned_iff)
  also have "\<dots> \<longleftrightarrow> odd (unat w div 2 ^ 63)" by (rule bit_iff_odd)
  also have "\<dots> \<longleftrightarrow> 2 ^ 63 \<le> unat w"
  proof -
    have "unat w div 2 ^ 63 < 2" using unsigned_less[of w, where ?'a = nat] by (simp add: div_less_iff_less_mult)
    then consider "unat w div 2 ^ 63 = 0" | "unat w div 2 ^ 63 = 1" by linarith
    then show ?thesis by cases (auto simp: div_eq_0_iff)
  qed
  finally show ?thesis .
qed

lemma is_uint64_iff: "mpz_ok a \<Longrightarrow> is_uint64 a \<longleftrightarrow> 0 \<le> zval a \<and> zval a < 2 ^ 64"
proof (cases a rule: mpz_cases)
  case (2 s ds)
  assume ok: "mpz_ok a"
  then have d: "ds \<noteq> []" "last ds \<noteq> 0" "s = 1 \<or> s = - 1" using 2 by simp_all
  have "int (nval ds) < 2 ^ 64 \<longleftrightarrow> length ds \<le> 2"
    unfolding length_two_iff[OF d(1,2)] by (metis of_nat_less_iff of_nat_numeral of_nat_power)
  then show ?thesis using d(3) zval_pos[OF d(1,2)] 2 by (auto simp: is_uint64_def)
qed (auto simp: is_uint64_def)

lemma get_uint64_correct:
  assumes "mpz_ok a" "is_uint64 a"
  shows "uint (get_uint64 a) = zval a"
proof (cases a rule: mpz_cases)
  case (1 v)
  then have "0 \<le> v" "v < 2 ^ 64" using assms by (auto simp: is_uint64_iff)
  then show ?thesis using 1 by (simp add: get_uint64_def uint_word_of_int_eq take_bit_int_eq_self)
next
  case (2 s ds)
  then have "s = 1" "length ds \<le> 2" "ds \<noteq> []" using assms by (auto simp: is_uint64_def split: if_splits)
  then show ?thesis using 2 nval_two[of ds] by (simp add: get_uint64_def int_unat[symmetric] del: of_nat_unat)
qed

lemma is_int64_iff: "mpz_ok a \<Longrightarrow> is_int64 a \<longleftrightarrow> - (2 ^ 63) \<le> zval a \<and> zval a < 2 ^ 63"
proof (cases a rule: mpz_cases)
  case (2 s ds)
  assume ok: "mpz_ok a"
  then have d: "ds \<noteq> []" "last ds \<noteq> 0" "s = 1 \<or> s = - 1" using 2 by simp_all
  show ?thesis
  proof (cases "length ds \<le> 2")
    case True
    define num where "num = big_abs_to_uint64 ds"
    have n: "unat num = nval ds" unfolding num_def by (rule nval_two[OF True d(1)])
    have m: "msb64 = num \<longleftrightarrow> unat num = 2 ^ 63" "msb64 \<noteq> 0" "num \<noteq> 0"
      using unat_msb64 zval_pos[OF d(1,2)] n by (auto simp: word_unat_eq_iff)
    have z: "msb64 AND num = 0 \<longleftrightarrow> unat num < 2 ^ 63" "msb64 AND num = num \<longleftrightarrow> unat num = 2 ^ 63"
      unfolding msb_cases using m bit_63_iff[of num] by auto
    have "is_int64 a \<longleftrightarrow> (if 0 \<le> s then msb64 AND num = 0 else msb64 AND num = 0 \<or> msb64 AND num = num)"
      using 2 True by (simp add: is_int64_def is_abs_uint64_def num_def Let_def)
    then show ?thesis using n d(3) 2 unfolding z by auto
  next
    case False
    then have "2 ^ 64 \<le> nval ds" using length_two_iff[OF d(1,2)] by simp
    then show ?thesis using False d(3) 2 by (auto simp: is_int64_def is_abs_uint64_def)
  qed
qed (auto simp: is_int64_def)

lemma get_int64_correct:
  assumes "mpz_ok a" "is_int64 a"
  shows "get_int64 a = zval a"
proof (cases a rule: mpz_cases)
  case (2 s ds)
  then have d: "ds \<noteq> []" "last ds \<noteq> 0" "s = 1 \<or> s = - 1" "length ds \<le> 2"
    using assms by (auto simp: is_int64_def is_abs_uint64_def split: if_splits)
  define num where "num = big_abs_to_uint64 ds"
  have n: "unat num = nval ds" unfolding num_def by (rule nval_two[OF d(4,1)])
  have b: "- (2 ^ 63) \<le> s * int (unat num)" "s * int (unat num) < 2 ^ 63" using is_int64_iff[OF assms(1)] assms(2) 2 n by simp_all
  have "unat (push_bit 1 num) = 2 * unat num mod 2 ^ 64"
    unfolding unsigned_push_bit_eq by (simp add: take_bit_eq_mod push_bit_eq_mult mult.commute)
  then have "push_bit 1 num = 0 \<longleftrightarrow> 2 * unat num mod 2 ^ 64 = 0" by (metis unat_eq_zero)
  then have z: "num \<noteq> 0 \<and> push_bit 1 num = 0 \<longleftrightarrow> unat num = 2 ^ 63"
    using unsigned_less[of num, where ?'a = nat] by (auto simp: mod_eq_0_iff_dvd dvd_def word_unat_eq_iff)
  have "sint num = int (unat num)" if "unat num < 2 ^ 63"
  proof -
    have "int (unat num) < int (2 ^ 63)" using that by (simp only: of_nat_less_iff)
    then have "uint num < 2 ^ 63" by simp
    then show ?thesis using order_trans[OF _ unsigned_greater_eq[of num, where ?'a = int], of "- (2 ^ 63)"]
      by (simp add: sint_uint signed_take_bit_int_eq_self)
  qed
  then show ?thesis using 2 d(3) b n z by (auto simp: get_int64_def num_def[symmetric] Let_def)
qed (simp add: get_int64_def)

text \<open>The tests for 32 bits miss one number, and two numbers.\<close>

lemma is_uint_iff:
  assumes "mpz_ok a"
  shows "is_uint a \<longleftrightarrow> 0 \<le> zval a \<and> zval a < 2 ^ 32 - 1" "is_uint a \<Longrightarrow> uint (get_uint a) = zval a"
proof -
  have lt: "get_uint64 a < 4294967295 \<longleftrightarrow> uint (get_uint64 a) < 4294967295" by (simp add: word_less_def)
  then show "is_uint a \<longleftrightarrow> 0 \<le> zval a \<and> zval a < 2 ^ 32 - 1"
    using get_uint64_correct[OF assms] is_uint64_iff[OF assms] by (auto simp: is_uint_def)
  assume "is_uint a"
  then have "uint (get_uint64 a) = zval a" "uint (get_uint64 a) < 4294967295"
    using get_uint64_correct[OF assms] lt by (simp_all add: is_uint_def)
  moreover have "0 \<le> uint (get_uint64 a)" by (rule unsigned_greater_eq)
  ultimately show "uint (get_uint a) = zval a"
    by (simp add: get_uint_def unsigned_ucast_eq take_bit_int_eq_self)
qed

lemma is_int_iff:
  assumes "mpz_ok a"
  shows "is_int a \<longleftrightarrow> INT_MIN < zval a \<and> zval a < INT_MAX" "is_int a \<Longrightarrow> get_int a = zval a"
  using get_int64_correct[OF assms] is_int64_iff[OF assms]
  by (auto simp: is_int_def get_int_def signed_take_bit_int_eq_self)

section \<open>Parity and digits\<close>

lemma is_even_iff: "mpz_ok a \<Longrightarrow> is_even a \<longleftrightarrow> even (zval a)"
proof (cases a rule: mpz_cases)
  case (1 v)
  then show ?thesis by (simp add: is_even_def and_one_eq even_iff_mod_2_eq_zero)
next
  case (2 s ds)
  assume ok: "mpz_ok a"
  then obtain d ds' where d: "ds = d # ds'" using 2 by (cases ds) auto
  have "1 AND d = 0 \<longleftrightarrow> even d" by (simp add: one_and_eq even_iff_mod_2_eq_zero)
  moreover have "even d \<longleftrightarrow> even (unat d)" using bit_unsigned_iff[of d 0, where ?'a = nat] by (simp add: bit_0)
  moreover have "even (nval ds) \<longleftrightarrow> even (unat d)" by (simp add: d)
  moreover have "even (zval a) \<longleftrightarrow> even (nval ds)" using 2 ok by auto
  moreover have "is_even a \<longleftrightarrow> 1 AND d = 0" using 2 d by (simp add: is_even_def)
  ultimately show ?thesis by simp
qed

lemma decompose_correct:
  assumes "mpz_ok a" "decompose a = (neg, ds)"
  shows "ds \<noteq> [] \<and> zval a = (if neg then - int (nval ds) else int (nval ds))"
proof (cases a rule: mpz_cases)
  case (1 v)
  have "unat (word_of_int x :: mpn_digit) = nat x" if "0 \<le> x" "x < 2 ^ 32" for x
    using that by (simp add: unat_eq_nat_uint uint_word_of_int_eq take_bit_int_eq_self)
  from this[of v] this[of "- v"] show ?thesis using 1 assms by (auto simp: decompose_def split: if_splits)
qed (use assms in \<open>auto simp: decompose_def\<close>)

section \<open>Positions of bits\<close>

lemma drop_bit_0_iff: "drop_bit k (v :: mpn_digit) = 0 \<longleftrightarrow> unat v < 2 ^ k"
proof -
  have "drop_bit k v = 0 \<longleftrightarrow> unat v div 2 ^ k = 0" by (metis unat_drop_bit_digit unat_eq_zero)
  then show ?thesis by (simp add: div_eq_0_iff)
qed

lemma and_high_bits:
  assumes "unat (v :: mpn_digit) < 2 ^ (2 * k)"
  shows "v AND push_bit k (mask k) = 0 \<longleftrightarrow> unat v < 2 ^ k"
proof -
  have high: "\<not> bit v n" if "2 * k \<le> n" for n
  proof -
    have "drop_bit (2 * k) v = 0" using assms by (simp only: drop_bit_0_iff)
    then have "\<not> bit (drop_bit (2 * k) v) (n - 2 * k)" by simp
    then show ?thesis using that by (simp add: bit_drop_bit_eq)
  qed
  have "v AND push_bit k (mask k) = 0 \<longleftrightarrow> (\<forall>n \<ge> k. \<not> bit v n)"
  proof
    assume z: "v AND push_bit k (mask k) = 0"
    show "\<forall>n \<ge> k. \<not> bit v n"
    proof (intro allI impI notI)
      fix n assume n: "k \<le> n" "bit v n"
      then have "n < 2 * k" using high[of n] not_less by blast
      then have "bit (v AND push_bit k (mask k)) n"
        using n bit_digit_bound[OF n(2)] by (simp add: bit_simps) linarith
      with z show False by simp
    qed
  next
    assume "\<forall>n \<ge> k. \<not> bit v n"
    then show "v AND push_bit k (mask k) = 0" by (intro bit_eqI) (auto simp: bit_simps)
  qed
  also have "\<dots> \<longleftrightarrow> drop_bit k v = 0"
  proof
    assume "\<forall>n \<ge> k. \<not> bit v n"
    then show "drop_bit k v = 0" by (intro bit_eqI) (simp add: bit_drop_bit_eq)
  next
    assume "drop_bit k v = 0"
    then have "\<not> bit (drop_bit k v) n" for n by simp
    then have z: "\<not> bit v (k + n)" for n by (simp add: bit_drop_bit_eq)
    show "\<forall>n \<ge> k. \<not> bit v n" using z[of "m - k" for m] by (metis le_add_diff_inverse z)
  qed
  finally show ?thesis by (simp only: drop_bit_0_iff)
qed

lemma or_power_nat: "2 * 2 ^ j dvd r \<Longrightarrow> r OR 2 ^ j = r + (2 ^ j :: nat)"
proof -
  assume "2 * 2 ^ j dvd r"
  then obtain c where c: "r = 2 ^ j * (2 * c)" by (auto simp: dvd_def)
  have "\<not> bit r j" by (simp add: c bit_iff_odd)
  then show ?thesis by (subst disjunctive_add) (auto simp: bit_simps)
qed

text \<open>\<open>(v, r)\<close> is what is left of \<open>V\<close> after dropping its last \<open>r\<close> bits.\<close>

definition dropped :: "mpn_digit \<Rightarrow> nat \<Rightarrow> mpn_digit \<times> nat \<Rightarrow> bool" where
  "dropped V k = (\<lambda>(v, r). v = drop_bit r V \<and> v \<noteq> 0 \<and> unat v < 2 ^ k \<and> k dvd r)"

lemma log2_step_dropped:
  assumes "dropped V (2 * k) p" "k = 2 ^ j" "m = push_bit k (mask k)"
  shows "dropped V k (log2_step m k p)"
proof -
  obtain v r where p: "p = (v, r)" by fastforce
  have d: "v = drop_bit r V" "v \<noteq> 0" "unat v < 2 ^ (2 * k)" "2 * k dvd r"
    using assms(1) unfolding p dropped_def by auto
  have kr: "k dvd r" using d(4) by (metis dvd_mult_right)
  note h = and_high_bits[OF d(3), folded assms(3)]
  show ?thesis
  proof (cases "v AND m = 0")
    case True
    then have "unat v < 2 ^ k" using h by blast
    then show ?thesis using True d kr by (simp add: p log2_step_def dropped_def)
  next
    case False
    then have v: "2 ^ k \<le> unat v" using h by simp
    have or: "r OR k = r + k" using or_power_nat[of j r] d(4) by (simp add: assms(2))
    have "unat v div 2 ^ k < 2 ^ k" using d(3) by (simp add: less_mult_imp_div_less mult_2 power_add)
    then have "unat (drop_bit k v) < 2 ^ k" by (simp add: unat_drop_bit_digit)
    moreover have "drop_bit k v \<noteq> 0" using v by (simp add: drop_bit_0_iff)
    moreover have "drop_bit k v = drop_bit (r + k) V" by (simp add: d(1) drop_bit_drop_bit add.commute)
    ultimately show ?thesis using False kr by (simp add: p log2_step_def dropped_def or)
  qed
qed

lemma word_log2_correct:
  assumes "v \<noteq> 0"
  shows "2 ^ word_log2 v \<le> unat v \<and> unat v < 2 * 2 ^ word_log2 v"
proof -
  have 0: "dropped v (2 * 16) (v, 0)" using unat_digit[of v] assms by (simp add: dropped_def)
  have 1: "dropped v (2 * 8) (log2_step 0xFFFF0000 16 (v, 0))"
    using log2_step_dropped[OF 0, of 4 "0xFFFF0000"] by (simp add: mask_eq_exp_minus_1 push_bit_eq_mult)
  have 2: "dropped v (2 * 4) (log2_step 0xFF00 8 (log2_step 0xFFFF0000 16 (v, 0)))"
    using log2_step_dropped[OF 1, of 3 "0xFF00"] by (simp add: mask_eq_exp_minus_1 push_bit_eq_mult)
  have 3: "dropped v (2 * 2) (log2_step 0xF0 4 (log2_step 0xFF00 8 (log2_step 0xFFFF0000 16 (v, 0))))"
    using log2_step_dropped[OF 2, of 2 "0xF0"] by (simp add: mask_eq_exp_minus_1 push_bit_eq_mult)
  have 4: "dropped v (2 * 1) (log2_step 0xC 2 (log2_step 0xF0 4 (log2_step 0xFF00 8 (log2_step 0xFFFF0000 16 (v, 0)))))"
    using log2_step_dropped[OF 3, of 1 "0xC"] by (simp add: mask_eq_exp_minus_1 push_bit_eq_mult)
  have "dropped v 1 (log2_step 0x2 1 (log2_step 0xC 2 (log2_step 0xF0 4 (log2_step 0xFF00 8 (log2_step 0xFFFF0000 16 (v, 0))))))"
    using log2_step_dropped[OF 4, of 0 "0x2"] by (simp add: mask_eq_exp_minus_1 push_bit_eq_mult)
  then obtain w where "w = drop_bit (word_log2 v) v" "w \<noteq> 0" "unat w < 2"
    by (auto simp: dropped_def word_log2_def split: prod.splits)
  then have "unat v div 2 ^ word_log2 v = 1"
    using unat_drop_bit_digit[of "word_log2 v" v] unat_gt_0[of w] by simp
  then have "2 ^ word_log2 v + unat v mod 2 ^ word_log2 v = unat v"
    using mult_div_mod_eq[of "2 ^ word_log2 v" "unat v"] by simp
  moreover have "unat v mod 2 ^ word_log2 v < 2 ^ word_log2 v" by simp
  ultimately show ?thesis by linarith
qed

lemma digits_log2:
  assumes "ds \<noteq> []" "last ds \<noteq> 0" "l = (length ds - 1) * 32 + word_log2 (ds ! (length ds - 1))"
  shows "2 ^ l \<le> nval ds \<and> nval ds < 2 * 2 ^ l"
proof -
  define w where "w = (2 :: nat) ^ (32 * (length ds - 1))"
  note b = word_log2_correct[OF assms(2)]
  have l: "2 ^ l = w * 2 ^ word_log2 (last ds)"
    using assms(1,3) by (simp add: w_def last_conv_nth power_add mult.commute)
  have n: "nval ds = nval (butlast ds) + w * unat (last ds)" unfolding w_def by (rule nval_last[OF assms(1)])
  have "nval (butlast ds) < w" using nval_less[of "butlast ds"] by (simp add: w_def)
  moreover have "w * unat (last ds) + w \<le> 2 * (w * 2 ^ word_log2 (last ds))"
    using mult_le_mono2[of "unat (last ds) + 1" "2 * 2 ^ word_log2 (last ds)" w] b by (simp add: algebra_simps)
  moreover have "w * 2 ^ word_log2 (last ds) \<le> w * unat (last ds)" using b by (intro mult_le_mono2) simp
  ultimately show ?thesis unfolding l n by linarith
qed

lemma unat_nat_digit: "0 \<le> v \<Longrightarrow> v < 2 ^ 32 \<Longrightarrow> unat (word_of_int v :: mpn_digit) = nat v"
  by (simp add: unat_eq_nat_uint uint_word_of_int_eq take_bit_int_eq_self)

lemma mpz_log2_correct:
  assumes "mpz_ok a" "0 < zval a"
  shows "2 ^ mpz_log2 a \<le> zval a \<and> zval a < 2 * 2 ^ mpz_log2 a"
proof (cases a rule: mpz_cases)
  case (1 v)
  then have "0 < v" "v < 2 ^ 32" using assms by simp_all
  then have u: "unat (word_of_int v :: mpn_digit) = nat v" "0 < v" using unat_nat_digit[of v] by simp_all
  then have "(word_of_int v :: mpn_digit) \<noteq> 0" by (auto simp: word_unat_eq_iff)
  from word_log2_correct[OF this] u have "2 ^ mpz_log2 a \<le> nat v \<and> nat v < 2 * 2 ^ mpz_log2 a"
    using 1 by (simp add: mpz_log2_def is_pos_def)
  then show ?thesis using 1 u(2) by (simp add: le_nat_iff nat_less_iff)
next
  case (2 s ds)
  then have "s = 1" "ds \<noteq> []" "last ds \<noteq> 0" using assms by (auto simp: zero_less_mult_iff)
  then have "2 ^ mpz_log2 a \<le> nval ds \<and> nval ds < 2 * 2 ^ mpz_log2 a"
    using digits_log2[of ds "mpz_log2 a"] 2 by (simp add: mpz_log2_def is_pos_def)
  then have "int (2 ^ mpz_log2 a) \<le> int (nval ds) \<and> int (nval ds) < int (2 * 2 ^ mpz_log2 a)"
    by (simp only: of_nat_le_iff of_nat_less_iff)
  then show ?thesis using 2 \<open>s = 1\<close> by simp
qed

lemma mlog2_correct:
  assumes "mpz_ok a" "zval a < 0"
  shows "2 ^ mlog2 a \<le> - zval a \<and> - zval a < 2 * 2 ^ mlog2 a"
proof (cases a rule: mpz_cases)
  case (1 v)
  then have "v < 0" "- v < 2 ^ 32" using assms by simp_all
  then have u: "unat (word_of_int (- v) :: mpn_digit) = nat (- v)" "v < 0" using unat_nat_digit[of "- v"] by simp_all
  then have "(word_of_int (- v) :: mpn_digit) \<noteq> 0" by (auto simp: word_unat_eq_iff)
  from word_log2_correct[OF this] u have "2 ^ mlog2 a \<le> nat (- v) \<and> nat (- v) < 2 * 2 ^ mlog2 a"
    using 1 by (simp add: mlog2_def is_neg_def)
  then show ?thesis using 1 u(2) by (simp add: le_nat_iff nat_less_iff)
next
  case (2 s ds)
  then have "s = - 1" "ds \<noteq> []" "last ds \<noteq> 0" using assms by (auto simp: mult_less_0_iff)
  then have "2 ^ mlog2 a \<le> nval ds \<and> nval ds < 2 * 2 ^ mlog2 a"
    using digits_log2[of ds "mlog2 a"] 2 by (simp add: mlog2_def is_neg_def)
  then have "int (2 ^ mlog2 a) \<le> int (nval ds) \<and> int (nval ds) < int (2 * 2 ^ mlog2 a)"
    by (simp only: of_nat_le_iff of_nat_less_iff)
  then show ?thesis using 2 \<open>s = - 1\<close> by simp
qed

section \<open>Trailing zeros and powers of two\<close>

text \<open>\<open>(v, r)\<close>: \<open>r\<close> zeros of \<open>V\<close> have been counted, and less than \<open>2 * k\<close> of \<open>v\<close> are left.\<close>

definition counted :: "int \<Rightarrow> nat \<Rightarrow> int \<times> nat \<Rightarrow> bool" where
  "counted V n = (\<lambda>(v, r). V = v * 2 ^ r \<and> v \<noteq> 0 \<and> \<not> 2 ^ n dvd v)"

lemma count_step_counted:
  assumes "counted V (2 * k) p"
  shows "counted V k (count_step k p)"
proof -
  obtain v r where p: "p = (v, r)" by fastforce
  have v: "V = v * 2 ^ r" "v \<noteq> 0" "\<not> 2 ^ (2 * k) dvd v" using assms unfolding p counted_def by auto
  have z: "v smod 2 ^ k = 0 \<longleftrightarrow> 2 ^ k dvd v"
    by (cases "0 \<le> v") (auto simp: smod_nonneg signed_modulo_int_def sgn_eq_0_iff mod_eq_0_iff_dvd)
  show ?thesis
  proof (cases "2 ^ k dvd v")
    case True
    then obtain w where w: "v = 2 ^ k * w" by (auto simp: dvd_def)
    have q: "v sdiv 2 ^ k = w" using mult_sdiv_smod_eq[of "2 ^ k" v] True z by (simp add: w)
    have "\<not> 2 ^ k dvd w" using v(3) by (simp add: w mult_2 power_add)
    then show ?thesis using True z v w q by (simp add: p count_step_def counted_def power_add)
  next
    case False
    then show ?thesis using v z by (simp add: p count_step_def counted_def)
  qed
qed

lemma count_right_zeros_correct:
  assumes "v \<noteq> 0" "\<bar>v\<bar> < 2 ^ 32"
  shows "2 ^ count_right_zeros v dvd v \<and> \<not> 2 * 2 ^ count_right_zeros v dvd v"
proof -
  have "\<not> 2 ^ 32 dvd v" using assms dvd_imp_le_int[of v "2 ^ 32"] by auto
  then have "counted v (2 * 16) (v, 0)" using assms by (simp add: counted_def)
  from count_step_counted[OF this] have "counted v (2 * 8) (count_step 16 (v, 0))" by simp
  from count_step_counted[OF this] have "counted v (2 * 4) (count_step 8 (count_step 16 (v, 0)))" by simp
  from count_step_counted[OF this] have "counted v (2 * 2) (count_step 4 (count_step 8 (count_step 16 (v, 0))))" by simp
  from count_step_counted[OF this] have "counted v (2 * 1) (count_step 2 (count_step 4 (count_step 8 (count_step 16 (v, 0)))))" by simp
  from count_step_counted[OF this] obtain w where "v = w * 2 ^ count_right_zeros v" "odd w"
    by (auto simp: counted_def count_right_zeros_def split: prod.splits)
  then show ?thesis by (metis dvd_triv_right mult_dvd_mono power_eq_0_iff zero_neq_numeral dvd_mult_cancel_right)
qed

lemma multiple_loop_correct:
  "nval ds \<noteq> 0 \<Longrightarrow> \<exists>c. multiple_loop ds r = r + c \<and> 2 ^ c dvd int (nval ds) \<and> \<not> 2 * 2 ^ c dvd int (nval ds)"
proof (induction ds arbitrary: r)
  case (Cons d ds)
  have n: "int (nval (d # ds)) = uint d + 2 ^ 32 * int (nval ds)" by simp
  show ?case
  proof (cases "d = 0")
    case True
    obtain c where c: "multiple_loop ds (r + 32) = r + 32 + c" "2 ^ c dvd int (nval ds)" "\<not> 2 * 2 ^ c dvd int (nval ds)"
      using Cons True by auto
    have e: "2 ^ (32 + c) = 2 ^ 32 * (2 ^ c :: int)" "2 * (2 ^ 32 * 2 ^ c) = 2 ^ 32 * (2 * 2 ^ c :: int)" by (simp_all add: power_add)
    have "int (nval (d # ds)) = 2 ^ 32 * int (nval ds)" unfolding n by (simp add: True)
    moreover have "(2::int) ^ 32 * x dvd 2 ^ 32 * y \<longleftrightarrow> x dvd y" for x y by simp
    ultimately have "2 ^ (32 + c) dvd int (nval (d # ds))" "\<not> 2 * 2 ^ (32 + c) dvd int (nval (d # ds))"
      using c(2,3) by (simp_all only: e not_False_eq_True)
    then show ?thesis using True c(1) by (intro exI[of _ "32 + c"]) simp
  next
    case False
    let ?c = "count_right_zeros (uint d)"
    have d: "uint d \<noteq> 0" "\<bar>uint d\<bar> < 2 ^ 32" using False uint_digit[of d] by (simp_all add: uint_0_iff)
    note c = count_right_zeros_correct[OF d]
    have "2 * 2 ^ ?c dvd (2 ^ 32 :: int)"
    proof -
      have "0 < uint d" using d(1) uint_digit(1)[of d] by linarith
      then have "(2::int) ^ ?c \<le> uint d" using c by (intro zdvd_imp_le) auto
      then have "(2::int) ^ ?c < 2 ^ 32" using d(2) by linarith
      then have "Suc ?c \<le> 32" using power_less_imp_less_exp[of "2::int" ?c 32] by simp
      then show ?thesis using le_imp_power_dvd[of "Suc ?c" 32 "2::int"] by simp
    qed
    then have "2 * 2 ^ ?c dvd 2 ^ 32 * int (nval ds)" by (rule dvd_mult2)
    moreover from this have "2 ^ ?c dvd 2 ^ 32 * int (nval ds)" by (rule dvd_mult_right)
    ultimately have "2 ^ ?c dvd int (nval (d # ds))" "\<not> 2 * 2 ^ ?c dvd int (nval (d # ds))"
      unfolding n using c by (simp_all only: dvd_add_left_iff not_False_eq_True)
    then show ?thesis using False by (intro exI[of _ ?c]) simp
  qed
qed simp

lemma power_of_two_multiple_correct:
  assumes "mpz_ok a" "zval a \<noteq> 0"
  shows "2 ^ power_of_two_multiple a dvd zval a \<and> \<not> 2 ^ (power_of_two_multiple a + 1) dvd zval a"
proof (cases a rule: mpz_cases)
  case (1 v)
  then have "v \<noteq> 0" "\<bar>v\<bar> < 2 ^ 32" using assms by (auto simp: abs_less_iff)
  then show ?thesis using 1 count_right_zeros_correct[of v] by (simp add: power_of_two_multiple_def is_zero_def)
next
  case (2 s ds)
  then have s: "s = 1 \<or> s = - 1" and n: "nval ds \<noteq> 0" using assms by auto
  obtain c where c: "multiple_loop ds 0 = c" "2 ^ c dvd int (nval ds)" "\<not> 2 * 2 ^ c dvd int (nval ds)"
    using multiple_loop_correct[OF n, of 0] by auto
  have "power_of_two_multiple a = c" using 2 s c(1) by (auto simp: power_of_two_multiple_def is_zero_def)
  then show ?thesis using s c(2,3) 2 by auto
qed

lemma bit_top:
  assumes "2 ^ l \<le> unat v" "unat v < 2 * 2 ^ l"
  shows "bit (v :: mpn_digit) l"
proof -
  have "unat v div 2 ^ l = 1" using assms by (intro div_nat_eqI) simp_all
  then show ?thesis using bit_unsigned_iff[of v l, where ?'a = nat] by (simp add: bit_iff_odd[of "unat v"])
qed

lemma word_is_power_of_two_iff: "word_is_power_of_two v \<longleftrightarrow> unat v = 2 ^ word_log2 v"
proof (cases "v = 0")
  case False
  let ?l = "word_log2 v"
  note l = word_log2_correct[OF False]
  have m: "unat (v - 1) = unat v - 1" by (rule unat_minus_one[OF False])
  show ?thesis
  proof (cases "unat v = 2 ^ ?l")
    case True
    have "v AND (v - 1) = 0"
    proof (rule bit_eqI)
      fix n
      have z: "drop_bit ?l (v - 1) = 0" using m True by (simp add: drop_bit_0_iff)
      have "\<not> bit (v - 1) n" if "?l \<le> n"
      proof -
        have "\<not> bit (drop_bit ?l (v - 1)) (n - ?l)" using z by simp
        then show ?thesis using that by (simp add: bit_drop_bit_eq)
      qed
      moreover have "\<not> bit v n" if "n < ?l"
      proof -
        have "\<not> bit (unat v) n" using that unfolding True by (simp add: bit_exp_iff)
        then show ?thesis using bit_unsigned_iff[of v n, where ?'a = nat] bit_imp_le_length[of v n] by auto
      qed
      ultimately show "bit (v AND (v - 1)) n = bit 0 n" by (cases "n < ?l") (auto simp: bit_and_iff)
    qed
    then show ?thesis using False True by (simp add: word_is_power_of_two_def)
  next
    case other: False
    then have "2 ^ ?l \<le> unat (v - 1)" "unat (v - 1) < 2 * 2 ^ ?l" using l m by linarith+
    then have "bit v ?l" "bit (v - 1) ?l" using l by (simp_all add: bit_top)
    then have "bit (v AND (v - 1)) ?l" by (simp add: bit_and_iff)
    then show ?thesis using other by (auto simp: word_is_power_of_two_def)
  qed
qed (simp add: word_is_power_of_two_def)

lemma log2_unique:
  assumes "2 ^ k \<le> (x :: nat)" "x < 2 * 2 ^ k" "2 ^ l \<le> x" "x < 2 * 2 ^ l"
  shows "k = l"
proof -
  have "(2::nat) ^ k < 2 ^ Suc l" "(2::nat) ^ l < 2 ^ Suc k" using assms by simp_all
  then have "k < Suc l" "l < Suc k" by (simp_all only: power_strict_increasing_iff one_less_numeral_iff semiring_norm)
  then show ?thesis by simp
qed

lemma digits_power_of_two:
  assumes "ds \<noteq> []" "last ds \<noteq> 0" "l = (length ds - 1) * 32 + word_log2 (last ds)"
  shows "nval ds = 2 ^ l \<longleftrightarrow> \<not> list_ex (\<lambda>d. d \<noteq> 0) (butlast ds) \<and> word_is_power_of_two (last ds)"
proof -
  define w where "w = (2 :: nat) ^ (32 * (length ds - 1))"
  note b = word_log2_correct[OF assms(2)]
  have l: "2 ^ l = w * 2 ^ word_log2 (last ds)" using assms(3) by (simp add: w_def power_add mult.commute)
  have n: "nval ds = nval (butlast ds) + w * unat (last ds)" unfolding w_def by (rule nval_last[OF assms(1)])
  have z: "nval xs = 0 \<longleftrightarrow> \<not> list_ex (\<lambda>d. d \<noteq> 0) xs" for xs by (induction xs) (auto simp: unat_eq_zero)
  have "w * 2 ^ word_log2 (last ds) \<le> w * unat (last ds)" using b by (intro mult_le_mono2) simp
  then have "nval ds = 2 ^ l \<longleftrightarrow> nval (butlast ds) = 0 \<and> w * unat (last ds) = w * 2 ^ word_log2 (last ds)"
    unfolding n l by linarith
  then show ?thesis by (simp add: z word_is_power_of_two_iff w_def)
qed

lemma is_power_of_two_correct:
  assumes "mpz_ok a"
  shows "is_power_of_two a = Some k \<longleftrightarrow> zval a = 2 ^ k"
proof (cases "0 < zval a")
  case False
  then have "zval a \<noteq> 2 ^ k" by auto
  then show ?thesis using False by (simp add: is_power_of_two_def sign_tests[OF assms])
next
  case True
  have log: "zval a = 2 ^ k \<longleftrightarrow> zval a = 2 ^ mpz_log2 a \<and> k = mpz_log2 a"
  proof
    assume k: "zval a = 2 ^ k"
    have "int (2 ^ k) < int (2 * 2 ^ mpz_log2 a)" "int (2 ^ mpz_log2 a) \<le> int (2 ^ k)"
      using mpz_log2_correct[OF assms True] k by simp_all
    then have "(2::nat) ^ k < 2 * 2 ^ mpz_log2 a" "(2::nat) ^ mpz_log2 a \<le> 2 ^ k"
      by (simp_all only: of_nat_less_iff of_nat_le_iff)
    then have "k = mpz_log2 a" using log2_unique[of k "2 ^ k" "mpz_log2 a"] by simp
    with k show "zval a = 2 ^ mpz_log2 a \<and> k = mpz_log2 a" by simp
  qed simp
  have p: "is_pos a" using True assms by (simp add: sign_tests)
  show ?thesis
  proof (cases a rule: mpz_cases)
    case (1 v)
    then have "0 \<le> v" "v < 2 ^ 32" using True assms by simp_all
    note u = unat_nat_digit[OF this]
    have "word_is_power_of_two (word_of_int v) \<longleftrightarrow> zval a = 2 ^ mpz_log2 a"
      using 1 u p True by (auto simp: word_is_power_of_two_iff mpz_log2_def nat_eq_iff)
    then show ?thesis using 1 p log by (auto simp: is_power_of_two_def mpz_log2_def)
  next
    case (2 s ds)
    then have s: "s = 1" "ds \<noteq> []" "last ds \<noteq> 0" using True assms by (auto simp: zero_less_mult_iff)
    have l: "mpz_log2 a = (length ds - 1) * 32 + word_log2 (last ds)" using 2 p s(2) by (simp add: mpz_log2_def last_conv_nth)
    have "int (nval ds) = int (2 ^ mpz_log2 a) \<longleftrightarrow> nval ds = 2 ^ mpz_log2 a" by (simp only: of_nat_eq_iff)
    then have "zval a = 2 ^ mpz_log2 a \<longleftrightarrow> \<not> list_ex (\<lambda>d. d \<noteq> 0) (butlast ds) \<and> word_is_power_of_two (last ds)"
      using digits_power_of_two[OF s(2,3) l] 2 s(1) by simp
    then show ?thesis using 2 p log s(2) by (auto simp: is_power_of_two_def butlast_conv_take last_conv_nth)
  qed
qed

section \<open>Shifts\<close>

lemma normalize_mk_big: "normalize (mk_big s ds) = set_tmp s ds"
  by (simp add: normalize_def set_tmp_def Let_def mk_big_def)

lemma shift_right_loop_shr: "0 < d \<Longrightarrow> d < 32 \<Longrightarrow> shift_right_loop d xs = shr_digits d xs"
proof (induction d xs rule: shr_digits.induct)
  case (3 d x y ys)
  have "push_bit (32 - d) y = push_bit (32 - d) (last_bits d y)"
    using 3(2,3) by (intro bit_eqI) (auto simp: last_bits_def bit_simps)
  then show ?case using 3 by simp
qed simp_all

lemma shift_left_loop_shl: "shift_left_loop d (first_bits d p) xs = shl_digits d p xs"
  by (induction xs arbitrary: p) (simp_all add: first_bits_def)

lemma sdiv_small: "\<bar>v\<bar> < \<bar>m\<bar> \<Longrightarrow> v sdiv m = (0::int)"
  by (simp add: signed_divide_int_def)

lemma sdiv_between:
  assumes "0 < (m::int)"
  shows "min v 0 \<le> v sdiv m" "v sdiv m \<le> max v 0"
proof -
  have q: "v sdiv m = sgn v * (\<bar>v\<bar> div m)" using assms by (simp add: signed_divide_int_def)
  have "0 \<le> \<bar>v\<bar> div m" using assms by (simp add: pos_imp_zdiv_nonneg_iff)
  moreover have "\<bar>v\<bar> div m \<le> \<bar>v\<bar>"
    using sdiv_bounds(1)[of "\<bar>v\<bar>" m] assms by (cases "v = 0") (simp_all add: signed_divide_int_def abs_mult)
  ultimately show "min v 0 \<le> v sdiv m" "v sdiv m \<le> max v 0" unfolding q by (auto simp: sgn_if)
qed

lemma machine_div2k_correct:
  assumes "mpz_ok a" "\<not> (is_small a \<and> k = 31 \<and> zval a = INT_MIN)"
  shows "mpz_ok (machine_div2k a k) \<and> zval (machine_div2k a k) = zval a sdiv 2 ^ k"
proof (cases "k = 0 \<or> zval a = 0")
  case True
  then show ?thesis using assms by (auto simp: machine_div2k_def sign_tests)
next
  case nz: False
  show ?thesis
  proof (cases a rule: mpz_cases)
    case (1 v)
    show ?thesis
    proof (cases "k < 32")
      case True
      show ?thesis
      proof (cases "k = 31")
        case True
        then have "v sdiv INT_MIN = 0" "v sdiv 2 ^ 31 = 0"
          using sdiv_small[of v "2 ^ 31"] sdiv_small[of v INT_MIN] 1 assms by auto
        moreover have "signed_take_bit 31 (2 ^ 31 :: int) = INT_MIN" by (simp add: signed_take_bit_eq_if_negative)
        ultimately show ?thesis using 1 nz True by (simp add: machine_div2k_def sign_tests assms zval_def is_zero_def mpz_ok_def)
      next
        case False
        then have "(2::int) ^ k \<le> 2 ^ 30" using \<open>k < 32\<close> by (intro power_increasing) auto
        then have "signed_take_bit 31 (2 ^ k :: int) = 2 ^ k"
          by (intro signed_take_bit_int_eq_self) (auto intro: order_trans[of _ 0])
        then show ?thesis using 1 nz True sdiv_between[of "2 ^ k" v] assms(1)
          by (auto simp: machine_div2k_def is_zero_def zval_def mpz_ok_def Let_def)
      qed
    next
      case False
      then have "(2::int) ^ 32 \<le> 2 ^ k" by (intro power_increasing) auto
      then have "v sdiv 2 ^ k = 0" using sdiv_small[of v "2 ^ k"] 1 assms by auto
      then show ?thesis using 1 nz False by (simp add: machine_div2k_def is_zero_def zval_def mpz_ok_def)
    qed
  next
    case (2 s ds)
    then have s: "s = 1 \<or> s = - 1" using assms by simp
    define e b where "e = k div 32" and "b = k mod 32"
    have k: "k = 32 * e + b" "b < 32" by (simp_all add: e_def b_def)
    have q: "zval a sdiv 2 ^ k = s * int (nval ds div 2 ^ k)"
      using signed_division(1)[OF s, of 1 "nval ds" "2 ^ k"] 2 by simp
    show ?thesis
    proof (cases "length ds \<le> e")
      case True
      have "(2::nat) ^ (32 * length ds) \<le> 2 ^ k" using True k by (intro power_increasing) auto
      then have "nval ds div 2 ^ k = 0" using nval_less[of ds] by (intro div_less) linarith
      then show ?thesis using 2 True q nz assms by (simp add: machine_div2k_def sign_tests e_def)
    next
      case False
      define ds1 where "ds1 = (if b \<noteq> 0 then shift_right_loop b (drop e ds) else drop e ds)"
      have "length (take e ds) = e" using False by simp
      then have "nval ds = nval (take e ds) + 2 ^ (32 * e) * nval (drop e ds)" "nval (take e ds) < 2 ^ (32 * e)"
        using nval_append[of "take e ds" "drop e ds"] nval_less[of "take e ds"] by simp_all
      then have "nval (drop e ds) = nval ds div 2 ^ (32 * e)" by simp
      then have "nval ds1 = nval ds div 2 ^ k"
        using shr_digits_correct[of b "drop e ds"] k by (simp add: ds1_def shift_right_loop_shr div_mult2_eq power_add)
      moreover have "machine_div2k a k = set_tmp s ds1"
        using 2 False nz assms by (simp add: machine_div2k_def sign_tests e_def b_def ds1_def Let_def flip: normalize_mk_big) (simp add: mk_big_def)
      ultimately show ?thesis using set_tmp_correct[OF s, of ds1] q by simp
    qed
  qed
qed

text \<open>The exception: the divisor wraps to the number itself.\<close>

lemma machine_div2k_INT_MIN: "machine_div2k (mk_z INT_MIN) 31 = mk_z 1"
  by (simp add: machine_div2k_def mk_z_def is_zero_def signed_divide_int_def signed_take_bit_eq_if_negative)

lemma ensure_capacity_big:
  assumes "mpz_ok a" "1 < n"
  obtains s ds where "ensure_capacity a n = mk_big s ds" "s = 1 \<or> s = - 1" "zval a = s * int (nval ds)"
    "length ds = (case m_ptr a of None \<Rightarrow> 1 | Some ds \<Rightarrow> length ds)"
proof -
  obtain s ds where g: "get_sign_cell a = (s, ds)" by fastforce
  note c = get_sign_cell_correct[OF assms(1) g]
  have m: "m_ptr m_int_min = Some [2147483648]"
    by (simp add: m_int_min_def set_i64_def set_big_i64_def Let_def mk_big_def)
  have "ensure_capacity a n = mk_big s ds" using g assms(2)
    by (cases a) (auto simp: ensure_capacity_def get_sign_cell_def mk_big_def split: option.splits if_splits)
  moreover have "length ds = (case m_ptr a of None \<Rightarrow> 1 | Some ds \<Rightarrow> length ds)"
    using g m by (auto simp: get_sign_cell_def split: option.splits if_splits)
  ultimately show thesis using that c(1,3) by blast
qed

lemma mul2k_correct:
  assumes "mpz_ok a"
  shows "mpz_ok (mul2k a k) \<and> zval (mul2k a k) = zval a * 2 ^ k"
proof -
  consider "k = 0 \<or> zval a = 0" | "k \<noteq> 0" "zval a \<noteq> 0" "is_small a \<and> k < 32" | "k \<noteq> 0" "zval a \<noteq> 0" "\<not> (is_small a \<and> k < 32)"
    by blast
  then show ?thesis
  proof cases
    case 1
    then show ?thesis using assms by (auto simp: mul2k_def sign_tests)
  next
    case 2
    have "(2::int) ^ k \<le> 2 ^ 31" using 2(3) by (intro power_increasing) auto
    then have "\<bar>m_val a * 2 ^ k\<bar> \<le> 2 ^ 31 * 2 ^ 31" unfolding abs_mult
      using small_bounds[OF assms] 2(3) by (intro mult_mono) auto
    then show ?thesis using 2 set_i64_wrapped[of "m_val a * 2 ^ k"] small_bounds[OF assms] assms
      by (simp add: mul2k_def sign_tests)
  next
    case 3
    define e b where "e = k div 32" and "b = k mod 32"
    have k: "k = 32 * e + b" "b < 32" by (simp_all add: e_def b_def)
    define n where "n = (case m_ptr a of None \<Rightarrow> 1 | Some ds \<Rightarrow> length ds) + e + 1"
    have "1 < n" using assms by (auto simp: n_def mpz_ok_def split: option.splits)
    then obtain s ds where c: "ensure_capacity a n = mk_big s ds" "s = 1 \<or> s = - 1" "zval a = s * int (nval ds)"
        "length ds = (case m_ptr a of None \<Rightarrow> 1 | Some ds \<Rightarrow> length ds)"
      using ensure_capacity_big[OF assms] by metis
    have n: "n = length ds + e + 1" by (simp add: n_def c(4))
    define r where "r = replicate e 0 @ (if b > 0 then shift_left_loop b 0 (ds @ [0]) else ds @ [0])"
    have nots: "(k = 0 \<or> is_zero a) = False" "(is_small a \<and> k < 32) = False" using 3 assms by (auto simp: sign_tests)
    have c': "ensure_capacity a (Suc (length ds + e)) = \<lparr>m_val = s, m_ptr = Some ds\<rparr>" using c(1) n by (simp add: mk_big_def)
    have "mul2k a k = normalize \<lparr>m_val = s, m_ptr = Some r\<rparr>"
      by (simp add: mul2k_def nots Let_def r_def c(4)[symmetric] c' flip: e_def b_def)
    then have "mul2k a k = set_tmp s r" by (simp flip: normalize_mk_big) (simp add: mk_big_def)
    moreover have "nval r = nval ds * 2 ^ k"
    proof (cases "b = 0")
      case True
      then show ?thesis by (simp add: r_def k)
    next
      case False
      have "shift_left_loop b 0 (ds @ [0]) = shl_digits b 0 (ds @ [0])"
        using shift_left_loop_shl[of b 0 "ds @ [0]"] by (simp add: first_bits_def)
      then show ?thesis using shl_digits_correct[of b 0 "ds @ [0]"] False k
        by (simp add: r_def power_add mult.assoc mult.commute[of "nval ds"])
    qed
    ultimately show ?thesis using set_tmp_correct[OF c(2), of r] c(3) by simp
  qed
qed

end
