(* ===== verification/Mpz_Bitwise.thy ===== *)
theory Mpz_Bitwise
  imports Mpz_Bits "HOL-Library.Monad_Syntax"
begin

text \<open>
  Bitwise operations on non-negative multi-precision integers (mpz.cpp): big numbers are processed
  in chunks of 64 bits taken off by division and put together by multiplication. The three binary
  operations are one loop, verified for any operation on chunks that meets the locale
  \<open>chunked\<close>.
\<close>

unbundle bit_operations_syntax

section \<open>Operations\<close>

definition m_two64 :: mpz where
  "m_two64 = mpz_add (set_ui64 (- 1)) (mk_z 1)"

partial_function (option) bitwise_loop ::
  "(64 word \<Rightarrow> 64 word \<Rightarrow> 64 word) \<Rightarrow> mpz \<Rightarrow> mpz \<Rightarrow> mpz \<Rightarrow> mpz \<Rightarrow> (mpz \<times> mpz \<times> mpz \<times> mpz) option" where
  "bitwise_loop f a1 b1 m c =
     (if \<not> is_zero a1 \<and> \<not> is_zero b1 then
        do {
          a2 \<leftarrow> mpz_mod a1 m_two64;
          b2 \<leftarrow> mpz_mod b1 m_two64;
          let v = f (get_uint64 a2) (get_uint64 b2);
          let c' = mpz_add c (mpz_mul (set_ui64 v) m);
          let m' = mpz_mul m m_two64;
          a' \<leftarrow> mpz_div a1 m_two64;
          b' \<leftarrow> mpz_div b1 m_two64;
          bitwise_loop f a' b' m' c'
        }
      else Some (a1, b1, m, c))"

text \<open>What is left of the longer operand.\<close>

definition add_rest :: "mpz \<times> mpz \<times> mpz \<times> mpz \<Rightarrow> mpz" where
  "add_rest = (\<lambda>(a1, b1, m, c).
     let c1 = (if \<not> is_zero a1 then mpz_add c (mpz_mul a1 m) else c)
     in if \<not> is_zero b1 then mpz_add c1 (mpz_mul b1 m) else c1)"

definition bitwise_or :: "mpz \<Rightarrow> mpz \<Rightarrow> mpz option" where
  "bitwise_or a b =
     (if is_small a \<and> is_small b then Some (mk_z (m_val a OR m_val b))
      else map_option add_rest (bitwise_loop (OR) a b (mk_z 1) (mk_z 0)))"

definition bitwise_and :: "mpz \<Rightarrow> mpz \<Rightarrow> mpz option" where
  "bitwise_and a b =
     (if is_small a \<and> is_small b then Some (mk_z (m_val a AND m_val b))
      else map_option (\<lambda>(a1, b1, m, c). c) (bitwise_loop (AND) a b (mk_z 1) (mk_z 0)))"

definition bitwise_xor :: "mpz \<Rightarrow> mpz \<Rightarrow> mpz option" where
  "bitwise_xor a b =
     (if is_small a \<and> is_small b then Some (set_i64 (i64 (m_val a XOR m_val b)))
      else map_option add_rest (bitwise_loop (XOR) a b (mk_z 1) (mk_z 0)))"

function bitwise_not_loop :: "nat \<Rightarrow> mpz \<Rightarrow> mpz \<Rightarrow> mpz \<Rightarrow> mpz option" where
  "bitwise_not_loop sz a1 m c =
     (if sz > 0 then
        do {
          a2 \<leftarrow> mpz_mod a1 m_two64;
          let n = get_uint64 a2;
          let v = (if sz < 64 then (push_bit sz 1 - 1) AND NOT n else NOT n);
          let c' = mpz_add c (mpz_mul (set_ui64 v) m);
          let m' = mpz_mul m m_two64;
          a' \<leftarrow> mpz_div a1 m_two64;
          bitwise_not_loop (sz - (if sz < 64 then sz else 64)) a' m' c'
        }
      else Some c)"
  by pat_completeness auto
termination by (relation "measure (\<lambda>(sz, a1, m, c). sz)") auto

declare bitwise_not_loop.simps [simp del]

definition bitwise_not :: "nat \<Rightarrow> mpz \<Rightarrow> mpz option" where
  "bitwise_not sz a =
     (if is_small a \<and> sz \<le> 63 then
        let mask = i64 (i64 (2 ^ sz) - 1) in Some (set_i64 (NOT (m_val a) AND mask))
      else bitwise_not_loop sz a (mk_z 1) (mk_z 0))"

section \<open>Correctness\<close>

lemma m_two64_correct: "mpz_ok m_two64" "zval m_two64 = 2 ^ 64"
proof -
  have "uint (- 1 :: 64 word) = 2 ^ 64 - 1" by (simp add: uint_word_ariths)
  then show "mpz_ok m_two64" "zval m_two64 = 2 ^ 64"
    using mpz_add_correct[of "set_ui64 (- 1)" "mk_z 1"] set_ui64_correct[of "- 1"] by (simp_all add: m_two64_def)
qed

text \<open>The last chunk and the others.\<close>

lemma low_chunk:
  assumes "mpz_ok a"
  shows "\<exists>r. mpz_mod a m_two64 = Some r \<and> mpz_ok r \<and> get_uint64 r = word_of_int (zval a)"
proof -
  obtain r where r: "mpz_mod a m_two64 = Some r" "mpz_ok r" "zval r = zval a mod 2 ^ 64"
    using mpz_mod_correct[OF assms m_two64_correct(1)] m_two64_correct(2) by auto
  then have "is_uint64 r" by (simp add: is_uint64_iff)
  then have "uint (get_uint64 r) = zval a mod 2 ^ 64" using get_uint64_correct r(2,3) by simp
  then have "get_uint64 r = word_of_int (zval a)"
    by (intro word_uint_eqI) (simp add: uint_word_of_int)
  with r show ?thesis by blast
qed

lemma high_chunks:
  assumes "mpz_ok a"
  shows "\<exists>q. mpz_div a m_two64 = Some q \<and> mpz_ok q \<and> zval q = zval a div 2 ^ 64"
proof -
  obtain q where q: "mpz_div a m_two64 = Some q" "mpz_ok q" "2 ^ 64 * zval q + zval a mod 2 ^ 64 = zval a"
    using mpz_div_correct[OF assms m_two64_correct(1)] m_two64_correct(2) by auto
  then have "zval q = zval a div 2 ^ 64" using div_mult_mod_eq[of "zval a" "2 ^ 64"] by simp
  with q show ?thesis by blast
qed

lemma shrinks: "0 < (x::int) \<Longrightarrow> nat (x div 2 ^ 64) < nat x"
  by (simp add: int_div_less_self nat_mono_iff)

text \<open>An operation \<open>g\<close> on integers that works chunk by chunk with \<open>f\<close>.\<close>

locale chunked =
  fixes f :: "64 word \<Rightarrow> 64 word \<Rightarrow> 64 word" and g :: "int \<Rightarrow> int \<Rightarrow> int"
  assumes chunk: "g x y = uint (f (word_of_int x) (word_of_int y)) + 2 ^ 64 * g (x div 2 ^ 64) (y div 2 ^ 64)"
begin

lemma loop_correct:
  assumes "mpz_ok a" "mpz_ok b" "mpz_ok m" "mpz_ok c" "0 \<le> zval a" "0 \<le> zval b"
  shows "\<exists>a' b' m' c'. bitwise_loop f a b m c = Some (a', b', m', c')
    \<and> mpz_ok a' \<and> mpz_ok b' \<and> mpz_ok m' \<and> mpz_ok c' \<and> (zval a' = 0 \<or> zval b' = 0)
    \<and> zval c' + zval m' * g (zval a') (zval b') = zval c + zval m * g (zval a) (zval b)"
  using assms
proof (induction "nat (zval a)" arbitrary: a b m c rule: less_induct)
  case less
  show ?case
  proof (cases "zval a = 0 \<or> zval b = 0")
    case True
    then show ?thesis using less.prems by (subst bitwise_loop.simps) (auto simp: sign_tests)
  next
    case False
    obtain a2 where a2: "mpz_mod a m_two64 = Some a2" "get_uint64 a2 = word_of_int (zval a)"
      using low_chunk[OF less.prems(1)] by blast
    obtain b2 where b2: "mpz_mod b m_two64 = Some b2" "get_uint64 b2 = word_of_int (zval b)"
      using low_chunk[OF less.prems(2)] by blast
    obtain qa where qa: "mpz_div a m_two64 = Some qa" "mpz_ok qa" "zval qa = zval a div 2 ^ 64"
      using high_chunks[OF less.prems(1)] by blast
    obtain qb where qb: "mpz_div b m_two64 = Some qb" "mpz_ok qb" "zval qb = zval b div 2 ^ 64"
      using high_chunks[OF less.prems(2)] by blast
    define v where "v = f (word_of_int (zval a)) (word_of_int (zval b))"
    define c1 m1 where "c1 = mpz_add c (mpz_mul (set_ui64 v) m)" and "m1 = mpz_mul m m_two64"
    have c1: "mpz_ok c1" "zval c1 = zval c + uint v * zval m"
      using set_ui64_correct[of v] mpz_mul_correct[of "set_ui64 v" m] mpz_add_correct[of c "mpz_mul (set_ui64 v) m"] less.prems
      by (simp_all add: c1_def)
    have m1: "mpz_ok m1" "zval m1 = zval m * 2 ^ 64"
      using mpz_mul_correct[OF less.prems(3) m_two64_correct(1)] by (simp_all add: m1_def m_two64_correct(2))
    have step: "bitwise_loop f a b m c = bitwise_loop f qa qb m1 c1"
      using False less.prems a2 b2 qa(1) qb(1)
      by (subst bitwise_loop.simps) (simp add: sign_tests v_def c1_def m1_def Let_def)
    have "nat (zval qa) < nat (zval a)" unfolding qa(3) by (rule shrinks) (use False less.prems(5) in simp)
    moreover have "0 \<le> zval qa" "0 \<le> zval qb" using less.prems(5,6) qa(3) qb(3) by (simp_all add: pos_imp_zdiv_nonneg_iff)
    ultimately obtain a' b' m' c' where r: "bitwise_loop f qa qb m1 c1 = Some (a', b', m', c')"
        "mpz_ok a'" "mpz_ok b'" "mpz_ok m'" "mpz_ok c'" "zval a' = 0 \<or> zval b' = 0"
        "zval c' + zval m' * g (zval a') (zval b') = zval c1 + zval m1 * g (zval qa) (zval qb)"
      using less.hyps[OF _ qa(2) qb(2) m1(1) c1(1)] by metis
    have "zval c1 + zval m1 * g (zval qa) (zval qb) = zval c + zval m * g (zval a) (zval b)"
      using chunk[of "zval a" "zval b"] by (simp add: c1(2) m1(2) qa(3) qb(3) v_def distrib_left mult.assoc mult.commute)
    with r step show ?thesis by metis
  qed
qed

end

lemma chunk_bits:
  assumes "take_bit 64 z = uint w" "drop_bit 64 z = r"
  shows "z = uint w + 2 ^ 64 * (r :: int)"
  using assms by (metis bits_ident add.commute mult.commute push_bit_eq_mult)

interpretation or_chunks: chunked "(OR)" "(OR)"
  by unfold_locales (unfold drop_bit_eq_div[symmetric], rule chunk_bits,
    simp_all add: take_bit_or drop_bit_or unsigned_or_eq uint_word_of_int_eq)

interpretation and_chunks: chunked "(AND)" "(AND)"
  by unfold_locales (unfold drop_bit_eq_div[symmetric], rule chunk_bits,
    simp_all add: take_bit_and drop_bit_and unsigned_and_eq uint_word_of_int_eq)

interpretation xor_chunks: chunked "(XOR)" "(XOR)"
  by unfold_locales (unfold drop_bit_eq_div[symmetric], rule chunk_bits,
    simp_all add: take_bit_xor drop_bit_xor unsigned_xor_eq uint_word_of_int_eq)

lemma small_bitwise:
  assumes "0 \<le> x" "x \<le> INT_MAX" "0 \<le> y" "y \<le> INT_MAX"
  shows "INT_MIN \<le> x OR y \<and> x OR y \<le> INT_MAX" "INT_MIN \<le> x AND y \<and> x AND y \<le> INT_MAX" "INT_MIN \<le> x XOR y \<and> x XOR y \<le> INT_MAX"
proof -
  have t: "take_bit 31 x = x" "take_bit 31 y = y" using assms by (simp_all add: take_bit_int_eq_self)
  have le: "INT_MIN \<le> z \<and> z \<le> INT_MAX" if "take_bit 31 z = z" for z :: int
    using that by (simp add: take_bit_int_eq_self_iff)
  show "INT_MIN \<le> x OR y \<and> x OR y \<le> INT_MAX" "INT_MIN \<le> x AND y \<and> x AND y \<le> INT_MAX" "INT_MIN \<le> x XOR y \<and> x XOR y \<le> INT_MAX"
    by (rule le, simp only: take_bit_or take_bit_and take_bit_xor t)+
qed

lemma nonneg_small: "mpz_ok a \<Longrightarrow> 0 \<le> zval a \<Longrightarrow> is_small a \<Longrightarrow> m_val a = zval a \<and> 0 \<le> m_val a \<and> m_val a \<le> INT_MAX"
  using small_bounds[of a] by simp

lemma add_rest_correct:
  assumes "mpz_ok a" "mpz_ok b" "mpz_ok m" "mpz_ok c"
  shows "mpz_ok (add_rest (a, b, m, c)) \<and> zval (add_rest (a, b, m, c)) = zval c + zval m * zval a + zval m * zval b"
proof -
  define c1 where "c1 = (if \<not> is_zero a then mpz_add c (mpz_mul a m) else c)"
  have c1: "mpz_ok c1 \<and> zval c1 = zval c + zval m * zval a"
    using mpz_mul_correct[OF assms(1,3)] mpz_add_correct[OF assms(4), of "mpz_mul a m"] assms
    by (simp add: c1_def sign_tests mult.commute)
  have "add_rest (a, b, m, c) = (if \<not> is_zero b then mpz_add c1 (mpz_mul b m) else c1)"
    by (simp add: add_rest_def c1_def)
  then show ?thesis
    using c1 mpz_mul_correct[OF assms(2,3)] mpz_add_correct[of c1 "mpz_mul b m"] assms
    by (simp add: sign_tests mult.commute)
qed

text \<open>The operations whose loop ends with the rest of the longer operand.\<close>

lemma chunked_with_rest:
  assumes "chunked f g" "\<And>x. g x 0 = x" "\<And>x. g 0 x = x" "mpz_ok a" "mpz_ok b" "0 \<le> zval a" "0 \<le> zval b"
  shows "\<exists>r. map_option add_rest (bitwise_loop f a b (mk_z 1) (mk_z 0)) = Some r \<and> mpz_ok r \<and> zval r = g (zval a) (zval b)"
proof -
  obtain a' b' m' c' where r: "bitwise_loop f a b (mk_z 1) (mk_z 0) = Some (a', b', m', c')"
      "mpz_ok a'" "mpz_ok b'" "mpz_ok m'" "mpz_ok c'" "zval a' = 0 \<or> zval b' = 0"
      "zval c' + zval m' * g (zval a') (zval b') = g (zval a) (zval b)"
    using chunked.loop_correct[OF assms(1,4,5) _ _ assms(6,7), of "mk_z 1" "mk_z 0"] by auto
  then show ?thesis using add_rest_correct[OF r(2-5)] assms(2,3) by auto
qed

lemma bitwise_or_correct:
  assumes "mpz_ok a" "mpz_ok b" "0 \<le> zval a" "0 \<le> zval b"
  shows "\<exists>c. bitwise_or a b = Some c \<and> mpz_ok c \<and> zval c = zval a OR zval b"
proof (cases "is_small a \<and> is_small b")
  case True
  then show ?thesis using nonneg_small[of a] nonneg_small[of b] small_bitwise(1)[of "m_val a" "m_val b"] assms
    by (simp add: bitwise_or_def)
next
  case False
  then show ?thesis using chunked_with_rest[OF or_chunks.chunked_axioms _ _ assms] by (simp only: bitwise_or_def if_False) simp
qed

lemma bitwise_xor_correct:
  assumes "mpz_ok a" "mpz_ok b" "0 \<le> zval a" "0 \<le> zval b"
  shows "\<exists>c. bitwise_xor a b = Some c \<and> mpz_ok c \<and> zval c = zval a XOR zval b"
proof (cases "is_small a \<and> is_small b")
  case True
  then show ?thesis using nonneg_small[of a] nonneg_small[of b] small_bitwise(3)[of "m_val a" "m_val b"] assms
    set_i64_wrapped[of "m_val a XOR m_val b"] by (simp add: bitwise_xor_def)
next
  case False
  then show ?thesis using chunked_with_rest[OF xor_chunks.chunked_axioms _ _ assms] by (simp only: bitwise_xor_def if_False) simp
qed

lemma bitwise_and_correct:
  assumes "mpz_ok a" "mpz_ok b" "0 \<le> zval a" "0 \<le> zval b"
  shows "\<exists>c. bitwise_and a b = Some c \<and> mpz_ok c \<and> zval c = zval a AND zval b"
proof (cases "is_small a \<and> is_small b")
  case True
  then show ?thesis using nonneg_small[of a] nonneg_small[of b] small_bitwise(2)[of "m_val a" "m_val b"] assms
    by (simp add: bitwise_and_def)
next
  case False
  obtain a' b' m' c' where "bitwise_loop (AND) a b (mk_z 1) (mk_z 0) = Some (a', b', m', c')" "mpz_ok c'"
      "zval a' = 0 \<or> zval b' = 0" "zval c' + zval m' * (zval a' AND zval b') = zval a AND zval b"
    using and_chunks.loop_correct[OF assms(1,2) _ _ assms(3,4), of "mk_z 1" "mk_z 0"] by auto
  then show ?thesis using False by (auto simp: bitwise_and_def)
qed

lemma take_not_chunk:
  assumes "64 \<le> sz"
  shows "take_bit sz (NOT x) = uint (NOT (word_of_int x :: 64 word)) + 2 ^ 64 * take_bit (sz - 64) (NOT (x div 2 ^ 64 :: int))"
proof (rule chunk_bits)
  show "take_bit 64 (take_bit sz (NOT x)) = uint (NOT (word_of_int x :: 64 word))"
    using assms by (simp add: min_def unsigned_not_eq uint_word_of_int_eq take_bit_not_take_bit)
  have "drop_bit 64 (take_bit sz (NOT x)) = take_bit (sz - 64) (drop_bit 64 (NOT x))" by (rule drop_bit_take_bit)
  also have "drop_bit 64 (NOT x) = NOT (drop_bit 64 x)" by (rule bit_eqI) (simp add: bit_simps)
  finally show "drop_bit 64 (take_bit sz (NOT x)) = take_bit (sz - 64) (NOT (x div 2 ^ 64))" by (simp add: drop_bit_eq_div)
qed

lemma not_last_chunk:
  assumes "sz < 64"
  shows "uint ((push_bit sz 1 - 1) AND NOT (word_of_int x :: 64 word)) = take_bit sz (NOT (x :: int))"
proof -
  have "(push_bit sz 1 - 1) AND NOT (word_of_int x :: 64 word) = take_bit sz (NOT (word_of_int x))"
    by (simp add: take_bit_eq_mask mask_eq_exp_minus_1 push_bit_eq_mult and.commute)
  then show ?thesis using assms
    by (simp add: unsigned_take_bit_eq unsigned_not_eq uint_word_of_int_eq take_bit_not_take_bit min_def)
qed

lemma bitwise_not_loop_correct:
  assumes "mpz_ok a" "mpz_ok m" "mpz_ok c"
  shows "\<exists>r. bitwise_not_loop sz a m c = Some r \<and> mpz_ok r \<and> zval r = zval c + zval m * take_bit sz (NOT (zval a))"
  using assms
proof (induction sz arbitrary: a m c rule: less_induct)
  case (less sz)
  show ?case
  proof (cases "sz = 0")
    case True
    then show ?thesis using less.prems by (simp add: bitwise_not_loop.simps)
  next
    case False
    obtain a2 where a2: "mpz_mod a m_two64 = Some a2" "get_uint64 a2 = word_of_int (zval a)"
      using low_chunk[OF less.prems(1)] by blast
    obtain qa where qa: "mpz_div a m_two64 = Some qa" "mpz_ok qa" "zval qa = zval a div 2 ^ 64"
      using high_chunks[OF less.prems(1)] by blast
    define v where "v = (if sz < 64 then (push_bit sz 1 - 1) AND NOT (word_of_int (zval a)) else NOT (word_of_int (zval a) :: 64 word))"
    define c1 m1 s1 where "c1 = mpz_add c (mpz_mul (set_ui64 v) m)" and "m1 = mpz_mul m m_two64"
      and "s1 = sz - (if sz < 64 then sz else 64)"
    have c1: "mpz_ok c1" "zval c1 = zval c + uint v * zval m"
      using set_ui64_correct[of v] mpz_mul_correct[of "set_ui64 v" m] mpz_add_correct[of c "mpz_mul (set_ui64 v) m"] less.prems
      by (simp_all add: c1_def)
    have m1: "mpz_ok m1" "zval m1 = zval m * 2 ^ 64"
      using mpz_mul_correct[OF less.prems(2) m_two64_correct(1)] by (simp_all add: m1_def m_two64_correct(2))
    have step: "bitwise_not_loop sz a m c = bitwise_not_loop s1 qa m1 c1"
      using False a2 qa(1) by (simp add: bitwise_not_loop.simps[of sz] v_def c1_def m1_def s1_def Let_def)
    have chunk: "take_bit sz (NOT (zval a)) = uint v + 2 ^ 64 * take_bit s1 (NOT (zval qa))"
      using take_not_chunk[of sz "zval a"] not_last_chunk[of sz "zval a"] by (simp add: v_def s1_def qa(3))
    have "s1 < sz" using False by (simp add: s1_def)
    from less.IH[OF this qa(2) m1(1) c1(1)] step show ?thesis
      by (auto simp: c1(2) m1(2) chunk distrib_left mult.assoc mult.commute)
  qed
qed

lemma bitwise_not_correct:
  assumes "mpz_ok a"
  shows "\<exists>c. bitwise_not sz a = Some c \<and> mpz_ok c \<and> zval c = take_bit sz (NOT (zval a))"
proof (cases "is_small a \<and> sz \<le> 63")
  case True
  have "i64 (i64 (2 ^ sz) - 1) = mask sz"
  proof (cases "sz = 63")
    case True
    then show ?thesis by (simp add: i64_def mask_eq_exp_minus_1 signed_take_bit_eq_if_negative)
  next
    case False
    have "(2::int) ^ sz \<le> 2 ^ 62" using True False by (intro power_increasing) auto
    then have "(2::int) ^ sz \<le> 4611686018427387904" "(1::int) \<le> 2 ^ sz" by simp_all
    then have "- 9223372036854775808 \<le> (2::int) ^ sz" "(2::int) ^ sz < 9223372036854775808"
      "- 9223372036854775808 \<le> (2::int) ^ sz - 1" "(2::int) ^ sz - 1 < 9223372036854775808" by linarith+
    then have "i64 (2 ^ sz) = 2 ^ sz" "i64 (2 ^ sz - 1) = 2 ^ sz - 1" using i64_id[of "2 ^ sz"] i64_id[of "2 ^ sz - 1"] by simp_all
    then show ?thesis by (simp add: mask_eq_exp_minus_1)
  qed
  moreover have "NOT (m_val a) AND mask sz = take_bit sz (NOT (zval a))"
    using small_bounds[OF assms] True by (simp add: take_bit_eq_mask)
  moreover have "take_bit sz (NOT (zval a)) < 2 ^ 63"
  proof (rule order.strict_trans2[OF take_bit_int_less_exp])
    show "(2::int) ^ sz \<le> 2 ^ 63" using True by (intro power_increasing) auto
  qed
  moreover have "- (2 ^ 63) \<le> take_bit sz (NOT (zval a))" by (rule order_trans[OF _ take_bit_nonnegative]) simp
  ultimately show ?thesis using True set_i64_correct[of "take_bit sz (NOT (zval a))"] by (simp add: bitwise_not_def)
next
  case False
  then show ?thesis using bitwise_not_loop_correct[OF assms, of "mk_z 1" "mk_z 0" sz]
    by (simp only: bitwise_not_def False if_False) simp
qed

end
