(* ===== verification/Mpz_Roots.thy ===== *)
theory Mpz_Roots
  imports Mpz_Bits Mpz_Normal "HOL-Library.Monad_Syntax"
begin

text \<open>
  Powers and integer roots of multi-precision integers (mpz.cpp): exponentiation by squaring with its
  shortcuts for small bases, the test for perfect squares and the \<open>n\<close>-th root, both by bisection.
  The exponent is an \<^verbatim>\<open>unsigned\<close>; from \<open>2 ^ 31\<close> on the mask of the squaring loop wraps to zero and the
  loop does not end.
\<close>

unbundle bit_operations_syntax

section \<open>Powers\<close>

text \<open>The loop is the same for integers and for rationals, whose multiplication is \<open>mul\<close>.\<close>

partial_function (option) power_loop :: "('a \<Rightarrow> 'a \<Rightarrow> 'a option) \<Rightarrow> mpn_digit \<Rightarrow> mpn_digit \<Rightarrow> 'a \<Rightarrow> 'a \<Rightarrow> 'a option" where
  "power_loop mul p msk pow b =
     (if msk \<le> p then do {
        b' \<leftarrow> (if msk AND p \<noteq> 0 then mul b pow else Some b);
        pow' \<leftarrow> mul pow pow;
        power_loop mul p (push_bit 1 msk) pow' b'
      }
      else Some b)"

definition power_of_two_digits :: "nat \<Rightarrow> mpn_digit list" where
  "power_of_two_digits p = (let sz = p div 32 + 1; shift = p mod 32 in replicate (sz - 1) 0 @ [push_bit shift 1])"

definition mpz_power :: "mpz \<Rightarrow> mpn_digit \<Rightarrow> mpz option" where
  "mpz_power a p =
     (if is_small a \<and> m_val a = 2 then
        Some (if p < 31 then mk_z (2 ^ unat p) else mk_big 1 (power_of_two_digits (unat p)))
      else if is_small a \<and> m_val a = 0 then Some (mk_z 0)
      else if is_small a \<and> m_val a = 1 then Some (mk_z 1)
      else power_loop (\<lambda>x y. Some (mpz_mul x y)) p 1 a (mk_z 1))"

section \<open>Square roots\<close>

text \<open>The loop returns the answer with the value it stores in \<^verbatim>\<open>root\<close>.\<close>

partial_function (option) square_loop :: "mpz \<Rightarrow> mpz \<Rightarrow> mpz \<Rightarrow> mpz \<Rightarrow> mpz \<Rightarrow> (bool \<times> mpz) option" where
  "square_loop a lo hi sq_lo sq_hi =
     (if mpz_eq sq_lo a then Some (True, lo)
      else if mpz_eq (mpz_add lo (mk_z 1)) hi then Some (False, hi)
      else do {
        mid \<leftarrow> mpz_div (mpz_add hi lo) (mk_z 2);
        let sq_mid = mpz_mul mid mid;
        (if mpz_gt sq_mid a then square_loop a lo mid sq_lo sq_mid else square_loop a mid hi sq_mid sq_hi)
      })"

definition is_perfect_square :: "mpz \<Rightarrow> mpz \<Rightarrow> (bool \<times> mpz) option" where
  "is_perfect_square a root =
     (if is_neg a then Some (False, root)
      else if is_zero a then Some (True, mk_z 0)
      else if is_one a then Some (True, mk_z 1)
      else square_loop a (mk_z 1) a (mk_z 1) (mpz_mul a a))"

section \<open>Roots\<close>

definition div_l :: "nat \<Rightarrow> nat \<Rightarrow> nat" where
  "div_l k n = k div n"

definition div_u :: "nat \<Rightarrow> nat \<Rightarrow> nat" where
  "div_u k n = (if k mod n = 0 then k div n else k div n + 1)"

partial_function (option) root_loop :: "mpz \<Rightarrow> mpn_digit \<Rightarrow> mpz \<Rightarrow> mpz \<Rightarrow> (bool \<times> mpz) option" where
  "root_loop a n lower upper =
     (let mid = machine_div2k (mpz_add upper lower) 1
      in do {
        mid_n \<leftarrow> mpz_power mid n;
        (if mpz_eq mid_n a then Some (True, mid)
         else if mpz_eq mid lower \<or> mpz_eq mid upper then Some (False, upper)
         else if mpz_lt mid_n a then root_loop a n mid upper
         else root_loop a n lower mid)
      })"

text \<open>\<^verbatim>\<open>n\<close> is not zero: the code divides by it.\<close>

definition mpz_root :: "mpz \<Rightarrow> mpn_digit \<Rightarrow> (bool \<times> mpz) option" where
  "mpz_root a n =
     (if is_zero a then Some (True, a)
      else if n = 0 then None
      else do {
        (lower, upper) \<leftarrow>
          (if is_pos a then
             let k = mpz_log2 a
             in do {
               lower \<leftarrow> mpz_power (mk_z 2) (of_nat (div_l k (unat n)));
               upper \<leftarrow> mpz_power (mk_z 2) (of_nat (div_u (k + 1) (unat n)));
               Some (lower, upper)
             }
           else
             let k = mlog2 a
             in do {
               lower \<leftarrow> mpz_power (mk_z 2) (of_nat (div_u (k + 1) (unat n)));
               upper \<leftarrow> mpz_power (mk_z 2) (of_nat (div_l k (unat n)));
               Some (mpz_neg lower, mpz_neg upper)
             });
        (if mpz_eq lower upper then Some (True, lower) else root_loop a n lower upper)
      })"

section \<open>Powers: correctness\<close>

lemma power_of_two_digits_correct:
  "nval (power_of_two_digits p) = 2 ^ p" "power_of_two_digits p \<noteq> []" "last (power_of_two_digits p) \<noteq> 0"
proof -
  have b: "p mod 32 < 32" by simp
  then have "(2::nat) ^ (p mod 32) < 2 ^ 32" by (intro power_strict_increasing) auto
  then have u: "unat (push_bit (p mod 32) 1 :: mpn_digit) = 2 ^ (p mod 32)"
    unfolding unat_push_bit_digit by simp
  have "32 * (p div 32) + p mod 32 = p" by simp
  then show "nval (power_of_two_digits p) = 2 ^ p"
    using u by (simp add: power_of_two_digits_def Let_def flip: power_add)
  show "power_of_two_digits p \<noteq> []" by (simp add: power_of_two_digits_def Let_def)
  have "(push_bit (p mod 32) 1 :: mpn_digit) \<noteq> 0" using u by (auto simp: word_unat_eq_iff)
  then show "last (power_of_two_digits p) \<noteq> 0" by (simp add: power_of_two_digits_def Let_def)
qed

lemma mask_shifted:
  assumes "unat (msk :: mpn_digit) = 2 ^ i" "i < 31"
  shows "unat (push_bit 1 msk) = 2 ^ Suc i"
proof -
  have "(2::nat) ^ Suc i < 2 ^ 32" using assms(2) by (intro power_strict_increasing) auto
  then show ?thesis using assms(1) unfolding unat_push_bit_digit by (simp add: mult.commute)
qed

lemma mask_bit:
  assumes "unat (msk :: mpn_digit) = 2 ^ i" "i < 31"
  shows "msk AND p \<noteq> 0 \<longleftrightarrow> odd (unat p div 2 ^ i)"
proof -
  have "(2::nat) ^ i < 2 ^ 32" using assms(2) by (intro power_strict_increasing) auto
  then have e: "msk = push_bit i 1" unfolding word_unat_eq_iff unat_push_bit_digit using assms(1) by simp
  have "msk AND p = (if bit p i then push_bit i 1 else 0)"
    using assms(2) by (intro bit_eqI) (auto simp: e bit_simps)
  moreover have "(push_bit i 1 :: mpn_digit) \<noteq> 0" using e assms by auto
  moreover have "bit p i \<longleftrightarrow> odd (unat p div 2 ^ i)"
    using assms(2) bit_unsigned_iff[of p i, where ?'a = nat] by (simp add: bit_iff_odd[of "unat p"])
  ultimately show ?thesis by simp
qed

lemma power_loop_zero_mask: "power_loop mul p 0 pow b = None"
proof -
  have "msk \<noteq> 0" if "power_loop mul p msk pow b = Some r" for msk r
    using that
  proof (induction rule: power_loop.raw_induct[rotated 1, consumes 1])
    fix power_loop :: "('a \<Rightarrow> 'a \<Rightarrow> 'a option) \<Rightarrow> mpn_digit \<Rightarrow> mpn_digit \<Rightarrow> 'a \<Rightarrow> 'a \<Rightarrow> 'a option" and mul p msk pow b y
    assume IH: "\<And>mul p msk pow b y. power_loop mul p msk pow b = Some y \<Longrightarrow> msk \<noteq> 0"
      and y: "(if msk \<le> p then do { b' \<leftarrow> (if msk AND p \<noteq> 0 then mul b pow else Some b); pow' \<leftarrow> mul pow pow;
          power_loop mul p (push_bit 1 msk) pow' b' } else Some b) = Some y"
    show "msk \<noteq> 0"
    proof
      assume z: "msk = 0"
      then obtain pow' b' where "power_loop mul p (push_bit 1 msk) pow' b' = Some y" using y by (auto simp: bind_eq_Some_conv)
      from IH[OF this] z show False by simp
    qed
  qed
  then show ?thesis by (metis option.exhaust)
qed

text \<open>What the loop needs of a multiplication: it returns on the numbers of the manager, and is the
  multiplication of their values.\<close>

locale multiplication =
  fixes mul :: "'a \<Rightarrow> 'a \<Rightarrow> 'a option"
    and ok :: "'a \<Rightarrow> bool"
    and val :: "'a \<Rightarrow> 'r::comm_monoid_mult"
  assumes mul_val: "ok a \<Longrightarrow> ok b \<Longrightarrow> \<exists>c. mul a b = Some c \<and> ok c \<and> val c = val a * val b"
begin

text \<open>With \<open>i\<close> rounds done the mask is \<open>2 ^ i\<close>, and the bits of \<open>p\<close> from \<open>i\<close> on are still to come.\<close>

lemma loop_returns:
  assumes "unat p < 2 ^ 31" "ok pow" "ok b" "i < 32" "unat msk = 2 ^ i"
  shows "\<exists>r. power_loop mul p msk pow b = Some r \<and> ok r \<and> val r = val b * val pow ^ (unat p div 2 ^ i)"
  using assms
proof (induction "32 - i" arbitrary: i msk pow b rule: less_induct)
  case less
  have le: "msk \<le> p \<longleftrightarrow> 2 ^ i \<le> unat p" using less.prems(5) by (simp add: word_le_nat_alt)
  show ?case
  proof (cases "msk \<le> p")
    case False
    then have "unat p div 2 ^ i = 0" using le by simp
    then show ?thesis using False less.prems by (subst power_loop.simps) simp
  next
    case True
    then have "(2::nat) ^ i < 2 ^ 31" using le less.prems(1) by linarith
    then have i: "i < 31" by (rule power_less_imp_less_exp[rotated]) simp
    define e where "e = unat p div 2 ^ i"
    note m = mask_shifted[OF less.prems(5) i] and bit = mask_bit[OF less.prems(5) i, of p]
    obtain b' where b: "(if msk AND p \<noteq> 0 then mul b pow else Some b) = Some b'" "ok b'" "val b' = val b * val pow ^ (e mod 2)"
      using mul_val[OF less.prems(3,2)] less.prems(3) bit by (auto simp: e_def odd_iff_mod_2_eq_one)
    obtain pow' where sq: "mul pow pow = Some pow'" "ok pow'" "val pow' = val pow ^ 2"
      using mul_val[OF less.prems(2,2)] by (auto simp: power2_eq_square)
    have "32 - Suc i < 32 - i" "Suc i < 32" using i by simp_all
    then obtain r where r: "power_loop mul p (push_bit 1 msk) pow' b' = Some r" "ok r"
        "val r = val b' * val pow' ^ (unat p div 2 ^ Suc i)"
      using less.hyps[OF _ less.prems(1) sq(2) b(2) _ m] by blast
    have "unat p div 2 ^ Suc i = e div 2" unfolding e_def power_Suc2 by (rule div_mult2_eq)
    then have "val r = val b * (val pow ^ (e mod 2) * (val pow ^ 2) ^ (e div 2))"
      unfolding r(3) b(3) sq(3) by (simp only: mult.assoc)
    also have "val pow ^ (e mod 2) * (val pow ^ 2) ^ (e div 2) = val pow ^ (e mod 2 + 2 * (e div 2))"
      by (simp only: power_add power_mult)
    finally have "val r = val b * val pow ^ (unat p div 2 ^ i)" by (simp add: e_def)
    moreover have "power_loop mul p msk pow b = Some r"
      by (subst power_loop.simps) (simp only: True if_True b(1) sq(1) r(1) bind.bind_lunit)
    ultimately show ?thesis using r(2) by blast
  qed
qed

text \<open>From \<open>2 ^ 31\<close> on the mask becomes zero and the loop does not end.\<close>

lemma loop_wraps:
  assumes "2 ^ 31 \<le> unat p" "unat msk = 2 ^ i" "i < 32"
  shows "power_loop mul p msk pow b = None"
  using assms
proof (induction "32 - i" arbitrary: i msk pow b rule: less_induct)
  case less
  have "(2::nat) ^ i \<le> 2 ^ 31" using less.prems(3) by (intro power_increasing) auto
  then have le: "msk \<le> p" using less.prems(1,2) by (simp add: word_le_nat_alt)
  have next_round: "power_loop mul p (push_bit 1 msk) pow' b' = None" for pow' b'
  proof (cases "i = 31")
    case True
    then have "unat (push_bit 1 msk) = 0" using less.prems(2) unfolding unat_push_bit_digit by simp
    then have "push_bit 1 msk = 0" by (simp only: unat_eq_zero)
    then show ?thesis by (simp only: power_loop_zero_mask)
  next
    case False
    then have "unat (push_bit 1 msk) = 2 ^ Suc i" using less.prems(2,3) by (intro mask_shifted) simp_all
    then show ?thesis using less.hyps[of "Suc i"] less.prems(1,3) False by simp
  qed
  have "(x \<bind> (\<lambda>b'. y \<bind> (\<lambda>pow'. None))) = (None :: 'a option)" for x y :: "'a option"
    by (cases x; cases y) simp_all
  then show ?case using le by (subst power_loop.simps) (simp only: if_True next_round)
qed

lemma power_returns:
  assumes "unat p < 2 ^ 31" "ok a" "ok one" "val one = 1"
  shows "\<exists>r. power_loop mul p 1 a one = Some r \<and> ok r \<and> val r = val a ^ unat p"
  using loop_returns[OF assms(1-3), of 0 1] assms(4) by simp

lemma power_diverges: "2 ^ 31 \<le> unat p \<Longrightarrow> power_loop mul p 1 a one = None"
  using loop_wraps[of p 1 0] by simp

end

interpretation zmul: multiplication "\<lambda>x y. Some (mpz_mul x y)" mpz_ok zval
  by unfold_locales (simp add: mpz_mul_correct)

text \<open>A power returns for exponents below \<open>2 ^ 31\<close>. The zeroth power of zero is zero.\<close>

lemma mpz_power_correct:
  assumes "mpz_ok a" "unat p < 2 ^ 31" "zval a \<noteq> 0 \<or> p \<noteq> 0"
  shows "\<exists>r. mpz_power a p = Some r \<and> mpz_ok r \<and> zval r = zval a ^ unat p"
proof -
  consider "is_small a" "m_val a = 2" | "is_small a" "m_val a = 0" | "is_small a" "m_val a = 1"
    | "\<not> (is_small a \<and> m_val a = 2)" "\<not> (is_small a \<and> m_val a = 0)" "\<not> (is_small a \<and> m_val a = 1)" by blast
  then show ?thesis
  proof cases
    case 1
    then have z: "zval a = 2" using small_bounds[OF assms(1)] by simp
    show ?thesis
    proof (cases "p < 31")
      case True
      then have "unat p \<le> 30" by (simp add: word_less_nat_alt)
      then have "(2::int) ^ unat p \<le> 2 ^ 30" by (intro power_increasing) auto
      then have "INT_MIN \<le> (2::int) ^ unat p" "(2::int) ^ unat p \<le> INT_MAX"
        using order_trans[of INT_MIN 0 "(2::int) ^ unat p"] by simp_all
      then show ?thesis using 1 True z by (simp add: mpz_power_def)
    next
      case False
      then show ?thesis using 1 z power_of_two_digits_correct[of "unat p"] by (simp add: mpz_power_def)
    qed
  next
    case 2
    then have "zval a = 0" "p \<noteq> 0" using small_bounds[OF assms(1)] assms(3) by simp_all
    then show ?thesis using 2 unat_gt_0[of p] by (simp add: mpz_power_def)
  next
    case 3
    then have "zval a = 1" using small_bounds[OF assms(1)] by simp
    then show ?thesis using 3 by (simp add: mpz_power_def)
  next
    case 4
    then have "mpz_power a p = power_loop (\<lambda>x y. Some (mpz_mul x y)) p 1 a (mk_z 1)" by (simp only: mpz_power_def if_False)
    then show ?thesis using zmul.power_returns[OF assms(2,1), of "mk_z 1"] by simp
  qed
qed

lemma mpz_power_diverges:
  assumes "mpz_ok a" "zval a \<notin> {0, 1, 2}" "2 ^ 31 \<le> unat p"
  shows "mpz_power a p = None"
proof -
  have "mpz_power a p = power_loop (\<lambda>x y. Some (mpz_mul x y)) p 1 a (mk_z 1)"
    using small_bounds[OF assms(1)] assms(2) by (auto simp: mpz_power_def)
  then show ?thesis using zmul.power_diverges[OF assms(3)] by simp
qed

lemma power_of_two_base: "\<exists>r. mpz_power (mk_z 2) p = Some r \<and> mpz_ok r \<and> zval r = 2 ^ unat p"
proof (cases "p < 31")
  case True
  then have "unat p < 2 ^ 31" by (simp add: word_less_nat_alt)
  then show ?thesis using mpz_power_correct[of "mk_z 2" p] by simp
next
  case False
  then show ?thesis using power_of_two_digits_correct[of "unat p"] by (simp add: mpz_power_def)
qed

section \<open>Square roots: correctness\<close>

lemma half_between: "(l::int) + 1 < h \<Longrightarrow> l < (h + l) div 2 \<and> (h + l) div 2 < h"
  by linarith

lemma square_mono: "0 \<le> x \<Longrightarrow> x * x < y * y \<Longrightarrow> 0 \<le> y \<Longrightarrow> x < (y::int)"
  by (meson mult_mono not_less)

lemma square_loop_correct:
  assumes "mpz_ok a" "mpz_ok lo" "mpz_ok hi" "mpz_ok sq_lo" "1 \<le> zval lo" "zval lo < zval hi"
    and "zval sq_lo = zval lo * zval lo" "zval lo * zval lo \<le> zval a" "zval a < zval hi * zval hi"
  shows "\<exists>res root. square_loop a lo hi sq_lo sq_hi = Some (res, root) \<and> mpz_ok root \<and> 0 < zval root
    \<and> (if res then zval root * zval root = zval a
       else (zval root - 1) * (zval root - 1) < zval a \<and> zval a < zval root * zval root)"
  using assms
proof (induction "nat (zval hi - zval lo)" arbitrary: lo hi sq_lo sq_hi rule: less_induct)
  case less
  note ok = less.prems(1-4)
  have one: "mpz_ok (mpz_add lo (mk_z 1))" "zval (mpz_add lo (mk_z 1)) = zval lo + 1"
    using mpz_add_correct[OF ok(2), of "mk_z 1"] by simp_all
  have sum: "mpz_ok (mpz_add hi lo)" "zval (mpz_add hi lo) = zval hi + zval lo"
    using mpz_add_correct[OF ok(3,2)] by simp_all
  obtain mid where mid: "mpz_div (mpz_add hi lo) (mk_z 2) = Some mid" "mpz_ok mid" "zval mid = (zval hi + zval lo) div 2"
  proof -
    obtain q where q: "mpz_div (mpz_add hi lo) (mk_z 2) = Some q" "mpz_ok q" "2 * zval q + (zval hi + zval lo) mod 2 = zval hi + zval lo"
      using mpz_div_correct[OF sum(1), of "mk_z 2"] sum(2) by auto
    then have "zval q = (zval hi + zval lo) div 2" by linarith
    with q that show thesis by blast
  qed
  have sq: "mpz_ok (mpz_mul mid mid)" "zval (mpz_mul mid mid) = zval mid * zval mid" using mpz_mul_correct[OF mid(2,2)] by simp_all
  consider "zval sq_lo = zval a" | "zval sq_lo \<noteq> zval a" "zval lo + 1 = zval hi"
    | "zval sq_lo \<noteq> zval a" "zval lo + 1 < zval hi" using less.prems(6) by linarith
  then show ?case
  proof cases
    case 1
    then have "square_loop a lo hi sq_lo sq_hi = Some (True, lo)"
      using ok by (subst square_loop.simps) (simp add: mpz_compare_correct)
    moreover have "zval lo * zval lo = zval a" using 1 less.prems(7) by simp
    ultimately show ?thesis using ok(2) less.prems(5) by (intro exI[of _ True] exI[of _ lo]) simp
  next
    case 2
    then have "square_loop a lo hi sq_lo sq_hi = Some (False, hi)"
      using ok one by (subst square_loop.simps) (simp add: mpz_compare_correct)
    moreover have "zval hi - 1 = zval lo" using 2 by simp
    moreover have "zval lo * zval lo < zval a" using 2(1) less.prems(7,8) by simp
    ultimately show ?thesis using ok(3) less.prems(5,6,9) by (intro exI[of _ False] exI[of _ hi]) simp
  next
    case 3
    note m = half_between[OF 3(2), folded mid(3)]
    have step: "square_loop a lo hi sq_lo sq_hi = (if zval a < zval mid * zval mid
        then square_loop a lo mid sq_lo (mpz_mul mid mid) else square_loop a mid hi (mpz_mul mid mid) sq_hi)"
      using 3 ok one mid(1,2) sq by (subst square_loop.simps) (simp add: mpz_compare_correct Let_def)
    show ?thesis
    proof (cases "zval a < zval mid * zval mid")
      case True
      then show ?thesis unfolding step using less.hyps[of mid lo sq_lo "mpz_mul mid mid"] m mid(2) less.prems by simp
    next
      case False
      then show ?thesis unfolding step using less.hyps[of hi mid "mpz_mul mid mid" sq_hi] m mid(2) sq less.prems by simp
    qed
  qed
qed

lemma is_perfect_square_correct:
  assumes "mpz_ok a" "0 \<le> zval a"
  shows "\<exists>res root'. is_perfect_square a root = Some (res, root') \<and> mpz_ok root' \<and> 0 \<le> zval root'
    \<and> (if res then zval root' * zval root' = zval a
       else (zval root' - 1) * (zval root' - 1) < zval a \<and> zval a < zval root' * zval root')"
proof -
  consider "zval a = 0" | "is_one a" | "zval a \<noteq> 0" "\<not> is_one a" by blast
  then show ?thesis
  proof cases
    case 2
    then have "zval a = 1" by (rule is_one_zval(1)[OF assms(1)])
    then have "is_perfect_square a root = Some (True, mk_z 1)"
      using 2 assms by (simp add: is_perfect_square_def sign_tests)
    then show ?thesis using \<open>zval a = 1\<close> by (intro exI[of _ True] exI[of _ "mk_z 1"]) simp
  next
    case 3
    have e: "is_perfect_square a root = square_loop a (mk_z 1) a (mk_z 1) (mpz_mul a a)"
      using 3 assms by (simp add: is_perfect_square_def sign_tests)
    show ?thesis
    proof (cases "zval a = 1")
      case True
      then have "mpz_eq (mk_z 1) a" using assms(1) by (simp add: mpz_compare_correct)
      then have "square_loop a (mk_z 1) a (mk_z 1) (mpz_mul a a) = Some (True, mk_z 1)" by (subst square_loop.simps) simp
      then show ?thesis using e True by (intro exI[of _ True] exI[of _ "mk_z 1"]) simp
    next
      case False
      then have a: "1 < zval a" using 3 assms(2) by simp
      then have "zval a < zval a * zval a" by simp
      then have "\<exists>res r. square_loop a (mk_z 1) a (mk_z 1) (mpz_mul a a) = Some (res, r) \<and> mpz_ok r \<and> 0 < zval r
          \<and> (if res then zval r * zval r = zval a else (zval r - 1) * (zval r - 1) < zval a \<and> zval a < zval r * zval r)"
        using a by (intro square_loop_correct assms(1)) simp_all
      then obtain res r where r: "square_loop a (mk_z 1) a (mk_z 1) (mpz_mul a a) = Some (res, r)" "mpz_ok r" "0 < zval r"
          "if res then zval r * zval r = zval a else (zval r - 1) * (zval r - 1) < zval a \<and> zval a < zval r * zval r" by blast
      show ?thesis unfolding e using r by (intro exI[of _ res] exI[of _ r] conjI less_imp_le)
    qed
  next
    case 1
    then have "is_perfect_square a root = Some (True, mk_z 0)"
      using assms by (simp add: is_perfect_square_def sign_tests)
    then show ?thesis using 1 by (intro exI[of _ True] exI[of _ "mk_z 0"]) simp
  qed
qed

text \<open>What is stored in \<^verbatim>\<open>root\<close> is in normal form when the inputs are.\<close>

lemma square_loop_normal:
  assumes "square_loop a lo hi sq_lo sq_hi = Some y"
  shows "mpz_normal lo \<longrightarrow> mpz_normal hi \<longrightarrow> mpz_normal (snd y)"
  using assms
proof (induction rule: square_loop.raw_induct[rotated 1, consumes 1])
  fix square_loop a lo hi sq_lo sq_hi and y :: "bool \<times> mpz"
  assume IH: "\<And>a lo hi sq_lo sq_hi y. square_loop a lo hi sq_lo sq_hi = Some y \<Longrightarrow>
      mpz_normal lo \<longrightarrow> mpz_normal hi \<longrightarrow> mpz_normal (snd y)"
    and y: "(if mpz_eq sq_lo a then Some (True, lo)
      else if mpz_eq (mpz_add lo (mk_z 1)) hi then Some (False, hi)
      else do {
        mid \<leftarrow> mpz_div (mpz_add hi lo) (mk_z 2);
        let sq_mid = mpz_mul mid mid;
        (if mpz_gt sq_mid a then square_loop a lo mid sq_lo sq_mid else square_loop a mid hi sq_mid sq_hi)
      }) = Some y"
  show "mpz_normal lo \<longrightarrow> mpz_normal hi \<longrightarrow> mpz_normal (snd y)"
  proof (intro impI)
    assume n: "mpz_normal lo" "mpz_normal hi"
    have "mpz_normal mid" if "mpz_div (mpz_add hi lo) (mk_z 2) = Some mid" for mid
      using normal_div[OF normal_add _ that] n by simp
    then show "mpz_normal (snd y)"
      using y n by (auto simp: bind_eq_Some_conv Let_def split: if_splits dest!: IH)
  qed
qed

lemma is_perfect_square_normal:
  assumes "is_perfect_square a root = Some (res, root')" "mpz_normal a" "mpz_normal root"
  shows "mpz_normal root'"
  using assms square_loop_normal[of a "mk_z 1" a "mk_z 1" "mpz_mul a a" "(res, root')"]
  by (auto simp: is_perfect_square_def split: if_splits)

section \<open>Roots: correctness\<close>

text \<open>The interval of the bisection: the root lies between its ends, which are not negative for a
  positive number and not positive for a negative one.\<close>

definition root_between :: "int \<Rightarrow> nat \<Rightarrow> int \<Rightarrow> int \<Rightarrow> bool" where
  "root_between a n l u \<longleftrightarrow> l < u \<and> 0 < n
     \<and> (if 0 < a then 0 \<le> l \<and> l ^ n \<le> a \<and> a < u ^ n else u \<le> 0 \<and> l ^ n < a \<and> a \<le> u ^ n)"

lemma sdiv_two:
  assumes "l < (u :: int)" "0 \<le> l \<or> u \<le> 0"
  shows "0 \<le> l \<Longrightarrow> l \<le> (u + l) sdiv 2 \<and> (u + l) sdiv 2 < u" "u \<le> 0 \<Longrightarrow> l < (u + l) sdiv 2 \<and> (u + l) sdiv 2 \<le> u"
proof -
  show "l \<le> (u + l) sdiv 2 \<and> (u + l) sdiv 2 < u" if "0 \<le> l"
  proof -
    have "(u + l) sdiv 2 = (u + l) div 2" using that assms(1) by (simp add: signed_divide_int_def)
    then show ?thesis using assms(1) by linarith
  qed
  show "l < (u + l) sdiv 2 \<and> (u + l) sdiv 2 \<le> u" if "u \<le> 0"
  proof -
    have "(u + l) sdiv 2 = - (- (u + l) div 2)" using that assms(1) by (simp add: signed_divide_int_def)
    then show ?thesis using assms(1) by linarith
  qed
qed

lemma root_loop_correct:
  assumes "mpz_ok a" "mpz_ok l" "mpz_ok u" "unat n < 2 ^ 31" "root_between (zval a) (unat n) (zval l) (zval u)"
  shows "\<exists>res r. root_loop a n l u = Some (res, r) \<and> mpz_ok r \<and> (0 < zval a \<longrightarrow> 0 \<le> zval r)
    \<and> (if res then zval r ^ unat n = zval a else (zval r - 1) ^ unat n < zval a \<and> zval a < zval r ^ unat n)"
  using assms
proof (induction "nat (zval u - zval l)" arbitrary: l u rule: less_induct)
  case less
  define mid where "mid = machine_div2k (mpz_add u l) 1"
  have mid: "mpz_ok mid" "zval mid = (zval u + zval l) sdiv 2"
    using mpz_add_correct[OF less.prems(3,2)] machine_div2k_correct[of "mpz_add u l" 1] by (simp_all add: mid_def)
  have rb: "zval l < zval u" "0 < unat n"
    "if 0 < zval a then 0 \<le> zval l \<and> zval l ^ unat n \<le> zval a \<and> zval a < zval u ^ unat n
     else zval u \<le> 0 \<and> zval l ^ unat n < zval a \<and> zval a \<le> zval u ^ unat n"
    using less.prems(5) by (simp_all add: root_between_def)
  have m: "zval l \<le> zval mid" "zval mid \<le> zval u" "0 < zval a \<longrightarrow> zval mid < zval u" "\<not> 0 < zval a \<longrightarrow> zval l < zval mid"
    using sdiv_two[OF rb(1)] rb(3) unfolding mid(2) by (auto split: if_splits)
  obtain mid_n where mn: "mpz_power mid n = Some mid_n" "mpz_ok mid_n" "zval mid_n = zval mid ^ unat n"
    using mpz_power_correct[OF mid(1) less.prems(4)] rb(2) unat_gt_0[of n] by blast
  have step: "root_loop a n l u = (if zval mid ^ unat n = zval a then Some (True, mid)
      else if zval mid = zval l \<or> zval mid = zval u then Some (False, u)
      else if zval mid ^ unat n < zval a then root_loop a n mid u else root_loop a n l mid)"
    using mid(1) mn less.prems(1-3) 
    by (subst root_loop.simps, unfold Let_def mid_def[symmetric]) (simp add: mpz_compare_correct)
  consider "zval mid ^ unat n = zval a" | "zval mid ^ unat n \<noteq> zval a" "zval mid = zval l \<or> zval mid = zval u"
    | "zval mid ^ unat n < zval a" "zval l < zval mid" "zval mid < zval u"
    | "zval a < zval mid ^ unat n" "zval l < zval mid" "zval mid < zval u" using m(1,2) by linarith
  then show ?case
  proof cases
    case 1
    then show ?thesis using mid(1) m(1) rb(3) by (intro exI[of _ True] exI[of _ mid]) (auto simp: step)
  next
    case 2
    have "zval u - 1 = zval l"
    proof (cases "0 < zval a")
      case True
      then have "zval l = (zval u + zval l) sdiv 2" "0 \<le> zval l" using 2 m rb(3) mid(2) by auto
      moreover from this have "(zval u + zval l) sdiv 2 = (zval u + zval l) div 2" using rb(1) by (simp add: signed_divide_int_def)
      ultimately show ?thesis using rb(1) by linarith
    next
      case False
      then have "zval u = (zval u + zval l) sdiv 2" "zval u \<le> 0" using 2 m rb(3) mid(2) by auto
      moreover from this have "(zval u + zval l) sdiv 2 = - (- (zval u + zval l) div 2)" using rb(1) by (simp add: signed_divide_int_def)
      ultimately show ?thesis using rb(1) by linarith
    qed
    moreover have "zval l ^ unat n < zval a \<and> zval a < zval u ^ unat n" using 2 m rb(3) by (auto split: if_splits simp: less_le)
    ultimately show ?thesis using 2 less.prems(3) rb by (intro exI[of _ False] exI[of _ u]) (auto simp: step)
  next
    case 3
    then have "root_between (zval a) (unat n) (zval mid) (zval u)" using rb by (auto simp: root_between_def split: if_splits)
    then show ?thesis using 3 less.hyps[of u mid] less.prems(1,3,4) mid(1) by (simp add: step)
  next
    case 4
    then have "root_between (zval a) (unat n) (zval l) (zval mid)" using rb by (auto simp: root_between_def split: if_splits)
    then show ?thesis using 4 less.hyps[of mid l] less.prems(1,2,4) mid(1) by (simp add: step)
  qed
qed

text \<open>The powers of two around a root, for a number with \<open>2 ^ k \<le> m < 2 ^ (k + 1)\<close>.\<close>

lemma div_u_Suc: "0 < n \<Longrightarrow> div_u (k + 1) n = div_l k n + 1"
  by (auto simp: div_u_def div_l_def div_Suc mod_Suc)

lemma root_powers:
  assumes "(2::int) ^ k \<le> m" "m < 2 * 2 ^ k" "0 < n"
  shows "(2 ^ div_l k n) ^ n \<le> m" "m < (2 ^ div_u (k + 1) n) ^ n"
proof -
  have "div_l k n * n \<le> k" by (simp add: div_l_def)
  then have "(2::int) ^ (div_l k n * n) \<le> 2 ^ k" by (intro power_increasing) auto
  then show "(2 ^ div_l k n) ^ n \<le> m" using assms(1) by (simp add: power_mult)
  have "k < div_l k n * n + n" using assms(3) dividend_less_div_times[of n k] by (simp add: div_l_def)
  then have "Suc k \<le> div_u (k + 1) n * n" using div_u_Suc[OF assms(3)] by simp
  then have "(2::int) ^ Suc k \<le> 2 ^ (div_u (k + 1) n * n)" by (intro power_increasing) auto
  then show "m < (2 ^ div_u (k + 1) n) ^ n" using assms(2) by (simp add: power_mult)
qed

lemma root_exponents:
  assumes "k + 1 < 2 ^ 32" "0 < n"
  shows "unat (of_nat (div_l k n) :: mpn_digit) = div_l k n" "unat (of_nat (div_u (k + 1) n) :: mpn_digit) = div_u (k + 1) n"
proof -
  have "div_l k n \<le> k" by (simp add: div_l_def)
  then have "div_l k n < 2 ^ 32" "div_u (k + 1) n < 2 ^ 32" using assms div_u_Suc[OF assms(2)] by simp_all
  then show "unat (of_nat (div_l k n) :: mpn_digit) = div_l k n" "unat (of_nat (div_u (k + 1) n) :: mpn_digit) = div_u (k + 1) n"
    by (simp_all add: unat_of_nat)
qed

lemma mpz_root_correct:
  assumes "mpz_ok a" "0 < unat n" "unat n < 2 ^ 31" "odd (unat n) \<or> 0 \<le> zval a" "bitsize a < 2 ^ 32"
  shows "\<exists>res r. mpz_root a n = Some (res, r) \<and> mpz_ok r \<and> (0 \<le> zval a \<longrightarrow> 0 \<le> zval r)
    \<and> (if res then zval r ^ unat n = zval a else (zval r - 1) ^ unat n < zval a \<and> zval a < zval r ^ unat n)"
proof -
  have n0: "n \<noteq> 0" using assms(2) by auto
  consider "zval a = 0" | "0 < zval a" | "zval a < 0" by linarith
  then show ?thesis
  proof cases
    case 1
    then have "mpz_root a n = Some (True, a)" using assms(1) by (simp add: mpz_root_def sign_tests)
    then show ?thesis using 1 assms(1,2) by (intro exI[of _ True] exI[of _ a]) simp
  next
    case 2
    define k where "k = mpz_log2 a"
    have k: "(2::int) ^ k \<le> zval a" "zval a < 2 * 2 ^ k" "k + 1 < 2 ^ 32"
      using mpz_log2_correct[OF assms(1) 2] assms(1,5) 2 by (simp_all add: k_def bitsize_def sign_tests)
    note ex = root_exponents[OF k(3) assms(2)]
    obtain l where l: "mpz_power (mk_z 2) (of_nat (div_l k (unat n))) = Some l" "mpz_ok l" "zval l = 2 ^ div_l k (unat n)"
      using power_of_two_base[of "of_nat (div_l k (unat n))"] ex(1) by metis
    obtain u where u: "mpz_power (mk_z 2) (of_nat (div_u (k + 1) (unat n))) = Some u" "mpz_ok u" "zval u = 2 ^ div_u (k + 1) (unat n)"
      using power_of_two_base[of "of_nat (div_u (k + 1) (unat n))"] ex(2) by metis
    have lu: "zval l < zval u" unfolding l(3) u(3) using div_u_Suc[OF assms(2)] by simp
    have "root_between (zval a) (unat n) (zval l) (zval u)"
      using 2 lu assms(2) root_powers[OF k(1,2) assms(2)] l(3) u(3) by (simp add: root_between_def)
    note loop = root_loop_correct[OF assms(1) l(2) u(2) assms(3) this]
    have "\<not> mpz_eq l u" using l(2) u(2) lu by (simp add: mpz_compare_correct)
    then have "mpz_root a n = root_loop a n l u"
      using 2 n0 l(1) u(1) assms(1) by (simp add: mpz_root_def sign_tests Let_def flip: k_def)
    then show ?thesis using loop 2 by (simp add: less_imp_le)
  next
    case 3
    define k where "k = mlog2 a"
    have od: "odd (unat n)" using 3 assms(4) by simp
    have k: "(2::int) ^ k \<le> - zval a" "- zval a < 2 * 2 ^ k" "k + 1 < 2 ^ 32"
      using mlog2_correct[OF assms(1) 3] assms(1,5) 3 by (simp_all add: k_def bitsize_def sign_tests)
    note ex = root_exponents[OF k(3) assms(2)]
    obtain u where u: "mpz_power (mk_z 2) (of_nat (div_l k (unat n))) = Some u" "mpz_ok u" "zval u = 2 ^ div_l k (unat n)"
      using power_of_two_base[of "of_nat (div_l k (unat n))"] ex(1) by metis
    obtain l where l: "mpz_power (mk_z 2) (of_nat (div_u (k + 1) (unat n))) = Some l" "mpz_ok l" "zval l = 2 ^ div_u (k + 1) (unat n)"
      using power_of_two_base[of "of_nat (div_u (k + 1) (unat n))"] ex(2) by metis
    note nl = mpz_neg_correct[OF l(2)] and nu = mpz_neg_correct[OF u(2)]
    have lu: "zval u < zval l" unfolding l(3) u(3) using div_u_Suc[OF assms(2)] by simp
    have "(- zval l) ^ unat n < zval a \<and> zval a \<le> (- zval u) ^ unat n"
      using root_powers[OF k(1,2) assms(2)] od l(3) u(3) by (simp add: power_minus_odd)
    then have "root_between (zval a) (unat n) (zval (mpz_neg l)) (zval (mpz_neg u))"
      using 3 lu assms(2) u(3) nl nu by (simp add: root_between_def)
    note loop = root_loop_correct[OF assms(1) conjunct1[OF nl] conjunct1[OF nu] assms(3) this]
    have "\<not> mpz_eq (mpz_neg l) (mpz_neg u)" using nl nu lu by (simp add: mpz_compare_correct)
    then have "mpz_root a n = root_loop a n (mpz_neg l) (mpz_neg u)"
      using 3 n0 l(1) u(1) assms(1) by (simp add: mpz_root_def sign_tests Let_def flip: k_def)
    then show ?thesis using loop 3 by simp
  qed
qed

end
