(* ===== verification/Mpz_Gcd.thy ===== *)
theory Mpz_Gcd
  imports Mpz_Normal "HOL-Library.Monad_Syntax"
begin

text \<open>
  Greatest common divisors (mpz.cpp): the binary algorithm on machine words, Lehmer's algorithm on
  multi-precision integers, the gcd of an array, the extended gcd and the least common multiple.

  Lehmer's loop reads \<^verbatim>\<open>m_ptr->m_size\<close> of both numbers when the smaller one is big: that pointer is
  null if the larger one is small, and then the model is \<open>None\<close>. This does not happen for numbers in
  normal form, which are big only when they have to be; the operations of the manager keep that form.
\<close>

unbundle bit_operations_syntax

section \<open>The binary algorithm on words\<close>

partial_function (option) halve_both :: "'a::len word \<Rightarrow> 'a word \<Rightarrow> nat \<Rightarrow> ('a word \<times> 'a word \<times> nat) option" where
  "halve_both u v k =
     (if (u OR v) AND 1 = 0 then halve_both (drop_bit 1 u) (drop_bit 1 v) (k + 1) else Some (u, v, k))"

partial_function (option) halve_while_even :: "'a::len word \<Rightarrow> 'a word option" where
  "halve_while_even u = (if u AND 1 = 0 then halve_while_even (drop_bit 1 u) else Some u)"

partial_function (option) gcd_core_loop :: "'a::len word \<Rightarrow> 'a word \<Rightarrow> 'a word option" where
  "gcd_core_loop u v0 = do {
     v \<leftarrow> halve_while_even v0;
     let (u1, v1) = (if u < v then (u, v - u) else (v, u - v));
     let v2 = drop_bit 1 v1;
     (if v2 \<noteq> 0 then gcd_core_loop u1 v2 else Some u1)
   }"

definition gcd_core :: "'a::len word \<Rightarrow> 'a word \<Rightarrow> 'a word option" where
  "gcd_core u v =
     (if u = 0 then Some v
      else if v = 0 then Some u
      else do {
        (u1, v1, k) \<leftarrow> halve_both u v 0;
        u2 \<leftarrow> halve_while_even u1;
        r \<leftarrow> gcd_core_loop u2 v1;
        Some (push_bit k r)
      })"

definition u_gcd :: "32 word \<Rightarrow> 32 word \<Rightarrow> 32 word option" where
  "u_gcd u v = gcd_core u v"

definition u64_gcd :: "64 word \<Rightarrow> 64 word \<Rightarrow> 64 word option" where
  "u64_gcd u v = gcd_core u v"

section \<open>Lehmer's algorithm\<close>

text \<open>The inner loop works on the leading digits in \<^verbatim>\<open>int64\<close>.\<close>

partial_function (option) lehmer_digits :: "int \<Rightarrow> int \<Rightarrow> int \<Rightarrow> int \<Rightarrow> int \<Rightarrow> int \<Rightarrow> (int \<times> int \<times> int \<times> int) option" where
  "lehmer_digits a_hat b_hat A B C D =
     (if i64 (b_hat + C) = 0 \<or> i64 (b_hat + D) = 0 then Some (A, B, C, D)
      else let q = i64 (i64 (a_hat + A) sdiv i64 (b_hat + C))
        in if q \<noteq> i64 (i64 (a_hat + B) sdiv i64 (b_hat + D)) then Some (A, B, C, D)
           else lehmer_digits b_hat (i64 (a_hat - i64 (q * b_hat))) C D (i64 (A - i64 (q * C))) (i64 (B - i64 (q * D))))"

partial_function (option) euclid_loop :: "mpz \<Rightarrow> mpz \<Rightarrow> mpz option" where
  "euclid_loop a1 b1 = (if \<not> is_zero b1 then do { tmp \<leftarrow> mpz_rem a1 b1; euclid_loop b1 tmp } else Some a1)"

partial_function (option) lehmer_gcd :: "mpz \<Rightarrow> mpz \<Rightarrow> mpz option" where
  "lehmer_gcd a1 b1 =
     (if is_small b1 then
        (if is_small a1 then do { r \<leftarrow> u_gcd (word_of_int (m_val a1)) (word_of_int (m_val b1)); Some (set_uint r) }
         else euclid_loop a1 b1)
      else do {
        a_digits \<leftarrow> m_ptr a1;
        b_digits \<leftarrow> m_ptr b1;
        let a_sz = length a_digits;
        let b_sz = length b_digits;
        let a_hat = uint (a_digits ! (a_sz - 1));
        let b_hat = (if b_sz = a_sz then uint (b_digits ! (b_sz - 1)) else 0);
        (A, B, C, D) \<leftarrow> lehmer_digits a_hat b_hat 1 0 0 1;
        (if B = 0 then do { t \<leftarrow> mpz_rem a1 b1; lehmer_gcd b1 t }
         else lehmer_gcd (addmul (mpz_mul a1 (set_i64 A)) (set_i64 B) b1) (addmul (mpz_mul a1 (set_i64 C)) (set_i64 D) b1))
      })"

definition mpz_gcd :: "mpz \<Rightarrow> mpz \<Rightarrow> mpz option" where
  "mpz_gcd a b =
     (if is_small a \<and> is_small b \<and> m_val a \<noteq> INT_MIN \<and> m_val b \<noteq> INT_MIN then
        (let a' = (if m_val a < 0 then - m_val a else m_val a);
             b' = (if m_val b < 0 then - m_val b else m_val b)
         in do { r \<leftarrow> u_gcd (word_of_int a') (word_of_int b'); Some (set_uint r) })
      else if is_zero a then Some (mpz_abs b)
      else if is_zero b then Some (mpz_abs a)
      else
        (let a1 = mpz_abs a; b1 = mpz_abs b
         in if mpz_lt a1 b1 then lehmer_gcd b1 a1 else lehmer_gcd a1 b1))"

section \<open>The gcd of an array, the extended gcd and the least common multiple\<close>

fun gcd_rest :: "mpz \<Rightarrow> mpz list \<Rightarrow> mpz option" where
  "gcd_rest g [] = Some g"
| "gcd_rest g (a # as) = (if is_one g then Some g else do { g' \<leftarrow> mpz_gcd g a; gcd_rest g' as })"

fun mpz_gcd_array :: "mpz list \<Rightarrow> mpz option" where
  "mpz_gcd_array [] = Some (mk_z 0)"
| "mpz_gcd_array [a] = Some (mpz_abs a)"
| "mpz_gcd_array (a # b # as) = do { g \<leftarrow> mpz_gcd a b; gcd_rest g as }"

partial_function (option) egcd_loop :: "mpz \<Rightarrow> mpz \<Rightarrow> mpz \<Rightarrow> mpz \<Rightarrow> mpz \<Rightarrow> mpz \<Rightarrow> (mpz \<times> mpz \<times> mpz) option" where
  "egcd_loop tmp1 tmp2 a b nexta nextb =
     (if is_pos tmp2 then do {
        quot \<leftarrow> machine_div tmp1 tmp2;
        r \<leftarrow> mpz_rem tmp1 tmp2;
        egcd_loop tmp2 r nexta nextb (mpz_sub a (mpz_mul quot nexta)) (mpz_sub b (mpz_mul nextb quot))
      }
      else Some (tmp1, a, b))"

text \<open>The coefficients and the gcd.\<close>

definition mpz_extended_gcd :: "mpz \<Rightarrow> mpz \<Rightarrow> (mpz \<times> mpz \<times> mpz) option" where
  "mpz_extended_gcd r1 r2 =
     (let tmp1 = mpz_abs r1; tmp2 = mpz_abs r2
      in do {
        (r, a, b) \<leftarrow>
          (if mpz_lt tmp1 tmp2 then egcd_loop tmp2 tmp1 (mk_z 0) (mk_z 1) (mk_z 1) (mk_z 0)
           else egcd_loop tmp1 tmp2 (mk_z 1) (mk_z 0) (mk_z 0) (mk_z 1));
        Some (if is_neg r1 then mpz_neg a else a, if is_neg r2 then mpz_neg b else b, r)
      })"

definition mpz_lcm :: "mpz \<Rightarrow> mpz \<Rightarrow> mpz option" where
  "mpz_lcm a b =
     (if is_one b then Some a
      else if is_one a \<or> mpz_eq a b then Some b
      else do {
        r \<leftarrow> mpz_gcd a b;
        (if mpz_eq r a then Some b
         else if mpz_eq r b then Some a
         else do { q \<leftarrow> machine_div a r; Some (mpz_mul q b) })
      })"

section \<open>The binary algorithm: correctness\<close>

lemma and_one_even: "(w AND 1 = (0 :: 'a::len word)) \<longleftrightarrow> even (unat w)"
proof -
  have "w AND 1 = 0 \<longleftrightarrow> even w" by (simp add: and_one_eq even_iff_mod_2_eq_zero)
  also have "even w \<longleftrightarrow> even (unat w)" using bit_unsigned_iff[of w 0, where ?'a = nat] by (simp add: bit_0)
  finally show ?thesis .
qed

lemma or_and_one_even: "((u OR v) AND 1 = (0 :: 'a::len word)) \<longleftrightarrow> even (unat u) \<and> even (unat v)"
proof -
  have "(u OR v) AND 1 = (u AND 1) OR (v AND 1)" by (rule bit.conj_disj_distrib2)
  then show ?thesis by (simp add: or_eq_0_iff and_one_even)
qed

lemma unat_half: "unat (drop_bit 1 w) = unat w div 2"
  by (simp only: unat_drop_bit_eq) (simp add: drop_bit_eq_div)

lemma halve_while_even_correct:
  assumes "v \<noteq> 0"
  shows "\<exists>w j. halve_while_even v = Some w \<and> odd (unat w) \<and> unat v = 2 ^ j * unat w"
  using assms
proof (induction "unat v" arbitrary: v rule: less_induct)
  case less
  show ?case
  proof (cases "v AND 1 = 0")
    case True
    then have ev: "even (unat v)" and p: "0 < unat v" using and_one_even less.prems unat_gt_0 by blast+
    then have h: "unat (drop_bit 1 v) < unat v" "drop_bit 1 v \<noteq> 0" "unat v = 2 * unat (drop_bit 1 v)"
      unfolding unat_half word_unat_eq_iff by auto
    obtain w j where w: "halve_while_even (drop_bit 1 v) = Some w" "odd (unat w)" "unat (drop_bit 1 v) = 2 ^ j * unat w"
      using less.hyps[OF h(1,2)] by blast
    have "halve_while_even v = Some w" using True w(1) by (subst halve_while_even.simps) simp
    moreover have "unat v = 2 ^ Suc j * unat w" using h(3) w(3) by simp
    ultimately show ?thesis using w(2) by blast
  next
    case False
    then have "halve_while_even v = Some v" by (subst halve_while_even.simps) simp
    moreover have "odd (unat v)" using False and_one_even by blast
    moreover have "unat v = 2 ^ 0 * unat v" by simp
    ultimately show ?thesis by blast
  qed
qed

lemma halve_both_correct:
  assumes "u \<noteq> 0"
  shows "\<exists>u' v' j. halve_both u v k = Some (u', v', k + j) \<and> unat u = 2 ^ j * unat u' \<and> unat v = 2 ^ j * unat v'
    \<and> (odd (unat u') \<or> odd (unat v'))"
  using assms
proof (induction "unat u" arbitrary: u v k rule: less_induct)
  case less
  show ?case
  proof (cases "(u OR v) AND 1 = 0")
    case True
    then have ev: "even (unat u)" "even (unat v)" and p: "0 < unat u" using or_and_one_even less.prems unat_gt_0 by blast+
    then have h: "unat (drop_bit 1 u) < unat u" "drop_bit 1 u \<noteq> 0" "unat u = 2 * unat (drop_bit 1 u)" "unat v = 2 * unat (drop_bit 1 v)"
      unfolding unat_half word_unat_eq_iff by auto
    obtain u' v' j where w: "halve_both (drop_bit 1 u) (drop_bit 1 v) (k + 1) = Some (u', v', k + 1 + j)"
        "unat (drop_bit 1 u) = 2 ^ j * unat u'" "unat (drop_bit 1 v) = 2 ^ j * unat v'" "odd (unat u') \<or> odd (unat v')"
      using less.hyps[OF h(1,2)] by blast
    have "halve_both u v k = Some (u', v', k + Suc j)" using True w(1) by (subst halve_both.simps) simp
    moreover have "unat u = 2 ^ Suc j * unat u'" "unat v = 2 ^ Suc j * unat v'" using h(3,4) w(2,3) by simp_all
    ultimately show ?thesis using w(4) by blast
  next
    case False
    then have "halve_both u v k = Some (u, v, k + 0)" by (subst halve_both.simps) simp
    moreover have "odd (unat u) \<or> odd (unat v)" using False or_and_one_even by blast
    moreover have "unat u = 2 ^ 0 * unat u" "unat v = 2 ^ 0 * unat v" by simp_all
    ultimately show ?thesis by blast
  qed
qed

lemma gcd_odd_twos: "odd u \<Longrightarrow> gcd u (2 ^ j * w) = gcd u (w :: nat)"
  by (simp add: gcd_mult_right_left_cancel coprime_right_2_iff_odd)

lemma gcd_diff_nat: "x < y \<Longrightarrow> gcd x (y - x) = gcd x y" "\<not> x < y \<Longrightarrow> gcd y (x - y) = gcd x (y :: nat)"
  using gcd_diff1_nat[of x y] gcd_diff1_nat[of y x] by (simp_all add: gcd.commute)

lemma gcd_core_loop_correct:
  assumes "odd (unat u)" "v \<noteq> 0"
  shows "\<exists>r. gcd_core_loop u v = Some r \<and> unat r = gcd (unat u) (unat v)"
  using assms
proof (induction "unat u + unat v" arbitrary: u v rule: less_induct)
  case less
  obtain w j where w: "halve_while_even v = Some w" "odd (unat w)" "unat v = 2 ^ j * unat w"
    using halve_while_even_correct[OF less.prems(2)] by blast
  define d where "d = (if u < w then w - u else u - w)"
  define m where "m = (if u < w then u else w)"
  have step: "gcd_core_loop u v = (if drop_bit 1 d \<noteq> 0 then gcd_core_loop m (drop_bit 1 d) else Some m)"
    by (subst gcd_core_loop.simps) (simp add: w(1) d_def m_def)
  have le: "unat w \<le> unat v" using w(3) by simp
  have d: "unat d = (if unat u < unat w then unat w - unat u else unat u - unat w)" "unat m = min (unat u) (unat w)"
    by (auto simp: d_def m_def word_less_nat_alt unat_sub word_le_nat_alt)
  have od: "odd (unat m)" using w(2) less.prems(1) d(2) by (simp add: min_def)
  have "even (unat d)" using w(2) less.prems(1) d(1) by simp
  then have ev: "unat d = 2 * unat (drop_bit 1 d)" unfolding unat_half by simp
  have g: "gcd (unat m) (unat (drop_bit 1 d)) = gcd (unat u) (unat v)"
  proof -
    have "gcd (unat m) (unat (drop_bit 1 d)) = gcd (unat m) (unat d)"
      using gcd_odd_twos[OF od, of 1 "unat (drop_bit 1 d)"] ev by simp
    also have "\<dots> = gcd (unat u) (unat w)"
      unfolding d by (cases "unat u < unat w") (simp_all add: gcd_diff_nat min_def gcd.commute)
    also have "\<dots> = gcd (unat u) (unat v)" using gcd_odd_twos[OF less.prems(1), of j "unat w"] w(3) by simp
    finally show ?thesis .
  qed
  show ?case
  proof (cases "drop_bit 1 d = 0")
    case True
    then show ?thesis using g by (simp add: step)
  next
    case False
    have "0 < unat u" "0 < unat w" using less.prems(1) w(2) by (auto intro: gr0I)
    then have "unat m + unat (drop_bit 1 d) < unat u + unat v" using ev d le by (auto simp: min_def split: if_splits)
    from less.hyps[OF this od False] show ?thesis using False g by (simp add: step)
  qed
qed

lemma gcd_core_correct: "\<exists>r. gcd_core u v = Some r \<and> unat r = gcd (unat u) (unat (v :: 'a::len word))"
proof (cases "u = 0 \<or> v = 0")
  case True
  then show ?thesis by (auto simp: gcd_core_def)
next
  case False
  then have nz: "u \<noteq> 0" "v \<noteq> 0" by simp_all
  obtain u1 v1 k where 1: "halve_both u v 0 = Some (u1, v1, k)" "unat u = 2 ^ k * unat u1" "unat v = 2 ^ k * unat v1"
      "odd (unat u1) \<or> odd (unat v1)" using halve_both_correct[OF nz(1), of v 0] by auto
  have nz1: "u1 \<noteq> 0" "v1 \<noteq> 0" using 1(2,3) nz by (auto simp: word_unat_eq_iff)
  obtain u2 j where 2: "halve_while_even u1 = Some u2" "odd (unat u2)" "unat u1 = 2 ^ j * unat u2"
    using halve_while_even_correct[OF nz1(1)] by blast
  obtain r where 3: "gcd_core_loop u2 v1 = Some r" "unat r = gcd (unat u2) (unat v1)"
    using gcd_core_loop_correct[OF 2(2) nz1(2)] by blast
  have "gcd (unat u1) (unat v1) = gcd (unat u2) (unat v1)"
  proof (cases "j = 0")
    case False
    then have "odd (unat v1)" using 1(4) 2(3) by simp
    then show ?thesis using gcd_odd_twos[of "unat v1" j "unat u2"] 2(3) by (simp add: gcd.commute)
  qed (use 2(3) in simp)
  then have g: "2 ^ k * unat r = gcd (unat u) (unat v)"
    unfolding 3(2) 1(2,3) gcd_mult_distrib_nat[symmetric] by simp
  also have "\<dots> \<le> unat u" using nz(1) by (intro gcd_le1_nat) (simp add: unat_eq_zero)
  also have "\<dots> < 2 ^ LENGTH('a)" by (rule unsigned_less)
  finally have "take_bit LENGTH('a) (2 ^ k * unat r) = 2 ^ k * unat r" by (rule take_bit_nat_eq_self)
  moreover have "unat (push_bit k r) = take_bit LENGTH('a) (2 ^ k * unat r)"
    by (simp only: unsigned_push_bit_eq) (simp add: push_bit_eq_mult mult.commute)
  ultimately have "unat (push_bit k r) = 2 ^ k * unat r" by simp
  then show ?thesis using g nz 1(1) 2(1) 3(1) by (simp add: gcd_core_def)
qed

lemma u_gcd_small:
  assumes "0 \<le> x" "x < 2 ^ 32" "0 \<le> y" "y < 2 ^ 32"
  shows "\<exists>r. u_gcd (word_of_int x) (word_of_int y) = Some r \<and> uint r = gcd x y"
proof -
  have w: "unat (word_of_int z :: mpn_digit) = nat z" if "0 \<le> z" "z < 2 ^ 32" for z
    using that by (simp add: unat_eq_nat_uint uint_word_of_int_eq take_bit_int_eq_self)
  obtain r where r: "u_gcd (word_of_int x) (word_of_int y) = Some r" "unat r = gcd (nat x) (nat y)"
    using gcd_core_correct[of "word_of_int x :: mpn_digit" "word_of_int y"] w assms by (auto simp: u_gcd_def)
  have "uint r = int (gcd (nat x) (nat y))" using r(2) int_unat[of r] by simp
  also have "\<dots> = gcd x y" using assms by (simp flip: gcd_int_int_eq)
  finally show ?thesis using r(1) by blast
qed

section \<open>The step on the leading digits\<close>

text \<open>A quotient of the leading digits that comes out the same at both ends of the intervals of the
  two numbers is the quotient of the numbers.\<close>

lemma lehmer_quotient:
  fixes P Q R S X Y h q :: int
  assumes "Q * h \<le> X" "X \<le> P * h" "R * h \<le> Y" "Y \<le> S * h" "0 < R" "0 < S" "0 < h" "0 \<le> Q"
    and "q = P div R" "q = Q div S"
  shows "q * Y \<le> X" "X < (q + 1) * Y" "(Q - q * S) * h \<le> X - q * Y" "X - q * Y \<le> (P - q * R) * h"
proof -
  have q0: "0 \<le> q" using assms(6,8,10) by (simp add: pos_imp_zdiv_nonneg_iff)
  have qS: "q * S \<le> Q" unfolding assms(10) using div_mult_mod_eq[of Q S] pos_mod_sign[OF assms(6), of Q] by linarith
  have qR: "P < (q + 1) * R" unfolding assms(9) distrib_right using pos_mod_bound[OF assms(5), of P] div_mult_mod_eq[of P R] by linarith
  have y: "q * Y \<le> q * S * h" "q * R * h \<le> q * Y"
    using mult_left_mono[OF assms(4) q0] mult_left_mono[OF assms(3) q0] by (simp_all add: mult.assoc)
  have "q * S * h \<le> Q * h" using qS assms(7) by (intro mult_right_mono) simp_all
  then show "q * Y \<le> X" using y(1) assms(1) by linarith
  have "X \<le> P * h" by (rule assms(2))
  also have "\<dots> < (q + 1) * R * h" using qR assms(7) by (rule mult_strict_right_mono)
  also have "\<dots> \<le> (q + 1) * Y" using mult_left_mono[OF assms(3), of "q + 1"] q0 by (simp add: mult.assoc)
  finally show "X < (q + 1) * Y" .
  show "(Q - q * S) * h \<le> X - q * Y" "X - q * Y \<le> (P - q * R) * h"
    using y assms(1,2) by (simp_all add: left_diff_distrib)
qed

text \<open>The invariant of the loop on digits, for the numbers \<open>x\<close>, \<open>y\<close> and the weight \<open>h\<close> of their leading
  digits. The sums of the code are at the ends of the intervals of \<open>A * x + B * y\<close> and \<open>C * x + D * y\<close>,
  which change sides in every round as the signs of the coefficients do.\<close>

definition lehmer_sides :: "int \<Rightarrow> int \<Rightarrow> int \<Rightarrow> int \<Rightarrow> int \<Rightarrow> int \<Rightarrow> int \<Rightarrow> int \<Rightarrow> int \<Rightarrow> bool" where
  "lehmer_sides h ah bh A B C D X Y \<longleftrightarrow> 0 \<le> A \<and> B \<le> 0 \<and> C \<le> 0 \<and> 0 \<le> D
     \<and> (ah + B) * h \<le> X \<and> X \<le> (ah + A) * h \<and> (bh + C) * h \<le> Y \<and> Y \<le> (bh + D) * h"

definition lehmer_inv :: "int \<Rightarrow> int \<Rightarrow> int \<Rightarrow> int \<Rightarrow> int \<Rightarrow> int \<Rightarrow> int \<Rightarrow> int \<Rightarrow> int \<Rightarrow> bool" where
  "lehmer_inv x y h ah bh A B C D \<longleftrightarrow>
     0 < h \<and> (\<forall>v \<in> {ah + A, ah + B, bh + C, bh + D}. 0 \<le> v \<and> v \<le> 2 ^ 32)
     \<and> (lehmer_sides h ah bh A B C D (A * x + B * y) (C * x + D * y)
        \<or> lehmer_sides h ah bh B A D C (A * x + B * y) (C * x + D * y))
     \<and> gcd (A * x + B * y) (C * x + D * y) = gcd x y \<and> 0 \<le> C * x + D * y \<and> C * x + D * y \<le> A * x + B * y
     \<and> (B = 0 \<and> D = 1 \<and> C = 0 \<or> C * x + D * y < y)"

lemma lehmer_bounds:
  assumes "lehmer_inv x y h ah bh A B C D"
  shows "\<forall>v \<in> {ah, bh, A, B, C, D}. \<bar>v\<bar> \<le> 2 ^ 32"
  using assms unfolding lehmer_inv_def lehmer_sides_def by auto

lemma lehmer_sides_step:
  assumes "lehmer_sides h ah bh A B C D X Y" "0 < h" "0 \<le> ah + B" "0 < bh + C" "0 < bh + D"
    and "q = (ah + A) div (bh + C)" "q = (ah + B) div (bh + D)"
  shows "lehmer_sides h bh (ah - q * bh) D C (B - q * D) (A - q * C) Y (X - q * Y)" "q * Y \<le> X" "X < (q + 1) * Y"
proof -
  note s = assms(1)[unfolded lehmer_sides_def]
  have "0 \<le> q" using assms(3,5,7) by (simp add: pos_imp_zdiv_nonneg_iff)
  then have sg: "0 \<le> q * D" "q * C \<le> 0" using s by (simp_all add: mult_nonneg_nonpos)
  note l = lehmer_quotient[of "ah + B" h X "ah + A" "bh + C" Y "bh + D" q]
  show "q * Y \<le> X" "X < (q + 1) * Y" using l(1,2) s assms(2-7) by blast+
  have e: "ah - q * bh + (B - q * D) = ah + B - q * (bh + D)" "ah - q * bh + (A - q * C) = ah + A - q * (bh + C)"
    by (simp_all add: algebra_simps)
  have "(ah + B - q * (bh + D)) * h \<le> X - q * Y" "X - q * Y \<le> (ah + A - q * (bh + C)) * h"
    using l(3,4) s assms(2-7) by blast+
  then show "lehmer_sides h bh (ah - q * bh) D C (B - q * D) (A - q * C) Y (X - q * Y)"
    using s sg unfolding lehmer_sides_def e by simp
qed

lemma lehmer_step:
  assumes "lehmer_inv x y h ah bh A B C D" "0 < bh + C" "0 < bh + D"
    and "q = (ah + A) div (bh + C)" "q = (ah + B) div (bh + D)" "C * x + D * y \<le> y"
  shows "lehmer_inv x y h bh (ah - q * bh) C D (A - q * C) (B - q * D)"
proof -
  define X Y where "X = A * x + B * y" "Y = C * x + D * y"
  note i = assms(1)[unfolded lehmer_inv_def, folded X_Y_def]
  have e: "(A - q * C) * x + (B - q * D) * y = X - q * Y" by (simp add: X_Y_def algebra_simps)
  have n: "0 \<le> ah + A" "0 \<le> ah + B" using i by simp_all
  have st: "(lehmer_sides h bh (ah - q * bh) D C (B - q * D) (A - q * C) Y (X - q * Y)
      \<or> lehmer_sides h bh (ah - q * bh) C D (A - q * C) (B - q * D) Y (X - q * Y)) \<and> q * Y \<le> X \<and> X < (q + 1) * Y"
    using i lehmer_sides_step[of h ah bh A B C D X Y q, OF _ _ n(2) assms(2-5)]
      lehmer_sides_step[of h ah bh B A D C X Y q, OF _ _ n(1) assms(3,2,5,4)] by blast
  have m: "ah - q * bh + (A - q * C) = (ah + A) mod (bh + C)" "ah - q * bh + (B - q * D) = (ah + B) mod (bh + D)"
    using assms(4,5) minus_div_mult_eq_mod[of "ah + A" "bh + C"] minus_div_mult_eq_mod[of "ah + B" "bh + D"]
    by (simp_all add: algebra_simps)
  have b: "0 \<le> (ah + A) mod (bh + C)" "(ah + A) mod (bh + C) < bh + C" "0 \<le> (ah + B) mod (bh + D)" "(ah + B) mod (bh + D) < bh + D"
    using assms(2,3) by simp_all
  have lt: "X - q * Y < Y" using st by (simp add: distrib_right)
  have g: "gcd Y (X - q * Y) = gcd x y" using i gcd_add_mult[of Y "- q" X] by (simp add: gcd.commute[of Y] algebra_simps)
  have fin: "X - q * Y < y" "X - q * Y \<le> Y" "0 \<le> X - q * Y" using lt st assms(6)[folded X_Y_def] by linarith+
  have bb: "\<forall>v \<in> {bh + C, bh + D, (ah + A) mod (bh + C), (ah + B) mod (bh + D)}. 0 \<le> v \<and> v \<le> 2 ^ 32"
    using b i by auto
  show ?thesis unfolding lehmer_inv_def e m X_Y_def(2)[symmetric] using bb st g fin i by blast
qed

lemma lehmer_digits_correct:
  assumes "lehmer_inv x y h ah bh A B C D"
  shows "\<exists>A' B' C' D' ah' bh'. lehmer_digits ah bh A B C D = Some (A', B', C', D') \<and> lehmer_inv x y h ah' bh' A' B' C' D'"
  using assms
proof (induction "nat (bh + C)" arbitrary: ah bh A B C D rule: less_induct)
  case less
  note b = lehmer_bounds[OF less.prems]
  have small: "i64 v = v" if "\<bar>v\<bar> \<le> 2 ^ 35" for v using that by (intro i64_id) simp_all
  have ends: "0 \<le> ah + A" "ah + A \<le> 2 ^ 32" "0 \<le> ah + B" "ah + B \<le> 2 ^ 32" "0 \<le> bh + C" "bh + C \<le> 2 ^ 32"
      "0 \<le> bh + D" "bh + D \<le> 2 ^ 32" using less.prems by (simp_all add: lehmer_inv_def)
  have w: "i64 (ah + A) = ah + A" "i64 (ah + B) = ah + B" "i64 (bh + C) = bh + C" "i64 (bh + D) = bh + D"
    using ends by (intro small, simp)+
  have dv: "u sdiv v = u div v" if "0 \<le> u" "0 < v" for u v :: int
    using that by (cases "u = 0") (simp_all add: signed_divide_int_def)
  define q where "q = (ah + A) div (bh + C)"
  show ?case
  proof (cases "0 < bh + C \<and> 0 < bh + D")
    case False
    then have "bh + C = 0 \<or> bh + D = 0" using ends by linarith
    then have "lehmer_digits ah bh A B C D = Some (A, B, C, D)"
      by (subst lehmer_digits.simps, unfold w) (simp only: if_True)
    then show ?thesis using less.prems by blast
  next
    case True
    have d: "(ah + A) sdiv (bh + C) = q" "(ah + B) sdiv (bh + D) = (ah + B) div (bh + D)"
      using True ends dv by (simp_all add: q_def)
    have qle: "0 \<le> u div v" "u div v \<le> u" if "0 \<le> u" "0 < v" for u v :: int
      using that zdiv_mono2[of u 1 v] by (simp_all add: pos_imp_zdiv_nonneg_iff)
    have wq: "i64 q = q" "i64 ((ah + B) div (bh + D)) = (ah + B) div (bh + D)"
      using qle[of "ah + A" "bh + C"] qle[of "ah + B" "bh + D"] True ends by (intro small, simp add: q_def)+
    show ?thesis
    proof (cases "q = (ah + B) div (bh + D)")
      case False
      then have "lehmer_digits ah bh A B C D = Some (A, B, C, D)"
        using True w d wq by (subst lehmer_digits.simps) (simp add: Let_def)
      then show ?thesis using less.prems by blast
    next
      case eq: True
      have "C * x + D * y \<le> y" using less.prems by (auto simp: lehmer_inv_def)
      then have inv: "lehmer_inv x y h bh (ah - q * bh) C D (A - q * C) (B - q * D)"
        using lehmer_step[OF less.prems] True eq q_def by blast
      note b' = lehmer_bounds[OF inv]
      have tri: "\<bar>v\<bar> \<le> 2 ^ 35" if "\<bar>u\<bar> \<le> 2 ^ 32" "\<bar>u - v\<bar> \<le> 2 ^ 32" for u v :: int using that by simp
      have "\<bar>q * bh\<bar> \<le> 2 ^ 35" using b b' by (intro tri[of ah "q * bh"]) simp_all
      moreover have "\<bar>q * C\<bar> \<le> 2 ^ 35" using b b' by (intro tri[of A "q * C"]) simp_all
      moreover have "\<bar>q * D\<bar> \<le> 2 ^ 35" using b b' by (intro tri[of B "q * D"]) simp_all
      ultimately have wm: "i64 (q * bh) = q * bh" "i64 (q * C) = q * C" "i64 (q * D) = q * D" by (simp_all only: small)
      have wd: "i64 (ah - q * bh) = ah - q * bh" "i64 (A - q * C) = A - q * C" "i64 (B - q * D) = B - q * D"
        using b' by (intro small, auto)+
      have "ah - q * bh + (A - q * C) = (ah + A) mod (bh + C)"
        using minus_div_mult_eq_mod[of "ah + A" "bh + C"] by (simp add: q_def algebra_simps)
      then have dec: "nat (ah - q * bh + (A - q * C)) < nat (bh + C)" using True pos_mod_bound[of "bh + C" "ah + A"] by linarith
      have step: "lehmer_digits ah bh A B C D = lehmer_digits bh (ah - q * bh) C D (A - q * C) (B - q * D)"
      proof -
        have "\<not> (bh + C = 0 \<or> bh + D = 0)" using True by linarith
        then show ?thesis
          by (subst lehmer_digits.simps, unfold w d wq Let_def, unfold wq wm wd)
             (simp only: eq[symmetric] not_False_eq_True if_False simp_thms)
      qed
      show ?thesis unfolding step by (rule less.hyps[OF dec inv])
    qed
  qed
qed

section \<open>Lehmer's algorithm: correctness\<close>

lemma euclid_loop_correct:
  assumes "mpz_normal a" "mpz_normal b" "0 \<le> zval a" "0 \<le> zval b"
  shows "\<exists>r. euclid_loop a b = Some r \<and> mpz_normal r \<and> zval r = gcd (zval a) (zval b)"
  using assms
proof (induction "nat (zval b)" arbitrary: a b rule: less_induct)
  case less
  note ok = mpz_normal_ok[OF less.prems(1)] mpz_normal_ok[OF less.prems(2)]
  show ?case
  proof (cases "zval b = 0")
    case True
    then have "euclid_loop a b = Some a" using ok by (subst euclid_loop.simps) (simp add: sign_tests)
    then show ?thesis using True less.prems by simp
  next
    case False
    then obtain r where r: "mpz_rem a b = Some r" "zval r = zval a mod zval b"
      using mpz_rem_correct[OF ok] less.prems(3,4) by (auto simp: smod_nonneg)
    have n: "mpz_normal r" using normal_rem[OF less.prems(1) ok(2) r(1)] .
    have p: "0 < zval b" using False less.prems(4) by simp
    have b: "0 \<le> zval r" "zval r < zval b" unfolding r(2) using p by simp_all
    have "euclid_loop a b = euclid_loop b r" using False ok r(1) by (subst euclid_loop.simps) (simp add: sign_tests)
    moreover have "gcd (zval b) (zval r) = gcd (zval a) (zval b)" unfolding r(2) by (rule gcd_red_int[symmetric])
    ultimately show ?thesis using less.hyps[OF _ less.prems(2) n less.prems(4) b(1)] b by simp
  qed
qed

text \<open>The leading digits and their weight satisfy the invariant of the loop on digits.\<close>

lemma leading_digit:
  assumes "ds \<noteq> []" "h = 2 ^ (32 * (length ds - 1))"
  shows "uint (ds ! (length ds - 1)) * h \<le> int (nval ds)" "int (nval ds) \<le> (uint (ds ! (length ds - 1)) + 1) * h"
proof -
  have l: "ds ! (length ds - 1) = last ds" using assms(1) by (simp add: last_conv_nth)
  have "nval (butlast ds) < 2 ^ (32 * (length ds - 1))" using nval_less[of "butlast ds"] by simp
  then have "int (nval (butlast ds)) < int (2 ^ (32 * (length ds - 1)))" by (rule of_nat_less_iff[THEN iffD2])
  then have "int (nval (butlast ds)) < h" unfolding assms(2) by (simp only: of_nat_power of_nat_numeral)
  moreover have "int (nval ds) = int (nval (butlast ds)) + h * uint (last ds)"
    unfolding nval_last[OF assms(1)] assms(2) by (simp only: of_nat_add of_nat_mult of_nat_power of_nat_numeral int_unat)
  ultimately show "uint (ds ! (length ds - 1)) * h \<le> int (nval ds)" "int (nval ds) \<le> (uint (ds ! (length ds - 1)) + 1) * h"
    unfolding l distrib_right by (simp_all only: mult.commute[of h])
qed

lemma lehmer_start:
  assumes "xs \<noteq> []" "ys \<noteq> []" "last xs \<noteq> 0" "last ys \<noteq> 0" "nval ys \<le> nval xs"
  shows "\<exists>h. lehmer_inv (int (nval xs)) (int (nval ys)) h (uint (xs ! (length xs - 1)))
    (if length ys = length xs then uint (ys ! (length ys - 1)) else 0) 1 0 0 1"
proof -
  define h :: int where "h = 2 ^ (32 * (length xs - 1))"
  define bh where "bh = (if length ys = length xs then uint (ys ! (length ys - 1)) else 0)"
  have le: "length ys \<le> length xs" using nval_longer[of xs ys] assms(4,5) by (metis not_less)
  have h0: "0 < h" by (simp add: h_def)
  have y: "bh * h \<le> int (nval ys)" "int (nval ys) \<le> (bh + 1) * h"
  proof (atomize (full), cases "length ys = length xs")
    case True
    then show "bh * h \<le> int (nval ys) \<and> int (nval ys) \<le> (bh + 1) * h"
      using leading_digit[OF assms(2), of h] by (simp add: bh_def h_def)
  next
    case False
    have "nval ys < 2 ^ (32 * length ys)" by (rule nval_less)
    also have "\<dots> \<le> 2 ^ (32 * (length xs - 1))" using False le by (intro power_increasing) auto
    finally have "int (nval ys) < int (2 ^ (32 * (length xs - 1)))" by (rule of_nat_less_iff[THEN iffD2])
    then have "int (nval ys) < h" unfolding h_def by (simp only: of_nat_power of_nat_numeral)
    then show "bh * h \<le> int (nval ys) \<and> int (nval ys) \<le> (bh + 1) * h" using False by (simp add: bh_def)
  qed
  have ah: "0 \<le> uint (xs ! (length xs - 1))" "uint (xs ! (length xs - 1)) + 1 \<le> 2 ^ 32" "uint (xs ! (length xs - 1)) \<le> 2 ^ 32"
    using uint_digit[of "xs ! (length xs - 1)"] by simp_all
  have bh: "0 \<le> bh" "bh + 1 \<le> 2 ^ 32" "bh \<le> 2 ^ 32"
    using uint_digit[of "ys ! (length ys - 1)"] unfolding bh_def by (cases "length ys = length xs"; simp)+
  have "lehmer_sides h (uint (xs ! (length xs - 1))) bh 1 0 0 1 (int (nval xs)) (int (nval ys))"
    using leading_digit[OF assms(1) h_def] y by (simp add: lehmer_sides_def)
  then have "lehmer_inv (int (nval xs)) (int (nval ys)) h (uint (xs ! (length xs - 1))) bh 1 0 0 1"
    using h0 ah bh assms(5) by (simp add: lehmer_inv_def)
  then show ?thesis unfolding bh_def by blast
qed

lemma big_positive:
  assumes "mpz_normal a" "0 \<le> zval a" "\<not> is_small a"
  shows "\<exists>ds. m_ptr a = Some ds \<and> ds \<noteq> [] \<and> last ds \<noteq> 0 \<and> zval a = int (nval ds) \<and> INT_MAX < zval a"
proof (cases a rule: mpz_cases)
  case (2 s ds)
  have "INT_MAX < zval a" using assms by (simp add: mpz_normal_def)
  moreover from this have "s = 1" using 2 mpz_normal_ok[OF assms(1)] by auto
  moreover have "m_ptr a = Some ds" using 2 by (simp add: mk_big_def)
  moreover have "ds \<noteq> []" "last ds \<noteq> 0" using 2 mpz_normal_ok[OF assms(1)] by simp_all
  ultimately show ?thesis using 2 by auto
qed (use assms(3) in simp)

lemma lehmer_gcd_correct:
  assumes "mpz_normal a" "mpz_normal b" "0 \<le> zval b" "zval b \<le> zval a"
  shows "\<exists>r. lehmer_gcd a b = Some r \<and> mpz_normal r \<and> zval r = gcd (zval a) (zval b)"
  using assms
proof (induction "nat (zval b)" arbitrary: a b rule: less_induct)
  case less
  note ok = mpz_normal_ok[OF less.prems(1)] mpz_normal_ok[OF less.prems(2)]
  have a0: "0 \<le> zval a" using less.prems(3,4) by simp
  consider "is_small b" "is_small a" | "is_small b" "\<not> is_small a" | "\<not> is_small b" by blast
  then show ?case
  proof cases
    case 1
    note sb = small_bounds[OF ok(1) 1(2)] small_bounds[OF ok(2) 1(1)]
    have p: "0 \<le> m_val a" "m_val a < 2 ^ 32" "0 \<le> m_val b" "m_val b < 2 ^ 32" using sb a0 less.prems(3) by simp_all
    obtain r where r: "u_gcd (word_of_int (m_val a)) (word_of_int (m_val b)) = Some r" "uint r = gcd (m_val a) (m_val b)"
      using u_gcd_small[OF p] by blast
    have "lehmer_gcd a b = Some (set_uint r)" using 1 r(1) by (subst lehmer_gcd.simps) simp
    then show ?thesis using normal_set_uint[of r] set_uint_correct[of r] r(2) sb by simp
  next
    case 2
    then have "lehmer_gcd a b = euclid_loop a b" by (subst lehmer_gcd.simps) simp
    then show ?thesis using euclid_loop_correct[OF less.prems(1,2) a0 less.prems(3)] by simp
  next
    case 3
    obtain ys where y: "m_ptr b = Some ys" "ys \<noteq> []" "last ys \<noteq> 0" "zval b = int (nval ys)" "INT_MAX < zval b"
      using big_positive[OF less.prems(2,3) 3] by blast
    have "\<not> is_small a" using small_bounds[OF ok(1)] y(5) less.prems(4) by force
    from big_positive[OF less.prems(1) a0 this]
    obtain xs where x: "m_ptr a = Some xs" "xs \<noteq> []" "last xs \<noteq> 0" "zval a = int (nval xs)" by blast
    define ah where "ah = uint (xs ! (length xs - 1))"
    define bh where "bh = (if length ys = length xs then uint (ys ! (length ys - 1)) else 0)"
    have "nval ys \<le> nval xs" using x(4) y(4) less.prems(4) by simp
    then obtain h where "lehmer_inv (zval a) (zval b) h ah bh 1 0 0 1"
      using lehmer_start[OF x(2) y(2) x(3) y(3)] unfolding ah_def bh_def x(4) y(4) by blast
    from lehmer_digits_correct[OF this]
    obtain A B C D ah' bh' where l: "lehmer_digits ah bh 1 0 0 1 = Some (A, B, C, D)"
        "lehmer_inv (zval a) (zval b) h ah' bh' A B C D" by blast
    have step: "lehmer_gcd a b = (if B = 0 then do { t \<leftarrow> mpz_rem a b; lehmer_gcd b t }
        else lehmer_gcd (addmul (mpz_mul a (set_i64 A)) (set_i64 B) b) (addmul (mpz_mul a (set_i64 C)) (set_i64 D) b))"
      using 3 x(1) y(1) l(1) 
      by (subst lehmer_gcd.simps, unfold Let_def) (simp only: if_False bind.bind_lunit ah_def[symmetric] bh_def[symmetric] case_prod_conv)
    show ?thesis
    proof (cases "B = 0")
      case True
      have p: "0 < zval b" using y(5) by simp
      then obtain t where t: "mpz_rem a b = Some t" "zval t = zval a mod zval b"
        using mpz_rem_correct[OF ok] a0 by (auto simp: smod_nonneg)
      have n: "mpz_normal t" using normal_rem[OF less.prems(1) ok(2) t(1)] .
      have b: "0 \<le> zval t" "zval t < zval b" unfolding t(2) using p by simp_all
      have "gcd (zval b) (zval t) = gcd (zval a) (zval b)" unfolding t(2) by (rule gcd_red_int[symmetric])
      then show ?thesis using less.hyps[OF _ less.prems(2) n b(1)] b t(1) True p by (simp add: step)
    next
      case False
      have s: "mpz_ok (set_i64 v) \<and> zval (set_i64 v) = v" if "v \<in> {A, B, C, D}" for v
        using lehmer_bounds[OF l(2)] that by (intro set_i64_correct) auto
      have am: "mpz_normal (addmul (mpz_mul a (set_i64 v)) (set_i64 w) b)
          \<and> zval (addmul (mpz_mul a (set_i64 v)) (set_i64 w) b) = v * zval a + w * zval b"
        if "v \<in> {A, B, C, D}" "w \<in> {A, B, C, D}" for v w
        using s[OF that(1)] s[OF that(2)] mpz_mul_correct[OF ok(1), of "set_i64 v"]
          addmul_correct[of "mpz_mul a (set_i64 v)" "set_i64 w" b] normal_addmul[of "mpz_mul a (set_i64 v)" "set_i64 w" b] ok(2)
        by (simp add: mult.commute)
      note i = l(2)[unfolded lehmer_inv_def]
      have "\<exists>r. lehmer_gcd (addmul (mpz_mul a (set_i64 A)) (set_i64 B) b) (addmul (mpz_mul a (set_i64 C)) (set_i64 D) b) = Some r
          \<and> mpz_normal r \<and> zval r = gcd (A * zval a + B * zval b) (C * zval a + D * zval b)"
        using less.hyps[of "addmul (mpz_mul a (set_i64 C)) (set_i64 D) b" "addmul (mpz_mul a (set_i64 A)) (set_i64 B) b"]
          am[of A B] am[of C D] i False less.prems(3) by simp
      then show ?thesis using i False by (simp add: step)
    qed
  qed
qed

lemma mpz_gcd_correct:
  assumes "mpz_normal a" "mpz_normal b"
  shows "\<exists>r. mpz_gcd a b = Some r \<and> mpz_normal r \<and> zval r = gcd (zval a) (zval b)"
proof -
  note ok = mpz_normal_ok[OF assms(1)] mpz_normal_ok[OF assms(2)]
  note abs = mpz_abs_correct[OF ok(1)] mpz_abs_correct[OF ok(2)]
  note nabs = normal_abs[OF assms(1)] normal_abs[OF assms(2)]
  define both where "both \<longleftrightarrow> is_small a \<and> is_small b \<and> m_val a \<noteq> INT_MIN \<and> m_val b \<noteq> INT_MIN"
  show ?thesis
  proof (cases both)
    case True
    then have s: "is_small a" "is_small b" "m_val a \<noteq> INT_MIN" "m_val b \<noteq> INT_MIN" by (simp_all add: both_def)
    note sb = small_bounds[OF ok(1) s(1)] small_bounds[OF ok(2) s(2)]
    have p: "\<bar>m_val a\<bar> < 2 ^ 32" "\<bar>m_val b\<bar> < 2 ^ 32" using sb s(3,4) by auto
    obtain r where r: "u_gcd (word_of_int \<bar>m_val a\<bar>) (word_of_int \<bar>m_val b\<bar>) = Some r" "uint r = gcd \<bar>m_val a\<bar> \<bar>m_val b\<bar>"
      using u_gcd_small[OF abs_ge_zero p(1) abs_ge_zero p(2)] by blast
    have "mpz_gcd a b = Some (set_uint r)"
      using True r(1) by (simp only: mpz_gcd_def both_def[symmetric] if_True Let_def abs_if) simp
    then show ?thesis using normal_set_uint[of r] set_uint_correct[of r] r(2) sb by simp
  next
    case False
    then have e: "mpz_gcd a b = (if is_zero a then Some (mpz_abs b) else if is_zero b then Some (mpz_abs a)
        else if mpz_lt (mpz_abs a) (mpz_abs b) then lehmer_gcd (mpz_abs b) (mpz_abs a) else lehmer_gcd (mpz_abs a) (mpz_abs b))"
      by (simp only: mpz_gcd_def both_def[symmetric] if_False Let_def)
    consider "zval a = 0" | "zval a \<noteq> 0" "zval b = 0" | "zval a \<noteq> 0" "zval b \<noteq> 0" "\<bar>zval a\<bar> < \<bar>zval b\<bar>"
      | "zval a \<noteq> 0" "zval b \<noteq> 0" "\<bar>zval b\<bar> \<le> \<bar>zval a\<bar>" by linarith
    then show ?thesis
    proof cases
      case 3
      then have "mpz_gcd a b = lehmer_gcd (mpz_abs b) (mpz_abs a)"
        using ok abs by (simp add: e sign_tests mpz_compare_correct)
      then show ?thesis using lehmer_gcd_correct[OF nabs(2,1)] abs 3 by (simp add: gcd.commute)
    next
      case 4
      then have "mpz_gcd a b = lehmer_gcd (mpz_abs a) (mpz_abs b)"
        using ok abs by (simp add: e sign_tests mpz_compare_correct)
      then show ?thesis using lehmer_gcd_correct[OF nabs] abs 4 by simp
    qed (use ok abs nabs in \<open>simp_all add: e sign_tests\<close>)
  qed
qed

text \<open>A number that is big without need makes the loop read a null pointer.\<close>

lemma gcd_null_pointer: "mpz_gcd (mk_z INT_MAX) (set_ui64 2147483647) = None"
proof -
  have b: "set_ui64 2147483647 = mk_big 1 [2147483647]"
    by (simp add: set_ui64_def set_big_ui64_def unsigned_ucast_eq take_bit_eq_mod)
  have z: "zval (mk_big 1 [2147483647]) = INT_MAX" by simp
  have ab: "mpz_abs (mk_big 1 [2147483647]) = mk_big 1 [2147483647]" "mpz_abs (mk_z INT_MAX) = mk_z INT_MAX"
    by (simp_all add: mpz_abs_def mk_big_def is_small_def)
  have "\<not> mpz_lt (mk_z INT_MAX) (mk_big 1 [2147483647])" by (simp add: mpz_compare_correct)
  then have "mpz_gcd (mk_z INT_MAX) (set_ui64 2147483647) = lehmer_gcd (mk_z INT_MAX) (mk_big 1 [2147483647])"
    by (simp add: mpz_gcd_def b ab is_zero_def)
  also have "\<dots> = None" by (subst lehmer_gcd.simps) simp
  finally show ?thesis .
qed

section \<open>The gcd of an array: correctness\<close>

lemma gcd_rest_correct:
  assumes "mpz_normal g" "0 \<le> zval g" "\<forall>a \<in> set as. mpz_normal a"
  shows "\<exists>r. gcd_rest g as = Some r \<and> mpz_normal r \<and> zval r = gcd (zval g) (Gcd (zval ` set as))"
  using assms
proof (induction g as rule: gcd_rest.induct)
  case (1 g)
  then show ?case by simp
next
  case (2 g a as)
  show ?case
  proof (cases "is_one g")
    case True
    then have "zval g = 1" using is_one_zval(1)[of g] 2(2) by simp
    then show ?thesis using True 2(2) by simp
  next
    case False
    obtain g' where g: "mpz_gcd g a = Some g'" "mpz_normal g'" "zval g' = gcd (zval g) (zval a)"
      using mpz_gcd_correct[OF 2(2), of a] 2(4) by auto
    then show ?thesis using 2(1)[OF False, of g'] 2(4) False by (simp add: gcd.assoc)
  qed
qed

lemma mpz_gcd_array_correct:
  assumes "\<forall>a \<in> set as. mpz_normal a"
  shows "\<exists>r. mpz_gcd_array as = Some r \<and> mpz_normal r \<and> zval r = Gcd (zval ` set as)"
proof (cases as rule: mpz_gcd_array.cases)
  case (2 a)
  then show ?thesis using assms normal_abs[of a] mpz_abs_correct[of a] by simp
next
  case (3 a b cs)
  obtain g where g: "mpz_gcd a b = Some g" "mpz_normal g" "zval g = gcd (zval a) (zval b)"
    using mpz_gcd_correct[of a b] assms 3 by auto
  then show ?thesis using gcd_rest_correct[of g cs] assms 3 by (simp add: gcd.assoc)
qed simp

section \<open>The extended gcd and the least common multiple: correctness\<close>

text \<open>Each round keeps both numbers as the same combinations of the inputs.\<close>

lemma egcd_loop_correct:
  assumes "mpz_ok t1" "mpz_ok t2" "mpz_ok a" "mpz_ok b" "mpz_ok na" "mpz_ok nb" "0 \<le> zval t1" "0 \<le> zval t2"
    and "zval a * x + zval b * y = zval t1" "zval na * x + zval nb * y = zval t2"
  shows "\<exists>r a' b'. egcd_loop t1 t2 a b na nb = Some (r, a', b') \<and> mpz_ok r \<and> mpz_ok a' \<and> mpz_ok b'
    \<and> zval a' * x + zval b' * y = zval r \<and> zval r = gcd (zval t1) (zval t2)"
  using assms
proof (induction "nat (zval t2)" arbitrary: t1 t2 a b na nb rule: less_induct)
  case less
  note ok = less.prems(1-6)
  show ?case
  proof (cases "0 < zval t2")
    case False
    then have "egcd_loop t1 t2 a b na nb = Some (t1, a, b)" using ok by (subst egcd_loop.simps) (simp add: sign_tests)
    then show ?thesis using less.prems False by simp
  next
    case True
    obtain q where q: "machine_div t1 t2 = Some q" "mpz_ok q" "zval q = zval t1 div zval t2"
      using machine_div_correct[OF ok(1,2)] True less.prems(7) by (cases "zval t1 = 0") (auto simp: signed_divide_int_def)
    obtain r where r: "mpz_rem t1 t2 = Some r" "mpz_ok r" "zval r = zval t1 mod zval t2"
      using mpz_rem_correct[OF ok(1,2)] True less.prems(7) by (auto simp: smod_nonneg)
    note qa = mpz_mul_correct[OF q(2) ok(5)] and qb = mpz_mul_correct[OF ok(6) q(2)]
    note sa = mpz_sub_correct[OF ok(3) conjunct1[OF qa]] and sb = mpz_sub_correct[OF ok(4) conjunct1[OF qb]]
    have bounds: "0 \<le> zval r" "zval r < zval t2" unfolding r(3) using True by simp_all
    have comb: "zval (mpz_sub a (mpz_mul q na)) * x + zval (mpz_sub b (mpz_mul nb q)) * y = zval r"
    proof -
      have "zval (mpz_sub a (mpz_mul q na)) * x + zval (mpz_sub b (mpz_mul nb q)) * y
          = (zval a * x + zval b * y) - zval q * (zval na * x + zval nb * y)"
        unfolding conjunct2[OF sa] conjunct2[OF sb] conjunct2[OF qa] conjunct2[OF qb] by (simp add: algebra_simps)
      also have "\<dots> = zval r" unfolding less.prems(9,10) q(3) r(3) by (simp add: minus_div_mult_eq_mod)
      finally show ?thesis .
    qed
    have "egcd_loop t1 t2 a b na nb = egcd_loop t2 r na nb (mpz_sub a (mpz_mul q na)) (mpz_sub b (mpz_mul nb q))"
      using True ok q(1) r(1) by (subst egcd_loop.simps) (simp add: sign_tests)
    moreover have "gcd (zval t2) (zval r) = gcd (zval t1) (zval t2)" unfolding r(3) by (rule gcd_red_int[symmetric])
    moreover have "nat (zval r) < nat (zval t2)" using bounds True by simp
    ultimately show ?thesis
      using less.hyps[OF _ ok(2) r(2) ok(5,6) conjunct1[OF sa] conjunct1[OF sb] less.prems(8) bounds(1) less.prems(10) comb] by simp
  qed
qed

lemma mpz_extended_gcd_correct:
  assumes "mpz_ok r1" "mpz_ok r2"
  shows "\<exists>a b r. mpz_extended_gcd r1 r2 = Some (a, b, r) \<and> mpz_ok a \<and> mpz_ok b \<and> mpz_ok r
    \<and> zval a * zval r1 + zval b * zval r2 = zval r \<and> zval r = gcd (zval r1) (zval r2)"
proof -
  note abs = mpz_abs_correct[OF assms(1)] mpz_abs_correct[OF assms(2)]
  have lt: "mpz_lt (mpz_abs r1) (mpz_abs r2) \<longleftrightarrow> \<bar>zval r1\<bar> < \<bar>zval r2\<bar>" using abs by (simp add: mpz_compare_correct)
  define loop where "loop = (if mpz_lt (mpz_abs r1) (mpz_abs r2)
      then egcd_loop (mpz_abs r2) (mpz_abs r1) (mk_z 0) (mk_z 1) (mk_z 1) (mk_z 0)
      else egcd_loop (mpz_abs r1) (mpz_abs r2) (mk_z 1) (mk_z 0) (mk_z 0) (mk_z 1))"
  have "\<exists>r a b. loop = Some (r, a, b) \<and> mpz_ok r \<and> mpz_ok a \<and> mpz_ok b
      \<and> zval a * \<bar>zval r1\<bar> + zval b * \<bar>zval r2\<bar> = zval r \<and> zval r = gcd (zval r1) (zval r2)"
  proof (cases "\<bar>zval r1\<bar> < \<bar>zval r2\<bar>")
    case True
    then show ?thesis using egcd_loop_correct[of "mpz_abs r2" "mpz_abs r1" "mk_z 0" "mk_z 1" "mk_z 1" "mk_z 0" "\<bar>zval r1\<bar>" "\<bar>zval r2\<bar>"] abs
      by (simp add: loop_def lt gcd.commute)
  next
    case False
    then show ?thesis using egcd_loop_correct[of "mpz_abs r1" "mpz_abs r2" "mk_z 1" "mk_z 0" "mk_z 0" "mk_z 1" "\<bar>zval r1\<bar>" "\<bar>zval r2\<bar>"] abs
      by (simp add: loop_def lt)
  qed
  then obtain r a b where l: "loop = Some (r, a, b)" "mpz_ok r" "mpz_ok a" "mpz_ok b"
      "zval a * \<bar>zval r1\<bar> + zval b * \<bar>zval r2\<bar> = zval r" "zval r = gcd (zval r1) (zval r2)" by blast
  define a' b' where "a' = (if is_neg r1 then mpz_neg a else a)" "b' = (if is_neg r2 then mpz_neg b else b)"
  have "mpz_extended_gcd r1 r2 = Some (a', b', r)"
    using l(1) by (simp add: mpz_extended_gcd_def Let_def a'_b'_def flip: loop_def)
  moreover have "mpz_ok a' \<and> zval a' * zval r1 = zval a * \<bar>zval r1\<bar>" "mpz_ok b' \<and> zval b' * zval r2 = zval b * \<bar>zval r2\<bar>"
    using mpz_neg_correct[OF l(3)] mpz_neg_correct[OF l(4)] l(3,4) assms by (simp_all add: a'_b'_def sign_tests abs_if)
  ultimately show ?thesis using l(2,5,6) by simp
qed

lemma mpz_lcm_correct:
  assumes "mpz_normal a" "mpz_normal b"
  shows "\<exists>r. mpz_lcm a b = Some r \<and> mpz_ok r \<and> \<bar>zval r\<bar> = lcm (zval a) (zval b)"
proof -
  note ok = mpz_normal_ok[OF assms(1)] mpz_normal_ok[OF assms(2)]
  obtain g where g: "mpz_gcd a b = Some g" "mpz_normal g" "zval g = gcd (zval a) (zval b)"
    using mpz_gcd_correct[OF assms] by blast
  note okg = mpz_normal_ok[OF g(2)]
  have eq: "mpz_eq a b \<longleftrightarrow> zval a = zval b" "mpz_eq g a \<longleftrightarrow> zval g = zval a" "mpz_eq g b \<longleftrightarrow> zval g = zval b"
    using ok okg by (simp_all add: mpz_compare_correct)
  consider "is_one b" | "\<not> is_one b" "is_one a \<or> zval a = zval b"
    | "\<not> is_one b" "\<not> (is_one a \<or> zval a = zval b)" "zval g = zval a"
    | "\<not> is_one b" "\<not> (is_one a \<or> zval a = zval b)" "zval g \<noteq> zval a" "zval g = zval b"
    | "\<not> is_one b" "\<not> (is_one a \<or> zval a = zval b)" "zval g \<noteq> zval a" "zval g \<noteq> zval b" by blast
  then show ?thesis
  proof cases
    case 1
    then show ?thesis using ok is_one_zval(1)[OF ok(2)] by (simp add: mpz_lcm_def)
  next
    case 2
    then show ?thesis using ok is_one_zval(1)[OF ok(1)] by (auto simp: mpz_lcm_def eq)
  next
    case 3
    then have "mpz_lcm a b = Some b" using g(1) by (simp add: mpz_lcm_def eq)
    moreover have "zval a dvd zval b" using 3(3) g(3) by (metis gcd_dvd2)
    ultimately show ?thesis using ok by (simp add: lcm_proj2_if_dvd)
  next
    case 4
    then have "mpz_lcm a b = Some a" using g(1) by (simp add: mpz_lcm_def eq)
    moreover have "zval b dvd zval a" using 4(4) g(3) by (metis gcd_dvd1)
    ultimately show ?thesis using ok by (simp add: lcm_proj1_if_dvd)
  next
    case 5
    have g0: "zval g \<noteq> 0" using 5(2) g(3) by auto
    obtain q where q: "machine_div a g = Some q" "mpz_ok q" "zval q = zval a sdiv zval g"
      using machine_div_correct[OF ok(1) okg g0] by blast
    have dv: "zval g dvd zval a" "0 < zval g" using g(3) g0 by simp_all
    then obtain k where k: "zval a = zval g * k" by (elim dvdE)
    have "zval q * zval g = zval a"
      unfolding q(3) k using dv(2) by (cases k "0 :: int" rule: linorder_cases) (simp_all add: signed_divide_int_def abs_mult sgn_mult mult.commute)
    then have "\<bar>zval q\<bar> * zval g = \<bar>zval a\<bar>" using dv(2) by (metis abs_mult abs_of_pos)
    then have "\<bar>zval q * zval b\<bar> * zval g = \<bar>zval a\<bar> * \<bar>zval b\<bar>" unfolding abs_mult by (metis mult.assoc mult.commute)
    also have "\<dots> = lcm (zval a) (zval b) * zval g" unfolding g(3) using prod_gcd_lcm_int[of "zval a" "zval b"] by (simp only: mult.commute)
    finally have "\<bar>zval q * zval b\<bar> * zval g = lcm (zval a) (zval b) * zval g" .
    then have "\<bar>zval q * zval b\<bar> = lcm (zval a) (zval b)" using dv(2) by simp
    then show ?thesis using 5 g(1) q(1) mpz_mul_correct[OF q(2) ok(2)] by (simp add: mpz_lcm_def eq)
  qed
qed

end
