(* ===== verification/Mpz_String.thy ===== *)
theory Mpz_String
  imports Mpz_Sound Mpn_String
begin

text \<open>
  Decimal numerals of multi-precision integers (mpz.cpp): reading, which skips leading blanks, takes a
  minus sign in the first place and ignores every other character that is not a digit, and the two ways of
  printing. Reading what was printed gives the number back.

  A string of the code ends at its first null character; the strings here are the characters before it.
\<close>

section \<open>Reading\<close>

definition is_digit :: "char \<Rightarrow> bool" where
  "is_digit c = (CHR ''0'' \<le> c \<and> c \<le> CHR ''9'')"

definition set_string_step :: "mpz \<Rightarrow> char \<Rightarrow> mpz" where
  "set_string_step a c =
     (if is_digit c then mpz_add (mpz_mul a (mk_z 10)) (mk_z (of_char c - of_char CHR ''0'')) else a)"

definition set_string :: "string \<Rightarrow> mpz" where
  "set_string val =
     (let str = dropWhile (\<lambda>c. c = CHR '' '') val;
          sign = (case str of [] \<Rightarrow> False | c # _ \<Rightarrow> c = CHR ''-'');
          a = foldl set_string_step (mk_z 0) str
      in if sign then mpz_neg a else a)"

section \<open>Printing\<close>

text \<open>The stream prints an \<^verbatim>\<open>int\<close> in decimal.\<close>

definition show_int :: "int \<Rightarrow> string" where
  "show_int v = (if v < 0 then ''-'' @ decimal (nat (- v)) else decimal (nat v))"

definition display_mpz :: "mpz \<Rightarrow> mpn_error + string" where
  "display_mpz a =
     (case m_ptr a of
        None \<Rightarrow> Inr (show_int (m_val a))
      | Some ds \<Rightarrow>
          (case mpn_to_string ds of Inl e \<Rightarrow> Inl e | Inr s \<Rightarrow> Inr ((if m_val a < 0 then ''-'' else []) @ s)))"

definition display_smt2 :: "mpz \<Rightarrow> bool \<Rightarrow> mpn_error + string" where
  "display_smt2 a dec =
     (let suffix = (if dec then ''.0'' else [])
      in if is_neg a then
           (case display_mpz (mpz_neg a) of Inl e \<Rightarrow> Inl e | Inr s \<Rightarrow> Inr (''(- '' @ s @ suffix @ '')''))
         else
           (case display_mpz a of Inl e \<Rightarrow> Inl e | Inr s \<Rightarrow> Inr (s @ suffix)))"

definition mpz_to_string :: "mpz \<Rightarrow> mpn_error + string" where
  "mpz_to_string a = display_mpz a"

section \<open>What is read\<close>

definition digit_value :: "char \<Rightarrow> int" where
  "digit_value c = of_char c - 48"

text \<open>The number of the digits of a string, the other characters left out.\<close>

definition digits_value :: "int \<Rightarrow> string \<Rightarrow> int" where
  "digits_value = foldl (\<lambda>v c. 10 * v + digit_value c)"

lemma of_char_zero [simp]: "of_char CHR ''0'' = (48 :: int)"
  by simp

lemma of_char_int: "(of_char c :: int) = int (of_char c)"
  by (simp only: of_nat_of_char)

lemma is_digit_value: "is_digit c \<Longrightarrow> 0 \<le> digit_value c \<and> digit_value c \<le> 9"
proof -
  assume "is_digit c"
  then have "of_char CHR ''0'' \<le> (of_char c :: nat)" "(of_char c :: nat) \<le> of_char CHR ''9''"
    by (simp_all only: is_digit_def less_eq_char_def)
  then have "48 \<le> (of_char c :: nat)" "(of_char c :: nat) \<le> 57" by simp_all
  moreover have "(of_char c :: int) = int (of_char c)" by (rule of_char_int)
  ultimately show ?thesis unfolding digit_value_def by linarith
qed

lemma set_string_step_correct:
  assumes "mpz_ok a"
  shows "mpz_ok (set_string_step a c) \<and> zval (set_string_step a c) = (if is_digit c then 10 * zval a + digit_value c else zval a)"
proof (cases "is_digit c")
  case True
  note d = is_digit_value[OF True]
  then have "mpz_ok (mk_z (digit_value c))" "zval (mk_z (digit_value c)) = digit_value c" by simp_all
  moreover note mpz_mul_correct[OF assms, of "mk_z 10"]
  ultimately show ?thesis using True mpz_add_correct[of "mpz_mul a (mk_z 10)" "mk_z (digit_value c)"]
    by (simp add: set_string_step_def digit_value_def)
qed (use assms in \<open>simp add: set_string_step_def\<close>)

lemma set_string_loop:
  "mpz_ok a \<Longrightarrow> mpz_ok (foldl set_string_step a s) \<and> zval (foldl set_string_step a s) = digits_value (zval a) (filter is_digit s)"
proof (induction s arbitrary: a)
  case (Cons c s)
  then show ?case using set_string_step_correct[of a c] by (simp add: digits_value_def)
qed (simp add: digits_value_def)

lemma set_string_correct:
  "mpz_ok (set_string val) \<and>
   zval (set_string val) =
     (case dropWhile (\<lambda>c. c = CHR '' '') val of
        [] \<Rightarrow> 0
      | c # cs \<Rightarrow> if c = CHR ''-'' then - digits_value 0 (filter is_digit cs) else digits_value 0 (filter is_digit (c # cs)))"
proof -
  have m: "\<not> is_digit CHR ''-''" by (simp add: is_digit_def less_eq_char_def)
  define str where "str = dropWhile (\<lambda>c. c = CHR '' '') val"
  have l: "mpz_ok (foldl set_string_step (mk_z 0) str)"
      "zval (foldl set_string_step (mk_z 0) str) = digits_value 0 (filter is_digit str)"
    using set_string_loop[of "mk_z 0" str] by simp_all
  note n = mpz_neg_correct[OF l(1)]
  show ?thesis
  proof (cases str)
    case Nil
    then show ?thesis using l by (simp add: set_string_def digits_value_def flip: str_def)
  next
    case (Cons c cs)
    have "set_string val = (if c = CHR ''-'' then mpz_neg (foldl set_string_step (mk_z 0) str) else foldl set_string_step (mk_z 0) str)"
      unfolding set_string_def Let_def str_def[symmetric] by (simp only: Cons list.case)
    then show ?thesis using l n m Cons unfolding str_def[symmetric] by auto
  qed
qed

section \<open>Numerals\<close>

lemma digit_char_value: "n < 10 \<Longrightarrow> is_digit (digit_char n) \<and> digit_value (digit_char n) = int n"
  by (simp add: is_digit_def digit_char_def less_eq_char_def digit_value_def of_char_int)

lemma decimal_digits: "(\<forall>c \<in> set (decimal n). is_digit c) \<and> digits_value 0 (decimal n) = int n \<and> decimal n \<noteq> []"
proof (induction n rule: decimal.induct)
  case (1 n)
  show ?case
  proof (cases "n < 10")
    case True
    then show ?thesis using digit_char_value[of n] by (subst (1 2 3) decimal.simps) (simp add: digits_value_def)
  next
    case False
    have "n mod 10 < 10" by simp
    note d = digit_char_value[OF this]
    have e: "decimal n = decimal (n div 10) @ [digit_char (n mod 10)]" using False by (subst decimal.simps) simp
    have "digits_value 0 (decimal n) = 10 * digits_value 0 (decimal (n div 10)) + int (n mod 10)"
      using d unfolding e by (simp add: digits_value_def)
    also have "\<dots> = 10 * int (n div 10) + int (n mod 10)" using 1[OF False] by simp
    also have "\<dots> = int n" by presburger
    finally show ?thesis using 1[OF False] d e by auto
  qed
qed

lemma decimal_hd:
  assumes "decimal n = c # cs"
  shows "c \<noteq> CHR '' ''" "c \<noteq> CHR ''-''" "filter is_digit (c # cs) = decimal n"
proof -
  have "is_digit c" using decimal_digits[of n] assms by simp
  then show "c \<noteq> CHR '' ''" "c \<noteq> CHR ''-''" by (auto simp: is_digit_def less_eq_char_def)
  show "filter is_digit (c # cs) = decimal n" using decimal_digits[of n] assms by (simp add: filter_id_conv)
qed

lemma set_string_decimal: "mpz_ok (set_string (decimal n)) \<and> zval (set_string (decimal n)) = int n"
proof (cases "decimal n")
  case (Cons c cs)
  note h = decimal_hd[OF Cons]
  have "dropWhile (\<lambda>c. c = CHR '' '') (decimal n) = c # cs" using Cons h(1) by simp
  then show ?thesis using set_string_correct[of "decimal n"] h(2,3) decimal_digits[of n] by simp
qed (use decimal_digits[of n] in simp)

lemma set_string_negative: "mpz_ok (set_string (''-'' @ decimal n)) \<and> zval (set_string (''-'' @ decimal n)) = - int n"
proof -
  have "filter is_digit (decimal n) = decimal n" using decimal_digits[of n] by (simp add: filter_id_conv)
  then show ?thesis using set_string_correct[of "''-'' @ decimal n"] decimal_digits[of n] by simp
qed

lemma display_mpz_correct:
  assumes "mpz_ok a"
  shows "display_mpz a = Inr (show_int (zval a))"
proof (cases a rule: mpz_cases)
  case (1 v)
  then show ?thesis by (simp add: display_mpz_def)
next
  case (2 s ds)
  then have s: "s = 1 \<or> s = - 1" "ds \<noteq> []" "last ds \<noteq> 0" using assms by simp_all
  have p: "0 < nval ds" using zval_pos s by blast
  have "m_ptr a = Some ds" "m_val a = s" using 2 by (simp_all add: mk_big_def)
  then show ?thesis using s(1) p 2 mpn_to_string_correct[OF s(2)] by (auto simp: display_mpz_def show_int_def)
qed

lemma display_smt2_correct:
  assumes "mpz_ok a"
  shows "display_smt2 a dec = Inr (if zval a < 0
     then ''(- '' @ decimal (nat (- zval a)) @ (if dec then ''.0'' else []) @ '')''
     else decimal (nat (zval a)) @ (if dec then ''.0'' else []))"
  using display_mpz_correct[OF assms] display_mpz_correct[of "mpz_neg a"] mpz_neg_correct[OF assms] sign_tests(2)[OF assms]
  by (simp add: display_smt2_def show_int_def)

lemma string_roundtrip:
  assumes "mpz_ok a"
  shows "\<exists>s. mpz_to_string a = Inr s \<and> mpz_ok (set_string s) \<and> zval (set_string s) = zval a"
  using display_mpz_correct[OF assms] set_string_decimal set_string_negative[of "nat (- zval a)"]
  by (cases "zval a < 0") (simp_all add: mpz_to_string_def show_int_def)

end
