(* ===== verification/Mpq.thy ===== *)
theory Mpq
  imports Complex_Main Mpz_Gcd Mpz_Bits Mpz_Bitwise Mpz_Roots
begin

text \<open>
  Rationals (src/sources/Z3/src/util/mpq.h, mpq.cpp): a pair of multi-precision integers in lowest
  terms with a positive denominator. Every operation works on the numerators alone when the
  denominators are one, and otherwise computes a pair that \<open>normalize_q\<close> divides by its gcd.

  The manager is a template over a flag for synchronisation, which only chooses between local and
  shared temporaries. As for the integers, a result is returned instead of being stored.
\<close>

section \<open>Representation\<close>

record mpq =
  m_num :: mpz
  m_den :: mpz

definition reset_denominator :: "mpq \<Rightarrow> mpq" where
  "reset_denominator a = a\<lparr>m_den := mk_z 1\<rparr>"

text \<open>A numerator stored in a target whose denominator is reset.\<close>

definition int_q :: "mpz \<Rightarrow> mpq" where
  "int_q n = \<lparr>m_num = n, m_den = mk_z 1\<rparr>"

definition is_int_q :: "mpq \<Rightarrow> bool" where
  "is_int_q a = is_one (m_den a)"

definition normalize_q :: "mpq \<Rightarrow> mpq option" where
  "normalize_q a = do {
     g \<leftarrow> mpz_gcd (m_num a) (m_den a);
     (if is_one g then Some a
      else do { n \<leftarrow> mpz_div (m_num a) g; d \<leftarrow> mpz_div (m_den a) g; Some \<lparr>m_num = n, m_den = d\<rparr> })
   }"

definition reset_q :: "mpq \<Rightarrow> mpq" where
  "reset_q a = reset_denominator (a\<lparr>m_num := mk_z 0\<rparr>)"

definition get_numerator :: "mpq \<Rightarrow> mpq" where "get_numerator a = int_q (m_num a)"

definition get_denominator :: "mpq \<Rightarrow> mpq" where "get_denominator a = int_q (m_den a)"

section \<open>Setting a number\<close>

text \<open>A 32-bit \<^verbatim>\<open>int\<close>.\<close>

definition i32 :: "int \<Rightarrow> int" where
  "i32 v = signed_take_bit 31 v"

definition set_q_int :: "int \<Rightarrow> mpq" where "set_q_int v = int_q (mk_z v)"

definition set_q_frac :: "int \<Rightarrow> int \<Rightarrow> mpq option" where
  "set_q_frac n d =
     (let (n, d) = (if d < 0 then (i32 (- n), i32 (- d)) else (n, d))
      in normalize_q \<lparr>m_num = mk_z n, m_den = mk_z d\<rparr>)"

definition set_q_frac64 :: "int \<Rightarrow> 64 word \<Rightarrow> mpq option" where
  "set_q_frac64 n d = normalize_q \<lparr>m_num = set_i64 n, m_den = set_ui64 d\<rparr>"

definition set_q_mpz :: "mpz \<Rightarrow> mpz \<Rightarrow> mpq option" where
  "set_q_mpz n d =
     normalize_q (if is_neg d then \<lparr>m_num = mpz_neg n, m_den = mpz_neg d\<rparr> else \<lparr>m_num = n, m_den = d\<rparr>)"

definition set_q_uint :: "mpn_digit \<Rightarrow> mpq" where "set_q_uint v = int_q (set_uint v)"

definition set_q_i64 :: "int \<Rightarrow> mpq" where "set_q_i64 v = int_q (set_i64 v)"

definition set_q_ui64 :: "64 word \<Rightarrow> mpq" where "set_q_ui64 v = int_q (set_ui64 v)"

definition set_q_digits :: "mpn_digit list \<Rightarrow> mpq" where "set_q_digits ds = int_q (set_digits ds)"

section \<open>Signs and tests\<close>

definition neg_q :: "mpq \<Rightarrow> mpq" where "neg_q a = a\<lparr>m_num := mpz_neg (m_num a)\<rparr>"

definition abs_q :: "mpq \<Rightarrow> mpq" where "abs_q a = a\<lparr>m_num := mpz_abs (m_num a)\<rparr>"

definition is_pos_q :: "mpq \<Rightarrow> bool" where "is_pos_q a = is_pos (m_num a)"

definition is_neg_q :: "mpq \<Rightarrow> bool" where "is_neg_q a = is_neg (m_num a)"

definition is_zero_q :: "mpq \<Rightarrow> bool" where "is_zero_q a = is_zero (m_num a)"

definition is_one_q :: "mpq \<Rightarrow> bool" where "is_one_q a = (is_one (m_num a) \<and> is_one (m_den a))"

definition is_minus_one_q :: "mpq \<Rightarrow> bool" where "is_minus_one_q a = (is_minus_one (m_num a) \<and> is_one (m_den a))"

section \<open>Addition, subtraction and multiplication\<close>

definition rat_add :: "mpq \<Rightarrow> mpq \<Rightarrow> mpq option" where
  "rat_add a b = normalize_q
     \<lparr>m_num = mpz_add (mpz_mul (m_num a) (m_den b)) (mpz_mul (m_num b) (m_den a)), m_den = mpz_mul (m_den a) (m_den b)\<rparr>"

definition rat_add_z :: "mpq \<Rightarrow> mpz \<Rightarrow> mpq option" where
  "rat_add_z a b = normalize_q \<lparr>m_num = mpz_add (m_num a) (mpz_mul b (m_den a)), m_den = m_den a\<rparr>"

definition rat_sub :: "mpq \<Rightarrow> mpq \<Rightarrow> mpq option" where
  "rat_sub a b = normalize_q
     \<lparr>m_num = mpz_sub (mpz_mul (m_num a) (m_den b)) (mpz_mul (m_num b) (m_den a)), m_den = mpz_mul (m_den a) (m_den b)\<rparr>"

definition rat_mul :: "mpq \<Rightarrow> mpq \<Rightarrow> mpq option" where
  "rat_mul a b = normalize_q \<lparr>m_num = mpz_mul (m_num a) (m_num b), m_den = mpz_mul (m_den a) (m_den b)\<rparr>"

definition rat_mul_z :: "mpz \<Rightarrow> mpq \<Rightarrow> mpq option" where
  "rat_mul_z a b = normalize_q \<lparr>m_num = mpz_mul a (m_num b), m_den = m_den b\<rparr>"

definition add_q :: "mpq \<Rightarrow> mpq \<Rightarrow> mpq option" where
  "add_q a b = (if is_int_q a \<and> is_int_q b then Some (int_q (mpz_add (m_num a) (m_num b))) else rat_add a b)"

definition add_q_z :: "mpq \<Rightarrow> mpz \<Rightarrow> mpq option" where
  "add_q_z a b = (if is_int_q a then Some (int_q (mpz_add (m_num a) b)) else rat_add_z a b)"

definition sub_q :: "mpq \<Rightarrow> mpq \<Rightarrow> mpq option" where
  "sub_q a b = (if is_int_q a \<and> is_int_q b then Some (int_q (mpz_sub (m_num a) (m_num b))) else rat_sub a b)"

definition inc_q :: "mpq \<Rightarrow> mpq option" where "inc_q a = add_q_z a (mk_z 1)"

definition dec_q :: "mpq \<Rightarrow> mpq option" where "dec_q a = add_q_z a (mk_z (- 1))"

definition mul_q :: "mpq \<Rightarrow> mpq \<Rightarrow> mpq option" where
  "mul_q a b = (if is_int_q a \<and> is_int_q b then Some (int_q (mpz_mul (m_num a) (m_num b))) else rat_mul a b)"

definition mul_z_q :: "mpz \<Rightarrow> mpq \<Rightarrow> mpq option" where
  "mul_z_q a b = (if is_int_q b then Some (int_q (mpz_mul a (m_num b))) else rat_mul_z a b)"

text \<open>The product of two integers as a rational.\<close>

definition mul_z_z :: "mpz \<Rightarrow> mpz \<Rightarrow> mpq" where "mul_z_z a b = int_q (mpz_mul a b)"

definition addmul_q :: "mpq \<Rightarrow> mpq \<Rightarrow> mpq \<Rightarrow> mpq option" where
  "addmul_q a b c =
     (if is_one_q b then add_q a c
      else if is_minus_one_q b then sub_q a c
      else do { tmp \<leftarrow> mul_q b c; add_q a tmp })"

definition addmul_q_z :: "mpq \<Rightarrow> mpz \<Rightarrow> mpq \<Rightarrow> mpq option" where
  "addmul_q_z a b c =
     (if is_one b then add_q a c
      else if is_minus_one b then sub_q a c
      else do { tmp \<leftarrow> mul_z_q b c; add_q a tmp })"

definition submul_q :: "mpq \<Rightarrow> mpq \<Rightarrow> mpq \<Rightarrow> mpq option" where
  "submul_q a b c =
     (if is_one_q b then sub_q a c
      else if is_minus_one_q b then add_q a c
      else do { tmp \<leftarrow> mul_q b c; sub_q a tmp })"

definition submul_q_z :: "mpq \<Rightarrow> mpz \<Rightarrow> mpq \<Rightarrow> mpq option" where
  "submul_q_z a b c =
     (if is_one b then sub_q a c
      else if is_minus_one b then add_q a c
      else do { tmp \<leftarrow> mul_z_q b c; sub_q a tmp })"

section \<open>Division\<close>

definition inv_q :: "mpq \<Rightarrow> mpq" where
  "inv_q a =
     (if is_neg_q a then \<lparr>m_num = mpz_neg (m_den a), m_den = mpz_neg (m_num a)\<rparr>
      else \<lparr>m_num = m_den a, m_den = m_num a\<rparr>)"

definition div_q :: "mpq \<Rightarrow> mpq \<Rightarrow> mpq option" where
  "div_q a b =
     (let n = mpz_mul (m_num a) (m_den b); d = mpz_mul (m_den a) (m_num b)
      in normalize_q (if is_neg d then \<lparr>m_num = mpz_neg n, m_den = mpz_neg d\<rparr> else \<lparr>m_num = n, m_den = d\<rparr>))"

definition div_q_z :: "mpq \<Rightarrow> mpz \<Rightarrow> mpq option" where
  "div_q_z a b =
     (let n = m_num a; d = mpz_mul (m_den a) b
      in normalize_q (if is_neg b then \<lparr>m_num = mpz_neg n, m_den = mpz_neg d\<rparr> else \<lparr>m_num = n, m_den = d\<rparr>))"

definition acc_div :: "mpq \<Rightarrow> mpz \<Rightarrow> mpq option" where
  "acc_div a b =
     (let a1 = a\<lparr>m_den := mpz_mul (m_den a) b\<rparr>
      in normalize_q (if is_neg b then a1\<lparr>m_num := mpz_neg (m_num a1), m_den := mpz_neg (m_den a1)\<rparr> else a1))"

text \<open>The quotient of two integers; the sign of the denominator is left as it is.\<close>

definition rat_div :: "mpz \<Rightarrow> mpz \<Rightarrow> mpq option" where
  "rat_div a b = normalize_q \<lparr>m_num = a, m_den = b\<rparr>"

section \<open>Operations on rationals that are integers\<close>

definition machine_idiv_q :: "mpq \<Rightarrow> mpq \<Rightarrow> mpq option" where
  "machine_idiv_q a b = map_option int_q (machine_div (m_num a) (m_num b))"

definition idiv_q :: "mpq \<Rightarrow> mpq \<Rightarrow> mpq option" where
  "idiv_q a b = map_option int_q (mpz_div (m_num a) (m_num b))"

definition rem_q :: "mpq \<Rightarrow> mpq \<Rightarrow> mpq option" where
  "rem_q a b = map_option int_q (mpz_rem (m_num a) (m_num b))"

definition mod_q :: "mpq \<Rightarrow> mpq \<Rightarrow> mpq option" where
  "mod_q a b = map_option int_q (mpz_mod (m_num a) (m_num b))"

definition gcd_q :: "mpq \<Rightarrow> mpq \<Rightarrow> mpq option" where
  "gcd_q a b = map_option int_q (mpz_gcd (m_num a) (m_num b))"

definition extended_gcd_q :: "mpq \<Rightarrow> mpq \<Rightarrow> (mpq \<times> mpq \<times> mpq) option" where
  "extended_gcd_q r1 r2 =
     map_option (\<lambda>(a, b, g). (int_q a, int_q b, int_q g)) (mpz_extended_gcd (m_num r1) (m_num r2))"

definition lcm_q :: "mpq \<Rightarrow> mpq \<Rightarrow> mpq option" where
  "lcm_q a b = map_option int_q (mpz_lcm (m_num a) (m_num b))"

definition divides_q :: "mpq \<Rightarrow> mpq \<Rightarrow> bool option" where
  "divides_q a b = mpz_divides (m_num a) (m_num b)"

fun gcd_rest_q :: "mpq \<Rightarrow> mpq list \<Rightarrow> mpq option" where
  "gcd_rest_q g [] = Some g"
| "gcd_rest_q g (a # as) = (if is_one_q g then Some g else do { g' \<leftarrow> gcd_q g a; gcd_rest_q g' as })"

fun gcd_array_q :: "mpq list \<Rightarrow> mpq option" where
  "gcd_array_q [] = Some (set_q_int 0)"
| "gcd_array_q [a] = Some (abs_q a)"
| "gcd_array_q (a # b # as) = do { g \<leftarrow> gcd_q a b; gcd_rest_q g as }"

section \<open>Comparison and rounding\<close>

definition eq_q :: "mpq \<Rightarrow> mpq \<Rightarrow> bool" where
  "eq_q a b = (mpz_eq (m_num a) (m_num b) \<and> mpz_eq (m_den a) (m_den b))"

text \<open>The last comparison is of integers stored as rationals.\<close>

definition rat_lt :: "mpq \<Rightarrow> mpq \<Rightarrow> bool" where
  "rat_lt a b =
     (let sign_a = m_val (m_num a); sign_b = m_val (m_num b);
          products = mpz_lt (m_num (mul_z_z (m_num a) (m_den b))) (m_num (mul_z_z (m_num b) (m_den a)))
      in if sign_a < 0 then (if sign_b \<ge> 0 then True else products)
         else if sign_a = 0 then (if sign_b > 0 then True else False)
         else if sign_b \<le> 0 then False
         else products)"

definition lt_q :: "mpq \<Rightarrow> mpq \<Rightarrow> bool" where
  "lt_q a b = (if is_int_q a \<and> is_int_q b then mpz_lt (m_num a) (m_num b) else rat_lt a b)"

definition gt_q :: "mpq \<Rightarrow> mpq \<Rightarrow> bool" where "gt_q a b = lt_q b a"

definition ge_q :: "mpq \<Rightarrow> mpq \<Rightarrow> bool" where "ge_q a b = (\<not> lt_q a b)"

definition le_q :: "mpq \<Rightarrow> mpq \<Rightarrow> bool" where "le_q a b = (\<not> lt_q b a)"

definition floor_q :: "mpq \<Rightarrow> mpz option" where
  "floor_q a =
     (if is_int_q a then Some (m_num a)
      else do { f \<leftarrow> machine_div (m_num a) (m_den a); Some (if is_neg (m_num a) then mpz_sub f (mk_z 1) else f) })"

definition ceil_q :: "mpq \<Rightarrow> mpz option" where
  "ceil_q a =
     (if is_int_q a then Some (m_num a)
      else do { c \<leftarrow> machine_div (m_num a) (m_den a); Some (if is_pos (m_num a) then mpz_add c (mk_z 1) else c) })"

section \<open>Powers and roots\<close>

definition power_q :: "mpq \<Rightarrow> mpn_digit \<Rightarrow> mpq option" where
  "power_q a p = power_loop mul_q p 1 a (int_q (mk_z 1))"

text \<open>The flag, and what is stored in \<^verbatim>\<open>r\<close>.\<close>

definition is_perfect_square_q :: "mpq \<Rightarrow> mpq \<Rightarrow> (bool \<times> mpq) option" where
  "is_perfect_square_q a r =
     (if is_int_q a then do {
        (ok, n) \<leftarrow> is_perfect_square (m_num a) (m_num r);
        Some (ok, \<lparr>m_num = n, m_den = mk_z 1\<rparr>)
      }
      else do {
        (ok1, n) \<leftarrow> is_perfect_square (m_num a) (m_num r);
        (if ok1 then do {
           (ok2, d) \<leftarrow> is_perfect_square (m_den a) (m_den r);
           (if ok2 then do { r' \<leftarrow> normalize_q \<lparr>m_num = n, m_den = d\<rparr>; Some (True, r') }
            else Some (False, \<lparr>m_num = n, m_den = d\<rparr>))
         }
         else Some (False, r\<lparr>m_num := n\<rparr>))
      })"

definition root_q :: "mpq \<Rightarrow> mpn_digit \<Rightarrow> mpq \<Rightarrow> (bool \<times> mpq) option" where
  "root_q a n r = do {
     (ok1, rn) \<leftarrow> mpz_root (m_num a) n;
     (if ok1 then do { (ok2, rd) \<leftarrow> mpz_root (m_den a) n; Some (ok2, \<lparr>m_num = rn, m_den = rd\<rparr>) }
      else Some (False, r\<lparr>m_num := rn\<rparr>))
   }"

definition prev_power_of_two_q :: "mpq \<Rightarrow> nat option" where
  "prev_power_of_two_q a = map_option mpz_log2 (floor_q a)"

definition bitsize_q :: "mpq \<Rightarrow> nat" where
  "bitsize_q a = (if is_int_q a then bitsize (m_num a) else bitsize (m_num a) + bitsize (m_den a))"

definition is_power_of_two_q :: "mpq \<Rightarrow> nat option" where
  "is_power_of_two_q a = (if is_int_q a then is_power_of_two (m_num a) else None)"

definition is_even_q :: "mpq \<Rightarrow> bool" where "is_even_q a = (is_int_q a \<and> is_even (m_num a))"

definition is_uint64_q :: "mpq \<Rightarrow> bool" where "is_uint64_q a = (is_int_q a \<and> is_uint64 (m_num a))"

definition is_int64_q :: "mpq \<Rightarrow> bool" where "is_int64_q a = (is_int_q a \<and> is_int64 (m_num a))"

section \<open>The value and the invariant\<close>

definition qval :: "mpq \<Rightarrow> rat" where
  "qval a = of_int (zval (m_num a)) / of_int (zval (m_den a))"

definition mpq_ok :: "mpq \<Rightarrow> bool" where
  "mpq_ok a \<longleftrightarrow> mpz_normal (m_num a) \<and> mpz_normal (m_den a) \<and> 0 < zval (m_den a) \<and> coprime (zval (m_num a)) (zval (m_den a))"

end
