(* ===== verification/Mpq_Sound.thy ===== *)
theory Mpq_Sound
  imports Mpq
begin

text \<open>
  Correctness of the rationals: every operation returns a pair in lowest terms with a positive
  denominator and is the operation on the numbers denoted.
\<close>

section \<open>Normalisation\<close>

lemma mpq_ok_int_q [simp]: "mpq_ok (int_q n) \<longleftrightarrow> mpz_normal n"
  by (simp add: mpq_ok_def int_q_def)

lemma qval_int_q [simp]: "qval (int_q n) = of_int (zval n)"
  by (simp add: qval_def int_q_def)

lemma mpq_okD:
  assumes "mpq_ok a"
  shows "mpz_normal (m_num a)" "mpz_normal (m_den a)" "mpz_ok (m_num a)" "mpz_ok (m_den a)" "0 < zval (m_den a)"
    "coprime (zval (m_num a)) (zval (m_den a))"
  using assms by (simp_all add: mpq_ok_def)

lemma is_int_q_iff: "mpq_ok a \<Longrightarrow> is_int_q a \<longleftrightarrow> zval (m_den a) = 1"
  using mpq_okD(2) is_one_normal(1) by (auto simp: is_int_q_def)

lemma int_value: "mpq_ok a \<Longrightarrow> is_int_q a \<Longrightarrow> qval a = of_int (zval (m_num a))"
  by (simp add: qval_def is_int_q_iff)

lemma exact_division:
  assumes "mpz_normal a" "mpz_normal g" "0 < zval g" "zval g dvd zval a"
  shows "\<exists>q. mpz_div a g = Some q \<and> mpz_normal q \<and> zval q = zval a div zval g"
proof -
  obtain q where q: "mpz_div a g = Some q" "zval g * zval q + zval a mod \<bar>zval g\<bar> = zval a"
    using mpz_div_correct[OF mpz_normal_ok[OF assms(1)] mpz_normal_ok[OF assms(2)]] assms(3) by auto
  have "zval a = zval g * zval q" using q(2) assms(3,4) by (simp add: dvd_imp_mod_0)
  then have "zval q = zval a div zval g" using assms(3) by simp
  then show ?thesis using q(1) normal_div[OF assms(1) mpz_normal_ok[OF assms(2)] q(1)] by simp
qed

lemma normalize_result:
  assumes "mpz_normal n" "mpz_normal d" "0 < zval d"
  shows "\<exists>r. normalize_q \<lparr>m_num = n, m_den = d\<rparr> = Some r \<and> mpq_ok r \<and> qval r = of_int (zval n) / of_int (zval d)"
proof -
  obtain g where g: "mpz_gcd n d = Some g" "mpz_normal g" "zval g = gcd (zval n) (zval d)"
    using mpz_gcd_correct[OF assms(1,2)] by blast
  have pos: "0 < zval g" using g(3) assms(3) by simp
  show ?thesis
  proof (cases "is_one g")
    case True
    then have "gcd (zval n) (zval d) = 1" using is_one_normal(1)[OF g(2)] g(3) by simp
    then show ?thesis using True g(1) assms by (simp add: normalize_q_def mpq_ok_def qval_def coprime_iff_gcd_eq_1)
  next
    case False
    obtain n' where n: "mpz_div n g = Some n'" "mpz_normal n'" "zval n' = zval n div zval g"
      using exact_division[OF assms(1) g(2) pos] g(3) by auto
    obtain d' where d: "mpz_div d g = Some d'" "mpz_normal d'" "zval d' = zval d div zval g"
      using exact_division[OF assms(2) g(2) pos] g(3) by auto
    have ex: "zval n = zval n' * zval g" "zval d = zval d' * zval g" unfolding n(3) d(3) g(3) by simp_all
    have "0 < zval d'" using assms(3) pos unfolding ex(2) by (simp add: zero_less_mult_iff)
    moreover have "coprime (zval n') (zval d')" unfolding n(3) d(3) g(3) using assms(3) by (intro div_gcd_coprime) simp
    moreover have "(of_int (zval n) :: rat) / of_int (zval d) = of_int (zval n') / of_int (zval d')"
      unfolding ex using pos by simp
    ultimately show ?thesis using False g(1) n(1,2) d(1,2) by (simp add: normalize_q_def mpq_ok_def qval_def)
  qed
qed

lemma normalize_q_correct:
  assumes "mpz_normal (m_num a)" "mpz_normal (m_den a)" "0 < zval (m_den a)"
  shows "\<exists>r. normalize_q a = Some r \<and> mpq_ok r \<and> qval r = qval a"
  using assms normalize_result[of "m_num a" "m_den a"] by (cases a) (simp add: qval_def)

section \<open>Arithmetic\<close>

text \<open>The product of two positive denominators, and the cross products of the numerators.\<close>

lemma products:
  assumes "mpq_ok a" "mpq_ok b"
  shows "mpz_normal (mpz_mul (m_den a) (m_den b))" "zval (mpz_mul (m_den a) (m_den b)) = zval (m_den a) * zval (m_den b)"
    "0 < zval (mpz_mul (m_den a) (m_den b))"
    "mpz_ok (mpz_mul (m_num a) (m_den b))" "zval (mpz_mul (m_num a) (m_den b)) = zval (m_num a) * zval (m_den b)"
    "mpz_normal (mpz_mul (m_num a) (m_num b))" "zval (mpz_mul (m_num a) (m_num b)) = zval (m_num a) * zval (m_num b)"
  using mpq_okD(3-5)[OF assms(1)] mpq_okD(3-5)[OF assms(2)] by (simp_all add: mpz_mul_correct normal_mul)

lemma rat_add_correct:
  assumes "mpq_ok a" "mpq_ok b"
  shows "\<exists>r. rat_add a b = Some r \<and> mpq_ok r \<and> qval r = qval a + qval b"
proof -
  note p = products[OF assms] and q = products[OF assms(2,1)]
  obtain r where r: "rat_add a b = Some r" "mpq_ok r"
      "qval r = of_int (zval (m_num a) * zval (m_den b) + zval (m_num b) * zval (m_den a)) / of_int (zval (m_den a) * zval (m_den b))"
    using normalize_result[OF normal_add[OF p(4) q(4)] p(1,3)] mpz_add_correct[OF p(4) q(4)] p q
    unfolding rat_add_def by auto
  then show ?thesis using mpq_okD(5)[OF assms(1)] mpq_okD(5)[OF assms(2)] by (simp add: qval_def add_frac_eq)
qed

lemma rat_sub_correct:
  assumes "mpq_ok a" "mpq_ok b"
  shows "\<exists>r. rat_sub a b = Some r \<and> mpq_ok r \<and> qval r = qval a - qval b"
proof -
  note p = products[OF assms] and q = products[OF assms(2,1)]
  obtain r where r: "rat_sub a b = Some r" "mpq_ok r"
      "qval r = of_int (zval (m_num a) * zval (m_den b) - zval (m_num b) * zval (m_den a)) / of_int (zval (m_den a) * zval (m_den b))"
    using normalize_result[OF normal_sub[OF p(4) q(4)] p(1,3)] mpz_sub_correct[OF p(4) q(4)] p q
    unfolding rat_sub_def by auto
  then show ?thesis using mpq_okD(5)[OF assms(1)] mpq_okD(5)[OF assms(2)] by (simp add: qval_def diff_frac_eq)
qed

lemma rat_mul_correct:
  assumes "mpq_ok a" "mpq_ok b"
  shows "\<exists>r. rat_mul a b = Some r \<and> mpq_ok r \<and> qval r = qval a * qval b"
  using normalize_result[of "mpz_mul (m_num a) (m_num b)" "mpz_mul (m_den a) (m_den b)"] products[OF assms]
  by (simp add: rat_mul_def qval_def)

lemma rat_z_correct:
  assumes "mpq_ok a" "mpz_normal b"
  shows "\<exists>r. rat_add_z a b = Some r \<and> mpq_ok r \<and> qval r = qval a + of_int (zval b)"
    "\<exists>r. rat_mul_z b a = Some r \<and> mpq_ok r \<and> qval r = of_int (zval b) * qval a"
proof -
  have b: "mpq_ok (int_q b)" "qval (int_q b) = of_int (zval b)" using assms(2) by simp_all
  note m = mpz_mul_correct[OF mpz_normal_ok[OF assms(2)] mpq_okD(4)[OF assms(1)]]
  note s = mpz_add_correct[OF mpq_okD(3)[OF assms(1)] conjunct1[OF m]]
  have v: "(of_int (zval (m_num a) + zval b * zval (m_den a)) :: rat) / of_int (zval (m_den a)) = qval a + of_int (zval b)"
    using mpq_okD(5)[OF assms(1)] by (simp add: qval_def add_divide_distrib)
  show "\<exists>r. rat_add_z a b = Some r \<and> mpq_ok r \<and> qval r = qval a + of_int (zval b)"
    using normalize_result[OF normal_add[OF mpq_okD(3)[OF assms(1)] conjunct1[OF m]] mpq_okD(2,5)[OF assms(1)]] m s v
    by (simp add: rat_add_z_def)
  show "\<exists>r. rat_mul_z b a = Some r \<and> mpq_ok r \<and> qval r = of_int (zval b) * qval a"
    using normalize_result[OF normal_mul[OF mpz_normal_ok[OF assms(2)] mpq_okD(3)[OF assms(1)]] mpq_okD(2,5)[OF assms(1)]]
      mpz_mul_correct[OF mpz_normal_ok[OF assms(2)] mpq_okD(3)[OF assms(1)]]
    by (simp add: rat_mul_z_def qval_def)
qed

lemma add_q_correct:
  assumes "mpq_ok a" "mpq_ok b"
  shows "\<exists>r. add_q a b = Some r \<and> mpq_ok r \<and> qval r = qval a + qval b"
proof (cases "is_int_q a \<and> is_int_q b")
  case True
  then show ?thesis
    using int_value[OF assms(1)] int_value[OF assms(2)] mpz_add_correct[OF mpq_okD(3)[OF assms(1)] mpq_okD(3)[OF assms(2)]]
      normal_add[OF mpq_okD(3)[OF assms(1)] mpq_okD(3)[OF assms(2)]] by (simp add: add_q_def)
next
  case False
  then show ?thesis using rat_add_correct[OF assms] by (simp only: add_q_def if_False)
qed

lemma sub_q_correct:
  assumes "mpq_ok a" "mpq_ok b"
  shows "\<exists>r. sub_q a b = Some r \<and> mpq_ok r \<and> qval r = qval a - qval b"
proof (cases "is_int_q a \<and> is_int_q b")
  case True
  then show ?thesis
    using int_value[OF assms(1)] int_value[OF assms(2)] mpz_sub_correct[OF mpq_okD(3)[OF assms(1)] mpq_okD(3)[OF assms(2)]]
      normal_sub[OF mpq_okD(3)[OF assms(1)] mpq_okD(3)[OF assms(2)]] by (simp add: sub_q_def)
next
  case False
  then show ?thesis using rat_sub_correct[OF assms] by (simp only: sub_q_def if_False)
qed

lemma mul_q_correct:
  assumes "mpq_ok a" "mpq_ok b"
  shows "\<exists>r. mul_q a b = Some r \<and> mpq_ok r \<and> qval r = qval a * qval b"
proof (cases "is_int_q a \<and> is_int_q b")
  case True
  then show ?thesis
    using int_value[OF assms(1)] int_value[OF assms(2)] products(6,7)[OF assms] by (simp add: mul_q_def)
next
  case False
  then show ?thesis using rat_mul_correct[OF assms] by (simp only: mul_q_def if_False)
qed

lemma mixed_correct:
  assumes "mpq_ok a" "mpz_normal b"
  shows "\<exists>r. add_q_z a b = Some r \<and> mpq_ok r \<and> qval r = qval a + of_int (zval b)"
    "\<exists>r. mul_z_q b a = Some r \<and> mpq_ok r \<and> qval r = of_int (zval b) * qval a"
  using rat_z_correct[OF assms] int_value[OF assms(1)]
    mpz_add_correct[OF mpq_okD(3)[OF assms(1)] mpz_normal_ok[OF assms(2)]] normal_add[OF mpq_okD(3)[OF assms(1)] mpz_normal_ok[OF assms(2)]]
    mpz_mul_correct[OF mpz_normal_ok[OF assms(2)] mpq_okD(3)[OF assms(1)]] normal_mul[OF mpz_normal_ok[OF assms(2)] mpq_okD(3)[OF assms(1)]]
  by (cases "is_int_q a"; simp add: add_q_z_def mul_z_q_def)+

lemma inc_dec_q_correct:
  assumes "mpq_ok a"
  shows "\<exists>r. inc_q a = Some r \<and> mpq_ok r \<and> qval r = qval a + 1" "\<exists>r. dec_q a = Some r \<and> mpq_ok r \<and> qval r = qval a - 1"
  using mixed_correct(1)[OF assms, of "mk_z 1"] mixed_correct(1)[OF assms, of "mk_z (- 1)"] by (simp_all add: inc_q_def dec_q_def)

lemma one_tests:
  assumes "mpq_ok a"
  shows "is_one_q a \<Longrightarrow> qval a = 1" "is_minus_one_q a \<Longrightarrow> qval a = - 1"
  using is_one_normal[OF mpq_okD(1)[OF assms]] is_one_normal[OF mpq_okD(2)[OF assms]]
  by (simp_all add: is_one_q_def is_minus_one_q_def qval_def)

lemma addmul_q_correct:
  assumes "mpq_ok a" "mpq_ok b" "mpq_ok c"
  shows "\<exists>r. addmul_q a b c = Some r \<and> mpq_ok r \<and> qval r = qval a + qval b * qval c"
    "\<exists>r. submul_q a b c = Some r \<and> mpq_ok r \<and> qval r = qval a - qval b * qval c"
proof -
  obtain m where m: "mul_q b c = Some m" "mpq_ok m" "qval m = qval b * qval c" using mul_q_correct[OF assms(2,3)] by blast
  show "\<exists>r. addmul_q a b c = Some r \<and> mpq_ok r \<and> qval r = qval a + qval b * qval c"
    "\<exists>r. submul_q a b c = Some r \<and> mpq_ok r \<and> qval r = qval a - qval b * qval c"
    using add_q_correct[OF assms(1,3)] sub_q_correct[OF assms(1,3)] add_q_correct[OF assms(1) m(2)] sub_q_correct[OF assms(1) m(2)]
      one_tests[OF assms(2)] m by (simp_all add: addmul_q_def submul_q_def)
qed

lemma addmul_q_z_correct:
  assumes "mpq_ok a" "mpz_normal b" "mpq_ok c"
  shows "\<exists>r. addmul_q_z a b c = Some r \<and> mpq_ok r \<and> qval r = qval a + of_int (zval b) * qval c"
    "\<exists>r. submul_q_z a b c = Some r \<and> mpq_ok r \<and> qval r = qval a - of_int (zval b) * qval c"
proof -
  obtain m where m: "mul_z_q b c = Some m" "mpq_ok m" "qval m = of_int (zval b) * qval c" using mixed_correct(2)[OF assms(3,2)] by blast
  show "\<exists>r. addmul_q_z a b c = Some r \<and> mpq_ok r \<and> qval r = qval a + of_int (zval b) * qval c"
    "\<exists>r. submul_q_z a b c = Some r \<and> mpq_ok r \<and> qval r = qval a - of_int (zval b) * qval c"
    using add_q_correct[OF assms(1,3)] sub_q_correct[OF assms(1,3)] add_q_correct[OF assms(1) m(2)] sub_q_correct[OF assms(1) m(2)]
      is_one_normal[OF assms(2)] m by (simp_all add: addmul_q_z_def submul_q_z_def)
qed

lemma neg_abs_q_correct:
  assumes "mpq_ok a"
  shows "mpq_ok (neg_q a) \<and> qval (neg_q a) = - qval a" "mpq_ok (abs_q a) \<and> qval (abs_q a) = \<bar>qval a\<bar>"
  using mpz_neg_correct[OF mpq_okD(3)[OF assms]] mpz_abs_correct[OF mpq_okD(3)[OF assms]]
    normal_neg[OF mpq_okD(1)[OF assms]] normal_abs[OF mpq_okD(1)[OF assms]] mpq_okD(2,5,6)[OF assms]
  by (simp_all add: neg_q_def abs_q_def mpq_ok_def qval_def abs_divide)

lemma sign_tests_q:
  assumes "mpq_ok a"
  shows "is_pos_q a \<longleftrightarrow> 0 < qval a" "is_neg_q a \<longleftrightarrow> qval a < 0" "is_zero_q a \<longleftrightarrow> qval a = 0"
  using sign_tests[OF mpq_okD(3)[OF assms]] mpq_okD(5)[OF assms]
  by (simp_all add: is_pos_q_def is_neg_q_def is_zero_q_def qval_def zero_less_divide_iff divide_less_0_iff)

section \<open>Division\<close>

lemma normal_signs:
  assumes "mpz_normal n" "mpz_normal d" "zval d \<noteq> 0"
  shows "\<exists>r. normalize_q (if is_neg d then \<lparr>m_num = mpz_neg n, m_den = mpz_neg d\<rparr> else \<lparr>m_num = n, m_den = d\<rparr>) = Some r
    \<and> mpq_ok r \<and> qval r = of_int (zval n) / of_int (zval d)"
proof (cases "zval d < 0")
  case True
  note v = mpz_neg_correct[OF mpz_normal_ok[OF assms(1)]] mpz_neg_correct[OF mpz_normal_ok[OF assms(2)]]
  show ?thesis
    using normalize_result[OF normal_neg[OF assms(1)] normal_neg[OF assms(2)]] True v sign_tests(2)[OF mpz_normal_ok[OF assms(2)]] by simp
next
  case False
  then show ?thesis using normalize_result[OF assms(1,2)] assms(3) sign_tests(2)[OF mpz_normal_ok[OF assms(2)]] by simp
qed

lemma div_q_correct:
  assumes "mpq_ok a" "mpq_ok b" "qval b \<noteq> 0"
  shows "\<exists>r. div_q a b = Some r \<and> mpq_ok r \<and> qval r = qval a / qval b"
proof -
  note n = normal_mul[OF mpq_okD(3)[OF assms(1)] mpq_okD(4)[OF assms(2)]] mpz_mul_correct[OF mpq_okD(3)[OF assms(1)] mpq_okD(4)[OF assms(2)]]
  note d = normal_mul[OF mpq_okD(4)[OF assms(1)] mpq_okD(3)[OF assms(2)]] mpz_mul_correct[OF mpq_okD(4)[OF assms(1)] mpq_okD(3)[OF assms(2)]]
  have "zval (m_num b) \<noteq> 0" using assms(3) by (auto simp: qval_def)
  then have "zval (mpz_mul (m_den a) (m_num b)) \<noteq> 0" using d mpq_okD(5)[OF assms(1)] by simp
  from normal_signs[OF n(1) d(1) this] show ?thesis using n(2) d(2) by (simp add: div_q_def Let_def qval_def)
qed

lemma div_q_z_correct:
  assumes "mpq_ok a" "mpz_normal b" "zval b \<noteq> 0"
  shows "\<exists>r. div_q_z a b = Some r \<and> mpq_ok r \<and> qval r = qval a / of_int (zval b)"
    "\<exists>r. acc_div a b = Some r \<and> mpq_ok r \<and> qval r = qval a / of_int (zval b)"
proof -
  note d = normal_mul[OF mpq_okD(4)[OF assms(1)] mpz_normal_ok[OF assms(2)]] mpz_mul_correct[OF mpq_okD(4)[OF assms(1)] mpz_normal_ok[OF assms(2)]]
  have nz: "zval (mpz_mul (m_den a) b) \<noteq> 0" using d assms(3) mpq_okD(5)[OF assms(1)] by simp
  have sg: "is_neg (mpz_mul (m_den a) b) \<longleftrightarrow> is_neg b"
    using d mpq_okD(5)[OF assms(1)] mpz_normal_ok[OF assms(2)] by (simp add: sign_tests mult_less_0_iff)
  note r = normal_signs[OF mpq_okD(1)[OF assms(1)] d(1) nz, unfolded sg]
  show *: "\<exists>r. div_q_z a b = Some r \<and> mpq_ok r \<and> qval r = qval a / of_int (zval b)"
    using r d(2) by (simp add: div_q_z_def Let_def qval_def)
  have "acc_div a b = div_q_z a b" by (cases a) (simp add: acc_div_def div_q_z_def Let_def)
  with * show "\<exists>r. acc_div a b = Some r \<and> mpq_ok r \<and> qval r = qval a / of_int (zval b)" by simp
qed

lemma inv_q_correct:
  assumes "mpq_ok a" "qval a \<noteq> 0"
  shows "mpq_ok (inv_q a) \<and> qval (inv_q a) = inverse (qval a)"
proof -
  note v = mpz_neg_correct[OF mpq_okD(3)[OF assms(1)]] mpz_neg_correct[OF mpq_okD(4)[OF assms(1)]]
  note n = normal_neg[OF mpq_okD(1)[OF assms(1)]] normal_neg[OF mpq_okD(2)[OF assms(1)]]
  have nz: "zval (m_num a) \<noteq> 0" using assms(2) by (auto simp: qval_def)
  have "is_neg_q a \<longleftrightarrow> zval (m_num a) < 0" using sign_tests(2)[OF mpq_okD(3)[OF assms(1)]] by (simp add: is_neg_q_def)
  then show ?thesis using v n nz mpq_okD[OF assms(1)]
    by (simp add: inv_q_def mpq_ok_def qval_def coprime_commute)
qed

text \<open>A zero divisor is not noticed by the division of rationals: the result has the denominator zero.\<close>

lemma div_q_zero:
  assumes "mpq_ok a" "mpq_ok b" "qval a \<noteq> 0" "qval b = 0"
  shows "\<exists>r. div_q a b = Some r \<and> zval (m_den r) = 0"
proof -
  note n = normal_mul[OF mpq_okD(3)[OF assms(1)] mpq_okD(4)[OF assms(2)]] mpz_mul_correct[OF mpq_okD(3)[OF assms(1)] mpq_okD(4)[OF assms(2)]]
  note d = normal_mul[OF mpq_okD(4)[OF assms(1)] mpq_okD(3)[OF assms(2)]] mpz_mul_correct[OF mpq_okD(4)[OF assms(1)] mpq_okD(3)[OF assms(2)]]
  define u v where "u = mpz_mul (m_num a) (m_den b)" "v = mpz_mul (m_den a) (m_num b)"
  have zb: "zval (m_num b) = 0" using assms(4) mpq_okD(5)[OF assms(2)] by (simp add: qval_def)
  then have v: "mpz_normal v" "zval v = 0" using d by (simp_all add: u_v_def)
  have u: "mpz_normal u" "zval u \<noteq> 0" using n assms(3) mpq_okD(5)[OF assms(2)] by (auto simp: u_v_def qval_def)
  obtain g where g: "mpz_gcd u v = Some g" "mpz_normal g" "zval g = \<bar>zval u\<bar>"
    using mpz_gcd_correct[OF u(1) v(1)] v(2) by auto
  have e: "div_q a b = normalize_q \<lparr>m_num = u, m_den = v\<rparr>"
    using sign_tests(2)[OF mpz_normal_ok[OF v(1)]] v(2) by (simp add: div_q_def Let_def flip: u_v_def)
  show ?thesis
  proof (cases "is_one g")
    case True
    then show ?thesis using g(1) v(2) by (simp add: e normalize_q_def)
  next
    case False
    have "0 < zval g" using g(3) u(2) by simp
    from exact_division[OF u(1) g(2) this] exact_division[OF v(1) g(2) this]
    obtain q s where "mpz_div u g = Some q" "mpz_div v g = Some s" "zval s = 0" using g(3) v(2) by auto
    then show ?thesis using False g(1) by (simp add: e normalize_q_def)
  qed
qed

section \<open>Comparison\<close>

lemma eq_q_correct:
  assumes "mpq_ok a" "mpq_ok b"
  shows "eq_q a b \<longleftrightarrow> qval a = qval b"
proof -
  note pa = mpq_okD(5,6)[OF assms(1)] and pb = mpq_okD(5,6)[OF assms(2)]
  have "qval a = qval b \<longleftrightarrow> zval (m_num a) * zval (m_den b) = zval (m_den a) * zval (m_num b)"
    unfolding qval_def using pa(1) pb(1) by (simp add: frac_eq_eq mult.commute flip: of_int_mult)
  also have "\<dots> \<longleftrightarrow> zval (m_num a) = zval (m_num b) \<and> zval (m_den a) = zval (m_den b)"
    using pa pb by (intro coprime_crossproduct') simp_all
  finally show ?thesis using mpq_okD(3,4)[OF assms(1)] mpq_okD(3,4)[OF assms(2)] by (simp add: eq_q_def mpz_compare_correct)
qed

lemma cross_less:
  assumes "mpq_ok a" "mpq_ok b"
  shows "qval a < qval b \<longleftrightarrow> zval (m_num a) * zval (m_den b) < zval (m_num b) * zval (m_den a)"
  unfolding qval_def using mpq_okD(5)[OF assms(1)] mpq_okD(5)[OF assms(2)]
  by (simp add: divide_less_eq less_divide_eq mult.commute flip: of_int_mult)

lemma rat_lt_correct:
  assumes "mpq_ok a" "mpq_ok b"
  shows "rat_lt a b \<longleftrightarrow> qval a < qval b"
proof -
  note p = products(4,5)[OF assms] and q = products(4,5)[OF assms(2,1)]
  note sa = sign_tests[OF mpq_okD(3)[OF assms(1)]] and sb = sign_tests[OF mpq_okD(3)[OF assms(2)]]
  note pos = mpq_okD(5)[OF assms(1)] mpq_okD(5)[OF assms(2)]
  have cmp: "mpz_lt (m_num (mul_z_z (m_num a) (m_den b))) (m_num (mul_z_z (m_num b) (m_den a))) \<longleftrightarrow> qval a < qval b"
    using p q cross_less[OF assms] by (simp add: mul_z_z_def int_q_def mpz_compare_correct)
  have sgn: "0 < qval x \<longleftrightarrow> 0 < zval (m_num x)" "qval x < 0 \<longleftrightarrow> zval (m_num x) < 0" "qval x = 0 \<longleftrightarrow> zval (m_num x) = 0"
    if "mpq_ok x" for x
    using sign_tests_q[OF that] sign_tests[OF mpq_okD(3)[OF that]] by (simp_all add: is_pos_q_def is_neg_q_def is_zero_q_def)
  have "m_val (m_num a) < 0 \<longleftrightarrow> qval a < 0" "m_val (m_num a) = 0 \<longleftrightarrow> qval a = 0"
      "0 < m_val (m_num b) \<longleftrightarrow> 0 < qval b" "0 \<le> m_val (m_num b) \<longleftrightarrow> 0 \<le> qval b" "m_val (m_num b) \<le> 0 \<longleftrightarrow> qval b \<le> 0"
    using sgn[OF assms(1)] sgn[OF assms(2)] sa sb by (auto simp: is_pos_def is_neg_def is_zero_def not_less[symmetric])
  then show ?thesis unfolding rat_lt_def Let_def cmp by simp
qed

lemma compare_q_correct:
  assumes "mpq_ok a" "mpq_ok b"
  shows "lt_q a b \<longleftrightarrow> qval a < qval b" "gt_q a b \<longleftrightarrow> qval b < qval a"
    "ge_q a b \<longleftrightarrow> qval b \<le> qval a" "le_q a b \<longleftrightarrow> qval a \<le> qval b"
proof -
  have lt: "lt_q x y \<longleftrightarrow> qval x < qval y" if "mpq_ok x" "mpq_ok y" for x y
    using rat_lt_correct[OF that] int_value[OF that(1)] int_value[OF that(2)] mpq_okD(3)[OF that(1)] mpq_okD(3)[OF that(2)]
    by (cases "is_int_q x \<and> is_int_q y") (auto simp: lt_q_def mpz_compare_correct)
  show "lt_q a b \<longleftrightarrow> qval a < qval b" "gt_q a b \<longleftrightarrow> qval b < qval a"
    "ge_q a b \<longleftrightarrow> qval b \<le> qval a" "le_q a b \<longleftrightarrow> qval a \<le> qval b"
    using lt assms by (simp_all add: gt_q_def ge_q_def le_q_def not_less)
qed

section \<open>Rounding\<close>

lemma int_floor_divide: "0 < d \<Longrightarrow> \<lfloor>(of_int n :: rat) / of_int d\<rfloor> = n div d"
  by (rule floor_divide_of_int_eq)

lemma not_int_remainder:
  assumes "mpq_ok a" "\<not> is_int_q a"
  shows "zval (m_num a) mod zval (m_den a) \<noteq> 0"
proof
  assume "zval (m_num a) mod zval (m_den a) = 0"
  then have "zval (m_den a) dvd zval (m_num a)" by (simp add: mod_eq_0_iff_dvd)
  then have "zval (m_den a) dvd 1" using mpq_okD(6)[OF assms(1)] by (meson coprime_common_divisor dvd_refl)
  then show False using assms mpq_okD(5)[OF assms(1)] is_int_q_iff[OF assms(1)] by simp
qed

lemma floor_q_correct:
  assumes "mpq_ok a"
  shows "\<exists>f. floor_q a = Some f \<and> mpz_normal f \<and> zval f = \<lfloor>qval a\<rfloor>"
proof (cases "is_int_q a")
  case True
  then show ?thesis using int_value[OF assms True] mpq_okD(1)[OF assms] by (simp add: floor_q_def)
next
  case False
  define n d where "n = zval (m_num a)" "d = zval (m_den a)"
  have d: "0 < d" and fl: "\<lfloor>qval a\<rfloor> = n div d"
    using mpq_okD(5)[OF assms] by (simp_all add: n_d_def qval_def int_floor_divide)
  obtain f where f: "machine_div (m_num a) (m_den a) = Some f" "mpz_ok f" "zval f = n sdiv d"
    using machine_div_correct[OF mpq_okD(3,4)[OF assms]] mpq_okD(5)[OF assms] by (auto simp: n_d_def)
  have nf: "mpz_normal f" using normal_machine_div[OF mpq_okD(1,4)[OF assms] f(1)] .
  show ?thesis
  proof (cases "n < 0")
    case True
    have "n mod d \<noteq> 0" using not_int_remainder[OF assms False] by (simp add: n_d_def)
    moreover have "d \<noteq> n mod d" using pos_mod_bound[OF d, of n] by linarith
    ultimately have "n div d = n sdiv d - 1"
      using True d zdiv_zminus1_eq_if[of d "- n"] by (simp add: signed_divide_int_def mod_minus_eq zmod_zminus1_eq_if)
    then show ?thesis using True False f nf fl mpz_sub_correct[OF f(2), of "mk_z 1"] normal_sub[OF f(2), of "mk_z 1"]
        sign_tests(2)[OF mpq_okD(3)[OF assms]] by (simp add: floor_q_def n_d_def)
  next
    case 2: False
    then have "n div d = n sdiv d" using d by (cases "n = 0") (simp_all add: signed_divide_int_def)
    then show ?thesis using 2 False f nf fl sign_tests(2)[OF mpq_okD(3)[OF assms]] by (simp add: floor_q_def n_d_def)
  qed
qed

lemma ceil_q_correct:
  assumes "mpq_ok a"
  shows "\<exists>f. ceil_q a = Some f \<and> mpz_normal f \<and> zval f = \<lceil>qval a\<rceil>"
proof (cases "is_int_q a")
  case True
  then show ?thesis using int_value[OF assms True] mpq_okD(1)[OF assms] by (simp add: ceil_q_def)
next
  case False
  define n d where "n = zval (m_num a)" "d = zval (m_den a)"
  have d: "0 < d" using mpq_okD(5)[OF assms] by (simp add: n_d_def)
  have cl: "\<lceil>qval a\<rceil> = - (- n div d)"
    using int_floor_divide[OF d, of "- n"] by (simp add: ceiling_def qval_def n_d_def)
  obtain f where f: "machine_div (m_num a) (m_den a) = Some f" "mpz_ok f" "zval f = n sdiv d"
    using machine_div_correct[OF mpq_okD(3,4)[OF assms]] mpq_okD(5)[OF assms] by (auto simp: n_d_def)
  have nf: "mpz_normal f" using normal_machine_div[OF mpq_okD(1,4)[OF assms] f(1)] .
  show ?thesis
  proof (cases "0 < n")
    case True
    have "n mod d \<noteq> 0" using not_int_remainder[OF assms False] by (simp add: n_d_def)
    then have "- (- n div d) = n sdiv d + 1"
      using True d zdiv_zminus1_eq_if[of d n] by (simp add: signed_divide_int_def)
    then show ?thesis using True False f nf cl mpz_add_correct[OF f(2), of "mk_z 1"] normal_add[OF f(2), of "mk_z 1"]
        sign_tests(1)[OF mpq_okD(3)[OF assms]] by (simp add: ceil_q_def n_d_def)
  next
    case 2: False
    then have "- (- n div d) = n sdiv d" using d by (cases "n = 0") (simp_all add: signed_divide_int_def)
    then show ?thesis using 2 False f nf cl sign_tests(1)[OF mpq_okD(3)[OF assms]] by (simp add: ceil_q_def n_d_def)
  qed
qed

section \<open>Powers and roots\<close>

interpretation qmul: multiplication mul_q mpq_ok qval
  by unfold_locales (rule mul_q_correct)

lemma power_q_correct: "mpq_ok a \<Longrightarrow> unat p < 2 ^ 31 \<Longrightarrow> \<exists>r. power_q a p = Some r \<and> mpq_ok r \<and> qval r = qval a ^ unat p"
  unfolding power_q_def by (rule qmul.power_returns) simp_all

lemma power_q_diverges: "2 ^ 31 \<le> unat p \<Longrightarrow> power_q a p = None"
  unfolding power_q_def by (rule qmul.power_diverges)

text \<open>A root of a fraction in lowest terms is the root of both parts.\<close>

lemma root_q_correct:
  assumes "mpq_ok a" "0 < unat n" "unat n < 2 ^ 31" "odd (unat n) \<or> 0 \<le> qval a"
    and "bitsize (m_num a) < 2 ^ 32" "bitsize (m_den a) < 2 ^ 32"
  shows "\<exists>res r'. root_q a n r = Some (res, r') \<and> (res \<longrightarrow> qval r' ^ unat n = qval a)"
proof -
  have sg: "0 \<le> zval (m_num a) \<longleftrightarrow> 0 \<le> qval a"
    using mpq_okD(5)[OF assms(1)] by (simp add: qval_def zero_le_divide_iff)
  obtain ok1 rn where n: "mpz_root (m_num a) n = Some (ok1, rn)" "ok1 \<longrightarrow> zval rn ^ unat n = zval (m_num a)"
    using mpz_root_correct[OF mpq_okD(3)[OF assms(1)] assms(2,3) _ assms(5)] assms(4) sg by (metis (full_types))
  obtain ok2 rd where d: "mpz_root (m_den a) n = Some (ok2, rd)" "ok2 \<longrightarrow> zval rd ^ unat n = zval (m_den a)"
    using mpz_root_correct[OF mpq_okD(4)[OF assms(1)] assms(2,3) _ assms(6)] mpq_okD(5)[OF assms(1)] by (metis (full_types) less_imp_le)
  show ?thesis
  proof (cases "ok1 \<and> ok2")
    case True
    then have "qval \<lparr>m_num = rn, m_den = rd\<rparr> ^ unat n = qval a"
      using n(2) d(2) by (simp add: qval_def power_divide flip: of_int_power)
    then show ?thesis using n(1) d(1) True by (intro exI[of _ True] exI[of _ "\<lparr>m_num = rn, m_den = rd\<rparr>"]) (simp add: root_q_def)
  next
    case False
    then have "\<exists>r'. root_q a n r = Some (False, r')" using n(1) d(1) by (cases ok1) (simp_all add: root_q_def)
    then show ?thesis by blast
  qed
qed

text \<open>The test for squares of rationals; a number that is negative is none.\<close>

lemma is_perfect_square_q_correct:
  assumes "mpq_ok a" "mpq_ok r"
  shows "\<exists>res r'. is_perfect_square_q a r = Some (res, r') \<and> (res \<longrightarrow> mpq_ok r' \<and> 0 \<le> qval r' \<and> qval r' * qval r' = qval a)"
proof (cases "0 \<le> zval (m_num a)")
  case False
  then have "is_perfect_square (m_num a) x = Some (False, x)" for x
    using sign_tests(2)[OF mpq_okD(3)[OF assms(1)]] by (simp add: is_perfect_square_def)
  then have "\<exists>r'. is_perfect_square_q a r = Some (False, r')" by (simp add: is_perfect_square_q_def)
  then show ?thesis by blast
next
  case True
  obtain ok1 n where n: "is_perfect_square (m_num a) (m_num r) = Some (ok1, n)" "0 \<le> zval n" "ok1 \<longrightarrow> zval n * zval n = zval (m_num a)"
    using is_perfect_square_correct[OF mpq_okD(3)[OF assms(1)] True] by (metis (full_types))
  have d0: "0 \<le> zval (m_den a)" using mpq_okD(5)[OF assms(1)] by simp
  obtain ok2 d where d: "is_perfect_square (m_den a) (m_den r) = Some (ok2, d)" "0 \<le> zval d" "ok2 \<longrightarrow> zval d * zval d = zval (m_den a)"
    using is_perfect_square_correct[OF mpq_okD(4)[OF assms(1)] d0] by (metis (full_types))
  have nn: "mpz_normal n" "mpz_normal d"
    using is_perfect_square_normal[OF n(1)] is_perfect_square_normal[OF d(1)] mpq_okD(1,2)[OF assms(1)] mpq_okD(1,2)[OF assms(2)] by simp_all
  consider "is_int_q a" | "\<not> is_int_q a" "\<not> (ok1 \<and> ok2)" | "\<not> is_int_q a" "ok1" "ok2" by blast
  then show ?thesis
  proof cases
    case 1
    have "is_perfect_square_q a r = Some (ok1, int_q n)" using 1 n(1) by (simp add: is_perfect_square_q_def int_q_def)
    moreover have "ok1 \<longrightarrow> qval (int_q n) * qval (int_q n) = qval a" using n(3) int_value[OF assms(1) 1] by (simp flip: of_int_mult)
    ultimately show ?thesis using nn(1) n(2) by simp
  next
    case 2
    then have "\<exists>r'. is_perfect_square_q a r = Some (False, r')"
      using n(1) d(1) by (cases ok1) (simp_all add: is_perfect_square_q_def)
    then show ?thesis by blast
  next
    case 3
    have "zval d \<noteq> 0" using d(3) 3 mpq_okD(5)[OF assms(1)] by auto
    then have pd: "0 < zval d" using d(2) by simp
    obtain r' where r': "normalize_q \<lparr>m_num = n, m_den = d\<rparr> = Some r'" "mpq_ok r'" "qval r' = of_int (zval n) / of_int (zval d)"
      using normalize_result[OF nn pd] by blast
    have "qval r' * qval r' = of_int (zval n * zval n) / of_int (zval d * zval d)" unfolding r'(3) by simp
    also have "\<dots> = qval a" using n(3) d(3) 3 by (simp only: qval_def)
    finally have "qval r' * qval r' = qval a" .
    moreover have "is_perfect_square_q a r = Some (True, r')" using 3 n(1) d(1) r'(1) by (simp add: is_perfect_square_q_def)
    moreover have "0 \<le> qval r'" unfolding r'(3) using n(2) pd by simp
    ultimately show ?thesis using r'(2) by blast
  qed
qed

section \<open>Operations on integers\<close>

lemma int_ops_correct:
  assumes "mpq_ok a" "mpq_ok b" "is_int_q a" "is_int_q b"
  defines "x \<equiv> zval (m_num a)" and "y \<equiv> zval (m_num b)"
  shows "\<exists>r. gcd_q a b = Some r \<and> mpq_ok r \<and> qval r = of_int (gcd x y)"
    "\<exists>r. lcm_q a b = Some r \<and> \<bar>qval r\<bar> = of_int (lcm x y)"
    "divides_q a b = Some (x dvd y)"
    "y \<noteq> 0 \<Longrightarrow> \<exists>r. rem_q a b = Some r \<and> mpq_ok r \<and> qval r = of_int (x smod y)"
    "y \<noteq> 0 \<Longrightarrow> \<exists>r. mod_q a b = Some r \<and> mpq_ok r \<and> qval r = of_int (x mod \<bar>y\<bar>)"
    "y \<noteq> 0 \<Longrightarrow> \<exists>r. machine_idiv_q a b = Some r \<and> mpq_ok r \<and> qval r = of_int (x sdiv y)"
    "y \<noteq> 0 \<Longrightarrow> \<exists>q. idiv_q a b = Some q \<and> mpq_ok q \<and> of_int y * qval q + of_int (x mod \<bar>y\<bar>) = of_int x"
proof -
  note na = mpq_okD(1,3)[OF assms(1)] and nb = mpq_okD(1,3)[OF assms(2)]
  show "\<exists>r. gcd_q a b = Some r \<and> mpq_ok r \<and> qval r = of_int (gcd x y)"
    using mpz_gcd_correct[OF na(1) nb(1)] by (auto simp: gcd_q_def x_def y_def)
  show "\<exists>r. lcm_q a b = Some r \<and> \<bar>qval r\<bar> = of_int (lcm x y)"
    using mpz_lcm_correct[OF na(1) nb(1)] by (auto simp: lcm_q_def x_def y_def simp flip: of_int_abs)
  show "divides_q a b = Some (x dvd y)"
    using mpz_divides_correct[OF na(2) nb(2)] by (simp add: divides_q_def x_def y_def)
  assume "y \<noteq> 0"
  then have nz: "zval (m_num b) \<noteq> 0" by (simp add: y_def)
  show "\<exists>r. rem_q a b = Some r \<and> mpq_ok r \<and> qval r = of_int (x smod y)"
    using mpz_rem_correct[OF na(2) nb(2) nz] normal_rem[OF na(1) nb(2)] by (auto simp: rem_q_def x_def y_def)
  show "\<exists>r. mod_q a b = Some r \<and> mpq_ok r \<and> qval r = of_int (x mod \<bar>y\<bar>)"
    using mpz_mod_correct[OF na(2) nb(2) nz] normal_mod[OF na(1) nb(2)] by (auto simp: mod_q_def x_def y_def)
  show "\<exists>r. machine_idiv_q a b = Some r \<and> mpq_ok r \<and> qval r = of_int (x sdiv y)"
    using machine_div_correct[OF na(2) nb(2) nz] normal_machine_div[OF na(1) nb(2)] by (auto simp: machine_idiv_q_def x_def y_def)
  obtain q where q: "mpz_div (m_num a) (m_num b) = Some q" "y * zval q + x mod \<bar>y\<bar> = x"
    using mpz_div_correct[OF na(2) nb(2) nz] by (auto simp: x_def y_def)
  have "of_int y * of_int (zval q) + of_int (x mod \<bar>y\<bar>) = (of_int x :: rat)"
    using q(2) by (metis of_int_add of_int_mult)
  then show "\<exists>q. idiv_q a b = Some q \<and> mpq_ok q \<and> of_int y * qval q + of_int (x mod \<bar>y\<bar>) = of_int x"
    using q(1) normal_div[OF na(1) nb(2) q(1)] by (simp add: idiv_q_def)
qed

section \<open>Setting a number: correctness\<close>

lemma set_q_correct:
  "INT_MIN \<le> v \<Longrightarrow> v \<le> INT_MAX \<Longrightarrow> mpq_ok (set_q_int v) \<and> qval (set_q_int v) = of_int v"
  "mpq_ok (set_q_uint w) \<and> qval (set_q_uint w) = of_int (uint w)"
  "- (2 ^ 63) \<le> v \<Longrightarrow> v < 2 ^ 63 \<Longrightarrow> mpq_ok (set_q_i64 v) \<and> qval (set_q_i64 v) = of_int v"
  "qval (set_q_ui64 u) = of_int (uint u)" "qval (set_q_digits ds) = of_int (int (nval ds))"
  using set_uint_correct[of w] normal_set_uint[of w] set_i64_correct[of v] normal_set_i64[of v] set_ui64_correct[of u] set_digits_correct[of ds]
  by (simp_all add: set_q_int_def set_q_uint_def set_q_i64_def set_q_ui64_def set_q_digits_def)

lemma set_q_mpz_correct:
  assumes "mpz_normal n" "mpz_normal d" "zval d \<noteq> 0"
  shows "\<exists>r. set_q_mpz n d = Some r \<and> mpq_ok r \<and> qval r = of_int (zval n) / of_int (zval d)"
  using normal_signs[OF assms] by (simp add: set_q_mpz_def)

lemma i32_id: "INT_MIN \<le> v \<Longrightarrow> v \<le> INT_MAX \<Longrightarrow> i32 v = v"
  unfolding i32_def by (rule signed_take_bit_int_eq_self) simp_all

lemma set_q_frac_correct:
  assumes "INT_MIN < n" "n \<le> INT_MAX" "INT_MIN < d" "d \<le> INT_MAX" "d \<noteq> 0"
  shows "\<exists>r. set_q_frac n d = Some r \<and> mpq_ok r \<and> qval r = of_int n / of_int d"
proof (cases "d < 0")
  case True
  then show ?thesis using assms normalize_result[of "mk_z (- n)" "mk_z (- d)"] i32_id[of "- n"] i32_id[of "- d"]
    by (simp add: set_q_frac_def)
next
  case False
  then show ?thesis using assms normalize_result[of "mk_z n" "mk_z d"] by (simp add: set_q_frac_def)
qed

text \<open>The negation of the least \<^verbatim>\<open>int\<close> overflows: the fraction of \<^verbatim>\<open>INT_MIN\<close> and minus one keeps its sign.\<close>

lemma set_q_frac_INT_MIN: "\<exists>r. set_q_frac INT_MIN (- 1) = Some r \<and> qval r = of_int INT_MIN"
proof -
  have "i32 2147483648 = INT_MIN" by (simp add: i32_def signed_take_bit_def not_int_def mask_eq_exp_minus_1)
  moreover have "i32 1 = 1" by (simp add: i32_id)
  ultimately have "set_q_frac INT_MIN (- 1) = normalize_q \<lparr>m_num = mk_z INT_MIN, m_den = mk_z 1\<rparr>" by (simp add: set_q_frac_def)
  then show ?thesis using normalize_result[of "mk_z INT_MIN" "mk_z 1"] by auto
qed

text \<open>At \<^verbatim>\<open>INT_MAX\<close> the conversion of the denominator from \<^verbatim>\<open>uint64\<close> is not in normal form, and
  the gcd of the normalisation reads a null pointer.\<close>

lemma set_q_frac64_null_pointer: "set_q_frac64 INT_MAX 2147483647 = None"
  using gcd_null_pointer by (simp add: set_q_frac64_def normalize_q_def set_i64_def)

end
