(* ===== verification/Mpq_String.thy ===== *)
theory Mpq_String
  imports Mpq_Sound Mpz_String
begin

text \<open>
  Strings of rationals (mpq.cpp): printing as a fraction, in the notation of SMT-LIB 2 and as a decimal
  of bounded length, and reading of integers, fractions and decimals with an exponent.

  The outcome of reading is \<open>None\<close> when the power of ten does not return, and otherwise an exception
  or the number. A string is the list of characters before the first null character.
\<close>

section \<open>Printing\<close>

definition mpq_to_string :: "mpq \<Rightarrow> mpn_error + string" where
  "mpq_to_string a =
     (if is_int_q a then mpz_to_string (m_num a)
      else case mpz_to_string (m_num a) of Inl e \<Rightarrow> Inl e
        | Inr s \<Rightarrow> (case mpz_to_string (m_den a) of Inl e \<Rightarrow> Inl e | Inr s' \<Rightarrow> Inr (s @ ''/'' @ s')))"

definition display_mpq :: "mpq \<Rightarrow> mpn_error + string" where
  "display_mpq a =
     (if is_int_q a then display_mpz (m_num a)
      else case display_mpz (m_num a) of Inl e \<Rightarrow> Inl e
        | Inr s \<Rightarrow> (case display_mpz (m_den a) of Inl e \<Rightarrow> Inl e | Inr s' \<Rightarrow> Inr (s @ ''/'' @ s')))"

definition display_smt2_q :: "mpq \<Rightarrow> bool \<Rightarrow> mpn_error + string" where
  "display_smt2_q a dec =
     (if is_int_q a then display_smt2 (m_num a) dec
      else case display_smt2 (m_num a) dec of Inl e \<Rightarrow> Inl e
        | Inr s \<Rightarrow> (case display_smt2 (m_den a) dec of Inl e \<Rightarrow> Inl e | Inr s' \<Rightarrow> Inr (''(/ '' @ s @ '' '' @ s' @ '')'')))"

definition output_mpz :: "mpz \<Rightarrow> string option" where
  "output_mpz a = (case display_mpz a of Inl _ \<Rightarrow> None | Inr s \<Rightarrow> Some s)"

text \<open>The loop prints at most \<open>prec\<close> digits, and a question mark when digits are left.\<close>

fun decimal_loop :: "nat \<Rightarrow> mpz \<Rightarrow> mpz \<Rightarrow> bool \<Rightarrow> string option" where
  "decimal_loop 0 n1 d1 trunc = Some (if \<not> trunc then ''?'' else [])"
| "decimal_loop (Suc prec) n1 d1 trunc = do {
     let n2 = mpz_mul n1 (mk_z 10);
     v1 \<leftarrow> mpz_div n2 d1;
     s \<leftarrow> output_mpz v1;
     n3 \<leftarrow> mpz_rem n2 d1;
     (if is_zero n3 then Some s else do { s' \<leftarrow> decimal_loop prec n3 d1 trunc; Some (s @ s') })
   }"

definition display_decimal :: "mpq \<Rightarrow> nat \<Rightarrow> bool \<Rightarrow> string option" where
  "display_decimal a prec trunc = do {
     let n1 = (if is_neg_q a then mpz_neg (m_num a) else m_num a);
     let d1 = m_den a;
     let sign = (if is_neg_q a then ''-'' else []);
     v1 \<leftarrow> mpz_div n1 d1;
     s \<leftarrow> output_mpz v1;
     n2 \<leftarrow> mpz_rem n1 d1;
     (if is_zero n2 then Some (sign @ s)
      else do { s' \<leftarrow> decimal_loop prec n2 d1 trunc; Some (sign @ s @ ''.'' @ s') })
   }"

section \<open>Reading\<close>

datatype mpq_error = MixingNotation | ExponentTooBig | DivisionByZero

definition is_exp_char :: "char \<Rightarrow> bool" where
  "is_exp_char c = (c = CHR ''e'' \<or> c = CHR ''E'')"

definition is_part_end :: "char \<Rightarrow> bool" where
  "is_part_end c = (c = CHR ''/'' \<or> c = CHR ''.'' \<or> is_exp_char c)"

text \<open>The exponent is accumulated in an \<^verbatim>\<open>unsigned long long\<close>.\<close>

fun read_exponent :: "64 word \<Rightarrow> string \<Rightarrow> mpq_error + 64 word" where
  "read_exponent expo [] = Inr expo"
| "read_exponent expo (c # str) =
     (if is_digit c then read_exponent (10 * expo + (of_char c - of_char CHR ''0'')) str
      else if c = CHR ''/'' then Inl MixingNotation
      else read_exponent expo str)"

definition parse_exponent :: "bool \<Rightarrow> string \<Rightarrow> mpq_error + bool \<times> 64 word" where
  "parse_exponent is_rat str =
     (case str of
        [] \<Rightarrow> Inr (False, 0)
      | _ # str1 \<Rightarrow>
          if is_rat then Inl MixingNotation
          else
            let (exp_sign, str2) = (case str1 of [] \<Rightarrow> (False, str1) | c # cs \<Rightarrow> if c = CHR ''-'' then (True, cs) else (False, str1))
            in case read_exponent 0 str2 of Inl e \<Rightarrow> Inl e | Inr expo \<Rightarrow> Inr (exp_sign, expo))"

text \<open>\<^verbatim>\<open>a.m_num + a.m_den/tmp2\<close>, when there is a fraction, times the power of ten.\<close>

definition apply_exponent :: "mpq \<Rightarrow> bool \<Rightarrow> mpz \<Rightarrow> bool \<Rightarrow> 64 word \<Rightarrow> mpq option" where
  "apply_exponent a has_den tmp2 exp_sign expo = do {
     a1 \<leftarrow> (if has_den then do { b \<leftarrow> set_q_mpz (m_den a) tmp2; add_q (a\<lparr>m_den := mk_z 1\<rparr>) b } else Some a);
     (if expo > 0 then do {
        e \<leftarrow> power_q (set_q_int 10) (ucast expo);
        (if exp_sign then div_q a1 e else mul_q a1 e)
      }
      else Some a1)
   }"

text \<open>The end of the function.\<close>

definition finish_string :: "bool \<Rightarrow> mpq \<Rightarrow> (mpq_error + mpq) option" where
  "finish_string sign q = map_option Inr (normalize_q (if sign then q\<lparr>m_num := mpz_neg (m_num q)\<rparr> else q))"

text \<open>\<open>a\<close> is the target before the call; \<^verbatim>\<open>set\<close> resets its numerator first, but its denominator only on
  the paths below that store one.\<close>

definition set_q_string :: "mpq \<Rightarrow> string \<Rightarrow> (mpq_error + mpq) option" where
  "set_q_string a val =
     (let str = dropWhile (\<lambda>c. c = CHR '' '') val;
          sign = (case str of [] \<Rightarrow> False | c # _ \<Rightarrow> c = CHR ''-'');
          num = foldl set_string_step (mk_z 0) (takeWhile (\<lambda>c. \<not> is_part_end c) str)
      in case dropWhile (\<lambda>c. \<not> is_part_end c) str of
           [] \<Rightarrow> finish_string sign (int_q num)
         | c # rest \<Rightarrow>
             let is_rat = (c = CHR ''/'');
                 has_den = (c = CHR ''/'' \<or> c = CHR ''.'');
                 frac = takeWhile (\<lambda>c. \<not> is_exp_char c) rest;
                 den = (if has_den then foldl set_string_step (mk_z 0) frac else m_den a);
                 tmp2 = (if has_den \<and> \<not> is_rat then foldl (\<lambda>t c. if is_digit c then mpz_mul t (mk_z 10) else t) (mk_z 1) frac
                         else mk_z 1);
                 rest2 = (if has_den then dropWhile (\<lambda>c. \<not> is_exp_char c) rest else c # rest)
             in case parse_exponent is_rat rest2 of
                  Inl e \<Rightarrow> Some (Inl e)
                | Inr (exp_sign, expo) \<Rightarrow>
                    if \<not> is_rat then
                      (if expo > 4294967295 then Some (Inl ExponentTooBig)
                       else case apply_exponent \<lparr>m_num = num, m_den = den\<rparr> has_den tmp2 exp_sign expo of
                              None \<Rightarrow> None
                            | Some q \<Rightarrow> finish_string sign q)
                    else if is_zero den then Some (Inl DivisionByZero)
                    else finish_string sign \<lparr>m_num = num, m_den = den\<rparr>)"

section \<open>Printing: correctness\<close>

lemma mpq_to_string_correct:
  assumes "mpq_ok a"
  shows "mpq_to_string a = Inr (if is_int_q a then show_int (zval (m_num a)) else show_int (zval (m_num a)) @ ''/'' @ decimal (nat (zval (m_den a))))"
    "display_mpq a = mpq_to_string a"
proof -
  have d: "mpz_to_string (m_num a) = Inr (show_int (zval (m_num a)))" "mpz_to_string (m_den a) = Inr (decimal (nat (zval (m_den a))))"
    using display_mpz_correct[OF mpq_okD(3)[OF assms]] display_mpz_correct[OF mpq_okD(4)[OF assms]] mpq_okD(5)[OF assms]
    by (simp_all add: mpz_to_string_def show_int_def)
  then show "mpq_to_string a = Inr (if is_int_q a then show_int (zval (m_num a)) else show_int (zval (m_num a)) @ ''/'' @ decimal (nat (zval (m_den a))))"
    by (simp add: mpq_to_string_def)
  show "display_mpq a = mpq_to_string a" unfolding display_mpq_def mpq_to_string_def mpz_to_string_def by (rule refl)
qed

lemma output_mpz_correct: "mpz_ok a \<Longrightarrow> output_mpz a = Some (show_int (zval a))"
  using display_mpz_correct[of a] by (simp add: output_mpz_def)

lemma div_rem_positive:
  assumes "mpz_ok n" "mpz_ok d" "0 \<le> zval n" "0 < zval d"
  shows "\<exists>v r. mpz_div n d = Some v \<and> mpz_rem n d = Some r \<and> mpz_ok v \<and> mpz_ok r
    \<and> zval v = zval n div zval d \<and> zval r = zval n mod zval d"
proof -
  obtain v where v: "mpz_div n d = Some v" "mpz_ok v" "zval d * zval v + zval n mod zval d = zval n"
    using mpz_div_correct[OF assms(1,2)] assms(4) by auto
  obtain r where r: "mpz_rem n d = Some r" "mpz_ok r" "zval r = zval n mod zval d"
    using mpz_rem_correct[OF assms(1,2)] assms(3,4) by (auto simp: smod_nonneg)
  have "zval d * zval v = zval n - zval n mod zval d" using v(3) by simp
  then have "zval d * zval v = zval d * (zval n div zval d)" by (simp add: minus_mod_eq_mult_div)
  then have "zval v = zval n div zval d" using assms(4) by simp
  then show ?thesis using v(1,2) r by blast
qed

lemma digits_value_Cons: "digits_value v (c # cs) = digits_value (10 * v + digit_value c) cs"
  by (simp add: digits_value_def)

lemma digits_value_shift: "digits_value v cs = v * 10 ^ length cs + digits_value 0 cs"
proof (induction cs arbitrary: v)
  case (Cons c cs)
  have "digits_value v (c # cs) = (10 * v + digit_value c) * 10 ^ length cs + digits_value 0 cs"
    unfolding digits_value_Cons by (rule Cons)
  moreover have "digits_value 0 (c # cs) = digit_value c * 10 ^ length cs + digits_value 0 cs"
    unfolding digits_value_Cons using Cons[of "digit_value c"] by simp
  ultimately show ?case by (simp add: algebra_simps)
qed (simp add: digits_value_def)

lemma digit_step:
  assumes "0 < (d :: int)" "n = v * d + r"
  shows "n * p div d = v * p + r * p div d" "d dvd n * p \<longleftrightarrow> d dvd r * p"
proof -
  have e: "n * p = r * p + v * p * d" unfolding assms(2) by (simp add: algebra_simps)
  show "n * p div d = v * p + r * p div d" unfolding e using assms(1) by simp
  show "d dvd n * p \<longleftrightarrow> d dvd r * p" unfolding e by simp
qed

text \<open>The digits are those of the floor, and the mark says whether anything is left.\<close>

lemma decimal_loop_correct:
  assumes "mpz_ok n" "mpz_ok d" "0 < zval n" "zval n < zval d"
  shows "\<exists>fp mark. decimal_loop prec n d trunc = Some (fp @ mark) \<and> (\<forall>c \<in> set fp. is_digit c) \<and> length fp \<le> prec
    \<and> digits_value 0 fp = zval n * 10 ^ length fp div zval d
    \<and> (if zval d dvd zval n * 10 ^ length fp then mark = [] else length fp = prec \<and> mark = (if trunc then [] else ''?''))"
  using assms
proof (induction prec arbitrary: n)
  case 0
  then have "\<not> zval d dvd zval n" using zdvd_not_zless by blast
  then show ?case using 0 by (simp add: digits_value_def)
next
  case (Suc prec)
  define n2 where "n2 = mpz_mul n (mk_z 10)"
  have n2: "mpz_ok n2" "zval n2 = 10 * zval n" using mpz_mul_correct[OF Suc.prems(1), of "mk_z 10"] by (simp_all add: n2_def)
  have d0: "0 < zval d" using Suc.prems by simp
  obtain v r where vr: "mpz_div n2 d = Some v" "mpz_rem n2 d = Some r" "mpz_ok v" "mpz_ok r"
      "zval v = zval n2 div zval d" "zval r = zval n2 mod zval d"
    using div_rem_positive[OF n2(1) Suc.prems(2)] n2(2) Suc.prems(3) d0 by auto
  have v: "0 \<le> zval v" "zval v < 10"
  proof -
    show "0 \<le> zval v" unfolding vr(5) n2(2) using Suc.prems(3) d0 by (simp add: pos_imp_zdiv_nonneg_iff)
    have "zval d * (zval n2 div zval d) + zval n2 mod zval d = zval n2" by (rule mult_div_mod_eq)
    moreover have "0 \<le> zval n2 mod zval d" using d0 by simp
    ultimately have "zval d * (zval n2 div zval d) < zval d * 10" using n2(2) Suc.prems(4) by linarith
    then show "zval v < 10" unfolding vr(5) by (simp only: mult_less_cancel_left_pos[OF d0])
  qed
  define c where "c = digit_char (nat (zval v))"
  have c: "is_digit c" "digit_value c = zval v" using digit_char_value[of "nat (zval v)"] v by (simp_all add: c_def)
  have out: "output_mpz v = Some [c]"
  proof -
    have "nat (zval v) < 10" using v by linarith
    then have "decimal (nat (zval v)) = [c]" by (subst decimal.simps) (simp add: c_def)
    then show ?thesis using output_mpz_correct[OF vr(3)] v(1) by (simp add: show_int_def)
  qed
  have split: "zval n2 = zval v * zval d + zval r" unfolding vr(5,6) by simp
  have pow: "zval n * 10 ^ Suc k = zval n2 * 10 ^ k" for k unfolding n2(2) by simp
  show ?case
  proof (cases "zval r = 0")
    case True
    have "decimal_loop (Suc prec) n d trunc = Some ([c] @ [])"
      using vr(1,2) out True sign_tests(3)[OF vr(4)] by (simp flip: n2_def)
    moreover have "digits_value 0 [c] = zval n * 10 ^ length [c] div zval d"
      using c(2) pow[of 0] vr(5) by (simp add: digits_value_def)
    moreover have "zval d dvd zval n * 10 ^ length [c]" using pow[of 0] split True by simp
    ultimately show ?thesis using c(1)
      by (intro exI[of _ "[c]"] exI[of _ "[]"]) (simp only: if_True, simp)
  next
    case False
    have "0 \<le> zval r" "zval r < zval d" unfolding vr(6) using d0 by simp_all
    with False have r: "0 < zval r" "zval r < zval d" by simp_all
    obtain fp mark where l: "decimal_loop prec r d trunc = Some (fp @ mark)" "\<forall>c \<in> set fp. is_digit c" "length fp \<le> prec"
        "digits_value 0 fp = zval r * 10 ^ length fp div zval d"
        "if zval d dvd zval r * 10 ^ length fp then mark = [] else length fp = prec \<and> mark = (if trunc then [] else ''?'')"
      using Suc.IH[OF vr(4) Suc.prems(2) r] by blast
    have "decimal_loop (Suc prec) n d trunc = Some ((c # fp) @ mark)"
      using vr(1,2) out False sign_tests(3)[OF vr(4)] l(1) by (simp flip: n2_def)
    moreover have "digits_value 0 (c # fp) = zval n * 10 ^ length (c # fp) div zval d"
    proof -
      have "digits_value 0 (c # fp) = zval v * 10 ^ length fp + digits_value 0 fp"
        unfolding digits_value_Cons using digits_value_shift[of "digit_value c" fp] c(2) by simp
      also have "\<dots> = zval n2 * 10 ^ length fp div zval d" unfolding l(4) digit_step(1)[OF d0 split] by (rule refl)
      also have "\<dots> = zval n * 10 ^ length (c # fp) div zval d" by (simp only: length_Cons pow)
      finally show ?thesis .
    qed
    moreover have "zval d dvd zval n * 10 ^ length (c # fp) \<longleftrightarrow> zval d dvd zval r * 10 ^ length fp"
      unfolding length_Cons pow by (rule digit_step(2)[OF d0 split])
    moreover have "(\<forall>x \<in> set (c # fp). is_digit x) \<and> length (c # fp) \<le> Suc prec" using c(1) l(2,3) by simp
    ultimately show ?thesis using l(5) by (intro exI[of _ "c # fp"] exI[of _ mark]) auto
  qed
qed

lemma display_decimal_correct:
  assumes "mpq_ok a"
  shows "\<exists>ip fp mark. display_decimal a prec trunc = Some ((if qval a < 0 then ''-'' else []) @ ip @
      (if is_int_q a then [] else ''.'' @ fp @ mark))
    \<and> ip = decimal (nat \<lfloor>\<bar>qval a\<bar>\<rfloor>) \<and> (\<forall>c \<in> set fp. is_digit c) \<and> length fp \<le> prec
    \<and> digits_value 0 (ip @ fp) = \<lfloor>\<bar>qval a\<bar> * 10 ^ length fp\<rfloor>
    \<and> (if \<bar>qval a\<bar> * 10 ^ length fp \<in> \<int> then mark = [] else length fp = prec \<and> mark = (if trunc then [] else ''?''))"
proof -
  define n1 where "n1 = (if is_neg_q a then mpz_neg (m_num a) else m_num a)"
  define d where "d = zval (m_den a)"
  have d0: "0 < d" using mpq_okD(5)[OF assms] by (simp add: d_def)
  note sg = sign_tests_q(2)[OF assms]
  have n1: "mpz_ok n1" "zval n1 = \<bar>zval (m_num a)\<bar>"
    using mpz_neg_correct[OF mpq_okD(3)[OF assms]] sign_tests(2)[OF mpq_okD(3)[OF assms]] mpq_okD(3)[OF assms]
    by (auto simp: n1_def is_neg_q_def)
  have q: "\<bar>qval a\<bar> = of_int (zval n1) / of_int d" using d0 by (simp add: n1(2) qval_def d_def abs_divide)
  have fl: "\<lfloor>\<bar>qval a\<bar> * 10 ^ k\<rfloor> = zval n1 * 10 ^ k div d" for k
  proof -
    have "\<bar>qval a\<bar> * 10 ^ k = of_int (zval n1 * 10 ^ k) / of_int d" unfolding q by simp
    then show ?thesis using int_floor_divide[OF d0, of "zval n1 * 10 ^ k"] by (simp only:)
  qed
  have ex: "\<bar>qval a\<bar> * 10 ^ k \<in> \<int> \<longleftrightarrow> d dvd zval n1 * 10 ^ k" for k
  proof -
    have e: "\<bar>qval a\<bar> * 10 ^ k = of_int (zval n1 * 10 ^ k) / of_int d" unfolding q by simp
    show ?thesis
    proof
      assume "\<bar>qval a\<bar> * 10 ^ k \<in> \<int>"
      then obtain i where "of_int (zval n1 * 10 ^ k) / of_int d = (of_int i :: rat)" unfolding e by (elim Ints_cases)
      then have "(of_int (zval n1 * 10 ^ k) :: rat) = of_int (i * d)" using d0 by (simp add: divide_eq_eq)
      then have "zval n1 * 10 ^ k = i * d" by (simp only: of_int_eq_iff)
      then show "d dvd zval n1 * 10 ^ k" by simp
    next
      assume "d dvd zval n1 * 10 ^ k"
      then show "\<bar>qval a\<bar> * 10 ^ k \<in> \<int>" unfolding e using d0 by (elim dvdE) simp
    qed
  qed
  obtain v r where vr: "mpz_div n1 (m_den a) = Some v" "mpz_rem n1 (m_den a) = Some r" "mpz_ok v" "mpz_ok r"
      "zval v = zval n1 div d" "zval r = zval n1 mod d"
    using div_rem_positive[OF n1(1) mpq_okD(4)[OF assms]] n1(2) d0 by (auto simp: d_def)
  have v0: "0 \<le> zval v" unfolding vr(5) n1(2) using d0 by (simp add: pos_imp_zdiv_nonneg_iff)
  have ip: "output_mpz v = Some (decimal (nat \<lfloor>\<bar>qval a\<bar>\<rfloor>))"
    using output_mpz_correct[OF vr(3)] v0 fl[of 0] vr(5) by (simp add: show_int_def)
  have ipv: "digits_value 0 (decimal (nat \<lfloor>\<bar>qval a\<bar>\<rfloor>)) = zval v" using decimal_digits[of "nat (zval v)"] v0 fl[of 0] vr(5) by simp
  have split: "zval n1 = zval v * d + zval r" unfolding vr(5,6) by simp
  have int: "is_int_q a \<longleftrightarrow> zval r = 0"
  proof
    assume "is_int_q a"
    then show "zval r = 0" unfolding vr(6) using is_int_q_iff[OF assms] by (simp add: d_def)
  next
    assume "zval r = 0"
    then have "zval (m_num a) mod d = 0" unfolding vr(6) n1(2) by (simp add: mod_eq_0_iff_dvd)
    then show "is_int_q a" using not_int_remainder[OF assms] by (auto simp: d_def)
  qed
  have disp: "display_decimal a prec trunc = (if is_zero r then Some ((if qval a < 0 then ''-'' else []) @ decimal (nat \<lfloor>\<bar>qval a\<bar>\<rfloor>))
      else do { s' \<leftarrow> decimal_loop prec r (m_den a) trunc;
        Some ((if qval a < 0 then ''-'' else []) @ decimal (nat \<lfloor>\<bar>qval a\<bar>\<rfloor>) @ ''.'' @ s') })"
    unfolding display_decimal_def Let_def n1_def[symmetric] by (simp only: vr(1,2) ip bind.bind_lunit sg)
  show ?thesis
  proof (cases "zval r = 0")
    case True
    then have "d dvd zval n1" using split by simp
    then show ?thesis using True disp int sign_tests(3)[OF vr(4)] ipv ex[of 0] fl[of 0] vr(5)
      by (intro exI[of _ "decimal (nat \<lfloor>\<bar>qval a\<bar>\<rfloor>)"] exI[of _ "[]"]) simp
  next
    case False
    have "0 \<le> zval r" "zval r < d" unfolding vr(6) using d0 by simp_all
    with False have "0 < zval r" "zval r < zval (m_den a)" by (simp_all add: d_def)
    from decimal_loop_correct[OF vr(4) mpq_okD(4)[OF assms] this, folded d_def]
    obtain fp mark where l: "decimal_loop prec r (m_den a) trunc = Some (fp @ mark)" "\<forall>c \<in> set fp. is_digit c" "length fp \<le> prec"
        "digits_value 0 fp = zval r * 10 ^ length fp div d"
        "if d dvd zval r * 10 ^ length fp then mark = [] else length fp = prec \<and> mark = (if trunc then [] else ''?'')"
      by blast
    have "digits_value 0 (decimal (nat \<lfloor>\<bar>qval a\<bar>\<rfloor>) @ fp) = digits_value (zval v) fp"
      using ipv by (simp add: digits_value_def)
    also have "\<dots> = zval n1 * 10 ^ length fp div d"
      unfolding digits_value_shift[of "zval v" fp] l(4) digit_step(1)[OF d0 split] by (rule refl)
    finally have dv: "digits_value 0 (decimal (nat \<lfloor>\<bar>qval a\<bar>\<rfloor>) @ fp) = \<lfloor>\<bar>qval a\<bar> * 10 ^ length fp\<rfloor>" unfolding fl .
    have "\<bar>qval a\<bar> * 10 ^ length fp \<in> \<int> \<longleftrightarrow> d dvd zval r * 10 ^ length fp" unfolding ex digit_step(2)[OF d0 split] by (rule refl)
    moreover have "display_decimal a prec trunc = Some ((if qval a < 0 then ''-'' else []) @ decimal (nat \<lfloor>\<bar>qval a\<bar>\<rfloor>) @ ''.'' @ fp @ mark)"
      using disp False sign_tests(3)[OF vr(4)] l(1) by simp
    ultimately show ?thesis using l(2,3,5) dv False int by (intro exI[of _ "decimal (nat \<lfloor>\<bar>qval a\<bar>\<rfloor>)"] exI[of _ fp] exI[of _ mark]) simp
  qed
qed

section \<open>Reading: correctness\<close>

definition all_digits :: "string \<Rightarrow> bool" where
  "all_digits ds \<longleftrightarrow> (\<forall>c \<in> set ds. is_digit c)"

lemma digit_not_special:
  assumes "is_digit c"
  shows "\<not> is_part_end c" "\<not> is_exp_char c" "c \<noteq> CHR ''-''" "c \<noteq> CHR '' ''" "c \<noteq> CHR ''/''"
  using assms by (auto simp: is_digit_def is_part_end_def is_exp_char_def less_eq_char_def)

lemma part_end_not_special:
  assumes "is_part_end c"
  shows "c \<noteq> CHR ''-''" "c \<noteq> CHR '' ''"
  using assms by (auto simp: is_part_end_def is_exp_char_def)

text \<open>The number read up to the end of a part.\<close>

lemma read_part:
  assumes "all_digits ds" "sg = [] \<or> sg = ''-''"
  defines "a \<equiv> foldl set_string_step (mk_z 0) (sg @ ds)"
  shows "mpz_normal a" "zval a = digits_value 0 ds"
proof -
  have n: "mpz_normal b \<Longrightarrow> mpz_normal (foldl set_string_step b s)" for b s
  proof (induction s arbitrary: b)
    case (Cons c s)
    have "mpz_normal (set_string_step b c)"
    proof (cases "is_digit c")
      case True
      have "mpz_ok (mk_z (digit_value c))" using is_digit_value[OF True] by simp
      moreover have "mpz_ok (mpz_mul b (mk_z 10))" using mpz_mul_correct[OF mpz_normal_ok[OF Cons.prems], of "mk_z 10"] by simp
      ultimately show ?thesis using True normal_add[of "mpz_mul b (mk_z 10)" "mk_z (digit_value c)"]
        by (simp add: set_string_step_def digit_value_def)
    qed (use Cons.prems in \<open>simp add: set_string_step_def\<close>)
    then show ?case using Cons.IH by simp
  qed simp
  show "mpz_normal a" unfolding a_def by (rule n) simp
  have "filter is_digit (sg @ ds) = ds"
    using assms(1,2) by (auto simp: all_digits_def is_digit_def less_eq_char_def filter_id_conv)
  then show "zval a = digits_value 0 ds" using set_string_loop[of "mk_z 0" "sg @ ds"] by (simp add: a_def)
qed

lemma digits_value_nonneg: "all_digits ds \<Longrightarrow> 0 \<le> v \<Longrightarrow> 0 \<le> digits_value v ds"
proof (induction ds arbitrary: v)
  case (Cons c ds)
  then have "0 \<le> digit_value c" "all_digits ds" using is_digit_value[of c] by (simp_all add: all_digits_def)
  then show ?case using Cons unfolding digits_value_Cons by simp
qed (simp add: digits_value_def)

text \<open>The pieces of a string with a sign, digits and the rest of the numeral.\<close>

lemma string_parts:
  assumes "all_digits ds" "sg = [] \<or> sg = ''-''" "tail = [] \<or> is_part_end (hd tail)"
  defines "str \<equiv> sg @ ds @ tail"
  shows "dropWhile (\<lambda>c. c = CHR '' '') (replicate k CHR '' '' @ str) = str"
    "takeWhile (\<lambda>c. \<not> is_part_end c) str = sg @ ds" "dropWhile (\<lambda>c. \<not> is_part_end c) str = tail"
    "(case str of [] \<Rightarrow> False | c # _ \<Rightarrow> c = CHR ''-'') \<longleftrightarrow> sg = ''-''"
proof -
  have m: "\<not> is_part_end CHR ''-''" by (simp add: is_part_end_def is_exp_char_def)
  have all: "\<forall>c \<in> set (sg @ ds). \<not> is_part_end c" using assms(1,2) m digit_not_special(1) by (auto simp: all_digits_def)
  have "takeWhile (\<lambda>c. \<not> is_part_end c) tail = []" "dropWhile (\<lambda>c. \<not> is_part_end c) tail = tail"
    using assms(3) by (cases tail; simp)+
  then show "takeWhile (\<lambda>c. \<not> is_part_end c) str = sg @ ds" "dropWhile (\<lambda>c. \<not> is_part_end c) str = tail"
    using all unfolding str_def append_assoc[symmetric] by (simp_all add: takeWhile_append2 dropWhile_append2)
  have hd: "str = [] \<or> (\<exists>c cs. str = c # cs \<and> c \<noteq> CHR '' '' \<and> (c = CHR ''-'' \<longleftrightarrow> sg = ''-''))"
    using assms(1-3) digit_not_special(3,4) part_end_not_special unfolding str_def
    by (cases ds; cases tail) (auto simp: all_digits_def)
  have "dropWhile (\<lambda>c. c = CHR '' '') (replicate k CHR '' '' @ str) = dropWhile (\<lambda>c. c = CHR '' '') str"
    by (induction k) simp_all
  then show "dropWhile (\<lambda>c. c = CHR '' '') (replicate k CHR '' '' @ str) = str" using hd by auto
  show "(case str of [] \<Rightarrow> False | c # _ \<Rightarrow> c = CHR ''-'') \<longleftrightarrow> sg = ''-''"
  proof (cases "str = []")
    case True
    then show ?thesis by (auto simp: str_def)
  qed (use hd in auto)
qed

lemma finish_correct:
  assumes "mpz_normal (m_num q)" "mpz_normal (m_den q)" "0 < zval (m_den q)"
  shows "\<exists>r. finish_string neg q = Some (Inr r) \<and> mpq_ok r \<and> qval r = (if neg then - qval q else qval q)"
proof (cases neg)
  case True
  show ?thesis using True assms normalize_q_correct[of "q\<lparr>m_num := mpz_neg (m_num q)\<rparr>"] normal_neg[OF assms(1)]
      mpz_neg_correct[OF mpz_normal_ok[OF assms(1)]] by (auto simp: qval_def finish_string_def)
next
  case False
  then show ?thesis using normalize_q_correct[OF assms] by (auto simp: finish_string_def)
qed

lemma read_integer:
  assumes "all_digits ds" "sg = [] \<or> sg = ''-''"
  shows "\<exists>r. set_q_string t (replicate k CHR '' '' @ sg @ ds) = Some (Inr r) \<and> mpq_ok r
    \<and> qval r = (if sg = ''-'' then - 1 else 1) * of_int (digits_value 0 ds)"
proof -
  note p = string_parts[OF assms disjI1[OF refl], unfolded append_Nil2] and v = read_part[OF assms]
  define num where "num = foldl set_string_step (mk_z 0) (sg @ ds)"
  have e: "set_q_string t (replicate k CHR '' '' @ sg @ ds) = finish_string (sg = ''-'') (int_q num)"
    unfolding set_q_string_def Let_def p num_def by (simp only: list.case)
  obtain r where "finish_string (sg = ''-'') (int_q num) = Some (Inr r)" "mpq_ok r"
      "qval r = (if sg = ''-'' then - qval (int_q num) else qval (int_q num))"
    using finish_correct[of "int_q num" "sg = ''-''"] v by (auto simp: int_q_def num_def)
  then show ?thesis using v(2) by (auto simp: e num_def)
qed

lemma read_fraction:
  assumes "all_digits ds" "all_digits ds'" "sg = [] \<or> sg = ''-''"
  shows "digits_value 0 ds' \<noteq> 0 \<Longrightarrow> \<exists>r. set_q_string t (replicate k CHR '' '' @ sg @ ds @ ''/'' @ ds') = Some (Inr r) \<and> mpq_ok r
      \<and> qval r = (if sg = ''-'' then - 1 else 1) * of_int (digits_value 0 ds) / of_int (digits_value 0 ds')"
    "digits_value 0 ds' = 0 \<Longrightarrow> set_q_string t (replicate k CHR '' '' @ sg @ ds @ ''/'' @ ds') = Some (Inl DivisionByZero)"
proof -
  have "is_part_end CHR ''/''" by (simp add: is_part_end_def)
  then have "''/'' @ ds' = [] \<or> is_part_end (hd (''/'' @ ds'))" by simp
  note p = string_parts[OF assms(1,3) this]
  note v = read_part[OF assms(1,3)] and w = read_part[OF assms(2), of "[]", simplified]
  define num den where "num = foldl set_string_step (mk_z 0) (sg @ ds)" "den = foldl set_string_step (mk_z 0) ds'"
  have fr: "takeWhile (\<lambda>c. \<not> is_exp_char c) ds' = ds'" "dropWhile (\<lambda>c. \<not> is_exp_char c) ds' = []"
    using assms(2) digit_not_special(2) by (auto simp: all_digits_def)
  have e: "set_q_string t (replicate k CHR '' '' @ sg @ ds @ ''/'' @ ds') = (if is_zero den then Some (Inl DivisionByZero)
      else finish_string (sg = ''-'') \<lparr>m_num = num, m_den = den\<rparr>)"
    unfolding set_q_string_def Let_def p by (simp add: fr parse_exponent_def num_den_def)
  have z: "is_zero den \<longleftrightarrow> digits_value 0 ds' = 0" using sign_tests(3)[OF mpz_normal_ok[OF w(1)]] w(2) by (simp add: num_den_def)
  show "set_q_string t (replicate k CHR '' '' @ sg @ ds @ ''/'' @ ds') = Some (Inl DivisionByZero)" if "digits_value 0 ds' = 0"
    unfolding e using that z by simp
  assume nz: "digits_value 0 ds' \<noteq> 0"
  then have "0 < zval den" using digits_value_nonneg[OF assms(2), of 0] w(2) by (simp add: num_den_def)
  then obtain r where r: "finish_string (sg = ''-'') \<lparr>m_num = num, m_den = den\<rparr> = Some (Inr r)" "mpq_ok r"
      "qval r = (if sg = ''-'' then - qval \<lparr>m_num = num, m_den = den\<rparr> else qval \<lparr>m_num = num, m_den = den\<rparr>)"
    using finish_correct[of "\<lparr>m_num = num, m_den = den\<rparr>" "sg = ''-''"] v(1) w(1) by (auto simp: num_den_def)
  have "qval \<lparr>m_num = num, m_den = den\<rparr> = of_int (digits_value 0 ds) / of_int (digits_value 0 ds')"
    unfolding qval_def mpq.simps num_den_def v(2) w(2) by (rule refl)
  then show "\<exists>r. set_q_string t (replicate k CHR '' '' @ sg @ ds @ ''/'' @ ds') = Some (Inr r) \<and> mpq_ok r
      \<and> qval r = (if sg = ''-'' then - 1 else 1) * of_int (digits_value 0 ds) / of_int (digits_value 0 ds')"
    unfolding e using nz z r by simp
qed

text \<open>Reading what was printed gives the number back, whatever the target holds.\<close>

lemma mpq_string_roundtrip:
  assumes "mpq_ok a"
  shows "\<exists>s r. mpq_to_string a = Inr s \<and> set_q_string t s = Some (Inr r) \<and> mpq_ok r \<and> qval r = qval a"
proof -
  define x d where "x = zval (m_num a)" "d = zval (m_den a)"
  define sg where "sg = (if x < 0 then ''-'' else [])"
  define ds where "ds = decimal (nat \<bar>x\<bar>)"
  have sh: "show_int x = sg @ ds" by (simp add: show_int_def sg_def ds_def)
  have dg: "all_digits (decimal n)" "digits_value 0 (decimal n) = int n" for n using decimal_digits[of n] by (simp_all add: all_digits_def)
  have sg: "sg = [] \<or> sg = ''-''" "(if sg = ''-'' then - 1 else 1) * of_int (digits_value 0 ds) = (of_int x :: rat)"
    by (auto simp: sg_def ds_def dg(2))
  show ?thesis
  proof (cases "is_int_q a")
    case True
    then have "mpq_to_string a = Inr (replicate 0 CHR '' '' @ sg @ ds)" using mpq_to_string_correct(1)[OF assms] sh by (simp add: x_d_def)
    moreover have "qval a = of_int x" using int_value[OF assms True] by (simp add: x_d_def)
    ultimately show ?thesis using read_integer[OF dg(1) sg(1), of t 0 "nat \<bar>x\<bar>"] sg(2) by (simp add: ds_def)
  next
    case False
    have d0: "0 < d" using mpq_okD(5)[OF assms] by (simp add: x_d_def)
    have "mpq_to_string a = Inr (replicate 0 CHR '' '' @ sg @ ds @ ''/'' @ decimal (nat d))"
      using False mpq_to_string_correct(1)[OF assms] sh by (simp add: x_d_def)
    moreover have "\<exists>r. set_q_string t (replicate 0 CHR '' '' @ sg @ ds @ ''/'' @ decimal (nat d)) = Some (Inr r) \<and> mpq_ok r
        \<and> qval r = of_int x / of_int d"
      using read_fraction(1)[OF dg(1) dg(1) sg(1), of "nat d" t 0 "nat \<bar>x\<bar>"] d0 sg(2) dg(2)[of "nat d"] by (simp add: ds_def)
    ultimately show ?thesis by (simp add: qval_def x_d_def)
  qed
qed

section \<open>Reading decimals\<close>

lemma read_exponent_digits:
  "all_digits ds \<Longrightarrow> read_exponent (word_of_int v) ds = Inr (word_of_int (digits_value v ds))"
proof (induction ds arbitrary: v)
  case (Cons c ds)
  have "(of_char c :: 64 word) = word_of_int (of_char c)" by (simp add: of_int_of_char)
  then have e: "10 * word_of_int v + (of_char c - of_char CHR ''0'') = (word_of_int (10 * v + digit_value c) :: 64 word)"
    by (simp add: digit_value_def)
  have "is_digit c" "all_digits ds" using Cons.prems by (simp_all add: all_digits_def)
  then show ?case using Cons.IH[of "10 * v + digit_value c"] by (simp only: read_exponent.simps e if_True digits_value_Cons)
qed (simp add: digits_value_def)

text \<open>The optional exponent of a decimal; \<open>es\<close> is its sign.\<close>

lemma parse_exponent_digits:
  assumes "all_digits ds" "es = [] \<or> es = ''-''" "digits_value 0 ds < 2 ^ 31"
  shows "\<exists>expo. parse_exponent False (''e'' @ es @ ds) = Inr (es = ''-'', expo) \<and> uint expo = digits_value 0 ds"
proof -
  have b: "0 \<le> digits_value 0 ds" by (rule digits_value_nonneg[OF assms(1)]) simp
  have r: "read_exponent 0 ds = Inr (word_of_int (digits_value 0 ds))" using read_exponent_digits[OF assms(1), of 0] by simp
  have "es @ ds = [] \<or> (\<exists>c cs. es @ ds = c # cs \<and> (c = CHR ''-'' \<longleftrightarrow> es = ''-'') \<and> (es = ''-'' \<longrightarrow> cs = ds))"
    using assms(1,2) digit_not_special(3) by (cases ds) (auto simp: all_digits_def)
  then have "parse_exponent False (''e'' @ es @ ds) = Inr (es = ''-'', word_of_int (digits_value 0 ds))"
    using r assms(2) by (auto simp: parse_exponent_def)
  moreover have "uint (word_of_int (digits_value 0 ds) :: 64 word) = digits_value 0 ds"
    using b assms(3) by (simp add: uint_word_of_int_eq take_bit_int_eq_self)
  ultimately show ?thesis by blast
qed

lemma ten_power:
  assumes "uint expo = e" "e < 2 ^ 31"
  shows "\<exists>p. power_q (set_q_int 10) (ucast (expo :: 64 word)) = Some p \<and> mpq_ok p \<and> qval p = 10 ^ nat e"
proof -
  have ten: "mpq_ok (set_q_int 10)" "qval (set_q_int 10) = 10" by (simp_all add: set_q_int_def)
  have "0 \<le> e" using assms(1) by (metis uint_ge_0)
  have "uint (ucast expo :: mpn_digit) = e"
    using assms \<open>0 \<le> e\<close> by (simp add: unsigned_ucast_eq take_bit_int_eq_self)
  then have u: "unat (ucast expo :: mpn_digit) = nat e" by (simp add: unat_eq_nat_uint)
  have "nat e < 2 ^ 31" using assms(2) \<open>0 \<le> e\<close> by (simp add: nat_less_iff)
  then show ?thesis using power_q_correct[OF ten(1), of "ucast expo"] ten(2) u by simp
qed

lemma scale_by_power:
  assumes "mpq_ok a" "uint expo = e" "e < 2 ^ 31"
  shows "\<exists>r. (if expo > 0 then do { p \<leftarrow> power_q (set_q_int 10) (ucast (expo :: 64 word)); (if neg then div_q a p else mul_q a p) } else Some a) = Some r
    \<and> mpq_ok r \<and> qval r = (if neg then qval a / 10 ^ nat e else qval a * 10 ^ nat e)"
proof (cases "expo > 0")
  case True
  obtain p where p: "power_q (set_q_int 10) (ucast expo) = Some p" "mpq_ok p" "qval p = 10 ^ nat e"
    using ten_power[OF assms(2,3)] by blast
  then show ?thesis using True div_q_correct[OF assms(1) p(2)] mul_q_correct[OF assms(1) p(2)] by simp
next
  case False
  then have "expo = 0" by (simp add: word_gt_0)
  then have "e = 0" using assms(2) by simp
  then show ?thesis using False assms(1) by simp
qed

lemma read_scale:
  assumes "all_digits ds"
  defines "t \<equiv> foldl (\<lambda>t c. if is_digit c then mpz_mul t (mk_z 10) else t) (mk_z 1) ds"
  shows "mpz_normal t" "zval t = 10 ^ length ds"
proof -
  have "mpz_normal b \<Longrightarrow> mpz_normal (foldl (\<lambda>t c. if is_digit c then mpz_mul t (mk_z 10) else t) b ds)
      \<and> zval (foldl (\<lambda>t c. if is_digit c then mpz_mul t (mk_z 10) else t) b ds) = zval b * 10 ^ length ds" for b
    using assms(1)
  proof (induction ds arbitrary: b)
    case (Cons c ds)
    have "mpz_normal (mpz_mul b (mk_z 10))" "zval (mpz_mul b (mk_z 10)) = zval b * 10"
      using normal_mul[OF mpz_normal_ok[OF Cons.prems(1)], of "mk_z 10"] mpz_mul_correct[OF mpz_normal_ok[OF Cons.prems(1)], of "mk_z 10"] by simp_all
    then show ?case using Cons by (simp add: all_digits_def)
  qed simp
  from this[of "mk_z 1"] show "mpz_normal t" "zval t = 10 ^ length ds" by (simp_all add: t_def)
qed

lemma read_decimal:
  assumes "all_digits ds" "all_digits fs" "all_digits xs" "sg = [] \<or> sg = ''-''" "es = [] \<or> es = ''-''" "digits_value 0 xs < 2 ^ 31"
  shows "\<exists>r. set_q_string t (replicate k CHR '' '' @ sg @ ds @ ''.'' @ fs @ ''e'' @ es @ xs) = Some (Inr r) \<and> mpq_ok r
    \<and> qval r = (if sg = ''-'' then - 1 else 1) * (of_int (digits_value 0 (ds @ fs)) / 10 ^ length fs)
      * (if es = ''-'' then 1 / 10 ^ nat (digits_value 0 xs) else 10 ^ nat (digits_value 0 xs))"
proof -
  define tail where "tail = ''.'' @ fs @ ''e'' @ es @ xs"
  have "is_part_end CHR ''.''" by (simp add: is_part_end_def)
  then have "tail = [] \<or> is_part_end (hd tail)" by (simp add: tail_def)
  note p = string_parts[OF assms(1,4) this]
  note v = read_part[OF assms(1,4)] and w = read_part[OF assms(2), of "[]", simplified] and s = read_scale[OF assms(2)]
  define num den sc where "num = foldl set_string_step (mk_z 0) (sg @ ds)" "den = foldl set_string_step (mk_z 0) fs"
    "sc = foldl (\<lambda>t c. if is_digit c then mpz_mul t (mk_z 10) else t) (mk_z 1) fs"
  note v = v[folded num_den_sc_def] and w = w[folded num_den_sc_def] and s = s[folded num_den_sc_def]
  have ee: "is_exp_char CHR ''e''" by (simp add: is_exp_char_def)
  have fr: "takeWhile (\<lambda>c. \<not> is_exp_char c) (fs @ ''e'' @ es @ xs) = fs" "dropWhile (\<lambda>c. \<not> is_exp_char c) (fs @ ''e'' @ es @ xs) = ''e'' @ es @ xs"
    using assms(2) digit_not_special(2) ee by (simp_all add: all_digits_def takeWhile_append2 dropWhile_append2)
  obtain expo where x: "parse_exponent False (''e'' @ es @ xs) = Inr (es = ''-'', expo)" "uint expo = digits_value 0 xs"
    using parse_exponent_digits[OF assms(3,5,6)] by blast
  have small: "\<not> expo > 4294967295" using x(2) assms(6) by (simp add: word_less_def)
  obtain b where b: "set_q_mpz den sc = Some b" "mpq_ok b" "qval b = of_int (zval den) / 10 ^ length fs"
    using set_q_mpz_correct[OF w(1) s(1)] s(2) by auto
  obtain q where q: "add_q (int_q num) b = Some q" "mpq_ok q" "qval q = of_int (zval num) + qval b"
    using add_q_correct[OF _ b(2), of "int_q num"] v(1) by auto
  obtain r where r: "(if expo > 0 then do { p \<leftarrow> power_q (set_q_int 10) (ucast expo); (if es = ''-'' then div_q q p else mul_q q p) } else Some q) = Some r"
      "mpq_ok r" "qval r = (if es = ''-'' then qval q / 10 ^ nat (digits_value 0 xs) else qval q * 10 ^ nat (digits_value 0 xs))"
    using scale_by_power[OF q(2) x(2) assms(6)] by blast
  have ap: "apply_exponent \<lparr>m_num = num, m_den = den\<rparr> True sc (es = ''-'') expo = Some r"
    using b(1) q(1) r(1) by (simp add: apply_exponent_def int_q_def)
  obtain f where f: "finish_string (sg = ''-'') r = Some (Inr f)" "mpq_ok f" "qval f = (if sg = ''-'' then - qval r else qval r)"
    using finish_correct[OF mpq_okD(1,2,5)[OF r(2)]] by blast
  have "set_q_string t (replicate k CHR '' '' @ sg @ ds @ tail) = finish_string (sg = ''-'') r"
    unfolding set_q_string_def Let_def p num_den_sc_def[symmetric]
    by (simp add: tail_def fr[simplified] x(1)[simplified] small ap flip: num_den_sc_def)
  moreover have "qval q = of_int (digits_value 0 (ds @ fs)) / 10 ^ length fs"
  proof -
    have "digits_value 0 (ds @ fs) = digits_value 0 ds * 10 ^ length fs + digits_value 0 fs"
      using digits_value_shift[of "digits_value 0 ds" fs] by (simp add: digits_value_def)
    then show ?thesis unfolding q(3) b(3) v(2) w(2) by (simp add: add_divide_distrib)
  qed
  ultimately show ?thesis using f r(3) by (simp add: tail_def)
qed

section \<open>What goes wrong\<close>

text \<open>A numeral with an exponent and no decimal point keeps the denominator of the target.\<close>

lemma stale_denominator:
  "\<exists>r. set_q_string \<lparr>m_num = mk_z 1, m_den = mk_z 3\<rparr> ''1e0'' = Some (Inr r) \<and> mpq_ok r \<and> qval r = 1 / 3"
proof -
  have d: "is_digit CHR ''1''" "is_digit CHR ''0''" "\<not> is_part_end CHR ''1''" "is_part_end CHR ''e''" "is_exp_char CHR ''e''"
    by (simp_all add: is_digit_def less_eq_char_def is_part_end_def is_exp_char_def)
  have n: "set_string_step (mk_z 0) CHR ''1'' = mk_z 1"
  proof -
    have "i64 0 = 0" "i64 1 = 1" by (simp_all add: i64_id)
    then have "mpz_add (mpz_mul (mk_z 0) (mk_z 10)) (mk_z 1) = mk_z 1" by (simp add: mpz_mul_def mpz_add_def set_i64_def)
    then show ?thesis using d(1) by (simp add: set_string_step_def)
  qed
  have "set_q_string \<lparr>m_num = mk_z 1, m_den = mk_z 3\<rparr> ''1e0'' = finish_string False \<lparr>m_num = mk_z 1, m_den = mk_z 3\<rparr>"
    using d n by (simp add: set_q_string_def Let_def parse_exponent_def apply_exponent_def)
  then show ?thesis using finish_correct[of "\<lparr>m_num = mk_z 1, m_den = mk_z 3\<rparr>" False] by (auto simp: qval_def)
qed

text \<open>The exponent wraps at \<open>2 ^ 64\<close>, and so passes the test that it is not too big.\<close>

lemma exponent_wraps: "read_exponent 0 ''18446744073709551617'' = Inr 1"
  using read_exponent_digits[of "''18446744073709551617''" 0]
  by (simp add: all_digits_def is_digit_def less_eq_char_def digits_value_def digit_value_def)

lemma exponent_too_big: "parse_exponent False ''e4294967296'' = Inr (False, 4294967296)"
  using read_exponent_digits[of "''4294967296''" 0]
  by (simp add: parse_exponent_def all_digits_def is_digit_def less_eq_char_def digits_value_def digit_value_def)

end
