(* ===== verification/Old_Interval.thy ===== *)
theory Old_Interval
  imports Prelude Complex_Main
begin

text \<open>
  Interval arithmetic with justifications (src/sources/Z3/src/smt/old_interval.h, old_interval.cpp):
  extended rationals, intervals with open or closed ends, and for each end the dependency (the
  set of assumptions) that implies it. \<^verbatim>\<open>rational\<close> has unbounded precision and is \<^typ>\<open>rat\<close>.
  The value part of an infinite \<^verbatim>\<open>ext_numeral\<close> is never read and is left out. Operators that
  update their left operand return the new interval; the right operand is another object.
\<close>

section \<open>Extended numerals\<close>

datatype ext_numeral = MinusInfinity | Finite rat | PlusInfinity

fun is_infinite :: "ext_numeral \<Rightarrow> bool" where
  "is_infinite (Finite q) = False"
| "is_infinite e = True"

fun ext_sign :: "ext_numeral \<Rightarrow> bool" where
  "ext_sign MinusInfinity = True"
| "ext_sign (Finite q) = (q < 0)"
| "ext_sign PlusInfinity = False"

fun ext_is_zero :: "ext_numeral \<Rightarrow> bool" where
  "ext_is_zero (Finite q) = (q = 0)"
| "ext_is_zero e = False"

definition ext_is_neg :: "ext_numeral \<Rightarrow> bool" where
  "ext_is_neg e = ext_sign e"

definition ext_is_pos :: "ext_numeral \<Rightarrow> bool" where
  "ext_is_pos e = (\<not> ext_is_neg e \<and> \<not> ext_is_zero e)"

fun ext_neg :: "ext_numeral \<Rightarrow> ext_numeral" where
  "ext_neg MinusInfinity = PlusInfinity"
| "ext_neg (Finite q) = Finite (- q)"
| "ext_neg PlusInfinity = MinusInfinity"

text \<open>The sum keeps an infinite left operand, whatever the right one is.\<close>

fun ext_add :: "ext_numeral \<Rightarrow> ext_numeral \<Rightarrow> ext_numeral" where
  "ext_add (Finite p) MinusInfinity = MinusInfinity"
| "ext_add (Finite p) (Finite q) = Finite (p + q)"
| "ext_add (Finite p) PlusInfinity = PlusInfinity"
| "ext_add e _ = e"

fun ext_sub :: "ext_numeral \<Rightarrow> ext_numeral \<Rightarrow> ext_numeral" where
  "ext_sub (Finite p) MinusInfinity = PlusInfinity"
| "ext_sub (Finite p) (Finite q) = Finite (p - q)"
| "ext_sub (Finite p) PlusInfinity = MinusInfinity"
| "ext_sub e _ = e"

definition ext_mul :: "ext_numeral \<Rightarrow> ext_numeral \<Rightarrow> ext_numeral" where
  "ext_mul a b =
     (if ext_is_zero a then a
      else if ext_is_zero b then Finite 0
      else if is_infinite a \<or> is_infinite b then
        (if ext_sign a = ext_sign b then PlusInfinity else MinusInfinity)
      else case (a, b) of (Finite p, Finite q) \<Rightarrow> Finite (p * q) | _ \<Rightarrow> a)"

fun ext_expt :: "ext_numeral \<Rightarrow> nat \<Rightarrow> ext_numeral" where
  "ext_expt MinusInfinity n = (if n mod 2 = 0 then PlusInfinity else MinusInfinity)"
| "ext_expt (Finite q) n = Finite (q ^ n)"
| "ext_expt PlusInfinity n = PlusInfinity"

text \<open>The inverse of zero is excluded by an assertion: \<^const>\<open>None\<close>.\<close>

definition ext_inv :: "ext_numeral \<Rightarrow> ext_numeral option" where
  "ext_inv e =
     (case e of Finite q \<Rightarrow> if q = 0 then None else Some (Finite (1 / q)) | _ \<Rightarrow> Some (Finite 0))"

fun ext_less :: "ext_numeral \<Rightarrow> ext_numeral \<Rightarrow> bool" where
  "ext_less MinusInfinity e = (e \<noteq> MinusInfinity)"
| "ext_less PlusInfinity e = False"
| "ext_less (Finite p) PlusInfinity = True"
| "ext_less (Finite p) MinusInfinity = False"
| "ext_less (Finite p) (Finite q) = (p < q)"

text \<open>The comparison operators of the header, defined from \<^verbatim>\<open>operator<\<close>, are a linear order.\<close>

instantiation ext_numeral :: linorder
begin

definition less_ext_numeral :: "ext_numeral \<Rightarrow> ext_numeral \<Rightarrow> bool" where
  "less_ext_numeral a b = ext_less a b"

definition less_eq_ext_numeral :: "ext_numeral \<Rightarrow> ext_numeral \<Rightarrow> bool" where
  "less_eq_ext_numeral a b = (\<not> ext_less b a)"

instance
proof
  fix x y z :: ext_numeral
  show "x < y \<longleftrightarrow> x \<le> y \<and> \<not> y \<le> x" "x \<le> x" "x \<le> y \<or> y \<le> x"
    by (cases x; cases y; auto simp: less_ext_numeral_def less_eq_ext_numeral_def)+
  show "x \<le> y \<Longrightarrow> y \<le> z \<Longrightarrow> x \<le> z" "x \<le> y \<Longrightarrow> y \<le> x \<Longrightarrow> x = y"
    by (cases x; cases y; cases z; auto simp: less_eq_ext_numeral_def)+
qed

end

section \<open>Dependencies\<close>

text \<open>Dependency nodes of dependency.h; \<^const>\<open>None\<close> is the null pointer, the empty set of
  assumptions. The code compares addresses: that comparison is the parameter \<open>same\<close>, which
  implies that the nodes are equal. Reference counts and memory are left out.\<close>

datatype dependency = Leaf nat | Join dependency dependency

fun leaves :: "dependency \<Rightarrow> nat set" where
  "leaves (Leaf v) = {v}"
| "leaves (Join d1 d2) = leaves d1 \<union> leaves d2"

type_synonym v_dependency = "dependency option"

type_synonym same_addr = "dependency \<Rightarrow> dependency \<Rightarrow> bool"

definition same_ptr :: "same_addr \<Rightarrow> v_dependency \<Rightarrow> v_dependency \<Rightarrow> bool" where
  "same_ptr same d1 d2 = (case (d1, d2) of (None, None) \<Rightarrow> True | (Some x, Some y) \<Rightarrow> same x y | _ \<Rightarrow> False)"

definition mk_join :: "same_addr \<Rightarrow> v_dependency \<Rightarrow> v_dependency \<Rightarrow> v_dependency" where
  "mk_join same d1 d2 =
     (case d1 of None \<Rightarrow> d2
      | Some x \<Rightarrow> (case d2 of None \<Rightarrow> d1
                   | Some y \<Rightarrow> if same x y then d1 else Some (Join x y)))"

definition join3 :: "same_addr \<Rightarrow> v_dependency \<Rightarrow> v_dependency \<Rightarrow> v_dependency \<Rightarrow> v_dependency" where
  "join3 same d1 d2 d3 = mk_join same (mk_join same d1 d2) d3"

definition join4 :: "same_addr \<Rightarrow> v_dependency \<Rightarrow> v_dependency \<Rightarrow> v_dependency \<Rightarrow> v_dependency \<Rightarrow> v_dependency" where
  "join4 same d1 d2 d3 d4 = mk_join same (mk_join same d1 d2) (mk_join same d3 d4)"

definition join_opt :: "same_addr \<Rightarrow> v_dependency \<Rightarrow> v_dependency \<Rightarrow> v_dependency \<Rightarrow> v_dependency \<Rightarrow> v_dependency" where
  "join_opt same d1 d2 opt1 opt2 =
     (if same_ptr same opt1 d1 \<or> same_ptr same opt1 d2 then mk_join same d1 d2
      else if same_ptr same opt2 d1 \<or> same_ptr same opt2 d2 then mk_join same d1 d2
      else if opt1 = None \<or> opt2 = None then mk_join same d1 d2
      else join3 same d1 d2 opt1)"

section \<open>Intervals\<close>

record old_interval =
  m_lower :: ext_numeral
  m_upper :: ext_numeral
  m_lower_open :: bool
  m_upper_open :: bool
  m_lower_dep :: v_dependency
  m_upper_dep :: v_dependency

definition full_interval :: old_interval where
  "full_interval = \<lparr>m_lower = MinusInfinity, m_upper = PlusInfinity, m_lower_open = True, m_upper_open = True,
     m_lower_dep = None, m_upper_dep = None\<rparr>"

definition ext_interval ::
  "ext_numeral \<Rightarrow> bool \<Rightarrow> v_dependency \<Rightarrow> ext_numeral \<Rightarrow> bool \<Rightarrow> v_dependency \<Rightarrow> old_interval" where
  "ext_interval lower l_open l_dep upper u_open u_dep =
     \<lparr>m_lower = lower, m_upper = upper, m_lower_open = l_open, m_upper_open = u_open,
      m_lower_dep = l_dep, m_upper_dep = u_dep\<rparr>"

definition num_interval ::
  "rat \<Rightarrow> bool \<Rightarrow> v_dependency \<Rightarrow> rat \<Rightarrow> bool \<Rightarrow> v_dependency \<Rightarrow> old_interval" where
  "num_interval lower l_open l_dep upper u_open u_dep =
     \<lparr>m_lower = Finite lower, m_upper = Finite upper, m_lower_open = l_open, m_upper_open = u_open,
      m_lower_dep = l_dep, m_upper_dep = u_dep\<rparr>"

definition point_interval :: "rat \<Rightarrow> v_dependency \<Rightarrow> v_dependency \<Rightarrow> old_interval" where
  "point_interval val l_dep u_dep =
     \<lparr>m_lower = Finite val, m_upper = Finite val, m_lower_open = False, m_upper_open = False,
      m_lower_dep = l_dep, m_upper_dep = u_dep\<rparr>"

definition half_interval :: "rat \<Rightarrow> bool \<Rightarrow> bool \<Rightarrow> v_dependency \<Rightarrow> old_interval" where
  "half_interval val opn lower d =
     (if lower then
        \<lparr>m_lower = Finite val, m_upper = PlusInfinity, m_lower_open = opn, m_upper_open = True,
         m_lower_dep = d, m_upper_dep = None\<rparr>
      else
        \<lparr>m_lower = MinusInfinity, m_upper = Finite val, m_lower_open = True, m_upper_open = opn,
         m_lower_dep = None, m_upper_dep = d\<rparr>)"

definition is_P :: "old_interval \<Rightarrow> bool" where
  "is_P i = (ext_is_pos (m_lower i) \<or> ext_is_zero (m_lower i))"

definition is_P0 :: "old_interval \<Rightarrow> bool" where
  "is_P0 i = (ext_is_zero (m_lower i) \<and> \<not> m_lower_open i)"

definition is_P1 :: "old_interval \<Rightarrow> bool" where
  "is_P1 i = (ext_is_pos (m_lower i) \<or> ext_is_zero (m_lower i) \<and> m_lower_open i)"

definition is_N :: "old_interval \<Rightarrow> bool" where
  "is_N i = (ext_is_neg (m_upper i) \<or> ext_is_zero (m_upper i))"

definition is_N0 :: "old_interval \<Rightarrow> bool" where
  "is_N0 i = (ext_is_zero (m_upper i) \<and> \<not> m_upper_open i)"

definition is_N1 :: "old_interval \<Rightarrow> bool" where
  "is_N1 i = (ext_is_neg (m_upper i) \<or> ext_is_zero (m_upper i) \<and> m_upper_open i)"

definition is_M :: "old_interval \<Rightarrow> bool" where
  "is_M i = (ext_is_neg (m_lower i) \<and> ext_is_pos (m_upper i))"

definition is_zero :: "old_interval \<Rightarrow> bool" where
  "is_zero i = (ext_is_zero (m_lower i) \<and> ext_is_zero (m_upper i))"

definition contains_zero :: "old_interval \<Rightarrow> bool" where
  "contains_zero i =
     ((ext_is_neg (m_lower i) \<or> ext_is_zero (m_lower i) \<and> \<not> m_lower_open i)
      \<and> (ext_is_pos (m_upper i) \<or> ext_is_zero (m_upper i) \<and> \<not> m_upper_open i))"

definition contains :: "old_interval \<Rightarrow> rat \<Rightarrow> bool" where
  "contains i v =
     ((case m_lower i of Finite l \<Rightarrow> \<not> (v < l) \<and> \<not> (v = l \<and> m_lower_open i) | _ \<Rightarrow> True)
      \<and> (case m_upper i of Finite u \<Rightarrow> \<not> (v > u) \<and> \<not> (v = u \<and> m_upper_open i) | _ \<Rightarrow> True))"

section \<open>Sum, negation, difference\<close>

definition unless_infinite :: "ext_numeral \<Rightarrow> v_dependency \<Rightarrow> v_dependency" where
  "unless_infinite e d = (if is_infinite e then None else d)"

definition interval_add :: "same_addr \<Rightarrow> old_interval \<Rightarrow> old_interval \<Rightarrow> old_interval" where
  "interval_add same i j =
     (let l = ext_add (m_lower i) (m_lower j); u = ext_add (m_upper i) (m_upper j)
      in \<lparr>m_lower = l, m_upper = u,
          m_lower_open = (m_lower_open i \<or> m_lower_open j), m_upper_open = (m_upper_open i \<or> m_upper_open j),
          m_lower_dep = unless_infinite l (mk_join same (m_lower_dep i) (m_lower_dep j)),
          m_upper_dep = unless_infinite u (mk_join same (m_upper_dep i) (m_upper_dep j))\<rparr>)"

definition interval_neg :: "old_interval \<Rightarrow> old_interval" where
  "interval_neg i =
     \<lparr>m_lower = ext_neg (m_upper i), m_upper = ext_neg (m_lower i),
      m_lower_open = m_upper_open i, m_upper_open = m_lower_open i,
      m_lower_dep = m_upper_dep i, m_upper_dep = m_lower_dep i\<rparr>"

definition interval_sub :: "same_addr \<Rightarrow> old_interval \<Rightarrow> old_interval \<Rightarrow> old_interval" where
  "interval_sub same i j = interval_add same i (interval_neg j)"

section \<open>Product\<close>

text \<open>The ends of the product as the nine cases compute them: value, openness and dependency.\<close>

definition bounds :: "ext_numeral \<Rightarrow> bool \<Rightarrow> v_dependency \<Rightarrow> ext_numeral \<Rightarrow> bool \<Rightarrow> v_dependency \<Rightarrow> old_interval" where
  "bounds l lo ld u uo ud =
     \<lparr>m_lower = l, m_upper = u, m_lower_open = lo, m_upper_open = uo,
      m_lower_dep = unless_infinite l ld, m_upper_dep = unless_infinite u ud\<rparr>"

definition interval_mul :: "same_addr \<Rightarrow> old_interval \<Rightarrow> old_interval \<Rightarrow> old_interval" where
  "interval_mul same i j =
    (if is_zero i then i
     else if is_zero j then
       (let dep = mk_join same (m_lower_dep j) (m_upper_dep j)
        in j\<lparr>m_lower_dep := dep, m_upper_dep := dep\<rparr>)
     else
       let a = m_lower i; b = m_upper i; c = m_lower j; d = m_upper j;
           a_o = m_lower_open i; b_o = m_upper_open i; c_o = m_lower_open j; d_o = m_upper_open j;
           a_d = m_lower_dep i; b_d = m_upper_dep i; c_d = m_lower_dep j; d_d = m_upper_dep j
       in
       if is_N i then
         (if is_N j then
            bounds (ext_mul b d) (if is_N0 i \<or> is_N0 j then False else b_o \<or> d_o) (mk_join same b_d d_d)
              (ext_mul a c) (a_o \<or> c_o) (join_opt same a_d c_d b_d d_d)
          else if is_M j then
            bounds (ext_mul a d) (a_o \<or> d_o) (join3 same a_d d_d b_d)
              (ext_mul a c) (a_o \<or> c_o) (join3 same a_d c_d b_d)
          else
            bounds (ext_mul a d) (a_o \<or> d_o) (join_opt same a_d d_d b_d c_d)
              (ext_mul b c) (if is_N0 i \<or> is_P0 j then False else b_o \<or> c_o) (mk_join same b_d c_d))
       else if is_M i then
         (if is_N j then
            bounds (ext_mul b c) (b_o \<or> c_o) (join3 same b_d c_d d_d)
              (ext_mul a c) (a_o \<or> c_o) (join3 same a_d c_d d_d)
          else if is_M j then
            (let ad = ext_mul a d; bc = ext_mul b c; ac = ext_mul a c; bd = ext_mul b d;
                 ad_o = (a_o \<or> d_o); bc_o = (b_o \<or> c_o); ac_o = (a_o \<or> c_o); bd_o = (b_o \<or> d_o);
                 (l, lo) = (if ext_less ad bc \<or> ad = bc \<and> \<not> ad_o \<and> bc_o then (ad, ad_o) else (bc, bc_o));
                 (u, uo) = (if ext_less bd ac \<or> ac = bd \<and> \<not> ac_o \<and> bd_o then (ac, ac_o) else (bd, bd_o))
             in bounds l lo (join4 same a_d b_d c_d d_d) u uo (join4 same a_d b_d c_d d_d))
          else
            bounds (ext_mul a d) (a_o \<or> d_o) (join3 same a_d d_d c_d)
              (ext_mul b d) (b_o \<or> d_o) (join3 same b_d d_d c_d))
       else
         (if is_N j then
            bounds (ext_mul b c) (b_o \<or> c_o) (join_opt same b_d c_d a_d d_d)
              (ext_mul a d) (if is_P0 i \<or> is_N0 j then False else a_o \<or> d_o) (mk_join same a_d d_d)
          else if is_M j then
            bounds (ext_mul b c) (b_o \<or> c_o) (join3 same b_d c_d a_d)
              (ext_mul b d) (b_o \<or> d_o) (join3 same b_d d_d a_d)
          else
            bounds (ext_mul a c) (if is_P0 i \<or> is_P0 j then False else a_o \<or> c_o) (mk_join same a_d c_d)
              (ext_mul b d) (b_o \<or> d_o) (join_opt same b_d d_d a_d c_d)))"

section \<open>Inverse, quotient, power\<close>

text \<open>\<^const>\<open>None\<close> is the unreachable branch (an interval that contains zero).\<close>

definition interval_inv :: "same_addr \<Rightarrow> old_interval \<Rightarrow> old_interval option" where
  "interval_inv same i =
     (if is_P1 i then
        (case (ext_inv (m_upper i), if ext_is_zero (m_lower i) then Some PlusInfinity else ext_inv (m_lower i)) of
           (Some new_lower, Some new_upper) \<Rightarrow>
             Some \<lparr>m_lower = new_lower, m_upper = new_upper,
                   m_lower_open = m_upper_open i, m_upper_open = m_lower_open i,
                   m_lower_dep = mk_join same (m_lower_dep i) (m_upper_dep i), m_upper_dep = m_lower_dep i\<rparr>
         | _ \<Rightarrow> None)
      else if is_N1 i then
        (case (ext_inv (m_lower i), if ext_is_zero (m_upper i) then Some MinusInfinity else ext_inv (m_upper i)) of
           (Some new_upper, Some new_lower) \<Rightarrow>
             Some \<lparr>m_lower = new_lower, m_upper = new_upper,
                   m_lower_open = m_upper_open i, m_upper_open = m_lower_open i,
                   m_lower_dep = m_upper_dep i, m_upper_dep = mk_join same (m_lower_dep i) (m_upper_dep i)\<rparr>
         | _ \<Rightarrow> None)
      else None)"

definition interval_div :: "same_addr \<Rightarrow> old_interval \<Rightarrow> old_interval \<Rightarrow> old_interval option" where
  "interval_div same i j =
     (if is_zero i then
        (if ext_is_pos (m_lower j) \<or> ext_is_zero (m_lower j) \<and> m_lower_open j then
           Some (i\<lparr>m_lower_dep := mk_join same (m_lower_dep i) (m_lower_dep j),
                   m_upper_dep := mk_join same (m_upper_dep i) (m_lower_dep j)\<rparr>)
         else
           Some (i\<lparr>m_lower_dep := mk_join same (m_lower_dep i) (m_upper_dep j),
                   m_upper_dep := mk_join same (m_upper_dep i) (m_upper_dep j)\<rparr>))
      else map_option (interval_mul same i) (interval_inv same j))"

definition interval_expt :: "same_addr \<Rightarrow> old_interval \<Rightarrow> nat \<Rightarrow> old_interval" where
  "interval_expt same i n =
     (if n = 1 then i
      else if n mod 2 = 0 then
        (if ext_is_pos (m_lower i) then
           (let u = ext_expt (m_upper i) n
            in i\<lparr>m_lower := ext_expt (m_lower i) n, m_upper := u,
                 m_upper_dep := unless_infinite u (mk_join same (m_lower_dep i) (m_upper_dep i))\<rparr>)
         else if ext_is_neg (m_upper i) then
           (let u = ext_expt (m_lower i) n
            in \<lparr>m_lower = ext_expt (m_upper i) n, m_upper = u,
                m_lower_open = m_upper_open i, m_upper_open = m_lower_open i,
                m_lower_dep = m_upper_dep i,
                m_upper_dep = unless_infinite u (mk_join same (m_upper_dep i) (m_lower_dep i))\<rparr>)
         else
           (let l = ext_expt (m_lower i) n; u = ext_expt (m_upper i) n;
                (u', uo) = (if ext_less u l \<or> l = u \<and> \<not> m_lower_open i \<and> m_upper_open i
                            then (l, m_lower_open i) else (u, m_upper_open i))
            in \<lparr>m_lower = Finite 0, m_upper = u', m_lower_open = False, m_upper_open = uo,
                m_lower_dep = None, m_upper_dep = unless_infinite u' (mk_join same (m_lower_dep i) (m_upper_dep i))\<rparr>))
      else i\<lparr>m_lower := ext_expt (m_lower i) n, m_upper := ext_expt (m_upper i) n\<rparr>)"

end
