(* ===== verification/Old_Interval_Sound.thy ===== *)
theory Old_Interval_Sound
  imports Old_Interval
begin

text \<open>
  Soundness of interval arithmetic: an operation on intervals contains the result of the operation
  on real numbers they contain, and each end of the result holds whenever the assumptions in its
  dependency do.
\<close>

section \<open>What an end and a dependency state\<close>

fun ub :: "ext_numeral \<Rightarrow> bool \<Rightarrow> real \<Rightarrow> bool" where
  "ub MinusInfinity opn x = False"
| "ub (Finite q) opn x = (if opn then x < of_rat q else x \<le> of_rat q)"
| "ub PlusInfinity opn x = True"

fun lb :: "ext_numeral \<Rightarrow> bool \<Rightarrow> real \<Rightarrow> bool" where
  "lb MinusInfinity opn x = True"
| "lb (Finite q) opn x = (if opn then of_rat q < x else of_rat q \<le> x)"
| "lb PlusInfinity opn x = False"

text \<open>\<open>A\<close> is the set of assumptions that are true.\<close>

definition dep_true :: "nat set \<Rightarrow> v_dependency \<Rightarrow> bool" where
  "dep_true A d = (case d of None \<Rightarrow> True | Some t \<Rightarrow> leaves t \<subseteq> A)"

definition justified :: "nat set \<Rightarrow> old_interval \<Rightarrow> real \<Rightarrow> bool" where
  "justified A i x \<longleftrightarrow>
     (dep_true A (m_lower_dep i) \<longrightarrow> lb (m_lower i) (m_lower_open i) x)
   \<and> (dep_true A (m_upper_dep i) \<longrightarrow> ub (m_upper i) (m_upper_open i) x)"

definition mem :: "real \<Rightarrow> old_interval \<Rightarrow> bool" where
  "mem x i \<longleftrightarrow> lb (m_lower i) (m_lower_open i) x \<and> ub (m_upper i) (m_upper_open i) x"

definition nonempty :: "old_interval \<Rightarrow> bool" where
  "nonempty i \<longleftrightarrow> (\<exists>x. mem x i)"

section \<open>Dependencies\<close>

text \<open>Equal addresses hold the same node.\<close>

definition address_eq :: "same_addr \<Rightarrow> bool" where
  "address_eq same \<longleftrightarrow> (\<forall>d d'. same d d' \<longrightarrow> d = d')"

lemma dep_true_None [simp]: "dep_true A None"
  by (simp add: dep_true_def)

lemma dep_true_join [simp]:
  "address_eq same \<Longrightarrow> dep_true A (mk_join same d1 d2) = (dep_true A d1 \<and> dep_true A d2)"
  by (auto simp: dep_true_def mk_join_def address_eq_def split: option.splits)

lemma dep_true_join3 [simp]:
  "address_eq same \<Longrightarrow> dep_true A (join3 same d1 d2 d3) = (dep_true A d1 \<and> dep_true A d2 \<and> dep_true A d3)"
  by (simp add: join3_def)

lemma dep_true_join4 [simp]:
  "address_eq same \<Longrightarrow> dep_true A (join4 same d1 d2 d3 d4)
    = (dep_true A d1 \<and> dep_true A d2 \<and> dep_true A d3 \<and> dep_true A d4)"
  by (simp add: join4_def)

text \<open>\<^verbatim>\<open>join_opt\<close> implies its first two arguments and one of the other two.\<close>

lemma dep_true_join_opt:
  assumes "address_eq same" "dep_true A (join_opt same d1 d2 o1 o2)"
  shows "dep_true A d1 \<and> dep_true A d2 \<and> (dep_true A o1 \<or> dep_true A o2)"
proof -
  have same: "same_ptr same x y \<Longrightarrow> x = y" for x y
    using assms(1) by (auto simp: same_ptr_def address_eq_def split: option.splits)
  show ?thesis
    using assms(2) same by (auto simp: join_opt_def assms(1) split: if_splits)
qed

section \<open>Ends under negation and products\<close>

lemma lb_ub_neg: "lb e opn x = ub (ext_neg e) opn (- x)"
  by (cases e) (auto simp: of_rat_minus)

lemma ub_lb_neg: "ub e opn x = lb (ext_neg e) opn (- x)"
  by (cases e) (auto simp: of_rat_minus)

lemma ext_neg_neg [simp]: "ext_neg (ext_neg e) = e"
  by (cases e) auto

lemma ext_neg_sign [simp]:
  "ext_is_neg (ext_neg e) = ext_is_pos e" "ext_is_pos (ext_neg e) = ext_is_neg e"
  "ext_is_zero (ext_neg e) = ext_is_zero e" "is_infinite (ext_neg e) = is_infinite e"
  by (cases e; auto simp: ext_is_neg_def ext_is_pos_def)+

lemma ext_mul_neg: "ext_mul (ext_neg a) b = ext_neg (ext_mul a b)" "ext_mul a (ext_neg b) = ext_neg (ext_mul a b)"
  by (cases a; cases b; auto simp: ext_mul_def)+

lemma ub_weaken: "ub e o1 x \<Longrightarrow> (o2 \<Longrightarrow> o1) \<Longrightarrow> ub e o2 x"
  by (cases e) (auto split: if_splits)

text \<open>An upper bound of a product from upper bounds of the factors, when one factor is not
  negative.\<close>

lemma ub_mul_real:
  fixes x y b d :: real
  assumes "0 < b" "0 < d" "0 \<le> x \<or> 0 \<le> y" "if bo then x < b else x \<le> b" "if do then y < d else y \<le> d"
  shows "if bo \<or> do then x * y < b * d else x * y \<le> b * d"
proof -
  have xy: "x \<le> b" "y \<le> d" using assms by (auto split: if_splits)
  consider "0 \<le> x" "0 \<le> y" | "0 \<le> x" "y < 0" | "x < 0" "0 \<le> y" using assms(3) by linarith
  then show ?thesis
  proof cases
    case 1
    have le: "x * y \<le> b * d" using 1 xy assms(1) by (intro mult_mono) auto
    moreover have "x * y < b * d" if "bo"
    proof -
      have "x * y \<le> x * d" using 1 xy by (intro mult_left_mono) auto
      also have "\<dots> < b * d" using that assms(2,4) by simp
      finally show ?thesis .
    qed
    moreover have "x * y < b * d" if "do"
    proof -
      have "x * y \<le> b * y" using 1 xy by (intro mult_right_mono) auto
      also have "\<dots> < b * d" using that assms(1,5) by simp
      finally show ?thesis .
    qed
    ultimately show ?thesis by auto
  next
    case 2
    then have "x * y \<le> 0" by (simp add: mult_nonneg_nonpos)
    moreover have "0 < b * d" using assms(1,2) by simp
    ultimately show ?thesis by auto
  next
    case 3
    then have "x * y \<le> 0" by (simp add: mult_nonpos_nonneg)
    moreover have "0 < b * d" using assms(1,2) by simp
    ultimately show ?thesis by auto
  qed
qed

lemma ub_mul:
  assumes "ub b bo x" "ub d do y" "ext_is_pos b" "ext_is_pos d" "0 \<le> x \<or> 0 \<le> y"
  shows "ub (ext_mul b d) (bo \<or> do) (x * y)"
proof (cases b)
  case b: (Finite p)
  show ?thesis
  proof (cases d)
    case d: (Finite q)
    then have "0 < p" "0 < q" using assms(3,4) b by (auto simp: ext_is_pos_def ext_is_neg_def)
    then show ?thesis using ub_mul_real[of "of_rat p" "of_rat q" x y bo do] assms b d
      by (simp add: ext_mul_def of_rat_mult)
  qed (use assms b in \<open>auto simp: ext_mul_def ext_is_pos_def ext_is_neg_def\<close>)
next
  case PlusInfinity
  then show ?thesis using assms by (cases d) (auto simp: ext_mul_def ext_is_pos_def ext_is_neg_def)
qed (use assms in simp)

text \<open>A lower bound of a product of factors that are not negative.\<close>

definition is_nonneg :: "ext_numeral \<Rightarrow> bool" where
  "is_nonneg e \<longleftrightarrow> ext_is_pos e \<or> ext_is_zero e"

lemma lb_mul:
  assumes "lb a ao x" "lb c co y" "is_nonneg a" "is_nonneg c"
  shows "lb (ext_mul a c) (if ext_is_zero a \<and> \<not> ao \<or> ext_is_zero c \<and> \<not> co then False else ao \<or> co) (x * y)"
proof -
  obtain p q where pq: "a = Finite p" "c = Finite q" "0 \<le> p" "0 \<le> q"
    using assms by (cases a; cases c) (auto simp: is_nonneg_def ext_is_pos_def ext_is_neg_def)
  then have "0 \<le> real_of_rat p" "0 \<le> real_of_rat q" by simp_all
  moreover have "of_rat p \<le> x" "of_rat q \<le> y" using pq assms(1,2) by (auto split: if_splits)
  ultimately have b: "of_rat p \<le> x" "of_rat q \<le> y" "0 \<le> real_of_rat p" "0 \<le> real_of_rat q" "0 \<le> x" "0 \<le> y"
    by linarith+
  then have le: "of_rat p * of_rat q \<le> x * y" by (intro mult_mono) auto
  have strict: "of_rat p * of_rat q < x * y" if "ao \<or> co" "\<not> (p = 0 \<and> \<not> ao)" "\<not> (q = 0 \<and> \<not> co)"
    supply zero = that
  proof (cases "ao \<and> co")
    case True
    then show ?thesis using assms(1,2) pq b by (intro mult_strict_mono') auto
  next
    case False
    then consider "ao" "\<not> co" "0 < q" | "co" "\<not> ao" "0 < p" using zero pq(3,4) by fastforce
    then show ?thesis
    proof cases
      case 1
      then have "of_rat p * of_rat q < x * of_rat q" using assms(1) pq by simp
      also have "\<dots> \<le> x * y" using b by (intro mult_left_mono) auto
      finally show ?thesis .
    next
      case 2
      then have "of_rat p * of_rat q < of_rat p * y" using assms(2) pq by simp
      also have "\<dots> \<le> x * y" using b by (intro mult_right_mono) auto
      finally show ?thesis .
    qed
  qed
  have "ext_mul a c = Finite (p * q)" by (auto simp: pq ext_mul_def)
  then show ?thesis using le strict pq by (auto simp: of_rat_mult)
qed

text \<open>The same for the other signs of the factors.\<close>

definition is_nonpos :: "ext_numeral \<Rightarrow> bool" where
  "is_nonpos e \<longleftrightarrow> ext_is_neg e \<or> ext_is_zero e"

lemma nonneg_neg: "is_nonneg (ext_neg e) = is_nonpos e"
  by (simp add: is_nonneg_def is_nonpos_def)

lemma mul_ends_signed:
  "lb a ao x \<Longrightarrow> lb c co y \<Longrightarrow> ext_is_neg a \<Longrightarrow> ext_is_neg c \<Longrightarrow> x \<le> 0 \<or> y \<le> 0 \<Longrightarrow> ub (ext_mul a c) (ao \<or> co) (x * y)"
  "lb a ao x \<Longrightarrow> ub d do y \<Longrightarrow> ext_is_neg a \<Longrightarrow> ext_is_pos d \<Longrightarrow> x \<le> 0 \<or> 0 \<le> y \<Longrightarrow> lb (ext_mul a d) (ao \<or> do) (x * y)"
  "ub b bo x \<Longrightarrow> lb c co y \<Longrightarrow> ext_is_pos b \<Longrightarrow> ext_is_neg c \<Longrightarrow> 0 \<le> x \<or> y \<le> 0 \<Longrightarrow> lb (ext_mul b c) (bo \<or> co) (x * y)"
  using ub_mul[of "ext_neg a" ao "- x" "ext_neg c" co "- y"] ub_mul[of "ext_neg a" ao "- x" d "do" y]
    ub_mul[of b bo x "ext_neg c" co "- y"]
  by (simp_all add: lb_ub_neg ext_mul_neg)

lemma mul_ends_small:
  "ub b bo x \<Longrightarrow> ub d do y \<Longrightarrow> is_nonpos b \<Longrightarrow> is_nonpos d \<Longrightarrow>
    lb (ext_mul b d) (if ext_is_zero b \<and> \<not> bo \<or> ext_is_zero d \<and> \<not> do then False else bo \<or> do) (x * y)"
  "ub b bo x \<Longrightarrow> lb c co y \<Longrightarrow> is_nonpos b \<Longrightarrow> is_nonneg c \<Longrightarrow>
    ub (ext_mul b c) (if ext_is_zero b \<and> \<not> bo \<or> ext_is_zero c \<and> \<not> co then False else bo \<or> co) (x * y)"
  "lb a ao x \<Longrightarrow> ub d do y \<Longrightarrow> is_nonneg a \<Longrightarrow> is_nonpos d \<Longrightarrow>
    ub (ext_mul a d) (if ext_is_zero a \<and> \<not> ao \<or> ext_is_zero d \<and> \<not> do then False else ao \<or> do) (x * y)"
  using lb_mul[of "ext_neg b" bo "- x" "ext_neg d" "do" "- y"] lb_mul[of "ext_neg b" bo "- x" c co y]
    lb_mul[of a ao x "ext_neg d" "do" "- y"]
  by (simp_all add: ub_lb_neg ext_mul_neg nonneg_neg)

section \<open>The signs of an interval\<close>

lemma nonpos_value: "ub e opn x \<Longrightarrow> is_nonpos e \<Longrightarrow> x \<le> 0"
proof -
  assume u: "ub e opn x" "is_nonpos e"
  then obtain q where q: "e = Finite q" "q \<le> 0"
    by (cases e) (auto simp: is_nonpos_def ext_is_neg_def)
  then have "real_of_rat q \<le> 0" by simp
  moreover have "x \<le> of_rat q" using u(1) q(1) by (auto split: if_splits)
  ultimately show "x \<le> 0" by linarith
qed

lemma nonneg_value: "lb e opn x \<Longrightarrow> is_nonneg e \<Longrightarrow> 0 \<le> x"
  using nonpos_value[of "ext_neg e" opn "- x"] by (simp add: lb_ub_neg nonneg_neg[symmetric])

lemma is_N_nonpos: "is_N i = is_nonpos (m_upper i)" and is_P_nonneg: "is_P i = is_nonneg (m_lower i)"
  by (auto simp: is_N_def is_nonpos_def is_P_def is_nonneg_def)

lemma sign_cases:
  "\<not> is_N i \<Longrightarrow> ext_is_pos (m_upper i)"
  "\<not> is_N i \<Longrightarrow> \<not> is_M i \<Longrightarrow> is_nonneg (m_lower i)"
  "is_M i \<Longrightarrow> ext_is_neg (m_lower i) \<and> ext_is_pos (m_upper i) \<and> \<not> is_N i"
  by (auto simp: is_N_def is_M_def is_nonneg_def ext_is_pos_def ext_is_neg_def
      elim: ext_sign.elims ext_is_zero.elims)

lemma nonempty_N:
  assumes "nonempty i" "is_N i" "\<not> is_zero i"
  shows "ext_is_neg (m_lower i)"
proof (rule ccontr)
  assume "\<not> ext_is_neg (m_lower i)"
  then have nn: "is_nonneg (m_lower i)" by (auto simp: is_nonneg_def ext_is_pos_def)
  obtain x where x: "lb (m_lower i) (m_lower_open i) x" "ub (m_upper i) (m_upper_open i) x"
    using assms(1) by (auto simp: nonempty_def mem_def)
  have "x = 0" using nonneg_value[OF x(1) nn] nonpos_value[OF x(2)] assms(2) by (simp add: is_N_nonpos)
  with x nn assms(2,3) show False
    by (cases "m_lower i"; cases "m_upper i")
      (auto simp: is_zero_def is_N_nonpos is_nonneg_def is_nonpos_def ext_is_pos_def ext_is_neg_def split: if_splits)
qed

section \<open>Negation, sum and difference\<close>

lemma mem_justified: "mem x i \<Longrightarrow> justified A i x"
  by (simp add: mem_def justified_def)

lemma justified_UNIV: "justified UNIV i x = mem x i"
  by (simp add: justified_def mem_def dep_true_def split: option.splits)

lemma nonempty_infinite: "nonempty i \<Longrightarrow> m_lower i \<noteq> PlusInfinity \<and> m_upper i \<noteq> MinusInfinity"
  by (auto simp: nonempty_def mem_def)

lemma interval_neg_justified: "justified A (interval_neg i) (- x) = justified A i x"
  by (auto simp: justified_def interval_neg_def lb_ub_neg)

lemma interval_neg_mem: "mem (- x) (interval_neg i) = mem x i"
  by (auto simp: mem_def interval_neg_def lb_ub_neg)

text \<open>An end that is infinite needs no dependency.\<close>

lemma unless_infinite_lower:
  "l \<noteq> PlusInfinity \<Longrightarrow> (dep_true A d \<Longrightarrow> lb l lo x) \<Longrightarrow> dep_true A (unless_infinite l d) \<Longrightarrow> lb l lo x"
  by (cases l) (auto simp: unless_infinite_def)

lemma unless_infinite_upper:
  "u \<noteq> MinusInfinity \<Longrightarrow> (dep_true A d \<Longrightarrow> ub u uo x) \<Longrightarrow> dep_true A (unless_infinite u d) \<Longrightarrow> ub u uo x"
  by (cases u) (auto simp: unless_infinite_def)

lemma ub_add: "ub a ao x \<Longrightarrow> ub b bo y \<Longrightarrow> ub (ext_add a b) (ao \<or> bo) (x + y)"
  by (cases a; cases b) (auto simp: of_rat_add split: if_splits)

lemma lb_add: "lb a ao x \<Longrightarrow> lb b bo y \<Longrightarrow> lb (ext_add a b) (ao \<or> bo) (x + y)"
  by (cases a; cases b) (auto simp: of_rat_add split: if_splits)

theorem interval_add_justified:
  assumes "address_eq same" "nonempty i" "nonempty j" "justified A i x" "justified A j y"
  shows "justified A (interval_add same i j) (x + y)"
proof -
  have inf: "ext_add (m_lower i) (m_lower j) \<noteq> PlusInfinity" "ext_add (m_upper i) (m_upper j) \<noteq> MinusInfinity"
    using nonempty_infinite[OF assms(2)] nonempty_infinite[OF assms(3)]
    by (cases "m_lower i"; cases "m_lower j"; simp)
      (use nonempty_infinite[OF assms(2)] nonempty_infinite[OF assms(3)] in
        \<open>cases "m_upper i"; cases "m_upper j"; simp\<close>)
  show ?thesis
    unfolding justified_def interval_add_def Let_def old_interval.select_convs
    using assms(1,4,5) lb_add[of "m_lower i" "m_lower_open i" x "m_lower j" "m_lower_open j" y]
      ub_add[of "m_upper i" "m_upper_open i" x "m_upper j" "m_upper_open j" y]
    by (intro conjI impI; elim unless_infinite_lower[OF inf(1), rotated] unless_infinite_upper[OF inf(2), rotated])
      (auto simp: justified_def)
qed

section \<open>Product\<close>

lemma bounds_justified:
  assumes "justified A (ext_interval l lo ld u uo ud) z" "l \<noteq> PlusInfinity" "u \<noteq> MinusInfinity"
  shows "justified A (bounds l lo ld u uo ud) z"
  using assms unless_infinite_lower[of l A ld lo z] unless_infinite_upper[of u A ud uo z]
  by (auto simp: justified_def bounds_def ext_interval_def)

text \<open>The result has ends that follow from the dependencies chosen for them.\<close>

definition ends_ok :: "old_interval \<Rightarrow> old_interval \<Rightarrow> old_interval \<Rightarrow> bool" where
  "ends_ok i j r \<longleftrightarrow> (\<exists>l lo ld u uo ud. r = bounds l lo ld u uo ud
     \<and> (\<forall>A x y. justified A i x \<longrightarrow> justified A j y \<longrightarrow>
          (dep_true A ld \<longrightarrow> lb l lo (x * y)) \<and> (dep_true A ud \<longrightarrow> ub u uo (x * y))))"

lemma ends_okI:
  assumes "r = bounds l lo ld u uo ud"
    and "\<And>A x y. justified A i x \<Longrightarrow> justified A j y \<Longrightarrow> dep_true A ld \<Longrightarrow> lb l lo (x * y)"
    and "\<And>A x y. justified A i x \<Longrightarrow> justified A j y \<Longrightarrow> dep_true A ud \<Longrightarrow> ub u uo (x * y)"
  shows "ends_ok i j r"
  using assms unfolding ends_ok_def by blast

lemma justifiedD:
  assumes "justified A i x"
  shows "dep_true A (m_lower_dep i) \<Longrightarrow> lb (m_lower i) (m_lower_open i) x"
    and "dep_true A (m_upper_dep i) \<Longrightarrow> ub (m_upper i) (m_upper_open i) x"
    and "dep_true A (m_lower_dep i) \<Longrightarrow> is_nonneg (m_lower i) \<Longrightarrow> 0 \<le> x"
    and "dep_true A (m_upper_dep i) \<Longrightarrow> is_nonpos (m_upper i) \<Longrightarrow> x \<le> 0"
  using assms nonneg_value nonpos_value by (auto simp: justified_def)

text \<open>The two candidates for each end when both intervals contain numbers of both signs.\<close>

lemma lb_min:
  assumes "lb e1 o1 z \<or> lb e2 o2 z" "e1 \<noteq> PlusInfinity" "e2 \<noteq> PlusInfinity"
    and "(l, lo) = (if ext_less e1 e2 \<or> e1 = e2 \<and> \<not> o1 \<and> o2 then (e1, o1) else (e2, o2))"
  shows "lb l lo z"
  using assms
  by (cases e1; cases e2) (auto simp: of_rat_less[symmetric, where ?'a = real] of_rat_less_eq[symmetric, where ?'a = real] not_less le_less split: if_splits)

lemma ub_max:
  assumes "ub e1 o1 z \<or> ub e2 o2 z" "e1 \<noteq> MinusInfinity" "e2 \<noteq> MinusInfinity"
    and "(u, uo) = (if ext_less e2 e1 \<or> e1 = e2 \<and> \<not> o1 \<and> o2 then (e1, o1) else (e2, o2))"
  shows "ub u uo z"
  using assms
  by (cases e1; cases e2) (auto simp: of_rat_less[symmetric, where ?'a = real] of_rat_less_eq[symmetric, where ?'a = real] not_less le_less split: if_splits)

lemma ext_mul_signs:
  "ext_is_neg a \<Longrightarrow> ext_is_pos b \<Longrightarrow> ext_is_neg (ext_mul a b)"
  "ext_is_pos a \<Longrightarrow> ext_is_neg b \<Longrightarrow> ext_is_neg (ext_mul a b)"
  "ext_is_neg a \<Longrightarrow> ext_is_neg b \<Longrightarrow> ext_is_pos (ext_mul a b)"
  "ext_is_pos a \<Longrightarrow> ext_is_pos b \<Longrightarrow> ext_is_pos (ext_mul a b)"
  by (cases a; cases b; auto simp: ext_mul_def ext_is_pos_def ext_is_neg_def mult_less_0_iff zero_less_mult_iff)+

lemma neg_not_plus: "ext_is_neg e \<Longrightarrow> e \<noteq> PlusInfinity" and pos_not_minus: "ext_is_pos e \<Longrightarrow> e \<noteq> MinusInfinity"
  by (auto simp: ext_is_pos_def ext_is_neg_def)

lemma product_N:
  assumes same: "address_eq same" and ne: "nonempty i" "nonempty j" and nz: "\<not> is_zero i" "\<not> is_zero j"
    and N: "is_N i"
  shows "ends_ok i j (interval_mul same i j)"
proof -
  note a = nonempty_N[OF ne(1) N nz(1)] and b = N[unfolded is_N_nonpos]
  note opt = dep_true_join_opt[OF same] and D = justifiedD
  consider "is_N j" | "\<not> is_N j" "is_M j" | "\<not> is_N j" "\<not> is_M j" by blast
  then show ?thesis
  proof cases
    case 1
    note c = nonempty_N[OF ne(2) 1 nz(2)] and d = 1[unfolded is_N_nonpos]
    note eq = interval_mul_def[of same i j, simplified Let_def nz N 1 if_False if_True]
    show ?thesis
      apply (rule ends_okI[OF eq])
      subgoal for A x y
        using mul_ends_small(1)[OF D(2)[of A i x] D(2)[of A j y] b d] by (auto simp: same is_N0_def)
      subgoal for A x y
        using opt mul_ends_signed(1)[OF D(1)[of A i x] D(1)[of A j y] a c] D(4)[of A i x] D(4)[of A j y] b d by blast
      done
  next
    case 2
    note m = sign_cases(3)[OF 2(2)]
    note eq = interval_mul_def[of same i j, simplified Let_def nz N 2 if_False if_True]
    show ?thesis
      apply (rule ends_okI[OF eq])
      subgoal for A x y
        using mul_ends_signed(2)[OF D(1)[of A i x] D(2)[of A j y] a] m D(4)[of A i x] b by (auto simp: same)
      subgoal for A x y
        using mul_ends_signed(1)[OF D(1)[of A i x] D(1)[of A j y] a] m D(4)[of A i x] b by (auto simp: same)
      done
  next
    case 3
    note c = sign_cases(2)[OF 3] and d = sign_cases(1)[OF 3(1)]
    note eq = interval_mul_def[of same i j, simplified Let_def nz N 3 if_False if_True]
    show ?thesis
      apply (rule ends_okI[OF eq])
      subgoal for A x y
        using opt mul_ends_signed(2)[OF D(1)[of A i x] D(2)[of A j y] a d] D(4)[of A i x] D(3)[of A j y] b c by blast
      subgoal for A x y
        using mul_ends_small(2)[OF D(2)[of A i x] D(1)[of A j y] b c] by (auto simp: same is_N0_def is_P0_def)
      done
  qed
qed

lemma product_M:
  assumes same: "address_eq same" and ne: "nonempty i" "nonempty j" and nz: "\<not> is_zero i" "\<not> is_zero j"
    and M: "is_M i"
  shows "ends_ok i j (interval_mul same i j)"
proof -
  note ab = sign_cases(3)[OF M, THEN conjunct1] sign_cases(3)[OF M, THEN conjunct2, THEN conjunct1]
  have N: "\<not> is_N i" using sign_cases(3)[OF M] by simp
  note opt = dep_true_join_opt[OF same] and D = justifiedD
  consider "is_N j" | "\<not> is_N j" "is_M j" | "\<not> is_N j" "\<not> is_M j" by blast
  then show ?thesis
  proof cases
    case 1
    note c = nonempty_N[OF ne(2) 1 nz(2)] and d = 1[unfolded is_N_nonpos]
    note eq = interval_mul_def[of same i j, simplified Let_def nz N M 1 if_False if_True]
    show ?thesis
      apply (rule ends_okI[OF eq])
      subgoal for A x y
        using mul_ends_signed(3)[OF D(2)[of A i x] D(1)[of A j y] ab(2) c] D(4)[of A j y] d by (auto simp: same)
      subgoal for A x y
        using mul_ends_signed(1)[OF D(1)[of A i x] D(1)[of A j y] ab(1) c] D(4)[of A j y] d by (auto simp: same)
      done
  next
    case 2
    note cd = sign_cases(3)[OF 2(2), THEN conjunct1] sign_cases(3)[OF 2(2), THEN conjunct2, THEN conjunct1]
    obtain l lo where low: "(l, lo) =
        (if ext_less (ext_mul (m_lower i) (m_upper j)) (ext_mul (m_upper i) (m_lower j))
          \<or> ext_mul (m_lower i) (m_upper j) = ext_mul (m_upper i) (m_lower j)
            \<and> \<not> (m_lower_open i \<or> m_upper_open j) \<and> (m_upper_open i \<or> m_lower_open j)
         then (ext_mul (m_lower i) (m_upper j), m_lower_open i \<or> m_upper_open j)
         else (ext_mul (m_upper i) (m_lower j), m_upper_open i \<or> m_lower_open j))"
      by (metis surj_pair)
    obtain u uo where upp: "(u, uo) =
        (if ext_less (ext_mul (m_upper i) (m_upper j)) (ext_mul (m_lower i) (m_lower j))
          \<or> ext_mul (m_lower i) (m_lower j) = ext_mul (m_upper i) (m_upper j)
            \<and> \<not> (m_lower_open i \<or> m_lower_open j) \<and> (m_upper_open i \<or> m_upper_open j)
         then (ext_mul (m_lower i) (m_lower j), m_lower_open i \<or> m_lower_open j)
         else (ext_mul (m_upper i) (m_upper j), m_upper_open i \<or> m_upper_open j))"
      by (metis surj_pair)
    let ?dep = "join4 same (m_lower_dep i) (m_upper_dep i) (m_lower_dep j) (m_upper_dep j)"
    have eq: "interval_mul same i j = bounds l lo ?dep u uo ?dep"
      unfolding interval_mul_def Let_def low[symmetric] upp[symmetric] using nz N M 2 by simp
    show ?thesis
    proof (rule ends_okI[OF eq])
      fix A x y assume x: "justified A i x" and y: "justified A j y" and dep: "dep_true A ?dep"
      note b = D(1,2)[OF x] D(1,2)[OF y]
      have "lb (ext_mul (m_lower i) (m_upper j)) (m_lower_open i \<or> m_upper_open j) (x * y)
          \<or> lb (ext_mul (m_upper i) (m_lower j)) (m_upper_open i \<or> m_lower_open j) (x * y)"
        using mul_ends_signed(2)[OF b(1,4) ab(1) cd(2)] mul_ends_signed(3)[OF b(2,3) ab(2) cd(1)] dep
        by (cases "x \<le> 0") (auto simp: same)
      then show "lb l lo (x * y)"
        by (rule lb_min[OF _ neg_not_plus[OF ext_mul_signs(1)[OF ab(1) cd(2)]]
              neg_not_plus[OF ext_mul_signs(2)[OF ab(2) cd(1)]] low])
      have "ub (ext_mul (m_lower i) (m_lower j)) (m_lower_open i \<or> m_lower_open j) (x * y)
          \<or> ub (ext_mul (m_upper i) (m_upper j)) (m_upper_open i \<or> m_upper_open j) (x * y)"
        using mul_ends_signed(1)[OF b(1,3) ab(1) cd(1)] ub_mul[OF b(2,4) ab(2) cd(2)] dep
        by (cases "x \<le> 0") (auto simp: same)
      then show "ub u uo (x * y)"
        by (rule ub_max[OF _ pos_not_minus[OF ext_mul_signs(3)[OF ab(1) cd(1)]]
              pos_not_minus[OF ext_mul_signs(4)[OF ab(2) cd(2)]] upp])
    qed
  next
    case 3
    note c = sign_cases(2)[OF 3] and d = sign_cases(1)[OF 3(1)]
    note eq = interval_mul_def[of same i j, simplified Let_def nz N M 3 if_False if_True]
    show ?thesis
      apply (rule ends_okI[OF eq])
      subgoal for A x y
        using mul_ends_signed(2)[OF D(1)[of A i x] D(2)[of A j y] ab(1) d] D(3)[of A j y] c by (auto simp: same)
      subgoal for A x y
        using ub_mul[OF D(2)[of A i x] D(2)[of A j y] ab(2) d] D(3)[of A j y] c by (auto simp: same)
      done
  qed
qed

lemma product_P:
  assumes same: "address_eq same" and ne: "nonempty i" "nonempty j" and nz: "\<not> is_zero i" "\<not> is_zero j"
    and P: "\<not> is_N i" "\<not> is_M i"
  shows "ends_ok i j (interval_mul same i j)"
proof -
  note a = sign_cases(2)[OF P] and b = sign_cases(1)[OF P(1)]
  note opt = dep_true_join_opt[OF same] and D = justifiedD
  consider "is_N j" | "\<not> is_N j" "is_M j" | "\<not> is_N j" "\<not> is_M j" by blast
  then show ?thesis
  proof cases
    case 1
    note c = nonempty_N[OF ne(2) 1 nz(2)] and d = 1[unfolded is_N_nonpos]
    note eq = interval_mul_def[of same i j, simplified Let_def nz P 1 if_False if_True]
    show ?thesis
      apply (rule ends_okI[OF eq])
      subgoal for A x y
        using opt mul_ends_signed(3)[OF D(2)[of A i x] D(1)[of A j y] b c] D(3)[of A i x] D(4)[of A j y] a d by blast
      subgoal for A x y
        using mul_ends_small(3)[OF D(1)[of A i x] D(2)[of A j y] a d] by (auto simp: same is_N0_def is_P0_def)
      done
  next
    case 2
    note m = sign_cases(3)[OF 2(2)]
    note eq = interval_mul_def[of same i j, simplified Let_def nz P 2 if_False if_True]
    show ?thesis
      apply (rule ends_okI[OF eq])
      subgoal for A x y
        using mul_ends_signed(3)[OF D(2)[of A i x] D(1)[of A j y] b] m D(3)[of A i x] a by (auto simp: same)
      subgoal for A x y
        using ub_mul[OF D(2)[of A i x] D(2)[of A j y] b] m D(3)[of A i x] a by (auto simp: same)
      done
  next
    case 3
    note c = sign_cases(2)[OF 3] and d = sign_cases(1)[OF 3(1)]
    note eq = interval_mul_def[of same i j, simplified Let_def nz P 3 if_False if_True]
    show ?thesis
      apply (rule ends_okI[OF eq])
      subgoal for A x y
        using lb_mul[OF D(1)[of A i x] D(1)[of A j y] a c] by (auto simp: same is_P0_def)
      subgoal for A x y
        using opt ub_mul[OF D(2)[of A i x] D(2)[of A j y] b d] D(3)[of A i x] D(3)[of A j y] a c by blast
      done
  qed
qed

text \<open>Every end of a product holds when its dependency does, unless the left operand is the zero
  interval, which is returned with the dependencies it had.\<close>

theorem interval_mul_justified:
  assumes same: "address_eq same" and ne: "nonempty i" "nonempty j" and nz: "\<not> is_zero i"
    and x: "justified A i x" and y: "justified A j y"
  shows "justified A (interval_mul same i j) (x * y)"
proof (cases "is_zero j")
  case True
  have "dep_true A (m_lower_dep j) \<Longrightarrow> dep_true A (m_upper_dep j) \<Longrightarrow> y = 0"
    using justifiedD(3,4)[OF y] True by (auto simp: is_zero_def is_nonneg_def is_nonpos_def)
  moreover have "lb (m_lower j) (m_lower_open j) 0 \<and> ub (m_upper j) (m_upper_open j) 0"
    using ne(2) True by (cases "m_lower j"; cases "m_upper j")
      (auto simp: nonempty_def mem_def is_zero_def split: if_splits)
  ultimately show ?thesis
    using nz True by (auto simp: interval_mul_def justified_def Let_def same)
next
  case False
  have "ends_ok i j (interval_mul same i j)"
    using product_N[OF same ne nz False] product_M[OF same ne nz False] product_P[OF same ne nz False] by blast
  then obtain l lo ld u uo ud where r: "interval_mul same i j = bounds l lo ld u uo ud"
    and ends: "\<And>A x y. justified A i x \<Longrightarrow> justified A j y \<Longrightarrow>
          (dep_true A ld \<longrightarrow> lb l lo (x * y)) \<and> (dep_true A ud \<longrightarrow> ub u uo (x * y))"
    unfolding ends_ok_def by blast
  obtain x0 y0 where "justified UNIV i x0" "justified UNIV j y0"
    using ne by (auto simp: nonempty_def justified_UNIV)
  moreover have "dep_true UNIV d" for d by (simp add: dep_true_def split: option.splits)
  ultimately have "lb l lo (x0 * y0)" "ub u uo (x0 * y0)" using ends by blast+
  then have "l \<noteq> PlusInfinity" "u \<noteq> MinusInfinity" by auto
  then show ?thesis
    unfolding r using bounds_justified[of A l lo ld u uo ud "x * y"] ends[OF x y]
    by (auto simp: ext_interval_def justified_def)
qed

theorem interval_mul_contains:
  assumes "address_eq same" "mem x i" "mem y j"
  shows "mem (x * y) (interval_mul same i j)"
proof (cases "is_zero i")
  case True
  then have "x = 0" using assms(2) nonneg_value[of "m_lower i" _ x] nonpos_value[of "m_upper i" _ x]
    by (fastforce simp: mem_def is_zero_def is_nonneg_def is_nonpos_def)
  then show ?thesis using True assms(2) by (simp add: interval_mul_def)
next
  case False
  have "nonempty i" "nonempty j" using assms(2,3) by (auto simp: nonempty_def)
  then show ?thesis
    using interval_mul_justified[OF assms(1) _ _ False, of j UNIV x y] assms(2,3) by (simp add: justified_UNIV)
qed

section \<open>Inverse and quotient\<close>

lemma ext_inv_neg: "ext_inv (ext_neg e) = map_option ext_neg (ext_inv e)"
  by (cases e) (auto simp: ext_inv_def)

lemma inv_pos_ends:
  assumes "0 < x" "ext_inv e = Some e'" "ext_is_pos e"
  shows "ub e opn x \<Longrightarrow> lb e' opn (1 / x)" and "lb e opn x \<Longrightarrow> ub e' opn (1 / x)"
  using assms
  by (cases e; auto simp: ext_inv_def ext_is_pos_def ext_is_neg_def of_rat_divide frac_le frac_less2
      divide_strict_left_mono divide_left_mono split: if_splits)+

lemma inv_neg_ends:
  assumes "x < 0" "ext_inv e = Some e'" "ext_is_neg e"
  shows "ub e opn x \<Longrightarrow> lb e' opn (1 / x)" and "lb e opn x \<Longrightarrow> ub e' opn (1 / x)"
  using inv_pos_ends[of "- x" "ext_neg e" "ext_neg e'" opn] assms
  by (simp_all add: ext_inv_neg lb_ub_neg)

lemma ext_inv_Some: "\<not> ext_is_zero e \<Longrightarrow> \<exists>e'. ext_inv e = Some e'"
  by (cases e) (auto simp: ext_inv_def)

lemma P1_value: "lb e opn x \<Longrightarrow> ext_is_pos e \<or> ext_is_zero e \<and> opn \<Longrightarrow> 0 < x"
proof -
  assume l: "lb e opn x" "ext_is_pos e \<or> ext_is_zero e \<and> opn"
  then obtain q where q: "e = Finite q" "0 < q \<or> q = 0 \<and> opn"
    by (cases e) (auto simp: ext_is_pos_def ext_is_neg_def)
  then have "0 < real_of_rat q \<or> real_of_rat q = 0 \<and> opn" by auto
  moreover have "of_rat q \<le> x" "opn \<longrightarrow> of_rat q < x" using l(1) q(1) by (auto split: if_splits)
  ultimately show "0 < x" by linarith
qed

lemma N1_value: "ub e opn x \<Longrightarrow> ext_is_neg e \<or> ext_is_zero e \<and> opn \<Longrightarrow> x < 0"
  using P1_value[of "ext_neg e" opn "- x"] by (simp add: ub_lb_neg)

lemma not_contains_zero: "nonempty i \<Longrightarrow> \<not> contains_zero i \<Longrightarrow> is_P1 i \<or> is_N1 i"
  by (auto simp: contains_zero_def is_P1_def is_N1_def ext_is_pos_def)

lemma interval_inv_P1:
  assumes same: "address_eq same" and ne: "nonempty i" and P: "is_P1 i"
  shows "\<exists>r. interval_inv same i = Some r \<and> (\<forall>A x. justified A i x \<longrightarrow> justified A r (1 / x))"
proof -
  obtain x0 where x0: "lb (m_lower i) (m_lower_open i) x0" "ub (m_upper i) (m_upper_open i) x0"
    using ne by (auto simp: nonempty_def mem_def)
  have "0 < x0" using P1_value[OF x0(1)] P by (simp add: is_P1_def)
  then have "\<not> is_nonpos (m_upper i)" using nonpos_value[OF x0(2)] by auto
  then have pos: "ext_is_pos (m_upper i)" "\<not> ext_is_zero (m_upper i)" by (auto simp: is_nonpos_def ext_is_pos_def)
  then obtain b' where b': "ext_inv (m_upper i) = Some b'" using ext_inv_Some by blast
  obtain a' where a': "(if ext_is_zero (m_lower i) then Some PlusInfinity else ext_inv (m_lower i)) = Some a'"
    using ext_inv_Some by (cases "ext_is_zero (m_lower i)") auto
  let ?r = "\<lparr>m_lower = b', m_upper = a', m_lower_open = m_upper_open i, m_upper_open = m_lower_open i,
      m_lower_dep = mk_join same (m_lower_dep i) (m_upper_dep i), m_upper_dep = m_lower_dep i\<rparr>"
  have "justified A ?r (1 / x)" if "justified A i x" for A x
  proof -
    have x: "0 < x" if "dep_true A (m_lower_dep i)"
      using P1_value[of "m_lower i" "m_lower_open i" x] that \<open>justified A i x\<close> P
      by (simp add: is_P1_def justified_def)
    show ?thesis
      using x that inv_pos_ends(1)[OF _ b' pos(1), of x "m_upper_open i"] inv_pos_ends(2)[of x "m_lower i" a' "m_lower_open i"]
        a' P by (auto simp: justified_def same is_P1_def ext_is_pos_def split: if_splits)
  qed
  moreover have "interval_inv same i = Some ?r" using P a' b' by (simp add: interval_inv_def)
  ultimately show ?thesis by blast
qed

lemma interval_inv_N1:
  assumes same: "address_eq same" and ne: "nonempty i" and N: "is_N1 i"
  shows "\<exists>r. interval_inv same i = Some r \<and> (\<forall>A x. justified A i x \<longrightarrow> justified A r (1 / x))"
proof -
  obtain x0 where x0: "lb (m_lower i) (m_lower_open i) x0" "ub (m_upper i) (m_upper_open i) x0"
    using ne by (auto simp: nonempty_def mem_def)
  have "x0 < 0" using N1_value[OF x0(2)] N by (simp add: is_N1_def)
  then have "\<not> is_nonneg (m_lower i)" using nonneg_value[OF x0(1)] by auto
  then have neg: "ext_is_neg (m_lower i)" "\<not> ext_is_zero (m_lower i)" by (auto simp: is_nonneg_def ext_is_pos_def)
  then have nP: "\<not> is_P1 i" by (auto simp: is_P1_def ext_is_pos_def)
  obtain b' where b': "ext_inv (m_lower i) = Some b'" using ext_inv_Some neg by blast
  obtain a' where a': "(if ext_is_zero (m_upper i) then Some MinusInfinity else ext_inv (m_upper i)) = Some a'"
    using ext_inv_Some by (cases "ext_is_zero (m_upper i)") auto
  let ?r = "\<lparr>m_lower = a', m_upper = b', m_lower_open = m_upper_open i, m_upper_open = m_lower_open i,
      m_lower_dep = m_upper_dep i, m_upper_dep = mk_join same (m_lower_dep i) (m_upper_dep i)\<rparr>"
  have "justified A ?r (1 / x)" if "justified A i x" for A x
  proof -
    have x: "x < 0" if "dep_true A (m_upper_dep i)"
      using N1_value[of "m_upper i" "m_upper_open i" x] that \<open>justified A i x\<close> N
      by (simp add: is_N1_def justified_def)
    show ?thesis
      using x that inv_neg_ends(2)[OF _ b' neg(1), of x "m_lower_open i"] inv_neg_ends(1)[of x "m_upper i" a' "m_upper_open i"]
        a' N by (auto simp: justified_def same is_N1_def split: if_splits)
  qed
  moreover have "interval_inv same i = Some ?r" using N nP a' b' by (simp add: interval_inv_def)
  ultimately show ?thesis by blast
qed

theorem interval_inv_justified:
  assumes "address_eq same" "nonempty i" "\<not> contains_zero i"
  shows "\<exists>r. interval_inv same i = Some r \<and> (\<forall>A x. justified A i x \<longrightarrow> justified A r (1 / x))"
  using interval_inv_P1[OF assms(1,2)] interval_inv_N1[OF assms(1,2)] not_contains_zero[OF assms(2,3)] by blast

theorem interval_div_justified:
  assumes same: "address_eq same" and ne: "nonempty i" "nonempty j" and nz: "\<not> is_zero i" "\<not> contains_zero j"
  shows "\<exists>r. interval_div same i j = Some r
    \<and> (\<forall>A x y. justified A i x \<longrightarrow> justified A j y \<longrightarrow> justified A r (x / y))"
proof -
  obtain v where v: "interval_inv same j = Some v" "\<And>A y. justified A j y \<Longrightarrow> justified A v (1 / y)"
    using interval_inv_justified[OF same ne(2) nz(2)] by blast
  obtain y0 where "mem y0 j" using ne(2) by (auto simp: nonempty_def)
  then have "mem (1 / y0) v" using v(2)[of UNIV y0] by (simp add: justified_UNIV)
  then have "nonempty v" by (auto simp: nonempty_def)
  then have "justified A (interval_mul same i v) (x / y)" if "justified A i x" "justified A j y" for A x y
    using interval_mul_justified[OF same ne(1) _ nz(1) that(1) v(2)[OF that(2)]] by simp
  moreover have "interval_div same i j = Some (interval_mul same i v)"
    using nz(1) v(1) by (simp add: interval_div_def)
  ultimately show ?thesis by blast
qed

theorem interval_div_contains:
  assumes "address_eq same" "mem x i" "mem y j" "\<not> contains_zero j"
  shows "\<exists>r. interval_div same i j = Some r \<and> mem (x / y) r"
proof (cases "is_zero i")
  case True
  then have "x = 0" using assms(2) nonneg_value[of "m_lower i" _ x] nonpos_value[of "m_upper i" _ x]
    by (fastforce simp: mem_def is_zero_def is_nonneg_def is_nonpos_def)
  then show ?thesis using True assms(2) by (auto simp: interval_div_def mem_def)
next
  case False
  have "nonempty i" "nonempty j" using assms(2,3) by (auto simp: nonempty_def)
  then show ?thesis
    using interval_div_justified[OF assms(1) _ _ False assms(4)] assms(2,3) by (metis justified_UNIV)
qed

section \<open>Power\<close>

lemma expt_lb_nonneg:
  assumes "lb e opn x" "is_nonneg e" "0 < n"
  shows "lb (ext_expt e n) opn (x ^ n)"
proof (cases e)
  case (Finite q)
  then have "0 \<le> real_of_rat q" using assms(2) by (auto simp: is_nonneg_def ext_is_pos_def ext_is_neg_def)
  then show ?thesis using assms(1,3) Finite
    by (auto simp: of_rat_power power_mono power_strict_mono split: if_splits)
qed (use assms in \<open>auto simp: is_nonneg_def ext_is_pos_def ext_is_neg_def\<close>)

lemma expt_ub_nonneg:
  assumes "ub e opn x" "0 \<le> x" "0 < n"
  shows "ub (ext_expt e n) opn (x ^ n)"
  using assms by (cases e) (auto simp: of_rat_power power_mono power_strict_mono split: if_splits)

lemma expt_even_neg: "even n \<Longrightarrow> ext_expt (ext_neg e) n = ext_expt e n"
  and expt_odd_neg: "odd n \<Longrightarrow> ext_expt (ext_neg e) n = ext_neg (ext_expt e n)"
  by (cases e; auto simp: even_iff_mod_2_eq_zero[symmetric] odd_iff_mod_2_eq_one[symmetric] uminus_power_if)+

lemma expt_lb_odd:
  assumes "lb e opn x" "odd n"
  shows "lb (ext_expt e n) opn (x ^ n)"
proof -
  have n: "0 < n" using assms(2) by (cases n) auto
  consider "is_nonneg e" | "ext_is_neg e" "x \<le> 0" | "ext_is_neg e" "0 < x"
    by (metis is_nonneg_def ext_is_pos_def not_le)
  then show ?thesis
  proof cases
    case 1
    then show ?thesis using expt_lb_nonneg[OF assms(1) _ n] by blast
  next
    case 2
    then have "ub (ext_expt (ext_neg e) n) opn ((- x) ^ n)"
      using assms(1) n by (intro expt_ub_nonneg) (simp_all add: lb_ub_neg)
    then show ?thesis using assms(2) by (simp add: expt_odd_neg lb_ub_neg uminus_power_if)
  next
    case 3
    show ?thesis
    proof (cases e)
      case (Finite q)
      then have "real_of_rat q < 0" using 3 by (simp add: ext_is_neg_def)
      then have "real_of_rat q ^ n < 0" using assms(2) by (simp add: power_less_zero_eq)
      moreover have "0 < x ^ n" using 3 by simp
      ultimately have "real_of_rat q ^ n < x ^ n" by linarith
      then show ?thesis using Finite by (auto simp: of_rat_power)
    qed (use assms 3 in \<open>auto simp: odd_iff_mod_2_eq_one\<close>)
  qed
qed

lemma expt_ub_odd: "ub e opn x \<Longrightarrow> odd n \<Longrightarrow> ub (ext_expt e n) opn (x ^ n)"
  using expt_lb_odd[of "ext_neg e" opn "- x" n] by (simp add: ub_lb_neg expt_odd_neg uminus_power_if)

theorem interval_expt_justified:
  assumes same: "address_eq same" and ne: "nonempty i" and n: "0 < n" and x: "justified A i x"
  shows "justified A (interval_expt same i n) (x ^ n)"
proof -
  note D = justifiedD[OF x] and low = nonempty_infinite[OF ne]
  consider "n = 1" | "n \<noteq> 1" "odd n" | "n \<noteq> 1" "even n" "ext_is_pos (m_lower i)"
    | "n \<noteq> 1" "even n" "\<not> ext_is_pos (m_lower i)" "ext_is_neg (m_upper i)"
    | "n \<noteq> 1" "even n" "\<not> ext_is_pos (m_lower i)" "\<not> ext_is_neg (m_upper i)" by blast
  then show ?thesis
  proof cases
    case 1
    then show ?thesis using x by (simp add: interval_expt_def)
  next
    case 2
    then have "n mod 2 = 1" by (simp add: odd_iff_mod_2_eq_one)
    then show ?thesis
      using 2 D(1,2) expt_lb_odd[OF _ 2(2), of "m_lower i" "m_lower_open i" x]
        expt_ub_odd[OF _ 2(2), of "m_upper i" "m_upper_open i" x]
      by (simp add: interval_expt_def justified_def)
  next
    case 3
    have nn: "is_nonneg (m_lower i)" using 3 by (simp add: is_nonneg_def)
    have inf: "ext_expt (m_upper i) n \<noteq> MinusInfinity" using 3 by (cases "m_upper i") auto
    show ?thesis
      using 3 n D(1-3) nn expt_lb_nonneg[OF _ nn n, of "m_lower_open i" x]
        expt_ub_nonneg[OF _ _ n, of "m_upper i" "m_upper_open i" x] same
      by (auto simp: interval_expt_def justified_def Let_def even_iff_mod_2_eq_zero[symmetric]
          elim: unless_infinite_upper[OF inf, rotated])
  next
    case 4
    have np: "is_nonneg (ext_neg (m_upper i))" "is_nonpos (m_upper i)" using 4 by (simp_all add: is_nonneg_def is_nonpos_def)
    have inf: "ext_expt (m_lower i) n \<noteq> MinusInfinity" using 4 by (cases "m_lower i") auto
    have "ub (m_upper i) (m_upper_open i) x \<Longrightarrow> lb (ext_expt (m_upper i) n) (m_upper_open i) (x ^ n)"
      using expt_lb_nonneg[OF _ np(1) n, of "m_upper_open i" "- x"] 4(2) by (simp add: ub_lb_neg expt_even_neg)
    moreover have "lb (m_lower i) (m_lower_open i) x \<Longrightarrow> x \<le> 0 \<Longrightarrow> ub (ext_expt (m_lower i) n) (m_lower_open i) (x ^ n)"
      using expt_ub_nonneg[OF _ _ n, of "ext_neg (m_lower i)" "m_lower_open i" "- x"] 4(2)
      by (simp add: lb_ub_neg expt_even_neg)
    ultimately show ?thesis
      using 4 D(1,2,4) np same
      by (auto simp: interval_expt_def justified_def Let_def even_iff_mod_2_eq_zero[symmetric]
          elim: unless_infinite_upper[OF inf, rotated])
  next
    case 5
    obtain u uo where u: "(u, uo) =
        (if ext_less (ext_expt (m_upper i) n) (ext_expt (m_lower i) n)
          \<or> ext_expt (m_lower i) n = ext_expt (m_upper i) n \<and> \<not> m_lower_open i \<and> m_upper_open i
         then (ext_expt (m_lower i) n, m_lower_open i) else (ext_expt (m_upper i) n, m_upper_open i))"
      by (metis surj_pair)
    have inf: "ext_expt (m_lower i) n \<noteq> MinusInfinity" "ext_expt (m_upper i) n \<noteq> MinusInfinity"
      using 5(2) low by (cases "m_lower i"; cases "m_upper i"; auto)+
    then have "u \<noteq> MinusInfinity" using u by (auto split: if_splits)
    have "ub u uo (x ^ n)" if "dep_true A (mk_join same (m_lower_dep i) (m_upper_dep i))"
    proof (rule ub_max[OF _ inf u])
      show "ub (ext_expt (m_lower i) n) (m_lower_open i) (x ^ n) \<or> ub (ext_expt (m_upper i) n) (m_upper_open i) (x ^ n)"
      proof (cases "0 \<le> x")
        case True
        then show ?thesis using that D(2) expt_ub_nonneg[OF _ True n] by (simp add: same)
      next
        case False
        then show ?thesis
          using that D(1) 5(2) expt_ub_nonneg[OF _ _ n, of "ext_neg (m_lower i)" "m_lower_open i" "- x"]
          by (simp add: same lb_ub_neg expt_even_neg)
      qed
    qed
    moreover have "interval_expt same i n = \<lparr>m_lower = Finite 0, m_upper = u, m_lower_open = False, m_upper_open = uo,
        m_lower_dep = None, m_upper_dep = unless_infinite u (mk_join same (m_lower_dep i) (m_upper_dep i))\<rparr>"
      unfolding interval_expt_def Let_def u[symmetric] using 5 by (simp add: even_iff_mod_2_eq_zero)
      moreover have "0 \<le> x ^ n" using 5(2) by (rule zero_le_even_power)
    ultimately show ?thesis
      using unless_infinite_upper[OF \<open>u \<noteq> MinusInfinity\<close>, of A _ uo "x ^ n"] by (auto simp: justified_def)
  qed
qed

theorem interval_expt_contains:
  assumes "address_eq same" "mem x i" "0 < n"
  shows "mem (x ^ n) (interval_expt same i n)"
proof -
  have "nonempty i" using assms(2) by (auto simp: nonempty_def)
  then show ?thesis
    using interval_expt_justified[OF assms(1) _ assms(3), of i UNIV x] assms(2) by (simp add: justified_UNIV)
qed

section \<open>Membership tests and differences\<close>

lemma contains_iff: "nonempty i \<Longrightarrow> contains i v = mem (of_rat v) i"
  using nonempty_infinite[of i]
  by (cases "m_lower i"; cases "m_upper i") (auto simp: contains_def mem_def of_rat_less of_rat_less_eq)

lemma contains_zero_iff: "contains_zero i = mem 0 i"
  by (cases "m_lower i"; cases "m_upper i")
    (auto simp: contains_zero_def mem_def ext_is_pos_def ext_is_neg_def)

lemma nonempty_neg: "nonempty i \<Longrightarrow> nonempty (interval_neg i)"
  using interval_neg_mem by (fastforce simp: nonempty_def)

theorem interval_sub_justified:
  assumes "address_eq same" "nonempty i" "nonempty j" "justified A i x" "justified A j y"
  shows "justified A (interval_sub same i j) (x - y)"
  using interval_add_justified[OF assms(1,2) nonempty_neg[OF assms(3)] assms(4), of "- y"] assms(5)
  by (simp add: interval_sub_def interval_neg_justified)

section \<open>Where a dependency is too weak\<close>

text \<open>The zero interval times anything is returned as it was: its lower end then claims to follow
  from the lower bound of the zero interval alone. With only that assumption true, the factors 1
  and -1 are possible, and their product is below the end.\<close>

lemma zero_interval_ends:
  assumes "is_zero i" "nonempty i"
  shows "m_lower i = Finite 0" "m_upper i = Finite 0" "\<not> m_lower_open i" "\<not> m_upper_open i"
proof -
  show "m_lower i = Finite 0" using assms(1) by (cases "m_lower i") (simp_all add: is_zero_def)
  moreover show "m_upper i = Finite 0" using assms(1) by (cases "m_upper i") (simp_all add: is_zero_def)
  ultimately show "\<not> m_lower_open i" "\<not> m_upper_open i"
    using assms(2) by (auto simp: nonempty_def mem_def split: if_splits)
qed

lemma zero_mul_dependency:
  assumes "is_zero i" "nonempty i" "dep_true A (m_lower_dep i)" "\<not> dep_true A (m_upper_dep i)" "0 < x" "y < 0"
  shows "justified A i x" "\<not> justified A (interval_mul same i j) (x * y)"
proof -
  note z = zero_interval_ends[OF assms(1,2)]
  show "justified A i x" using assms(4,5) z by (simp add: justified_def)
  have "x * y < 0" using assms(5,6) by (rule mult_pos_neg)
  then show "\<not> justified A (interval_mul same i j) (x * y)"
    using assms(1,3) z by (simp add: justified_def interval_mul_def)
qed

text \<open>Dividing the zero interval by a negative interval joins each end with the wrong bound.\<close>

lemma zero_div_dependency:
  assumes "address_eq same" "is_zero i" "nonempty i" "dep_true A (m_lower_dep i)" "\<not> dep_true A (m_upper_dep i)" "0 < x" "y < 0"
    and "ext_is_neg (m_upper j)" "nonempty j" "dep_true A (m_upper_dep j)"
  shows "\<exists>r. interval_div same i j = Some r \<and> \<not> justified A r (x / y)"
proof -
  note z = zero_interval_ends[OF assms(2,3)]
  have "ext_is_neg (m_lower j)"
  proof (rule nonempty_N[OF assms(9)])
    show "is_N j" "\<not> is_zero j" using assms(8) by (cases "m_upper j"; simp add: is_N_def is_zero_def ext_is_neg_def)+
  qed
  then have np: "\<not> (ext_is_pos (m_lower j) \<or> ext_is_zero (m_lower j) \<and> m_lower_open j)"
    by (cases "m_lower j") (auto simp: ext_is_pos_def ext_is_neg_def)
  have r: "interval_div same i j = Some (i\<lparr>m_lower_dep := mk_join same (m_lower_dep i) (m_upper_dep j),
                   m_upper_dep := mk_join same (m_upper_dep i) (m_upper_dep j)\<rparr>)"
    unfolding interval_div_def if_P[OF assms(2)] if_not_P[OF np] by (rule refl)
  have "x / y < 0" using assms(6,7) by (rule divide_pos_neg)
  then show ?thesis
    unfolding r using assms(1,4,10) z by (simp add: justified_def)
qed

text \<open>The power 0 of an open positive interval does not contain 1.\<close>

lemma expt_zero_open: "mem (3 / 2) (num_interval 1 True None 2 True None)
    \<and> \<not> mem ((3 / 2) ^ 0) (interval_expt same (num_interval 1 True None 2 True None) 0)"
  by (simp add: mem_def num_interval_def interval_expt_def ext_is_pos_def ext_is_neg_def Let_def)

end
