(* ===== verification/Spec2Isabelle.thy ===== *)
theory Spec2Isabelle
  imports Prelude Sat_Types Sat_Solver Sat_Search Sat_Vars Sat_Inv Sat_Watch Sat_Propagate Sat_Analyze Sat_Minimize
    Sat_Analysis Sat_Backtrack Sat_Attach Sat_Clauses Sat_Decide Sat_Learn Sat_Sound Sat_Contracts Sat_Examples
    Ast Bool_Rewriter Bool_Rewriter_Sound Local_Ctx Local_Ctx_Term Bool_Rewriter_Ite
    Bit_Blaster_Cfg Bit_Blaster_Arith Bit_Blaster_Mul Bit_Blaster_Mul_Sound Bit_Blaster_Div
    Bit_Blaster_Shift Bit_Blaster_Ovf Mpn Mpn_Div Mpn_Div_Sound Mpn_String
    Union_Find Union_Find_Merge Union_Find_Trail Heap Heap_Sound Sat_Var_Queue
    Mpz Mpz_Sound Mpz_Normal Mpz_Bits Mpz_Bitwise Mpz_Roots Mpz_Gcd Mpz_String
    Mpq Mpq_Sound Mpq_String Old_Interval Old_Interval_Sound
begin

text \<open>
  The repository is a tool chain that learns inductive invariants of programs: Boogie (C#) and
  scripts drive the SMT solver Z3 (C++, src/sources/Z3), which decides the verification conditions.
  This development models parts of Z3 that its answers rest on. All paths below are relative to
  src/sources/Z3/src.

  \<^bold>\<open>The SAT solver\<close> (sat/sat_solver.cpp, sat_solver.h, sat_types.h, sat_watched.h, sat_clause.h,
  sat_justification.h). \<open>Sat_Types\<close> has the data: literals \<open>2 * v\<close> and \<open>2 * v + 1\<close>, justifications, watch list elements,
  clauses, and the state \<open>solver\<close>, split into assignment and trail (\<open>asg\<close>), clauses and watch lists (\<open>cdb\<close>), conflict analysis
  (\<open>ana\<close>), heuristics (\<open>heu\<close>) and decision queue (\<open>queue\<close>). \<open>Sat_Solver\<close> translates variables, clauses and their watches,
  \<open>Sat_Search\<close> unit propagation, conflict analysis with the minimisation of the learned clause and its subsumption
  resolution, backtracking with the clauses to be attached again, decisions, models and the search loop, function by function.
  \<open>None\<close> stands for a call through the null extension, a read outside the trail, or a loop that does not end. The proofs: the invariant
  (\<open>Sat_Inv\<close>: trail, reasons, watches, completeness of propagation; \<open>Sat_Watch\<close>; \<open>settled\<close> in \<open>Sat_Propagate\<close>; \<open>sat_inv\<close> in
  \<open>Sat_Backtrack\<close>), propagation (\<open>Sat_Propagate\<close>), the derivation of the first UIP (\<open>Sat_Analyze\<close>), its minimisation (\<open>Sat_Minimize\<close>), both
  together (\<open>Sat_Analysis\<close>), backtracking (\<open>Sat_Backtrack\<close>), attaching and adding clauses (\<open>Sat_Attach\<close>, \<open>Sat_Clauses\<close>), variables
  (\<open>Sat_Vars\<close>), decisions (\<open>Sat_Decide\<close>), learning (\<open>Sat_Learn\<close>), the search with its termination and the step relation \<open>sat_reach\<close>
  (\<open>Sat_Sound\<close>), contracts for callers (\<open>Sat_Contracts\<close>) and concrete states (\<open>Sat_Examples\<close>). The properties
  (C1 to C7) hold in every state reached. Restrictions: no theory extension, assumptions, user scopes or
  parallel partner; clauses are added at level 0, to at most \<open>2 ^ 28\<close> variables (the bits of a ternary justification); garbage collection,
  \<^verbatim>\<open>cleanup\<close>, simplification and probing do not run, so no clause is removed; the model converter is empty; checkpoints do
  not raise; counters of conflicts do not wrap; the restart threshold and the product of \<^verbatim>\<open>m_random_freq\<close> are parameters. The fields \<^verbatim>\<open>init_search\<close> sets
  start as it sets them, but for the restart threshold, which is 0 until a restart.

  \<^bold>\<open>Terms and the Boolean rewriter.\<close> \<open>Ast\<close> holds the terms of the basic family over opaque atoms,
  constants and values (ast/ast.h, ast/ast.cpp), their sorts and their value in an interpretation.
  What the plugins of other families answer about values (unique, equal, distinct) is the parameter \<open>plugins\<close>; an interpretation \<open>obeys\<close> them
  when it meets their contract in ast.h, and is \<open>canonical\<close> when different values are different elements. The plugins promise the
  first, the rules for if-then-else of values need the second, and \<open>mk_eq_misses_equal_values\<close> shows that.
  \<open>Bool_Rewriter\<close> translates ast/rewriter/bool_rewriter.cpp function by function: the class is the
  record \<open>bool_rewriter\<close> (its parameters and the 32-bit cost counter, which every function that may
  run the local-context simplifier returns updated), a status with its result is a \<open>br_status\<close>, and
  the marks on terms are sets. \<open>mk_not\<close>, \<open>mk_eq\<close> and \<open>try_ite_value\<close> are mutually recursive and
  terminate by the weight \<open>wt\<close>; the unbounded loop of \<^verbatim>\<open>local_ctx_simp\<close> has one unit of fuel per round,
  and the weight of the arguments is enough (C10).
  \<open>Bool_Rewriter_Sound\<close>, \<open>Local_Ctx\<close>, \<open>Local_Ctx_Term\<close> and \<open>Bool_Rewriter_Ite\<close> show that every builder
  preserves sort and meaning for every parameter setting and that the loop stops (C8 to C12).

  \<^bold>\<open>Bit-blaster\<close> (ast/rewriter/bit_blaster). The C++ template over a class of gates is a family of
  functions over the record \<open>cfg\<close> of gate functions (\<open>Bit_Blaster_Cfg\<close>); both instances in the code
  are modelled, one of them with the order of gate inputs by AST ids, which is the parameter \<open>ast_id\<close>.
  The laws of the gates are the locale \<open>gates\<close>; it is interpreted on both instances, and the circuits
  are verified once inside it. \<open>Bit_Blaster_Arith\<close> (numerals, adders, comparison, extension,
  rotation), \<open>Bit_Blaster_Mul\<close> and \<open>Bit_Blaster_Mul_Sound\<close> (array, Wallace tree, Booth and
  case-splitting multipliers), \<open>Bit_Blaster_Ovf\<close> (overflow predicates), \<open>Bit_Blaster_Div\<close> (unsigned and
  signed division) and \<open>Bit_Blaster_Shift\<close> (shifts, rotation by a vector) follow
  bit_blaster_tpl_def.h. A vector is a list of formulas, least bit first; the theorems give the number
  it denotes in every interpretation (C13 to C19).

  \<^bold>\<open>Multi-precision naturals\<close> (util/mpn.h, util/mpn.cpp). \<open>Mpn\<close>, \<open>Mpn_Div\<close>, \<open>Mpn_Div_Sound\<close> and
  \<open>Mpn_String\<close>: arrays of 32-bit digits are lists of \<^typ>\<open>32 word\<close>, intermediate results are
  \<^typ>\<open>64 word\<close>, and every wrap-around of the code is one of the model. The operations are exact on the
  numbers denoted, division returns quotient and remainder, its failures are the values of \<open>mpn_error\<close> (with a leading zero
  digit the loop of \<^verbatim>\<open>div_normalize\<close> would not end), and the
  decimal output reads back (C20, C21; \<open>estimate_within_one\<close>, \<open>mpn_div_errors\<close>).

  \<^bold>\<open>Multi-precision integers\<close> (util/mpz.h, util/mpz.cpp without GMP, and log2 of util/util.cpp). A number
  is a record \<open>mpz\<close>: a 32-bit value when small, a sign with digits when big; \<open>zval\<close> is the integer, \<open>mpz_ok\<close>
  the invariant and \<open>mpz_normal\<close> the normal form. \<open>Mpz\<close> and \<open>Mpz_Sound\<close> have ring operations, comparisons and
  divisions, \<open>Mpz_Normal\<close> the normal form, \<open>Mpz_Bits\<close> conversions, logarithms and shifts, \<open>Mpz_Bitwise\<close> the
  loops on 64-bit chunks (locale \<open>chunked\<close>), \<open>Mpz_Roots\<close> powers (locale \<open>multiplication\<close>, which the
  rationals interpret too) and roots, \<open>Mpz_Gcd\<close> the binary and Lehmer algorithms, \<open>Mpz_String\<close> the
  decimal strings. \<open>None\<close> is a trap, a null pointer or a loop that does not return. Powers need an exponent
  below \<open>2 ^ 31\<close> and roots a number below \<open>2 ^ 32\<close> bits (C22 to C30).

  \<^bold>\<open>Rationals\<close> (util/mpq.h, util/mpq.cpp). \<open>Mpq\<close>, \<open>Mpq_Sound\<close> and \<open>Mpq_String\<close>: pairs of integers with the
  invariant \<open>mpq_ok\<close> (lowest terms, positive denominator) and the value \<open>qval\<close>; arithmetic, comparisons,
  rounding, powers, roots, decimal output, and the reader of strings, whose exceptions are the values of
  \<open>mpq_error\<close> (C31 to C33).

  \<^bold>\<open>Union-find\<close> (util/union_find.h, util/trail.h). \<open>Union_Find\<close> has the three vectors and their
  invariant, \<open>Union_Find_Merge\<close> the interface \<open>merger\<close> of a merge operation and \<^verbatim>\<open>basic_union_find\<close>,
  \<open>Union_Find_Trail\<close> the class with its trail stack, the step relation of its clients, and the fact that
  popping a scope restores the state exactly. Searches follow parent links without a bound, as
  \<open>partial_function (option)\<close>; that they return is part of the invariant (C34 to C36).

  \<^bold>\<open>Heap and decision queue\<close> (util/heap.h, sat/sat_var_queue.h, the activities of sat/sat_solver.h
  and sat_solver.cpp). \<open>Heap\<close> and \<open>Heap_Sound\<close> verify the binary heap for every comparison that meets
  the locale \<open>weak_order\<close>; \<open>Sat_Var_Queue\<close> interprets it on the order by activity. The increase of
  an activity is unsigned 32-bit addition, and C38 asks that it does not wrap (C37 to C38).

  \<^bold>\<open>Interval arithmetic\<close> (smt/old_interval.h, smt/old_interval.cpp, and the joins of
  util/dependency.h). \<open>Old_Interval\<close> and \<open>Old_Interval_Sound\<close>: extended rationals, intervals with open and
  closed ends, and the assumptions that justify each end. Whether two dependency pointers are the
  same is the parameter \<open>same\<close>, which may only identify equal dependencies (\<open>address_eq\<close>). Ends are
  bounds of the results under their own assumptions (C39 to C40), but not for a zero left operand of a product or a quotient (\<open>zero_interval_dependency_too_weak\<close>).

  \<^bold>\<open>Reading the models.\<close> Errors are values: \<open>BR_FAILED\<close>, \<open>mpn_error\<close>, and \<open>None\<close> where the code
  reads outside a vector, does not return, or reaches an assertion that later code relies on. Other assertions
  are the hypotheses of the theorems; so the signs of the operands of the bitwise operations are not checked in their models. Apart from \<^verbatim>\<open>local_ctx_simp\<close> no fuel is used: a
  loop is structural recursion, a \<open>function\<close> with a measure, or a \<open>partial_function\<close> with a theorem
  that it returns.

  \<^bold>\<open>Not modelled.\<close> Hash-consing and reference counts of terms, quantifiers and the other term
  families; the traversal of bit_blaster_rewriter.cpp; tracing, statistics, memory limits and
  cancellation; \<^verbatim>\<open>mk_sdiv_srem_smod\<close>, which nothing calls, and the encoder under \<^verbatim>\<open>#else\<close>; handlers
  of a union-find context other than the default one; linearisation of dependencies; of the integers
  and rationals the GMP variant, hash codes, conversion to floating point, capacities of digit
  vectors, locks, and calls whose result overwrites an operand that is still to be read. The search
  engines smt, muz, nlsat and qe, the preprocessing of sat, polynomials, tactics, parsers and the API are left to later
  work; Boogie and the scripts are not C++.
\<close>

section \<open>The SAT solver\<close>

text \<open>C1. The search always returns from a state reached by adding variables and clauses, propagating, deciding,
  resolving conflicts, searching and restarting. If it answers \<open>l_false\<close>, the clauses added have no model; if
  it answers \<open>l_true\<close>, the model stored satisfies all of them and passes \<^verbatim>\<open>check_model\<close>; it answers
  \<open>l_undef\<close> only when a limit on conflicts is exceeded.\<close>

theorem bounded_search_decides:
  assumes "sat_reach F n s"
  shows "\<exists>r s'. bounded_search s = Some (r, s') \<and> (r = l_false \<longrightarrow> \<not> (\<exists>\<alpha>. models \<alpha> F))
    \<and> (r = l_true \<longrightarrow> models (model_of (m_model s')) F \<and> check_model s' (m_model s'))
    \<and> (r = l_undef \<longrightarrow> m_max_conflicts (m_config s') < m_conflicts (heu s')
                        \<or> m_restart_threshold (heu s') < m_conflicts_since_restart (heu s'))"
  using bounded_search_ok[of F n s] reach_inv[OF assms] unfolding search_post_def gave_up_def by (auto simp: entails_def)

lemma bounded_search_decides_witness:
  "\<exists>r s'. bounded_search sample_solver = Some (r, s') \<and> r \<noteq> l_false \<and> (r = l_true \<longrightarrow> models (model_of (m_model s')) {[0, 3]})"
proof -
  have "models (\<lambda>v. True) {[0, 3]}" by (simp add: models_def lit_holds_def lit_simps)
  then show ?thesis using bounded_search_decides[OF sample_solver_reach] by metis
qed

text \<open>C2. Unit propagation returns. In every model of the clauses in which the decisions hold, all literals it
  assigns hold, and then it reports no conflict. When it reports none, every clause of the solver has a true
  literal or two unassigned ones, and the partner of a true literal in a binary clause is true.\<close>

theorem propagate_sound_and_complete:
  assumes "sat_reach F n s"
  shows "\<exists>ok s'. propagate update s = Some (ok, s') \<and> inconsistent s' = (\<not> ok)
    \<and> (\<forall>\<alpha>. models \<alpha> F \<and> (\<forall>l \<in> decisions s'. lit_holds \<alpha> l) \<longrightarrow> ok \<and> (\<forall>l \<in> set (m_trail (asg s')). lit_holds \<alpha> l))
    \<and> (ok \<longrightarrow> (\<forall>c \<in> set (m_cls_allocator (cdb s')). clause_open s' (c_lits c))
         \<and> (\<forall>l \<in> set (m_trail (asg s')). \<forall>x b. W_BINARY x b \<in> set (m_watches (cdb s') ! l) \<longrightarrow> lit_value s' x = l_true))"
proof -
  have inv: "sat_inv F n s" using reach_inv[OF assms] by blast
  from sat_inv_propagate[OF inv, of update] obtain ok s' where r: "propagate update s = Some (ok, s')" "sat_inv F n s'"
    and ok: "inconsistent s' = (\<not> ok)" "ok \<longrightarrow> m_qhead (asg s') = length (tr s')" by blast
  have s': "settled F n s'" using r(2) by (simp add: sat_inv_def)
  note d = settledD[OF s']
  have tv: "lit_value s' x = l_true" if "x \<in> set (tr s')" for x
    using value_iff(1)[OF d(2) trail_okD(6)[OF d(2) that]] that by (simp add: lit_value_def)
  have "ok \<longrightarrow> (\<forall>c \<in> set (lits s'). clause_open s' c)
      \<and> (\<forall>l \<in> set (tr s'). \<forall>x b. W_BINARY x b \<in> set (wl s' ! l) \<longrightarrow> lit_value s' x = l_true)"
    using propagated_open[OF s'] binary_true[OF s'] tv ok by blast
  then show ?thesis using r(1) ok(1) decisions_imply[OF s'] by (auto intro!: exI[of _ ok] exI[of _ s'])
qed

lemma propagate_sound_and_complete_witness:
  "\<exists>s'. propagate True sample_solver = Some (True, s') \<and> (\<forall>c \<in> set (m_cls_allocator (cdb s')). clause_open s' (c_lits c))"
proof -
  have "propagate True sample_solver = Some (True, sample_solver)"
    using sample_solver_state by (subst propagate_def, subst propagate_loop.simps) simp
  then show ?thesis using propagate_sound_and_complete[OF sample_solver_reach, of True] by auto
qed

text \<open>C3. Conflict resolution returns. It fails only at level 0, and then the clauses added have no model;
  otherwise it jumps back to an earlier level, ends without a conflict, and the trail is the part
  before that level's next decision with one more literal, whose negation was true at the conflict.\<close>

theorem resolve_conflict_jumps_back:
  assumes "sat_reach F n s" "inconsistent s"
  shows "\<exists>r s'. resolve_conflict s = Some (r, s') \<and> r = (0 < scope_lvl s) \<and> inconsistent s' = (\<not> r)
    \<and> (\<not> r \<longrightarrow> \<not> (\<exists>\<alpha>. models \<alpha> F))
    \<and> (r \<longrightarrow> scope_lvl s' < scope_lvl s
         \<and> (\<exists>x. neg_lit x \<in> set (m_trail (asg s))
              \<and> m_trail (asg s') = take (m_trail_lim (sat_assignment.m_scopes (asg s) ! scope_lvl s')) (m_trail (asg s)) @ [x]))"
proof -
  have inv: "sat_inv F n s" using reach_inv[OF assms(1)] by blast
  from resolve_conflict_ok[OF inv assms(2)] obtain r s' where r: "resolve_conflict s = Some (r, s')"
    and p: "if r then \<not> inconsistent s' else entails F {} \<and> inconsistent s' \<and> scope_lvl s' = 0" "r \<longrightarrow> backjump s s'"
    unfolding resolve_post_def by blast
  have "r = (0 < scope_lvl s)" using resolve_conflict_lvl[OF inv assms(2) r] .
  then show ?thesis using r p by (cases r) (auto simp: backjump_def entails_def)
qed

lemma resolve_conflict_jumps_back_witness:
  "\<exists>s s1. sat_reach four_clauses 2 s \<and> scope_lvl s = 1 \<and> resolve_conflict s = Some (True, s1) \<and> scope_lvl s1 = 0"
proof -
  obtain s where s: "sat_reach four_clauses 2 s" "inconsistent s" "scope_lvl s = 1"
    using clash_conflict by blast
  then show ?thesis using resolve_conflict_jumps_back[OF s(1,2)] by auto
qed

text \<open>C4. In every state reached the solver's invariant holds: the trail is consistent with the assignment,
  the levels and the scopes; every literal on it has a reason (at level 0 it follows from the clauses added, a decision
  opens its scope, a propagated literal is the only one of its reason that is not falsified before it); every clause, binary watch and
  learned lemma follows from the clauses added, and is found in the watch lists of the negations of its
  watched literals; the literals processed have been propagated; no clause added is lost; a
  conflict recorded follows from literals of the trail; and all unassigned variables wait in the queue.\<close>

theorem reachable_states_are_sound:
  assumes "sat_reach F n s"
  shows "sat_inv F n s"
  using reach_inv[OF assms] by blast

lemma reachable_states_are_sound_witness:
  "sat_inv {[0, 3]} 2 sample_solver \<and> sat_inv four_clauses 2 clash_solver"
  using reachable_states_are_sound[OF sample_solver_reach] reachable_states_are_sound[OF clash_solver_reach] by blast

text \<open>C5. Deciding a literal, propagating it, with or without a conflict, and popping its scope restores the
  trail, the assignment, the scopes and the head of the propagation queue, removes the conflict, and
  leaves every clause with the same literals, in a state that meets the invariant.\<close>

theorem pop_undoes_decision:
  assumes "sat_reach F n s" "\<not> inconsistent s" "m_qhead (asg s) = length (m_trail (asg s))"
    and "decide s = Some (True, s1)" "propagate u s1 = Some (ok, s2)"
  shows "let s3 = sat_pop 1 s2 in
    m_trail (asg s3) = m_trail (asg s) \<and> m_assignment (asg s3) = m_assignment (asg s) \<and> sat_assignment.m_scopes (asg s3) = sat_assignment.m_scopes (asg s)
    \<and> scope_lvl s3 = scope_lvl s \<and> m_qhead (asg s3) = m_qhead (asg s) \<and> \<not> inconsistent s3
    \<and> map (set \<circ> c_lits) (m_cls_allocator (cdb s3)) = map (set \<circ> c_lits) (m_cls_allocator (cdb s)) \<and> sat_inv F n s3"
proof -
  have inv: "sat_inv F n s" using reach_inv[OF assms(1)] by blast
  from decide_ok[OF inv assms(2,3)] assms(4) have inv1: "sat_inv F n s1" and o: "opens_scope n s s1"
    by (auto simp: decide_post_def)
  from inv1 have "settled F n s1" by (simp add: sat_inv_def)
  from propagate_correct[OF this, of u] assms(5) have p: "progress (wl s1) s1 (wl s2) s2" by (auto simp: propagate_post_def)
  from sat_inv_propagate[OF inv1, of u] assms(5) have inv2: "sat_inv F n s2" by auto
  show ?thesis using pop_decision[OF inv assms(3) o inv2 p refl] by (simp add: Let_def)
qed

lemma pop_undoes_decision_witness:
  "\<exists>s1 ok s2. decide clash_solver = Some (True, s1) \<and> propagate True s1 = Some (ok, s2) \<and> m_trail (asg (sat_pop 1 s2)) = []"
proof -
  have inv: "sat_inv four_clauses 2 clash_solver" using reach_inv[OF clash_solver_reach] by blast
  have q: "m_qhead (asg clash_solver) = length (m_trail (asg clash_solver))" using clash_solver_state by simp
  from clash_decides obtain s1 where d: "decide clash_solver = Some (True, s1)" by blast
  with decide_ok[OF inv clash_solver_state(1) q] have "sat_inv four_clauses 2 s1" by (auto simp: decide_post_def)
  from sat_inv_propagate[OF this, of True] obtain ok s2 where p: "propagate True s1 = Some (ok, s2)" by blast
  then show ?thesis using pop_undoes_decision[OF clash_solver_reach clash_solver_state(1) q d p] clash_solver_state(2) d
    by (auto simp: Let_def)
qed

text \<open>C6. The clauses the solver holds (allocated clauses, binary watches and literals true at level 0) have
  the same models as the clauses added, learning and simplification included, unless the solver is
  inconsistent at level 0, and then the clauses added have none.\<close>

theorem solver_clauses_equivalent:
  assumes "sat_reach F n s"
  shows "if inconsistent s \<and> scope_lvl s = 0 then \<not> (\<exists>\<alpha>. models \<alpha> F)
    else models \<alpha> (solver_clauses s) = models \<alpha> F"
proof -
  have inv: "sat_inv F n s" and lt: "\<forall>d \<in> F. \<forall>l \<in> set d. l < 2 * n" using reach_inv[OF assms] by simp_all
  have "settled F n s" using inv by (simp add: sat_inv_def)
  from root_conflict[OF this] solver_clauses_refine[OF inv lt] show ?thesis by (auto simp: entails_def)
qed

lemma solver_clauses_equivalent_witness:
  "\<forall>\<alpha>. models \<alpha> (solver_clauses sample_solver) = models \<alpha> {[0, 3]}"
  using solver_clauses_equivalent[OF sample_solver_reach] sample_solver_state(1) by simp



section \<open>The Boolean rewriter\<close>

text \<open>The interpretation the examples use: atom 0 is true, every other atom is false, and every value
  is its own element.\<close>

definition sample :: interp where
  "sample = \<lparr>atom_val = (\<lambda>n. n = 0), const_val = (\<lambda>s n. n), value_val = (\<lambda>s n. n)\<rparr>"

lemma sample_val [simp]: "atom_val sample n = (n = 0)" "const_val sample s n = n" "value_val sample s n = n"
  by (simp_all add: sample_def)

lemma sample_faithful: "faithful default_plugins sample"
  by (simp add: faithful_def obeys_default canonical_def)

text \<open>C8. The dispatcher of the rewriter is sound for every basic operator, every parameter setting and all
  plugins: whenever it does not answer \<^verbatim>\<open>BR_FAILED\<close>, its result is a well-sorted term with the
  value of the operator's application in every interpretation, which for \<^verbatim>\<open>distinct\<close> obeys the answers
  of the plugins, and for the equality of terms of any sort also gives different values different
  elements (the operators on Boolean terms need neither).\<close>

theorem mk_app_core_preserves_meaning:
  assumes "op_ok f args" "mk_app_core rw f args = (st, rw')" "st \<noteq> BR_FAILED"
    and "f = OP_DISTINCT \<or> f = OP_EQ \<Longrightarrow> obeys (m_manager rw) I" "f = OP_EQ \<Longrightarrow> canonical I"
  shows "ws (br_result st ETrue) \<and> eval I (br_result st ETrue) = op_eval I f args"
  using mk_app_core_sound[OF assms(1), of rw] assms(2-5) by (simp add: app_ok_def admits_def faithful_def)

lemma mk_app_core_preserves_meaning_witness:
  "eval sample (br_result (fst (mk_app_core default_rewriter OP_EQ [EValue 1 2, EValue 1 3])) ETrue) = VBool False"
proof -
  obtain st rw' where s: "mk_app_core default_rewriter OP_EQ [EValue 1 2, EValue 1 3] = (st, rw')" by fastforce
  then have "st = BR_DONE EFalse"
    by (simp add: mk_app_core_def mk_eq_core.simps are_equal_def are_distinct_def default_rewriter_def default_plugins_def is_value_def)
  moreover have "obeys (m_manager default_rewriter) sample" "canonical sample"
    using sample_faithful by (simp_all add: faithful_def default_rewriter_def)
  ultimately show ?thesis
    using mk_app_core_preserves_meaning[of OP_EQ "[EValue 1 2, EValue 1 3]" default_rewriter st rw' sample] s by simp
qed

text \<open>C9. Disjunction and conjunction builders, with flattening, local-context simplification and
  and-elimination switched in any way and whatever cost the state has accumulated: the result is a
  well-sorted formula equivalent to the disjunction (conjunction) of the arguments.\<close>

theorem mk_or_and_equivalent:
  assumes "\<forall>x \<in> set args. fml x"
  shows "fml (fst (mk_or rw args)) \<and> holds I (fst (mk_or rw args)) = (\<exists>x \<in> set args. holds I x)
       \<and> fml (fst (mk_and rw args)) \<and> holds I (fst (mk_and rw args)) = (\<forall>x \<in> set args. holds I x)"
  using assms by simp

lemma mk_or_and_equivalent_witness:
  "holds sample (fst (mk_or (default_rewriter\<lparr>m_local_ctx := True\<rparr>) [EAtom 0, EOr [EAtom 1, ENot (EAtom 0)]]))"
  using mk_or_and_equivalent[of "[EAtom 0, EOr [EAtom 1, ENot (EAtom 0)]]" "default_rewriter\<lparr>m_local_ctx := True\<rparr>" sample]
  by simp

text \<open>C10. The local-context loop, which the code repeats until a pass changes nothing, stops: with
  fuel above the weight of its arguments it returns, and the driver's fuel is that weight plus one.\<close>

theorem local_ctx_loop_returns:
  assumes "\<forall>x \<in> set args. fml x" "wts args < n"
  shows "\<exists>r. local_ctx_loop n rw simp args = Some r"
  using local_ctx_loop_terminates[OF assms] by auto

lemma local_ctx_loop_returns_witness:
  "\<exists>r. local_ctx_loop 20 default_rewriter False [EAtom 0, EIte (EAtom 0) (EAtom 1) (EAtom 2)] = Some r"
  using local_ctx_loop_returns[of "[EAtom 0, EIte (EAtom 0) (EAtom 1) (EAtom 2)]" 20] by simp

text \<open>C11. The if-then-else builder, with all its rules (nested conditions, Boolean branches, the
  extra rules, value branches), returns a well-sorted term of the sort of the branches with the value
  of the chosen branch.\<close>

theorem mk_ite_equivalent:
  assumes "ws c" "is_bool c" "ws t" "ws e" "get_sort t = get_sort e"
  shows "ws (fst (mk_ite rw c t e)) \<and> get_sort (fst (mk_ite rw c t e)) = get_sort t
       \<and> eval I (fst (mk_ite rw c t e)) = (if holds I c then eval I t else eval I e)"
  using mk_ite_sound[of c t e rw] assms by (auto simp: ites_def ite_args_def fml_def)

lemma mk_ite_equivalent_witness:
  "eval sample (fst (mk_ite default_rewriter (ENot (EAtom 0)) (EConst 1 7) (EValue 1 5))) = VElem 1 5"
  using mk_ite_equivalent[of "ENot (EAtom 0)" "EConst 1 7" "EValue 1 5" default_rewriter sample] by simp

text \<open>C12. Equality and negation are rewritten by three mutually recursive functions, whatever the plugins
  answer. Negations, and equalities of Boolean terms, keep their meaning in every interpretation;
  equalities of another sort keep it in those that obey the answers of the plugins and give
  different values different elements, which the rules for values of an if-then-else rely on
  (\<open>mk_eq_misses_equal_values\<close> shows that they need it).\<close>

theorem mk_eq_mk_not_equivalent:
  assumes "ws l" "ws r" "get_sort l = get_sort r" "fml t"
    and "get_sort l \<noteq> BoolSort \<Longrightarrow> obeys (m_manager rw) I \<and> canonical I"
  shows "fml (mk_eq rw l r) \<and> (holds I (mk_eq rw l r) \<longleftrightarrow> eval I l = eval I r)
       \<and> fml (mk_not rw t) \<and> (holds I (mk_not rw t) \<longleftrightarrow> \<not> holds I t)"
  using equates_mk_eq[OF assms(1-3), of rw] assms(4,5) by (auto simp: equates_def faithful_def)

lemma mk_eq_mk_not_equivalent_witness:
  "holds sample (mk_eq default_rewriter (EIte (EAtom 0) (EValue 1 2) (EValue 1 3)) (EValue 1 2))
   \<and> \<not> holds sample (mk_not default_rewriter (EEq (EAtom 1) (EAtom 2)))"
proof -
  have "obeys (m_manager default_rewriter) sample" "canonical sample"
    using sample_faithful by (simp_all add: faithful_def default_rewriter_def)
  then show ?thesis
    using mk_eq_mk_not_equivalent[of "EIte (EAtom 0) (EValue 1 2) (EValue 1 3)" "EValue 1 2"
        "EEq (EAtom 1) (EAtom 2)" default_rewriter sample] by simp
qed

section \<open>The bit-blaster: arithmetic\<close>

text \<open>C13. The multiplier, through its three circuits (Booth recoding of a constant operand,
  carry-save array, Wallace tree) and for both of the program's configurations, computes the product
  modulo \<open>2 ^ n\<close>.\<close>

theorem mk_multiplier_computes_product:
  assumes "blaster_instance T" "fmls as" "fmls bs" "length as = length bs" "as \<noteq> []"
  shows "length (mk_multiplier T as bs) = length as \<and> fmls (mk_multiplier T as bs)
       \<and> uval I (mk_multiplier T as bs) = uval I as * uval I bs mod 2 ^ length as"
  using assms bb_mul.mk_multiplier_correct[OF assms(2-5), of I] blaster_mul.mk_multiplier_correct[OF assms(2-5), of I]
  by (auto simp: is_product_def elim!: blaster_instance.cases)

lemma mk_multiplier_computes_product_witness:
  "uval sample (mk_multiplier blaster [EAtom 0, ETrue, EAtom 1] [EAtom 0, EAtom 2, EAtom 0]) = 7"
  using mk_multiplier_computes_product[of blaster "[EAtom 0, ETrue, EAtom 1]" "[EAtom 0, EAtom 2, EAtom 0]" sample]
  by simp

text \<open>C14. The restoring divider: quotient and remainder of unsigned division, with the results
  of the bit-vector standard (all ones, the dividend) when the divisor is zero.\<close>

theorem mk_udiv_urem_computes_division:
  assumes "blaster_instance T" "fmls as" "fmls bs" "length as = length bs" "as \<noteq> []"
  shows "fmls (mk_udiv T as bs) \<and> length (mk_udiv T as bs) = length as
       \<and> uval I (mk_udiv T as bs) = (if uval I bs = 0 then 2 ^ length as - 1 else uval I as div uval I bs)
       \<and> fmls (mk_urem T as bs) \<and> length (mk_urem T as bs) = length as
       \<and> uval I (mk_urem T as bs) = (if uval I bs = 0 then uval I as else uval I as mod uval I bs)"
  using assms bb_tpl.mk_udiv_urem_correct[OF assms(2-5)] blaster_tpl.mk_udiv_urem_correct[OF assms(2-5)]
  by (auto elim!: blaster_instance.cases)

lemma mk_udiv_urem_computes_division_witness:
  "uval sample (mk_udiv blaster [EAtom 0, EAtom 0, EAtom 0] [EAtom 0, EAtom 0, EAtom 2]) = 2
   \<and> uval sample (mk_urem blaster [EAtom 0, EAtom 0, EAtom 0] [EAtom 0, EAtom 0, EAtom 2]) = 1"
  using mk_udiv_urem_computes_division[of blaster "[EAtom 0, EAtom 0, EAtom 0]" "[EAtom 0, EAtom 0, EAtom 2]" sample]
  by simp

text \<open>Signed division truncates towards zero; division by zero gives 1 or -1 and the one
  overflowing case (the least value by -1) wraps.\<close>

lemma mk_sdiv_computes_truncated_division:
  assumes "blaster_instance T" "fmls as" "fmls bs" "length as = length bs" "as \<noteq> []"
  shows "fmls (mk_sdiv T as bs) \<and> length (mk_sdiv T as bs) = length as
       \<and> int (uval I (mk_sdiv T as bs)) = sdiv_spec (sval I as) (sval I bs) mod 2 ^ length as"
  using assms bb_tpl.mk_sdiv_correct[OF assms(2-5)] blaster_tpl.mk_sdiv_correct[OF assms(2-5)]
  by (auto elim!: blaster_instance.cases)

lemma mk_sdiv_computes_truncated_division_witness:
  "uval sample (mk_sdiv blaster [EAtom 0, EAtom 1, EAtom 0] [EAtom 1, EAtom 0, EAtom 2]) = 7"
  using mk_sdiv_computes_truncated_division[of blaster "[EAtom 0, EAtom 1, EAtom 0]" "[EAtom 1, EAtom 0, EAtom 2]" sample]
  by (simp add: sdiv_spec_def sbv_def)

text \<open>Signed remainder has the sign of the dividend, also for the power-of-two divisors the
  code treats apart.\<close>

lemma mk_srem_computes_remainder:
  assumes "blaster_instance T" "fmls as" "fmls bs" "length as = length bs" "as \<noteq> []"
  shows "fmls (mk_srem T as bs) \<and> length (mk_srem T as bs) = length as
       \<and> int (uval I (mk_srem T as bs)) = srem_spec (sval I as) (sval I bs) mod 2 ^ length as"
  using assms bb_tpl.mk_srem_correct[OF assms(2-5)] blaster_tpl.mk_srem_correct[OF assms(2-5)]
  by (auto elim!: blaster_instance.cases)

lemma mk_srem_computes_remainder_witness:
  "uval sample (mk_srem blaster [EAtom 0, EAtom 1, EAtom 0] [EFalse, ETrue, EFalse]) = 7"
  using mk_srem_computes_remainder[of blaster "[EAtom 0, EAtom 1, EAtom 0]" "[EFalse, ETrue, EFalse]" sample]
  by (simp add: srem_spec_def sbv_def)

text \<open>Signed modulus is the integer modulus: it has the sign of the divisor.\<close>

lemma mk_smod_computes_modulus:
  assumes "blaster_instance T" "fmls as" "fmls bs" "length as = length bs" "as \<noteq> []"
  shows "fmls (mk_smod T as bs) \<and> length (mk_smod T as bs) = length as
       \<and> int (uval I (mk_smod T as bs)) = (sval I as mod sval I bs) mod 2 ^ length as"
  using assms bb_tpl.mk_smod_correct[OF assms(2-5)] blaster_tpl.mk_smod_correct[OF assms(2-5)]
  by (auto elim!: blaster_instance.cases)

lemma mk_smod_computes_modulus_witness:
  "uval sample (mk_smod blaster [EAtom 0, EAtom 0, EAtom 1] [EAtom 1, EAtom 0, EAtom 0]) = 7"
  using mk_smod_computes_modulus[of blaster "[EAtom 0, EAtom 0, EAtom 1]" "[EAtom 1, EAtom 0, EAtom 0]" sample]
  by (simp add: sbv_def)

text \<open>C15. Signed division truncates towards zero, signed remainder has the sign of the dividend (also on
  the path for power-of-two divisors) and signed modulus has the sign of the divisor; all three with
  the standard's results for a zero divisor and for the overflowing quotient.\<close>

theorem signed_division_standard:
  assumes "blaster_instance T" "fmls as" "fmls bs" "length as = length bs" "as \<noteq> []"
  shows "int (uval I (mk_sdiv T as bs)) = sdiv_spec (sval I as) (sval I bs) mod 2 ^ length as
       \<and> int (uval I (mk_srem T as bs)) = srem_spec (sval I as) (sval I bs) mod 2 ^ length as
       \<and> int (uval I (mk_smod T as bs)) = (sval I as mod sval I bs) mod 2 ^ length as"
  using mk_sdiv_computes_truncated_division[OF assms] mk_srem_computes_remainder[OF assms]
    mk_smod_computes_modulus[OF assms] by blast

lemma signed_division_standard_witness:
  "uval sample (mk_sdiv blaster [EAtom 0, EAtom 1, EAtom 0] [EAtom 1, EAtom 0, EAtom 2]) = 7
   \<and> uval sample (mk_srem blaster [EAtom 0, EAtom 1, EAtom 0] [EFalse, ETrue, EFalse]) = 7"
  using signed_division_standard[of blaster "[EAtom 0, EAtom 1, EAtom 0]" "[EAtom 1, EAtom 0, EAtom 2]" sample]
    signed_division_standard[of blaster "[EAtom 0, EAtom 1, EAtom 0]" "[EFalse, ETrue, EFalse]" sample]
  by (simp add: sdiv_spec_def srem_spec_def sbv_def)

lemma instance_gates: "blaster_instance T \<Longrightarrow> gates T"
  using bb_tpl.gates_axioms blaster_tpl.gates_axioms by (auto elim: blaster_instance.cases)

lemma int_diff_mod:
  assumes "a < m" "b < m"
  shows "(int a - int b) mod int m = int (if b \<le> a then a - b else a + m - b)"
proof (cases "b \<le> a")
  case False
  have "(int a - int b) mod int m = (int a - int b + int m) mod int m" by simp
  also have "\<dots> = int a - int b + int m" using False assms by (intro mod_pos_pos_trivial) auto
  finally show ?thesis using False assms by (simp add: of_nat_diff)
qed (use assms in \<open>auto simp: of_nat_diff\<close>)

text \<open>C16. Ripple-carry addition, subtraction (whose last carry says whether there was no borrow)
  and negation are arithmetic modulo \<open>2 ^ n\<close>; the absolute value is exact.\<close>

theorem mk_adder_subtracter_neg_arithmetic:
  assumes "blaster_instance T" "fmls as" "fmls bs" "length as = length bs" "as \<noteq> []"
  shows "uval I (mk_adder T as bs) = (uval I as + uval I bs) mod 2 ^ length as
       \<and> int (uval I (fst (mk_subtracter T as bs))) = (int (uval I as) - int (uval I bs)) mod 2 ^ length as
       \<and> (holds I (snd (mk_subtracter T as bs)) \<longleftrightarrow> uval I bs \<le> uval I as)
       \<and> int (uval I (mk_neg T as)) = - int (uval I as) mod 2 ^ length as
       \<and> int (uval I (mk_abs T as)) = \<bar>sval I as\<bar>"
proof -
  note g = instance_gates[OF assms(1)]
  have lt: "uval I as < 2 ^ length as" "uval I bs < 2 ^ length as"
    using bv_less[of "map (holds I) as"] bv_less[of "map (holds I) bs"] assms(4) by simp_all
  have sub: "int (uval I (fst (mk_subtracter T as bs))) = (int (uval I as) - int (uval I bs)) mod 2 ^ length as"
    using gates.mk_subtracter_correct(4)[OF g assms(2-4), of I] int_diff_mod[OF lt] by simp
  have neg: "int (uval I (mk_neg T as)) = - int (uval I as) mod 2 ^ length as"
    using gates.mk_neg_correct(2)[OF g assms(2), of I] int_neg_mod[of "uval I as" "length as"] lt by simp
  show ?thesis
    using gates.mk_adder_correct(2)[OF g assms(2,3), of I] gates.mk_subtracter_correct(3)[OF g assms(2-4), of I]
      gates.mk_abs_correct(2)[OF g assms(2,5), of I] sub neg assms(4) by simp
qed

lemma mk_adder_subtracter_neg_arithmetic_witness:
  "uval sample (mk_adder blaster [EAtom 0, EAtom 0] [EAtom 1, EAtom 0]) = 1
   \<and> \<not> holds sample (snd (mk_subtracter blaster [EAtom 0, EAtom 1] [EAtom 1, EAtom 0]))"
  using mk_adder_subtracter_neg_arithmetic[of blaster "[EAtom 0, EAtom 0]" "[EAtom 1, EAtom 0]" sample]
    mk_adder_subtracter_neg_arithmetic[of blaster "[EAtom 0, EAtom 1]" "[EAtom 1, EAtom 0]" sample]
  by simp

text \<open>C17. Unsigned and signed comparison agree with the order of the operands' values.\<close>

theorem mk_ule_sle_compare:
  assumes "blaster_instance T" "fmls as" "fmls bs" "length as = length bs" "as \<noteq> []"
  shows "fml (mk_ule T as bs) \<and> (holds I (mk_ule T as bs) \<longleftrightarrow> uval I as \<le> uval I bs)
       \<and> fml (mk_sle T as bs) \<and> (holds I (mk_sle T as bs) \<longleftrightarrow> sval I as \<le> sval I bs)"
  using assms(1)
  by cases (simp_all add: bb_tpl.mk_ule_correct[OF assms(2-5)]
      blaster_tpl.mk_ule_correct[OF assms(2-5)] bb_tpl.mk_sle_correct[OF assms(2-5)]
      blaster_tpl.mk_sle_correct[OF assms(2-5)])

lemma mk_ule_sle_compare_witness:
  "\<not> holds sample (mk_ule blaster [EAtom 1, EAtom 0] [EAtom 0, EAtom 1])
   \<and> holds sample (mk_sle blaster [EAtom 1, EAtom 0] [EAtom 0, EAtom 1])"
  using mk_ule_sle_compare[of blaster "[EAtom 1, EAtom 0]" "[EAtom 0, EAtom 1]" sample]
  by (simp add: sbv_def)

text \<open>Equality of two vectors, and of a vector with a number. The latter compares with the
  number modulo \<open>2 ^ n\<close>.\<close>

lemma mk_eq_bits_is_eq_compare:
  assumes "blaster_instance T" "fmls as" "fmls bs" "length as = length bs"
  shows "fml (mk_eq_bits T as bs) \<and> (holds I (mk_eq_bits T as bs) \<longleftrightarrow> uval I as = uval I bs)
       \<and> fml (mk_is_eq T as n) \<and> (holds I (mk_is_eq T as n) \<longleftrightarrow> uval I as = n mod 2 ^ length as)"
  using assms(1)
  by cases (simp_all add: bb_tpl.mk_eq_bits_correct[OF assms(2-4)]
      blaster_tpl.mk_eq_bits_correct[OF assms(2-4)] bb_tpl.mk_is_eq_correct[OF assms(2)]
      blaster_tpl.mk_is_eq_correct[OF assms(2)])

lemma mk_eq_bits_is_eq_compare_witness:
  "holds sample (mk_is_eq blaster [EAtom 0, EAtom 1] 5)
   \<and> \<not> holds sample (mk_eq_bits blaster [EAtom 0, EAtom 1] [EAtom 0, EAtom 0])"
  using mk_eq_bits_is_eq_compare[of blaster "[EAtom 0, EAtom 1]" "[EAtom 0, EAtom 0]" sample 5]
  by simp

section \<open>The bit-blaster: shifts and rotations\<close>

text \<open>Left and logical right shift by a vector, for constant and symbolic amounts: the
  amounts beyond the width give zero.\<close>

lemma mk_shl_lshr_shift:
  assumes "blaster_instance T" "fmls as" "fmls bs" "length as = length bs"
  shows "fmls (mk_shl T as bs) \<and> length (mk_shl T as bs) = length as
       \<and> uval I (mk_shl T as bs) = uval I as * 2 ^ uval I bs mod 2 ^ length as
       \<and> fmls (mk_lshr T as bs) \<and> length (mk_lshr T as bs) = length as
       \<and> uval I (mk_lshr T as bs) = uval I as div 2 ^ uval I bs"
  using assms(1)
  by cases (simp_all add: bb_tpl.mk_shl_correct[OF assms(2-4)]
      blaster_tpl.mk_shl_correct[OF assms(2-4)] bb_tpl.mk_lshr_correct[OF assms(2-4)]
      blaster_tpl.mk_lshr_correct[OF assms(2-4)])

lemma mk_shl_lshr_shift_witness:
  "uval sample (mk_shl blaster [EAtom 0, EAtom 0, EAtom 0] [EAtom 0, EAtom 1, EAtom 2]) = 6
   \<and> uval sample (mk_lshr blaster [EAtom 0, EAtom 0, EAtom 0] [EAtom 0, EAtom 1, EAtom 2]) = 3"
  using mk_shl_lshr_shift[of blaster "[EAtom 0, EAtom 0, EAtom 0]" "[EAtom 0, EAtom 1, EAtom 2]" sample]
  by simp

text \<open>Arithmetic right shift divides the signed value, rounding down.\<close>

lemma mk_ashr_divides:
  assumes "blaster_instance T" "fmls as" "fmls bs" "length as = length bs" "as \<noteq> []"
  shows "fmls (mk_ashr T as bs) \<and> length (mk_ashr T as bs) = length as
       \<and> sval I (mk_ashr T as bs) = sval I as div 2 ^ uval I bs"
  using assms(1)
  by cases (simp_all add: bb_tpl.mk_ashr_correct[OF assms(2-5)]
      blaster_tpl.mk_ashr_correct[OF assms(2-5)])

lemma mk_ashr_divides_witness:
  "sval sample (mk_ashr blaster [EAtom 0, EAtom 1, EAtom 0] [EAtom 0, EAtom 1, EAtom 2]) = - 2"
  using mk_ashr_divides[of blaster "[EAtom 0, EAtom 1, EAtom 0]" "[EAtom 0, EAtom 1, EAtom 2]" sample]
  by (simp add: sbv_def)

text \<open>C18. Shifts by a vector, for constant and symbolic amounts: left shift multiplies by the power of
  two modulo \<open>2 ^ n\<close>, logical right shift divides the unsigned value, arithmetic right shift divides the
  signed value rounding down; amounts beyond the width are included.\<close>

theorem shifts_by_vector:
  assumes "blaster_instance T" "fmls as" "fmls bs" "length as = length bs" "as \<noteq> []"
  shows "uval I (mk_shl T as bs) = uval I as * 2 ^ uval I bs mod 2 ^ length as
       \<and> uval I (mk_lshr T as bs) = uval I as div 2 ^ uval I bs
       \<and> sval I (mk_ashr T as bs) = sval I as div 2 ^ uval I bs"
  using mk_shl_lshr_shift[OF assms(1-4)] mk_ashr_divides[OF assms] by blast

lemma shifts_by_vector_witness:
  "uval sample (mk_shl blaster [EAtom 0, EAtom 0, EAtom 0] [EAtom 0, EAtom 1, EAtom 2]) = 6
   \<and> sval sample (mk_ashr blaster [EAtom 0, EAtom 1, EAtom 0] [EAtom 0, EAtom 1, EAtom 2]) = - 2"
  using shifts_by_vector[of blaster "[EAtom 0, EAtom 0, EAtom 0]" "[EAtom 0, EAtom 1, EAtom 2]" sample]
    shifts_by_vector[of blaster "[EAtom 0, EAtom 1, EAtom 0]" "[EAtom 0, EAtom 1, EAtom 2]" sample]
  by (simp add: sbv_def)

text \<open>Rotation by a vector agrees with rotation by its value, in both directions.\<close>

lemma mk_ext_rotate_rotates:
  assumes "blaster_instance T" "fmls as" "fmls bs" "length as = length bs" "as \<noteq> []"
  shows "map (holds I) (mk_ext_rotate_left T as bs) = map (holds I) (mk_rotate_left as (uval I bs))
       \<and> map (holds I) (mk_ext_rotate_right T as bs) = map (holds I) (mk_rotate_right as (uval I bs))"
  using assms(1) by cases (simp_all
      add: mk_ext_rotate_left_def mk_ext_rotate_right_def bb_tpl.mk_ext_rotate_correct[OF assms(2-5)] blaster_tpl.mk_ext_rotate_correct[OF assms(2-5)])

lemma mk_ext_rotate_rotates_witness:
  "map (holds sample) (mk_ext_rotate_left blaster [EAtom 0, EAtom 1, EAtom 2] [EAtom 0, EAtom 1, EAtom 2])
     = map (holds sample) (mk_rotate_left [EAtom 0, EAtom 1, EAtom 2] 1)"
  using mk_ext_rotate_rotates[of blaster "[EAtom 0, EAtom 1, EAtom 2]" "[EAtom 0, EAtom 1, EAtom 2]" sample]
  by simp

text \<open>Rotating right by the same amount undoes a rotation to the left; a left rotation moves
  the high part of the value below the low part.\<close>

lemma mk_rotate_round_trip:
  "mk_rotate_right (mk_rotate_left as n) n = as
   \<and> uval I (mk_rotate_left as n) =
       uval I as div 2 ^ (length as - n mod length as)
       + 2 ^ (n mod length as) * (uval I as mod 2 ^ (length as - n mod length as))"
  using rotate_right_left[of as n] mk_rotate_left_uval[of I as n] by (simp add: Let_def)

text \<open>The bits of a number, read back by the recogniser of numerals, give the number; in
  general the bits recognised as the numeral \<open>v\<close> have the value \<open>v\<close> in every interpretation.\<close>

lemma num2bits_round_trip:
  assumes "v < 2 ^ n"
  shows "numeral_of (num2bits v n) = Some v \<and> uval I (num2bits v n) = v"
  using numeral_of_num2bits[OF assms] numeral_of_sound[OF numeral_of_num2bits[OF assms]] by simp

lemma num2bits_round_trip_witness: "numeral_of (num2bits 5 3) = Some 5"
  using num2bits_round_trip[of 5 3] by simp

text \<open>Sign extension keeps the signed value, zero extension the unsigned one.\<close>

lemma extensions_keep_value:
  assumes "as \<noteq> []"
  shows "sval I (mk_sign_extend as n) = sval I as \<and> length (mk_sign_extend as n) = length as + n
       \<and> uval I (mk_zero_extend (length as) as n) = uval I as"
  using mk_sign_extend_sval[OF assms, of I n] mk_zero_extend_uval[of I "length as" as n]
  by (simp add: mk_sign_extend_def)

lemma extensions_keep_value_witness: "sval sample (mk_sign_extend [EAtom 1, EAtom 0] 3) = - 2"
  using extensions_keep_value[of "[EAtom 1, EAtom 0]" sample 3] by (simp add: sbv_def)

text \<open>The case-splitting multiplier, which instantiates symbolic bits one by one with
  if-then-else, computes the product (the caller discards its result: see \<open>mk_const_multiplier\<close>).\<close>

lemma const_case_multiplier_computes_product:
  assumes "fmls as" "fmls bs" "length as = length bs"
  shows "is_product I (length as) (const_case_multiplier True 0 as bs) as bs"
  using const_case_multiplier_correct[of as bs 0 True I] assms by (simp add: known_bits_def)

lemma const_case_multiplier_computes_product_witness:
  "uval sample (const_case_multiplier True 0 [EAtom 0, EAtom 1] [EAtom 0, EAtom 0]) = 3"
  using const_case_multiplier_computes_product[of "[EAtom 0, EAtom 1]" "[EAtom 0, EAtom 0]" sample]
  by (simp add: is_product_def)

text \<open>C19. The overflow predicates of multiplication, which look at one extra product bit and at the
  positions of the leading bits, hold exactly when the unsigned product fits the width, and when the
  signed product is below the upper and above the lower limit.\<close>

theorem mul_no_overflow_exact:
  assumes "blaster_instance T" "fmls as" "fmls bs" "length as = length bs" "as \<noteq> []"
  shows "(holds I (mk_umul_no_overflow T as bs) \<longleftrightarrow> uval I as * uval I bs < 2 ^ length as)
       \<and> (holds I (mk_smul_no_overflow T as bs) \<longleftrightarrow> sval I as * sval I bs < 2 ^ (length as - 1))
       \<and> (holds I (mk_smul_no_underflow T as bs) \<longleftrightarrow> - (2 ^ (length as - 1)) \<le> sval I as * sval I bs)"
  using assms(1)
  by cases (simp_all add: mk_smul_no_overflow_def mk_smul_no_underflow_def
      bb_mul.mk_umul_no_overflow_correct[OF assms(2-5)] blaster_mul.mk_umul_no_overflow_correct[OF assms(2-5)]
      bb_mul.mk_smul_no_overflow_core_correct[OF assms(2-5)] blaster_mul.mk_smul_no_overflow_core_correct[OF assms(2-5)])

lemma mul_no_overflow_exact_witness:
  "\<not> holds sample (mk_umul_no_overflow blaster [EAtom 1, EAtom 0] [EAtom 1, EAtom 0])
   \<and> \<not> holds sample (mk_smul_no_overflow blaster [EAtom 1, EAtom 0] [EAtom 1, EAtom 0])"
  using mul_no_overflow_exact[of blaster "[EAtom 1, EAtom 0]" "[EAtom 1, EAtom 0]" sample]
  by (simp add: sbv_def)

section \<open>Multi-precision naturals\<close>

text \<open>C20. Long division (Knuth's algorithm D on 32-bit digits, with normalisation, the estimate of
  each digit, and the correction step) computes quotient and remainder of the numbers, and
  succeeds whenever the denominator has a non-zero leading digit and is not longer.\<close>

theorem mpn_div_computes_quotient:
  assumes "denom \<noteq> []" "last denom \<noteq> 0" "length denom \<le> length numer"
    and "length quot = length numer - length denom + 1"
  shows "\<exists>res quot' rem. mpn_div numer denom quot u v ms = Inr (res, quot', rem)
    \<and> length quot' = length quot \<and> length rem = length denom
    \<and> nval quot' = nval numer div nval denom \<and> nval rem = nval numer mod nval denom"
  using mpn_div_correct[OF assms, of u v ms] by blast

lemma mpn_div_computes_quotient_witness:
  "\<exists>res quot' rem. mpn_div [5, 7] [2] [0, 0] [] [] [] = Inr (res, quot', rem) \<and> nval rem = nval [5, 7] mod nval [2]"
  using mpn_div_computes_quotient[of "[2]" "[5, 7]" "[0, 0]" "[]" "[]" "[]"] by auto

text \<open>When division fails, for vectors that fit in memory: a denominator longer than the numerator by
  two digits or more makes the wrapped loop bound run past the quotient, one of only zero digits
  reaches the unreachable branch, and another one with a zero leading digit fails an assertion. The
  normalisation, which would not end for a zero digit, is never started on one.\<close>

lemma mpn_div_errors:
  assumes "length numer < 2 ^ 63" "length denom < 2 ^ 63" "length quot < 2 ^ 63"
  shows "(mpn_div numer denom quot u v ms = Inl OutOfBounds \<longleftrightarrow> length numer + 1 < length denom)
   \<and> (mpn_div numer denom quot u v ms = Inl Unreachable \<longleftrightarrow>
        length denom \<le> length numer \<and> (\<forall>d \<in> set denom. d = 0))
   \<and> (mpn_div numer denom quot u v ms = Inl Assertion \<longleftrightarrow>
        length denom \<le> length numer \<and> \<not> (\<forall>d \<in> set denom. d = 0) \<and> last denom = 0)
   \<and> mpn_div numer denom quot u v ms \<noteq> Inl NoReturn"
  using mpn_div_fails[OF assms, of u v ms] by blast

text \<open>C21. Addition, subtraction and multiplication are exact: the digits (with the borrow, for
  subtraction) have the value of the result, and the size reported for a sum drops only zeros.\<close>

theorem mpn_add_sub_mul_exact:
  assumes "mpn_add a b = (c, os)" "mpn_sub a b = (s, borrow)" "length z = length a + length b"
  shows "nval c = nval a + nval b \<and> nval (take os c) = nval a + nval b \<and> os \<le> length c \<and> (os = 1 \<or> c ! (os - 1) \<noteq> 0)
    \<and> unat borrow \<le> 1 \<and> nval s + nval b = nval a + 2 ^ (32 * max (length a) (length b)) * unat borrow
    \<and> nval (mpn_mul a b z) = nval a * nval b \<and> length (mpn_mul a b z) = length a + length b"
  using mpn_add_correct[OF assms(1)] mpn_sub_correct[OF assms(2)] mpn_mul_correct[OF assms(3)] by simp

lemma mpn_add_sub_mul_exact_witness:
  "nval (mpn_mul [3, 1] [5] [0, 0, 0]) = nval [3, 1] * nval [5]"
proof -
  obtain c os s k where "mpn_add [3, 1] [5] = (c, os)" "mpn_sub [3, 1] [5] = (s, k)" by fastforce
  from mpn_add_sub_mul_exact[OF this, of "[0, 0, 0]"] show ?thesis by simp
qed

text \<open>Comparison returns the sign of the difference, whatever the lengths and leading zeros.\<close>

lemma mpn_compare_sign: "mpn_compare a b = sgn (int (nval a) - int (nval b))"
  by (rule mpn_compare_correct)

text \<open>Reading the decimal string back gives the number.\<close>

definition decimal_value :: "string \<Rightarrow> nat" where
  "decimal_value s = foldl (\<lambda>n c. 10 * n + (of_char c - 48)) 0 s"

lemma decimal_value_decimal: "decimal_value (decimal n) = n"
proof (induction n rule: decimal.induct)
  case (1 n)
  have digit: "of_char (digit_char (n mod 10)) - 48 = (n mod 10 :: nat)"
    by (simp add: digit_char_def take_bit_eq_mod)
  show ?case
  proof (cases "n < 10")
    case True
    then show ?thesis using digit by (simp add: decimal.simps[of n] decimal_value_def)
  next
    case False
    then show ?thesis using 1 digit by (simp add: decimal.simps[of n] decimal_value_def)
  qed
qed

lemma mpn_to_string_round_trip:
  assumes "a \<noteq> []"
  shows "\<exists>s. mpn_to_string a = Inr s \<and> decimal_value s = nval a"
  using mpn_to_string_correct[OF assms] decimal_value_decimal by blast

lemma mpn_to_string_round_trip_witness: "\<exists>s. mpn_to_string [0, 1] = Inr s \<and> decimal_value s = nval [0, 1]"
  using mpn_to_string_round_trip[of "[0, 1]"] by simp

text \<open>The estimate of a quotient digit fits a digit, is not below the true digit and exceeds it
  by at most one, so that one correction suffices.\<close>

lemma estimate_within_one:
  assumes "2 \<le> length denom" "last denom \<noteq> 0" "length w = length denom + 1" "nval w < 2 ^ 32 * nval denom"
  shows "unat (estimate denom w) < 2 ^ 32 \<and> nval w div nval denom \<le> unat (estimate denom w)
    \<and> unat (estimate denom w) \<le> nval w div nval denom + 1"
proof -
  obtain k where k: "length denom = Suc (Suc k)" using assms(1) by (metis Suc_le_D numeral_2_eq_2 Suc_le_mono)
  have "denom ! Suc k = last denom" using k by (subst last_conv_nth) auto
  then have top: "0 < unat (denom ! Suc k)" using assms(2) by (simp add: unat_gt_0)
  have e: "unat (estimate denom w) < 2 ^ 32" "nval w div nval denom \<le> unat (estimate denom w)"
    "unat (estimate denom w) * nval denom < nval w + nval denom"
    using estimate_correct[OF k top _ assms(4)] assms(3) k by simp_all
  have "0 < nval denom" using e(3) by (cases "nval denom") (use assms(4) in auto)
  then have "unat (estimate denom w) \<le> nval w div nval denom + 1"
    using e(3) by (metis add.commute add_diff_cancel_right' div_mult_self_is_m div_le_mono less_imp_le_nat
        div_add_self2 not_gr_zero)
  with e show ?thesis by blast
qed

lemma estimate_within_one_witness:
  "unat (estimate [0, 1] [5, 7, 0]) \<le> nval [5, 7, 0] div nval [0, 1] + 1"
  using estimate_within_one[of "[0, 1]" "[5, 7, 0]"] by simp

section \<open>Multi-precision integers\<close>

text \<open>C22. The operations return numbers in normal form (a big number only when the value does not fit an
  \<^verbatim>\<open>int\<close>) from numbers in normal form, and a value other than \<^verbatim>\<open>INT_MIN\<close> has a single normal form, so
  that equal numbers are represented alike.\<close>

theorem mpz_operations_keep_normal_form:
  assumes "mpz_normal a" "mpz_normal b"
  shows "mpz_normal (mpz_add a b) \<and> mpz_normal (mpz_sub a b) \<and> mpz_normal (mpz_mul a b)
    \<and> mpz_normal (mpz_neg a) \<and> mpz_normal (mpz_abs a)
    \<and> (\<forall>r \<in> set_option (mpz_div a b) \<union> set_option (mpz_mod a b) \<union> set_option (machine_div a b)
          \<union> set_option (mpz_rem a b) \<union> set_option (mpz_gcd a b). mpz_normal r)
    \<and> (zval a \<noteq> INT_MIN \<longrightarrow> (a = b \<longleftrightarrow> zval a = zval b))"
proof -
  note ok = mpz_normal_ok[OF assms(1)] mpz_normal_ok[OF assms(2)]
  have g: "mpz_normal r" if "mpz_gcd a b = Some r" for r using mpz_gcd_correct[OF assms] that by auto
  show ?thesis
    using normal_add[OF ok] normal_sub[OF ok] normal_mul[OF ok] normal_neg[OF assms(1)] normal_abs[OF assms(1)] g
      normal_unique[OF assms] normal_div[OF assms(1) ok(2)] normal_mod[OF assms(1) ok(2)]
      normal_machine_div[OF assms(1) ok(2)] normal_rem[OF assms(1) ok(2)] by auto
qed

lemma mpz_operations_keep_normal_form_witness:
  "mpz_normal (mpz_mul (mk_z INT_MAX) (mk_z INT_MIN)) \<and> mpz_normal (mpz_neg (mk_z INT_MIN))"
  using mpz_operations_keep_normal_form[of "mk_z INT_MAX" "mk_z INT_MIN"]
    mpz_operations_keep_normal_form[of "mk_z INT_MIN" "mk_z INT_MIN"] by simp

text \<open>C23. The ring operations are exact and the comparisons decide the order of the integers, for small and
  big operands in any combination.\<close>

theorem mpz_ring_and_order_exact:
  assumes "mpz_ok a" "mpz_ok b" "mpz_ok c"
  shows "zval (mpz_add a b) = zval a + zval b \<and> zval (mpz_sub a b) = zval a - zval b
    \<and> zval (mpz_mul a b) = zval a * zval b \<and> zval (addmul a b c) = zval a + zval b * zval c
    \<and> zval (submul a b c) = zval a - zval b * zval c \<and> zval (mpz_neg a) = - zval a \<and> zval (mpz_abs a) = \<bar>zval a\<bar>
    \<and> (mpz_eq a b \<longleftrightarrow> zval a = zval b) \<and> (mpz_lt a b \<longleftrightarrow> zval a < zval b) \<and> (mpz_le a b \<longleftrightarrow> zval a \<le> zval b)"
  using mpz_add_correct[OF assms(1,2)] mpz_sub_correct[OF assms(1,2)] mpz_mul_correct[OF assms(1,2)]
    addmul_correct[OF assms] submul_correct[OF assms] mpz_neg_correct[OF assms(1)] mpz_abs_correct[OF assms(1)]
    mpz_compare_correct[OF assms(1,2)] by blast

lemma mpz_ring_and_order_exact_witness:
  "zval (submul (mk_z INT_MIN) (mk_big 1 [0, 1]) (mk_z 3)) = INT_MIN - 2 ^ 32 * 3"
  using mpz_ring_and_order_exact[of "mk_z INT_MIN" "mk_big 1 [0, 1]" "mk_z 3"] by simp



text \<open>C25. The tests for machine integers: 64-bit ones are exact and the conversions they guard give the
  number, the 32-bit ones leave out \<^verbatim>\<open>UINT_MAX\<close>, \<^verbatim>\<open>INT_MIN\<close> and \<^verbatim>\<open>INT_MAX\<close>.\<close>

theorem mpz_machine_conversions:
  assumes "mpz_ok a"
  shows "(is_uint64 a \<longleftrightarrow> 0 \<le> zval a \<and> zval a < 2 ^ 64) \<and> (is_uint64 a \<longrightarrow> uint (get_uint64 a) = zval a)
    \<and> (is_int64 a \<longleftrightarrow> - (2 ^ 63) \<le> zval a \<and> zval a < 2 ^ 63) \<and> (is_int64 a \<longrightarrow> get_int64 a = zval a)
    \<and> (is_uint a \<longleftrightarrow> 0 \<le> zval a \<and> zval a < 2 ^ 32 - 1) \<and> (is_uint a \<longrightarrow> uint (get_uint a) = zval a)
    \<and> (is_int a \<longleftrightarrow> INT_MIN < zval a \<and> zval a < INT_MAX) \<and> (is_int a \<longrightarrow> get_int a = zval a)"
  using is_uint64_iff[OF assms] get_uint64_correct[OF assms] is_int64_iff[OF assms] get_int64_correct[OF assms]
    is_uint_iff[OF assms] is_int_iff[OF assms] by blast

lemma mpz_machine_conversions_witness:
  "get_int64 (mk_big (- 1) [0, 2147483648]) = - (2 ^ 63) \<and> \<not> is_int (mk_z INT_MAX)"
  using mpz_machine_conversions[of "mk_big (- 1) [0, 2147483648]"] mpz_machine_conversions[of "mk_z INT_MAX"] by simp

text \<open>C26. Shifts multiply by and divide (truncating) by powers of two, except that \<^verbatim>\<open>INT_MIN\<close> shifted right by
  31 bits gives 1; the bitwise operations, which work on chunks of 64 bits, are the ones on integers.\<close>

theorem mpz_shift_and_bitwise:
  assumes "mpz_ok a" "mpz_ok b" "0 \<le> zval b"
  shows "zval (mul2k a k) = zval a * 2 ^ k
    \<and> (\<not> (is_small a \<and> k = 31 \<and> zval a = INT_MIN) \<longrightarrow> zval (machine_div2k a k) = zval a sdiv 2 ^ k)
    \<and> machine_div2k (mk_z INT_MIN) 31 = mk_z 1
    \<and> (0 \<le> zval a \<longrightarrow> map_option zval (bitwise_or a b) = Some (zval a OR zval b)
      \<and> map_option zval (bitwise_and a b) = Some (zval a AND zval b)
      \<and> map_option zval (bitwise_xor a b) = Some (zval a XOR zval b))
    \<and> map_option zval (bitwise_not k a) = Some (take_bit k (NOT (zval a)))"
proof -
  have "map_option zval (bitwise_or a b) = Some (zval a OR zval b)
      \<and> map_option zval (bitwise_and a b) = Some (zval a AND zval b)
      \<and> map_option zval (bitwise_xor a b) = Some (zval a XOR zval b)" if "0 \<le> zval a"
    using bitwise_or_correct[OF assms(1,2) that assms(3)] bitwise_and_correct[OF assms(1,2) that assms(3)]
      bitwise_xor_correct[OF assms(1,2) that assms(3)] by auto
  moreover have "map_option zval (bitwise_not k a) = Some (take_bit k (NOT (zval a)))"
    using bitwise_not_correct[OF assms(1), of k] by auto
  ultimately show ?thesis
    using mul2k_correct[OF assms(1), of k] machine_div2k_correct[OF assms(1), of k] machine_div2k_INT_MIN by blast
qed

lemma mpz_shift_and_bitwise_witness:
  "zval (mul2k (mk_z (- 3)) 70) = - 3 * 2 ^ 70
   \<and> map_option zval (bitwise_and (mk_big 1 [12, 3]) (mk_z 10)) = Some (zval (mk_big 1 [12, 3]) AND 10)"
  using mpz_shift_and_bitwise[of "mk_z (- 3)" "mk_z 0" 70] mpz_shift_and_bitwise[of "mk_big 1 [12, 3]" "mk_z 10" 0] by simp

text \<open>C27. The power by repeated squaring returns the power for exponents below \<open>2 ^ 31\<close>, and never returns
  for larger ones (unless the base is 0, 1 or 2), as its 32-bit mask wraps to zero.\<close>

theorem mpz_power_termination:
  assumes "mpz_ok a" "zval a \<noteq> 0 \<or> p \<noteq> 0"
  shows "(unat p < 2 ^ 31 \<longrightarrow> map_option zval (mpz_power a p) = Some (zval a ^ unat p))
    \<and> (2 ^ 31 \<le> unat p \<and> zval a \<notin> {0, 1, 2} \<longrightarrow> mpz_power a p = None)"
  using mpz_power_correct[OF assms(1) _ assms(2)] mpz_power_diverges[OF assms(1), of p] by auto

lemma mpz_power_termination_witness:
  "map_option zval (mpz_power (mk_z 3) 50) = Some (3 ^ 50) \<and> mpz_power (mk_z 3) 2147483648 = None"
  using mpz_power_termination[of "mk_z 3" 50, THEN conjunct1]
    mpz_power_termination[of "mk_z 3" 2147483648, THEN conjunct2] by simp

text \<open>C28. Roots: the test for a perfect square and the \<open>n\<close>-th root return; an exact answer is the root, and
  otherwise the number stored is the least one whose power is above.\<close>

theorem mpz_roots_correct:
  assumes "mpz_ok a" "0 < unat n" "unat n < 2 ^ 31" "0 \<le> zval a" "bitsize a < 2 ^ 32"
  shows "(\<exists>res r. is_perfect_square a r0 = Some (res, r)
      \<and> (if res then zval r * zval r = zval a else (zval r - 1) * (zval r - 1) < zval a \<and> zval a < zval r * zval r))
    \<and> (\<exists>res r. mpz_root a n = Some (res, r) \<and> 0 \<le> zval r
      \<and> (if res then zval r ^ unat n = zval a else (zval r - 1) ^ unat n < zval a \<and> zval a < zval r ^ unat n))"
  using is_perfect_square_correct[OF assms(1,4), of r0] mpz_root_correct[OF assms(1-3) _ assms(5)] assms(4) by blast

lemma mpz_roots_correct_witness:
  "\<exists>res r. mpz_root (mk_z 8) 3 = Some (res, r) \<and> 0 \<le> zval r
     \<and> (if res then zval r ^ 3 = 8 else (zval r - 1) ^ 3 < 8 \<and> 8 < zval r ^ 3)"
proof -
  have "word_log2 8 = 3" by (simp add: word_log2_def log2_step_def Let_def)
  then have "bitsize (mk_z 8) < 2 ^ 32" by (simp add: bitsize_def mpz_log2_def is_neg_def is_pos_def mk_z_def)
  moreover have "unat (3 :: 32 word) = 3" "zval (mk_z 8) = 8" by simp_all
  ultimately show ?thesis using mpz_roots_correct[of "mk_z 8" 3 "mk_z 0"] by fastforce
qed

text \<open>C29. Greatest common divisors: the binary algorithm on small numbers and Lehmer's algorithm on big ones
  return the greatest common divisor, with coefficients when asked, and so does the least common
  multiple up to its sign.\<close>

theorem mpz_gcd_lcm_correct:
  assumes "mpz_normal a" "mpz_normal b"
  shows "map_option zval (mpz_gcd a b) = Some (gcd (zval a) (zval b))
    \<and> (\<exists>x y g. mpz_extended_gcd a b = Some (x, y, g) \<and> zval g = gcd (zval a) (zval b)
        \<and> zval x * zval a + zval y * zval b = zval g)
    \<and> (\<exists>m. mpz_lcm a b = Some m \<and> \<bar>zval m\<bar> = lcm (zval a) (zval b))"
  using mpz_gcd_correct[OF assms] mpz_lcm_correct[OF assms]
    mpz_extended_gcd_correct[OF mpz_normal_ok[OF assms(1)] mpz_normal_ok[OF assms(2)]] by auto

lemma mpz_gcd_lcm_correct_witness: "map_option zval (mpz_gcd (mk_big 1 [0, 6]) (mk_z (- 9))) = Some (gcd (6 * 2 ^ 32) (- 9))"
  using mpz_gcd_lcm_correct[of "mk_big 1 [0, 6]" "mk_z (- 9)"] by (simp add: mpz_normal_def)

text \<open>C30. The decimal string of an integer reads back as the integer.\<close>

theorem mpz_string_round_trip:
  assumes "mpz_ok a"
  shows "\<exists>s. mpz_to_string a = Inr s \<and> zval (set_string s) = zval a"
  using string_roundtrip[OF assms] by blast

lemma mpz_string_round_trip_witness:
  "\<exists>s. mpz_to_string (mk_big (- 1) [5, 7]) = Inr s \<and> zval (set_string s) = - (5 + 2 ^ 32 * 7)"
  using mpz_string_round_trip[of "mk_big (- 1) [5, 7]"] by simp

section \<open>Rationals\<close>

text \<open>C31. The field operations are exact and keep the invariant: numerator and denominator in normal form
  and in lowest terms, the denominator positive. Dividing a non-zero number by zero is not noticed and
  breaks it.\<close>

theorem mpq_arithmetic_lowest_terms:
  assumes "mpq_ok a" "mpq_ok b"
  shows "(\<exists>r. add_q a b = Some r \<and> mpq_ok r \<and> qval r = qval a + qval b)
    \<and> (\<exists>r. sub_q a b = Some r \<and> mpq_ok r \<and> qval r = qval a - qval b)
    \<and> (\<exists>r. mul_q a b = Some r \<and> mpq_ok r \<and> qval r = qval a * qval b)
    \<and> (\<exists>r. addmul_q a b b = Some r \<and> mpq_ok r \<and> qval r = qval a + qval b * qval b)
    \<and> (qval b \<noteq> 0 \<longrightarrow> (\<exists>r. div_q a b = Some r \<and> mpq_ok r \<and> qval r = qval a / qval b)
        \<and> mpq_ok (inv_q b) \<and> qval (inv_q b) = inverse (qval b))
    \<and> (qval a \<noteq> 0 \<and> qval b = 0 \<longrightarrow> (\<exists>r. div_q a b = Some r \<and> zval (m_den r) = 0))"
  using add_q_correct[OF assms] sub_q_correct[OF assms] mul_q_correct[OF assms] addmul_q_correct(1)[OF assms assms(2)]
    div_q_correct[OF assms] inv_q_correct[OF assms(2)] div_q_zero[OF assms] by blast

text \<open>Two fractions the examples use.\<close>

definition half :: mpq where "half = \<lparr>m_num = mk_z 1, m_den = mk_z 2\<rparr>"

definition minus_third :: mpq where "minus_third = \<lparr>m_num = mk_z (- 1), m_den = mk_z 3\<rparr>"

lemma fractions [simp]: "mpq_ok half" "mpq_ok minus_third" "qval half = 1 / 2" "qval minus_third = - 1 / 3"
  by (simp_all add: half_def minus_third_def mpq_ok_def qval_def)

lemma mpq_arithmetic_lowest_terms_witness:
  "\<exists>r. div_q half minus_third = Some r \<and> mpq_ok r \<and> qval r = - 3 / 2"
  using mpq_arithmetic_lowest_terms[of half minus_third] by simp

text \<open>C32. Comparisons decide the order of the rationals, and rounding down and up gives floor and ceiling.\<close>

theorem mpq_order_and_rounding:
  assumes "mpq_ok a" "mpq_ok b"
  shows "(eq_q a b \<longleftrightarrow> qval a = qval b) \<and> (lt_q a b \<longleftrightarrow> qval a < qval b) \<and> (le_q a b \<longleftrightarrow> qval a \<le> qval b)
    \<and> map_option zval (floor_q a) = Some \<lfloor>qval a\<rfloor> \<and> map_option zval (ceil_q a) = Some \<lceil>qval a\<rceil>"
  using eq_q_correct[OF assms] compare_q_correct[OF assms] floor_q_correct[OF assms(1)] ceil_q_correct[OF assms(1)] by auto

lemma mpq_order_and_rounding_witness:
  "lt_q minus_third half \<and> map_option zval (floor_q minus_third) = Some (- 1)"
proof -
  have "\<lfloor>- (1 / 3) :: rat\<rfloor> = - 1" by (simp add: floor_eq_iff)
  then show ?thesis using mpq_order_and_rounding[of minus_third half] by simp
qed

text \<open>The decimal expansion prints the integer part and, for the fraction, at most \<open>prec\<close> characters that denote the
  truncated fraction; unless the value is exact there, all \<open>prec\<close> are printed, and a mark.\<close>

lemma display_decimal_digits:
  assumes "mpq_ok a"
  shows "\<exists>fp mark. display_decimal a prec trunc = Some ((if qval a < 0 then ''-'' else [])
        @ decimal (nat \<lfloor>\<bar>qval a\<bar>\<rfloor>) @ (if is_int_q a then [] else ''.'' @ fp @ mark))
    \<and> length fp \<le> prec \<and> digits_value 0 (decimal (nat \<lfloor>\<bar>qval a\<bar>\<rfloor>) @ fp) = \<lfloor>\<bar>qval a\<bar> * 10 ^ length fp\<rfloor>
    \<and> (if \<bar>qval a\<bar> * 10 ^ length fp \<in> \<int> then mark = [] else length fp = prec \<and> mark = (if trunc then [] else ''?''))"
  using display_decimal_correct[OF assms, of prec trunc] by blast

lemma display_decimal_digits_witness:
  "\<exists>fp mark. display_decimal minus_third 3 False = Some (''-'' @ decimal 0 @ ''.'' @ fp @ mark) \<and> length fp \<le> 3"
proof -
  have "\<not> is_int_q minus_third" by (simp add: is_int_q_iff minus_third_def is_int_q_def is_one_def)
  then show ?thesis using display_decimal_digits[of minus_third 3 False] by auto
qed

text \<open>C33. Reading: the string of a rational reads back as it, and a string with a sign, a fraction and an
  exponent below \<open>2 ^ 31\<close> is read as the number it denotes in decimal notation, in lowest terms.\<close>

theorem mpq_strings_read_back:
  assumes "mpq_ok a" "all_digits ds" "all_digits fs" "all_digits xs" "sg = [] \<or> sg = ''-''"
    and "es = [] \<or> es = ''-''" "digits_value 0 xs < 2 ^ 31"
  shows "(\<exists>s r. mpq_to_string a = Inr s \<and> set_q_string t s = Some (Inr r) \<and> mpq_ok r \<and> qval r = qval a)
    \<and> (\<exists>r. set_q_string t (sg @ ds @ ''.'' @ fs @ ''e'' @ es @ xs) = Some (Inr r) \<and> mpq_ok r
      \<and> qval r = (if sg = ''-'' then - 1 else 1) * (of_int (digits_value 0 (ds @ fs)) / 10 ^ length fs)
        * (if es = ''-'' then 1 / 10 ^ nat (digits_value 0 xs) else 10 ^ nat (digits_value 0 xs)))"
  using mpq_string_roundtrip[OF assms(1), of t] read_decimal[OF assms(2-7), of t 0] by simp

lemma mpq_strings_read_back_witness:
  "\<exists>r. set_q_string half ''-12.5e-3'' = Some (Inr r) \<and> mpq_ok r \<and> qval r = - 1 / 80"
proof -
  have "all_digits ''12''" "all_digits ''5''" "all_digits ''3''" "digits_value 0 ''3'' = 3" "digits_value 0 ''125'' = 125"
    by code_simp+
  then show ?thesis using mpq_strings_read_back[of half "''12''" "''5''" "''3''" "''-''" "''-''" half] by simp
qed

section \<open>Union-find\<close>

lemma union_find_returns:
  assumes "uf_reachable s" "v1 < num_vars s" "v2 < num_vars s"
  shows "\<exists>s'. merge s v1 v2 = Some s' \<and> uf_reachable s'"
proof -
  obtain s1 where "merge s v1 v2 = Some s1"
    using merge_result[OF built_inv[OF reachable_built[OF assms(1), THEN conjunct1]] assms(2,3)] by blast
  then show ?thesis using reach_step[OF assms(1) step_merge[OF assms(2,3)]] by blast
qed

lemma union_find_pops:
  assumes "uf_reachable s" "n \<le> length (m_scopes s)"
  shows "\<exists>s'. pop_scope n s = Some s' \<and> uf_reachable s'"
proof -
  note b = reachable_built[OF assms(1), THEN conjunct1] reachable_built[OF assms(1), THEN conjunct2]
  obtain s2 where "pop_scope n s = Some s2"
  proof (cases "n = 0")
    case True
    then show ?thesis using that by (simp add: pop_scope_def)
  next
    case False
    then show ?thesis using pop_scope_result[OF b _ assms(2)] that by blast
  qed
  then show ?thesis using reach_step[OF assms(1) step_pop[OF assms(2)]] by blast
qed

text \<open>C34. In every state a client can reach by adding variables, merging, opening and popping
  scopes, each search for a root returns a root, the successor links of a variable run exactly
  through its class, and every root holds the size of its class. No operation gets stuck there: every
  merge of variables returns, and so does popping any number of the open scopes, with a reachable state.\<close>

theorem union_find_invariant:
  assumes "uf_reachable s"
  shows "(\<forall>v < num_vars s. \<exists>r < num_vars s. uf_find s v = Some r \<and> is_root s r \<and>
            uf_size s v = Some (card {w. w < num_vars s \<and> uf_find s w = Some r}))
       \<and> (\<forall>v < num_vars s. \<forall>w < num_vars s. (\<exists>k. w = ((\<lambda>x. m_next s ! x) ^^ k) v) \<longleftrightarrow> uf_find s v = uf_find s w)
       \<and> (\<forall>v < num_vars s. \<forall>w < num_vars s. \<exists>s'. merge s v w = Some s' \<and> uf_reachable s')
       \<and> (\<forall>n \<le> length (m_scopes s). \<exists>s'. pop_scope n s = Some s' \<and> uf_reachable s')"
proof -
  note inv = built_inv[OF conjunct1[OF reachable_built[OF assms]]] and d = uf_invD[OF inv]
  have "((\<lambda>x. m_next s ! x) ^^ k) v = (uf_next s ^^ k) v \<and> (uf_next s ^^ k) v < num_vars s" if "v < num_vars s" for k v
    using that uf_next_next[OF inv] d(4) by (induction k) (auto simp: perm_below_def)
  then have cycle: "(\<exists>k. w = ((\<lambda>x. m_next s ! x) ^^ k) v) \<longleftrightarrow> uf_find s v = uf_find s w"
    if "v < num_vars s" "w < num_vars s" for v w
    using d(5)[OF that] that(1) by (auto simp: reaches_funpow)
  have "\<exists>r < num_vars s. uf_find s v = Some r \<and> is_root s r \<and>
      uf_size s v = Some (card {w. w < num_vars s \<and> uf_find s w = Some r})" if v: "v < num_vars s" for v
  proof -
    obtain r where r: "uf_find s v = Some r" using d(3)[OF v] by blast
    then show ?thesis using uf_find_root[OF r] d(6)[of r] by (auto simp: uf_size_def)
  qed
  with cycle show ?thesis using union_find_returns[OF assms] union_find_pops[OF assms] by blast
qed

lemma union_find_invariant_witness:
  "\<exists>r. uf_find (snd (mk_var new_union_find)) 0 = Some r \<and> is_root (snd (mk_var new_union_find)) r"
proof -
  have "uf_reachable (snd (mk_var new_union_find))"
    by (rule reach_step[OF reach_new step_mk_var[of _ "fst (mk_var new_union_find)"]]) simp
  moreover have "0 < num_vars (snd (mk_var new_union_find))"
    by (simp add: mk_var_def push_trail_def new_union_find_def num_vars_def push_var_def Let_def)
  ultimately show ?thesis using union_find_invariant[of "snd (mk_var new_union_find)"] by blast
qed

text \<open>C35. Popping back to a scope restores the state the scope was opened in, whatever happened
  inside it: variables added, classes merged, inner scopes opened and popped.\<close>

theorem pop_scope_restores_state:
  assumes "uf_reachable s0" "runs_above (length (m_scopes s0)) (push_scope s0) s"
  shows "pop_scope (length (m_scopes s) - length (m_scopes s0)) s = Some s0"
  by (rule pop_scope_restores[OF assms])

lemma pop_scope_restores_state_witness:
  "pop_scope 1 (snd (mk_var (push_scope new_union_find))) = Some new_union_find"
proof -
  let ?s = "snd (mk_var (push_scope new_union_find))"
  have "uf_step (push_scope new_union_find) ?s" by (rule step_mk_var[of _ "fst (mk_var (push_scope new_union_find))"]) simp
  moreover have l: "length (m_scopes ?s) = 1" "length (m_scopes new_union_find) = 0"
    by (simp_all add: mk_var_def push_trail_def push_scope_def new_union_find_def push_var_def Let_def)
  ultimately have "runs_above (length (m_scopes new_union_find)) (push_scope new_union_find) ?s"
    using runs_step[OF runs_refl] by simp
  from pop_scope_restores_state[OF reach_new this] l show ?thesis by simp
qed

text \<open>C36. Merging a list of pairs refines the closure of an equivalence relation under them, for the
  union-find structure with backtracking and for the one without (where numbers not seen before
  are classes of their own).\<close>

theorem merges_refine_equivalence:
  "(uf_inv s \<and> (\<forall>(a, b) \<in> set ps. a < num_vars s \<and> b < num_vars s) \<longrightarrow>
      (\<exists>s'. merge_all merge s ps = Some s' \<and> uf_inv s' \<and> same_class s' = eq_closure (same_class s \<union> set ps)))
   \<and> (uf_inv t \<longrightarrow>
      (\<exists>t'. merge_all basic_merge t qs = Some t' \<and> uf_inv t' \<and> same_class t' = eq_closure (same_class t \<union> set qs)))"
  using uf.merge_all_closure[of s ps] basic_uf.merge_all_closure[of t qs] by auto

lemma merges_refine_equivalence_witness:
  "\<exists>t'. merge_all basic_merge basic_reset [(0, 2), (2, 5)] = Some t' \<and> (0, 5) \<in> same_class t'"
proof -
  have "(0, 5) \<in> eq_closure (same_class basic_reset \<union> set [(0, 2), (2, 5)])"
    using equiv_transD[OF eq_closure_equiv, where x = 0 and y = 2 and z = 5]
      eq_closure_base[of "same_class basic_reset \<union> set [(0, 2), (2, 5)]"] by auto
  then show ?thesis
    using merges_refine_equivalence[where s = new_union_find and ps = "[]" and t = basic_reset and qs = "[(0, 2), (2, 5)]"] uf_inv_reset by auto
qed

text \<open>\<^verbatim>\<open>dissolve\<close> returns, but detaches only the variable it is given: every other variable
  keeps its parent, so the class is not dissolved.\<close>

lemma dissolve_detaches_one:
  assumes "uf_inv s" "v < num_vars s"
  shows "\<exists>s'. dissolve v s = Some s' \<and> uf_find s' v = Some v
    \<and> (\<forall>w. w \<noteq> v \<longrightarrow> m_find s' ! w = m_find s ! w \<and> m_next s' ! w = m_next s ! w)"
  using dissolve_result[OF assms] assms(2) by (auto simp: uf_find_def num_vars_def)

lemma dissolve_detaches_one_witness:
  "\<exists>s'. dissolve 0 (push_var (push_var basic_reset)) = Some s' \<and> uf_find s' 0 = Some 0"
  using dissolve_detaches_one[OF uf_inv_push[OF uf_inv_push[OF uf_inv_reset]], of 0]
  by (auto simp: num_vars_def basic_reset_def)

section \<open>Heap and decision queue\<close>

lemma weak_order_less: "weak_order (<)"
  by unfold_locales auto

lemma two_values_heap:
  "heap_inv (<) (heap_insert (<) 1 (heap_insert (<) 2 (new_heap 3)))
   \<and> elems (heap_insert (<) 1 (heap_insert (<) 2 (new_heap 3))) = {1, 2}"
proof -
  note n = weak_order.new_heap_correct[OF weak_order_less, of 3]
  note a = weak_order.heap_insert_correct[OF weak_order_less conjunct1[OF n], of 2,
      unfolded weak_order.yields_def[OF weak_order_less]]
  note b = weak_order.heap_insert_correct[OF weak_order_less, of "heap_insert (<) 2 (new_heap 3)" 1,
      unfolded weak_order.yields_def[OF weak_order_less]]
  show ?thesis using n a b by simp
qed

text \<open>C37. Inserting and erasing keep the heap's invariant (inverse index vector, every value not
  below its parent) for every strict weak order, and change the contained values as they should;
  erasing the minimum of a non-empty heap returns a contained value that no other is below, and
  keeps the invariant and all other values.\<close>

theorem heap_operations_correct:
  assumes "weak_order lt" "heap_inv lt h" "0 \<le> v" "nat v < length (m_value2indices h)"
  shows "(v \<notin> elems h \<longrightarrow> heap_inv lt (heap_insert lt v h) \<and> elems (heap_insert lt v h) = Set.insert v (elems h))
    \<and> (v \<in> elems h \<longrightarrow> (\<exists>h'. erase lt v h = Some h' \<and> heap_inv lt h' \<and> elems h' = elems h - {v}))
    \<and> (\<not> heap_empty h \<longrightarrow> (\<exists>x h'. erase_min lt h = Some (x, h') \<and> x \<in> elems h \<and> (\<forall>w \<in> elems h. \<not> lt w x)
          \<and> heap_inv lt h' \<and> elems h' = elems h - {x}))"
proof -
  note ins = weak_order.heap_insert_correct[OF assms, unfolded weak_order.yields_def[OF assms(1)]]
  note er = weak_order.erase_correct[OF assms(1,2), of v, unfolded weak_order.yields_def[OF assms(1)]]
  note mn = weak_order.erase_min_correct[OF assms(1,2), unfolded weak_order.yields_def[OF assms(1)]]
  show ?thesis using ins er mn by (intro conjI impI) blast+
qed

lemma heap_operations_correct_witness:
  "heap_inv (<) (heap_insert (<) 0 (heap_insert (<) 1 (heap_insert (<) 2 (new_heap 3))))
   \<and> (\<exists>h'. erase_min (<) (heap_insert (<) 1 (heap_insert (<) 2 (new_heap 3))) = Some (1, h') \<and> elems h' = {2})"
proof -
  let ?h = "heap_insert (<) 1 (heap_insert (<) 2 (new_heap 3))"
  have ne: "\<not> heap_empty ?h"
    using weak_order.empty_iff[OF weak_order_less, of ?h] two_values_heap by (simp add: heap_inv_def)
  have "nat 0 < length (m_value2indices ?h)" by code_simp
  note all = heap_operations_correct[OF weak_order_less conjunct1[OF two_values_heap] order_refl this]
  from ne all obtain v h' where e: "erase_min (<) ?h = Some (v, h')" "v \<in> {1, 2}" "\<forall>w \<in> {1, 2}. \<not> w < v" "elems h' = {1, 2} - {v}"
    unfolding conjunct2[OF two_values_heap] by blast
  then have "v = 1" by auto
  with e all show ?thesis using conjunct2[OF two_values_heap] by simp
qed

text \<open>The pruned search collects exactly the contained values that the bound is not below.\<close>

lemma find_le_collects:
  assumes "weak_order lt" "heap_inv lt h"
  shows "\<exists>r. find_le lt val h = Some r \<and> set r = {v \<in> elems h. \<not> lt val v}"
  by (rule weak_order.find_le_correct[OF assms])

lemma find_le_collects_witness:
  "\<exists>r. find_le (<) 1 (heap_insert (<) 1 (heap_insert (<) 2 (new_heap 3))) = Some r \<and> set r = {1}"
  using find_le_collects[OF weak_order_less conjunct1[OF two_values_heap], of 1] two_values_heap by auto

text \<open>C38. The decision queue returns a variable of maximal activity, and raising an activity,
  rescaling included, keeps the queue in order unless the 32-bit sum wraps around.\<close>

theorem decision_queue_max_activity:
  assumes "sat_queue_inv s" "\<not> queue_empty (m_case_split_queue s)"
    and "0 \<le> v" "nat v < length (m_activity s)" "unat (m_activity s ! nat v) + unat (m_activity_inc s) < 2 ^ 32"
  shows "(\<exists>x q. next_var (m_activity s) (m_case_split_queue s) = Some (x, q) \<and> x \<in> elems (m_case_split_queue s)
      \<and> (\<forall>w \<in> elems (m_case_split_queue s). m_activity s ! nat w \<le> m_activity s ! nat x)
      \<and> elems q = elems (m_case_split_queue s) - {x})
    \<and> sat_queue_inv (inc_activity v s)
    \<and> elems (m_case_split_queue (inc_activity v s)) = elems (m_case_split_queue s)"
proof -
  have "queue_inv (m_activity s) (m_case_split_queue s)" using assms(1) by (simp add: sat_queue_inv_def)
  from next_var_correct[OF this assms(2)] inc_activity_correct[OF assms(1,3-5)] show ?thesis by blast
qed

lemma decision_queue_max_activity_witness:
  "sat_queue_inv (inc_activity 0 \<lparr>m_activity = [0, 0], m_activity_inc = 128,
      m_case_split_queue = mk_var_eh [0, 0] 0 new_var_queue\<rparr>)"
proof -
  let ?q = "mk_var_eh [0, 0] 0 new_var_queue"
  let ?s = "\<lparr>m_activity = [0, 0], m_activity_inc = 128, m_case_split_queue = ?q\<rparr>"
  have q: "queue_inv [0, 0] ?q" "elems ?q = {0}"
    using mk_var_eh_correct[of "[0, 0]" new_var_queue 0] new_var_queue_correct[of "[0, 0]"] by simp_all
  then have "sat_queue_inv ?s" by (simp add: sat_queue_inv_def)
  moreover have "\<not> queue_empty (m_case_split_queue ?s)"
    using q act.empty_iff[of ?q] by (simp add: queue_empty_def queue_inv_def heap_inv_def)
  ultimately show ?thesis using decision_queue_max_activity[of ?s 0] by simp
qed

section \<open>Interval arithmetic\<close>

text \<open>The interval from 1 to 2 with an assumption for each end.\<close>

definition one_two :: old_interval where
  "one_two = num_interval 1 False (Some (Leaf 0)) 2 False (Some (Leaf 1))"

lemma one_two_facts:
  "nonempty one_two" "justified A one_two 1" "mem 1 one_two" "\<not> is_zero one_two" "\<not> contains_zero one_two"
  "address_eq (\<lambda>d d'. False)"
proof -
  show "mem 1 one_two" by (simp add: mem_def one_two_def num_interval_def)
  then show "nonempty one_two" "justified A one_two 1" by (auto simp: nonempty_def mem_justified)
qed (simp_all add: is_zero_def one_two_def num_interval_def contains_zero_def address_eq_def ext_is_neg_def)

text \<open>C39. Every end of the result of an interval operation follows from the assumptions in its
  dependency: in any situation where those are true, and the ends of the operands hold as far
  as their own dependencies are true, the end bounds the result. This holds for sums, differences and
  powers with a positive exponent; for inverses, which exist when the interval does not contain zero;
  for products whose left operand is not the zero interval; and for quotients with such a dividend and
  a divisor that does not contain zero. For a zero left operand it fails (\<open>zero_interval_dependency_too_weak\<close>).\<close>

theorem interval_ends_justified:
  assumes "address_eq same" "nonempty i" "nonempty j" "justified A i x" "justified A j y"
  shows "justified A (interval_add same i j) (x + y) \<and> justified A (interval_sub same i j) (x - y)
    \<and> (0 < n \<longrightarrow> justified A (interval_expt same i n) (x ^ n))
    \<and> (\<not> contains_zero j \<longrightarrow> (\<exists>r. interval_inv same j = Some r \<and> justified A r (1 / y)))
    \<and> (\<not> is_zero i \<longrightarrow> justified A (interval_mul same i j) (x * y))
    \<and> (\<not> is_zero i \<and> \<not> contains_zero j \<longrightarrow> (\<exists>r. interval_div same i j = Some r \<and> justified A r (x / y)))"
  using interval_add_justified[OF assms] interval_sub_justified[OF assms] interval_mul_justified[OF assms(1-3) _ assms(4,5)]
    interval_inv_justified[OF assms(1,3)] interval_div_justified[OF assms(1-3)] interval_expt_justified[OF assms(1,2)] assms(4,5)
  by blast

lemma interval_ends_justified_witness:
  "justified {1} (interval_mul (\<lambda>d d'. False) one_two one_two) (1 * 1)
   \<and> justified {1} (interval_expt (\<lambda>d d'. False) one_two 4) (1 ^ 4)
   \<and> (\<exists>r. interval_div (\<lambda>d d'. False) one_two one_two = Some r \<and> justified {1} r (1 / 1))"
proof -
  have "0 < (4 :: nat)" by simp
  then show ?thesis
    using interval_ends_justified[OF one_two_facts(6,1,1,2,2), where n = 4 and A = "{1}"] one_two_facts(4,5) by blast
qed

text \<open>C40. The operations contain every result of the operation on members, zero intervals included,
  and the membership test decides membership.\<close>

theorem interval_operations_contain:
  assumes "address_eq same" "mem x i" "mem y j" "0 < n"
  shows "mem (x + y) (interval_add same i j) \<and> mem (x - y) (interval_sub same i j)
    \<and> mem (x * y) (interval_mul same i j) \<and> mem (x ^ n) (interval_expt same i n)
    \<and> (\<not> contains_zero j \<longrightarrow> (\<exists>r. interval_div same i j = Some r \<and> mem (x / y) r))
    \<and> contains i q = mem (of_rat q) i"
proof -
  have ne: "nonempty i" "nonempty j" using assms(2,3) by (auto simp: nonempty_def)
  have "justified UNIV i x" "justified UNIV j y" using assms(2,3) by (simp_all add: justified_UNIV)
  from interval_add_justified[OF assms(1) ne this] interval_sub_justified[OF assms(1) ne this]
  show ?thesis
    using interval_mul_contains[OF assms(1-3)] interval_expt_contains[OF assms(1,2,4)]
      interval_div_contains[OF assms(1-3)] contains_iff[OF ne(1)] by (simp add: justified_UNIV)
qed

lemma interval_operations_contain_witness:
  "mem (1 * 1) (interval_mul (\<lambda>d d'. False) one_two one_two) \<and> contains one_two (3 / 2) = mem (of_rat (3 / 2)) one_two"
proof -
  have "0 < (1::nat)" by simp
  from interval_operations_contain[OF one_two_facts(6,3,3) this, of "3 / 2"] show ?thesis by blast
qed

text \<open>A zero left operand: the product is the operand itself, so its lower end only depends on the lower end
  of the zero interval, and the quotient by a negative interval only adds the divisor's upper end. In
  a situation where the upper end of the zero interval may be wrong, a positive \<open>x\<close> is possible there,
  and its product with (quotient by) a negative \<open>y\<close> is below the lower end 0 of the result.\<close>

lemma zero_interval_dependency_too_weak:
  assumes "address_eq same" "is_zero i" "nonempty i" "dep_true A (m_lower_dep i)" "\<not> dep_true A (m_upper_dep i)"
    and "0 < x" "y < 0" "ext_is_neg (m_upper j)" "nonempty j" "dep_true A (m_upper_dep j)"
  shows "justified A i x \<and> \<not> justified A (interval_mul same i j) (x * y)
    \<and> (\<exists>r. interval_div same i j = Some r \<and> \<not> justified A r (x / y))"
  using zero_mul_dependency[OF assms(2-7)] zero_div_dependency[OF assms] by blast

end
